(* ===== verification/BitZ_Prelude.thy ===== *)
theory BitZ_Prelude
  imports Main "HOL-Library.Word"
begin

text \<open>
  Shared vocabulary of the development: the machine integers of the Rust sources, the
  collections of rewrite rules that the component theories use, and generic lemmas on words,
  lists and natural numbers that several components need.

  Rust's unsigned integers are words of the library (\<open>u64\<close>, \<open>u128\<close>, ...), so arithmetic wraps
  as it does in a release build; \<open>usize\<close> indices and the small \<open>u32\<close> shift amounts are \<open>nat\<close>.
  A panic (\<open>assert!\<close>, \<open>expect\<close>, \<open>unimplemented!\<close>) is the value \<open>None\<close> of an option.
\<close>

unbundle bit_operations_syntax

type_synonym u8 = "8 word"
type_synonym u16 = "16 word"
type_synonym u32 = "32 word"
type_synonym u64 = "64 word"
type_synonym u128 = "128 word"

section \<open>Collections of rewrite rules\<close>

named_theorems word_nat \<open>rules that move word arithmetic to natural numbers\<close>
named_theorems bitlen_simps \<open>rules about bit lengths\<close>

lemmas [word_nat] =
  unat_word_ariths unsigned_and_eq unsigned_or_eq unsigned_xor_eq
  word_le_nat_alt word_less_nat_alt

section \<open>Machine integer primitives of the Rust standard library\<close>

definition overflowing_add :: "'a::len word \<Rightarrow> 'a word \<Rightarrow> 'a word \<times> bool" where
  "overflowing_add a b = (a + b, 2 ^ LENGTH('a) \<le> unat a + unat b)"

definition overflowing_sub :: "'a::len word \<Rightarrow> 'a word \<Rightarrow> 'a word \<times> bool" where
  "overflowing_sub a b = (a - b, a < b)"

text \<open>The bit length of a number, \<open>BITS - leading_zeros\<close> of the Rust sources.\<close>

fun bitlen :: "nat \<Rightarrow> nat" where
  "bitlen n = (if n = 0 then 0 else Suc (bitlen (n div 2)))"

declare bitlen.simps [simp del]

definition leading_zeros :: "'a::len word \<Rightarrow> nat" where
  "leading_zeros w = LENGTH('a) - bitlen (unat w)"

text \<open>\<open>trailing_zeros\<close>: the width for zero, else the index of the lowest set bit.\<close>

function trailing_zeros_nat :: "nat \<Rightarrow> nat" where
  "trailing_zeros_nat n = (if n = 0 \<or> odd n then 0 else Suc (trailing_zeros_nat (n div 2)))"
  by pat_completeness auto
termination
  by (relation "measure id") auto

declare trailing_zeros_nat.simps [simp del]

definition trailing_zeros :: "'a::len word \<Rightarrow> nat" where
  "trailing_zeros w = (if w = 0 then LENGTH('a) else trailing_zeros_nat (unat w))"

lemma bitlen_0 [simp, bitlen_simps]: "bitlen 0 = 0"
  by (simp add: bitlen.simps)

lemma bitlen_pos [bitlen_simps]: "0 < n \<Longrightarrow> bitlen n = Suc (bitlen (n div 2))"
  by (simp add: bitlen.simps [of n])

lemma bitlen_eq_0 [simp]: "bitlen n = 0 \<longleftrightarrow> n = 0"
  by (simp add: bitlen.simps [of n])

lemma bitlen_bounds: "0 < n \<Longrightarrow> 2 ^ (bitlen n - 1) \<le> n \<and> n < 2 ^ bitlen n"
proof (induction n rule: bitlen.induct)
  case (1 n)
  show ?case
  proof (cases "n div 2 = 0")
    case True
    with 1 have "n = 1" by auto
    then show ?thesis by (simp add: bitlen_pos)
  next
    case False
    with 1 have ih: "2 ^ (bitlen (n div 2) - 1) \<le> n div 2" "n div 2 < 2 ^ bitlen (n div 2)"
      by auto
    from False have "bitlen (n div 2) \<noteq> 0" by simp
    then obtain m where m: "bitlen (n div 2) = Suc m" by (cases "bitlen (n div 2)") auto
    from ih m have "2 * 2 ^ m \<le> n" "n < 2 * 2 ^ Suc m" by auto
    with 1 m show ?thesis by (simp add: bitlen_pos)
  qed
qed

lemma bitlen_less: "n < 2 ^ bitlen n"
  using bitlen_bounds [of n] by (cases "n = 0") auto

lemma bitlen_le_iff: "bitlen n \<le> k \<longleftrightarrow> n < 2 ^ k"
proof
  assume "bitlen n \<le> k"
  then have "(2::nat) ^ bitlen n \<le> 2 ^ k" by (intro power_increasing) auto
  with bitlen_less [of n] show "n < 2 ^ k" by linarith
next
  assume *: "n < 2 ^ k"
  show "bitlen n \<le> k"
  proof (rule ccontr)
    assume "\<not> bitlen n \<le> k"
    then have "k \<le> bitlen n - 1" and "n \<noteq> 0" by (auto intro: ccontr)
    from this(1) have "(2::nat) ^ k \<le> 2 ^ (bitlen n - 1)" by (intro power_increasing) auto
    moreover have "2 ^ (bitlen n - 1) \<le> n"
      using bitlen_bounds [of n] \<open>n \<noteq> 0\<close> by simp
    ultimately show False using * by linarith
  qed
qed

lemma bitlen_unat_le: "bitlen (unat (w :: 'a::len word)) \<le> LENGTH('a)"
  by (simp add: bitlen_le_iff)

lemma bitlen_unique: "2 ^ k \<le> n \<Longrightarrow> n < 2 ^ Suc k \<Longrightarrow> bitlen n = Suc k"
proof -
  assume *: "2 ^ k \<le> n" "n < 2 ^ Suc k"
  from * have "bitlen n \<le> Suc k" by (simp only: bitlen_le_iff)
  moreover from * have "\<not> bitlen n \<le> k" by (simp add: bitlen_le_iff)
  ultimately show ?thesis by simp
qed

lemma width_minus_leading_zeros: "LENGTH('a) - leading_zeros (w :: 'a::len word) = bitlen (unat w)"
  using bitlen_unat_le [of w] by (simp add: leading_zeros_def)

lemma trailing_zeros_nat_split:
  "0 < n \<Longrightarrow> n = 2 ^ trailing_zeros_nat n * (n div 2 ^ trailing_zeros_nat n)
     \<and> odd (n div 2 ^ trailing_zeros_nat n)"
proof (induction n rule: trailing_zeros_nat.induct)
  case (1 n)
  show ?case
  proof (cases "odd n")
    case True
    then show ?thesis by (simp add: trailing_zeros_nat.simps [of n])
  next
    case False
    with 1 have tz: "trailing_zeros_nat n = Suc (trailing_zeros_nat (n div 2))"
      by (simp add: trailing_zeros_nat.simps [of n])
    from 1 False have ih: "n div 2 = 2 ^ trailing_zeros_nat (n div 2) * (n div 2 div 2 ^ trailing_zeros_nat (n div 2))"
      "odd (n div 2 div 2 ^ trailing_zeros_nat (n div 2))"
      by auto
    have d: "n div 2 ^ trailing_zeros_nat n = n div 2 div 2 ^ trailing_zeros_nat (n div 2)"
      by (simp add: tz div_mult2_eq)
    from False have "n = 2 * (n div 2)" by auto
    also have "\<dots> = 2 ^ trailing_zeros_nat n * (n div 2 ^ trailing_zeros_nat n)"
      using ih(1) unfolding d unfolding tz by simp
    finally show ?thesis using ih(2) d by simp
  qed
qed

section \<open>Words as natural numbers\<close>

lemma unat_lt2p: "unat (w :: 'a::len word) < 2 ^ LENGTH('a)"
  by (rule unsigned_less)

lemma unat_ucast_mod: "unat (ucast (w :: 'a::len word) :: 'b::len word) = unat w mod 2 ^ LENGTH('b)"
  unfolding unsigned_ucast_eq by (simp only: take_bit_eq_mod)

lemma unat_of_bool [simp]: "unat (of_bool b :: 'a::len word) = of_bool b"
  by (cases b) auto

lemma unat_add_lt: "unat (a :: 'a::len word) + unat b < 2 ^ LENGTH('a) \<Longrightarrow> unat (a + b) = unat a + unat b"
  by (simp add: unat_word_ariths)

lemma unat_mult_lt: "unat (a :: 'a::len word) * unat b < 2 ^ LENGTH('a) \<Longrightarrow> unat (a * b) = unat a * unat b"
  by (simp add: unat_word_ariths)

lemma unat_minus_le: "b \<le> (a :: 'a::len word) \<Longrightarrow> unat (a - b) = unat a - unat b"
  by (simp add: unat_sub)

lemma unat_drop_bit [word_nat]: "unat (drop_bit n (w :: 'a::len word)) = unat w div 2 ^ n"
proof -
  have "take_bit LENGTH('a) (unat w) = unat w"
    by (simp add: take_bit_nat_eq_self_iff)
  then show ?thesis
    unfolding unsigned_drop_bit_eq by (simp only: drop_bit_eq_div)
qed

lemma unat_push_bit_mod [word_nat]:
  "unat (push_bit n (w :: 'a::len word)) = unat w * 2 ^ n mod 2 ^ LENGTH('a)"
  by (simp add: unsigned_push_bit_eq) (simp only: push_bit_eq_mult take_bit_eq_mod)

lemma unat_push_bit_lt:
  "unat (w :: 'a::len word) * 2 ^ n < 2 ^ LENGTH('a) \<Longrightarrow> unat (push_bit n w) = unat w * 2 ^ n"
  by (simp add: unat_push_bit_mod)

lemma or_eq_add: "a AND b = 0 \<Longrightarrow> a OR b = (a :: 'a::len word) + b"
  by (simp add: disjunctive_add_eq_or)

lemma drop_bit_and_1: "drop_bit i (w :: 'a::len word) AND 1 = 1 \<longleftrightarrow> bit w i"
  by (simp add: and_one_eq bit_iff_odd_drop_bit odd_iff_mod_2_eq_one)


lemma overflowing_add_exact:
  fixes a b :: "'a::len word"
  shows "unat (fst (overflowing_add a b)) + 2 ^ LENGTH('a) * of_bool (snd (overflowing_add a b))
    = unat a + unat b"
proof (cases "2 ^ LENGTH('a) \<le> unat a + unat b")
  case True
  moreover have "unat a + unat b < 2 * 2 ^ LENGTH('a)"
    using unat_lt2p [of a] unat_lt2p [of b] by linarith
  ultimately have "(unat a + unat b) div 2 ^ LENGTH('a) = 1"
    by (intro div_nat_eqI) auto
  with True show ?thesis
    using div_mult_mod_eq [of "unat a + unat b" "2 ^ LENGTH('a)"]
    by (simp add: overflowing_add_def unat_word_ariths)
next
  case False
  then show ?thesis by (simp add: overflowing_add_def unat_add_lt)
qed

lemma bit_word_odd: "bit (w :: 'a::len word) i \<longleftrightarrow> odd (unat w div 2 ^ i)"
proof -
  have "bit w i = bit (unat w) i"
    using bit_imp_le_length [of w i] by (auto simp: bit_unsigned_iff)
  then show ?thesis by (simp add: bit_iff_odd)
qed

lemma div_power_step: "n div 2 ^ i = 2 * (n div 2 ^ Suc i) + of_bool (odd (n div 2 ^ i))" for n :: nat
proof -
  have "n div 2 ^ Suc i = n div 2 ^ i div 2"
    by (simp add: div_mult2_eq [symmetric] mult.commute)
  then show ?thesis by (cases "odd (n div 2 ^ i)") simp_all
qed

section \<open>Little-endian bytes\<close>

text \<open>\<open>to_le_bytes\<close> and \<open>from_le_bytes\<close> of an integer type of \<open>n\<close> bytes.\<close>

definition to_le_bytes :: "nat \<Rightarrow> 'a::len word \<Rightarrow> u8 list" where
  "to_le_bytes n w = map (\<lambda>i. ucast (drop_bit (8 * i) w)) [0..<n]"

fun from_le_bytes :: "u8 list \<Rightarrow> 'a::len word" where
  "from_le_bytes [] = 0"
| "from_le_bytes (b # bs) = ucast b OR push_bit 8 (from_le_bytes bs)"

lemma length_to_le_bytes [simp]: "length (to_le_bytes n w) = n"
  by (simp add: to_le_bytes_def)

lemma bit_from_le_bytes:
  "bit (from_le_bytes bs :: 'a::len word) i \<longleftrightarrow> i < LENGTH('a) \<and> i < 8 * length bs \<and> bit (bs ! (i div 8)) (i mod 8)"
proof (induction bs arbitrary: i)
  case (Cons b bs)
  show ?case
  proof (cases "i < 8")
    case True
    then show ?thesis
      by (auto simp: bit_or_iff bit_push_bit_iff bit_ucast_iff dest: bit_imp_le_length)
  next
    case False
    then have d: "i div 8 = Suc ((i - 8) div 8)" "i mod 8 = (i - 8) mod 8" "i = 8 + (i - 8)"
      by (simp_all add: le_div_geq le_mod_geq)
    have "\<not> bit b i" using False bit_imp_le_length [of b i] by auto
    then have "bit (from_le_bytes (b # bs) :: 'a word) i \<longleftrightarrow>
        i < LENGTH('a) \<and> bit (from_le_bytes bs :: 'a word) (i - 8)"
      using False by (auto simp: bit_or_iff bit_push_bit_iff bit_ucast_iff not_less)
    then show ?thesis using False by (auto simp: Cons.IH d(1,2))
  qed
qed simp

lemma from_to_le_bytes:
  assumes "LENGTH('a) \<le> 8 * n"
  shows "from_le_bytes (to_le_bytes n w) = (w :: 'a::len word)"
proof (rule bit_word_eqI)
  fix i assume "i < LENGTH('a)"
  moreover with assms have "i div 8 < n" by auto
  moreover have "i mod 8 < 8" by simp
  ultimately show "bit (from_le_bytes (to_le_bytes n w) :: 'a word) i = bit w i"
    using assms
    by (simp del: mod_less_divisor add: bit_from_le_bytes to_le_bytes_def bit_ucast_iff bit_drop_bit_eq add.commute)
qed

lemma to_from_le_bytes:
  assumes "length bs = n" "8 * n \<le> LENGTH('a)"
  shows "to_le_bytes n (from_le_bytes bs :: 'a::len word) = bs"
proof (rule nth_equalityI)
  show "length (to_le_bytes n (from_le_bytes bs :: 'a word)) = length bs" using assms by simp
  fix k assume "k < length (to_le_bytes n (from_le_bytes bs :: 'a word))"
  then have k: "k < n" by simp
  show "to_le_bytes n (from_le_bytes bs :: 'a word) ! k = bs ! k"
  proof (rule bit_word_eqI)
    fix i :: nat assume "i < LENGTH(8)"
    then have i: "i < 8" by simp
    with k have "8 * k + i < 8 * n" by simp
    with k i assms show "bit (to_le_bytes n (from_le_bytes bs :: 'a word) ! k) i = bit (bs ! k) i"
      by (simp add: to_le_bytes_def bit_ucast_iff bit_drop_bit_eq bit_from_le_bytes)
  qed
qed

end
