(* ===== verification/Gf2_Poly.thy ===== *)
theory Gf2_Poly
  imports BitZ_Prelude
begin

text \<open>
  Polynomials over the two-element field, written as natural numbers: bit \<open>i\<close> is the coefficient
  of \<open>X ^ i\<close>, addition is \<open>XOR\<close>, and \<open>clm\<close> is the carryless product.  This is the reference
  that the word kernels of \<open>crates/field/src/gf128\<close> are compared with; nothing here models code.
\<close>

section \<open>Exclusive or on natural numbers\<close>

lemma xor_left_cancel_nat [simp]: "a XOR (a XOR b) = (b :: nat)"
  by (simp add: xor.assoc [symmetric])

lemmas xor_ac = xor.assoc xor.commute xor.left_commute

lemma double_xor: "2 * (a XOR b) = (2 * a) XOR (2 * (b :: nat))"
  using push_bit_xor [of 1 a b] by (simp add: push_bit_eq_mult mult.commute)

lemma power2_times_xor: "2 ^ n * (a XOR b) = (2 ^ n * a) XOR (2 ^ n * (b :: nat))"
  using push_bit_xor [of n a b] by (simp add: push_bit_eq_mult mult.commute)

lemma xor_div_2: "(a XOR b) div 2 = (a div 2) XOR (b div 2 :: nat)"
  using drop_bit_xor [of 1 a b] by (simp add: drop_bit_eq_div)

lemma xor_div_power2: "(a XOR b) div 2 ^ n = (a div 2 ^ n) XOR (b div 2 ^ n :: nat)"
  using drop_bit_xor [of n a b] by (simp add: drop_bit_eq_div)

lemma xor_mod_power2: "(a XOR b) mod 2 ^ n = (a mod 2 ^ n) XOR (b mod 2 ^ n :: nat)"
  using take_bit_xor [of n a b] by (simp add: take_bit_eq_mod)

lemma odd_xor: "odd (a XOR b) \<longleftrightarrow> odd a \<noteq> odd (b :: nat)"
  using bit_xor_iff [of a b 0] by (simp add: bit_0)

lemma xor_less_power2: "a < 2 ^ n \<Longrightarrow> b < 2 ^ n \<Longrightarrow> a XOR b < (2 :: nat) ^ n"
  using xor_mod_power2 [of a b n] by (metis mod_less mod_less_divisor zero_less_numeral zero_less_power)

lemma xor_disjoint_add: "a < 2 ^ n \<Longrightarrow> a XOR 2 ^ n * b = a + 2 ^ n * (b :: nat)"
proof -
  assume a: "a < 2 ^ n"
  have d: "(a XOR 2 ^ n * b) div 2 ^ n = b" using a by (simp add: xor_div_power2)
  have "(a XOR 2 ^ n * b) mod 2 ^ n = a" using a by (simp add: xor_mod_power2)
  with d show ?thesis
    by (metis add.commute mult_div_mod_eq)
qed

lemma low_bit_xor: "of_bool (odd n) XOR 2 * (n div 2) = (n :: nat)"
  using xor_disjoint_add [of "of_bool (odd n)" 1 "n div 2"] by simp

lemma xor_leading:
  assumes "a < 2 ^ k" "2 ^ k \<le> b" "b < 2 ^ Suc k"
  shows "2 ^ k \<le> a XOR b \<and> a XOR b < (2 :: nat) ^ Suc k"
proof -
  have "b div 2 ^ k = 1" using assms(2,3) by (intro div_nat_eqI) simp_all
  with assms(1) have d: "(a XOR b) div 2 ^ k = 1" by (simp add: xor_div_power2)
  have "a XOR b = 2 ^ k + (a XOR b) mod 2 ^ k"
    using div_mult_mod_eq [of "a XOR b" "2 ^ k"] d by simp
  moreover have "(a XOR b) mod 2 ^ k < 2 ^ k" by simp
  ultimately show ?thesis by (metis add_less_cancel_left le_add1 mult_2 power_Suc)
qed

section \<open>The carryless product\<close>

fun clm :: "nat \<Rightarrow> nat \<Rightarrow> nat" where
  "clm a b = (if b = 0 then 0 else (if odd b then a else 0) XOR 2 * clm a (b div 2))"

declare clm.simps [simp del]

lemma clm_0_right [simp]: "clm a 0 = 0"
  by (simp add: clm.simps)

lemma clm_rec: "clm a b = (if odd b then a else 0) XOR 2 * clm a (b div 2)"
  by (cases "b = 0") (simp_all add: clm.simps [of a b])

lemma clm_0_left [simp]: "clm 0 b = 0"
  by (induction "0 :: nat" b rule: clm.induct) (simp add: clm.simps)

lemma clm_1_right [simp]: "clm a (Suc 0) = a"
  by (simp add: clm_rec [of a "Suc 0"])

lemma clm_1_left [simp]: "clm (Suc 0) b = b"
proof (induction "Suc 0" b rule: clm.induct)
  case (1 b)
  then show ?case
    using low_bit_xor [of b] by (cases "b = 0") (simp_all only: clm_rec [of _ b] of_bool_def One_nat_def clm_0_right not_False_eq_True)
qed

lemma clm_double_left: "clm (2 * a) b = 2 * clm a b"
proof (induction a b rule: clm.induct)
  case (1 a b)
  then show ?case
    by (cases "b = 0") (auto simp: clm_rec [of _ b] double_xor)
qed

lemma clm_double_right: "clm a (2 * b) = 2 * clm a b"
  by (simp add: clm_rec [of a "2 * b"])

lemma clm_xor_left: "clm (a XOR a') b = clm a b XOR clm a' b"
proof (induction a b rule: clm.induct)
  case (1 a b)
  then show ?case
    by (cases "b = 0")
      (auto simp: clm_rec [of _ b] double_xor ac_simps)
qed

lemma clm_xor_right: "clm a (b XOR b') = clm a b XOR clm a b'"
proof (induction a b arbitrary: b' rule: clm.induct)
  case (1 a b)
  show ?case
  proof (cases "b = 0")
    case False
    have "clm a (b XOR b') = (if odd b \<noteq> odd b' then a else 0)
        XOR 2 * (clm a (b div 2) XOR clm a (b' div 2))"
      by (simp only: clm_rec [of a "b XOR b'"] odd_xor xor_div_2 1 [OF False, of "b' div 2"])
    then show ?thesis
      by (simp add: clm_rec [of a b] clm_rec [of a b'] double_xor ac_simps)
  qed simp
qed

lemma clm_commute: "clm a b = clm b a"
proof (induction b a rule: clm.induct)
  case (1 b a)
  show ?case
  proof (cases "a = 0")
    case False
    have a: "a = of_bool (odd a) XOR 2 * (a div 2)"
      by (rule low_bit_xor [symmetric])
    have "clm a b = clm (of_bool (odd a)) b XOR 2 * clm (a div 2) b"
      by (subst a) (simp only: clm_xor_left clm_double_left)
    then show ?thesis using 1 [OF False] by (simp add: clm_rec [of b a])
  qed simp
qed

lemma clm_assoc: "clm (clm a b) c = clm a (clm b c)"
proof (induction "clm a b" c rule: clm.induct)
  case (1 c)
  show ?case
  proof (cases "c = 0")
    case False
    then show ?thesis
      using 1 [OF False] by (simp add: clm_rec [of _ c] clm_xor_right clm_double_right)
  qed simp
qed

lemma clm_power2_left: "clm (2 ^ n * a) b = 2 ^ n * clm a b"
  by (induction n) (simp_all add: clm_double_left mult.assoc)

lemma clm_power2_right: "clm a (2 ^ n * b) = 2 ^ n * clm a b"
  using clm_power2_left [of n b a] by (simp add: clm_commute)

lemma clm_degree:
  assumes "2 ^ n \<le> a" "a < 2 ^ Suc n" "2 ^ m \<le> b" "b < 2 ^ Suc m"
  shows "2 ^ (n + m) \<le> clm a b \<and> clm a b < 2 ^ Suc (n + m)"
  using assms(3,4)
proof (induction m arbitrary: b)
  case 0
  then have "b = 1" by simp
  with assms show ?case by simp
next
  case (Suc m)
  then have "2 ^ m \<le> b div 2" "b div 2 < 2 ^ Suc m" by auto
  from Suc.IH [OF this] have ih: "2 ^ Suc (n + m) \<le> 2 * clm a (b div 2)"
    "2 * clm a (b div 2) < 2 ^ Suc (Suc (n + m))" by auto
  have "(2 :: nat) ^ Suc n \<le> 2 ^ Suc (n + m)" by (intro power_increasing) auto
  with assms(2) have "(if odd b then a else 0) < 2 ^ Suc (n + m)"
    by (auto simp del: power_Suc intro: less_le_trans)
  from xor_leading [OF this ih] show ?case by (simp add: clm_rec [of a b])
qed

lemma clm_less:
  assumes "a < 2 ^ Suc n" "b < 2 ^ Suc m"
  shows "clm a b < 2 ^ Suc (n + m)"
proof (cases "a = 0 \<or> b = 0")
  case False
  define i where "i = bitlen a - 1"
  define j where "j = bitlen b - 1"
  from False have i: "bitlen a = Suc i" and j: "bitlen b = Suc j"
    by (simp_all add: i_def j_def bitlen_pos)
  have "clm a b < 2 ^ Suc (i + j)"
    using clm_degree [of i a j b] bitlen_bounds [of a] bitlen_bounds [of b] False i j by simp
  moreover have "i \<le> n" "j \<le> m"
    using assms bitlen_le_iff [of a "Suc n"] bitlen_le_iff [of b "Suc m"] i j by simp_all
  then have "(2 :: nat) ^ Suc (i + j) \<le> 2 ^ Suc (n + m)" by (intro power_increasing) auto
  ultimately show ?thesis by (rule less_le_trans)
qed auto

lemma clm_eq_0_iff: "clm a b = 0 \<longleftrightarrow> a = 0 \<or> b = 0"
proof (cases "a = 0 \<or> b = 0")
  case False
  define i where "i = bitlen a - 1"
  define j where "j = bitlen b - 1"
  from False have i: "bitlen a = Suc i" and j: "bitlen b = Suc j"
    by (simp_all add: i_def j_def bitlen_pos)
  have "2 ^ (i + j) \<le> clm a b"
    using clm_degree [of i a j b] bitlen_bounds [of a] bitlen_bounds [of b] False i j by simp
  moreover have "0 < (2 :: nat) ^ (i + j)" by simp
  ultimately show ?thesis using False by linarith
qed auto

section \<open>The quotient by \<open>X^128 + X^7 + X^2 + X + 1\<close>\<close>

definition ghash_poly :: nat where
  "ghash_poly = 2 ^ 128 + 135"

definition cong_ghash :: "nat \<Rightarrow> nat \<Rightarrow> bool" where
  "cong_ghash a b = (\<exists>k. a XOR b = clm k ghash_poly)"

lemma cong_ghash_refl [simp]: "cong_ghash a a"
  by (auto simp: cong_ghash_def intro: exI [of _ 0])

lemma cong_ghash_sym: "cong_ghash a b \<Longrightarrow> cong_ghash b a"
  by (simp add: cong_ghash_def ac_simps)

lemma cong_ghash_trans [trans]: "cong_ghash a b \<Longrightarrow> cong_ghash b c \<Longrightarrow> cong_ghash a c"
proof -
  assume "cong_ghash a b" "cong_ghash b c"
  then obtain k l where "a XOR b = clm k ghash_poly" "b XOR c = clm l ghash_poly"
    by (auto simp: cong_ghash_def)
  then have "a XOR c = clm (k XOR l) ghash_poly"
    unfolding clm_xor_left by (metis xor.assoc xor_left_cancel_nat)
  then show ?thesis by (auto simp: cong_ghash_def)
qed

lemma cong_ghash_xor: "cong_ghash a b \<Longrightarrow> cong_ghash c d \<Longrightarrow> cong_ghash (a XOR c) (b XOR d)"
proof -
  assume "cong_ghash a b" "cong_ghash c d"
  then obtain k l where kl: "a XOR b = clm k ghash_poly" "c XOR d = clm l ghash_poly"
    by (auto simp: cong_ghash_def)
  have "(a XOR c) XOR (b XOR d) = (a XOR b) XOR (c XOR d)" by (simp add: ac_simps)
  also have "\<dots> = clm (k XOR l) ghash_poly" by (simp only: kl clm_xor_left)
  finally show ?thesis by (auto simp: cong_ghash_def)
qed

lemma cong_ghash_clm_right: "cong_ghash a b \<Longrightarrow> cong_ghash (clm c a) (clm c b)"
proof -
  assume "cong_ghash a b"
  then obtain k where "a XOR b = clm k ghash_poly" by (auto simp: cong_ghash_def)
  then have "clm c a XOR clm c b = clm (clm c k) ghash_poly"
    by (simp add: clm_assoc flip: clm_xor_right)
  then show ?thesis by (auto simp: cong_ghash_def)
qed

lemma cong_ghash_clm: "cong_ghash a b \<Longrightarrow> cong_ghash c d \<Longrightarrow> cong_ghash (clm a c) (clm b d)"
  using cong_ghash_clm_right [of a b c] cong_ghash_clm_right [of c d b]
  by (metis clm_commute cong_ghash_trans)

lemma ghash_poly_bounds: "2 ^ 128 \<le> ghash_poly" "ghash_poly < 2 ^ Suc 128"
  by (simp_all add: ghash_poly_def)

text \<open>Two polynomials of degree below 128 that are congruent are equal.\<close>

lemma cong_ghash_unique:
  assumes "cong_ghash a b" "a < 2 ^ 128" "b < 2 ^ 128"
  shows "a = b"
proof -
  obtain k where k: "a XOR b = clm k ghash_poly" using assms(1) by (auto simp: cong_ghash_def)
  have "k = 0"
  proof (rule ccontr)
    assume "k \<noteq> 0"
    then obtain j where j: "bitlen k = Suc j" by (auto simp: bitlen_pos)
    have "2 ^ (128 + j) \<le> clm ghash_poly k"
      using clm_degree [OF ghash_poly_bounds, of j k] bitlen_bounds [of k] j \<open>k \<noteq> 0\<close> by simp
    moreover have "(2 :: nat) ^ 128 \<le> 2 ^ (128 + j)" by (intro power_increasing) auto
    moreover have "a XOR b < 2 ^ 128" by (rule xor_less_power2 [OF assms(2,3)])
    ultimately show False using k clm_commute [of k ghash_poly] by linarith
  qed
  with k have "a XOR b = 0" by simp
  then show ?thesis by (metis xor.right_neutral xor_left_cancel_nat)
qed

text \<open>The fold step: the part above \<open>X^128\<close> times \<open>X^7 + X^2 + X + 1\<close>.\<close>

lemma cong_ghash_fold: "cong_ghash (lo XOR 2 ^ 128 * w) (lo XOR clm w 135)"
proof -
  have "ghash_poly = 135 XOR 2 ^ 128 * 1"
    by (subst xor_disjoint_add) (simp_all add: ghash_poly_def)
  then have "clm w ghash_poly = clm w 135 XOR 2 ^ 128 * w"
    by (metis clm_xor_right clm_power2_right clm_1_right One_nat_def)
  then have "(lo XOR 2 ^ 128 * w) XOR (lo XOR clm w 135) = clm w ghash_poly"
    by (simp add: ac_simps)
  then show ?thesis by (auto simp: cong_ghash_def)
qed

end
