(* ===== verification/Gf128.thy ===== *)
theory Gf128
  imports Gf2_Poly
begin

text \<open>
  The GHASH field of \<open>crates/field/src/gf128.rs\<close> with the portable kernel
  \<open>gf128/portable.rs\<close> and the deferred-reduction accumulator \<open>gf128/wide.rs\<close>.

  A kernel value \<open>[u64; 2]\<close> is a pair, a \<open>Wide\<close> value \<open>[u64; 4]\<close> a quadruple, least significant
  word first.  \<open>F128\<close> is a datatype with the source's two words, so that the arithmetic type
  classes can be instantiated on it.  The NEON kernel \<open>aarch64.rs\<close> (intrinsics) is not modelled.
\<close>

section \<open>The portable kernel\<close>

type_synonym words2 = "u64 \<times> u64"
type_synonym words4 = "u64 \<times> u64 \<times> u64 \<times> u64"

definition REDUCTION :: u64 where
  "REDUCTION = 0x87"

definition clmul64_step :: "u64 \<Rightarrow> u64 \<Rightarrow> nat \<Rightarrow> words2 \<Rightarrow> words2" where
  "clmul64_step a b i = (\<lambda>(lo, hi).
     if drop_bit i b AND 1 = 1
     then (lo XOR push_bit i a, if 0 < i then hi XOR drop_bit (64 - i) a else hi)
     else (lo, hi))"

definition clmul64 :: "u64 \<Rightarrow> u64 \<Rightarrow> words2" where
  "clmul64 a b = fold (clmul64_step a b) [0..<64] (0, 0)"

definition clmul128 :: "words2 \<Rightarrow> words2 \<Rightarrow> words4" where
  "clmul128 a b =
     (let (l0, l1) = clmul64 (fst a) (fst b);
          (h0, h1) = clmul64 (snd a) (snd b);
          (m0, m1) = clmul64 (fst a) (snd b);
          (n0, n1) = clmul64 (snd a) (fst b)
      in (l0, l1 XOR m0 XOR n0, h0 XOR m1 XOR n1, h1))"

definition times_g :: "u64 \<Rightarrow> words2" where
  "times_g w =
     (w XOR push_bit 1 w XOR push_bit 2 w XOR push_bit 7 w,
      drop_bit 63 w XOR drop_bit 62 w XOR drop_bit 57 w)"

definition reduce :: "words4 \<Rightarrow> words2" where
  "reduce = (\<lambda>(r0, r1, r2, r3).
     let (a0, a1) = times_g r2;
         (b0, b1) = times_g r3;
         w0 = r0 XOR a0;
         w1 = r1 XOR a1 XOR b0
     in (w0 XOR b1 XOR push_bit 1 b1 XOR push_bit 2 b1 XOR push_bit 7 b1, w1))"

definition k_mul :: "words2 \<Rightarrow> words2 \<Rightarrow> words2" where
  "k_mul a b = reduce (clmul128 a b)"

definition k_square :: "words2 \<Rightarrow> words2" where
  "k_square a =
     (let (l0, l1) = clmul64 (fst a) (fst a);
          (h0, h1) = clmul64 (snd a) (snd a)
      in reduce (l0, l1, h0, h1))"

definition k_square_n :: "words2 \<Rightarrow> nat \<Rightarrow> words2" where
  "k_square_n a k = (k_square ^^ k) a"

definition wide_zero :: words4 where
  "wide_zero = (0, 0, 0, 0)"

definition wide_of :: "words2 \<Rightarrow> words4" where
  "wide_of a = (fst a, snd a, 0, 0)"

definition wide_mul :: "words2 \<Rightarrow> words2 \<Rightarrow> words4" where
  "wide_mul a b = clmul128 a b"

definition wide_add :: "words4 \<Rightarrow> words4 \<Rightarrow> words4" where
  "wide_add x y = (case (x, y) of ((x0, x1, x2, x3), (y0, y1, y2, y3)) \<Rightarrow>
     (x0 XOR y0, x1 XOR y1, x2 XOR y2, x3 XOR y3))"

definition wide_add_low :: "words4 \<Rightarrow> words2 \<Rightarrow> words4" where
  "wide_add_low x a = (case x of (x0, x1, x2, x3) \<Rightarrow> (x0 XOR fst a, x1 XOR snd a, x2, x3))"

definition wide_reduce :: "words4 \<Rightarrow> words2" where
  "wide_reduce w = reduce w"

definition k_mul_x :: "words2 \<Rightarrow> words2" where
  "k_mul_x a =
     (let carry = - drop_bit 63 (snd a)
      in (push_bit 1 (fst a) XOR (carry AND REDUCTION), push_bit 1 (snd a) OR drop_bit 63 (fst a)))"

section \<open>Field elements\<close>

datatype f128 = F128 (lo: u64) (hi: u64)

definition f128_words :: "f128 \<Rightarrow> words2" where
  "f128_words a = (lo a, hi a)"

definition f128_of_words :: "words2 \<Rightarrow> f128" where
  "f128_of_words w = F128 (fst w) (snd w)"

definition f128_GENERATOR :: f128 where
  "f128_GENERATOR = F128 2 0"

definition f128_ZERO :: f128 where
  "f128_ZERO = F128 0 0"

definition f128_ONE :: f128 where
  "f128_ONE = F128 1 0"

definition f128_is_zero :: "f128 \<Rightarrow> bool" where
  "f128_is_zero a = (lo a = 0 \<and> hi a = 0)"

definition f128_zeroed_vec :: "nat \<Rightarrow> f128 list" where
  "f128_zeroed_vec n = replicate n (F128 0 0)"

definition f128_square :: "f128 \<Rightarrow> f128" where
  "f128_square a = f128_of_words (k_square (f128_words a))"

definition f128_square_n :: "f128 \<Rightarrow> nat \<Rightarrow> f128" where
  "f128_square_n a k = f128_of_words (k_square_n (f128_words a) k)"

definition f128_mul_x :: "f128 \<Rightarrow> f128" where
  "f128_mul_x a = f128_of_words (k_mul_x (f128_words a))"

definition f128_add :: "f128 \<Rightarrow> f128 \<Rightarrow> f128" where
  "f128_add a b = F128 (lo a XOR lo b) (hi a XOR hi b)"

definition f128_sub :: "f128 \<Rightarrow> f128 \<Rightarrow> f128" where
  "f128_sub a b = F128 (lo a XOR lo b) (hi a XOR hi b)"

definition f128_neg :: "f128 \<Rightarrow> f128" where
  "f128_neg a = a"

definition f128_mul :: "f128 \<Rightarrow> f128 \<Rightarrow> f128" where
  "f128_mul a b = f128_of_words (k_mul (f128_words a) (f128_words b))"

definition f128_sum :: "f128 list \<Rightarrow> f128" where
  "f128_sum xs = foldl f128_add f128_ZERO xs"

definition f128_product :: "f128 list \<Rightarrow> f128" where
  "f128_product xs = foldl f128_mul f128_ONE xs"

definition f128_from_bool :: "bool \<Rightarrow> f128" where
  "f128_from_bool b = F128 (of_bool b) 0"

definition f128_from_u128 :: "u128 \<Rightarrow> f128" where
  "f128_from_u128 value = F128 (ucast value) (ucast (drop_bit 64 value))"

definition f128_from_u64 :: "u64 \<Rightarrow> f128" where
  "f128_from_u64 value = F128 value 0"

definition f128_to_u128 :: "f128 \<Rightarrow> u128" where
  "f128_to_u128 a = ucast (lo a) OR push_bit 64 (ucast (hi a))"

definition f128_to_bytes :: "f128 \<Rightarrow> u8 list" where
  "f128_to_bytes a = to_le_bytes 8 (lo a) @ to_le_bytes 8 (hi a)"

definition f128_from_bytes :: "u8 list \<Rightarrow> f128" where
  "f128_from_bytes bytes = F128 (from_le_bytes (take 8 bytes)) (from_le_bytes (drop 8 bytes))"

text \<open>The accumulator \<open>Wide256\<close> of \<open>wide.rs\<close>.\<close>

definition wide256_zero :: words4 where
  "wide256_zero = wide_zero"

definition wide256_of :: "f128 \<Rightarrow> words4" where
  "wide256_of a = wide_of (f128_words a)"

definition wide256_mul :: "f128 \<Rightarrow> f128 \<Rightarrow> words4" where
  "wide256_mul a b = wide_mul (f128_words a) (f128_words b)"

definition wide256_reduce :: "words4 \<Rightarrow> f128" where
  "wide256_reduce w = f128_of_words (wide_reduce w)"

definition wide256_add :: "words4 \<Rightarrow> words4 \<Rightarrow> words4" where
  "wide256_add x y = wide_add x y"

definition wide256_add_low :: "words4 \<Rightarrow> f128 \<Rightarrow> words4" where
  "wide256_add_low x a = wide_add_low x (f128_words a)"

section \<open>Words as polynomials\<close>

definition val2 :: "words2 \<Rightarrow> nat" where
  "val2 a = unat (fst a) XOR 2 ^ 64 * unat (snd a)"

definition val4 :: "words4 \<Rightarrow> nat" where
  "val4 = (\<lambda>(r0, r1, r2, r3). val2 (r0, r1) XOR 2 ^ 128 * val2 (r2, r3))"

lemma unat_xor: "unat (a XOR b) = unat a XOR unat (b :: 'a::len word)"
  by (simp add: unsigned_xor_eq)

lemma val2_xor: "val2 (a XOR c, b XOR d) = val2 (a, b) XOR val2 (c, d)"
  by (simp add: val2_def unat_xor power2_times_xor xor_ac del: power_numeral)

lemma val2_0 [simp]: "val2 (0, 0) = 0"
  by (simp add: val2_def)

lemma val2_add: "val2 a = unat (fst a) + 2 ^ 64 * unat (snd a)"
  using xor_disjoint_add [of "unat (fst a)" 64] unat_lt2p [of "fst a"] by (simp add: val2_def)

lemma val2_less: "val2 a < 2 ^ 128"
  using unat_lt2p [of "fst a"] unat_lt2p [of "snd a"] by (simp add: val2_add)

lemma val2_inj: "val2 a = val2 b \<Longrightarrow> a = b"
proof -
  assume *: "val2 a = val2 b"
  have "val2 c mod 2 ^ 64 = unat (fst c)" "val2 c div 2 ^ 64 = unat (snd c)" for c
    using unat_lt2p [of "fst c"] by (simp_all add: val2_add)
  with * show ?thesis by (metis prod_eq_iff word_unat_eq_iff)
qed

lemma val2_shift: "k \<le> 64 \<Longrightarrow> val2 (push_bit k a, drop_bit (64 - k) a) = 2 ^ k * unat a"
proof -
  assume k: "k \<le> 64"
  have "(2 :: nat) ^ 64 = 2 ^ k * 2 ^ (64 - k)" using k by (simp flip: power_add)
  then have "unat a * 2 ^ k div 2 ^ 64 = unat a div 2 ^ (64 - k)"
    by (metis div_mult_mult1 mult.commute power_not_zero zero_neq_numeral)
  then have "val2 (push_bit k a, drop_bit (64 - k) a) = unat a * 2 ^ k mod 2 ^ 64 + 2 ^ 64 * (unat a * 2 ^ k div 2 ^ 64)"
    by (simp only: val2_add fst_conv snd_conv unat_push_bit_mod unat_drop_bit) simp
  also have "\<dots> = unat a * 2 ^ k" by (rule mod_mult_div_eq)
  finally show ?thesis by (simp only: mult.commute)
qed

lemma clmul64_correct: "val2 (clmul64 a b) = clm (unat a) (unat b)"
proof -
  have "val2 (fold (clmul64_step a b) [0..<n] (0, 0)) = clm (unat a) (unat b mod 2 ^ n)"
    if "n \<le> 64" for n
    using that
  proof (induction n)
    case (Suc n)
    obtain l h where lh: "fold (clmul64_step a b) [0..<n] (0, 0) = (l, h)" by fastforce
    with Suc have ih: "val2 (l, h) = clm (unat a) (unat b mod 2 ^ n)" by simp
    have "unat b mod 2 ^ Suc n = unat b mod 2 ^ n + 2 ^ n * (unat b div 2 ^ n mod 2)"
      using mod_mult2_eq [of "unat b" "2 ^ n" 2] by (simp add: mult.commute)
    also have "\<dots> = unat b mod 2 ^ n XOR 2 ^ n * (unat b div 2 ^ n mod 2)"
      by (rule xor_disjoint_add [symmetric]) simp
    finally have "clm (unat a) (unat b mod 2 ^ Suc n) =
        clm (unat a) (unat b mod 2 ^ n) XOR 2 ^ n * clm (unat a) (unat b div 2 ^ n mod 2)"
      by (simp only: clm_xor_right clm_power2_right)
    also have "\<dots> = val2 (l, h) XOR (if bit b n then 2 ^ n * unat a else 0)"
      by (simp add: ih bit_word_odd odd_iff_mod_2_eq_one)
    also have "\<dots> = val2 (clmul64_step a b n (l, h))"
    proof (cases "bit b n")
      case True
      have "(if 0 < n then h XOR drop_bit (64 - n) a else h) = h XOR drop_bit (64 - n) a"
        by (cases n) (simp_all add: word_unat_eq_iff unat_drop_bit unat_xor)
      with True show ?thesis
        using Suc.prems
        by (simp only: clmul64_step_def drop_bit_and_1 prod.case if_True val2_xor val2_shift)
    qed (simp add: clmul64_step_def drop_bit_and_1)
    finally show ?case by (simp add: lh)
  qed simp
  from this [of 64] show ?thesis
    using unat_lt2p [of b] by (simp add: clmul64_def)
qed

lemma clmul128_correct: "val4 (clmul128 a b) = clm (val2 a) (val2 b)"
proof -
  obtain l0 l1 h0 h1 m0 m1 n0 n1 where
    eqs: "clmul64 (fst a) (fst b) = (l0, l1)" "clmul64 (snd a) (snd b) = (h0, h1)"
      "clmul64 (fst a) (snd b) = (m0, m1)" "clmul64 (snd a) (fst b) = (n0, n1)"
    by fastforce
  have cs: "clm (unat (fst a)) (unat (fst b)) = val2 (l0, l1)"
    "clm (unat (snd a)) (unat (snd b)) = val2 (h0, h1)"
    "clm (unat (fst a)) (unat (snd b)) = val2 (m0, m1)"
    "clm (unat (snd a)) (unat (fst b)) = val2 (n0, n1)"
    by (simp_all flip: clmul64_correct add: eqs)
  have pw: "(2 :: nat) ^ 64 * (2 ^ 64 * x) = 2 ^ 128 * x" for x by simp
  have "clm (val2 a) (val2 b) = val2 (l0, l1) XOR 2 ^ 64 * val2 (m0, m1)
      XOR 2 ^ 64 * val2 (n0, n1) XOR 2 ^ 128 * val2 (h0, h1)"
    unfolding val2_def [of a] val2_def [of b]
    by (simp only: clm_xor_left clm_xor_right clm_power2_left clm_power2_right cs pw
        power2_times_xor xor_ac)
  also have "\<dots> = val4 (clmul128 a b)"
    unfolding clmul128_def val4_def
    by (simp only: eqs Let_def prod.case val2_def fst_conv snd_conv unat_xor power2_times_xor pw xor_ac)
  finally show ?thesis by simp
qed

lemma poly_135: "clm n 135 = n XOR 2 ^ 1 * n XOR 2 ^ 2 * n XOR 2 ^ 7 * n"
proof -
  have "(135 :: nat) = 1 XOR 2 ^ 1 * 1 XOR 2 ^ 2 * 1 XOR 2 ^ 7 * 1" by simp
  then have "clm n 135 = clm n (1 XOR 2 ^ 1 * 1 XOR 2 ^ 2 * 1 XOR 2 ^ 7 * 1)" by (rule arg_cong)
  then show ?thesis
    by (simp only: clm_xor_right clm_power2_right clm_1_right One_nat_def)
qed

lemma times_g_correct: "val2 (times_g w) = clm (unat w) 135"
proof -
  have s: "val2 (push_bit 1 w, drop_bit (64 - 1) w) = 2 ^ 1 * unat w"
    "val2 (push_bit 2 w, drop_bit (64 - 2) w) = 2 ^ 2 * unat w"
    "val2 (push_bit 7 w, drop_bit (64 - 7) w) = 2 ^ 7 * unat w"
    by (rule val2_shift; simp)+
  have "times_g w = (w XOR push_bit 1 w XOR push_bit 2 w XOR push_bit 7 w,
      0 XOR drop_bit (64 - 1) w XOR drop_bit (64 - 2) w XOR drop_bit (64 - 7) w)"
    by (simp add: times_g_def)
  moreover have "val2 (w, 0) = unat w" by (simp add: val2_def)
  ultimately show ?thesis
    unfolding poly_135 by (simp only: val2_xor s)
qed

lemma times_g_high: "unat (snd (times_g w)) < 2 ^ 7"
proof -
  have "clm (unat w) 135 < 2 ^ Suc (63 + 7)"
    by (rule clm_less) (use unat_lt2p [of w] in simp_all)
  then have "unat (fst (times_g w)) + 2 ^ 64 * unat (snd (times_g w)) < 2 ^ 64 * 2 ^ 7"
    unfolding times_g_correct [symmetric] val2_add by simp
  then have "2 ^ 64 * unat (snd (times_g w)) < (2 :: nat) ^ 64 * 2 ^ 7"
    by (rule le_less_trans [rotated]) (rule le_add2)
  then show ?thesis by simp
qed

lemma reduce_correct: "cong_ghash (val4 r) (val2 (reduce r))"
proof -
  obtain r0 r1 r2 r3 where r: "r = (r0, r1, r2, r3)" by (metis prod_cases4)
  obtain a0 a1 where a: "times_g r2 = (a0, a1)" by fastforce
  obtain b0 b1 where b: "times_g r3 = (b0, b1)" by fastforce
  have b1: "unat b1 < 2 ^ 7" using times_g_high [of r3] b by simp
  define c where "c = b1 XOR push_bit 1 b1 XOR push_bit 2 b1 XOR push_bit 7 b1"
  have small: "unat b1 * 2 ^ k < 2 ^ LENGTH(64)" if "k \<le> 7" for k
  proof -
    have "unat b1 * 2 ^ k < 2 ^ 7 * 2 ^ 7"
      using b1 power_increasing [OF that, of "2 :: nat"] by (intro mult_less_le_imp_less) auto
    then show ?thesis by simp
  qed
  have c: "unat c = clm (unat b1) 135"
    unfolding c_def poly_135
    by (simp only: unat_xor unat_push_bit_lt [OF small] mult.commute [of "unat b1"])
  have "val4 r = (val2 (r0, r1) XOR 2 ^ 128 * (2 ^ 64 * unat r3)) XOR 2 ^ 128 * unat r2"
    by (simp add: r val4_def val2_def [of "(r2, r3)"] power2_times_xor xor_ac del: power_numeral)
  also have "cong_ghash \<dots> ((val2 (r0, r1) XOR clm (2 ^ 64 * unat r3) 135) XOR clm (unat r2) 135)"
    by (intro cong_ghash_trans [OF cong_ghash_fold] cong_ghash_xor cong_ghash_fold cong_ghash_refl)
  also have "clm (2 ^ 64 * unat r3) 135 = 2 ^ 64 * unat b0 XOR 2 ^ 128 * unat b1"
  proof -
    have pw: "(2 :: nat) ^ 64 * (2 ^ 64 * unat b1) = 2 ^ 128 * unat b1" by simp
    have "clm (unat r3) 135 = unat b0 XOR 2 ^ 64 * unat b1"
      using times_g_correct [of r3] by (simp only: b val2_def fst_conv snd_conv)
    then show ?thesis by (simp only: clm_power2_left power2_times_xor pw)
  qed
  also have "(val2 (r0, r1) XOR 2 ^ 64 * unat b0 XOR 2 ^ 128 * unat b1) XOR clm (unat r2) 135
      = (val2 (r0, r1) XOR 2 ^ 64 * unat b0 XOR val2 (a0, a1)) XOR 2 ^ 128 * unat b1"
    by (simp add: times_g_correct [symmetric] a xor_ac del: power_numeral)
  also have "cong_ghash \<dots> ((val2 (r0, r1) XOR 2 ^ 64 * unat b0 XOR val2 (a0, a1)) XOR clm (unat b1) 135)"
    by (rule cong_ghash_fold)
  also have "\<dots> = val2 (reduce r)"
    by (simp add: reduce_def r a b Let_def val2_def unat_xor power2_times_xor c_def [symmetric]
        c [symmetric] c_def xor_ac del: power_numeral)
  finally show ?thesis .
qed

section \<open>The ring\<close>

definition poly_of :: "f128 \<Rightarrow> nat" where
  "poly_of a = val2 (f128_words a)"

lemma poly_of_less: "poly_of a < 2 ^ 128"
  by (simp only: poly_of_def val2_less)

lemma poly_of_inj: "poly_of a = poly_of b \<longleftrightarrow> a = b"
  using val2_inj [of "f128_words a" "f128_words b"] by (auto simp: poly_of_def f128_words_def f128.expand)

lemma poly_of_words [simp]: "poly_of (f128_of_words w) = val2 w"
  by (simp add: poly_of_def f128_words_def f128_of_words_def)

lemma f128_words_of_words [simp]: "f128_words (f128_of_words w) = w" "f128_of_words (f128_words a) = a"
  by (simp_all add: f128_words_def f128_of_words_def)

text \<open>An element is determined by the class of its polynomial.\<close>

lemma f128_eqI: "cong_ghash (poly_of a) (poly_of b) \<Longrightarrow> a = b"
  using cong_ghash_unique [of "poly_of a" "poly_of b"] poly_of_less poly_of_inj by blast

lemma poly_of_add: "poly_of (f128_add a b) = poly_of a XOR poly_of b"
  by (simp add: poly_of_def f128_words_def f128_add_def flip: val2_xor)

lemma poly_of_mul: "cong_ghash (clm (poly_of a) (poly_of b)) (poly_of (f128_mul a b))"
  unfolding f128_mul_def k_mul_def poly_of_words
  by (simp only: poly_of_def reduce_correct flip: clmul128_correct)

lemma poly_of_ZERO [simp]: "poly_of f128_ZERO = 0"
  by (simp add: poly_of_def f128_words_def f128_ZERO_def)

lemma poly_of_ONE [simp]: "poly_of f128_ONE = 1"
  by (simp add: poly_of_def f128_words_def f128_ONE_def val2_def)

instantiation f128 :: comm_ring_1
begin

definition zero_f128 :: f128 where "zero_f128 = f128_ZERO"
definition one_f128 :: f128 where "one_f128 = f128_ONE"
definition plus_f128 :: "f128 \<Rightarrow> f128 \<Rightarrow> f128" where "plus_f128 = f128_add"
definition minus_f128 :: "f128 \<Rightarrow> f128 \<Rightarrow> f128" where "minus_f128 = f128_sub"
definition uminus_f128 :: "f128 \<Rightarrow> f128" where "uminus_f128 = f128_neg"
definition times_f128 :: "f128 \<Rightarrow> f128 \<Rightarrow> f128" where "times_f128 = f128_mul"

instance
proof
  fix a b c :: f128
  have mul: "cong_ghash (clm (poly_of x) (poly_of y)) (poly_of (x * y))" for x y :: f128
    by (simp only: times_f128_def poly_of_mul)
  have add: "poly_of (x + y) = poly_of x XOR poly_of y" for x y :: f128
    by (simp only: plus_f128_def poly_of_add)
  have one: "poly_of (1 :: f128) = 1" by (simp add: one_f128_def)
  have zero: "poly_of (0 :: f128) = 0" by (simp add: zero_f128_def)
  show "a * b * c = a * (b * c)"
  proof (rule f128_eqI)
    have "cong_ghash (poly_of (a * b * c)) (clm (clm (poly_of a) (poly_of b)) (poly_of c))"
      by (meson mul cong_ghash_clm cong_ghash_refl cong_ghash_sym cong_ghash_trans)
    also have "\<dots> = clm (poly_of a) (clm (poly_of b) (poly_of c))" by (rule clm_assoc)
    also have "cong_ghash \<dots> (poly_of (a * (b * c)))"
      by (meson mul cong_ghash_clm cong_ghash_refl cong_ghash_trans)
    finally show "cong_ghash (poly_of (a * b * c)) (poly_of (a * (b * c)))" .
  qed
  show "a * b = b * a"
    by (rule f128_eqI) (metis mul clm_commute cong_ghash_sym cong_ghash_trans)
  show "1 * a = a"
    by (rule f128_eqI) (metis mul one One_nat_def clm_1_left cong_ghash_sym)
  show "(a + b) * c = a * c + b * c"
  proof (rule f128_eqI)
    have "cong_ghash (poly_of ((a + b) * c)) (clm (poly_of a XOR poly_of b) (poly_of c))"
      using mul [of "a + b" c] by (simp only: add cong_ghash_sym)
    also have "\<dots> = clm (poly_of a) (poly_of c) XOR clm (poly_of b) (poly_of c)"
      by (rule clm_xor_left)
    also have "cong_ghash \<dots> (poly_of (a * c + b * c))"
      by (simp only: add cong_ghash_xor mul)
    finally show "cong_ghash (poly_of ((a + b) * c)) (poly_of (a * c + b * c))" .
  qed
  show "a + b + c = a + (b + c)" "a + b = b + a" "0 + a = a"
    by (simp_all add: add zero xor_ac flip: poly_of_inj)
  show "- a + a = 0"
    by (simp add: add zero uminus_f128_def f128_neg_def flip: poly_of_inj)
  show "a - b = a + - b"
    by (simp add: minus_f128_def plus_f128_def uminus_f128_def f128_neg_def f128_sub_def f128_add_def)
  show "(0 :: f128) \<noteq> 1"
    by (simp add: zero one flip: poly_of_inj)
qed

end

lemmas f128_ops [simp] =
  zero_f128_def [symmetric] one_f128_def [symmetric] plus_f128_def [symmetric]
  minus_f128_def [symmetric] times_f128_def [symmetric] uminus_f128_def [symmetric]

lemma f128_neg_self [simp]: "- a = (a :: f128)"
  by (simp only: uminus_f128_def f128_neg_def)

lemma f128_minus_eq_plus [simp]: "a - b = a + (b :: f128)"
  by (simp only: diff_conv_add_uminus f128_neg_self)

lemma f128_double: "a + a = (0 :: f128)"
  using ab_left_minus [of a] by (simp only: f128_neg_self)

lemma f128_two_eq_0 [simp]: "2 = (0 :: f128)"
  using f128_double [of 1] by (simp only: one_add_one)

section \<open>Squaring and multiplication by the generator\<close>

lemma f128_mul_eqI:
  "cong_ghash (clm (poly_of a) (poly_of b)) (poly_of c) \<Longrightarrow> a * b = c"
  using poly_of_mul [of a b] by (intro f128_eqI) (metis times_f128_def cong_ghash_sym cong_ghash_trans)

lemma poly_of_mulI:
  "cong_ghash (clm (poly_of a) (poly_of b)) n \<Longrightarrow> n < 2 ^ 128 \<Longrightarrow> poly_of (a * b) = n"
  using poly_of_mul [of a b] poly_of_less [of "a * b"]
  by (intro cong_ghash_unique) (metis times_f128_def cong_ghash_sym cong_ghash_trans)+

lemma f128_square_correct: "f128_square a = a * a"
proof (rule sym, rule f128_mul_eqI)
  obtain x y where a: "a = F128 x y" by (cases a)
  obtain l0 l1 h0 h1 where eqs: "clmul64 x x = (l0, l1)" "clmul64 y y = (h0, h1)" by fastforce
  have pw: "(2 :: nat) ^ 64 * (2 ^ 64 * n) = 2 ^ 128 * n" for n by simp
  have "clm (poly_of a) (poly_of a) = clm (unat x) (unat x) XOR 2 ^ 128 * clm (unat y) (unat y)"
    unfolding poly_of_def a f128_words_def val2_def f128.sel fst_conv snd_conv
    by (simp only: clm_xor_left clm_xor_right clm_power2_left clm_power2_right power2_times_xor pw
        clm_commute [of "unat y" "unat x"] xor_ac xor_left_cancel_nat)
  also have "\<dots> = val4 (l0, l1, h0, h1)"
    by (simp only: val4_def prod.case eqs flip: clmul64_correct)
  finally have "clm (poly_of a) (poly_of a) = val4 (l0, l1, h0, h1)" .
  then show "cong_ghash (clm (poly_of a) (poly_of a)) (poly_of (f128_square a))"
    by (simp add: f128_square_def k_square_def a f128_words_def eqs reduce_correct)
qed

lemma f128_square_n_correct: "f128_square_n a k = a ^ 2 ^ k"
proof (induction k)
  case (Suc k)
  have "f128_square_n a (Suc k) = f128_square (f128_square_n a k)"
    by (simp add: f128_square_n_def k_square_n_def f128_square_def)
  then show ?case
    by (simp add: Suc f128_square_correct mult_2 power_add)
qed (simp add: f128_square_n_def k_square_n_def)

lemma poly_of_GENERATOR: "poly_of f128_GENERATOR = 2"
  by (simp add: poly_of_def f128_GENERATOR_def f128_words_def val2_def)

lemma drop_bit_63: "unat (drop_bit 63 (w :: u64)) = of_bool (bit w 63)"
proof -
  have "unat w div 2 ^ 63 < 2" using unat_lt2p [of w] by (simp add: less_mult_imp_div_less)
  then show ?thesis by (auto simp: unat_drop_bit bit_word_odd less_2_cases_iff)
qed

lemma f128_mul_x_correct: "f128_mul_x a = a * f128_GENERATOR"
proof (rule sym, rule f128_mul_eqI)
  obtain x y where a: "a = F128 x y" by (cases a)
  let ?c = "of_bool (bit y 63) :: nat"
  have y: "2 * unat y = unat (push_bit 1 y) XOR 2 ^ 64 * ?c"
  proof -
    have "val2 (push_bit 1 y, drop_bit (64 - 1) y) = 2 ^ 1 * unat y" by (rule val2_shift) simp
    then show ?thesis using drop_bit_63 [of y] by (simp add: val2_def)
  qed
  have x: "2 * unat x = unat (push_bit 1 x) XOR 2 ^ 64 * unat (drop_bit 63 x)"
  proof -
    have "val2 (push_bit 1 x, drop_bit (64 - 1) x) = 2 ^ 1 * unat x" by (rule val2_shift) simp
    then show ?thesis by (simp add: val2_def)
  qed
  have pw: "(2 :: nat) ^ 64 * (2 ^ 64 * n) = 2 ^ 128 * n" for n by simp
  have "clm (poly_of a) (poly_of f128_GENERATOR) = 2 * unat x XOR 2 ^ 64 * (2 * unat y)"
    using clm_double_right [of "poly_of a" 1]
    by (simp only: poly_of_GENERATOR) (simp add: poly_of_def a f128_words_def val2_def double_xor)
  also have "\<dots> = (unat (push_bit 1 x) XOR 2 ^ 64 * (unat (push_bit 1 y) XOR unat (drop_bit 63 x)))
      XOR 2 ^ 128 * ?c"
    by (simp only: x y power2_times_xor pw xor_ac)
  also have "cong_ghash \<dots> ((unat (push_bit 1 x) XOR 2 ^ 64 * (unat (push_bit 1 y) XOR unat (drop_bit 63 x)))
      XOR clm ?c 135)"
    by (rule cong_ghash_fold)
  also have "\<dots> = poly_of (f128_mul_x a)"
  proof -
    have "push_bit 1 y AND drop_bit 63 x = 0"
    proof (rule bit_word_eqI)
      fix i assume "i < LENGTH(64)"
      show "bit (push_bit 1 y AND drop_bit 63 x) i = bit 0 i"
        using bit_imp_le_length [of x "63 + i"]
        by (simp only: bit_and_iff bit_push_bit_iff bit_drop_bit_eq) (cases i; auto)
    qed
    then have "push_bit 1 y OR drop_bit 63 x = push_bit 1 y XOR drop_bit 63 x"
      by (simp add: disjunctive_xor_eq_or)
    moreover have "unat ((- drop_bit 63 y) AND REDUCTION) = clm ?c 135"
    proof (cases "bit y 63")
      case True
      then have "drop_bit 63 y = 1" using drop_bit_63 [of y] by (simp add: word_unat_eq_iff)
      with True show ?thesis by (simp add: REDUCTION_def)
    next
      case False
      then have "drop_bit 63 y = 0" using drop_bit_63 [of y] by (simp add: word_unat_eq_iff)
      with False show ?thesis by simp
    qed
    ultimately show ?thesis
      unfolding f128_mul_x_def poly_of_words k_mul_x_def Let_def a f128_words_def fst_conv snd_conv
        f128.sel val2_def
      by (simp only: unat_xor xor_ac)
  qed
  finally show "cong_ghash (clm (poly_of a) (poly_of f128_GENERATOR)) (poly_of (f128_mul_x a))" .
qed

section \<open>Deferred reduction\<close>

lemma val4_wide_add: "val4 (wide_add x y) = val4 x XOR val4 y"
  by (cases x; cases y)
    (simp add: wide_add_def val4_def val2_xor power2_times_xor xor_ac del: power_numeral)

lemma f128_of_words_reduceI:
  "cong_ghash (val4 w) (poly_of a) \<Longrightarrow> wide256_reduce w = a"
  unfolding wide256_reduce_def wide_reduce_def
  using reduce_correct [of w] by (intro f128_eqI) (metis poly_of_words cong_ghash_sym cong_ghash_trans)

lemma cong_ghash_reduce: "cong_ghash (val4 w) (poly_of (wide256_reduce w))"
  using reduce_correct [of w] by (simp add: wide256_reduce_def wide_reduce_def)

lemma wide256_reduce_add: "wide256_reduce (wide256_add x y) = wide256_reduce x + wide256_reduce y"
  by (rule f128_of_words_reduceI)
    (simp add: wide256_add_def val4_wide_add plus_f128_def poly_of_add cong_ghash_xor cong_ghash_reduce
      del: f128_ops)

lemma wide256_reduce_of: "wide256_reduce (wide256_of a) = a"
  by (rule f128_of_words_reduceI)
    (simp add: wide256_of_def wide_of_def val4_def poly_of_def)

lemma wide256_reduce_zero: "wide256_reduce wide256_zero = 0"
  by (rule f128_of_words_reduceI) (simp add: wide256_zero_def wide_zero_def val4_def zero_f128_def del: f128_ops)

lemma wide256_reduce_mul: "wide256_reduce (wide256_mul a b) = a * b"
  by (simp add: times_f128_def wide256_reduce_def wide_reduce_def wide256_mul_def wide_mul_def f128_mul_def k_mul_def
      del: f128_ops)

lemma wide256_reduce_add_low: "wide256_reduce (wide256_add_low x a) = wide256_reduce x + a"
proof -
  have "wide256_add_low x a = wide256_add x (wide256_of a)"
    by (cases x) (simp add: wide256_add_low_def wide_add_low_def wide256_add_def wide_add_def wide256_of_def wide_of_def)
  then show ?thesis by (simp add: wide256_reduce_add wide256_reduce_of)
qed

section \<open>Folds and encodings\<close>

lemma f128_sum_sum_list: "f128_sum xs = sum_list xs"
proof -
  have "foldl (+) a xs = a + sum_list xs" for a :: f128
    by (induction xs arbitrary: a) (simp_all add: add.assoc)
  then show ?thesis by (simp add: f128_sum_def)
qed

lemma f128_product_prod_list: "f128_product xs = prod_list xs"
proof -
  have "foldl (*) a xs = a * prod_list xs" for a :: f128
    by (induction xs arbitrary: a) (simp_all add: mult.assoc)
  then show ?thesis by (simp add: f128_product_def)
qed

lemma f128_is_zero_iff: "f128_is_zero a \<longleftrightarrow> a = 0"
  by (cases a) (simp add: f128_is_zero_def zero_f128_def f128_ZERO_def del: f128_ops)

lemma f128_from_to_bytes: "f128_from_bytes (f128_to_bytes a) = a"
  by (cases a) (simp add: f128_from_bytes_def f128_to_bytes_def from_to_le_bytes)

lemma f128_to_from_bytes: "length bs = 16 \<Longrightarrow> f128_to_bytes (f128_from_bytes bs) = bs"
  by (simp add: f128_from_bytes_def f128_to_bytes_def to_from_le_bytes)

lemma f128_from_to_u128: "f128_from_u128 (f128_to_u128 a) = a"
proof -
  have "\<not> bit (lo a) (64 + n)" for n using bit_imp_le_length [of "lo a" "64 + n"] by auto
  then show ?thesis
    by (cases a)
      (auto simp: f128_from_u128_def f128_to_u128_def intro!: bit_word_eqI
        simp: bit_ucast_iff bit_or_iff bit_push_bit_iff bit_drop_bit_eq)
qed

lemma f128_to_from_u128: "f128_to_u128 (f128_from_u128 v) = v"
  by (rule bit_word_eqI)
    (auto simp: f128_from_u128_def f128_to_u128_def bit_ucast_iff bit_or_iff bit_push_bit_iff
      bit_drop_bit_eq not_less)

lemma poly_of_u128: "poly_of a = unat (f128_to_u128 a)"
proof -
  have "push_bit 64 (ucast (hi a)) AND ucast (lo a) = (0 :: u128)"
    by (rule bit_word_eqI)
      (auto simp: bit_and_iff bit_push_bit_iff bit_ucast_iff dest: bit_imp_le_length)
  then have "unat (f128_to_u128 a) = unat (ucast (lo a) :: u128) + unat (push_bit 64 (ucast (hi a)) :: u128)"
    using unat_lt2p [of "lo a"] unat_lt2p [of "hi a"]
    by (simp add: f128_to_u128_def or_eq_add and.commute unat_add_lt unat_ucast_mod unat_push_bit_mod)
  then show ?thesis
    using unat_lt2p [of "lo a"] unat_lt2p [of "hi a"]
    by (simp add: poly_of_def val2_add f128_words_def unat_ucast_mod unat_push_bit_mod)
qed

section \<open>Properties\<close>

text \<open>C23: The word kernel multiplies polynomials: the product of two elements is the only polynomial
  of degree below 128 that differs from the carryless product of the operands by a multiple of
  \<open>X^128 + X^7 + X^2 + X + 1\<close>.\<close>

theorem gf128_multiplication_reference:
  "poly_of (f128_mul a b) < 2 ^ 128
   \<and> (\<exists>k. clm (poly_of a) (poly_of b) = poly_of (f128_mul a b) XOR clm k (2 ^ 128 + 0x87))
   \<and> poly_of a = unat (f128_to_u128 a)"
proof (intro conjI)
  show "poly_of (f128_mul a b) < 2 ^ 128" by (rule poly_of_less)
  obtain k where "clm (poly_of a) (poly_of b) XOR poly_of (f128_mul a b) = clm k ghash_poly"
    using poly_of_mul [of a b] by (auto simp: cong_ghash_def)
  then have "clm (poly_of a) (poly_of b) = poly_of (f128_mul a b) XOR clm k (2 ^ 128 + 0x87)"
    unfolding ghash_poly_def by (metis xor.commute xor_left_cancel_nat)
  then show "\<exists>k. clm (poly_of a) (poly_of b) = poly_of (f128_mul a b) XOR clm k (2 ^ 128 + 0x87)" ..
  show "poly_of a = unat (f128_to_u128 a)" by (rule poly_of_u128)
qed

text \<open>The specialised kernels agree with the general multiply: squaring, runs of squarings and
  the shift-and-fold multiplication by \<open>X\<close>.\<close>

theorem gf128_specialised_kernels:
  "f128_square a = f128_mul a a \<and> f128_square_n a k = ((\<lambda>b. f128_mul b b) ^^ k) a
   \<and> f128_mul_x a = f128_mul a f128_GENERATOR"
proof -
  have "((\<lambda>b. b * b) ^^ k) a = a ^ 2 ^ k"
    by (induction k) (simp_all add: mult_2 power_add)
  then show ?thesis by (simp add: f128_square_correct f128_square_n_correct f128_mul_x_correct)
qed

text \<open>Deferred reduction: products and reduced elements added into an unreduced \<open>Wide256\<close>
  accumulator and reduced once give the sum of the reduced products.\<close>

theorem gf128_deferred_reduction:
  "wide256_reduce (wide256_add_low (foldl (\<lambda>w (a, b). wide256_add w (wide256_mul a b)) wide256_zero ps) c)
   = f128_add (f128_sum (map (\<lambda>(a, b). f128_mul a b) ps)) c"
proof -
  have "wide256_reduce (foldl (\<lambda>w (a, b). wide256_add w (wide256_mul a b)) w ps)
      = wide256_reduce w + sum_list (map (\<lambda>(a, b). a * b) ps)" for w
    by (induction ps arbitrary: w) (auto simp: wide256_reduce_add wide256_reduce_mul add.assoc)
  then show ?thesis by (simp add: wide256_reduce_add_low wide256_reduce_zero f128_sum_sum_list)
qed

end
