(* ===== verification/Primes.thy ===== *)
theory Primes
  imports Main
begin

text \<open>
  The elementary number theory that the primality tests and the group-order arguments rest on:
  Euclid's lemma, Fermat's little theorem, square roots of one modulo a prime.  Nothing here
  models code; the theories on \<open>crates/field\<close> use it.
\<close>

definition prime_nat :: "nat \<Rightarrow> bool" where
  "prime_nat p \<longleftrightarrow> 1 < p \<and> (\<forall>d. d dvd p \<longrightarrow> d = 1 \<or> d = p)"

lemma prime_natD: "prime_nat p \<Longrightarrow> d dvd p \<Longrightarrow> d = 1 \<or> d = p"
  by (auto simp: prime_nat_def)

lemma prime_nat_gt_1: "prime_nat p \<Longrightarrow> 1 < p"
  by (simp add: prime_nat_def)

lemma prime_nat_iff: "prime_nat p \<longleftrightarrow> 1 < p \<and> (\<forall>d\<in>{2..<p}. \<not> d dvd p)"
proof
  assume *: "1 < p \<and> (\<forall>d\<in>{2..<p}. \<not> d dvd p)"
  have "d = 1 \<or> d = p" if "d dvd p" for d
  proof -
    from that * have "d \<le> p" "d \<noteq> 0" by (auto intro: dvd_imp_le intro!: Nat.gr0I)
    with * that show ?thesis by (cases "d \<in> {2..<p}") auto
  qed
  with * show "prime_nat p" by (auto simp: prime_nat_def)
qed (auto simp: prime_nat_def)

lemma prime_nat_coprime: "prime_nat p \<Longrightarrow> \<not> p dvd n \<Longrightarrow> coprime p n"
  using prime_natD [of p "gcd p n"] gcd_dvd1 [of p n] gcd_dvd2 [of p n]
  by (metis coprime_iff_gcd_eq_1)

lemma prime_nat_dvd_mult: "prime_nat p \<Longrightarrow> p dvd a * b \<Longrightarrow> p dvd a \<or> p dvd b"
  using prime_nat_coprime [of p a] coprime_dvd_mult_right_iff [of p a b] by blast

lemma prime_nat_dvd_power: "prime_nat p \<Longrightarrow> p dvd a ^ n \<Longrightarrow> p dvd a"
  by (induction n) (auto dest: prime_nat_dvd_mult prime_nat_gt_1)

lemma prime_nat_dvd_prod_list:
  "prime_nat p \<Longrightarrow> p dvd prod_list ns \<Longrightarrow> \<exists>n\<in>set ns. p dvd n"
  by (induction ns) (auto dest: prime_nat_dvd_mult prime_nat_gt_1)

lemma exists_prime_dvd: "1 < n \<Longrightarrow> \<exists>p. prime_nat p \<and> p dvd n"
proof (induction n rule: less_induct)
  case (less n)
  show ?case
  proof (cases "prime_nat n")
    case False
    with less.prems obtain d where d: "d dvd n" "d \<noteq> 1" "d \<noteq> n"
      by (auto simp: prime_nat_def)
    with less.prems have "d < n" "1 < d"
      by (auto intro: le_neq_implies_less dvd_imp_le intro!: Suc_lessI Nat.gr0I)
    with less.IH d(1) show ?thesis by (blast intro: dvd_trans)
  qed auto
qed

section \<open>Fermat's little theorem\<close>

lemma prime_dvd_choose:
  assumes "prime_nat p" "0 < k" "k < p"
  shows "p dvd (p choose k)"
proof -
  from assms have "k * (p choose k) = p * ((p - 1) choose (k - 1))"
    by (simp add: times_binomial_minus1_eq)
  then have "p dvd k * (p choose k)" by simp
  moreover from assms have "\<not> p dvd k" by (auto dest: dvd_imp_le)
  ultimately show ?thesis using assms(1) prime_nat_dvd_mult by blast
qed

lemma prime_power_Suc:
  assumes p: "prime_nat p"
  shows "(a + 1) ^ p mod p = (a ^ p + 1) mod p"
proof -
  from p have p1: "1 < p" by (rule prime_nat_gt_1)
  have "(a + 1) ^ p = (\<Sum>k\<le>p. (p choose k) * a ^ k)"
    using binomial [of a 1 p] by simp
  also have "{..p} = insert 0 (insert p {0<..<p})" using p1 by auto
  also have "(\<Sum>k\<in>insert 0 (insert p {0<..<p}). (p choose k) * a ^ k)
      = 1 + (a ^ p + (\<Sum>k\<in>{0<..<p}. (p choose k) * a ^ k))"
    using p1 by simp
  finally have eq: "(a + 1) ^ p = (a ^ p + 1) + (\<Sum>k\<in>{0<..<p}. (p choose k) * a ^ k)"
    by simp
  have "p dvd (\<Sum>k\<in>{0<..<p}. (p choose k) * a ^ k)"
    using p by (intro dvd_sum) (auto intro: dvd_mult2 prime_dvd_choose)
  then obtain c where "(\<Sum>k\<in>{0<..<p}. (p choose k) * a ^ k) = p * c" ..
  then show ?thesis unfolding eq by (simp only: mod_mult_self2)
qed

lemma fermat_power: "prime_nat p \<Longrightarrow> a ^ p mod p = a mod p"
proof (induction a)
  case 0
  then show ?case using prime_nat_gt_1 [of p] by (simp add: power_0_left)
next
  case (Suc a)
  have "(a + 1) ^ p mod p = (a ^ p mod p + 1) mod p"
    unfolding prime_power_Suc [OF Suc.prems] by (simp only: mod_add_left_eq)
  also have "\<dots> = (a + 1) mod p"
    unfolding Suc.IH [OF Suc.prems] by (simp only: mod_add_left_eq)
  finally show ?case by simp
qed

lemma mod_mult_cancel:
  fixes a b c p :: nat
  assumes "coprime p a" "a * b mod p = a * c mod p"
  shows "b mod p = c mod p"
proof -
  have "int a * int b mod int p = int a * int c mod int p"
    using assms(2) by (simp flip: of_nat_mult of_nat_mod)
  then have "int p dvd int a * (int b - int c)"
    by (simp add: mod_eq_dvd_iff right_diff_distrib)
  moreover have "coprime (int p) (int a)" using assms(1) by simp
  ultimately have "int p dvd int b - int c"
    by (simp add: coprime_dvd_mult_right_iff)
  then have "int b mod int p = int c mod int p" by (simp add: mod_eq_dvd_iff)
  then show ?thesis by (simp flip: of_nat_mod)
qed

theorem fermat_little:
  assumes "prime_nat p" "\<not> p dvd a"
  shows "a ^ (p - 1) mod p = 1"
proof -
  from assms have "a * a ^ (p - 1) mod p = a * 1 mod p"
    using fermat_power [of p a] prime_nat_gt_1 [of p] power_minus_mult [of p a]
    by (simp add: mult.commute)
  then have "a ^ (p - 1) mod p = 1 mod p"
    by (rule mod_mult_cancel [OF prime_nat_coprime [OF assms]])
  then show ?thesis using prime_nat_gt_1 [OF assms(1)] by simp
qed

lemma sqrt_one_mod_prime:
  assumes p: "prime_nat p" and "x < p" and sq: "x * x mod p = 1"
  shows "x = 1 \<or> x = p - 1"
proof -
  from p have p1: "1 < p" by (rule prime_nat_gt_1)
  have "x \<noteq> 0" using sq p1 by (auto intro: ccontr)
  have "p dvd (x - 1) * (x + 1)"
  proof -
    have "(x - 1) * (x + 1) = x * x - 1" using \<open>x \<noteq> 0\<close> by (cases x) auto
    moreover have "p dvd x * x - 1" using dvd_minus_mod [of p "x * x"] sq by simp
    ultimately show ?thesis by simp
  qed
  then have "p dvd x - 1 \<or> p dvd x + 1" by (rule prime_nat_dvd_mult [OF p])
  then show ?thesis
  proof
    assume "p dvd x - 1"
    with assms(2) have "x - 1 = 0" by (meson dvd_imp_le gr0I less_imp_diff_less linorder_not_less)
    with \<open>x \<noteq> 0\<close> show ?thesis by simp
  next
    assume "p dvd x + 1"
    then have "p \<le> x + 1" by (rule dvd_imp_le) simp
    with assms(2) show ?thesis by linarith
  qed
qed


section \<open>Orders and Lucas certificates\<close>

text \<open>
  The exponents \<open>k\<close> with \<open>g ^ k = 1\<close> form a set closed under sums and differences.  If such a
  set holds \<open>N\<close> but no \<open>N div p\<close> for a prime \<open>p\<close> dividing \<open>N\<close>, every member is a multiple
  of \<open>N\<close>: the order of \<open>g\<close> is exactly \<open>N\<close>.
\<close>

locale exponents =
  fixes T :: "nat set"
  assumes zero: "0 \<in> T"
    and plus: "a \<in> T \<Longrightarrow> b \<in> T \<Longrightarrow> a + b \<in> T"
    and diff: "a \<in> T \<Longrightarrow> a + b \<in> T \<Longrightarrow> b \<in> T"
begin

lemma times: "a \<in> T \<Longrightarrow> a * n \<in> T"
  by (induction n) (auto intro: zero plus)

lemma modulo: "m \<in> T \<Longrightarrow> n \<in> T \<Longrightarrow> m mod n \<in> T"
  using diff [of "n * (m div n)" "m mod n"] times [of n "m div n"] by simp

lemma gcd_closed: "m \<in> T \<Longrightarrow> n \<in> T \<Longrightarrow> gcd m n \<in> T"
proof (induction m n rule: gcd_nat_induct)
  case (step m n)
  then show ?case by (simp add: modulo gcd_non_0_nat)
qed simp

lemma order_dvd:
  assumes N: "N \<in> T" "0 < N" and co: "\<And>p. prime_nat p \<Longrightarrow> p dvd N \<Longrightarrow> N div p \<notin> T"
    and k: "k \<in> T"
  shows "N dvd k"
proof (rule ccontr)
  assume "\<not> N dvd k"
  define g where "g = gcd k N"
  have g: "g \<in> T" "g dvd N" "0 < g"
    using gcd_closed [OF k N(1)] N(2) by (simp_all add: g_def)
  have "g \<noteq> N" using \<open>\<not> N dvd k\<close> by (metis g_def gcd_dvd1)
  from g(2) obtain c where c: "N = g * c" ..
  with \<open>g \<noteq> N\<close> N(2) have "1 < c" by (cases c) (auto intro: Suc_lessI)
  then obtain p where p: "prime_nat p" "p dvd c" using exists_prime_dvd by blast
  then obtain e where e: "c = p * e" by auto
  have "N div p = g * e" using c e prime_nat_gt_1 [OF p(1)] by simp
  then have "N div p \<in> T" using times [OF g(1)] by simp
  moreover have "p dvd N" using c e by simp
  ultimately show False using co p(1) by blast
qed

end

lemma prime_nat_dvd_prod_primes:
  assumes "prime_nat p" "p dvd prod_list ps" "\<forall>q\<in>set ps. prime_nat q"
  shows "p \<in> set ps"
proof -
  obtain q where q: "q \<in> set ps" "p dvd q"
    using prime_nat_dvd_prod_list [OF assms(1,2)] by blast
  with assms(3) have "p = 1 \<or> p = q" using prime_natD by blast
  with q assms(1) show ?thesis using prime_nat_gt_1 by auto
qed

interpretation mod_exponents: exponents "{k. a ^ k mod n = 1 mod n}" for a n :: nat
proof
  show "0 \<in> {k. a ^ k mod n = 1 mod n}" by simp
next
  fix x y assume *: "x \<in> {k. a ^ k mod n = 1 mod n}" "y \<in> {k. a ^ k mod n = 1 mod n}"
  have "a ^ (x + y) mod n = (a ^ x mod n) * (a ^ y mod n) mod n"
    by (simp add: power_add mod_mult_eq)
  also have "\<dots> = 1 mod n" using * by (simp add: mod_mult_eq)
  finally show "x + y \<in> {k. a ^ k mod n = 1 mod n}" by simp
next
  fix x y assume *: "x \<in> {k. a ^ k mod n = 1 mod n}" "x + y \<in> {k. a ^ k mod n = 1 mod n}"
  have "a ^ (x + y) mod n = (a ^ x mod n) * a ^ y mod n"
    by (simp add: power_add mod_mult_left_eq)
  also have "\<dots> = a ^ y mod n" using * by (simp add: mod_mult_left_eq)
  finally show "y \<in> {k. a ^ k mod n = 1 mod n}" using * by simp
qed

text \<open>Lucas: an element of order \<open>n - 1\<close> modulo \<open>n\<close> shows that \<open>n\<close> is prime.\<close>

lemma prime_nat_if_order:
  fixes a n :: nat
  assumes n: "1 < n" and cop: "coprime n a"
    and order: "\<And>k. a ^ k mod n = 1 \<Longrightarrow> n - 1 dvd k"
  shows "prime_nat n"
proof -
  let ?f = "\<lambda>i. a ^ i mod n"
  have cop_pow: "coprime n (a ^ i)" for i using cop by simp
  have "inj_on ?f {..<n - 1}"
  proof (rule linorder_inj_onI)
    fix i j assume ij: "i < j" "i \<in> {..<n - 1}" "j \<in> {..<n - 1}"
    show "?f i \<noteq> ?f j"
    proof
      assume "?f i = ?f j"
      then have "a ^ i * a ^ (j - i) mod n = a ^ i * 1 mod n"
        using ij(1) by (simp add: power_add [symmetric])
      then have "a ^ (j - i) mod n = 1 mod n" by (rule mod_mult_cancel [OF cop_pow])
      with n have "n - 1 dvd j - i" by (intro order) simp
      with ij show False by (auto dest: dvd_imp_le)
    qed
  qed auto
  then have "card (?f ` {..<n - 1}) = n - 1" by (simp add: card_image)
  moreover have "?f ` {..<n - 1} \<subseteq> {1..<n}"
  proof (rule image_subsetI)
    fix i
    have "\<not> n dvd a ^ i" using cop_pow [of i] n coprime_absorb_left [of n "a ^ i"] by auto
    then have "a ^ i mod n \<noteq> 0" by (simp add: dvd_eq_mod_eq_0)
    with n show "?f i \<in> {1..<n}" by auto
  qed
  ultimately have img: "?f ` {..<n - 1} = {1..<n}"
    using n by (intro card_subset_eq) auto
  have "d = 1 \<or> d = n" if d: "d dvd n" for d
  proof (cases "d = n")
    case False
    with d n have "d \<in> {1..<n}" by (auto intro: dvd_imp_le le_neq_implies_less intro!: Suc_leI Nat.gr0I)
    then have "d \<in> ?f ` {..<n - 1}" by (simp only: img)
    then obtain i where i: "d = a ^ i mod n" by (rule imageE)
    have "coprime n (a ^ i mod n)" using cop_pow [of i] n by (simp del: coprime_power_right_iff)
    then have "coprime n d" by (simp only: i)
    with d show ?thesis by (simp add: coprime_absorb_right)
  qed simp
  with n show ?thesis by (simp add: prime_nat_def)
qed

theorem lucas:
  assumes n: "n - 1 = prod_list ps" "1 < n" and ps: "\<forall>p\<in>set ps. prime_nat p"
    and fermat: "a ^ (n - 1) mod n = 1" and co: "\<forall>p\<in>set ps. a ^ ((n - 1) div p) mod n \<noteq> 1"
  shows "prime_nat n"
proof (rule prime_nat_if_order [of n a])
  show "coprime n a"
  proof (rule coprimeI)
    fix d assume "d dvd n" "d dvd a"
    then have "d dvd a ^ (n - 1)" using n(2) by (simp add: dvd_power_le [of d a 1 "n - 1", simplified])
    with \<open>d dvd n\<close> have "d dvd a ^ (n - 1) mod n" by (simp add: dvd_mod_iff)
    with fermat show "is_unit d" by simp
  qed
  fix k assume "a ^ k mod n = 1"
  then show "n - 1 dvd k"
    using n fermat co ps
    by (intro mod_exponents.order_dvd [of "n - 1" a n k]) (auto dest: prime_nat_dvd_prod_primes)
qed (rule n(2))

text \<open>Evaluating powers modulo \<open>n\<close> by the binary digits of the exponent.\<close>

definition square_mod :: "nat \<Rightarrow> nat \<Rightarrow> nat" where
  "square_mod n r = r * r mod n"

lemma square_mod_numeral [simp]: "square_mod (numeral n) (numeral r) = numeral r * numeral r mod numeral n"
  by (simp only: square_mod_def)

primrec mod_power :: "nat \<Rightarrow> nat \<Rightarrow> num \<Rightarrow> nat" where
  "mod_power n a num.One = a mod n"
| "mod_power n a (num.Bit0 k) = square_mod n (mod_power n a k)"
| "mod_power n a (num.Bit1 k) = square_mod n (mod_power n a k) * a mod n"

lemma mod_power_square: "a ^ (2 * k) mod n = (a ^ k mod n) * (a ^ k mod n) mod n" for a k n :: nat
  by (simp add: mult_2 power_add mod_mult_eq)

lemma mod_power: "a ^ numeral k mod n = mod_power n a k"
proof (induction k)
  case (Bit0 k)
  have "a ^ numeral (num.Bit0 k) mod n = a ^ (2 * numeral k) mod n"
    by (subst mult_2) (simp only: numeral_Bit0)
  then show ?case by (simp only: mod_power_square Bit0 mod_power.simps square_mod_def)
next
  case (Bit1 k)
  have "a ^ numeral (num.Bit1 k) mod n = a ^ (2 * numeral k) * a mod n"
    by (subst mult_2) (simp only: numeral_Bit1 power_add power_one_right)
  also have "\<dots> = a ^ (2 * numeral k) mod n * a mod n" by (simp only: mod_mult_left_eq)
  finally show ?case by (simp only: mod_power_square Bit1 mod_power.simps square_mod_def)
qed simp

definition power_mod :: "nat \<Rightarrow> nat \<Rightarrow> nat \<Rightarrow> nat" where
  "power_mod n a k = a ^ k mod n"

lemma power_mod_numeral [simp]: "power_mod n a (numeral k) = mod_power n a k"
  by (simp only: power_mod_def mod_power)

lemma lucas_certificate:
  assumes "n - 1 = prod_list ps" "1 < n" "set ps = set qs" "\<forall>p\<in>set qs. prime_nat p"
    "power_mod n a (n - 1) = 1" "\<forall>p\<in>set qs. power_mod n a ((n - 1) div p) \<noteq> 1"
  shows "prime_nat n"
  using lucas [of n ps a] assms by (simp add: power_mod_def)

lemma prime_nat_trial:
  assumes "1 < p" "p < m * m" "\<forall>d\<in>{2..<m}. \<not> d dvd p"
  shows "prime_nat p"
proof (rule ccontr)
  assume "\<not> prime_nat p"
  with assms(1) obtain d where d: "d dvd p" "d \<noteq> 1" "d \<noteq> p" by (auto simp: prime_nat_def)
  then obtain e where e: "p = d * e" by auto
  with assms(1) d have "2 \<le> d" "2 \<le> e" by (cases d; cases e; auto)+
  moreover have "e dvd p" using e by simp
  ultimately have "m \<le> d" "m \<le> e" using assms(3) d(1) by (auto simp: not_less [symmetric])
  then have "m * m \<le> p" unfolding e by (rule mult_le_mono)
  with assms(2) show False by simp
qed


section \<open>Certified primes\<close>

lemma prime_2: "prime_nat 2"
  by (rule prime_nat_trial [of _ 2]) (simp_all add: atLeastLessThan_nat_numeral)

lemma prime_3: "prime_nat 3"
  by (rule prime_nat_trial [of _ 2]) (simp_all add: atLeastLessThan_nat_numeral)

lemma prime_5: "prime_nat 5"
  by (rule prime_nat_trial [of _ 3]) (simp_all add: atLeastLessThan_nat_numeral)

lemma prime_11: "prime_nat 11"
  by (rule prime_nat_trial [of _ 4]) (simp_all add: atLeastLessThan_nat_numeral)

lemma prime_17: "prime_nat 17"
  by (rule prime_nat_trial [of _ 5]) (simp_all add: atLeastLessThan_nat_numeral)

lemma prime_7: "prime_nat 7"
  by (rule prime_nat_trial [of _ 3]) (simp_all add: atLeastLessThan_nat_numeral)

lemma prime_47: "prime_nat 47"
  by (rule prime_nat_trial [of _ 7]) (simp_all add: atLeastLessThan_nat_numeral)

lemma prime_257: "prime_nat 257"
  by (rule prime_nat_trial [of _ 17]) (simp_all add: atLeastLessThan_nat_numeral)

lemma prime_373: "prime_nat 373"
  by (rule prime_nat_trial [of _ 20]) (simp_all add: atLeastLessThan_nat_numeral)

lemma prime_641: "prime_nat 641"
  by (rule prime_nat_trial [of _ 26]) (simp_all add: atLeastLessThan_nat_numeral)

lemma prime_17449: "prime_nat 17449"
  by (rule prime_nat_trial [of _ 133]) (simp_all add: atLeastLessThan_nat_numeral)

lemma prime_166571: "prime_nat 166571"
  by (rule prime_nat_trial [of _ 409]) (simp_all add: atLeastLessThan_nat_numeral)

lemma prime_65537: "prime_nat 65537"
proof (rule lucas_certificate [of _ "[2, 2, 2, 2, 2, 2, 2, 2, 2, 2, 2, 2, 2, 2, 2, 2]" "[2]" 3])
  show "\<forall>p\<in>set [2]. prime_nat p"
    by (simp add: prime_2)
qed (simp_all add: square_mod_def [of _ "Suc 0"])

lemma prime_274177: "prime_nat 274177"
proof (rule lucas_certificate [of _ "[2, 2, 2, 2, 2, 2, 2, 2, 3, 3, 7, 17]" "[2, 3, 7, 17]" 5])
  show "\<forall>p\<in>set [2, 3, 7, 17]. prime_nat p"
    by (simp add: prime_2 prime_3 prime_7 prime_17)
qed (simp_all add: square_mod_def [of _ "Suc 0"])

lemma prime_6700417: "prime_nat 6700417"
proof (rule lucas_certificate [of _ "[2, 2, 2, 2, 2, 2, 2, 3, 17449]" "[2, 3, 17449]" 5])
  show "\<forall>p\<in>set [2, 3, 17449]. prime_nat p"
    by (simp add: prime_2 prime_3 prime_17449)
qed (simp_all add: square_mod_def [of _ "Suc 0"])

lemma prime_2998279: "prime_nat 2998279"
proof (rule lucas_certificate [of _ "[2, 3, 3, 166571]" "[2, 3, 166571]" 3])
  show "\<forall>p\<in>set [2, 3, 166571]. prime_nat p"
    by (simp add: prime_2 prime_3 prime_166571)
qed (simp_all add: square_mod_def [of _ "Suc 0"])

text \<open>The six powers of the last certificate share their leading exponents.\<close>

lemma power_mod_trans:
  "power_mod n a i = b \<Longrightarrow> power_mod n b j = c \<Longrightarrow> i * j = k \<Longrightarrow> power_mod n a k = c"
  by (auto simp: power_mod_def power_mult power_mod)

lemma prime_67280421310721: "prime_nat 67280421310721"
proof -
  let ?n = "67280421310721 :: nat"
  have b: "power_mod ?n 3 128 = 29516961172980"
    and b1: "power_mod ?n 29516961172980 2998279 = 6563487479891"
    and b2: "power_mod ?n 6563487479891 373 = 56636336996720"
    and c2: "power_mod ?n 56636336996720 235 = 67280421310720"
    and c5: "power_mod ?n 56636336996720 94 = 8348471219631"
    and c47: "power_mod ?n 56636336996720 10 = 29801263682154"
    and c373: "power_mod ?n 6563487479891 470 = 65541179653181"
    and cb: "power_mod ?n 29516961172980 175310 = 61150258807256"
    and c1: "power_mod ?n 67280421310720 2 = 1"
    by simp_all
  have d1: "power_mod ?n 3 383779712 = 6563487479891" by (rule power_mod_trans [OF b b1]) simp
  have d2: "power_mod ?n 3 143149832576 = 56636336996720" by (rule power_mod_trans [OF d1 b2]) simp
  have e2: "power_mod ?n 3 33640210655360 = 67280421310720" by (rule power_mod_trans [OF d2 c2]) simp
  have e5: "power_mod ?n 3 13456084262144 = 8348471219631" by (rule power_mod_trans [OF d2 c5]) simp
  have e47: "power_mod ?n 3 1431498325760 = 29801263682154" by (rule power_mod_trans [OF d2 c47]) simp
  have e373: "power_mod ?n 3 180376464640 = 65541179653181" by (rule power_mod_trans [OF d1 c373]) simp
  have eb: "power_mod ?n 3 22439680 = 61150258807256" by (rule power_mod_trans [OF b cb]) simp
  have e1: "power_mod ?n 3 67280421310720 = 1" by (rule power_mod_trans [OF e2 c1]) simp
  show ?thesis
    by (rule lucas_certificate [of _ "[2, 2, 2, 2, 2, 2, 2, 2, 5, 47, 373, 2998279]" "[2, 5, 47, 373, 2998279]" 3])
      (simp_all add: e1 e2 e5 e47 e373 eb prime_2 prime_5 prime_47 prime_373 prime_2998279 del: power_mod_numeral)
qed

end
