(* ===== verification/Gf128_Field.thy ===== *)
theory Gf128_Field
  imports Gf128 Primes
begin

text \<open>
  Exponentiation and inversion of \<open>crates/field/src/gf128/pow.rs\<close>, and the proof that the ring of
  \<open>Gf128\<close> is a field.

  The polynomial \<open>X\<close> is shown to have multiplicative order \<open>2 ^ 128 - 1\<close> by evaluating ten of its
  powers; its powers are then all the nonzero elements, so each of these has an inverse.  The
  evaluation works on lists of coefficients, lowest first.
\<close>

section \<open>Exponentiation and inversion\<close>

definition MULT_ORDER :: u128 where
  "MULT_ORDER = - 1"

definition ORDER_PRIME_FACTORS :: "u128 list" where
  "ORDER_PRIME_FACTORS = [3, 5, 17, 257, 641, 65537, 274177, 6700417, 67280421310721]"

function f128_pow_loop :: "f128 \<Rightarrow> f128 \<Rightarrow> u128 \<Rightarrow> f128" where
  "f128_pow_loop acc base e =
     (if e = 0 then acc
      else f128_pow_loop (if e AND 1 = 1 then f128_mul acc base else acc)
             (f128_square base) (drop_bit 1 e))"
  by pat_completeness auto
termination
proof (relation "measure (\<lambda>(acc, base, e). unat e)")
  fix acc base :: f128 and e :: u128
  assume "e \<noteq> 0"
  then show "((if e AND 1 = 1 then f128_mul acc base else acc, f128_square base, drop_bit 1 e), acc, base, e)
      \<in> measure (\<lambda>(acc, base, e). unat e)"
    by (simp only: in_measure prod.case unat_drop_bit) (simp add: unat_gt_0)
qed simp

declare f128_pow_loop.simps [simp del]

definition f128_pow :: "f128 \<Rightarrow> u128 \<Rightarrow> f128" where
  "f128_pow a exp = f128_pow_loop f128_ONE a exp"

definition f128_pow_u32 :: "f128 \<Rightarrow> u32 \<Rightarrow> f128" where
  "f128_pow_u32 a exp = f128_pow a (ucast exp)"

definition f128_inv :: "f128 \<Rightarrow> f128 option" where
  "f128_inv a =
     (if f128_is_zero a then None
      else
        let b1 = a;
            b2 = f128_mul (f128_square_n b1 1) b1;
            b3 = f128_mul (f128_square_n b2 1) b1;
            b6 = f128_mul (f128_square_n b3 3) b3;
            b12 = f128_mul (f128_square_n b6 6) b6;
            b24 = f128_mul (f128_square_n b12 12) b12;
            b48 = f128_mul (f128_square_n b24 24) b24;
            b96 = f128_mul (f128_square_n b48 48) b48;
            b120 = f128_mul (f128_square_n b96 24) b24;
            b126 = f128_mul (f128_square_n b120 6) b6;
            b127 = f128_mul (f128_square_n b126 1) b1
        in Some (f128_square b127))"

definition f128_div :: "f128 \<Rightarrow> f128 \<Rightarrow> f128 option" where
  "f128_div a b = map_option (f128_mul a) (f128_inv b)"

definition is_generator :: "f128 \<Rightarrow> bool" where
  "is_generator a \<longleftrightarrow> \<not> f128_is_zero a
     \<and> list_all (\<lambda>p. f128_pow a (MULT_ORDER div p) \<noteq> f128_ONE) ORDER_PRIME_FACTORS"

text \<open>The search over \<open>(2u128..)\<close> stops at the last \<open>u128\<close>, where the iterator panics.\<close>

function smallest_generator_from :: "u128 \<Rightarrow> f128 option" where
  "smallest_generator_from n =
     (if is_generator (f128_from_u128 n) then Some (f128_from_u128 n)
      else if n = - 1 then None
      else smallest_generator_from (n + 1))"
  by pat_completeness auto
termination
proof (relation "measure (\<lambda>n. 2 ^ 128 - unat n)")
  fix n :: u128 assume n: "n \<noteq> - 1"
  have "unat n + 1 < 2 ^ 128"
  proof (rule ccontr)
    assume "\<not> unat n + 1 < 2 ^ 128"
    then have "unat n = 2 ^ 128 - 1" using unat_lt2p [of n] by simp
    then have "n = - 1" by (simp add: word_unat_eq_iff unsigned_minus_1_eq_mask mask_eq_exp_minus_1)
    with n show False ..
  qed
  moreover from this have "unat (n + 1) = unat n + 1" by (subst unat_add_lt) simp_all
  ultimately show "(n + 1, n) \<in> measure (\<lambda>n. 2 ^ 128 - unat n)" by simp
qed simp

declare smallest_generator_from.simps [simp del]

definition smallest_generator :: "f128 option" where
  "smallest_generator = smallest_generator_from 2"

lemma f128_pow_loop_correct: "f128_pow_loop acc base e = acc * base ^ unat e"
proof (induction acc base e rule: f128_pow_loop.induct)
  case (1 acc base e)
  show ?case
  proof (cases "e = 0")
    case False
    have e: "unat e = 2 * unat (drop_bit 1 e) + of_bool (e AND 1 = 1)"
    proof -
      have "e AND 1 = 1 \<longleftrightarrow> odd (unat e)"
        using drop_bit_and_1 [of 0 e] bit_word_odd [of e 0] by simp
      then show ?thesis by (simp only: unat_drop_bit power_one_right) (simp add: odd_two_times_div_two_succ)
    qed
    have "f128_pow_loop acc base e
        = (if e AND 1 = 1 then acc * base else acc) * (base * base) ^ unat (drop_bit 1 e)"
      using 1 [OF False] False by (simp add: f128_pow_loop.simps [of acc base e] f128_square_correct)
    also have "\<dots> = acc * base ^ unat e"
      unfolding e by (simp only: power_add power_mult power2_eq_square) (auto simp: ac_simps)
    finally show ?thesis .
  qed (simp add: f128_pow_loop.simps [of acc base 0])
qed

lemma f128_pow_correct: "f128_pow a e = a ^ unat e"
  by (simp add: f128_pow_def f128_pow_loop_correct)

lemma f128_inv_chain:
  assumes "\<not> f128_is_zero a"
  shows "f128_inv a = Some (a ^ (2 ^ 128 - 2))"
proof -
  have step: "a ^ (2 ^ m - 1) = b \<Longrightarrow> a ^ (2 ^ n - 1) = c \<Longrightarrow> k = m + n \<Longrightarrow>
      f128_mul (f128_square_n b n) c = a ^ (2 ^ k - 1)" for b c m n k
  proof -
    assume *: "a ^ (2 ^ m - 1) = b" "a ^ (2 ^ n - 1) = c" "k = m + n"
    have "(2 ^ m - 1) * 2 ^ n + (2 ^ n - 1) = (2 :: nat) ^ k - 1"
      unfolding *(3) by (simp add: power_add algebra_simps)
    then show ?thesis
      unfolding f128_square_n_correct *(1,2) [symmetric]
      by (simp add: power_add [symmetric] power_mult [symmetric])
  qed
  let ?b = "\<lambda>n :: nat. a ^ (2 ^ n - 1)"
  have chain: "f128_mul (f128_square_n (?b m) n) (?b n) = ?b k" if "k = m + n" for m n k
    by (rule step [OF refl refl that])
  have c1: "f128_mul (f128_square_n (?b m) 1) a = ?b k" if "k = m + 1" for m k
    using chain [OF that] by simp
  have b1: "f128_mul (f128_square_n a 1) a = ?b 2" using chain [of 2 1 1] by simp
  have "f128_inv a = Some (f128_square (?b 127))"
    unfolding f128_inv_def Let_def if_not_P [OF assms]
    by (simp only: b1 c1 [of 3 2] chain [of 6 3 3] chain [of 12 6 6] chain [of 24 12 12] chain [of 48 24 24]
        chain [of 96 48 48] chain [of 120 96 24] chain [of 126 120 6] c1 [of 127 126]
        arith_simps numeral_One refl)
  also have "f128_square (?b 127) = a ^ ((2 ^ 127 - 1) + (2 ^ 127 - 1))"
    by (simp only: f128_square_correct power_add)
  finally show ?thesis by simp
qed

section \<open>Powers of \<open>X\<close> on coefficient lists\<close>

fun bl :: "bool list \<Rightarrow> nat" where
  "bl [] = 0"
| "bl (b # bs) = of_bool b XOR 2 * bl bs"

fun spread :: "bool list \<Rightarrow> bool list" where
  "spread [] = []"
| "spread (b # bs) = b # False # spread bs"

text \<open>The part of the second list along the first, and the part beyond it.\<close>

fun along :: "bool list \<Rightarrow> bool list \<Rightarrow> bool list" where
  "along [] ss = []"
| "along (t # ts) [] = []"
| "along (t # ts) (s # ss) = s # along ts ss"

fun beyond :: "bool list \<Rightarrow> bool list \<Rightarrow> bool list" where
  "beyond [] ss = ss"
| "beyond (t # ts) [] = []"
| "beyond (t # ts) (s # ss) = beyond ts ss"

fun xor_list :: "bool list \<Rightarrow> bool list \<Rightarrow> bool list" where
  "xor_list [] ys = ys"
| "xor_list (x # xs) [] = x # xs"
| "xor_list (False # xs) (False # ys) = False # xor_list xs ys"
| "xor_list (False # xs) (True # ys) = True # xor_list xs ys"
| "xor_list (True # xs) (False # ys) = True # xor_list xs ys"
| "xor_list (True # xs) (True # ys) = False # xor_list xs ys"

definition fold_high :: "bool list \<Rightarrow> bool list" where
  "fold_high h = xor_list h (False # xor_list h (False # xor_list h (False # False # False # False # False # h)))"

definition sq_fold2 :: "bool list \<Rightarrow> bool list \<Rightarrow> bool list \<Rightarrow> bool list" where
  "sq_fold2 x l p = xor_list (xor_list l (along x p)) (fold_high (beyond x p))"

definition sq_fold1 :: "bool list \<Rightarrow> bool list \<Rightarrow> bool list" where
  "sq_fold1 x s = sq_fold2 x (along x s) (fold_high (beyond x s))"

definition sq_list :: "bool list \<Rightarrow> bool list" where
  "sq_list x = sq_fold1 x (spread x)"

definition shift_fold :: "bool list \<Rightarrow> bool list \<Rightarrow> bool list" where
  "shift_fold x p = xor_list (along x p) (fold_high (beyond x p))"

definition mx_list :: "bool list \<Rightarrow> bool list" where
  "mx_list x = shift_fold x (False # x)"

fun all_false :: "bool list \<Rightarrow> bool" where
  "all_false [] = True"
| "all_false (True # bs) = False"
| "all_false (False # bs) = all_false bs"

fun is_one_list :: "bool list \<Rightarrow> bool" where
  "is_one_list [] = False"
| "is_one_list (False # bs) = False"
| "is_one_list (True # bs) = all_false bs"

primrec power_X :: "num \<Rightarrow> bool list" where
  "power_X num.One = 
     [False, True, False, False, False, False, False, False, False, False, False, False, False,
      False, False, False, False, False, False, False, False, False, False, False, False, False,
      False, False, False, False, False, False, False, False, False, False, False, False, False,
      False, False, False, False, False, False, False, False, False, False, False, False, False,
      False, False, False, False, False, False, False, False, False, False, False, False, False,
      False, False, False, False, False, False, False, False, False, False, False, False, False,
      False, False, False, False, False, False, False, False, False, False, False, False, False,
      False, False, False, False, False, False, False, False, False, False, False, False, False,
      False, False, False, False, False, False, False, False, False, False, False, False, False,
      False, False, False, False, False, False, False, False, False, False, False]"
| "power_X (num.Bit0 k) = sq_list (power_X k)"
| "power_X (num.Bit1 k) = mx_list (sq_list (power_X k))"

lemma length_xor_list: "length (xor_list a b) = max (length a) (length b)"
  by (induction a b rule: xor_list.induct) auto

lemma length_spread [simp]: "length (spread a) = 2 * length a"
  by (induction a) auto

lemma length_along [simp]: "length (along a b) = min (length a) (length b)"
  by (induction a b rule: along.induct) auto

lemma length_beyond [simp]: "length (beyond a b) = length b - length a"
  by (induction a b rule: beyond.induct) auto

lemma length_fold_high [simp]: "length (fold_high h) = length h + 7"
  by (simp add: fold_high_def length_xor_list)

lemma length_mx_list [simp]: "16 \<le> length x \<Longrightarrow> length (mx_list x) = length x"
  by (simp add: mx_list_def shift_fold_def length_xor_list)

lemma length_sq_list [simp]: "16 \<le> length x \<Longrightarrow> length (sq_list x) = length x"
  by (simp add: sq_list_def sq_fold1_def sq_fold2_def length_xor_list)

lemma bl_Cons: "bl (b # a) = of_bool b + 2 * bl a"
  using xor_disjoint_add [of "of_bool b" 1 "bl a"] by simp

lemma bl_less: "bl a < 2 ^ length a"
proof (induction a)
  case (Cons b a)
  then show ?case by (auto simp only: bl_Cons length_Cons power_Suc split: bool.split) (cases b; simp)
qed simp

lemma bl_xor_list: "bl (xor_list a b) = bl a XOR bl b"
  by (induction a b rule: xor_list.induct) (simp_all add: double_xor xor_ac)

lemma bl_False [simp]: "bl (False # a) = 2 * bl a"
  by simp

lemma bl_split: "bl s = bl (along x s) XOR 2 ^ length x * bl (beyond x s)"
proof (induction x s rule: along.induct)
  case (3 t ts s ss)
  then show ?case by (simp add: double_xor xor_ac mult.assoc)
qed simp_all

lemma bl_spread: "bl (spread a) = clm (bl a) (bl a)"
proof (induction a)
  case (Cons b a)
  have "clm (bl (b # a)) (bl (b # a)) = clm (of_bool b) (of_bool b) XOR 2 * (2 * clm (bl a) (bl a))"
    by (simp only: bl.simps clm_xor_left clm_xor_right clm_double_left clm_double_right double_xor
        clm_commute [of "bl a" "of_bool b"] xor_ac xor_left_cancel_nat)
  with Cons show ?case by (cases b) simp_all
qed simp

lemma bl_fold_high: "bl (fold_high h) = clm (bl h) 135"
  by (simp add: fold_high_def bl_xor_list poly_135 double_xor xor_ac)

lemma bl_shift_fold: "length x = 128 \<Longrightarrow> cong_ghash (bl p) (bl (shift_fold x p))"
  using cong_ghash_fold [of "bl (along x p)" "bl (beyond x p)"] bl_split [of p x]
  by (simp add: shift_fold_def bl_xor_list bl_fold_high)

lemma bl_sq_list:
  assumes "length x = 128"
  shows "cong_ghash (clm (bl x) (bl x)) (bl (sq_list x))"
proof -
  let ?s = "spread x" let ?p = "fold_high (beyond x ?s)"
  have "bl ?s = bl (along x ?s) XOR 2 ^ 128 * bl (beyond x ?s)"
    using bl_split [of ?s x] by (simp only: assms)
  also have "cong_ghash \<dots> (bl (along x ?s) XOR bl ?p)"
    unfolding bl_fold_high by (rule cong_ghash_fold)
  also have "cong_ghash \<dots> (bl (along x ?s) XOR bl (shift_fold x ?p))"
    by (intro cong_ghash_xor cong_ghash_refl bl_shift_fold assms)
  also have "\<dots> = bl (sq_list x)"
    by (simp add: sq_list_def sq_fold1_def sq_fold2_def shift_fold_def bl_xor_list xor_ac)
  finally show ?thesis by (simp only: bl_spread)
qed

lemma bl_mx_list: "length x = 128 \<Longrightarrow> cong_ghash (clm (bl x) 2) (bl (mx_list x))"
  using bl_shift_fold [of x "False # x"] clm_double_right [of "bl x" 1] by (simp add: mx_list_def)

lemma power_X_correct:
  "length (power_X k) = 128 \<and> poly_of (f128_GENERATOR ^ numeral k) = bl (power_X k)"
proof (induction k)
  case One
  show ?case by (simp add: poly_of_GENERATOR)
next
  case (Bit0 k)
  have "f128_GENERATOR ^ numeral (num.Bit0 k) = f128_GENERATOR ^ numeral k * f128_GENERATOR ^ numeral k"
    by (simp only: numeral_Bit0 power_add)
  moreover have "poly_of (f128_GENERATOR ^ numeral k * f128_GENERATOR ^ numeral k) = bl (sq_list (power_X k))"
    using Bit0 bl_sq_list [of "power_X k"] bl_less [of "sq_list (power_X k)"]
    by (intro poly_of_mulI) simp_all
  ultimately show ?case using Bit0 by simp
next
  case (Bit1 k)
  let ?s = "f128_GENERATOR ^ numeral k * f128_GENERATOR ^ numeral k"
  have "f128_GENERATOR ^ numeral (num.Bit1 k) = ?s * f128_GENERATOR"
    by (simp only: numeral_Bit1 power_add power_one_right)
  moreover have s: "poly_of ?s = bl (sq_list (power_X k))"
    using Bit1 bl_sq_list [of "power_X k"] bl_less [of "sq_list (power_X k)"]
    by (intro poly_of_mulI) simp_all
  moreover have "poly_of (?s * f128_GENERATOR) = bl (mx_list (sq_list (power_X k)))"
    using Bit1 bl_mx_list [of "sq_list (power_X k)"] bl_less [of "mx_list (sq_list (power_X k))"]
    by (intro poly_of_mulI) (simp_all only: s poly_of_GENERATOR length_mx_list length_sq_list)
  ultimately show ?case using Bit1 by simp
qed

lemma bl_all_false: "all_false a \<longleftrightarrow> bl a = 0"
  by (induction a rule: all_false.induct) (auto simp: bl_Cons simp del: bl.simps(2))

lemma bl_is_one_list: "is_one_list a \<longleftrightarrow> bl a = 1"
  by (cases a rule: is_one_list.cases) (auto simp: bl_all_false bl_Cons simp del: bl.simps(2))

lemma power_X_one: "f128_GENERATOR ^ numeral k = 1 \<longleftrightarrow> is_one_list (power_X k)"
  using power_X_correct [of k] by (simp add: bl_is_one_list one_f128_def flip: poly_of_inj del: f128_ops)

section \<open>The order of \<open>X\<close>\<close>

definition X_power_is_one :: "nat \<Rightarrow> bool" where
  "X_power_is_one n = (f128_GENERATOR ^ n = 1)"

lemma X_power_is_one_numeral: "X_power_is_one (numeral k) = is_one_list (power_X k)"
  by (simp only: X_power_is_one_def power_X_one)

lemmas power_X_eval =
  X_power_is_one_numeral power_X.simps mx_list_def shift_fold_def sq_list_def sq_fold1_def sq_fold2_def
  fold_high_def xor_list.simps along.simps beyond.simps spread.simps all_false.simps is_one_list.simps
  simp_thms

lemma X_power_order: "X_power_is_one 340282366920938463463374607431768211455"
  by (simp only: power_X_eval)

lemma X_power_3: "\<not> X_power_is_one 113427455640312821154458202477256070485"
  by (simp only: power_X_eval)

lemma X_power_5: "\<not> X_power_is_one 68056473384187692692674921486353642291"
  by (simp only: power_X_eval)

lemma X_power_17: "\<not> X_power_is_one 20016609818878733144904388672456953615"
  by (simp only: power_X_eval)

lemma X_power_257: "\<not> X_power_is_one 1324055902416102970674609367438786815"
  by (simp only: power_X_eval)

lemma X_power_641: "\<not> X_power_is_one 530861726865738632548166314246128255"
  by (simp only: power_X_eval)

lemma X_power_65537: "\<not> X_power_is_one 5192217631581220737344928932233215"
  by (simp only: power_X_eval)

lemma X_power_274177: "\<not> X_power_is_one 1241104713090224429705535502364415"
  by (simp only: power_X_eval)

lemma X_power_6700417: "\<not> X_power_is_one 50785252159819077448966923615615"
  by (simp only: power_X_eval)

lemma X_power_67280421310721: "\<not> X_power_is_one 5057672949897463733145855"
  by (simp only: power_X_eval)

section \<open>Inverses\<close>

lemma X_power_one: "f128_GENERATOR ^ (2 ^ 128 - 1) = 1"
  using X_power_order by (simp add: X_power_is_one_def)

lemma order_factorisation:
  "prod_list (map unat ORDER_PRIME_FACTORS) = 2 ^ 128 - 1"
  "\<forall>p\<in>set (map unat ORDER_PRIME_FACTORS). prime_nat p"
  by (simp_all add: ORDER_PRIME_FACTORS_def prime_3 prime_5 prime_17 prime_257 prime_641 prime_65537
      prime_274177 prime_6700417 prime_67280421310721)

interpretation f128_exponents: exponents "{k. a ^ k = 1}" for a :: f128
proof
  fix x y assume *: "x \<in> {k. a ^ k = 1}" "x + y \<in> {k. a ^ k = 1}"
  then show "y \<in> {k. a ^ k = 1}" by (simp add: power_add)
qed (simp_all add: power_add)

text \<open>The order of an element that passes the nine tests is \<open>2 ^ 128 - 1\<close>.\<close>

lemma order_if_tests:
  fixes a :: f128
  assumes "a ^ (2 ^ 128 - 1) = 1" "\<forall>p\<in>set (map unat ORDER_PRIME_FACTORS). a ^ ((2 ^ 128 - 1) div p) \<noteq> 1"
    and "a ^ k = 1"
  shows "2 ^ 128 - 1 dvd k"
proof (rule f128_exponents.order_dvd)
  fix p assume "prime_nat p" "p dvd 2 ^ 128 - 1"
  then have "p \<in> set (map unat ORDER_PRIME_FACTORS)"
    using order_factorisation(2) by (intro prime_nat_dvd_prod_primes) (simp_all only: order_factorisation(1))
  with assms(2) show "(2 ^ 128 - 1) div p \<notin> {k. a ^ k = 1}" by blast
qed (use assms in simp_all)

lemma powers_inj:
  fixes a :: f128
  assumes one: "a ^ (2 ^ 128 - 1) = 1" and ord: "\<And>k. a ^ k = 1 \<Longrightarrow> 2 ^ 128 - 1 dvd k"
  shows "inj_on (\<lambda>k. a ^ k) {..<2 ^ 128 - 1}"
proof (rule linorder_inj_onI)
  fix i j :: nat assume ij: "i < j" "i \<in> {..<2 ^ 128 - 1}" "j \<in> {..<2 ^ 128 - 1}"
  show "a ^ i \<noteq> a ^ j"
  proof
    assume "a ^ i = a ^ j"
    then have "a ^ (2 ^ 128 - 1 - i) * a ^ i = a ^ (2 ^ 128 - 1 - i) * a ^ j" by simp
    then have "a ^ (2 ^ 128 - 1 - i + j) = 1"
      using ij one by (simp add: power_add [symmetric])
    moreover have "2 ^ 128 - 1 - i + j = (2 ^ 128 - 1) + (j - i)" using ij by simp
    ultimately have "a ^ (2 ^ 128 - 1) * a ^ (j - i) = 1" by (simp only: power_add)
    then have "a ^ (j - i) = 1" by (simp only: one mult_1)
    then have "2 ^ 128 - 1 dvd j - i" by (rule ord)
    with ij show False by (auto dest!: dvd_imp_le)
  qed
qed auto

lemma finite_f128 [simp]: "finite (S :: f128 set)"
proof (rule finite_subset [OF subset_UNIV], rule finite_imageD [where f = poly_of])
  show "finite (range poly_of)"
    by (rule finite_subset [of _ "{..<2 ^ 128}"]) (use poly_of_less in auto)
  show "inj poly_of" by (rule injI) (simp only: poly_of_inj)
qed

lemma poly_of_0_iff: "poly_of a = 0 \<longleftrightarrow> a = 0"
  using poly_of_inj [of a 0] by (simp add: zero_f128_def del: f128_ops)

lemma card_nonzero: "card {a :: f128. a \<noteq> 0} \<le> 2 ^ 128 - 1"
proof -
  have "card {a :: f128. a \<noteq> 0} = card (poly_of ` {a. a \<noteq> 0})"
    by (rule card_image [symmetric], rule inj_onI) (simp only: poly_of_inj)
  also have "\<dots> \<le> card {1..<2 ^ 128 :: nat}"
  proof (rule card_mono)
    show "poly_of ` {a. a \<noteq> 0} \<subseteq> {1..<2 ^ 128}"
      using poly_of_less by (auto simp: Suc_le_eq poly_of_0_iff simp flip: neq0_conv)
  qed simp
  finally show ?thesis by simp
qed

lemma powers_surj:
  fixes a :: f128
  assumes one: "a ^ (2 ^ 128 - 1) = 1" and ord: "\<And>k. a ^ k = 1 \<Longrightarrow> 2 ^ 128 - 1 dvd k"
  shows "(\<lambda>k. a ^ k) ` {..<2 ^ 128 - 1} = {b. b \<noteq> 0}"
proof (rule card_seteq)
  show "(\<lambda>k. a ^ k) ` {..<2 ^ 128 - 1} \<subseteq> {b. b \<noteq> 0}"
  proof clarify
    fix k :: nat assume "k < 2 ^ 128 - 1" "a ^ k = 0"
    then have "a ^ k * a ^ (2 ^ 128 - 1 - k) = 0" by simp
    with \<open>k < 2 ^ 128 - 1\<close> one show False by (simp add: power_add [symmetric])
  qed
  have "card ((\<lambda>k. a ^ k) ` {..<2 ^ 128 - 1}) = 2 ^ 128 - 1"
    using card_image [OF powers_inj [OF assms]] by simp
  with card_nonzero show "card {b :: f128. b \<noteq> 0} \<le> card ((\<lambda>k. a ^ k) ` {..<2 ^ 128 - 1})" by simp
qed simp

lemma X_order: "f128_GENERATOR ^ k = 1 \<Longrightarrow> 2 ^ 128 - 1 dvd k"
proof (rule order_if_tests [OF X_power_one])
  show "\<forall>p\<in>set (map unat ORDER_PRIME_FACTORS). f128_GENERATOR ^ ((2 ^ 128 - 1) div p) \<noteq> 1"
    using X_power_3 X_power_5 X_power_17 X_power_257 X_power_641 X_power_65537 X_power_274177
      X_power_6700417 X_power_67280421310721
    by (simp add: ORDER_PRIME_FACTORS_def flip: X_power_is_one_def)
qed

lemma nonzero_power_one: "a \<noteq> 0 \<Longrightarrow> a ^ (2 ^ 128 - 1) = (1 :: f128)"
proof -
  assume "a \<noteq> 0"
  with powers_surj [OF X_power_one X_order] obtain k where k: "a = f128_GENERATOR ^ k"
    by (metis (mono_tags, lifting) imageE mem_Collect_eq)
  have "a ^ (2 ^ 128 - 1) = (f128_GENERATOR ^ (2 ^ 128 - 1)) ^ k"
    unfolding k by (simp only: mult.commute flip: power_mult)
  then show ?thesis by (simp only: X_power_one power_one)
qed

lemma f128_inv_Some: "a \<noteq> 0 \<Longrightarrow> f128_inv a = Some (a ^ (2 ^ 128 - 2))"
  by (rule f128_inv_chain) (simp add: f128_is_zero_iff)

lemma f128_inv_zero: "f128_inv 0 = None"
  by (simp add: f128_inv_def f128_is_zero_iff)

lemma f128_power_inverse: "a \<noteq> 0 \<Longrightarrow> a ^ (2 ^ 128 - 2) * a = (1 :: f128)"
proof -
  assume "a \<noteq> 0"
  have "a ^ (2 ^ 128 - 2) * a = a ^ Suc (2 ^ 128 - 2)" by (simp only: power_Suc mult.commute)
  also have "Suc (2 ^ 128 - 2) = 2 ^ 128 - 1" by simp
  finally show ?thesis using nonzero_power_one [OF \<open>a \<noteq> 0\<close>] by simp
qed

instantiation f128 :: field
begin

definition inverse_f128 :: "f128 \<Rightarrow> f128" where
  "inverse_f128 a = (case f128_inv a of None \<Rightarrow> 0 | Some b \<Rightarrow> b)"

definition divide_f128 :: "f128 \<Rightarrow> f128 \<Rightarrow> f128" where
  "divide_f128 a b = a * inverse b"

instance
proof
  fix a b :: f128
  show "inverse a * a = 1" if "a \<noteq> 0"
    by (simp only: inverse_f128_def f128_inv_Some [OF that] option.case f128_power_inverse [OF that])
  show "a div b = a * inverse b" by (rule divide_f128_def)
  show "inverse (0 :: f128) = 0" by (simp add: inverse_f128_def f128_inv_zero)
qed

end

lemma f128_inv_inverse: "f128_inv a = (if a = 0 then None else Some (inverse a))"
  by (cases "a = 0") (simp_all add: f128_inv_zero inverse_f128_def f128_inv_Some)

lemma f128_div_divide: "f128_div a b = (if b = 0 then None else Some (a / b))"
  by (simp add: f128_div_def f128_inv_inverse divide_f128_def)

end
