(* ===== verification/Field_Helpers.thy ===== *)
theory Field_Helpers
  imports BitZ_Prelude Primes
begin

text \<open>
  Modular arithmetic shared by the prime fields: \<open>crates/field/src/helpers.rs\<close>.

  Every loop of the file is a recursive function of the same shape, on \<open>u128\<close> words.
  The lemmas relate each routine to arithmetic on natural numbers: the 256-bit product, the
  Barrett reciprocal and reduction, exponentiation, and the strong probable-prime rounds.
\<close>

section \<open>The routines\<close>

definition MAX_MODULUS_BITS :: nat where
  "MAX_MODULUS_BITS = 126"

definition PRIMALITY_BASES :: "u128 list" where
  "PRIMALITY_BASES = [2, 3, 5, 7, 11, 13, 17, 19, 23, 29, 31, 37, 41]"

fun sieve_loop :: "u128 \<Rightarrow> u128 list \<Rightarrow> bool option" where
  "sieve_loop candidate [] = None"
| "sieve_loop candidate (prime # rest) =
     (if candidate = prime then Some True
      else if candidate mod prime = 0 then Some False
      else sieve_loop candidate rest)"

definition sieve :: "u128 \<Rightarrow> bool option" where
  "sieve candidate =
     (if candidate < 2 then Some False else sieve_loop candidate PRIMALITY_BASES)"

definition add_mod :: "u128 \<Rightarrow> u128 \<Rightarrow> u128 \<Rightarrow> u128" where
  "add_mod a b q = (let sum = a + b in if q \<le> sum then sum - q else sum)"

function mul_mod_loop :: "u128 \<Rightarrow> u128 \<Rightarrow> u128 \<Rightarrow> u128 \<Rightarrow> u128" where
  "mul_mod_loop result addend remaining q =
     (if remaining = 0 then result
      else mul_mod_loop
             (if remaining AND 1 = 1 then add_mod result addend q else result)
             (add_mod addend addend q)
             (drop_bit 1 remaining) q)"
  by pat_completeness auto
termination
proof (relation "measure (\<lambda>(result, addend, remaining, q). unat remaining)")
  fix result addend remaining q :: u128
  assume "remaining \<noteq> 0"
  then have "0 < unat remaining" by (simp add: unat_gt_0)
  then show "((if remaining AND 1 = 1 then add_mod result addend q else result,
              add_mod addend addend q, drop_bit 1 remaining, q), result, addend, remaining, q)
    \<in> measure (\<lambda>(result, addend, remaining, q). unat remaining)"
    by (simp only: unat_drop_bit in_measure prod.case) simp
qed simp

definition mul_mod :: "u128 \<Rightarrow> u128 \<Rightarrow> u128 \<Rightarrow> u128" where
  "mul_mod a b q = mul_mod_loop 0 (a mod q) b q"

definition mul_wide :: "u128 \<Rightarrow> u128 \<Rightarrow> u128 \<times> u128" where
  "mul_wide a b =
     (let a_lo = ucast (ucast a :: u64); a_hi = drop_bit 64 a;
          b_lo = ucast (ucast b :: u64); b_hi = drop_bit 64 b;
          ll = a_lo * b_lo;
          hh = a_hi * b_hi;
          (mid, mid_carry) = overflowing_add (a_lo * b_hi) (a_hi * b_lo);
          (lo, lo_carry) = overflowing_add ll (push_bit 64 mid);
          hi = hh + drop_bit 64 mid + push_bit 64 (of_bool mid_carry) + of_bool lo_carry
      in (lo, hi))"

definition shr_wide :: "u128 \<Rightarrow> u128 \<Rightarrow> nat \<Rightarrow> u128" where
  "shr_wide lo hi n =
     (if n = 0 then lo else drop_bit n lo OR push_bit (128 - n) hi)"

fun barrett_mu_loop :: "u128 \<Rightarrow> nat \<Rightarrow> nat \<Rightarrow> u128 \<Rightarrow> u128 \<Rightarrow> u128" where
  "barrett_mu_loop q k i rem quo =
     (let rem = push_bit 1 rem OR of_bool (i = 2 * k);
          fits = q \<le> rem;
          rem = (if fits then rem - q else rem);
          quo = push_bit 1 quo OR of_bool fits
      in case i of 0 \<Rightarrow> quo | Suc i' \<Rightarrow> barrett_mu_loop q k i' rem quo)"

definition barrett_mu :: "u128 \<Rightarrow> nat \<Rightarrow> u128" where
  "barrett_mu q k = barrett_mu_loop q k (2 * k) 0 0"

definition barrett_reduce :: "u128 \<Rightarrow> u128 \<Rightarrow> u128 \<Rightarrow> u128 \<Rightarrow> nat \<Rightarrow> u128" where
  "barrett_reduce lo hi q mu k =
     (let q1 = shr_wide lo hi (k - 1);
          (q2_lo, q2_hi) = mul_wide q1 mu;
          q3 = shr_wide q2_lo q2_hi (k + 1);
          r = lo - fst (mul_wide q3 q);
          r = (if q \<le> r then r - q else r);
          r = (if q \<le> r then r - q else r)
      in r)"

record field_metadata =
  fm_modulus :: u128
  fm_bits :: nat
  fm_mu :: u128

definition field_metadata_new :: "u128 \<Rightarrow> field_metadata option" where
  "field_metadata_new m =
     (if \<not> (2 \<le> m \<and> m < push_bit MAX_MODULUS_BITS 1) then None
      else if \<not> (m = 2 \<or> m mod 2 = 1) then None
      else let b = 128 - leading_zeros m
           in Some \<lparr>fm_modulus = m, fm_bits = b, fm_mu = barrett_mu m b\<rparr>)"

definition fm_mul :: "field_metadata \<Rightarrow> u128 \<Rightarrow> u128 \<Rightarrow> u128" where
  "fm_mul self a b =
     (let (lo, hi) = mul_wide a b in barrett_reduce lo hi (fm_modulus self) (fm_mu self) (fm_bits self))"

fun fm_pow_loop :: "field_metadata \<Rightarrow> u128 \<Rightarrow> u128 \<Rightarrow> nat \<Rightarrow> u128 \<Rightarrow> u128" where
  "fm_pow_loop self base exponent 0 result = result"
| "fm_pow_loop self base exponent (Suc i) result =
     (let result = fm_mul self result result;
          result = (if drop_bit i exponent AND 1 = 1 then fm_mul self result base else result)
      in fm_pow_loop self base exponent i result)"

definition fm_pow :: "field_metadata \<Rightarrow> u128 \<Rightarrow> u128 \<Rightarrow> u128" where
  "fm_pow self base exponent =
     fm_pow_loop self base exponent (128 - leading_zeros exponent) (1 mod fm_modulus self)"

fun strong_round_loop :: "field_metadata \<Rightarrow> u128 \<Rightarrow> nat \<Rightarrow> bool" where
  "strong_round_loop self witness 0 = False"
| "strong_round_loop self witness (Suc rounds) =
     (let witness = fm_mul self witness witness
      in if witness = fm_modulus self - 1 then True else strong_round_loop self witness rounds)"

definition strong_round :: "field_metadata \<Rightarrow> u128 \<Rightarrow> bool" where
  "strong_round self base =
     (let shift = trailing_zeros (fm_modulus self - 1);
          odd = drop_bit shift (fm_modulus self - 1);
          witness = fm_pow self base odd
      in if witness = 1 \<or> witness = fm_modulus self - 1 then True
         else strong_round_loop self witness (shift - 1))"

definition is_prime :: "u128 \<Rightarrow> bool option" where
  "is_prime candidate =
     (case sieve candidate of
        Some decided \<Rightarrow> Some decided
      | None \<Rightarrow> (case field_metadata_new candidate of
          None \<Rightarrow> None
        | Some m \<Rightarrow> Some (list_all (strong_round m) PRIMALITY_BASES)))"

declare mul_mod_loop.simps [simp del] barrett_mu_loop.simps [simp del]

section \<open>The 256-bit product and shift\<close>

text \<open>The number that a pair of \<open>u128\<close> halves, low half first, stands for.\<close>


definition wide_val :: "u128 \<times> u128 \<Rightarrow> nat" where
  "wide_val w = unat (fst w) + 2 ^ 128 * unat (snd w)"

lemma unat_ucast_64: "unat (ucast (ucast (a :: u128) :: u64) :: u128) = unat a mod 2 ^ 64"
  unfolding unat_ucast_mod by simp

lemma mul_wide_arith:
  fixes al ah bl bh mid c1 lo c2 M :: nat
  assumes mid: "mid + M * M * c1 = al * bh + ah * bl"
    and lo: "lo + M * M * c2 = al * bl + mid mod M * M"
    and M: "0 < M"
  shows "lo + M * M * (ah * bh + mid div M + c1 * M + c2) = (al + M * ah) * (bl + M * bh)"
proof -
  have "lo + M * M * c2 + M * (mid + M * M * c1) + M * M * (ah * bh)
      = al * bl + mid mod M * M + M * (al * bh + ah * bl) + M * M * (ah * bh)"
    by (simp only: mid lo)
  moreover have "M * mid = M * (mid mod M) + M * (M * (mid div M))"
    by (simp add: distrib_left [symmetric])
  ultimately show ?thesis
    by (simp add: algebra_simps)
qed

lemma wide_val_mul_wide [simp]: "wide_val (mul_wide a b) = unat a * unat b"
proof -
  define al ah bl bh where "al = (ucast (ucast a :: u64) :: u128)" and "ah = drop_bit 64 a"
    and "bl = (ucast (ucast b :: u64) :: u128)" and "bh = drop_bit 64 b"
  define m1 m2 where "m1 = fst (overflowing_add (al * bh) (ah * bl))"
    and "m2 = snd (overflowing_add (al * bh) (ah * bl))"
  define l1 l2 where "l1 = fst (overflowing_add (al * bl) (push_bit 64 m1))"
    and "l2 = snd (overflowing_add (al * bl) (push_bit 64 m1))"
  define hi where "hi = ah * bh + drop_bit 64 m1 + push_bit 64 (of_bool m2) + of_bool l2"
  have mw: "mul_wide a b = (l1, hi)"
    by (simp add: mul_wide_def Let_def al_def ah_def bl_def bh_def m1_def m2_def l1_def l2_def hi_def
        split: prod.split)
  have A: "unat a = unat al + 2 ^ 64 * unat ah" and B: "unat b = unat bl + 2 ^ 64 * unat bh"
    by (simp_all add: al_def ah_def bl_def bh_def unat_ucast_64 unat_drop_bit del: power_numeral)
  have small: "unat al < 2 ^ 64" "unat ah < 2 ^ 64" "unat bl < 2 ^ 64" "unat bh < 2 ^ 64"
    using unat_lt2p [of a] unat_lt2p [of b]
    by (simp_all add: al_def ah_def bl_def bh_def unat_ucast_64 unat_drop_bit div_less_iff_less_mult)
  have prods: "unat (x * y) = unat x * unat y" if "unat x < 2 ^ 64" "unat y < 2 ^ 64" for x y :: u128
  proof (rule unat_mult_lt)
    have "unat x * unat y < 2 ^ 64 * 2 ^ 64" using that by (intro mult_strict_mono) auto
    then show "unat x * unat y < 2 ^ LENGTH(128)" by (simp add: power_add [symmetric])
  qed
  have mid: "unat m1 + 2 ^ 64 * 2 ^ 64 * of_bool m2 = unat al * unat bh + unat ah * unat bl"
    using overflowing_add_exact [of "al * bh" "ah * bl"] small
    by (simp add: m1_def m2_def prods)
  have pb: "unat (push_bit 64 m1) = unat m1 mod 2 ^ 64 * 2 ^ 64"
    using mult_mod_left [of "unat m1" "2 ^ 64" "2 ^ 64"] by (simp add: unat_push_bit_mod)
  have lo: "unat l1 + 2 ^ 64 * 2 ^ 64 * of_bool l2 = unat al * unat bl + unat m1 mod 2 ^ 64 * 2 ^ 64"
    using overflowing_add_exact [of "al * bl" "push_bit 64 m1"] small
    by (simp add: l1_def l2_def prods pb)
  let ?h = "unat ah * unat bh + unat m1 div 2 ^ 64 + of_bool m2 * 2 ^ 64 + of_bool l2"
  have total: "unat l1 + 2 ^ 64 * 2 ^ 64 * ?h = unat a * unat b"
    unfolding A B by (rule mul_wide_arith [OF mid lo]) simp
  have "2 ^ 128 * ?h < 2 ^ 128 * 2 ^ 128"
  proof -
    have "unat a * unat b < 2 ^ 128 * 2 ^ 128"
      using unat_lt2p [of a] unat_lt2p [of b] by (intro mult_strict_mono) auto
    with total show ?thesis by (simp del: of_bool_eq)
  qed
  then have hlt: "?h < 2 ^ 128" by simp
  have d: "word_of_nat (unat m1 div 2 ^ 64) = drop_bit 64 m1"
    by (subst unat_drop_bit [symmetric]) (simp only: of_nat_unat ucast_id)
  have "hi = word_of_nat ?h"
    unfolding hi_def of_nat_add of_nat_mult d by (cases m2; cases l2) simp_all
  then have "unat hi = ?h"
    using hlt by (simp only: unat_of_nat) simp
  with total show ?thesis by (simp add: wide_val_def mw)
qed

lemma and_push_drop: "drop_bit n (lo :: u128) AND push_bit (128 - n) hi = 0"
proof (rule bit_word_eqI)
  fix m assume "m < LENGTH(128)"
  have "\<not> bit lo (n + m)" if "\<not> m < 128 - n"
    using that bit_imp_le_length [of lo "n + m"] by auto
  then show "bit (drop_bit n lo AND push_bit (128 - n) hi) m = bit (0 :: u128) m"
    by (auto simp: bit_simps)
qed

lemma unat_shr_wide:
  assumes n: "n < 128" and small: "wide_val (lo, hi) div 2 ^ n < 2 ^ 128"
  shows "unat (shr_wide lo hi n) = wide_val (lo, hi) div 2 ^ n"
proof (cases "n = 0")
  case True
  with small have "unat hi = 0" by (simp add: wide_val_def)
  with True show ?thesis by (simp add: shr_wide_def wide_val_def)
next
  case False
  have pow: "(2::nat) ^ 128 = 2 ^ (128 - n) * 2 ^ n"
    using n by (simp add: power_add [symmetric] del: power_numeral)
  have val: "wide_val (lo, hi) div 2 ^ n = unat lo div 2 ^ n + unat hi * 2 ^ (128 - n)"
    using div_mult_self2 [of "2 ^ n" "unat lo" "unat hi * 2 ^ (128 - n)"]
    by (simp only: wide_val_def fst_conv snd_conv pow) (simp add: ac_simps)
  have hi: "unat (push_bit (128 - n) hi) = unat hi * 2 ^ (128 - n)"
    using small unfolding val by (intro unat_push_bit_lt) simp
  have "unat (drop_bit n lo + push_bit (128 - n) hi) = unat lo div 2 ^ n + unat hi * 2 ^ (128 - n)"
    using small unfolding val by (subst unat_add_lt) (simp_all add: hi unat_drop_bit)
  with False show ?thesis
    by (simp add: shr_wide_def val or_eq_add and_push_drop)
qed

lemma unat_shift_in:
  fixes w :: "'a::len word"
  assumes "2 * unat w + 1 < 2 ^ LENGTH('a)"
  shows "unat (push_bit 1 w OR of_bool b) = 2 * unat w + of_bool b"
proof -
  have p: "unat (push_bit 1 w) = 2 * unat w"
    using assms by (subst unat_push_bit_lt) auto
  have "push_bit 1 w AND of_bool b = 0"
  proof (rule bit_word_eqI)
    fix m show "bit (push_bit 1 w AND of_bool b) m = bit (0 :: 'a word) m"
      unfolding bit_and_iff bit_push_bit_iff by (cases b) (auto simp: bit_1_iff)
  qed
  moreover have "unat (push_bit 1 w + of_bool b) = 2 * unat w + of_bool b"
    using assms p by (subst unat_add_lt) (auto simp: of_bool_def)
  ultimately show ?thesis by (simp add: or_eq_add)
qed

lemma long_division_step:
  fixes N q :: nat
  assumes "0 < q" and "r = 2 * (N mod q) + b" and "b \<le> 1"
  shows "(2 * N + b) mod q = (if q \<le> r then r - q else r)"
    and "(2 * N + b) div q = 2 * (N div q) + of_bool (q \<le> r)"
proof -
  have eq: "2 * N + b = q * (2 * (N div q)) + r"
    using assms(2) mult_div_mod_eq [of q N] by (metis add.assoc distrib_left_numeral mult.left_commute)
  have lt: "r < 2 * q"
    using assms mod_less_divisor [OF assms(1), of N] by linarith
  have "r mod q = (if q \<le> r then r - q else r)"
    using lt by (auto simp: le_mod_geq)
  then show "(2 * N + b) mod q = (if q \<le> r then r - q else r)"
    by (simp only: eq mod_mult_self4)
  have "r div q = of_bool (q \<le> r)"
    using lt assms(1) by (auto intro: div_nat_eqI)
  then show "(2 * N + b) div q = 2 * (N div q) + of_bool (q \<le> r)"
    using assms(1) by (simp only: eq) simp
qed

lemma power_div_Suc: "i \<le> n \<Longrightarrow> (2::nat) ^ n div 2 ^ i = 2 * (2 ^ n div 2 ^ Suc i) + of_bool (i = n)"
proof (cases "i = n")
  case False
  assume "i \<le> n"
  with False obtain d where "n = i + Suc d"
    by (metis add_Suc_right le_neq_implies_less less_imp_Suc_add)
  then show ?thesis by (simp add: power_add)
qed simp

lemma barrett_mu_loop_correct:
  fixes q :: u128
  assumes q: "0 < unat q" "unat q < 2 ^ 127" and fit: "2 ^ (2 * k) div unat q < 2 ^ 128"
  shows "i \<le> 2 * k \<Longrightarrow> unat rem = 2 ^ (2 * k) div 2 ^ Suc i mod unat q \<Longrightarrow>
    unat quo = 2 ^ (2 * k) div 2 ^ Suc i div unat q \<Longrightarrow>
    unat (barrett_mu_loop q k i rem quo) = 2 ^ (2 * k) div unat q"
proof (induction i arbitrary: rem quo)
  have step: "unat (if q \<le> rem' then rem' - q else rem') = 2 ^ (2 * k) div 2 ^ i mod unat q \<and>
      unat (push_bit 1 quo OR of_bool (q \<le> rem')) = 2 ^ (2 * k) div 2 ^ i div unat q"
    if "i \<le> 2 * k" "unat rem = 2 ^ (2 * k) div 2 ^ Suc i mod unat q"
      "unat quo = 2 ^ (2 * k) div 2 ^ Suc i div unat q"
      "rem' = push_bit 1 rem OR of_bool (i = 2 * k)" for i and rem quo rem' :: u128
  proof -
    let ?N = "2 ^ (2 * k) div 2 ^ Suc i :: nat" and ?b = "of_bool (i = 2 * k) :: nat"
    have N: "2 ^ (2 * k) div 2 ^ i = 2 * ?N + ?b"
      using that(1) by (rule power_div_Suc)
    have "2 * unat rem + 1 < 2 ^ LENGTH(128)"
      using that(2) q mod_less_divisor [OF q(1), of ?N] by simp
    then have rem': "unat rem' = 2 * (?N mod unat q) + ?b"
      unfolding that(4) that(2) [symmetric] by (rule unat_shift_in)
    have dm: "(2 * ?N + ?b) mod unat q = (if unat q \<le> unat rem' then unat rem' - unat q else unat rem')"
      "(2 * ?N + ?b) div unat q = 2 * (?N div unat q) + of_bool (unat q \<le> unat rem')"
      using long_division_step [OF q(1) rem'] by auto
    have "2 * (?N div unat q) + of_bool (unat q \<le> unat rem') \<le> 2 ^ (2 * k) div unat q"
      unfolding dm(2) [symmetric] N [symmetric] by (intro div_le_mono) simp
    moreover have "2 * (?N div unat q) + 1 < 2 ^ LENGTH(128)"
    proof -
      have "2 * (?N div unat q) < 2 * 2 ^ 127" using calculation fit by simp
      moreover have "2 * v < 2 * M \<Longrightarrow> 2 * v + 1 < 2 * M" for v M :: nat
        by presburger
      ultimately have "2 * (?N div unat q) + 1 < 2 * 2 ^ 127" by blast
      then show ?thesis by simp
    qed
    ultimately have "unat (push_bit 1 quo OR of_bool (q \<le> rem')) = 2 * (?N div unat q) + of_bool (q \<le> rem')"
      using that(3) by (subst unat_shift_in) (simp_all del: power_Suc)
    then show ?thesis
      unfolding N dm by (simp add: word_le_nat_alt unat_minus_le)
  qed
  {
    case (0 rem quo)
    then show ?case using step [of 0 rem quo]
      by (subst barrett_mu_loop.simps) (simp add: Let_def)
  next
    case (Suc i rem quo)
    then show ?case using step [of "Suc i" rem quo] Suc.IH
      by (subst barrett_mu_loop.simps) (simp add: Let_def)
  }
qed


lemma less_div_Suc_times: "0 < n \<Longrightarrow> (m :: nat) < (m div n + 1) * n"
  using dividend_less_div_times [of n m] by simp

lemma barrett_quotient_bound:
  fixes x q A B mu :: nat
  assumes q: "0 < q" and A: "0 < A" and B: "0 < B"
    and q1: "q1 = x div A" and mu: "mu = A * B div q" and q3: "q3 = q1 * mu div B"
    and q1_lt: "q1 < B" and mu_le: "mu \<le> B"
  shows "q3 \<le> x div q" and "x div q \<le> q3 + 2"
proof -
  have "q3 * B \<le> q1 * mu" using q3 by simp
  then have "q3 * B * (A * q) \<le> q1 * mu * (A * q)" by (rule mult_le_mono1)
  also have "\<dots> = (q1 * A) * (mu * q)" by (simp add: ac_simps)
  also have "q1 * A \<le> x" unfolding q1 by (rule div_times_less_eq_dividend)
  also have "mu * q \<le> A * B" unfolding mu by (rule div_times_less_eq_dividend)
  finally have "(q3 * q) * (A * B) \<le> x * (A * B)" by (simp add: ac_simps)
  with A B have "q3 * q \<le> x" by simp
  then show "q3 \<le> x div q" using q by (simp add: less_eq_div_iff_mult_less_eq)
  have x_lt: "x < (q1 + 1) * A" using q1 A by (simp only: less_div_Suc_times)
  have AB_lt: "A * B < (mu + 1) * q" using mu q by (simp only: less_div_Suc_times)
  have qm: "q1 * mu < (q3 + 1) * B" using q3 B by (simp only: less_div_Suc_times)
  have "x * (A * B) < ((q1 + 1) * A) * ((mu + 1) * q)"
    by (rule mult_strict_mono [OF x_lt AB_lt]) (use A in simp_all)
  also have "\<dots> = (q1 * mu + q1 + mu + 1) * (A * q)" by (simp add: algebra_simps)
  also have "\<dots> \<le> ((q3 + 3) * B) * (A * q)"
  proof (rule mult_le_mono1)
    have "(q3 + 3) * B = (q3 + 1) * B + B + B" by (simp add: algebra_simps)
    with qm q1_lt mu_le show "q1 * mu + q1 + mu + 1 \<le> (q3 + 3) * B" by linarith
  qed
  also have "\<dots> = ((q3 + 3) * q) * (A * B)" by (simp add: ac_simps)
  finally have "x < (q3 + 3) * q" using A B by simp
  then have "x div q < q3 + 3" using q by (simp add: div_less_iff_less_mult)
  then show "x div q \<le> q3 + 2" by simp
qed

text \<open>A modulus of \<open>k\<close> bits within the documented bound.\<close>

definition barrett_ok :: "u128 \<Rightarrow> u128 \<Rightarrow> nat \<Rightarrow> bool" where
  "barrett_ok q mu k \<longleftrightarrow> 2 \<le> unat q \<and> unat q < 2 ^ 126 \<and> k = bitlen (unat q)
     \<and> unat mu = 2 ^ (2 * k) div unat q"

lemma barrett_ok_bits:
  assumes "barrett_ok q mu k"
  shows "2 \<le> k" "k \<le> 126" "2 ^ (k - 1) \<le> unat q" "unat q < 2 ^ k"
proof -
  from assms have q: "2 \<le> unat q" "unat q < 2 ^ 126" "k = bitlen (unat q)"
    by (auto simp: barrett_ok_def)
  from q show "k \<le> 126" by (simp only: bitlen_le_iff)
  from q show "2 ^ (k - 1) \<le> unat q" "unat q < 2 ^ k"
    using bitlen_bounds [of "unat q"] by auto
  then show "2 \<le> k" using q(1)
    by (metis Suc_1 Suc_leI less_le_trans linorder_not_less less_2_cases power_0 power_one_right
        One_nat_def le_less_trans not_less_eq_eq order.strict_iff_not power_increasing_iff)
qed

lemma barrett_mu_bound:
  fixes q k :: nat
  assumes "1 \<le> k" "2 ^ (k - 1) \<le> q"
  shows "2 ^ (2 * k) div q \<le> 2 ^ (k + 1)"
proof -
  have "2 ^ (2 * k) div q \<le> 2 ^ (2 * k) div 2 ^ (k - 1)"
    using assms(2) by (intro div_le_mono2) auto
  also have "(2::nat) ^ (2 * k) div 2 ^ (k - 1) = 2 ^ (k + 1)"
    using assms(1) by (simp add: power_diff [symmetric] del: power_Suc)
  finally show ?thesis .
qed

lemma barrett_mu_correct:
  assumes "0 < unat q" "bitlen (unat q) = k" "k \<le> 126"
  shows "unat (barrett_mu q k) = 2 ^ (2 * k) div unat q"
  unfolding barrett_mu_def
proof (rule barrett_mu_loop_correct)
  have "unat q < 2 ^ k" using assms bitlen_bounds by blast
  also have "(2::nat) ^ k \<le> 2 ^ 126" using assms(3) by (rule power_increasing) simp
  finally show "unat q < 2 ^ 127" by simp
  have "1 \<le> k" using assms bitlen_pos [of "unat q"] by simp
  then have "2 ^ (2 * k) div unat q \<le> 2 ^ (k + 1)"
    using assms bitlen_bounds by (intro barrett_mu_bound) auto
  also have "(2::nat) ^ (k + 1) \<le> 2 ^ 127" using assms(3) by (intro power_increasing) auto
  finally show "2 ^ (2 * k) div unat q < 2 ^ 128" by simp
qed (use assms in \<open>auto\<close>)

lemma fst_wide_val: "fst w = word_of_nat (wide_val w)"
proof -
  have *: "(word_of_nat (2 ^ 128 * unat (snd w)) :: u128) = 0"
    unfolding word_of_nat_eq_0_iff by simp
  show ?thesis unfolding wide_val_def of_nat_add * by simp
qed

lemma barrett_reduce_correct:
  assumes ok: "barrett_ok q mu k" and x: "wide_val (lo, hi) < 2 ^ (2 * k)"
  shows "unat (barrett_reduce lo hi q mu k) = wide_val (lo, hi) mod unat q"
proof -
  note k = barrett_ok_bits [OF ok]
  define x Q where "x = wide_val (lo, hi)" and "Q = unat q"
  have Q: "0 < Q" "Q < 2 ^ 126" and mu: "unat mu = 2 ^ (2 * k) div Q"
    using ok by (auto simp: barrett_ok_def Q_def)
  define q1 where "q1 = shr_wide lo hi (k - 1)"
  define q3 where "q3 = shr_wide (fst (mul_wide q1 mu)) (snd (mul_wide q1 mu)) (k + 1)"
  define r where "r = lo - fst (mul_wide q3 q)"
  have AB: "(2::nat) ^ (k - 1) * 2 ^ (k + 1) = 2 ^ (2 * k)"
    using k(1) by (simp add: power_add [symmetric] del: power_Suc)
  have pow: "(2::nat) ^ (k + 1) \<le> 2 ^ 127" using k(2) by (intro power_increasing) auto
  have "x div 2 ^ (k - 1) < 2 ^ (k + 1)"
    using x AB by (simp add: x_def div_less_iff_less_mult mult.commute)
  then have q1: "unat q1 = x div 2 ^ (k - 1)" "unat q1 < 2 ^ (k + 1)"
    using pow k(2) by (simp_all add: q1_def x_def unat_shr_wide)
  have mu_le: "unat mu \<le> 2 ^ (k + 1)"
    unfolding mu Q_def using k by (intro barrett_mu_bound) auto
  have "unat q1 * unat mu \<le> unat q1 * 2 ^ (k + 1)"
    using mu_le by simp
  then have "unat q1 * unat mu div 2 ^ (k + 1) \<le> unat q1"
    using div_le_mono [of "unat q1 * unat mu" "unat q1 * 2 ^ (k + 1)" "2 ^ (k + 1)"] by simp
  then have "unat q1 * unat mu div 2 ^ (k + 1) < 2 ^ 128"
    using unat_lt2p [of q1] by simp
  then have q3: "unat q3 = unat q1 * unat mu div 2 ^ (k + 1)"
    using k(2) by (simp add: q3_def unat_shr_wide)
  have bounds: "unat q3 \<le> x div Q" "x div Q \<le> unat q3 + 2"
    using barrett_quotient_bound [of Q "2 ^ (k - 1)" "2 ^ (k + 1)" "unat q1" x "unat mu" "unat q3"]
      Q(1) q1 q3 mu mu_le AB by auto
  have le: "unat q3 * Q \<le> x"
    using bounds(1) by (metis div_times_less_eq_dividend le_trans mult_le_mono1)
  have r_lt: "x - unat q3 * Q < 3 * Q"
  proof -
    have "x < (x div Q + 1) * Q" using Q(1) by (simp only: less_div_Suc_times)
    also have "\<dots> \<le> (unat q3 + 3) * Q" using bounds(2) by (intro mult_le_mono1) simp
    also have "\<dots> = unat q3 * Q + 3 * Q" by (simp add: algebra_simps)
    finally show ?thesis using le by linarith
  qed
  have "r = word_of_nat x - word_of_nat (unat q3 * Q)"
    using fst_wide_val [of "(lo, hi)"] fst_wide_val [of "mul_wide q3 q"]
    by (simp add: r_def x_def Q_def)
  also have "\<dots> = word_of_nat (x - unat q3 * Q)"
    using le by (simp only: of_nat_diff)
  finally have r: "unat r = x - unat q3 * Q"
    using r_lt Q by (simp add: unat_of_nat)
  have "x mod Q = (unat r + unat q3 * Q) mod Q" using r le by simp
  then have "x mod Q = unat r mod Q" by simp
  moreover have "barrett_reduce lo hi q mu k
      = (let r = (if q \<le> r then r - q else r) in if q \<le> r then r - q else r)"
    by (simp add: barrett_reduce_def r_def q3_def q1_def Let_def split: prod.split)
  ultimately show ?thesis
    unfolding x_def [symmetric] Q_def [symmetric] using r_lt r
    by (auto simp: Let_def word_le_nat_alt unat_minus_le Q_def le_mod_geq)
qed

section \<open>Modular arithmetic with a precomputed reciprocal\<close>

definition fm_wf :: "field_metadata \<Rightarrow> bool" where
  "fm_wf m \<longleftrightarrow> barrett_ok (fm_modulus m) (fm_mu m) (fm_bits m)"

lemma fm_wf_bounds:
  assumes "fm_wf m"
  shows "2 \<le> unat (fm_modulus m)" "unat (fm_modulus m) < 2 ^ 126"
  using assms by (auto simp: fm_wf_def barrett_ok_def)

lemma field_metadata_new_None_iff:
  "field_metadata_new q = None \<longleftrightarrow>
     \<not> (2 \<le> unat q \<and> unat q < 2 ^ 126 \<and> (unat q = 2 \<or> odd (unat q)))"
proof -
  have "unat (push_bit MAX_MODULUS_BITS 1 :: u128) = 2 ^ 126"
    by (simp add: MAX_MODULUS_BITS_def)
  moreover have "q = 2 \<longleftrightarrow> unat q = 2"
    using word_unat_eq_iff [of q 2] by simp
  moreover have "q mod 2 = 1 \<longleftrightarrow> odd (unat q)"
    using word_unat_eq_iff [of "q mod 2" 1] by (simp add: unat_mod odd_iff_mod_2_eq_one)
  ultimately show ?thesis
    by (auto simp: field_metadata_new_def word_le_nat_alt word_less_nat_alt Let_def)
qed

lemma field_metadata_new_Some:
  assumes "field_metadata_new q = Some m"
  shows "fm_wf m" "fm_modulus m = q"
proof -
  have q: "2 \<le> unat q" "unat q < 2 ^ 126"
    using field_metadata_new_None_iff [of q] assms by auto
  have m: "m = \<lparr>fm_modulus = q, fm_bits = bitlen (unat q), fm_mu = barrett_mu q (bitlen (unat q))\<rparr>"
    using assms width_minus_leading_zeros [of q]
    by (auto simp: field_metadata_new_def Let_def split: if_splits)
  then show "fm_modulus m = q" by simp
  have "bitlen (unat q) \<le> 126" using q by (simp only: bitlen_le_iff)
  with q show "fm_wf m"
    by (simp add: m fm_wf_def barrett_ok_def barrett_mu_correct)
qed

lemma fm_mul_correct:
  assumes "fm_wf m" "a < fm_modulus m" "b < fm_modulus m"
  shows "unat (fm_mul m a b) = unat a * unat b mod unat (fm_modulus m)"
proof -
  let ?q = "unat (fm_modulus m)" and ?k = "fm_bits m"
  have ok: "barrett_ok (fm_modulus m) (fm_mu m) ?k" using assms(1) by (simp add: fm_wf_def)
  have "unat a * unat b < 2 ^ ?k * 2 ^ ?k"
    using assms(2,3) barrett_ok_bits(4) [OF ok]
    by (intro mult_strict_mono) (auto simp: word_less_nat_alt)
  then have "wide_val (mul_wide a b) < 2 ^ (2 * ?k)"
    by (simp add: mult_2 power_add)
  then show ?thesis
    using barrett_reduce_correct [OF ok, of "fst (mul_wide a b)" "snd (mul_wide a b)"]
    by (simp add: fm_mul_def case_prod_beta)
qed

lemma fm_mul_less:
  assumes "fm_wf m" "a < fm_modulus m" "b < fm_modulus m"
  shows "fm_mul m a b < fm_modulus m"
  using fm_mul_correct [OF assms] fm_wf_bounds [OF assms(1)] by (simp add: word_less_nat_alt)

lemma fm_pow_loop_correct:
  assumes wf: "fm_wf m" and base: "base < fm_modulus m"
  shows "result < fm_modulus m \<Longrightarrow>
    unat result = unat base ^ (unat e div 2 ^ i) mod unat (fm_modulus m) \<Longrightarrow>
    unat (fm_pow_loop m base e i result) = unat base ^ unat e mod unat (fm_modulus m)"
proof (induction i arbitrary: result)
  case 0
  then show ?case by simp
next
  case (Suc i result)
  let ?q = "unat (fm_modulus m)" and ?b = "unat base"
  define r where "r = fm_mul m result result"
  define r' where "r' = (if drop_bit i e AND 1 = 1 then fm_mul m r base else r)"
  have r: "r < fm_modulus m" "unat r = unat result * unat result mod ?q"
    using wf Suc.prems(1) by (simp_all add: r_def fm_mul_less fm_mul_correct)
  have sq: "unat r = ?b ^ (unat e div 2 ^ Suc i) * ?b ^ (unat e div 2 ^ Suc i) mod ?q"
    unfolding r(2) Suc.prems(2) by (rule mod_mult_eq)
  have r'_lt: "r' < fm_modulus m"
    using r(1) wf base by (simp add: r'_def fm_mul_less)
  have ei: "unat e div 2 ^ i = 2 * (unat e div 2 ^ Suc i) + of_bool (bit e i)"
    unfolding bit_word_odd by (rule div_power_step)
  have "?b ^ (unat e div 2 ^ i) = ?b ^ (unat e div 2 ^ Suc i) * ?b ^ (unat e div 2 ^ Suc i) * ?b ^ of_bool (bit e i)"
    unfolding ei power_add mult_2 by simp
  then have "unat r' = ?b ^ (unat e div 2 ^ i) mod ?q"
    using r(1) wf base
    by (simp add: r'_def drop_bit_and_1 fm_mul_correct sq mod_mult_left_eq del: power_Suc)
  moreover have "fm_pow_loop m base e (Suc i) result = fm_pow_loop m base e i r'"
    by (simp add: r'_def r_def Let_def)
  ultimately show ?case using Suc.IH [OF r'_lt] by simp
qed

lemma fm_pow_correct:
  assumes "fm_wf m" "base < fm_modulus m"
  shows "unat (fm_pow m base e) = unat base ^ unat e mod unat (fm_modulus m)"
proof -
  have "unat e div 2 ^ bitlen (unat e) = 0" using bitlen_less [of "unat e"] by simp
  moreover have "unat (1 mod fm_modulus m) = 1 mod unat (fm_modulus m)"
    by (simp only: unat_mod unat_1)
  moreover from this have "1 mod fm_modulus m < fm_modulus m"
    using fm_wf_bounds [OF assms(1)] by (simp add: word_less_nat_alt)
  ultimately show ?thesis
    unfolding fm_pow_def width_minus_leading_zeros [of e, simplified]
    by (intro fm_pow_loop_correct [OF assms]) simp_all
qed

lemma fm_pow_less:
  assumes "fm_wf m" "base < fm_modulus m"
  shows "fm_pow m base e < fm_modulus m"
  using fm_pow_correct [OF assms] fm_wf_bounds [OF assms(1)] by (simp add: word_less_nat_alt)


lemma add_mod_correct:
  assumes "a < q" "b < q" "unat q < 2 ^ 127"
  shows "unat (add_mod a b q) = (unat a + unat b) mod unat q"
proof -
  have lt: "unat a < unat q" "unat b < unat q"
    using assms(1,2) by (simp_all add: word_less_nat_alt)
  have "unat (a + b) = unat a + unat b"
    using lt assms(3) by (intro unat_add_lt) simp
  with lt show ?thesis
    by (auto simp: add_mod_def Let_def word_le_nat_alt unat_minus_le le_mod_geq)
qed

lemma add_mod_less: "a < q \<Longrightarrow> b < q \<Longrightarrow> unat q < 2 ^ 127 \<Longrightarrow> add_mod a b q < q"
  using add_mod_correct [of a q b] by (simp add: word_less_nat_alt)

lemma mul_mod_loop_correct:
  assumes q: "unat q < 2 ^ 127"
  shows "result < q \<Longrightarrow> addend < q \<Longrightarrow>
    unat (mul_mod_loop result addend remaining q)
      = (unat result + unat addend * unat remaining) mod unat q"
  using q
proof (induction result addend remaining q rule: mul_mod_loop.induct)
  case (1 result addend remaining q)
  show ?case
  proof (cases "remaining = 0")
    case True
    with 1 show ?thesis by (subst mul_mod_loop.simps) (simp add: word_less_nat_alt)
  next
    case False
    define a2 where "a2 = add_mod addend addend q"
    define r2 where "r2 = (if remaining AND 1 = 1 then add_mod result addend q else result)"
    let ?q = "unat q" and ?h = "unat remaining div 2" and ?b = "of_bool (odd (unat remaining)) :: nat"
    have a2: "a2 < q" "unat a2 = (2 * unat addend) mod ?q"
      using 1 by (simp_all add: a2_def add_mod_less add_mod_correct mult_2)
    have par: "remaining AND 1 = 1 \<longleftrightarrow> odd (unat remaining)"
      using drop_bit_and_1 [of 0 remaining] bit_word_odd [of remaining 0] by simp
    have r2: "r2 < q" "unat r2 = (unat result + unat addend * ?b) mod ?q"
      using 1 by (auto simp: r2_def par add_mod_less add_mod_correct word_less_nat_alt)
    have "unat (mul_mod_loop result addend remaining q) = unat (mul_mod_loop r2 a2 (drop_bit 1 remaining) q)"
      using False by (subst mul_mod_loop.simps) (simp add: r2_def a2_def)
    also have "\<dots> = (unat r2 + unat a2 * ?h) mod ?q"
      using "1.IH" [OF False] r2 a2 "1.prems"(3) unat_drop_bit [of 1 remaining]
      unfolding r2_def a2_def by simp
    also have "\<dots> = (unat result + unat addend * ?b + 2 * unat addend * ?h) mod ?q"
      unfolding r2(2) a2(2) by (simp only: mod_mult_left_eq mod_add_left_eq mod_add_right_eq
        mod_add_cong [OF refl mod_mult_left_eq])
    also have "unat result + unat addend * ?b + 2 * unat addend * ?h
        = unat result + unat addend * (2 * ?h + ?b)"
      by (simp only: distrib_left ac_simps)
    also have "2 * ?h + ?b = unat remaining"
      using div_power_step [of "unat remaining" 0] by simp
    finally show ?thesis .
  qed
qed

lemma mul_mod_correct:
  assumes "0 < unat q" "unat q < 2 ^ 127"
  shows "unat (mul_mod a b q) = unat a * unat b mod unat q"
proof -
  have "a mod q < q" "0 < q"
    using assms(1) by (simp_all add: word_less_nat_alt unat_mod)
  then show ?thesis
    using mul_mod_loop_correct [OF assms(2), of 0 "a mod q" b]
    by (simp add: mul_mod_def unat_mod mod_mult_left_eq)
qed


section \<open>Primality\<close>

lemma PRIMALITY_BASES_prime: "p \<in> set PRIMALITY_BASES \<Longrightarrow> prime_nat (unat p)"
  by (auto simp: PRIMALITY_BASES_def prime_nat_iff atLeastLessThan_nat_numeral)

lemma sieve_loop_Some:
  assumes "\<forall>p\<in>set ps. prime_nat (unat p)"
  shows "sieve_loop c ps = Some b \<Longrightarrow> b = prime_nat (unat c)"
  using assms
proof (induction ps)
  case (Cons p ps)
  have "\<not> prime_nat (unat c)" if "c \<noteq> p" "c mod p = 0"
  proof
    assume "prime_nat (unat c)"
    moreover have "unat p dvd unat c"
      using that(2) unat_mod [of c p] by (simp add: dvd_eq_mod_eq_0)
    ultimately have "unat p = 1 \<or> unat p = unat c" by (rule prime_natD)
    with that(1) Cons.prems(2) show False
      by (auto dest: prime_nat_gt_1 simp: word_unat_eq_iff)
  qed
  with Cons show ?case by (auto split: if_splits)
qed simp

lemma sieve_Some: "sieve c = Some b \<Longrightarrow> b = prime_nat (unat c)"
  using sieve_loop_Some [of PRIMALITY_BASES c b] PRIMALITY_BASES_prime
  by (auto simp: sieve_def word_less_nat_alt prime_nat_def split: if_splits)

lemma sieve_loop_None: "sieve_loop c ps = None \<longleftrightarrow> (\<forall>p\<in>set ps. c \<noteq> p \<and> c mod p \<noteq> 0)"
  by (induction ps) auto

lemma sieve_None:
  assumes "sieve c = None"
  shows "odd (unat c)" "41 < unat c" "\<And>p. p \<in> set PRIMALITY_BASES \<Longrightarrow> \<not> unat p dvd unat c"
proof -
  from assms have c: "2 \<le> unat c" "\<And>p. p \<in> set PRIMALITY_BASES \<Longrightarrow> c mod p \<noteq> 0"
    by (auto simp: sieve_def sieve_loop_None word_less_nat_alt split: if_splits)
  show nd: "\<not> unat p dvd unat c" if "p \<in> set PRIMALITY_BASES" for p
    using c(2) [OF that] unat_mod [of c p] by (metis dvd_eq_mod_eq_0 unat_0 word_unat_eq_iff)
  from nd [of 2] show "odd (unat c)" by (simp add: PRIMALITY_BASES_def)
  show "41 < unat c"
  proof (rule ccontr)
    assume "\<not> 41 < unat c"
    with c(1) have "unat c \<in> {2..<42}" by simp
    have "\<forall>n\<in>{2..<42}. \<exists>p\<in>set (map unat PRIMALITY_BASES). p dvd n"
      by (simp add: PRIMALITY_BASES_def atLeastLessThan_nat_numeral)
    from bspec [OF this \<open>unat c \<in> {2..<42}\<close>] nd show False by auto
  qed
qed

lemma strong_round_loop_iff:
  assumes "fm_wf m" 
  shows "w < fm_modulus m \<Longrightarrow> strong_round_loop m w n \<longleftrightarrow>
    (\<exists>r\<in>{1..n}. unat w ^ 2 ^ r mod unat (fm_modulus m) = unat (fm_modulus m) - 1)"
proof (induction n arbitrary: w)
  case (Suc n)
  let ?q = "unat (fm_modulus m)"
  define v where "v = fm_mul m w w"
  have v: "v < fm_modulus m" "unat v = unat w ^ 2 mod ?q"
    using assms Suc.prems by (simp_all add: v_def fm_mul_less fm_mul_correct power2_eq_square)
  have m1: "x = fm_modulus m - 1 \<longleftrightarrow> unat x = ?q - 1" for x
    using fm_wf_bounds [OF assms] by (simp add: word_unat_eq_iff unat_minus_le word_le_nat_alt)
  have pow: "unat v ^ 2 ^ r mod ?q = unat w ^ 2 ^ Suc r mod ?q" for r
    unfolding v(2) by (simp add: power_mod power_mult [symmetric])
  have "strong_round_loop m w (Suc n) \<longleftrightarrow> unat v = ?q - 1 \<or> strong_round_loop m v n"
    by (simp add: v_def [symmetric] Let_def m1)
  also have "\<dots> \<longleftrightarrow> unat v ^ 2 ^ 0 mod ?q = ?q - 1 \<or> (\<exists>r\<in>{1..n}. unat v ^ 2 ^ r mod ?q = ?q - 1)"
    using Suc.IH [OF v(1)] v by (simp add: word_less_nat_alt)
  also have "\<dots> \<longleftrightarrow> (\<exists>r\<in>{0..n}. unat v ^ 2 ^ r mod ?q = ?q - 1)"
  proof -
    have "{0..n} = insert 0 {1..n}" by auto
    then show ?thesis by simp
  qed
  also have "\<dots> \<longleftrightarrow> (\<exists>r\<in>Suc ` {0..n}. unat w ^ 2 ^ r mod ?q = ?q - 1)"
    unfolding pow by blast
  finally show ?case by (simp only: image_Suc_atLeastAtMost One_nat_def)
qed simp


lemma strong_chain_prime:
  assumes p: "prime_nat p" and fermat: "a ^ (d * 2 ^ s) mod p = 1"
  shows "a ^ d mod p = 1 \<or> (\<exists>r < s. a ^ (d * 2 ^ r) mod p = p - 1)"
  using fermat
proof (induction s)
  case (Suc s)
  let ?x = "a ^ (d * 2 ^ s) mod p"
  have "a ^ (d * 2 ^ Suc s) = a ^ (d * 2 ^ s) * a ^ (d * 2 ^ s)"
    by (simp add: power_add [symmetric] mult_2 [symmetric] mult.left_commute)
  with Suc.prems have "?x * ?x mod p = 1" by (simp add: mod_mult_eq)
  moreover have "?x < p" using prime_nat_gt_1 [OF p] by simp
  ultimately have "?x = 1 \<or> ?x = p - 1" using sqrt_one_mod_prime [OF p] by blast
  with Suc.IH show ?case by (metis less_Suc_eq)
qed simp

lemma strong_round_prime:
  assumes wf: "fm_wf m" and p: "prime_nat (unat (fm_modulus m))" and odd: "odd (unat (fm_modulus m))"
    and base: "0 < base" "base < fm_modulus m"
  shows "strong_round m base"
proof -
  define q a where "q = unat (fm_modulus m)" and "a = unat base"
  define s where "s = trailing_zeros (fm_modulus m - 1)"
  define d where "d = (q - 1) div 2 ^ s"
  define w where "w = fm_pow m base (drop_bit s (fm_modulus m - 1))"
  have q: "2 \<le> q" using fm_wf_bounds [OF wf] by (simp add: q_def)
  have m1: "unat (fm_modulus m - 1) = q - 1"
    using q by (simp add: q_def unat_minus_le word_le_nat_alt)
  have "fm_modulus m - 1 \<noteq> 0" using m1 q by (metis One_nat_def Suc_1 diff_is_0_eq not_less_eq_eq unat_0)
  then have s: "s = trailing_zeros_nat (q - 1)"
    by (simp add: s_def trailing_zeros_def m1)
  have split: "q - 1 = d * 2 ^ s"
    using trailing_zeros_nat_split [of "q - 1"] q by (simp add: s d_def mult.commute)
  have "even (q - 1)" "q - 1 \<noteq> 0" using odd q by (auto simp: q_def)
  then have "0 < s" unfolding s by (subst trailing_zeros_nat.simps) simp
  have w: "unat w = a ^ d mod q" "w < fm_modulus m"
    using fm_pow_correct [OF wf base(2)] fm_pow_less [OF wf base(2)]
    by (simp_all add: w_def a_def d_def q_def m1 unat_drop_bit)
  have eqs: "w = 1 \<longleftrightarrow> unat w = 1" "w = fm_modulus m - 1 \<longleftrightarrow> unat w = q - 1"
    using word_unat_eq_iff [of w 1] word_unat_eq_iff [of w "fm_modulus m - 1"] m1 by simp_all
  have "\<not> q dvd a"
    using base by (auto simp: q_def a_def word_less_nat_alt dest!: dvd_imp_le)
  then have "a ^ (d * 2 ^ s) mod q = 1"
    using fermat_little [of q a] p split by (simp add: q_def)
  then have "a ^ d mod q = 1 \<or> (\<exists>r < s. a ^ (d * 2 ^ r) mod q = q - 1)"
    using p unfolding q_def [symmetric] by (rule strong_chain_prime [rotated])
  then have "w = 1 \<or> (\<exists>r < s. unat w ^ 2 ^ r mod q = q - 1)"
    by (simp add: eqs w(1) power_mod power_mult)
  then have "w = 1 \<or> w = fm_modulus m - 1 \<or> (\<exists>r\<in>{1..s - 1}. unat w ^ 2 ^ r mod q = q - 1)"
  proof (elim disjE exE conjE)
    fix r assume r: "r < s" "unat w ^ 2 ^ r mod q = q - 1"
    show ?thesis
    proof (cases "r = 0")
      case True
      with r w show ?thesis by (simp add: eqs(2) q_def word_less_nat_alt)
    next
      case False
      with r show ?thesis by (intro disjI2 bexI [of _ r]) auto
    qed
  qed simp
  then show ?thesis
    using strong_round_loop_iff [OF wf w(2), of "s - 1"]
    by (auto simp: strong_round_def Let_def w_def s_def q_def)
qed

lemma is_prime_total: "unat c < 2 ^ 126 \<Longrightarrow> is_prime c \<noteq> None"
proof (cases "sieve c")
  case None
  assume "unat c < 2 ^ 126"
  with sieve_None [OF None] have "field_metadata_new c \<noteq> None"
    by (simp add: field_metadata_new_None_iff)
  with None show ?thesis by (auto simp: is_prime_def)
qed (simp add: is_prime_def)

lemma is_prime_accepts_primes:
  assumes "prime_nat (unat c)" "unat c < 2 ^ 126"
  shows "is_prime c = Some True"
proof (cases "sieve c")
  case (Some b)
  with sieve_Some [OF this] assms(1) show ?thesis by (simp add: is_prime_def)
next
  case None
  note big = sieve_None [OF None]
  have "field_metadata_new c \<noteq> None"
    using assms(2) big by (simp add: field_metadata_new_None_iff)
  then obtain m where m: "field_metadata_new c = Some m" by auto
  note wf = field_metadata_new_Some [OF m]
  have "strong_round m p" if "p \<in> set PRIMALITY_BASES" for p
  proof (rule strong_round_prime)
    show "0 < p" "p < fm_modulus m"
      using that big(2) by (auto simp: wf(2) PRIMALITY_BASES_def word_less_nat_alt)
  qed (use wf assms(1) big in simp_all)
  with None m show ?thesis by (simp add: is_prime_def list_all_iff)
qed

section \<open>Properties\<close>

text \<open>\<open>mul_wide\<close> computes the exact 256-bit product of any two \<open>u128\<close> values; no carry
  between its four partial products is lost.\<close>

theorem mul_wide_exact:
  "unat (fst (mul_wide a b)) + 2 ^ 128 * unat (snd (mul_wide a b)) = unat a * unat b"
  using wide_val_mul_wide [of a b] by (simp only: wide_val_def)

text \<open>C21: For every modulus that \<open>FieldMetadata::new\<close> accepts, the Barrett multiplication of
  reduced operands is the exact product modulo \<open>q\<close>, and it agrees with the double-and-add
  reference \<open>mul_mod\<close>.\<close>

theorem barrett_multiplication_exact:
  assumes "field_metadata_new q = Some m" "a < q" "b < q"
  shows "unat (fm_mul m a b) = unat a * unat b mod unat q \<and> fm_mul m a b = mul_mod a b q"
proof -
  note m = field_metadata_new_Some [OF assms(1)]
  have q: "2 \<le> unat q" "unat q < 2 ^ 126" using fm_wf_bounds [OF m(1)] by (simp_all only: m(2))
  have f: "unat (fm_mul m a b) = unat a * unat b mod unat q"
    using fm_mul_correct [of m a b] m assms by simp
  moreover have "unat (mul_mod a b q) = unat a * unat b mod unat q"
    using mul_mod_correct [of q a b] assms q by (simp add: word_less_nat_alt)
  ultimately show ?thesis by (simp only: word_unat_eq_iff)
qed

theorem barrett_multiplication_exact_witness:
  "unat (fm_mul \<lparr>fm_modulus = 97, fm_bits = 7, fm_mu = 168\<rparr> 96 95) = 2"
proof -
  have "field_metadata_new 97 = Some \<lparr>fm_modulus = 97, fm_bits = 7, fm_mu = 168\<rparr>"
    by code_simp
  then show ?thesis using barrett_multiplication_exact [of 97 _ 96 95, THEN conjunct1] by simp
qed

text \<open>Square-and-multiply exponentiation over an accepted modulus is exact for every
  128-bit exponent.\<close>

theorem field_power_exact:
  assumes "field_metadata_new q = Some m" "a < q"
  shows "unat (fm_pow m a e) = unat a ^ unat e mod unat q"
  using fm_pow_correct [of m a e] field_metadata_new_Some [OF assms(1)] assms(2) by simp

theorem field_power_exact_witness:
  "unat (fm_pow \<lparr>fm_modulus = 97, fm_bits = 7, fm_mu = 168\<rparr> 5 3) = 28"
proof -
  have "field_metadata_new 97 = Some \<lparr>fm_modulus = 97, fm_bits = 7, fm_mu = 168\<rparr>"
    by code_simp
  then show ?thesis using field_power_exact [of 97 _ 5 3] by simp
qed

text \<open>C32: Below the \<open>2 ^ 126\<close> bound \<open>is_prime\<close> always returns, accepts every prime, and is exact
  wherever trial division by the bases decides; only a composite that survives the sieve is left
  to the thirteen Miller-Rabin rounds.\<close>

theorem primality_test_complete:
  assumes "unat c < 2 ^ 126"
  shows "is_prime c \<noteq> None \<and> (prime_nat (unat c) \<longrightarrow> is_prime c = Some True)
    \<and> (\<forall>b. sieve c = Some b \<longrightarrow> is_prime c = Some b \<and> b = prime_nat (unat c))"
  using is_prime_total [OF assms] is_prime_accepts_primes [OF _ assms] sieve_Some [of c]
  by (auto simp: is_prime_def)

theorem primality_test_complete_witness:
  "is_prime 41 = Some True \<and> sieve 1763 = Some False \<and> is_prime 1763 = Some False"
proof -
  have "sieve 41 = Some True" "sieve 1763 = Some False" by code_simp+
  then show ?thesis
    using primality_test_complete [of 41] primality_test_complete [of 1763] by (simp add: ex_bool_eq)
qed

end
