(* ===== verification/Residue_Arith.thy ===== *)
theory Residue_Arith
  imports BitZ_Prelude
begin

text \<open>
  The contract that the two prime fields of \<open>crates/field\<close> (\<open>Fq<Q>\<close> and \<open>DynField\<close>) offer to the
  code that is generic in the field: a configuration (the const generic, or the installed global
  modulus) that may be usable or not, an embedding of \<open>u128\<close>, addition and multiplication.  The
  clients are the iterator folds \<open>Sum\<close> and \<open>Product\<close>, and the weighted sums of the protocol.
\<close>

text \<open>A left fold whose step may panic.\<close>

fun fold_option :: "('a \<Rightarrow> 'b \<Rightarrow> 'a option) \<Rightarrow> 'a \<Rightarrow> 'b list \<Rightarrow> 'a option" where
  "fold_option f a [] = Some a"
| "fold_option f a (x # xs) = (case f a x of None \<Rightarrow> None | Some b \<Rightarrow> fold_option f b xs)"

locale residue_arith =
  fixes ok :: "'c \<Rightarrow> bool" and modulus :: "'c \<Rightarrow> nat"
    and embed :: "'c \<Rightarrow> u128 \<Rightarrow> u128 option"
    and plus :: "'c \<Rightarrow> u128 \<Rightarrow> u128 \<Rightarrow> u128 option"
    and times :: "'c \<Rightarrow> u128 \<Rightarrow> u128 \<Rightarrow> u128 option"
  assumes modulus_gt_1: "ok c \<Longrightarrow> 1 < modulus c"
    and embed: "ok c \<Longrightarrow> \<exists>v. embed c x = Some v \<and> unat v = unat x mod modulus c"
    and plus: "ok c \<Longrightarrow> unat a < modulus c \<Longrightarrow> unat b < modulus c \<Longrightarrow>
      \<exists>v. plus c a b = Some v \<and> unat v = (unat a + unat b) mod modulus c"
    and times: "ok c \<Longrightarrow> unat a < modulus c \<Longrightarrow> unat b < modulus c \<Longrightarrow>
      \<exists>v. times c a b = Some v \<and> unat v = unat a * unat b mod modulus c"
begin

lemma fold_plus:
  assumes "ok c" "unat a < modulus c" "\<forall>x\<in>set xs. unat x < modulus c"
  shows "\<exists>v. fold_option (plus c) a xs = Some v
    \<and> unat v = (unat a + sum_list (map unat xs)) mod modulus c"
  using assms(2,3)
proof (induction xs arbitrary: a)
  case (Cons x xs)
  then obtain b where b: "plus c a x = Some b" "unat b = (unat a + unat x) mod modulus c"
    using plus [OF assms(1), of a x] by auto
  moreover have "unat b < modulus c" using modulus_gt_1 [OF assms(1)] by (simp add: b(2))
  ultimately show ?case using Cons.IH [of b] Cons.prems by (simp add: mod_add_left_eq add.assoc)
qed simp

lemma fold_times:
  assumes "ok c" "unat a < modulus c" "\<forall>x\<in>set xs. unat x < modulus c"
  shows "\<exists>v. fold_option (times c) a xs = Some v
    \<and> unat v = (unat a * prod_list (map unat xs)) mod modulus c"
  using assms(2,3)
proof (induction xs arbitrary: a)
  case (Cons x xs)
  then obtain b where b: "times c a x = Some b" "unat b = (unat a * unat x) mod modulus c"
    using times [OF assms(1), of a x] by auto
  moreover have "unat b < modulus c" using modulus_gt_1 [OF assms(1)] by (simp add: b(2))
  ultimately show ?case using Cons.IH [of b] Cons.prems by (simp add: mod_mult_left_eq mult.assoc)
qed simp

end

end
