(* ===== verification/Field_Fq.thy ===== *)
theory Field_Fq
  imports Field_Helpers Residue_Arith
begin

text \<open>
  The prime field with a compile-time modulus: \<open>crates/field/src/fq.rs\<close>.

  \<open>Fq<Q>\<close> is a newtype over \<open>u128\<close>; its values are modelled by the word they hold and the
  const generic \<open>Q\<close> is the first argument of every operation.  Each operation first forces the
  constant \<open>META\<close>, whose assertions reject a modulus at compile time: a rejected modulus is
  \<open>None\<close>.
\<close>

definition Q100 :: u128 where
  "Q100 = push_bit 100 1 - 15"

definition fq_META :: "u128 \<Rightarrow> field_metadata option" where
  "fq_META q =
     (if \<not> 3 \<le> q then None
      else if is_prime q \<noteq> Some True then None
      else field_metadata_new q)"

definition fq_from_u128 :: "u128 \<Rightarrow> u128 \<Rightarrow> u128 option" where
  "fq_from_u128 q value = map_option (\<lambda>_. value mod q) (fq_META q)"

definition fq_from_limbs :: "u128 \<Rightarrow> u64 \<Rightarrow> u64 \<Rightarrow> u128 option" where
  "fq_from_limbs q low high = fq_from_u128 q (ucast low OR push_bit 64 (ucast high))"

definition fq_from_u64 :: "u128 \<Rightarrow> u64 \<Rightarrow> u128 option" where
  "fq_from_u64 q value = fq_from_u128 q (ucast value)"

definition fq_from_bool :: "bool \<Rightarrow> u128" where
  "fq_from_bool value = (if value then 1 else 0)"

definition fq_is_zero :: "u128 \<Rightarrow> bool" where
  "fq_is_zero a = (a = 0)"

definition fq_neg :: "u128 \<Rightarrow> u128 \<Rightarrow> u128 option" where
  "fq_neg q a = map_option (\<lambda>_. if a = 0 then 0 else q - a) (fq_META q)"

definition fq_add :: "u128 \<Rightarrow> u128 \<Rightarrow> u128 \<Rightarrow> u128 option" where
  "fq_add q a b =
     map_option (\<lambda>_. let s = a + b in if q \<le> s then s - q else s) (fq_META q)"

definition fq_sub :: "u128 \<Rightarrow> u128 \<Rightarrow> u128 \<Rightarrow> u128 option" where
  "fq_sub q a b = map_option (\<lambda>_. if b \<le> a then a - b else a + q - b) (fq_META q)"

definition fq_mul :: "u128 \<Rightarrow> u128 \<Rightarrow> u128 \<Rightarrow> u128 option" where
  "fq_mul q a b = map_option (\<lambda>m. fm_mul m a b) (fq_META q)"

definition fq_sum :: "u128 \<Rightarrow> u128 list \<Rightarrow> u128 option" where
  "fq_sum q xs = fold_option (fq_add q) 0 xs"

definition fq_product :: "u128 \<Rightarrow> u128 list \<Rightarrow> u128 option" where
  "fq_product q xs = fold_option (fq_mul q) 1 xs"

definition fq_lift :: "u128 \<Rightarrow> u128" where
  "fq_lift a = a"

definition fq_max_value :: "u128 \<Rightarrow> u128 option" where
  "fq_max_value q = map_option (\<lambda>_. q - 1) (fq_META q)"

definition fq_modulus_minus_one_div_two :: "u128 \<Rightarrow> u128" where
  "fq_modulus_minus_one_div_two q = (q - 1) div 2"

text \<open>
  Rejection sampling: the random generator is the list of the words it would return, and the
  loop is the search for the first accepted word (\<open>None\<close> when the list runs out).
\<close>

definition fq_max_accepted :: "u128 \<Rightarrow> u128" where
  "fq_max_accepted q = (let rejection_remainder = ((- 1) mod q + 1) mod q in - 1 - rejection_remainder)"

fun fq_sample :: "u128 \<Rightarrow> u128 list \<Rightarrow> u128 option" where
  "fq_sample q [] = None"
| "fq_sample q (candidate # rest) =
     (if candidate \<le> fq_max_accepted q then fq_from_u128 q candidate else fq_sample q rest)"

section \<open>Correctness\<close>

lemma fq_META_Some:
  assumes "fq_META q = Some m"
  shows "fm_wf m" "fm_modulus m = q" "3 \<le> unat q" "unat q < 2 ^ 126" "odd (unat q)"
    "is_prime q = Some True"
proof -
  from assms have *: "3 \<le> q" "is_prime q = Some True" "field_metadata_new q = Some m"
    by (auto simp: fq_META_def split: if_splits)
  from field_metadata_new_Some [OF *(3)] show "fm_wf m" "fm_modulus m = q" by simp_all
  from *(1) show "3 \<le> unat q" by (simp add: word_le_nat_alt)
  then show "unat q < 2 ^ 126" "odd (unat q)"
    using field_metadata_new_None_iff [of q] *(3) by auto
  from *(2) show "is_prime q = Some True" .
qed

lemma fq_META_prime:
  assumes "prime_nat (unat q)" "3 \<le> unat q" "unat q < 2 ^ 126"
  obtains m where "fq_META q = Some m"
proof -
  have "odd (unat q)"
  proof
    assume "even (unat q)"
    with assms(1) have "2 = (1 :: nat) \<or> 2 = unat q" by (rule prime_natD)
    with assms(2) show False by simp
  qed
  with assms have "field_metadata_new q \<noteq> None"
    by (simp add: field_metadata_new_None_iff)
  with assms that show ?thesis
    using is_prime_accepts_primes [OF assms(1,3)] by (auto simp: fq_META_def word_le_nat_alt)
qed

lemma int_residue_diff:
  assumes "x < q" "(x + b) mod q = (a :: nat)"
  shows "int x = (int a - int b) mod int q"
proof -
  have "(int a - int b) mod int q = ((int x + int b) - int b) mod int q"
    by (simp only: assms(2) [symmetric] of_nat_mod of_nat_add mod_diff_left_eq)
  with assms(1) show ?thesis by simp
qed

lemma fq_add_correct:
  assumes "fq_META q = Some m" "a < q" "b < q"
  obtains c where "fq_add q a b = Some c" "c < q" "unat c = (unat a + unat b) mod unat q"
proof -
  note q = fq_META_Some [OF assms(1)]
  have "fq_add q a b = Some (add_mod a b q)"
    using assms(1) by (simp add: fq_add_def add_mod_def)
  with that assms q add_mod_correct [of a q b] add_mod_less [of a q b] show ?thesis by simp
qed

lemma fq_neg_correct:
  assumes "fq_META q = Some m" "a < q"
  obtains c where "fq_neg q a = Some c" "c < q" "(unat c + unat a) mod unat q = 0"
proof
  let ?c = "if a = 0 then 0 else q - a"
  have lt: "unat a < unat q" using assms(2) by (simp add: word_less_nat_alt)
  show "fq_neg q a = Some ?c" using assms(1) by (simp add: fq_neg_def)
  have c: "unat ?c = (if unat a = 0 then 0 else unat q - unat a)"
    using lt by (auto simp: unat_minus_le word_le_nat_alt unat_eq_0)
  with lt show "?c < q" by (simp only: word_less_nat_alt c) auto
  from c lt show "(unat ?c + unat a) mod unat q = 0" by (simp only: c) auto
qed

lemma fq_sub_correct:
  assumes "fq_META q = Some m" "a < q" "b < q"
  obtains c where "fq_sub q a b = Some c" "c < q" "(unat c + unat b) mod unat q = unat a"
proof
  note q = fq_META_Some [OF assms(1)]
  let ?c = "if b \<le> a then a - b else a + q - b"
  have lt: "unat a < unat q" "unat b < unat q" using assms(2,3) by (simp_all add: word_less_nat_alt)
  show "fq_sub q a b = Some ?c" using assms(1) by (simp add: fq_sub_def)
  have aq: "unat (a + q) = unat a + unat q"
    using lt q(4) by (intro unat_add_lt) simp
  have c: "unat ?c = (if unat b \<le> unat a then unat a - unat b else unat a + unat q - unat b)"
    using lt by (simp add: unat_minus_le word_le_nat_alt aq)
  with lt show "?c < q" by (simp only: word_less_nat_alt c) auto
  from lt show "(unat ?c + unat b) mod unat q = unat a" unfolding c by auto
qed

lemma fq_mul_correct:
  assumes "fq_META q = Some m" "a < q" "b < q"
  obtains c where "fq_mul q a b = Some c" "c < q" "unat c = unat a * unat b mod unat q"
  using that assms fq_META_Some [OF assms(1)] fm_mul_correct [of m a b] fm_mul_less [of m a b]
  by (simp add: fq_mul_def)

lemma fq_from_u128_correct:
  assumes "fq_META q = Some m"
  obtains c where "fq_from_u128 q v = Some c" "c < q" "unat c = unat v mod unat q"
  using that assms fq_META_Some(3) [OF assms]
  by (simp add: fq_from_u128_def unat_mod word_less_nat_alt)

interpretation fq_arith: residue_arith "\<lambda>q. fq_META q \<noteq> None" unat fq_from_u128 fq_add fq_mul
proof unfold_locales
  fix q :: u128 assume "fq_META q \<noteq> None"
  then obtain m where m: "fq_META q = Some m" by blast
  show "1 < unat q" using fq_META_Some(3) [OF m] by simp
  show "\<exists>v. fq_from_u128 q x = Some v \<and> unat v = unat x mod unat q" for x
    by (rule fq_from_u128_correct [OF m, of x]) blast
  fix a b :: u128 assume ab: "unat a < unat q" "unat b < unat q"
  show "\<exists>v. fq_add q a b = Some v \<and> unat v = (unat a + unat b) mod unat q"
    by (rule fq_add_correct [OF m, of a b]) (use ab in \<open>auto simp: word_less_nat_alt\<close>)
  show "\<exists>v. fq_mul q a b = Some v \<and> unat v = unat a * unat b mod unat q"
    by (rule fq_mul_correct [OF m, of a b]) (use ab in \<open>auto simp: word_less_nat_alt\<close>)
qed

lemma fq_sum_correct:
  assumes "fq_META q = Some m" "\<forall>x\<in>set xs. x < q"
  shows "\<exists>c. fq_sum q xs = Some c \<and> unat c = sum_list (map unat xs) mod unat q"
  using fq_arith.fold_plus [of q 0 xs] assms fq_META_Some(3) [OF assms(1)]
  by (simp add: fq_sum_def word_less_nat_alt)

lemma fq_product_correct:
  assumes "fq_META q = Some m" "\<forall>x\<in>set xs. x < q"
  shows "\<exists>c. fq_product q xs = Some c \<and> unat c = prod_list (map unat xs) mod unat q"
  using fq_arith.fold_times [of q 1 xs] assms fq_META_Some(3) [OF assms(1)]
  by (simp add: fq_product_def word_less_nat_alt)


section \<open>Rejection sampling is unbiased\<close>

lemma card_residue_class:
  fixes q k r :: nat
  assumes "r < q"
  shows "card {n. n < q * k \<and> n mod q = r} = k"
proof -
  have "{n. n < q * k \<and> n mod q = r} = (\<lambda>j. q * j + r) ` {..<k}"
  proof (intro set_eqI iffI)
    fix n assume "n \<in> {n. n < q * k \<and> n mod q = r}"
    then have "n = q * (n div q) + r" "n div q < k"
      using assms by (auto simp: div_less_iff_less_mult mult.commute)
    then show "n \<in> (\<lambda>j. q * j + r) ` {..<k}" by blast
  next
    fix n assume "n \<in> (\<lambda>j. q * j + r) ` {..<k}"
    then obtain j where j: "j < k" "n = q * j + r" by auto
    then have "q * Suc j \<le> q * k" by (intro mult_le_mono2) simp
    with j assms show "n \<in> {n. n < q * k \<and> n mod q = r}" by simp
  qed
  moreover have "inj_on (\<lambda>j. q * j + r) {..<k}"
    using assms by (auto simp: inj_on_def)
  ultimately show ?thesis by (simp add: card_image)
qed

lemma fq_max_accepted_value:
  assumes "0 < unat q"
  shows "Suc (unat (fq_max_accepted q)) = unat q * (2 ^ 128 div unat q)"
proof -
  let ?q = "unat q"
  have q: "?q < 2 ^ 128" using unat_lt2p [of q] by simp
  define r where "r = (((- 1) mod q + 1) mod q :: u128)"
  have m1: "unat ((- 1) :: u128) = 2 ^ 128 - 1"
    unfolding unsigned_minus_1_eq_mask by (simp add: mask_eq_exp_minus_1)
  have lt: "unat ((- 1) mod q) < ?q" using assms by (simp add: unat_mod)
  have "unat ((- 1) mod q + 1) = unat ((- 1) mod q) + 1"
    using lt q by (subst unat_add_lt) simp_all
  then have "unat r = ((2 ^ 128 - 1) mod ?q + 1) mod ?q"
    by (simp only: r_def unat_mod m1)
  also have "\<dots> = (2 ^ 128 - 1 + 1) mod ?q" by (rule mod_add_left_eq)
  finally have r: "unat r = 2 ^ 128 mod ?q" by simp
  have "2 ^ 128 mod ?q < ?q" using assms by simp
  have "fq_max_accepted q = - 1 - r"
    by (simp only: fq_max_accepted_def Let_def r_def)
  then have "unat (fq_max_accepted q) = 2 ^ 128 - 1 - 2 ^ 128 mod ?q"
    using unat_minus_le [of r "- 1"] by (simp only: m1 r) simp
  moreover have "2 ^ 128 mod ?q < 2 ^ 128" using \<open>2 ^ 128 mod ?q < ?q\<close> q by linarith
  ultimately have "Suc (unat (fq_max_accepted q)) = 2 ^ 128 - 2 ^ 128 mod ?q" by simp
  then show ?thesis by (simp add: minus_mod_eq_mult_div)
qed

lemma fq_sample_residue_count:
  assumes "0 < unat q" "r < unat q"
  shows "card {c. c \<le> fq_max_accepted q \<and> unat c mod unat q = r} = 2 ^ 128 div unat q"
proof -
  let ?N = "unat q * (2 ^ 128 div unat q)"
  let ?W = "{c. c \<le> fq_max_accepted q \<and> unat c mod unat q = r}"
  have N: "?N \<le> 2 ^ 128" by (rule times_div_less_eq_dividend)
  have le: "c \<le> fq_max_accepted q \<longleftrightarrow> unat c < ?N" for c
    using fq_max_accepted_value [OF assms(1)] by (simp add: word_le_nat_alt less_Suc_eq_le [symmetric])
  have img: "unat ` ?W = {n. n < ?N \<and> n mod unat q = r}"
  proof (intro set_eqI iffI)
    fix n assume n: "n \<in> {n. n < ?N \<and> n mod unat q = r}"
    with N have "n < 2 ^ 128" by (metis (mono_tags, lifting) less_le_trans mem_Collect_eq)
    then have "unat (word_of_nat n :: u128) = n" by (simp add: unat_of_nat)
    with n le [of "word_of_nat n"] show "n \<in> unat ` ?W" by (intro image_eqI [of _ _ "word_of_nat n"]) simp_all
  qed (use le in auto)
  have "inj_on unat ?W" by (rule inj_onI) (simp only: word_unat_eq_iff)
  then have "card ?W = card (unat ` ?W)" by (rule card_image [symmetric])
  also have "\<dots> = 2 ^ 128 div unat q"
    unfolding img by (rule card_residue_class [OF assms(2)])
  finally show ?thesis .
qed

lemma fq_sample_first:
  assumes "fq_META q = Some m" "fq_sample q xs = Some v"
  shows "\<exists>c\<in>set xs. c \<le> fq_max_accepted q \<and> v = c mod q"
  using assms(2) by (induction xs) (auto simp: fq_from_u128_def assms(1) split: if_splits)

section \<open>Properties\<close>

lemma fq_META_7: "fq_META 7 = Some \<lparr>fm_modulus = 7, fm_bits = 3, fm_mu = 9\<rparr>"
proof -
  have "sieve 7 = Some True" "field_metadata_new 7 = Some \<lparr>fm_modulus = 7, fm_bits = 3, fm_mu = 9\<rparr>"
    by code_simp+
  then show ?thesis by (simp add: fq_META_def is_prime_def)
qed

text \<open>C40: With a modulus that \<open>META\<close> accepts, the operations of \<open>Fq\<close> on reduced values return
  reduced values and compute the ring operations of the integers modulo \<open>q\<close>; none overflows.\<close>

theorem fq_arithmetic:
  assumes "fq_META q = Some m" "a < q" "b < q"
  shows "\<exists>s d n p. fq_add q a b = Some s \<and> unat s = (unat a + unat b) mod unat q
    \<and> fq_sub q a b = Some d \<and> int (unat d) = (int (unat a) - int (unat b)) mod int (unat q)
    \<and> fq_neg q a = Some n \<and> int (unat n) = (- int (unat a)) mod int (unat q)
    \<and> fq_mul q a b = Some p \<and> unat p = unat a * unat b mod unat q"
proof -
  obtain s where s: "fq_add q a b = Some s" "unat s = (unat a + unat b) mod unat q"
    using fq_add_correct [OF assms] .
  obtain p where p: "fq_mul q a b = Some p" "unat p = unat a * unat b mod unat q"
    using fq_mul_correct [OF assms] .
  obtain d where d: "fq_sub q a b = Some d" "d < q" "(unat d + unat b) mod unat q = unat a"
    using fq_sub_correct [OF assms] .
  obtain n where n: "fq_neg q a = Some n" "n < q" "(unat n + unat a) mod unat q = 0"
    using fq_neg_correct [OF assms(1,2)] .
  have "int (unat d) = (int (unat a) - int (unat b)) mod int (unat q)"
    using int_residue_diff [of "unat d" "unat q" "unat b" "unat a"] d(2,3) assms(2)
    by (simp add: word_less_nat_alt)
  moreover have "int (unat n) = (- int (unat a)) mod int (unat q)"
    using int_residue_diff [of "unat n" "unat q" "unat a" 0] n(2,3) by (simp add: word_less_nat_alt)
  ultimately show ?thesis using s p d(1) n(1) by blast
qed

theorem fq_arithmetic_witness:
  "\<exists>s d n p. fq_add 7 3 5 = Some s \<and> unat s = 1 \<and> fq_sub 7 3 5 = Some d \<and> int (unat d) = 5
    \<and> fq_neg 7 3 = Some n \<and> int (unat n) = 4 \<and> fq_mul 7 3 5 = Some p \<and> unat p = 1"
proof -
  from fq_arithmetic [OF fq_META_7, of 3 5] show ?thesis by simp
qed

text \<open>Rejection sampling is unbiased: among the \<open>u128\<close> words that the loop accepts, every
  residue class modulo \<open>q\<close> has the same number \<open>2 ^ 128 div q\<close> of representatives.\<close>

theorem fq_sampling_unbiased:
  assumes "0 < unat q" "r < unat q"
  shows "card {c. c \<le> fq_max_accepted q \<and> unat c mod unat q = r} = 2 ^ 128 div unat q"
  using assms by (rule fq_sample_residue_count)

theorem fq_sampling_unbiased_witness:
  "card {c. c \<le> fq_max_accepted 3 \<and> unat c mod 3 = 1} = 2 ^ 128 div 3"
  using fq_sampling_unbiased [of 3 1] by simp

end
