(* ===== verification/Field_Dyn.thy ===== *)
theory Field_Dyn
  imports Field_Fq
begin

text \<open>
  The prime field with a run-time modulus: \<open>crates/field/src/dynamic.rs\<close>.

  The process-wide statics of \<open>mod global\<close> are the record \<open>dyn_global\<close>, one field per atomic
  word; \<open>set_modulus\<close> returns the updated globals, every operation takes them as its first
  argument.  An assertion that fails is \<open>None\<close> (\<open>debug_assert!\<close> is compiled out).  A field
  element is the \<open>u128\<close> it holds.
\<close>

section \<open>The installed modulus\<close>

record dyn_global =
  MODULUS_LO :: u64
  MODULUS_HI :: u64
  MU_LO :: u64
  MU_HI :: u64
  BITS :: u32

definition dyn_global_init :: dyn_global where
  "dyn_global_init = \<lparr>MODULUS_LO = 0, MODULUS_HI = 0, MU_LO = 0, MU_HI = 0, BITS = 0\<rparr>"

definition load_u128 :: "u64 \<Rightarrow> u64 \<Rightarrow> u128" where
  "load_u128 lo hi = ucast lo OR push_bit 64 (ucast hi)"

definition store_u128 :: "u128 \<Rightarrow> u64 \<times> u64" where
  "store_u128 value = (ucast value, ucast (drop_bit 64 value))"

definition global_modulus :: "dyn_global \<Rightarrow> u128" where
  "global_modulus g = load_u128 (MODULUS_LO g) (MODULUS_HI g)"

definition global_load :: "dyn_global \<Rightarrow> field_metadata" where
  "global_load g = \<lparr>fm_modulus = global_modulus g, fm_bits = unat (BITS g),
     fm_mu = load_u128 (MU_LO g) (MU_HI g)\<rparr>"

definition global_store :: "field_metadata \<Rightarrow> dyn_global \<Rightarrow> dyn_global" where
  "global_store cfg g =
     (let (mlo, mhi) = store_u128 (fm_modulus cfg);
          (ulo, uhi) = store_u128 (fm_mu cfg)
      in g\<lparr>MODULUS_LO := mlo, MODULUS_HI := mhi, MU_LO := ulo, MU_HI := uhi,
           BITS := word_of_nat (fm_bits cfg)\<rparr>)"

definition set_modulus :: "u128 \<Rightarrow> dyn_global \<Rightarrow> dyn_global option" where
  "set_modulus modulus g =
     (if \<not> 3 \<le> modulus then None
      else if modulus mod 2 \<noteq> 1 then None
      else if \<not> modulus < push_bit MAX_MODULUS_BITS 1 then None
      else if is_prime modulus \<noteq> Some True then None
      else map_option (\<lambda>cfg. global_store cfg g) (field_metadata_new modulus))"

section \<open>Operations\<close>

definition assert_reduced :: "u128 \<Rightarrow> u128 \<Rightarrow> bool" where
  "assert_reduced a modulus = (a < modulus)"

definition dyn_neg :: "dyn_global \<Rightarrow> u128 \<Rightarrow> u128 option" where
  "dyn_neg g a =
     (let modulus = global_modulus g
      in if \<not> assert_reduced a modulus then None
         else if a = 0 then Some a else Some (modulus - a))"

definition dyn_add :: "dyn_global \<Rightarrow> u128 \<Rightarrow> u128 \<Rightarrow> u128 option" where
  "dyn_add g a b =
     (let modulus = global_modulus g
      in if \<not> assert_reduced a modulus \<or> \<not> assert_reduced b modulus then None
         else let s = a + b in Some (if modulus \<le> s then s - modulus else s))"

definition dyn_sub :: "dyn_global \<Rightarrow> u128 \<Rightarrow> u128 \<Rightarrow> u128 option" where
  "dyn_sub g a b =
     (let modulus = global_modulus g
      in if \<not> assert_reduced a modulus \<or> \<not> assert_reduced b modulus then None
         else Some (if b \<le> a then a - b else a + modulus - b))"

definition dyn_mul :: "dyn_global \<Rightarrow> u128 \<Rightarrow> u128 \<Rightarrow> u128 option" where
  "dyn_mul g a b =
     (let config = global_load g
      in if \<not> assert_reduced a (fm_modulus config) \<or> \<not> assert_reduced b (fm_modulus config) then None
         else Some (fm_mul config a b))"

definition dyn_sum :: "dyn_global \<Rightarrow> u128 list \<Rightarrow> u128 option" where
  "dyn_sum g xs = fold_option (dyn_add g) 0 xs"

definition dyn_product :: "dyn_global \<Rightarrow> u128 list \<Rightarrow> u128 option" where
  "dyn_product g xs = fold_option (dyn_mul g) 1 xs"

definition dyn_from_bool :: "bool \<Rightarrow> u128" where
  "dyn_from_bool value = (if value then 1 else 0)"

text \<open>Remainder by zero panics, so \<open>from\<close> does when no modulus was installed.\<close>

definition dyn_from_u128 :: "dyn_global \<Rightarrow> u128 \<Rightarrow> u128 option" where
  "dyn_from_u128 g value =
     (let modulus = global_modulus g in if modulus = 0 then None else Some (value mod modulus))"

definition dyn_from_u64 :: "dyn_global \<Rightarrow> u64 \<Rightarrow> u128 option" where
  "dyn_from_u64 g value = dyn_from_u128 g (ucast value)"

definition dyn_max_value :: "dyn_global \<Rightarrow> u128" where
  "dyn_max_value g = global_modulus g - 1"

definition dyn_modulus_minus_one_div_two :: "dyn_global \<Rightarrow> u128" where
  "dyn_modulus_minus_one_div_two g = (global_modulus g - 1) div 2"

definition dyn_lift :: "u128 \<Rightarrow> u128" where
  "dyn_lift a = a"

section \<open>What is installed is what is read\<close>

lemma load_store_u128: "store_u128 v = (lo, hi) \<Longrightarrow> load_u128 lo hi = v"
proof -
  assume "store_u128 v = (lo, hi)"
  then have "lo = ucast v" "hi = ucast (drop_bit 64 v)" by (simp_all add: store_u128_def)
  then show ?thesis
    unfolding load_u128_def
    by (intro bit_word_eqI)
      (auto simp: bit_or_iff bit_push_bit_iff bit_ucast_iff bit_drop_bit_eq not_less)
qed

lemma global_load_store:
  assumes "fm_bits cfg < 2 ^ 32"
  shows "global_load (global_store cfg g) = cfg"
proof -
  obtain a b where ab: "store_u128 (fm_modulus cfg) = (a, b)" by (cases "store_u128 (fm_modulus cfg)")
  obtain c d where cd: "store_u128 (fm_mu cfg) = (c, d)" by (cases "store_u128 (fm_mu cfg)")
  from assms have "unat (word_of_nat (fm_bits cfg) :: u32) = fm_bits cfg"
    by (simp add: unat_of_nat)
  with load_store_u128 [OF ab] load_store_u128 [OF cd] show ?thesis
    by (simp add: global_store_def ab cd global_load_def global_modulus_def)
qed

lemma set_modulus_iff:
  "set_modulus q g = Some g' \<longleftrightarrow> (\<exists>m. fq_META q = Some m \<and> g' = global_store m g)"
proof -
  have "q mod 2 = 1 \<and> q < push_bit MAX_MODULUS_BITS 1" if "fq_META q = Some m" for m
  proof -
    note m = fq_META_Some [OF that]
    have "unat (push_bit MAX_MODULUS_BITS 1 :: u128) = 2 ^ 126"
      by (simp add: MAX_MODULUS_BITS_def)
    moreover have "q mod 2 = 1 \<longleftrightarrow> odd (unat q)"
      using word_unat_eq_iff [of "q mod 2" 1] by (simp add: unat_mod odd_iff_mod_2_eq_one)
    ultimately show ?thesis using m by (simp add: word_less_nat_alt)
  qed
  then have "set_modulus q g = map_option (\<lambda>m. global_store m g) (fq_META q)"
  proof (cases "fq_META q")
    case None
    then show ?thesis by (simp add: set_modulus_def fq_META_def split: if_splits)
  next
    case (Some m)
    with \<open>\<And>m. fq_META q = Some m \<Longrightarrow> _\<close> have "q mod 2 = 1 \<and> q < push_bit MAX_MODULUS_BITS 1" .
    moreover from Some have "3 \<le> q" "is_prime q = Some True" "field_metadata_new q = Some m"
      by (auto simp: fq_META_def split: if_splits)
    ultimately show ?thesis unfolding set_modulus_def Some by simp
  qed
  then show ?thesis by auto
qed

lemma set_modulus_load:
  assumes "set_modulus q g = Some g'"
  obtains m where "fq_META q = Some m" "global_load g' = m" "global_modulus g' = q"
proof -
  from assms obtain m where m: "fq_META q = Some m" "g' = global_store m g"
    by (auto simp: set_modulus_iff)
  note q = fq_META_Some [OF m(1)]
  have "fm_bits m < 2 ^ 32"
    using q(1) bitlen_unat_le [of "fm_modulus m"] by (simp add: fm_wf_def barrett_ok_def)
  then have l: "global_load g' = m" by (simp add: m(2) global_load_store)
  moreover have "global_modulus g' = q"
    using l q(2) by (auto simp: global_load_def)
  ultimately show thesis using m(1) that by blast
qed

text \<open>Under an installed modulus every operation is the one of \<open>Fq\<close> with that modulus.\<close>

lemma dyn_ops_fq:
  assumes "set_modulus q g = Some g'" "a < q" "b < q"
  shows "dyn_neg g' a = fq_neg q a" "dyn_add g' a b = fq_add q a b"
    "dyn_sub g' a b = fq_sub q a b" "dyn_mul g' a b = fq_mul q a b"
    "dyn_from_u128 g' v = fq_from_u128 q v"
proof -
  obtain m where m: "fq_META q = Some m" "global_load g' = m" "global_modulus g' = q"
    using assms(1) by (rule set_modulus_load)
  from fq_META_Some [OF m(1)] have q: "fm_modulus m = q" "q \<noteq> 0" by auto
  show "dyn_neg g' a = fq_neg q a" "dyn_add g' a b = fq_add q a b" "dyn_sub g' a b = fq_sub q a b"
    "dyn_mul g' a b = fq_mul q a b" "dyn_from_u128 g' v = fq_from_u128 q v"
    using assms(2,3) q m
    by (simp_all add: dyn_neg_def fq_neg_def dyn_add_def fq_add_def dyn_sub_def fq_sub_def
        dyn_mul_def fq_mul_def dyn_from_u128_def fq_from_u128_def assert_reduced_def Let_def)
qed

definition installed :: "dyn_global \<Rightarrow> bool" where
  "installed g = (\<exists>q g0. set_modulus q g0 = Some g)"

interpretation dyn_arith: residue_arith installed "\<lambda>g. unat (global_modulus g)" dyn_from_u128 dyn_add dyn_mul
proof unfold_locales
  fix g assume "installed g"
  then obtain q g0 where s: "set_modulus q g0 = Some g" by (auto simp: installed_def)
  then obtain m where m: "fq_META q = Some m" "global_modulus g = q" by (rule set_modulus_load)
  then have ok: "fq_META q \<noteq> None" by simp
  show "1 < unat (global_modulus g)" using fq_arith.modulus_gt_1 [OF ok] m(2) by simp
  then have z: "0 < q" using m(2) by (simp add: word_less_nat_alt)
  show "\<exists>v. dyn_from_u128 g x = Some v \<and> unat v = unat x mod unat (global_modulus g)" for x
    using fq_arith.embed [OF ok, of x] dyn_ops_fq(5) [OF s z z] m(2) by simp
  fix a b :: u128 assume "unat a < unat (global_modulus g)" "unat b < unat (global_modulus g)"
  then have ab: "a < q" "b < q" by (simp_all add: m(2) word_less_nat_alt)
  show "\<exists>v. dyn_add g a b = Some v \<and> unat v = (unat a + unat b) mod unat (global_modulus g)"
    using fq_arith.plus [OF ok, of a b] ab by (simp add: dyn_ops_fq [OF s ab] m(2) word_less_nat_alt)
  show "\<exists>v. dyn_mul g a b = Some v \<and> unat v = unat a * unat b mod unat (global_modulus g)"
    using fq_arith.times [OF ok, of a b] ab by (simp add: dyn_ops_fq [OF s ab] m(2) word_less_nat_alt)
qed

lemma dyn_sum_correct:
  assumes "installed g" "\<forall>x\<in>set xs. x < global_modulus g"
  shows "\<exists>c. dyn_sum g xs = Some c \<and> unat c = sum_list (map unat xs) mod unat (global_modulus g)"
  using dyn_arith.fold_plus [of g 0 xs] dyn_arith.modulus_gt_1 [of g] assms
  by (simp add: dyn_sum_def word_less_nat_alt)

lemma dyn_unreduced_panics:
  "\<not> a < global_modulus g \<Longrightarrow> dyn_neg g a = None \<and> dyn_add g a b = None \<and> dyn_add g b a = None
     \<and> dyn_sub g a b = None \<and> dyn_sub g b a = None \<and> dyn_mul g a b = None \<and> dyn_mul g b a = None"
  by (simp add: dyn_neg_def dyn_add_def dyn_sub_def dyn_mul_def assert_reduced_def global_load_def
      Let_def)

section \<open>Properties\<close>

text \<open>C22: \<open>set_modulus\<close> panics on exactly the moduli that \<open>Fq\<close> rejects at compile time; after it
  returns, the split of the configuration over five atomic words loses nothing and negation, addition,
  subtraction and multiplication of \<open>DynField\<close> are, on reduced operands, the operation of \<open>Fq\<close> with
  that modulus, while each of the four panics on an operand left over from another modulus.\<close>

theorem dyn_field_is_fq:
  "(set_modulus q g = None \<longleftrightarrow> fq_META q = None) \<and>
   (\<forall>g' a b. set_modulus q g = Some g' \<longrightarrow>
      Some (global_load g') = fq_META q \<and>
      dyn_neg g' a = (if a < q then fq_neg q a else None) \<and>
      dyn_add g' a b = (if a < q \<and> b < q then fq_add q a b else None) \<and>
      dyn_sub g' a b = (if a < q \<and> b < q then fq_sub q a b else None) \<and>
      dyn_mul g' a b = (if a < q \<and> b < q then fq_mul q a b else None))"
proof (intro conjI allI impI)
  show "set_modulus q g = None \<longleftrightarrow> fq_META q = None"
    using set_modulus_iff [of q g] by (cases "fq_META q"; cases "set_modulus q g") auto
next
  fix g' a b assume s: "set_modulus q g = Some g'"
  then obtain m where m: "fq_META q = Some m" "global_load g' = m" "global_modulus g' = q"
    by (rule set_modulus_load)
  then show "Some (global_load g') = fq_META q" by simp
  note ops = dyn_ops_fq [OF s] dyn_unreduced_panics [of _ g', unfolded m(3)]
  show "dyn_neg g' a = (if a < q then fq_neg q a else None)" using ops(1) [of a a] ops(6) [of a] by simp
  show "dyn_add g' a b = (if a < q \<and> b < q then fq_add q a b else None)" using ops(2) [of a b] ops(6) by (cases "a < q"; cases "b < q") simp_all
  show "dyn_sub g' a b = (if a < q \<and> b < q then fq_sub q a b else None)" using ops(3) [of a b] ops(6) by (cases "a < q"; cases "b < q") simp_all
  show "dyn_mul g' a b = (if a < q \<and> b < q then fq_mul q a b else None)" using ops(4) [of a b] ops(6) by (cases "a < q"; cases "b < q") simp_all
qed

theorem dyn_field_is_fq_witness:
  "\<exists>g'. set_modulus 7 dyn_global_init = Some g' \<and> dyn_mul g' 3 5 = Some 1 \<and> dyn_add g' 3 7 = None \<and> dyn_neg g' 9 = None"
proof -
  obtain p where "fq_mul 7 3 5 = Some p" "unat p = 1"
    using fq_mul_correct [OF fq_META_7, of 3 5] by auto
  then have "fq_META 7 \<noteq> None" "fq_mul 7 3 5 = Some 1" by (simp_all add: fq_META_7 word_unat_eq_iff)
  with dyn_field_is_fq [of 7 dyn_global_init] obtain g' where g': "set_modulus 7 dyn_global_init = Some g'"
    by auto
  moreover from g' have "dyn_mul g' 3 5 = Some 1"
    using dyn_field_is_fq [of 7 dyn_global_init] \<open>fq_mul 7 3 5 = Some 1\<close> by simp
  moreover from g' have "dyn_add g' 3 7 = None"
    using dyn_field_is_fq [of 7 dyn_global_init] by simp
  moreover from g' have "dyn_neg g' 9 = None"
    using dyn_field_is_fq [of 7 dyn_global_init] by simp
  ultimately show ?thesis by blast
qed

end
