(* ===== verification/Gf128_Pow.thy ===== *)
theory Gf128_Pow
  imports Gf128_Field Field_Dyn
begin

text \<open>
  The primitive-element test, the fixed-base comb table (\<open>gf128/pow.rs\<close>) and the wire codecs of the
  field types (\<open>codec.rs\<close>).

  \<open>FixedBasePow\<close> is generic in the exponent type; its model takes the exponent's value.  Reading
  sixteen bytes off a NARG string is spongefish's, a parameter of the codecs.
\<close>

section \<open>Fixed-base exponentiation\<close>

record fixed_base_pow =
  fbp_table :: "f128 list list"
  fbp_win :: nat

fun fbp_row :: "f128 \<Rightarrow> nat \<Rightarrow> f128 \<Rightarrow> f128 list" where
  "fbp_row base 0 cur = []"
| "fbp_row base (Suc n) cur = cur # fbp_row base n (f128_mul cur base)"

fun fbp_rows :: "nat \<Rightarrow> nat \<Rightarrow> f128 \<Rightarrow> f128 list list" where
  "fbp_rows win 0 base = []"
| "fbp_rows win (Suc n) base = fbp_row base (2 ^ win) f128_ONE # fbp_rows win n (f128_square_n base win)"

definition fbp_new :: "f128 \<Rightarrow> nat \<Rightarrow> fixed_base_pow option" where
  "fbp_new alpha win =
     (if \<not> (1 \<le> win \<and> win \<le> 16) then None
      else let windows = (128 + win - 1) div win
           in Some \<lparr>fbp_table = fbp_rows win windows alpha, fbp_win = win\<rparr>)"

text \<open>The loop consumes \<open>win\<close> bits of the exponent per turn.  Indexing past the table panics, which
  is \<open>None\<close>; a window of zero bits, which \<open>new\<close> excludes, would not terminate and is \<open>None\<close> too.\<close>

function fbp_pow_loop :: "fixed_base_pow \<Rightarrow> nat \<Rightarrow> nat \<Rightarrow> f128 \<Rightarrow> f128 option" where
  "fbp_pow_loop self e i acc =
     (if e = 0 then Some acc
      else if fbp_win self = 0 then None
      else
        let d = e mod 2 ^ fbp_win self
        in if d \<noteq> 0 then
             (if i < length (fbp_table self) \<and> d < length (fbp_table self ! i)
              then fbp_pow_loop self (e div 2 ^ fbp_win self) (i + 1) (f128_mul acc (fbp_table self ! i ! d))
              else None)
           else fbp_pow_loop self (e div 2 ^ fbp_win self) (i + 1) acc)"
  by pat_completeness auto
termination
  by (relation "measure (\<lambda>(self, e, i, acc). e)") (auto intro!: div_less_dividend one_less_power)

declare fbp_pow_loop.simps [simp del]

definition fbp_pow :: "fixed_base_pow \<Rightarrow> nat \<Rightarrow> f128 option" where
  "fbp_pow self exp = fbp_pow_loop self exp 0 f128_ONE"

lemma length_fbp_row [simp]: "length (fbp_row base n cur) = n"
  by (induction base n cur rule: fbp_row.induct) auto

lemma fbp_row_nth: "d < n \<Longrightarrow> fbp_row base n cur ! d = cur * base ^ d"
  by (induction base n cur arbitrary: d rule: fbp_row.induct) (auto simp: nth_Cons' ac_simps power_eq_if)

lemma length_fbp_rows [simp]: "length (fbp_rows win n base) = n"
  by (induction win n base rule: fbp_rows.induct) auto

lemma fbp_rows_nth: "i < n \<Longrightarrow> fbp_rows win n base ! i = fbp_row (base ^ 2 ^ (win * i)) (2 ^ win) 1"
proof (induction win n base arbitrary: i rule: fbp_rows.induct)
  case (2 win n base)
  then show ?case
    by (cases i) (simp_all add: f128_square_n_correct power_mult [symmetric] power_add [symmetric])
qed simp

lemma fbp_pow_loop_correct:
  assumes self: "0 < w" "fbp_win self = w" "fbp_table self = fbp_rows w n alpha"
    and "e < 2 ^ (w * (n - i))" "i \<le> n"
  shows "fbp_pow_loop self e i acc = Some (acc * alpha ^ (e * 2 ^ (w * i)))"
  using assms(4,5)
proof (induction e arbitrary: i acc rule: less_induct)
  case (less e)
  show ?case
  proof (cases "e = 0")
    case True
    then show ?thesis by (simp add: fbp_pow_loop.simps [of self 0])
  next
    case False
    then have "i < n" using less.prems by (cases "i = n") auto
    let ?d = "e mod 2 ^ w" let ?q = "e div 2 ^ w"
    have "?q < e" using False self(1) by (intro div_less_dividend one_less_power) auto
    have w: "w * (n - i) = w * (n - Suc i) + w"
    proof -
      have "n - i = Suc (n - Suc i)" using \<open>i < n\<close> by simp
      then show ?thesis by (simp only: mult_Suc_right add.commute)
    qed
    then have q: "?q < 2 ^ (w * (n - Suc i))"
      using less.prems(1) by (simp add: power_add less_mult_imp_div_less)
    have row: "fbp_table self ! i = fbp_row (alpha ^ 2 ^ (w * i)) (2 ^ w) 1" "i < length (fbp_table self)"
      using \<open>i < n\<close> by (simp_all add: self(3) fbp_rows_nth)
    have "fbp_pow_loop self e i acc
        = fbp_pow_loop self ?q (Suc i) (acc * (alpha ^ 2 ^ (w * i)) ^ ?d)"
      using False self(1)
      by (simp add: fbp_pow_loop.simps [of self e] self(2) row fbp_row_nth Let_def)
    also have "\<dots> = Some (acc * (alpha ^ 2 ^ (w * i)) ^ ?d * alpha ^ (?q * 2 ^ (w * Suc i)))"
      using \<open>?q < e\<close> q \<open>i < n\<close> by (intro less.IH) auto
    also have "\<dots> = Some (acc * ((alpha ^ 2 ^ (w * i)) ^ ?d * alpha ^ (?q * 2 ^ (w * Suc i))))"
      by (simp only: mult.assoc)
    also have "(alpha ^ 2 ^ (w * i)) ^ ?d * alpha ^ (?q * 2 ^ (w * Suc i)) = alpha ^ (e * 2 ^ (w * i))"
    proof -
      have "?d * 2 ^ (w * i) + ?q * 2 ^ (w * Suc i) = (?q * 2 ^ w + ?d) * 2 ^ (w * i)"
        by (simp only: mult_Suc_right power_add add_mult_distrib mult.assoc add.commute)
      also have "\<dots> = e * 2 ^ (w * i)" by (simp only: div_mult_mod_eq)
      finally show ?thesis
        by (simp only: power_add [symmetric] power_mult [symmetric] mult.commute [of "2 ^ (w * i)" ?d])
    qed
    finally show ?thesis .
  qed
qed

lemma fbp_correct:
  assumes "fbp_new alpha win = Some t" "e < 2 ^ 128"
  shows "fbp_pow t e = Some (alpha ^ e)"
proof -
  let ?n = "(128 + win - 1) div win"
  from assms(1) have w: "0 < win" "t = \<lparr>fbp_table = fbp_rows win ?n alpha, fbp_win = win\<rparr>"
    by (auto simp: fbp_new_def Let_def split: if_splits)
  have "128 \<le> win * ?n"
  proof -
    have "128 + win - 1 < win * (?n + 1)"
      using w(1) dividend_less_div_times [of win "128 + win - 1"] by (simp add: algebra_simps)
    then show ?thesis by simp
  qed
  then have "(2 :: nat) ^ 128 \<le> 2 ^ (win * (?n - 0))" by (intro power_increasing) auto
  with assms(2) have "e < 2 ^ (win * (?n - 0))" by (rule less_le_trans)
  from fbp_pow_loop_correct [OF w(1) _ _ this, of t alpha 1] w(2) show ?thesis
    by (simp add: fbp_pow_def)
qed

section \<open>Primitive elements\<close>

definition generates :: "f128 \<Rightarrow> bool" where
  "generates a \<longleftrightarrow> (\<lambda>k. a ^ k) ` {..<2 ^ 128 - 1} = {b. b \<noteq> 0}"

lemma MULT_ORDER_div: "p \<in> set ORDER_PRIME_FACTORS \<Longrightarrow> unat (MULT_ORDER div p) = (2 ^ 128 - 1) div unat p"
  by (simp add: MULT_ORDER_def unat_div unsigned_minus_1_eq_mask mask_eq_exp_minus_1)

lemma is_generator_iff_tests:
  "is_generator a \<longleftrightarrow> a \<noteq> 0 \<and> (\<forall>p\<in>set (map unat ORDER_PRIME_FACTORS). a ^ ((2 ^ 128 - 1) div p) \<noteq> 1)"
  using MULT_ORDER_div by (simp add: is_generator_def f128_is_zero_iff list_all_iff f128_pow_correct)

lemma member_dvd_prod_list: "p \<in> set ps \<Longrightarrow> p dvd (prod_list ps :: nat)"
  by (induction ps) auto

lemma is_generator_iff: "is_generator a \<longleftrightarrow> generates a"
proof
  assume "is_generator a"
  then have a: "a \<noteq> 0" "\<forall>p\<in>set (map unat ORDER_PRIME_FACTORS). a ^ ((2 ^ 128 - 1) div p) \<noteq> 1"
    by (unfold is_generator_iff_tests) (elim conjE, assumption)+
  show "generates a"
    unfolding generates_def
    by (rule powers_surj [OF nonzero_power_one [OF a(1)] order_if_tests [OF nonzero_power_one [OF a(1)] a(2)]])
next
  assume g: "generates a"
  have card: "card ((\<lambda>k. f128_GENERATOR ^ k) ` {..<2 ^ 128 - 1 :: nat}) = 2 ^ 128 - 1"
    using card_image [OF powers_inj [OF X_power_one X_order]] by simp
  then have "card {b :: f128. b \<noteq> 0} = 2 ^ 128 - 1"
    by (simp only: powers_surj [OF X_power_one X_order])
  with g have c: "card ((\<lambda>k. a ^ k) ` {..<2 ^ 128 - 1 :: nat}) = card {..<2 ^ 128 - 1 :: nat}"
    by (simp only: generates_def card_lessThan)
  then have inj: "inj_on (\<lambda>k. a ^ k) {..<2 ^ 128 - 1 :: nat}" by (intro eq_card_imp_inj_on) simp_all
  have "a \<noteq> 0"
  proof
    assume "a = 0"
    then have "a ^ 1 = a ^ 2" by simp
    then show False using inj_onD [OF inj, of 1 2] by simp
  qed
  moreover have "a ^ ((2 ^ 128 - 1) div p) \<noteq> 1" if p: "p \<in> set (map unat ORDER_PRIME_FACTORS)" for p
  proof
    assume one: "a ^ ((2 ^ 128 - 1) div p) = 1"
    from p have "1 < p" "p dvd 2 ^ 128 - 1"
      using order_factorisation(2) prime_nat_gt_1 [of p] member_dvd_prod_list [OF p]
      by (simp_all only: order_factorisation(1))
    then have "0 < (2 ^ 128 - 1) div p" "(2 ^ 128 - 1) div p < 2 ^ 128 - 1"
      by (auto intro!: div_less_dividend dest: dvd_imp_le simp: div_greater_zero_iff)
    with one inj_onD [OF inj, of "(2 ^ 128 - 1) div p" 0] show False by simp
  qed
  ultimately show "is_generator a" by (simp only: is_generator_iff_tests) blast
qed

lemma GENERATOR_generates: "is_generator f128_GENERATOR"
  unfolding is_generator_iff generates_def by (rule powers_surj [OF X_power_one X_order])

lemma smallest_generator_eq: "smallest_generator = Some f128_GENERATOR"
proof -
  have "f128_from_u128 2 = f128_GENERATOR" by (simp add: f128_from_u128_def f128_GENERATOR_def)
  then show ?thesis
    using GENERATOR_generates by (simp add: smallest_generator_def smallest_generator_from.simps [of 2])
qed

section \<open>Codecs\<close>

text \<open>\<open>take16\<close> stands for \<open><[u8; 16]>::deserialize_from_narg\<close>: sixteen bytes off the front of the
  string, or an error that leaves the string alone.\<close>

type_synonym narg_read = "u8 list \<Rightarrow> (u8 list \<times> u8 list) option"

definition reads16 :: "narg_read \<Rightarrow> bool" where
  "reads16 take16 \<longleftrightarrow> (\<forall>buf. take16 buf = (if length buf < 16 then None else Some (take 16 buf, drop 16 buf)))"

definition f128_encode :: "f128 \<Rightarrow> u8 list" where
  "f128_encode a = f128_to_bytes a"

definition f128_decode :: "u8 list \<Rightarrow> f128" where
  "f128_decode buf = f128_from_bytes buf"

definition f128_deserialize :: "narg_read \<Rightarrow> u8 list \<Rightarrow> f128 option \<times> u8 list" where
  "f128_deserialize take16 buf =
     (case take16 buf of None \<Rightarrow> (None, buf) | Some (bytes, rest) \<Rightarrow> (Some (f128_from_bytes bytes), rest))"

definition fq_encode :: "u128 \<Rightarrow> u8 list" where
  "fq_encode a = to_le_bytes 16 (fq_lift a)"

definition deserialized_reduced :: "narg_read \<Rightarrow> u8 list \<Rightarrow> u128 \<Rightarrow> u128 option \<times> u8 list" where
  "deserialized_reduced take16 buf modulus =
     (case take16 buf of
        None \<Rightarrow> (None, buf)
      | Some (bytes, rest) \<Rightarrow>
          let value = from_le_bytes bytes
          in if modulus \<le> value then (None, buf) else (Some value, rest))"

text \<open>The conversion after the range check panics only on a rejected modulus.\<close>

definition fq_deserialize :: "narg_read \<Rightarrow> u128 \<Rightarrow> u8 list \<Rightarrow> u128 option option \<times> u8 list" where
  "fq_deserialize take16 q buf =
     (case deserialized_reduced take16 buf q of (r, rest) \<Rightarrow> (map_option (fq_from_u128 q) r, rest))"

definition dyn_encode :: "u128 \<Rightarrow> u8 list" where
  "dyn_encode a = to_le_bytes 16 (dyn_lift a)"

definition dyn_deserialize :: "narg_read \<Rightarrow> dyn_global \<Rightarrow> u8 list \<Rightarrow> u128 option option \<times> u8 list" where
  "dyn_deserialize take16 g buf =
     (case deserialized_reduced take16 buf (global_modulus g) of
        (r, rest) \<Rightarrow> (map_option (dyn_from_u128 g) r, rest))"

lemma f128_codec_roundtrip:
  assumes "reads16 take16"
  shows "f128_deserialize take16 (f128_encode a @ tail) = (Some a, tail)"
proof -
  have "length (f128_to_bytes a) = 16" by (simp add: f128_to_bytes_def)
  with assms show ?thesis
    by (simp add: reads16_def f128_deserialize_def f128_encode_def f128_from_to_bytes)
qed

lemma fq_codec_roundtrip:
  assumes "reads16 take16" "fq_META q = Some m" "a < q"
  shows "fq_deserialize take16 q (fq_encode a @ tail) = (Some (Some a), tail)"
  using assms
  by (simp add: reads16_def fq_deserialize_def deserialized_reduced_def fq_encode_def fq_lift_def
      from_to_le_bytes fq_from_u128_def not_le Let_def mod_word_less)

lemma deserialized_reduced_range:
  assumes "reads16 take16" "deserialized_reduced take16 buf q = (r, rest)"
  shows "case r of None \<Rightarrow> rest = buf | Some v \<Rightarrow> v < q \<and> buf = to_le_bytes 16 v @ rest"
proof (cases r)
  case None
  with assms show ?thesis
    by (auto simp: deserialized_reduced_def Let_def split: option.splits if_splits prod.splits)
next
  case (Some v)
  with assms have *: "\<not> length buf < 16" "v = from_le_bytes (take 16 buf)" "rest = drop 16 buf" "v < q"
    by (auto simp: deserialized_reduced_def reads16_def Let_def split: if_splits)
  then have "to_le_bytes 16 v = take 16 buf" by (simp add: to_from_le_bytes)
  with * Some show ?thesis by simp
qed

section \<open>Properties\<close>

text \<open>C36: The Itoh-Tsujii addition chain inverts: \<open>inv\<close> is \<open>None\<close> exactly for zero, and otherwise
  the returned element times the operand is one; division is multiplication by it.\<close>

theorem gf128_inverse:
  "case f128_inv a of
     None \<Rightarrow> a = f128_ZERO \<and> f128_div b a = None
   | Some c \<Rightarrow> a \<noteq> f128_ZERO \<and> f128_mul a c = f128_ONE \<and> f128_div b a = Some (f128_mul b c)"
  by (simp add: f128_inv_inverse f128_div_divide divide_inverse)

text \<open>Exponentiation by square-and-multiply equals iterated multiplication, for every 128-bit
  exponent.\<close>

theorem gf128_power:
  "f128_pow a e = ((\<lambda>b. f128_mul b a) ^^ unat e) f128_ONE"
proof -
  have "((\<lambda>b. b * a) ^^ n) 1 = a ^ n" for n
    by (induction n) (simp_all add: mult.commute)
  then show ?thesis by (simp add: f128_pow_correct)
qed

text \<open>\<open>is_generator\<close> decides primitivity: its nine tests pass exactly when the powers with
  exponent below \<open>2 ^ 128 - 1\<close> are all the nonzero elements; \<open>GENERATOR\<close> passes, and it is what
  \<open>smallest_generator\<close> returns.\<close>

theorem gf128_generator_test:
  "is_generator a = ((\<lambda>k. f128_pow a (word_of_nat k)) ` {..<2 ^ 128 - 1} = {b. b \<noteq> f128_ZERO})
   \<and> is_generator f128_GENERATOR \<and> smallest_generator = Some f128_GENERATOR"
proof -
  have "(\<lambda>k. f128_pow a (word_of_nat k)) ` {..<2 ^ 128 - 1} = (\<lambda>k. a ^ k) ` {..<2 ^ 128 - 1}"
    by (rule image_cong) (simp_all add: f128_pow_correct unat_of_nat)
  then show ?thesis
    by (simp only: is_generator_iff generates_def smallest_generator_eq GENERATOR_generates
        flip: is_generator_iff) (simp add: is_generator_iff generates_def)
qed

text \<open>C37: The comb table computes the same power as \<open>pow\<close> for every window that \<open>new\<close> accepts and
  every 128-bit exponent, without running off the table; other windows panic.\<close>

theorem fixed_base_pow_correct:
  "(fbp_new alpha win = None \<longleftrightarrow> win = 0 \<or> 16 < win)
   \<and> (\<forall>t. fbp_new alpha win = Some t \<longrightarrow> fbp_pow t (unat e) = Some (f128_pow alpha e))"
  using fbp_correct [of alpha win _ "unat e"] unat_lt2p [of e]
  by (auto simp: fbp_new_def Let_def f128_pow_correct)

theorem fixed_base_pow_correct_witness:
  "\<exists>t. fbp_new f128_GENERATOR 8 = Some t \<and> fbp_pow t 1000 = Some (f128_pow f128_GENERATOR 1000)"
proof -
  obtain t where "fbp_new f128_GENERATOR 8 = Some t"
    using fixed_base_pow_correct [of f128_GENERATOR 8 0] by auto
  with fixed_base_pow_correct [of f128_GENERATOR 8 1000] show ?thesis by simp
qed

text \<open>Reading back what was written: a field element at the front of a NARG string decodes to
  itself and leaves the rest, for \<open>F128\<close>, for \<open>Fq\<close> and for \<open>DynField\<close>; \<open>take16\<close> is spongefish's
  reader of sixteen bytes.\<close>

theorem field_codecs_roundtrip:
  assumes "reads16 take16" "fq_META q = Some m" "b < q" "set_modulus q g0 = Some g"
  shows "f128_deserialize take16 (f128_encode a @ tail) = (Some a, tail)
    \<and> fq_deserialize take16 q (fq_encode b @ tail) = (Some (Some b), tail)
    \<and> dyn_deserialize take16 g (dyn_encode b @ tail) = (Some (Some b), tail)"
proof (intro conjI)
  show "f128_deserialize take16 (f128_encode a @ tail) = (Some a, tail)"
    by (rule f128_codec_roundtrip [OF assms(1)])
  show fq: "fq_deserialize take16 q (fq_encode b @ tail) = (Some (Some b), tail)"
    by (rule fq_codec_roundtrip [OF assms(1-3)])
  obtain m' where "global_modulus g = q" using set_modulus_load [OF assms(4)] by metis
  moreover have "dyn_from_u128 g = fq_from_u128 q"
    using dyn_ops_fq(5) [OF assms(4,3,3)] by blast
  ultimately show "dyn_deserialize take16 g (dyn_encode b @ tail) = (Some (Some b), tail)"
    using fq by (simp only: dyn_deserialize_def fq_deserialize_def dyn_encode_def fq_encode_def dyn_lift_def fq_lift_def)
qed

theorem field_codecs_roundtrip_witness:
  "fq_deserialize (\<lambda>buf. if length buf < 16 then None else Some (take 16 buf, drop 16 buf)) 7
     (fq_encode 5 @ [1, 2, 3]) = (Some (Some 5), [1, 2, 3])"
proof -
  obtain g where "set_modulus 7 dyn_global_init = Some g"
    using set_modulus_iff [of 7 dyn_global_init] fq_META_7 by auto
  from field_codecs_roundtrip [OF _ fq_META_7 _ this, of _ 5 0 "[1, 2, 3]"] show ?thesis
    by (simp add: reads16_def)
qed

text \<open>Each prime-field element has one wire form: whatever bytes decode to a value are that
  value's encoding, the value is reduced, and a rejected string is left untouched.\<close>

theorem prime_field_decoding_canonical:
  assumes "reads16 take16" "fq_META q = Some m" "fq_deserialize take16 q buf = (r, rest)"
  shows "case r of None \<Rightarrow> rest = buf
    | Some v \<Rightarrow> \<exists>b. v = Some b \<and> b < q \<and> buf = fq_encode b @ rest"
proof -
  obtain r' where r': "deserialized_reduced take16 buf q = (r', rest)" "r = map_option (fq_from_u128 q) r'"
    using assms(3) by (auto simp: fq_deserialize_def split: prod.splits)
  from deserialized_reduced_range [OF assms(1) r'(1)] r'(2) assms(2) show ?thesis
    by (cases r') (auto simp: fq_from_u128_def fq_encode_def fq_lift_def mod_word_less)
qed

theorem prime_field_decoding_canonical_witness:
  "fq_deserialize (\<lambda>buf. if length buf < 16 then None else Some (take 16 buf, drop 16 buf)) 7 (replicate 16 9)
     = (None, replicate 16 9)"
proof -
  let ?read = "\<lambda>buf :: u8 list. if length buf < 16 then None else Some (take 16 buf, drop 16 buf)"
  obtain r rest where f: "fq_deserialize ?read 7 (replicate 16 9) = (r, rest)" by fastforce
  moreover have "r = None"
  proof -
    have "(7 :: u128) \<le> from_le_bytes (replicate 16 9)" by code_simp
    with f show ?thesis by (simp add: fq_deserialize_def deserialized_reduced_def Let_def split: if_splits)
  qed
  ultimately show ?thesis
    using prime_field_decoding_canonical [OF _ fq_META_7 f] by (simp add: reads16_def)
qed

end
