(* ===== verification/Common_Shape.thy ===== *)
theory Common_Shape
  imports Gf128_Pow
begin

text \<open>
  The instance shape, the security targets and the committed bit table:
  \<open>crates/common/src/shape.rs\<close>, \<open>security.rs\<close>, \<open>table.rs\<close>.

  \<open>usize\<close> values are \<open>nat\<close>; the gates keep them far below \<open>2 ^ 64\<close>.  A packed witness is the
  list of its 128-bit words.
\<close>

section \<open>Security targets\<close>

datatype security_level = Bits100 | Bits128

definition security_bits :: "security_level \<Rightarrow> nat" where
  "security_bits self = (case self of Bits100 \<Rightarrow> 100 | Bits128 \<Rightarrow> 128)"

definition grinding_bits :: "security_level \<Rightarrow> u64 \<Rightarrow> nat" where
  "grinding_bits self coefficient =
     (if coefficient = 0 then 0
      else let log_coefficient = 64 - leading_zeros (coefficient - 1)
           in (security_bits self + log_coefficient) - 128)"

section \<open>Shapes\<close>

definition PACK_BITS :: nat where "PACK_BITS = 7"
definition MIN_LOG_BITS :: nat where "MIN_LOG_BITS = 20"
definition MAX_LOG_BITS :: nat where "MAX_LOG_BITS = 35"

datatype shape_error = RowIndexTooNarrow | CommitmentSizeOutOfRange

record shape =
  log_rows :: nat
  log_columns :: nat

definition shape_new :: "nat \<Rightarrow> nat \<Rightarrow> shape_error + shape" where
  "shape_new rows columns =
     (if rows < PACK_BITS then Inl RowIndexTooNarrow
      else if MAX_LOG_BITS < rows \<or> MAX_LOG_BITS - rows < columns \<or> rows + columns < MIN_LOG_BITS
        then Inl CommitmentSizeOutOfRange
      else Inr \<lparr>log_rows = rows, log_columns = columns\<rparr>)"

definition shape_for_log_bits :: "nat \<Rightarrow> shape_error + shape" where
  "shape_for_log_bits bits =
     (if \<not> (MIN_LOG_BITS \<le> bits \<and> bits \<le> MAX_LOG_BITS) then Inl CommitmentSizeOutOfRange
      else let rows = (3 * bits + 4) div 5 in shape_new rows (bits - rows))"

definition log_bits :: "shape \<Rightarrow> nat" where
  "log_bits self = log_rows self + log_columns self"

definition log_packed_len :: "shape \<Rightarrow> nat" where
  "log_packed_len self = log_bits self - PACK_BITS"

definition shape_rows :: "shape \<Rightarrow> nat" where
  "shape_rows self = 2 ^ log_rows self"

definition shape_columns :: "shape \<Rightarrow> nat" where
  "shape_columns self = 2 ^ log_columns self"

section \<open>The bit table\<close>

definition WORD_BITS :: nat where "WORD_BITS = 128"

datatype table_error = BitCountMismatch

record bit_table =
  bt_shape :: shape
  bt_packed :: "u128 list"

definition bit_table_new :: "shape \<Rightarrow> u128 list \<Rightarrow> table_error + bit_table" where
  "bit_table_new sh packed =
     (if length packed \<noteq> 2 ^ log_bits sh div WORD_BITS then Inl BitCountMismatch
      else Inr \<lparr>bt_shape = sh, bt_packed = packed\<rparr>)"

text \<open>Reading past the words panics: \<open>None\<close>.\<close>

definition bit_table_bit :: "bit_table \<Rightarrow> nat \<Rightarrow> nat \<Rightarrow> bool option" where
  "bit_table_bit self column row =
     (let index = push_bit (log_rows (bt_shape self)) column OR row
      in if index div WORD_BITS < length (bt_packed self)
         then Some (drop_bit (index mod WORD_BITS) (bt_packed self ! (index div WORD_BITS)) AND 1 = 1)
         else None)"

definition bit_table_column :: "bit_table \<Rightarrow> nat \<Rightarrow> u128 list option" where
  "bit_table_column self column =
     (let elements = shape_rows (bt_shape self) div WORD_BITS
      in if (column + 1) * elements \<le> length (bt_packed self)
         then Some (take elements (drop (column * elements) (bt_packed self))) else None)"

section \<open>Facts about shapes\<close>

definition shape_ok :: "shape \<Rightarrow> bool" where
  "shape_ok sh \<longleftrightarrow> 7 \<le> log_rows sh \<and> 20 \<le> log_bits sh \<and> log_bits sh \<le> 35"

lemma shape_new_iff: "shape_new r c = Inr sh \<longleftrightarrow> sh = \<lparr>log_rows = r, log_columns = c\<rparr> \<and> shape_ok sh"
  by (auto simp: shape_new_def shape_ok_def log_bits_def PACK_BITS_def MAX_LOG_BITS_def MIN_LOG_BITS_def)

lemma shape_ok_bounds:
  assumes "shape_ok sh"
  shows "7 \<le> log_rows sh" "log_rows sh \<le> 35" "log_columns sh \<le> 28" "128 dvd shape_rows sh"
    "2 ^ log_bits sh = shape_rows sh * shape_columns sh"
proof -
  from assms show "7 \<le> log_rows sh" "log_rows sh \<le> 35" "log_columns sh \<le> 28"
    by (auto simp: shape_ok_def log_bits_def)
  then have "(2 :: nat) ^ 7 dvd 2 ^ log_rows sh" by (intro le_imp_power_dvd)
  then show "128 dvd shape_rows sh" by (simp add: shape_rows_def)
  show "2 ^ log_bits sh = shape_rows sh * shape_columns sh"
    by (simp add: log_bits_def shape_rows_def shape_columns_def power_add)
qed

text \<open>The words of a well-shaped table.\<close>

definition table_ok :: "bit_table \<Rightarrow> bool" where
  "table_ok t \<longleftrightarrow> shape_ok (bt_shape t) \<and> length (bt_packed t) = 2 ^ log_bits (bt_shape t) div 128"

lemma bit_table_new_ok:
  "shape_ok sh \<Longrightarrow> bit_table_new sh packed = Inr t \<Longrightarrow> table_ok t \<and> bt_shape t = sh \<and> bt_packed t = packed"
  by (auto simp: bit_table_new_def table_ok_def WORD_BITS_def split: if_splits)

definition packed_bit :: "u128 list \<Rightarrow> nat \<Rightarrow> bool" where
  "packed_bit ws i = bit (ws ! (i div 128)) (i mod 128)"

lemma push_or_add: "row < 2 ^ n \<Longrightarrow> push_bit n column OR row = column * 2 ^ n + (row :: nat)"
proof -
  assume "row < 2 ^ n"
  then have "take_bit n row = row" by (simp add: take_bit_nat_eq_self_iff)
  then have "push_bit n column AND row = 0"
    by (intro bit_eqI) (metis bit_and_iff bit_push_bit_iff bit_take_bit_iff bot_nat_0.extremum_strict
        bit_0_eq bot_apply bot_bool_def linorder_not_less)
  then show ?thesis by (simp add: disjunctive_add_eq_or [symmetric] push_bit_eq_mult)
qed

lemma bit_table_bit_packed:
  assumes "table_ok t" "column < shape_columns (bt_shape t)" "row < shape_rows (bt_shape t)"
  shows "bit_table_bit t column row = Some (packed_bit (bt_packed t) (column * shape_rows (bt_shape t) + row))"
proof -
  let ?sh = "bt_shape t"
  have "column * shape_rows ?sh + row < 2 ^ log_bits ?sh"
  proof -
    have "column * shape_rows ?sh + row < Suc column * shape_rows ?sh" using assms(3) by simp
    also have "\<dots> \<le> shape_columns ?sh * shape_rows ?sh" using assms(2) by (intro mult_le_mono1) simp
    finally show ?thesis using shape_ok_bounds(5) [of ?sh] assms(1) by (simp add: table_ok_def mult.commute)
  qed
  moreover have "128 dvd (2 :: nat) ^ log_bits ?sh"
    using assms(1) le_imp_power_dvd [of 7 "log_bits ?sh" "2 :: nat"] by (simp add: table_ok_def shape_ok_def)
  ultimately have "(column * shape_rows ?sh + row) div 128 < length (bt_packed t)"
    using assms(1) by (auto simp: table_ok_def less_mult_imp_div_less mult.commute)
  moreover have "push_bit (log_rows ?sh) column OR row = column * shape_rows ?sh + row"
    using assms(3) by (simp add: shape_rows_def push_or_add)
  ultimately show ?thesis
    by (simp add: bit_table_bit_def WORD_BITS_def packed_bit_def drop_bit_and_1 Let_def)
qed

lemma bit_table_column_words:
  assumes "table_ok t" "column < shape_columns (bt_shape t)"
  obtains ws where "bit_table_column t column = Some ws" "length ws = shape_rows (bt_shape t) div 128"
    "\<And>row. row < shape_rows (bt_shape t) \<Longrightarrow>
       packed_bit ws row = packed_bit (bt_packed t) (column * shape_rows (bt_shape t) + row)"
proof
  let ?sh = "bt_shape t" let ?e = "shape_rows (bt_shape t) div 128"
  have sh: "shape_ok ?sh" using assms(1) by (simp add: table_ok_def)
  have e: "shape_rows ?sh = 128 * ?e" using shape_ok_bounds(4) [OF sh] by simp
  have len: "length (bt_packed t) = ?e * shape_columns ?sh"
    using assms(1) shape_ok_bounds(5) [OF sh] e
    by (simp add: table_ok_def) (metis div_mult_self1_is_m mult.assoc zero_less_numeral)
  have le: "(column + 1) * ?e \<le> length (bt_packed t)"
    using assms(2) mult_le_mono1 [of "column + 1" "shape_columns ?sh" ?e] by (simp add: len mult.commute)
  then show "bit_table_column t column = Some (take ?e (drop (column * ?e) (bt_packed t)))"
    by (simp add: bit_table_column_def WORD_BITS_def Let_def)
  show "length (take ?e (drop (column * ?e) (bt_packed t))) = ?e" using le by simp
  fix row assume row: "row < shape_rows ?sh"
  then have "row div 128 < ?e" using e by (simp add: less_mult_imp_div_less mult.commute)
  moreover have "(column * (128 * k) + row) div 128 = column * k + row div 128"
    "(column * (128 * k) + row) mod 128 = row mod 128" for k
    by (simp_all add: mult.left_commute [of column 128])
  from this [of ?e] have "(column * shape_rows ?sh + row) div 128 = column * ?e + row div 128"
    "(column * shape_rows ?sh + row) mod 128 = row mod 128"
    by (simp_all only: e [symmetric])
  ultimately show "packed_bit (take ?e (drop (column * ?e) (bt_packed t))) row
      = packed_bit (bt_packed t) (column * shape_rows ?sh + row)"
    using le by (simp add: packed_bit_def)
qed

section \<open>Properties\<close>

text \<open>\<open>grinding_bits\<close> is exactly what a challenge block with error \<open>coefficient / 2^128\<close> lacks:
  with that many bits of grinding the error is at most \<open>2 ^ (- target)\<close>, and with one bit fewer it
  is not.\<close>

theorem grinding_bits_exact:
  "unat coefficient * 2 ^ security_bits self \<le> 2 ^ (128 + grinding_bits self coefficient)
   \<and> (\<forall>g < grinding_bits self coefficient. 2 ^ (128 + g) < unat coefficient * 2 ^ security_bits self)"
proof (cases "coefficient = 0")
  case False
  define l where "l = bitlen (unat coefficient - 1)"
  have c: "1 \<le> unat coefficient" using False by (simp add: Suc_le_eq unat_gt_0)
  have "unat (coefficient - 1) = unat coefficient - 1"
    using c by (simp add: unat_minus_le word_le_nat_alt)
  then have g: "grinding_bits self coefficient = security_bits self + l - 128"
    using False width_minus_leading_zeros [of "coefficient - 1"] by (simp add: grinding_bits_def l_def)
  have "unat coefficient \<le> 2 ^ l" using bitlen_less [of "unat coefficient - 1"] c by (simp add: l_def)
  then have up: "unat coefficient * 2 ^ security_bits self \<le> 2 ^ (l + security_bits self)"
    by (simp add: power_add)
  also have "\<dots> \<le> 2 ^ (128 + grinding_bits self coefficient)"
    by (intro power_increasing) (simp_all add: g)
  finally have upper: "unat coefficient * 2 ^ security_bits self \<le> 2 ^ (128 + grinding_bits self coefficient)" .
  have lower: "2 ^ (128 + k) < unat coefficient * 2 ^ security_bits self"
    if "k < grinding_bits self coefficient" for k
  proof -
    have "security_bits self \<le> 128" by (simp add: security_bits_def split: security_level.split)
    with that g have l: "0 < l" "128 + k \<le> (l - 1) + security_bits self" by auto
    then have "unat coefficient - 1 \<noteq> 0" by (auto simp: l_def)
    then have "2 ^ (l - 1) < unat coefficient"
      using bitlen_bounds [of "unat coefficient - 1"] by (simp add: l_def) linarith
    then have "2 ^ (l - 1) * 2 ^ security_bits self < unat coefficient * 2 ^ security_bits self" by simp
    moreover have "(2 :: nat) ^ (128 + k) \<le> 2 ^ ((l - 1) + security_bits self)"
      using l(2) by (intro power_increasing) auto
    ultimately show ?thesis unfolding power_add by (rule le_less_trans [rotated])
  qed
  with upper show ?thesis by blast
qed (simp add: grinding_bits_def)

theorem grinding_bits_exact_witness:
  "2 ^ (128 + 3) < unat (15 :: u64) * 2 ^ security_bits Bits128"
proof -
  have "grinding_bits Bits128 15 = 4"
    by (simp add: grinding_bits_def leading_zeros_def security_bits_def bitlen_pos)
  then show ?thesis using grinding_bits_exact [of 15 Bits128, THEN conjunct2, rule_format, of 3] by simp
qed

end
