(* ===== verification/Common_Matrix.thy ===== *)
theory Common_Matrix
  imports Common_Shape
begin

text \<open>
  Bit matrices in memory order and their transpose: \<open>crates/common/src/matrix.rs\<close>.

  The block of 128 words and the output buffer are lists updated in place; the loops are folds
  over their index ranges, the block loop with its own successor computation on \<open>k\<close>.
\<close>

record bit_matrix =
  bm_packed :: "u128 list"
  bm_log_dim2 :: nat

definition bit_matrix_new :: "u128 list \<Rightarrow> nat \<Rightarrow> bit_matrix option" where
  "bit_matrix_new packed log_dim2 =
     (let bits = length packed * WORD_BITS
      in if \<not> (bits \<noteq> 0 \<and> bits = 2 ^ (bitlen bits - 1) \<and> log_dim2 \<le> bitlen bits - 1) then None
         else Some \<lparr>bm_packed = packed, bm_log_dim2 = log_dim2\<rparr>)"

definition bm_dim1 :: "bit_matrix \<Rightarrow> nat" where
  "bm_dim1 self = drop_bit (bm_log_dim2 self) (length (bm_packed self) * WORD_BITS)"

definition bm_dim2 :: "bit_matrix \<Rightarrow> nat" where
  "bm_dim2 self = 2 ^ bm_log_dim2 self"

definition bm_reshape :: "bit_matrix \<Rightarrow> nat \<Rightarrow> bit_matrix option" where
  "bm_reshape self log_dim2 = bit_matrix_new (bm_packed self) log_dim2"

text \<open>\<open>BitTable::as_matrix\<close> of \<open>table.rs\<close>.\<close>

definition as_matrix :: "bit_table \<Rightarrow> bit_matrix option" where
  "as_matrix self = bit_matrix_new (bt_packed self) (log_rows (bt_shape self))"

section \<open>The block transpose\<close>

definition transpose_block_step :: "nat \<Rightarrow> u128 \<Rightarrow> nat \<Rightarrow> u128 list \<Rightarrow> u128 list" where
  "transpose_block_step j msk k a =
     (let t = (drop_bit j (a ! k) XOR a ! (k OR j)) AND msk;
          a = a[k OR j := a ! (k OR j) XOR t]
      in a[k := a ! k XOR push_bit j t])"

text \<open>\<open>k = ((k | j) + 1) & !j\<close>; clearing the bits of \<open>j\<close> is the exclusive or with the common ones.
  The successor is always larger for the powers of two that occur; a loop that stood still would
  not terminate and is cut off here.\<close>

definition next_k :: "nat \<Rightarrow> nat \<Rightarrow> nat" where
  "next_k j k = (let n = (k OR j) + 1 in n XOR (n AND j))"

function transpose_block_inner :: "nat \<Rightarrow> u128 \<Rightarrow> nat \<Rightarrow> u128 list \<Rightarrow> u128 list" where
  "transpose_block_inner j msk k a =
     (if k < WORD_BITS then
        (if k < next_k j k
         then transpose_block_inner j msk (next_k j k) (transpose_block_step j msk k a)
         else transpose_block_step j msk k a)
      else a)"
  by pat_completeness auto
termination by (relation "measure (\<lambda>(j, msk, k, a). WORD_BITS - k)") auto

declare transpose_block_inner.simps [simp del]

function transpose_block_outer :: "nat \<Rightarrow> u128 \<Rightarrow> u128 list \<Rightarrow> u128 list" where
  "transpose_block_outer j msk a =
     (if 0 < j then
        let a = transpose_block_inner j msk 0 a;
            j = drop_bit 1 j;
            msk = msk XOR push_bit j msk
        in transpose_block_outer j msk a
      else a)"
  by pat_completeness auto
termination by (relation "measure (\<lambda>(j, msk, a). j)") (auto simp: drop_bit_Suc)

declare transpose_block_outer.simps [simp del]

definition transpose_bit_block :: "u128 list \<Rightarrow> u128 list" where
  "transpose_bit_block a =
     (let j = WORD_BITS div 2 in transpose_block_outer j (push_bit j 1 - 1) a)"

section \<open>The blocked transpose\<close>

definition gather_block :: "u128 list \<Rightarrow> nat \<Rightarrow> nat \<Rightarrow> nat \<Rightarrow> u128 list" where
  "gather_block xs dim2_words g1 g2 =
     map (\<lambda>a. xs ! ((g1 * WORD_BITS + a) * dim2_words + g2)) [0..<WORD_BITS]"

definition bit_transpose :: "u128 list \<Rightarrow> nat \<Rightarrow> nat \<Rightarrow> u128 list option" where
  "bit_transpose xs dim1 dim2 =
     (if length xs * WORD_BITS \<noteq> dim1 * dim2 then None
      else if \<not> (WORD_BITS dvd dim1 \<and> WORD_BITS dvd dim2) then None
      else
        let dim1_words = dim1 div WORD_BITS;
            dim2_words = dim2 div WORD_BITS
        in Some (fold (\<lambda>g2. fold (\<lambda>g1 out.
             let block = transpose_bit_block (gather_block xs dim2_words g1 g2)
             in fold (\<lambda>p out. out[(g2 * WORD_BITS + p) * dim1_words + g1 := block ! p])
                  [0..<WORD_BITS] out)
             [0..<dim1_words]) [0..<dim2_words] (replicate (length xs) 0)))"

definition bm_transpose :: "bit_matrix \<Rightarrow> bit_matrix option" where
  "bm_transpose self =
     (let dim1 = bm_dim1 self; dim2 = bm_dim2 self;
          log_dim1 = trailing_zeros_nat dim1
      in case bit_transpose (bm_packed self) dim1 dim2 of
           None \<Rightarrow> None
         | Some out \<Rightarrow> bit_matrix_new out log_dim1)"

section \<open>Iterating over bits\<close>

record step_iter =
  si_elements :: "u128 list"
  si_word :: u128
  si_remaining :: nat

definition step_iter_new :: "u128 list \<Rightarrow> step_iter" where
  "step_iter_new elements = \<lparr>si_elements = elements, si_word = 0, si_remaining = 0\<rparr>"

text \<open>\<open>step\<close> is the const generic \<open>S\<close>, which divides 128 and is not zero; an unbounded shift by the
  width clears the word.\<close>

definition step_mask :: "nat \<Rightarrow> u128" where
  "step_mask step = (if step < 128 then push_bit step 1 else 0) - 1"

definition step_iter_next :: "nat \<Rightarrow> step_iter \<Rightarrow> (u128 \<times> step_iter) option" where
  "step_iter_next step self =
     (case (if si_remaining self = 0 then
              (case si_elements self of
                 [] \<Rightarrow> None
               | element # rest \<Rightarrow> Some \<lparr>si_elements = rest, si_word = element, si_remaining = WORD_BITS\<rparr>)
            else Some self) of
        None \<Rightarrow> None
      | Some s \<Rightarrow>
          Some (si_word s AND step_mask step,
            s\<lparr>si_word := (if step < 128 then drop_bit step (si_word s) else 0),
              si_remaining := si_remaining s - step\<rparr>))"

definition step_iter_len :: "nat \<Rightarrow> step_iter \<Rightarrow> nat" where
  "step_iter_len step self = (si_remaining self + length (si_elements self) * WORD_BITS) div step"

definition bm_bits :: "bit_matrix \<Rightarrow> nat \<Rightarrow> step_iter option" where
  "bm_bits self i1 =
     (if \<not> WORD_BITS \<le> bm_dim2 self then None
      else let words = bm_dim2 self div WORD_BITS
           in if (i1 + 1) * words \<le> length (bm_packed self)
              then Some (step_iter_new (take words (drop (i1 * words) (bm_packed self)))) else None)"

section \<open>One level of the block transpose\<close>

text \<open>The rows that the inner loop visits at one level: those whose bit \<open>l\<close> is clear.\<close>

function visited :: "nat \<Rightarrow> nat \<Rightarrow> nat list" where
  "visited j k =
     (if k < WORD_BITS then k # (if k < next_k j k then visited j (next_k j k) else []) else [])"
  by pat_completeness auto
termination by (relation "measure (\<lambda>(j, k). WORD_BITS - k)") auto

declare visited.simps [simp del]

lemma inner_fold: "transpose_block_inner j msk k a = fold (transpose_block_step j msk) (visited j k) a"
proof (induction j msk k a rule: transpose_block_inner.induct)
  case (1 j msk k a)
  then show ?case
    by (simp add: transpose_block_inner.simps [of j msk k a] visited.simps [of j k])
qed


lemma bit_add_power: "bit (e + 2 ^ l) l \<longleftrightarrow> \<not> bit e l" for e :: nat
proof -
  have "(e + 2 ^ l) div 2 ^ l = e div 2 ^ l + 1" by (rule div_add_self2) simp
  then show ?thesis by (simp add: bit_iff_odd)
qed

lemma set_bit_add: "\<not> bit k l \<Longrightarrow> set_bit l k = k + 2 ^ l" for k :: nat
  by (simp add: set_bit_eq)

lemma unset_bit_sub: "bit k l \<Longrightarrow> unset_bit l k = k - 2 ^ l" for k :: nat
proof -
  assume b: "bit k l"
  have "set_bit l (unset_bit l k) = k"
    using b by (intro bit_eqI) (auto simp: bit_set_bit_iff bit_unset_bit_iff)
  moreover have "set_bit l (unset_bit l k) = unset_bit l k + 2 ^ l"
    by (intro set_bit_add) (simp add: bit_unset_bit_iff)
  ultimately show ?thesis by simp
qed

lemma unset_bit_same: "\<not> bit k l \<Longrightarrow> unset_bit l k = k" for k :: nat
  by (intro bit_eqI) (auto simp: bit_unset_bit_iff)

lemma bit_ge: "bit k l \<Longrightarrow> 2 ^ l \<le> k" for k :: nat
  by (metis bit_iff_odd div_less even_zero not_le)

lemma bit_sub_power: "2 ^ l \<le> c \<Longrightarrow> bit (c - 2 ^ l) l \<longleftrightarrow> \<not> bit c l" for c :: nat
  using bit_add_power [of "c - 2 ^ l" l] by simp

lemma nat_bit_bound: "(c :: nat) < 2 ^ n \<Longrightarrow> bit c i \<Longrightarrow> i < n"
  by (metis bit_take_bit_iff take_bit_nat_eq_self)

lemma nat_less_power_by_bits: "(\<And>i. bit c i \<Longrightarrow> i < n) \<Longrightarrow> (c :: nat) < 2 ^ n"
proof -
  assume "\<And>i. bit c i \<Longrightarrow> i < n"
  then have "take_bit n c = c" by (intro bit_eqI) (auto simp: bit_take_bit_iff)
  then show ?thesis by (simp add: take_bit_nat_eq_self_iff)
qed

lemma set_bit_less: "c < 2 ^ n \<Longrightarrow> l < n \<Longrightarrow> set_bit l c < 2 ^ n" for c :: nat
  by (rule nat_less_power_by_bits) (auto simp: bit_set_bit_iff dest: nat_bit_bound)

lemma unset_bit_less: "c < 2 ^ n \<Longrightarrow> unset_bit l c < 2 ^ n" for c :: nat
  by (rule nat_less_power_by_bits) (auto simp: bit_unset_bit_iff dest: nat_bit_bound)

lemma next_k_clear:
  assumes "\<not> bit k l"
  shows "next_k (2 ^ l) k = unset_bit l (k + 2 ^ l + 1)"
proof -
  have or: "k OR 2 ^ l = k + 2 ^ l"
    using assms set_bit_add [OF assms] by (simp add: set_bit_eq_or push_bit_eq_mult mult.commute)
  show ?thesis
    unfolding next_k_def Let_def or
    by (rule bit_eqI) (auto simp: bit_xor_iff bit_and_iff bit_unset_bit_iff bit_exp_iff)
qed

lemma next_k_props:
  assumes "\<not> bit k l"
  shows "k < next_k (2 ^ l) k" "\<not> bit (next_k (2 ^ l) k) l"
    "\<And>x. k < x \<Longrightarrow> x < next_k (2 ^ l) k \<Longrightarrow> bit x l"
proof -
  let ?n = "k + 2 ^ l + 1"
  show "\<not> bit (next_k (2 ^ l) k) l"
    by (simp add: next_k_clear [OF assms] bit_unset_bit_iff)
  show "k < next_k (2 ^ l) k"
    by (cases "bit ?n l") (simp_all add: next_k_clear [OF assms] unset_bit_sub unset_bit_same)
  fix x assume x: "k < x" "x < next_k (2 ^ l) k"
  have b: "\<not> bit ?n l"
    using x by (auto simp: next_k_clear [OF assms] unset_bit_sub)
  with x have xn: "x < ?n" by (simp add: next_k_clear [OF assms] unset_bit_same)
  have "even (k div 2 ^ l)" using assms by (simp add: bit_iff_odd)
  have "bit (k + 1) l"
    using b bit_add_power [of "k + 1" l] by (simp add: ac_simps)
  then have o: "odd ((k + 1) div 2 ^ l)" by (simp add: bit_iff_odd)
  have nd: "(k + 1) div 2 ^ l = k div 2 ^ l + 1"
  proof -
    have "(k + 1) div 2 ^ l \<noteq> k div 2 ^ l" using o assms by (auto simp: bit_iff_odd)
    then show ?thesis by (metis Suc_eq_plus1 div_Suc)
  qed
  have "k < (k div 2 ^ l + 1) * 2 ^ l"
    using dividend_less_div_times [of "2 ^ l" k] by (simp add: algebra_simps)
  then have "k + 2 ^ l < (k div 2 ^ l + 2) * 2 ^ l" by (simp add: algebra_simps)
  have le: "x div 2 ^ l \<ge> k div 2 ^ l + 1"
    using x nd div_le_mono [of "k + 1" x "2 ^ l"] by simp
  have "x div 2 ^ l < k div 2 ^ l + 2"
    using xn \<open>k + 2 ^ l < (k div 2 ^ l + 2) * 2 ^ l\<close> by (intro less_mult_imp_div_less) simp
  with le have "x div 2 ^ l = k div 2 ^ l + 1" by simp
  then show "bit x l" using \<open>even (k div 2 ^ l)\<close> by (simp add: bit_iff_odd)
qed

lemma visited_set:
  "\<not> bit k l \<Longrightarrow>
    set (visited (2 ^ l) k) = {x. k \<le> x \<and> x < 128 \<and> \<not> bit x l} \<and> distinct (visited (2 ^ l) k)"
proof (induction "128 - k" arbitrary: k rule: less_induct)
  case less
  note n = next_k_props [OF less.prems]
  show ?case
  proof (cases "k < 128")
    case True
    have ih: "set (visited (2 ^ l) (next_k (2 ^ l) k)) = {x. next_k (2 ^ l) k \<le> x \<and> x < 128 \<and> \<not> bit x l}"
      "distinct (visited (2 ^ l) (next_k (2 ^ l) k))"
      using less.hyps [OF _ n(2)] True n(1) by auto
    have v: "visited (2 ^ l) k = k # visited (2 ^ l) (next_k (2 ^ l) k)"
      using True n(1) by (subst visited.simps) (simp add: WORD_BITS_def)
    have "{x. k \<le> x \<and> x < 128 \<and> \<not> bit x l}
        = insert k {x. next_k (2 ^ l) k \<le> x \<and> x < 128 \<and> \<not> bit x l}"
      using True less.prems n by (auto simp: le_less intro: leI) (metis leI le_less)+
    then show ?thesis using n(1) by (simp add: v ih)
  next
    case False
    then show ?thesis by (subst (1 2) visited.simps) (auto simp: WORD_BITS_def)
  qed
qed


text \<open>\<open>setb l b\<close> forces bit \<open>l\<close> of an index.\<close>

definition setb :: "nat \<Rightarrow> bool \<Rightarrow> nat \<Rightarrow> nat" where
  "setb l b k = (if b then set_bit l k else unset_bit l k)"

lemma bit_setb: "bit (setb l b k) i = (if i = l then b else bit k i)"
  by (auto simp: setb_def bit_set_bit_iff bit_unset_bit_iff)

lemma setb_less: "k < 2 ^ n \<Longrightarrow> l < n \<Longrightarrow> setb l b k < 2 ^ n"
  by (simp add: setb_def set_bit_less unset_bit_less)

lemma setb_same: "bit k l = b \<Longrightarrow> setb l b k = k"
  by (rule bit_eqI) (auto simp: bit_setb)

lemma setb_setb: "setb l b (setb l c k) = setb l b k"
  by (rule bit_eqI) (auto simp: bit_setb)

lemma setb_eq_iff: "setb l b k = k' \<longleftrightarrow> bit k' l = b \<and> (k = setb l (bit k l) k')"
  by (metis bit_setb setb_same setb_setb)

definition level_mask :: "nat \<Rightarrow> u128 \<Rightarrow> bool" where
  "level_mask l msk \<longleftrightarrow> (\<forall>c < 128. bit msk c = (\<not> bit c l))"

lemma or_power: "\<not> bit k l \<Longrightarrow> k OR 2 ^ l = setb l True k" for k :: nat
  by (simp add: setb_def set_bit_eq_or push_bit_eq_mult mult.commute)

lemma block_step_bits:
  assumes k: "\<not> bit k l" "k < 128" and l: "l < 7" and msk: "level_mask l msk"
    and a: "length a = 128" and rc: "r < 128" "c < 128"
  shows "bit (transpose_block_step (2 ^ l) msk k a ! r) c =
    (if setb l False r = k then bit (a ! setb l (bit c l) r) (setb l (bit r l) c)
     else bit (a ! r) c)"
proof -
  let ?kj = "setb l True k"
  have kj: "?kj < 128" using setb_less [of k 7 l True] k l by simp
  have ne: "?kj \<noteq> k" using k by (metis bit_setb)
  have up: "c + 2 ^ l = setb l True c" "setb l True c < 128" if "\<not> bit c l"
    using set_bit_add [OF that] setb_less [of c 7 l True] rc l by (simp_all add: setb_def)
  have down: "c - 2 ^ l = setb l False c" "2 ^ l \<le> c" if "bit c l"
    using unset_bit_sub [OF that] bit_ge [OF that] by (simp_all add: setb_def)
  have dn: "bit msk (c - 2 ^ l) = bit c l" if "2 ^ l \<le> c"
    using msk rc bit_sub_power [OF that] by (simp add: level_mask_def)
  have mc: "bit msk c = (\<not> bit c l)" using msk rc by (simp add: level_mask_def)
  have hi: "bit (transpose_block_step (2 ^ l) msk k a ! ?kj) c
      = (if bit c l then bit (a ! ?kj) c else bit (a ! k) (setb l True c))"
    using kj ne a mc up k
    by (auto simp: transpose_block_step_def or_power Let_def bit_xor_iff bit_and_iff bit_drop_bit_eq
        add.commute)
  have lo: "bit (transpose_block_step (2 ^ l) msk k a ! k) c
      = (if bit c l then bit (a ! ?kj) (setb l False c) else bit (a ! k) c)"
    using kj ne a k rc down dn
    by (auto simp: transpose_block_step_def or_power Let_def bit_xor_iff bit_and_iff bit_drop_bit_eq
        bit_push_bit_iff)
  have other: "transpose_block_step (2 ^ l) msk k a ! r = a ! r" if "r \<noteq> k" "r \<noteq> ?kj"
    using that k by (simp add: transpose_block_step_def or_power Let_def)
  show ?thesis
  proof (cases "setb l False r = k")
    case True
    then have r: "r = setb l (bit r l) k" by (metis setb_setb setb_same)
    show ?thesis
    proof (cases "bit r l")
      case True
      with r have "r = ?kj" by simp
      then show ?thesis using hi True \<open>setb l False r = k\<close>
        by (auto simp: setb_same setb_setb)
    next
      case False
      with r k have "r = k" by (simp add: setb_same)
      then show ?thesis using lo False \<open>setb l False r = k\<close>
        by (auto simp: setb_same setb_setb)
    qed
  next
    case False
    then have "r \<noteq> k" "r \<noteq> ?kj" using k by (auto simp: setb_same setb_setb)
    then show ?thesis using False other by simp
  qed
qed

lemma length_block_step [simp]: "length (transpose_block_step j msk k a) = length a"
  by (simp add: transpose_block_step_def Let_def)

lemma length_fold_block_step [simp]: "length (fold (transpose_block_step j msk) ks a) = length a"
  by (induction ks arbitrary: a) simp_all

lemma fold_block_step_bits:
  assumes "distinct ks" "\<And>k. k \<in> set ks \<Longrightarrow> \<not> bit k l \<and> k < 128" "l < 7" "level_mask l msk"
    "length a = 128" "r < 128" "c < 128"
  shows "bit (fold (transpose_block_step (2 ^ l) msk) ks a ! r) c =
    (if setb l False r \<in> set ks then bit (a ! setb l (bit c l) r) (setb l (bit r l) c)
     else bit (a ! r) c)"
  using assms
proof (induction ks arbitrary: a)
  case (Cons k ks)
  let ?a = "transpose_block_step (2 ^ l) msk k a"
  have idx: "setb l (bit c l) r < 128" "setb l (bit r l) c < 128"
    using Cons.prems setb_less [of _ 7 l] by simp_all
  have step: "bit (?a ! r') c' =
      (if setb l False r' = k then bit (a ! setb l (bit c' l) r') (setb l (bit r' l) c')
       else bit (a ! r') c')" if "r' < 128" "c' < 128" for r' c'
    by (rule block_step_bits) (use Cons.prems that in auto)
  have ih: "bit (fold (transpose_block_step (2 ^ l) msk) ks ?a ! r) c =
      (if setb l False r \<in> set ks then bit (?a ! setb l (bit c l) r) (setb l (bit r l) c)
       else bit (?a ! r) c)"
    using Cons.prems by (intro Cons.IH) auto
  show ?case
    using Cons.prems(1) by (auto simp: ih step idx setb_setb Cons.prems(6,7))
qed simp

lemma inner_bits:
  assumes "l < 7" "level_mask l msk" "length a = 128" "r < 128" "c < 128"
  shows "bit (transpose_block_inner (2 ^ l) msk 0 a ! r) c
    = bit (a ! setb l (bit c l) r) (setb l (bit r l) c)"
proof -
  have v: "set (visited (2 ^ l) 0) = {x. x < 128 \<and> \<not> bit x l}" "distinct (visited (2 ^ l) 0)"
    using visited_set [of 0 l] by auto
  have "setb l False r \<in> set (visited (2 ^ l) 0)"
    using assms setb_less [of r 7 l] by (simp add: v bit_setb)
  moreover have "\<And>k. k \<in> set (visited (2 ^ l) 0) \<Longrightarrow> \<not> bit k l \<and> k < 128" by (simp add: v)
  ultimately show ?thesis
    using fold_block_step_bits [OF v(2) _ assms] by (simp add: inner_fold)
qed

section \<open>The block transpose is a transpose\<close>

lemma level_mask_next:
  assumes "level_mask (Suc l) msk" "Suc l < 7"
  shows "level_mask l (msk XOR push_bit (2 ^ l) msk)"
  unfolding level_mask_def
proof (intro allI impI)
  fix c :: nat assume c: "c < 128"
  have m: "bit msk x = (\<not> bit x (Suc l))" if "x < 128" for x
    using assms that by (simp add: level_mask_def)
  have eq: "bit (msk XOR push_bit (2 ^ l) msk) c
      = ((\<not> bit c (Suc l)) \<noteq> (2 ^ l \<le> c \<and> \<not> bit (c - 2 ^ l) (Suc l)))"
    using c by (auto simp: bit_xor_iff bit_push_bit_iff m)
  show "bit (msk XOR push_bit (2 ^ l) msk) c = (\<not> bit c l)"
  proof (cases "bit c l")
    case True
    then have "c - 2 ^ l = setb l False c" using unset_bit_sub [OF True] by (simp add: setb_def)
    then show ?thesis using True bit_ge [OF True] by (simp add: eq bit_setb)
  next
    case False
    show ?thesis
    proof (cases "2 ^ l \<le> c")
      case True
      let ?d = "c - 2 ^ l"
      have d: "bit ?d l" using False True by (simp add: bit_sub_power)
      let ?e = "setb l False ?d"
      have "?e = ?d - 2 ^ l" using unset_bit_sub [OF d] by (simp add: setb_def)
      then have "c = ?e + 2 ^ Suc l" using True bit_ge [OF d] by simp
      then have "bit c (Suc l) \<longleftrightarrow> \<not> bit ?d (Suc l)"
        by (metis bit_add_power bit_setb n_not_Suc_n)
      then show ?thesis using True False by (auto simp: eq)
    next
      case nle: False
      then have "c < 2 ^ l" by simp
      then have "\<not> bit c (Suc l)" by (metis nat_bit_bound not_less_eq less_irrefl_nat less_trans lessI)
      then show ?thesis using nle False by (simp add: eq)
    qed
  qed
qed

text \<open>After the levels above \<open>l\<close> the high bits of the row and column index are exchanged.\<close>

definition mix :: "nat \<Rightarrow> nat \<Rightarrow> nat \<Rightarrow> nat" where
  "mix l r c = (take_bit l r OR push_bit l (drop_bit l c))"

lemma bit_mix: "bit (mix l r c) i = (if i < l then bit r i else bit c i)"
  by (auto simp: mix_def bit_or_iff bit_take_bit_iff bit_push_bit_iff bit_drop_bit_eq)

lemma mix_less: "r < 2 ^ n \<Longrightarrow> c < 2 ^ n \<Longrightarrow> mix l r c < 2 ^ n"
  by (rule nat_less_power_by_bits) (auto simp: bit_mix split: if_splits dest: nat_bit_bound)

lemma mix_step: "mix (Suc l) (setb l (bit c l) r) (setb l b c) = mix l r c"
  by (rule bit_eqI) (auto simp: bit_mix bit_setb less_Suc_eq)

lemma length_inner [simp]: "length (transpose_block_inner j msk k a) = length a"
  by (simp add: inner_fold)

lemma outer_bits:
  assumes "l < 7" "level_mask l msk" "length a = 128"
    and "\<And>r c. r < 128 \<Longrightarrow> c < 128 \<Longrightarrow>
      bit (a ! r) c = bit (a0 ! mix (Suc l) r c) (mix (Suc l) c r)"
    and "r < 128" "c < 128"
  shows "bit (transpose_block_outer (2 ^ l) msk a ! r) c = bit (a0 ! c) r"
  using assms
proof (induction l arbitrary: msk a)
  case (0 msk a)
  have "bit (transpose_block_inner 1 msk 0 a ! r) c = bit (a0 ! mix 0 r c) (mix 0 c r)"
    using 0 inner_bits [of 0 msk a r c] setb_less [of r 7 0] setb_less [of c 7 0]
    by (simp add: mix_step)
  then show ?case
    by (simp add: transpose_block_outer.simps [of "Suc 0"] transpose_block_outer.simps [of 0]
        drop_bit_Suc Let_def mix_def)
next
  case (Suc l msk a)
  let ?a = "transpose_block_inner (2 ^ Suc l) msk 0 a"
  let ?m = "msk XOR push_bit (2 ^ l) msk"
  have "bit (transpose_block_outer (2 ^ l) ?m ?a ! r) c = bit (a0 ! c) r"
  proof (rule Suc.IH)
    show "level_mask l ?m" using Suc.prems by (intro level_mask_next)
    show "bit (?a ! r') c' = bit (a0 ! mix (Suc l) r' c') (mix (Suc l) c' r')"
      if "r' < 128" "c' < 128" for r' c'
      using Suc.prems(1-4) that setb_less [of _ 7 "Suc l"]
      by (simp add: inner_bits mix_step del: power_Suc)
  qed (use Suc.prems in auto)
  moreover have "drop_bit 1 (2 ^ Suc l :: nat) = 2 ^ l" by (simp add: drop_bit_Suc)
  ultimately show ?case
    by (subst transpose_block_outer.simps) (simp add: Let_def del: power_Suc)
qed

lemma transpose_bit_block_bits:
  assumes "length a = 128" "r < 128" "c < 128"
  shows "bit (transpose_bit_block a ! r) c = bit (a ! c) r"
proof -
  have mask: "level_mask 6 (push_bit 64 1 - 1)"
  proof -
    have "bit (mask 64 :: u128) c = (\<not> bit c 6)" if "c < 128" for c :: nat
    proof -
      have "bit c 6 \<longleftrightarrow> 64 \<le> c"
        using that div_nat_eqI [of 64 1 c] by (cases "64 \<le> c") (auto simp: bit_iff_odd)
      then show ?thesis using that by (auto simp: bit_mask_iff)
    qed
    then show ?thesis by (simp add: level_mask_def mask_eq_exp_minus_1 push_bit_eq_mult)
  qed
  have id: "mix 7 r c = r" if "r < 128" "c < 128" for r c
    using that nat_bit_bound [of r 7] nat_bit_bound [of c 7]
    by (intro bit_eqI) (auto simp: bit_mix)
  have "bit (transpose_block_outer (2 ^ 6) (push_bit 64 1 - 1) a ! r) c = bit (a ! c) r"
    by (rule outer_bits) (use assms mask id in auto)
  then show ?thesis by (simp add: transpose_bit_block_def WORD_BITS_def Let_def)
qed


section \<open>The blocked transpose of the whole matrix\<close>

text \<open>Row-major bit \<open>(i1, i2)\<close> of a matrix of \<open>w\<close> words per row.\<close>

definition mbit :: "u128 list \<Rightarrow> nat \<Rightarrow> nat \<Rightarrow> nat \<Rightarrow> bool" where
  "mbit xs w i1 i2 = bit (xs ! (i1 * w + i2 div 128)) (i2 mod 128)"

lemma length_fold_update [simp]: "length (fold (\<lambda>p out. out[f p := g p]) ps out) = length out"
  by (induction ps arbitrary: out) simp_all

lemma fold_inj_update:
  assumes "inj_on f (set ps)" "\<And>p. p \<in> set ps \<Longrightarrow> f p < length out" "p \<in> set ps"
  shows "fold (\<lambda>p out. out[f p := g p]) ps out ! f p = g p"
  using assms
proof (induction ps rule: rev_induct)
  case (snoc q ps)
  show ?case
  proof (cases "p = q")
    case True
    then show ?thesis using snoc.prems by simp
  next
    case False
    then have "f p \<noteq> f q" using snoc.prems(1,3) by (auto simp: inj_on_def)
    moreover have "fold (\<lambda>p out. out[f p := g p]) ps out ! f p = g p"
      using snoc.prems False by (intro snoc.IH) (auto simp: inj_on_def)
    ultimately show ?thesis by simp
  qed
qed simp

lemma fold_fold_product:
  "fold (\<lambda>x. fold (\<lambda>y. h (x, y)) ys) xs = fold h (List.product xs ys)"
proof (induction xs)
  case (Cons x xs)
  have "fold h (map (Pair x) ys) = fold (\<lambda>y. h (x, y)) ys" by (simp add: fold_map comp_def)
  with Cons show ?case by (simp add: fold_append)
qed simp


lemma bit_transpose_words:
  assumes len: "length xs = 128 * a * b"
  shows "\<exists>out. bit_transpose xs (128 * a) (128 * b) = Some out \<and> length out = length xs \<and>
    (\<forall>g2 < b. \<forall>g1 < a. \<forall>p < 128. out ! ((g2 * 128 + p) * a + g1)
      = transpose_bit_block (gather_block xs b g1 g2) ! p)"
proof -
  let ?f = "\<lambda>((g2, g1), p). (g2 * 128 + p) * a + g1"
  let ?g = "\<lambda>((g2, g1), p). transpose_bit_block (gather_block xs b g1 g2) ! p"
  let ?ps = "List.product (List.product [0..<b] [0..<a]) [0..<128]"
  let ?out = "fold (\<lambda>q out. out[?f q := ?g q]) ?ps (replicate (length xs) 0)"
  have eq: "bit_transpose xs (128 * a) (128 * b) = Some ?out"
    using len
    by (simp add: bit_transpose_def WORD_BITS_def Let_def fold_fold_product [symmetric]
        cong: fold_cong)
  have bound: "(g2 * 128 + p) * a + g1 < length xs" if "g2 < b" "g1 < a" "p < 128" for g2 g1 p
  proof -
    have "(g2 * 128 + p) * a + g1 < (g2 * 128 + p + 1) * a" using that by simp
    also have "\<dots> \<le> (b * 128) * a" using that by (intro mult_le_mono1) simp
    finally show ?thesis by (simp add: len ac_simps)
  qed
  have inj: "inj_on ?f (set ?ps)"
  proof (rule inj_onI, clarsimp)
    fix g2 g1 p g2' g1' p'
    assume h: "g1 < a" "g1' < a" "p < 128" "p' < (128 :: nat)"
      "(g2 * 128 + p) * a + g1 = (g2' * 128 + p') * a + g1'"
    have q: "g2 * 128 + p = g2' * 128 + p'" "g1 = g1'"
      using arg_cong [OF h(5), of "\<lambda>x. x div a"] arg_cong [OF h(5), of "\<lambda>x. x mod a"] h(1,2)
      by simp_all
    have "g2 = g2'" "p = p'"
      using arg_cong [OF q(1), of "\<lambda>x. x div 128"] arg_cong [OF q(1), of "\<lambda>x. x mod 128"] h(3,4)
      by simp_all
    then show "g2 = g2' \<and> g1 = g1' \<and> p = p'" using q by simp
  qed
  have "?out ! ?f ((g2, g1), p) = ?g ((g2, g1), p)" if "g2 < b" "g1 < a" "p < 128" for g2 g1 p
    by (rule fold_inj_update [OF inj]) (use that bound in auto)
  then show ?thesis using eq by simp
qed

lemma bit_transpose_bits:
  assumes len: "length xs = 128 * a * b"
  obtains out where "bit_transpose xs (128 * a) (128 * b) = Some out" "length out = length xs"
    "\<And>i1 i2. i1 < 128 * a \<Longrightarrow> i2 < 128 * b \<Longrightarrow> mbit out a i2 i1 = mbit xs b i1 i2"
proof -
  obtain out where out: "bit_transpose xs (128 * a) (128 * b) = Some out" "length out = length xs"
    and w: "\<And>g2 g1 p. g2 < b \<Longrightarrow> g1 < a \<Longrightarrow> p < 128 \<Longrightarrow> out ! ((g2 * 128 + p) * a + g1)
      = transpose_bit_block (gather_block xs b g1 g2) ! p"
    using bit_transpose_words [OF len] by blast
  have "mbit out a i2 i1 = mbit xs b i1 i2" if "i1 < 128 * a" "i2 < 128 * b" for i1 i2
  proof -
    have d: "i1 div 128 < a" "i2 div 128 < b" using that by (simp_all add: div_less_iff_less_mult mult.commute)
    have "out ! (i2 * a + i1 div 128) = transpose_bit_block (gather_block xs b (i1 div 128) (i2 div 128)) ! (i2 mod 128)"
      using w [OF d(2) d(1), of "i2 mod 128"] by simp
    then show ?thesis
      by (simp add: mbit_def transpose_bit_block_bits gather_block_def WORD_BITS_def)
  qed
  with out that show thesis by blast
qed

section \<open>Iterating over the bits of a row\<close>

text \<open>The items that a consumer receives from the iterator.\<close>

function step_iter_items :: "nat \<Rightarrow> step_iter \<Rightarrow> u128 list" where
  "step_iter_items step self =
     (if step = 0 then [] else
      case step_iter_next step self of None \<Rightarrow> [] | Some (x, s) \<Rightarrow> x # step_iter_items step s)"
  by pat_completeness auto
termination
  by (relation "measure (\<lambda>(step, s). length (si_elements s) * 129 + si_remaining s)")
    (auto simp: step_iter_next_def WORD_BITS_def split: if_splits list.splits)

declare step_iter_items.simps [simp del]

lemma step_mask_eq: "step \<le> 128 \<Longrightarrow> step_mask step = mask step"
  by (auto simp: step_mask_def mask_eq_exp_minus_1 push_bit_eq_mult not_less le_less)

lemma step_iter_word:
  assumes "0 < step" "step dvd 128" "k * step \<le> 128"
  shows "step_iter_items step \<lparr>si_elements = es, si_word = drop_bit (128 - k * step) w, si_remaining = k * step\<rparr>
    = map (\<lambda>j. take_bit step (drop_bit (j * step) w)) [128 div step - k..<128 div step]
      @ step_iter_items step \<lparr>si_elements = es, si_word = drop_bit 128 w, si_remaining = 0\<rparr>"
  using assms(3)
proof (induction k)
  case (Suc k)
  obtain n where n: "128 = step * n" using assms(2) by (elim dvdE)
  have "Suc k * step \<le> n * step" using Suc.prems by (simp only: n mult.commute [of step])
  then have kn: "Suc k \<le> n" using assms(1) by (simp only: mult_le_cancel2)
  have div: "128 div step = n" unfolding n using assms(1) by simp
  have s: "128 - Suc k * step = (n - Suc k) * step" "128 - k * step = (n - Suc k) * step + step"
    using kn mult_le_mono1 [OF kn, of step] by (simp_all add: n algebra_simps diff_mult_distrib)
  have le: "step \<le> 128" using assms(2) by (simp add: dvd_imp_le)
  have drop: "(if step < 128 then drop_bit step (drop_bit (128 - Suc k * step) w) else 0)
      = drop_bit (128 - k * step) (w :: u128)"
  proof (cases "step < 128")
    case True
    then show ?thesis unfolding s drop_bit_drop_bit by (simp add: add.commute)
  next
    case False
    then have "128 \<le> 128 - k * step" using Suc.prems le by auto
    then show ?thesis using False by (intro bit_eqI) (auto simp: bit_drop_bit_eq dest: bit_imp_le_length)
  qed
  have upt: "[128 div step - Suc k..<128 div step] = (n - Suc k) # [128 div step - k..<128 div step]"
    using kn by (simp add: div upt_conv_Cons Suc_diff_Suc)
  have ss: "Suc k * step - step = k * step" by simp
  let ?s = "\<lparr>si_elements = es, si_word = drop_bit (128 - Suc k * step) w, si_remaining = Suc k * step\<rparr>"
  have "step_iter_next step ?s = Some (take_bit step (drop_bit ((n - Suc k) * step) w),
      \<lparr>si_elements = es, si_word = drop_bit (128 - k * step) w, si_remaining = k * step\<rparr>)"
    unfolding s(1) using assms(1) le drop [unfolded s(1)] ss
    by (cases "step < 128")
      (simp_all add: step_iter_next_def step_mask_eq take_bit_eq_mask del: mult_Suc drop_bit_drop_bit)
  then have "step_iter_items step ?s = take_bit step (drop_bit ((n - Suc k) * step) w)
      # step_iter_items step \<lparr>si_elements = es, si_word = drop_bit (128 - k * step) w, si_remaining = k * step\<rparr>"
    using assms(1) by (subst step_iter_items.simps) simp
  moreover have "k * step \<le> 128" using Suc.prems by simp
  ultimately show ?case using Suc.IH by (simp add: upt del: mult_Suc)
qed (use assms in simp)


lemma step_iter_items_refill:
  "step_iter_items step \<lparr>si_elements = e # es, si_word = w, si_remaining = 0\<rparr>
   = step_iter_items step \<lparr>si_elements = es, si_word = e, si_remaining = 128\<rparr>"
  by (subst (1 2) step_iter_items.simps) (simp add: step_iter_next_def WORD_BITS_def)

lemma step_iter_items_end:
  "step_iter_items step \<lparr>si_elements = [], si_word = w, si_remaining = 0\<rparr> = []"
  by (subst step_iter_items.simps) (simp add: step_iter_next_def)

definition word_chunks :: "nat \<Rightarrow> u128 \<Rightarrow> u128 list" where
  "word_chunks step w = map (\<lambda>j. take_bit step (drop_bit (j * step) w)) [0..<128 div step]"

lemma step_iter_items_concat:
  assumes "0 < step" "step dvd 128"
  shows "step_iter_items step \<lparr>si_elements = es, si_word = w, si_remaining = 0\<rparr>
    = concat (map (word_chunks step) es)"
proof (induction es arbitrary: w)
  case (Cons e es)
  have "128 div step * step = 128" using assms by simp
  then show ?case
    using step_iter_word [OF assms, of "128 div step" es e] Cons
    by (simp add: step_iter_items_refill word_chunks_def)
qed (simp add: step_iter_items_end)

lemma length_word_chunks [simp]: "length (word_chunks step w) = 128 div step"
  by (simp add: word_chunks_def)

lemma word_chunks_1: "word_chunks 1 w = map (\<lambda>j. of_bool (bit w j)) [0..<128]"
  by (simp add: word_chunks_def take_bit_Suc bit_iff_odd drop_bit_eq_div mod_2_eq_odd)

section \<open>The transpose and the bit iterator of a bit matrix\<close>

definition bm_ok :: "bit_matrix \<Rightarrow> bool" where
  "bm_ok m \<longleftrightarrow> (\<exists>k. length (bm_packed m) * 128 = 2 ^ k \<and> bm_log_dim2 m \<le> k)"

definition bm_bit :: "bit_matrix \<Rightarrow> nat \<Rightarrow> nat \<Rightarrow> bool" where
  "bm_bit m i1 i2 = mbit (bm_packed m) (bm_dim2 m div 128) i1 i2"

lemma bitlen_exp: "bitlen (2 ^ k) = Suc k"
  by (rule bitlen_unique) simp_all

lemma bit_matrix_new_ok:
  assumes "length xs * 128 = 2 ^ k" "l \<le> k"
  shows "bit_matrix_new xs l = Some \<lparr>bm_packed = xs, bm_log_dim2 = l\<rparr>"
  using assms by (simp add: bit_matrix_new_def WORD_BITS_def Let_def bitlen_exp)

lemma bit_matrix_new_Some: "bit_matrix_new xs l = Some m \<Longrightarrow> bm_ok m \<and> m = \<lparr>bm_packed = xs, bm_log_dim2 = l\<rparr>"
  by (auto simp: bit_matrix_new_def WORD_BITS_def Let_def bm_ok_def split: if_splits)


lemma trailing_zeros_nat_power2 [simp]: "trailing_zeros_nat (2 ^ k) = k"
  by (induction k) (simp_all add: trailing_zeros_nat.simps)

lemma bm_dims:
  assumes "length (bm_packed m) * 128 = 2 ^ k" "bm_log_dim2 m \<le> k"
  shows "bm_dim1 m = 2 ^ (k - bm_log_dim2 m)" "bm_dim2 m = 2 ^ bm_log_dim2 m"
  using assms by (simp_all add: bm_dim1_def bm_dim2_def WORD_BITS_def drop_bit_eq_div power_diff)

lemma word_multiple:
  assumes "128 \<le> (2 :: nat) ^ n"
  obtains b :: nat where "(2 :: nat) ^ n = 128 * b"
proof -
  have "(2 :: nat) ^ 7 \<le> 2 ^ n" using assms by simp
  then have "7 \<le> n" by (subst (asm) power_increasing_iff) simp_all
  then have "(2 :: nat) ^ n = 128 * 2 ^ (n - 7)" using power_add [of "2 :: nat" 7 "n - 7"] by simp
  then show thesis by (rule that)
qed

lemma bm_transpose_bits:
  assumes "bm_ok m" "128 \<le> bm_dim1 m" "128 \<le> bm_dim2 m"
  shows "\<exists>t. bm_transpose m = Some t \<and> bm_ok t \<and> bm_dim1 t = bm_dim2 m \<and> bm_dim2 t = bm_dim1 m \<and>
    (\<forall>i1 < bm_dim1 m. \<forall>i2 < bm_dim2 m. bm_bit t i2 i1 = bm_bit m i1 i2)"
proof -
  obtain k where k: "length (bm_packed m) * 128 = 2 ^ k" "bm_log_dim2 m \<le> k"
    using assms(1) by (auto simp: bm_ok_def)
  note dims = bm_dims [OF k]
  let ?l1 = "k - bm_log_dim2 m"
  obtain a where a: "(2 :: nat) ^ ?l1 = 128 * a" using word_multiple [of ?l1] assms(2) dims(1) by auto
  obtain b where b: "(2 :: nat) ^ bm_log_dim2 m = 128 * b" using word_multiple assms(3) dims(2) by auto
  have "(2 :: nat) ^ k = 2 ^ ?l1 * 2 ^ bm_log_dim2 m" using k(2) by (simp add: power_add [symmetric])
  then have len: "length (bm_packed m) = 128 * a * b" using k(1) by (simp add: a b)
  obtain out where out: "bit_transpose (bm_packed m) (128 * a) (128 * b) = Some out"
    "length out = length (bm_packed m)"
    and bits: "\<And>i1 i2. i1 < 128 * a \<Longrightarrow> i2 < 128 * b \<Longrightarrow> mbit out a i2 i1 = mbit (bm_packed m) b i1 i2"
    using bit_transpose_bits [OF len] by blast
  let ?t = "\<lparr>bm_packed = out, bm_log_dim2 = ?l1\<rparr>"
  have "bit_matrix_new out ?l1 = Some ?t" using k out(2) by (intro bit_matrix_new_ok) auto
  then have t: "bm_transpose m = Some ?t"
    using out(1) dims a b by (simp add: bm_transpose_def Let_def) (metis trailing_zeros_nat_power2)
  have tk: "length (bm_packed ?t) * 128 = 2 ^ k" "bm_log_dim2 ?t \<le> k" using k out(2) by simp_all
  have td: "bm_dim1 ?t = bm_dim2 m" "bm_dim2 ?t = bm_dim1 m"
    using bm_dims [OF tk] dims k(2) by simp_all
  have "bm_bit ?t i2 i1 = bm_bit m i1 i2" if "i1 < bm_dim1 m" "i2 < bm_dim2 m" for i1 i2
    using that bits dims a b td by (simp add: bm_bit_def)
  moreover have "bm_ok ?t" using tk by (auto simp: bm_ok_def)
  ultimately show ?thesis using t td by blast
qed

text \<open>\<open>BitMatrix::transpose\<close> is a transpose: it succeeds on every matrix whose two dimensions
  are at least a word, swaps the dimensions, and moves bit \<open>(i1, i2)\<close> to \<open>(i2, i1)\<close>.\<close>

theorem bit_matrix_transpose_correct:
  assumes "bm_ok m" "128 \<le> bm_dim1 m" "128 \<le> bm_dim2 m"
  shows "\<exists>t. bm_transpose m = Some t \<and> bm_dim1 t = bm_dim2 m \<and> bm_dim2 t = bm_dim1 m \<and>
    (\<forall>i1 < bm_dim1 m. \<forall>i2 < bm_dim2 m. bm_bit t i2 i1 = bm_bit m i1 i2)"
  using bm_transpose_bits [OF assms] by blast

theorem bit_matrix_transpose_correct_witness:
  "\<exists>t. bm_transpose \<lparr>bm_packed = replicate 128 5, bm_log_dim2 = 7\<rparr> = Some t \<and> bm_bit t 2 3 \<and> \<not> bm_bit t 1 3"
proof -
  let ?m = "\<lparr>bm_packed = replicate 128 5, bm_log_dim2 = 7\<rparr> :: bit_matrix"
  have "bm_ok ?m" by (simp add: bm_ok_def) (rule exI [of _ 14], simp)
  moreover have d: "bm_dim1 ?m = 128" "bm_dim2 ?m = 128"
    by (simp_all add: bm_dim1_def bm_dim2_def WORD_BITS_def drop_bit_eq_div)
  moreover have "bm_bit ?m 3 2" "\<not> bm_bit ?m 3 1"
    by (simp_all add: bm_bit_def mbit_def bm_dim2_def)
  ultimately show ?thesis using bit_matrix_transpose_correct [of ?m] by fastforce
qed

lemma bm_bits_items:
  assumes "bm_ok m" "128 \<le> bm_dim2 m" "i1 < bm_dim1 m"
  shows "\<exists>it. bm_bits m i1 = Some it \<and> step_iter_len 1 it = bm_dim2 m \<and>
    step_iter_items 1 it = map (\<lambda>i2. of_bool (bm_bit m i1 i2)) [0..<bm_dim2 m]"
proof -
  obtain k where k: "length (bm_packed m) * 128 = 2 ^ k" "bm_log_dim2 m \<le> k"
    using assms(1) by (auto simp: bm_ok_def)
  note dims = bm_dims [OF k]
  obtain b where b: "(2 :: nat) ^ bm_log_dim2 m = 128 * b" using word_multiple assms(2) dims(2) by auto
  have "(2 :: nat) ^ k = 2 ^ (k - bm_log_dim2 m) * 2 ^ bm_log_dim2 m"
    using k(2) by (simp add: power_add [symmetric])
  then have len: "length (bm_packed m) = bm_dim1 m * b" using k(1) by (simp add: dims b)
  have le: "(i1 + 1) * b \<le> length (bm_packed m)"
    unfolding len using assms(3) by (intro mult_le_mono1) simp
  let ?ws = "take b (drop (i1 * b) (bm_packed m))"
  have lw: "length ?ws = b" using le by simp
  have bits: "bm_bits m i1 = Some (step_iter_new ?ws)"
    using assms(2) le by (simp add: bm_bits_def WORD_BITS_def dims b)
  have "step_iter_items 1 (step_iter_new ?ws) = concat (map (word_chunks 1) ?ws)"
    unfolding step_iter_new_def by (rule step_iter_items_concat) simp_all
  also have "\<dots> = map (\<lambda>i2. of_bool (bm_bit m i1 i2)) [0..<bm_dim2 m]"
  proof (rule nth_equalityI)
    have cl: "length (concat (map (word_chunks 1) ws)) = 128 * length ws" for ws
      by (induction ws) simp_all
    then show "length (concat (map (word_chunks 1) ?ws)) = length (map (\<lambda>i2. of_bool (bm_bit m i1 i2) :: u128) [0..<bm_dim2 m])"
      by (simp add: lw dims b del: length_take)
    fix i assume "i < length (concat (map (word_chunks 1) ?ws))"
    then have i: "i < 128 * b" by (simp only: cl lw)
    have nth: "concat (map (word_chunks 1) ws) ! i = of_bool (bit (ws ! (i div 128)) (i mod 128))"
      if "i < 128 * length ws" for ws i
      using that
    proof (induction ws arbitrary: i)
      case (Cons w ws)
      show ?case
      proof (cases "i < 128")
        case True
        then show ?thesis by (simp add: nth_append word_chunks_1 [unfolded One_nat_def])
      next
        case False
        then have "i div 128 = Suc ((i - 128) div 128)" "i mod 128 = (i - 128) mod 128"
          by (simp_all add: le_div_geq le_mod_geq)
        then show ?thesis using Cons.IH [of "i - 128"] Cons.prems False by (simp add: nth_append)
      qed
    qed simp
    have d: "i div 128 < b" using i by (simp add: less_mult_imp_div_less mult.commute)
    have "concat (map (word_chunks 1) ?ws) ! i = of_bool (bit (?ws ! (i div 128)) (i mod 128))"
      by (rule nth) (use i lw in simp)
    also have "?ws ! (i div 128) = bm_packed m ! (i1 * b + i div 128)" using d le by simp
    finally show "concat (map (word_chunks 1) ?ws) ! i = map (\<lambda>i2. of_bool (bm_bit m i1 i2)) [0..<bm_dim2 m] ! i"
      using i by (simp add: bm_bit_def mbit_def dims b)
  qed
  finally show ?thesis
    using bits lw by (simp add: step_iter_len_def step_iter_new_def WORD_BITS_def dims b)
qed

text \<open>Collecting \<open>BitMatrix::bits(i1)\<close> yields the bits of row \<open>i1\<close>, first column first, one
  item per column.\<close>

theorem bit_matrix_bits_correct:
  assumes "bm_ok m" "128 \<le> bm_dim2 m" "i1 < bm_dim1 m"
  shows "\<exists>it. bm_bits m i1 = Some it \<and> step_iter_len 1 it = bm_dim2 m \<and>
    step_iter_items 1 it = map (\<lambda>i2. of_bool (bm_bit m i1 i2)) [0..<bm_dim2 m]"
  using assms by (rule bm_bits_items)

theorem bit_matrix_bits_correct_witness:
  "\<exists>it. bm_bits \<lparr>bm_packed = [6, 9], bm_log_dim2 = 7\<rparr> 1 = Some it \<and> step_iter_items 1 it ! 3 = 1"
proof -
  let ?m = "\<lparr>bm_packed = [6, 9], bm_log_dim2 = 7\<rparr> :: bit_matrix"
  have "bm_ok ?m" by (simp add: bm_ok_def) (rule exI [of _ 8], simp)
  moreover have "bm_dim1 ?m = 2" "bm_dim2 ?m = 128"
    by (simp_all add: bm_dim1_def bm_dim2_def WORD_BITS_def drop_bit_eq_div)
  moreover have "bm_bit ?m 1 3" by (simp add: bm_bit_def mbit_def bm_dim2_def bit_iff_odd)
  ultimately show ?thesis using bit_matrix_bits_correct [of ?m 1] by fastforce
qed

end
