(* ===== verification/Common_Params.thy ===== *)
theory Common_Params
  imports Common_Matrix Field_Dyn
begin

text \<open>
  The protocol parameters, the linear claim and the opening query:
  \<open>crates/common/src/params.rs\<close>, \<open>claim.rs\<close>, \<open>opening.rs\<close> and the traits of \<open>lib.rs\<close>.

  The code is generic in a prime field \<open>F: BitzClaimField\<close>.  The trait is the record
  \<open>claim_field\<close> of the operations the protocol uses, on 128-bit representatives
  (\<open>F::Integer = u128\<close> for both implementors); \<open>fq_field\<close> and \<open>dyn_field\<close> are the two
  implementations.  A panic is \<open>None\<close>.
\<close>

section \<open>The claim field\<close>

record claim_field =
  cf_modulus :: u128
  cf_from :: "u128 \<Rightarrow> u128 option"
  cf_add :: "u128 \<Rightarrow> u128 \<Rightarrow> u128 option"
  cf_mul :: "u128 \<Rightarrow> u128 \<Rightarrow> u128 option"
  cf_max_value :: "u128 option"
  cf_lift :: "u128 \<Rightarrow> u128"
  cf_encode :: "u128 \<Rightarrow> u8 list"

definition fq_field :: "u128 \<Rightarrow> claim_field" where
  "fq_field q = \<lparr>cf_modulus = q, cf_from = fq_from_u128 q, cf_add = fq_add q, cf_mul = fq_mul q,
     cf_max_value = fq_max_value q, cf_lift = fq_lift, cf_encode = fq_encode\<rparr>"

definition dyn_field :: "dyn_global \<Rightarrow> claim_field" where
  "dyn_field g = \<lparr>cf_modulus = global_modulus g, cf_from = dyn_from_u128 g, cf_add = dyn_add g,
     cf_mul = dyn_mul g, cf_max_value = Some (dyn_max_value g), cf_lift = dyn_lift,
     cf_encode = dyn_encode\<rparr>"

text \<open>What the protocol relies on; both implementations satisfy it (below).\<close>

definition claim_field_ok :: "claim_field \<Rightarrow> bool" where
  "claim_field_ok F \<longleftrightarrow> 3 \<le> unat (cf_modulus F) \<and> unat (cf_modulus F) < 2 ^ 126 \<and>
     cf_max_value F = Some (cf_modulus F - 1) \<and> cf_lift F = (\<lambda>a. a) \<and>
     cf_encode F = to_le_bytes 16 \<and>
     (\<forall>x. cf_from F x = Some (x mod cf_modulus F)) \<and>
     (\<forall>a b. a < cf_modulus F \<longrightarrow> b < cf_modulus F \<longrightarrow>
        (\<exists>v. cf_add F a b = Some v \<and> unat v = (unat a + unat b) mod unat (cf_modulus F)) \<and>
        (\<exists>v. cf_mul F a b = Some v \<and> unat v = unat a * unat b mod unat (cf_modulus F)))"

section \<open>The parameter gates\<close>

datatype params_error = ColumnCountTooNarrow | FoldBoundExceeded | GeneratorOrderNotFull | PrimeTooNarrow

definition MIN_PRIME_BITS :: nat where
  "MIN_PRIME_BITS = (case field_metadata_new Q100 of Some m \<Rightarrow> fm_bits m | None \<Rightarrow> 0)"

definition prime_bits :: "shape \<Rightarrow> params_error + nat" where
  "prime_bits sh =
     (let max_modulus = (MULT_ORDER - 1) div word_of_nat (shape_rows sh);
          b = min (bitlen (unat (max_modulus + 1)) - 1) MAX_MODULUS_BITS
      in if b < MIN_PRIME_BITS then Inl PrimeTooNarrow else Inr b)"

record bitz_params =
  bp_shape :: shape
  bp_generator :: f128

text \<open>\<open>checked_mul\<close> on \<open>u128\<close>.\<close>

definition checked_mul :: "u128 \<Rightarrow> u128 \<Rightarrow> u128 option" where
  "checked_mul a b = (if unat a * unat b < 2 ^ 128 then Some (a * b) else None)"

definition bitz_params_new :: "claim_field \<Rightarrow> shape \<Rightarrow> f128 \<Rightarrow> params_error + bitz_params" where
  "bitz_params_new F sh generator =
     (if shape_columns sh < WORD_BITS then Inl ColumnCountTooNarrow
      else
        let f128_order = MULT_ORDER;
            rows = word_of_nat (shape_rows sh)
        in if \<not> (case checked_mul rows (cf_modulus F) of Some reach \<Rightarrow> reach < f128_order | None \<Rightarrow> False)
           then Inl FoldBoundExceeded
           else if \<not> is_generator generator then Inl GeneratorOrderNotFull
           else Inr \<lparr>bp_shape = sh, bp_generator = generator\<rparr>)"

text \<open>\<open>table\<close> reads the \<open>F128\<close> elements in place as little-endian words.\<close>

definition bp_table :: "bitz_params \<Rightarrow> f128 list \<Rightarrow> table_error + bit_table" where
  "bp_table self packed = bit_table_new (bp_shape self) (map f128_to_u128 packed)"

definition fold_bound :: "claim_field \<Rightarrow> bitz_params \<Rightarrow> u128 option" where
  "fold_bound F self =
     (case cf_max_value F of None \<Rightarrow> None
      | Some m \<Rightarrow> checked_mul (word_of_nat (shape_rows (bp_shape self))) (cf_lift F m))"

definition bp_encode :: "claim_field \<Rightarrow> bitz_params \<Rightarrow> u8 list" where
  "bp_encode F self =
     to_le_bytes 8 (word_of_nat (log_rows (bp_shape self)) :: u64)
     @ to_le_bytes 8 (word_of_nat (log_columns (bp_shape self)) :: u64)
     @ to_le_bytes 16 (cf_modulus F)
     @ f128_to_bytes (bp_generator self)"

section \<open>Parameters of a virtual claim\<close>

datatype virtual_params_error = MissingConstantColumn | ClaimShapeTooSmall | CommittedShapeTooSmall

record virtual_params =
  vp_claim :: bitz_params
  vp_committed :: shape

text \<open>The gates read only the two dimensions of the map.\<close>

definition virtual_params_new ::
  "bitz_params \<Rightarrow> shape \<Rightarrow> nat \<Rightarrow> nat \<Rightarrow> virtual_params_error + virtual_params" where
  "virtual_params_new claim committed h_len f_len =
     (if 2 ^ log_bits (bp_shape claim) < h_len then Inl ClaimShapeTooSmall
      else if f_len = 0 then Inl MissingConstantColumn
      else let committed_bits = f_len - 1
           in if 2 ^ log_bits committed < committed_bits then Inl CommittedShapeTooSmall
              else Inr \<lparr>vp_claim = claim, vp_committed = committed\<rparr>)"

definition vp_table :: "virtual_params \<Rightarrow> f128 list \<Rightarrow> table_error + bit_table" where
  "vp_table self packed = bit_table_new (vp_committed self) (map f128_to_u128 packed)"

definition vp_encode :: "claim_field \<Rightarrow> virtual_params \<Rightarrow> u8 list" where
  "vp_encode F self =
     bp_encode F (vp_claim self)
     @ to_le_bytes 8 (word_of_nat (log_rows (vp_committed self)) :: u64)
     @ to_le_bytes 8 (word_of_nat (log_columns (vp_committed self)) :: u64)"

section \<open>The linear claim\<close>

datatype claim_error = RowWeightCountMismatch | ColumnWeightCountMismatch

record 'f linear_claim =
  row_weights :: "'f list"
  column_weights :: "'f list"
  target :: 'f

definition linear_claim_encode :: "('f \<Rightarrow> u8 list) \<Rightarrow> 'f linear_claim \<Rightarrow> u8 list" where
  "linear_claim_encode encode self =
     concat (map (\<lambda>weights. to_le_bytes 8 (word_of_nat (length weights) :: u64) @ concat (map encode weights))
       [row_weights self, column_weights self])
     @ encode (target self)"

definition linear_claim_from_shape ::
  "shape \<Rightarrow> 'f list \<Rightarrow> 'f list \<Rightarrow> 'f \<Rightarrow> claim_error + 'f linear_claim" where
  "linear_claim_from_shape sh rows columns t =
     (if length rows \<noteq> shape_rows sh then Inl RowWeightCountMismatch
      else if length columns \<noteq> shape_columns sh then Inl ColumnWeightCountMismatch
      else Inr \<lparr>row_weights = rows, column_weights = columns, target = t\<rparr>)"

definition linear_claim_new ::
  "bitz_params \<Rightarrow> u128 list \<Rightarrow> u128 list \<Rightarrow> u128 \<Rightarrow> claim_error + u128 linear_claim" where
  "linear_claim_new params rows columns t = linear_claim_from_shape (bp_shape params) rows columns t"

definition row_exponents :: "claim_field \<Rightarrow> u128 linear_claim \<Rightarrow> u128 list" where
  "row_exponents F self = map (cf_lift F) (row_weights self)"

datatype opening_query = Mle "f128 list" f128 | InnerProduct "f128 linear_claim"

section \<open>Both fields satisfy the contract\<close>

lemma fq_field_ok: "fq_META q = Some m \<Longrightarrow> claim_field_ok (fq_field q)"
  unfolding claim_field_ok_def fq_field_def
proof (simp, intro conjI allI impI)
  assume m: "fq_META q = Some m"
  show "3 \<le> unat q" "unat q < 85070591730234615865843651857942052864"
    using fq_META_Some(3,4) [OF m] by simp_all
  show "fq_max_value q = Some (q - 1)" using m by (simp add: fq_max_value_def)
  show "fq_lift = (\<lambda>a. a)" by (simp add: fun_eq_iff fq_lift_def)
  show "fq_encode = to_le_bytes 16" by (simp add: fun_eq_iff fq_encode_def fq_lift_def)
  show "fq_from_u128 q x = Some (x mod q)" for x using m by (simp add: fq_from_u128_def)
  fix a b assume ab: "a < q" "b < q"
  show "\<exists>v. fq_add q a b = Some v \<and> unat v = (unat a + unat b) mod unat q"
    using fq_add_correct [OF m ab] by metis
  show "\<exists>v. fq_mul q a b = Some v \<and> unat v = unat a * unat b mod unat q"
    using fq_mul_correct [OF m ab] by metis
qed

lemma dyn_field_ok: "set_modulus q g0 = Some g \<Longrightarrow> claim_field_ok (dyn_field g)"
proof -
  assume g: "set_modulus q g0 = Some g"
  obtain m where m: "fq_META q = Some m" "global_load g = m" "global_modulus g = q"
    using g by (rule set_modulus_load)
  note ok = fq_field_ok [OF m(1), unfolded claim_field_ok_def fq_field_def, simplified]
  have "dyn_from_u128 g v = fq_from_u128 q v" for v
    using m by (simp add: dyn_from_u128_def fq_from_u128_def) (use fq_META_Some(3) [OF m(1)] in auto)
  then show ?thesis
    using ok m dyn_ops_fq [OF g]
    by (simp add: claim_field_ok_def dyn_field_def dyn_max_value_def fun_eq_iff dyn_lift_def
        dyn_encode_def)
qed

lemma claim_field_okD:
  assumes "claim_field_ok F"
  shows "3 \<le> unat (cf_modulus F)" "unat (cf_modulus F) < 2 ^ 126"
    "cf_max_value F = Some (cf_modulus F - 1)" "cf_lift F a = a" "cf_encode F = to_le_bytes 16"
    "cf_from F x = Some (x mod cf_modulus F)"
  using assms by (simp_all add: claim_field_ok_def)

interpretation cf_arith: residue_arith claim_field_ok "\<lambda>F. unat (cf_modulus F)" cf_from cf_add cf_mul
  by unfold_locales
    (auto simp: claim_field_ok_def word_less_nat_alt unat_mod)

definition cf_sum :: "claim_field \<Rightarrow> u128 list \<Rightarrow> u128 option" where
  "cf_sum F xs = fold_option (cf_add F) 0 xs"

lemma cf_sum_correct:
  assumes "claim_field_ok F" "\<forall>x\<in>set xs. x < cf_modulus F"
  shows "\<exists>v. cf_sum F xs = Some v \<and> unat v = sum_list (map unat xs) mod unat (cf_modulus F)"
  using cf_arith.fold_plus [of F 0 xs] assms claim_field_okD(1) [of F]
  by (simp add: cf_sum_def word_less_nat_alt)

section \<open>The width of the fingerprint prime and the fold gate\<close>

lemma unat_MULT_ORDER: "unat MULT_ORDER = 2 ^ 128 - 1"
  by (simp add: MULT_ORDER_def unsigned_minus_1_eq_mask mask_eq_exp_minus_1)

lemma MIN_PRIME_BITS_eq: "MIN_PRIME_BITS = 100"
proof -
  have q: "unat Q100 = 2 ^ 100 - 15" by (simp add: Q100_def)
  then obtain m where m: "field_metadata_new Q100 = Some m"
    using field_metadata_new_None_iff [of Q100] by (cases "field_metadata_new Q100") auto
  then have "fm_bits m = bitlen (unat Q100)"
    using width_minus_leading_zeros [of Q100]
    by (auto simp: field_metadata_new_def Let_def split: if_splits)
  also have "\<dots> = 100" using bitlen_unique [of 99 "unat Q100"] by (simp add: q)
  finally show ?thesis using m by (simp add: MIN_PRIME_BITS_def)
qed

lemma unat_shape_rows:
  assumes "shape_ok sh"
  shows "unat (word_of_nat (shape_rows sh) :: u128) = shape_rows sh"
proof -
  have "shape_rows sh < 2 ^ 128"
    unfolding shape_rows_def
    using shape_ok_bounds(2) [OF assms] by (intro power_strict_increasing) auto
  then show ?thesis by (simp add: unat_of_nat)
qed

lemma prime_bits_eq:
  assumes "shape_ok sh"
  shows "prime_bits sh = (if 28 < log_rows sh then Inl PrimeTooNarrow else Inr (128 - log_rows sh))"
proof -
  let ?r = "log_rows sh"
  have r: "7 \<le> ?r" "?r \<le> 35" using shape_ok_bounds(1,2) [OF assms] .
  have split: "(2 :: nat) ^ 128 = 2 ^ (128 - ?r) * 2 ^ ?r" using r by (simp add: power_add [symmetric])
  have big: "(2 :: nat) ^ 7 \<le> 2 ^ ?r" using r by (intro power_increasing) auto
  have div: "(2 ^ 128 - 2) div 2 ^ ?r = 2 ^ (128 - ?r) - (1 :: nat)"
  proof (rule div_nat_eqI)
    show "2 ^ ?r * (2 ^ (128 - ?r) - 1) \<le> 2 ^ 128 - (2 :: nat)"
      using big unfolding split by (simp add: diff_mult_distrib2 mult.commute)
    show "2 ^ 128 - 2 < 2 ^ ?r * Suc (2 ^ (128 - ?r) - (1 :: nat))"
      unfolding split by (simp add: mult.commute)
  qed
  have mm: "unat ((MULT_ORDER - 1) div word_of_nat (shape_rows sh)) = 2 ^ (128 - ?r) - 1"
  proof -
    have "unat (MULT_ORDER - 1) = 2 ^ 128 - 2"
      using unat_MULT_ORDER by (subst unat_sub) (auto simp: word_le_nat_alt)
    then show ?thesis by (simp only: unat_div unat_shape_rows [OF assms]) (simp only: shape_rows_def div)
  qed
  have lt: "(2 :: nat) ^ (128 - ?r) < 2 ^ 128" using r by (intro power_strict_increasing) auto
  have "unat ((MULT_ORDER - 1) div word_of_nat (shape_rows sh) + 1) = 2 ^ (128 - ?r)"
    using mm lt by (subst unat_add_lem [THEN iffD1]) auto
  moreover have "min (128 - ?r) 126 = 128 - ?r" "128 - ?r < 100 \<longleftrightarrow> 28 < ?r" using r by auto
  ultimately show ?thesis
    by (simp add: prime_bits_def bitlen_exp MIN_PRIME_BITS_eq MAX_MODULUS_BITS_def Let_def)
qed

lemma fold_gate:
  assumes "shape_ok sh"
  shows "(case checked_mul (word_of_nat (shape_rows sh)) q of Some reach \<Rightarrow> reach < MULT_ORDER | None \<Rightarrow> False)
    \<longleftrightarrow> shape_rows sh * unat q < 2 ^ 128 - 1"
proof -
  have "unat (word_of_nat (shape_rows sh) * q) = shape_rows sh * unat q" if "shape_rows sh * unat q < 2 ^ 128"
    using that unat_mult_lem [of "word_of_nat (shape_rows sh) :: u128" q] by (simp add: unat_shape_rows [OF assms])
  then show ?thesis
    by (auto simp: checked_mul_def unat_shape_rows [OF assms] word_less_nat_alt unat_MULT_ORDER)
qed

lemma bitz_params_new_ok:
  assumes "shape_ok sh"
  shows "bitz_params_new F sh g = Inr p \<longleftrightarrow> p = \<lparr>bp_shape = sh, bp_generator = g\<rparr> \<and>
    7 \<le> log_columns sh \<and> shape_rows sh * unat (cf_modulus F) < 2 ^ 128 - 1 \<and> is_generator g"
proof -
  have "shape_columns sh < 128 \<longleftrightarrow> \<not> 7 \<le> log_columns sh"
    using power_increasing_iff [of "2 :: nat" 7 "log_columns sh"] by (auto simp: shape_columns_def not_le)
  then show ?thesis
    by (auto simp: bitz_params_new_def WORD_BITS_def Let_def fold_gate [OF assms] simp del: power_Suc)
qed

lemma fold_bound_eq:
  assumes "shape_ok (bp_shape p)" "claim_field_ok F"
    "shape_rows (bp_shape p) * unat (cf_modulus F) < 2 ^ 128 - 1"
  obtains b where "fold_bound F p = Some b" "unat b = shape_rows (bp_shape p) * (unat (cf_modulus F) - 1)"
proof -
  let ?r = "word_of_nat (shape_rows (bp_shape p)) :: u128" and ?q = "cf_modulus F"
  have q: "unat (?q - 1) = unat ?q - 1"
    using claim_field_okD(1) [OF assms(2)] by (subst unat_sub) (auto simp: word_le_nat_alt)
  have "shape_rows (bp_shape p) * (unat ?q - 1) \<le> shape_rows (bp_shape p) * unat ?q" by simp
  also note assms(3)
  finally have lt: "unat ?r * unat (?q - 1) < 2 ^ 128"
    by (simp add: q unat_shape_rows [OF assms(1)])
  then have "fold_bound F p = Some (?r * (?q - 1))"
    using claim_field_okD(3,4) [OF assms(2)] by (simp add: fold_bound_def checked_mul_def)
  moreover have "unat (?r * (?q - 1)) = shape_rows (bp_shape p) * (unat ?q - 1)"
    using lt unat_mult_lem [of ?r "?q - 1"] by (simp add: q unat_shape_rows [OF assms(1)])
  ultimately show thesis by (rule that)
qed

section \<open>Encodings\<close>

lemma to_le_bytes_inj:
  assumes "to_le_bytes n v = to_le_bytes n w" "LENGTH('a) \<le> 8 * n"
  shows "v = (w :: 'a::len word)"
  using arg_cong [OF assms(1), of "from_le_bytes :: _ \<Rightarrow> 'a word"]
  by (simp only: from_to_le_bytes [OF assms(2)])

lemma to_le_bytes_8: "to_le_bytes 8 v = to_le_bytes 8 w \<longleftrightarrow> v = (w :: u64)"
  using to_le_bytes_inj [of 8 v w] by auto

lemma to_le_bytes_16: "to_le_bytes 16 v = to_le_bytes 16 w \<longleftrightarrow> v = (w :: u128)"
  using to_le_bytes_inj [of 16 v w] by auto

lemma f128_bytes_inj: "f128_to_bytes a = f128_to_bytes b \<longleftrightarrow> a = b"
  by (cases a; cases b) (simp add: f128_to_bytes_def to_le_bytes_8)

lemma length_f128_to_bytes [simp]: "length (f128_to_bytes a) = 16"
  by (simp add: f128_to_bytes_def)

lemma word64_of_nat_inj:
  "a < 2 ^ 64 \<Longrightarrow> b < 2 ^ 64 \<Longrightarrow> (word_of_nat a :: u64) = word_of_nat b \<longleftrightarrow> a = b"
proof -
  assume "a < 2 ^ 64" "b < 2 ^ 64"
  then have "unat (word_of_nat a :: u64) = a" "unat (word_of_nat b :: u64) = b"
    by (simp_all add: unat_of_nat)
  then show ?thesis by metis
qed

lemma shape_small: "shape_ok sh \<Longrightarrow> log_rows sh < 2 ^ 64 \<and> log_columns sh < 2 ^ 64"
  using shape_ok_bounds(2,3) [of sh] by simp

lemma length_bp_encode [simp]: "length (bp_encode F p) = 48"
  by (simp add: bp_encode_def)

lemma length_vp_encode [simp]: "length (vp_encode F p) = 64"
  by (simp add: vp_encode_def)

lemma shape_encode_inj:
  assumes "shape_ok a" "shape_ok b"
    "to_le_bytes 8 (word_of_nat (log_rows a) :: u64) = to_le_bytes 8 (word_of_nat (log_rows b) :: u64)"
    "to_le_bytes 8 (word_of_nat (log_columns a) :: u64) = to_le_bytes 8 (word_of_nat (log_columns b) :: u64)"
  shows "a = b"
  using assms(3,4) shape_small [OF assms(1)] shape_small [OF assms(2)]
  by (simp add: to_le_bytes_8 word64_of_nat_inj shape.equality)

lemma bp_encode_inj:
  assumes "shape_ok (bp_shape p)" "shape_ok (bp_shape p')" "bp_encode F p = bp_encode F' p'"
  shows "p = p' \<and> cf_modulus F = cf_modulus F'"
proof -
  have e: "to_le_bytes 8 (word_of_nat (log_rows (bp_shape p)) :: u64) = to_le_bytes 8 (word_of_nat (log_rows (bp_shape p')) :: u64)"
    "to_le_bytes 8 (word_of_nat (log_columns (bp_shape p)) :: u64) = to_le_bytes 8 (word_of_nat (log_columns (bp_shape p')) :: u64)"
    "to_le_bytes 16 (cf_modulus F) = to_le_bytes 16 (cf_modulus F')"
    "f128_to_bytes (bp_generator p) = f128_to_bytes (bp_generator p')"
    using assms(3) by (simp_all add: bp_encode_def)
  have "bp_shape p = bp_shape p'" by (rule shape_encode_inj [OF assms(1,2) e(1,2)])
  with e(3,4) show ?thesis
    by (simp add: f128_bytes_inj to_le_bytes_16 bitz_params.equality)
qed

section \<open>Properties\<close>

text \<open>The width that \<open>prime_bits\<close> derives is the widest the fold gate admits: on every checked
  shape it is \<open>128 - log_rows\<close>, it is refused exactly above \<open>2^28\<close> rows, every modulus of that many
  bits passes the fold gate of \<open>BitZParams::new\<close>, and some number one bit wider does not.\<close>

theorem prime_bits_widest:
  assumes "shape_new r c = Inr sh"
  shows "case prime_bits sh of
      Inl e \<Rightarrow> e = PrimeTooNarrow \<and> 28 < r
    | Inr b \<Rightarrow> b = 128 - r \<and> 100 \<le> b \<and> b \<le> MAX_MODULUS_BITS
        \<and> (\<forall>F g. unat (cf_modulus F) < 2 ^ b \<longrightarrow> bitz_params_new F sh g \<noteq> Inl FoldBoundExceeded)
        \<and> \<not> shape_rows sh * (2 ^ (b + 1) - 1) < unat MULT_ORDER"
proof -
  have sh: "sh = \<lparr>log_rows = r, log_columns = c\<rparr>" "shape_ok sh" using assms by (auto simp: shape_new_iff)
  note r = shape_ok_bounds(1,2) [OF sh(2)]
  show ?thesis
  proof (cases "28 < r")
    case False
    have split: "(2 :: nat) ^ 128 = 2 ^ r * 2 ^ (128 - r)" using r sh(1) by (simp add: power_add [symmetric])
    have "2 ^ 7 \<le> (2 :: nat) ^ r" using r sh(1) by (intro power_increasing) auto
    then have big: "128 \<le> (2 :: nat) ^ r" by simp
    have gate: "shape_rows sh * unat q < 2 ^ 128 - 1" if "unat q < 2 ^ (128 - r)" for q :: u128
    proof -
      have "2 ^ r * Suc (unat q) \<le> 2 ^ r * 2 ^ (128 - r)" using that by (intro mult_le_mono2) simp
      then show ?thesis using big unfolding split by (simp add: sh(1) shape_rows_def)
    qed
    have "unat MULT_ORDER \<le> shape_rows sh * (2 ^ (128 - r + 1) - 1)"
    proof -
      have "(2 :: nat) ^ (128 - r) \<le> 2 ^ (128 - r + 1) - 1" by simp
      then have "2 ^ r * 2 ^ (128 - r) \<le> shape_rows sh * (2 ^ (128 - r + 1) - 1)"
        using sh(1) by (simp only: shape_rows_def shape.simps mult_le_mono2)
      then show ?thesis unfolding unat_MULT_ORDER split by linarith
    qed
    moreover have "bitz_params_new F sh g \<noteq> Inl FoldBoundExceeded"
      if "unat (cf_modulus F) < 2 ^ (128 - r)" for F g
      using gate [OF that] by (auto simp: bitz_params_new_def Let_def fold_gate [OF sh(2)])
    moreover have "prime_bits sh = Inr (128 - r)" using False sh by (simp add: prime_bits_eq)
    moreover have "100 \<le> 128 - r" "128 - r \<le> 126" using False r sh(1) by auto
    ultimately show ?thesis by (simp add: MAX_MODULUS_BITS_def)
  qed (use sh in \<open>simp add: prime_bits_eq\<close>)
qed

theorem prime_bits_widest_witness:
  "prime_bits \<lparr>log_rows = 14, log_columns = 21\<rparr> = Inr 114 \<and> prime_bits \<lparr>log_rows = 29, log_columns = 6\<rparr> = Inl PrimeTooNarrow"
proof -
  have "shape_new 14 21 = Inr \<lparr>log_rows = 14, log_columns = 21\<rparr>" "shape_new 29 6 = Inr \<lparr>log_rows = 29, log_columns = 6\<rparr>"
    by (simp_all add: shape_new_def PACK_BITS_def MAX_LOG_BITS_def MIN_LOG_BITS_def)
  from prime_bits_widest [OF this(1)] prime_bits_widest [OF this(2)] show ?thesis
    by (auto split: sum.splits)
qed

text \<open>C34: The statement frames are injective: two checked parameter sets with the same encoding have
  the same shape, modulus and generator, two virtual ones also the same committed shape, and no
  plain frame is a virtual one.\<close>

theorem parameter_frames_injective:
  assumes "shape_ok (bp_shape p)" "shape_ok (bp_shape p')"
    "shape_ok (bp_shape (vp_claim v))" "shape_ok (bp_shape (vp_claim v'))"
    "shape_ok (vp_committed v)" "shape_ok (vp_committed v')"
  shows "(bp_encode F p = bp_encode F' p' \<longleftrightarrow> p = p' \<and> cf_modulus F = cf_modulus F') \<and>
    (vp_encode F v = vp_encode F' v' \<longleftrightarrow> v = v' \<and> cf_modulus F = cf_modulus F') \<and>
    bp_encode F p \<noteq> vp_encode F' v'"
proof (intro conjI iffI)
  show "bp_encode F p \<noteq> vp_encode F' v'"
    using length_bp_encode [of F p] length_vp_encode [of F' v'] by fastforce
  assume "vp_encode F v = vp_encode F' v'"
  then have e: "bp_encode F (vp_claim v) = bp_encode F' (vp_claim v')"
    "to_le_bytes 8 (word_of_nat (log_rows (vp_committed v)) :: u64) = to_le_bytes 8 (word_of_nat (log_rows (vp_committed v')) :: u64)"
    "to_le_bytes 8 (word_of_nat (log_columns (vp_committed v)) :: u64) = to_le_bytes 8 (word_of_nat (log_columns (vp_committed v')) :: u64)"
    by (simp_all add: vp_encode_def)
  from bp_encode_inj [OF assms(3,4) e(1)] shape_encode_inj [OF assms(5,6) e(2,3)]
  show "v = v'" "cf_modulus F = cf_modulus F'" by (simp_all add: virtual_params.equality)
next
  assume "bp_encode F p = bp_encode F' p'"
  from bp_encode_inj [OF assms(1,2) this] show "p = p'" "cf_modulus F = cf_modulus F'" by simp_all
next
  assume "p = p' \<and> cf_modulus F = cf_modulus F'"
  then show "bp_encode F p = bp_encode F' p'" by (simp add: bp_encode_def)
next
  assume "v = v' \<and> cf_modulus F = cf_modulus F'"
  then show "vp_encode F v = vp_encode F' v'" by (simp add: vp_encode_def bp_encode_def)
qed

theorem parameter_frames_injective_witness:
  "bp_encode (fq_field 7) \<lparr>bp_shape = \<lparr>log_rows = 13, log_columns = 8\<rparr>, bp_generator = f128_GENERATOR\<rparr>
   \<noteq> bp_encode (fq_field 7) \<lparr>bp_shape = \<lparr>log_rows = 13, log_columns = 9\<rparr>, bp_generator = f128_GENERATOR\<rparr>"
proof -
  let ?p = "\<lambda>c. \<lparr>bp_shape = \<lparr>log_rows = 13, log_columns = c\<rparr>, bp_generator = f128_GENERATOR\<rparr>"
  let ?v = "\<lparr>vp_claim = ?p 8, vp_committed = \<lparr>log_rows = 13, log_columns = 8\<rparr>\<rparr>"
  have ok: "shape_ok \<lparr>log_rows = 13, log_columns = 8\<rparr>" "shape_ok \<lparr>log_rows = 13, log_columns = 9\<rparr>"
    by (simp_all add: shape_ok_def log_bits_def)
  show ?thesis
    using parameter_frames_injective [of "?p 8" "?p 9" ?v ?v "fq_field 7" "fq_field 7"] ok by simp
qed

end
