(* ===== verification/Poly_Mle.thy ===== *)
theory Poly_Mle
  imports Gf128_Pow
begin

text \<open>
  Equality polynomials and dense multilinear extensions: \<open>crates/poly/src/eq.rs\<close>, \<open>mle.rs\<close> and
  \<open>f128.rs\<close>.

  The generic \<open>F: Field\<close> is a type of class \<open>field\<close>; \<open>f128\<close> is one by \<open>Gf128_Field\<close>.  Index
  arithmetic is on \<open>nat\<close>.  The rayon branches compute the same values on several threads and are
  not distinguished.
\<close>

section \<open>Equality polynomials\<close>

definition eq_coordinate :: "'a::field \<Rightarrow> 'a \<Rightarrow> 'a" where
  "eq_coordinate left_i right_i = (1 - left_i) + right_i * (left_i + left_i - 1)"

definition eq_eval :: "'a::field list \<Rightarrow> 'a list \<Rightarrow> 'a option" where
  "eq_eval left right =
     (if length left \<noteq> length right then None
      else case zip left right of
          [] \<Rightarrow> Some 1
        | (first_left, first_right) # coordinates \<Rightarrow>
            Some (foldl (\<lambda>value (left_i, right_i). value * eq_coordinate left_i right_i)
              (eq_coordinate first_left first_right) coordinates))"

text \<open>One doubling level: the first \<open>half\<close> entries are the parents, the next \<open>half\<close> receive their
  one-children.\<close>

definition eq_table_level :: "nat \<Rightarrow> 'a::field \<Rightarrow> 'a list \<Rightarrow> 'a list" where
  "eq_table_level i r_i table =
     (let half = 2 ^ i;
          zero_children = take half table
      in map (\<lambda>parent. parent - parent * r_i) zero_children
         @ map (\<lambda>parent. parent * r_i) zero_children
         @ drop (2 * half) table)"

fun eq_table_loop :: "nat \<Rightarrow> 'a::field list \<Rightarrow> 'a list \<Rightarrow> 'a list" where
  "eq_table_loop i [] table = table"
| "eq_table_loop i (r_i # rs) table = eq_table_loop (i + 1) rs (eq_table_level i r_i table)"

definition eq_table :: "'a::field list \<Rightarrow> 'a list" where
  "eq_table r = eq_table_loop 0 r ((replicate (2 ^ length r) 0)[0 := 1])"

section \<open>Dense multilinear extensions\<close>

datatype dense_mle_error = InvalidNumVars | WrongEvaluationCount | WrongPointWidth | TooManyChallenges

record 'a dense_mle =
  evaluations :: "'a list"

definition mle_zero_vars :: "'a \<Rightarrow> 'a dense_mle" where
  "mle_zero_vars evaluation = \<lparr>evaluations = [evaluation]\<rparr>"

definition mle_from_evaluations :: "nat \<Rightarrow> 'a list \<Rightarrow> dense_mle_error + 'a dense_mle" where
  "mle_from_evaluations num_vars evals =
     (if 64 \<le> num_vars then Inl InvalidNumVars
      else if length evals \<noteq> 2 ^ num_vars then Inl WrongEvaluationCount
      else Inr \<lparr>evaluations = evals\<rparr>)"

definition mle_num_vars :: "'a dense_mle \<Rightarrow> nat" where
  "mle_num_vars self = bitlen (length (evaluations self)) - 1"

text \<open>The in-place fold round: entry \<open>i\<close> is overwritten from entries \<open>2 i\<close> and \<open>2 i + 1\<close>.\<close>

definition fold_round_step :: "'a::field \<Rightarrow> nat \<Rightarrow> 'a list \<Rightarrow> 'a list" where
  "fold_round_step challenge i evals =
     (let left = evals ! (2 * i); right = evals ! (2 * i + 1)
      in evals[i := left + challenge * (right - left)])"

definition fold_round_in_place :: "'a::field \<Rightarrow> 'a list \<Rightarrow> 'a list" where
  "fold_round_in_place challenge evals =
     (let half = length evals div 2
      in take half (fold (fold_round_step challenge) [0..<half] evals))"

definition mle_fold :: "'a::field dense_mle \<Rightarrow> 'a list \<Rightarrow> dense_mle_error + 'a dense_mle" where
  "mle_fold self r =
     (if mle_num_vars self < length r then Inl TooManyChallenges
      else Inr \<lparr>evaluations = fold fold_round_in_place r (evaluations self)\<rparr>)"

definition interpolate :: "'a::field \<Rightarrow> 'a \<Rightarrow> 'a \<Rightarrow> 'a" where
  "interpolate zero one challenge = zero + challenge * (one - zero)"

text \<open>The unrolled base cases and the halving recursion of \<open>evaluate_exact\<close>, with its assertion on the
  table length.  A read past the table panics, which is \<open>None\<close>, and so does an interpolation of a
  half that panicked.\<close>

definition interpolate_at :: "'a::field list \<Rightarrow> nat \<Rightarrow> nat \<Rightarrow> 'a \<Rightarrow> 'a option" where
  "interpolate_at evals i j r =
     (if i < length evals \<and> j < length evals then Some (interpolate (evals ! i) (evals ! j) r) else None)"

definition interpolate_results :: "'a::field option \<Rightarrow> 'a option \<Rightarrow> 'a \<Rightarrow> 'a option" where
  "interpolate_results zero one r =
     (case zero of None \<Rightarrow> None | Some a \<Rightarrow> (case one of None \<Rightarrow> None | Some b \<Rightarrow> Some (interpolate a b r)))"

function (sequential) evaluate_exact_go :: "'a::field list \<Rightarrow> 'a list \<Rightarrow> 'a option" where
  "evaluate_exact_go evals [] = (if 0 < length evals then Some (evals ! 0) else None)"
| "evaluate_exact_go evals [r0] = interpolate_at evals 0 1 r0"
| "evaluate_exact_go evals [r0, r1] =
     (let a0 = interpolate_at evals 0 1 r0;
          a1 = interpolate_at evals 2 3 r0
      in interpolate_results a0 a1 r1)"
| "evaluate_exact_go evals [r0, r1, r2] =
     (let a00 = interpolate_at evals 0 1 r0;
          a01 = interpolate_at evals 2 3 r0;
          a10 = interpolate_at evals 4 5 r0;
          a11 = interpolate_at evals 6 7 r0;
          a0 = interpolate_results a00 a01 r1;
          a1 = interpolate_results a10 a11 r1
      in interpolate_results a0 a1 r2)"
| "evaluate_exact_go evals [r0, r1, r2, r3] =
     (let a000 = interpolate_at evals 0 1 r0;
          a001 = interpolate_at evals 2 3 r0;
          a010 = interpolate_at evals 4 5 r0;
          a011 = interpolate_at evals 6 7 r0;
          a100 = interpolate_at evals 8 9 r0;
          a101 = interpolate_at evals 10 11 r0;
          a110 = interpolate_at evals 12 13 r0;
          a111 = interpolate_at evals 14 15 r0;
          a00 = interpolate_results a000 a001 r1;
          a01 = interpolate_results a010 a011 r1;
          a10 = interpolate_results a100 a101 r1;
          a11 = interpolate_results a110 a111 r1;
          a0 = interpolate_results a00 a01 r2;
          a1 = interpolate_results a10 a11 r2
      in interpolate_results a0 a1 r3)"
| "evaluate_exact_go evals r =
     (let remaining = butlast r;
          half = length evals div 2;
          zero = take half evals;
          one = drop half evals
      in if length zero \<noteq> 2 ^ length remaining \<or> length one \<noteq> 2 ^ length remaining then None
         else interpolate_results (evaluate_exact_go zero remaining) (evaluate_exact_go one remaining) (last r))"
  by pat_completeness auto
termination
  by (relation "measure (\<lambda>(evals, r). length r)") simp_all

definition evaluate_exact :: "'a::field list \<Rightarrow> 'a list \<Rightarrow> 'a option" where
  "evaluate_exact evals r =
     (if length evals \<noteq> 2 ^ length r then None else evaluate_exact_go evals r)"

definition mle_evaluate :: "'a::field dense_mle \<Rightarrow> 'a list \<Rightarrow> (dense_mle_error + 'a) option" where
  "mle_evaluate self r =
     (if length r \<noteq> mle_num_vars self then Some (Inl WrongPointWidth)
      else map_option Inr (evaluate_exact (evaluations self) r))"

definition make_equality_factors :: "'a::field list \<Rightarrow> dense_mle_error + 'a dense_mle \<times> 'a dense_mle" where
  "make_equality_factors point =
     (let split = length point div 2;
          low = take split point;
          high = drop split point
      in case mle_from_evaluations (length low) (eq_table low) of
           Inl e \<Rightarrow> Inl e
         | Inr low_mle \<Rightarrow>
             (case mle_from_evaluations (length high) (eq_table high) of
                Inl e \<Rightarrow> Inl e
              | Inr high_mle \<Rightarrow> Inr (low_mle, high_mle)))"

record 'a scaled_mle_evaluation_claim =
  sc_point :: "'a list"
  sc_scale :: 'a
  sc_value :: 'a

datatype mle_claim_error = InvalidPolynomial dense_mle_error | InvalidEvaluation

definition nonsuccinct_verify ::
  "'a::field scaled_mle_evaluation_claim \<Rightarrow> 'a dense_mle \<Rightarrow> (mle_claim_error + unit) option" where
  "nonsuccinct_verify self polynomial =
     (case mle_evaluate polynomial (sc_point self) of
        None \<Rightarrow> None
      | Some (Inl e) \<Rightarrow> Some (Inl (InvalidPolynomial e))
      | Some (Inr evaluation) \<Rightarrow>
          Some (if sc_scale self * evaluation \<noteq> sc_value self then Inl InvalidEvaluation else Inr ()))"

section \<open>The \<open>F128\<close> kernels\<close>

definition LOW_BITS :: nat where
  "LOW_BITS = 7"

definition inner_product :: "f128 list \<Rightarrow> f128 list \<Rightarrow> f128 option" where
  "inner_product a b =
     (if length a \<noteq> length b then None
      else Some (wide256_reduce
        (foldl (\<lambda>sum (x, y). wide256_add sum (wide256_mul x y)) wide256_zero (zip a b))))"

definition mle_factors :: "f128 list \<Rightarrow> f128 list \<Rightarrow> (f128 list \<times> f128 list) option" where
  "mle_factors evals point =
     (if length evals \<noteq> 2 ^ length point then None
      else
        let split = min (length point) LOW_BITS
        in Some (eq_table (take split point), eq_table (drop split point)))"

text \<open>\<open>chunks_exact\<close>: consecutive full chunks, a shorter tail is dropped (an empty chunk width
  panics in Rust and does not occur here).\<close>

function chunks_exact :: "nat \<Rightarrow> 'a list \<Rightarrow> 'a list list" where
  "chunks_exact n xs =
     (if n = 0 \<or> length xs < n then [] else take n xs # chunks_exact n (drop n xs))"
  by pat_completeness auto
termination by (relation "measure (\<lambda>(n, xs). length xs)") auto

declare chunks_exact.simps [simp del]

definition evaluate_serial :: "f128 list \<Rightarrow> f128 list \<Rightarrow> f128 option" where
  "evaluate_serial evals point =
     (case mle_factors evals point of
        None \<Rightarrow> None
      | Some (eq_low, eq_high) \<Rightarrow>
          map_option f128_sum
            (those (map (\<lambda>(chunk, weight). map_option (f128_mul weight) (inner_product chunk eq_low))
              (zip (chunks_exact (length eq_low) evals) eq_high))))"

definition mle_evaluate_f128 :: "f128 list \<Rightarrow> f128 list \<Rightarrow> f128 option" where
  "mle_evaluate_f128 evals point = evaluate_serial evals point"

section \<open>Reference definitions\<close>

text \<open>The table built by appending one-children, and the multilinear extension by definition: the
  sum of the entries weighted with the products of the coordinate factors.\<close>

definition eq_weight :: "'a::field list \<Rightarrow> nat \<Rightarrow> 'a" where
  "eq_weight r j = (\<Prod>i<length r. if bit j i then r ! i else 1 - r ! i)"

definition mle_sum :: "'a::field list \<Rightarrow> 'a list \<Rightarrow> 'a" where
  "mle_sum evals r = (\<Sum>j<2 ^ length r. evals ! j * eq_weight r j)"

lemma sum_lessThan_add:
  "(\<Sum>j<m + n. f j) = (\<Sum>j<m. f j) + (\<Sum>j<n. f (m + j))" for f :: "nat \<Rightarrow> 'a::comm_monoid_add"
  by (induction n) (simp_all add: add.assoc)

lemma eq_weight_snoc:
  "eq_weight (r @ [x]) j = eq_weight r j * (if bit j (length r) then x else 1 - x)"
proof -
  have "(\<Prod>i<length r. if bit j i then (r @ [x]) ! i else 1 - (r @ [x]) ! i) = eq_weight r j"
    unfolding eq_weight_def by (intro prod.cong) (simp_all add: nth_append)
  then show ?thesis by (simp add: eq_weight_def [of "r @ [x]"])
qed

lemma eq_weight_add_high:
  "j < 2 ^ length r \<Longrightarrow> eq_weight (r @ [x]) (2 ^ length r + j) = eq_weight r j * x"
proof -
  assume j: "j < 2 ^ length r"
  then have "bit (2 ^ length r + j) (length r)"
    by (simp add: bit_iff_odd div_add_self1)
  moreover have "bit (2 ^ length r + j) i = bit j i" if "i < length r" for i
  proof -
    have "take_bit (length r) (2 ^ length r + j) = take_bit (length r) j"
      by (simp add: take_bit_eq_mod)
    then show ?thesis using that by (metis bit_take_bit_iff)
  qed
  then have "eq_weight r (2 ^ length r + j) = eq_weight r j"
    unfolding eq_weight_def by (intro prod.cong) auto
  ultimately show ?thesis by (simp add: eq_weight_snoc)
qed

lemma eq_weight_low:
  "j < 2 ^ length r \<Longrightarrow> eq_weight (r @ [x]) j = eq_weight r j * (1 - x)"
  by (simp add: eq_weight_snoc bit_iff_odd)

lemma mle_sum_snoc:
  assumes "length evals = 2 ^ Suc (length r)"
  shows "mle_sum evals (r @ [x])
    = interpolate (mle_sum (take (2 ^ length r) evals) r) (mle_sum (drop (2 ^ length r) evals) r) x"
proof -
  let ?n = "2 ^ length r :: nat"
  have "mle_sum evals (r @ [x]) = (\<Sum>j<?n + ?n. evals ! j * eq_weight (r @ [x]) j)"
    by (simp add: mle_sum_def mult_2)
  also have "\<dots> = (\<Sum>j<?n. evals ! j * eq_weight (r @ [x]) j)
      + (\<Sum>j<?n. evals ! (?n + j) * eq_weight (r @ [x]) (?n + j))"
    by (rule sum_lessThan_add)
  also have "(\<Sum>j<?n. evals ! j * eq_weight (r @ [x]) j)
      = (1 - x) * mle_sum (take ?n evals) r"
    unfolding mle_sum_def sum_distrib_left by (intro sum.cong) (simp_all add: eq_weight_low ac_simps)
  also have "(\<Sum>j<?n. evals ! (?n + j) * eq_weight (r @ [x]) (?n + j)) = x * mle_sum (drop ?n evals) r"
    unfolding mle_sum_def sum_distrib_left
  proof (intro sum.cong refl)
    fix j assume "j \<in> {..<?n}"
    with assms have "drop ?n evals ! j = evals ! (?n + j)" "j < ?n" by simp_all
    then show "evals ! (?n + j) * eq_weight (r @ [x]) (?n + j) = x * (drop ?n evals ! j * eq_weight r j)"
      by (simp only: eq_weight_add_high mult_ac)
  qed
  finally show ?thesis by (simp add: interpolate_def algebra_simps)
qed

section \<open>Evaluation\<close>

lemma interpolate_at_take: "i < n \<Longrightarrow> j < n \<Longrightarrow> interpolate_at (take n xs) i j r = interpolate_at xs i j r"
  by (simp add: interpolate_at_def)

lemma interpolate_at_drop: "n \<le> length xs \<Longrightarrow> interpolate_at (drop n xs) i j r = interpolate_at xs (n + i) (n + j) r"
  by (simp add: interpolate_at_def less_diff_conv add.commute)

lemma evaluate_exact_go_snoc:
  assumes "length evals = 2 ^ Suc (length r)"
  shows "evaluate_exact_go evals (r @ [x])
    = interpolate_results (evaluate_exact_go (take (2 ^ length r) evals) r) (evaluate_exact_go (drop (2 ^ length r) evals) r) x"
proof -
  consider "r = []" | a where "r = [a]" | a b where "r = [a, b]" | a b c where "r = [a, b, c]"
    | a b c d r' where "r = a # b # c # d # r'"
    by (metis list.exhaust)
  then show ?thesis
  proof cases
    case 5
    then have "evaluate_exact_go evals (r @ [x]) =
        (if length (take (length evals div 2) evals) \<noteq> 2 ^ length (butlast (r @ [x]))
            \<or> length (drop (length evals div 2) evals) \<noteq> 2 ^ length (butlast (r @ [x])) then None
         else interpolate_results (evaluate_exact_go (take (length evals div 2) evals) (butlast (r @ [x])))
          (evaluate_exact_go (drop (length evals div 2) evals) (butlast (r @ [x]))) (last (r @ [x])))"
      by (cases r') (simp_all only: append_Cons append_Nil evaluate_exact_go.simps(6) Let_def)
    with assms show ?thesis by simp
  next
    case 1
    then show ?thesis using assms by (simp add: interpolate_at_def interpolate_results_def)
  qed (use assms in \<open>simp_all add: Let_def interpolate_at_take interpolate_at_drop\<close>)
qed

lemma evaluate_exact_go_mle_sum:
  "length evals = 2 ^ length r \<Longrightarrow> evaluate_exact_go evals r = Some (mle_sum evals r)"
proof (induction r arbitrary: evals rule: rev_induct)
  case Nil
  then show ?case by (simp add: mle_sum_def eq_weight_def)
next
  case (snoc x r)
  then have "length evals = 2 ^ Suc (length r)" by simp
  with snoc.IH show ?case by (simp add: evaluate_exact_go_snoc mle_sum_snoc interpolate_results_def)
qed

lemma evaluate_exact_mle_sum:
  "evaluate_exact evals r = (if length evals = 2 ^ length r then Some (mle_sum evals r) else None)"
  by (simp add: evaluate_exact_def evaluate_exact_go_mle_sum)

lemma bitlen_power2: "bitlen (2 ^ n) = Suc n"
  by (rule bitlen_unique) simp_all

lemma mle_num_vars_power2: "length (evaluations p) = 2 ^ n \<Longrightarrow> mle_num_vars p = n"
  by (simp add: mle_num_vars_def bitlen_power2)

section \<open>Equality tables\<close>

lemma upt_double: "[0..<n + n] = [0..<n] @ map ((+) n) [0..<n]"
  by (rule nth_equalityI) (simp_all add: nth_append)

lemma eq_table_level_weights:
  "eq_table_level (length r) x (map (eq_weight r) [0..<2 ^ length r] @ rest)
    = map (eq_weight (r @ [x])) [0..<2 ^ Suc (length r)] @ drop (2 ^ length r) rest"
proof -
  let ?n = "2 ^ length r :: nat"
  have "[0..<?n + ?n] = [0..<?n] @ map ((+) ?n) [0..<?n]"
    by (rule upt_double)
  then have "map (eq_weight (r @ [x])) [0..<2 ^ Suc (length r)]
      = map (eq_weight (r @ [x])) [0..<?n] @ map (\<lambda>j. eq_weight (r @ [x]) (?n + j)) [0..<?n]"
    by (simp only: power_Suc mult_2 map_append map_map comp_def)
  also have "\<dots> = map (\<lambda>j. eq_weight r j * (1 - x)) [0..<?n] @ map (\<lambda>j. eq_weight r j * x) [0..<?n]"
    by (simp add: eq_weight_low eq_weight_add_high)
  finally show ?thesis by (simp add: eq_table_level_def Let_def algebra_simps)
qed

lemma eq_table_loop_weights:
  "length rest = 2 ^ (length r + length rs) - 2 ^ length r \<Longrightarrow>
   eq_table_loop (length r) rs (map (eq_weight r) [0..<2 ^ length r] @ rest)
     = map (eq_weight (r @ rs)) [0..<2 ^ (length r + length rs)]"
proof (induction rs arbitrary: r rest)
  case (Cons x rs)
  have l: "length (drop (2 ^ length r) rest) = 2 ^ (length (r @ [x]) + length rs) - 2 ^ length (r @ [x])"
    using Cons.prems by simp
  have "eq_table_loop (length r) (x # rs) (map (eq_weight r) [0..<2 ^ length r] @ rest)
      = eq_table_loop (length (r @ [x])) rs
          (map (eq_weight (r @ [x])) [0..<2 ^ length (r @ [x])] @ drop (2 ^ length r) rest)"
    using eq_table_level_weights [of r x rest] by simp
  also have "\<dots> = map (eq_weight ((r @ [x]) @ rs)) [0..<2 ^ (length (r @ [x]) + length rs)]"
    by (rule Cons.IH [OF l])
  finally show ?case by simp
qed simp

lemma eq_table_weights: "eq_table r = map (eq_weight r) [0..<2 ^ length r]"
proof -
  have "(replicate (2 ^ length r) 0)[0 := 1] = (1 :: 'a) # replicate (2 ^ length r - 1) 0"
    by (cases "2 ^ length r :: nat") simp_all
  then show ?thesis
    using eq_table_loop_weights [of "replicate (2 ^ length r - 1) 0" "[]" r]
    by (simp add: eq_table_def eq_weight_def)
qed

lemma length_eq_table [simp]: "length (eq_table r) = 2 ^ length r"
  by (simp add: eq_table_weights)

lemma foldl_times_prod_list: "foldl (\<lambda>v x. v * f x) a xs = a * prod_list (map f xs)" for a :: "'a::comm_monoid_mult"
  by (induction xs arbitrary: a) (simp_all add: mult.assoc)

lemma eq_eval_prod:
  "eq_eval left right = (if length left = length right
     then Some (\<Prod>i<length left. eq_coordinate (left ! i) (right ! i)) else None)"
proof (cases "length left = length right")
  case True
  have "(\<Prod>i<length left. eq_coordinate (left ! i) (right ! i))
      = prod_list (map (\<lambda>(l, r). eq_coordinate l r) (zip left right))"
    using True by (simp add: prod.list_conv_set_nth atLeast0LessThan)
  moreover have "eq_eval left right = Some (prod_list (map (\<lambda>(l, r). eq_coordinate l r) (zip left right)))"
    using True foldl_times_prod_list [of "\<lambda>(l, r). eq_coordinate l r"]
    by (auto simp: eq_eval_def case_prod_unfold split: list.split)
  ultimately show ?thesis using True by simp
qed (simp add: eq_eval_def)

section \<open>Folding\<close>

lemma eq_weight_Cons: "eq_weight (x # r) (2 * j + of_bool b) = (if b then x else 1 - x) * eq_weight r j"
proof -
  have bits: "bit (2 * j + of_bool b) (Suc i) = bit j i" for i :: nat
    by (cases b) (simp_all add: bit_Suc)
  have "bit (2 * j + of_bool b) 0 = b" by (cases b) (simp_all add: bit_0)
  moreover have "(\<Prod>i<length r. if bit (2 * j + of_bool b) (Suc i) then (x # r) ! Suc i else 1 - (x # r) ! Suc i)
      = eq_weight r j"
    unfolding eq_weight_def by (intro prod.cong) (simp_all add: bits)
  ultimately show ?thesis
    by (simp add: eq_weight_def [of "x # r"] prod.lessThan_Suc_shift del: prod.lessThan_Suc)
qed

lemma sum_double: "(\<Sum>j<2 * n. f j) = (\<Sum>j<n. f (2 * j) + f (2 * j + 1))" for f :: "nat \<Rightarrow> 'a::comm_monoid_add"
  by (induction n) (simp_all add: add.assoc)

lemma mle_sum_Cons:
  assumes "length evals = 2 ^ Suc (length r)"
  shows "mle_sum evals (x # r)
    = mle_sum (map (\<lambda>i. interpolate (evals ! (2 * i)) (evals ! (2 * i + 1)) x) [0..<2 ^ length r]) r"
proof -
  have "mle_sum evals (x # r) = (\<Sum>j<2 ^ length r. evals ! (2 * j) * eq_weight (x # r) (2 * j)
      + evals ! (2 * j + 1) * eq_weight (x # r) (2 * j + 1))"
    by (simp only: mle_sum_def length_Cons power_Suc sum_double)
  also have "\<dots> = (\<Sum>j<2 ^ length r. interpolate (evals ! (2 * j)) (evals ! (2 * j + 1)) x * eq_weight r j)"
  proof (intro sum.cong refl)
    fix j :: nat
    have "eq_weight (x # r) (2 * j) = (1 - x) * eq_weight r j" "eq_weight (x # r) (2 * j + 1) = x * eq_weight r j"
      using eq_weight_Cons [of x r j False] eq_weight_Cons [of x r j True] by simp_all
    then show "evals ! (2 * j) * eq_weight (x # r) (2 * j) + evals ! (2 * j + 1) * eq_weight (x # r) (2 * j + 1)
        = interpolate (evals ! (2 * j)) (evals ! (2 * j + 1)) x * eq_weight r j"
      by (simp only: interpolate_def) (simp add: algebra_simps)
  qed
  finally show ?thesis by (simp add: mle_sum_def)
qed

lemma fold_round_steps:
  "n \<le> length evals div 2 \<Longrightarrow> fold (fold_round_step c) [0..<n] evals
     = map (\<lambda>i. interpolate (evals ! (2 * i)) (evals ! (2 * i + 1)) c) [0..<n] @ drop n evals"
proof (induction n)
  case (Suc n)
  let ?m = "map (\<lambda>i. interpolate (evals ! (2 * i)) (evals ! (2 * i + 1)) c) [0..<n]"
  have n: "n < length evals" "2 * n + 1 < length evals" using Suc.prems by auto
  have at: "(?m @ drop n evals) ! i = evals ! i" if "n \<le> i" "i < length evals" for i
    using that by (simp add: nth_append)
  have "drop n evals = evals ! n # drop (Suc n) evals" using n by (simp add: Cons_nth_drop_Suc)
  with Suc n at show ?case
    by (simp add: fold_round_step_def interpolate_def list_update_append Let_def)
qed simp

lemma fold_round_in_place_map:
  "fold_round_in_place c evals
     = map (\<lambda>i. interpolate (evals ! (2 * i)) (evals ! (2 * i + 1)) c) [0..<length evals div 2]"
  by (simp add: fold_round_in_place_def fold_round_steps Let_def)

lemma fold_rounds_mle_sum:
  "length evals = 2 ^ (length r + length r') \<Longrightarrow>
   length (fold fold_round_in_place r evals) = 2 ^ length r' \<and>
   mle_sum (fold fold_round_in_place r evals) r' = mle_sum evals (r @ r')"
proof (induction r arbitrary: evals)
  case (Cons x r)
  have "length evals = 2 ^ Suc (length (r @ r'))" using Cons.prems by simp
  from mle_sum_Cons [OF this, of x] Cons.prems
  have "mle_sum (fold_round_in_place x evals) (r @ r') = mle_sum evals (x # r @ r')"
    by (simp add: fold_round_in_place_map)
  moreover have "length (fold_round_in_place x evals) = 2 ^ (length r + length r')"
    using Cons.prems by (simp add: fold_round_in_place_map)
  ultimately show ?case using Cons.IH by simp
qed simp

section \<open>The chunked evaluator\<close>

lemma prod_lessThan_add:
  "(\<Prod>j<m + n. f j) = (\<Prod>j<m. f j) * (\<Prod>j<n. f (m + j))" for f :: "nat \<Rightarrow> 'a::comm_monoid_mult"
  by (induction n) (simp_all add: mult.assoc)

lemma eq_weight_append:
  assumes "j < 2 ^ length a"
  shows "eq_weight (a @ b) (j + 2 ^ length a * k) = eq_weight a j * eq_weight b k"
proof -
  let ?n = "length a" let ?x = "j + 2 ^ ?n * k"
  have "take_bit ?n ?x = j" using assms by (simp add: take_bit_eq_mod)
  then have low: "bit ?x i = bit j i" if "i < ?n" for i using that by (metis bit_take_bit_iff)
  have "drop_bit ?n ?x = k" using assms by (simp add: drop_bit_eq_div)
  then have high: "bit ?x (?n + i) = bit k i" for i by (metis bit_drop_bit_eq comp_apply)
  have "eq_weight (a @ b) ?x = (\<Prod>i<?n. if bit ?x i then (a @ b) ! i else 1 - (a @ b) ! i)
      * (\<Prod>i<length b. if bit ?x (?n + i) then (a @ b) ! (?n + i) else 1 - (a @ b) ! (?n + i))"
    by (simp only: eq_weight_def length_append prod_lessThan_add)
  also have "\<dots> = eq_weight a j * eq_weight b k"
    unfolding eq_weight_def by (intro arg_cong2 [of _ _ _ _ "(*)"] prod.cong) (auto simp: low high nth_append)
  finally show ?thesis .
qed

lemma sum_lessThan_mult:
  "(\<Sum>i<m * n. f i) = (\<Sum>k<n. \<Sum>j<m. f (j + m * k))" for f :: "nat \<Rightarrow> 'a::comm_monoid_add"
proof (induction n)
  case (Suc n)
  have m: "m * Suc n = m * n + m" by simp
  have "(\<Sum>i<m * Suc n. f i) = (\<Sum>i<m * n. f i) + (\<Sum>j<m. f (j + m * n))"
    unfolding m sum_lessThan_add by (simp only: add.commute)
  then show ?case by (simp add: Suc)
qed simp

lemma mle_sum_append:
  "mle_sum evals (a @ b)
   = (\<Sum>k<2 ^ length b. (\<Sum>j<2 ^ length a. evals ! (j + 2 ^ length a * k) * eq_weight a j) * eq_weight b k)"
  unfolding mle_sum_def length_append power_add sum_lessThan_mult sum_distrib_right
  by (intro sum.cong) (simp_all add: eq_weight_append mult.assoc)

lemma chunks_exact_map:
  "0 < m \<Longrightarrow> length xs = m * n \<Longrightarrow> chunks_exact m xs = map (\<lambda>k. take m (drop (m * k) xs)) [0..<n]"
proof (induction n arbitrary: xs)
  case (Suc n)
  have "length (drop m xs) = m * n" using Suc.prems by simp
  with Suc have "chunks_exact m (drop m xs) = map (\<lambda>k. take m (drop (m * k) (drop m xs))) [0..<n]" by blast
  with Suc.prems show ?case
    by (simp add: chunks_exact.simps [of m xs] upt_conv_Cons map_Suc_upt [symmetric] comp_def add.commute
        del: upt_Suc)
qed (simp add: chunks_exact.simps)

lemma length_chunk: "m * k + m \<le> length xs \<Longrightarrow> length (take m (drop (m * k) xs)) = m"
  by simp

lemma nth_chunk: "m * k + m \<le> length xs \<Longrightarrow> j < m \<Longrightarrow> take m (drop (m * k) xs) ! j = xs ! (j + m * k)"
  by (simp add: add.commute)

lemma inner_product_sum:
  assumes "length a = length b"
  shows "inner_product a b = Some (\<Sum>i<length a. a ! i * b ! i)"
proof -
  have "wide256_reduce (foldl (\<lambda>s (x, y). wide256_add s (wide256_mul x y)) w ps)
      = wide256_reduce w + sum_list (map (\<lambda>(x, y). x * y) ps)" for w ps
    by (induction ps arbitrary: w) (auto simp: wide256_reduce_add wide256_reduce_mul add.assoc)
  with assms show ?thesis
    by (simp add: inner_product_def wide256_reduce_zero sum.list_conv_set_nth atLeast0LessThan)
qed

lemma those_Some: "(\<And>x. x \<in> set xs \<Longrightarrow> f x = Some (g x)) \<Longrightarrow> those (map f xs) = Some (map g xs)"
  by (induction xs) auto

lemma evaluate_serial_mle_sum:
  "evaluate_serial evals point = (if length evals = 2 ^ length point then Some (mle_sum evals point) else None)"
proof (cases "length evals = 2 ^ length point")
  case True
  let ?a = "take (min (length point) LOW_BITS) point" and ?b = "drop (min (length point) LOW_BITS) point"
  let ?m = "2 ^ length ?a :: nat" and ?n = "2 ^ length ?b :: nat"
  have p: "point = ?a @ ?b" by simp
  have len: "length evals = ?m * ?n"
    unfolding True by (subst p) (simp only: length_append power_add)
  let ?chunk = "\<lambda>k. take ?m (drop (?m * k) evals)"
  have chunks: "chunks_exact ?m evals = map ?chunk [0..<?n]"
    using len by (intro chunks_exact_map) auto
  let ?g = "\<lambda>k. eq_weight ?b k * (\<Sum>j<?m. evals ! (j + ?m * k) * eq_weight ?a j)"
  have ip: "inner_product (?chunk k) (eq_table ?a) = Some (\<Sum>j<?m. evals ! (j + ?m * k) * eq_weight ?a j)"
    if "k < ?n" for k
  proof -
    have "?m * k + ?m \<le> ?m * ?n" using that mult_le_mono2 [of "Suc k" ?n ?m] by simp
    then have l: "length (?chunk k) = ?m" by (intro length_chunk) (simp only: len)
    then have "inner_product (?chunk k) (eq_table ?a) = Some (\<Sum>j<?m. ?chunk k ! j * eq_table ?a ! j)"
      by (subst inner_product_sum) simp_all
    also have "(\<Sum>j<?m. ?chunk k ! j * eq_table ?a ! j) = (\<Sum>j<?m. evals ! (j + ?m * k) * eq_weight ?a j)"
    proof (intro sum.cong refl)
      fix j assume j: "j \<in> {..<?m}"
      then have "?chunk k ! j = evals ! (j + ?m * k)"
        using \<open>?m * k + ?m \<le> ?m * ?n\<close> by (intro nth_chunk) (simp_all only: len lessThan_iff)
      with j show "?chunk k ! j * eq_table ?a ! j = evals ! (j + ?m * k) * eq_weight ?a j"
        by (simp only: eq_table_weights lessThan_iff) simp
    qed
    finally show ?thesis .
  qed
  have "zip (chunks_exact ?m evals) (eq_table ?b) = map (\<lambda>k. (?chunk k, eq_weight ?b k)) [0..<?n]"
    unfolding chunks eq_table_weights [of ?b] by (simp add: zip_map_map map_zip_map)
      (simp add: zip_same_conv_map)
  then have "those (map (\<lambda>(chunk, weight). map_option (f128_mul weight) (inner_product chunk (eq_table ?a)))
      (zip (chunks_exact ?m evals) (eq_table ?b))) = Some (map ?g [0..<?n])"
    using ip by (simp add: comp_def) (intro those_Some, simp)
  then have "evaluate_serial evals point = Some (sum_list (map ?g [0..<?n]))"
    using True by (simp add: evaluate_serial_def mle_factors_def Let_def f128_sum_sum_list)
  also have "sum_list (map ?g [0..<?n]) = mle_sum evals (?a @ ?b)"
    unfolding mle_sum_append by (simp add: interv_sum_list_conv_sum_set_nat atLeast0LessThan mult.commute)
  finally show ?thesis using True p by simp
qed (simp add: evaluate_serial_def mle_factors_def)

section \<open>Properties\<close>

text \<open>The equality table: entry \<open>j\<close> is the equality polynomial between the point and the bits
  of \<open>j\<close>, lowest bit first, and \<open>eq_eval\<close> on Boolean vectors is the indicator of equality.\<close>

theorem eq_table_correct:
  "length (eq_table r) = 2 ^ length r
   \<and> (\<forall>j<2 ^ length r. eq_eval (map (\<lambda>i. of_bool (bit j i)) [0..<length r]) r = Some (eq_table r ! j))
   \<and> (\<forall>x y :: bool list. length x = length y \<longrightarrow>
        eq_eval (map of_bool x) (map of_bool y) = Some (of_bool (x = y) :: 'a::field))"
proof (intro conjI allI impI)
  fix j :: nat assume "j < 2 ^ length r"
  moreover have "eq_weight r j = (\<Prod>i<length r. eq_coordinate (of_bool (bit j i)) (r ! i))"
    unfolding eq_weight_def by (intro prod.cong) (auto simp: eq_coordinate_def)
  ultimately show "eq_eval (map (\<lambda>i. of_bool (bit j i)) [0..<length r]) r = Some (eq_table r ! j)"
    by (simp add: eq_eval_prod eq_table_weights)
next
  fix x y :: "bool list" assume l: "length x = length y"
  have c: "eq_coordinate (of_bool a) (of_bool b) = (of_bool (a = b) :: 'a)" for a b
    by (cases a; cases b) (simp_all add: eq_coordinate_def)
  have "(\<Prod>i<length x. of_bool (x ! i = y ! i) :: 'a) = of_bool (x = y)"
  proof (cases "x = y")
    case False
    with l obtain i where "i < length x" "x ! i \<noteq> y ! i" by (auto simp: list_eq_iff_nth_eq)
    then have "(\<Prod>i<length x. of_bool (x ! i = y ! i) :: 'a) = 0" by (auto intro!: prod_zero)
    with False show ?thesis by simp
  qed simp
  with l show "eq_eval (map of_bool x) (map of_bool y) = Some (of_bool (x = y) :: 'a)"
    by (simp add: eq_eval_prod c)
qed simp

theorem eq_table_correct_witness:
  "eq_table [f128_GENERATOR, 1] = [0, 0, 1 + f128_GENERATOR, f128_GENERATOR]
   \<and> eq_eval [0, 1] [f128_GENERATOR, 1] = Some (1 + f128_GENERATOR)"
proof -
  have t: "eq_table [f128_GENERATOR, 1] = [0, 0, 1 + f128_GENERATOR, f128_GENERATOR]"
    by (simp add: eq_table_def eq_table_level_def numeral_2_eq_2 Let_def)
  moreover have "[0..<2] = [0, 1 :: nat]" by (simp add: upt_rec)
  moreover have "bit (2 :: nat) 1" "\<not> bit (2 :: nat) 0" by (simp_all add: bit_0)
  ultimately show ?thesis
    using eq_table_correct [of "[f128_GENERATOR, 1]", THEN conjunct2, THEN conjunct1, rule_format, of 2]
    by (simp add: numeral_3_eq_3 eval_nat_numeral)
qed

text \<open>C38: All evaluators compute the multilinear extension: the unrolled and recursive generic
  evaluator returns the sum of the entries weighted by the equality table, \<open>WrongPointWidth\<close> is
  returned exactly for a point of another width, and it never panics on a well-formed table.\<close>

theorem mle_evaluate_correct:
  assumes "length (evaluations p) = 2 ^ n"
  shows "mle_evaluate p r = Some (if length r = n
    then Inr (\<Sum>j<2 ^ n. evaluations p ! j * eq_table r ! j) else Inl WrongPointWidth)"
proof -
  have "mle_num_vars p = n" by (rule mle_num_vars_power2 [OF assms])
  moreover have "mle_sum (evaluations p) r = (\<Sum>j<2 ^ n. evaluations p ! j * eq_table r ! j)" if "length r = n"
    using that unfolding mle_sum_def by (intro sum.cong) (simp_all add: eq_table_weights)
  ultimately show ?thesis using assms by (simp add: mle_evaluate_def evaluate_exact_mle_sum)
qed

theorem mle_evaluate_correct_witness:
  "mle_evaluate \<lparr>evaluations = [f128_GENERATOR, 1]\<rparr> [1] = Some (Inr 1)
   \<and> mle_evaluate \<lparr>evaluations = [f128_GENERATOR, 1]\<rparr> [] = Some (Inl WrongPointWidth)"
proof -
  have "eq_table [1 :: f128] = [0, 1]" by (simp add: eq_table_def eq_table_level_def Let_def numeral_2_eq_2)
  then show ?thesis
    using mle_evaluate_correct [of "\<lparr>evaluations = [f128_GENERATOR, 1]\<rparr>" 1 "[1]"]
      mle_evaluate_correct [of "\<lparr>evaluations = [f128_GENERATOR, 1]\<rparr>" 1 "[]"]
    by (simp add: numeral_2_eq_2)
qed

text \<open>C39: Folding fixes the lowest variables: the in-place rounds (whose writes overtake no pending
  read) leave a table whose evaluation at the remaining coordinates is the original table's at the
  whole point.\<close>

theorem mle_fold_partial_evaluation:
  assumes "length (evaluations p) = 2 ^ (length r + length r')"
  shows "\<exists>p'. mle_fold p r = Inr p' \<and> length (evaluations p') = 2 ^ length r'
    \<and> mle_evaluate p' r' = mle_evaluate p (r @ r')"
proof -
  let ?p' = "\<lparr>evaluations = fold fold_round_in_place r (evaluations p)\<rparr>"
  have n: "mle_num_vars p = length r + length r'" by (rule mle_num_vars_power2 [OF assms])
  then have "mle_fold p r = Inr ?p'" by (simp add: mle_fold_def)
  moreover have l: "length (evaluations ?p') = 2 ^ length r'"
    "mle_sum (evaluations ?p') r' = mle_sum (evaluations p) (r @ r')"
    using fold_rounds_mle_sum [OF assms] by simp_all
  moreover have "mle_num_vars ?p' = length r'" by (rule mle_num_vars_power2 [OF l(1)])
  ultimately show ?thesis
    using n assms by (intro exI [of _ ?p']) (simp add: mle_evaluate_def evaluate_exact_mle_sum)
qed

theorem mle_fold_partial_evaluation_witness:
  "\<exists>p'. mle_fold \<lparr>evaluations = [f128_GENERATOR, 1, 0, 1]\<rparr> [1] = Inr p' \<and> length (evaluations p') = 2
    \<and> mle_evaluate p' [0] = mle_evaluate \<lparr>evaluations = [f128_GENERATOR, 1, 0, 1]\<rparr> [1, 0]"
  using mle_fold_partial_evaluation [of "\<lparr>evaluations = [f128_GENERATOR, 1, 0, 1]\<rparr>" "[1]" "[0]"] by simp

text \<open>The factored \<open>F128\<close> evaluator (chunks of \<open>2^7\<close> entries, deferred reduction, one
  multiplication per chunk) agrees with the generic one on every table, and panics exactly when
  the widths differ.\<close>

theorem mle_f128_kernel_agrees:
  "mle_evaluate_f128 evals point = evaluate_exact evals point"
  by (simp add: mle_evaluate_f128_def evaluate_serial_mle_sum evaluate_exact_mle_sum)

end
