(* ===== verification/Common_Fold.thy ===== *)
theory Common_Fold
  imports Common_Params Poly_Mle
begin

text \<open>
  The column fold and its reconstruction: \<open>crates/common/src/fold.rs\<close>, and the role setups that
  derive the comb table, \<open>crates/prover/src/setup.rs\<close> and \<open>crates/verifier/src/setup.rs\<close>.

  Folds are \<open>u128\<close> and added with wrap-around, as a release build does; that no sum wraps is part
  of what is proved.
\<close>

section \<open>Folding\<close>

datatype fold_error = ColumnCountMismatch | RowCountMismatch

lemma and_pred_less: "r \<noteq> 0 \<Longrightarrow> unat (r AND (r - 1)) < unat (r :: u128)"
proof -
  assume r: "r \<noteq> 0"
  have "unat (r AND (r - 1)) \<le> unat (r - 1)" by (simp add: word_and_le1 flip: word_le_nat_alt)
  also have "\<dots> < unat r" using r by (simp add: unat_minus_one unat_gt_0)
  finally show ?thesis .
qed

text \<open>The loop over the set bits of one word.  Indexing past the exps panics.\<close>

function fold_word :: "u128 list \<Rightarrow> nat \<Rightarrow> u128 \<Rightarrow> u128 \<Rightarrow> u128 option" where
  "fold_word exps base remaining tot =
     (if remaining = 0 then Some tot
      else let i = base + trailing_zeros remaining
           in if i < length exps
              then fold_word exps base (remaining AND (remaining - 1)) (tot + exps ! i)
              else None)"
  by pat_completeness auto

termination by (relation "measure (\<lambda>(_, _, r, _). unat r)") (auto simp: and_pred_less)

declare fold_word.simps [simp del]

fun fold_words :: "u128 list \<Rightarrow> nat \<Rightarrow> u128 list \<Rightarrow> u128 \<Rightarrow> u128 option" where
  "fold_words exps base [] tot = Some tot"
| "fold_words exps base (element # rest) tot =
     (case fold_word exps base element tot of
        None \<Rightarrow> None
      | Some tot \<Rightarrow> fold_words exps (base + WORD_BITS) rest tot)"

definition fold_column :: "bit_table \<Rightarrow> u128 list \<Rightarrow> nat \<Rightarrow> u128 option" where
  "fold_column table exps column =
     (case bit_table_column table column of
        None \<Rightarrow> None
      | Some elements \<Rightarrow> fold_words exps 0 elements 0)"

definition fold_columns :: "bit_table \<Rightarrow> u128 list \<Rightarrow> u128 list option" where
  "fold_columns table exps =
     those (map (fold_column table exps) [0..<shape_columns (bt_shape table)])"

definition column_images :: "fixed_base_pow \<Rightarrow> u128 list \<Rightarrow> f128 list option" where
  "column_images comb folds = those (map (\<lambda>f. fbp_pow comb (unat f)) folds)"

definition row_images :: "fixed_base_pow \<Rightarrow> u128 list \<Rightarrow> f128 list option" where
  "row_images comb exps = those (map (\<lambda>e. fbp_pow comb (unat e)) exps)"

text \<open>\<open>F::from(fold) * weight\<close>, summed; the outer option is a panic of the field.\<close>

definition reconstruct :: "claim_field \<Rightarrow> u128 linear_claim \<Rightarrow> u128 list \<Rightarrow> (fold_error + u128) option" where
  "reconstruct F claim folds =
     (if length folds \<noteq> length (column_weights claim) then Some (Inl ColumnCountMismatch)
      else map_option Inr (Option.bind
        (those (map (\<lambda>(weight, f). Option.bind (cf_from F f) (\<lambda>v. cf_mul F v weight))
           (zip (column_weights claim) folds)))
        (cf_sum F)))"

section \<open>The round state\<close>

record fold_state =
  fs_folds :: "u128 list"
  fs_images :: "f128 dense_mle"
  fs_row_images :: "f128 list"
  fs_zeta :: "f128 list"
  fs_e0 :: f128

definition fold_new ::
  "shape \<Rightarrow> u128 list \<Rightarrow> f128 list \<Rightarrow> f128 list \<Rightarrow> f128 list \<Rightarrow> (fold_error + fold_state) option" where
  "fold_new sh folds images rows zeta =
     (if length rows \<noteq> shape_rows sh then Some (Inl RowCountMismatch)
      else if length folds \<noteq> shape_columns sh then Some (Inl ColumnCountMismatch)
      else case mle_from_evaluations (log_columns sh) images of
          Inl _ \<Rightarrow> Some (Inl ColumnCountMismatch)
        | Inr images \<Rightarrow>
            (case mle_evaluate images zeta of
               None \<Rightarrow> None
             | Some (Inl _) \<Rightarrow> Some (Inl ColumnCountMismatch)
             | Some (Inr e0) \<Rightarrow>
                 Some (Inr \<lparr>fs_folds = folds, fs_images = images, fs_row_images = rows, fs_zeta = zeta,
                   fs_e0 = e0\<rparr>)))"

section \<open>The role setups\<close>

record bitz_prover =
  pr_params :: bitz_params
  pr_comb :: fixed_base_pow

definition bitz_prover_new :: "bitz_params \<Rightarrow> nat \<Rightarrow> bitz_prover option" where
  "bitz_prover_new params window =
     map_option (\<lambda>comb. \<lparr>pr_params = params, pr_comb = comb\<rparr>) (fbp_new (bp_generator params) window)"

record bitz_verifier =
  vr_params :: bitz_params
  vr_comb :: fixed_base_pow
  vr_fold_bound :: u128

definition bitz_verifier_new :: "claim_field \<Rightarrow> bitz_params \<Rightarrow> nat \<Rightarrow> bitz_verifier option" where
  "bitz_verifier_new F params window =
     (case fbp_new (bp_generator params) window of
        None \<Rightarrow> None
      | Some comb \<Rightarrow>
          (case fold_bound F params of
             None \<Rightarrow> None
           | Some bound \<Rightarrow> Some \<lparr>vr_params = params, vr_comb = comb, vr_fold_bound = bound\<rparr>))"

section \<open>One word\<close>

lemma trailing_zeros_nat_bit:
  "0 < n \<Longrightarrow> bit n (trailing_zeros_nat n) \<and> (\<forall>i < trailing_zeros_nat n. \<not> bit n i)"
proof (induction n rule: trailing_zeros_nat.induct)
  case (1 n)
  show ?case
  proof (cases "odd n")
    case True
    then show ?thesis by (simp add: trailing_zeros_nat.simps [of n] bit_0)
  next
    case False
    with 1 have ih: "bit (n div 2) (trailing_zeros_nat (n div 2))"
      "\<forall>i < trailing_zeros_nat (n div 2). \<not> bit (n div 2) i" by auto
    have "trailing_zeros_nat n = Suc (trailing_zeros_nat (n div 2))"
      using 1(2) False by (simp add: trailing_zeros_nat.simps [of n])
    then show ?thesis using ih False by (auto simp: bit_Suc less_Suc_eq_0_disj bit_0)
  qed
qed

lemma trailing_zeros_bit:
  assumes "r \<noteq> 0"
  shows "bit r (trailing_zeros r)" "i < trailing_zeros r \<Longrightarrow> \<not> bit (r :: u128) i"
  using trailing_zeros_nat_bit [of "unat r"] assms
  by (auto simp: trailing_zeros_def bit_unsigned_iff unat_gt_0 dest: bit_imp_le_length)

lemma clear_lowest_bit:
  assumes "r \<noteq> 0"
  shows "r AND (r - 1) = unset_bit (trailing_zeros r) (r :: u128)"
proof -
  let ?t = "trailing_zeros r" let ?u = "unset_bit (trailing_zeros r) r"
  note t = trailing_zeros_bit [OF assms]
  have tl: "?t < 128" using bit_imp_le_length [OF t(1)] by simp
  have u: "r = ?u OR push_bit ?t 1"
    by (rule bit_word_eqI)
      (auto simp: bit_or_iff bit_unset_bit_iff bit_exp_iff t(1))
  have "?u AND push_bit ?t 1 = 0"
    by (rule bit_word_eqI) (auto simp: bit_and_iff bit_unset_bit_iff bit_exp_iff)
  then have "r = ?u + push_bit ?t 1" by (subst u) (simp add: disjunctive_add_eq_or)
  then have "r - 1 = ?u + mask ?t" by (simp add: mask_eq_exp_minus_1 push_bit_eq_mult algebra_simps)
  also have "\<dots> = ?u OR mask ?t"
  proof -
    have "?u AND mask ?t = 0"
      by (rule bit_word_eqI) (auto simp: bit_and_iff bit_unset_bit_iff bit_mask_iff t(2))
    then show ?thesis by (simp add: disjunctive_add_eq_or)
  qed
  finally show ?thesis
    by (intro bit_word_eqI)
      (auto simp: bit_and_iff bit_or_iff bit_unset_bit_iff bit_mask_iff t(2))
qed

lemma fold_word_sum:
  assumes "base + 128 \<le> length exps"
  shows "fold_word exps base r tot
    = Some (tot + (\<Sum>i | i < 128 \<and> bit r i. exps ! (base + i)))"
  using assms
proof (induction exps base r tot rule: fold_word.induct)
  case (1 exps base r tot)
  show ?case
  proof (cases "r = 0")
    case True
    then show ?thesis by (simp add: fold_word.simps)
  next
    case False
    let ?t = "trailing_zeros r"
    note t = trailing_zeros_bit [OF False]
    have tl: "?t < 128" using bit_imp_le_length [OF t(1)] by simp
    have eq: "{i. i < 128 \<and> bit r i} = insert ?t {i. i < 128 \<and> bit (unset_bit ?t r) i}"
      using t(1) tl by (auto simp: bit_unset_bit_iff)
    have "(\<Sum>i | i < 128 \<and> bit r i. exps ! (base + i))
        = exps ! (base + ?t) + (\<Sum>i | i < 128 \<and> bit (unset_bit ?t r) i. exps ! (base + i))"
      unfolding eq by (subst sum.insert) (auto simp: bit_unset_bit_iff)
    then show ?thesis
      using "1.IH" [OF False refl] "1.prems" tl False
      by (subst fold_word.simps) (simp add: clear_lowest_bit Let_def add.assoc)
  qed
qed

section \<open>One column\<close>

text \<open>The integer fold: the exponents of the set rows.\<close>

definition column_sum :: "u128 list \<Rightarrow> (nat \<Rightarrow> bool) \<Rightarrow> nat" where
  "column_sum exps b = (\<Sum>i<length exps. if b i then unat (exps ! i) else 0)"

lemma sum_blocks: "(\<Sum>i<128 * n. f i) = (\<Sum>k<n. \<Sum>j<128. f (128 * k + j))" for f :: "nat \<Rightarrow> 'a::comm_monoid_add"
proof (induction n)
  case (Suc n)
  have "128 * Suc n = 128 * n + 128" by simp
  then show ?case by (simp only: sum_lessThan_add Suc sum.lessThan_Suc)
qed simp

lemma fold_words_sum:
  assumes "base + 128 * length ws \<le> length exps"
  shows "fold_words exps base ws tot
    = Some (tot + (\<Sum>i<128 * length ws. if packed_bit ws i then exps ! (base + i) else 0))"
  using assms
proof (induction ws arbitrary: base tot)
  case (Cons w ws)
  have head: "(\<Sum>i | i < 128 \<and> bit w i. exps ! (base + i))
      = (\<Sum>i<128. if packed_bit (w # ws) i then exps ! (base + i) else 0)"
  proof -
    have "(\<Sum>i | i < 128 \<and> bit w i. exps ! (base + i)) = (\<Sum>i<128. if bit w i then exps ! (base + i) else 0)"
      by (simp add: sum.inter_filter [symmetric] Collect_conj_eq lessThan_def Int_commute)
    also have "\<dots> = (\<Sum>i<128. if packed_bit (w # ws) i then exps ! (base + i) else 0)"
      by (rule sum.cong) (simp_all add: packed_bit_def)
    finally show ?thesis .
  qed
  have tail: "packed_bit (w # ws) (128 + i) = packed_bit ws i" for i
  proof -
    have "(128 + i) div 128 = i div 128 + 1" by (rule div_add_self1) simp
    then show ?thesis by (simp add: packed_bit_def)
  qed
  have len: "128 * length (w # ws) = 128 + 128 * length ws" by simp
  have "(\<Sum>i<128 * length (w # ws). if packed_bit (w # ws) i then exps ! (base + i) else 0)
      = (\<Sum>i<128. if packed_bit (w # ws) i then exps ! (base + i) else 0)
        + (\<Sum>i<128 * length ws. if packed_bit ws i then exps ! (base + 128 + i) else 0)"
    unfolding len sum_lessThan_add by (simp only: tail add.assoc)
  moreover have "fold_word exps base w tot
      = Some (tot + (\<Sum>i<128. if packed_bit (w # ws) i then exps ! (base + i) else 0))"
    using Cons.prems fold_word_sum [of base exps w tot] by (simp add: head)
  moreover have "base + 128 + 128 * length ws \<le> length exps" using Cons.prems by simp
  ultimately show ?case
    using Cons.IH [of "base + 128"] by (simp only: fold_words.simps option.case WORD_BITS_def) (simp add: add.assoc)
qed simp

lemma unat_sum_small:
  "(\<Sum>i<(n :: nat). unat (f i :: u128)) < 2 ^ 128 \<Longrightarrow> unat (\<Sum>i<n. f i) = (\<Sum>i<n. unat (f i))"
proof (induction n)
  case (Suc n)
  then show ?case using unat_add_lem [of "\<Sum>i<n. f i" "f n"] by simp
qed simp

text \<open>The bit of the table at a row of a column.\<close>

definition table_bit :: "bit_table \<Rightarrow> nat \<Rightarrow> nat \<Rightarrow> bool" where
  "table_bit t column row = packed_bit (bt_packed t) (column * shape_rows (bt_shape t) + row)"

lemma fold_column_sum:
  assumes t: "table_ok t" and c: "column < shape_columns (bt_shape t)"
    and len: "length exps = shape_rows (bt_shape t)"
    and small: "column_sum exps (table_bit t column) < 2 ^ 128"
  shows "\<exists>eta. fold_column t exps column = Some eta \<and> unat eta = column_sum exps (table_bit t column)"
proof -
  obtain ws where ws: "bit_table_column t column = Some ws" "length ws = shape_rows (bt_shape t) div 128"
    "\<And>row. row < shape_rows (bt_shape t) \<Longrightarrow> packed_bit ws row = table_bit t column row"
    using bit_table_column_words [OF t c] unfolding table_bit_def by metis
  have n: "128 * length ws = shape_rows (bt_shape t)"
    using shape_ok_bounds(4) [of "bt_shape t"] t ws(2) by (simp add: table_ok_def)
  have "fold_column t exps column
      = Some (\<Sum>i<128 * length ws. if packed_bit ws i then exps ! i else 0)"
    using fold_words_sum [of 0 ws exps 0, unfolded add_0] ws(1) n len by (simp add: fold_column_def)
  also have "(\<Sum>i<128 * length ws. if packed_bit ws i then exps ! i else 0)
      = (\<Sum>i<length exps. if table_bit t column i then exps ! i else 0)"
    unfolding n len by (rule sum.cong) (simp_all add: ws(3))
  finally have f: "fold_column t exps column = Some (\<Sum>i<length exps. if table_bit t column i then exps ! i else 0)" .
  have "column_sum exps (table_bit t column) = (\<Sum>i<length exps. unat (if table_bit t column i then exps ! i else 0))"
    unfolding column_sum_def by (rule sum.cong) simp_all
  then show ?thesis using f small unat_sum_small [of "\<lambda>i. if table_bit t column i then exps ! i else 0" "length exps"]
    by simp
qed

lemma column_sum_bound:
  assumes "\<And>e. e \<in> set exps \<Longrightarrow> unat e \<le> m"
  shows "column_sum exps b \<le> length exps * m"
proof -
  have "column_sum exps b \<le> (\<Sum>i<length exps. m)"
    unfolding column_sum_def by (rule sum_mono) (simp add: assms)
  then show ?thesis by simp
qed

lemma those_map_Some: "(\<And>x. x \<in> set xs \<Longrightarrow> f x = Some (g x)) \<Longrightarrow> those (map f xs) = Some (map g xs)"
  by (induction xs) simp_all

section \<open>All columns, their images and the reconstruction\<close>

lemma fold_columns_sums:
  assumes t: "table_ok t" and len: "length exps = shape_rows (bt_shape t)"
    and small: "\<And>e. e \<in> set exps \<Longrightarrow> unat e \<le> m" "length exps * m < 2 ^ 128"
  obtains etas where "fold_columns t exps = Some etas" "length etas = shape_columns (bt_shape t)"
    "\<And>j. j < shape_columns (bt_shape t) \<Longrightarrow> unat (etas ! j) = column_sum exps (table_bit t j)"
    "\<And>eta. eta \<in> set etas \<Longrightarrow> unat eta \<le> length exps * m"
proof -
  let ?n = "shape_columns (bt_shape t)"
  define g where "g j = (word_of_nat (column_sum exps (table_bit t j)) :: u128)" for j
  have b: "column_sum exps (table_bit t j) \<le> length exps * m" for j
    by (rule column_sum_bound) (rule small(1))
  have u: "unat (g j) = column_sum exps (table_bit t j)" for j
    using b [of j] small(2) by (simp add: g_def unat_of_nat)
  have f: "fold_column t exps j = Some (g j)" if jn: "j < ?n" for j
  proof -
    obtain eta where "fold_column t exps j = Some eta" "unat eta = column_sum exps (table_bit t j)"
      using fold_column_sum [OF t jn len] b [of j] small(2) by auto
    then show ?thesis by (metis u word_unat_eq_iff)
  qed
  have "fold_columns t exps = Some (map g [0..<?n])"
    unfolding fold_columns_def by (rule those_map_Some) (simp add: f)
  then show thesis by (rule that) (use u b in auto)
qed

lemma column_images_eq:
  assumes "fbp_new g win = Some comb"
  shows "column_images comb folds = Some (map (\<lambda>f. g ^ unat f) folds)"
  unfolding column_images_def
proof (rule those_map_Some)
  fix f :: u128
  show "fbp_pow comb (unat f) = Some (g ^ unat f)" by (rule fbp_correct [OF assms]) (use unat_lt2p [of f] in simp)
qed

lemma row_images_eq:
  assumes "fbp_new g win = Some comb"
  shows "row_images comb folds = Some (map (\<lambda>f. g ^ unat f) folds)"
  unfolding row_images_def
proof (rule those_map_Some)
  fix f :: u128
  show "fbp_pow comb (unat f) = Some (g ^ unat f)" by (rule fbp_correct [OF assms]) (use unat_lt2p [of f] in simp)
qed

text \<open>The homomorphism: the image of a fold is the product of the images of the set rows.\<close>

lemma image_of_column_sum:
  "(g :: f128) ^ column_sum exps b = (\<Prod>i<length exps. if b i then g ^ unat (exps ! i) else 1)"
  unfolding column_sum_def power_sum by (rule prod.cong) simp_all

lemma reconstruct_value:
  assumes F: "claim_field_ok F" and len: "length folds = length (column_weights claim)"
    and w: "\<And>w. w \<in> set (column_weights claim) \<Longrightarrow> w < cf_modulus F"
  shows "\<exists>v. reconstruct F claim folds = Some (Inr v) \<and>
    unat v = (\<Sum>j<length folds. unat (folds ! j) * unat (column_weights claim ! j)) mod unat (cf_modulus F)"
proof -
  let ?q = "cf_modulus F" and ?zs = "zip (column_weights claim) folds"
  have q: "0 < unat ?q" using claim_field_okD(1) [OF F] by simp
  define h where "h z = (word_of_nat (unat (snd z) mod unat ?q * unat (fst z) mod unat ?q) :: u128)"
    for z :: "u128 \<times> u128"
  have uh: "unat (h z) = unat (snd z) * unat (fst z) mod unat ?q" for z
  proof -
    have "unat (snd z) mod unat ?q * unat (fst z) mod unat ?q < 2 ^ 128"
      using mod_less_divisor [OF q, of "unat (snd z) mod unat ?q * unat (fst z)"] unat_lt2p [of ?q] by simp
    then show ?thesis by (simp add: h_def unat_of_nat mod_mult_left_eq)
  qed
  have step: "Option.bind (cf_from F f) (\<lambda>v. cf_mul F v weight) = Some (h (weight, f))"
    if "(weight, f) \<in> set ?zs" for weight f
  proof -
    have "weight < ?q" using that w by (auto dest: set_zip_leftD)
    moreover have "f mod ?q < ?q" using q by (simp add: word_less_nat_alt unat_mod)
    ultimately obtain v where v: "cf_mul F (f mod ?q) weight = Some v"
      "unat v = unat (f mod ?q) * unat weight mod unat ?q"
      using F unfolding claim_field_ok_def by meson
    then have "v = h (weight, f)" by (simp add: word_unat_eq_iff uh unat_mod mod_mult_left_eq)
    then show ?thesis using v(1) claim_field_okD(6) [OF F] by simp
  qed
  have those: "those (map (\<lambda>(weight, f). Option.bind (cf_from F f) (\<lambda>v. cf_mul F v weight)) ?zs)
      = Some (map h ?zs)"
    by (rule those_map_Some) (use step in auto)
  have "\<forall>x\<in>set (map h ?zs). x < ?q" using q by (auto simp: word_less_nat_alt uh)
  from cf_sum_correct [OF F this]
  obtain v where v: "cf_sum F (map h ?zs) = Some v"
    "unat v = sum_list (map unat (map h ?zs)) mod unat ?q" by blast
  have "sum_list (map unat (map h ?zs))
      = (\<Sum>j<length folds. unat (folds ! j) * unat (column_weights claim ! j) mod unat ?q)"
    using len by (simp add: sum_list_sum_nth uh atLeast0LessThan)
  then have "unat v = (\<Sum>j<length folds. unat (folds ! j) * unat (column_weights claim ! j)) mod unat ?q"
    using v(2) by (simp add: mod_sum_eq)
  then show ?thesis using v(1) those len by (simp add: reconstruct_def)
qed

section \<open>Properties\<close>

text \<open>A claim that matches the parameters: reduced weights, one per row and column.\<close>

definition claim_ok :: "claim_field \<Rightarrow> shape \<Rightarrow> u128 linear_claim \<Rightarrow> bool" where
  "claim_ok F sh claim \<longleftrightarrow> length (row_weights claim) = shape_rows sh
     \<and> length (column_weights claim) = shape_columns sh
     \<and> (\<forall>w\<in>set (row_weights claim) \<union> set (column_weights claim). w < cf_modulus F)"

text \<open>The value that a claim's weights give on a table.\<close>

definition claim_value :: "claim_field \<Rightarrow> u128 linear_claim \<Rightarrow> (nat \<Rightarrow> nat \<Rightarrow> bool) \<Rightarrow> nat" where
  "claim_value F claim b =
     (\<Sum>j<length (column_weights claim). \<Sum>i<length (row_weights claim).
        if b j i then unat (row_weights claim ! i) * unat (column_weights claim ! j) else 0)
     mod unat (cf_modulus F)"

lemma claim_okD:
  assumes "claim_field_ok F" "claim_ok F sh claim"
  shows "length (row_exponents F claim) = shape_rows sh" "row_exponents F claim = row_weights claim"
    "e \<in> set (row_exponents F claim) \<Longrightarrow> unat e \<le> unat (cf_modulus F) - 1"
proof -
  have eq: "row_exponents F claim = row_weights claim"
    using claim_field_okD(4) [OF assms(1)] by (simp add: row_exponents_def map_idI)
  then show "length (row_exponents F claim) = shape_rows sh" "row_exponents F claim = row_weights claim"
    using assms(2) by (simp_all add: claim_ok_def)
  show "unat e \<le> unat (cf_modulus F) - 1" if "e \<in> set (row_exponents F claim)"
  proof -
    have "e < cf_modulus F" using that assms(2) by (simp add: eq claim_ok_def)
    then show ?thesis by (simp add: word_less_nat_alt)
  qed
qed

lemma honest_folds:
  assumes F: "claim_field_ok F" and p: "shape_rows sh * unat (cf_modulus F) < 2 ^ 128 - 1"
    and c: "claim_ok F sh claim" and t: "table_ok t" "bt_shape t = sh"
  obtains etas where "fold_columns t (row_exponents F claim) = Some etas"
    "length etas = shape_columns sh"
    "\<And>j. j < shape_columns sh \<Longrightarrow> unat (etas ! j) = column_sum (row_exponents F claim) (table_bit t j)"
    "\<And>eta. eta \<in> set etas \<Longrightarrow> unat eta \<le> shape_rows sh * (unat (cf_modulus F) - 1)"
proof -
  note cd = claim_okD [OF F c]
  have "shape_rows sh * (unat (cf_modulus F) - 1) \<le> shape_rows sh * unat (cf_modulus F)" by simp
  also have "\<dots> < 2 ^ 128" using p by simp
  finally have "length (row_exponents F claim) * (unat (cf_modulus F) - 1) < 2 ^ 128" using cd(1) by simp
  from fold_columns_sums [OF t(1) _ cd(3) this] that cd(1) t(2) show thesis by metis
qed

lemma honest_reconstruct:
  assumes F: "claim_field_ok F" and c: "claim_ok F sh claim" and len: "length etas = shape_columns sh"
    and etas: "\<And>j. j < shape_columns sh \<Longrightarrow> unat (etas ! j) = column_sum (row_exponents F claim) (table_bit t j)"
  shows "\<exists>v. reconstruct F claim etas = Some (Inr v) \<and> unat v = claim_value F claim (table_bit t)"
proof -
  have cl: "length (column_weights claim) = shape_columns sh" using c by (simp add: claim_ok_def)
  obtain v where v: "reconstruct F claim etas = Some (Inr v)"
    "unat v = (\<Sum>j<length etas. unat (etas ! j) * unat (column_weights claim ! j)) mod unat (cf_modulus F)"
    using reconstruct_value [OF F, of etas claim] len cl c by (auto simp: claim_ok_def)
  have "(\<Sum>j<length etas. unat (etas ! j) * unat (column_weights claim ! j))
      = (\<Sum>j<length (column_weights claim). \<Sum>i<length (row_weights claim).
          if table_bit t j i then unat (row_weights claim ! i) * unat (column_weights claim ! j) else 0)"
    unfolding len cl
  proof (rule sum.cong [OF refl])
    fix j assume "j \<in> {..<shape_columns sh}"
    then show "unat (etas ! j) * unat (column_weights claim ! j)
        = (\<Sum>i<length (row_weights claim).
            if table_bit t j i then unat (row_weights claim ! i) * unat (column_weights claim ! j) else 0)"
      by (simp add: etas column_sum_def claim_okD(2) [OF F c] sum_distrib_right) (rule sum.cong, auto)
  qed
  then show ?thesis using v by (simp add: claim_value_def)
qed

lemma fold_round:
  assumes "claim_field_ok F" "shape_ok sh" "bitz_params_new F sh g = Inr params" "claim_ok F sh claim"
    "table_ok t" "bt_shape t = sh" "fbp_new g win = Some comb"
  shows "\<exists>etas bound v images rows.
    fold_columns t (row_exponents F claim) = Some etas \<and> length etas = shape_columns sh \<and>
    fold_bound F params = Some bound \<and>
    column_images comb etas = Some images \<and> row_images comb (row_exponents F claim) = Some rows \<and>
    (\<forall>j < shape_columns sh. etas ! j \<le> bound \<and>
       unat (etas ! j) = column_sum (row_weights claim) (table_bit t j) \<and>
       images ! j = (\<Prod>i < shape_rows sh. if table_bit t j i then rows ! i else f128_ONE)) \<and>
    reconstruct F claim etas = Some (Inr v) \<and> unat v = claim_value F claim (table_bit t)"
proof -
  have p: "params = \<lparr>bp_shape = sh, bp_generator = g\<rparr>" "shape_rows sh * unat (cf_modulus F) < 2 ^ 128 - 1"
    using assms(3) by (simp_all add: bitz_params_new_ok [OF assms(2)])
  note cd = claim_okD [OF assms(1,4)]
  obtain etas where e: "fold_columns t (row_exponents F claim) = Some etas" "length etas = shape_columns sh"
    "\<And>j. j < shape_columns sh \<Longrightarrow> unat (etas ! j) = column_sum (row_exponents F claim) (table_bit t j)"
    "\<And>eta. eta \<in> set etas \<Longrightarrow> unat eta \<le> shape_rows sh * (unat (cf_modulus F) - 1)"
    using honest_folds [OF assms(1) p(2) assms(4-6)] by metis
  obtain bound where b: "fold_bound F params = Some bound"
    "unat bound = shape_rows sh * (unat (cf_modulus F) - 1)"
    using fold_bound_eq [of params F] assms(1,2) p by auto
  obtain v where v: "reconstruct F claim etas = Some (Inr v)" "unat v = claim_value F claim (table_bit t)"
    using honest_reconstruct [OF assms(1,4) e(2,3)] by blast
  let ?rows = "map (\<lambda>f. g ^ unat f) (row_exponents F claim)"
  have im: "g ^ unat (etas ! j) = (\<Prod>i < shape_rows sh. if table_bit t j i then ?rows ! i else f128_ONE)"
    if "j < shape_columns sh" for j
    unfolding e(3) [OF that] image_of_column_sum cd(1) one_f128_def [symmetric]
    by (rule prod.cong) (simp_all add: cd(1))
  have le: "etas ! j \<le> bound" if "j < shape_columns sh" for j
    using e(4) [of "etas ! j"] that e(2) b(2) by (simp add: word_le_nat_alt)
  have images: "column_images comb etas = Some (map (\<lambda>f. g ^ unat f) etas)"
    "row_images comb (row_exponents F claim) = Some ?rows"
    by (rule column_images_eq [OF assms(7)], rule row_images_eq [OF assms(7)])
  show ?thesis
    by (rule exI [of _ etas], rule exI [of _ bound], rule exI [of _ v],
        rule exI [of _ "map (\<lambda>f. g ^ unat f) etas"], rule exI [of _ ?rows])
      (use e(1,2,3) b(1) v le im images cd(2) in simp)
qed

text \<open>C33: The fold round of an honest prover.  Under the fold gate, with a claim that fits the shape,
  \<open>fold_columns\<close> succeeds and gives for every column the exact integer sum of the exponents of its
  set rows (no addition wraps); each fold is at most the bound the verifier checks; \<open>reconstruct\<close>
  returns the value of the claim's weights on the table modulo \<open>q\<close>; and the image of a fold is the
  product of the row images of its set rows, which is the statement the grand product proves.\<close>

theorem fold_round_honest:
  assumes "claim_field_ok F" "shape_ok sh" "bitz_params_new F sh g = Inr params" "claim_ok F sh claim"
    "table_ok t" "bt_shape t = sh" "fbp_new g win = Some comb"
  shows "\<exists>etas bound v images rows.
    fold_columns t (row_exponents F claim) = Some etas \<and> length etas = shape_columns sh \<and>
    fold_bound F params = Some bound \<and>
    column_images comb etas = Some images \<and> row_images comb (row_exponents F claim) = Some rows \<and>
    (\<forall>j < shape_columns sh. etas ! j \<le> bound \<and>
       unat (etas ! j) = column_sum (row_weights claim) (table_bit t j) \<and>
       images ! j = (\<Prod>i < shape_rows sh. if table_bit t j i then rows ! i else f128_ONE)) \<and>
    reconstruct F claim etas = Some (Inr v) \<and> unat v = claim_value F claim (table_bit t)"
  using assms by (rule fold_round)

lemma generator_powers_inj:
  assumes "is_generator a"
  shows "inj_on (\<lambda>k. a ^ k) {..<2 ^ 128 - 1 :: nat}"
proof (rule eq_card_imp_inj_on)
  have "(\<lambda>k. a ^ k) ` {..<2 ^ 128 - 1} = (\<lambda>k. f128_GENERATOR ^ k) ` {..<2 ^ 128 - 1 :: nat}"
    using assms GENERATOR_generates by (simp only: is_generator_iff generates_def)
  also have "card \<dots> = card {..<2 ^ 128 - 1 :: nat}"
    by (rule card_image [OF powers_inj [OF X_power_one X_order]])
  finally show "card ((\<lambda>k. a ^ k) ` {..<2 ^ 128 - 1}) = card {..<2 ^ 128 - 1 :: nat}" .
qed simp

text \<open>What the gates of \<open>BitZParams::new\<close> buy: on the range that the verifier's bound admits, a
  fold is determined by its image, so range-checked folds are bound by the images that enter the
  grand product.\<close>

theorem fold_images_injective:
  assumes "claim_field_ok F" "shape_ok sh" "bitz_params_new F sh g = Inr params"
    "fbp_new (bp_generator params) win = Some comb" "fold_bound F params = Some bound"
    "\<forall>f\<in>set folds \<union> set folds'. f \<le> bound"
    "column_images comb folds = column_images comb folds'"
  shows "folds = folds'"
proof -
  have p: "params = \<lparr>bp_shape = sh, bp_generator = g\<rparr>" "shape_rows sh * unat (cf_modulus F) < 2 ^ 128 - 1"
    "is_generator g" using assms(3) by (simp_all add: bitz_params_new_ok [OF assms(2)])
  have "unat bound = shape_rows sh * (unat (cf_modulus F) - 1)"
    using fold_bound_eq [of params F] assms(1,2,5) p by auto
  also have "\<dots> \<le> shape_rows sh * unat (cf_modulus F)" by simp
  also note p(2)
  finally have lt: "unat bound < 2 ^ 128 - 1" .
  have b: "unat f \<in> {..<2 ^ 128 - 1}" if "f \<in> set folds \<union> set folds'" for f
  proof -
    have "unat f \<le> unat bound" using assms(6) that by (simp only: word_le_nat_alt [symmetric])
    with lt show ?thesis by (simp only: lessThan_iff)
  qed
  have inj: "inj_on (\<lambda>f. g ^ unat f) (set folds \<union> set folds')"
    by (rule inj_onI) (metis b generator_powers_inj [OF p(3)] inj_onD word_unat_eq_iff)
  have "map (\<lambda>f. g ^ unat f) folds = map (\<lambda>f. g ^ unat f) folds'"
    using assms(7) by (simp add: column_images_eq [OF assms(4)] p(1))
  then show ?thesis by (rule map_inj_on [OF _ inj])
qed

theorem fold_images_injective_witness:
  "column_images (the (fbp_new f128_GENERATOR 8)) [767, 0] \<noteq> column_images (the (fbp_new f128_GENERATOR 8)) [767, 1]"
proof
  assume eq: "column_images (the (fbp_new f128_GENERATOR 8)) [767, 0] = column_images (the (fbp_new f128_GENERATOR 8)) [767, 1]"
  let ?sh = "\<lparr>log_rows = 7, log_columns = 13\<rparr> :: shape" and ?p = "\<lparr>bp_shape = \<lparr>log_rows = 7, log_columns = 13\<rparr>, bp_generator = f128_GENERATOR\<rparr>"
  have F: "claim_field_ok (fq_field 7)" by (rule fq_field_ok [OF fq_META_7])
  have sh: "shape_ok ?sh" by (simp add: shape_ok_def log_bits_def)
  have p: "bitz_params_new (fq_field 7) ?sh f128_GENERATOR = Inr ?p"
    using bitz_params_new_ok [OF sh] GENERATOR_generates by (simp add: shape_rows_def fq_field_def)
  have comb: "fbp_new (bp_generator ?p) 8 = Some (the (fbp_new f128_GENERATOR 8))"
    by (simp add: fbp_new_def Let_def)
  have bound: "fold_bound (fq_field 7) ?p = Some 768"
    using fq_META_7
    by (simp add: fold_bound_def fq_field_def fq_max_value_def fq_lift_def checked_mul_def shape_rows_def)
  have "[767, 0 :: u128] = [767, 1]"
    by (rule fold_images_injective [OF F sh p comb bound _ eq]) simp
  then show False by simp
qed

text \<open>A concrete instance: 128 rows, 8192 columns, all bits set, modulus 7.\<close>

definition sample_shape :: shape where
  "sample_shape = \<lparr>log_rows = 7, log_columns = 13\<rparr>"

definition sample_claim :: "u128 linear_claim" where
  "sample_claim = \<lparr>row_weights = replicate 128 3, column_weights = replicate 8192 2, target = 0\<rparr>"

definition sample_table :: bit_table where
  "sample_table = \<lparr>bt_shape = sample_shape, bt_packed = replicate 8192 (- 1)\<rparr>"

lemma sample_ok:
  "claim_field_ok (fq_field 7)" "shape_ok sample_shape" "claim_ok (fq_field 7) sample_shape sample_claim"
  "table_ok sample_table" "bt_shape sample_table = sample_shape"
  "bitz_params_new (fq_field 7) sample_shape f128_GENERATOR
    = Inr \<lparr>bp_shape = sample_shape, bp_generator = f128_GENERATOR\<rparr>"
proof -
  show "claim_field_ok (fq_field 7)" by (rule fq_field_ok [OF fq_META_7])
  show ok: "shape_ok sample_shape" by (simp add: shape_ok_def sample_shape_def log_bits_def)
  show "bt_shape sample_table = sample_shape" by (simp add: sample_table_def)
  show "claim_ok (fq_field 7) sample_shape sample_claim"
    by (simp add: claim_ok_def sample_shape_def sample_claim_def shape_rows_def shape_columns_def fq_field_def)
  show "table_ok sample_table"
    using ok by (simp add: table_ok_def sample_table_def sample_shape_def log_bits_def)
  have "shape_rows sample_shape * unat (cf_modulus (fq_field 7)) < 2 ^ 128 - 1" "7 \<le> log_columns sample_shape"
    by (simp_all add: sample_shape_def shape_rows_def fq_field_def)
  then show "bitz_params_new (fq_field 7) sample_shape f128_GENERATOR
    = Inr \<lparr>bp_shape = sample_shape, bp_generator = f128_GENERATOR\<rparr>"
    using bitz_params_new_ok [OF ok] GENERATOR_generates by simp
qed

theorem fold_round_honest_witness:
  "\<exists>etas. fold_columns sample_table (row_exponents (fq_field 7) sample_claim) = Some etas \<and> unat (etas ! 9) = 384"
proof -
  obtain comb where comb: "fbp_new f128_GENERATOR 8 = Some comb" by (simp add: fbp_new_def Let_def)
  have b: "table_bit sample_table 9 i" if "i < 128" for i
  proof -
    have "(1152 + i) div 128 < 8192" using that by (intro less_mult_imp_div_less) simp
    then show ?thesis
      by (simp add: table_bit_def sample_table_def sample_shape_def shape_rows_def packed_bit_def bit_minus_1_iff)
  qed
  have "column_sum (row_weights sample_claim) (table_bit sample_table 9) = (\<Sum>i<(128 :: nat). 3)"
    unfolding column_sum_def by (rule sum.cong) (simp_all add: sample_claim_def b)
  moreover have "9 < shape_columns sample_shape" by (simp add: sample_shape_def shape_columns_def)
  ultimately have c: "column_sum (row_weights sample_claim) (table_bit sample_table 9) = 384"
    "9 < shape_columns sample_shape" by simp_all
  from fold_round_honest [OF sample_ok(1,2,6,3,4,5) comb] obtain etas where
    e: "fold_columns sample_table (row_exponents (fq_field 7) sample_claim) = Some etas"
    "\<forall>j < shape_columns sample_shape. unat (etas ! j) = column_sum (row_weights sample_claim) (table_bit sample_table j)"
    by (elim exE conjE) (rule that, assumption, simp)
  from e(2) c have "unat (etas ! 9) = 384" by metis
  with e(1) show ?thesis by blast
qed

end
