(* ===== verification/Common_Virtual.thy ===== *)
theory Common_Virtual
  imports Common_Fold
begin

text \<open>
  Claims on virtual bits \<open>h = M (1 || f)\<close> and their rewriting onto the committed bits \<open>f\<close>:
  \<open>crates/common/src/virtual_map.rs\<close>.

  The trait \<open>VirtualMap\<close> is the record \<open>virtual_map\<close> of its four methods.  \<open>virtual_map_ok\<close> is the
  documented contract of the trait for a bit matrix \<open>M\<close>; \<open>query_holds\<close> says what an opening query
  claims about a vector of bits.
\<close>

datatype virtual_map_error =
  PointLengthMismatch | ClaimWeightCountMismatch | WeightCountMismatch | WeightsOutnumberCommittedBits

record transposed_weights =
  tw_weights :: "f128 list"
  tw_constant :: f128

definition adjusted_target :: "transposed_weights \<Rightarrow> f128 \<Rightarrow> f128" where
  "adjusted_target self t = t - tw_constant self"

record virtual_map =
  vm_transpose :: "f128 list \<Rightarrow> virtual_map_error + transposed_weights"
  vm_digest :: "u8 list"
  vm_h_len :: nat
  vm_f_len :: nat

datatype virtual_statement_error = StatementParameters virtual_params_error | StatementClaim claim_error

record virtual_statement =
  st_params :: virtual_params
  st_map :: virtual_map
  st_claim :: "u128 linear_claim"

definition virtual_statement_new ::
  "bitz_params \<Rightarrow> shape \<Rightarrow> virtual_map \<Rightarrow> u128 linear_claim \<Rightarrow> virtual_statement_error + virtual_statement" where
  "virtual_statement_new claim_params committed_shape m claim =
     (case virtual_params_new claim_params committed_shape (vm_h_len m) (vm_f_len m) of
        Inl e \<Rightarrow> Inl (StatementParameters e)
      | Inr params \<Rightarrow>
          if length (row_weights claim) \<noteq> shape_rows (bp_shape claim_params)
          then Inl (StatementClaim RowWeightCountMismatch)
          else if length (column_weights claim) \<noteq> shape_columns (bp_shape claim_params)
          then Inl (StatementClaim ColumnWeightCountMismatch)
          else Inr \<lparr>st_params = params, st_map = m, st_claim = claim\<rparr>)"

text \<open>Chunks of length zero panic.\<close>

definition flatten :: "f128 list \<Rightarrow> f128 list \<Rightarrow> f128 list option" where
  "flatten rows columns =
     (if rows = [] then None
      else Some (concat (map (\<lambda>scale. map (\<lambda>row. scale * row) rows) columns)))"

definition query_weights :: "shape \<Rightarrow> opening_query \<Rightarrow> (virtual_map_error + f128 list \<times> f128) option" where
  "query_weights sh query =
     (case query of
        Mle point t \<Rightarrow>
          if length point \<noteq> log_bits sh then Some (Inl PointLengthMismatch)
          else Some (Inr (eq_table point, t))
      | InnerProduct claim \<Rightarrow>
          if length (row_weights claim) \<noteq> shape_rows sh \<or> length (column_weights claim) \<noteq> shape_columns sh
          then Some (Inl ClaimWeightCountMismatch)
          else map_option (\<lambda>w. Inr (w, target claim)) (flatten (row_weights claim) (column_weights claim)))"

definition transpose_query ::
  "virtual_statement \<Rightarrow> opening_query \<Rightarrow> (virtual_map_error + opening_query) option" where
  "transpose_query self query =
     (case query_weights (bp_shape (vp_claim (st_params self))) query of
        None \<Rightarrow> None
      | Some (Inl e) \<Rightarrow> Some (Inl e)
      | Some (Inr (weights, t)) \<Rightarrow>
          (case vm_transpose (st_map self) weights of
             Inl e \<Rightarrow> Some (Inl e)
           | Inr transposed \<Rightarrow>
               if vm_f_len (st_map self) = 0
                 \<or> length (tw_weights transposed) \<noteq> vm_f_len (st_map self) - 1
               then Some (Inl WeightCountMismatch)
               else
                 let t = adjusted_target transposed t;
                     weights = tw_weights transposed;
                     committed_bits = 2 ^ log_bits (vp_committed (st_params self))
                 in if committed_bits < length weights then Some (Inl WeightsOutnumberCommittedBits)
                    else
                      let weights = weights @ replicate (committed_bits - length weights) f128_ZERO
                      in case shape_new (log_bits (vp_committed (st_params self))) 0 of
                           Inl _ \<Rightarrow> None
                         | Inr sh \<Rightarrow>
                             (case linear_claim_from_shape sh weights [f128_from_u64 1] t of
                                Inl _ \<Rightarrow> Some (Inl WeightCountMismatch)
                              | Inr claim \<Rightarrow> Some (Inr (InnerProduct claim)))))"

section \<open>What a query claims\<close>

text \<open>The sum of the weights of the set positions.\<close>

definition bit_weight :: "f128 list \<Rightarrow> (nat \<Rightarrow> bool) \<Rightarrow> f128" where
  "bit_weight w b = (\<Sum>i<length w. of_bool (b i) * w ! i)"

definition query_holds :: "shape \<Rightarrow> (nat \<Rightarrow> bool) \<Rightarrow> opening_query \<Rightarrow> bool" where
  "query_holds sh b query =
     (case query of
        Mle point t \<Rightarrow> length point = log_bits sh \<and> bit_weight (eq_table point) b = t
      | InnerProduct claim \<Rightarrow>
          length (row_weights claim) = shape_rows sh \<and> length (column_weights claim) = shape_columns sh \<and>
          (\<Sum>j<length (column_weights claim). \<Sum>i<length (row_weights claim).
             of_bool (b (j * length (row_weights claim) + i)) * (row_weights claim ! i * column_weights claim ! j))
          = target claim)"

text \<open>The contract of \<open>VirtualMap\<close> for the matrix \<open>M\<close> over the two-element field, with \<open>h_len\<close> rows
  and \<open>f_len\<close> columns, the first of which multiplies the constant one.\<close>

definition virtual_map_ok :: "virtual_map \<Rightarrow> (nat \<Rightarrow> nat \<Rightarrow> bool) \<Rightarrow> bool" where
  "virtual_map_ok m M \<longleftrightarrow> 0 < vm_f_len m \<and>
     (\<forall>w. vm_h_len m \<le> length w \<longrightarrow> vm_transpose m w = Inr
        \<lparr>tw_weights = map (\<lambda>j. \<Sum>i<vm_h_len m. of_bool (M i (Suc j)) * w ! i) [0..<vm_f_len m - 1],
         tw_constant = (\<Sum>i<vm_h_len m. of_bool (M i 0) * w ! i)\<rparr>)"

definition virtual_bits :: "virtual_map \<Rightarrow> (nat \<Rightarrow> nat \<Rightarrow> bool) \<Rightarrow> (nat \<Rightarrow> bool) \<Rightarrow> nat \<Rightarrow> bool" where
  "virtual_bits m M f i \<longleftrightarrow> i < vm_h_len m \<and>
     odd (card {j. j < vm_f_len m \<and> M i j \<and> (case j of 0 \<Rightarrow> True | Suc k \<Rightarrow> f k)})"

lemma f128_two: "(1 :: f128) + 1 = 0"
  by (metis diff_self f128_minus_eq_plus)

lemma f128_of_nat: "(of_nat n :: f128) = of_bool (odd n)"
  by (induction n) (auto simp: f128_two)

lemma of_bool_parity:
  assumes "finite A"
  shows "of_bool (odd (card {j \<in> A. P j})) = (\<Sum>j\<in>A. of_bool (P j) :: f128)"
proof -
  have "(\<Sum>j\<in>A. of_bool (P j) :: f128) = of_nat (card (A \<inter> {j. P j}))"
    by (rule sum_of_bool_eq [OF assms assms])
  moreover have "A \<inter> {j. P j} = {j \<in> A. P j}" by blast
  ultimately show ?thesis by (simp only: f128_of_nat)
qed

lemma length_flatten: "length (concat (map (\<lambda>s. map (g s) rows) cols)) = length rows * length cols"
  by (induction cols) simp_all

lemma nth_flatten:
  "j < length cols \<Longrightarrow> i < length rows \<Longrightarrow>
   concat (map (\<lambda>s. map (g s) rows) cols) ! (j * length rows + i) = g (cols ! j) (rows ! i)"
proof (induction cols arbitrary: j)
  case (Cons c cols)
  show ?case
  proof (cases j)
    case (Suc k)
    then show ?thesis using Cons by (simp add: nth_append add.assoc)
  qed (use Cons in \<open>simp add: nth_append\<close>)
qed simp

lemma sum_grid: "(\<Sum>i<r * c. f i) = (\<Sum>j<c. \<Sum>i<r. f (j * r + i))" for f :: "nat \<Rightarrow> 'a::comm_monoid_add"
proof (induction c)
  case (Suc c)
  have "r * Suc c = c * r + r" by simp
  then show ?case by (simp only: sum_lessThan_add Suc.IH [unfolded mult.commute [of r]] sum.lessThan_Suc)
qed simp

lemma query_weights_value:
  assumes "shape_ok sh" "query_weights sh query = Some (Inr (w, t))"
  shows "length w = 2 ^ log_bits sh \<and> (query_holds sh b query \<longleftrightarrow> bit_weight w b = t)"
proof (cases query)
  case (Mle point t')
  then show ?thesis using assms(2) by (auto simp: query_weights_def query_holds_def split: if_splits)
next
  case (InnerProduct claim)
  let ?r = "row_weights claim" and ?c = "column_weights claim"
  have l: "length ?r = shape_rows sh" "length ?c = shape_columns sh"
    and w: "w = concat (map (\<lambda>scale. map (\<lambda>row. scale * row) ?r) ?c)" "t = target claim"
    using assms(2) InnerProduct by (auto simp: query_weights_def flatten_def split: if_splits)
  have lw: "length w = length ?r * length ?c" unfolding w by (rule length_flatten)
  have "bit_weight w b = (\<Sum>j<length ?c. \<Sum>i<length ?r. of_bool (b (j * length ?r + i)) * w ! (j * length ?r + i))"
    unfolding bit_weight_def lw by (rule sum_grid)
  also have "\<dots> = (\<Sum>j<length ?c. \<Sum>i<length ?r. of_bool (b (j * length ?r + i)) * (?r ! i * ?c ! j))"
    by (intro sum.cong refl) (simp add: w nth_flatten mult.commute)
  finally show ?thesis
    using InnerProduct l lw w(2) shape_ok_bounds(5) [OF assms(1)] by (simp add: query_holds_def)
qed

text \<open>\<open>\<langle>w, M (1 || f)\<rangle> = \<langle>M\<^sup>T w, (1 || f)\<rangle>\<close>.\<close>

lemma transpose_adjoint:
  assumes "virtual_map_ok m M" "vm_h_len m \<le> length w" "vm_transpose m w = Inr tw"
  shows "bit_weight w (virtual_bits m M f) = tw_constant tw + bit_weight (tw_weights tw) f"
proof -
  let ?h = "vm_h_len m" and ?n = "vm_f_len m"
  define x where "x j = (case j of 0 \<Rightarrow> True | Suc k \<Rightarrow> f k)" for j
  have n: "?n = Suc (?n - 1)" using assms(1) by (simp add: virtual_map_ok_def)
  have "Inr tw = (Inr \<lparr>tw_weights = map (\<lambda>j. \<Sum>i<?h. of_bool (M i (Suc j)) * w ! i) [0..<?n - 1],
         tw_constant = (\<Sum>i<?h. of_bool (M i 0) * w ! i)\<rparr> :: virtual_map_error + transposed_weights)"
    unfolding assms(3) [symmetric]
    by (rule assms(1) [unfolded virtual_map_ok_def, THEN conjunct2, rule_format, OF assms(2)])
  then have tw: "tw_weights tw = map (\<lambda>j. \<Sum>i<?h. of_bool (M i (Suc j)) * w ! i) [0..<?n - 1]"
    "tw_constant tw = (\<Sum>i<?h. of_bool (M i 0) * w ! i)" by (simp_all only: sum.inject transposed_weights.simps)
  have "bit_weight w (virtual_bits m M f) = (\<Sum>i<?h. of_bool (virtual_bits m M f i) * w ! i)"
    unfolding bit_weight_def by (rule sum.mono_neutral_right) (use assms(2) in \<open>auto simp: virtual_bits_def\<close>)
  also have "\<dots> = (\<Sum>i<?h. \<Sum>j<?n. of_bool (M i j \<and> x j) * w ! i)"
  proof (rule sum.cong [OF refl])
    fix i assume "i \<in> {..<?h}"
    then have "virtual_bits m M f i \<longleftrightarrow> odd (card {j \<in> {..<?n}. M i j \<and> x j})"
      by (simp add: virtual_bits_def x_def)
    then show "of_bool (virtual_bits m M f i) * w ! i = (\<Sum>j<?n. of_bool (M i j \<and> x j) * w ! i)"
      by (simp only: of_bool_parity [OF finite_lessThan] sum_distrib_right)
  qed
  also have "\<dots> = (\<Sum>j<?n. \<Sum>i<?h. of_bool (M i j \<and> x j) * w ! i)" by (rule sum.swap)
  also have "\<dots> = (\<Sum>j<?n. of_bool (x j) * (\<Sum>i<?h. of_bool (M i j) * w ! i))"
    by (intro sum.cong refl) (auto simp: sum_distrib_left intro!: sum.cong)
  also have "\<dots> = tw_constant tw + bit_weight (tw_weights tw) f"
    by (subst n, subst sum.lessThan_Suc_shift) (simp add: x_def tw bit_weight_def)
  finally show ?thesis .
qed

lemma bit_weight_pad: "bit_weight (w @ replicate k 0) b = bit_weight w b"
proof -
  have "bit_weight (w @ replicate k 0) b = (\<Sum>i<length w + k. of_bool (b i) * (w @ replicate k 0) ! i)"
    by (simp only: bit_weight_def length_append length_replicate)
  also have "\<dots> = (\<Sum>i<length w. of_bool (b i) * (w @ replicate k 0) ! i)
      + (\<Sum>i<k. of_bool (b (length w + i)) * (w @ replicate k 0) ! (length w + i))"
    by (rule sum_lessThan_add)
  also have "(\<Sum>i<k. of_bool (b (length w + i)) * (w @ replicate k 0) ! (length w + i)) = 0"
    by (rule sum.neutral) (simp add: nth_append_length_plus)
  also have "(\<Sum>i<length w. of_bool (b i) * (w @ replicate k 0) ! i) = bit_weight w b"
    unfolding bit_weight_def by (rule sum.cong) (simp_all add: nth_append)
  finally show ?thesis by simp
qed

lemma f128_from_u64_1: "f128_from_u64 1 = 1"
  unfolding one_f128_def f128_ONE_def f128_from_u64_def by (rule refl)

lemma single_column_holds:
  assumes "length w = 2 ^ k"
  shows "query_holds \<lparr>log_rows = k, log_columns = 0\<rparr> b
      (InnerProduct \<lparr>row_weights = w, column_weights = [1], target = t\<rparr>) \<longleftrightarrow> bit_weight w b = t"
  using assms by (simp add: query_holds_def shape_rows_def shape_columns_def bit_weight_def
      del: sum_of_bool_mult_eq)

section \<open>Properties\<close>

lemma transpose_query_holds:
  assumes "virtual_map_ok m M" "shape_ok (bp_shape claim_params)" "shape_ok committed"
    "virtual_statement_new claim_params committed m claim = Inr st"
    "query_weights (bp_shape claim_params) query = Some (Inr wt)"
  shows "\<exists>c. transpose_query st query = Some (Inr (InnerProduct c)) \<and>
    (\<forall>f. query_holds \<lparr>log_rows = log_bits committed, log_columns = 0\<rparr> f (InnerProduct c)
      \<longleftrightarrow> query_holds (bp_shape claim_params) (virtual_bits m M f) query)"
proof -
  obtain w t where wt: "wt = (w, t)" by (cases wt)
  let ?sh = "bp_shape claim_params" and ?k = "log_bits committed"
  let ?one = "\<lparr>log_rows = log_bits committed, log_columns = 0\<rparr> :: shape"
  have st: "st_map st = m" "vp_claim (st_params st) = claim_params" "vp_committed (st_params st) = committed"
    and dims: "vm_h_len m \<le> 2 ^ log_bits ?sh" "vm_f_len m - 1 \<le> 2 ^ ?k"
    using assms(4) by (auto simp: virtual_statement_new_def virtual_params_new_def Let_def not_less
        split: sum.splits if_splits)
  note w = query_weights_value [OF assms(2) assms(5) [unfolded wt]]
  have n: "0 < vm_f_len m" using assms(1) by (simp add: virtual_map_ok_def)
  obtain tw where tw: "vm_transpose m w = Inr tw" "length (tw_weights tw) = vm_f_len m - 1"
    using assms(1) w dims(1) by (auto simp: virtual_map_ok_def)
  let ?pad = "tw_weights tw @ replicate (2 ^ ?k - length (tw_weights tw)) 0"
  let ?c = "\<lparr>row_weights = ?pad, column_weights = [1], target = adjusted_target tw t\<rparr>"
  have lp: "length ?pad = 2 ^ ?k" using tw(2) dims(2) by simp
  have sh: "shape_new ?k 0 = Inr ?one"
    using assms(3) by (simp add: shape_new_iff shape_ok_def log_bits_def)
  have claim: "linear_claim_from_shape ?one ?pad [1] (adjusted_target tw t) = Inr ?c"
    using lp by (simp add: linear_claim_from_shape_def shape_rows_def shape_columns_def)
  have "transpose_query st query = Some (Inr (InnerProduct ?c))"
  proof -
    have "\<not> (vm_f_len m = 0 \<or> length (tw_weights tw) \<noteq> vm_f_len m - 1)"
      "\<not> 2 ^ ?k < length (tw_weights tw)" using n tw(2) dims(2) by simp_all
    then show ?thesis
      by (simp only: transpose_query_def st wt assms(5) tw(1) option.case sum.case prod.case Let_def
          if_False f128_from_u64_1 zero_f128_def [symmetric] sh claim)
  qed
  moreover have "query_holds ?one f (InnerProduct ?c) \<longleftrightarrow> query_holds ?sh (virtual_bits m M f) query" for f
  proof -
    have "query_holds ?one f (InnerProduct ?c) \<longleftrightarrow> bit_weight (tw_weights tw) f = t - tw_constant tw"
      by (simp only: single_column_holds [OF lp] bit_weight_pad adjusted_target_def)
    also have "\<dots> \<longleftrightarrow> tw_constant tw + bit_weight (tw_weights tw) f = t"
      by (metis add_diff_cancel_left' diff_add_cancel add.commute)
    also have "\<dots> \<longleftrightarrow> query_holds ?sh (virtual_bits m M f) query"
      using w transpose_adjoint [OF assms(1) _ tw(1), of f] dims(1) by simp
    finally show ?thesis .
  qed
  ultimately show ?thesis by blast
qed

text \<open>C26: \<open>transpose_query\<close> rewrites a claim on the virtual bits into an equivalent claim on the
  committed bits: for a map that computes \<open>M^T\<close>, checked parameters and a query that fits the
  claim shape, it succeeds with an inner product over the single-column committed shape, and for
  every committed vector \<open>f\<close> that query holds of \<open>f\<close> exactly when the original one holds of
  \<open>h = M (1 || f)\<close>.\<close>

theorem transpose_query_equivalent:
  assumes "virtual_map_ok m M" "shape_ok (bp_shape claim_params)" "shape_ok committed"
    "virtual_statement_new claim_params committed m claim = Inr st"
    "query_weights (bp_shape claim_params) query = Some (Inr wt)"
  shows "\<exists>c. transpose_query st query = Some (Inr (InnerProduct c)) \<and>
    (\<forall>f. query_holds \<lparr>log_rows = log_bits committed, log_columns = 0\<rparr> f (InnerProduct c)
      \<longleftrightarrow> query_holds (bp_shape claim_params) (virtual_bits m M f) query)"
  using assms by (rule transpose_query_holds)

text \<open>A map with \<open>h = (1 + f 0, f 0)\<close>.\<close>

definition sample_map :: virtual_map where
  "sample_map = \<lparr>vm_transpose = \<lambda>w. if length w < 2 then Inl WeightCountMismatch
      else Inr \<lparr>tw_weights = [w ! 0 + w ! 1], tw_constant = w ! 0\<rparr>,
    vm_digest = [], vm_h_len = 2, vm_f_len = 2\<rparr>"

theorem transpose_query_equivalent_witness:
  "\<exists>st c. virtual_statement_new \<lparr>bp_shape = sample_shape, bp_generator = f128_GENERATOR\<rparr> sample_shape sample_map
      sample_claim = Inr st \<and>
    transpose_query st (Mle (replicate 20 0) 1) = Some (Inr (InnerProduct c)) \<and>
    query_holds \<lparr>log_rows = 20, log_columns = 0\<rparr> (\<lambda>i. False) (InnerProduct c)"
proof -
  let ?p = "\<lparr>bp_shape = sample_shape, bp_generator = f128_GENERATOR\<rparr>"
  let ?M = "\<lambda>i j. (i = 0 \<and> j \<le> 1) \<or> (i = 1 \<and> j = (1 :: nat))"
  let ?q = "Mle (replicate 20 0) 1"
  obtain st where st: "virtual_statement_new ?p sample_shape sample_map sample_claim = Inr st"
    using sample_ok(3) by (simp add: virtual_statement_new_def virtual_params_new_def sample_map_def
        sample_shape_def log_bits_def claim_ok_def Let_def)
  have ok: "virtual_map_ok sample_map ?M"
    by (auto simp: virtual_map_ok_def sample_map_def numeral_2_eq_2 lessThan_Suc
        simp del: sum_of_bool_mult_eq)
  have q: "query_weights sample_shape ?q = Some (Inr (eq_table (replicate 20 0), 1))"
    by (simp add: query_weights_def sample_shape_def log_bits_def)
  have h: "query_holds sample_shape (virtual_bits sample_map ?M (\<lambda>i. False)) ?q"
  proof -
    have v: "virtual_bits sample_map ?M (\<lambda>i. False) i \<longleftrightarrow> i = 0" for i
    proof -
      have "{j. j < 2 \<and> ?M i j \<and> (case j of 0 \<Rightarrow> True | Suc k \<Rightarrow> False)} = (if i = 0 then {0} else {})"
        by (auto split: nat.splits) (metis not0_implies_Suc)
      then show ?thesis by (simp add: virtual_bits_def sample_map_def)
    qed
    have e: "eq_table (replicate n 0) ! j = (of_bool (j = 0) :: f128)" if "j < 2 ^ n" for n j
    proof -
      have "eq_table (replicate n 0) ! j = (\<Prod>i<n. if bit j i then 0 else 1 :: f128)"
        using that by (auto simp: eq_table_weights eq_weight_def intro!: prod.cong)
      also have "\<dots> = of_bool (j = 0)"
      proof (cases "j = 0")
        case False
        then obtain i where "bit j i" by (metis bit_eq_iff bit_0_eq bot_apply bot_bool_def)
        then have "i < n" "bit j i" using that nat_bit_bound by auto
        then show ?thesis using False by (auto intro!: prod_zero bexI [of _ i])
      qed simp
      finally show ?thesis .
    qed
    have "bit_weight (eq_table (replicate 20 0)) (virtual_bits sample_map ?M (\<lambda>i. False))
        = (\<Sum>i<(2 :: nat) ^ 20. of_bool (i = 0))"
      unfolding bit_weight_def v by (rule sum.cong) (auto simp: e)
    also have "\<dots> = sum (\<lambda>i. 1) {0 :: nat}"
      by (rule sum.mono_neutral_cong_right) auto
    also have "\<dots> = 1" by simp
    finally show ?thesis by (simp add: query_holds_def sample_shape_def log_bits_def)
  qed
  obtain c where c: "transpose_query st ?q = Some (Inr (InnerProduct c))"
    "query_holds \<lparr>log_rows = log_bits sample_shape, log_columns = 0\<rparr> (\<lambda>i. False) (InnerProduct c)"
    using transpose_query_equivalent [OF ok _ sample_ok(2) st, of ?q] sample_ok(2) q h by auto
  then show ?thesis using st by (auto simp: sample_shape_def log_bits_def)
qed

end
