(* ===== verification/Transcript.thy ===== *)
theory Transcript
  imports Common_Virtual "HOL-Library.Sublist"
begin

text \<open>
  The Fiat-Shamir transcript, \<open>crates/transcript/src\<close>.

  spongefish and blake3 are third-party: their operations are the record \<open>spongefish\<close> and the
  function \<open>blake3\<close>, arguments of the definitions.  \<open>spongefish_ok\<close> states the documented codec
  behaviour the crate relies on.  A prover state is the sponge with the two byte streams written so
  far, a verifier state the sponge with the bytes of both streams still to be read; an operation
  that can fail returns an option.
\<close>

record 's spongefish =
  sf_new :: "u8 list \<Rightarrow> u8 list \<Rightarrow> u8 list \<Rightarrow> 's"
  sf_absorb :: "u8 list \<Rightarrow> 's \<Rightarrow> 's"
  sf_squeeze :: "nat \<Rightarrow> 's \<Rightarrow> u8 list \<times> 's"
  sf_squeeze_u128 :: "'s \<Rightarrow> u128 \<times> 's"
  sf_encode_u32 :: "u32 \<Rightarrow> u8 list"
  sf_encode_u64 :: "u64 \<Rightarrow> u8 list"
  sf_take :: "nat \<Rightarrow> u8 list \<Rightarrow> (u8 list \<times> u8 list) option"
  sf_read_u32 :: "u8 list \<Rightarrow> (u32 \<times> u8 list) option"

text \<open>\<open>[u8; N]\<close> deserializes as the next \<open>N\<close> bytes, \<open>u32\<close> as four little-endian bytes, which is also
  how it is encoded; a failed read consumes nothing.\<close>

definition spongefish_ok :: "'s spongefish \<Rightarrow> bool" where
  "spongefish_ok S \<longleftrightarrow>
     (\<forall>n buf. sf_take S n buf = (if length buf < n then None else Some (take n buf, drop n buf))) \<and>
     (\<forall>buf. sf_read_u32 S buf = (if length buf < 4 then None else Some (from_le_bytes (take 4 buf), drop 4 buf))) \<and>
     sf_encode_u32 S = to_le_bytes 4"

section \<open>Proof and states\<close>

record proof_data =
  narg_string :: "u8 list"
  proof_hints :: "u8 list"

record 's prover_state =
  ps_inner :: 's
  ps_narg :: "u8 list"
  ps_hints :: "u8 list"

record 's verifier_state =
  vs_inner :: 's
  vs_narg :: "u8 list"
  vs_hints :: "u8 list"

text \<open>The label \<open>"bitz/v1"\<close>.\<close>

definition PROTOCOL_LABEL :: "u8 list" where
  "PROTOCOL_LABEL = map (\<lambda>c. word_of_nat (of_char c)) ''bitz/v1''"

definition build_prover :: "'s spongefish \<Rightarrow> u8 list \<Rightarrow> u8 list \<Rightarrow> 's prover_state" where
  "build_prover S session inst =
     \<lparr>ps_inner = sf_new S PROTOCOL_LABEL session inst, ps_narg = [], ps_hints = []\<rparr>"

definition build_verifier :: "'s spongefish \<Rightarrow> u8 list \<Rightarrow> u8 list \<Rightarrow> proof_data \<Rightarrow> 's verifier_state" where
  "build_verifier S session inst prf =
     \<lparr>vs_inner = sf_new S PROTOCOL_LABEL session inst, vs_narg = narg_string prf,
      vs_hints = proof_hints prf\<rparr>"

section \<open>Messages of the prover\<close>

definition ps_public_message :: "'s spongefish \<Rightarrow> u8 list \<Rightarrow> 's prover_state \<Rightarrow> 's prover_state" where
  "ps_public_message S bytes self = self\<lparr>ps_inner := sf_absorb S bytes (ps_inner self)\<rparr>"

definition ps_prover_message :: "'s spongefish \<Rightarrow> u8 list \<Rightarrow> 's prover_state \<Rightarrow> 's prover_state" where
  "ps_prover_message S bytes self =
     self\<lparr>ps_inner := sf_absorb S bytes (ps_inner self), ps_narg := ps_narg self @ bytes\<rparr>"

text \<open>\<open>ProverMessageBytes::new\<close>; a length above \<open>u32\<close> panics.\<close>

definition prover_message_bytes_new :: "u8 list \<Rightarrow> u8 list option" where
  "prover_message_bytes_new bytes =
     (if 2 ^ 32 \<le> length bytes then None
      else Some (to_le_bytes 4 (word_of_nat (length bytes) :: u32) @ bytes))"

definition prover_message_bytes_into :: "u8 list \<Rightarrow> u8 list" where
  "prover_message_bytes_into self = drop 4 self"

definition prover_message_bytes_deserialize ::
  "'s spongefish \<Rightarrow> nat \<Rightarrow> u8 list \<Rightarrow> (u8 list \<times> u8 list) option" where
  "prover_message_bytes_deserialize S max_len buf =
     (case sf_read_u32 S buf of
        None \<Rightarrow> None
      | Some (len, rest) \<Rightarrow>
          let len = unat len
          in if max_len < len \<or> length rest < len then None
             else map_option (\<lambda>message. (message, drop len rest)) (prover_message_bytes_new (take len rest)))"

definition ps_prover_message_bytes :: "'s spongefish \<Rightarrow> u8 list \<Rightarrow> 's prover_state \<Rightarrow> 's prover_state option" where
  "ps_prover_message_bytes S bytes self =
     map_option (\<lambda>message. ps_prover_message S message self) (prover_message_bytes_new bytes)"

definition ps_verifier_message :: "'s spongefish \<Rightarrow> 's prover_state \<Rightarrow> f128 \<times> 's prover_state" where
  "ps_verifier_message S self =
     (let (buf, s) = sf_squeeze S 16 (ps_inner self) in (f128_decode buf, self\<lparr>ps_inner := s\<rparr>))"

definition ps_hint :: "u8 list \<Rightarrow> 's prover_state \<Rightarrow> 's prover_state" where
  "ps_hint bytes self = self\<lparr>ps_hints := ps_hints self @ bytes\<rparr>"

definition ps_hint_bytes :: "'s spongefish \<Rightarrow> u8 list \<Rightarrow> 's prover_state \<Rightarrow> 's prover_state option" where
  "ps_hint_bytes S bytes self =
     (if 2 ^ 32 \<le> length bytes then None
      else Some (self\<lparr>ps_hints := ps_hints self @ sf_encode_u32 S (word_of_nat (length bytes)) @ bytes\<rparr>))"

definition ps_finish :: "'s prover_state \<Rightarrow> proof_data" where
  "ps_finish self = \<lparr>narg_string = ps_narg self, proof_hints = ps_hints self\<rparr>"

section \<open>Messages of the verifier\<close>

definition vs_public_message :: "'s spongefish \<Rightarrow> u8 list \<Rightarrow> 's verifier_state \<Rightarrow> 's verifier_state" where
  "vs_public_message S bytes self = self\<lparr>vs_inner := sf_absorb S bytes (vs_inner self)\<rparr>"

text \<open>The value is read from the stream and its re-encoding absorbed.\<close>

definition vs_prover_message ::
  "'s spongefish \<Rightarrow> (u8 list \<Rightarrow> ('m \<times> u8 list) option) \<Rightarrow> ('m \<Rightarrow> u8 list) \<Rightarrow> 's verifier_state
   \<Rightarrow> ('m \<times> 's verifier_state) option" where
  "vs_prover_message S deserialize encode self =
     (case deserialize (vs_narg self) of
        None \<Rightarrow> None
      | Some (message, rest) \<Rightarrow>
          Some (message, self\<lparr>vs_inner := sf_absorb S (encode message) (vs_inner self), vs_narg := rest\<rparr>))"

definition vs_prover_message_bytes ::
  "'s spongefish \<Rightarrow> nat \<Rightarrow> 's verifier_state \<Rightarrow> (u8 list \<times> 's verifier_state) option" where
  "vs_prover_message_bytes S max_len self =
     map_option (\<lambda>(message, vs). (prover_message_bytes_into message, vs))
       (vs_prover_message S (prover_message_bytes_deserialize S max_len) (\<lambda>m. m) self)"

definition vs_verifier_message :: "'s spongefish \<Rightarrow> 's verifier_state \<Rightarrow> f128 \<times> 's verifier_state" where
  "vs_verifier_message S self =
     (let (buf, s) = sf_squeeze S 16 (vs_inner self) in (f128_decode buf, self\<lparr>vs_inner := s\<rparr>))"

definition vs_hint ::
  "(u8 list \<Rightarrow> ('m \<times> u8 list) option) \<Rightarrow> 's verifier_state \<Rightarrow> ('m \<times> 's verifier_state) option" where
  "vs_hint deserialize self =
     map_option (\<lambda>(v, rest). (v, self\<lparr>vs_hints := rest\<rparr>)) (deserialize (vs_hints self))"

definition vs_hint_bytes :: "'s spongefish \<Rightarrow> nat \<Rightarrow> 's verifier_state \<Rightarrow> (u8 list \<times> 's verifier_state) option" where
  "vs_hint_bytes S max_len self =
     (case sf_read_u32 S (vs_hints self) of
        None \<Rightarrow> None
      | Some (len, rest) \<Rightarrow>
          let len = unat len
          in if max_len < len \<or> length rest < len then None
             else Some (take len rest, self\<lparr>vs_hints := drop len rest\<rparr>))"

definition vs_check_eof :: "'s verifier_state \<Rightarrow> unit option" where
  "vs_check_eof self =
     (if vs_narg self \<noteq> [] then None else if vs_hints self = [] then Some () else None)"

section \<open>Grinding\<close>

definition POW_HASH_TAG :: "u8 list" where
  "POW_HASH_TAG = map (\<lambda>c. word_of_nat (of_char c)) ''bitz-pcs-pow-v1''"

definition POW_TRANSCRIPT_TAG :: "u8 list" where
  "POW_TRANSCRIPT_TAG = map (\<lambda>c. word_of_nat (of_char c)) ''bitz-transcript-pow-v1''"

definition MAX_GRINDING_BITS :: nat where
  "MAX_GRINDING_BITS = 32"

text \<open>The header is the same for both sides; \<open>public\<close> is the side's \<open>public_message\<close>.\<close>

definition absorb_header ::
  "'s spongefish \<Rightarrow> (u8 list \<Rightarrow> 't \<Rightarrow> 't) \<Rightarrow> u8 list \<Rightarrow> nat \<Rightarrow> 't \<Rightarrow> 't" where
  "absorb_header S public label n transcript =
     public (sf_encode_u32 S (word_of_nat n))
       (public label
         (public (sf_encode_u64 S (word_of_nat (length label)))
           (public POW_TRANSCRIPT_TAG transcript)))"

definition pow_valid :: "(u8 list \<Rightarrow> u8 list) \<Rightarrow> u8 list \<Rightarrow> u64 \<Rightarrow> nat \<Rightarrow> bool" where
  "pow_valid blake3 seed nonce n =
     (if MAX_GRINDING_BITS < n then False
      else if n = 0 then nonce = 0
      else let digest = blake3 (POW_HASH_TAG @ seed @ to_le_bytes 8 nonce)
           in n \<le> leading_zeros (from_le_bytes (rev (take 4 digest)) :: u32))"

lemma not_max_less: "nonce \<noteq> - 1 \<Longrightarrow> unat (nonce + 1) = Suc (unat (nonce :: u64))"
  by (metis Suc_eq_plus1 add.commute add.right_neutral add_eq_0_iff unatSuc)

text \<open>The search in ascending order; running out of nonces panics.\<close>

function pow_find_from :: "(u8 list \<Rightarrow> u8 list) \<Rightarrow> u8 list \<Rightarrow> nat \<Rightarrow> u64 \<Rightarrow> u64 option" where
  "pow_find_from blake3 seed n nonce =
     (if pow_valid blake3 seed nonce n then Some nonce
      else if nonce = - 1 then None
      else pow_find_from blake3 seed n (nonce + 1))"
  by pat_completeness auto

termination
proof (relation "measure (\<lambda>(_, _, _, nonce). 2 ^ 64 - unat nonce)", goal_cases)
  case (2 blake3 seed n nonce)
  then show ?case using unat_lt2p [of nonce] by (simp add: not_max_less)
qed simp

declare pow_find_from.simps [simp del]

definition pow_find :: "(u8 list \<Rightarrow> u8 list) \<Rightarrow> u8 list \<Rightarrow> nat \<Rightarrow> u64 option" where
  "pow_find blake3 seed n =
     (if MAX_GRINDING_BITS < n then None else pow_find_from blake3 seed n 0)"

definition ps_grind ::
  "'s spongefish \<Rightarrow> (u8 list \<Rightarrow> u8 list) \<Rightarrow> u8 list \<Rightarrow> nat \<Rightarrow> 's prover_state \<Rightarrow> 's prover_state option" where
  "ps_grind S blake3 label n self =
     (if MAX_GRINDING_BITS < n then None
      else if n = 0 then Some self
      else
        let self = absorb_header S (ps_public_message S) label n self;
            (c, self) = ps_verifier_message S self;
            seed = f128_to_bytes c
        in map_option (\<lambda>nonce. ps_prover_message S (to_le_bytes 8 nonce) self) (pow_find blake3 seed n))"

definition vs_grind ::
  "'s spongefish \<Rightarrow> (u8 list \<Rightarrow> u8 list) \<Rightarrow> u8 list \<Rightarrow> nat \<Rightarrow> 's verifier_state \<Rightarrow> 's verifier_state option" where
  "vs_grind S blake3 label n self =
     (if MAX_GRINDING_BITS < n then None
      else if n = 0 then Some self
      else
        let self = absorb_header S (vs_public_message S) label n self;
            (c, self) = vs_verifier_message S self;
            seed = f128_to_bytes c
        in case vs_prover_message S (sf_take S 8) (\<lambda>m. m) self of
             None \<Rightarrow> None
           | Some (bytes, self) \<Rightarrow>
               if pow_valid blake3 seed (from_le_bytes bytes) n then Some self else None)"

section \<open>Challenge sampling\<close>

text \<open>A stream of 128-bit draws is a function on a state; the rejection loops may not end, so they are
  partial functions.\<close>

partial_function (option) unbiased_loop ::
  "('s \<Rightarrow> u128 \<times> 's) \<Rightarrow> u128 \<Rightarrow> 's \<Rightarrow> (u128 \<times> 's) option" where
  "unbiased_loop nxt max_accepted s =
     (if fst (nxt s) \<le> max_accepted then Some (nxt s)
      else unbiased_loop nxt max_accepted (snd (nxt s)))"

definition unbiased_u128 :: "u128 \<Rightarrow> ('s \<Rightarrow> u128 \<times> 's) \<Rightarrow> 's \<Rightarrow> (u128 \<times> 's) option" where
  "unbiased_u128 modulus nxt s =
     (if modulus = 0 then None
      else let rejection_remainder = ((- 1) mod modulus + 1) mod modulus;
               max_accepted = - 1 - rejection_remainder
           in unbiased_loop nxt max_accepted s)"

definition fq_from_squeezes :: "u128 \<Rightarrow> ('s \<Rightarrow> u128 \<times> 's) \<Rightarrow> 's \<Rightarrow> (u128 \<times> 's) option" where
  "fq_from_squeezes q nxt s =
     (case fq_META q of None \<Rightarrow> None
      | Some _ \<Rightarrow>
          (case unbiased_u128 q nxt s of None \<Rightarrow> None
           | Some (c, s) \<Rightarrow> map_option (\<lambda>v. (v, s)) (fq_from_u128 q c)))"

definition dyn_from_squeezes :: "dyn_global \<Rightarrow> ('s \<Rightarrow> u128 \<times> 's) \<Rightarrow> 's \<Rightarrow> (u128 \<times> 's) option" where
  "dyn_from_squeezes g nxt s =
     (case unbiased_u128 (fm_modulus (global_load g)) nxt s of None \<Rightarrow> None
      | Some (c, s) \<Rightarrow> map_option (\<lambda>v. (v, s)) (dyn_from_u128 g c))"

definition f128_from_squeezes :: "('s \<Rightarrow> u128 \<times> 's) \<Rightarrow> 's \<Rightarrow> f128 \<times> 's" where
  "f128_from_squeezes nxt s = (f128_from_u128 (fst (nxt s)), snd (nxt s))"

definition ps_next_u128 :: "'s spongefish \<Rightarrow> 's prover_state \<Rightarrow> u128 \<times> 's prover_state" where
  "ps_next_u128 S self = (let (x, s) = sf_squeeze_u128 S (ps_inner self) in (x, self\<lparr>ps_inner := s\<rparr>))"

definition vs_next_u128 :: "'s spongefish \<Rightarrow> 's verifier_state \<Rightarrow> u128 \<times> 's verifier_state" where
  "vs_next_u128 S self = (let (x, s) = sf_squeeze_u128 S (vs_inner self) in (x, self\<lparr>vs_inner := s\<rparr>))"

section \<open>The fingerprint prime\<close>

definition MILLER_RABIN_ROUNDS :: nat where
  "MILLER_RABIN_ROUNDS = 80"

partial_function (option) sample_below_loop ::
  "('s \<Rightarrow> u128 \<times> 's) \<Rightarrow> u128 \<Rightarrow> u128 \<Rightarrow> 's \<Rightarrow> (u128 \<times> 's) option" where
  "sample_below_loop nxt msk bound s =
     (if (fst (nxt s) AND msk) < bound then Some (fst (nxt s) AND msk, snd (nxt s))
      else sample_below_loop nxt msk bound (snd (nxt s)))"

definition sample_below :: "('s \<Rightarrow> u128 \<times> 's) \<Rightarrow> u128 \<Rightarrow> 's \<Rightarrow> (u128 \<times> 's) option" where
  "sample_below nxt bound s =
     sample_below_loop nxt (drop_bit (leading_zeros (bound - 1)) (- 1)) bound s"

fun miller_rabin_rounds ::
  "('s \<Rightarrow> u128 \<times> 's) \<Rightarrow> field_metadata \<Rightarrow> u128 \<Rightarrow> nat \<Rightarrow> 's \<Rightarrow> (bool \<times> 's) option" where
  "miller_rabin_rounds nxt m candidate 0 s = Some (True, s)"
| "miller_rabin_rounds nxt m candidate (Suc k) s =
     (case sample_below nxt (candidate - 3) s of
        None \<Rightarrow> None
      | Some (b, s) \<Rightarrow>
          if strong_round m (2 + b) then miller_rabin_rounds nxt m candidate k s else Some (False, s))"

definition prime_candidate :: "u128 \<Rightarrow> u128 \<Rightarrow> u128" where
  "prime_candidate bottom x = bottom OR (x AND (bottom - 1)) OR 1"

definition candidate_is_prime ::
  "('s \<Rightarrow> u128 \<times> 's) \<Rightarrow> u128 \<Rightarrow> 's \<Rightarrow> (bool \<times> 's) option" where
  "candidate_is_prime nxt candidate s =
     (case sieve candidate of
        Some decided \<Rightarrow> Some (decided, s)
      | None \<Rightarrow>
          (case field_metadata_new candidate of
             None \<Rightarrow> None
           | Some m \<Rightarrow> miller_rabin_rounds nxt m candidate MILLER_RABIN_ROUNDS s))"

partial_function (option) prime_sample_loop ::
  "('s \<Rightarrow> u128 \<times> 's) \<Rightarrow> u128 \<Rightarrow> 's \<Rightarrow> (u128 \<times> 's) option" where
  "prime_sample_loop nxt bottom s =
     Option.bind (candidate_is_prime nxt (prime_candidate bottom (fst (nxt s))) (snd (nxt s)))
       (\<lambda>r. if fst r then Some (prime_candidate bottom (fst (nxt s)), snd r)
            else prime_sample_loop nxt bottom (snd r))"

definition prime_sample :: "('s \<Rightarrow> u128 \<times> 's) \<Rightarrow> nat \<Rightarrow> 's \<Rightarrow> (u128 \<times> 's) option" where
  "prime_sample nxt n s =
     (if \<not> (2 \<le> n \<and> n \<le> MAX_MODULUS_BITS) then None
      else prime_sample_loop nxt (push_bit (n - 1) 1) s)"

section \<open>Replaying a transcript\<close>

text \<open>The verifier state that corresponds to a prover state when the finished streams are \<open>N\<close> and
  \<open>H\<close>, and the prover states from which those streams can still result.\<close>

definition replay :: "u8 list \<Rightarrow> u8 list \<Rightarrow> 's prover_state \<Rightarrow> 's verifier_state" where
  "replay N H p = \<lparr>vs_inner = ps_inner p, vs_narg = drop (length (ps_narg p)) N,
     vs_hints = drop (length (ps_hints p)) H\<rparr>"

definition within :: "u8 list \<Rightarrow> u8 list \<Rightarrow> 's prover_state \<Rightarrow> bool" where
  "within N H p \<longleftrightarrow> prefix (ps_narg p) N \<and> prefix (ps_hints p) H"

named_theorems replay_rules \<open>the verifier's step on the replayed state\<close>
named_theorems within_rules \<open>streams only grow\<close>

lemma public_replay [replay_rules]:
  "vs_public_message S b (replay N H p) = replay N H (ps_public_message S b p)"
  by (simp add: vs_public_message_def replay_def ps_public_message_def)

lemma challenge_replay [replay_rules]:
  "vs_verifier_message S (replay N H p)
    = (fst (ps_verifier_message S p), replay N H (snd (ps_verifier_message S p)))"
  by (simp add: vs_verifier_message_def replay_def ps_verifier_message_def split: prod.splits)

lemma within_public [within_rules]: "within N H (ps_public_message S b p) \<longleftrightarrow> within N H p"
  by (simp add: within_def ps_public_message_def)

lemma within_challenge [within_rules]: "within N H (snd (ps_verifier_message S p)) \<longleftrightarrow> within N H p"
  by (simp add: within_def ps_verifier_message_def split: prod.splits)

lemma within_message [within_rules]: "within N H (ps_prover_message S b p) \<Longrightarrow> within N H p"
  by (auto simp: within_def ps_prover_message_def intro: append_prefixD)

lemma message_replay:
  assumes "within N H (ps_prover_message S (encode m) p)"
    and "\<And>tail. deserialize (encode m @ tail) = Some (m, tail)"
  shows "vs_prover_message S deserialize encode (replay N H p)
    = Some (m, replay N H (ps_prover_message S (encode m) p))"
proof -
  obtain tail where N: "N = (ps_narg p @ encode m) @ tail"
    using assms(1) by (auto simp: within_def ps_prover_message_def prefix_def)
  then show ?thesis
    by (simp add: vs_prover_message_def replay_def ps_prover_message_def assms(2))
qed

lemma absorb_header_replay [replay_rules]:
  "absorb_header S (vs_public_message S) l n (replay N H p)
    = replay N H (absorb_header S (ps_public_message S) l n p)"
  by (simp add: absorb_header_def replay_rules)

lemma within_header [within_rules]:
  "within N H (absorb_header S (ps_public_message S) l n p) \<longleftrightarrow> within N H p"
  by (simp add: absorb_header_def within_rules)

lemma pow_find_from_valid:
  "pow_find_from blake3 seed n nonce = Some k \<Longrightarrow> pow_valid blake3 seed k n"
  by (induction blake3 seed n nonce rule: pow_find_from.induct)
    (subst (asm) (2) pow_find_from.simps, auto split: if_splits)

lemma pow_find_valid: "pow_find blake3 seed n = Some k \<Longrightarrow> pow_valid blake3 seed k n"
  by (auto simp: pow_find_def split: if_splits intro: pow_find_from_valid)

lemma sf_take_append:
  "spongefish_ok S \<Longrightarrow> length bs = n \<Longrightarrow> sf_take S n (bs @ tail) = Some (bs, tail)"
  by (simp add: spongefish_ok_def)

lemma grind_replay:
  assumes S: "spongefish_ok S" and g: "ps_grind S blake3 l n p = Some p'" and w: "within N H p'"
  shows "vs_grind S blake3 l n (replay N H p) = Some (replay N H p')" "within N H p"
proof -
  let ?h = "absorb_header S (ps_public_message S) l n p"
  have both: "vs_grind S blake3 l n (replay N H p) = Some (replay N H p') \<and> within N H p"
  proof (cases "n = 0")
    case True
    then show ?thesis using g w by (simp add: ps_grind_def vs_grind_def MAX_GRINDING_BITS_def)
  next
    case False
    obtain c p1 where c: "ps_verifier_message S ?h = (c, p1)" by (cases "ps_verifier_message S ?h")
    from g False obtain nonce where n: "\<not> MAX_GRINDING_BITS < n"
      and nonce: "pow_find blake3 (f128_to_bytes c) n = Some nonce"
      and p': "p' = ps_prover_message S (to_le_bytes 8 nonce) p1"
      by (auto simp: ps_grind_def c split: if_splits)
    have p1: "p1 = snd (ps_verifier_message S ?h)" by (simp add: c)
    have "vs_prover_message S (sf_take S 8) (\<lambda>m. m) (replay N H p1)
        = Some (to_le_bytes 8 nonce, replay N H p')"
      unfolding p' using w S by (intro message_replay) (simp_all add: p' sf_take_append)
    moreover have "vs_verifier_message S (replay N H ?h) = (c, replay N H p1)"
      by (simp add: challenge_replay c)
    ultimately have "vs_grind S blake3 l n (replay N H p) = Some (replay N H p')"
      using n False pow_find_valid [OF nonce] from_to_le_bytes [of 8 nonce]
      by (simp add: vs_grind_def replay_rules)
    moreover have "within N H p"
      using w within_message unfolding p' p1 by (fastforce simp: within_rules)
    ultimately show ?thesis by blast
  qed
  then show "vs_grind S blake3 l n (replay N H p) = Some (replay N H p')" "within N H p" by blast+
qed

lemma build_replay: "build_verifier S session inst (ps_finish p)
    = replay (ps_narg p) (ps_hints p) (build_prover S session inst)"
  by (simp add: build_verifier_def ps_finish_def replay_def build_prover_def)

lemma eof_replay: "vs_check_eof (replay (ps_narg p) (ps_hints p) p) = Some ()"
  by (simp add: vs_check_eof_def replay_def)

lemma within_self: "within (ps_narg p) (ps_hints p) p"
  by (simp add: within_def)

lemma length_u32: "n < 2 ^ 32 \<Longrightarrow> unat (word_of_nat n :: u32) = n"
  by (simp add: unat_of_nat)

lemma read_u32_append:
  assumes "spongefish_ok S"
  shows "sf_read_u32 S (to_le_bytes 4 (w :: u32) @ tail) = Some (w, tail)"
  using assms from_to_le_bytes [of 4 w] by (simp add: spongefish_ok_def)

lemma message_bytes_deserialize:
  assumes "spongefish_ok S" "prover_message_bytes_new bytes = Some m" "length bytes \<le> max_len"
  shows "prover_message_bytes_deserialize S max_len (m @ tail) = Some (m, tail)"
proof -
  have m: "length bytes < 2 ^ 32" "m = to_le_bytes 4 (word_of_nat (length bytes) :: u32) @ bytes"
    using assms(2) by (auto simp: prover_message_bytes_new_def split: if_splits)
  then show ?thesis
    using assms(2,3) read_u32_append [OF assms(1), of "word_of_nat (length bytes)" "bytes @ tail"] length_u32 [OF m(1)]
    by (simp add: prover_message_bytes_deserialize_def)
qed

lemma message_bytes_replay:
  assumes S: "spongefish_ok S" and p: "ps_prover_message_bytes S bytes p = Some p'" and w: "within N H p'"
    and len: "length bytes \<le> max_len"
  shows "vs_prover_message_bytes S max_len (replay N H p) = Some (bytes, replay N H p')" "within N H p"
proof -
  obtain m where m: "prover_message_bytes_new bytes = Some m" "p' = ps_prover_message S m p"
    using p by (auto simp: ps_prover_message_bytes_def)
  have "vs_prover_message S (prover_message_bytes_deserialize S max_len) (\<lambda>m. m) (replay N H p)
      = Some (m, replay N H p')"
    unfolding m(2) using w m(2) message_bytes_deserialize [OF S m(1) len]
    by (intro message_replay) simp_all
  moreover have "prover_message_bytes_into m = bytes"
    using m(1) by (auto simp: prover_message_bytes_into_def prover_message_bytes_new_def split: if_splits)
  ultimately show "vs_prover_message_bytes S max_len (replay N H p) = Some (bytes, replay N H p')"
    by (simp add: vs_prover_message_bytes_def)
  show "within N H p" using w unfolding m(2) by (rule within_message)
qed

lemma hint_replay:
  assumes "within N H (ps_hint bytes p)" "\<And>tail. deserialize (bytes @ tail) = Some (v, tail)"
  shows "vs_hint deserialize (replay N H p) = Some (v, replay N H (ps_hint bytes p))" "within N H p"
proof -
  obtain tail where "H = (ps_hints p @ bytes) @ tail"
    using assms(1) by (auto simp: within_def ps_hint_def prefix_def)
  then show "vs_hint deserialize (replay N H p) = Some (v, replay N H (ps_hint bytes p))"
    by (simp add: vs_hint_def replay_def ps_hint_def assms(2))
  show "within N H p" using assms(1) by (auto simp: within_def ps_hint_def intro: append_prefixD)
qed

lemma hint_bytes_replay:
  assumes S: "spongefish_ok S" and p: "ps_hint_bytes S bytes p = Some p'" and w: "within N H p'"
    and len: "length bytes \<le> max_len"
  shows "vs_hint_bytes S max_len (replay N H p) = Some (bytes, replay N H p')" "within N H p"
proof -
  let ?l = "word_of_nat (length bytes) :: u32"
  have b: "length bytes < 2 ^ 32" "p' = p\<lparr>ps_hints := ps_hints p @ to_le_bytes 4 ?l @ bytes\<rparr>"
    using p S by (auto simp: ps_hint_bytes_def spongefish_ok_def split: if_splits)
  then obtain tail where "H = (ps_hints p @ to_le_bytes 4 ?l @ bytes) @ tail"
    using w by (auto simp: within_def prefix_def)
  then show "vs_hint_bytes S max_len (replay N H p) = Some (bytes, replay N H p')"
    using len read_u32_append [OF S, of ?l "bytes @ tail"] length_u32 [OF b(1)]
    by (simp add: vs_hint_bytes_def replay_def b(2))
  show "within N H p" using w by (auto simp: within_def b(2) intro: append_prefixD)
qed

lemma read_array_append: "spongefish_ok S \<Longrightarrow> sf_take S (length bs) (bs @ tail) = Some (bs, tail)"
  by (simp add: sf_take_append)

section \<open>Sessions\<close>

text \<open>A protocol is a sequence of operations that both sides run; what they send, read and squeeze is
  the list of events they observe.\<close>

datatype session_op =
    OpPublic "u8 list"
  | OpMessage "u8 list"
  | OpMessageBytes "u8 list"
  | OpHint "u8 list"
  | OpHintBytes "u8 list"
  | OpChallenge
  | OpGrind "u8 list" nat

datatype event = Sent "u8 list" | Challenge f128

fun prover_session :: "'s spongefish \<Rightarrow> (u8 list \<Rightarrow> u8 list) \<Rightarrow> session_op list \<Rightarrow> 's prover_state
    \<Rightarrow> (event list \<times> 's prover_state) option" where
  "prover_session S b3 [] p = Some ([], p)"
| "prover_session S b3 (OpPublic b # ops) p = prover_session S b3 ops (ps_public_message S b p)"
| "prover_session S b3 (OpMessage b # ops) p =
     map_option (\<lambda>(es, p). (Sent b # es, p)) (prover_session S b3 ops (ps_prover_message S b p))"
| "prover_session S b3 (OpMessageBytes b # ops) p =
     Option.bind (ps_prover_message_bytes S b p)
       (\<lambda>p. map_option (\<lambda>(es, p). (Sent b # es, p)) (prover_session S b3 ops p))"
| "prover_session S b3 (OpHint b # ops) p =
     map_option (\<lambda>(es, p). (Sent b # es, p)) (prover_session S b3 ops (ps_hint b p))"
| "prover_session S b3 (OpHintBytes b # ops) p =
     Option.bind (ps_hint_bytes S b p)
       (\<lambda>p. map_option (\<lambda>(es, p). (Sent b # es, p)) (prover_session S b3 ops p))"
| "prover_session S b3 (OpChallenge # ops) p =
     (let (c, p) = ps_verifier_message S p
      in map_option (\<lambda>(es, p). (Challenge c # es, p)) (prover_session S b3 ops p))"
| "prover_session S b3 (OpGrind l n # ops) p =
     Option.bind (ps_grind S b3 l n p) (prover_session S b3 ops)"

text \<open>The verifier knows the operations but not the bytes it reads; it uses only their lengths.\<close>

fun verifier_session :: "'s spongefish \<Rightarrow> (u8 list \<Rightarrow> u8 list) \<Rightarrow> session_op list \<Rightarrow> 's verifier_state
    \<Rightarrow> (event list \<times> 's verifier_state) option" where
  "verifier_session S b3 [] v = Some ([], v)"
| "verifier_session S b3 (OpPublic b # ops) v = verifier_session S b3 ops (vs_public_message S b v)"
| "verifier_session S b3 (OpMessage b # ops) v =
     Option.bind (vs_prover_message S (sf_take S (length b)) (\<lambda>m. m) v)
       (\<lambda>(m, v). map_option (\<lambda>(es, v). (Sent m # es, v)) (verifier_session S b3 ops v))"
| "verifier_session S b3 (OpMessageBytes b # ops) v =
     Option.bind (vs_prover_message_bytes S (length b) v)
       (\<lambda>(m, v). map_option (\<lambda>(es, v). (Sent m # es, v)) (verifier_session S b3 ops v))"
| "verifier_session S b3 (OpHint b # ops) v =
     Option.bind (vs_hint (sf_take S (length b)) v)
       (\<lambda>(m, v). map_option (\<lambda>(es, v). (Sent m # es, v)) (verifier_session S b3 ops v))"
| "verifier_session S b3 (OpHintBytes b # ops) v =
     Option.bind (vs_hint_bytes S (length b) v)
       (\<lambda>(m, v). map_option (\<lambda>(es, v). (Sent m # es, v)) (verifier_session S b3 ops v))"
| "verifier_session S b3 (OpChallenge # ops) v =
     (let (c, v) = vs_verifier_message S v
      in map_option (\<lambda>(es, v). (Challenge c # es, v)) (verifier_session S b3 ops v))"
| "verifier_session S b3 (OpGrind l n # ops) v =
     Option.bind (vs_grind S b3 l n v) (verifier_session S b3 ops)"

lemma session_replay:
  "spongefish_ok S \<Longrightarrow> prover_session S b3 ops p = Some (es, p') \<Longrightarrow> within N H p' \<Longrightarrow>
    verifier_session S b3 ops (replay N H p) = Some (es, replay N H p') \<and> within N H p"
proof (induction S b3 ops p arbitrary: es rule: prover_session.induct)
  case (2 S b3 b ops p)
  then show ?case by (simp add: replay_rules within_rules)
next
  case (3 S b3 b ops p)
  then obtain es' where "prover_session S b3 ops (ps_prover_message S b p) = Some (es', p')" "es = Sent b # es'"
    by auto
  with 3 have w: "within N H (ps_prover_message S b p)"
    "verifier_session S b3 ops (replay N H (ps_prover_message S b p)) = Some (es', replay N H p')"
    "es = Sent b # es'" by auto
  have "vs_prover_message S (sf_take S (length b)) (\<lambda>m. m) (replay N H p)
      = Some (b, replay N H (ps_prover_message S b p))"
    using w(1) 3(2) by (intro message_replay) (simp_all add: sf_take_append)
  then show ?case using w within_message by auto
next
  case (4 S b3 b ops p)
  then obtain p1 es' where "ps_prover_message_bytes S b p = Some p1"
    "prover_session S b3 ops p1 = Some (es', p')" "es = Sent b # es'"
    by (auto simp: Option.bind_eq_Some_conv)
  with 4 show ?case using message_bytes_replay [of S b p p1 N H "length b"] by auto
next
  case (5 S b3 b ops p)
  then obtain es' where "prover_session S b3 ops (ps_hint b p) = Some (es', p')" "es = Sent b # es'"
    by auto
  with 5 show ?case using hint_replay [of N H b p "sf_take S (length b)" b] by (auto simp: sf_take_append)
next
  case (6 S b3 b ops p)
  then obtain p1 es' where "ps_hint_bytes S b p = Some p1"
    "prover_session S b3 ops p1 = Some (es', p')" "es = Sent b # es'"
    by (auto simp: Option.bind_eq_Some_conv)
  with 6 show ?case using hint_bytes_replay [of S b p p1 N H "length b"] by auto
next
  case (7 S b3 ops p)
  obtain c p1 where c: "ps_verifier_message S p = (c, p1)" by (cases "ps_verifier_message S p")
  with 7 obtain es' where "prover_session S b3 ops p1 = Some (es', p')" "es = Challenge c # es'" by auto
  with 7 c show ?case using within_challenge [of N H S p] by (auto simp: challenge_replay)
next
  case (8 S b3 l n ops p)
  then obtain p1 where "ps_grind S b3 l n p = Some p1" "prover_session S b3 ops p1 = Some (es, p')"
    by (auto simp: Option.bind_eq_Some_conv)
  with 8 show ?case using grind_replay [of S b3 l n p p1 N H] by auto
qed simp

section \<open>The prime sampler\<close>

lemma prime_candidate_bits:
  assumes "2 \<le> n" "n \<le> 126"
  shows "2 ^ (n - 1) \<le> unat (prime_candidate (push_bit (n - 1) 1) x)"
    "unat (prime_candidate (push_bit (n - 1) 1) x) < 2 ^ n"
    "odd (unat (prime_candidate (push_bit (n - 1) 1) x))"
proof -
  let ?c = "prime_candidate (push_bit (n - 1) 1) x"
  have m: "push_bit (n - 1) 1 - 1 = (mask (n - 1) :: u128)"
    by (simp add: mask_eq_exp_minus_1 push_bit_eq_mult)
  have b: "bit ?c i \<longleftrightarrow> i < 128 \<and> (i = n - 1 \<or> (i < n - 1 \<and> bit x i) \<or> i = 0)" for i
    unfolding prime_candidate_def m
    by (auto simp: bit_or_iff bit_and_iff bit_mask_iff bit_exp_iff bit_1_iff dest: bit_imp_le_length)
  have u: "bit (unat ?c) i \<longleftrightarrow> i < 128 \<and> (i = n - 1 \<or> (i < n - 1 \<and> bit x i) \<or> i = 0)" for i
    using b [of i] by (auto simp: bit_unsigned_iff)
  have "bit (unat ?c) (n - 1)" using u assms by simp
  then show "2 ^ (n - 1) \<le> unat ?c" by (rule bit_ge)
  show "unat ?c < 2 ^ n"
  proof (rule nat_less_power_by_bits)
    fix i assume "bit (unat ?c) i"
    then have "i = n - 1 \<or> i < n - 1 \<or> i = 0" using u by blast
    then show "i < n" using assms by arith
  qed
  show "odd (unat ?c)" using u [of 0] by (simp add: bit_0)
qed

lemma sample_below_loop_less:
  "sample_below_loop nxt msk bound s = Some r \<Longrightarrow> fst r < bound"
  by (rule sample_below_loop.raw_induct [of "\<lambda>nxt msk bound s r. fst r < bound"])
    (auto split: if_splits)

lemma sample_below_less: "sample_below nxt bound s = Some (b, s') \<Longrightarrow> b < bound"
  unfolding sample_below_def using sample_below_loop_less by fastforce

lemma miller_rabin_prime:
  assumes "fm_wf m" "fm_modulus m = c" "prime_nat (unat c)" "odd (unat c)" "41 < unat c"
  shows "miller_rabin_rounds nxt m c k s = Some (r, s') \<Longrightarrow> r"
proof (induction k arbitrary: s)
  case (Suc k)
  then obtain b s1 where b: "sample_below nxt (c - 3) s = Some (b, s1)"
    by (auto split: option.splits)
  have "unat (c - 3) = unat c - 3" using assms(5) by (subst unat_sub) (auto simp: word_le_nat_alt)
  then have "unat b < unat c - 3" using sample_below_less [OF b] by (simp add: word_less_nat_alt)
  then have "unat (2 + b) = 2 + unat b" "2 + unat b < unat c"
    using assms(5) unat_lt2p [of c] by (auto simp: unat_word_ariths)
  then have "strong_round m (2 + b)"
    using assms by (intro strong_round_prime) (auto simp: word_less_nat_alt)
  then show ?case using Suc b by simp
qed simp

lemma candidate_is_prime_accepts:
  assumes "candidate_is_prime nxt c s = Some (r, s')" "prime_nat (unat c)"
  shows r
proof (cases "sieve c")
  case None
  with assms obtain m where m: "field_metadata_new c = Some m"
    "miller_rabin_rounds nxt m c MILLER_RABIN_ROUNDS s = Some (r, s')"
    by (auto simp: candidate_is_prime_def split: option.splits)
  from m(2) show ?thesis
    by (rule miller_rabin_prime [rotated 5])
      (use field_metadata_new_Some [OF m(1)] assms(2) sieve_None [OF None] in auto)
next
  case (Some b)
  then show ?thesis using sieve_Some [OF Some] assms by (simp add: candidate_is_prime_def)
qed

lemma prime_sample_loop_result:
  "prime_sample_loop nxt bottom s = Some r \<Longrightarrow>
   \<exists>x s1. fst r = prime_candidate bottom x \<and> candidate_is_prime nxt (fst r) s1 = Some (True, snd r)"
proof (rule prime_sample_loop.raw_induct [of "\<lambda>nxt bottom s r. \<exists>x s1. fst r = prime_candidate bottom x
    \<and> candidate_is_prime nxt (fst r) s1 = Some (True, snd r)"], goal_cases)
  case (1 f nxt bottom s r)
  then obtain q where q: "candidate_is_prime nxt (prime_candidate bottom (fst (nxt s))) (snd (nxt s)) = Some q"
    "(if fst q then Some (prime_candidate bottom (fst (nxt s)), snd q) else f nxt bottom (snd q)) = Some r"
    by (auto simp: Option.bind_eq_Some_conv)
  show ?case
  proof (cases "fst q")
    case True
    with q show ?thesis
      by (intro exI [of _ "fst (nxt s)"] exI [of _ "snd (nxt s)"]) (cases q, auto)
  next
    case False
    then have "f nxt bottom (snd q) = Some r" using q(2) by simp
    from 1(2) [OF this] show ?thesis .
  qed
qed

text \<open>Sampling commutes with a map of states that commutes with drawing.\<close>

lemma sample_below_loop_map:
  "sample_below_loop nxt msk bound s = Some r \<Longrightarrow> (\<And>s. nxt' (f s) = (fst (nxt s), f (snd (nxt s)))) \<Longrightarrow>
   sample_below_loop nxt' msk bound (f s) = Some (fst r, f (snd r))"
proof (rule sample_below_loop.raw_induct [of "\<lambda>nxt msk bound s r.
    (\<forall>s. nxt' (f s) = (fst (nxt s), f (snd (nxt s)))) \<longrightarrow>
    sample_below_loop nxt' msk bound (f s) = Some (fst r, f (snd r))", rule_format], goal_cases)
  case (1 g nxt msk bound s r)
  have h: "nxt' (f s) = (fst (nxt s), f (snd (nxt s)))" using 1(5) by blast
  show ?case
  proof (cases "fst (nxt s) AND msk < bound")
    case True
    then show ?thesis using 1(4) h by (subst sample_below_loop.simps) auto
  next
    case False
    then have "g nxt msk bound (snd (nxt s)) = Some r" using 1(4) by simp
    from 1(3) [OF this 1(5)] show ?thesis using False h by (subst sample_below_loop.simps) simp
  qed
qed auto

lemma sample_below_map:
  assumes "\<And>s. nxt' (f s) = (fst (nxt s), f (snd (nxt s)))" "sample_below nxt bound s = Some (b, s')"
  shows "sample_below nxt' bound (f s) = Some (b, f s')"
  using assms(2) sample_below_loop_map [of nxt _ bound s "(b, s')" nxt' f, OF _ assms(1)]
  by (simp add: sample_below_def)

lemma miller_rabin_map:
  assumes "\<And>s. nxt' (f s) = (fst (nxt s), f (snd (nxt s)))"
  shows "miller_rabin_rounds nxt m c k s = Some (r, s') \<Longrightarrow>
    miller_rabin_rounds nxt' m c k (f s) = Some (r, f s')"
proof (induction k arbitrary: s)
  case (Suc k)
  then obtain b s1 where b: "sample_below nxt (c - 3) s = Some (b, s1)" by (auto split: option.splits)
  with Suc sample_below_map [where nxt' = nxt' and f = f, OF assms b] show ?case by (auto split: if_splits)
qed simp

lemma candidate_is_prime_map:
  assumes "\<And>s. nxt' (f s) = (fst (nxt s), f (snd (nxt s)))" "candidate_is_prime nxt c s = Some (r, s')"
  shows "candidate_is_prime nxt' c (f s) = Some (r, f s')"
  using assms(2) miller_rabin_map [where nxt' = nxt' and f = f, OF assms(1)]
  by (auto simp: candidate_is_prime_def split: option.splits)

lemma prime_sample_loop_map:
  "prime_sample_loop nxt bottom s = Some r \<Longrightarrow> (\<And>s. nxt' (f s) = (fst (nxt s), f (snd (nxt s)))) \<Longrightarrow>
   prime_sample_loop nxt' bottom (f s) = Some (fst r, f (snd r))"
proof (rule prime_sample_loop.raw_induct [of "\<lambda>nxt bottom s r.
    (\<forall>s. nxt' (f s) = (fst (nxt s), f (snd (nxt s)))) \<longrightarrow>
    prime_sample_loop nxt' bottom (f s) = Some (fst r, f (snd r))", rule_format], goal_cases)
  case (1 g nxt bottom s r)
  obtain q where q: "candidate_is_prime nxt (prime_candidate bottom (fst (nxt s))) (snd (nxt s)) = Some q"
    "(if fst q then Some (prime_candidate bottom (fst (nxt s)), snd q) else g nxt bottom (snd q)) = Some r"
    using 1(4) by (auto simp: Option.bind_eq_Some_conv)
  have h: "\<And>s. nxt' (f s) = (fst (nxt s), f (snd (nxt s)))" using 1(5) by blast
  obtain d s1 where ds: "q = (d, s1)" by (cases q)
  from candidate_is_prime_map [where nxt' = nxt' and f = f, OF h q(1) [unfolded ds]]
  have c: "candidate_is_prime nxt' (prime_candidate bottom (fst (nxt s))) (f (snd (nxt s))) = Some (d, f s1)" .
  show ?case
  proof (cases d)
    case True
    then show ?thesis using q(2) c h [of s] by (subst prime_sample_loop.simps) (auto simp: ds)
  next
    case False
    then have "g nxt bottom s1 = Some r" using q(2) by (simp add: ds)
    from 1(3) [OF this 1(5)] show ?thesis using False c h [of s] by (subst prime_sample_loop.simps) simp
  qed
qed auto

lemma next_replay: "vs_next_u128 S (replay N H p) = (fst (ps_next_u128 S p), replay N H (snd (ps_next_u128 S p)))"
  by (simp add: vs_next_u128_def ps_next_u128_def replay_def split: prod.splits)

section \<open>Properties\<close>

text \<open>C20: Transcript replay.  Whatever sequence of public messages, messages, length-prefixed byte
  strings, hints, challenges and grinding boundaries a prover runs to the end, a verifier that runs
  the same sequence on the finished proof succeeds, reads the bytes the prover sent, squeezes the
  same challenges, and finds both streams consumed exactly.\<close>

theorem transcript_replays:
  assumes "spongefish_ok S" "prover_session S blake3 ops (build_prover S session inst) = Some (es, p)"
  shows "\<exists>v. verifier_session S blake3 ops (build_verifier S session inst (ps_finish p)) = Some (es, v)
    \<and> vs_inner v = ps_inner p \<and> vs_check_eof v = Some ()"
proof -
  have "verifier_session S blake3 ops (replay (ps_narg p) (ps_hints p) (build_prover S session inst))
      = Some (es, replay (ps_narg p) (ps_hints p) p)"
    using session_replay [OF assms within_self] by blast
  then show ?thesis by (simp add: build_replay eof_replay) (simp add: replay_def)
qed

text \<open>A sponge that records what it absorbed, for concrete runs.\<close>

definition toy_sponge :: "u8 list spongefish" where
  "toy_sponge = \<lparr>sf_new = \<lambda>a b c. a @ b @ c, sf_absorb = \<lambda>b s. s @ b,
     sf_squeeze = \<lambda>n s. (take n (rev s @ replicate n 0), s @ [1]),
     sf_squeeze_u128 = \<lambda>s. (word_of_nat (length s), s @ [2]),
     sf_encode_u32 = to_le_bytes 4, sf_encode_u64 = to_le_bytes 8,
     sf_take = \<lambda>n buf. if length buf < n then None else Some (take n buf, drop n buf),
     sf_read_u32 = \<lambda>buf. if length buf < 4 then None else Some (from_le_bytes (take 4 buf), drop 4 buf)\<rparr>"

lemma toy_sponge_ok: "spongefish_ok toy_sponge"
  by (simp add: spongefish_ok_def toy_sponge_def)

theorem transcript_replays_witness:
  "\<exists>es p v. prover_session toy_sponge (\<lambda>_. []) [OpMessage [7, 8], OpChallenge, OpHint [9]]
       (build_prover toy_sponge [1] [2]) = Some (es, p) \<and> ps_finish p = \<lparr>narg_string = [7, 8], proof_hints = [9]\<rparr> \<and>
     verifier_session toy_sponge (\<lambda>_. []) [OpMessage [7, 8], OpChallenge, OpHint [9]]
       (build_verifier toy_sponge [1] [2] (ps_finish p)) = Some (es, v) \<and> vs_check_eof v = Some ()"
proof -
  obtain es p where p: "prover_session toy_sponge (\<lambda>_. []) [OpMessage [7, 8], OpChallenge, OpHint [9]]
      (build_prover toy_sponge [1] [2]) = Some (es, p)" "ps_narg p = [7, 8]" "ps_hints p = [9]"
    by (fastforce simp: build_prover_def ps_prover_message_def ps_verifier_message_def ps_hint_def
        toy_sponge_def Let_def)
  from transcript_replays [OF toy_sponge_ok p(1)] p show ?thesis by (auto simp: ps_finish_def)
qed

text \<open>C31: The fingerprint prime.  What the sampler returns is an odd number of exactly the requested
  width that passed its primality test; the test never rejects a prime, so a first candidate that is
  prime is the one returned; and a verifier replaying the transcript draws the same prime.\<close>

theorem prime_sampler:
  assumes "prime_sample (ps_next_u128 S) n p = Some (c, p')"
  shows "2 ^ (n - 1) \<le> unat c \<and> unat c < 2 ^ n \<and> odd (unat c) \<and> 2 \<le> n \<and> n \<le> MAX_MODULUS_BITS \<and>
    (\<exists>p1. candidate_is_prime (ps_next_u128 S) c p1 = Some (True, p')) \<and>
    (\<forall>x p1. ps_next_u128 S p = (x, p1) \<longrightarrow> prime_nat (unat (prime_candidate (push_bit (n - 1) 1) x)) \<longrightarrow>
       c = prime_candidate (push_bit (n - 1) 1) x) \<and>
    prime_sample (vs_next_u128 S) n (replay N H p) = Some (c, replay N H p')"
proof (intro conjI allI impI)
  let ?b = "push_bit (n - 1) 1 :: u128"
  have n: "2 \<le> n" "n \<le> MAX_MODULUS_BITS" and loop: "prime_sample_loop (ps_next_u128 S) ?b p = Some (c, p')"
    using assms by (auto simp: prime_sample_def split: if_splits)
  show "2 \<le> n" "n \<le> MAX_MODULUS_BITS" by fact+
  obtain x p1 where x: "c = prime_candidate ?b x" "candidate_is_prime (ps_next_u128 S) c p1 = Some (True, p')"
    using prime_sample_loop_result [OF loop] by auto
  show "2 ^ (n - 1) \<le> unat c" "unat c < 2 ^ n" "odd (unat c)"
    unfolding x(1) using prime_candidate_bits n by (simp_all add: MAX_MODULUS_BITS_def)
  show "\<exists>p1. candidate_is_prime (ps_next_u128 S) c p1 = Some (True, p')" using x(2) by blast
  show "prime_sample (vs_next_u128 S) n (replay N H p) = Some (c, replay N H p')"
    using prime_sample_loop_map [OF loop, of "vs_next_u128 S" "replay N H", OF next_replay] n
    by (simp add: prime_sample_def)
  fix x p1 assume d: "ps_next_u128 S p = (x, p1)" "prime_nat (unat (prime_candidate ?b x))"
  obtain r where r: "candidate_is_prime (ps_next_u128 S) (prime_candidate ?b x) p1 = Some r"
    using loop d(1) by (subst (asm) prime_sample_loop.simps) (auto simp: Option.bind_eq_Some_conv)
  then have "fst r" using candidate_is_prime_accepts [OF _ d(2)] by (cases r) auto
  then show "c = prime_candidate ?b x"
    using loop d(1) r by (subst (asm) prime_sample_loop.simps) auto
qed

theorem prime_sampler_witness:
  "\<exists>p'. prime_sample (vs_next_u128 toy_sponge) 3 (replay [] [] \<lparr>ps_inner = [0], ps_narg = [], ps_hints = []\<rparr>)
    = Some (5, replay [] [] p')"
proof -
  have c: "prime_candidate (push_bit 2 1) 1 = 5" by (simp add: prime_candidate_def)
  have "sieve 5 = Some True" by code_simp
  then have "prime_sample (ps_next_u128 toy_sponge) 3 \<lparr>ps_inner = [0], ps_narg = [], ps_hints = []\<rparr>
      = Some (5, \<lparr>ps_inner = [0, 2], ps_narg = [], ps_hints = []\<rparr>)"
    by (simp add: prime_sample_def MAX_MODULUS_BITS_def prime_sample_loop.simps ps_next_u128_def
        toy_sponge_def candidate_is_prime_def prime_candidate_def)
  from prime_sampler [OF this] show ?thesis by blast
qed

end
