(* ===== verification/Gkr.thy ===== *)
theory Gkr
  imports Transcript
begin

text \<open>
  The batched grand-product argument, \<open>crates/gkr/src/lib.rs\<close>: a tree of products per column, and
  the layer-by-layer sumcheck that reduces a claim on the product layer to one on the leaves.

  Points are lists in the order of the code's \<open>VecDeque\<close> (high index bit first); the public
  functions reverse them.  The parallel iterators sum in an order that is not fixed; the deferred
  sums are exclusive ors, so one left fold stands for all of them.
\<close>

section \<open>The suffix table\<close>

text \<open>\<open>suffix_fill\<close> writes the levels after the first one into the buffer; splitting a buffer that is
  too short panics.\<close>

fun suffix_fill :: "f128 list \<Rightarrow> f128 list \<Rightarrow> f128 list \<Rightarrow> f128 list option" where
  "suffix_fill [] prev remaining = Some remaining"
| "suffix_fill (z # zs) prev remaining =
     (let size = 2 * length prev
      in if length remaining < size then None
         else
           let tmp = map (\<lambda>e. z * e) prev;
               entry = map2 (-) prev tmp @ tmp
           in map_option (\<lambda>rest. entry @ rest) (suffix_fill zs entry (drop size remaining)))"

definition suffix_new :: "f128 list \<Rightarrow> f128 list \<Rightarrow> f128 list option" where
  "suffix_new storage point =
     (let needed = max (2 ^ length point - 1) 1
      in if length storage < needed then None
         else
           let c = drop (min (length point) 1) point
           in map_option (\<lambda>rest. 1 # rest) (suffix_fill (rev c) [1] (drop 1 storage)))"

definition suffix_layer :: "f128 list \<Rightarrow> nat \<Rightarrow> f128 list" where
  "suffix_layer storage i =
     (let start = 2 ^ i - 1; stop = 2 ^ (i + 1) - 1 in take (stop - start) (drop start storage))"

definition alloc_storage :: "nat \<Rightarrow> f128 list" where
  "alloc_storage lb = replicate (2 ^ max (lb - 1) 1) 0"

section \<open>One sumcheck round of the prover\<close>

definition eq_factor :: "f128 \<Rightarrow> f128 \<Rightarrow> f128" where
  "eq_factor r z = 1 + r + z"

definition round_step :: "bool \<Rightarrow> words4 \<times> words4
    \<Rightarrow> (((f128 list \<times> f128 list) \<times> f128 list) \<times> f128 list) \<times> f128 list \<Rightarrow> words4 \<times> words4" where
  "round_step send_one sums chunk =
     (case (sums, chunk) of ((sum_endpoint, sum_inf), ((((l_lo, r_lo), l_hi), r_hi), e)) \<Rightarrow>
        let d_l0 = l_hi ! 0 - l_lo ! 0; d_r0 = r_hi ! 0 - r_lo ! 0;
            d_l1 = l_hi ! 1 - l_lo ! 1; d_r1 = r_hi ! 1 - r_lo ! 1;
            (l_e0, r_e0) = (if send_one then (l_hi ! 0, r_hi ! 0) else (l_lo ! 0, r_lo ! 0));
            (l_e1, r_e1) = (if send_one then (l_hi ! 1, r_hi ! 1) else (l_lo ! 1, r_lo ! 1));
            a0 = e ! 0 * l_e0; b0 = e ! 0 * d_l0;
            a1 = e ! 1 * l_e1; b1 = e ! 1 * d_l1;
            sum_endpoint = wide256_add sum_endpoint (wide256_mul a0 r_e0);
            sum_inf = wide256_add sum_inf (wide256_mul b0 d_r0);
            sum_endpoint = wide256_add sum_endpoint (wide256_mul a1 r_e1);
            sum_inf = wide256_add sum_inf (wide256_mul b1 d_r1)
        in (sum_endpoint, sum_inf))"

definition reduce_sumcheck_round ::
  "bool \<Rightarrow> f128 list \<Rightarrow> f128 list \<Rightarrow> f128 list \<Rightarrow> f128 list \<Rightarrow> f128 list \<Rightarrow> words4 \<times> words4" where
  "reduce_sumcheck_round send_one lo_l lo_r hi_l hi_r eq =
     foldl (round_step send_one) (wide256_zero, wide256_zero)
       (zip (zip (zip (zip (chunks_exact 2 lo_l) (chunks_exact 2 lo_r)) (chunks_exact 2 hi_l))
         (chunks_exact 2 hi_r)) (chunks_exact 2 eq))"

definition CUBIC_GRINDING_LABEL :: "u8 list" where
  "CUBIC_GRINDING_LABEL = map (\<lambda>c. word_of_nat (of_char c)) ''gkr/cubic/v1''"

text \<open>A \<open>[Field; 2]\<close> message: its encoding and its deserialization.\<close>

definition pair_encode :: "f128 \<times> f128 \<Rightarrow> u8 list" where
  "pair_encode ab = f128_encode (fst ab) @ f128_encode (snd ab)"

definition pair_deserialize :: "'s spongefish \<Rightarrow> u8 list \<Rightarrow> ((f128 \<times> f128) \<times> u8 list) option" where
  "pair_deserialize S buf =
     (case f128_deserialize (sf_take S 16) buf of
        (None, _) \<Rightarrow> None
      | (Some a, rest) \<Rightarrow>
          (case f128_deserialize (sf_take S 16) rest of
             (None, _) \<Rightarrow> None
           | (Some b, rest) \<Rightarrow> Some ((a, b), rest)))"

text \<open>What both the loop and the peeled last round do with the two sums: send them, grind, draw.\<close>

definition send_round ::
  "'s spongefish \<Rightarrow> (u8 list \<Rightarrow> u8 list) \<Rightarrow> security_level \<Rightarrow> f128 \<Rightarrow> words4 \<times> words4 \<Rightarrow> 's prover_state
   \<Rightarrow> (f128 \<times> 's prover_state) option" where
  "send_round S blake3 security factor sums ps =
     (let ps = ps_prover_message S
            (pair_encode (factor * wide256_reduce (fst sums), factor * wide256_reduce (snd sums))) ps
      in map_option (ps_verifier_message S)
           (ps_grind S blake3 CUBIC_GRINDING_LABEL (grinding_bits security 3) ps))"

text \<open>The new evaluations of one half: \<open>lo + r * (hi - lo)\<close>.\<close>

definition fold_half :: "f128 \<Rightarrow> f128 list \<Rightarrow> f128 list \<Rightarrow> f128 list" where
  "fold_half r evals_lo evals_hi = map2 (\<lambda>l h. l + r * (h - l)) evals_lo evals_hi"

record 's layer_state =
  ly_l :: "f128 list"
  ly_r :: "f128 list"
  ly_factor :: f128
  ly_next :: "f128 list"
  ly_ps :: "'s prover_state"

definition prove_round ::
  "'s spongefish \<Rightarrow> (u8 list \<Rightarrow> u8 list) \<Rightarrow> security_level \<Rightarrow> f128 list \<Rightarrow> nat \<times> f128 \<Rightarrow> 's layer_state
   \<Rightarrow> 's layer_state option" where
  "prove_round S blake3 security storage iz st =
     (let (i, z) = iz;
          eq = suffix_layer storage i;
          h = length (ly_l st) div 2;
          lo_l = take h (ly_l st); hi_l = drop h (ly_l st);
          lo_r = take h (ly_r st); hi_r = drop h (ly_r st);
          sums = reduce_sumcheck_round (z = 0) lo_l lo_r hi_l hi_r eq
      in case send_round S blake3 security (ly_factor st) sums (ly_ps st) of
           None \<Rightarrow> None
         | Some (r, ps) \<Rightarrow>
             Some \<lparr>ly_l = fold_half r lo_l hi_l, ly_r = fold_half r lo_r hi_r,
               ly_factor = ly_factor st * eq_factor r z, ly_next = ly_next st @ [r], ly_ps = ps\<rparr>)"

text \<open>The last round, peeled out: no equality weight, no chunks.\<close>

definition prove_last_round ::
  "'s spongefish \<Rightarrow> (u8 list \<Rightarrow> u8 list) \<Rightarrow> security_level \<Rightarrow> f128 \<Rightarrow> 's layer_state \<Rightarrow> 's layer_state option" where
  "prove_last_round S blake3 security z st =
     (let l_lo = ly_l st ! 0; l_hi = ly_l st ! 1;
          r_lo = ly_r st ! 0; r_hi = ly_r st ! 1;
          d_l = l_hi - l_lo; d_r = r_hi - r_lo;
          (l_endpoint, r_endpoint) = (if z = 0 then (l_hi, r_hi) else (l_lo, r_lo));
          sum_endpoint = wide256_mul l_endpoint r_endpoint;
          sum_inf = wide256_mul d_l d_r
      in case send_round S blake3 security (ly_factor st) (sum_endpoint, sum_inf) (ly_ps st) of
           None \<Rightarrow> None
         | Some (r, ps) \<Rightarrow>
             Some \<lparr>ly_l = [l_lo + r * d_l], ly_r = [r_lo + r * d_r],
               ly_factor = ly_factor st * eq_factor r z, ly_next = ly_next st @ [r], ly_ps = ps\<rparr>)"

fun prove_rounds ::
  "'s spongefish \<Rightarrow> (u8 list \<Rightarrow> u8 list) \<Rightarrow> security_level \<Rightarrow> f128 list \<Rightarrow> (nat \<times> f128) list \<Rightarrow> 's layer_state
   \<Rightarrow> 's layer_state option" where
  "prove_rounds S blake3 security storage [] st = Some st"
| "prove_rounds S blake3 security storage (iz # izs) st =
     (case prove_round S blake3 security storage iz st of
        None \<Rightarrow> None
      | Some st \<Rightarrow> prove_rounds S blake3 security storage izs st)"

definition prove_layer ::
  "'s spongefish \<Rightarrow> (u8 list \<Rightarrow> u8 list) \<Rightarrow> security_level \<Rightarrow> 's prover_state \<Rightarrow> f128 list \<Rightarrow> f128 list \<Rightarrow> f128 list
   \<Rightarrow> (((f128 list \<times> f128) \<times> f128 list) \<times> 's prover_state) option" where
  "prove_layer S blake3 security ps storage point wnext =
     (case suffix_new storage point of
        None \<Rightarrow> None
      | Some storage \<Rightarrow>
          let mid = length wnext div 2;
              rounds = length point;
              st = \<lparr>ly_l = take mid wnext, ly_r = drop mid wnext, ly_factor = 1, ly_next = [], ly_ps = ps\<rparr>
          in case prove_rounds S blake3 security storage (zip (rev [1..<rounds]) (butlast point)) st of
               None \<Rightarrow> None
             | Some st \<Rightarrow>
                 (case (if point = [] then Some st else prove_last_round S blake3 security (last point) st) of
                    None \<Rightarrow> None
                  | Some st \<Rightarrow>
                      let l = ly_l st ! 0; r_el = ly_r st ! 0;
                          ps = ps_prover_message S (pair_encode (l, r_el)) (ly_ps st);
                          (r, ps) = ps_verifier_message S ps
                      in Some (((r # ly_next st, l + r * (r_el - l)), storage), ps)))"

fun prove_layers ::
  "'s spongefish \<Rightarrow> (u8 list \<Rightarrow> u8 list) \<Rightarrow> security_level \<Rightarrow> f128 list list \<Rightarrow> f128 list
   \<Rightarrow> (f128 list \<times> f128) \<Rightarrow> 's prover_state \<Rightarrow> ((f128 list \<times> f128) \<times> 's prover_state) option" where
  "prove_layers S blake3 security [] storage pc ps = Some (pc, ps)"
| "prove_layers S blake3 security (wnext # ws) storage pc ps =
     (case prove_layer S blake3 security ps storage (fst pc) wnext of
        None \<Rightarrow> None
      | Some ((pc, storage), ps) \<Rightarrow> prove_layers S blake3 security ws storage pc ps)"

text \<open>The witnesses are consumed from the layer below the outputs down to the leaves, the reverse of
  the order in which \<open>batched_eval\<close> collects them.\<close>

definition gpgkr_prove ::
  "'s spongefish \<Rightarrow> (u8 list \<Rightarrow> u8 list) \<Rightarrow> security_level \<Rightarrow> nat \<Rightarrow> f128 list \<Rightarrow> f128 list list \<Rightarrow> 's prover_state
   \<Rightarrow> ((f128 list \<times> f128) \<times> 's prover_state) option" where
  "gpgkr_prove S blake3 security lb point witnesses ps =
     map_option (\<lambda>((point, claim), ps). ((rev point, claim), ps))
       (prove_layers S blake3 security (rev witnesses) (alloc_storage lb) (rev point, 0) ps)"

section \<open>The verifier\<close>

record 's verify_state =
  vf_prefix :: f128
  vf_claim :: f128
  vf_next :: "f128 list"
  vf_vs :: "'s verifier_state"

text \<open>The values at zero and one that a round's message stands for.\<close>

definition round_endpoints :: "f128 \<Rightarrow> f128 \<Rightarrow> f128 \<Rightarrow> f128 \<times> f128" where
  "round_endpoints claim z sum_endpoint =
     (if z = 0 then (claim, sum_endpoint)
      else let eqjsum0 = (1 - z) * sum_endpoint in (sum_endpoint, (claim - eqjsum0) / z))"

definition round_claim :: "f128 \<Rightarrow> f128 \<Rightarrow> f128 \<times> f128 \<Rightarrow> f128 \<Rightarrow> f128" where
  "round_claim z claim msg r =
     (let (sum_endpoint, suminf) = msg;
          (sum0, sum1) = round_endpoints claim z sum_endpoint;
          bracket = (sum1 - sum0) + (r - 1) * suminf
      in eq_factor r z * (sum0 + r * bracket))"

definition verify_round ::
  "'s spongefish \<Rightarrow> (u8 list \<Rightarrow> u8 list) \<Rightarrow> security_level \<Rightarrow> f128 \<Rightarrow> 's verify_state \<Rightarrow> 's verify_state option" where
  "verify_round S blake3 security z st =
     (case vs_prover_message S (pair_deserialize S) pair_encode (vf_vs st) of
        None \<Rightarrow> None
      | Some (msg, vs) \<Rightarrow>
          (case vs_grind S blake3 CUBIC_GRINDING_LABEL (grinding_bits security 3) vs of
             None \<Rightarrow> None
           | Some vs \<Rightarrow>
               let (r, vs) = vs_verifier_message S vs
               in Some \<lparr>vf_prefix = vf_prefix st * eq_factor r z,
                    vf_claim = round_claim z (vf_claim st) msg r,
                    vf_next = vf_next st @ [r], vf_vs = vs\<rparr>))"

fun verify_rounds ::
  "'s spongefish \<Rightarrow> (u8 list \<Rightarrow> u8 list) \<Rightarrow> security_level \<Rightarrow> f128 list \<Rightarrow> 's verify_state \<Rightarrow> 's verify_state option" where
  "verify_rounds S blake3 security [] st = Some st"
| "verify_rounds S blake3 security (z # zs) st =
     (case verify_round S blake3 security z st of
        None \<Rightarrow> None
      | Some st \<Rightarrow> verify_rounds S blake3 security zs st)"

definition verify_layer ::
  "'s spongefish \<Rightarrow> (u8 list \<Rightarrow> u8 list) \<Rightarrow> security_level \<Rightarrow> f128 \<Rightarrow> f128 list \<Rightarrow> 's verifier_state
   \<Rightarrow> ((f128 list \<times> f128) \<times> 's verifier_state) option" where
  "verify_layer S blake3 security claim point vs =
     (case verify_rounds S blake3 security point
             \<lparr>vf_prefix = 1, vf_claim = claim, vf_next = [], vf_vs = vs\<rparr> of
        None \<Rightarrow> None
      | Some st \<Rightarrow>
          (case vs_prover_message S (pair_deserialize S) pair_encode (vf_vs st) of
             None \<Rightarrow> None
           | Some ((elem_l, elem_r), vs) \<Rightarrow>
               if vf_prefix st * elem_l * elem_r \<noteq> vf_claim st then None
               else let (r, vs) = vs_verifier_message S vs
                    in Some ((r # vf_next st, elem_l + r * (elem_r - elem_l)), vs)))"

fun verify_layers ::
  "'s spongefish \<Rightarrow> (u8 list \<Rightarrow> u8 list) \<Rightarrow> security_level \<Rightarrow> nat \<Rightarrow> f128 list \<times> f128 \<Rightarrow> 's verifier_state
   \<Rightarrow> ((f128 list \<times> f128) \<times> 's verifier_state) option" where
  "verify_layers S blake3 security 0 pc vs = Some (pc, vs)"
| "verify_layers S blake3 security (Suc rounds) pc vs =
     (case verify_layer S blake3 security (snd pc) (fst pc) vs of
        None \<Rightarrow> None
      | Some (pc, vs) \<Rightarrow> verify_layers S blake3 security rounds pc vs)"

definition gpgkr_verify ::
  "'s spongefish \<Rightarrow> (u8 list \<Rightarrow> u8 list) \<Rightarrow> security_level \<Rightarrow> f128 \<Rightarrow> f128 list \<Rightarrow> nat \<Rightarrow> 's verifier_state
   \<Rightarrow> ((f128 list \<times> f128) \<times> 's verifier_state) option" where
  "gpgkr_verify S blake3 security claim point rounds vs =
     map_option (\<lambda>((point, claim), vs). ((rev point, claim), vs))
       (verify_layers S blake3 security rounds (rev point, claim) vs)"

section \<open>The circuit\<close>

text \<open>One row of leaves: the bits of the transposed row select the row's image or one.\<close>

definition leaf_row :: "f128 \<Rightarrow> u128 list \<Rightarrow> f128 list" where
  "leaf_row row_image items = map (\<lambda>x. if x = 1 then row_image else 1) items"

definition next_power_of_two :: "nat \<Rightarrow> nat" where
  "next_power_of_two n = (if n \<le> 1 then 1 else 2 ^ bitlen (n - 1))"

definition from_leafs :: "f128 list \<Rightarrow> f128 list" where
  "from_leafs leafs =
     (if leafs \<noteq> [] then leafs @ replicate (next_power_of_two (length leafs) - length leafs) 1 else leafs)"

definition grand_product_circuit_new :: "f128 list \<Rightarrow> bit_table \<Rightarrow> f128 list option" where
  "grand_product_circuit_new images table =
     (if length images \<noteq> shape_rows (bt_shape table) then None
      else case Option.bind (as_matrix table) bm_transpose of
        None \<Rightarrow> None
      | Some matrix \<Rightarrow>
          map_option (\<lambda>rows. from_leafs (concat rows))
            (those (map (\<lambda>(b, row_image). map_option (\<lambda>it. leaf_row row_image (step_iter_items 1 it)) (bm_bits matrix b))
              (zip [0..<length images] images))))"

function batched_eval_loop :: "nat \<Rightarrow> f128 list \<Rightarrow> f128 list list \<Rightarrow> f128 list \<times> f128 list list" where
  "batched_eval_loop groups prev_eval witnesses =
     (if groups < length prev_eval then
        let mid = length prev_eval div 2;
            l = take mid prev_eval; r = drop mid prev_eval;
            evl = map2 (*) l r
        in batched_eval_loop groups evl (witnesses @ [prev_eval])
      else (prev_eval, witnesses))"
  by pat_completeness auto
termination by (relation "measure (\<lambda>(_, prev_eval, _). length prev_eval)") auto

declare batched_eval_loop.simps [simp del]

definition batched_eval :: "f128 list \<Rightarrow> nat \<Rightarrow> f128 list \<times> f128 list list" where
  "batched_eval leafs groups = batched_eval_loop groups leafs []"

end
