(* ===== verification/Post_Gkr.thy ===== *)
theory Post_Gkr
  imports Common_Virtual Gkr
begin

text \<open>
  The sumcheck from an inner-product claim on the committed bits to an evaluation claim:
  \<open>crates/post_gkr/src/lib.rs\<close> and \<open>crates/post_gkr/src/sumcheck.rs\<close>.

  The parallel variants of a sum split the table into even chunks and add the parts; addition of
  the field is exclusive or, so the serial sums stand for both.  A panic is \<open>None\<close>.
\<close>

section \<open>The two-table sumcheck\<close>

datatype post_prove_error = WitnessLengthMismatch | ClaimDoesNotHold

datatype post_verify_error = PostMalformedProof | EvaluationMismatch

definition ELEMENT_BITS :: nat where
  "ELEMENT_BITS = 2 ^ PACK_BITS"

definition SUMCHECK_GRINDING_LABEL :: "u8 list" where
  "SUMCHECK_GRINDING_LABEL = map (\<lambda>c. word_of_nat (of_char c)) ''bitz/pcs/sumcheck/v1''"

record sumcheck_pair =
  sp_weights :: "f128 list"
  sp_values :: "f128 list"

definition sp_bound :: "sumcheck_pair \<Rightarrow> f128 \<times> f128" where
  "sp_bound self = (sp_weights self ! 0, sp_values self ! 0)"

definition coefficients_serial :: "f128 list \<Rightarrow> f128 list \<Rightarrow> words4 \<times> words4" where
  "coefficients_serial weights vals =
     foldl (\<lambda>(a0, a2) (w, v).
         (wide256_add a0 (wide256_mul (w ! 0) (v ! 0)),
          wide256_add a2 (wide256_mul (w ! 0 + w ! 1) (v ! 0 + v ! 1))))
       (wide256_zero, wide256_zero) (zip (chunks_exact 2 weights) (chunks_exact 2 vals))"

definition sp_message :: "sumcheck_pair \<Rightarrow> f128 \<times> f128" where
  "sp_message self =
     (let (a0, a2) = coefficients_serial (sp_weights self) (sp_values self)
      in (wide256_reduce a0, wide256_reduce a2))"

definition folded :: "f128 list \<Rightarrow> f128 \<Rightarrow> f128 list" where
  "folded table challenge = map (\<lambda>pair. pair ! 0 + challenge * (pair ! 0 + pair ! 1)) (chunks_exact 2 table)"

definition sp_fold :: "f128 \<Rightarrow> sumcheck_pair \<Rightarrow> sumcheck_pair" where
  "sp_fold challenge self =
     \<lparr>sp_weights = folded (sp_weights self) challenge, sp_values = folded (sp_values self) challenge\<rparr>"

definition advance :: "f128 \<Rightarrow> f128 \<times> f128 \<Rightarrow> f128 \<Rightarrow> f128" where
  "advance claim msg challenge = (case msg of (a0, a2) \<Rightarrow> a0 + challenge * (claim + a2 + challenge * a2))"

text \<open>Sending a round message, grinding and drawing; reading it back.\<close>

definition sumcheck_send ::
  "'s spongefish \<Rightarrow> (u8 list \<Rightarrow> u8 list) \<Rightarrow> security_level \<Rightarrow> f128 \<times> f128 \<Rightarrow> 's prover_state \<Rightarrow> (f128 \<times> 's prover_state) option" where
  "sumcheck_send S blake3 security message transcript =
     map_option (ps_verifier_message S)
       (ps_grind S blake3 SUMCHECK_GRINDING_LABEL (grinding_bits security 2)
         (ps_prover_message S (pair_encode message) transcript))"

definition sumcheck_receive ::
  "'s spongefish \<Rightarrow> (u8 list \<Rightarrow> u8 list) \<Rightarrow> security_level \<Rightarrow> 's verifier_state
   \<Rightarrow> (((f128 \<times> f128) \<times> f128) \<times> 's verifier_state) option" where
  "sumcheck_receive S blake3 security transcript =
     (case vs_prover_message S (pair_deserialize S) pair_encode transcript of
        None \<Rightarrow> None
      | Some (message, transcript) \<Rightarrow>
          (case vs_grind S blake3 SUMCHECK_GRINDING_LABEL (grinding_bits security 2) transcript of
             None \<Rightarrow> None
           | Some transcript \<Rightarrow>
               let (challenge, transcript) = vs_verifier_message S transcript
               in Some ((message, challenge), transcript)))"

fun sumcheck_prove_rounds ::
  "'s spongefish \<Rightarrow> (u8 list \<Rightarrow> u8 list) \<Rightarrow> security_level \<Rightarrow> nat \<Rightarrow> sumcheck_pair \<Rightarrow> f128 \<Rightarrow> 's prover_state
   \<Rightarrow> (((f128 list \<times> f128) \<times> sumcheck_pair) \<times> 's prover_state) option" where
  "sumcheck_prove_rounds S blake3 security 0 pair claim transcript = Some ((([], claim), pair), transcript)"
| "sumcheck_prove_rounds S blake3 security (Suc rounds) pair claim transcript =
     (let message = sp_message pair
      in case sumcheck_send S blake3 security message transcript of
           None \<Rightarrow> None
         | Some (challenge, transcript) \<Rightarrow>
             map_option (\<lambda>(((point, claim), pair), transcript). (((challenge # point, claim), pair), transcript))
               (sumcheck_prove_rounds S blake3 security rounds (sp_fold challenge pair)
                 (advance claim message challenge) transcript))"

fun sumcheck_verify_rounds ::
  "'s spongefish \<Rightarrow> (u8 list \<Rightarrow> u8 list) \<Rightarrow> security_level \<Rightarrow> nat \<Rightarrow> f128 \<Rightarrow> 's verifier_state
   \<Rightarrow> ((f128 list \<times> f128) \<times> 's verifier_state) option" where
  "sumcheck_verify_rounds S blake3 security 0 claim transcript = Some (([], claim), transcript)"
| "sumcheck_verify_rounds S blake3 security (Suc rounds) claim transcript =
     (case sumcheck_receive S blake3 security transcript of
        None \<Rightarrow> None
      | Some ((message, challenge), transcript) \<Rightarrow>
          map_option (\<lambda>((point, claim), transcript). ((challenge # point, claim), transcript))
            (sumcheck_verify_rounds S blake3 security rounds (advance claim message challenge) transcript))"

definition sumcheck_prove ::
  "'s spongefish \<Rightarrow> (u8 list \<Rightarrow> u8 list) \<Rightarrow> security_level \<Rightarrow> sumcheck_pair \<Rightarrow> f128 \<Rightarrow> 's prover_state
   \<Rightarrow> ((f128 list \<times> f128) \<times> 's prover_state) option" where
  "sumcheck_prove S blake3 security pair claim transcript =
     (let rounds = trailing_zeros_nat (length (sp_weights pair))
      in case sumcheck_prove_rounds S blake3 security rounds pair claim transcript of
           None \<Rightarrow> None
         | Some (((point, running), pair), transcript) \<Rightarrow>
             let (weight, evaluation) = sp_bound pair
             in Some ((point, evaluation), ps_prover_message S (f128_encode evaluation) transcript))"

definition element_deserialize :: "'s spongefish \<Rightarrow> u8 list \<Rightarrow> (f128 \<times> u8 list) option" where
  "element_deserialize S buf =
     (case f128_deserialize (sf_take S 16) buf of (None, _) \<Rightarrow> None | (Some a, rest) \<Rightarrow> Some (a, rest))"

definition verify_evaluation ::
  "'s spongefish \<Rightarrow> f128 \<Rightarrow> f128 \<Rightarrow> 's verifier_state \<Rightarrow> post_verify_error + f128 \<times> 's verifier_state" where
  "verify_evaluation S bound_weight claim transcript =
     (case vs_prover_message S (element_deserialize S) f128_encode transcript of
        None \<Rightarrow> Inl PostMalformedProof
      | Some (evaluation, transcript) \<Rightarrow>
          if bound_weight * evaluation \<noteq> claim then Inl EvaluationMismatch else Inr (evaluation, transcript))"

text \<open>The caller's weight is an option: its evaluation can panic.\<close>

definition sumcheck_verify ::
  "'s spongefish \<Rightarrow> (u8 list \<Rightarrow> u8 list) \<Rightarrow> nat \<Rightarrow> f128 \<Rightarrow> (f128 list \<Rightarrow> f128 option) \<Rightarrow> security_level \<Rightarrow> 's verifier_state
   \<Rightarrow> (post_verify_error + (f128 list \<times> f128) \<times> 's verifier_state) option" where
  "sumcheck_verify S blake3 rounds claim weight security transcript =
     (case sumcheck_verify_rounds S blake3 security rounds claim transcript of
        None \<Rightarrow> Some (Inl PostMalformedProof)
      | Some ((point, running), transcript) \<Rightarrow>
          (case weight point of
             None \<Rightarrow> None
           | Some w \<Rightarrow>
               (case verify_evaluation S w running transcript of
                  Inl e \<Rightarrow> Some (Inl e)
                | Inr (evaluation, transcript) \<Rightarrow> Some (Inr ((point, evaluation), transcript)))))"

section \<open>The first round, off the packed bits\<close>

text \<open>\<open>iter_over_set_bits\<close>: the positions of the set bits, ascending.\<close>

function iter_over_set_bits :: "u128 \<Rightarrow> nat list" where
  "iter_over_set_bits word =
     (if word = 0 then [] else trailing_zeros word # iter_over_set_bits (word AND (word - 1)))"
  by pat_completeness auto
termination by (relation "measure unat") (auto simp: and_pred_less)

declare iter_over_set_bits.simps [simp del]

definition EVEN_BITS :: u128 where
  "EVEN_BITS = 0x55555555555555555555555555555555"

record factors =
  fac_rows :: "f128 list"
  fac_columns :: "f128 list"

definition factors_packed_len :: "factors \<Rightarrow> nat" where
  "factors_packed_len self = drop_bit PACK_BITS (length (fac_rows self)) * length (fac_columns self)"

text \<open>The remainder by zero and the slice bounds panic.\<close>

definition factors_element :: "factors \<Rightarrow> nat \<Rightarrow> (f128 list \<times> f128) option" where
  "factors_element self index =
     (let per_column = drop_bit PACK_BITS (length (fac_rows self))
      in if per_column = 0 then None
         else
           let start = push_bit PACK_BITS (index mod per_column)
           in if length (fac_rows self) < start + ELEMENT_BITS \<or> length (fac_columns self) \<le> index div per_column then None
              else Some (take ELEMENT_BITS (drop start (fac_rows self)), fac_columns self ! (index div per_column)))"

definition weighted_sum :: "factors \<Rightarrow> f128 list \<Rightarrow> f128 option" where
  "weighted_sum self packed =
     map_option f128_sum
       (those (map (\<lambda>(index, element).
           map_option (\<lambda>(rows, column). column * f128_sum (map (\<lambda>v. rows ! v) (iter_over_set_bits (f128_to_u128 element))))
             (factors_element self index))
         (zip [0..<length packed] packed)))"

definition first_message :: "factors \<Rightarrow> f128 list \<Rightarrow> (f128 \<times> f128) option" where
  "first_message self packed =
     map_option (foldl (\<lambda>(a0, a2) (b0, b2). (a0 + b0, a2 + b2)) (0, 0))
       (those (map (\<lambda>(index, element).
           map_option (\<lambda>(rows, column).
               let bs = f128_to_u128 element;
                   a0 = f128_sum (map (\<lambda>v. rows ! v) (iter_over_set_bits (bs AND EVEN_BITS)));
                   a2 = f128_sum (map (\<lambda>v. rows ! v + rows ! (v + 1)) (iter_over_set_bits ((bs XOR drop_bit 1 bs) AND EVEN_BITS)))
               in (column * a0, column * a2))
             (factors_element self index))
         (zip [0..<length packed] packed)))"

definition factors_fold :: "factors \<Rightarrow> f128 \<Rightarrow> f128 list" where
  "factors_fold self challenge =
     (let rows = folded (fac_rows self) challenge
      in concat (map (\<lambda>column. map (\<lambda>row. column * row) rows) (fac_columns self)))"

definition bind_first :: "f128 list \<Rightarrow> f128 \<Rightarrow> f128 list" where
  "bind_first packed challenge =
     (let challenge_plus_one = challenge + 1;
          table = [0, challenge_plus_one, challenge, 1]
      in concat (map (\<lambda>element. map (\<lambda>pair. table ! unat (drop_bit (2 * pair) (f128_to_u128 element) AND 3))
             [0..<ELEMENT_BITS div 2]) packed))"

section \<open>The reduction\<close>

definition prove_factors ::
  "'s spongefish \<Rightarrow> (u8 list \<Rightarrow> u8 list) \<Rightarrow> f128 list \<Rightarrow> f128 list \<Rightarrow> f128 \<Rightarrow> f128 list \<Rightarrow> security_level \<Rightarrow> 's prover_state
   \<Rightarrow> (post_prove_error + opening_query \<times> 's prover_state) option" where
  "prove_factors S blake3 rows columns t packed security transcript =
     (let facs = \<lparr>fac_rows = rows, fac_columns = columns\<rparr>
      in if length packed \<noteq> factors_packed_len facs then Some (Inl WitnessLengthMismatch)
         else case weighted_sum facs packed of
             None \<Rightarrow> None
           | Some actual \<Rightarrow>
               if actual \<noteq> t then Some (Inl ClaimDoesNotHold)
               else case first_message facs packed of
                   None \<Rightarrow> None
                 | Some message \<Rightarrow>
                     (case sumcheck_send S blake3 security message transcript of
                        None \<Rightarrow> None
                      | Some (challenge, transcript) \<Rightarrow>
                          let running = advance t message challenge;
                              pair = \<lparr>sp_weights = factors_fold facs challenge, sp_values = bind_first packed challenge\<rparr>
                          in map_option (\<lambda>((rest, t), transcript). Inr (Mle (challenge # rest) t, transcript))
                               (sumcheck_prove S blake3 security pair running transcript)))"

definition verify_factors ::
  "'s spongefish \<Rightarrow> (u8 list \<Rightarrow> u8 list) \<Rightarrow> f128 list \<Rightarrow> f128 list \<Rightarrow> f128 \<Rightarrow> security_level \<Rightarrow> 's verifier_state
   \<Rightarrow> (post_verify_error + opening_query \<times> 's verifier_state) option" where
  "verify_factors S blake3 rows columns t security transcript =
     (let lr = trailing_zeros_nat (length rows);
          rounds = lr + trailing_zeros_nat (length columns);
          weight = (\<lambda>point. Option.bind (mle_evaluate_f128 rows (take lr point)) (\<lambda>a.
                      map_option (\<lambda>b. a * b) (mle_evaluate_f128 columns (drop lr point))))
      in map_option (\<lambda>r. case r of Inl e \<Rightarrow> Inl e | Inr ((point, t), transcript) \<Rightarrow> Inr (Mle point t, transcript))
           (sumcheck_verify S blake3 rounds t weight security transcript))"

definition post_gkr_prove ::
  "'s spongefish \<Rightarrow> (u8 list \<Rightarrow> u8 list) \<Rightarrow> f128 linear_claim \<Rightarrow> f128 list \<Rightarrow> security_level \<Rightarrow> 's prover_state
   \<Rightarrow> (post_prove_error + opening_query \<times> 's prover_state) option" where
  "post_gkr_prove S blake3 claim packed security transcript =
     prove_factors S blake3 (row_weights claim) (column_weights claim) (target claim) packed security transcript"

definition post_gkr_verify ::
  "'s spongefish \<Rightarrow> (u8 list \<Rightarrow> u8 list) \<Rightarrow> f128 linear_claim \<Rightarrow> security_level \<Rightarrow> 's verifier_state
   \<Rightarrow> (post_verify_error + opening_query \<times> 's verifier_state) option" where
  "post_gkr_verify S blake3 claim security transcript =
     verify_factors S blake3 (row_weights claim) (column_weights claim) (target claim) security transcript"

end
