(* ===== verification/Protocol.thy ===== *)
theory Protocol
  imports Common_Virtual Gkr
begin

text \<open>
  The protocol itself: \<open>crates/prover/src/{fold,reduce,prove}.rs\<close> and
  \<open>crates/verifier/src/{fold,reduce,verify}.rs\<close>.

  A result is \<open>None\<close> for a panic, \<open>Some (Inl e)\<close> for a returned error (the transcript is then
  abandoned by every caller) and \<open>Some (Inr v)\<close> otherwise.  The claim field is a \<open>claim_field\<close>
  record; the sponge, the grinding hash and the commitment scheme are arguments.  The scheme is the
  record of the methods of the trait \<open>CommitScheme\<close>, of \<open>Pcs\<close> and of its data that the protocol
  calls (the opening always with \<open>StatementBinding::Bind\<close>).
\<close>

section \<open>The commitment scheme\<close>

record ('d, 'c, 'e, 's) commit_scheme =
  pcs_bit_len :: nat
  pcs_security_level :: security_level
  pcs_encode :: "u8 list"
  pcs_data_root :: "'d \<Rightarrow> u8 list"
  pcs_commitment_root :: "'c \<Rightarrow> u8 list"
  pcs_prove_lin :: "'d \<Rightarrow> f128 list \<Rightarrow> opening_query \<Rightarrow> 's prover_state \<Rightarrow> ('e + 's prover_state) option"
  pcs_verify_lin :: "'c \<Rightarrow> opening_query \<Rightarrow> 's verifier_state \<Rightarrow> ('e + 's verifier_state) option"

section \<open>Prover\<close>

datatype send_error = ShapeMismatch | SendFold fold_error

definition COLUMNS_LABEL :: "u8 list" where
  "COLUMNS_LABEL = map (\<lambda>c. word_of_nat (of_char c)) ''bitz/columns/v1''"

text \<open>\<open>(0..n).map(|_| transcript.verifier_message()).collect()\<close>, on either side.\<close>

fun draw_challenges :: "('t \<Rightarrow> f128 \<times> 't) \<Rightarrow> nat \<Rightarrow> 't \<Rightarrow> f128 list \<times> 't" where
  "draw_challenges next 0 t = ([], t)"
| "draw_challenges next (Suc n) t =
     (let (c, t) = next t; (cs, t) = draw_challenges next n t in (c # cs, t))"

definition send_folds :: "'s spongefish \<Rightarrow> u128 list \<Rightarrow> 's prover_state \<Rightarrow> 's prover_state" where
  "send_folds S folds ps = foldl (\<lambda>ps f. ps_prover_message S (to_le_bytes 16 f) ps) ps folds"

definition send_fold ::
  "'s spongefish \<Rightarrow> (u8 list \<Rightarrow> u8 list) \<Rightarrow> claim_field \<Rightarrow> bitz_prover \<Rightarrow> u128 linear_claim \<Rightarrow> bit_table
   \<Rightarrow> 's prover_state \<Rightarrow> security_level \<Rightarrow> (send_error + fold_state \<times> 's prover_state) option" where
  "send_fold S blake3 F self claim table transcript security =
     (if bt_shape table \<noteq> bp_shape (pr_params self) then Some (Inl ShapeMismatch)
      else
        let sh = bp_shape (pr_params self); exps = row_exponents F claim
        in case fold_columns table exps of
             None \<Rightarrow> None
           | Some folds \<Rightarrow>
               let transcript = send_folds S folds transcript
               in case column_images (pr_comb self) folds of
                    None \<Rightarrow> None
                  | Some images \<Rightarrow>
                      (case row_images (pr_comb self) exps of
                         None \<Rightarrow> None
                       | Some rows \<Rightarrow>
                           (case ps_grind S blake3 COLUMNS_LABEL
                                   (grinding_bits security (word_of_nat (log_columns sh))) transcript of
                              None \<Rightarrow> None
                            | Some transcript \<Rightarrow>
                                let (zeta, transcript) = draw_challenges (ps_verifier_message S) (log_columns sh) transcript
                                in case fold_new sh folds images rows zeta of
                                     None \<Rightarrow> None
                                   | Some (Inl e) \<Rightarrow> Some (Inl (SendFold e))
                                   | Some (Inr f) \<Rightarrow> Some (Inr (f, transcript)))))"

text \<open>\<open>ilog2\<close> of a positive number.\<close>

definition ilog2 :: "nat \<Rightarrow> nat" where
  "ilog2 n = bitlen n - 1"

text \<open>What both sides do with the terminal point: split off the row coordinates and form the weights.\<close>

definition reduced_query :: "shape \<Rightarrow> f128 list \<Rightarrow> f128 list \<Rightarrow> f128 \<Rightarrow> (claim_error + opening_query) option" where
  "reduced_query sh rows point claim =
     (let inner_product_claim = claim - 1;
          r1 = ilog2 (max (length rows) 1)
      in if length point < r1 then None
         else
           let r2 = length point - r1;
               alfa_b = drop r2 point; alfa_c = take r2 point;
               u1 = map2 (\<lambda>a b. (a - 1) * b) rows (eq_table alfa_b);
               u2 = eq_table alfa_c
           in case linear_claim_from_shape sh u1 u2 inner_product_claim of
                Inl e \<Rightarrow> Some (Inl e)
              | Inr claim \<Rightarrow> Some (Inr (InnerProduct claim)))"

definition prover_gkr_reduce ::
  "'s spongefish \<Rightarrow> (u8 list \<Rightarrow> u8 list) \<Rightarrow> 's prover_state \<Rightarrow> fold_state \<Rightarrow> bit_table \<Rightarrow> security_level
   \<Rightarrow> (claim_error + opening_query \<times> 's prover_state) option" where
  "prover_gkr_reduce S blake3 transcript f table security =
     (case grand_product_circuit_new (fs_row_images f) table of
        None \<Rightarrow> None
      | Some circuit \<Rightarrow>
          let (_, witnesses) = batched_eval circuit (shape_columns (bt_shape table))
          in case gpgkr_prove S blake3 security (log_bits (bt_shape table)) (fs_zeta f) witnesses transcript of
               None \<Rightarrow> None
             | Some ((point, claim), transcript) \<Rightarrow>
                 map_option (\<lambda>r. case r of Inl e \<Rightarrow> Inl e | Inr query \<Rightarrow> Inr (query, transcript))
                   (reduced_query (bt_shape table) (fs_row_images f) point claim))"

datatype 'e prove_error =
  ParameterMismatch | ProveVirtualMap virtual_map_error | Witness table_error | ProveFold send_error
| ProveReduction claim_error | ProveOpening 'e

definition prover_fold_and_reduce ::
  "'s spongefish \<Rightarrow> (u8 list \<Rightarrow> u8 list) \<Rightarrow> claim_field \<Rightarrow> bitz_prover \<Rightarrow> u128 linear_claim \<Rightarrow> bit_table
   \<Rightarrow> 's prover_state \<Rightarrow> security_level \<Rightarrow> ('e prove_error + opening_query \<times> 's prover_state) option" where
  "prover_fold_and_reduce S blake3 F self claim table transcript security =
     (case send_fold S blake3 F self claim table transcript security of
        None \<Rightarrow> None
      | Some (Inl e) \<Rightarrow> Some (Inl (ProveFold e))
      | Some (Inr (f, transcript)) \<Rightarrow>
          (case prover_gkr_reduce S blake3 transcript f table security of
             None \<Rightarrow> None
           | Some (Inl e) \<Rightarrow> Some (Inl (ProveReduction e))
           | Some (Inr r) \<Rightarrow> Some (Inr r)))"

text \<open>The public statements, absorbed before the first challenge.\<close>

definition absorb_all :: "(u8 list \<Rightarrow> 't \<Rightarrow> 't) \<Rightarrow> u8 list list \<Rightarrow> 't \<Rightarrow> 't" where
  "absorb_all public_message ms t = foldl (\<lambda>t m. public_message m t) t ms"

definition claim_statement :: "claim_field \<Rightarrow> u8 list \<Rightarrow> bitz_params \<Rightarrow> u8 list \<Rightarrow> u128 linear_claim \<Rightarrow> u8 list list" where
  "claim_statement F root params pcs claim =
     [root, bp_encode F params, pcs, linear_claim_encode (cf_encode F) claim]"

definition VIRTUAL_LABEL :: "u8 list" where
  "VIRTUAL_LABEL = map (\<lambda>c. word_of_nat (of_char c)) ''bitz/virtual-statement/v1''"

definition virtual_claim_statement :: "claim_field \<Rightarrow> u8 list \<Rightarrow> virtual_statement \<Rightarrow> u8 list \<Rightarrow> u8 list list" where
  "virtual_claim_statement F root statement pcs =
     [VIRTUAL_LABEL, root, vp_encode F (st_params statement), vm_digest (st_map statement),
      linear_claim_encode (cf_encode F) (st_claim statement), pcs]"

definition bitz_prove ::
  "'s spongefish \<Rightarrow> (u8 list \<Rightarrow> u8 list) \<Rightarrow> claim_field \<Rightarrow> bitz_prover \<Rightarrow> u128 linear_claim
   \<Rightarrow> ('d, 'c, 'e, 's) commit_scheme \<Rightarrow> 'd \<Rightarrow> f128 list \<Rightarrow> 's prover_state
   \<Rightarrow> ('e prove_error + 's prover_state) option" where
  "bitz_prove S blake3 F self claim pcs data packed transcript =
     (if pcs_bit_len pcs \<noteq> 2 ^ log_bits (bp_shape (pr_params self)) then Some (Inl ParameterMismatch)
      else case bp_table (pr_params self) packed of
          Inl e \<Rightarrow> Some (Inl (Witness e))
        | Inr table \<Rightarrow>
            let transcript = absorb_all (ps_public_message S)
                  (claim_statement F (pcs_data_root pcs data) (pr_params self) (pcs_encode pcs) claim) transcript
            in case prover_fold_and_reduce S blake3 F self claim table transcript (pcs_security_level pcs) of
                 None \<Rightarrow> None
               | Some (Inl e) \<Rightarrow> Some (Inl e)
               | Some (Inr (query, transcript)) \<Rightarrow>
                   map_option (\<lambda>r. case r of Inl e \<Rightarrow> Inl (ProveOpening e) | Inr ps \<Rightarrow> Inr ps)
                     (pcs_prove_lin pcs data packed query transcript))"

definition bitz_prove_virtual ::
  "'s spongefish \<Rightarrow> (u8 list \<Rightarrow> u8 list) \<Rightarrow> claim_field \<Rightarrow> bitz_prover \<Rightarrow> virtual_statement
   \<Rightarrow> ('d, 'c, 'e, 's) commit_scheme \<Rightarrow> 'd \<Rightarrow> f128 list \<Rightarrow> f128 list \<Rightarrow> 's prover_state
   \<Rightarrow> ('e prove_error + 's prover_state) option" where
  "bitz_prove_virtual S blake3 F self statement pcs data committed_bits virtual_packed transcript =
     (let params = st_params statement; claim = st_claim statement
      in if pr_params self \<noteq> vp_claim params \<or> pcs_bit_len pcs \<noteq> 2 ^ log_bits (vp_committed params)
         then Some (Inl ParameterMismatch)
         else case vp_table params committed_bits of
             Inl e \<Rightarrow> Some (Inl (Witness e))
           | Inr _ \<Rightarrow>
               (case bp_table (pr_params self) virtual_packed of
                  Inl e \<Rightarrow> Some (Inl (Witness e))
                | Inr table \<Rightarrow>
                    let transcript = absorb_all (ps_public_message S)
                          (virtual_claim_statement F (pcs_data_root pcs data) statement (pcs_encode pcs)) transcript
                    in case prover_fold_and_reduce S blake3 F self claim table transcript (pcs_security_level pcs) of
                         None \<Rightarrow> None
                       | Some (Inl e) \<Rightarrow> Some (Inl e)
                       | Some (Inr (query, transcript)) \<Rightarrow>
                           (case transpose_query statement query of
                              None \<Rightarrow> None
                            | Some (Inl e) \<Rightarrow> Some (Inl (ProveVirtualMap e))
                            | Some (Inr query) \<Rightarrow>
                                map_option (\<lambda>r. case r of Inl e \<Rightarrow> Inl (ProveOpening e) | Inr ps \<Rightarrow> Inr ps)
                                  (pcs_prove_lin pcs data committed_bits query transcript))))"

section \<open>Verifier\<close>

datatype receive_error = MalformedProof | FoldOutOfRange | TargetMismatch | ReceiveFold fold_error

fun receive_folds :: "'s spongefish \<Rightarrow> nat \<Rightarrow> 's verifier_state \<Rightarrow> (u128 list \<times> 's verifier_state) option" where
  "receive_folds S 0 vs = Some ([], vs)"
| "receive_folds S (Suc n) vs =
     (case vs_prover_message S (sf_take S 16) (\<lambda>m. m) vs of
        None \<Rightarrow> None
      | Some (bs, vs) \<Rightarrow>
          map_option (\<lambda>(folds, vs). (from_le_bytes bs # folds, vs)) (receive_folds S n vs))"

definition receive_fold ::
  "'s spongefish \<Rightarrow> (u8 list \<Rightarrow> u8 list) \<Rightarrow> claim_field \<Rightarrow> bitz_verifier \<Rightarrow> u128 linear_claim
   \<Rightarrow> 's verifier_state \<Rightarrow> security_level \<Rightarrow> (receive_error + fold_state \<times> 's verifier_state) option" where
  "receive_fold S blake3 F self claim transcript security =
     (let sh = bp_shape (vr_params self)
      in case receive_folds S (shape_columns sh) transcript of
           None \<Rightarrow> Some (Inl MalformedProof)
         | Some (folds, transcript) \<Rightarrow>
             if list_ex (\<lambda>f. vr_fold_bound self < f) folds then Some (Inl FoldOutOfRange)
             else case reconstruct F claim folds of
                 None \<Rightarrow> None
               | Some (Inl e) \<Rightarrow> Some (Inl (ReceiveFold e))
               | Some (Inr v) \<Rightarrow>
                   if v \<noteq> target claim then Some (Inl TargetMismatch)
                   else case column_images (vr_comb self) folds of
                       None \<Rightarrow> None
                     | Some images \<Rightarrow>
                         (case row_images (vr_comb self) (row_exponents F claim) of
                            None \<Rightarrow> None
                          | Some rows \<Rightarrow>
                              (case vs_grind S blake3 COLUMNS_LABEL
                                      (grinding_bits security (word_of_nat (log_columns sh))) transcript of
                                 None \<Rightarrow> Some (Inl MalformedProof)
                               | Some transcript \<Rightarrow>
                                   let (zeta, transcript) = draw_challenges (vs_verifier_message S) (log_columns sh) transcript
                                   in case fold_new sh folds images rows zeta of
                                        None \<Rightarrow> None
                                      | Some (Inl e) \<Rightarrow> Some (Inl (ReceiveFold e))
                                      | Some (Inr f) \<Rightarrow> Some (Inr (f, transcript)))))"

datatype reduce_error = GKR | ReduceClaim claim_error

definition verifier_gkr_reduce ::
  "'s spongefish \<Rightarrow> (u8 list \<Rightarrow> u8 list) \<Rightarrow> 's verifier_state \<Rightarrow> fold_state \<Rightarrow> shape \<Rightarrow> security_level
   \<Rightarrow> (reduce_error + opening_query \<times> 's verifier_state) option" where
  "verifier_gkr_reduce S blake3 transcript f sh security =
     (let r1 = ilog2 (max (length (fs_row_images f)) 1)
      in case gpgkr_verify S blake3 security (fs_e0 f) (fs_zeta f) r1 transcript of
           None \<Rightarrow> Some (Inl GKR)
         | Some ((point, mle_leaf_claim), transcript) \<Rightarrow>
             map_option (\<lambda>r. case r of Inl e \<Rightarrow> Inl (ReduceClaim e) | Inr query \<Rightarrow> Inr (query, transcript))
               (reduced_query sh (fs_row_images f) point mle_leaf_claim))"

datatype 'e verify_error =
  VerifyParameterMismatch | VerifyVirtualMap virtual_map_error | VerifyFold receive_error
| VerifyReduction reduce_error | VerifyOpening 'e | TrailingData

definition verifier_fold_and_reduce ::
  "'s spongefish \<Rightarrow> (u8 list \<Rightarrow> u8 list) \<Rightarrow> claim_field \<Rightarrow> bitz_verifier \<Rightarrow> u128 linear_claim
   \<Rightarrow> 's verifier_state \<Rightarrow> security_level \<Rightarrow> ('e verify_error + opening_query \<times> 's verifier_state) option" where
  "verifier_fold_and_reduce S blake3 F self claim transcript security =
     (case receive_fold S blake3 F self claim transcript security of
        None \<Rightarrow> None
      | Some (Inl e) \<Rightarrow> Some (Inl (VerifyFold e))
      | Some (Inr (f, transcript)) \<Rightarrow>
          (case verifier_gkr_reduce S blake3 transcript f (bp_shape (vr_params self)) security of
             None \<Rightarrow> None
           | Some (Inl e) \<Rightarrow> Some (Inl (VerifyReduction e))
           | Some (Inr r) \<Rightarrow> Some (Inr r)))"

text \<open>The end of both verifiers: the opening, then nothing may be left of either stream.\<close>

definition open_and_finish ::
  "('d, 'c, 'e, 's) commit_scheme \<Rightarrow> 'c \<Rightarrow> opening_query \<Rightarrow> 's verifier_state \<Rightarrow> ('e verify_error + unit) option" where
  "open_and_finish pcs commitment query transcript =
     (case pcs_verify_lin pcs commitment query transcript of
        None \<Rightarrow> None
      | Some (Inl e) \<Rightarrow> Some (Inl (VerifyOpening e))
      | Some (Inr transcript) \<Rightarrow>
          (case vs_check_eof transcript of None \<Rightarrow> Some (Inl TrailingData) | Some _ \<Rightarrow> Some (Inr ())))"

definition bitz_verify ::
  "'s spongefish \<Rightarrow> (u8 list \<Rightarrow> u8 list) \<Rightarrow> claim_field \<Rightarrow> bitz_verifier \<Rightarrow> u128 linear_claim
   \<Rightarrow> ('d, 'c, 'e, 's) commit_scheme \<Rightarrow> 'c \<Rightarrow> 's verifier_state \<Rightarrow> ('e verify_error + unit) option" where
  "bitz_verify S blake3 F self claim pcs commitment transcript =
     (if pcs_bit_len pcs \<noteq> 2 ^ log_bits (bp_shape (vr_params self)) then Some (Inl VerifyParameterMismatch)
      else
        let transcript = absorb_all (vs_public_message S)
              (claim_statement F (pcs_commitment_root pcs commitment) (vr_params self) (pcs_encode pcs) claim) transcript
        in case verifier_fold_and_reduce S blake3 F self claim transcript (pcs_security_level pcs) of
             None \<Rightarrow> None
           | Some (Inl e) \<Rightarrow> Some (Inl e)
           | Some (Inr (query, transcript)) \<Rightarrow> open_and_finish pcs commitment query transcript)"

definition bitz_verify_virtual ::
  "'s spongefish \<Rightarrow> (u8 list \<Rightarrow> u8 list) \<Rightarrow> claim_field \<Rightarrow> bitz_verifier \<Rightarrow> virtual_statement
   \<Rightarrow> ('d, 'c, 'e, 's) commit_scheme \<Rightarrow> 'c \<Rightarrow> 's verifier_state \<Rightarrow> ('e verify_error + unit) option" where
  "bitz_verify_virtual S blake3 F self statement pcs commitment transcript =
     (let params = st_params statement; claim = st_claim statement
      in if vr_params self \<noteq> vp_claim params \<or> pcs_bit_len pcs \<noteq> 2 ^ log_bits (vp_committed params)
         then Some (Inl VerifyParameterMismatch)
         else
           let transcript = absorb_all (vs_public_message S)
                 (virtual_claim_statement F (pcs_commitment_root pcs commitment) statement (pcs_encode pcs)) transcript
           in case verifier_fold_and_reduce S blake3 F self claim transcript (pcs_security_level pcs) of
                None \<Rightarrow> None
              | Some (Inl e) \<Rightarrow> Some (Inl e)
              | Some (Inr (query, transcript)) \<Rightarrow>
                  (case transpose_query statement query of
                     None \<Rightarrow> None
                   | Some (Inl e) \<Rightarrow> Some (Inl (VerifyVirtualMap e))
                   | Some (Inr query) \<Rightarrow> open_and_finish pcs commitment query transcript))"

end
