(* ===== verification/Poly_Nat.thy ===== *)
theory Poly_Nat
  imports Poly_Mle
begin

text \<open>
  Interpolation on the natural \<open>F128\<close> domain: \<open>crates/poly/src/nat_evaluation.rs\<close>.

  The source is generic in the field; it is modelled at \<open>F128\<close>, the field its documentation names,
  where \<open>F::from(i)\<close> embeds the bit pattern of \<open>i\<close>.  The task size of the parallel split is the
  one of a 64-bit target with the default cache size.
\<close>

record lagrange_domain =
  ld_points :: "f128 list"
  ld_weights :: "f128 list"

datatype nat_evaluation_error = EmptyPolynomial | DomainSizeMismatch

definition workload_size :: "nat \<Rightarrow> nat" where
  "workload_size size_of = 2 ^ 15 div size_of"

definition is_power_of_two :: "nat \<Rightarrow> bool" where
  "is_power_of_two n \<longleftrightarrow> n \<noteq> 0 \<and> n = 2 ^ (bitlen n - 1)"

definition lagrange_denominator :: "f128 list \<Rightarrow> nat \<Rightarrow> f128" where
  "lagrange_denominator points i =
     (let point = points ! i
      in foldl (\<lambda>denominator node. f128_mul denominator (f128_sub point node)) f128_ONE
           (take i points @ drop (i + 1) points))"

fun prefix_products :: "f128 \<Rightarrow> f128 list \<Rightarrow> f128 list" where
  "prefix_products product [] = [product]"
| "prefix_products product (v # vs) = product # prefix_products (f128_mul product v) vs"

text \<open>The backward pass at index \<open>i\<close>.\<close>

definition batch_invert_step :: "f128 list \<Rightarrow> nat \<Rightarrow> f128 list \<times> f128 \<Rightarrow> f128 list \<times> f128" where
  "batch_invert_step prefixes i = (\<lambda>(values, running).
     let v = values ! i
     in (values[i := f128_mul running (prefixes ! (i - 1))], f128_mul running v))"

definition batch_invert_nonzero :: "f128 list \<Rightarrow> f128 list option" where
  "batch_invert_nonzero values =
     (case values of
        [] \<Rightarrow> Some []
      | first # remaining \<Rightarrow>
          let prefixes = prefix_products first remaining
          in case f128_inv (last prefixes) of
               None \<Rightarrow> None
             | Some running \<Rightarrow>
                 let (values', running') =
                   fold (batch_invert_step prefixes) (rev [1..<length values]) (values, running)
                 in Some (values'[0 := running']))"

definition lagrange_new :: "nat \<Rightarrow> lagrange_domain option" where
  "lagrange_new len =
     (let points = map (\<lambda>i. f128_from_u128 (word_of_nat i)) [0..<len]
      in if is_power_of_two len then
           map_option (\<lambda>weight. \<lparr>ld_points = points, ld_weights = replicate len weight\<rparr>)
             (f128_inv (foldl f128_mul f128_ONE (drop 1 points)))
         else
           map_option (\<lambda>weights. \<lparr>ld_points = points, ld_weights = weights\<rparr>)
             (batch_invert_nonzero (map (lagrange_denominator points) [0..<len])))"

definition evaluate_block_serial :: "f128 list \<Rightarrow> f128 list \<Rightarrow> f128 list \<Rightarrow> f128 \<Rightarrow> f128 \<times> f128" where
  "evaluate_block_serial evals nodes weights point =
     foldl (\<lambda>(result, product) ((evaluation, node), weight).
         let difference = f128_sub point node
         in (f128_add (f128_mul result difference) (f128_mul (f128_mul product evaluation) weight),
             f128_mul product difference))
       (f128_ZERO, f128_ONE) (zip (zip evals nodes) weights)"

definition combine_evaluation_blocks :: "f128 \<times> f128 \<Rightarrow> f128 \<times> f128 \<Rightarrow> f128 \<times> f128" where
  "combine_evaluation_blocks = (\<lambda>(left_result, left_product) (right_result, right_product).
     (f128_add (f128_mul left_result right_product) (f128_mul left_product right_result),
      f128_mul left_product right_product))"

function evaluate_block :: "f128 list \<Rightarrow> f128 list \<Rightarrow> f128 list \<Rightarrow> f128 \<Rightarrow> f128 \<times> f128" where
  "evaluate_block evals nodes weights point =
     (if workload_size 16 < 3 * length evals then
        let mid = length evals div 2
        in combine_evaluation_blocks
             (evaluate_block (take mid evals) (take mid nodes) (take mid weights) point)
             (evaluate_block (drop mid evals) (drop mid nodes) (drop mid weights) point)
      else evaluate_block_serial evals nodes weights point)"
  by pat_completeness auto
termination
  by (relation "measure (\<lambda>(evals, _). length evals)") (auto simp: workload_size_def)

declare evaluate_block.simps [simp del]

definition evaluate_at_point_with_domain ::
  "f128 list \<Rightarrow> f128 \<Rightarrow> lagrange_domain \<Rightarrow> nat_evaluation_error + f128" where
  "evaluate_at_point_with_domain evals point domain =
     (let len = length evals
      in if len = 0 then Inl EmptyPolynomial
         else if len \<noteq> length (ld_points domain) \<or> len \<noteq> length (ld_weights domain)
           then Inl DomainSizeMismatch
         else Inr (fst (evaluate_block evals (ld_points domain) (ld_weights domain) point)))"

definition evaluate_at_point :: "f128 list \<Rightarrow> f128 \<Rightarrow> (nat_evaluation_error + f128) option" where
  "evaluate_at_point evals point =
     map_option (evaluate_at_point_with_domain evals point) (lagrange_new (length evals))"

section \<open>Polynomials by their coefficients\<close>

text \<open>The reference: a polynomial is the list of its coefficients, lowest first.\<close>

fun horner :: "'a::comm_ring_1 list \<Rightarrow> 'a \<Rightarrow> 'a" where
  "horner [] x = 0"
| "horner (c # cs) x = c + x * horner cs x"

lemma horner_zero [simp]: "horner (replicate n 0) x = 0"
  by (induction n) auto

lemma horner_division:
  "\<exists>qs. length qs = length cs - 1 \<and> (\<forall>x. horner cs x = horner cs r + (x - r) * horner qs x)"
proof (induction cs)
  case (Cons c cs)
  then obtain qs where qs: "length qs = length cs - 1" "\<And>x. horner cs x = horner cs r + (x - r) * horner qs x"
    by blast
  show ?case
  proof (cases "cs = []")
    case False
    have eq: "horner (c # cs) x = horner (c # cs) r + (x - r) * horner (horner cs r # qs) x" for x
    proof -
      have "horner (c # cs) x = c + x * (horner cs r + (x - r) * horner qs x)"
        using qs(2) [of x] by (simp only: horner.simps)
      also have "\<dots> = c + r * horner cs r + (x - r) * (horner cs r + x * horner qs x)"
        by (simp add: algebra_simps)
      finally show ?thesis by simp
    qed
    have "length (horner cs r # qs) = length (c # cs) - 1" using False qs(1) by (cases cs) simp_all
    with eq show ?thesis by blast
  qed simp
qed simp

text \<open>A polynomial with more distinct roots than its degree vanishes.\<close>

lemma horner_roots:
  fixes cs :: "'a::field list"
  assumes "length cs \<le> length rs" "distinct rs" "\<forall>r\<in>set rs. horner cs r = 0"
  shows "horner cs x = 0"
  using assms
proof (induction rs arbitrary: cs x)
  case (Cons r rs)
  from horner_division [of cs r] obtain qs where
    qs: "length qs = length cs - 1" "\<And>x. horner cs x = horner cs r + (x - r) * horner qs x" by blast
  have "horner qs s = 0" if "s \<in> set rs" for s
    using Cons.prems that qs(2) [of s] by auto
  then have "horner qs x = 0" using Cons.prems qs(1) by (intro Cons.IH) auto
  with qs(2) [of x] Cons.prems show ?case by simp
qed simp

definition polyfun :: "nat \<Rightarrow> ('a::comm_ring_1 \<Rightarrow> 'a) \<Rightarrow> bool" where
  "polyfun n f \<longleftrightarrow> (\<exists>cs. length cs = n \<and> (\<forall>x. f x = horner cs x))"

fun coeff_add :: "'a::comm_ring_1 list \<Rightarrow> 'a list \<Rightarrow> 'a list" where
  "coeff_add [] ys = ys"
| "coeff_add xs [] = xs"
| "coeff_add (x # xs) (y # ys) = (x + y) # coeff_add xs ys"

lemma polyfunI: "(\<And>x. f x = horner cs x) \<Longrightarrow> length cs = n \<Longrightarrow> polyfun n f"
  by (auto simp: polyfun_def)

lemma polyfunE:
  assumes "polyfun n f"
  obtains cs where "length cs = n" "\<And>x. f x = horner cs x"
  using assms by (auto simp: polyfun_def)

lemma horner_coeff_add: "horner (coeff_add xs ys) z = horner xs z + horner ys z"
  by (induction xs ys rule: coeff_add.induct) (simp_all add: algebra_simps)

lemma length_coeff_add [simp]: "length (coeff_add xs ys) = max (length xs) (length ys)"
  by (induction xs ys rule: coeff_add.induct) auto

lemma polyfun_add: "polyfun n f \<Longrightarrow> polyfun n g \<Longrightarrow> polyfun n (\<lambda>x. f x + g x)"
  by (elim polyfunE, rule polyfunI [of _ "coeff_add _ _"]) (auto simp: horner_coeff_add)

lemma polyfun_scale: "polyfun n f \<Longrightarrow> polyfun n (\<lambda>x. c * f x)"
proof -
  have "horner (map ((*) c) cs) x = c * horner cs x" for cs x
    by (induction cs) (simp_all add: algebra_simps)
  then show "polyfun n f \<Longrightarrow> polyfun n (\<lambda>x. c * f x)"
    by (elim polyfunE, intro polyfunI [of _ "map ((*) c) _"]) auto
qed

lemma polyfun_linear: "polyfun n f \<Longrightarrow> polyfun (Suc n) (\<lambda>x. f x * (x - a))"
proof -
  assume "polyfun n f"
  then obtain cs where cs: "length cs = n" "\<And>x. f x = horner cs x" by (auto simp: polyfun_def)
  have "horner (map ((*) (- a)) cs) x = (- a) * horner cs x" for x
    by (induction cs) (simp_all add: algebra_simps)
  then have "f x * (x - a) = horner (coeff_add (0 # cs) (map ((*) (- a)) cs)) x" for x
    by (simp add: horner_coeff_add cs(2) algebra_simps)
  with cs(1) show ?thesis
    by (auto simp: polyfun_def intro!: exI [of _ "coeff_add (0 # cs) (map ((*) (- a)) cs)"])
qed

lemma polyfun_mono:
  assumes "polyfun n f" "n \<le> m"
  shows "polyfun m f"
proof -
  obtain cs where cs: "length cs = n" "\<And>x. f x = horner cs x" using assms(1) by (rule polyfunE) blast
  have "horner (ds @ replicate k 0) x = horner ds x" for ds and x :: 'a and k :: nat
    by (induction ds) simp_all
  with cs assms(2) show ?thesis by (intro polyfunI [of _ "cs @ replicate (m - n) 0"]) simp_all
qed

lemma polyfun_eq:
  fixes f g :: "'a::field \<Rightarrow> 'a"
  assumes "polyfun n f" "polyfun n g" "distinct rs" "length rs = n" "\<forall>r\<in>set rs. f r = g r"
  shows "f x = g x"
proof -
  have "polyfun n (\<lambda>x. f x + (- 1) * g x)" using assms(1,2) by (intro polyfun_add polyfun_scale)
  then obtain cs where "length cs = n" "\<And>x. f x - g x = horner cs x" by (auto simp: polyfun_def)
  moreover from this(2) assms(5) have "\<forall>r\<in>set rs. horner cs r = 0" by (metis cancel_comm_monoid_add_class.diff_cancel)
  ultimately have "horner cs x = 0" using assms(3,4) by (intro horner_roots [of cs rs]) auto
  with \<open>\<And>x. f x - g x = horner cs x\<close> [of x] show ?thesis by simp
qed

section \<open>Blocks\<close>

text \<open>The value of a block: the sum of \<open>evaluation * weight\<close> times the other differences.\<close>

fun block_result :: "((f128 \<times> f128) \<times> f128) list \<Rightarrow> f128 \<Rightarrow> f128" where
  "block_result [] x = 0"
| "block_result (((e, a), w) # ts) x = e * w * prod_list (map (\<lambda>t. x - snd (fst t)) ts) + (x - a) * block_result ts x"

abbreviation block_product :: "((f128 \<times> f128) \<times> f128) list \<Rightarrow> f128 \<Rightarrow> f128" where
  "block_product ts x \<equiv> prod_list (map (\<lambda>t. x - snd (fst t)) ts)"

lemma evaluate_block_serial_result:
  "evaluate_block_serial evals nodes weights x
    = (block_result (zip (zip evals nodes) weights) x, block_product (zip (zip evals nodes) weights) x)"
proof -
  have "foldl (\<lambda>(result, product) ((evaluation, node), weight).
         let difference = f128_sub x node
         in (f128_add (f128_mul result difference) (f128_mul (f128_mul product evaluation) weight),
             f128_mul product difference)) (r, p) ts
      = (r * block_product ts x + p * block_result ts x, p * block_product ts x)" for r p ts
    by (induction ts arbitrary: r p) (auto simp: Let_def algebra_simps simp del: f128_minus_eq_plus)
  then show ?thesis by (simp add: evaluate_block_serial_def)
qed

lemma block_append:
  "block_result (ts @ us) x = block_result ts x * block_product us x + block_product ts x * block_result us x"
  by (induction ts x rule: block_result.induct) (simp_all add: algebra_simps del: f128_minus_eq_plus)

lemma evaluate_block_result:
  "evaluate_block evals nodes weights x
    = (block_result (zip (zip evals nodes) weights) x, block_product (zip (zip evals nodes) weights) x)"
proof (induction evals nodes weights x rule: evaluate_block.induct)
  case (1 evals nodes weights x)
  show ?case
  proof (cases "workload_size 16 < 3 * length evals")
    case True
    let ?m = "length evals div 2"
    let ?l = "zip (zip (take ?m evals) (take ?m nodes)) (take ?m weights)"
    let ?r = "zip (zip (drop ?m evals) (drop ?m nodes)) (drop ?m weights)"
    have "zip (zip evals nodes) weights = ?l @ ?r"
      by (simp only: append_take_drop_id flip: take_zip drop_zip)
    moreover have "evaluate_block evals nodes weights x
        = combine_evaluation_blocks (block_result ?l x, block_product ?l x) (block_result ?r x, block_product ?r x)"
      using 1 [OF True refl] by (simp only: evaluate_block.simps [of evals nodes] True if_True Let_def)
    ultimately show ?thesis by (simp add: combine_evaluation_blocks_def block_append)
  next
    case False
    then show ?thesis
      by (simp only: evaluate_block.simps [of evals nodes] if_False evaluate_block_serial_result)
  qed
qed

section \<open>Batch inversion\<close>

lemma length_prefix_products [simp]: "length (prefix_products p vs) = Suc (length vs)"
  by (induction p vs rule: prefix_products.induct) auto

lemma prefix_products_nth: "i \<le> length vs \<Longrightarrow> prefix_products p vs ! i = p * prod_list (take i vs)"
  by (induction p vs arbitrary: i rule: prefix_products.induct) (auto simp: take_Cons' nth_Cons' mult.assoc)

lemma batch_invert_backward:
  assumes nz: "0 \<notin> set (v # vs)" and i: "1 \<le> i" "i \<le> length (v # vs)"
  shows "fold (batch_invert_step (prefix_products v vs)) (rev [i..<length (v # vs)]) (v # vs, inverse (prod_list (v # vs)))
    = (take i (v # vs) @ map inverse (drop i (v # vs)), inverse (prod_list (take i (v # vs))))"
  using i(2,1)
proof (induction i rule: inc_induct)
  case (step i)
  let ?vs = "v # vs"
  let ?x = "?vs ! i"
  from step have i: "i < length ?vs" "1 \<le> i" by simp_all
  have split: "take (Suc i) ?vs = take i ?vs @ [?x]" "drop i ?vs = ?x # drop (Suc i) ?vs"
    using i(1) by (simp_all only: take_Suc_conv_app_nth Cons_nth_drop_Suc)
  have "prefix_products v vs ! (i - 1) = prod_list (take i ?vs)"
    using i by (subst prefix_products_nth) (simp_all add: take_Cons')
  moreover have "?x \<noteq> 0" using nz nth_mem [OF i(1)] by metis
  moreover have "prod_list (take i ?vs) \<noteq> 0"
    using nz set_take_subset [of i ?vs] by (simp only: prod_list_zero_iff) blast
  moreover have "[i..<length ?vs] = i # [Suc i..<length ?vs]" using i(1) by (rule upt_conv_Cons)
  moreover have "length (take i ?vs) = i" using i(1) by simp
  ultimately show ?case
    using step.IH i
    by (simp add: batch_invert_step_def split nth_append list_update_append Let_def field_simps
        del: take_Suc_Cons length_Cons drop_Suc_Cons)
qed simp

lemma batch_invert_map:
  assumes "0 \<notin> set values"
  shows "batch_invert_nonzero values = Some (map inverse values)"
proof (cases "values")
  case (Cons v vs)
  have "prefix_products v vs \<noteq> []" by (cases vs) simp_all
  then have "last (prefix_products v vs) = prod_list values"
    using prefix_products_nth [of "length vs" vs v] by (simp add: last_conv_nth Cons)
  moreover have "prod_list values \<noteq> 0" using assms by (simp add: prod_list_zero_iff)
  ultimately show ?thesis
    using batch_invert_backward [of v vs 1] assms
    by (simp add: batch_invert_nonzero_def Cons f128_inv_inverse Let_def)
qed (simp add: batch_invert_nonzero_def)

section \<open>Weights\<close>

definition node :: "nat \<Rightarrow> f128" where
  "node i = f128_from_u128 (word_of_nat i)"

lemma poly_of_node: "i < 2 ^ 128 \<Longrightarrow> poly_of (node i) = i"
  by (simp add: node_def poly_of_u128 f128_to_from_u128 unat_of_nat)

lemma node_diff: "i < 2 ^ 128 \<Longrightarrow> j < 2 ^ 128 \<Longrightarrow> node i - node j = node (i XOR j)"
proof -
  assume *: "i < 2 ^ 128" "j < 2 ^ 128"
  have "poly_of (node i - node j) = i XOR j"
    using * by (simp add: plus_f128_def poly_of_add poly_of_node del: f128_ops)
  also have "\<dots> = poly_of (node (i XOR j))"
    by (rule poly_of_node [symmetric], rule xor_less_power2 [OF *])
  finally show ?thesis by (simp only: poly_of_inj)
qed

lemma node_eq_0_iff: "i < 2 ^ 128 \<Longrightarrow> node i = 0 \<longleftrightarrow> i = 0"
  using poly_of_node [of i] poly_of_0_iff [of "node i"] by simp

lemma node_inj: "i < 2 ^ 128 \<Longrightarrow> j < 2 ^ 128 \<Longrightarrow> node i = node j \<longleftrightarrow> i = j"
  by (metis poly_of_node)

abbreviation nodes_of :: "nat \<Rightarrow> f128 list" where
  "nodes_of len \<equiv> map node [0..<len]"

lemma xor_nat_eq_0: "a XOR b = 0 \<longleftrightarrow> a = (b :: nat)"
  by (metis xor.right_neutral xor_left_cancel_nat xor_self_eq)

lemma xor_nat_eq_self: "a XOR b = a \<longleftrightarrow> b = (0 :: nat)"
  by (metis xor.right_neutral xor_left_cancel_nat xor_self_eq)

lemma prod_others:
  "i < n \<Longrightarrow> prod_list (map f (take i [0..<n] @ drop (Suc i) [0..<n])) = (\<Prod>j\<in>{..<n} - {i}. f j)"
  for f :: "nat \<Rightarrow> 'a::comm_monoid_mult"
proof -
  assume "i < n"
  then have d: "distinct (take i [0..<n] @ drop (Suc i) [0..<n])" "set (take i [0..<n] @ drop (Suc i) [0..<n]) = {..<n} - {i}"
    by auto
  show ?thesis
    using prod.distinct_set_conv_list [OF d(1), of f] by (simp only: d(2))
qed

lemma lagrange_denominator_prod:
  assumes "i < len"
  shows "lagrange_denominator (nodes_of len) i = (\<Prod>j\<in>{..<len} - {i}. node i - node j)"
proof -
  have "lagrange_denominator (nodes_of len) i
      = prod_list (map (\<lambda>j. node i - node j) (take i [0..<len] @ drop (Suc i) [0..<len]))"
    using assms foldl_times_prod_list [of "\<lambda>n. node i - n" 1]
    by (simp add: lagrange_denominator_def Let_def comp_def drop_map take_map del: f128_minus_eq_plus
        flip: map_append)
  then show ?thesis by (simp only: prod_others [OF assms])
qed

lemma power_of_two_denominator:
  assumes "i < 2 ^ k" "k \<le> 128"
  shows "(\<Prod>j\<in>{..<2 ^ k} - {i}. node i - node j) = (\<Prod>d\<in>{1..<2 ^ k}. node d)"
proof -
  have le: "(2 :: nat) ^ k \<le> 2 ^ 128" using assms(2) by (intro power_increasing) auto
  show ?thesis
  proof (rule prod.reindex_bij_witness [of _ "\<lambda>d. i XOR d" "\<lambda>j. i XOR j"])
    fix j assume "j \<in> {..<2 ^ k} - {i}"
    then have j: "j < 2 ^ k" "j \<noteq> i" by auto
    then have "i XOR j < 2 ^ k" "i XOR j \<noteq> 0"
      using assms(1) xor_less_power2 [OF assms(1) j(1)] by (simp_all add: xor_nat_eq_0)
    then show "i XOR j \<in> {1..<2 ^ k}" by simp
    show "node (i XOR j) = node i - node j"
      using j(1) assms(1) le by (intro node_diff [symmetric]) linarith+
  next
    fix d assume "d \<in> {1 :: nat..<2 ^ k}"
    then have d: "d < 2 ^ k" "d \<noteq> 0" by auto
    then have "i XOR d < 2 ^ k" "i XOR d \<noteq> i"
      using xor_less_power2 [OF assms(1) d(1)] by (simp_all add: xor_nat_eq_self)
    then show "i XOR d \<in> {..<2 ^ k} - {i}" by simp
  qed simp_all
qed

lemma lagrange_new_weights:
  assumes "0 < len" "len < 2 ^ 64"
  shows "lagrange_new len = Some \<lparr>ld_points = nodes_of len,
    ld_weights = map (\<lambda>i. inverse (\<Prod>j\<in>{..<len} - {i}. node i - node j)) [0..<len]\<rparr>"
proof -
  have big: "i < 2 ^ 128" if "i < len" for i using that assms(2) by simp
  have points: "map (\<lambda>i. f128_from_u128 (word_of_nat i)) [0..<len] = nodes_of len"
    by (simp add: node_def)
  show ?thesis
  proof (cases "is_power_of_two len")
    case True
    then obtain k where k: "len = 2 ^ k" by (auto simp: is_power_of_two_def)
    have "k \<le> 128"
    proof (rule ccontr)
      assume "\<not> k \<le> 128"
      then have "(2 :: nat) ^ 64 \<le> 2 ^ k" by (intro power_increasing) auto
      with assms(2) k show False by simp
    qed
    have d: "(\<Prod>j\<in>{..<len} - {i}. node i - node j) = (\<Prod>d\<in>{1..<len}. node d)" if "i < len" for i
      using power_of_two_denominator [of i k] that \<open>k \<le> 128\<close> by (simp only: k)
    have "foldl (*) 1 (drop 1 (nodes_of len)) = prod_list (map node [1..<len])"
      using foldl_times_prod_list [of "\<lambda>x. x" 1 "drop 1 (nodes_of len)"] by (simp add: drop_map)
    also have "\<dots> = (\<Prod>d\<in>{1..<len}. node d)"
      using prod.distinct_set_conv_list [of "[1..<len]" node] by (simp del: upt_Suc)
    finally have den: "foldl (*) 1 (drop 1 (nodes_of len)) = (\<Prod>d\<in>{1..<len}. node d)" .
    have "(\<Prod>d\<in>{1..<len}. node d) \<noteq> 0" using big by (auto simp: node_eq_0_iff)
    then show ?thesis
      using True by (auto simp: lagrange_new_def points den f128_inv_inverse d Let_def simp flip: map_replicate_const
          intro!: nth_equalityI simp del: f128_minus_eq_plus One_nat_def)
  next
    case False
    have den: "map (lagrange_denominator (nodes_of len)) [0..<len]
        = map (\<lambda>i. \<Prod>j\<in>{..<len} - {i}. node i - node j) [0..<len]"
      by (simp add: lagrange_denominator_prod del: f128_minus_eq_plus)
    have "0 \<notin> set (map (\<lambda>i. \<Prod>j\<in>{..<len} - {i}. node i - node j) [0..<len])"
      using big by (auto simp: prod_zero_iff node_inj simp del: f128_minus_eq_plus)
    with False show ?thesis
      by (simp add: lagrange_new_def points den batch_invert_map Let_def comp_def del: f128_minus_eq_plus)
  qed
qed

section \<open>Interpolation\<close>

lemma polyfun_const: "polyfun (Suc 0) (\<lambda>x. c)"
  by (rule polyfunI [of _ "[c]"]) simp_all

lemma polyfun_block_product: "polyfun (Suc (length ts)) (block_product ts)"
proof (induction ts)
  case (Cons t ts)
  from polyfun_linear [OF Cons, of "snd (fst t)"] show ?case by (simp add: mult.commute del: f128_minus_eq_plus)
qed (simp add: polyfun_const)

lemma polyfun_block_result: "polyfun (length ts) (block_result ts)"
proof (induction ts)
  case (Cons t ts)
  obtain e a w where t: "t = ((e, a), w)" by (metis prod.exhaust)
  from polyfun_add [OF polyfun_scale [OF polyfun_block_product [of ts], of "e * w"] polyfun_linear [OF Cons, of a]]
  show ?case by (simp add: t mult.commute del: f128_minus_eq_plus)
qed (simp add: polyfun_def)

lemma block_result_node:
  "k < length ts \<Longrightarrow> block_result ts (snd (fst (ts ! k)))
    = fst (fst (ts ! k)) * snd (ts ! k) * block_product (take k ts @ drop (Suc k) ts) (snd (fst (ts ! k)))"
proof (induction ts arbitrary: k)
  case (Cons t ts)
  obtain e a w where t: "t = ((e, a), w)" by (metis prod.exhaust)
  show ?case
  proof (cases k)
    case (Suc l)
    with Cons.prems have l: "l < length ts" by simp
    let ?x = "snd (fst (ts ! l))"
    have "block_product ts ?x = 0"
      using l by (auto simp: prod_list_zero_iff intro!: image_eqI [of _ _ "ts ! l"] simp del: f128_minus_eq_plus)
    with Cons.IH [OF l] show ?thesis by (simp add: Suc t ac_simps del: f128_minus_eq_plus)
  qed (simp add: t)
qed simp

lemma evaluate_block_interpolates:
  assumes len: "0 < len" "len < 2 ^ 64" and cs: "length cs \<le> len"
    and new: "lagrange_new len = Some d"
  shows "fst (evaluate_block (map (\<lambda>i. horner cs (node i)) [0..<len]) (ld_points d) (ld_weights d) x) = horner cs x"
proof -
  let ?w = "\<lambda>i. inverse (\<Prod>j\<in>{..<len} - {i}. node i - node j)"
  let ?ts = "map (\<lambda>i. ((horner cs (node i), node i), ?w i)) [0..<len]"
  have big: "i < 2 ^ 128" if "i < len" for i using that len(2) by simp
  have zip: "zip (zip (map (\<lambda>i. horner cs (node i)) [0..<len]) (ld_points d)) (ld_weights d) = ?ts"
    using new unfolding lagrange_new_weights [OF len]
    by (auto simp: zip_map_map zip_same_conv_map simp del: f128_minus_eq_plus)
  have "block_result ?ts x = horner cs x"
  proof (rule polyfun_eq [where rs = "nodes_of len" and n = len and f = "block_result ?ts" and g = "horner cs"])
    show "polyfun len (block_result ?ts)" using polyfun_block_result [of ?ts] by simp
    show "polyfun len (horner cs)"
      by (rule polyfun_mono [OF _ cs]) (rule polyfunI [OF refl refl])
    show "distinct (nodes_of len)" using big by (auto simp: distinct_map node_inj intro!: inj_onI)
    show "\<forall>r\<in>set (nodes_of len). block_result ?ts r = horner cs r"
    proof
      fix r assume "r \<in> set (nodes_of len)"
      then obtain k where k: "k < len" and r: "r = node k" by auto
      have "block_product (take k ?ts @ drop (Suc k) ?ts) (node k)
          = prod_list (map (\<lambda>j. node k - node j) (take k [0..<len] @ drop (Suc k) [0..<len]))"
        by (simp add: take_map drop_map comp_def del: f128_minus_eq_plus)
      also have "\<dots> = (\<Prod>j\<in>{..<len} - {k}. node k - node j)" by (rule prod_others [OF k])
      finally have p: "block_product (take k ?ts @ drop (Suc k) ?ts) (node k) = (\<Prod>j\<in>{..<len} - {k}. node k - node j)" .
      have "(\<Prod>j\<in>{..<len} - {k}. node k - node j) \<noteq> 0"
        using big k by (auto simp: node_inj simp del: f128_minus_eq_plus)
      moreover have t: "?ts ! k = ((horner cs (node k), node k), ?w k)" using k by simp
      have "block_result ?ts (node k) = horner cs (node k) * ?w k * (\<Prod>j\<in>{..<len} - {k}. node k - node j)"
        using block_result_node [of k ?ts] k unfolding t fst_conv snd_conv p by simp
      ultimately show "block_result ?ts r = horner cs r"
        unfolding r
        by (simp only: mult.assoc left_inverse mult_1_right not_False_eq_True)
    qed
  qed simp
  then show ?thesis by (simp only: evaluate_block_result zip fst_conv)
qed

section \<open>Properties\<close>

text \<open>C35: Interpolation is exact: from the values of a polynomial with at most \<open>len\<close> coefficients
  at the field elements with bit patterns \<open>0\<close>, ..., \<open>len - 1\<close>, the evaluator returns the
  polynomial's value at every point.  This covers the shared weight of power-of-two domains, batch
  inversion elsewhere, and the block splitting; the empty polynomial is the error.\<close>

theorem nat_evaluation_interpolates:
  assumes "length cs \<le> len" "len < 2 ^ 64"
  shows "evaluate_at_point (map (\<lambda>i. horner cs (f128_from_u128 (word_of_nat i))) [0..<len]) x
    = Some (if len = 0 then Inl EmptyPolynomial else Inr (horner cs x))"
proof (cases "len = 0")
  case True
  then show ?thesis
    by (simp add: evaluate_at_point_def evaluate_at_point_with_domain_def lagrange_new_def
        is_power_of_two_def batch_invert_nonzero_def Let_def)
next
  case False
  then have len: "0 < len" by simp
  obtain d where d: "lagrange_new len = Some d" "length (ld_points d) = len" "length (ld_weights d) = len"
    using lagrange_new_weights [OF len assms(2)] by simp
  show ?thesis
    using evaluate_block_interpolates [OF len assms(2,1) d(1)] len d
    by (simp add: evaluate_at_point_def evaluate_at_point_with_domain_def Let_def node_def)
qed

theorem nat_evaluation_interpolates_witness:
  "evaluate_at_point [1, 1, 1, 1] f128_GENERATOR = Some (Inr 1) \<and> evaluate_at_point [] 1 = Some (Inl EmptyPolynomial)"
proof -
  have "map (\<lambda>i. horner [1] (f128_from_u128 (word_of_nat i))) [0..<4] = [1, 1, 1, 1 :: f128]"
    by (simp add: upt_rec)
  then show ?thesis
    using nat_evaluation_interpolates [of "[1]" 4 f128_GENERATOR] nat_evaluation_interpolates [of "[]" 0 1]
    by simp
qed

end
