(* ===== verification/Gkr_Correct.thy ===== *)
theory Gkr_Correct
  imports Gkr Poly_Nat
begin

text \<open>
  Correctness of the grand-product argument of theory \<open>Gkr\<close>: the suffix tables are equality tables,
  a prover round computes the three sums that determine the next claim, so the verifier's claim is
  the prover's after every round, layer and tree; the prover returns; a round started on a false
  claim ends on a false claim unless the challenge is one of at most three.
\<close>

section \<open>Suffix tables\<close>

lemma eq_table_snoc:
  "eq_table (r @ [z]) = map2 (-) (eq_table r) (map (\<lambda>e. z * e) (eq_table r)) @ map (\<lambda>e. z * e) (eq_table r)"
  for r :: "'a::field list"
proof (rule nth_equalityI)
  show "length (eq_table (r @ [z])) = length (map2 (-) (eq_table r) (map (\<lambda>e. z * e) (eq_table r)) @ map (\<lambda>e. z * e) (eq_table r))"
    by simp
next
  fix j assume j: "j < length (eq_table (r @ [z]))"
  show "eq_table (r @ [z]) ! j = (map2 (-) (eq_table r) (map (\<lambda>e. z * e) (eq_table r)) @ map (\<lambda>e. z * e) (eq_table r)) ! j"
  proof (cases "j < 2 ^ length r")
    case True
    then show ?thesis using j by (simp add: eq_table_weights nth_append eq_weight_low algebra_simps)
  next
    case False
    then obtain i where i: "j = 2 ^ length r + i" by (metis le_Suc_ex not_less)
    with j have "i < 2 ^ length r" by simp
    with i show ?thesis by (simp add: eq_table_weights nth_append eq_weight_add_high mult.commute del: upt_Suc)
  qed
qed

lemma eq_table_Nil: "eq_table [] = [1 :: 'a::field]"
  by (simp add: eq_table_weights eq_weight_def)

lemma suffix_fill_Cons:
  "suffix_fill (z # zs) (eq_table r) remaining =
     (if length remaining < 2 ^ Suc (length r) then None
      else map_option (\<lambda>rest. eq_table (r @ [z]) @ rest)
        (suffix_fill zs (eq_table (r @ [z])) (drop (2 ^ Suc (length r)) remaining)))"
  by (simp add: eq_table_snoc Let_def del: f128_minus_eq_plus append_assoc)

declare suffix_fill.simps(2) [simp del]

lemma suffix_fill_levels:
  assumes "suffix_fill zs (eq_table r) remaining = Some rest" "i \<le> length zs"
  shows "take (2 ^ (length r + i)) (drop (2 ^ length r * (2 ^ i - 1)) (eq_table r @ rest)) = eq_table (r @ take i zs)"
  using assms
proof (induction zs arbitrary: r remaining rest i)
  case (Cons z zs)
  obtain rest' where f: "suffix_fill zs (eq_table (r @ [z])) (drop (2 ^ Suc (length r)) remaining) = Some rest'"
    and rest: "rest = eq_table (r @ [z]) @ rest'"
    using Cons.prems(1) by (auto simp: suffix_fill_Cons split: if_splits)
  show ?case
  proof (cases i)
    case (Suc k)
    have e: "(2::nat) ^ length r * (2 ^ i - 1) = 2 ^ length r + 2 ^ length (r @ [z]) * (2 ^ k - 1)"
      by (simp add: Suc algebra_simps)
    have "drop (2 ^ length r * (2 ^ i - 1)) (eq_table r @ rest)
        = drop (2 ^ length (r @ [z]) * (2 ^ k - 1)) (drop (2 ^ length r) (eq_table r @ rest))"
      unfolding e drop_drop by (simp only: add.commute)
    then have d: "drop (2 ^ length r * (2 ^ i - 1)) (eq_table r @ rest)
        = drop (2 ^ length (r @ [z]) * (2 ^ k - 1)) (eq_table (r @ [z]) @ rest')"
      by (simp add: rest)
    have l: "length r + i = length (r @ [z]) + k" by (simp add: Suc)
    show ?thesis
      unfolding d l using Cons.IH [OF f, of k] Cons.prems(2) by (simp add: Suc del: drop_append take_append)
  qed simp
qed simp

lemma suffix_fill_some:
  "2 ^ length r * (2 ^ Suc (length zs) - 2) \<le> length remaining \<Longrightarrow>
     \<exists>rest. suffix_fill zs (eq_table r) remaining = Some rest \<and> length rest = length remaining" for r :: "f128 list"
proof (induction zs arbitrary: r remaining)
  case (Cons z zs)
  have le: "2 ^ Suc (length r) + 2 ^ length (r @ [z]) * (2 ^ Suc (length zs) - 2) \<le> length remaining"
    using Cons.prems by (simp add: algebra_simps)
  then obtain rest where "suffix_fill zs (eq_table (r @ [z])) (drop (2 ^ Suc (length r)) remaining) = Some rest"
      "length rest = length (drop (2 ^ Suc (length r)) remaining)"
    using Cons.IH [of "r @ [z]" "drop (2 ^ Suc (length r)) remaining"] by force
  with le show ?case by (simp add: suffix_fill_Cons)
qed simp

lemma suffix_new_layers:
  assumes "max (2 ^ length point - 1) 1 \<le> length storage"
  obtains table where "suffix_new storage point = Some table" "length table = length storage"
    "\<And>i. i < max (length point) 1 \<Longrightarrow> suffix_layer table i = eq_table (take i (rev point))"
proof -
  let ?zs = "rev (drop (min (length point) 1) point)"
  have l: "length ?zs = length point - 1" by (cases point) simp_all
  have p: "2 ^ Suc (length point - 1) - 2 \<le> length storage - 1"
    using assms by (cases point) auto

  have "\<exists>rest. suffix_fill ?zs (eq_table []) (drop 1 storage) = Some rest \<and> length rest = length (drop 1 storage)"
    by (rule suffix_fill_some, unfold l) (use p in simp)
  then obtain rest where rest: "suffix_fill ?zs (eq_table []) (drop 1 storage) = Some rest"
      "length rest = length storage - 1"
    by auto
  have new: "suffix_new storage point = Some (1 # rest)"
    using assms rest(1) unfolding suffix_new_def Let_def by (simp only: eq_table_Nil not_less [symmetric] if_False option.map)
  moreover have "length (1 # rest) = length storage" using assms rest(2) by (cases storage) simp_all
  moreover have "suffix_layer (1 # rest) i = eq_table (take i (rev point))" if "i < max (length point) 1" for i
  proof -
    have "take (2 ^ i) (drop (2 ^ i - 1) (1 # rest)) = eq_table (take i ?zs)"
      using suffix_fill_levels [OF rest(1), of i] that by (simp add: l eq_table_Nil)
    moreover have "take i ?zs = take i (rev point)" using that by (cases point) auto
    ultimately show ?thesis by (simp add: suffix_layer_def)
  qed
  ultimately show ?thesis by (rule that)
qed

section \<open>Sums of a round\<close>

definition product_sum :: "f128 list \<Rightarrow> f128 list \<Rightarrow> f128 list \<Rightarrow> f128" where
  "product_sum e l r = (\<Sum>j<length e. e ! j * l ! j * r ! j)"

lemma length_chunks_pair: "length xs = Suc (Suc n) \<Longrightarrow> \<exists>a b ys. xs = a # b # ys \<and> length ys = n"
  by (metis length_Suc_conv)

lemma chunks_pair: "chunks_exact 2 (a # b # ys) = [a, b] # chunks_exact 2 ys"
  by (subst chunks_exact.simps) simp

lemma chunks_nil: "chunks_exact 2 [] = []"
  by (simp add: chunks_exact.simps)

lemma product_sum_pair:
  "product_sum (e0 # e1 # e) (l0 # l1 # l) (r0 # r1 # r) = e0 * l0 * r0 + (e1 * l1 * r1 + product_sum e l r)"
  by (simp add: product_sum_def sum.lessThan_Suc_shift del: sum.lessThan_Suc)

abbreviation half_deltas :: "f128 list \<Rightarrow> f128 list \<Rightarrow> f128 list" where
  "half_deltas a b \<equiv> map2 (-) b a"

lemma round_step_sums:
  fixes one :: bool and s :: "words4 \<times> words4" and l0 l1 r0 r1 L0 L1 R0 R1 e0 e1 :: f128
  defines "s' \<equiv> round_step one s (((([l0, l1], [r0, r1]), [L0, L1]), [R0, R1]), [e0, e1])"
  shows "wide256_reduce (fst s') = wide256_reduce (fst s) + (if one then e0 * L0 * R0 + e1 * L1 * R1 else e0 * l0 * r0 + e1 * l1 * r1)"
    and "wide256_reduce (snd s') = wide256_reduce (snd s) + (e0 * (L0 - l0) * (R0 - r0) + e1 * (L1 - l1) * (R1 - r1))"
  by (cases s; simp add: s'_def round_step_def Let_def wide256_reduce_add wide256_reduce_mul add.assoc)+

lemma round_sums:
  fixes lo_l lo_r hi_l hi_r e :: "f128 list" and one n s
  defines "s' \<equiv> foldl (round_step one) s
       (zip (zip (zip (zip (chunks_exact 2 lo_l) (chunks_exact 2 lo_r)) (chunks_exact 2 hi_l))
         (chunks_exact 2 hi_r)) (chunks_exact 2 e))"
  assumes "length lo_l = 2 * n" "length lo_r = 2 * n" "length hi_l = 2 * n" "length hi_r = 2 * n" "length e = 2 * n"
  shows "wide256_reduce (fst s') = wide256_reduce (fst s) + (if one then product_sum e hi_l hi_r else product_sum e lo_l lo_r)
    \<and> wide256_reduce (snd s') = wide256_reduce (snd s) + product_sum e (half_deltas lo_l hi_l) (half_deltas lo_r hi_r)"
  using assms(2-) unfolding s'_def
proof (induction n arbitrary: lo_l lo_r hi_l hi_r e s)
  case 0
  then show ?case by (simp add: chunks_nil product_sum_def)
next
  case (Suc n)
  obtain l0 l1 l where l: "lo_l = l0 # l1 # l" "length l = 2 * n" using Suc.prems(1) length_chunks_pair [of lo_l "2 * n"] by auto
  obtain r0 r1 r where r: "lo_r = r0 # r1 # r" "length r = 2 * n" using Suc.prems(2) length_chunks_pair [of lo_r "2 * n"] by auto
  obtain L0 L1 L where L: "hi_l = L0 # L1 # L" "length L = 2 * n" using Suc.prems(3) length_chunks_pair [of hi_l "2 * n"] by auto
  obtain R0 R1 R where R: "hi_r = R0 # R1 # R" "length R = 2 * n" using Suc.prems(4) length_chunks_pair [of hi_r "2 * n"] by auto
  obtain e0 e1 e' where e: "e = e0 # e1 # e'" "length e' = 2 * n" using Suc.prems(5) length_chunks_pair [of e "2 * n"] by auto
  show ?case
    using Suc.IH [OF l(2) r(2) L(2) R(2) e(2), of "round_step one s (((([l0, l1], [r0, r1]), [L0, L1]), [R0, R1]), [e0, e1])"]
    by (simp add: l(1) r(1) L(1) R(1) e(1) chunks_pair round_step_sums product_sum_pair add.assoc del: f128_minus_eq_plus)
qed

section \<open>Multilinear sums of products\<close>

abbreviation products :: "f128 list \<Rightarrow> f128 list \<Rightarrow> f128 list" where
  "products l r \<equiv> map2 (*) l r"

lemma product_sum_eq_table:
  assumes "length l = 2 ^ length r" "length l' = 2 ^ length r"
  shows "product_sum (eq_table r) l l' = mle_sum (products l l') r"
  using assms by (auto simp: product_sum_def mle_sum_def eq_table_weights intro!: sum.cong)

text \<open>A round fixes the highest variable.\<close>

lemma mle_sum_fold_half:
  assumes "length l = 2 ^ Suc (length r)"
  shows "mle_sum l (r @ [x]) = mle_sum (fold_half x (take (2 ^ length r) l) (drop (2 ^ length r) l)) r"
proof -
  note mle_sum_snoc [OF assms, of x]
  also have "interpolate (mle_sum (take (2 ^ length r) l) r) (mle_sum (drop (2 ^ length r) l) r) x
      = (\<Sum>j<2 ^ length r. (l ! j + x * (l ! (2 ^ length r + j) - l ! j)) * eq_weight r j)"
    using assms by (simp add: interpolate_def mle_sum_def sum_subtractf sum_distrib_left sum.distrib
        algebra_simps del: f128_minus_eq_plus)
  also have "\<dots> = mle_sum (fold_half x (take (2 ^ length r) l) (drop (2 ^ length r) l)) r"
    using assms by (auto simp: mle_sum_def fold_half_def intro!: sum.cong simp del: f128_minus_eq_plus)
  finally show ?thesis .
qed

lemma length_fold_half [simp]: "length (fold_half x l h) = min (length l) (length h)"
  by (simp add: fold_half_def)

text \<open>The product of the folded halves is the quadratic that the three sums determine.\<close>

definition round_poly :: "f128 \<Rightarrow> f128 \<Rightarrow> f128 \<Rightarrow> f128 \<Rightarrow> f128" where
  "round_poly s0 s1 sinf x = s0 + x * ((s1 - s0) + (x - 1) * sinf)"

lemma round_poly_sum:
  assumes "length lo_l = 2 ^ length r" "length lo_r = 2 ^ length r" "length hi_l = 2 ^ length r" "length hi_r = 2 ^ length r"
  shows "mle_sum (products (fold_half x lo_l hi_l) (fold_half x lo_r hi_r)) r
    = round_poly (mle_sum (products lo_l lo_r) r) (mle_sum (products hi_l hi_r) r)
        (mle_sum (products (half_deltas lo_l hi_l) (half_deltas lo_r hi_r)) r) x"
proof -
  have summand: "(l + x * (h - l)) * (l' + x * (h' - l'))
      = l * l' + x * (h * h' - l * l') + x * ((x - 1) * ((h - l) * (h' - l')))" for l l' h h' :: f128
    by (simp add: algebra_simps del: f128_minus_eq_plus)
  have "mle_sum (products (fold_half x lo_l hi_l) (fold_half x lo_r hi_r)) r
      = (\<Sum>j<2 ^ length r. (lo_l ! j * lo_r ! j + x * (hi_l ! j * hi_r ! j - lo_l ! j * lo_r ! j)
          + x * ((x - 1) * ((hi_l ! j - lo_l ! j) * (hi_r ! j - lo_r ! j)))) * eq_weight r j)"
    using assms by (auto simp: mle_sum_def fold_half_def summand simp del: f128_minus_eq_plus intro!: sum.cong)
  also have "\<dots> = round_poly (mle_sum (products lo_l lo_r) r) (mle_sum (products hi_l hi_r) r)
        (mle_sum (products (half_deltas lo_l hi_l) (half_deltas lo_r hi_r)) r) x"
    using assms by (simp add: mle_sum_def round_poly_def sum.distrib sum_distrib_left sum_subtractf algebra_simps
        del: f128_minus_eq_plus)
  finally show ?thesis .
qed

section \<open>A round on both sides\<close>

text \<open>What the verifier derives from an honest message is the prover's next sum.\<close>

definition honest_message :: "f128 \<Rightarrow> f128 \<Rightarrow> f128 \<Rightarrow> f128 \<Rightarrow> f128 \<Rightarrow> f128 \<times> f128" where
  "honest_message factor z s0 s1 sinf = (factor * (if z = 0 then s1 else s0), factor * sinf)"

lemma round_claim_honest:
  "round_claim z (factor * interpolate s0 s1 z) (honest_message factor z s0 s1 sinf) r
    = factor * eq_factor r z * round_poly s0 s1 sinf r"
proof -
  have "factor * interpolate s0 s1 z - (1 - z) * (factor * s0) = factor * s1 * z"
    by (simp add: interpolate_def algebra_simps del: f128_minus_eq_plus)
  then have "round_endpoints (factor * interpolate s0 s1 z) z (factor * (if z = 0 then s1 else s0)) = (factor * s0, factor * s1)"
    by (simp add: round_endpoints_def interpolate_def Let_def del: f128_minus_eq_plus)
  then show ?thesis
    by (simp add: round_claim_def honest_message_def round_poly_def Let_def algebra_simps del: f128_minus_eq_plus)
qed

lemma pair_deserialize_encode:
  assumes "spongefish_ok S"
  shows "pair_deserialize S (pair_encode ab @ tail) = Some (ab, tail)"
proof -
  have "f128_deserialize (sf_take S 16) (f128_encode a @ tail) = (Some a, tail)" for a tail
    using assms by (intro f128_codec_roundtrip) (simp add: reads16_def spongefish_ok_def)
  then show ?thesis by (simp add: pair_deserialize_def pair_encode_def)
qed

lemma send_round_replay:
  assumes S: "spongefish_ok S" and send: "send_round S blake3 security factor sums ps = Some (r, ps')"
    and w: "within N H ps'"
  shows "vf_vs st = replay N H ps \<Longrightarrow> verify_round S blake3 security z st = Some \<lparr>vf_prefix = vf_prefix st * eq_factor r z,
      vf_claim = round_claim z (vf_claim st) (factor * wide256_reduce (fst sums), factor * wide256_reduce (snd sums)) r,
      vf_next = vf_next st @ [r], vf_vs = replay N H ps'\<rparr>"
    and "within N H ps"
proof -
  let ?m = "(factor * wide256_reduce (fst sums), factor * wide256_reduce (snd sums))"
  obtain ps1 where g: "ps_grind S blake3 CUBIC_GRINDING_LABEL (grinding_bits security 3)
        (ps_prover_message S (pair_encode ?m) ps) = Some ps1" and c: "ps_verifier_message S ps1 = (r, ps')"
    using send by (auto simp: send_round_def Let_def)
  have w1: "within N H ps1" using w within_challenge [of N H S ps1] by (simp add: c)
  note grind = grind_replay [OF S g w1]
  have m: "vs_prover_message S (pair_deserialize S) pair_encode (replay N H ps)
      = Some (?m, replay N H (ps_prover_message S (pair_encode ?m) ps))"
    by (rule message_replay [where encode = pair_encode], rule grind(2), rule pair_deserialize_encode [OF S])
  show "verify_round S blake3 security z st = Some \<lparr>vf_prefix = vf_prefix st * eq_factor r z,
      vf_claim = round_claim z (vf_claim st) ?m r, vf_next = vf_next st @ [r], vf_vs = replay N H ps'\<rparr>"
    if st: "vf_vs st = replay N H ps"
    by (simp add: verify_round_def st m grind(1) challenge_replay c)
  show "within N H ps" using grind(2) by (rule within_message)
qed

section \<open>A layer on both sides\<close>

text \<open>Grinding finds a nonce: immediate at 0 bits, a property of the hash otherwise.\<close>

definition grinds :: "'s spongefish \<Rightarrow> (u8 list \<Rightarrow> u8 list) \<Rightarrow> nat \<Rightarrow> bool" where
  "grinds S blake3 n \<longleftrightarrow> (\<forall>l p. ps_grind S blake3 l n p \<noteq> None)"

lemma grinds_zero: "grinds S blake3 0"
  by (simp add: grinds_def ps_grind_def MAX_GRINDING_BITS_def)

lemma send_round_some:
  "grinds S blake3 (grinding_bits security 3) \<Longrightarrow> \<exists>r ps'. send_round S blake3 security factor sums ps = Some (r, ps')"
  unfolding grinds_def send_round_def Let_def
  by (metis (no_types, lifting) option.exhaust option.map(2) surj_pair)

text \<open>The prover's state before a round with the remaining coordinates \<open>zs\<close>: the two halves of the
  layer with the challenges so far bound; and the verifier's state that matches it.\<close>

definition layer_inv :: "f128 list \<Rightarrow> f128 list \<Rightarrow> f128 list \<Rightarrow> 's layer_state \<Rightarrow> bool" where
  "layer_inv l r zs st \<longleftrightarrow>
     length (ly_l st) = 2 ^ length zs \<and> length (ly_r st) = 2 ^ length zs \<and>
     (\<forall>ts. length ts = length zs \<longrightarrow>
        mle_sum (ly_l st) (rev ts) = mle_sum l (rev (ly_next st @ ts)) \<and>
        mle_sum (ly_r st) (rev ts) = mle_sum r (rev (ly_next st @ ts)))"

definition layer_sync :: "u8 list \<Rightarrow> u8 list \<Rightarrow> f128 list \<Rightarrow> 's layer_state \<Rightarrow> 's verify_state \<Rightarrow> bool" where
  "layer_sync N H zs st vst \<longleftrightarrow>
     vf_prefix vst = ly_factor st \<and> vf_next vst = ly_next st \<and> vf_vs vst = replay N H (ly_ps st) \<and>
     vf_claim vst = ly_factor st * mle_sum (products (ly_l st) (ly_r st)) (rev zs)"

text \<open>A round with sums \<open>sums\<close>, whichever way they were computed.\<close>

definition round_result :: "f128 \<Rightarrow> f128 \<Rightarrow> 's layer_state \<Rightarrow> 's prover_state \<Rightarrow> 's layer_state" where
  "round_result z x st ps =
     (let h = length (ly_l st) div 2 in
      \<lparr>ly_l = fold_half x (take h (ly_l st)) (drop h (ly_l st)), ly_r = fold_half x (take h (ly_r st)) (drop h (ly_r st)),
       ly_factor = ly_factor st * eq_factor x z, ly_next = ly_next st @ [x], ly_ps = ps\<rparr>)"

definition round_sums_ok :: "f128 \<Rightarrow> f128 list \<Rightarrow> 's layer_state \<Rightarrow> words4 \<times> words4 \<Rightarrow> bool" where
  "round_sums_ok z zs st sums \<longleftrightarrow>
     (let h = length (ly_l st) div 2;
          lo_l = take h (ly_l st); hi_l = drop h (ly_l st); lo_r = take h (ly_r st); hi_r = drop h (ly_r st)
      in wide256_reduce (fst sums) = mle_sum (if z = 0 then products hi_l hi_r else products lo_l lo_r) (rev zs) \<and>
         wide256_reduce (snd sums) = mle_sum (products (half_deltas lo_l hi_l) (half_deltas lo_r hi_r)) (rev zs))"

lemma round_result_inv:
  assumes "layer_inv l r (z # zs) st"
  shows "layer_inv l r zs (round_result z x st ps)"
proof -
  have h: "length (ly_l st) div 2 = 2 ^ length zs" "length (ly_l st) = 2 ^ Suc (length zs)" "length (ly_r st) = 2 ^ Suc (length zs)"
    using assms by (simp_all add: layer_inv_def)
  have "mle_sum (fold_half x (take (2 ^ length zs) v) (drop (2 ^ length zs) v)) (rev ts) = mle_sum v (rev (x # ts))"
    if "length v = 2 ^ Suc (length zs)" "length ts = length zs" for v ts
    using that mle_sum_fold_half [of v "rev ts" x] by simp
  with assms h show ?thesis
    by (auto simp: layer_inv_def round_result_def Let_def dest: spec [of _ "x # ts" for ts])
qed

lemma round_sync:
  assumes S: "spongefish_ok S" and inv: "layer_inv l r (z # zs) st"
    and send: "send_round S blake3 security (ly_factor st) sums (ly_ps st) = Some (x, ps')"
    and sums: "round_sums_ok z zs st sums"
    and w: "within N H ps'" and sync: "layer_sync N H (z # zs) st vst"
  shows "\<exists>vst'. verify_round S blake3 security z vst = Some vst' \<and> layer_sync N H zs (round_result z x st ps') vst'"
proof -
  let ?h = "2 ^ length zs :: nat"
  let ?lo_l = "take ?h (ly_l st)" and ?hi_l = "drop ?h (ly_l st)"
  let ?lo_r = "take ?h (ly_r st)" and ?hi_r = "drop ?h (ly_r st)"
  let ?s0 = "mle_sum (products ?lo_l ?lo_r) (rev zs)" and ?s1 = "mle_sum (products ?hi_l ?hi_r) (rev zs)"
  let ?si = "mle_sum (products (half_deltas ?lo_l ?hi_l) (half_deltas ?lo_r ?hi_r)) (rev zs)"
  have len: "length (ly_l st) = 2 * ?h" "length (ly_r st) = 2 * ?h" using inv by (simp_all add: layer_inv_def)
  have vs: "vf_vs vst = replay N H (ly_ps st)" using sync by (simp add: layer_sync_def)
  note step = send_round_replay(1) [OF S send w vs, where z = z]
  have claim: "vf_claim vst = ly_factor st * interpolate ?s0 ?s1 z"
    using sync len mle_sum_snoc [of "products (ly_l st) (ly_r st)" "rev zs" z]
    by (simp add: layer_sync_def take_zip take_map drop_zip drop_map)
  have msg: "(ly_factor st * wide256_reduce (fst sums), ly_factor st * wide256_reduce (snd sums))
      = honest_message (ly_factor st) z ?s0 ?s1 ?si"
    using sums len by (simp add: round_sums_ok_def honest_message_def Let_def)
  have "round_poly ?s0 ?s1 ?si x = mle_sum (products (fold_half x ?lo_l ?hi_l) (fold_half x ?lo_r ?hi_r)) (rev zs)"
    using len by (intro round_poly_sum [symmetric]) simp_all
  then show "\<exists>vst'. verify_round S blake3 security z vst = Some vst' \<and> layer_sync N H zs (round_result z x st ps') vst'"
    using step sync len unfolding claim msg
    by (simp add: round_claim_honest layer_sync_def round_result_def Let_def del: f128_minus_eq_plus)
qed

text \<open>The code's two kinds of round compute these sums.\<close>

lemma prove_round_eq:
  assumes inv: "layer_inv l r (z # zs) st" and zs: "zs \<noteq> []"
    and layer: "suffix_layer storage (length zs) = eq_table (rev zs)"
  shows "\<exists>sums. round_sums_ok z zs st sums \<and>
    prove_round S blake3 security storage (length zs, z) st
      = map_option (\<lambda>(x, ps'). round_result z x st ps') (send_round S blake3 security (ly_factor st) sums (ly_ps st))"
proof -
  let ?h = "length (ly_l st) div 2"
  let ?lo_l = "take ?h (ly_l st)" and ?hi_l = "drop ?h (ly_l st)"
  let ?lo_r = "take ?h (ly_r st)" and ?hi_r = "drop ?h (ly_r st)"
  let ?sums = "reduce_sumcheck_round (z = 0) ?lo_l ?lo_r ?hi_l ?hi_r (eq_table (rev zs))"
  obtain n where n: "2 ^ length zs = 2 * (n::nat)" using zs by (cases zs) simp_all
  have len: "length (ly_l st) = 2 * (2 * n)" "length (ly_r st) = 2 * (2 * n)" using inv n by (simp_all add: layer_inv_def)
  have lens: "length ?lo_l = 2 * n" "length ?lo_r = 2 * n" "length ?hi_l = 2 * n" "length ?hi_r = 2 * n"
      "length (eq_table (rev zs)) = 2 * n" using len n by simp_all
  have "round_sums_ok z zs st ?sums"
    using round_sums [OF lens, of "z = 0" "(wide256_zero, wide256_zero)"] lens n
    by (simp add: round_sums_ok_def reduce_sumcheck_round_def Let_def wide256_reduce_zero product_sum_eq_table
        del: f128_minus_eq_plus)
  moreover have "prove_round S blake3 security storage (length zs, z) st
      = map_option (\<lambda>(x, ps'). round_result z x st ps') (send_round S blake3 security (ly_factor st) ?sums (ly_ps st))"
    using len by (simp add: prove_round_def layer round_result_def Let_def split: option.split)
  ultimately show ?thesis by blast
qed

lemma mle_sum_single: "mle_sum [a] [] = a"
  by (simp add: mle_sum_def eq_weight_def)

lemma prove_last_round_eq:
  assumes inv: "layer_inv l r [z] st"
  shows "\<exists>sums. round_sums_ok z [] st sums \<and>
    prove_last_round S blake3 security z st
      = map_option (\<lambda>(x, ps'). round_result z x st ps') (send_round S blake3 security (ly_factor st) sums (ly_ps st))"
proof -
  obtain l0 l1 where l: "ly_l st = [l0, l1]" using inv by (auto simp: layer_inv_def length_Suc_conv numeral_2_eq_2)
  obtain r0 r1 where r: "ly_r st = [r0, r1]" using inv by (auto simp: layer_inv_def length_Suc_conv numeral_2_eq_2)
  let ?sums = "(if z = 0 then wide256_mul l1 r1 else wide256_mul l0 r0, wide256_mul (l1 - l0) (r1 - r0))"
  have "round_sums_ok z [] st ?sums"
    by (simp add: round_sums_ok_def l r wide256_reduce_mul mle_sum_single)
  moreover have "prove_last_round S blake3 security z st
      = map_option (\<lambda>(x, ps'). round_result z x st ps') (send_round S blake3 security (ly_factor st) ?sums (ly_ps st))"
    by (simp add: prove_last_round_def l r round_result_def fold_half_def Let_def split: option.split)
  ultimately show ?thesis by blast
qed

text \<open>The loop and the peeled round together.\<close>

definition all_rounds ::
  "'s spongefish \<Rightarrow> (u8 list \<Rightarrow> u8 list) \<Rightarrow> security_level \<Rightarrow> f128 list \<Rightarrow> f128 list \<Rightarrow> 's layer_state \<Rightarrow> 's layer_state option" where
  "all_rounds S blake3 security storage point st =
     (case prove_rounds S blake3 security storage (zip (rev [1..<length point]) (butlast point)) st of
        None \<Rightarrow> None
      | Some st \<Rightarrow> if point = [] then Some st else prove_last_round S blake3 security (last point) st)"

lemma all_rounds_Nil: "all_rounds S blake3 security storage [] st = Some st"
  by (simp add: all_rounds_def)

lemma all_rounds_single: "all_rounds S blake3 security storage [z] st = prove_last_round S blake3 security z st"
  by (simp add: all_rounds_def)

lemma all_rounds_Cons:
  "zs \<noteq> [] \<Longrightarrow> all_rounds S blake3 security storage (z # zs) st
     = Option.bind (prove_round S blake3 security storage (length zs, z) st) (all_rounds S blake3 security storage zs)"
proof -
  assume zs: "zs \<noteq> []"
  then have "rev [1..<length (z # zs)] = length zs # rev [1..<length zs]" by (cases zs) simp_all
  with zs show ?thesis by (simp add: all_rounds_def split: option.split)
qed

definition layers_of :: "f128 list \<Rightarrow> f128 list \<Rightarrow> bool" where
  "layers_of storage point \<longleftrightarrow> (\<forall>i<max (length point) 1. suffix_layer storage i = eq_table (take i (rev point)))"

lemma layers_of_Cons: "zs \<noteq> [] \<Longrightarrow> layers_of storage (z # zs) \<Longrightarrow>
    layers_of storage zs \<and> suffix_layer storage (length zs) = eq_table (rev zs)"
  unfolding layers_of_def
proof
  assume zs: "zs \<noteq> []" and a: "\<forall>i<max (length (z # zs)) 1. suffix_layer storage i = eq_table (take i (rev (z # zs)))"
  show "\<forall>i<max (length zs) 1. suffix_layer storage i = eq_table (take i (rev zs))"
  proof (intro allI impI)
    fix i assume "i < max (length zs) 1"
    with zs have "i < length zs" by (cases zs) simp_all
    with a show "suffix_layer storage i = eq_table (take i (rev zs))" by simp
  qed
  show "suffix_layer storage (length zs) = eq_table (rev zs)" using a by simp
qed

text \<open>One step of the combined loop, so that each induction below has one case.\<close>

lemma all_rounds_step:
  assumes inv: "layer_inv l r (z # zs) st" and layers: "layers_of storage (z # zs)"
  shows "\<exists>sums. round_sums_ok z zs st sums \<and> all_rounds S blake3 security storage (z # zs) st
    = Option.bind (send_round S blake3 security (ly_factor st) sums (ly_ps st))
        (\<lambda>(x, ps'). all_rounds S blake3 security storage zs (round_result z x st ps'))"
proof (cases "zs = []")
  case True
  with prove_last_round_eq [of l r z st S blake3 security] inv show ?thesis
    by (simp add: all_rounds_single all_rounds_Nil map_conv_bind_option comp_def case_prod_unfold)
next
  case False
  with prove_round_eq [OF inv False, of storage S blake3 security] layers_of_Cons [OF False layers]
  obtain sums where "round_sums_ok z zs st sums" "prove_round S blake3 security storage (length zs, z) st
      = map_option (\<lambda>(x, ps'). round_result z x st ps') (send_round S blake3 security (ly_factor st) sums (ly_ps st))"
    by blast
  with False show ?thesis
    by (intro exI [of _ sums]) (simp add: all_rounds_Cons map_conv_bind_option comp_def case_prod_unfold)
qed

lemma all_rounds_Cons_Some:
  assumes "layer_inv l r (z # zs) st" "layers_of storage (z # zs)"
    "all_rounds S blake3 security storage (z # zs) st = Some st'"
  obtains sums x ps' where "round_sums_ok z zs st sums" "layers_of storage zs"
    "send_round S blake3 security (ly_factor st) sums (ly_ps st) = Some (x, ps')"
    "all_rounds S blake3 security storage zs (round_result z x st ps') = Some st'"
    "layer_inv l r zs (round_result z x st ps')"
proof -
  obtain sums where sums: "round_sums_ok z zs st sums" and
    "Option.bind (send_round S blake3 security (ly_factor st) sums (ly_ps st))
        (\<lambda>(x, ps'). all_rounds S blake3 security storage zs (round_result z x st ps')) = Some st'"
    using all_rounds_step [OF assms(1,2), of S blake3 security] assms(3) by metis
  then obtain x ps' where "send_round S blake3 security (ly_factor st) sums (ly_ps st) = Some (x, ps')"
    "all_rounds S blake3 security storage zs (round_result z x st ps') = Some st'"
    by (auto simp: bind_eq_Some_conv)
  moreover have "layers_of storage zs"
    using assms(2) layers_of_Cons [of zs] by (cases "zs = []") (auto simp: layers_of_def)
  ultimately show ?thesis using sums round_result_inv [OF assms(1)] that by blast
qed

lemma round_result_simps [simp]:
  "ly_ps (round_result z x st ps') = ps'" "ly_next (round_result z x st ps') = ly_next st @ [x]"
  by (simp_all add: round_result_def Let_def)

lemma all_rounds_inv:
  assumes "layer_inv l r zs st" "layers_of storage zs" "all_rounds S blake3 security storage zs st = Some st'"
  shows "layer_inv l r [] st' \<and> length (ly_next st') = length (ly_next st) + length zs"
  using assms
proof (induction zs arbitrary: st)
  case (Cons z zs)
  from Cons.prems show ?case by (rule all_rounds_Cons_Some) (use Cons.IH in fastforce)
qed (simp add: all_rounds_Nil)

lemma all_rounds_within:
  assumes "spongefish_ok S" "within N H (ly_ps st')"
    "layer_inv l r zs st" "layers_of storage zs" "all_rounds S blake3 security storage zs st = Some st'"
  shows "within N H (ly_ps st)"
  using assms(3-)
proof (induction zs arbitrary: st)
  case (Cons z zs)
  from Cons.prems show ?case
    by (rule all_rounds_Cons_Some) (use Cons.IH send_round_replay(2) [OF assms(1)] in fastforce)
qed (use assms in \<open>simp add: all_rounds_Nil\<close>)

lemma all_rounds_sync:
  assumes S: "spongefish_ok S" and w: "within N H (ly_ps st')"
    and "layer_inv l r zs st" "layers_of storage zs" "all_rounds S blake3 security storage zs st = Some st'"
      "layer_sync N H zs st vst"
  shows "\<exists>vst'. verify_rounds S blake3 security zs vst = Some vst' \<and> layer_sync N H [] st' vst'"
  using assms(3-)
proof (induction zs arbitrary: st vst)
  case (Cons z zs)
  from Cons.prems(1-3) obtain sums x ps' where sums: "round_sums_ok z zs st sums" "layers_of storage zs"
    and send: "send_round S blake3 security (ly_factor st) sums (ly_ps st) = Some (x, ps')"
    and rest: "all_rounds S blake3 security storage zs (round_result z x st ps') = Some st'"
    and inv: "layer_inv l r zs (round_result z x st ps')"
    by (rule all_rounds_Cons_Some)
  have "within N H ps'" using all_rounds_within [OF S w inv sums(2) rest] by simp
  from round_sync [OF S Cons.prems(1) send sums(1) this Cons.prems(4)]
  obtain vst' where "verify_round S blake3 security z vst = Some vst'"
    "layer_sync N H zs (round_result z x st ps') vst'" by blast
  with Cons.IH [OF inv sums(2) rest] show ?case by simp
qed (simp add: all_rounds_Nil)

lemma prove_layer_all_rounds:
  assumes "suffix_new storage point = Some table"
  shows "prove_layer S blake3 security ps storage point wnext =
    map_option (\<lambda>st.
        let l = ly_l st ! 0; r = ly_r st ! 0; (x, ps) = ps_verifier_message S (ps_prover_message S (pair_encode (l, r)) (ly_ps st))
        in (((x # ly_next st, l + x * (r - l)), table), ps))
      (all_rounds S blake3 security table point
        \<lparr>ly_l = take (length wnext div 2) wnext, ly_r = drop (length wnext div 2) wnext, ly_factor = 1, ly_next = [], ly_ps = ps\<rparr>)"
  unfolding prove_layer_def assms Let_def all_rounds_def by (auto split: option.split simp: Let_def case_prod_unfold)

lemma prove_layer_correct:
  assumes S: "spongefish_ok S" and len: "length wnext = 2 ^ Suc (length point)"
    and storage: "max (2 ^ length point - 1) 1 \<le> length storage"
    and prove: "prove_layer S blake3 security ps storage point wnext = Some (((pt, claim), storage'), ps')"
  shows "length pt = Suc (length point)" "claim = mle_sum wnext (rev pt)" "length storage' = length storage"
    and "within N H ps' \<Longrightarrow> within N H ps"
    and "within N H ps' \<Longrightarrow> verify_layer S blake3 security
        (mle_sum (products (take (2 ^ length point) wnext) (drop (2 ^ length point) wnext)) (rev point)) point (replay N H ps)
      = Some ((pt, claim), replay N H ps')"
proof -
  let ?l = "take (2 ^ length point) wnext" and ?r = "drop (2 ^ length point) wnext"
  let ?st = "\<lparr>ly_l = ?l, ly_r = ?r, ly_factor = 1, ly_next = [], ly_ps = ps\<rparr>"
  obtain table where table: "suffix_new storage point = Some table" "length table = length storage"
      and layers: "layers_of table point"
    using suffix_new_layers [OF storage] unfolding layers_of_def by blast
  obtain st where st: "all_rounds S blake3 security table point ?st = Some st"
    and fin: "(let l = ly_l st ! 0; r = ly_r st ! 0; (x, ps) = ps_verifier_message S (ps_prover_message S (pair_encode (l, r)) (ly_ps st))
        in (((x # ly_next st, l + x * (r - l)), table), ps)) = (((pt, claim), storage'), ps')"
    using prove len unfolding prove_layer_all_rounds [OF table(1)] by auto
  obtain x p1 where x1: "ps_verifier_message S (ps_prover_message S (pair_encode (ly_l st ! 0, ly_r st ! 0)) (ly_ps st)) = (x, p1)"
    by fastforce
  with fin have x: "ps_verifier_message S (ps_prover_message S (pair_encode (ly_l st ! 0, ly_r st ! 0)) (ly_ps st)) = (x, ps')"
    and pt: "pt = x # ly_next st" "claim = ly_l st ! 0 + x * (ly_r st ! 0 - ly_l st ! 0)" "storage' = table"
    by (simp_all add: Let_def)
  have inv: "layer_inv ?l ?r point ?st" using len by (simp add: layer_inv_def)
  note inv' = all_rounds_inv [OF inv layers st]
  obtain l r where lr: "ly_l st = [l]" "ly_r st = [r]"
    using inv' by (auto simp: layer_inv_def length_Suc_conv)
  show pt': "length pt = Suc (length point)" using inv' by (simp add: pt)
  have "l = mle_sum ?l (rev (ly_next st))" "r = mle_sum ?r (rev (ly_next st))"
    using inv' by (simp_all add: layer_inv_def lr mle_sum_single)
  with mle_sum_snoc [of wnext "rev (ly_next st)" x] len inv'
  show claim: "claim = mle_sum wnext (rev pt)" by (simp add: pt lr interpolate_def)
  show "length storage' = length storage" by (simp add: pt table)
  assume w: "within N H ps'"
  then have w1: "within N H (ps_prover_message S (pair_encode (l, r)) (ly_ps st))"
    using within_challenge [of N H S] x by (simp add: lr) (metis snd_conv)
  then have w2: "within N H (ly_ps st)" by (rule within_message)
  show "within N H ps" using all_rounds_within [OF S w2 inv layers st] by simp
  have sync: "layer_sync N H point ?st \<lparr>vf_prefix = 1, vf_claim = mle_sum (products ?l ?r) (rev point), vf_next = [], vf_vs = replay N H ps\<rparr>"
    by (simp add: layer_sync_def)
  obtain vst where vst: "verify_rounds S blake3 security point
        \<lparr>vf_prefix = 1, vf_claim = mle_sum (products ?l ?r) (rev point), vf_next = [], vf_vs = replay N H ps\<rparr> = Some vst"
      "layer_sync N H [] st vst"
    using all_rounds_sync [OF S w2 inv layers st sync] by blast
  have "vs_prover_message S (pair_deserialize S) pair_encode (replay N H (ly_ps st))
      = Some ((l, r), replay N H (ps_prover_message S (pair_encode (l, r)) (ly_ps st)))"
    by (rule message_replay [where encode = pair_encode], rule w1, rule pair_deserialize_encode [OF S])
  moreover have "vf_prefix vst * l * r = vf_claim vst" "vf_vs vst = replay N H (ly_ps st)" "vf_next vst = ly_next st"
    using vst(2) by (simp_all add: layer_sync_def lr mle_sum_single mult.assoc)
  ultimately show "verify_layer S blake3 security (mle_sum (products ?l ?r) (rev point)) point (replay N H ps)
      = Some ((pt, claim), replay N H ps')"
    using x by (simp add: verify_layer_def vst(1) challenge_replay lr pt)
qed

section \<open>The tree of products\<close>

text \<open>The witnesses from the layer below the outputs down to the leaves: every layer is the products of
  the halves of the next.\<close>

fun product_layers :: "f128 list \<Rightarrow> f128 list list \<Rightarrow> bool" where
  "product_layers outs [] \<longleftrightarrow> True"
| "product_layers outs (w # ws) \<longleftrightarrow> length w = 2 * length outs \<and>
     outs = products (take (length outs) w) (drop (length outs) w) \<and> product_layers w ws"

lemma product_layers_snoc:
  "product_layers outs (ws @ [w]) \<longleftrightarrow> product_layers outs ws \<and> product_layers (last (outs # ws)) [w]"
  by (induction ws arbitrary: outs) auto

lemma batched_eval_loop_layers:
  assumes "length leafs = 2 ^ (g + n)"
  shows "\<exists>outs ws. batched_eval_loop (2 ^ g) leafs acc = (outs, acc @ ws) \<and> length outs = 2 ^ g \<and> length ws = n \<and>
    product_layers outs (rev ws) \<and> last (outs # rev ws) = leafs"
  using assms
proof (induction n arbitrary: leafs acc)
  case 0
  then show ?case by (subst batched_eval_loop.simps) simp
next
  case (Suc n)
  let ?h = "length leafs div 2"
  let ?e = "products (take ?h leafs) (drop ?h leafs)"
  have h: "?h = 2 ^ (g + n)" "length leafs = 2 * 2 ^ (g + n)" using Suc.prems by simp_all
  then have "length ?e = 2 ^ (g + n)" by simp
  from Suc.IH [OF this, of "acc @ [leafs]"] obtain outs ws where
    ws: "batched_eval_loop (2 ^ g) ?e (acc @ [leafs]) = (outs, (acc @ [leafs]) @ ws)" "length outs = 2 ^ g" "length ws = n"
      "product_layers outs (rev ws)" "last (outs # rev ws) = ?e" by blast
  have "(2::nat) ^ g < length leafs" unfolding Suc.prems by (rule power_strict_increasing) simp_all
  then have "batched_eval_loop (2 ^ g) leafs acc = batched_eval_loop (2 ^ g) ?e (acc @ [leafs])"
    by (subst batched_eval_loop.simps) (simp add: Let_def)
  moreover have "product_layers outs (rev (leafs # ws))"
    using ws(4,5) h by (simp add: product_layers_snoc)
  ultimately show ?case using ws by (intro exI [of _ outs] exI [of _ "leafs # ws"]) simp
qed

lemma prove_layers_correct:
  assumes S: "spongefish_ok S" and "product_layers outs ws" "length outs = 2 ^ length point" "ws \<noteq> []"
    "2 ^ (length point + length ws - 1) \<le> length storage" "1 \<le> length storage"
    "prove_layers S blake3 security ws storage (point, c) ps = Some ((pt, claim), ps')"
  shows "length pt = length point + length ws \<and> claim = mle_sum (last ws) (rev pt) \<and>
    (within N H ps' \<longrightarrow> within N H ps \<and>
      verify_layers S blake3 security (length ws) (point, mle_sum outs (rev point)) (replay N H ps) = Some ((pt, claim), replay N H ps'))"
  using assms(2-)
proof (induction ws arbitrary: outs point c storage ps)
  case (Cons w ws)
  have w: "length w = 2 ^ Suc (length point)" using Cons.prems(1,2) by simp
  have outs: "outs = products (take (2 ^ length point) w) (drop (2 ^ length point) w)" using Cons.prems(1,2) by simp
  obtain pt1 c1 st1 ps1 where layer: "prove_layer S blake3 security ps storage point w = Some (((pt1, c1), st1), ps1)"
      and rest: "prove_layers S blake3 security ws st1 (pt1, c1) ps1 = Some ((pt, claim), ps')"
    using Cons.prems(6) by (auto split: option.splits)
  have "(2::nat) ^ length point \<le> 2 ^ (length point + length (w # ws) - 1)" by (intro power_increasing) simp_all
  with Cons.prems(4) have "2 ^ length point - 1 \<le> length storage" by linarith
  with Cons.prems(5) have storage: "max (2 ^ length point - 1) 1 \<le> length storage" by simp
  note layer_ok = prove_layer_correct [OF S w storage layer]
  show ?case
  proof (cases "ws = []")
    case True
    with rest have e: "pt1 = pt" "c1 = claim" "ps1 = ps'" by simp_all
    show ?thesis
      using layer_ok(1,2) layer_ok(4,5) [where N = N and H = H] by (simp add: True e outs del: product_layers.simps)
  next
    case False
    have *: "product_layers w ws" "length w = 2 ^ length pt1" using Cons.prems(1) w layer_ok(1) by simp_all
    have "2 ^ (length pt1 + length ws - 1) \<le> length st1" "1 \<le> length st1"
      using Cons.prems(4,5) layer_ok(1,3) by simp_all
    note IH = Cons.IH [OF * False this rest]
    have "mle_sum w (rev pt1) = c1" using layer_ok(2) by simp
    with IH layer_ok(1) layer_ok(4,5) [where N = N and H = H] False show ?thesis by (simp add: outs [symmetric])
  qed
qed simp

lemma gpgkr_prove_correct:
  assumes S: "spongefish_ok S" and layers: "batched_eval leafs (2 ^ length point) = (outs, ws)"
    and leafs: "length leafs = 2 ^ (length point + n)" and n: "0 < n" "length point + n \<le> lb"
    and prove: "gpgkr_prove S blake3 security lb point ws ps = Some ((pt, claim), ps')"
  shows "length pt = length point + n" "claim = mle_sum leafs pt" "length outs = 2 ^ length point"
    and "within N H ps' \<Longrightarrow> within N H ps"
    and "within N H ps' \<Longrightarrow> gpgkr_verify S blake3 security (mle_sum outs point) point n (replay N H ps) = Some ((pt, claim), replay N H ps')"
proof -
  have ws': "length outs = 2 ^ length point" "length ws = n" "product_layers outs (rev ws)" "last (outs # rev ws) = leafs"
    using batched_eval_loop_layers [OF leafs, of "[]"] layers by (simp_all add: batched_eval_def)
  have ne: "rev ws \<noteq> []" using ws'(2) n by auto
  have st: "2 ^ (length (rev point) + length (rev ws) - 1) \<le> length (alloc_storage lb)"
    using n ws'(2) by (simp add: alloc_storage_def)
  obtain pt1 where p1: "prove_layers S blake3 security (rev ws) (alloc_storage lb) (rev point, 0) ps = Some ((pt1, claim), ps')" "pt = rev pt1"
    using prove by (auto simp: gpgkr_prove_def)
  have one: "1 \<le> length (alloc_storage lb)" by (simp add: alloc_storage_def)
  have outs: "length outs = 2 ^ length (rev point)" using ws'(1) by simp
  have 1: "length pt1 = length point + n \<and> claim = mle_sum leafs (rev pt1) \<and>
    (within N H ps' \<longrightarrow> within N H ps \<and>
      verify_layers S blake3 security n (rev point, mle_sum outs point) (replay N H ps) = Some ((pt1, claim), replay N H ps'))" for N H
    using prove_layers_correct [OF S ws'(3) outs ne st one p1(1), of N H] ws'(2,4) ne by simp
  show "length pt = length point + n" "claim = mle_sum leafs pt" "length outs = 2 ^ length point"
    using 1 p1(2) ws'(1) by simp_all
  assume "within N H ps'"
  with 1 show "within N H ps" "gpgkr_verify S blake3 security (mle_sum outs point) point n (replay N H ps) = Some ((pt, claim), replay N H ps')"
    by (simp_all add: gpgkr_verify_def p1(2))
qed

section \<open>The prover always returns\<close>

lemma all_rounds_some:
  assumes g: "grinds S blake3 (grinding_bits security 3)"
  shows "layer_inv l r zs st \<Longrightarrow> layers_of storage zs \<Longrightarrow> \<exists>st'. all_rounds S blake3 security storage zs st = Some st'"
proof (induction zs arbitrary: st)
  case (Cons z zs)
  obtain sums where step: "all_rounds S blake3 security storage (z # zs) st
      = Option.bind (send_round S blake3 security (ly_factor st) sums (ly_ps st))
          (\<lambda>(x, ps'). all_rounds S blake3 security storage zs (round_result z x st ps'))"
    using all_rounds_step [OF Cons.prems] by blast
  obtain x ps' where "send_round S blake3 security (ly_factor st) sums (ly_ps st) = Some (x, ps')"
    using send_round_some [OF g] by blast
  moreover have "layers_of storage zs"
    using Cons.prems(2) layers_of_Cons [of zs] by (cases "zs = []") (auto simp: layers_of_def)
  ultimately show ?case using Cons.IH [OF round_result_inv [OF Cons.prems(1)]] step by simp
qed (simp add: all_rounds_Nil)

lemma prove_layer_some:
  assumes "grinds S blake3 (grinding_bits security 3)" "length wnext = 2 ^ Suc (length point)"
    "max (2 ^ length point - 1) 1 \<le> length storage"
  obtains pt claim storage' ps' where
    "prove_layer S blake3 security ps storage point wnext = Some (((pt, claim), storage'), ps')"
proof -
  obtain table where table: "suffix_new storage point = Some table" and layers: "layers_of table point"
    using suffix_new_layers [OF assms(3)] unfolding layers_of_def by blast
  let ?st = "\<lparr>ly_l = take (2 ^ length point) wnext, ly_r = drop (2 ^ length point) wnext, ly_factor = 1, ly_next = [], ly_ps = ps\<rparr>"
  have "layer_inv (take (2 ^ length point) wnext) (drop (2 ^ length point) wnext) point ?st"
    using assms(2) by (simp add: layer_inv_def)
  from all_rounds_some [OF assms(1) this layers] obtain st' where "all_rounds S blake3 security table point ?st = Some st'" by blast
  with assms(2) have "prove_layer S blake3 security ps storage point wnext \<noteq> None"
    by (simp add: prove_layer_all_rounds [OF table])
  then show ?thesis by (metis option.exhaust prod.exhaust that)
qed

lemma prove_layers_some:
  assumes S: "spongefish_ok S" and g: "grinds S blake3 (grinding_bits security 3)"
  shows "product_layers outs ws \<Longrightarrow> length outs = 2 ^ length point \<Longrightarrow> 2 ^ (length point + length ws - 1) \<le> length storage \<Longrightarrow>
    1 \<le> length storage \<Longrightarrow> prove_layers S blake3 security ws storage (point, c) ps \<noteq> None"
proof (induction ws arbitrary: outs point c storage ps)
  case (Cons w ws)
  have w: "length w = 2 ^ Suc (length point)" using Cons.prems(1,2) by simp
  have "(2::nat) ^ length point \<le> 2 ^ (length point + length (w # ws) - 1)" by (intro power_increasing) simp_all
  with Cons.prems(3) have "2 ^ length point - 1 \<le> length storage" by linarith
  with Cons.prems(4) have storage: "max (2 ^ length point - 1) 1 \<le> length storage" by simp
  obtain pt1 c1 st1 ps1 where layer: "prove_layer S blake3 security ps storage point w = Some (((pt1, c1), st1), ps1)"
    by (rule prove_layer_some [OF g w storage])
  note ok = prove_layer_correct [OF S w storage layer]
  have "prove_layers S blake3 security ws st1 (pt1, c1) ps1 \<noteq> None"
  proof (cases "ws = []")
    case False
    with Cons.prems ok(1,3) w show ?thesis by (intro Cons.IH [of w]) simp_all
  qed simp
  with layer show ?case by simp
qed simp

lemma gpgkr_prove_some:
  assumes "spongefish_ok S" "grinds S blake3 (grinding_bits security 3)" "batched_eval leafs (2 ^ length point) = (outs, ws)"
    "length leafs = 2 ^ (length point + n)" "length point + n \<le> lb"
  shows "gpgkr_prove S blake3 security lb point ws ps \<noteq> None"
proof -
  have ws: "length outs = 2 ^ length point" "length ws = n" "product_layers outs (rev ws)"
    using batched_eval_loop_layers [OF assms(4), of "[]"] assms(3) by (simp_all add: batched_eval_def)
  have "(2::nat) ^ (length point + n - 1) \<le> 2 ^ max (lb - 1) 1" using assms(5) by (intro power_increasing) simp_all
  then have "prove_layers S blake3 security (rev ws) (alloc_storage lb) (rev point, 0) ps \<noteq> None"
    using ws by (intro prove_layers_some [OF assms(1,2)]) (simp_all add: alloc_storage_def)
  then show ?thesis by (auto simp: gpgkr_prove_def)
qed

section \<open>The outputs are the products of the groups\<close>

lemma prod_double: "(\<Prod>j<2 * n. f j) = (\<Prod>j<n. f (2 * j) * f (2 * j + 1))" for f :: "nat \<Rightarrow> 'a::comm_monoid_mult"
  by (induction n) (simp_all add: mult.assoc)

lemma product_layers_outputs:
  "product_layers outs ws \<Longrightarrow> c < length outs \<Longrightarrow>
     outs ! c = (\<Prod>b<2 ^ length ws. last (outs # ws) ! (b * length outs + c))"
proof (induction ws arbitrary: outs c)
  case (Cons w ws)
  let ?m = "length outs"
  have w: "length w = 2 * ?m" "outs = products (take ?m w) (drop ?m w)" "product_layers w ws" using Cons.prems(1) by simp_all
  have "outs ! c = w ! c * w ! (?m + c)"
    using Cons.prems(2) w(1) by (subst w(2)) (simp del: w(2))
  also have "w ! c = (\<Prod>b<2 ^ length ws. last (w # ws) ! (b * length w + c))"
    using Cons.prems(2) w by (intro Cons.IH) simp_all
  also have "w ! (?m + c) = (\<Prod>b<2 ^ length ws. last (w # ws) ! (b * length w + (?m + c)))"
    using Cons.prems(2) w(1,3) by (intro Cons.IH) simp_all
  finally show ?case by (simp add: prod_double prod.distrib w(1) algebra_simps)
qed simp

lemma batched_eval_outputs:
  assumes "length leafs = 2 ^ (g + n)" "c < 2 ^ g"
  shows "fst (batched_eval leafs (2 ^ g)) ! c = (\<Prod>b<2 ^ n. leafs ! (b * 2 ^ g + c))"
proof -
  obtain outs ws where b: "batched_eval leafs (2 ^ g) = (outs, ws)" by fastforce
  with batched_eval_loop_layers [OF assms(1), of "[]"]
  have "length outs = 2 ^ g" "length ws = n" "product_layers outs (rev ws)" "last (outs # rev ws) = leafs"
    by (simp_all add: batched_eval_def)
  with product_layers_outputs [of outs "rev ws" c] assms(2) show ?thesis by (simp add: b)
qed

section \<open>Soundness of a round\<close>

text \<open>What the verifier's next claim misses the true one by is a cubic in the challenge.\<close>

lemma round_endpoints_interpolate:
  "round_endpoints claim z m = (a0, a1) \<Longrightarrow> interpolate a0 a1 z = claim"
  by (auto simp: round_endpoints_def interpolate_def Let_def field_simps split: if_splits simp del: f128_minus_eq_plus)

lemma quadratic_roots:
  fixes c0 c1 c2 :: f128
  assumes "c0 \<noteq> 0 \<or> c0 + c1 \<noteq> 0"
  shows "card {x. c0 + x * (c1 + (x - 1) * c2) = 0} \<le> 2"
proof (rule ccontr)
  let ?R = "{x. c0 + x * (c1 + (x - 1) * c2) = 0}" and ?cs = "[c0, c1 - c2, c2]"
  have h: "horner ?cs x = c0 + x * (c1 + (x - 1) * c2)" for x
    by (simp add: algebra_simps del: f128_minus_eq_plus)
  assume "\<not> card ?R \<le> 2"
  moreover obtain rs where rs: "set rs = ?R" "distinct rs" using finite_distinct_list [OF finite_f128] by blast
  ultimately have "length ?cs \<le> length rs" using distinct_card [OF rs(2)] by simp
  then have "horner ?cs x = 0" for x
    by (rule horner_roots [OF _ rs(2)]) (unfold h rs(1), blast)
  from this [of 0] this [of 1] assms show False unfolding h by simp
qed

lemma round_soundness:
  fixes s0 s1 sinf factor z claim :: f128
  assumes "claim \<noteq> factor * interpolate s0 s1 z"
  shows "card {x. round_claim z claim msg x = factor * eq_factor x z * round_poly s0 s1 sinf x} \<le> 3"
proof -
  obtain a0 a1 where a: "round_endpoints claim z (fst msg) = (a0, a1)" by fastforce
  let ?c0 = "a0 - factor * s0" and ?c1 = "(a1 - factor * s1) - (a0 - factor * s0)" and ?c2 = "snd msg - factor * sinf"
  let ?R = "{x. ?c0 + x * (?c1 + (x - 1) * ?c2) = 0}"
  have "round_claim z claim msg x - factor * eq_factor x z * round_poly s0 s1 sinf x
      = eq_factor x z * (?c0 + x * (?c1 + (x - 1) * ?c2))" for x
    using a by (simp add: round_claim_def Let_def round_poly_def case_prod_unfold algebra_simps del: f128_minus_eq_plus)
  then have "round_claim z claim msg x = factor * eq_factor x z * round_poly s0 s1 sinf x
      \<longleftrightarrow> eq_factor x z = 0 \<or> ?c0 + x * (?c1 + (x - 1) * ?c2) = 0" for x
    by (metis mult_eq_0_iff right_minus_eq)
  then have "{x. round_claim z claim msg x = factor * eq_factor x z * round_poly s0 s1 sinf x} \<subseteq> {x. eq_factor x z = 0} \<union> ?R"
    by blast
  also have "{x. eq_factor x z = 0} \<subseteq> {1 + z}"
    by (auto simp: eq_factor_def add.commute [of 1] add.assoc add_eq_0_iff2)
  finally have "{x. round_claim z claim msg x = factor * eq_factor x z * round_poly s0 s1 sinf x} \<subseteq> insert (1 + z) ?R" by blast
  then have "card {x. round_claim z claim msg x = factor * eq_factor x z * round_poly s0 s1 sinf x} \<le> card (insert (1 + z) ?R)"
    by (intro card_mono) simp_all
  also have "\<dots> \<le> Suc (card ?R)" by (rule card_insert_le_m1) simp_all
  also have "card ?R \<le> 2"
  proof (rule quadratic_roots)
    show "?c0 \<noteq> 0 \<or> ?c0 + ?c1 \<noteq> 0"
      using assms round_endpoints_interpolate [OF a]
      by (auto simp: interpolate_def algebra_simps simp del: f128_minus_eq_plus)
  qed
  finally show ?thesis by simp
qed

section \<open>Properties\<close>

text \<open>C3: Completeness of the grand-product argument.  For a tree of \<open>2 ^ n\<close> leaves per group, when
  grinding succeeds the prover returns a point and the leaves' multilinear extension there, and a
  verifier that replays the transcript from the evaluation of the output layer accepts with the same
  point and claim and ends in the prover's transcript state.\<close>

theorem gkr_complete:
  assumes "spongefish_ok S" "grinds S blake3 (grinding_bits security 3)"
    "length leafs = 2 ^ (length point + n)" "0 < n" "length point + n \<le> lb"
    "batched_eval leafs (2 ^ length point) = (outs, witnesses)"
  shows "\<exists>pt ps'. gpgkr_prove S blake3 security lb point witnesses ps = Some ((pt, mle_sum leafs pt), ps') \<and>
    length pt = length point + n \<and>
    (\<forall>N H. within N H ps' \<longrightarrow> gpgkr_verify S blake3 security (mle_sum outs point) point n (replay N H ps)
       = Some ((pt, mle_sum leafs pt), replay N H ps'))"
proof -
  obtain pt claim ps' where p: "gpgkr_prove S blake3 security lb point witnesses ps = Some ((pt, claim), ps')"
    using gpgkr_prove_some [OF assms(1,2,6,3,5), of ps] by (metis option.exhaust prod.exhaust)
  note ok = gpgkr_prove_correct [OF assms(1,6,3,4,5) p]
  show ?thesis using p ok(1,2,5) by blast
qed

theorem gkr_complete_witness:
  "\<exists>outs ws pt ps' proof_state. batched_eval [f128_GENERATOR, 1, 0, f128_GENERATOR] 2 = (outs, ws) \<and>
    ps' = build_prover toy_sponge [] [] \<and>
    gpgkr_prove toy_sponge (\<lambda>_. []) Bits100 2 [f128_GENERATOR] ws ps'
      = Some ((pt, mle_sum [f128_GENERATOR, 1, 0, f128_GENERATOR] pt), proof_state) \<and>
    gpgkr_verify toy_sponge (\<lambda>_. []) Bits100 (mle_sum outs [f128_GENERATOR]) [f128_GENERATOR] 1
        (build_verifier toy_sponge [] [] (ps_finish proof_state))
      = Some ((pt, mle_sum [f128_GENERATOR, 1, 0, f128_GENERATOR] pt), replay (ps_narg proof_state) (ps_hints proof_state) proof_state)"
proof -
  let ?leafs = "[f128_GENERATOR, 1, 0, f128_GENERATOR]"
  obtain outs ws where e: "batched_eval ?leafs (2 ^ length [f128_GENERATOR]) = (outs, ws)" by fastforce
  have g: "grinds toy_sponge (\<lambda>_. []) (grinding_bits Bits100 3)"
  proof -
    have "grinding_bits Bits100 3 = 0" by code_simp
    then show ?thesis by (simp only: grinds_zero)
  qed
  obtain pt ps' where p: "gpgkr_prove toy_sponge (\<lambda>_. []) Bits100 2 [f128_GENERATOR] ws (build_prover toy_sponge [] [])
      = Some ((pt, mle_sum ?leafs pt), ps')"
    and v: "\<forall>N H. within N H ps' \<longrightarrow> gpgkr_verify toy_sponge (\<lambda>_. []) Bits100 (mle_sum outs [f128_GENERATOR]) [f128_GENERATOR] 1
        (replay N H (build_prover toy_sponge [] [])) = Some ((pt, mle_sum ?leafs pt), replay N H ps')"
    using gkr_complete [OF toy_sponge_ok g, of ?leafs "[f128_GENERATOR]" 1 2 outs ws "build_prover toy_sponge [] []"] e by auto
  show ?thesis using e p v within_self [of ps'] by (auto simp: build_replay)
qed

text \<open>C4: Soundness of a round.  When the incoming claim is not \<open>factor\<close> times the sum over the layer,
  then whatever the message, the next claim equals the next sum for at most three challenges, the
  coefficient for which the code grinds.\<close>

theorem gkr_round_sound:
  assumes "length l = 2 ^ Suc (length zs)" "length r = 2 ^ Suc (length zs)"
    "claim \<noteq> factor * mle_sum (products l r) (rev (z # zs))"
  shows "card {x. round_claim z claim msg x = factor * eq_factor x z *
      mle_sum (products (fold_half x (take (2 ^ length zs) l) (drop (2 ^ length zs) l))
        (fold_half x (take (2 ^ length zs) r) (drop (2 ^ length zs) r))) (rev zs)} \<le> 3"
proof -
  let ?h = "2 ^ length zs"
  let ?p = "\<lambda>a b. mle_sum (products a b) (rev zs)"
  have sums: "?p (fold_half x (take ?h l) (drop ?h l)) (fold_half x (take ?h r) (drop ?h r))
      = round_poly (?p (take ?h l) (take ?h r)) (?p (drop ?h l) (drop ?h r))
          (?p (half_deltas (take ?h l) (drop ?h l)) (half_deltas (take ?h r) (drop ?h r))) x" for x
    using assms(1,2) by (intro round_poly_sum) simp_all
  have "mle_sum (products l r) (rev (z # zs)) = interpolate (?p (take ?h l) (take ?h r)) (?p (drop ?h l) (drop ?h r)) z"
    using assms(1,2) mle_sum_snoc [of "products l r" "rev zs" z] by (simp add: take_zip take_map drop_zip drop_map)
  with assms(3) show ?thesis unfolding sums by (intro round_soundness) simp
qed

theorem gkr_round_sound_witness:
  "card {x. round_claim 0 1 (0, 0) x = 1 * eq_factor x 0 *
      mle_sum (products (fold_half x (take (2 ^ length ([] :: f128 list)) [0, 0]) (drop (2 ^ length ([] :: f128 list)) [0, 0]))
        (fold_half x (take (2 ^ length ([] :: f128 list)) [0, 0]) (drop (2 ^ length ([] :: f128 list)) [0, 0]))) (rev [])} \<le> 3"
proof -
  have "(1 :: f128) \<noteq> 1 * mle_sum (products [0, 0] [0, 0]) (rev [0])"
    by (simp add: mle_sum_def numeral_2_eq_2)
  then show ?thesis by (intro gkr_round_sound [where z = 0]) simp_all
qed

text \<open>C25: The circuit evaluates products.  For leaves laid out with the group in the low index bits,
  every output is the product of its group's leaves, and the witnesses run from the leaves to the
  layer below the outputs, each layer the products of the halves of the one before.\<close>

theorem grand_product_outputs:
  assumes "length leafs = 2 ^ (g + n)"
  shows "\<exists>outs witnesses. batched_eval leafs (2 ^ g) = (outs, witnesses) \<and> length witnesses = n \<and>
    outs = map (\<lambda>c. \<Prod>b<2 ^ n. leafs ! (b * 2 ^ g + c)) [0..<2 ^ g] \<and>
    product_layers outs (rev witnesses) \<and> last (outs # rev witnesses) = leafs"
proof -
  obtain outs ws where b: "batched_eval leafs (2 ^ g) = (outs, ws)" by fastforce
  with batched_eval_loop_layers [OF assms, of "[]"]
  have ok: "length outs = 2 ^ g" "length ws = n" "product_layers outs (rev ws)" "last (outs # rev ws) = leafs"
    by (simp_all add: batched_eval_def)
  have "outs = map (\<lambda>c. \<Prod>b<2 ^ n. leafs ! (b * 2 ^ g + c)) [0..<2 ^ g]"
    by (rule nth_equalityI) (use ok(1) batched_eval_outputs [OF assms] b in \<open>simp_all\<close>)
  with b ok show ?thesis by blast
qed

theorem grand_product_outputs_witness:
  "\<exists>witnesses. batched_eval [f128_GENERATOR, 1, 0, f128_GENERATOR] 2 = ([0, f128_GENERATOR], witnesses)"
proof -
  have "map (\<lambda>c. \<Prod>b<2 ^ 1. [f128_GENERATOR, 1, 0, f128_GENERATOR] ! (b * 2 ^ 1 + c)) [0..<2 ^ 1] = [0, f128_GENERATOR]"
    by (simp add: numeral_2_eq_2 numeral_3_eq_3)
  with grand_product_outputs [of "[f128_GENERATOR, 1, 0, f128_GENERATOR]" 1 1] show ?thesis by auto
qed

end
