(* ===== verification/Protocol_Correct.thy ===== *)
theory Protocol_Correct
  imports Protocol Gkr_Correct
begin

text \<open>
  The protocol of theory \<open>Protocol\<close> as a whole: completeness of the direct and the virtual proof,
  what acceptance by the verifier means, and that the verifier answers every transcript.
\<close>

section \<open>Both sides' transcripts\<close>

lemma draw_challenges_replay:
  "draw_challenges (vs_verifier_message S) n (replay N H p)
    = (fst (draw_challenges (ps_verifier_message S) n p), replay N H (snd (draw_challenges (ps_verifier_message S) n p)))"
  by (induction n arbitrary: p) (simp_all add: challenge_replay Let_def case_prod_unfold)

lemma length_draw_challenges: "length (fst (draw_challenges nx n t)) = n"
  by (induction n arbitrary: t) (simp_all add: Let_def case_prod_unfold)

lemma within_draw: "within N H (snd (draw_challenges (ps_verifier_message S) n p)) \<longleftrightarrow> within N H p"
  by (induction n arbitrary: p) (simp_all add: Let_def case_prod_unfold within_challenge)

lemma within_send_folds: "within N H (send_folds S folds p) \<Longrightarrow> within N H p"
  unfolding send_folds_def by (induction folds arbitrary: p) (auto dest: within_message)

lemma send_folds_replay:
  assumes S: "spongefish_ok S"
  shows "within N H (send_folds S folds p) \<Longrightarrow>
    receive_folds S (length folds) (replay N H p) = Some (folds, replay N H (send_folds S folds p))"
proof (induction folds arbitrary: p)
  case Nil
  then show ?case by (simp add: send_folds_def)
next
  case (Cons f folds)
  let ?p = "ps_prover_message S (to_le_bytes 16 f) p"
  have step: "send_folds S (f # folds) p = send_folds S folds ?p" by (simp add: send_folds_def)
  have w: "within N H ?p" using Cons.prems unfolding step by (rule within_send_folds)
  have "vs_prover_message S (sf_take S 16) (\<lambda>m. m) (replay N H p) = Some (to_le_bytes 16 f, replay N H ?p)"
    using w by (rule message_replay [where encode = "\<lambda>m. m"]) (use S in \<open>simp add: sf_take_append\<close>)
  with Cons.IH [of ?p] Cons.prems show ?case by (simp add: step from_to_le_bytes)
qed

lemma absorb_all_replay:
  "absorb_all (vs_public_message S) ms (replay N H p) = replay N H (absorb_all (ps_public_message S) ms p)"
  unfolding absorb_all_def by (induction ms arbitrary: p) (simp_all add: public_replay)

lemma within_absorb_all: "within N H (absorb_all (ps_public_message S) ms p) \<longleftrightarrow> within N H p"
  unfolding absorb_all_def by (induction ms arbitrary: p) (simp_all add: within_public)

section \<open>The leaves\<close>

lemma as_matrix_bits:
  assumes "table_ok t"
  obtains m where "as_matrix t = Some m" "bm_ok m" "bm_dim1 m = shape_columns (bt_shape t)" "bm_dim2 m = shape_rows (bt_shape t)"
    "\<And>c b. b < shape_rows (bt_shape t) \<Longrightarrow> bm_bit m c b = table_bit t c b"
proof -
  let ?sh = "bt_shape t"
  let ?m = "\<lparr>bm_packed = bt_packed t, bm_log_dim2 = log_rows ?sh\<rparr>"
  have sh: "shape_ok ?sh" and len: "length (bt_packed t) = 2 ^ log_bits ?sh div 128" using assms by (simp_all add: table_ok_def)
  have "(2 :: nat) ^ 7 dvd 2 ^ log_bits ?sh" using sh by (intro le_imp_power_dvd) (simp add: shape_ok_def)
  then have l: "length (bt_packed t) * 128 = 2 ^ log_bits ?sh" by (simp add: len)
  have le: "log_rows ?sh \<le> log_bits ?sh" by (simp add: log_bits_def)
  have m: "as_matrix t = Some ?m" unfolding as_matrix_def by (rule bit_matrix_new_ok [OF l le])
  have dims: "bm_dim1 ?m = shape_columns ?sh" "bm_dim2 ?m = shape_rows ?sh"
    using bm_dims [of ?m "log_bits ?sh"] l le by (simp_all add: shape_columns_def shape_rows_def log_bits_def)
  have "bm_bit ?m c b = table_bit t c b" if "b < shape_rows ?sh" for c b
  proof -
    obtain k where k: "shape_rows ?sh = 128 * k" using shape_ok_bounds(4) [OF sh] by blast
    have "(c * (128 * k) + b) div 128 = c * k + b div 128" "(c * (128 * k) + b) mod 128 = b mod 128"
      by (simp_all add: mult.left_commute [of c])
    then show ?thesis by (simp add: bm_bit_def mbit_def table_bit_def packed_bit_def dims k)
  qed
  moreover have "bm_ok ?m" using l le by (auto simp: bm_ok_def)
  ultimately show ?thesis using that m dims by blast
qed

definition leafs_of :: "f128 list \<Rightarrow> bit_table \<Rightarrow> f128 list" where
  "leafs_of rows t = concat (map (\<lambda>b. map (\<lambda>c. if table_bit t c b then rows ! b else 1) [0..<shape_columns (bt_shape t)]) [0..<length rows])"

lemma length_leafs_of: "length (leafs_of rows t) = length rows * shape_columns (bt_shape t)"
  by (simp add: leafs_of_def length_concat comp_def sum_list_triv)

lemma nth_concat_grid:
  "b < n \<Longrightarrow> c < m \<Longrightarrow> concat (map (\<lambda>b. map (f b) [0..<m]) [0..<n]) ! (b * m + c) = f b c"
proof (induction n)
  case (Suc n)
  let ?xs = "concat (map (\<lambda>b. map (f b) [0..<m]) [0..<n])"
  have l: "length ?xs = n * m" by (simp add: length_concat comp_def sum_list_triv)
  show ?case
  proof (cases "b < n")
    case True
    then have "(b + 1) * m \<le> n * m" by (intro mult_le_mono1) simp
    then have "b * m + c < length ?xs" using Suc.prems(2) by (simp add: l)
    then show ?thesis using Suc True by (simp add: nth_append)
  next
    case False
    then have "b = n" using Suc.prems by simp
    then show ?thesis using Suc.prems by (simp add: nth_append l)
  qed
qed simp

lemma nth_leafs_of:
  "b < length rows \<Longrightarrow> c < shape_columns (bt_shape t) \<Longrightarrow>
   leafs_of rows t ! (b * shape_columns (bt_shape t) + c) = (if table_bit t c b then rows ! b else 1)"
  unfolding leafs_of_def by (rule nth_concat_grid)

lemma next_power_of_two_self: "next_power_of_two (2 ^ n) = 2 ^ n"
proof (cases n)
  case (Suc k)
  have "bitlen (2 ^ n - 1) = n" using Suc by (simp add: bitlen_unique [of k])
  moreover have "1 < (2::nat) ^ n" by (rule one_less_power) (simp_all add: Suc)
  ultimately show ?thesis by (simp add: next_power_of_two_def not_le)
qed (simp add: next_power_of_two_def)

lemma grand_product_circuit_leafs:
  assumes t: "table_ok t" and rows: "length rows = shape_rows (bt_shape t)" and cols: "128 \<le> shape_columns (bt_shape t)"
  shows "grand_product_circuit_new rows t = Some (leafs_of rows t)"
proof -
  let ?sh = "bt_shape t"
  have sh: "shape_ok ?sh" using t by (simp add: table_ok_def)
  have r128: "128 \<le> shape_rows ?sh"
    using power_increasing [of 7 "log_rows ?sh" "2::nat"] sh by (simp add: shape_rows_def shape_ok_def)
  obtain m where m: "as_matrix t = Some m" "bm_ok m" "bm_dim1 m = shape_columns ?sh" "bm_dim2 m = shape_rows ?sh"
    "\<And>c b. b < shape_rows ?sh \<Longrightarrow> bm_bit m c b = table_bit t c b" using as_matrix_bits [OF t] by blast
  obtain m' where m': "bm_transpose m = Some m'" "bm_ok m'" "bm_dim1 m' = shape_rows ?sh" "bm_dim2 m' = shape_columns ?sh"
    "\<And>c b. c < shape_columns ?sh \<Longrightarrow> b < shape_rows ?sh \<Longrightarrow> bm_bit m' b c = bm_bit m c b"
    using bm_transpose_bits [OF m(2)] m(3,4) cols r128 by metis
  have row: "map_option (\<lambda>it. leaf_row (rows ! b) (step_iter_items 1 it)) (bm_bits m' b)
      = Some (map (\<lambda>c. if table_bit t c b then rows ! b else 1) [0..<shape_columns ?sh])" if b: "b < shape_rows ?sh" for b
  proof -
    obtain it where "bm_bits m' b = Some it" "step_iter_items 1 it = map (\<lambda>c. of_bool (bm_bit m' b c)) [0..<shape_columns ?sh]"
      using bm_bits_items [of m' b] m' b cols by auto
    then show ?thesis using m(5) m'(5) b by (auto simp: leaf_row_def)
  qed
  have zip: "zip [0..<length rows] rows = map (\<lambda>b. (b, rows ! b)) [0..<length rows]"
    by (rule nth_equalityI) simp_all
  have "those (map (\<lambda>(b, row_image). map_option (\<lambda>it. leaf_row row_image (step_iter_items 1 it)) (bm_bits m' b))
      (zip [0..<length rows] rows)) = Some (map (\<lambda>b. map (\<lambda>c. if table_bit t c b then rows ! b else 1) [0..<shape_columns ?sh]) [0..<length rows])"
    unfolding zip map_map comp_def prod.case by (rule those_map_Some) (use row rows in simp)
  moreover have "from_leafs (leafs_of rows t) = leafs_of rows t"
    using next_power_of_two_self [of "log_bits ?sh"] shape_ok_bounds(5) [OF sh]
    by (simp add: from_leafs_def length_leafs_of rows)
  ultimately show ?thesis
    using rows m(1) m'(1) by (simp add: grand_product_circuit_new_def leafs_of_def)
qed

section \<open>The reduced query\<close>

lemma eq_weight_sum: "(\<Sum>j<2 ^ length r. eq_weight r j) = (1 :: 'a::field)"
proof (induction r rule: rev_induct)
  case (snoc x r)
  have "(\<Sum>j<2 ^ length (r @ [x]). eq_weight (r @ [x]) j)
      = (\<Sum>j<2 ^ length r. eq_weight r j * (1 - x)) + (\<Sum>j<2 ^ length r. eq_weight r j * x)"
    using sum_lessThan_add [of "eq_weight (r @ [x])" "2 ^ length r" "2 ^ length r"]
    by (simp add: mult_2 eq_weight_low eq_weight_add_high)
  also have "\<dots> = (\<Sum>j<2 ^ length r. eq_weight r j)"
    by (simp add: sum.distrib [symmetric] algebra_simps)
  finally show ?case using snoc.IH by simp
qed (simp add: eq_weight_def)

lemma leaf_claim:
  assumes pc: "2 ^ length pc = shape_columns (bt_shape t)" and pb: "2 ^ length pb = length rows"
  shows "mle_sum (leafs_of rows t) (pc @ pb) - 1 =
    (\<Sum>j < shape_columns (bt_shape t). \<Sum>i<length rows. of_bool (table_bit t j i) * (((rows ! i - 1) * eq_weight pb i) * eq_weight pc j))"
proof -
  let ?m = "shape_columns (bt_shape t)" and ?n = "length rows"
  have "mle_sum (leafs_of rows t) (pc @ pb) - 1
      = (\<Sum>k<2 ^ length (pc @ pb). (leafs_of rows t ! k - 1) * eq_weight (pc @ pb) k)"
    by (simp only: mle_sum_def left_diff_distrib sum_subtractf mult_1 eq_weight_sum)
  also have "\<dots> = (\<Sum>i<?n. \<Sum>j<?m. (leafs_of rows t ! (i * ?m + j) - 1) * eq_weight (pc @ pb) (i * ?m + j))"
    unfolding length_append power_add pc pb by (rule sum_grid)
  also have "\<dots> = (\<Sum>i<?n. \<Sum>j<?m. of_bool (table_bit t j i) * (((rows ! i - 1) * eq_weight pb i) * eq_weight pc j))"
  proof (intro sum.cong refl)
    fix i j assume "i \<in> {..<?n}" "j \<in> {..<?m}"
    then have ij: "i < ?n" "j < ?m" by simp_all
    have "eq_weight (pc @ pb) (i * ?m + j) = eq_weight pc j * eq_weight pb i"
      using eq_weight_append [of j pc pb i] ij(2) by (simp add: pc [symmetric] mult.commute add.commute)
    then show "(leafs_of rows t ! (i * ?m + j) - 1) * eq_weight (pc @ pb) (i * ?m + j)
        = of_bool (table_bit t j i) * (((rows ! i - 1) * eq_weight pb i) * eq_weight pc j)"
      using nth_leafs_of [OF ij] by (simp add: f128_double mult_ac)
  qed
  also have "\<dots> = (\<Sum>j<?m. \<Sum>i<?n. of_bool (table_bit t j i) * (((rows ! i - 1) * eq_weight pb i) * eq_weight pc j))"
    by (rule sum.swap)
  finally show ?thesis .
qed

lemma ilog2_power: "ilog2 (max (2 ^ n) 1) = n"
proof -
  have "max ((2::nat) ^ n) 1 = 2 ^ n" by simp
  then show ?thesis by (simp add: ilog2_def bitlen_exp)
qed

lemma reduced_query_leafs:
  assumes t: "table_ok t" and rows: "length rows = shape_rows (bt_shape t)"
    and point: "length point = log_columns (bt_shape t) + log_rows (bt_shape t)"
  shows "\<exists>query. reduced_query (bt_shape t) rows point (mle_sum (leafs_of rows t) point) = Some (Inr query) \<and>
    query_holds (bt_shape t) (packed_bit (bt_packed t)) query"
proof -
  let ?sh = "bt_shape t"
  let ?pb = "drop (log_columns ?sh) point" and ?pc = "take (log_columns ?sh) point"
  have r1: "ilog2 (max (length rows) 1) = log_rows ?sh" by (simp only: rows shape_rows_def ilog2_power)
  have r2: "length point - log_rows ?sh = log_columns ?sh" using point by simp
  have l: "2 ^ length ?pc = shape_columns ?sh" "2 ^ length ?pb = length rows"
    using point rows by (simp_all add: shape_columns_def shape_rows_def)
  let ?u1 = "map2 (\<lambda>a b. (a - 1) * b) rows (eq_table ?pb)" and ?u2 = "eq_table ?pc"
  have lu: "length ?u1 = shape_rows ?sh" "length ?u2 = shape_columns ?sh" using l rows by simp_all
  let ?c = "\<lparr>row_weights = ?u1, column_weights = ?u2, target = mle_sum (leafs_of rows t) point - 1\<rparr>"
  have q: "reduced_query ?sh rows point (mle_sum (leafs_of rows t) point) = Some (Inr (InnerProduct ?c))"
    using point lu unfolding reduced_query_def r1 Let_def r2 linear_claim_from_shape_def by simp
  have "(\<Sum>j<length ?u2. \<Sum>i<length ?u1. of_bool (packed_bit (bt_packed t) (j * length ?u1 + i)) * (?u1 ! i * ?u2 ! j))
      = (\<Sum>j < shape_columns ?sh. \<Sum>i<length rows. of_bool (table_bit t j i) * (((rows ! i - 1) * eq_weight ?pb i) * eq_weight ?pc j))"
    unfolding lu rows
  proof (intro sum.cong refl)
    fix i j assume "i \<in> {..<shape_rows ?sh}" "j \<in> {..<shape_columns ?sh}"
    then have "?u1 ! i = (rows ! i - 1) * eq_weight ?pb i" "?u2 ! j = eq_weight ?pc j"
      using l rows by (simp_all add: eq_table_weights del: f128_minus_eq_plus length_take length_drop)
    then show "of_bool (packed_bit (bt_packed t) (j * shape_rows ?sh + i)) * (?u1 ! i * ?u2 ! j)
        = of_bool (table_bit t j i) * (((rows ! i - 1) * eq_weight ?pb i) * eq_weight ?pc j)"
      by (simp add: table_bit_def)
  qed
  also have "\<dots> = mle_sum (leafs_of rows t) point - 1"
    using leaf_claim [OF l, symmetric] by simp
  finally have "query_holds ?sh (packed_bit (bt_packed t)) (InnerProduct ?c)"
    using lu by (simp add: query_holds_def)
  with q show ?thesis by blast
qed

section \<open>The fold round on both sides\<close>

text \<open>Parameters that passed the gates, the two setups derived from them and a claim that fits.\<close>

definition bitz_instance :: "claim_field \<Rightarrow> bitz_params \<Rightarrow> bitz_prover \<Rightarrow> bitz_verifier \<Rightarrow> u128 linear_claim \<Rightarrow> bool" where
  "bitz_instance F params pr vr claim \<longleftrightarrow> claim_field_ok F \<and> shape_ok (bp_shape params) \<and>
     bitz_params_new F (bp_shape params) (bp_generator params) = Inr params \<and>
     (\<exists>win. bitz_prover_new params win = Some pr) \<and> (\<exists>win. bitz_verifier_new F params win = Some vr) \<and>
     claim_ok F (bp_shape params) claim"

definition honest_table :: "claim_field \<Rightarrow> shape \<Rightarrow> u128 linear_claim \<Rightarrow> bit_table \<Rightarrow> bool" where
  "honest_table F sh claim t \<longleftrightarrow> table_ok t \<and> bt_shape t = sh \<and> unat (target claim) = claim_value F claim (table_bit t)"

definition column_grinding :: "security_level \<Rightarrow> shape \<Rightarrow> nat" where
  "column_grinding security sh = grinding_bits security (word_of_nat (log_columns sh))"

lemma fold_new_some:
  assumes "shape_ok sh" "length rows = shape_rows sh" "length folds = shape_columns sh" "length images = shape_columns sh"
    "length zeta = log_columns sh"
  shows "\<exists>f. fold_new sh folds images rows zeta = Some (Inr f) \<and> fs_row_images f = rows \<and> fs_zeta f = zeta \<and>
    fs_e0 f = mle_sum images zeta"
proof -
  have c: "log_columns sh < 64" using shape_ok_bounds(3) [OF assms(1)] by simp
  have n: "mle_num_vars \<lparr>evaluations = images\<rparr> = log_columns sh"
    using assms(4) by (intro mle_num_vars_power2) (simp add: shape_columns_def)
  have "mle_evaluate \<lparr>evaluations = images\<rparr> zeta = Some (Inr (mle_sum images zeta))"
    using assms(4,5) n by (simp add: mle_evaluate_def evaluate_exact_mle_sum shape_columns_def)
  then show ?thesis
    using assms c by (simp add: fold_new_def mle_from_evaluations_def shape_columns_def)
qed

lemma bitz_instanceD:
  assumes "bitz_instance F params pr vr claim"
  obtains g win win' where "claim_field_ok F" "shape_ok (bp_shape params)"
    "bitz_params_new F (bp_shape params) g = Inr params" "bp_generator params = g" "claim_ok F (bp_shape params) claim"
    "pr_params pr = params" "vr_params vr = params" "fbp_new g win = Some (pr_comb pr)" "fbp_new g win' = Some (vr_comb vr)"
    "fold_bound F params = Some (vr_fold_bound vr)" "128 \<le> shape_columns (bp_shape params)"
proof -
  obtain win where "bitz_prover_new params win = Some pr" using assms by (auto simp: bitz_instance_def)
  then have p: "pr_params pr = params" "fbp_new (bp_generator params) win = Some (pr_comb pr)"
    by (auto simp: bitz_prover_new_def)
  obtain win' where "bitz_verifier_new F params win' = Some vr" using assms by (auto simp: bitz_instance_def)
  then have v: "vr_params vr = params" "fbp_new (bp_generator params) win' = Some (vr_comb vr)" "fold_bound F params = Some (vr_fold_bound vr)"
    by (auto simp: bitz_verifier_new_def split: option.splits)
  have "7 \<le> log_columns (bp_shape params)"
    using assms bitz_params_new_ok by (auto simp: bitz_instance_def)
  then have "128 \<le> shape_columns (bp_shape params)"
    using power_increasing [of 7 "log_columns (bp_shape params)" "2::nat"] by (simp add: shape_columns_def)
  with p v assms that show ?thesis by (auto simp: bitz_instance_def)
qed

text \<open>What an honest fold round leaves in the round state.\<close>

definition honest_fold :: "shape \<Rightarrow> bit_table \<Rightarrow> fold_state \<Rightarrow> bool" where
  "honest_fold sh t f \<longleftrightarrow> length (fs_row_images f) = shape_rows sh \<and> length (fs_zeta f) = log_columns sh \<and>
     (\<exists>images. fs_e0 f = mle_sum images (fs_zeta f) \<and> length images = shape_columns sh \<and>
        (\<forall>j < shape_columns sh. images ! j = (\<Prod>i < shape_rows sh. if table_bit t j i then fs_row_images f ! i else 1)))"

lemma fold_round_replay:
  assumes S: "spongefish_ok S" and inst: "bitz_instance F params pr vr claim"
    and t: "honest_table F (bp_shape params) claim t" and g: "grinds S blake3 (column_grinding security (bp_shape params))"
  obtains f ps' where "send_fold S blake3 F pr claim t ps security = Some (Inr (f, ps'))" "honest_fold (bp_shape params) t f"
    "\<And>N H. within N H ps' \<Longrightarrow> within N H ps"
    "\<And>N H. within N H ps' \<Longrightarrow> receive_fold S blake3 F vr claim (replay N H ps) security = Some (Inr (f, replay N H ps'))"
proof -
  let ?sh = "bp_shape params"
  obtain gen win win' where i: "claim_field_ok F" "shape_ok ?sh"
    "bitz_params_new F ?sh gen = Inr params" "bp_generator params = gen" "claim_ok F ?sh claim"
    "pr_params pr = params" "vr_params vr = params" "fbp_new gen win = Some (pr_comb pr)" "fbp_new gen win' = Some (vr_comb vr)"
    "fold_bound F params = Some (vr_fold_bound vr)"
    using bitz_instanceD [OF inst] by metis
  have tt: "table_ok t" "bt_shape t = ?sh" "unat (target claim) = claim_value F claim (table_bit t)"
    using t by (simp_all add: honest_table_def)
  from fold_round [OF i(1,2,3,5) tt(1,2) i(8)] obtain etas bound v images rows where
    r0: "fold_columns t (row_exponents F claim) = Some etas" "length etas = shape_columns ?sh" "fold_bound F params = Some bound"
    "column_images (pr_comb pr) etas = Some images" "row_images (pr_comb pr) (row_exponents F claim) = Some rows"
    "\<forall>j < shape_columns ?sh. etas ! j \<le> bound \<and>
       unat (etas ! j) = column_sum (row_weights claim) (table_bit t j) \<and>
       images ! j = (\<Prod>i < shape_rows ?sh. if table_bit t j i then rows ! i else f128_ONE)"
    "reconstruct F claim etas = Some (Inr v)" "unat v = claim_value F claim (table_bit t)"
    by (elim exE conjE)
  have bound: "bound = vr_fold_bound vr" using r0(3) i(10) by simp
  note r = r0(1,2,4,5)
  have le: "etas ! j \<le> vr_fold_bound vr" if "j < shape_columns ?sh" for j using r0(6) that bound by blast
  have prods: "images ! j = (\<Prod>i < shape_rows ?sh. if table_bit t j i then rows ! i else 1)" if "j < shape_columns ?sh" for j
    unfolding one_f128_def using r0(6) that by blast
  have im: "images = map (\<lambda>f. gen ^ unat f) etas" "rows = map (\<lambda>f. gen ^ unat f) (row_exponents F claim)"
    using r(3,4) column_images_eq [OF i(8)] row_images_eq [OF i(8)] by simp_all
  have im': "column_images (vr_comb vr) etas = Some images" "row_images (vr_comb vr) (row_exponents F claim) = Some rows"
    by (simp_all only: im column_images_eq [OF i(9)] row_images_eq [OF i(9)])
  have len: "length rows = shape_rows ?sh" "length images = shape_columns ?sh"
    using im claim_okD(1) [OF i(1,5)] r(2) by simp_all
  let ?ps1 = "send_folds S etas ps"
  obtain ps2 where ps2: "ps_grind S blake3 COLUMNS_LABEL (column_grinding security ?sh) ?ps1 = Some ps2"
    using g unfolding grinds_def by (metis option.exhaust)
  let ?draw = "draw_challenges (ps_verifier_message S) (log_columns ?sh) ps2"
  from fold_new_some [OF i(2) len(1) r(2) len(2), of "fst ?draw"] length_draw_challenges
  obtain f where f: "fold_new ?sh etas images rows (fst ?draw) = Some (Inr f)" "fs_row_images f = rows" "fs_zeta f = fst ?draw"
    "fs_e0 f = mle_sum images (fst ?draw)"
    by (elim meta_impE exE conjE) (rule length_draw_challenges)
  have send: "send_fold S blake3 F pr claim t ps security = Some (Inr (f, snd ?draw))"
    using tt(2) i(6) r(1,3,4) ps2 f(1) by (simp add: send_fold_def Let_def column_grinding_def case_prod_unfold)
  have honest: "honest_fold ?sh t f"
    unfolding honest_fold_def f(2-4)
    by (intro conjI exI [of _ images] allI impI) (use len prods in \<open>simp_all add: length_draw_challenges\<close>)
  have w2: "within N H ps2" if "within N H (snd ?draw)" for N H using that by (simp add: within_draw)
  have earlier: "within N H ps" if "within N H (snd ?draw)" for N H
    using grind_replay(2) [OF S ps2 w2 [OF that]] by (rule within_send_folds)
  have receive: "receive_fold S blake3 F vr claim (replay N H ps) security = Some (Inr (f, replay N H (snd ?draw)))"
    if w: "within N H (snd ?draw)" for N H
  proof -
    note gr = grind_replay [OF S ps2 w2 [OF w]]
    have folds: "receive_folds S (shape_columns ?sh) (replay N H ps) = Some (etas, replay N H ?ps1)"
      using send_folds_replay [OF S gr(2)] r(2) by simp
    have "\<not> list_ex (\<lambda>f. vr_fold_bound vr < f) etas"
      using r(2) le by (auto simp: list_ex_iff in_set_conv_nth not_less)
    moreover have "v = target claim" using r0(8) tt(3) by (simp add: word_unat_eq_iff)
    ultimately show ?thesis
      using gr(1) f(1) unfolding receive_fold_def i(7) Let_def folds column_grinding_def [symmetric]
      by (simp add: r0(7) im' draw_challenges_replay)
  qed
  show ?thesis by (rule that [OF send honest earlier receive])
qed

section \<open>The reduction on both sides\<close>

lemma reduce_replay:
  assumes S: "spongefish_ok S" and g: "grinds S blake3 (grinding_bits security 3)"
    and t: "table_ok t" "128 \<le> shape_columns (bt_shape t)" and f: "honest_fold (bt_shape t) t f"
  obtains query ps' where "prover_gkr_reduce S blake3 ps f t security = Some (Inr (query, ps'))"
    "query_holds (bt_shape t) (packed_bit (bt_packed t)) query"
    "\<And>N H. within N H ps' \<Longrightarrow> within N H ps"
    "\<And>N H. within N H ps' \<Longrightarrow> verifier_gkr_reduce S blake3 (replay N H ps) f (bt_shape t) security = Some (Inr (query, replay N H ps'))"
proof -
  let ?sh = "bt_shape t" and ?rows = "fs_row_images f" and ?z = "fs_zeta f"
  let ?leafs = "leafs_of ?rows t"
  obtain images where h: "length ?rows = shape_rows ?sh" "length ?z = log_columns ?sh" "fs_e0 f = mle_sum images ?z"
    "length images = shape_columns ?sh"
    "\<And>j. j < shape_columns ?sh \<Longrightarrow> images ! j = (\<Prod>i < shape_rows ?sh. if table_bit t j i then ?rows ! i else 1)"
    using f unfolding honest_fold_def by blast
  have sh: "shape_ok ?sh" using t(1) by (simp add: table_ok_def)
  have circuit: "grand_product_circuit_new ?rows t = Some ?leafs" by (rule grand_product_circuit_leafs [OF t(1) h(1) t(2)])
  have len: "length ?leafs = 2 ^ (length ?z + log_rows ?sh)"
    by (simp add: length_leafs_of h(1,2) shape_rows_def shape_columns_def power_add)
  have cols: "2 ^ length ?z = shape_columns ?sh" by (simp add: h(2) shape_columns_def)
  obtain outs ws where b: "batched_eval ?leafs (2 ^ length ?z) = (outs, ws)" by fastforce
  have n: "0 < log_rows ?sh" "length ?z + log_rows ?sh \<le> log_bits ?sh"
    using sh h(2) by (simp_all add: shape_ok_def log_bits_def)
  obtain pt claim ps' where p: "gpgkr_prove S blake3 security (log_bits ?sh) ?z ws ps = Some ((pt, claim), ps')"
    using gpgkr_prove_some [OF S g b len n(2), of ps] by (metis option.exhaust prod.exhaust)
  note ok = gpgkr_prove_correct [OF S b len n p]
  have "outs = images"
  proof (rule nth_equalityI)
    show l: "length outs = length images" using ok(3) cols h(4) by simp
    fix j assume "j < length outs"
    then have j: "j < shape_columns ?sh" using l h(4) by simp
    have "outs ! j = (\<Prod>i<2 ^ log_rows ?sh. ?leafs ! (i * shape_columns ?sh + j))"
      using batched_eval_outputs [OF len, of j] b j cols by simp
    also have "\<dots> = (\<Prod>i < shape_rows ?sh. if table_bit t j i then ?rows ! i else 1)"
      unfolding shape_rows_def [symmetric] using j h(1) by (intro prod.cong refl) (simp add: nth_leafs_of)
    finally show "outs ! j = images ! j" by (simp add: h(5) [OF j])
  qed
  then have e0: "fs_e0 f = mle_sum outs ?z" by (simp add: h(3))
  obtain query where q: "reduced_query ?sh ?rows pt (mle_sum ?leafs pt) = Some (Inr query)"
    "query_holds ?sh (packed_bit (bt_packed t)) query"
    using reduced_query_leafs [OF t(1) h(1), of pt] ok(1) h(2) by auto
  have pr: "prover_gkr_reduce S blake3 ps f t security = Some (Inr (query, ps'))"
    using circuit b p q(1) ok(2) by (simp add: prover_gkr_reduce_def cols)
  have r1: "ilog2 (max (length ?rows) 1) = log_rows ?sh" by (simp only: h(1) shape_rows_def ilog2_power)
  have vr: "verifier_gkr_reduce S blake3 (replay N H ps) f ?sh security = Some (Inr (query, replay N H ps'))"
    if "within N H ps'" for N H
    using ok(5) [OF that] q(1) ok(2) unfolding verifier_gkr_reduce_def r1 Let_def e0 by simp
  show ?thesis by (rule that [OF pr q(2) ok(4) vr])
qed

lemma fold_and_reduce_replay:
  assumes S: "spongefish_ok S" and inst: "bitz_instance F params pr vr claim"
    and t: "honest_table F (bp_shape params) claim t"
    and g: "grinds S blake3 (column_grinding security (bp_shape params))" "grinds S blake3 (grinding_bits security 3)"
  obtains query ps' where "prover_fold_and_reduce S blake3 F pr claim t ps security = Some (Inr (query, ps'))"
    "query_holds (bp_shape params) (packed_bit (bt_packed t)) query"
    "\<And>N H. within N H ps' \<Longrightarrow> within N H ps"
    "\<And>N H. within N H ps' \<Longrightarrow> verifier_fold_and_reduce S blake3 F vr claim (replay N H ps) security = Some (Inr (query, replay N H ps'))"
proof -
  obtain f ps1 where f: "send_fold S blake3 F pr claim t ps security = Some (Inr (f, ps1))" "honest_fold (bp_shape params) t f"
    "\<And>N H. within N H ps1 \<Longrightarrow> within N H ps"
    "\<And>N H. within N H ps1 \<Longrightarrow> receive_fold S blake3 F vr claim (replay N H ps) security = Some (Inr (f, replay N H ps1))"
    using fold_round_replay [OF S inst t g(1)] by metis
  have tt: "table_ok t" "bt_shape t = bp_shape params" using t by (simp_all add: honest_table_def)
  have c: "128 \<le> shape_columns (bt_shape t)" "vr_params vr = params"
    using bitz_instanceD [OF inst] tt(2) by metis+
  obtain query ps' where q: "prover_gkr_reduce S blake3 ps1 f t security = Some (Inr (query, ps'))"
    "query_holds (bt_shape t) (packed_bit (bt_packed t)) query"
    "\<And>N H. within N H ps' \<Longrightarrow> within N H ps1"
    "\<And>N H. within N H ps' \<Longrightarrow> verifier_gkr_reduce S blake3 (replay N H ps1) f (bt_shape t) security = Some (Inr (query, replay N H ps'))"
    using reduce_replay [OF S g(2) tt(1) c(1)] f(2) tt(2) by metis
  show ?thesis
  proof (rule that)
    show "prover_fold_and_reduce S blake3 F pr claim t ps security = Some (Inr (query, ps'))"
      by (simp add: prover_fold_and_reduce_def f(1) q(1))
    show "query_holds (bp_shape params) (packed_bit (bt_packed t)) query" using q(2) tt(2) by simp
    show "within N H ps" if "within N H ps'" for N H using f(3) q(3) that by blast
    show "verifier_fold_and_reduce S blake3 F vr claim (replay N H ps) security = Some (Inr (query, replay N H ps'))"
      if "within N H ps'" for N H
      using f(4) [OF q(3) [OF that]] q(4) [OF that] by (simp add: verifier_fold_and_reduce_def c(2) tt(2))
  qed
qed

section \<open>The whole protocol\<close>

text \<open>What the protocol relies on of the commitment scheme: opening a query that holds of the
  committed bits succeeds, and the verifier's opening follows it.\<close>

definition opens :: "('d, 'c, 'e, 's) commit_scheme \<Rightarrow> 'd \<Rightarrow> 'c \<Rightarrow> f128 list \<Rightarrow> shape \<Rightarrow> bool" where
  "opens pcs data commitment packed sh \<longleftrightarrow> pcs_data_root pcs data = pcs_commitment_root pcs commitment \<and>
     pcs_bit_len pcs = 2 ^ log_bits sh \<and>
     (\<forall>query ps. query_holds sh (packed_bit (map f128_to_u128 packed)) query \<longrightarrow>
        (\<exists>ps'. pcs_prove_lin pcs data packed query ps = Some (Inr ps') \<and>
           (\<forall>N H. within N H ps' \<longrightarrow> within N H ps \<and>
              pcs_verify_lin pcs commitment query (replay N H ps) = Some (Inr (replay N H ps')))))"

lemma open_and_finish_replay:
  assumes "pcs_verify_lin pcs commitment query (replay (ps_narg p') (ps_hints p') p) = Some (Inr (replay (ps_narg p') (ps_hints p') p'))"
  shows "open_and_finish pcs commitment query (replay (ps_narg p') (ps_hints p') p) = Some (Inr ())"
  by (simp add: open_and_finish_def assms eof_replay)

lemma bitz_complete_lemma:
  fixes pcs :: "('d, 'c, 'e, 's) commit_scheme"
  assumes S: "spongefish_ok S" and inst: "bitz_instance F params pr vr claim"
    and t: "bp_table params packed = Inr t" "unat (target claim) = claim_value F claim (table_bit t)"
    and g: "grinds S blake3 (column_grinding (pcs_security_level pcs) (bp_shape params))" "grinds S blake3 (grinding_bits (pcs_security_level pcs) 3)"
    and o: "opens pcs data commitment packed (bp_shape params)"
  shows "\<exists>ps'. bitz_prove S blake3 F pr claim pcs data packed ps = Some (Inr ps') \<and>
    bitz_verify S blake3 F vr claim pcs commitment (replay (ps_narg ps') (ps_hints ps') ps) = Some (Inr ())"
proof -
  let ?sh = "bp_shape params"
  have i: "shape_ok ?sh" "pr_params pr = params" "vr_params vr = params" using bitz_instanceD [OF inst] by metis+
  have tt: "table_ok t" "bt_shape t = ?sh" "bt_packed t = map f128_to_u128 packed"
    using bit_table_new_ok [OF i(1)] t(1) by (auto simp: bp_table_def)
  have honest: "honest_table F ?sh claim t" using tt t(2) by (simp add: honest_table_def)
  let ?stmt = "claim_statement F (pcs_data_root pcs data) params (pcs_encode pcs) claim"
  let ?ps0 = "absorb_all (ps_public_message S) ?stmt ps"
  obtain query ps1 where q: "(prover_fold_and_reduce S blake3 F pr claim t ?ps0 (pcs_security_level pcs) :: ('e prove_error + opening_query \<times> 's prover_state) option) = Some (Inr (query, ps1))"
    "query_holds ?sh (packed_bit (bt_packed t)) query"
    "\<And>N H. within N H ps1 \<Longrightarrow> within N H ?ps0"
    "\<And>N H. within N H ps1 \<Longrightarrow> (verifier_fold_and_reduce S blake3 F vr claim (replay N H ?ps0) (pcs_security_level pcs) :: ('e verify_error + opening_query \<times> 's verifier_state) option) = Some (Inr (query, replay N H ps1))"
    by (rule fold_and_reduce_replay [OF S inst honest g]) blast
  obtain ps' where p: "pcs_prove_lin pcs data packed query ps1 = Some (Inr ps')"
    "\<And>N H. within N H ps' \<Longrightarrow> within N H ps1 \<and> pcs_verify_lin pcs commitment query (replay N H ps1) = Some (Inr (replay N H ps'))"
    using o q(2) tt(3) unfolding opens_def by metis
  let ?N = "ps_narg ps'" and ?H = "ps_hints ps'"
  have w: "within ?N ?H ps1" "pcs_verify_lin pcs commitment query (replay ?N ?H ps1) = Some (Inr (replay ?N ?H ps'))"
    using p(2) [OF within_self] by blast+
  have "bitz_prove S blake3 F pr claim pcs data packed ps = Some (Inr ps')"
    using o q(1) p(1) i(2) t(1) by (simp add: bitz_prove_def opens_def)
  moreover have "bitz_verify S blake3 F vr claim pcs commitment (replay ?N ?H ps) = Some (Inr ())"
    using o q(4) [OF w(1)] open_and_finish_replay [OF w(2)] i(3) unfolding bitz_verify_def opens_def
    by (simp add: absorb_all_replay)
  ultimately show ?thesis by blast
qed

lemma query_holds_cong:
  assumes sh: "shape_ok sh" and b: "\<And>i. i < 2 ^ log_bits sh \<Longrightarrow> b i = b' i"
  shows "query_holds sh b query = query_holds sh b' query"
proof (cases query)
  case (Mle point t)
  have "bit_weight (eq_table point) b = bit_weight (eq_table point) b'" if "length point = log_bits sh"
    unfolding bit_weight_def using b that by (intro sum.cong) simp_all
  then show ?thesis by (auto simp: query_holds_def Mle)
next
  case (InnerProduct c)
  let ?r = "length (row_weights c)" and ?m = "length (column_weights c)"
  have "(\<Sum>j<?m. \<Sum>i<?r. of_bool (b (j * ?r + i)) * (row_weights c ! i * column_weights c ! j))
      = (\<Sum>j<?m. \<Sum>i<?r. of_bool (b' (j * ?r + i)) * (row_weights c ! i * column_weights c ! j))"
    if l: "?r = shape_rows sh" "?m = shape_columns sh"
  proof (intro sum.cong refl)
    fix j i assume "j \<in> {..<?m}" "i \<in> {..<?r}"
    then have ij: "j < ?m" "i < ?r" by simp_all
    then have "(j + 1) * ?r \<le> ?m * ?r" by (intro mult_le_mono1) simp
    then have "j * ?r + i < 2 ^ log_bits sh"
      using ij(2) shape_ok_bounds(5) [OF sh] l by (simp add: mult.commute)
    then show "of_bool (b (j * ?r + i)) * (row_weights c ! i * column_weights c ! j)
        = of_bool (b' (j * ?r + i)) * (row_weights c ! i * column_weights c ! j)" by (simp add: b)
  qed
  then show ?thesis by (auto simp: query_holds_def InnerProduct)
qed

text \<open>The packed virtual bits are \<open>M (1 || f)\<close> for the packed committed bits \<open>f\<close>.\<close>

definition virtual_witness :: "virtual_map \<Rightarrow> (nat \<Rightarrow> nat \<Rightarrow> bool) \<Rightarrow> shape \<Rightarrow> f128 list \<Rightarrow> f128 list \<Rightarrow> bool" where
  "virtual_witness m M sh committed_bits virtual_packed \<longleftrightarrow>
     (\<forall>i<2 ^ log_bits sh. packed_bit (map f128_to_u128 virtual_packed) i
        = virtual_bits m M (packed_bit (map f128_to_u128 committed_bits)) i)"

lemma query_of_fold_shape:
  assumes "shape_ok sh" "query_holds sh b query"
  shows "\<exists>wt. query_weights sh query = Some (Inr wt)"
proof (cases query)
  case (InnerProduct c)
  have "0 < shape_rows sh" by (simp add: shape_rows_def)
  with assms(2) InnerProduct show ?thesis by (auto simp: query_holds_def query_weights_def flatten_def)
qed (use assms(2) in \<open>auto simp: query_holds_def query_weights_def\<close>)

lemma bitz_virtual_complete_lemma:
  fixes pcs :: "('d, 'c, 'e, 's) commit_scheme"
  assumes S: "spongefish_ok S" and inst: "bitz_instance F params pr vr claim"
    and st: "virtual_statement_new params committed m claim = Inr st" and M: "virtual_map_ok m M" and csh: "shape_ok committed"
    and w: "vp_table (st_params st) committed_bits = Inr ct" "bp_table params virtual_packed = Inr t"
      "virtual_witness m M (bp_shape params) committed_bits virtual_packed"
      "unat (target claim) = claim_value F claim (table_bit t)"
    and g: "grinds S blake3 (column_grinding (pcs_security_level pcs) (bp_shape params))" "grinds S blake3 (grinding_bits (pcs_security_level pcs) 3)"
    and o: "opens pcs data commitment committed_bits \<lparr>log_rows = log_bits committed, log_columns = 0\<rparr>"
  shows "\<exists>ps'. bitz_prove_virtual S blake3 F pr st pcs data committed_bits virtual_packed ps = Some (Inr ps') \<and>
    bitz_verify_virtual S blake3 F vr st pcs commitment (replay (ps_narg ps') (ps_hints ps') ps) = Some (Inr ())"
proof -
  let ?sh = "bp_shape params" and ?sec = "pcs_security_level pcs"
  have i: "shape_ok ?sh" "pr_params pr = params" "vr_params vr = params" using bitz_instanceD [OF inst] by metis+
  have st': "vp_claim (st_params st) = params" "vp_committed (st_params st) = committed" "st_claim st = claim"
    using st by (auto simp: virtual_statement_new_def virtual_params_new_def Let_def split: sum.splits if_splits)
  have tt: "table_ok t" "bt_shape t = ?sh" "bt_packed t = map f128_to_u128 virtual_packed"
    using bit_table_new_ok [OF i(1)] w(2) by (auto simp: bp_table_def)
  have honest: "honest_table F ?sh claim t" using tt w(4) by (simp add: honest_table_def)
  let ?stmt = "virtual_claim_statement F (pcs_data_root pcs data) st (pcs_encode pcs)"
  let ?ps0 = "absorb_all (ps_public_message S) ?stmt ps"
  obtain query ps1 where q: "(prover_fold_and_reduce S blake3 F pr claim t ?ps0 ?sec :: ('e prove_error + opening_query \<times> 's prover_state) option) = Some (Inr (query, ps1))"
    "query_holds ?sh (packed_bit (bt_packed t)) query"
    "\<And>N H. within N H ps1 \<Longrightarrow> within N H ?ps0"
    "\<And>N H. within N H ps1 \<Longrightarrow> (verifier_fold_and_reduce S blake3 F vr claim (replay N H ?ps0) ?sec :: ('e verify_error + opening_query \<times> 's verifier_state) option) = Some (Inr (query, replay N H ps1))"
    by (rule fold_and_reduce_replay [OF S inst honest g]) blast
  obtain wt where "query_weights ?sh query = Some (Inr wt)" using query_of_fold_shape [OF i(1) q(2)] by blast
  from transpose_query_holds [OF M i(1) csh st this]
  obtain c where c: "transpose_query st query = Some (Inr (InnerProduct c))"
    "\<And>f. query_holds \<lparr>log_rows = log_bits committed, log_columns = 0\<rparr> f (InnerProduct c) \<longleftrightarrow> query_holds ?sh (virtual_bits m M f) query"
    by blast
  have "query_holds ?sh (virtual_bits m M (packed_bit (map f128_to_u128 committed_bits))) query"
    using q(2) query_holds_cong [OF i(1), of "packed_bit (bt_packed t)"] w(3) by (simp add: virtual_witness_def tt(3))
  then have holds: "query_holds \<lparr>log_rows = log_bits committed, log_columns = 0\<rparr> (packed_bit (map f128_to_u128 committed_bits)) (InnerProduct c)"
    by (simp only: c(2))
  obtain ps' where p: "pcs_prove_lin pcs data committed_bits (InnerProduct c) ps1 = Some (Inr ps')"
    "\<And>N H. within N H ps' \<Longrightarrow> within N H ps1 \<and> pcs_verify_lin pcs commitment (InnerProduct c) (replay N H ps1) = Some (Inr (replay N H ps'))"
    using o holds unfolding opens_def by metis
  let ?N = "ps_narg ps'" and ?H = "ps_hints ps'"
  have wi: "within ?N ?H ps1" "pcs_verify_lin pcs commitment (InnerProduct c) (replay ?N ?H ps1) = Some (Inr (replay ?N ?H ps'))"
    using p(2) [OF within_self] by blast+
  have len: "pcs_bit_len pcs = 2 ^ log_bits committed" using o by (simp add: opens_def log_bits_def)
  have "bitz_prove_virtual S blake3 F pr st pcs data committed_bits virtual_packed ps = Some (Inr ps')"
    using q(1) p(1) i(2) w(1,2) c(1) st' len by (simp add: bitz_prove_virtual_def Let_def)
  moreover have "bitz_verify_virtual S blake3 F vr st pcs commitment (replay ?N ?H ps) = Some (Inr ())"
    using o q(4) [OF wi(1)] open_and_finish_replay [OF wi(2)] i(3) c(1) st' len unfolding bitz_verify_virtual_def opens_def
    by (simp add: absorb_all_replay Let_def)
  ultimately show ?thesis by blast
qed

section \<open>What acceptance means, and that the verifier always answers\<close>

lemma receive_folds_length: "receive_folds S n vs = Some (folds, vs') \<Longrightarrow> length folds = n"
  by (induction n arbitrary: vs folds) (auto split: option.splits)

lemma verify_rounds_length:
  "verify_rounds S blake3 security zs st = Some st' \<Longrightarrow> length (vf_next st') = length (vf_next st) + length zs"
  by (induction zs arbitrary: st) (auto simp: verify_round_def Let_def case_prod_unfold split: option.splits)

lemma verify_layer_length:
  "verify_layer S blake3 security claim point vs = Some ((pt, c), vs') \<Longrightarrow> length pt = Suc (length point)"
  by (auto simp: verify_layer_def Let_def case_prod_unfold split: option.splits if_splits dest!: verify_rounds_length)

lemma verify_layers_length:
  "verify_layers S blake3 security n pc vs = Some ((pt, c), vs') \<Longrightarrow> length pt = length (fst pc) + n"
proof (induction n arbitrary: pc vs)
  case (Suc n)
  then show ?case by (auto split: option.splits dest!: verify_layer_length Suc.IH)
qed auto

lemma gpgkr_verify_length:
  "gpgkr_verify S blake3 security claim point n vs = Some ((pt, c), vs') \<Longrightarrow> length pt = length point + n"
  by (auto simp: gpgkr_verify_def dest!: verify_layers_length)

lemma list_ex_above: "list_ex (\<lambda>f. b < f) folds \<longleftrightarrow> \<not> (\<forall>f\<in>set folds. f \<le> (b :: u128))"
  by (auto simp: list_ex_iff not_le)

text \<open>The fold round of the verifier in one equation: no branch panics.\<close>

lemma receive_fold_eq:
  assumes inst: "bitz_instance F params pr vr claim" and gen: "gen = bp_generator params"
  shows "receive_fold S blake3 F vr claim vs security =
    (case receive_folds S (shape_columns (bp_shape params)) vs of
       None \<Rightarrow> Some (Inl MalformedProof)
     | Some (folds, vs1) \<Rightarrow>
         if \<not> (\<forall>f\<in>set folds. f \<le> vr_fold_bound vr) then Some (Inl FoldOutOfRange)
         else if reconstruct F claim folds \<noteq> Some (Inr (target claim)) then Some (Inl TargetMismatch)
         else case vs_grind S blake3 COLUMNS_LABEL (column_grinding security (bp_shape params)) vs1 of
             None \<Rightarrow> Some (Inl MalformedProof)
           | Some vs2 \<Rightarrow>
               let (zeta, vs3) = draw_challenges (vs_verifier_message S) (log_columns (bp_shape params)) vs2;
                   images = map (\<lambda>f. gen ^ unat f) folds
               in Some (Inr (\<lparr>fs_folds = folds, fs_images = \<lparr>evaluations = images\<rparr>,
                   fs_row_images = map (\<lambda>e. gen ^ unat e) (row_exponents F claim), fs_zeta = zeta,
                   fs_e0 = mle_sum images zeta\<rparr>, vs3)))"
proof -
  let ?sh = "bp_shape params"
  obtain win win' where i: "claim_field_ok F" "shape_ok ?sh" "claim_ok F ?sh claim" "vr_params vr = params" "fbp_new gen win' = Some (vr_comb vr)"
    using bitz_instanceD [OF inst] unfolding gen by metis
  show ?thesis
  proof (cases "receive_folds S (shape_columns ?sh) vs")
    case (Some fv)
    obtain folds vs1 where fv: "fv = (folds, vs1)" by fastforce
    have len: "length folds = shape_columns ?sh" using receive_folds_length Some fv by blast
    obtain v where v: "reconstruct F claim folds = Some (Inr v)"
      using reconstruct_value [OF i(1), of folds claim] len i(3) by (auto simp: claim_ok_def)
    let ?images = "map (\<lambda>f. gen ^ unat f) folds" and ?rows = "map (\<lambda>e. gen ^ unat e) (row_exponents F claim)"
    have rows: "length ?rows = shape_rows ?sh" using claim_okD(1) [OF i(1,3)] by simp
    have new: "fold_new ?sh folds ?images ?rows zeta = Some (Inr \<lparr>fs_folds = folds, fs_images = \<lparr>evaluations = ?images\<rparr>,
        fs_row_images = ?rows, fs_zeta = zeta, fs_e0 = mle_sum ?images zeta\<rparr>)" if "length zeta = log_columns ?sh" for zeta
    proof -
      have n: "mle_num_vars \<lparr>evaluations = ?images\<rparr> = log_columns ?sh"
        using len by (intro mle_num_vars_power2) (simp add: shape_columns_def)
      have c: "log_columns ?sh < 64" using shape_ok_bounds(3) [OF i(2)] by simp
      have "mle_evaluate \<lparr>evaluations = ?images\<rparr> zeta = Some (Inr (mle_sum ?images zeta))"
        using len that n by (simp add: mle_evaluate_def evaluate_exact_mle_sum shape_columns_def)
      with rows len c show ?thesis by (simp add: fold_new_def mle_from_evaluations_def shape_columns_def)
    qed
    note new = new [OF length_draw_challenges [of "vs_verifier_message S" "log_columns ?sh"]]
    show ?thesis
      using v unfolding receive_fold_def i(4) Let_def Some fv column_grinding_def [symmetric] list_ex_above
        column_images_eq [OF i(5)] row_images_eq [OF i(5)]
      by (auto simp: new case_prod_unfold split: option.split)
  qed (simp add: receive_fold_def i(4) Let_def)
qed

lemma verifier_gkr_reduce_total: "verifier_gkr_reduce S blake3 vs f sh security \<noteq> None"
proof -
  have "reduced_query sh rows point claim \<noteq> None" if "ilog2 (max (length rows) 1) \<le> length point" for rows point claim
    using that by (auto simp: reduced_query_def Let_def split: sum.split)
  then show ?thesis
    by (auto simp: verifier_gkr_reduce_def Let_def split: option.splits dest!: gpgkr_verify_length)
qed

lemma receive_fold_total:
  "bitz_instance F params pr vr claim \<Longrightarrow> receive_fold S blake3 F vr claim vs security \<noteq> None"
  by (simp add: receive_fold_eq Let_def case_prod_unfold split: option.split)

lemma verifier_fold_and_reduce_total:
  "bitz_instance F params pr vr claim \<Longrightarrow> verifier_fold_and_reduce S blake3 F vr claim vs security \<noteq> None"
  using receive_fold_total [of F params pr vr claim S blake3 vs security] verifier_gkr_reduce_total [of S blake3]
  by (auto simp: verifier_fold_and_reduce_def split: option.splits sum.splits) (metis option.distinct(1))+

text \<open>The conditions under which the verifier accepts, read off the protocol: the reader sees one list
  of checks instead of the nest of early returns.\<close>

definition accepts ::
  "'s spongefish \<Rightarrow> (u8 list \<Rightarrow> u8 list) \<Rightarrow> claim_field \<Rightarrow> bitz_params \<Rightarrow> u128 \<Rightarrow> u128 linear_claim
   \<Rightarrow> ('d, 'c, 'e, 's) commit_scheme \<Rightarrow> 'c \<Rightarrow> 's verifier_state \<Rightarrow> bool" where
  "accepts S blake3 F params bound claim pcs commitment vs \<longleftrightarrow>
     pcs_bit_len pcs = 2 ^ log_bits (bp_shape params) \<and>
     (\<exists>folds vs1 vs2 zeta vs3 point c vs4 query vs5.
        receive_folds S (shape_columns (bp_shape params))
          (absorb_all (vs_public_message S)
            (claim_statement F (pcs_commitment_root pcs commitment) params (pcs_encode pcs) claim) vs) = Some (folds, vs1) \<and>
        (\<forall>eta\<in>set folds. eta \<le> bound) \<and>
        reconstruct F claim folds = Some (Inr (target claim)) \<and>
        vs_grind S blake3 COLUMNS_LABEL (column_grinding (pcs_security_level pcs) (bp_shape params)) vs1 = Some vs2 \<and>
        draw_challenges (vs_verifier_message S) (log_columns (bp_shape params)) vs2 = (zeta, vs3) \<and>
        gpgkr_verify S blake3 (pcs_security_level pcs) (mle_sum (map (\<lambda>f. bp_generator params ^ unat f) folds) zeta) zeta
          (log_rows (bp_shape params)) vs3 = Some ((point, c), vs4) \<and>
        reduced_query (bp_shape params) (map (\<lambda>e. bp_generator params ^ unat e) (row_exponents F claim)) point c = Some (Inr query) \<and>
        pcs_verify_lin pcs commitment query vs4 = Some (Inr vs5) \<and>
        vs_narg vs5 = [] \<and> vs_hints vs5 = [])"

lemma open_and_finish_iff:
  "open_and_finish pcs commitment query vs = Some (Inr ()) \<longleftrightarrow>
     (\<exists>vs'. pcs_verify_lin pcs commitment query vs = Some (Inr vs') \<and> vs_narg vs' = [] \<and> vs_hints vs' = [])"
  by (auto simp: open_and_finish_def vs_check_eof_def split: option.splits sum.splits if_splits)

lemma map_sum_Inr_iff:
  "map_option (\<lambda>r. case r of Inl e \<Rightarrow> Inl (f e) | Inr q \<Rightarrow> Inr (q, t)) x = Some (Inr (q', t')) \<longleftrightarrow> x = Some (Inr q') \<and> t = t'"
proof (cases x)
  case (Some y)
  then show ?thesis by (cases y) auto
qed simp

lemma case_sum_Inr_iff: "(case z of Inl e \<Rightarrow> Inl (f e) | Inr q \<Rightarrow> Inr (q, t)) = Inr (q', t') \<longleftrightarrow> z = Inr q' \<and> t = t'"
  by (cases z) auto

lemma case_Inr_iff:
  "(case x of None \<Rightarrow> None | Some (Inl e) \<Rightarrow> Some (Inl (f e)) | Some (Inr r) \<Rightarrow> Some (Inr r)) = Some (Inr r') \<longleftrightarrow> x = Some (Inr r')"
proof (cases x)
  case (Some y)
  then show ?thesis by (cases y) auto
qed simp

lemma verifier_fold_and_reduce_iff:
  assumes inst: "bitz_instance F params pr vr claim"
  shows "verifier_fold_and_reduce S blake3 F vr claim vs security = Some (Inr (query, vs4)) \<longleftrightarrow>
     (\<exists>folds vs1 vs2 zeta vs3 point c.
        receive_folds S (shape_columns (bp_shape params)) vs = Some (folds, vs1) \<and>
        (\<forall>eta\<in>set folds. eta \<le> vr_fold_bound vr) \<and>
        reconstruct F claim folds = Some (Inr (target claim)) \<and>
        vs_grind S blake3 COLUMNS_LABEL (column_grinding security (bp_shape params)) vs1 = Some vs2 \<and>
        draw_challenges (vs_verifier_message S) (log_columns (bp_shape params)) vs2 = (zeta, vs3) \<and>
        gpgkr_verify S blake3 security (mle_sum (map (\<lambda>f. bp_generator params ^ unat f) folds) zeta) zeta
          (log_rows (bp_shape params)) vs3 = Some ((point, c), vs4) \<and>
        reduced_query (bp_shape params) (map (\<lambda>e. bp_generator params ^ unat e) (row_exponents F claim)) point c = Some (Inr query))"
proof -
  have vr: "vr_params vr = params" "claim_field_ok F" "claim_ok F (bp_shape params) claim" using bitz_instanceD [OF inst] by metis+
  have r1: "ilog2 (max (length (row_exponents F claim)) (Suc 0)) = log_rows (bp_shape params)"
    using ilog2_power [of "log_rows (bp_shape params)"] claim_okD(1) [OF vr(2,3)] by (simp add: shape_rows_def)
  show ?thesis
    unfolding verifier_fold_and_reduce_def receive_fold_eq [OF inst refl] vr(1)
    by (auto simp: verifier_gkr_reduce_def r1 Let_def map_sum_Inr_iff case_Inr_iff case_sum_Inr_iff split: option.splits prod.splits if_splits)
qed

section \<open>Properties\<close>

text \<open>C1: Completeness of the proof of a claim on committed bits.  For parameters that passed the gates,
  a claim that is true of the table, a sponge that satisfies its contract, grinding that succeeds and a
  commitment scheme that opens true queries, \<open>BitZProver::prove\<close> returns and \<open>BitZVerifier::verify\<close>
  accepts the transcript it leaves, spending both streams.\<close>

theorem bitz_complete:
  fixes pcs :: "('d, 'c, 'e, 's) commit_scheme"
  assumes "spongefish_ok S" "bitz_instance F params pr vr claim" "bp_table params packed = Inr t"
    "unat (target claim) = claim_value F claim (table_bit t)"
    "grinds S blake3 (column_grinding (pcs_security_level pcs) (bp_shape params))"
    "grinds S blake3 (grinding_bits (pcs_security_level pcs) 3)"
    "opens pcs data commitment packed (bp_shape params)"
  shows "\<exists>ps'. bitz_prove S blake3 F pr claim pcs data packed ps = Some (Inr ps') \<and>
    bitz_verify S blake3 F vr claim pcs commitment (replay (ps_narg ps') (ps_hints ps') ps) = Some (Inr ())"
  using assms by (rule bitz_complete_lemma)

text \<open>A scheme whose commitment is the bits themselves.\<close>

definition plain_scheme :: "shape \<Rightarrow> (unit, u128 list, unit, 's) commit_scheme" where
  "plain_scheme sh = \<lparr>pcs_bit_len = 2 ^ log_bits sh, pcs_security_level = Bits100, pcs_encode = [],
     pcs_data_root = \<lambda>_. [], pcs_commitment_root = \<lambda>_. [], pcs_prove_lin = \<lambda>_ _ _ ps. Some (Inr ps),
     pcs_verify_lin = \<lambda>c q vs. if query_holds sh (packed_bit c) q then Some (Inr vs) else Some (Inl ())\<rparr>"

lemma plain_scheme_opens: "opens (plain_scheme sh) () (map f128_to_u128 packed) packed sh"
  by (simp add: opens_def plain_scheme_def)

definition sample_params :: bitz_params where
  "sample_params = \<lparr>bp_shape = sample_shape, bp_generator = f128_GENERATOR\<rparr>"

definition zero_table :: bit_table where
  "zero_table = \<lparr>bt_shape = sample_shape, bt_packed = replicate 8192 0\<rparr>"

lemma zero_table_facts:
  "bp_table sample_params (replicate 8192 0) = Inr zero_table"
  "unat (target sample_claim) = claim_value (fq_field 7) sample_claim (table_bit zero_table)"
proof -
  have "f128_to_u128 0 = 0" by (simp add: zero_f128_def f128_ZERO_def f128_to_u128_def del: f128_ops)
  then show "bp_table sample_params (replicate 8192 0) = Inr zero_table"
    by (simp add: bp_table_def sample_params_def bit_table_new_def zero_table_def sample_shape_def log_bits_def WORD_BITS_def)
  have b: "table_bit zero_table j i = False" if "j < 8192" "i < 128" for i j
  proof -
    have "(j * 128 + i) div 128 = j" using that by simp
    then show ?thesis using that
      by (simp add: table_bit_def zero_table_def packed_bit_def sample_shape_def shape_rows_def)
  qed
  have "(\<Sum>j<length (column_weights sample_claim). \<Sum>i<length (row_weights sample_claim).
        if table_bit zero_table j i then unat (row_weights sample_claim ! i) * unat (column_weights sample_claim ! j) else 0) = 0"
    by (intro sum.neutral ballI) (simp add: sample_claim_def b)
  then show "unat (target sample_claim) = claim_value (fq_field 7) sample_claim (table_bit zero_table)"
    by (simp add: claim_value_def) (simp add: sample_claim_def)
qed

lemma sample_instance:
  obtains pr vr where "bitz_instance (fq_field 7) sample_params pr vr sample_claim"
proof -
  obtain comb where comb: "fbp_new f128_GENERATOR 8 = Some comb" by (simp add: fbp_new_def Let_def)
  have bound: "fold_bound (fq_field 7) sample_params = Some 768"
    using fq_META_7
    by (simp add: fold_bound_def fq_field_def fq_max_value_def fq_lift_def checked_mul_def shape_rows_def sample_params_def sample_shape_def)
  have "\<exists>win. bitz_prover_new sample_params win = Some \<lparr>pr_params = sample_params, pr_comb = comb\<rparr>"
    by (rule exI [of _ 8]) (simp add: bitz_prover_new_def comb sample_params_def)
  moreover have "\<exists>win. bitz_verifier_new (fq_field 7) sample_params win
      = Some \<lparr>vr_params = sample_params, vr_comb = comb, vr_fold_bound = 768\<rparr>"
    by (rule exI [of _ 8]) (use bound comb in \<open>simp add: bitz_verifier_new_def sample_params_def\<close>)
  ultimately have "bitz_instance (fq_field 7) sample_params \<lparr>pr_params = sample_params, pr_comb = comb\<rparr>
      \<lparr>vr_params = sample_params, vr_comb = comb, vr_fold_bound = 768\<rparr> sample_claim"
    using sample_ok by (simp add: bitz_instance_def sample_params_def)
  then show ?thesis by (rule that)
qed

lemma sample_grinds: "grinds S blake3 (column_grinding Bits100 sample_shape)" "grinds S blake3 (grinding_bits Bits100 3)"
proof -
  have "grinding_bits Bits100 13 = 0" "grinding_bits Bits100 3 = 0" by code_simp+
  then show "grinds S blake3 (column_grinding Bits100 sample_shape)" "grinds S blake3 (grinding_bits Bits100 3)"
    by (simp_all add: column_grinding_def sample_shape_def grinds_zero)
qed

theorem bitz_complete_witness:
  "\<exists>pr vr ps'. bitz_prove toy_sponge (\<lambda>_. []) (fq_field 7) pr sample_claim (plain_scheme sample_shape) () (replicate 8192 0)
      (build_prover toy_sponge [] []) = Some (Inr ps') \<and>
    bitz_verify toy_sponge (\<lambda>_. []) (fq_field 7) vr sample_claim (plain_scheme sample_shape) (replicate 8192 0)
      (build_verifier toy_sponge [] [] (ps_finish ps')) = Some (Inr ())"
proof -
  obtain pr vr where inst: "bitz_instance (fq_field 7) sample_params pr vr sample_claim" by (rule sample_instance)
  have sec: "pcs_security_level (plain_scheme sample_shape) = Bits100" "bp_shape sample_params = sample_shape"
    by (simp_all add: plain_scheme_def sample_params_def)
  have o: "opens (plain_scheme sample_shape) () (replicate 8192 0) (replicate 8192 0) sample_shape"
    using plain_scheme_opens [of sample_shape "replicate 8192 0"]
    by (simp add: zero_f128_def f128_ZERO_def f128_to_u128_def del: f128_ops)
  show ?thesis
    unfolding build_replay
    by (rule exI [of _ pr], rule exI [of _ vr], rule bitz_complete [where pcs = "plain_scheme sample_shape", OF toy_sponge_ok inst zero_table_facts, unfolded sec, OF sample_grinds o])
qed

text \<open>C24: Completeness of the proof of a claim on virtual bits \<open>h = M (1 || f)\<close>: under the same
  conditions, for a map that computes the transpose of \<open>M\<close> and a scheme that opens true queries on
  the committed bits \<open>f\<close>, \<open>prove_virtual\<close> returns and \<open>verify_virtual\<close> accepts.\<close>

theorem bitz_virtual_complete:
  fixes pcs :: "('d, 'c, 'e, 's) commit_scheme"
  assumes "spongefish_ok S" "bitz_instance F params pr vr claim"
    "virtual_statement_new params committed m claim = Inr st" "virtual_map_ok m M" "shape_ok committed"
    "vp_table (st_params st) committed_bits = Inr ct" "bp_table params virtual_packed = Inr t"
    "virtual_witness m M (bp_shape params) committed_bits virtual_packed"
    "unat (target claim) = claim_value F claim (table_bit t)"
    "grinds S blake3 (column_grinding (pcs_security_level pcs) (bp_shape params))"
    "grinds S blake3 (grinding_bits (pcs_security_level pcs) 3)"
    "opens pcs data commitment committed_bits \<lparr>log_rows = log_bits committed, log_columns = 0\<rparr>"
  shows "\<exists>ps'. bitz_prove_virtual S blake3 F pr st pcs data committed_bits virtual_packed ps = Some (Inr ps') \<and>
    bitz_verify_virtual S blake3 F vr st pcs commitment (replay (ps_narg ps') (ps_hints ps') ps) = Some (Inr ())"
  using assms by (rule bitz_virtual_complete_lemma)

text \<open>The map \<open>h = f 0\<close>.\<close>

definition copy_map :: virtual_map where
  "copy_map = \<lparr>vm_transpose = \<lambda>w. if w = [] then Inl WeightCountMismatch
      else Inr \<lparr>tw_weights = [w ! 0], tw_constant = 0\<rparr>, vm_digest = [], vm_h_len = 1, vm_f_len = 2\<rparr>"

theorem bitz_virtual_complete_witness:
  "\<exists>pr vr st ps'. bitz_prove_virtual toy_sponge (\<lambda>_. []) (fq_field 7) pr st (plain_scheme \<lparr>log_rows = 20, log_columns = 0\<rparr>) ()
      (replicate 8192 0) (replicate 8192 0) (build_prover toy_sponge [] []) = Some (Inr ps') \<and>
    bitz_verify_virtual toy_sponge (\<lambda>_. []) (fq_field 7) vr st (plain_scheme \<lparr>log_rows = 20, log_columns = 0\<rparr>) (replicate 8192 0)
      (build_verifier toy_sponge [] [] (ps_finish ps')) = Some (Inr ())"
proof -
  let ?M = "\<lambda>i j. i = 0 \<and> j = (1 :: nat)" and ?sh = "\<lparr>log_rows = 20, log_columns = 0\<rparr> :: shape"
  obtain pr vr where inst: "bitz_instance (fq_field 7) sample_params pr vr sample_claim" by (rule sample_instance)
  have z: "map f128_to_u128 (replicate 8192 0) = replicate 8192 0"
    by (simp add: zero_f128_def f128_ZERO_def f128_to_u128_def del: f128_ops)
  obtain st where st: "virtual_statement_new sample_params sample_shape copy_map sample_claim = Inr st"
    using sample_ok(3) by (simp add: virtual_statement_new_def virtual_params_new_def copy_map_def sample_params_def
        sample_shape_def log_bits_def claim_ok_def Let_def)
  then have st': "vp_committed (st_params st) = sample_shape"
    by (auto simp: virtual_statement_new_def virtual_params_new_def Let_def split: sum.splits if_splits)
  have M: "virtual_map_ok copy_map ?M"
    by (auto simp: virtual_map_ok_def copy_map_def simp del: sum_of_bool_mult_eq)
  have ct: "vp_table (st_params st) (replicate 8192 0) = Inr zero_table"
    by (simp only: vp_table_def st' z) (simp add: bit_table_new_def zero_table_def sample_shape_def log_bits_def WORD_BITS_def)
  have b: "packed_bit (replicate 8192 0) i = False" if "i < 2 ^ 20" for i
  proof -
    have "i div 128 < 8192" using that by (intro less_mult_imp_div_less) simp
    then show ?thesis by (simp add: packed_bit_def)
  qed
  have "virtual_bits copy_map ?M (packed_bit (replicate 8192 0)) i = False" for i
  proof -
    have "{j. j < 2 \<and> ?M i j \<and> (case j of 0 \<Rightarrow> True | Suc k \<Rightarrow> packed_bit (replicate 8192 0) k)} = {}"
      using b [of 0] by (auto split: nat.splits)
    then show ?thesis by (simp only: virtual_bits_def copy_map_def virtual_map.simps card.empty) simp
  qed
  then have w: "virtual_witness copy_map ?M sample_shape (replicate 8192 0) (replicate 8192 0)"
    unfolding virtual_witness_def z using b by (simp add: sample_shape_def log_bits_def)
  have sec: "pcs_security_level (plain_scheme ?sh) = Bits100" "bp_shape sample_params = sample_shape"
    "\<lparr>log_rows = log_bits sample_shape, log_columns = 0\<rparr> = ?sh"
    by (simp_all add: plain_scheme_def sample_params_def sample_shape_def log_bits_def)
  have o: "opens (plain_scheme ?sh) () (replicate 8192 0) (replicate 8192 0) ?sh"
    using plain_scheme_opens [of ?sh "replicate 8192 0"] by (simp only: z)
  show ?thesis
    unfolding build_replay
    by (rule exI [of _ pr], rule exI [of _ vr], rule exI [of _ st],
        rule bitz_virtual_complete [where pcs = "plain_scheme ?sh", OF toy_sponge_ok inst st M sample_ok(2) ct zero_table_facts(1), unfolded sec, OF w zero_table_facts(2) sample_grinds o])
qed

text \<open>C2: What acceptance means.  The verifier accepts exactly when the specification \<open>accepts\<close> holds:
  the parameters match, every column fold could be read and is within the bound, the folds reconstruct
  the target, the grinding was done, the grand product of the folds' images was verified down to a query,
  the opening of that query was verified and nothing is left of the two streams.\<close>

theorem bitz_verify_accepts:
  fixes pcs :: "('d, 'c, 'e, 's) commit_scheme"
  assumes "bitz_instance F params pr vr claim"
  shows "bitz_verify S blake3 F vr claim pcs commitment vs = Some (Inr ())
    \<longleftrightarrow> accepts S blake3 F params (vr_fold_bound vr) claim pcs commitment vs"
proof -
  let ?sec = "pcs_security_level pcs"
  let ?vs0 = "absorb_all (vs_public_message S) (claim_statement F (pcs_commitment_root pcs commitment) params (pcs_encode pcs) claim) vs"
  have vr: "vr_params vr = params" using bitz_instanceD [OF assms] by metis
  have "bitz_verify S blake3 F vr claim pcs commitment vs = Some (Inr ()) \<longleftrightarrow>
      pcs_bit_len pcs = 2 ^ log_bits (bp_shape params) \<and>
      (\<exists>query vs4. (verifier_fold_and_reduce S blake3 F vr claim ?vs0 ?sec :: ('e verify_error + opening_query \<times> 's verifier_state) option)
          = Some (Inr (query, vs4)) \<and> open_and_finish pcs commitment query vs4 = Some (Inr ()))"
    by (auto simp: bitz_verify_def vr Let_def split: option.splits sum.splits)
  also have "\<dots> \<longleftrightarrow> accepts S blake3 F params (vr_fold_bound vr) claim pcs commitment vs"
    unfolding verifier_fold_and_reduce_iff [OF assms] open_and_finish_iff accepts_def by blast
  finally show ?thesis .
qed

theorem bitz_verify_accepts_witness:
  "\<exists>vr. bitz_verify toy_sponge (\<lambda>_. []) (fq_field 7) vr sample_claim (plain_scheme sample_shape) [] \<lparr>vs_inner = [], vs_narg = [], vs_hints = []\<rparr>
    \<noteq> Some (Inr ())"
proof -
  let ?vs = "\<lparr>vs_inner = [], vs_narg = [], vs_hints = []\<rparr>"
  obtain pr vr where inst: "bitz_instance (fq_field 7) sample_params pr vr sample_claim" by (rule sample_instance)
  have "vs_narg (absorb_all (vs_public_message toy_sponge) ms vs) = vs_narg vs" for ms vs
    unfolding absorb_all_def by (induction ms arbitrary: vs) (simp_all add: vs_public_message_def)
  moreover have "receive_folds toy_sponge n vs = None" if "vs_narg vs = []" "0 < n" for n vs
    using that by (cases n) (simp_all add: vs_prover_message_def toy_sponge_def)
  ultimately have "\<not> accepts toy_sponge (\<lambda>_. []) (fq_field 7) sample_params (vr_fold_bound vr) sample_claim (plain_scheme sample_shape) [] ?vs"
    unfolding accepts_def by (simp add: sample_params_def sample_shape_def shape_columns_def)
  then show ?thesis using bitz_verify_accepts [OF inst] by metis
qed

lemma transpose_query_total:
  assumes "virtual_statement_new params committed m claim = Inr st" "shape_ok committed"
  shows "transpose_query st query \<noteq> None"
proof -
  have st: "vp_claim (st_params st) = params" "vp_committed (st_params st) = committed"
    using assms(1) by (auto simp: virtual_statement_new_def virtual_params_new_def Let_def split: sum.splits if_splits)
  have "0 < shape_rows (bp_shape params)" by (simp add: shape_rows_def)
  then have "query_weights (bp_shape params) query \<noteq> None"
    by (auto simp: query_weights_def flatten_def split: opening_query.split)
  moreover obtain sh where "shape_new (log_bits committed) 0 = Inr sh"
    using assms(2) shape_new_iff [of "log_bits committed" 0 "\<lparr>log_rows = log_bits committed, log_columns = 0\<rparr>"]
    by (auto simp: shape_ok_def log_bits_def)
  ultimately show ?thesis
    by (auto simp: transpose_query_def st Let_def split: option.split sum.split)
qed

lemma open_and_finish_None: "open_and_finish pcs commitment query v = None \<longleftrightarrow> pcs_verify_lin pcs commitment query v = None"
  by (auto simp: open_and_finish_def split: option.splits sum.splits)

text \<open>C9: The verifier answers.  On any transcript whatsoever, for an instance and a virtual statement
  built by the code's own constructors and any commitment scheme, \<open>verify\<close> and \<open>verify_virtual\<close> have
  no result in exactly one case: they get as far as a query and the scheme's own verifier has no result
  on it.  None of the modelled panics on the way is reached (the field operations, the reads of the comb
  table, the assertion and the reads of the multilinear evaluation, the split of the terminal point, the
  unwraps and the empty chunks of the virtual rewriting), and a malformed proof is an error value.\<close>

theorem bitz_verify_total:
  fixes pcs :: "('d, 'c, 'e, 's) commit_scheme"
  assumes "bitz_instance F params pr vr claim"
    and "virtual_statement_new params' committed m claim = Inr st" "shape_ok committed"
  shows "(bitz_verify S blake3 F vr claim pcs commitment vs = None \<longleftrightarrow>
      pcs_bit_len pcs = 2 ^ log_bits (bp_shape params) \<and>
      (\<exists>query vs'. (verifier_fold_and_reduce S blake3 F vr claim
          (absorb_all (vs_public_message S) (claim_statement F (pcs_commitment_root pcs commitment) params (pcs_encode pcs) claim) vs)
          (pcs_security_level pcs) :: ('e verify_error + opening_query \<times> 's verifier_state) option) = Some (Inr (query, vs')) \<and>
        pcs_verify_lin pcs commitment query vs' = None)) \<and>
    (bitz_verify_virtual S blake3 F vr st pcs commitment vs = None \<longleftrightarrow>
      params' = params \<and> pcs_bit_len pcs = 2 ^ log_bits committed \<and>
      (\<exists>query vs' query'. (verifier_fold_and_reduce S blake3 F vr claim
          (absorb_all (vs_public_message S) (virtual_claim_statement F (pcs_commitment_root pcs commitment) st (pcs_encode pcs)) vs)
          (pcs_security_level pcs) :: ('e verify_error + opening_query \<times> 's verifier_state) option) = Some (Inr (query, vs')) \<and>
        transpose_query st query = Some (Inr query') \<and> pcs_verify_lin pcs commitment query' vs' = None))"
proof -
  have fr: "(verifier_fold_and_reduce S blake3 F vr claim v sec :: ('e verify_error + opening_query \<times> 's verifier_state) option) \<noteq> None" for v sec
    by (rule verifier_fold_and_reduce_total [OF assms(1)])
  have vr: "vr_params vr = params" using bitz_instanceD [OF assms(1)] by metis
  have st: "vp_claim (st_params st) = params'" "vp_committed (st_params st) = committed" "st_claim st = claim"
    using assms(2) by (auto simp: virtual_statement_new_def virtual_params_new_def Let_def split: sum.splits if_splits)
  note total = fr [unfolded not_None_eq] transpose_query_total [OF assms(2,3), unfolded not_None_eq]
  have "bitz_verify S blake3 F vr claim pcs commitment vs = None \<longleftrightarrow>
      pcs_bit_len pcs = 2 ^ log_bits (bp_shape params) \<and>
      (\<exists>query vs'. (verifier_fold_and_reduce S blake3 F vr claim
          (absorb_all (vs_public_message S) (claim_statement F (pcs_commitment_root pcs commitment) params (pcs_encode pcs) claim) vs)
          (pcs_security_level pcs) :: ('e verify_error + opening_query \<times> 's verifier_state) option) = Some (Inr (query, vs')) \<and>
        pcs_verify_lin pcs commitment query vs' = None)"
    using total(1) by (auto simp: bitz_verify_def vr Let_def open_and_finish_None fr split: option.splits sum.splits)
  moreover have "bitz_verify_virtual S blake3 F vr st pcs commitment vs = None \<longleftrightarrow>
      params' = params \<and> pcs_bit_len pcs = 2 ^ log_bits committed \<and>
      (\<exists>query vs' query'. (verifier_fold_and_reduce S blake3 F vr claim
          (absorb_all (vs_public_message S) (virtual_claim_statement F (pcs_commitment_root pcs commitment) st (pcs_encode pcs)) vs)
          (pcs_security_level pcs) :: ('e verify_error + opening_query \<times> 's verifier_state) option) = Some (Inr (query, vs')) \<and>
        transpose_query st query = Some (Inr query') \<and> pcs_verify_lin pcs commitment query' vs' = None)"
    using total
    by (auto simp: bitz_verify_virtual_def vr st Let_def open_and_finish_None fr transpose_query_total [OF assms(2,3)]
        split: option.splits sum.splits)
  ultimately show ?thesis by blast
qed

text \<open>With a scheme whose verifier answers, both verifiers answer on every transcript.\<close>

theorem bitz_verify_total_witness:
  "\<exists>vr st. \<forall>vs. bitz_verify toy_sponge (\<lambda>_. []) (fq_field 7) vr sample_claim (plain_scheme sample_shape) [] vs \<noteq> None \<and>
     bitz_verify_virtual toy_sponge (\<lambda>_. []) (fq_field 7) vr st (plain_scheme \<lparr>log_rows = 20, log_columns = 0\<rparr>) [] vs \<noteq> None"
proof -
  obtain pr vr where inst: "bitz_instance (fq_field 7) sample_params pr vr sample_claim" by (rule sample_instance)
  obtain st where st: "virtual_statement_new sample_params sample_shape copy_map sample_claim = Inr st"
    using sample_ok(3) by (simp add: virtual_statement_new_def virtual_params_new_def copy_map_def sample_params_def
        sample_shape_def log_bits_def claim_ok_def Let_def)
  have v: "pcs_verify_lin (plain_scheme sh) c q v \<noteq> None" for sh c q and v :: "u8 list verifier_state"
    by (simp add: plain_scheme_def)
  have "bitz_verify toy_sponge (\<lambda>_. []) (fq_field 7) vr sample_claim (plain_scheme sample_shape) [] vs \<noteq> None"
    "bitz_verify_virtual toy_sponge (\<lambda>_. []) (fq_field 7) vr st (plain_scheme \<lparr>log_rows = 20, log_columns = 0\<rparr>) [] vs \<noteq> None" for vs
    using bitz_verify_total [OF inst st sample_ok(2), of toy_sponge "\<lambda>_. []" "plain_scheme sample_shape" "[]" vs]
      bitz_verify_total [OF inst st sample_ok(2), of toy_sponge "\<lambda>_. []" "plain_scheme \<lparr>log_rows = 20, log_columns = 0\<rparr>" "[]" vs]
    by (simp_all only: v simp_thms)
  then show ?thesis by blast
qed

end
