(* ===== verification/Post_Gkr_Correct.thy ===== *)
theory Post_Gkr_Correct
  imports Post_Gkr Protocol_Correct
begin

text \<open>
  Correctness of the reduction after the grand product.  \<open>dot\<close> is the inner product of the weights
  and the bits, \<open>tensor\<close> the weights the code never writes out.  The first round read off the packed
  bits equals a round on the written tables, the rounds keep the claim an inner product of the folded
  tables, and a transcript replays.  A false claim can only survive through a challenge that is one
  of at most two values fixed before it is drawn.
\<close>

section \<open>Round messages\<close>

definition dot :: "f128 list \<Rightarrow> f128 list \<Rightarrow> f128" where
  "dot w v = (\<Sum>j<length w. w ! j * v ! j)"

definition low_sum :: "f128 list \<Rightarrow> f128 list \<Rightarrow> f128" where
  "low_sum w v = (\<Sum>j<length w div 2. w ! (2 * j) * v ! (2 * j))"

definition cross_sum :: "f128 list \<Rightarrow> f128 list \<Rightarrow> f128" where
  "cross_sum w v = (\<Sum>j<length w div 2. (w ! (2 * j) + w ! (2 * j + 1)) * (v ! (2 * j) + v ! (2 * j + 1)))"

lemma chunks_pairs: "length xs = 2 * n \<Longrightarrow> chunks_exact 2 xs = map (\<lambda>k. [xs ! (2 * k), xs ! (2 * k + 1)]) [0..<n]"
proof -
  assume l: "length xs = 2 * n"
  have "take 2 (drop (2 * k) xs) = [xs ! (2 * k), xs ! (2 * k + 1)]" if "k < n" for k
    using that l by (intro nth_equalityI) (auto simp: less_2_cases_iff nth_append)
  with l show ?thesis by (simp add: chunks_exact_map [of 2 xs n])
qed

lemma folded_map:
  "length xs = 2 * n \<Longrightarrow> folded xs c = map (\<lambda>k. xs ! (2 * k) + c * (xs ! (2 * k) + xs ! (2 * k + 1))) [0..<n]"
  by (simp add: folded_def chunks_pairs)

lemma length_folded: "length xs = 2 * n \<Longrightarrow> length (folded xs c) = n"
  by (simp add: folded_map)

lemma coefficients_sums:
  assumes "length w = 2 * n" "length v = 2 * n"
  shows "wide256_reduce (fst (coefficients_serial w v)) = low_sum w v \<and> wide256_reduce (snd (coefficients_serial w v)) = cross_sum w v"
proof -
  let ?f = "\<lambda>(a0, a2) (w, v). (wide256_add a0 (wide256_mul (w ! 0) (v ! 0)), wide256_add a2 (wide256_mul (w ! 0 + w ! 1) (v ! 0 + v ! 1)))"
  have gen: "wide256_reduce (fst (foldl ?f a ps)) = wide256_reduce (fst a) + sum_list (map (\<lambda>(w, v). w ! 0 * v ! 0) ps) \<and>
      wide256_reduce (snd (foldl ?f a ps)) = wide256_reduce (snd a) + sum_list (map (\<lambda>(w, v). (w ! 0 + w ! 1) * (v ! 0 + v ! 1)) ps)"
    for a and ps :: "(f128 list \<times> f128 list) list"
    by (induction ps arbitrary: a) (auto simp: wide256_reduce_add wide256_reduce_mul add.assoc case_prod_unfold)
  have z: "zip (chunks_exact 2 w) (chunks_exact 2 v)
      = map (\<lambda>k. ([w ! (2 * k), w ! (2 * k + 1)], [v ! (2 * k), v ! (2 * k + 1)])) [0..<n]"
    using assms by (simp add: chunks_pairs zip_map_map zip_same_conv_map comp_def)
  show ?thesis
    unfolding coefficients_serial_def z using gen assms
    by (simp add: wide256_reduce_zero low_sum_def cross_sum_def comp_def interv_sum_list_conv_sum_set_nat atLeast0LessThan)
qed

lemma sp_message_sums:
  "length (sp_weights p) = 2 * n \<Longrightarrow> length (sp_values p) = 2 * n \<Longrightarrow>
     sp_message p = (low_sum (sp_weights p) (sp_values p), cross_sum (sp_weights p) (sp_values p))"
  using coefficients_sums [of "sp_weights p" n "sp_values p"] by (simp add: sp_message_def case_prod_unfold)

text \<open>The next claim is the inner product of the folded tables.\<close>

lemma advance_dot:
  assumes "length w = 2 * n" "length v = 2 * n"
  shows "advance (dot w v) (low_sum w v, cross_sum w v) c = dot (folded w c) (folded v c)"
proof -
  have d: "dot w v = (\<Sum>j<n. w ! (2 * j) * v ! (2 * j) + w ! (2 * j + 1) * v ! (2 * j + 1))"
    by (simp only: dot_def assms sum_double)
  have e: "a * b + c * (a * b + a' * b' + (a + a') * (b + b') + c * ((a + a') * (b + b')))
      = (a + c * (a + a')) * (b + c * (b + b'))" for a b a' b' :: f128
  proof -
    have "(a + c * (a + a')) * (b + c * (b + b')) =
        a * b + c * (a * (b + b') + (a + a') * b + c * ((a + a') * (b + b')))" by (simp add: algebra_simps)
    moreover have "a * b + a' * b' + (a + a') * (b + b') = a * (b + b') + (a + a') * b"
    proof -
      have "a * b + a' * b' + (a + a') * (b + b') = (a' * b' + a' * b') + (a * (b + b') + (a + a') * b)"
        by (simp add: algebra_simps)
      then show ?thesis by (simp only: f128_double add_0)
    qed
    ultimately show ?thesis by simp
  qed
  have "advance (dot w v) (low_sum w v, cross_sum w v) c =
      (\<Sum>j<n. w ! (2 * j) * v ! (2 * j) + c * (w ! (2 * j) * v ! (2 * j) + w ! (2 * j + 1) * v ! (2 * j + 1)
        + (w ! (2 * j) + w ! (2 * j + 1)) * (v ! (2 * j) + v ! (2 * j + 1))
        + c * ((w ! (2 * j) + w ! (2 * j + 1)) * (v ! (2 * j) + v ! (2 * j + 1)))))"
    unfolding advance_def d low_sum_def cross_sum_def assms
    by (simp add: sum.distrib sum_distrib_left distrib_left)
  also have "\<dots> = dot (folded w c) (folded v c)"
    unfolding e by (simp add: dot_def folded_map [OF assms(1)] folded_map [OF assms(2)])
  finally show ?thesis .
qed

text \<open>Folding binds the lowest variable.\<close>

lemma mle_sum_folded:
  "length xs = 2 ^ Suc (length r) \<Longrightarrow> mle_sum (folded xs c) r = mle_sum xs (c # r)"
  by (simp add: mle_sum_Cons folded_map [of xs "2 ^ length r"] interpolate_def add.commute)

section \<open>The rounds on both sides\<close>

lemma element_deserialize_encode:
  assumes "spongefish_ok S"
  shows "element_deserialize S (f128_encode a @ tail) = Some (a, tail)"
proof -
  have "f128_deserialize (sf_take S 16) (f128_encode a @ tail) = (Some a, tail)"
    using assms by (intro f128_codec_roundtrip) (simp add: reads16_def spongefish_ok_def)
  then show ?thesis by (simp add: element_deserialize_def)
qed

lemma sumcheck_send_replay:
  assumes S: "spongefish_ok S" and send: "sumcheck_send S blake3 security m ps = Some (c, ps')" and w: "within N H ps'"
  shows "sumcheck_receive S blake3 security (replay N H ps) = Some ((m, c), replay N H ps')" "within N H ps"
proof -
  obtain ps1 where g: "ps_grind S blake3 SUMCHECK_GRINDING_LABEL (grinding_bits security 2) (ps_prover_message S (pair_encode m) ps) = Some ps1"
    and c: "ps_verifier_message S ps1 = (c, ps')"
    using send by (auto simp: sumcheck_send_def)
  have w1: "within N H ps1" using w within_challenge [of N H S ps1] by (simp add: c)
  note grind = grind_replay [OF S g w1]
  have m: "vs_prover_message S (pair_deserialize S) pair_encode (replay N H ps) = Some (m, replay N H (ps_prover_message S (pair_encode m) ps))"
    by (rule message_replay [where encode = pair_encode], rule grind(2), rule pair_deserialize_encode [OF S])
  show "sumcheck_receive S blake3 security (replay N H ps) = Some ((m, c), replay N H ps')"
    by (simp add: sumcheck_receive_def m grind(1) challenge_replay c)
  show "within N H ps" using grind(2) by (rule within_message)
qed

lemma sumcheck_rounds_length:
  "sumcheck_verify_rounds S blake3 security n claim tr = Some ((point, running), tr') \<Longrightarrow> length point = n"
  by (induction n arbitrary: claim tr point) (auto split: option.splits)

lemma sumcheck_send_some:
  "grinds S blake3 (grinding_bits security 2) \<Longrightarrow> \<exists>c ps'. sumcheck_send S blake3 security m ps = Some (c, ps')"
  unfolding grinds_def sumcheck_send_def by (metis (no_types, lifting) option.exhaust option.map(2) surj_pair)

lemma sumcheck_rounds_replay:
  assumes S: "spongefish_ok S" and g: "grinds S blake3 (grinding_bits security 2)"
  shows "length (sp_weights pair) = 2 ^ n \<Longrightarrow> length (sp_values pair) = 2 ^ n \<Longrightarrow>
    \<exists>point pair' ps'. sumcheck_prove_rounds S blake3 security n pair (dot (sp_weights pair) (sp_values pair)) ps
        = Some (((point, sp_weights pair' ! 0 * sp_values pair' ! 0), pair'), ps') \<and> length point = n \<and>
      sp_weights pair' ! 0 = mle_sum (sp_weights pair) point \<and> sp_values pair' ! 0 = mle_sum (sp_values pair) point \<and>
      (\<forall>N H. within N H ps' \<longrightarrow> within N H ps \<and>
        sumcheck_verify_rounds S blake3 security n (dot (sp_weights pair) (sp_values pair)) (replay N H ps)
          = Some ((point, sp_weights pair' ! 0 * sp_values pair' ! 0), replay N H ps'))"
proof (induction n arbitrary: pair ps)
  case 0
  then have l: "length (sp_weights pair) = 1" "length (sp_values pair) = 1" by simp_all
  have s: "xs ! 0 = mle_sum xs []" for xs :: "f128 list" by (simp add: mle_sum_def eq_weight_def)
  show ?case
    by (rule exI [of _ "[]"], rule exI [of _ pair], rule exI [of _ ps]) (simp add: dot_def l s)
next
  case (Suc n)
  let ?w = "sp_weights pair" and ?v = "sp_values pair"
  let ?m = "sp_message pair"
  have l: "length ?w = 2 * 2 ^ n" "length ?v = 2 * 2 ^ n" using Suc.prems by simp_all
  obtain c ps1 where send: "sumcheck_send S blake3 security ?m ps = Some (c, ps1)"
    using sumcheck_send_some [OF g] by blast
  let ?p = "sp_fold c pair"
  have fw: "sp_weights ?p = folded ?w c" "sp_values ?p = folded ?v c" by (simp_all add: sp_fold_def)
  have lf: "length (sp_weights ?p) = 2 ^ n" "length (sp_values ?p) = 2 ^ n"
    by (simp_all add: fw length_folded [OF l(1)] length_folded [OF l(2)])
  have adv: "advance (dot ?w ?v) ?m c = dot (sp_weights ?p) (sp_values ?p)"
    by (simp only: sp_message_sums [OF l] advance_dot [OF l] fw)
  obtain point pair' ps' where ih: "sumcheck_prove_rounds S blake3 security n ?p (dot (sp_weights ?p) (sp_values ?p)) ps1
        = Some (((point, sp_weights pair' ! 0 * sp_values pair' ! 0), pair'), ps')" "length point = n"
      "sp_weights pair' ! 0 = mle_sum (sp_weights ?p) point" "sp_values pair' ! 0 = mle_sum (sp_values ?p) point"
      "\<And>N H. within N H ps' \<Longrightarrow> within N H ps1 \<and>
        sumcheck_verify_rounds S blake3 security n (dot (sp_weights ?p) (sp_values ?p)) (replay N H ps1)
          = Some ((point, sp_weights pair' ! 0 * sp_values pair' ! 0), replay N H ps')"
    using Suc.IH [OF lf, of ps1] by blast
  have m: "mle_sum (folded ?w c) point = mle_sum ?w (c # point)" "mle_sum (folded ?v c) point = mle_sum ?v (c # point)"
    using l ih(2) by (simp_all add: mle_sum_folded)
  have v: "within N H ps \<and> sumcheck_verify_rounds S blake3 security (Suc n) (dot ?w ?v) (replay N H ps)
          = Some ((c # point, sp_weights pair' ! 0 * sp_values pair' ! 0), replay N H ps')" if "within N H ps'" for N H
    using ih(5) [OF that] sumcheck_send_replay [OF S send, of N H] by (simp add: adv)
  have p: "sumcheck_prove_rounds S blake3 security (Suc n) pair (dot ?w ?v) ps
      = Some (((c # point, sp_weights pair' ! 0 * sp_values pair' ! 0), pair'), ps')"
    using ih(1) by (simp add: send adv Let_def)
  show ?case
    by (rule exI [of _ "c # point"], rule exI [of _ pair'], rule exI [of _ ps'])
      (use p v ih(2,3,4) m fw in simp)
qed

section \<open>The packed bits\<close>

lemma iter_over_set_bits_set:
  "distinct (iter_over_set_bits w) \<and> set (iter_over_set_bits w) = {i. i < 128 \<and> bit w i}"
proof (induction w rule: iter_over_set_bits.induct)
  case (1 w)
  show ?case
  proof (cases "w = 0")
    case False
    let ?t = "trailing_zeros w"
    have t: "bit w ?t" by (rule trailing_zeros_bit(1) [OF False])
    then have tl: "?t < 128" using bit_imp_le_length by fastforce
    have "{i. i < 128 \<and> bit w i} = insert ?t {i. i < 128 \<and> bit (unset_bit ?t w) i}"
      using t tl by (auto simp: bit_unset_bit_iff)
    with 1 False show ?thesis
      by (simp add: iter_over_set_bits.simps [of w] clear_lowest_bit bit_unset_bit_iff)
  qed (simp add: iter_over_set_bits.simps)
qed

lemma iter_sum: "f128_sum (map f (iter_over_set_bits w)) = (\<Sum>i<128. of_bool (bit w i) * f i)"
proof -
  have "f128_sum (map f (iter_over_set_bits w)) = (\<Sum>i | i < 128 \<and> bit w i. f i)"
    using iter_over_set_bits_set [of w] by (simp add: f128_sum_sum_list sum_list_distinct_conv_sum_set)
  also have "\<dots> = (\<Sum>i<128. if bit w i then f i else 0)"
    by (simp add: sum.inter_filter [symmetric] Collect_conj_eq lessThan_def Int_commute)
  also have "\<dots> = (\<Sum>i<128. of_bool (bit w i) * f i)" by (rule sum.cong) simp_all
  finally show ?thesis .
qed

lemma bit_EVEN: "i < 128 \<Longrightarrow> bit EVEN_BITS i \<longleftrightarrow> even i"
proof -
  have "list_all (\<lambda>i. bit EVEN_BITS i = even i) [0..<128]" by code_simp
  then show "i < 128 \<Longrightarrow> bit EVEN_BITS i \<longleftrightarrow> even i" by (simp add: list_all_iff)
qed

lemma iter_even_sum: "f128_sum (map f (iter_over_set_bits (w AND EVEN_BITS))) = (\<Sum>p<64. of_bool (bit w (2 * p)) * f (2 * p))"
proof -
  have "f128_sum (map f (iter_over_set_bits (w AND EVEN_BITS))) = (\<Sum>i<2 * 64. of_bool (bit w i \<and> even i) * f i)"
    unfolding iter_sum by (intro sum.cong) (simp_all add: bit_and_iff bit_EVEN)
  then show ?thesis by (simp only: sum_double) simp
qed

text \<open>The bits as field elements, and the weights written out.\<close>

definition bit_values :: "f128 list \<Rightarrow> f128 list" where
  "bit_values packed = map (\<lambda>i. of_bool (packed_bit (map f128_to_u128 packed) i)) [0..<128 * length packed]"

definition tensor :: "f128 list \<Rightarrow> f128 list \<Rightarrow> f128 list" where
  "tensor rows columns = concat (map (\<lambda>column. map (\<lambda>row. column * row) rows) columns)"

lemma length_tensor: "length (tensor rows columns) = length rows * length columns"
  unfolding tensor_def by (rule length_flatten)

lemma nth_tensor: "j < length columns \<Longrightarrow> i < length rows \<Longrightarrow> tensor rows columns ! (j * length rows + i) = columns ! j * rows ! i"
  unfolding tensor_def by (rule nth_flatten)

lemma length_bit_values [simp]: "length (bit_values packed) = 128 * length packed"
  by (simp add: bit_values_def)

lemma nth_bit_values:
  assumes "e < length packed" "v < 128"
  shows "bit_values packed ! (128 * e + v) = of_bool (bit (f128_to_u128 (packed ! e)) v)"
proof -
  have "128 * e + v < 128 * length packed"
    using assms mult_le_mono2 [of "Suc e" "length packed" 128] by simp
  moreover have "(128 * e + v) div 128 = e" "(128 * e + v) mod 128 = v" using assms(2) by simp_all
  ultimately show ?thesis using assms(1) by (simp add: bit_values_def packed_bit_def)
qed

text \<open>Factors that match a witness: the blocks of 128 rows of every column, in order.\<close>

definition factors_ok :: "factors \<Rightarrow> f128 list \<Rightarrow> bool" where
  "factors_ok fs packed \<longleftrightarrow> (\<exists>pc. length (fac_rows fs) = 128 * pc) \<and> length packed = factors_packed_len fs"

lemma factors_element_weights:
  assumes ok: "factors_ok fs packed" and e: "e < length packed"
  obtains rs c where "factors_element fs e = Some (rs, c)" "length rs = 128"
    "\<And>v. v < 128 \<Longrightarrow> c * rs ! v = tensor (fac_rows fs) (fac_columns fs) ! (128 * e + v)"
proof -
  obtain pc where pc: "length (fac_rows fs) = 128 * pc" using ok by (auto simp: factors_ok_def)
  have per: "drop_bit PACK_BITS (length (fac_rows fs)) = pc" by (simp add: pc PACK_BITS_def drop_bit_eq_div)
  have len: "length packed = pc * length (fac_columns fs)" using ok per by (simp add: factors_ok_def factors_packed_len_def)
  then have pos: "pc \<noteq> 0" using e by (cases pc) simp_all
  let ?j = "e div pc" and ?i = "e mod pc"
  have j: "?j < length (fac_columns fs)" using e len by (simp add: less_mult_imp_div_less mult.commute)
  have i: "?i < pc" using pos by simp
  then have le: "128 * ?i + 128 \<le> 128 * pc" using mult_le_mono2 [of "Suc ?i" pc 128] by simp
  have el: "factors_element fs e = Some (take 128 (drop (128 * ?i) (fac_rows fs)), fac_columns fs ! ?j)"
    unfolding factors_element_def per Let_def using pos le j pc
    by (simp add: ELEMENT_BITS_def PACK_BITS_def push_bit_eq_mult mult.commute)
  have w: "tensor (fac_rows fs) (fac_columns fs) ! (128 * e + v) = fac_columns fs ! ?j * (take 128 (drop (128 * ?i) (fac_rows fs))) ! v"
    if v: "v < 128" for v
  proof -
    have eq: "128 * e + v = ?j * length (fac_rows fs) + (128 * ?i + v)"
    proof -
      have "128 * e + v = 128 * (?j * pc + ?i) + v" by (simp only: div_mult_mod_eq)
      also have "\<dots> = ?j * (128 * pc) + (128 * ?i + v)" by (simp only: distrib_left add.assoc mult.left_commute)
      finally show ?thesis by (simp only: pc)
    qed
    show ?thesis unfolding eq using nth_tensor [OF j, of "128 * ?i + v" "fac_rows fs"] v le pc by simp
  qed
  show ?thesis by (rule that [OF el]) (use le pc w in simp_all)
qed

lemma those_elements:
  assumes ok: "factors_ok fs packed"
    and g: "\<And>e rs c. e < length packed \<Longrightarrow> factors_element fs e = Some (rs, c) \<Longrightarrow> length rs = 128 \<Longrightarrow>
      (\<And>v. v < 128 \<Longrightarrow> c * rs ! v = tensor (fac_rows fs) (fac_columns fs) ! (128 * e + v)) \<Longrightarrow> g (packed ! e) (rs, c) = h e"
  shows "those (map (\<lambda>(index, element). map_option (g element) (factors_element fs index)) (zip [0..<length packed] packed))
    = Some (map h [0..<length packed])"
proof -
  have z: "zip [0..<length packed] packed = map (\<lambda>e. (e, packed ! e)) [0..<length packed]"
    by (rule nth_equalityI) simp_all
  have "map_option (g (packed ! e)) (factors_element fs e) = Some (h e)" if "e < length packed" for e
    by (rule factors_element_weights [OF ok that]) (use g [OF that] in simp)
  then show ?thesis unfolding z map_map comp_def prod.case by (intro those_map_Some) simp
qed

lemma weighted_sum_dot:
  assumes ok: "factors_ok fs packed"
  shows "weighted_sum fs packed = Some (dot (tensor (fac_rows fs) (fac_columns fs)) (bit_values packed))"
proof -
  let ?w = "tensor (fac_rows fs) (fac_columns fs)" and ?v = "bit_values packed"
  have len: "length ?w = 128 * length packed"
    using ok by (auto simp: factors_ok_def factors_packed_len_def length_tensor PACK_BITS_def drop_bit_eq_div)
  have "those (map (\<lambda>(index, element).
           map_option (\<lambda>(rows, column). column * f128_sum (map (\<lambda>v. rows ! v) (iter_over_set_bits (f128_to_u128 element))))
             (factors_element fs index)) (zip [0..<length packed] packed))
      = Some (map (\<lambda>e. \<Sum>v<128. ?w ! (128 * e + v) * ?v ! (128 * e + v)) [0..<length packed])"
  proof (rule those_elements [OF ok])
    fix e rs c assume e: "e < length packed" and rs: "\<And>v. v < 128 \<Longrightarrow> c * rs ! v = ?w ! (128 * e + v)"
    have "c * f128_sum (map (\<lambda>v. rs ! v) (iter_over_set_bits (f128_to_u128 (packed ! e))))
        = (\<Sum>v<128. (c * rs ! v) * of_bool (bit (f128_to_u128 (packed ! e)) v))"
      by (simp add: iter_sum sum_distrib_left mult_ac del: sum_of_bool_mult_eq sum_mult_of_bool_eq)
    also have "\<dots> = (\<Sum>v<128. ?w ! (128 * e + v) * ?v ! (128 * e + v))"
      by (intro sum.cong) (simp_all add: rs nth_bit_values [OF e])
    finally show "(\<lambda>(rows, column). column * f128_sum (map (\<lambda>v. rows ! v) (iter_over_set_bits (f128_to_u128 (packed ! e))))) (rs, c)
        = (\<Sum>v<128. ?w ! (128 * e + v) * ?v ! (128 * e + v))" by simp
  qed
  moreover have "dot ?w ?v = (\<Sum>e<length packed. \<Sum>v<128. ?w ! (128 * e + v) * ?v ! (128 * e + v))"
    unfolding dot_def len by (rule sum_blocks)
  ultimately show ?thesis
    by (simp add: weighted_sum_def f128_sum_sum_list interv_sum_list_conv_sum_set_nat atLeast0LessThan)
qed

lemma foldl_pair_sum:
  "foldl (\<lambda>(a0, a2) (b0, b2). (a0 + b0, a2 + b2)) (x, y) ps
    = (x + sum_list (map fst ps), y + sum_list (map snd ps))" for x y :: "'a::comm_monoid_add"
  by (induction ps arbitrary: x y) (auto simp: add.assoc)

lemma of_bool_add: "(of_bool a + of_bool b :: f128) = of_bool (a \<noteq> b)"
  by (cases a; cases b) (simp_all add: f128_double)

lemma first_message_sums:
  assumes ok: "factors_ok fs packed"
  shows "first_message fs packed = Some (low_sum (tensor (fac_rows fs) (fac_columns fs)) (bit_values packed),
      cross_sum (tensor (fac_rows fs) (fac_columns fs)) (bit_values packed))"
proof -
  let ?w = "tensor (fac_rows fs) (fac_columns fs)" and ?v = "bit_values packed"
  have len: "length ?w = 128 * length packed"
    using ok by (auto simp: factors_ok_def factors_packed_len_def length_tensor PACK_BITS_def drop_bit_eq_div)
  let ?lo = "\<lambda>e. \<Sum>p<64. ?w ! (128 * e + 2 * p) * ?v ! (128 * e + 2 * p)"
  let ?cr = "\<lambda>e. \<Sum>p<64. (?w ! (128 * e + 2 * p) + ?w ! (128 * e + (2 * p + 1))) * (?v ! (128 * e + 2 * p) + ?v ! (128 * e + (2 * p + 1)))"
  have "those (map (\<lambda>(index, element).
           map_option (\<lambda>(rows, column).
               let bs = f128_to_u128 element;
                   a0 = f128_sum (map (\<lambda>v. rows ! v) (iter_over_set_bits (bs AND EVEN_BITS)));
                   a2 = f128_sum (map (\<lambda>v. rows ! v + rows ! (v + 1)) (iter_over_set_bits ((bs XOR drop_bit 1 bs) AND EVEN_BITS)))
               in (column * a0, column * a2))
             (factors_element fs index)) (zip [0..<length packed] packed))
      = Some (map (\<lambda>e. (?lo e, ?cr e)) [0..<length packed])"
  proof (rule those_elements [OF ok])
    fix e rs c assume e: "e < length packed" and rs: "\<And>v. v < 128 \<Longrightarrow> c * rs ! v = ?w ! (128 * e + v)"
    let ?b = "f128_to_u128 (packed ! e)"
    have "c * f128_sum (map (\<lambda>v. rs ! v) (iter_over_set_bits (?b AND EVEN_BITS))) = (\<Sum>p<64. (c * rs ! (2 * p)) * of_bool (bit ?b (2 * p)))"
      by (simp add: iter_even_sum sum_distrib_left mult_ac del: sum_of_bool_mult_eq sum_mult_of_bool_eq)
    also have "\<dots> = ?lo e" by (intro sum.cong) (simp_all add: rs nth_bit_values [OF e])
    finally have lo: "c * f128_sum (map (\<lambda>v. rs ! v) (iter_over_set_bits (?b AND EVEN_BITS))) = ?lo e" .
    have "c * f128_sum (map (\<lambda>v. rs ! v + rs ! (v + 1)) (iter_over_set_bits ((?b XOR drop_bit 1 ?b) AND EVEN_BITS)))
        = (\<Sum>p<64. (c * rs ! (2 * p) + c * rs ! (2 * p + 1)) * of_bool (bit ?b (2 * p) \<noteq> bit ?b (2 * p + 1)))"
      by (simp add: iter_even_sum sum_distrib_left bit_xor_iff bit_drop_bit_eq distrib_left distrib_right mult_ac
          del: sum_of_bool_mult_eq sum_mult_of_bool_eq)
    also have "\<dots> = ?cr e"
    proof (intro sum.cong refl)
      fix p :: nat assume "p \<in> {..<64}"
      then have p: "2 * p < 128" "2 * p + 1 < 128" by simp_all
      show "(c * rs ! (2 * p) + c * rs ! (2 * p + 1)) * of_bool (bit ?b (2 * p) \<noteq> bit ?b (2 * p + 1))
          = (?w ! (128 * e + 2 * p) + ?w ! (128 * e + (2 * p + 1))) * (?v ! (128 * e + 2 * p) + ?v ! (128 * e + (2 * p + 1)))"
        by (simp only: rs [OF p(1)] rs [OF p(2)] nth_bit_values [OF e p(1)] nth_bit_values [OF e p(2)] of_bool_add)
    qed
    finally have "c * f128_sum (map (\<lambda>v. rs ! v + rs ! (v + 1)) (iter_over_set_bits ((?b XOR drop_bit 1 ?b) AND EVEN_BITS))) = ?cr e" .
    with lo show "(\<lambda>(rows, column).
               let bs = f128_to_u128 (packed ! e);
                   a0 = f128_sum (map (\<lambda>v. rows ! v) (iter_over_set_bits (bs AND EVEN_BITS)));
                   a2 = f128_sum (map (\<lambda>v. rows ! v + rows ! (v + 1)) (iter_over_set_bits ((bs XOR drop_bit 1 bs) AND EVEN_BITS)))
               in (column * a0, column * a2)) (rs, c) = (?lo e, ?cr e)" by (simp only: prod.case Let_def)
  qed
  moreover have half: "length ?w div 2 = 64 * length packed" by (simp add: len)
  have "low_sum ?w ?v = (\<Sum>e<length packed. ?lo e)" "cross_sum ?w ?v = (\<Sum>e<length packed. ?cr e)"
    unfolding low_sum_def cross_sum_def half sum_grid by (intro sum.cong refl; simp add: algebra_simps)+
  ultimately show ?thesis
    by (simp add: first_message_def foldl_pair_sum comp_def interv_sum_list_conv_sum_set_nat atLeast0LessThan)
qed

section \<open>The tables after the first round\<close>

lemma list_by_grid:
  assumes "length xs = m * n" "length ys = m * n" "\<And>j i. j < n \<Longrightarrow> i < m \<Longrightarrow> xs ! (j * m + i) = ys ! (j * m + i)"
  shows "xs = ys"
proof (rule nth_equalityI)
  fix k assume k: "k < length xs"
  then have m: "0 < m" using assms(1) by (cases m) simp_all
  have "k div m < n" "k mod m < m" using k m assms(1) by (simp_all add: less_mult_imp_div_less mult.commute)
  from assms(3) [OF this] show "xs ! k = ys ! k" by (simp only: div_mult_mod_eq)
qed (simp add: assms)

lemma factors_fold_tensor:
  assumes "length (fac_rows fs) = 2 * h"
  shows "factors_fold fs c = folded (tensor (fac_rows fs) (fac_columns fs)) c"
proof (rule list_by_grid [of _ h "length (fac_columns fs)"])
  let ?r = "fac_rows fs" and ?c = "fac_columns fs"
  have lt: "length (tensor ?r ?c) = 2 * (h * length ?c)" by (simp add: length_tensor assms)
  have lf: "length (folded ?r c) = h" by (rule length_folded [OF assms])
  have ff: "factors_fold fs c = tensor (folded ?r c) ?c" by (simp add: factors_fold_def tensor_def Let_def)
  show "length (factors_fold fs c) = h * length ?c" by (simp add: ff length_tensor lf)
  show "length (folded (tensor ?r ?c) c) = h * length ?c" by (rule length_folded [OF lt])
  fix j i assume ji: "j < length ?c" "i < h"
  have k: "j * h + i < h * length ?c"
    using ji mult_le_mono1 [of "Suc j" "length ?c" h] by (simp add: mult.commute)
  have "factors_fold fs c ! (j * h + i) = ?c ! j * (?r ! (2 * i) + c * (?r ! (2 * i) + ?r ! (2 * i + 1)))"
    unfolding ff using nth_tensor [OF ji(1), of i "folded ?r c"] ji(2) lf by (simp add: folded_map [OF assms])
  also have "\<dots> = ?c ! j * ?r ! (2 * i) + c * (?c ! j * ?r ! (2 * i) + ?c ! j * ?r ! (2 * i + 1))"
    by (simp add: algebra_simps)
  also have "?c ! j * ?r ! (2 * i) = tensor ?r ?c ! (2 * (j * h + i))"
    using nth_tensor [OF ji(1), of "2 * i" ?r] ji(2) by (simp add: assms algebra_simps)
  also have "?c ! j * ?r ! (2 * i + 1) = tensor ?r ?c ! (2 * (j * h + i) + 1)"
    using nth_tensor [OF ji(1), of "2 * i + 1" ?r] ji(2) by (simp add: assms algebra_simps)
  finally show "factors_fold fs c ! (j * h + i) = folded (tensor ?r ?c) c ! (j * h + i)"
    using k by (simp add: folded_map [OF lt])
qed

lemma take_bit_2: "take_bit 2 n = of_bool (bit n 0) + 2 * of_bool (bit n 1)" for n :: nat
proof -
  have "take_bit 2 n = n mod 4" by (simp add: take_bit_eq_mod)
  moreover have "bit n 0 = odd n" "bit n 1 = odd (n div 2)" by (simp_all add: bit_iff_odd)
  ultimately show ?thesis by (simp add: of_bool_def) presburger
qed

lemma unat_and_3: "unat (drop_bit k w AND 3) = of_bool (bit (w :: u128) k) + 2 * of_bool (bit w (k + 1))"
proof -
  have "drop_bit k w AND 3 = take_bit 2 (drop_bit k w)"
    by (simp add: take_bit_eq_mask mask_eq_exp_minus_1)
  then have "unat (drop_bit k w AND 3) = take_bit 2 (unat (drop_bit k w))"
    by (simp only: unsigned_take_bit_eq)
  also have "\<dots> = of_bool (bit w k) + 2 * of_bool (bit w (k + 1))"
    unfolding take_bit_2 by (simp add: bit_unsigned_iff bit_drop_bit_eq)
  finally show ?thesis .
qed

lemma bind_first_folded: "bind_first packed c = folded (bit_values packed) c"
proof (rule list_by_grid [of _ 64 "length packed"])
  have lv: "length (bit_values packed) = 2 * (64 * length packed)" by simp
  let ?t = "[0, c + 1, c, 1]"
  have b: "bind_first packed c = concat (map (\<lambda>e. map (\<lambda>p. ?t ! unat (drop_bit (2 * p) (f128_to_u128 (packed ! e)) AND 3)) [0..<64]) [0..<length packed])"
  proof -
    have "map f packed = map (\<lambda>e. f (packed ! e)) [0..<length packed]" for f :: "f128 \<Rightarrow> f128 list"
      by (rule nth_equalityI) simp_all
    then show ?thesis by (simp only: bind_first_def Let_def ELEMENT_BITS_def PACK_BITS_def) simp
  qed
  show "length (bind_first packed c) = 64 * length packed" by (simp add: b length_concat comp_def sum_list_triv)
  show "length (folded (bit_values packed) c) = 64 * length packed" by (rule length_folded [OF lv])
  fix e p :: nat assume ep: "e < length packed" "p < 64"
  let ?w = "f128_to_u128 (packed ! e)"
  have p: "2 * p < 128" "2 * p + 1 < 128" using ep(2) by simp_all
  have k: "e * 64 + p < 64 * length packed" using ep mult_le_mono1 [of "Suc e" "length packed" 64] by simp
  have i: "2 * (e * 64 + p) = 128 * e + 2 * p" "2 * (e * 64 + p) + 1 = 128 * e + (2 * p + 1)" by simp_all
  have "bind_first packed c ! (e * 64 + p) = ?t ! unat (drop_bit (2 * p) ?w AND 3)"
    unfolding b using ep by (rule nth_concat_grid)
  also have "\<dots> = of_bool (bit ?w (2 * p)) + c * (of_bool (bit ?w (2 * p)) + of_bool (bit ?w (2 * p + 1)))"
    unfolding unat_and_3 by (cases "bit ?w (2 * p)"; cases "bit ?w (2 * p + 1)") (simp_all add: f128_double add.commute)
  also have "\<dots> = folded (bit_values packed) c ! (e * 64 + p)"
  proof -
    have "bit_values packed ! (2 * (e * 64 + p)) = of_bool (bit ?w (2 * p))"
      by (subst i(1), rule nth_bit_values [OF ep(1) p(1)])
    moreover have "bit_values packed ! (2 * (e * 64 + p) + 1) = of_bool (bit ?w (2 * p + 1))"
      by (subst i(2), rule nth_bit_values [OF ep(1) p(2)])
    ultimately show ?thesis using k
      by (simp only: folded_map [OF lv] nth_map nth_upt diff_zero length_upt add_0)
  qed
  finally show "bind_first packed c ! (e * 64 + p) = folded (bit_values packed) c ! (e * 64 + p)" .
qed

section \<open>The closing weight\<close>

lemma mle_sum_tensor:
  assumes "length rows = 2 ^ length a" "length columns = 2 ^ length b"
  shows "mle_sum (tensor rows columns) (a @ b) = mle_sum rows a * mle_sum columns b"
proof -
  have "(\<Sum>j<2 ^ length a. tensor rows columns ! (j + 2 ^ length a * k) * eq_weight a j) = columns ! k * mle_sum rows a"
    if "k < 2 ^ length b" for k
  proof -
    have "tensor rows columns ! (j + 2 ^ length a * k) = columns ! k * rows ! j" if "j < 2 ^ length a" for j
      using nth_tensor [of k columns j rows] that \<open>k < 2 ^ length b\<close> assms by (simp add: mult.commute add.commute)
    then have "(\<Sum>j<2 ^ length a. tensor rows columns ! (j + 2 ^ length a * k) * eq_weight a j)
        = (\<Sum>j<2 ^ length a. columns ! k * (rows ! j * eq_weight a j))"
      by (intro sum.cong) (simp_all add: mult.assoc)
    then show ?thesis by (simp only: mle_sum_def sum_distrib_left)
  qed
  then have "mle_sum (tensor rows columns) (a @ b) = (\<Sum>k<2 ^ length b. mle_sum rows a * (columns ! k * eq_weight b k))"
    unfolding mle_sum_append by (intro sum.cong) (simp_all add: mult_ac)
  then show ?thesis by (simp only: mle_sum_def sum_distrib_left)
qed

section \<open>The reduction\<close>

definition claim_factors :: "f128 linear_claim \<Rightarrow> factors" where
  "claim_factors claim = \<lparr>fac_rows = row_weights claim, fac_columns = column_weights claim\<rparr>"

definition claim_tensor :: "f128 linear_claim \<Rightarrow> f128 list" where
  "claim_tensor claim = tensor (row_weights claim) (column_weights claim)"

text \<open>The claim and the packed witness of a shape.\<close>

definition claim_shaped :: "shape \<Rightarrow> f128 linear_claim \<Rightarrow> f128 list \<Rightarrow> bool" where
  "claim_shaped sh claim packed \<longleftrightarrow> shape_ok sh \<and> length (row_weights claim) = shape_rows sh \<and>
     length (column_weights claim) = shape_columns sh \<and> 128 * length packed = 2 ^ log_bits sh"

lemma claim_shapedD:
  assumes "claim_shaped sh claim packed"
  shows "factors_ok (claim_factors claim) packed" "length (claim_tensor claim) = 2 ^ log_bits sh"
    "length (bit_values packed) = 2 ^ log_bits sh" "\<exists>h. length (row_weights claim) = 2 * h" "0 < log_bits sh"
proof -
  have sh: "shape_ok sh" and r: "length (row_weights claim) = shape_rows sh"
    and c: "length (column_weights claim) = shape_columns sh" and l: "128 * length packed = 2 ^ log_bits sh"
    using assms by (simp_all add: claim_shaped_def)
  obtain pc where pc: "shape_rows sh = 128 * pc" using shape_ok_bounds(4) [OF sh] by (elim dvdE)
  have "128 * length packed = 128 * (pc * shape_columns sh)"
    using l shape_ok_bounds(5) [OF sh] pc by simp
  then show "factors_ok (claim_factors claim) packed"
    unfolding factors_ok_def factors_packed_len_def claim_factors_def
    using r c pc by (simp add: PACK_BITS_def drop_bit_eq_div)
  show "length (claim_tensor claim) = 2 ^ log_bits sh"
    by (simp add: claim_tensor_def length_tensor r c shape_ok_bounds(5) [OF sh])
  show "length (bit_values packed) = 2 ^ log_bits sh" by (simp add: l)
  show "\<exists>h. length (row_weights claim) = 2 * h" using r pc by (intro exI [of _ "64 * pc"]) simp
  show "0 < log_bits sh" using sh by (simp add: shape_ok_def)
qed

lemma packed_bit_values: "i < 128 * length packed \<Longrightarrow> bit_values packed ! i = of_bool (packed_bit (map f128_to_u128 packed) i)"
  by (simp add: bit_values_def)

lemma inner_product_holds_dot:
  assumes "claim_shaped sh claim packed"
  shows "query_holds sh (packed_bit (map f128_to_u128 packed)) (InnerProduct claim) \<longleftrightarrow> dot (claim_tensor claim) (bit_values packed) = target claim"
proof -
  let ?b = "packed_bit (map f128_to_u128 packed)" and ?r = "row_weights claim" and ?c = "column_weights claim"
  have l: "length ?r = shape_rows sh" "length ?c = shape_columns sh" and b: "128 * length packed = 2 ^ log_bits sh"
    using assms by (simp_all add: claim_shaped_def)
  have len: "length (claim_tensor claim) = length ?r * length ?c" by (simp add: claim_tensor_def length_tensor)
  have "dot (claim_tensor claim) (bit_values packed)
      = (\<Sum>j<length ?c. \<Sum>i<length ?r. claim_tensor claim ! (j * length ?r + i) * bit_values packed ! (j * length ?r + i))"
    unfolding dot_def len by (rule sum_grid)
  also have "\<dots> = (\<Sum>j<length ?c. \<Sum>i<length ?r. of_bool (?b (j * length ?r + i)) * (?r ! i * ?c ! j))"
  proof (intro sum.cong refl)
    fix j i assume ji: "j \<in> {..<length ?c}" "i \<in> {..<length ?r}"
    then have "j * length ?r + i < length ?c * length ?r" using mult_le_mono1 [of "Suc j" "length ?c" "length ?r"] by simp
    also have "\<dots> = 128 * length packed"
      using b claim_shapedD(2) [OF assms] len by (simp add: mult.commute)
    finally have "bit_values packed ! (j * length ?r + i) = of_bool (?b (j * length ?r + i))" by (rule packed_bit_values)
    with ji show "claim_tensor claim ! (j * length ?r + i) * bit_values packed ! (j * length ?r + i)
        = of_bool (?b (j * length ?r + i)) * (?r ! i * ?c ! j)"
      using nth_tensor [of j ?c i ?r] by (simp add: claim_tensor_def mult_ac del: of_bool_eq_iff)
  qed
  finally show ?thesis using l by (simp add: query_holds_def)
qed

lemma mle_holds_sum:
  assumes "claim_shaped sh claim packed"
  shows "query_holds sh (packed_bit (map f128_to_u128 packed)) (Mle point v)
    \<longleftrightarrow> length point = log_bits sh \<and> mle_sum (bit_values packed) point = v"
proof -
  have "bit_weight (eq_table point) (packed_bit (map f128_to_u128 packed)) = mle_sum (bit_values packed) point"
    if "length point = log_bits sh"
  proof -
    have "128 * length packed = 2 ^ length point" using assms that by (simp add: claim_shaped_def)
    then show ?thesis unfolding bit_weight_def mle_sum_def length_eq_table
      by (intro sum.cong) (simp_all add: packed_bit_values eq_table_weights del: sum_of_bool_mult_eq sum_mult_of_bool_eq)
  qed
  then show ?thesis by (auto simp: query_holds_def)
qed

lemma closing_weight:
  assumes "claim_shaped sh claim packed" "length point = log_bits sh"
  shows "Option.bind (mle_evaluate_f128 (row_weights claim) (take (log_rows sh) point)) (\<lambda>a.
      map_option (\<lambda>b. a * b) (mle_evaluate_f128 (column_weights claim) (drop (log_rows sh) point)))
    = Some (mle_sum (claim_tensor claim) point)"
proof -
  let ?a = "take (log_rows sh) point" and ?b = "drop (log_rows sh) point"
  have l: "length ?a = log_rows sh" "length ?b = log_columns sh" using assms(2) by (simp_all add: log_bits_def)
  then have r: "length (row_weights claim) = 2 ^ length ?a" "length (column_weights claim) = 2 ^ length ?b"
    using assms(1) by (simp_all add: claim_shaped_def shape_rows_def shape_columns_def)
  then have "mle_sum (claim_tensor claim) (?a @ ?b) = mle_sum (row_weights claim) ?a * mle_sum (column_weights claim) ?b"
    unfolding claim_tensor_def by (rule mle_sum_tensor)
  then show ?thesis using r by (simp add: mle_evaluate_f128_def evaluate_serial_mle_sum)
qed

text \<open>What the prover and the replaying verifier do with a claim.\<close>

lemma post_gkr_false:
  assumes "claim_shaped sh claim packed"
    "\<not> query_holds sh (packed_bit (map f128_to_u128 packed)) (InnerProduct claim)"
  shows "post_gkr_prove S blake3 claim packed security ps = Some (Inl ClaimDoesNotHold)"
  using assms claim_shapedD(1) [OF assms(1)] weighted_sum_dot [OF claim_shapedD(1) [OF assms(1)]] inner_product_holds_dot [OF assms(1)]
  by (simp add: post_gkr_prove_def prove_factors_def factors_ok_def claim_factors_def claim_tensor_def)

lemma verify_evaluation_replay:
  assumes "spongefish_ok S" "within N H (ps_prover_message S (f128_encode v) ps)"
  shows "verify_evaluation S w (w * v) (replay N H ps) = Inr (v, replay N H (ps_prover_message S (f128_encode v) ps))"
proof -
  have "vs_prover_message S (element_deserialize S) f128_encode (replay N H ps)
      = Some (v, replay N H (ps_prover_message S (f128_encode v) ps))"
    by (rule message_replay [where encode = f128_encode], rule assms(2), rule element_deserialize_encode [OF assms(1)])
  then show ?thesis by (simp add: verify_evaluation_def)
qed

lemma post_gkr_true:
  assumes S: "spongefish_ok S" and g: "grinds S blake3 (grinding_bits security 2)"
    and sh: "claim_shaped sh claim packed"
    and holds: "query_holds sh (packed_bit (map f128_to_u128 packed)) (InnerProduct claim)"
  shows "\<exists>query ps'. post_gkr_prove S blake3 claim packed security ps = Some (Inr (query, ps')) \<and>
    (\<exists>point v. query = Mle point v) \<and> query_holds sh (packed_bit (map f128_to_u128 packed)) query \<and>
    (\<forall>N H. within N H ps' \<longrightarrow> within N H ps \<and>
      post_gkr_verify S blake3 claim security (replay N H ps) = Some (Inr (query, replay N H ps')))"
proof -
  note c = claim_shapedD [OF sh]
  obtain h where h: "length (row_weights claim) = 2 * h" using c(4) by blast
  obtain n where n: "log_bits sh = Suc n" using c(5) by (cases "log_bits sh") simp_all
  let ?w = "claim_tensor claim" and ?v = "bit_values packed" and ?fs = "claim_factors claim"
  let ?m = "(low_sum ?w ?v, cross_sum ?w ?v)"
  have l: "length ?w = 2 * 2 ^ n" "length ?v = 2 * 2 ^ n" using c(2,3) n by simp_all
  have ws: "weighted_sum ?fs packed = Some (dot ?w ?v)" "first_message ?fs packed = Some ?m"
    using weighted_sum_dot [OF c(1)] first_message_sums [OF c(1)] by (simp_all add: claim_factors_def claim_tensor_def)
  have t: "dot ?w ?v = target claim" using holds inner_product_holds_dot [OF sh] by simp
  obtain ch ps1 where send: "sumcheck_send S blake3 security ?m ps = Some (ch, ps1)"
    using sumcheck_send_some [OF g] by blast
  let ?pair = "\<lparr>sp_weights = folded ?w ch, sp_values = folded ?v ch\<rparr>"
  have lp: "length (sp_weights ?pair) = 2 ^ n" "length (sp_values ?pair) = 2 ^ n"
    by (simp_all add: length_folded [OF l(1)] length_folded [OF l(2)])
  have pair: "\<lparr>sp_weights = factors_fold ?fs ch, sp_values = bind_first packed ch\<rparr> = ?pair"
    using factors_fold_tensor [of ?fs h ch] h by (simp add: claim_factors_def claim_tensor_def bind_first_folded)
  have adv: "advance (target claim) ?m ch = dot (sp_weights ?pair) (sp_values ?pair)"
    using advance_dot [OF l, of ch] t by simp
  obtain point pair' ps2 where rounds: "sumcheck_prove_rounds S blake3 security n ?pair (dot (sp_weights ?pair) (sp_values ?pair)) ps1
        = Some (((point, sp_weights pair' ! 0 * sp_values pair' ! 0), pair'), ps2)" "length point = n"
      "sp_weights pair' ! 0 = mle_sum (sp_weights ?pair) point" "sp_values pair' ! 0 = mle_sum (sp_values ?pair) point"
      "\<And>N H. within N H ps2 \<Longrightarrow> within N H ps1 \<and>
        sumcheck_verify_rounds S blake3 security n (dot (sp_weights ?pair) (sp_values ?pair)) (replay N H ps1)
          = Some ((point, sp_weights pair' ! 0 * sp_values pair' ! 0), replay N H ps2)"
    using sumcheck_rounds_replay [OF S g lp, of ps1] by blast
  let ?p = "ch # point" and ?e = "sp_values pair' ! 0"
  let ?ps3 = "ps_prover_message S (f128_encode ?e) ps2"
  have lpt: "length ?p = log_bits sh" using rounds(2) n by simp
  have ev: "?e = mle_sum ?v ?p" "sp_weights pair' ! 0 = mle_sum ?w ?p"
    using rounds(2-4) l by (simp_all add: mle_sum_folded)
  have q: "query_holds sh (packed_bit (map f128_to_u128 packed)) (Mle ?p ?e)"
    using ev(1) lpt mle_holds_sum [OF sh] by simp
  have len: "length packed = factors_packed_len ?fs" using c(1) by (simp add: factors_ok_def)
  have "sumcheck_prove S blake3 security ?pair (advance (target claim) ?m ch) ps1 = Some ((point, ?e), ?ps3)"
    using rounds(1) lp(1) by (simp add: sumcheck_prove_def adv sp_bound_def)
  then have p: "post_gkr_prove S blake3 claim packed security ps = Some (Inr (Mle ?p ?e, ?ps3))"
    using ws t send len pair
    by (simp add: post_gkr_prove_def prove_factors_def claim_factors_def [symmetric])
  have v: "within N H ps \<and> post_gkr_verify S blake3 claim security (replay N H ps) = Some (Inr (Mle ?p ?e, replay N H ?ps3))"
    if w: "within N H ?ps3" for N H
  proof -
    have w2: "within N H ps2" using w by (rule within_message)
    note r = rounds(5) [OF w2]
    note s = sumcheck_send_replay [OF S send conjunct1 [OF r]]
    have vr: "sumcheck_verify_rounds S blake3 security (Suc n) (target claim) (replay N H ps)
        = Some ((?p, sp_weights pair' ! 0 * ?e), replay N H ps2)"
      using r s(1) by (simp add: adv)
    have k: "trailing_zeros_nat (length (row_weights claim)) = log_rows sh"
      "trailing_zeros_nat (length (column_weights claim)) = log_columns sh"
      using sh by (simp_all add: claim_shaped_def shape_rows_def shape_columns_def)
    have kk: "log_rows sh + log_columns sh = Suc n" using n by (simp add: log_bits_def)
    have "post_gkr_verify S blake3 claim security (replay N H ps) = Some (Inr (Mle ?p ?e, replay N H ?ps3))"
      unfolding post_gkr_verify_def verify_factors_def sumcheck_verify_def Let_def k kk vr
      using closing_weight [OF sh lpt] verify_evaluation_replay [OF S w, of "sp_weights pair' ! 0"] ev(2)
      by simp
    with s(2) show ?thesis by blast
  qed
  show ?thesis using p q v by blast
qed

section \<open>Soundness of a round\<close>

lemma advance_soundness:
  assumes "claim \<noteq> dot w v" "length w = 2 * n" "length v = 2 * n"
  shows "card {x. advance claim msg x = dot (folded w x) (folded v x)} \<le> 2"
proof -
  let ?d0 = "fst msg + low_sum w v" and ?d2 = "snd msg + cross_sum w v" and ?h = "claim + dot w v"
  have eq: "advance claim msg x = dot (folded w x) (folded v x) \<longleftrightarrow> ?d0 + x * ((?h + ?d2 + ?d2) + (x - 1) * ?d2) = 0" for x
  proof -
    have "advance claim msg x + dot (folded w x) (folded v x) = ?d0 + x * (?h + ?d2 + x * ?d2)"
      unfolding advance_dot [OF assms(2,3), symmetric] by (cases msg) (simp add: advance_def algebra_simps)
    also have "\<dots> = ?d0 + x * ((?h + ?d2 + ?d2) + (x - 1) * ?d2)"
    proof -
      have "(?h + ?d2 + ?d2) + (x - 1) * ?d2 = ?h + ?d2 + x * ?d2 + (?d2 + ?d2)" by (simp add: algebra_simps)
      then show ?thesis by (simp only: f128_double add_0_right)
    qed
    finally show ?thesis using f128_minus_eq_plus by (metis right_minus_eq)
  qed
  have "?h \<noteq> 0" using assms(1) by (metis f128_minus_eq_plus right_minus_eq)
  moreover have "?h + ?d2 + ?d2 = ?h" by (simp only: add.assoc f128_double add_0_right)
  ultimately have "?d0 \<noteq> 0 \<or> ?d0 + (?h + ?d2 + ?d2) \<noteq> 0" by auto
  then show ?thesis unfolding eq by (rule quadratic_roots)
qed

text \<open>The tables after some challenges.\<close>

definition folds :: "f128 list \<Rightarrow> f128 list \<Rightarrow> f128 list" where
  "folds table challenges = foldl folded table challenges"

lemma folds_simps [simp]: "folds table [] = table" "folds table (c # cs) = folds (folded table c) cs"
  by (simp_all add: folds_def)

lemma folds_append: "folds table (cs @ ds) = folds (folds table cs) ds"
  by (simp add: folds_def)

lemma length_folds: "length table = 2 ^ (length cs + n) \<Longrightarrow> length (folds table cs) = 2 ^ n"
  by (induction cs arbitrary: table) (simp_all add: length_folded)

lemma rounds_sound:
  "length w = 2 ^ n \<Longrightarrow> length v = 2 ^ n \<Longrightarrow>
   sumcheck_verify_rounds S blake3 security n claim tr = Some ((point, running), tr') \<Longrightarrow>
   running = mle_sum w point * mle_sum v point \<Longrightarrow> claim \<noteq> dot w v \<Longrightarrow>
   \<exists>k<n. \<exists>ck trk msg trn. sumcheck_verify_rounds S blake3 security k claim tr = Some ((take k point, ck), trk) \<and>
     sumcheck_receive S blake3 security trk = Some ((msg, point ! k), trn) \<and>
     ck \<noteq> dot (folds w (take k point)) (folds v (take k point)) \<and>
     advance ck msg (point ! k) = dot (folds w (take (Suc k) point)) (folds v (take (Suc k) point))"
proof (induction n arbitrary: w v claim tr point)
  case 0
  have s: "length xs = Suc 0 \<Longrightarrow> mle_sum xs [] = xs ! 0" for xs :: "f128 list" by (simp add: mle_sum_def eq_weight_def)
  from 0 show ?case by (simp add: dot_def s)
next
  case (Suc n)
  obtain msg ch tr1 where rec: "sumcheck_receive S blake3 security tr = Some ((msg, ch), tr1)"
    using Suc.prems(3) by (auto split: option.splits)
  obtain pt where pt: "point = ch # pt" "sumcheck_verify_rounds S blake3 security n (advance claim msg ch) tr1 = Some ((pt, running), tr')"
    using Suc.prems(3) rec by auto
  have n: "length w = 2 * 2 ^ n" "length v = 2 * 2 ^ n" using Suc.prems by simp_all
  show ?case
  proof (cases "advance claim msg ch = dot (folded w ch) (folded v ch)")
    case True
    show ?thesis
      by (rule exI [of _ 0], intro conjI exI [of _ claim] exI [of _ tr] exI [of _ msg] exI [of _ tr1])
        (use True rec Suc.prems(5) pt(1) in simp_all)
  next
    case False
    have lf: "length (folded w ch) = 2 ^ n" "length (folded v ch) = 2 ^ n"
      by (simp_all add: length_folded [OF n(1)] length_folded [OF n(2)])
    have lp: "length pt = n" by (rule sumcheck_rounds_length [OF pt(2)])
    have "running = mle_sum (folded w ch) pt * mle_sum (folded v ch) pt"
      using Suc.prems(4) pt(1) n lp by (simp add: mle_sum_folded)
    from Suc.IH [OF lf pt(2) this False]
    obtain k ck trk msg' trn where k: "k < n" "sumcheck_verify_rounds S blake3 security k (advance claim msg ch) tr1 = Some ((take k pt, ck), trk)"
      "sumcheck_receive S blake3 security trk = Some ((msg', pt ! k), trn)"
      "ck \<noteq> dot (folds (folded w ch) (take k pt)) (folds (folded v ch) (take k pt))"
      "advance ck msg' (pt ! k) = dot (folds (folded w ch) (take (Suc k) pt)) (folds (folded v ch) (take (Suc k) pt))"
      by (elim exE conjE)
    show ?thesis
      by (rule exI [of _ "Suc k"], intro conjI exI [of _ ck] exI [of _ trk] exI [of _ msg'] exI [of _ trn])
        (use k rec pt(1) in simp_all)
  qed
qed

lemma post_gkr_sound_lemma:
  assumes "claim_shaped sh claim packed"
    "\<not> query_holds sh (packed_bit (map f128_to_u128 packed)) (InnerProduct claim)"
    "post_gkr_verify S blake3 claim security tr = Some (Inr (query, tr'))"
    "query_holds sh (packed_bit (map f128_to_u128 packed)) query"
  shows "\<exists>point v k ck trk msg trn. query = Mle point v \<and> k < log_bits sh \<and>
     sumcheck_verify_rounds S blake3 security k (target claim) tr = Some ((take k point, ck), trk) \<and>
     sumcheck_receive S blake3 security trk = Some ((msg, point ! k), trn) \<and>
     point ! k \<in> {x. advance ck msg x = dot (folds (claim_tensor claim) (take k point @ [x])) (folds (bit_values packed) (take k point @ [x]))} \<and>
     card {x. advance ck msg x = dot (folds (claim_tensor claim) (take k point @ [x])) (folds (bit_values packed) (take k point @ [x]))} \<le> 2"
proof -
  note c = claim_shapedD [OF assms(1)]
  let ?w = "claim_tensor claim" and ?v = "bit_values packed"
  have kk: "trailing_zeros_nat (length (row_weights claim)) = log_rows sh"
    "trailing_zeros_nat (length (column_weights claim)) = log_columns sh"
    using assms(1) by (simp_all add: claim_shaped_def shape_rows_def shape_columns_def)
  let ?weight = "\<lambda>point. Option.bind (mle_evaluate_f128 (row_weights claim) (take (log_rows sh) point)) (\<lambda>a.
      map_option (\<lambda>b. a * b) (mle_evaluate_f128 (column_weights claim) (drop (log_rows sh) point)))"
  have "(\<exists>point v. sumcheck_verify S blake3 (log_bits sh) (target claim) ?weight security tr = Some (Inr ((point, v), tr')) \<and> query = Mle point v)"
  proof -
    obtain r where r: "sumcheck_verify S blake3 (log_bits sh) (target claim) ?weight security tr = Some r"
      "(case r of Inl e \<Rightarrow> Inl e | Inr ((point, t), transcript) \<Rightarrow> Inr (Mle point t, transcript)) = Inr (query, tr')"
      using assms(3) unfolding post_gkr_verify_def verify_factors_def Let_def kk log_bits_def by (auto simp: map_option_eq_Some)
    from r show ?thesis by (cases r) auto
  qed
  then obtain point v where pv: "sumcheck_verify S blake3 (log_bits sh) (target claim) ?weight security tr = Some (Inr ((point, v), tr'))"
    "query = Mle point v" by blast
  obtain running tr1 where r: "sumcheck_verify_rounds S blake3 security (log_bits sh) (target claim) tr = Some ((point, running), tr1)"
    and wt: "(case ?weight point of None \<Rightarrow> None | Some w \<Rightarrow> (case verify_evaluation S w running tr1 of
        Inl e \<Rightarrow> Some (Inl e) | Inr (evaluation, transcript) \<Rightarrow> Some (Inr ((point, evaluation), transcript)))) = Some (Inr ((point, v), tr'))"
    using pv(1) unfolding sumcheck_verify_def by (auto split: option.splits sum.splits)
  have lp: "length point = log_bits sh" by (rule sumcheck_rounds_length [OF r])
  have "verify_evaluation S (mle_sum ?w point) running tr1 = Inr (v, tr')"
    using wt unfolding closing_weight [OF assms(1) lp] by (auto split: sum.splits)
  then have "mle_sum ?w point * v = running" by (auto simp: verify_evaluation_def split: option.splits if_splits)
  moreover have "mle_sum ?v point = v" using assms(4) mle_holds_sum [OF assms(1)] by (simp add: pv(2))
  ultimately have run: "running = mle_sum ?w point * mle_sum ?v point" by simp
  have "target claim \<noteq> dot ?w ?v" using assms(2) inner_product_holds_dot [OF assms(1)] by simp
  from rounds_sound [OF c(2,3) r run this]
  obtain k ck trk msg trn where k: "k < log_bits sh" "sumcheck_verify_rounds S blake3 security k (target claim) tr = Some ((take k point, ck), trk)"
      "sumcheck_receive S blake3 security trk = Some ((msg, point ! k), trn)"
      "ck \<noteq> dot (folds ?w (take k point)) (folds ?v (take k point))"
      "advance ck msg (point ! k) = dot (folds ?w (take (Suc k) point)) (folds ?v (take (Suc k) point))"
    by (elim exE conjE)
  obtain m where m: "log_bits sh = k + Suc m" using k(1) less_imp_Suc_add by force
  have lk: "length (folds ?w (take k point)) = 2 * 2 ^ m" "length (folds ?v (take k point)) = 2 * 2 ^ m"
    using length_folds [of ?w "take k point" "Suc m"] length_folds [of ?v "take k point" "Suc m"] c(2,3) lp m by simp_all
  let ?B = "{x. advance ck msg x = dot (folds ?w (take k point @ [x])) (folds ?v (take k point @ [x]))}"
  have "card ?B \<le> 2"
    using advance_soundness [OF k(4) lk, of msg] by (simp add: folds_append)
  moreover have "point ! k \<in> ?B" using k(5) lp k(1) by (simp add: take_Suc_conv_app_nth)
  ultimately show ?thesis
    by (intro exI conjI) (rule pv(2), rule k(1), rule k(2), rule k(3))
qed

section \<open>Properties\<close>

text \<open>C5: Completeness of the reduction after the grand product.  For a claim of the parameters' shape on a
  packed witness of that shape: when the claim holds of the bits, the prover returns an evaluation
  claim that holds of the bits, and a verifier that replays the transcript returns the same claim
  and ends in the prover's transcript state; when it does not hold, the prover reports it before a
  message is sent.\<close>

theorem post_gkr_complete:
  assumes "spongefish_ok S" "grinds S blake3 (grinding_bits security 2)" "claim_shaped sh claim packed"
  shows "if query_holds sh (packed_bit (map f128_to_u128 packed)) (InnerProduct claim)
    then \<exists>point v ps'. post_gkr_prove S blake3 claim packed security ps = Some (Inr (Mle point v, ps')) \<and>
      query_holds sh (packed_bit (map f128_to_u128 packed)) (Mle point v) \<and>
      (\<forall>N H. within N H ps' \<longrightarrow>
        post_gkr_verify S blake3 claim security (replay N H ps) = Some (Inr (Mle point v, replay N H ps')))
    else post_gkr_prove S blake3 claim packed security ps = Some (Inl ClaimDoesNotHold)"
  using post_gkr_true [OF assms, of ps] post_gkr_false [OF assms(3), of S blake3 security ps] by auto

definition sample_inner :: "f128 \<Rightarrow> f128 linear_claim" where
  "sample_inner t = \<lparr>row_weights = replicate 128 0, column_weights = replicate 8192 0, target = t\<rparr>"

lemma sample_inner_shaped: "claim_shaped sample_shape (sample_inner t) (replicate 8192 0)"
  using sample_ok(2) by (simp add: claim_shaped_def sample_inner_def sample_shape_def shape_rows_def shape_columns_def log_bits_def)

lemma sample_inner_holds: "query_holds sample_shape b (InnerProduct (sample_inner t)) \<longleftrightarrow> t = 0"
  by (auto simp: query_holds_def sample_inner_def sample_shape_def shape_rows_def shape_columns_def)

lemma no_grinding: "grinding_bits Bits100 2 = 0"
  by code_simp

theorem post_gkr_complete_witness:
  "\<exists>point v ps'. post_gkr_prove toy_sponge (\<lambda>_. []) (sample_inner 0) (replicate 8192 0) Bits100 (build_prover toy_sponge [] [])
      = Some (Inr (Mle point v, ps')) \<and>
    post_gkr_verify toy_sponge (\<lambda>_. []) (sample_inner 0) Bits100 (build_verifier toy_sponge [] [] (ps_finish ps'))
      = Some (Inr (Mle point v, replay (ps_narg ps') (ps_hints ps') ps'))"
proof -
  have g: "grinds toy_sponge (\<lambda>_. []) (grinding_bits Bits100 2)" by (simp only: no_grinding grinds_zero)
  from post_gkr_complete [OF toy_sponge_ok g sample_inner_shaped, of 0 "build_prover toy_sponge [] []"]
  obtain point v ps' where p: "post_gkr_prove toy_sponge (\<lambda>_. []) (sample_inner 0) (replicate 8192 0) Bits100 (build_prover toy_sponge [] [])
      = Some (Inr (Mle point v, ps'))"
    "\<forall>N H. within N H ps' \<longrightarrow> post_gkr_verify toy_sponge (\<lambda>_. []) (sample_inner 0) Bits100 (replay N H (build_prover toy_sponge [] []))
      = Some (Inr (Mle point v, replay N H ps'))"
    by (auto simp: sample_inner_holds)
  then show ?thesis using within_self [of ps'] by (auto simp: build_replay)
qed

text \<open>C6: Soundness of the reduction.  When the verifier accepts a transcript for a claim that does not hold
  of the bits and the evaluation claim it hands to the opening does hold, then in some round the
  message it read left at most two challenges that turn the false running claim into a true one, and
  the challenge drawn after it is one of them.\<close>

theorem post_gkr_sound:
  assumes "claim_shaped sh claim packed"
    "\<not> query_holds sh (packed_bit (map f128_to_u128 packed)) (InnerProduct claim)"
    "post_gkr_verify S blake3 claim security tr = Some (Inr (query, tr'))"
    "query_holds sh (packed_bit (map f128_to_u128 packed)) query"
  shows "\<exists>point v k ck trk msg trn. query = Mle point v \<and> k < log_bits sh \<and>
     sumcheck_verify_rounds S blake3 security k (target claim) tr = Some ((take k point, ck), trk) \<and>
     sumcheck_receive S blake3 security trk = Some ((msg, point ! k), trn) \<and>
     point ! k \<in> {x. advance ck msg x = dot (folds (claim_tensor claim) (take k point @ [x])) (folds (bit_values packed) (take k point @ [x]))} \<and>
     card {x. advance ck msg x = dot (folds (claim_tensor claim) (take k point @ [x])) (folds (bit_values packed) (take k point @ [x]))} \<le> 2"
  using assms by (rule post_gkr_sound_lemma)

text \<open>A lucky prover: with the recording sponge, zero messages draw zero challenges.\<close>

lemma zero_encodings: "pair_encode (0, 0) = replicate 32 0" "f128_encode 0 = replicate 16 0"
  by code_simp+

lemma toy_receive_zero:
  assumes "vs_narg tr = replicate 32 0 @ rest"
  shows "\<exists>tr'. sumcheck_receive toy_sponge (\<lambda>_. []) Bits100 tr = Some (((0, 0), 0), tr') \<and> vs_narg tr' = rest"
proof -
  have "pair_deserialize toy_sponge (pair_encode (0, 0) @ rest) = Some ((0, 0), rest)"
    by (rule pair_deserialize_encode [OF toy_sponge_ok])
  then have d: "pair_deserialize toy_sponge (vs_narg tr) = Some ((0, 0), rest)" by (simp only: assms zero_encodings)
  have z: "f128_decode (replicate 16 0) = 0" by code_simp
  have r: "take 16 (rev (vs_inner tr @ replicate 32 0) @ replicate 16 0) = (replicate 16 0 :: u8 list)" by simp
  show ?thesis
    unfolding sumcheck_receive_def vs_prover_message_def d
    by (simp add: vs_grind_def no_grinding MAX_GRINDING_BITS_def vs_verifier_message_def toy_sponge_def zero_encodings r z Let_def)
qed

lemma toy_rounds_zero:
  "vs_narg tr = replicate (32 * n) 0 @ rest \<Longrightarrow>
   \<exists>tr'. sumcheck_verify_rounds toy_sponge (\<lambda>_. []) Bits100 n claim tr = Some ((replicate n 0, if n = 0 then claim else 0), tr') \<and> vs_narg tr' = rest"
proof (induction n arbitrary: claim tr)
  case (Suc n)
  have "vs_narg tr = replicate 32 0 @ (replicate (32 * n) 0 @ rest)"
    using Suc.prems by (simp add: replicate_add [symmetric] append_assoc [symmetric] del: append_assoc)
  from toy_receive_zero [OF this] obtain tr1 where
    r: "sumcheck_receive toy_sponge (\<lambda>_. []) Bits100 tr = Some (((0, 0), 0), tr1)" "vs_narg tr1 = replicate (32 * n) 0 @ rest" by blast
  from Suc.IH [OF r(2), of 0] r(1) show ?case by (auto simp: advance_def)
qed simp

theorem post_gkr_sound_witness:
  "\<exists>tr tr' k ck msg. post_gkr_verify toy_sponge (\<lambda>_. []) (sample_inner 1) Bits100 tr = Some (Inr (Mle (replicate 20 0) 0, tr')) \<and> k < 20 \<and>
     card {x. advance ck msg x = dot (folds (claim_tensor (sample_inner 1)) (replicate k 0 @ [x])) (folds (bit_values (replicate 8192 0)) (replicate k 0 @ [x]))} \<le> 2"
proof -
  let ?tr = "\<lparr>vs_inner = [], vs_narg = replicate (32 * 20) 0 @ replicate 16 0, vs_hints = []\<rparr> :: u8 list verifier_state"
  obtain tr1 where r: "sumcheck_verify_rounds toy_sponge (\<lambda>_. []) Bits100 20 1 ?tr = Some ((replicate 20 0, 0), tr1)"
    "vs_narg tr1 = replicate 16 0"
    using toy_rounds_zero [of ?tr 20 "replicate 16 0" 1] by auto
  have n: "shape_rows sample_shape = 2 ^ 7" "shape_columns sample_shape = 2 ^ 13"
    by (simp_all add: sample_shape_def shape_rows_def shape_columns_def)
  have shaped: "claim_shaped sample_shape (sample_inner 1) (replicate 8192 0)" by (rule sample_inner_shaped)
  have w: "Option.bind (mle_evaluate_f128 (row_weights (sample_inner 1)) (take 7 (replicate 20 0))) (\<lambda>a.
      map_option (\<lambda>b. a * b) (mle_evaluate_f128 (column_weights (sample_inner 1)) (drop 7 (replicate 20 0)))) = Some (mle_sum (claim_tensor (sample_inner 1)) (replicate 20 0))"
    using closing_weight [OF shaped, of "replicate 20 0"] by (simp add: sample_shape_def log_bits_def)
  have d: "element_deserialize toy_sponge (vs_narg tr1) = Some (0, [])"
    using element_deserialize_encode [OF toy_sponge_ok, of 0 "[]"] by (simp only: r(2) zero_encodings append_Nil2)
  then obtain tr2 where e: "verify_evaluation toy_sponge (mle_sum (claim_tensor (sample_inner 1)) (replicate 20 0)) 0 tr1 = Inr (0, tr2)"
    by (simp add: verify_evaluation_def vs_prover_message_def)
  have k: "trailing_zeros_nat (length (row_weights (sample_inner 1))) = 7" "trailing_zeros_nat (length (column_weights (sample_inner 1))) = 13"
    using shaped n trailing_zeros_nat_power2 by (simp_all only: claim_shaped_def)
  have t: "target (sample_inner 1) = 1" by (simp add: sample_inner_def)
  have v: "post_gkr_verify toy_sponge (\<lambda>_. []) (sample_inner 1) Bits100 ?tr = Some (Inr (Mle (replicate 20 0) 0, tr2))"
    unfolding post_gkr_verify_def verify_factors_def sumcheck_verify_def Let_def k t using r(1) w e by simp
  have "mle_sum (bit_values (replicate 8192 0)) (replicate 20 0) = 0"
  proof -
    have z: "f128_to_u128 0 = 0" by code_simp
    have "bit_values (replicate 8192 0) ! j = 0" if "j < 2 ^ 20" for j
      using that by (simp add: bit_values_def packed_bit_def less_mult_imp_div_less z)
    then show ?thesis by (simp add: mle_sum_def)
  qed
  then have q: "query_holds sample_shape (packed_bit (map f128_to_u128 (replicate 8192 0))) (Mle (replicate 20 0) 0)"
    using mle_holds_sum [OF shaped] by (simp add: sample_shape_def log_bits_def)
  have f: "\<not> query_holds sample_shape (packed_bit (map f128_to_u128 (replicate 8192 0))) (InnerProduct (sample_inner 1))"
    by (simp add: sample_inner_holds)
  from post_gkr_sound [OF shaped f v q] obtain point u k ck msg where s: "Mle (replicate 20 0) 0 = Mle point u" "k < log_bits sample_shape"
    "card {x. advance ck msg x = dot (folds (claim_tensor (sample_inner 1)) (take k point @ [x])) (folds (bit_values (replicate 8192 0)) (take k point @ [x]))} \<le> 2"
    by blast
  have "k < 20" using s(2) by (simp add: sample_shape_def log_bits_def)
  moreover have "take k point = replicate k 0" using s(1) \<open>k < 20\<close> by auto
  ultimately have "card {x. advance ck msg x = dot (folds (claim_tensor (sample_inner 1)) (replicate k 0 @ [x])) (folds (bit_values (replicate 8192 0)) (replicate k 0 @ [x]))} \<le> 2"
    using s(3) by simp
  with v \<open>k < 20\<close> show ?thesis by blast
qed

end
