(* ===== verification/Host.thy ===== *)
theory Host
  imports Transcript
begin

text \<open>
  The proof container that crosses the host boundary: \<open>crates/host/src/reader.rs\<close> and
  \<open>crates/host/src/wire_proof.rs\<close>.

  A reader is its position and the bytes not yet read; a read that fails consumes nothing and its
  error ends the decoder.  \<open>usize\<close> has 64 bits, so the conversions from \<open>u64\<close> always succeed and the
  checked additions fail from \<open>2 ^ 64\<close> on.
\<close>

section \<open>The bounded reader\<close>

record bounded_reader =
  br_pos :: nat
  br_rest :: "u8 list"

datatype read_error = ReadOutOfInput

datatype finish_error = ReadLeftoverInput

definition reader_new :: "u8 list \<Rightarrow> bounded_reader" where
  "reader_new bytes = \<lparr>br_pos = 0, br_rest = bytes\<rparr>"

definition saturating_add :: "nat \<Rightarrow> nat \<Rightarrow> nat" where
  "saturating_add a b = min (a + b) (2 ^ 64 - 1)"

definition read_slice :: "nat \<Rightarrow> bounded_reader \<Rightarrow> read_error + u8 list \<times> bounded_reader" where
  "read_slice n self =
     (if length (br_rest self) < n then Inl ReadOutOfInput
      else Inr (take n (br_rest self),
        self\<lparr>br_pos := saturating_add (br_pos self) n, br_rest := drop n (br_rest self)\<rparr>))"

definition read_array :: "nat \<Rightarrow> bounded_reader \<Rightarrow> read_error + u8 list \<times> bounded_reader" where
  "read_array n self =
     (if length (br_rest self) < n then Inl ReadOutOfInput
      else Inr (take n (br_rest self),
        self\<lparr>br_pos := saturating_add (br_pos self) n, br_rest := drop n (br_rest self)\<rparr>))"

definition read_u16 :: "bounded_reader \<Rightarrow> read_error + u16 \<times> bounded_reader" where
  "read_u16 self = map_sum id (apfst from_le_bytes) (read_array 2 self)"

definition read_u32 :: "bounded_reader \<Rightarrow> read_error + u32 \<times> bounded_reader" where
  "read_u32 self = map_sum id (apfst from_le_bytes) (read_array 4 self)"

definition read_u64 :: "bounded_reader \<Rightarrow> read_error + u64 \<times> bounded_reader" where
  "read_u64 self = map_sum id (apfst from_le_bytes) (read_array 8 self)"

definition reader_finish :: "bounded_reader \<Rightarrow> finish_error + unit" where
  "reader_finish self = (if br_rest self = [] then Inr () else Inl ReadLeftoverInput)"

section \<open>The container\<close>

definition MAGIC :: "u8 list" where
  "MAGIC = [0x62, 0x69, 0x74, 0x7a, 0x50, 0x43, 0x53, 0]"

definition WIRE_VERSION :: u16 where "WIRE_VERSION = 1"
definition HEADER_LEN :: nat where "HEADER_LEN = 32"
definition FLAGS :: u32 where "FLAGS = 0"

record wire_proof =
  wp_narg_string :: "u8 list"
  wp_hints :: "u8 list"

datatype proof_decoding_error =
    DecodeOutOfInput
  | DecodeLeftoverInput
  | BadMagic
  | UnsupportedVersion u16
  | BadHeaderLen nat
  | ReservedFlagsSet u32
  | LengthOverflow
  | LengthMismatch (declared_len: nat) (actual_len: nat)

definition wire_proof_new :: "proof_data \<Rightarrow> wire_proof" where
  "wire_proof_new pf = \<lparr>wp_narg_string = narg_string pf, wp_hints = proof_hints pf\<rparr>"

definition wire_proof_unwrap :: "wire_proof \<Rightarrow> proof_data" where
  "wire_proof_unwrap self = \<lparr>narg_string = wp_narg_string self, proof_hints = wp_hints self\<rparr>"

definition wire_byte_len :: "wire_proof \<Rightarrow> nat" where
  "wire_byte_len self =
     saturating_add (saturating_add HEADER_LEN (length (wp_narg_string self))) (length (wp_hints self))"

definition extend_with_bytes :: "wire_proof \<Rightarrow> u8 list \<Rightarrow> u8 list" where
  "extend_with_bytes self out =
     out @ MAGIC @ to_le_bytes 2 WIRE_VERSION @ to_le_bytes 2 (word_of_nat HEADER_LEN :: u16)
       @ to_le_bytes 4 FLAGS @ to_le_bytes 8 (word_of_nat (length (wp_narg_string self)) :: u64)
       @ to_le_bytes 8 (word_of_nat (length (wp_hints self)) :: u64) @ wp_narg_string self @ wp_hints self"

definition wire_to_bytes :: "wire_proof \<Rightarrow> u8 list" where
  "wire_to_bytes self = extend_with_bytes self []"

text \<open>The \<open>?\<close> operator: the reader's error becomes the decoder's.\<close>

definition or_out_of_input ::
  "read_error + 'a \<Rightarrow> ('a \<Rightarrow> proof_decoding_error + 'b) \<Rightarrow> proof_decoding_error + 'b" where
  "or_out_of_input r k = (case r of Inl _ \<Rightarrow> Inl DecodeOutOfInput | Inr a \<Rightarrow> k a)"

definition checked_add :: "nat \<Rightarrow> nat \<Rightarrow> nat option" where
  "checked_add a b = (if a + b < 2 ^ 64 then Some (a + b) else None)"

definition read_header :: "bounded_reader \<Rightarrow> proof_decoding_error + (nat \<times> nat) \<times> bounded_reader" where
  "read_header reader =
     or_out_of_input (read_array 8 reader) (\<lambda>(magic, reader).
       if magic \<noteq> MAGIC then Inl BadMagic
       else or_out_of_input (read_u16 reader) (\<lambda>(version, reader).
         if version \<noteq> WIRE_VERSION then Inl (UnsupportedVersion version)
         else or_out_of_input (read_u16 reader) (\<lambda>(header_len, reader).
           if unat header_len \<noteq> HEADER_LEN then Inl (BadHeaderLen (unat header_len))
           else or_out_of_input (read_u32 reader) (\<lambda>(flags, reader).
             if flags \<noteq> FLAGS then Inl (ReservedFlagsSet flags)
             else or_out_of_input (read_u64 reader) (\<lambda>(narg_byte_len, reader).
               or_out_of_input (read_u64 reader) (\<lambda>(hint_byte_len, reader).
                 Inr ((unat narg_byte_len, unat hint_byte_len), reader)))))))"

definition wire_from_bytes :: "u8 list \<Rightarrow> proof_decoding_error + wire_proof" where
  "wire_from_bytes bytes =
     (case read_header (reader_new bytes) of
        Inl e \<Rightarrow> Inl e
      | Inr ((narg_byte_len, hint_byte_len), reader) \<Rightarrow>
          (case Option.bind (checked_add HEADER_LEN narg_byte_len) (\<lambda>len. checked_add len hint_byte_len) of
             None \<Rightarrow> Inl LengthOverflow
           | Some declared \<Rightarrow>
               if declared \<noteq> length bytes then Inl (LengthMismatch declared (length bytes))
               else or_out_of_input (read_slice narg_byte_len reader) (\<lambda>(narg, reader).
                 or_out_of_input (read_slice hint_byte_len reader) (\<lambda>(hints, reader).
                   case reader_finish reader of
                     Inl _ \<Rightarrow> Inl DecodeLeftoverInput
                   | Inr _ \<Rightarrow> Inr \<lparr>wp_narg_string = narg, wp_hints = hints\<rparr>))))"

definition proof_encode :: "proof_data \<Rightarrow> u8 list" where
  "proof_encode pf = wire_to_bytes (wire_proof_new pf)"

definition proof_decode :: "u8 list \<Rightarrow> proof_decoding_error + proof_data" where
  "proof_decode bytes = map_sum id wire_proof_unwrap (wire_from_bytes bytes)"

section \<open>Facts about the decoder\<close>

text \<open>A field of the header: \<open>n\<close> bytes at an offset.\<close>

definition field_at :: "nat \<Rightarrow> nat \<Rightarrow> u8 list \<Rightarrow> 'a::len word" where
  "field_at offset n bytes = from_le_bytes (take n (drop offset bytes))"

lemma or_out_of_input_simps [simp]:
  "or_out_of_input (Inl e) k = Inl DecodeOutOfInput" "or_out_of_input (Inr a) k = k a"
  by (simp_all add: or_out_of_input_def)

lemma saturating_add_small: "a + b < 2 ^ 64 \<Longrightarrow> saturating_add a b = a + b"
  by (simp add: saturating_add_def)

lemma read_at:
  "offset + n \<le> length bytes \<Longrightarrow> read_array n \<lparr>br_pos = offset, br_rest = drop offset bytes\<rparr>
     = Inr (take n (drop offset bytes), \<lparr>br_pos = saturating_add offset n, br_rest = drop (offset + n) bytes\<rparr>)"
  by (simp add: read_array_def add.commute)

lemma read_at_0:
  "n \<le> length bytes \<Longrightarrow> read_array n \<lparr>br_pos = 0, br_rest = bytes\<rparr>
     = Inr (take n bytes, \<lparr>br_pos = saturating_add 0 n, br_rest = drop n bytes\<rparr>)"
  using read_at [of 0 n bytes] by simp

lemma read_header_value:
  assumes "32 \<le> length bytes"
  shows "read_header (reader_new bytes) =
     (if take 8 bytes \<noteq> MAGIC then Inl BadMagic
      else if field_at 8 2 bytes \<noteq> WIRE_VERSION then Inl (UnsupportedVersion (field_at 8 2 bytes))
      else if unat (field_at 10 2 bytes :: u16) \<noteq> HEADER_LEN then Inl (BadHeaderLen (unat (field_at 10 2 bytes :: u16)))
      else if field_at 12 4 bytes \<noteq> FLAGS then Inl (ReservedFlagsSet (field_at 12 4 bytes))
      else Inr ((unat (field_at 16 8 bytes :: u64), unat (field_at 24 8 bytes :: u64)),
        \<lparr>br_pos = 32, br_rest = drop 32 bytes\<rparr>))"
proof -
  show ?thesis
    unfolding read_header_def reader_new_def read_u16_def read_u32_def read_u64_def
    using assms by (simp add: read_at_0 read_at saturating_add_small field_at_def)
qed

lemma read_header_short: "length bytes < 32 \<Longrightarrow> \<exists>e. read_header (reader_new bytes) = Inl e"
proof -
  assume s: "length bytes < 32"
  { fix r assume "read_header (reader_new bytes) = Inr r"
    then have "\<not> length bytes < 8" "\<not> length bytes - 24 < 8"
      by (auto simp: read_header_def or_out_of_input_def read_u16_def read_u32_def read_u64_def read_array_def
          reader_new_def split: sum.splits if_splits)
    then have "32 \<le> length bytes" by arith }
  with s show ?thesis by (cases "read_header (reader_new bytes)") auto
qed

text \<open>What a decoded container is, after its header.\<close>

lemma wire_from_bytes_value:
  assumes "32 \<le> length bytes" "length bytes < 2 ^ 64"
  defines "narg_len \<equiv> unat (field_at 16 8 bytes :: u64)" and "hint_len \<equiv> unat (field_at 24 8 bytes :: u64)"
  shows "wire_from_bytes bytes =
     (if take 8 bytes \<noteq> MAGIC then Inl BadMagic
      else if field_at 8 2 bytes \<noteq> WIRE_VERSION then Inl (UnsupportedVersion (field_at 8 2 bytes))
      else if unat (field_at 10 2 bytes :: u16) \<noteq> 32 then Inl (BadHeaderLen (unat (field_at 10 2 bytes :: u16)))
      else if field_at 12 4 bytes \<noteq> FLAGS then Inl (ReservedFlagsSet (field_at 12 4 bytes))
      else if 2 ^ 64 \<le> 32 + narg_len + hint_len then Inl LengthOverflow
      else if 32 + narg_len + hint_len \<noteq> length bytes then Inl (LengthMismatch (32 + narg_len + hint_len) (length bytes))
      else Inr \<lparr>wp_narg_string = take narg_len (drop 32 bytes), wp_hints = drop (32 + narg_len) bytes\<rparr>)"
proof -
  let ?reader = "\<lparr>br_pos = 32, br_rest = drop 32 bytes\<rparr>"
  let ?len = "Option.bind (checked_add HEADER_LEN narg_len) (\<lambda>len. checked_add len hint_len)"
  have len: "?len = (if 32 + narg_len + hint_len < 2 ^ 64 then Some (32 + narg_len + hint_len) else None)"
    by (simp add: checked_add_def HEADER_LEN_def)
  have body: "or_out_of_input (read_slice narg_len ?reader) (\<lambda>(narg, reader).
      or_out_of_input (read_slice hint_len reader) (\<lambda>(hints, reader).
        case reader_finish reader of Inl _ \<Rightarrow> Inl DecodeLeftoverInput
          | Inr _ \<Rightarrow> Inr \<lparr>wp_narg_string = narg, wp_hints = hints\<rparr>))
      = Inr \<lparr>wp_narg_string = take narg_len (drop 32 bytes), wp_hints = drop (32 + narg_len) bytes\<rparr>"
    if "32 + narg_len + hint_len = length bytes"
    using that [symmetric] by (simp add: read_slice_def reader_finish_def add.commute)
  show ?thesis
    unfolding wire_from_bytes_def read_header_value [OF assms(1)]
    using len body by (auto simp: narg_len_def [symmetric] hint_len_def [symmetric] HEADER_LEN_def)
qed

section \<open>Encoding\<close>

text \<open>The header of a proof whose streams fit the address space.\<close>

lemma length_MAGIC [simp]: "length MAGIC = 8"
  by (simp add: MAGIC_def)

lemma proof_encode_fields:
  fixes pf :: proof_data
  defines "bytes \<equiv> proof_encode pf"
  assumes "length bytes < 2 ^ 64"
  shows "32 \<le> length bytes" "take 8 bytes = MAGIC" "field_at 8 2 bytes = WIRE_VERSION"
    "unat (field_at 10 2 bytes :: u16) = 32" "field_at 12 4 bytes = FLAGS"
    "unat (field_at 16 8 bytes :: u64) = length (narg_string pf)" "unat (field_at 24 8 bytes :: u64) = length (proof_hints pf)"
    "length bytes = 32 + length (narg_string pf) + length (proof_hints pf)"
    "drop 32 bytes = narg_string pf @ proof_hints pf"
proof -
  let ?n = "narg_string pf" and ?h = "proof_hints pf"
  have e: "bytes = MAGIC @ to_le_bytes 2 WIRE_VERSION @ to_le_bytes 2 (word_of_nat HEADER_LEN :: u16)
       @ to_le_bytes 4 FLAGS @ to_le_bytes 8 (word_of_nat (length ?n) :: u64) @ to_le_bytes 8 (word_of_nat (length ?h) :: u64) @ ?n @ ?h"
    by (simp add: bytes_def proof_encode_def wire_to_bytes_def extend_with_bytes_def wire_proof_new_def)
  show l: "length bytes = 32 + length ?n + length ?h" by (simp add: e)
  then have small: "length ?n < 2 ^ 64" "length ?h < 2 ^ 64" using assms(2) by simp_all
  show "32 \<le> length bytes" using l by simp
  show "take 8 bytes = MAGIC" "field_at 8 2 bytes = WIRE_VERSION" "field_at 12 4 bytes = FLAGS"
    unfolding e by (simp_all add: field_at_def from_to_le_bytes)
  show "unat (field_at 10 2 bytes :: u16) = 32"
    unfolding e by (simp add: field_at_def from_to_le_bytes HEADER_LEN_def)
  show "unat (field_at 16 8 bytes :: u64) = length ?n" "unat (field_at 24 8 bytes :: u64) = length ?h"
    unfolding e using small by (simp_all add: field_at_def from_to_le_bytes unat_of_nat take_bit_nat_eq_self)
  show "drop 32 bytes = ?n @ ?h" unfolding e by simp
qed

text \<open>A header that passes every check is the header the encoder writes.\<close>

lemma drop_cut: "i + k = j \<Longrightarrow> drop j xs = rest \<Longrightarrow> drop i xs = take k (drop i xs) @ rest"
  by (metis add.commute append_take_drop_id drop_drop)

lemma header_determined:
  assumes "32 + n + h = length bytes" "take 8 bytes = MAGIC" "field_at 8 2 bytes = WIRE_VERSION"
    "unat (field_at 10 2 bytes :: u16) = 32" "field_at 12 4 bytes = FLAGS"
    "unat (field_at 16 8 bytes :: u64) = n" "unat (field_at 24 8 bytes :: u64) = h"
  shows "bytes = proof_encode \<lparr>narg_string = take n (drop 32 bytes), proof_hints = drop (32 + n) bytes\<rparr>"
proof -
  have b: "take k (drop o1 bytes) = to_le_bytes k w"
    if "field_at o1 k bytes = w" "8 * k = LENGTH('a)" "o1 + k \<le> length bytes" for o1 k and w :: "'a::len word"
  proof -
    have "length (take k (drop o1 bytes)) = k" using that(3) by simp
    from to_from_le_bytes [OF this, where 'a = 'a] that(1,2) show ?thesis by (simp add: field_at_def)
  qed
  have f: "take 2 (drop 8 bytes) = to_le_bytes 2 WIRE_VERSION" "take 4 (drop 12 bytes) = to_le_bytes 4 FLAGS"
    by (intro b; use assms in simp)+
  have w: "field_at 10 2 bytes = (word_of_nat HEADER_LEN :: u16)" "field_at 16 8 bytes = (word_of_nat n :: u64)"
    "field_at 24 8 bytes = (word_of_nat h :: u64)"
    unfolding HEADER_LEN_def assms(4,6,7) [symmetric] by simp_all
  have g: "take 2 (drop 10 bytes) = to_le_bytes 2 (word_of_nat HEADER_LEN :: u16)"
    "take 8 (drop 16 bytes) = to_le_bytes 8 (word_of_nat n :: u64)" "take 8 (drop 24 bytes) = to_le_bytes 8 (word_of_nat h :: u64)"
    using w assms(1) by (intro b; simp)+
  have split: "bytes = take 8 bytes @ take 2 (drop 8 bytes) @ take 2 (drop 10 bytes) @ take 4 (drop 12 bytes)
      @ take 8 (drop 16 bytes) @ take 8 (drop 24 bytes) @ take n (drop 32 bytes) @ drop (32 + n) bytes"
  proof -
    have "drop 0 bytes = take 8 (drop 0 bytes) @ take 2 (drop 8 bytes) @ take 2 (drop 10 bytes) @ take 4 (drop 12 bytes)
        @ take 8 (drop 16 bytes) @ take 8 (drop 24 bytes) @ take n (drop 32 bytes) @ drop (32 + n) bytes"
      by (rule drop_cut [of _ _ 8], simp, rule drop_cut [of _ _ 10], simp, rule drop_cut [of _ _ 12], simp, rule drop_cut [of _ _ 16], simp,
          rule drop_cut [of _ _ 24], simp, rule drop_cut [of _ _ 32], simp, rule drop_cut [of _ _ "32 + n"], simp, rule refl)
    then show ?thesis unfolding drop_0 .
  qed
  have "length (take n (drop 32 bytes)) = n" "length (drop (32 + n) bytes) = h" using assms(1) by simp_all
  then show ?thesis
    by (subst split) (simp only: assms(2) f g proof_encode_def wire_to_bytes_def extend_with_bytes_def wire_proof_new_def
        proof_data.select_convs wire_proof.select_convs append_Nil)
qed

section \<open>Properties\<close>

text \<open>C19: The container is a bijection.  A byte string of the address space decodes to a proof exactly when
  it is that proof's encoding.\<close>

theorem proof_decode_iff_encode:
  assumes "length bytes < 2 ^ 64"
  shows "proof_decode bytes = Inr pf \<longleftrightarrow> bytes = proof_encode pf"
proof
  assume d: "proof_decode bytes = Inr pf"
  then obtain wp where wp: "wire_from_bytes bytes = Inr wp" "pf = wire_proof_unwrap wp"
    by (cases "wire_from_bytes bytes") (auto simp: proof_decode_def)
  have l: "32 \<le> length bytes"
  proof (rule ccontr)
    assume "\<not> 32 \<le> length bytes"
    then obtain e where "read_header (reader_new bytes) = Inl e" using read_header_short [of bytes] by auto
    with wp(1) show False by (simp add: wire_from_bytes_def)
  qed
  let ?n = "unat (field_at 16 8 bytes :: u64)" and ?h = "unat (field_at 24 8 bytes :: u64)"
  have "32 + ?n + ?h = length bytes" "take 8 bytes = MAGIC" "field_at 8 2 bytes = WIRE_VERSION"
    "unat (field_at 10 2 bytes :: u16) = 32" "field_at 12 4 bytes = FLAGS"
    "wp = \<lparr>wp_narg_string = take ?n (drop 32 bytes), wp_hints = drop (32 + ?n) bytes\<rparr>"
    using wp(1) unfolding wire_from_bytes_value [OF l assms] by (auto split: if_splits)
  with header_determined [of ?n ?h bytes] wp(2) show "bytes = proof_encode pf"
    by (simp add: wire_proof_unwrap_def)
next
  assume e: "bytes = proof_encode pf"
  note f = proof_encode_fields [of pf, folded e, OF assms]
  have "drop (32 + length (narg_string pf)) bytes = drop (length (narg_string pf)) (drop 32 bytes)" by (simp add: add.commute)
  then have "drop (32 + length (narg_string pf)) bytes = proof_hints pf" by (simp add: f(9))
  then have "wire_from_bytes bytes = Inr \<lparr>wp_narg_string = narg_string pf, wp_hints = proof_hints pf\<rparr>"
    unfolding wire_from_bytes_value [OF f(1) assms] using f assms by simp
  then show "proof_decode bytes = Inr pf" by (simp add: proof_decode_def wire_proof_unwrap_def)
qed

theorem proof_decode_iff_encode_witness:
  "proof_decode (proof_encode \<lparr>narg_string = [1, 2], proof_hints = [3]\<rparr>) = Inr \<lparr>narg_string = [1, 2], proof_hints = [3]\<rparr>"
proof -
  have "length (proof_encode \<lparr>narg_string = [1, 2], proof_hints = [3]\<rparr>) < 2 ^ 64"
    by (simp add: proof_encode_def wire_to_bytes_def extend_with_bytes_def wire_proof_new_def)
  then show ?thesis using proof_decode_iff_encode by blast
qed

text \<open>C30: What the decoder reports.  Of a byte string with a complete header the first wrong field is
  reported, in the order of the header, then a declared length beyond the address space, then a
  length that is not the one of the input; neither leftover nor missing input is ever reported.\<close>

theorem proof_decode_errors:
  assumes "32 \<le> length bytes" "length bytes < 2 ^ 64"
  shows "proof_decode bytes =
     (if take 8 bytes \<noteq> MAGIC then Inl BadMagic
      else if field_at 8 2 bytes \<noteq> WIRE_VERSION then Inl (UnsupportedVersion (field_at 8 2 bytes))
      else if unat (field_at 10 2 bytes :: u16) \<noteq> 32 then Inl (BadHeaderLen (unat (field_at 10 2 bytes :: u16)))
      else if field_at 12 4 bytes \<noteq> FLAGS then Inl (ReservedFlagsSet (field_at 12 4 bytes))
      else let narg_len = unat (field_at 16 8 bytes :: u64); hint_len = unat (field_at 24 8 bytes :: u64)
        in if 2 ^ 64 \<le> 32 + narg_len + hint_len then Inl LengthOverflow
           else if 32 + narg_len + hint_len \<noteq> length bytes then Inl (LengthMismatch (32 + narg_len + hint_len) (length bytes))
           else Inr \<lparr>narg_string = take narg_len (drop 32 bytes), proof_hints = drop (32 + narg_len) bytes\<rparr>)"
  unfolding proof_decode_def wire_from_bytes_value [OF assms] by (simp add: wire_proof_unwrap_def Let_def)

theorem proof_decode_errors_witness:
  "proof_decode (MAGIC @ replicate 24 0) = Inl (UnsupportedVersion 0)"
proof -
  have "field_at 8 2 (MAGIC @ replicate 24 0) = (0 :: u16)" by (simp add: field_at_def numeral_2_eq_2)
  then show ?thesis using proof_decode_errors [of "MAGIC @ replicate 24 0"] by (simp add: WIRE_VERSION_def)
qed

end
