(* ===== verification/Checked_Slices.thy ===== *)
theory Checked_Slices
  imports Residue_Arith "HOL-Library.Monad_Syntax"
begin

text \<open>
  Slice accesses that panic out of range.  A read or a subslice of a Rust slice is \<open>None\<close> out of range,
  a loop over a fallible body (\<open>fold_option\<close>) stops at the first \<open>None\<close>; a loop whose body succeeds
  under an invariant is the fold of the values.
\<close>

definition slice_get :: "'a list \<Rightarrow> nat \<Rightarrow> 'a option" where
  "slice_get xs i = (if i < length xs then Some (xs ! i) else None)"

definition slice_range :: "'a list \<Rightarrow> nat \<Rightarrow> nat \<Rightarrow> 'a list option" where
  "slice_range xs start stop =
     (if start \<le> stop \<and> stop \<le> length xs then Some (take (stop - start) (drop start xs)) else None)"

text \<open>Two adjacent entries, \<open>[xs[i], xs[i + 1]]\<close>.\<close>

definition slice_pair :: "'a list \<Rightarrow> nat \<Rightarrow> ('a \<times> 'a) option" where
  "slice_pair xs i = do { zero \<leftarrow> slice_get xs i; one \<leftarrow> slice_get xs (i + 1); Some (zero, one) }"

text \<open>An index that is a difference: the subtraction wraps below zero, and no slice is that long.\<close>

definition slice_offset :: "nat \<Rightarrow> nat \<Rightarrow> nat option" where
  "slice_offset i base = (if i < base then None else Some (i - base))"

lemma slice_get_Some [simp]: "i < length xs \<Longrightarrow> slice_get xs i = Some (xs ! i)"
  by (simp add: slice_get_def)

lemma slice_range_Some [simp]:
  "start \<le> stop \<Longrightarrow> stop \<le> length xs \<Longrightarrow> slice_range xs start stop = Some (take (stop - start) (drop start xs))"
  by (simp add: slice_range_def)

lemma slice_pair_Some [simp]: "i + 1 < length xs \<Longrightarrow> slice_pair xs i = Some (xs ! i, xs ! (i + 1))"
  by (simp add: slice_pair_def)

lemma slice_offset_Some [simp]: "base \<le> i \<Longrightarrow> slice_offset i base = Some (i - base)"
  by (simp add: slice_offset_def)

lemma fold_option_append: "fold_option f s (xs @ ys) = Option.bind (fold_option f s xs) (\<lambda>s. fold_option f s ys)"
  by (induction xs arbitrary: s) (simp_all split: option.split)

lemma fold_option_map: "fold_option f s (map g xs) = fold_option (\<lambda>s x. f s (g x)) s xs"
  by (induction xs arbitrary: s) (simp_all split: option.split)

text \<open>A loop over a range that follows a sequence of states.\<close>

lemma fold_option_upt:
  "s = I 0 \<Longrightarrow> (\<And>k. k < n \<Longrightarrow> f (I k) k = Some (I (Suc k))) \<Longrightarrow> fold_option f s [0..<n] = Some (I n)"
  by (induction n) (simp_all add: fold_option_append)

lemma fold_option_some:
  assumes "P s" "\<And>x s. x \<in> set xs \<Longrightarrow> P s \<Longrightarrow> f s x = Some (g x s) \<and> P (g x s)"
  shows "fold_option f s xs = Some (fold g xs s) \<and> P (fold g xs s)"
  using assms by (induction xs arbitrary: s) simp_all

lemmas fold_option_fold = fold_option_some [where P = "\<lambda>_. True", simplified]

end
