(* ===== verification/Spartan_Sumcheck.thy ===== *)
theory Spartan_Sumcheck
  imports Transcript Checked_Slices
begin

text \<open>
  The sumcheck provers and the sumcheck verifier of Spartan: \<open>crates/spartan/src/sumcheck.rs\<close>.

  The code is generic in the field; the model takes any type of class \<open>field\<close>.  Both transcript
  states are used through two trait methods, absorbing a public message and squeezing a field
  element: the record \<open>field_transcript\<close>.  A squeeze samples by rejection and may not return, which
  is \<open>None\<close>, so is a failed assertion.  The parallel variants add the contributions of the same pairs
  and are not distinguished.  The scratch buffers are overwritten before they are read, so a fold
  returns its destination.  Every read of a table or of a chunk is checked: out of range it panics,
  which is \<open>None\<close>.  The arrays \<open>[F; N]\<close> of coefficients are lists of that length.
\<close>

section \<open>What the protocol uses of a transcript\<close>

record ('a, 't) field_transcript =
  ft_message :: "'a list \<Rightarrow> 't \<Rightarrow> 't"
  ft_bytes :: "u8 list \<Rightarrow> 't \<Rightarrow> 't"
  ft_squeeze :: "'t \<Rightarrow> ('a \<times> 't) option"

datatype sumcheck_error =
    EmptyRoundPolynomial
  | InvalidRoundCount nat nat
  | InvalidRoundClaim nat
  | InvalidTerminalClaim
  | SumcheckProductDimensions
  | InvalidEqualityDimensions
  | SumcheckMleOperation

section \<open>The verifier of the round polynomials\<close>

record 'a sumcheck_proof =
  round_polynomials :: "'a list list"

definition evaluate_polynomial :: "'a::field list \<Rightarrow> 'a \<Rightarrow> 'a" where
  "evaluate_polynomial coefficients point = foldl (\<lambda>v coefficient. v * point + coefficient) 0 (rev coefficients)"

fun sumcheck_verify_loop ::
  "('a::field, 't) field_transcript \<Rightarrow> 'a list list \<Rightarrow> nat \<Rightarrow> 'a \<Rightarrow> 't
   \<Rightarrow> (sumcheck_error + ('a list \<times> 'a) \<times> 't) option" where
  "sumcheck_verify_loop T [] round current_claim transcript = Some (Inr (([], current_claim), transcript))"
| "sumcheck_verify_loop T (coefficients # polynomials) round current_claim transcript =
     (let transcript = ft_message T coefficients transcript;
          at_zero = coefficients ! 0;
          at_one = foldl (+) 0 coefficients
      in if at_zero + at_one \<noteq> current_claim then Some (Inl (InvalidRoundClaim round))
         else case ft_squeeze T transcript of
             None \<Rightarrow> None
           | Some (challenge, transcript) \<Rightarrow>
               map_option (map_sum id (\<lambda>((points, claim), transcript). ((challenge # points, claim), transcript)))
                 (sumcheck_verify_loop T polynomials (Suc round) (evaluate_polynomial coefficients challenge) transcript))"

definition sumcheck_proof_verify ::
  "('a::field, 't) field_transcript \<Rightarrow> nat \<Rightarrow> 'a sumcheck_proof \<Rightarrow> 't \<Rightarrow> 'a \<Rightarrow> nat
   \<Rightarrow> (sumcheck_error + ('a list \<times> 'a) \<times> 't) option" where
  "sumcheck_proof_verify T coeffs self transcript initial_claim expected_rounds =
     (if coeffs = 0 then Some (Inl EmptyRoundPolynomial)
      else
        let actual_rounds = length (round_polynomials self)
        in if actual_rounds \<noteq> expected_rounds then Some (Inl (InvalidRoundCount expected_rounds actual_rounds))
           else sumcheck_verify_loop T (round_polynomials self) 0 initial_claim transcript)"

section \<open>Proofs and outputs\<close>

record 'a sumcheck_prover_output =
  spo_proof :: "'a sumcheck_proof"
  spo_eval_points :: "'a list"
  spo_final_claim :: 'a

record 'a r1cs_product_mles =
  pm_az :: "'a dense_mle"
  pm_bz :: "'a dense_mle"
  pm_cz :: "'a dense_mle"

record 'a outer_sumcheck_proof =
  osp_sumcheck :: "'a sumcheck_proof"
  osp_az_mle_claim :: 'a
  osp_bz_mle_claim :: 'a
  osp_cz_mle_claim :: 'a

record 'a outer_sumcheck_output =
  oso_proof :: "'a outer_sumcheck_proof"
  oso_eval_points :: "'a list"
  oso_final_claim :: 'a

record 'a outer_sumcheck_verifier_output =
  osv_eval_points :: "'a list"
  osv_az_mle_claim :: 'a
  osv_bz_mle_claim :: 'a
  osv_cz_mle_claim :: 'a

record 'a inner_sumcheck_output =
  iso_sumcheck :: "'a sumcheck_prover_output"
  iso_batched_matrix_evaluation :: 'a
  iso_witness_evaluation :: 'a

definition outer_verify ::
  "('a::field, 't) field_transcript \<Rightarrow> 'a outer_sumcheck_proof \<Rightarrow> 't \<Rightarrow> 'a \<Rightarrow> 'a list
   \<Rightarrow> (sumcheck_error + 'a outer_sumcheck_verifier_output \<times> 't) option" where
  "outer_verify T self transcript initial_claim tau =
     (case sumcheck_proof_verify T 4 (osp_sumcheck self) transcript initial_claim (length tau) of
        None \<Rightarrow> None
      | Some (Inl e) \<Rightarrow> Some (Inl e)
      | Some (Inr ((eval_points, final_claim), transcript)) \<Rightarrow>
          let az = osp_az_mle_claim self; bz = osp_bz_mle_claim self; cz = osp_cz_mle_claim self;
              transcript = ft_message T [az, bz, cz] transcript
          in case eq_eval tau eval_points of
               None \<Rightarrow> None
             | Some eq \<Rightarrow>
                 let expected_claim = eq * (az * bz - cz)
                 in if final_claim \<noteq> expected_claim then Some (Inl InvalidTerminalClaim)
                    else Some (Inr (\<lparr>osv_eval_points = eval_points, osv_az_mle_claim = az,
                      osv_bz_mle_claim = bz, osv_cz_mle_claim = cz\<rparr>, transcript)))"

section \<open>Round coefficients\<close>

definition interpolate_pair :: "'a::field \<times> 'a \<Rightarrow> 'a \<Rightarrow> 'a" where
  "interpolate_pair pair challenge = (case pair of (zero, one) \<Rightarrow> zero + challenge * (one - zero))"

text \<open>The omitted linear coefficient, from \<open>g 0 + g 1 = current_claim\<close>.\<close>

definition reconstruct_round_coefficients :: "'a::field \<Rightarrow> 'a list \<Rightarrow> 'a list" where
  "reconstruct_round_coefficients current_claim coefficients_without_linear =
     (let coefficients = coefficients_without_linear ! 0 # 0 # drop 1 coefficients_without_linear;
          at_one_without_c1 = foldl (+) 0 coefficients
      in coefficients[1 := current_claim - coefficients ! 0 - at_one_without_c1])"

record 'a round_log =
  rl_current_claim :: 'a
  rl_round_polynomials :: "'a list list"
  rl_eval_points :: "'a list"

definition recover_full_round_polynomial ::
  "('a::field, 't) field_transcript \<Rightarrow> 't \<Rightarrow> 'a round_log \<Rightarrow> 'a list \<Rightarrow> (('a \<times> 'a round_log) \<times> 't) option" where
  "recover_full_round_polynomial T transcript log coefficients_without_linear =
     (let coefficients = reconstruct_round_coefficients (rl_current_claim log) coefficients_without_linear;
          transcript = ft_message T coefficients transcript
      in case ft_squeeze T transcript of
           None \<Rightarrow> None
         | Some (challenge, transcript) \<Rightarrow>
             Some ((challenge,
               \<lparr>rl_current_claim = evaluate_polynomial coefficients challenge,
                rl_round_polynomials = rl_round_polynomials log @ [coefficients],
                rl_eval_points = rl_eval_points log @ [challenge]\<rparr>), transcript))"

definition add_coefficients :: "'a::field list \<Rightarrow> 'a list \<Rightarrow> 'a list" where
  "add_coefficients left right = map (\<lambda>(l, r). l + r) (zip left right)"

definition sum_coefficients :: "nat \<Rightarrow> nat \<Rightarrow> (nat \<Rightarrow> 'a::field list option) \<Rightarrow> 'a list option" where
  "sum_coefficients coeffs n contribution =
     fold_option (\<lambda>s index. map_option (add_coefficients s) (contribution index)) (replicate coeffs 0) [0..<n]"

section \<open>The outer prover\<close>

record 'a product_tables =
  pt_az :: "'a list"
  pt_bz :: "'a list"
  pt_cz :: "'a list"

definition product_tables_from_mles :: "'a r1cs_product_mles \<Rightarrow> 'a product_tables" where
  "product_tables_from_mles products =
     \<lparr>pt_az = evaluations (pm_az products), pt_bz = evaluations (pm_bz products), pt_cz = evaluations (pm_cz products)\<rparr>"

definition product_tables_len :: "'a product_tables \<Rightarrow> nat" where
  "product_tables_len self = length (pt_az self)"

definition cubic_contribution :: "'a::field \<times> 'a \<Rightarrow> 'a \<times> 'a \<Rightarrow> 'a \<times> 'a \<Rightarrow> 'a \<times> 'a \<Rightarrow> 'a list" where
  "cubic_contribution eq az bz cz =
     (let (eq_zero, eq_one) = eq; (az_zero, az_one) = az; (bz_zero, bz_one) = bz; (cz_zero, cz_one) = cz;
          eq_delta = eq_one - eq_zero;
          az_delta = az_one - az_zero;
          bz_delta = bz_one - bz_zero;
          cz_delta = cz_one - cz_zero;
          residual_zero = az_zero * bz_zero - cz_zero;
          residual_linear = az_zero * bz_delta + az_delta * bz_zero - cz_delta;
          residual_quadratic = az_delta * bz_delta
      in [eq_zero * residual_zero,
          eq_zero * residual_quadratic + eq_delta * residual_linear,
          eq_delta * residual_quadratic])"

record 'a equality_pairs =
  ep_low :: "'a list"
  ep_high :: "'a list"
  ep_low_bits :: nat
  ep_low_mask :: nat

text \<open>\<open>ilog2\<close> of zero panics.\<close>

definition equality_pairs_new :: "'a list \<Rightarrow> 'a list \<Rightarrow> 'a equality_pairs option" where
  "equality_pairs_new low high =
     (if length low = 0 then None
      else Some \<lparr>ep_low = low, ep_high = high, ep_low_bits = bitlen (length low) - 1, ep_low_mask = length low - 1\<rparr>)"

definition equality_pair :: "'a::field equality_pairs \<Rightarrow> nat \<Rightarrow> ('a \<times> 'a) option" where
  "equality_pair self pair =
     (if ep_low_bits self = 0 then do {
        scale \<leftarrow> slice_get (ep_low self) 0;
        let index = 2 * pair;
        zero \<leftarrow> slice_get (ep_high self) index;
        one \<leftarrow> slice_get (ep_high self) (index + 1);
        Some (scale * zero, scale * one)
      } else do {
        let low_pair_bits = ep_low_bits self - 1;
        let low_pair = pair AND drop_bit 1 (ep_low_mask self);
        high_weight \<leftarrow> slice_get (ep_high self) (drop_bit low_pair_bits pair);
        zero \<leftarrow> slice_get (ep_low self) (2 * low_pair);
        one \<leftarrow> slice_get (ep_low self) (2 * low_pair + 1);
        Some (zero * high_weight, one * high_weight)
      })"

definition compute_coefficients_without_linear :: "'a::field product_tables \<Rightarrow> 'a equality_pairs \<Rightarrow> 'a list option" where
  "compute_coefficients_without_linear products pairs =
     (let pair_count = product_tables_len products div 2
      in sum_coefficients 3 pair_count (\<lambda>pair. do {
           let index = 2 * pair;
           eq \<leftarrow> equality_pair pairs pair;
           az \<leftarrow> slice_pair (pt_az products) index;
           bz \<leftarrow> slice_pair (pt_bz products) index;
           cz \<leftarrow> slice_pair (pt_cz products) index;
           Some (cubic_contribution eq az bz cz)
         }))"

definition fold_two_pairs :: "'a::field list \<Rightarrow> 'a \<Rightarrow> ('a \<times> 'a) option" where
  "fold_two_pairs vals challenge = do {
     first \<leftarrow> slice_pair vals 0;
     second \<leftarrow> slice_pair vals 2;
     Some (interpolate_pair first challenge, interpolate_pair second challenge)
   }"

definition fold_table :: "'a::field list \<Rightarrow> 'a \<Rightarrow> 'a list option" where
  "fold_table input challenge =
     those (map (\<lambda>pair. map_option (\<lambda>pair. interpolate_pair pair challenge) (slice_pair pair 0)) (chunks_exact 2 input))"

definition fold_product_tables :: "'a::field product_tables \<Rightarrow> 'a \<Rightarrow> 'a product_tables option" where
  "fold_product_tables input challenge = do {
     az \<leftarrow> fold_table (pt_az input) challenge;
     bz \<leftarrow> fold_table (pt_bz input) challenge;
     cz \<leftarrow> fold_table (pt_cz input) challenge;
     Some \<lparr>pt_az = az, pt_bz = bz, pt_cz = cz\<rparr>
   }"

text \<open>The reads of a pair stay in its chunk; \<open>folded_table\<close> is the value of the fold.\<close>

definition folded_table :: "'a::field list \<Rightarrow> 'a \<Rightarrow> 'a list" where
  "folded_table xs c = map (\<lambda>pair. interpolate_pair (pair ! 0, pair ! 1) c) (chunks_exact 2 xs)"

definition folded_products :: "'a::field product_tables \<Rightarrow> 'a \<Rightarrow> 'a product_tables" where
  "folded_products t c = \<lparr>pt_az = folded_table (pt_az t) c, pt_bz = folded_table (pt_bz t) c, pt_cz = folded_table (pt_cz t) c\<rparr>"

lemma chunks_exact_2_length: "length (chunks_exact 2 xs) = length xs div 2"
proof (induction xs rule: induct_list012)
  case (3 x y zs)
  then show ?case by (simp add: chunks_exact.simps [of 2])
qed (simp_all add: chunks_exact.simps)

lemma chunks_exact_length: "chunk \<in> set (chunks_exact n xs) \<Longrightarrow> length chunk = n"
  by (induction n xs rule: chunks_exact.induct) (subst (asm) (2) chunks_exact.simps, auto split: if_splits)

lemma folded_table_length [simp]: "length (folded_table xs c) = length xs div 2"
  by (simp add: folded_table_def chunks_exact_2_length)

lemma fold_table_folded [simp]: "fold_table xs c = Some (folded_table xs c)"
  unfolding fold_table_def folded_table_def
  by (intro those_map_Some) (simp add: chunks_exact_length)

lemma fold_product_tables_folded [simp]: "fold_product_tables t c = Some (folded_products t c)"
  by (simp add: fold_product_tables_def folded_products_def)

text \<open>One chunk of four entries: the two folded_table pairs of each table and the sum extended by the next
  round's contribution.\<close>

definition fold_product_chunk ::
  "'a::field product_tables \<Rightarrow> 'a \<Rightarrow> 'a equality_pairs \<Rightarrow> 'a list \<times> 'a product_tables \<Rightarrow> nat
   \<Rightarrow> ('a list \<times> 'a product_tables) option" where
  "fold_product_chunk input challenge pairs acc chunk = do {
     let (s, out) = acc;
     let input_start = 4 * chunk;
     az \<leftarrow> slice_range (pt_az input) input_start (input_start + 4);
     bz \<leftarrow> slice_range (pt_bz input) input_start (input_start + 4);
     cz \<leftarrow> slice_range (pt_cz input) input_start (input_start + 4);
     az \<leftarrow> fold_two_pairs az challenge;
     bz \<leftarrow> fold_two_pairs bz challenge;
     cz \<leftarrow> fold_two_pairs cz challenge;
     eq \<leftarrow> equality_pair pairs chunk;
     Some (add_coefficients s (cubic_contribution eq az bz cz),
       \<lparr>pt_az = pt_az out @ [fst az, snd az], pt_bz = pt_bz out @ [fst bz, snd bz],
        pt_cz = pt_cz out @ [fst cz, snd cz]\<rparr>)
   }"

definition fold_products_and_compute_next ::
  "'a::field product_tables \<Rightarrow> 'a \<Rightarrow> 'a equality_pairs \<Rightarrow> ('a list \<times> 'a product_tables) option" where
  "fold_products_and_compute_next input challenge pairs =
     (let chunk_count = product_tables_len input div 2 div 2
      in fold_option (fold_product_chunk input challenge pairs)
           (replicate 3 0, \<lparr>pt_az = [], pt_bz = [], pt_cz = []\<rparr>) [0..<chunk_count])"

record 'a outer_state =
  ou_products :: "'a product_tables"
  ou_eq_low :: "'a list"
  ou_eq_high :: "'a list"
  ou_coefficients :: "'a list"
  ou_log :: "'a round_log"

text \<open>The loop that binds the low equality variables, then the one that binds the high ones.\<close>

definition outer_low_step :: "'a::field outer_state \<Rightarrow> 'a \<Rightarrow> 'a round_log \<Rightarrow> 'a outer_state option" where
  "outer_low_step st challenge log = do {
     let next_product_len = product_tables_len (ou_products st) div 2;
     eq_low \<leftarrow> fold_table (ou_eq_low st) challenge;
     (coefficients, products) \<leftarrow>
       (if 1 < next_product_len
        then do {
          pairs \<leftarrow> equality_pairs_new eq_low (ou_eq_high st);
          fold_products_and_compute_next (ou_products st) challenge pairs
        } else map_option (Pair (ou_coefficients st)) (fold_product_tables (ou_products st) challenge));
     Some \<lparr>ou_products = products, ou_eq_low = eq_low, ou_eq_high = ou_eq_high st,
           ou_coefficients = coefficients, ou_log = log\<rparr>
   }"

definition outer_high_step :: "'a::field outer_state \<Rightarrow> 'a \<Rightarrow> 'a round_log \<Rightarrow> 'a outer_state option" where
  "outer_high_step st challenge log = do {
     let next_eq_high_len = length (ou_eq_high st) div 2;
     eq_high \<leftarrow> fold_table (ou_eq_high st) challenge;
     (coefficients, products) \<leftarrow>
       (if next_eq_high_len = 1 then map_option (Pair (ou_coefficients st)) (fold_product_tables (ou_products st) challenge)
        else do {
          pairs \<leftarrow> equality_pairs_new (ou_eq_low st) eq_high;
          fold_products_and_compute_next (ou_products st) challenge pairs
        });
     Some \<lparr>ou_products = products, ou_eq_low = ou_eq_low st, ou_eq_high = eq_high,
           ou_coefficients = coefficients, ou_log = log\<rparr>
   }"

lemma outer_low_step_halves: "outer_low_step st c log = Some st' \<Longrightarrow> length (ou_eq_low st') = length (ou_eq_low st) div 2"
  by (auto simp: outer_low_step_def Let_def bind_eq_Some_conv)

lemma outer_high_step_halves: "outer_high_step st c log = Some st' \<Longrightarrow> length (ou_eq_high st') = length (ou_eq_high st) div 2"
  by (auto simp: outer_high_step_def Let_def bind_eq_Some_conv)

function outer_low_loop ::
  "('a::field, 't) field_transcript \<Rightarrow> 'a outer_state \<Rightarrow> 't \<Rightarrow> ('a outer_state \<times> 't) option" where
  "outer_low_loop T st transcript =
     (if length (ou_eq_low st) \<le> 1 then Some (st, transcript)
      else case recover_full_round_polynomial T transcript (ou_log st) (ou_coefficients st) of
          None \<Rightarrow> None
        | Some ((challenge, log), transcript) \<Rightarrow>
            (case outer_low_step st challenge log of
               None \<Rightarrow> None
             | Some st \<Rightarrow> outer_low_loop T st transcript))"
  by pat_completeness auto
termination
  by (relation "measure (\<lambda>(T, st, transcript). length (ou_eq_low st))") (auto dest: outer_low_step_halves)

function outer_high_loop ::
  "('a::field, 't) field_transcript \<Rightarrow> 'a outer_state \<Rightarrow> 't \<Rightarrow> ('a outer_state \<times> 't) option" where
  "outer_high_loop T st transcript =
     (if length (ou_eq_high st) \<le> 1 then Some (st, transcript)
      else case recover_full_round_polynomial T transcript (ou_log st) (ou_coefficients st) of
          None \<Rightarrow> None
        | Some ((challenge, log), transcript) \<Rightarrow>
            (case outer_high_step st challenge log of
               None \<Rightarrow> None
             | Some st \<Rightarrow> outer_high_loop T st transcript))"
  by pat_completeness auto
termination
  by (relation "measure (\<lambda>(T, st, transcript). length (ou_eq_high st))") (auto dest: outer_high_step_halves)

declare outer_low_loop.simps [simp del] outer_high_loop.simps [simp del]

definition prove_outer_sumcheck ::
  "('a::field, 't) field_transcript \<Rightarrow> 't \<Rightarrow> 'a \<Rightarrow> 'a dense_mle \<times> 'a dense_mle \<Rightarrow> 'a r1cs_product_mles
   \<Rightarrow> (sumcheck_error + 'a outer_sumcheck_output \<times> 't) option" where
  "prove_outer_sumcheck T transcript initial_claim factors products =
     (let (eq_low, eq_high) = factors;
          num_vars = mle_num_vars (pm_az products)
      in if mle_num_vars (pm_bz products) \<noteq> num_vars \<or> mle_num_vars (pm_cz products) \<noteq> num_vars
         then Some (Inl SumcheckProductDimensions)
         else if mle_num_vars eq_low + mle_num_vars eq_high \<noteq> num_vars
         then Some (Inl InvalidEqualityDimensions)
         else do {
           let tables = product_tables_from_mles products;
           let eq_low = evaluations eq_low;
           let eq_high = evaluations eq_high;
           pairs \<leftarrow> equality_pairs_new eq_low eq_high;
           coefficients \<leftarrow> compute_coefficients_without_linear tables pairs;
           let st = \<lparr>ou_products = tables, ou_eq_low = eq_low, ou_eq_high = eq_high, ou_coefficients = coefficients,
                 ou_log = \<lparr>rl_current_claim = initial_claim, rl_round_polynomials = [], rl_eval_points = []\<rparr>\<rparr>;
           (st, transcript) \<leftarrow> outer_low_loop T st transcript;
           (st, transcript) \<leftarrow> outer_high_loop T st transcript;
           az \<leftarrow> slice_get (pt_az (ou_products st)) 0;
           bz \<leftarrow> slice_get (pt_bz (ou_products st)) 0;
           cz \<leftarrow> slice_get (pt_cz (ou_products st)) 0;
           let transcript = ft_message T [az, bz, cz] transcript;
           Some (Inr
             (\<lparr>oso_proof =
                 \<lparr>osp_sumcheck = \<lparr>round_polynomials = rl_round_polynomials (ou_log st)\<rparr>,
                  osp_az_mle_claim = az, osp_bz_mle_claim = bz, osp_cz_mle_claim = cz\<rparr>,
               oso_eval_points = rl_eval_points (ou_log st),
               oso_final_claim = rl_current_claim (ou_log st)\<rparr>, transcript))
         })"

section \<open>The inner prover\<close>

definition inner_pair_coefficients :: "'a::field \<times> 'a \<Rightarrow> 'a \<times> 'a \<Rightarrow> 'a list" where
  "inner_pair_coefficients batched_matrix witness =
     (let (matrix_zero, matrix_one) = batched_matrix; (witness_zero, witness_one) = witness
      in [matrix_zero * witness_zero, (matrix_one - matrix_zero) * (witness_one - witness_zero)])"

definition sum_inner_round_coefficients :: "'a::field list \<Rightarrow> 'a list \<Rightarrow> 'a list option" where
  "sum_inner_round_coefficients batched_matrix witness =
     fold_option (\<lambda>s (matrix, wit). do {
         matrix_pair \<leftarrow> slice_pair matrix 0;
         witness_pair \<leftarrow> slice_pair wit 0;
         Some (add_coefficients s (inner_pair_coefficients matrix_pair witness_pair))
       }) (replicate 2 0) (zip (chunks_exact 2 batched_matrix) (chunks_exact 2 witness))"

definition fold_inner_chunk ::
  "'a::field \<Rightarrow> 'a list \<times> 'a list \<times> 'a list \<Rightarrow> 'a list \<times> 'a list \<Rightarrow> ('a list \<times> 'a list \<times> 'a list) option" where
  "fold_inner_chunk challenge acc quads = do {
     let (batched_matrix, witness) = quads;
     let (s, matrix_out, witness_out) = acc;
     folded_matrix \<leftarrow> fold_two_pairs batched_matrix challenge;
     folded_witness \<leftarrow> fold_two_pairs witness challenge;
     Some (add_coefficients s (inner_pair_coefficients folded_matrix folded_witness),
       matrix_out @ [fst folded_matrix, snd folded_matrix], witness_out @ [fst folded_witness, snd folded_witness])
   }"

definition fold_and_compute_next_inner ::
  "'a::field list \<Rightarrow> 'a list \<Rightarrow> 'a \<Rightarrow> ('a list \<times> 'a list \<times> 'a list) option" where
  "fold_and_compute_next_inner batched_matrix witness challenge =
     fold_option (fold_inner_chunk challenge) (replicate 2 0, [], [])
       (zip (chunks_exact 4 batched_matrix) (chunks_exact 4 witness))"

record 'a inner_state =
  in_matrix :: "'a list"
  in_witness :: "'a list"
  in_coefficients :: "'a list"
  in_log :: "'a round_log"

definition inner_step :: "'a::field inner_state \<Rightarrow> 'a \<Rightarrow> 'a round_log \<Rightarrow> 'a inner_state option" where
  "inner_step st challenge log =
     (let matrix = in_matrix st; witness = in_witness st
      in if length matrix div 2 = 1 then do {
           matrix_pair \<leftarrow> slice_pair matrix 0;
           witness_pair \<leftarrow> slice_pair witness 0;
           Some \<lparr>in_matrix = [interpolate_pair matrix_pair challenge], in_witness = [interpolate_pair witness_pair challenge],
                 in_coefficients = in_coefficients st, in_log = log\<rparr>
         } else do {
           (coefficients, matrix_out, witness_out) \<leftarrow> fold_and_compute_next_inner matrix witness challenge;
           Some \<lparr>in_matrix = matrix_out, in_witness = witness_out, in_coefficients = coefficients, in_log = log\<rparr>
         })"

fun inner_loop ::
  "('a::field, 't) field_transcript \<Rightarrow> nat \<Rightarrow> 'a inner_state \<Rightarrow> 't \<Rightarrow> ('a inner_state \<times> 't) option" where
  "inner_loop T 0 st transcript = Some (st, transcript)"
| "inner_loop T (Suc rounds) st transcript =
     (case recover_full_round_polynomial T transcript (in_log st) (in_coefficients st) of
        None \<Rightarrow> None
      | Some ((challenge, log), transcript) \<Rightarrow>
          (case inner_step st challenge log of None \<Rightarrow> None | Some st \<Rightarrow> inner_loop T rounds st transcript))"

definition prove_inner_sumcheck ::
  "('a::field, 't) field_transcript \<Rightarrow> 't \<Rightarrow> 'a \<Rightarrow> 'a dense_mle \<Rightarrow> 'a dense_mle
   \<Rightarrow> (sumcheck_error + 'a inner_sumcheck_output \<times> 't) option" where
  "prove_inner_sumcheck T transcript initial_claim batched_matrix_mle witness_mle =
     (let num_vars = mle_num_vars batched_matrix_mle
      in if mle_num_vars witness_mle \<noteq> num_vars then Some (Inl SumcheckProductDimensions)
         else do {
           let matrix = evaluations batched_matrix_mle;
           let witness = evaluations witness_mle;
           coefficients \<leftarrow> (if 0 < num_vars then sum_inner_round_coefficients matrix witness else Some []);
           (st, transcript) \<leftarrow> inner_loop T num_vars
             \<lparr>in_matrix = matrix, in_witness = witness, in_coefficients = coefficients,
              in_log = \<lparr>rl_current_claim = initial_claim, rl_round_polynomials = [], rl_eval_points = []\<rparr>\<rparr> transcript;
           witness_evaluation \<leftarrow> slice_get (in_witness st) 0;
           batched_matrix_evaluation \<leftarrow> slice_get (in_matrix st) 0;
           Some (Inr
             (\<lparr>iso_sumcheck =
                 \<lparr>spo_proof = \<lparr>round_polynomials = rl_round_polynomials (in_log st)\<rparr>,
                  spo_eval_points = rl_eval_points (in_log st), spo_final_claim = rl_current_claim (in_log st)\<rparr>,
               iso_batched_matrix_evaluation = batched_matrix_evaluation,
               iso_witness_evaluation = witness_evaluation\<rparr>, transcript))
         })"

end
