(* ===== verification/Spartan_Rounds.thy ===== *)
theory Spartan_Rounds
  imports Spartan_Sumcheck Poly_Nat
begin

text \<open>
  The rounds of a sumcheck, once for all provers.  \<open>replayed\<close> is the contract between the two
  transcripts, \<open>round_tables\<close> the contract between the tables of a prover and its round messages: the
  reconstructed polynomial of a round interpolates the sums of the bound tables.  Under these
  contracts a reference prover that binds one variable per round convinces the verifier, and a
  verifier that is led from a false claim to a true one was led there by a challenge that is a root of
  a fixed non-zero polynomial.
\<close>

section \<open>Round polynomials\<close>

lemma evaluate_polynomial_horner: "evaluate_polynomial cs x = horner cs x"
proof -
  have "foldl (\<lambda>v c. v * x + c) 0 (rev cs) = horner cs x" for cs
    by (induction cs) (simp_all add: mult.commute add.commute)
  then show ?thesis by (simp add: evaluate_polynomial_def)
qed

lemma foldl_plus: "foldl (+) a xs = a + sum_list xs" for a :: "'a::comm_monoid_add"
  by (induction xs arbitrary: a) (simp_all add: add.assoc)

lemma horner_0: "horner cs 0 = (if cs = [] then 0 else cs ! 0)"
  by (cases cs) simp_all

lemma horner_1: "horner cs 1 = sum_list cs"
  by (induction cs) simp_all

lemma round_check:
  "cs \<noteq> [] \<Longrightarrow> cs ! 0 + foldl (+) 0 cs = horner cs 0 + horner cs 1"
  by (simp add: foldl_plus horner_0 horner_1)

lemma horner_diff:
  "\<exists>ds. length ds = max (length cs) (length cs') \<and> (\<forall>x. horner ds x = horner cs x - horner cs' x)"
proof (induction cs arbitrary: cs')
  case Nil
  have "horner (map uminus cs') x = - horner cs' x" for x by (induction cs') (simp_all add: algebra_simps)
  then show ?case by (intro exI [of _ "map uminus cs'"]) simp
next
  case (Cons c cs)
  show ?case
  proof (cases cs')
    case Nil
    then show ?thesis by (intro exI [of _ "c # cs"]) simp
  next
    case (Cons c' ds')
    obtain ds where "length ds = max (length cs) (length ds')" "\<forall>x. horner ds x = horner cs x - horner ds' x"
      using Cons.IH by blast
    then have "horner ((c - c') # ds) x = horner (c # cs) x - horner cs' x" for x
      by (simp only: Cons horner.simps) (simp add: algebra_simps)
    with Cons \<open>length ds = _\<close> show ?thesis by (intro exI [of _ "(c - c') # ds"]) simp
  qed
qed

text \<open>Two polynomials that differ somewhere agree in fewer points than the longer has coefficients.\<close>

lemma agreement_bound:
  fixes cs cs' :: "'a::field list"
  assumes "horner cs y \<noteq> horner cs' y" "length cs \<le> n" "length cs' \<le> n"
  shows "finite {x. horner cs x = horner cs' x} \<and> card {x. horner cs x = horner cs' x} \<le> n - 1"
proof -
  let ?A = "{x. horner cs x = horner cs' x}"
  obtain ds where ds: "length ds = max (length cs) (length cs')" "\<And>x. horner ds x = horner cs x - horner cs' x"
    using horner_diff [of cs cs'] by blast
  then have len: "length ds \<le> n" using assms(2,3) by simp
  have bound: "card B < n" if b: "finite B" "B \<subseteq> ?A" for B
  proof (rule ccontr)
    assume "\<not> card B < n"
    moreover obtain rs where rs: "set rs = B" "distinct rs" using finite_distinct_list [OF b(1)] by blast
    ultimately have "length ds \<le> length rs" "\<forall>r\<in>set rs. horner ds r = 0"
      using ds len b(2) distinct_card [of rs] by auto
    from horner_roots [OF this(1) rs(2) this(2), of y] assms(1) ds(2) show False by simp
  qed
  have "finite ?A"
  proof (rule ccontr)
    assume "infinite ?A"
    then obtain B where "finite B" "card B = n" "B \<subseteq> ?A" by (metis infinite_arbitrarily_large)
    with bound [of B] show False by simp
  qed
  with bound [of ?A] show ?thesis by auto
qed

lemma reconstruct_round_value:
  "cs \<noteq> [] \<Longrightarrow> reconstruct_round_coefficients claim cs
     = cs ! 0 # (claim - cs ! 0 - sum_list cs) # drop 1 cs"
  by (cases cs) (simp_all add: reconstruct_round_coefficients_def Let_def foldl_plus)

lemma reconstruct_round_check:
  assumes "cs \<noteq> []"
  shows "horner (reconstruct_round_coefficients claim cs) 0 + horner (reconstruct_round_coefficients claim cs) 1 = claim"
  using assms by (cases cs) (simp_all add: reconstruct_round_value horner_1)

section \<open>The two transcripts\<close>

locale replayed =
  fixes P :: "('a::field, 'p) field_transcript" and V :: "('a, 'v) field_transcript" and R :: "'p \<Rightarrow> 'v \<Rightarrow> bool"
  assumes message_related: "R p v \<Longrightarrow> R (ft_message P xs p) (ft_message V xs v)"
    and bytes_related: "R p v \<Longrightarrow> R (ft_bytes P bs p) (ft_bytes V bs v)"
    and squeeze_related: "R p v \<Longrightarrow> ft_squeeze P p = Some (c, p') \<Longrightarrow> \<exists>v'. ft_squeeze V v = Some (c, v') \<and> R p' v'"

text \<open>Sampling that always returns.\<close>

definition squeezes :: "('a, 't) field_transcript \<Rightarrow> bool" where
  "squeezes T \<longleftrightarrow> (\<forall>t. ft_squeeze T t \<noteq> None)"

text \<open>The binary field over the transcript states of the crate.\<close>

definition f128_prover_transcript :: "'s spongefish \<Rightarrow> (f128, 's prover_state) field_transcript" where
  "f128_prover_transcript S =
     \<lparr>ft_message = \<lambda>xs. ps_public_message S (concat (map f128_encode xs)), ft_bytes = ps_public_message S,
      ft_squeeze = \<lambda>p. Some (f128_from_squeezes (ps_next_u128 S) p)\<rparr>"

definition f128_verifier_transcript :: "'s spongefish \<Rightarrow> (f128, 's verifier_state) field_transcript" where
  "f128_verifier_transcript S =
     \<lparr>ft_message = \<lambda>xs. vs_public_message S (concat (map f128_encode xs)), ft_bytes = vs_public_message S,
      ft_squeeze = \<lambda>v. Some (f128_from_squeezes (vs_next_u128 S) v)\<rparr>"

interpretation f128_transcripts: replayed "f128_prover_transcript S" "f128_verifier_transcript S" "\<lambda>p v. v = replay N H p" for S N H
proof unfold_locales
  show "ft_message (f128_verifier_transcript S) xs v = replay N H (ft_message (f128_prover_transcript S) xs p)"
    if "v = replay N H p" for p v xs
    using that by (simp add: f128_prover_transcript_def f128_verifier_transcript_def public_replay)
  show "ft_bytes (f128_verifier_transcript S) bs v = replay N H (ft_bytes (f128_prover_transcript S) bs p)"
    if "v = replay N H p" for p v bs
    using that by (simp add: f128_prover_transcript_def f128_verifier_transcript_def public_replay)
  show "\<exists>v'. ft_squeeze (f128_verifier_transcript S) v = Some (c, v') \<and> v' = replay N H p'"
    if "v = replay N H p" "ft_squeeze (f128_prover_transcript S) p = Some (c, p')" for p v c p'
    using that by (auto simp: f128_prover_transcript_def f128_verifier_transcript_def f128_from_squeezes_def next_replay)
qed

lemma f128_squeezes: "squeezes (f128_prover_transcript S)"
  by (simp add: squeezes_def f128_prover_transcript_def)

section \<open>The reference prover\<close>

lemma map_sum_eq_Inr: "map_sum f g x = Inr y \<longleftrightarrow> (\<exists>z. x = Inr z \<and> y = g z)"
  by (cases x) auto

fun reference_rounds ::
  "('a::field, 't) field_transcript \<Rightarrow> ('s \<Rightarrow> 'a list) \<Rightarrow> ('s \<Rightarrow> 'a \<Rightarrow> 's) \<Rightarrow> nat \<Rightarrow> 's \<Rightarrow> 'a round_log \<Rightarrow> 't
   \<Rightarrow> (('s \<times> 'a round_log) \<times> 't) option" where
  "reference_rounds T cf fix_var 0 s log t = Some ((s, log), t)"
| "reference_rounds T cf fix_var (Suc n) s log t =
     (case recover_full_round_polynomial T t log (cf s) of
        None \<Rightarrow> None
      | Some ((c, log), t) \<Rightarrow> reference_rounds T cf fix_var n (fix_var s c) log t)"

lemma recover_some:
  assumes "squeezes T"
  shows "\<exists>r. recover_full_round_polynomial T t log cs = Some r"
proof -
  obtain c t' where "ft_squeeze T (ft_message T (reconstruct_round_coefficients (rl_current_claim log) cs) t) = Some (c, t')"
    using assms unfolding squeezes_def by fast
  then show ?thesis by (simp add: recover_full_round_polynomial_def Let_def)
qed

lemma reference_rounds_some: "squeezes T \<Longrightarrow> \<exists>r. reference_rounds T cf fix_var n s log t = Some r"
proof (induction n arbitrary: s log t)
  case (Suc n)
  obtain c log' t' where "recover_full_round_polynomial T t log (cf s) = Some ((c, log'), t')"
    using recover_some [OF Suc.prems] by fast
  with Suc show ?case by simp
qed simp

locale round_tables =
  fixes cf :: "'s \<Rightarrow> 'a::field list" and fix_var :: "'s \<Rightarrow> 'a \<Rightarrow> 's" and total_of :: "'s \<Rightarrow> 'a"
    and vars :: "nat \<Rightarrow> 's \<Rightarrow> bool" and degree :: nat
  assumes vars_bind: "vars (Suc n) s \<Longrightarrow> vars n (fix_var s x)"
    and length_cf: "vars (Suc n) s \<Longrightarrow> length (cf s) = degree \<and> 0 < degree"
    and total_bind: "vars (Suc n) s \<Longrightarrow>
      evaluate_polynomial (reconstruct_round_coefficients (total_of s) (cf s)) x = total_of (fix_var s x)"
begin

lemma reference_vars:
  "vars n s \<Longrightarrow> reference_rounds T cf fix_var n s log t = Some ((s', log'), t') \<Longrightarrow> vars 0 s'"
proof (induction n arbitrary: s log t)
  case (Suc n)
  then show ?case using vars_bind by (fastforce split: option.splits)
qed simp

lemma foldl_bind_Cons: "foldl fix_var s (c # cs) = foldl fix_var (fix_var s c) cs"
  by simp

lemma reference_complete:
  assumes "replayed P V R"
  shows "vars n s \<Longrightarrow> rl_current_claim log = total_of s \<Longrightarrow>
    reference_rounds P cf fix_var n s log p = Some ((s', log'), p') \<Longrightarrow> R p v \<Longrightarrow>
    \<exists>polys points v'. rl_round_polynomials log' = rl_round_polynomials log @ polys \<and>
      rl_eval_points log' = rl_eval_points log @ points \<and> length polys = n \<and> length points = n \<and>
      s' = foldl fix_var s points \<and> vars 0 s' \<and> rl_current_claim log' = total_of s' \<and> R p' v' \<and>
      sumcheck_verify_loop V polys round (total_of s) v = Some (Inr ((points, total_of s'), v'))"
proof (induction n arbitrary: s log p v round)
  case 0
  then show ?case by auto
next
  case (Suc n)
  let ?cs = "reconstruct_round_coefficients (total_of s) (cf s)"
  have ne: "cf s \<noteq> []" using length_cf [OF Suc.prems(1)] by auto
  obtain c log1 p1 where rec: "recover_full_round_polynomial P p log (cf s) = Some ((c, log1), p1)"
    and rest: "reference_rounds P cf fix_var n (fix_var s c) log1 p1 = Some ((s', log'), p')"
    using Suc.prems(3) by (auto split: option.splits)
  have sq: "ft_squeeze P (ft_message P ?cs p) = Some (c, p1)"
    and log1: "log1 = \<lparr>rl_current_claim = evaluate_polynomial ?cs c, rl_round_polynomials = rl_round_polynomials log @ [?cs],
                rl_eval_points = rl_eval_points log @ [c]\<rparr>"
    using rec Suc.prems(2) by (auto simp: recover_full_round_polynomial_def Let_def split: option.splits prod.splits)
  obtain v1 where v1: "ft_squeeze V (ft_message V ?cs v) = Some (c, v1)" "R p1 v1"
    using replayed.squeeze_related [OF assms replayed.message_related [OF assms Suc.prems(4)] sq] by blast
  have "rl_current_claim log1 = total_of (fix_var s c)" by (simp add: log1 total_bind [OF Suc.prems(1)])
  from Suc.IH [OF vars_bind [OF Suc.prems(1)] this rest v1(2), of "Suc round"]
  obtain polys points v' where ih: "rl_round_polynomials log' = rl_round_polynomials log1 @ polys"
      "rl_eval_points log' = rl_eval_points log1 @ points" "length polys = n" "length points = n"
      "s' = foldl fix_var (fix_var s c) points" "vars 0 s'" "rl_current_claim log' = total_of s'" "R p' v'"
      "sumcheck_verify_loop V polys (Suc round) (total_of (fix_var s c)) v1 = Some (Inr ((points, total_of s'), v'))"
    by (elim exE conjE)
  have "?cs \<noteq> []" using ne by (simp add: reconstruct_round_value)
  from round_check [OF this] have "?cs ! 0 + foldl (+) 0 ?cs = total_of s"
    by (simp only: reconstruct_round_check [OF ne])
  then have "sumcheck_verify_loop V (?cs # polys) round (total_of s) v = Some (Inr ((c # points, total_of s'), v'))"
    using v1(1) ih(9) by (simp add: total_bind [OF Suc.prems(1)])
  then show ?case
    by (intro exI [of _ "?cs # polys"] exI [of _ "c # points"] exI [of _ v']) (use ih(1-8) log1 in simp)
qed

text \<open>A false claim becomes true in a round whose challenge is a root.\<close>

lemma verifier_sound:
  "vars (length polys) s \<Longrightarrow> \<forall>q\<in>set polys. length q = Suc degree \<Longrightarrow>
   sumcheck_verify_loop V polys round claim v = Some (Inr ((points, final), v')) \<Longrightarrow>
   claim \<noteq> total_of s \<Longrightarrow> final = total_of (foldl fix_var s points) \<Longrightarrow>
   \<exists>k<length polys. points ! k \<in> {x. horner (polys ! k) x = total_of (fix_var (foldl fix_var s (take k points)) x)} \<and>
     finite {x. horner (polys ! k) x = total_of (fix_var (foldl fix_var s (take k points)) x)} \<and>
     card {x. horner (polys ! k) x = total_of (fix_var (foldl fix_var s (take k points)) x)} \<le> degree"
proof (induction polys arbitrary: s round claim v points)
  case Nil
  then show ?case by simp
next
  case (Cons q polys)
  let ?B = "\<lambda>q s. {x. horner q x = total_of (fix_var s x)}"
  have vs: "vars (Suc (length polys)) s" using Cons.prems(1) by simp
  have q: "q \<noteq> []" using Cons.prems(2) by auto
  have check: "horner q 0 + horner q 1 = claim"
    using Cons.prems(3) round_check [OF q] by (auto simp: Let_def split: if_splits)
  obtain c v1 points' where c: "points = c # points'"
      "sumcheck_verify_loop V polys (Suc round) (horner q c) v1 = Some (Inr ((points', final), v'))"
    using Cons.prems(3) by (auto simp: Let_def evaluate_polynomial_horner map_sum_eq_Inr split: if_splits option.splits)
  show ?case
  proof (cases "horner q c = total_of (fix_var s c)")
    case True
    let ?t = "reconstruct_round_coefficients (total_of s) (cf s)"
    have cf: "length (cf s) = degree" "cf s \<noteq> []" using length_cf [OF vs] by auto
    have t: "horner ?t x = total_of (fix_var s x)" for x
      using total_bind [OF vs] by (simp add: evaluate_polynomial_horner)
    have "length ?t = Suc degree" using cf by (cases "cf s") (simp_all add: reconstruct_round_value)
    moreover have "\<exists>y. horner q y \<noteq> horner ?t y"
      using check reconstruct_round_check [OF cf(2), of "total_of s"] Cons.prems(4) by metis
    ultimately have "finite (?B q s) \<and> card (?B q s) \<le> degree"
      using agreement_bound [of q _ ?t "Suc degree"] Cons.prems(2) by (auto simp: t)
    with True c(1) show ?thesis by (intro exI [of _ 0]) simp
  next
    case False
    have "\<forall>q\<in>set polys. length q = Suc degree" using Cons.prems(2) by simp
    from Cons.IH [OF vars_bind [OF vs] this c(2) False] Cons.prems(5) c(1)
    obtain k where "k < length polys" "points' ! k \<in> ?B (polys ! k) (foldl fix_var (fix_var s c) (take k points'))"
      "finite (?B (polys ! k) (foldl fix_var (fix_var s c) (take k points')))"
      "card (?B (polys ! k) (foldl fix_var (fix_var s c) (take k points'))) \<le> degree" by auto
    with c(1) show ?thesis by (intro exI [of _ "Suc k"]) simp
  qed
qed

end

end
