(* ===== verification/Spartan_Tables.thy ===== *)
theory Spartan_Tables
  imports Spartan_Rounds
begin

text \<open>
  The tables of the two sumcheck provers as instances of \<open>round_tables\<close>: folding a table binds the lowest
  variable of its multilinear extension, and the reconstructed round polynomial is the sum over the
  remaining cube, of degree 3 for the outer and of degree 2 for the inner sumcheck.
\<close>

section \<open>Folding\<close>

lemma interpolate_pair_eq [simp]: "interpolate_pair (a, b) c = interpolate a b c"
  by (simp add: interpolate_pair_def interpolate_def)

lemma chunks_pairs_nth: "length xs = 2 * n \<Longrightarrow> chunks_exact 2 xs = map (\<lambda>k. [xs ! (2 * k), xs ! (2 * k + 1)]) [0..<n]"
proof -
  assume l: "length xs = 2 * n"
  have "take 2 (drop (2 * k) xs) = [xs ! (2 * k), xs ! (2 * k + 1)]" if "k < n" for k
    using that l by (intro nth_equalityI) (auto simp: less_2_cases_iff nth_append)
  with l show ?thesis by (simp add: chunks_exact_map [of 2 xs n])
qed

lemma folded_table_map:
  "length xs = 2 * n \<Longrightarrow> folded_table xs c = map (\<lambda>k. interpolate (xs ! (2 * k)) (xs ! (2 * k + 1)) c) [0..<n]"
  by (simp add: folded_table_def chunks_pairs_nth)

lemma folded_table_nth:
  "length xs = 2 * n \<Longrightarrow> k < n \<Longrightarrow> folded_table xs c ! k = interpolate (xs ! (2 * k)) (xs ! (2 * k + 1)) c"
  by (simp add: folded_table_map)

lemma mle_sum_folded_table:
  "length xs = 2 ^ Suc (length r) \<Longrightarrow> mle_sum (folded_table xs c) r = mle_sum xs (c # r)"
  by (simp add: mle_sum_Cons folded_table_map [of xs "2 ^ length r"])

lemma mle_sum_folds:
  "length xs = 2 ^ length r \<Longrightarrow> foldl folded_table xs r = [mle_sum xs r]"
proof (induction r arbitrary: xs)
  case Nil
  then have "length xs = 1" by simp
  then obtain a where "xs = [a]" by (cases xs) auto
  then show ?case by (simp add: mle_sum_def eq_weight_def)
next
  case (Cons c r)
  have "length (folded_table xs c) = 2 ^ length r" using Cons.prems by simp
  from Cons.IH [OF this] Cons.prems show ?case by (simp add: mle_sum_folded_table)
qed

section \<open>Sums of coefficient triples and pairs\<close>

lemma add_coefficients_3: "add_coefficients [a, b, c] [a', b', c'] = [a + a', b + b', c + c']"
  by (simp add: add_coefficients_def)

lemma add_coefficients_2: "add_coefficients [a, b] [a', b'] = [a + a', b + b']"
  by (simp add: add_coefficients_def)

lemma length_cubic [simp]: "length (cubic_contribution e a b c) = 3"
  by (simp add: cubic_contribution_def case_prod_unfold Let_def)

lemma list_3: "length xs = 3 \<Longrightarrow> xs = [xs ! 0, xs ! 1, xs ! 2]"
  by (intro nth_equalityI) (auto simp: less_Suc_eq numeral_3_eq_3 numeral_2_eq_2)

lemma list_2: "length xs = 2 \<Longrightarrow> xs = [xs ! 0, xs ! 1]"
  by (intro nth_equalityI) (auto simp: less_Suc_eq numeral_2_eq_2)

definition triple_sum :: "nat \<Rightarrow> (nat \<Rightarrow> 'a::field list) \<Rightarrow> 'a list" where
  "triple_sum n f = [\<Sum>p<n. f p ! 0, \<Sum>p<n. f p ! 1, \<Sum>p<n. f p ! 2]"

definition pair_sum :: "nat \<Rightarrow> (nat \<Rightarrow> 'a::field list) \<Rightarrow> 'a list" where
  "pair_sum n f = [\<Sum>p<n. f p ! 0, \<Sum>p<n. f p ! 1]"

lemma triple_sum_0: "replicate 3 0 = triple_sum 0 f"
  by (simp add: triple_sum_def numeral_3_eq_3)

lemma triple_sum_Suc: "length (f n) = 3 \<Longrightarrow> add_coefficients (triple_sum n f) (f n) = triple_sum (Suc n) f"
  by (subst list_3, assumption) (simp add: triple_sum_def add_coefficients_3)

lemma triple_sum_cong: "(\<And>p. p < n \<Longrightarrow> f p = g p) \<Longrightarrow> triple_sum n f = triple_sum n g"
  by (simp add: triple_sum_def)

lemma pair_sum_0: "replicate 2 0 = pair_sum 0 f"
  by (simp add: pair_sum_def numeral_2_eq_2)

lemma pair_sum_Suc: "length (f n) = 2 \<Longrightarrow> add_coefficients (pair_sum n f) (f n) = pair_sum (Suc n) f"
  by (subst list_2, assumption) (simp add: pair_sum_def add_coefficients_2)

lemma sum_coefficients_triple:
  assumes "\<And>p. p < n \<Longrightarrow> contribution p = Some (f p)" "\<And>p. length (f p) = 3"
  shows "sum_coefficients 3 n contribution = Some (triple_sum n f)"
  unfolding sum_coefficients_def
  by (rule fold_option_upt [where I = "\<lambda>k. triple_sum k f"]) (simp_all add: triple_sum_0 [of f] triple_sum_Suc assms)

text \<open>The reconstructed polynomial of a sum is the sum of the polynomials of its pairs.\<close>

lemma sum_of_cubics:
  fixes f g h t :: "nat \<Rightarrow> 'a::field"
  shows "(\<Sum>p<n. f p) + x * (((\<Sum>p<n. t p) - (\<Sum>p<n. f p) - ((\<Sum>p<n. f p) + (\<Sum>p<n. g p) + (\<Sum>p<n. h p)))
      + x * ((\<Sum>p<n. g p) + x * (\<Sum>p<n. h p)))
    = (\<Sum>p<n. f p + x * ((t p - f p - (f p + g p + h p)) + x * (g p + x * h p)))"
proof (induction n)
  case (Suc n)
  show ?case unfolding sum.lessThan_Suc Suc.IH [symmetric] by algebra
qed simp

lemma sum_of_quadratics:
  fixes f g t :: "nat \<Rightarrow> 'a::field"
  shows "(\<Sum>p<n. f p) + x * (((\<Sum>p<n. t p) - (\<Sum>p<n. f p) - ((\<Sum>p<n. f p) + (\<Sum>p<n. g p))) + x * (\<Sum>p<n. g p))
    = (\<Sum>p<n. f p + x * ((t p - f p - (f p + g p)) + x * g p))"
  using sum_of_cubics [of f n x t g "\<lambda>_. 0"] by simp

lemma cubic_round_value:
  "horner (reconstruct_round_coefficients claim [a, b, c]) x = a + x * ((claim - a - (a + b + c)) + x * (b + x * c))"
  by (simp add: reconstruct_round_value add.assoc)

lemma quadratic_round_value:
  "horner (reconstruct_round_coefficients claim [a, b]) x = a + x * ((claim - a - (a + b)) + x * b)"
  by (simp add: reconstruct_round_value)

section \<open>The outer tables\<close>

definition outer_cf :: "'a::field list \<times> 'a product_tables \<Rightarrow> 'a list" where
  "outer_cf s = (let (e, t) = s in triple_sum (length e div 2) (\<lambda>p. cubic_contribution
     (e ! (2 * p), e ! (2 * p + 1)) (pt_az t ! (2 * p), pt_az t ! (2 * p + 1))
     (pt_bz t ! (2 * p), pt_bz t ! (2 * p + 1)) (pt_cz t ! (2 * p), pt_cz t ! (2 * p + 1))))"

definition outer_bind :: "'a::field list \<times> 'a product_tables \<Rightarrow> 'a \<Rightarrow> 'a list \<times> 'a product_tables" where
  "outer_bind s c = (folded_table (fst s) c, folded_products (snd s) c)"

definition outer_total :: "'a::field list \<times> 'a product_tables \<Rightarrow> 'a" where
  "outer_total s = (let (e, t) = s in \<Sum>j<length e. e ! j * (pt_az t ! j * pt_bz t ! j - pt_cz t ! j))"

definition outer_vars :: "nat \<Rightarrow> 'a list \<times> 'a product_tables \<Rightarrow> bool" where
  "outer_vars n s \<longleftrightarrow> length (fst s) = 2 ^ n \<and> length (pt_az (snd s)) = 2 ^ n \<and>
     length (pt_bz (snd s)) = 2 ^ n \<and> length (pt_cz (snd s)) = 2 ^ n"

lemma cubic_value:
  fixes e0 :: "'a::field"
  assumes "cubic_contribution (e0, e1) (a0, a1) (b0, b1) (c0, c1) = [k0, k2, k3]"
  shows "k0 + x * ((e0 * (a0 * b0 - c0) + e1 * (a1 * b1 - c1) - k0 - (k0 + k2 + k3)) + x * (k2 + x * k3))
    = interpolate e0 e1 x * (interpolate a0 a1 x * interpolate b0 b1 x - interpolate c0 c1 x)"
proof -
  have k: "k0 = e0 * (a0 * b0 - c0)" "k2 = e0 * ((a1 - a0) * (b1 - b0)) + (e1 - e0) * (a0 * (b1 - b0) + (a1 - a0) * b0 - (c1 - c0))"
    "k3 = (e1 - e0) * ((a1 - a0) * (b1 - b0))"
    using assms by (simp_all add: cubic_contribution_def Let_def)
  show ?thesis unfolding k interpolate_def by algebra
qed

interpretation outer_tables: round_tables outer_cf outer_bind outer_total outer_vars 3
proof
  fix n and s :: "'a::field list \<times> 'a product_tables" and x
  assume v: "outer_vars (Suc n) s"
  then show "outer_vars n (outer_bind s x)"
    by (simp add: outer_vars_def outer_bind_def folded_products_def)
  show "length (outer_cf s) = 3 \<and> (0 :: nat) < 3" by (simp add: outer_cf_def triple_sum_def case_prod_unfold)
  obtain e t where s: "s = (e, t)" by fastforce
  let ?a = "pt_az t" and ?b = "pt_bz t" and ?c = "pt_cz t" and ?h = "2 ^ n :: nat"
  let ?i = "\<lambda>xs p. interpolate (xs ! (2 * p)) (xs ! (2 * p + 1)) x"
  let ?k = "\<lambda>p. cubic_contribution (e ! (2 * p), e ! (2 * p + 1)) (?a ! (2 * p), ?a ! (2 * p + 1))
      (?b ! (2 * p), ?b ! (2 * p + 1)) (?c ! (2 * p), ?c ! (2 * p + 1))"
  have l: "length e = 2 * ?h" "length ?a = 2 * ?h" "length ?b = 2 * ?h" "length ?c = 2 * ?h"
    using v by (simp_all add: outer_vars_def s)
  have tot: "outer_total s = (\<Sum>p<?h. e ! (2 * p) * (?a ! (2 * p) * ?b ! (2 * p) - ?c ! (2 * p))
      + e ! (2 * p + 1) * (?a ! (2 * p + 1) * ?b ! (2 * p + 1) - ?c ! (2 * p + 1)))"
    by (simp only: s outer_total_def prod.case Let_def l sum_double)
  have cf: "outer_cf s = triple_sum ?h ?k" by (simp add: s outer_cf_def l)
  have "evaluate_polynomial (reconstruct_round_coefficients (outer_total s) (outer_cf s)) x
      = (\<Sum>p<?h. ?k p ! 0 + x * ((e ! (2 * p) * (?a ! (2 * p) * ?b ! (2 * p) - ?c ! (2 * p))
      + e ! (2 * p + 1) * (?a ! (2 * p + 1) * ?b ! (2 * p + 1) - ?c ! (2 * p + 1)) - ?k p ! 0 - (?k p ! 0 + ?k p ! 1 + ?k p ! 2))
      + x * (?k p ! 1 + x * ?k p ! 2)))"
    unfolding cf tot evaluate_polynomial_horner triple_sum_def cubic_round_value by (rule sum_of_cubics)
  also have "\<dots> = (\<Sum>p<?h. ?i e p * (?i ?a p * ?i ?b p - ?i ?c p))"
    by (intro sum.cong refl cubic_value list_3) simp
  also have "\<dots> = outer_total (outer_bind s x)"
    using l by (simp add: s outer_total_def outer_bind_def folded_products_def folded_table_map [where n = ?h])
  finally show "evaluate_polynomial (reconstruct_round_coefficients (outer_total s) (outer_cf s)) x = outer_total (outer_bind s x)" .
qed

section \<open>The inner tables\<close>

definition inner_cf :: "'a::field list \<times> 'a list \<Rightarrow> 'a list" where
  "inner_cf s = (let (m, w) = s in pair_sum (length m div 2) (\<lambda>p. inner_pair_coefficients
     (m ! (2 * p), m ! (2 * p + 1)) (w ! (2 * p), w ! (2 * p + 1))))"

definition inner_bind :: "'a::field list \<times> 'a list \<Rightarrow> 'a \<Rightarrow> 'a list \<times> 'a list" where
  "inner_bind s c = (folded_table (fst s) c, folded_table (snd s) c)"

definition inner_total :: "'a::field list \<times> 'a list \<Rightarrow> 'a" where
  "inner_total s = (\<Sum>j<length (fst s). fst s ! j * snd s ! j)"

definition inner_vars :: "nat \<Rightarrow> 'a list \<times> 'a list \<Rightarrow> bool" where
  "inner_vars n s \<longleftrightarrow> length (fst s) = 2 ^ n \<and> length (snd s) = 2 ^ n"

lemma length_inner_pair [simp]: "length (inner_pair_coefficients m w) = 2"
  by (simp add: inner_pair_coefficients_def case_prod_unfold Let_def)

interpretation inner_tables: round_tables inner_cf inner_bind inner_total inner_vars 2
proof
  fix n and s :: "'a::field list \<times> 'a list" and x
  assume v: "inner_vars (Suc n) s"
  then show "inner_vars n (inner_bind s x)" by (simp add: inner_vars_def inner_bind_def)
  show "length (inner_cf s) = 2 \<and> (0 :: nat) < 2" by (simp add: inner_cf_def pair_sum_def case_prod_unfold)
  obtain m w where s: "s = (m, w)" by fastforce
  let ?h = "2 ^ n :: nat"
  have l: "length m = 2 * ?h" "length w = 2 * ?h" using v by (simp_all add: inner_vars_def s)
  have tot: "inner_total s = (\<Sum>p<?h. m ! (2 * p) * w ! (2 * p) + m ! (2 * p + 1) * w ! (2 * p + 1))"
    by (simp only: s inner_total_def fst_conv snd_conv l sum_double)
  have cf: "inner_cf s = [\<Sum>p<?h. m ! (2 * p) * w ! (2 * p),
      \<Sum>p<?h. (m ! (2 * p + 1) - m ! (2 * p)) * (w ! (2 * p + 1) - w ! (2 * p))]"
    by (simp add: s inner_cf_def l pair_sum_def inner_pair_coefficients_def)
  have e: "a * b + x * ((a * b + a' * b' - a * b - (a * b + (a' - a) * (b' - b))) + x * ((a' - a) * (b' - b)))
      = interpolate a a' x * interpolate b b' x" for a a' b b' :: 'a
    unfolding interpolate_def by algebra
  have "evaluate_polynomial (reconstruct_round_coefficients (inner_total s) (inner_cf s)) x
      = (\<Sum>p<?h. m ! (2 * p) * w ! (2 * p) + x * ((m ! (2 * p) * w ! (2 * p) + m ! (2 * p + 1) * w ! (2 * p + 1) - m ! (2 * p) * w ! (2 * p)
        - (m ! (2 * p) * w ! (2 * p) + (m ! (2 * p + 1) - m ! (2 * p)) * (w ! (2 * p + 1) - w ! (2 * p))))
        + x * ((m ! (2 * p + 1) - m ! (2 * p)) * (w ! (2 * p + 1) - w ! (2 * p)))))"
    unfolding cf tot evaluate_polynomial_horner quadratic_round_value by (rule sum_of_quadratics)
  also have "\<dots> = inner_total (inner_bind s x)"
    unfolding e using l by (simp add: s inner_total_def inner_bind_def folded_table_map [where n = ?h])
  finally show "evaluate_polynomial (reconstruct_round_coefficients (inner_total s) (inner_cf s)) x = inner_total (inner_bind s x)" .
qed

end
