(* ===== verification/Spartan_Sumcheck_Correct.thy ===== *)
theory Spartan_Sumcheck_Correct
  imports Spartan_Tables
begin

text \<open>
  The fused provers are the reference prover.  The factored equality table stands for its product
  \<open>eq_full\<close>; a round message computed while folding is the message computed from the folded_table tables.
  Both provers' tables satisfy the contract \<open>round_tables\<close>.
\<close>

lemma fold_upt_invariant:
  "s = I 0 \<Longrightarrow> (\<And>k. k < n \<Longrightarrow> f k (I k) = I (Suc k)) \<Longrightarrow> fold f [0..<n] s = I n"
  by (induction n) simp_all

text \<open>Every index of the kernels below is in range on tables of the right lengths, so each kernel
  returns \<open>Some\<close> of the value it stands for.\<close>

section \<open>The factored equality table\<close>

definition eq_full :: "'a::field list \<Rightarrow> 'a list \<Rightarrow> 'a list" where
  "eq_full low high = concat (map (\<lambda>h. map (\<lambda>l. l * h) low) high)"

lemma length_eq_full: "length (eq_full low high) = length low * length high"
  unfolding eq_full_def by (rule length_flatten)

lemma nth_eq_full: "j < length high \<Longrightarrow> i < length low \<Longrightarrow> eq_full low high ! (j * length low + i) = low ! i * high ! j"
  unfolding eq_full_def by (rule nth_flatten)

lemma eq_full_single: "eq_full [s] high = map (\<lambda>h. s * h) high"
  by (simp add: eq_full_def)

definition equality_pairs_of :: "'a list \<Rightarrow> 'a list \<Rightarrow> 'a equality_pairs" where
  "equality_pairs_of low high =
     \<lparr>ep_low = low, ep_high = high, ep_low_bits = bitlen (length low) - 1, ep_low_mask = length low - 1\<rparr>"

lemma equality_pairs_new_Some: "length low = 2 ^ a \<Longrightarrow> equality_pairs_new low high = Some (equality_pairs_of low high)"
  by (simp add: equality_pairs_new_def equality_pairs_of_def)

lemma equality_pair_full:
  assumes "length low = 2 ^ a" "length high = 2 ^ b" "2 * p + 1 < 2 ^ (a + b)"
  shows "equality_pair (equality_pairs_of low high) p = Some (eq_full low high ! (2 * p), eq_full low high ! (2 * p + 1))"
proof (cases a)
  case 0
  then obtain s where low: "low = [s]" using assms(1) by (cases low) auto
  have "2 * p + 1 < length high" using assms(2,3) 0 by simp
  then show ?thesis by (simp add: low equality_pair_def equality_pairs_of_def bitlen.simps eq_full_single Let_def)
next
  case (Suc a')
  have bits: "bitlen (length low) - 1 = Suc a'" using bitlen_power2 [of "Suc a'"] by (simp only: assms(1) Suc diff_Suc_1)
  have lowp: "p AND drop_bit 1 (length low - 1) = p mod 2 ^ a'"
  proof -
    have "drop_bit 1 ((2 :: nat) ^ Suc a' - 1) = mask a'" by (simp add: drop_bit_eq_div mask_eq_exp_minus_1)
    then show ?thesis using assms(1) Suc by (simp add: take_bit_eq_mask [symmetric] take_bit_eq_mod)
  qed
  have pj: "p div 2 ^ a' < length high"
  proof -
    have "p < 2 ^ (a' + b)" using assms(3) Suc by simp
    then show ?thesis by (simp add: assms(2) less_mult_imp_div_less power_add mult.commute)
  qed
  have idx: "p div 2 ^ a' * length low + 2 * (p mod 2 ^ a') = 2 * p"
    using div_mult_mod_eq [of p "2 ^ a'"] by (simp add: assms(1) Suc)
  have r: "p mod 2 ^ a' < 2 ^ a'" and low: "length low = 2 * 2 ^ a'" using assms(1) Suc by simp_all
  then have pi: "2 * (p mod 2 ^ a') < length low" "2 * (p mod 2 ^ a') + 1 < length low" by linarith+
  show ?thesis
    unfolding equality_pair_def equality_pairs_of_def equality_pairs.simps Let_def bits lowp
    using nth_eq_full [OF pj pi(1)] nth_eq_full [OF pj pi(2)] pj pi by (simp add: drop_bit_eq_div idx add.assoc [symmetric])
qed

lemma list_by_grid2:
  assumes "length xs = m * n" "length ys = m * n" "\<And>j i. j < n \<Longrightarrow> i < m \<Longrightarrow> xs ! (j * m + i) = ys ! (j * m + i)"
  shows "xs = ys"
proof (rule nth_equalityI)
  fix k assume k: "k < length xs"
  then have m: "0 < m" using assms(1) by (cases m) simp_all
  have "k div m < n" "k mod m < m" using k m assms(1) by (simp_all add: less_mult_imp_div_less mult.commute)
  from assms(3) [OF this] show "xs ! k = ys ! k" by (simp only: div_mult_mod_eq)
qed (simp add: assms)

lemma fold_eq_full_low:
  assumes "length low = 2 * m"
  shows "folded_table (eq_full low high) c = eq_full (folded_table low c) high"
proof (rule list_by_grid2 [of _ m "length high"])
  have l: "length (eq_full low high) = 2 * (m * length high)" by (simp add: length_eq_full assms)
  show "length (folded_table (eq_full low high) c) = m * length high" by (simp add: l)
  show "length (eq_full (folded_table low c) high) = m * length high" by (simp add: length_eq_full assms)
  fix j i assume ji: "j < length high" "i < m"
  have k: "j * m + i < m * length high"
    using ji mult_le_mono1 [of "Suc j" "length high" m] by (simp add: mult.commute)
  have "eq_full low high ! (2 * (j * m + i)) = low ! (2 * i) * high ! j"
    "eq_full low high ! (2 * (j * m + i) + 1) = low ! (2 * i + 1) * high ! j"
    using nth_eq_full [OF ji(1), of "2 * i" low] nth_eq_full [OF ji(1), of "2 * i + 1" low] ji(2)
    by (simp_all add: assms algebra_simps)
  then have "folded_table (eq_full low high) c ! (j * m + i) = interpolate (low ! (2 * i)) (low ! (2 * i + 1)) c * high ! j"
    unfolding folded_table_nth [OF l k] interpolate_def by (simp only: algebra_simps)
  also have "\<dots> = eq_full (folded_table low c) high ! (j * m + i)"
    using nth_eq_full [OF ji(1), of i "folded_table low c"] ji(2) by (simp add: assms folded_table_nth [OF assms])
  finally show "folded_table (eq_full low high) c ! (j * m + i) = eq_full (folded_table low c) high ! (j * m + i)" .
qed

lemma fold_eq_full_high:
  assumes "length high = 2 * m"
  shows "folded_table (eq_full [s] high) c = eq_full [s] (folded_table high c)"
  unfolding eq_full_single using assms
  by (intro nth_equalityI) (simp_all add: folded_table_nth interpolate_def algebra_simps)

section \<open>The fused rounds\<close>

lemma quad_pairs:
  assumes "length xs = 4 * m" "k < m"
  shows "fold_two_pairs (take 4 (drop (4 * k) xs)) c = Some (folded_table xs c ! (2 * k), folded_table xs c ! (2 * k + 1))"
proof -
  have l: "length xs = 2 * (2 * m)" using assms(1) by simp
  have n: "take 4 (drop (4 * k) xs) ! 0 = xs ! (4 * k)" "take 4 (drop (4 * k) xs) ! 1 = xs ! (4 * k + 1)"
    "take 4 (drop (4 * k) xs) ! 2 = xs ! (4 * k + 2)" "take 4 (drop (4 * k) xs) ! 3 = xs ! (4 * k + 3)"
    using assms by simp_all
  have "2 * k < 2 * m" "2 * k + 1 < 2 * m" using assms(2) by simp_all
  note fold = folded_table_nth [OF l this(1), of c] folded_table_nth [OF l this(2), of c]
  have "length (take 4 (drop (4 * k) xs)) = 4" using assms by simp
  then have "slice_pair (take 4 (drop (4 * k) xs)) 0 = Some (xs ! (4 * k), xs ! (4 * k + 1))"
    "slice_pair (take 4 (drop (4 * k) xs)) 2 = Some (xs ! (4 * k + 2), xs ! (4 * k + 3))"
    using n by (simp_all add: slice_pair_Some)
  then show ?thesis using fold unfolding fold_two_pairs_def by (simp add: interpolate_pair_eq numeral_3_eq_3)
qed

lemma take_two_more: "length xs = 2 * n \<Longrightarrow> k < n \<Longrightarrow> take (2 * k) xs @ [xs ! (2 * k), xs ! (2 * k + 1)] = take (2 * Suc k) xs"
  by (simp add: take_Suc_conv_app_nth)

text \<open>The reference message on given equality pairs.\<close>

definition message_on :: "(nat \<Rightarrow> 'a \<times> 'a) \<Rightarrow> 'a::field product_tables \<Rightarrow> nat \<Rightarrow> 'a list" where
  "message_on e t p = cubic_contribution (e p) (pt_az t ! (2 * p), pt_az t ! (2 * p + 1))
     (pt_bz t ! (2 * p), pt_bz t ! (2 * p + 1)) (pt_cz t ! (2 * p), pt_cz t ! (2 * p + 1))"

lemma quad_range: "length xs = 4 * m \<Longrightarrow> k < m \<Longrightarrow> slice_range xs (4 * k) (4 * k + 4) = Some (take 4 (drop (4 * k) xs))"
  by simp

lemma fused_next:
  fixes t :: "'a::field product_tables"
  assumes "length (pt_az t) = 4 * m" "length (pt_bz t) = 4 * m" "length (pt_cz t) = 4 * m"
    and pair: "\<And>p. p < m \<Longrightarrow> equality_pair pairs p = Some (e p)"
  shows "fold_products_and_compute_next t c pairs
    = Some (triple_sum m (message_on e (folded_products t c)), folded_products t c)"
proof -
  let ?t = "folded_products t c" and ?init = "(replicate 3 0, \<lparr>pt_az = [], pt_bz = [], pt_cz = []\<rparr>)"
  let ?I = "\<lambda>k. (triple_sum k (message_on e ?t),
    \<lparr>pt_az = take (2 * k) (pt_az ?t), pt_bz = take (2 * k) (pt_bz ?t), pt_cz = take (2 * k) (pt_cz ?t)\<rparr>)"
  have f: "pt_az ?t = folded_table (pt_az t) c" "pt_bz ?t = folded_table (pt_bz t) c" "pt_cz ?t = folded_table (pt_cz t) c"
    by (simp_all add: folded_products_def)
  have l: "length (pt_az ?t) = 2 * m" "length (pt_bz ?t) = 2 * m" "length (pt_cz ?t) = 2 * m" by (simp_all add: f assms)
  have "fold_option (fold_product_chunk t c pairs) ?init [0..<m] = Some (?I m)"
  proof (rule fold_option_upt)
    show "?init = ?I 0" by (simp add: triple_sum_0 [of "message_on e ?t"])
    fix k assume k: "k < m"
    have m: "length (message_on e ?t k) = 3" by (simp add: message_on_def)
    have "fold_product_chunk t c pairs (?I k) k
      = Some (add_coefficients (triple_sum k (message_on e ?t)) (message_on e ?t k),
         \<lparr>pt_az = take (2 * k) (pt_az ?t) @ [pt_az ?t ! (2 * k), pt_az ?t ! (2 * k + 1)],
          pt_bz = take (2 * k) (pt_bz ?t) @ [pt_bz ?t ! (2 * k), pt_bz ?t ! (2 * k + 1)],
          pt_cz = take (2 * k) (pt_cz ?t) @ [pt_cz ?t ! (2 * k), pt_cz ?t ! (2 * k + 1)]\<rparr>)"
      unfolding fold_product_chunk_def Let_def prod.case f
      by (simp add: quad_range [OF assms(1) k] quad_range [OF assms(2) k] quad_range [OF assms(3) k] pair [OF k]
          quad_pairs [OF assms(1) k] quad_pairs [OF assms(2) k] quad_pairs [OF assms(3) k] message_on_def f
          del: slice_range_Some)
    then show "fold_product_chunk t c pairs (?I k) k = Some (?I (Suc k))"
      by (simp only: take_two_more [OF l(1) k] take_two_more [OF l(2) k] take_two_more [OF l(3) k]
          triple_sum_Suc [where f = "message_on e ?t", OF m])
  qed
  with l assms show ?thesis
    by (simp add: fold_products_and_compute_next_def product_tables_len_def Let_def folded_products_def)
qed

lemma outer_cf_message:
  assumes "length e = 2 * n" "\<And>p. p < n \<Longrightarrow> eqp p = (e ! (2 * p), e ! (2 * p + 1))"
  shows "outer_cf (e, t) = triple_sum n (message_on eqp t)"
  using assms by (auto simp: outer_cf_def message_on_def intro!: triple_sum_cong)

lemma first_message_reference:
  assumes "length low = 2 ^ a" "length high = 2 ^ b" "outer_vars (a + b) (eq_full low high, t)"
  shows "\<exists>cs. compute_coefficients_without_linear t (equality_pairs_of low high) = Some cs \<and>
    (0 < a + b \<longrightarrow> cs = outer_cf (eq_full low high, t))"
proof (cases "a + b")
  case 0
  then have "length (pt_az t) div 2 = 0" using assms(3) by (simp add: outer_vars_def)
  with 0 show ?thesis by (simp add: compute_coefficients_without_linear_def product_tables_len_def sum_coefficients_def)
next
  case (Suc n)
  let ?e = "\<lambda>p. (eq_full low high ! (2 * p), eq_full low high ! (2 * p + 1))"
  have l: "length (eq_full low high) = 2 * 2 ^ n" "length (pt_az t) = 2 * 2 ^ n" "length (pt_bz t) = 2 * 2 ^ n" "length (pt_cz t) = 2 * 2 ^ n"
    using assms(3) Suc by (simp_all add: outer_vars_def)
  have half: "length (pt_az t) div 2 = 2 ^ n" by (simp add: l(2))
  have "outer_cf (eq_full low high, t) = triple_sum (2 ^ n) (message_on ?e t)"
    by (intro outer_cf_message [OF l(1)] refl)
  moreover have "compute_coefficients_without_linear t (equality_pairs_of low high) = Some (triple_sum (2 ^ n) (message_on ?e t))"
    unfolding compute_coefficients_without_linear_def product_tables_len_def Let_def half
  proof (rule sum_coefficients_triple)
    fix p :: nat assume p: "p < 2 ^ n"
    have "2 * p + 1 < 2 * 2 ^ n" using p by linarith
    moreover from this have "2 * p + 1 < 2 ^ (a + b)" by (simp add: Suc)
    ultimately show "Option.bind (equality_pair (equality_pairs_of low high) p) (\<lambda>eq. Option.bind (slice_pair (pt_az t) (2 * p))
        (\<lambda>az. Option.bind (slice_pair (pt_bz t) (2 * p)) (\<lambda>bz. Option.bind (slice_pair (pt_cz t) (2 * p))
        (\<lambda>cz. Some (cubic_contribution eq az bz cz))))) = Some (message_on ?e t p)"
      by (simp add: equality_pair_full [OF assms(1,2)] l message_on_def)
  qed (simp add: message_on_def)
  ultimately show ?thesis by simp
qed

text \<open>A state of the fused prover and the reference tables it stands for.\<close>

definition outer_represents :: "nat \<Rightarrow> nat \<Rightarrow> 'a::field outer_state \<Rightarrow> bool" where
  "outer_represents a b st \<longleftrightarrow> length (ou_eq_low st) = 2 ^ a \<and> length (ou_eq_high st) = 2 ^ b \<and>
     outer_vars (a + b) (eq_full (ou_eq_low st) (ou_eq_high st), ou_products st) \<and>
     (0 < a + b \<longrightarrow> ou_coefficients st = outer_cf (eq_full (ou_eq_low st) (ou_eq_high st), ou_products st))"

lemma fused_message:
  assumes "length low = 2 ^ a" "length high = 2 ^ b" "outer_vars (Suc (Suc n)) (e, t)" "a + b = Suc n"
  shows "fold_products_and_compute_next t c (equality_pairs_of low high)
    = Some (outer_cf (eq_full low high, folded_products t c), folded_products t c)"
proof -
  let ?e = "\<lambda>p. (eq_full low high ! (2 * p), eq_full low high ! (2 * p + 1))"
  have t: "length (pt_az t) = 4 * 2 ^ n" "length (pt_bz t) = 4 * 2 ^ n" "length (pt_cz t) = 4 * 2 ^ n"
    using assms(3) by (simp_all add: outer_vars_def)
  have l: "length (eq_full low high) = 2 * 2 ^ n"
    using assms(1,2,4) by (simp add: length_eq_full power_add [symmetric])
  have "equality_pair (equality_pairs_of low high) p = Some (?e p)" if "p < 2 ^ n" for p
    using that assms(4) by (intro equality_pair_full [OF assms(1,2)]) simp
  from fused_next [OF t this] outer_cf_message [OF l refl] show ?thesis by simp
qed

lemma outer_low_step_represents:
  assumes "outer_represents (Suc a) b st"
  shows "\<exists>st'. outer_low_step st c log = Some st' \<and> outer_represents a b st' \<and> ou_log st' = log \<and>
    (eq_full (ou_eq_low st') (ou_eq_high st'), ou_products st')
      = outer_bind (eq_full (ou_eq_low st) (ou_eq_high st), ou_products st) c"
proof -
  let ?low = "ou_eq_low st" and ?high = "ou_eq_high st" and ?t = "ou_products st"
  let ?s = "(eq_full ?low ?high, ?t)"
  have l: "length ?low = 2 * 2 ^ a" "length ?high = 2 ^ b" and v: "outer_vars (Suc (a + b)) ?s"
    using assms by (simp_all add: outer_represents_def)
  have b: "outer_bind ?s c = (eq_full (folded_table ?low c) ?high, folded_products ?t c)"
    by (simp add: outer_bind_def fold_eq_full_low [OF l(1)])
  have vb: "outer_vars (a + b) (eq_full (folded_table ?low c) ?high, folded_products ?t c)"
    using outer_tables.vars_bind [OF v, of c] by (simp only: b)
  have fl: "length (folded_table ?low c) = 2 ^ a" using l by simp
  have len: "product_tables_len ?t div 2 = 2 ^ (a + b)" using v by (simp add: product_tables_len_def outer_vars_def)
  show ?thesis
  proof (cases "a + b")
    case 0
    then show ?thesis using len fl l vb b
      by (simp add: outer_low_step_def Let_def outer_represents_def)
  next
    case (Suc n)
    then have "(1 :: nat) < 2 ^ (a + b)" by (intro one_less_power) simp_all
    with len fused_message [OF fl l(2) v [unfolded Suc] Suc, of c] fl l vb b show ?thesis
      by (simp add: outer_low_step_def Let_def outer_represents_def equality_pairs_new_Some [OF fl])
  qed
qed

lemma outer_high_step_represents:
  assumes "outer_represents 0 (Suc b) st"
  shows "\<exists>st'. outer_high_step st c log = Some st' \<and> outer_represents 0 b st' \<and> ou_log st' = log \<and>
    (eq_full (ou_eq_low st') (ou_eq_high st'), ou_products st')
      = outer_bind (eq_full (ou_eq_low st) (ou_eq_high st), ou_products st) c"
proof -
  let ?low = "ou_eq_low st" and ?high = "ou_eq_high st" and ?t = "ou_products st"
  let ?s = "(eq_full ?low ?high, ?t)"
  have l: "length ?low = 2 ^ 0" "length ?high = 2 * 2 ^ b" and v: "outer_vars (Suc b) ?s"
    using assms by (simp_all add: outer_represents_def)
  obtain s where s: "?low = [s]" using l(1) by (cases ?low) auto
  have b: "outer_bind ?s c = (eq_full ?low (folded_table ?high c), folded_products ?t c)"
    unfolding s by (simp add: outer_bind_def fold_eq_full_high [OF l(2)])
  have vb: "outer_vars b (eq_full ?low (folded_table ?high c), folded_products ?t c)"
    using outer_tables.vars_bind [OF v, of c] by (simp only: b)
  have fl: "length (folded_table ?high c) = 2 ^ b" using l by simp
  show ?thesis
  proof (cases b)
    case 0
    then show ?thesis using fl l vb b
      by (simp add: outer_high_step_def Let_def outer_represents_def)
  next
    case (Suc n)
    then have "length ?high div 2 \<noteq> 1" using l(2) by simp
    moreover have "0 + b = Suc n" using Suc by simp
    ultimately show ?thesis
      using fused_message [OF l(1) fl v [unfolded Suc], of c] fl l vb b Suc
      by (simp add: outer_high_step_def Let_def outer_represents_def equality_pairs_new_Some [OF l(1)])
  qed
qed

lemma outer_high_loop_reference:
  "outer_represents 0 b st \<Longrightarrow>
   map_option (\<lambda>(st, t). ((ou_products st, ou_log st), t)) (outer_high_loop T st t)
     = map_option (\<lambda>((s, log), t). ((snd s, log), t))
         (reference_rounds T outer_cf outer_bind b (eq_full (ou_eq_low st) (ou_eq_high st), ou_products st) (ou_log st) t)"
proof (induction b arbitrary: st t)
  case 0
  then show ?case by (simp add: outer_high_loop.simps outer_represents_def)
next
  case (Suc b)
  have st: "\<not> length (ou_eq_high st) \<le> 1" "ou_coefficients st = outer_cf (eq_full (ou_eq_low st) (ou_eq_high st), ou_products st)"
    using Suc.prems one_less_power [of "2 :: nat" "Suc b"] by (simp_all add: outer_represents_def)
  show ?case
  proof (cases "recover_full_round_polynomial T t (ou_log st) (ou_coefficients st)")
    case None
    with st show ?thesis by (simp add: outer_high_loop.simps [of T st])
  next
    case (Some r)
    obtain c log t1 where r: "r = ((c, log), t1)" by (metis prod.exhaust)
    obtain st' where "outer_high_step st c log = Some st'" "outer_represents 0 b st'" "ou_log st' = log"
      "(eq_full (ou_eq_low st') (ou_eq_high st'), ou_products st') = outer_bind (eq_full (ou_eq_low st) (ou_eq_high st), ou_products st) c"
      using outer_high_step_represents [OF Suc.prems, of c log] by blast
    with st Some [unfolded r] Suc.IH [of st' t1] show ?thesis by (simp add: outer_high_loop.simps [of T st])
  qed
qed

lemma outer_loops_reference:
  "outer_represents a b st \<Longrightarrow>
   map_option (\<lambda>(st, t). ((ou_products st, ou_log st), t)) (Option.bind (outer_low_loop T st t) (\<lambda>(st, t). outer_high_loop T st t))
     = map_option (\<lambda>((s, log), t). ((snd s, log), t))
         (reference_rounds T outer_cf outer_bind (a + b) (eq_full (ou_eq_low st) (ou_eq_high st), ou_products st) (ou_log st) t)"
proof (induction a arbitrary: st t)
  case 0
  then show ?case using outer_high_loop_reference [of b st T t] by (simp add: outer_low_loop.simps outer_represents_def)
next
  case (Suc a)
  have st: "\<not> length (ou_eq_low st) \<le> 1" "ou_coefficients st = outer_cf (eq_full (ou_eq_low st) (ou_eq_high st), ou_products st)"
    using Suc.prems one_less_power [of "2 :: nat" "Suc a"] by (simp_all add: outer_represents_def)
  show ?case
  proof (cases "recover_full_round_polynomial T t (ou_log st) (ou_coefficients st)")
    case None
    with st show ?thesis by (simp add: outer_low_loop.simps [of T st])
  next
    case (Some r)
    obtain c log t1 where r: "r = ((c, log), t1)" by (metis prod.exhaust)
    obtain st' where "outer_low_step st c log = Some st'" "outer_represents a b st'" "ou_log st' = log"
      "(eq_full (ou_eq_low st') (ou_eq_high st'), ou_products st') = outer_bind (eq_full (ou_eq_low st) (ou_eq_high st), ou_products st) c"
      using outer_low_step_represents [OF Suc.prems, of c log] by blast
    with st Some [unfolded r] Suc.IH [of st' t1] show ?thesis by (simp add: outer_low_loop.simps [of T st])
  qed
qed

section \<open>The fused inner rounds\<close>

lemma inner_first_message:
  assumes "length m = 2 * n" "length w = 2 * n"
  shows "sum_inner_round_coefficients m w = Some (inner_cf (m, w))"
proof -
  let ?f = "\<lambda>p. inner_pair_coefficients (m ! (2 * p), m ! (2 * p + 1)) (w ! (2 * p), w ! (2 * p + 1))"
  have z: "zip (chunks_exact 2 m) (chunks_exact 2 w)
      = map (\<lambda>k. ([m ! (2 * k), m ! (2 * k + 1)], [w ! (2 * k), w ! (2 * k + 1)])) [0..<n]"
    using assms by (simp add: chunks_pairs_nth zip_map_map zip_same_conv_map comp_def)
  have "fold_option (\<lambda>s p. Some (add_coefficients s (?f p))) (replicate 2 0) [0..<n] = Some (pair_sum n ?f)"
    by (rule fold_option_upt [where I = "\<lambda>k. pair_sum k ?f"])
      (simp add: pair_sum_0 [of ?f], simp only: pair_sum_Suc [where f = ?f, OF length_inner_pair])
  then show ?thesis
    using assms by (simp add: sum_inner_round_coefficients_def z fold_option_map inner_cf_def)
qed

lemma inner_fused_next:
  assumes "length m = 4 * n" "length w = 4 * n"
  shows "fold_and_compute_next_inner m w c = Some (inner_cf (folded_table m c, folded_table w c), folded_table m c, folded_table w c)"
proof -
  let ?m = "folded_table m c" and ?w = "folded_table w c"
  let ?f = "\<lambda>p. inner_pair_coefficients (?m ! (2 * p), ?m ! (2 * p + 1)) (?w ! (2 * p), ?w ! (2 * p + 1))"
  have l: "length ?m = 2 * n" "length ?w = 2 * n" using assms by simp_all
  have z: "zip (chunks_exact 4 m) (chunks_exact 4 w) = map (\<lambda>k. (take 4 (drop (4 * k) m), take 4 (drop (4 * k) w))) [0..<n]"
    using assms by (simp add: chunks_exact_map [of 4 _ n] zip_map_map zip_same_conv_map comp_def)
  let ?I = "\<lambda>k. (pair_sum k ?f, take (2 * k) ?m, take (2 * k) ?w)"
  have "fold_option (\<lambda>acc k. fold_inner_chunk c acc (take 4 (drop (4 * k) m), take 4 (drop (4 * k) w))) (replicate 2 0, [], []) [0..<n] = Some (?I n)"
  proof (rule fold_option_upt)
    show "(replicate 2 0, [], []) = ?I 0" by (simp add: pair_sum_0 [of ?f])
    fix k assume k: "k < n"
    have "fold_inner_chunk c (?I k) (take 4 (drop (4 * k) m), take 4 (drop (4 * k) w))
        = Some (add_coefficients (pair_sum k ?f) (?f k), take (2 * k) ?m @ [?m ! (2 * k), ?m ! (2 * k + 1)], take (2 * k) ?w @ [?w ! (2 * k), ?w ! (2 * k + 1)])"
      by (simp add: fold_inner_chunk_def quad_pairs [OF assms(1) k] quad_pairs [OF assms(2) k])
    then show "fold_inner_chunk c (?I k) (take 4 (drop (4 * k) m), take 4 (drop (4 * k) w)) = Some (?I (Suc k))"
      by (simp only: take_two_more [OF l(1) k] take_two_more [OF l(2) k] pair_sum_Suc [where f = ?f, OF length_inner_pair])
  qed
  with l show ?thesis
    by (simp add: fold_and_compute_next_inner_def z fold_option_map inner_cf_def)
qed

lemma inner_step_reference:
  assumes "inner_vars (Suc n) (in_matrix st, in_witness st)"
  shows "\<exists>st'. inner_step st c log = Some st' \<and> (in_matrix st', in_witness st') = inner_bind (in_matrix st, in_witness st) c \<and>
    in_log st' = log \<and> (0 < n \<longrightarrow> in_coefficients st' = inner_cf (inner_bind (in_matrix st, in_witness st) c))"
proof (cases n)
  case 0
  have l: "length (in_matrix st) = 2" "length (in_witness st) = 2" using assms 0 by (simp_all add: inner_vars_def)
  then show ?thesis using 0 by (simp add: inner_step_def inner_bind_def folded_table_map [of _ 1] Let_def)
next
  case (Suc k)
  then have "length (in_matrix st) = 4 * 2 ^ k" "length (in_witness st) = 4 * 2 ^ k" "length (in_matrix st) div 2 \<noteq> 1"
    using assms by (simp_all add: inner_vars_def)
  then show ?thesis by (simp add: inner_step_def inner_bind_def inner_fused_next [where n = "2 ^ k"] Let_def)
qed

lemma inner_loop_reference:
  "inner_vars n (in_matrix st, in_witness st) \<Longrightarrow> (0 < n \<longrightarrow> in_coefficients st = inner_cf (in_matrix st, in_witness st)) \<Longrightarrow>
   map_option (\<lambda>(st, t). (((in_matrix st, in_witness st), in_log st), t)) (inner_loop T n st t)
     = reference_rounds T inner_cf inner_bind n (in_matrix st, in_witness st) (in_log st) t"
proof (induction n arbitrary: st t)
  case (Suc n)
  let ?s = "(in_matrix st, in_witness st)"
  have c: "in_coefficients st = inner_cf ?s" using Suc.prems(2) by simp
  show ?case
  proof (cases "recover_full_round_polynomial T t (in_log st) (in_coefficients st)")
    case None
    with c show ?thesis by simp
  next
    case (Some r)
    obtain d log t1 where r: "r = ((d, log), t1)" by (metis prod.exhaust)
    obtain st' where st': "inner_step st d log = Some st'" "(in_matrix st', in_witness st') = inner_bind ?s d" "in_log st' = log"
      "0 < n \<longrightarrow> in_coefficients st' = inner_cf (inner_bind ?s d)" using inner_step_reference [OF Suc.prems(1), of d log] by blast
    have "inner_vars n (in_matrix st', in_witness st')" unfolding st'(2) by (rule inner_tables.vars_bind [OF Suc.prems(1)])
    from Suc.IH [OF this] st' c Some [unfolded r] show ?thesis by simp
  qed
qed simp

end
