(* ===== verification/Spartan_Sumcheck_Sound.thy ===== *)
theory Spartan_Sumcheck_Sound
  imports Spartan_Sumcheck_Correct
begin

text \<open>
  The outer and the inner sumcheck as a whole: what the provers of \<open>sumcheck.rs\<close> return is accepted by
  its verifiers, and what the verifiers accept is true up to a challenge that is a root of a fixed
  polynomial of low degree.
\<close>

section \<open>The equality polynomial\<close>

definition eq_value :: "'a::field list \<Rightarrow> 'a list \<Rightarrow> 'a" where
  "eq_value tau x = (\<Sum>j<2 ^ length tau. eq_weight tau j * eq_weight x j)"

lemma eq_value_Nil [simp]: "eq_value [] [] = 1"
  by (simp add: eq_value_def eq_weight_def)

lemma eq_value_Cons: "eq_value (t # tau) (x # xs) = eq_coordinate t x * eq_value tau xs"
proof -
  have c: "eq_weight (y # ys) (2 * j) = (1 - y) * eq_weight ys j" "eq_weight (y # ys) (2 * j + 1) = y * eq_weight ys j"
    for y :: 'a and ys j using eq_weight_Cons [of y ys j False] eq_weight_Cons [of y ys j True] by simp_all
  have w: "eq_weight (t # tau) (2 * j) * eq_weight (x # xs) (2 * j) + eq_weight (t # tau) (2 * j + 1) * eq_weight (x # xs) (2 * j + 1)
      = eq_coordinate t x * (eq_weight tau j * eq_weight xs j)" for j
    unfolding c eq_coordinate_def by algebra
  have "eq_value (t # tau) (x # xs) = (\<Sum>j<2 ^ length tau. eq_weight (t # tau) (2 * j) * eq_weight (x # xs) (2 * j)
      + eq_weight (t # tau) (2 * j + 1) * eq_weight (x # xs) (2 * j + 1))"
    unfolding eq_value_def length_Cons power_Suc sum_double ..
  then show ?thesis unfolding w eq_value_def sum_distrib_left .
qed

lemma eq_value_eval: "length tau = length x \<Longrightarrow> eq_eval tau x = Some (eq_value tau x)"
proof -
  assume l: "length tau = length x"
  have p: "eq_value tau x = prod_list (map (\<lambda>(a, b). eq_coordinate a b) (zip tau x))"
    using l by (induction tau x rule: list_induct2) (simp_all add: eq_value_Cons)
  have f: "foldl (\<lambda>v (a, b). v * eq_coordinate a b) c zs = c * prod_list (map (\<lambda>(a, b). eq_coordinate a b) zs)"
    for c :: 'a and zs by (induction zs arbitrary: c) (auto simp: mult.assoc)
  show ?thesis using l by (simp add: eq_eval_def p f split: list.split)
qed

lemma eq_value_table: "length tau = length x \<Longrightarrow> mle_sum (eq_table tau) x = eq_value tau x"
  by (simp add: mle_sum_def eq_value_def eq_table_weights)

text \<open>The two factors of \<open>make_equality_factors\<close> stand for the whole table.\<close>

lemma eq_full_table: "eq_full (eq_table low) (eq_table high) = eq_table (low @ high)"
proof (rule list_by_grid2 [of _ "2 ^ length low" "2 ^ length high"])
  fix j i :: nat assume ji: "j < 2 ^ length high" "i < 2 ^ length low"
  have "eq_full (eq_table low) (eq_table high) ! (j * 2 ^ length low + i) = eq_weight low i * eq_weight high j"
    using nth_eq_full [of j "eq_table high" i "eq_table low"] ji by (simp add: eq_table_weights)
  moreover have "j * 2 ^ length low + i < 2 ^ (length low + length high)"
    using ji mult_le_mono1 [of "Suc j" "2 ^ length high" "2 ^ length low"] by (simp add: power_add mult.commute)
  ultimately show "eq_full (eq_table low) (eq_table high) ! (j * 2 ^ length low + i) = eq_table (low @ high) ! (j * 2 ^ length low + i)"
    using eq_weight_append [of i low high j] ji by (simp add: eq_table_weights mult.commute add.commute)
qed (simp_all add: length_eq_full power_add)

lemma equality_factors:
  assumes "make_equality_factors tau = Inr (eq_low, eq_high)"
  shows "\<exists>a b. a + b = length tau \<and> length (evaluations eq_low) = 2 ^ a \<and> length (evaluations eq_high) = 2 ^ b \<and>
    eq_full (evaluations eq_low) (evaluations eq_high) = eq_table tau"
proof -
  let ?k = "length tau div 2"
  have e: "evaluations eq_low = eq_table (take ?k tau)" "evaluations eq_high = eq_table (drop ?k tau)"
    using assms by (auto simp: make_equality_factors_def mle_from_evaluations_def Let_def split: if_splits)
  show ?thesis
    by (intro exI [of _ "min (length tau) ?k"] exI [of _ "length tau - ?k"]) (simp add: e eq_full_table)
qed

lemma verify_loop_length:
  "sumcheck_verify_loop V polys round claim v = Some (Inr ((points, final), v')) \<Longrightarrow> length points = length polys"
  by (induction polys arbitrary: round claim v points)
    (auto simp: Let_def map_sum_eq_Inr split: if_splits option.splits)

section \<open>The outer sumcheck\<close>

text \<open>The sum the outer sumcheck is about.\<close>

definition outer_sum :: "'a::field list \<Rightarrow> 'a list \<Rightarrow> 'a list \<Rightarrow> 'a list \<Rightarrow> 'a" where
  "outer_sum tau az bz cz = (\<Sum>j<2 ^ length tau. eq_weight tau j * (az ! j * bz ! j - cz ! j))"

definition outer_start :: "'a::field list \<Rightarrow> 'a r1cs_product_mles \<Rightarrow> 'a list \<times> 'a product_tables" where
  "outer_start tau products = (eq_table tau, product_tables_from_mles products)"

lemma outer_start_vars:
  assumes "length (evaluations (pm_az products)) = 2 ^ length tau" "length (evaluations (pm_bz products)) = 2 ^ length tau"
    "length (evaluations (pm_cz products)) = 2 ^ length tau"
  shows "outer_vars (length tau) (outer_start tau products)"
  using assms by (simp add: outer_vars_def outer_start_def product_tables_from_mles_def)

lemma outer_start_total:
  "outer_total (outer_start tau products)
    = outer_sum tau (evaluations (pm_az products)) (evaluations (pm_bz products)) (evaluations (pm_cz products))"
  by (simp add: outer_total_def outer_start_def product_tables_from_mles_def outer_sum_def eq_table_weights)

lemma outer_folds:
  "foldl outer_bind s r = (foldl folded_table (fst s) r,
     \<lparr>pt_az = foldl folded_table (pt_az (snd s)) r, pt_bz = foldl folded_table (pt_bz (snd s)) r,
      pt_cz = foldl folded_table (pt_cz (snd s)) r\<rparr>)"
  by (induction r arbitrary: s) (auto simp: outer_bind_def folded_products_def prod_eq_iff)

text \<open>The tables of a fully bound prover hold the multilinear extensions at the point.\<close>

lemma outer_end:
  assumes "length r = length tau" "length (evaluations (pm_az products)) = 2 ^ length tau"
    "length (evaluations (pm_bz products)) = 2 ^ length tau" "length (evaluations (pm_cz products)) = 2 ^ length tau"
  shows "foldl outer_bind (outer_start tau products) r = ([eq_value tau r],
    \<lparr>pt_az = [mle_sum (evaluations (pm_az products)) r], pt_bz = [mle_sum (evaluations (pm_bz products)) r],
     pt_cz = [mle_sum (evaluations (pm_cz products)) r]\<rparr>)"
  using assms by (simp add: outer_folds outer_start_def product_tables_from_mles_def mle_sum_folds eq_value_table)

text \<open>The fused prover on its equality factors is the reference prover on the whole equality table.\<close>

definition outer_output ::
  "('a::field, 't) field_transcript \<Rightarrow> ('a list \<times> 'a product_tables) \<times> 'a round_log \<Rightarrow> 't \<Rightarrow> 'a outer_sumcheck_output \<times> 't" where
  "outer_output T r transcript =
     (let ((_, products), log) = r; az = pt_az products ! 0; bz = pt_bz products ! 0; cz = pt_cz products ! 0
      in (\<lparr>oso_proof = \<lparr>osp_sumcheck = \<lparr>round_polynomials = rl_round_polynomials log\<rparr>,
             osp_az_mle_claim = az, osp_bz_mle_claim = bz, osp_cz_mle_claim = cz\<rparr>,
           oso_eval_points = rl_eval_points log, oso_final_claim = rl_current_claim log\<rparr>, ft_message T [az, bz, cz] transcript))"

definition empty_log :: "'a \<Rightarrow> 'a round_log" where
  "empty_log claim = \<lparr>rl_current_claim = claim, rl_round_polynomials = [], rl_eval_points = []\<rparr>"

lemma prove_outer_reference:
  assumes "make_equality_factors tau = Inr factors" "length (evaluations (pm_az products)) = 2 ^ length tau"
    "length (evaluations (pm_bz products)) = 2 ^ length tau" "length (evaluations (pm_cz products)) = 2 ^ length tau"
  shows "prove_outer_sumcheck T t claim factors products
    = map_option (\<lambda>(r, t). Inr (outer_output T r t))
        (reference_rounds T outer_cf outer_bind (length tau) (outer_start tau products) (empty_log claim) t)"
proof -
  obtain eq_low eq_high where f: "factors = (eq_low, eq_high)" by fastforce
  obtain a b where ab: "a + b = length tau" "length (evaluations eq_low) = 2 ^ a" "length (evaluations eq_high) = 2 ^ b"
    and full: "eq_full (evaluations eq_low) (evaluations eq_high) = eq_table tau"
    using equality_factors [OF assms(1) [unfolded f]] by blast
  let ?tables = "product_tables_from_mles products"
  have start: "(eq_full (evaluations eq_low) (evaluations eq_high), ?tables) = outer_start tau products"
    by (simp add: full outer_start_def)
  have v: "outer_vars (a + b) (eq_full (evaluations eq_low) (evaluations eq_high), ?tables)"
    unfolding start ab(1) by (rule outer_start_vars [OF assms(2-4)])
  obtain cs where cs: "compute_coefficients_without_linear ?tables (equality_pairs_of (evaluations eq_low) (evaluations eq_high)) = Some cs"
    "0 < a + b \<longrightarrow> cs = outer_cf (eq_full (evaluations eq_low) (evaluations eq_high), ?tables)"
    using first_message_reference [OF ab(2,3) v] by blast
  note pairs = equality_pairs_new_Some [OF ab(2), of "evaluations eq_high"]
  let ?st = "\<lparr>ou_products = ?tables, ou_eq_low = evaluations eq_low, ou_eq_high = evaluations eq_high,
     ou_coefficients = cs, ou_log = empty_log claim\<rparr>"
  have "outer_represents a b ?st"
    using cs(2) v ab by (simp add: outer_represents_def)
  from outer_loops_reference [OF this, of T t]
  have loops: "map_option (\<lambda>(st, t). ((ou_products st, ou_log st), t)) (Option.bind (outer_low_loop T ?st t) (\<lambda>(st, t). outer_high_loop T st t))
      = map_option (\<lambda>((s, log), t). ((snd s, log), t)) (reference_rounds T outer_cf outer_bind (length tau) (outer_start tau products) (empty_log claim) t)"
    by (simp add: start ab(1))
  have tables: "length (pt_az p) = 1" "length (pt_bz p) = 1" "length (pt_cz p) = 1"
    if r: "reference_rounds T outer_cf outer_bind (length tau) (outer_start tau products) (empty_log claim) t = Some (((e, p), log), t')" for e p log t'
    using outer_tables.reference_vars [OF outer_start_vars [OF assms(2-4)] r] by (simp_all add: outer_vars_def)
  have d: "mle_num_vars (pm_az products) = length tau" "mle_num_vars (pm_bz products) = length tau"
    "mle_num_vars (pm_cz products) = length tau" "mle_num_vars eq_low + mle_num_vars eq_high = length tau"
    using assms(2-4) ab by (simp_all add: mle_num_vars_power2)
  show ?thesis
  proof (cases "Option.bind (outer_low_loop T ?st t) (\<lambda>(st, t). outer_high_loop T st t)")
    case None
    moreover from None loops have "reference_rounds T outer_cf outer_bind (length tau) (outer_start tau products) (empty_log claim) t = None"
      by simp
    ultimately show ?thesis
      by (cases "outer_low_loop T ?st t") (auto simp: prove_outer_sumcheck_def f d pairs cs(1) empty_log_def Let_def)
  next
    case (Some q)
    obtain st2 t2 where q: "q = (st2, t2)" by fastforce
    then obtain st1 t1 where low: "outer_low_loop T ?st t = Some (st1, t1)" and high: "outer_high_loop T st1 t1 = Some (st2, t2)"
      using Some by (auto simp: bind_eq_Some_conv)
    obtain e where r: "reference_rounds T outer_cf outer_bind (length tau) (outer_start tau products) (empty_log claim) t
        = Some (((e, ou_products st2), ou_log st2), t2)"
      using loops low high by (auto simp: map_option_case split: option.splits)
    show ?thesis
      using low high tables [OF r]
      by (simp add: r [unfolded empty_log_def] prove_outer_sumcheck_def f d pairs cs(1) empty_log_def outer_output_def Let_def)
  qed
qed

text \<open>The honest prover is accepted: both sides end at the same point with the same claims.\<close>

lemma outer_complete:
  assumes "replayed P V R" "R p v" "make_equality_factors tau = Inr factors"
    and len: "length (evaluations (pm_az products)) = 2 ^ length tau" "length (evaluations (pm_bz products)) = 2 ^ length tau"
      "length (evaluations (pm_cz products)) = 2 ^ length tau"
    and claim: "outer_sum tau (evaluations (pm_az products)) (evaluations (pm_bz products)) (evaluations (pm_cz products)) = claim"
    and proves: "prove_outer_sumcheck P p claim factors products = Some (Inr (out, p'))"
  shows "\<exists>v'. R p' v' \<and> length (oso_eval_points out) = length tau \<and>
    osp_az_mle_claim (oso_proof out) = mle_sum (evaluations (pm_az products)) (oso_eval_points out) \<and>
    osp_bz_mle_claim (oso_proof out) = mle_sum (evaluations (pm_bz products)) (oso_eval_points out) \<and>
    osp_cz_mle_claim (oso_proof out) = mle_sum (evaluations (pm_cz products)) (oso_eval_points out) \<and>
    outer_verify V (oso_proof out) v claim tau = Some (Inr (\<lparr>osv_eval_points = oso_eval_points out,
      osv_az_mle_claim = osp_az_mle_claim (oso_proof out), osv_bz_mle_claim = osp_bz_mle_claim (oso_proof out),
      osv_cz_mle_claim = osp_cz_mle_claim (oso_proof out)\<rparr>, v'))"
proof -
  let ?s = "outer_start tau products"
  obtain s' log' p1 where rounds: "reference_rounds P outer_cf outer_bind (length tau) ?s (empty_log claim) p = Some ((s', log'), p1)"
    and out: "outer_output P (s', log') p1 = (out, p')"
    using proves unfolding prove_outer_reference [OF assms(3) len] by auto
  have c: "rl_current_claim (empty_log claim) = outer_total ?s" by (simp add: empty_log_def outer_start_total claim)
  obtain polys points v1 where r: "rl_round_polynomials log' = polys" "rl_eval_points log' = points"
      "length polys = length tau" "length points = length tau" "s' = foldl outer_bind ?s points" "R p1 v1"
      "sumcheck_verify_loop V polys 0 claim v = Some (Inr ((points, outer_total s'), v1))"
    using outer_tables.reference_complete [OF assms(1) outer_start_vars [OF len] c rounds assms(2), of 0]
    by (auto simp: empty_log_def outer_start_total claim)
  let ?az = "mle_sum (evaluations (pm_az products)) points" and ?bz = "mle_sum (evaluations (pm_bz products)) points"
    and ?cz = "mle_sum (evaluations (pm_cz products)) points"
  have s': "s' = ([eq_value tau points], \<lparr>pt_az = [?az], pt_bz = [?bz], pt_cz = [?cz]\<rparr>)"
    unfolding r(5) by (rule outer_end [OF r(4) len])
  have o: "oso_eval_points out = points" "osp_az_mle_claim (oso_proof out) = ?az" "osp_bz_mle_claim (oso_proof out) = ?bz"
      "osp_cz_mle_claim (oso_proof out) = ?cz" "osp_sumcheck (oso_proof out) = \<lparr>round_polynomials = polys\<rparr>"
    and p': "p' = ft_message P [?az, ?bz, ?cz] p1"
    using out by (auto simp: outer_output_def s' r(1,2) Let_def)
  have "outer_total s' = eq_value tau points * (?az * ?bz - ?cz)" by (simp add: s' outer_total_def)
  moreover have "R p' (ft_message V [?az, ?bz, ?cz] v1)" unfolding p' by (rule replayed.message_related [OF assms(1) r(6)])
  ultimately show ?thesis
    using r(3,4,7) by (simp add: o outer_verify_def sumcheck_proof_verify_def eq_value_eval Let_def)
qed

text \<open>An accepted proof of a false claim with true product evaluations contains a round whose challenge
  is one of at most three roots.\<close>

lemma outer_sound:
  assumes accepts: "outer_verify V prf v claim tau = Some (Inr (out, v'))"
    and quads: "\<forall>q\<in>set (round_polynomials (osp_sumcheck prf)). length q = 4"
    and len: "length (evaluations (pm_az products)) = 2 ^ length tau" "length (evaluations (pm_bz products)) = 2 ^ length tau"
      "length (evaluations (pm_cz products)) = 2 ^ length tau"
    and claims: "osv_az_mle_claim out = mle_sum (evaluations (pm_az products)) (osv_eval_points out)"
      "osv_bz_mle_claim out = mle_sum (evaluations (pm_bz products)) (osv_eval_points out)"
      "osv_cz_mle_claim out = mle_sum (evaluations (pm_cz products)) (osv_eval_points out)"
    and false_claim: "outer_sum tau (evaluations (pm_az products)) (evaluations (pm_bz products)) (evaluations (pm_cz products)) \<noteq> claim"
  shows "\<exists>k<length tau. \<exists>B. finite B \<and> card B \<le> 3 \<and> osv_eval_points out ! k \<in> B \<and>
    B = {x. horner (round_polynomials (osp_sumcheck prf) ! k) x
      = outer_total (outer_bind (foldl outer_bind (outer_start tau products) (take k (osv_eval_points out))) x)}"
proof -
  let ?polys = "round_polynomials (osp_sumcheck prf)" and ?s = "outer_start tau products"
  obtain points final v1 where loop: "sumcheck_verify_loop V ?polys 0 claim v = Some (Inr ((points, final), v1))"
      and n: "length ?polys = length tau"
    and rest: "eq_eval tau points = Some e \<Longrightarrow> final = e * (osp_az_mle_claim prf * osp_bz_mle_claim prf - osp_cz_mle_claim prf) \<and>
      osv_eval_points out = points \<and> osv_az_mle_claim out = osp_az_mle_claim prf \<and>
      osv_bz_mle_claim out = osp_bz_mle_claim prf \<and> osv_cz_mle_claim out = osp_cz_mle_claim prf" for e
    using accepts by (auto simp: outer_verify_def sumcheck_proof_verify_def Let_def split: option.splits sum.splits if_splits)
  have l: "length points = length tau" using verify_loop_length [OF loop] n by simp
  note rest = rest [OF eq_value_eval [OF l [symmetric]]]
  have f: "final = outer_total (foldl outer_bind ?s points)"
    unfolding outer_end [OF l len] using rest claims by (simp add: outer_total_def) metis
  have vs: "outer_vars (length ?polys) ?s" unfolding n by (rule outer_start_vars [OF len])
  have q: "\<forall>q\<in>set ?polys. length q = Suc 3" using quads by simp
  have c: "claim \<noteq> outer_total ?s" using false_claim by (simp add: outer_start_total)
  obtain k where "k < length ?polys" "points ! k \<in> {x. horner (?polys ! k) x = outer_total (outer_bind (foldl outer_bind ?s (take k points)) x)}"
    "finite {x. horner (?polys ! k) x = outer_total (outer_bind (foldl outer_bind ?s (take k points)) x)}"
    "card {x. horner (?polys ! k) x = outer_total (outer_bind (foldl outer_bind ?s (take k points)) x)} \<le> 3"
    using outer_tables.verifier_sound [OF vs q loop c f] by blast
  then show ?thesis using n rest by (intro exI [of _ k]) simp
qed

section \<open>The inner sumcheck\<close>

lemma inner_folds: "foldl inner_bind (m, w) r = (foldl folded_table m r, foldl folded_table w r)"
  by (induction r arbitrary: m w) (simp_all add: inner_bind_def)

lemma prove_inner_reference:
  assumes "length (evaluations m) = 2 ^ n" "length (evaluations w) = 2 ^ n"
  shows "prove_inner_sumcheck T t claim m w
    = map_option (\<lambda>(((m, w), log), t). Inr (\<lparr>iso_sumcheck = \<lparr>spo_proof = \<lparr>round_polynomials = rl_round_polynomials log\<rparr>,
          spo_eval_points = rl_eval_points log, spo_final_claim = rl_current_claim log\<rparr>,
        iso_batched_matrix_evaluation = m ! 0, iso_witness_evaluation = w ! 0\<rparr>, t))
      (reference_rounds T inner_cf inner_bind n (evaluations m, evaluations w) (empty_log claim) t)"
proof -
  let ?st = "\<lparr>in_matrix = evaluations m, in_witness = evaluations w,
     in_coefficients = (if 0 < n then inner_cf (evaluations m, evaluations w) else []), in_log = empty_log claim\<rparr>"
  have d: "mle_num_vars m = n" "mle_num_vars w = n" using assms by (simp_all add: mle_num_vars_power2)
  have v: "inner_vars n (evaluations m, evaluations w)" using assms by (simp add: inner_vars_def)
  have first: "sum_inner_round_coefficients (evaluations m) (evaluations w) = Some (inner_cf (evaluations m, evaluations w))" if "0 < n"
    using that assms by (intro inner_first_message [where n = "2 ^ (n - 1)"]) (cases n; simp)+
  have first: "(if 0 < n then sum_inner_round_coefficients (evaluations m) (evaluations w) else Some [])
      = Some (if 0 < n then inner_cf (evaluations m, evaluations w) else [])"
    using first by simp
  have loop: "map_option (\<lambda>(st, t). (((in_matrix st, in_witness st), in_log st), t)) (inner_loop T n ?st t)
     = reference_rounds T inner_cf inner_bind n (evaluations m, evaluations w) (empty_log claim) t"
    using inner_loop_reference [of n ?st T t] v by simp
  show ?thesis
  proof (cases "inner_loop T n ?st t")
    case None
    then show ?thesis unfolding loop [symmetric] by (simp add: prove_inner_sumcheck_def d first Let_def empty_log_def)
  next
    case (Some p)
    obtain st1 t1 where p: "p = (st1, t1)" by fastforce
    with Some loop have "reference_rounds T inner_cf inner_bind n (evaluations m, evaluations w) (empty_log claim) t
        = Some (((in_matrix st1, in_witness st1), in_log st1), t1)" by simp
    from inner_tables.reference_vars [OF v this] have "length (in_matrix st1) = 1" "length (in_witness st1) = 1"
      by (simp_all add: inner_vars_def)
    with Some show ?thesis unfolding loop [symmetric]
      by (simp add: prove_inner_sumcheck_def d first Let_def p empty_log_def)
  qed
qed

definition inner_sum :: "'a::field list \<Rightarrow> 'a list \<Rightarrow> 'a" where
  "inner_sum m w = (\<Sum>j<length m. m ! j * w ! j)"

lemma inner_complete:
  assumes "replayed P V R" "R p v" and len: "length (evaluations m) = 2 ^ n" "length (evaluations w) = 2 ^ n"
    and claim: "inner_sum (evaluations m) (evaluations w) = claim"
    and proves: "prove_inner_sumcheck P p claim m w = Some (Inr (out, p'))"
  shows "\<exists>v'. R p' v' \<and> length (spo_eval_points (iso_sumcheck out)) = n \<and>
    iso_batched_matrix_evaluation out = mle_sum (evaluations m) (spo_eval_points (iso_sumcheck out)) \<and>
    iso_witness_evaluation out = mle_sum (evaluations w) (spo_eval_points (iso_sumcheck out)) \<and>
    spo_final_claim (iso_sumcheck out) = iso_batched_matrix_evaluation out * iso_witness_evaluation out \<and>
    sumcheck_proof_verify V 3 (spo_proof (iso_sumcheck out)) v claim n
      = Some (Inr ((spo_eval_points (iso_sumcheck out), spo_final_claim (iso_sumcheck out)), v'))"
proof -
  let ?s = "(evaluations m, evaluations w)"
  obtain m' w' log' where rounds: "reference_rounds P inner_cf inner_bind n ?s (empty_log claim) p = Some (((m', w'), log'), p')"
    and out: "out = \<lparr>iso_sumcheck = \<lparr>spo_proof = \<lparr>round_polynomials = rl_round_polynomials log'\<rparr>,
          spo_eval_points = rl_eval_points log', spo_final_claim = rl_current_claim log'\<rparr>,
        iso_batched_matrix_evaluation = m' ! 0, iso_witness_evaluation = w' ! 0\<rparr>"
    using proves unfolding prove_inner_reference [OF len] by auto
  have vs: "inner_vars n ?s" using len by (simp add: inner_vars_def)
  have c: "rl_current_claim (empty_log claim) = inner_total ?s" using claim by (simp add: empty_log_def inner_total_def inner_sum_def)
  obtain polys points v' where r: "rl_round_polynomials log' = polys" "rl_eval_points log' = points" "length polys = n"
      "length points = n" "(m', w') = foldl inner_bind ?s points" "rl_current_claim log' = inner_total (m', w')" "R p' v'"
      "sumcheck_verify_loop V polys 0 claim v = Some (Inr ((points, inner_total (m', w')), v'))"
    using inner_tables.reference_complete [OF assms(1) vs c rounds assms(2), of 0] c by (auto simp: empty_log_def)
  have "m' = [mle_sum (evaluations m) points]" "w' = [mle_sum (evaluations w) points]"
    using r(4,5) len by (simp_all add: inner_folds mle_sum_folds)
  note ends = this
  have "inner_total (m', w') = mle_sum (evaluations m) points * mle_sum (evaluations w) points"
    by (simp add: ends inner_total_def)
  with r(1-4,6-8) show ?thesis by (simp add: out sumcheck_proof_verify_def ends)
qed

lemma inner_sound:
  assumes accepts: "sumcheck_proof_verify V 3 prf v claim n = Some (Inr ((points, final), v'))"
    and triples: "\<forall>q\<in>set (round_polynomials prf). length q = 3"
    and len: "length m = 2 ^ n" "length w = 2 ^ n"
    and terminal: "mle_sum m points * mle_sum w points = final"
    and false_claim: "inner_sum m w \<noteq> claim"
  shows "\<exists>k<n. \<exists>B. finite B \<and> card B \<le> 2 \<and> points ! k \<in> B \<and>
    B = {x. horner (round_polynomials prf ! k) x = inner_total (inner_bind (foldl inner_bind (m, w) (take k points)) x)}"
proof -
  have loop: "sumcheck_verify_loop V (round_polynomials prf) 0 claim v = Some (Inr ((points, final), v'))"
    and n: "length (round_polynomials prf) = n"
    using accepts by (auto simp: sumcheck_proof_verify_def Let_def split: if_splits)
  have l: "length points = n" using verify_loop_length [OF loop] n by simp
  have f: "final = inner_total (foldl inner_bind (m, w) points)"
    using terminal len l by (simp add: inner_folds mle_sum_folds inner_total_def)
  have vs: "inner_vars (length (round_polynomials prf)) (m, w)" using len by (simp add: inner_vars_def n)
  have q: "\<forall>q\<in>set (round_polynomials prf). length q = Suc 2" using triples by simp
  have c: "claim \<noteq> inner_total (m, w)" using false_claim by (simp add: inner_total_def inner_sum_def)
  obtain k where "k < length (round_polynomials prf)"
    "points ! k \<in> {x. horner (round_polynomials prf ! k) x = inner_total (inner_bind (foldl inner_bind (m, w) (take k points)) x)}"
    "finite {x. horner (round_polynomials prf ! k) x = inner_total (inner_bind (foldl inner_bind (m, w) (take k points)) x)}"
    "card {x. horner (round_polynomials prf ! k) x = inner_total (inner_bind (foldl inner_bind (m, w) (take k points)) x)} \<le> 2"
    using inner_tables.verifier_sound [OF vs q loop c f] by blast
  then show ?thesis using n by (intro exI [of _ k]) simp
qed

end
