(* ===== verification/Circuit_Packed.thy ===== *)
theory Circuit_Packed
  imports BitZ_Prelude
begin

text \<open>
  Packed bit strings of the circuit crate: \<open>PackedBits\<close> and \<open>ScalarBits\<close> of
  \<open>crates/circuit/src/lib.rs\<close> and \<open>PackedWitness\<close> of \<open>witgen.rs\<close>.

  The const parameters \<open>N\<close> (bits) and \<open>M\<close> (limbs) of a type are arguments of its operations.
  Bits are numbered from the least significant bit of word 0.  A failed assertion is \<open>None\<close>.
\<close>

unbundle bit_operations_syntax

section \<open>\<open>PackedBits\<close>\<close>

definition div_ceil :: "nat \<Rightarrow> nat \<Rightarrow> nat" where
  "div_ceil n d = (n + d - 1) div d"

record packed_bits =
  pb_words :: "u64 list"

definition assert_width :: "nat \<Rightarrow> nat \<Rightarrow> unit option" where
  "assert_width N M = (if M = div_ceil N 64 then Some () else None)"

definition pb_zero :: "nat \<Rightarrow> nat \<Rightarrow> packed_bits option" where
  "pb_zero N M = (case assert_width N M of None \<Rightarrow> None | Some _ \<Rightarrow> Some \<lparr>pb_words = replicate M 0\<rparr>)"

definition set_packed_bit :: "(nat \<Rightarrow> bool) \<Rightarrow> nat \<Rightarrow> u64 list \<Rightarrow> u64 list" where
  "set_packed_bit f index ws = ws[index div 64 := ws ! (index div 64) OR push_bit (index mod 64) (of_bool (f index))]"

definition pb_from_fn :: "nat \<Rightarrow> nat \<Rightarrow> (nat \<Rightarrow> bool) \<Rightarrow> packed_bits option" where
  "pb_from_fn N M f =
     (case assert_width N M of None \<Rightarrow> None
      | Some _ \<Rightarrow> Some \<lparr>pb_words = fold (set_packed_bit f) [0..<N] (replicate M 0)\<rparr>)"

definition pb_from_array :: "nat \<Rightarrow> nat \<Rightarrow> bool list \<Rightarrow> packed_bits option" where
  "pb_from_array N M array = pb_from_fn N M (\<lambda>index. array ! index)"

definition mask_last :: "nat \<Rightarrow> nat \<Rightarrow> u64 list \<Rightarrow> u64 list" where
  "mask_last N M ws =
     (if N mod 64 \<noteq> 0 \<and> M \<noteq> 0 then ws[M - 1 := ws ! (M - 1) AND (push_bit (N mod 64) 1 - 1)] else ws)"

definition pb_from_u64 :: "nat \<Rightarrow> nat \<Rightarrow> u64 \<Rightarrow> packed_bits option" where
  "pb_from_u64 N M value =
     (case assert_width N M of None \<Rightarrow> None
      | Some _ \<Rightarrow>
          let ws = replicate M 0; ws = (if M \<noteq> 0 then ws[0 := value] else ws)
          in Some \<lparr>pb_words = mask_last N M ws\<rparr>)"

definition pb_from_words :: "nat \<Rightarrow> nat \<Rightarrow> u64 list \<Rightarrow> packed_bits option" where
  "pb_from_words N M ws =
     (case assert_width N M of None \<Rightarrow> None | Some _ \<Rightarrow> Some \<lparr>pb_words = mask_last N M ws\<rparr>)"

definition word_list_bit :: "u64 list \<Rightarrow> nat \<Rightarrow> bool" where
  "word_list_bit ws index = (drop_bit (index mod 64) (ws ! (index div 64)) AND 1 = 1)"

definition pb_bit :: "nat \<Rightarrow> packed_bits \<Rightarrow> nat \<Rightarrow> bool option" where
  "pb_bit N self index = (if N \<le> index then None else Some (word_list_bit (pb_words self) index))"

definition low_u64 :: "packed_bits \<Rightarrow> u64" where
  "low_u64 self = (case pb_words self of [] \<Rightarrow> 0 | w # _ \<Rightarrow> w)"

definition to_u64 :: "packed_bits \<Rightarrow> u64 option" where
  "to_u64 self = (if list_all (\<lambda>word. word = 0) (drop 1 (pb_words self)) then Some (low_u64 self) else None)"

definition pb_truncate :: "nat \<Rightarrow> packed_bits \<Rightarrow> nat \<Rightarrow> nat \<Rightarrow> packed_bits option" where
  "pb_truncate N self K L = pb_from_fn K L (\<lambda>index. index < N \<and> word_list_bit (pb_words self) index)"

definition get_word :: "u64 list \<Rightarrow> nat \<Rightarrow> u64" where
  "get_word ws source = (if source < length ws then ws ! source else 0)"

definition pb_slice :: "nat \<Rightarrow> packed_bits \<Rightarrow> nat \<Rightarrow> nat \<Rightarrow> nat \<Rightarrow> packed_bits option" where
  "pb_slice N self K L offset =
     (if offset + K > N then None
      else
        let first_word = offset div 64; shift = offset mod 64
        in pb_from_words K L (map (\<lambda>index.
             let source = first_word + index;
                 low = drop_bit shift (get_word (pb_words self) source);
                 high = (if shift = 0 then 0 else push_bit (64 - shift) (get_word (pb_words self) (source + 1)))
             in low OR high) [0..<L]))"

definition pb_xor :: "nat \<Rightarrow> packed_bits \<Rightarrow> packed_bits \<Rightarrow> packed_bits" where
  "pb_xor M self rhs = \<lparr>pb_words = map (\<lambda>index. pb_words self ! index XOR pb_words rhs ! index) [0..<M]\<rparr>"

definition pb_rotate_right :: "nat \<Rightarrow> nat \<Rightarrow> packed_bits \<Rightarrow> nat \<Rightarrow> packed_bits option" where
  "pb_rotate_right N M self amount =
     (if N = 0 then pb_zero N M
      else
        let amount = amount mod N
        in if M = 1 then
             (let value = low_u64 self
              in if amount = 0 then Some self
                 else pb_from_u64 N M (drop_bit amount value OR push_bit (N - amount) value))
           else pb_from_fn N M (\<lambda>index. word_list_bit (pb_words self) ((index + amount) mod N)))"

definition pb_shift_right :: "nat \<Rightarrow> nat \<Rightarrow> packed_bits \<Rightarrow> nat \<Rightarrow> packed_bits option" where
  "pb_shift_right N M self amount =
     (if amount \<ge> N then pb_zero N M
      else if M = 1 then pb_from_u64 N M (drop_bit amount (low_u64 self))
      else pb_from_fn N M (\<lambda>index. index + amount < N \<and> word_list_bit (pb_words self) (index + amount)))"

section \<open>\<open>ScalarBits\<close>\<close>

text \<open>Scalar storage is the array of bits; \<open>zero\<close> and \<open>xor\<close> are those of the bit type.\<close>

definition scalar_from_u64 :: "nat \<Rightarrow> nat \<Rightarrow> (bool \<Rightarrow> 'b) \<Rightarrow> u64 \<Rightarrow> 'b list option" where
  "scalar_from_u64 N M from_bool value =
     (if M = div_ceil N 64 then Some (map (\<lambda>i. from_bool (i < 64 \<and> drop_bit i value AND 1 = 1)) [0..<N]) else None)"

definition scalar_rotate_right :: "nat \<Rightarrow> 'b list \<Rightarrow> nat \<Rightarrow> 'b list" where
  "scalar_rotate_right N self amount =
     (if N = 0 then self else let amount = amount mod N in map (\<lambda>i. self ! ((i + amount) mod N)) [0..<N])"

definition scalar_shift_right :: "nat \<Rightarrow> (bool \<Rightarrow> 'b) \<Rightarrow> 'b list \<Rightarrow> nat \<Rightarrow> 'b list" where
  "scalar_shift_right N from_bool self amount =
     map (\<lambda>i. if i + amount < N then self ! (i + amount) else from_bool False) [0..<N]"

section \<open>\<open>PackedWitness\<close>\<close>

record packed_witness =
  pw_words :: "u64 list"
  pw_bit_len :: nat

definition pw_empty :: packed_witness where
  "pw_empty = \<lparr>pw_words = [], pw_bit_len = 0\<rparr>"

definition append_word :: "u64 \<Rightarrow> nat \<Rightarrow> packed_witness \<Rightarrow> packed_witness option" where
  "append_word value width self =
     (if width = 0 then Some self
      else
        let value = (if width = 64 then value else value AND (push_bit width 1 - 1));
            offset = pw_bit_len self mod 64;
            ws = pw_words self
        in if offset = 0
           then Some \<lparr>pw_words = ws @ [value], pw_bit_len = pw_bit_len self + width\<rparr>
           else if ws = [] then None
           else
             let ws = ws[length ws - 1 := last ws OR push_bit offset value];
                 ws = (if offset + width > 64 then ws @ [drop_bit (64 - offset) value] else ws)
             in Some \<lparr>pw_words = ws, pw_bit_len = pw_bit_len self + width\<rparr>)"

text \<open>\<open>bits.chunks(64)\<close>: the last chunk may be short.\<close>

function chunks :: "nat \<Rightarrow> 'a list \<Rightarrow> 'a list list" where
  "chunks n xs = (if xs = [] \<or> n = 0 then [] else take n xs # chunks n (drop n xs))"
  by pat_completeness auto
termination
  by (relation "measure (\<lambda>(n, xs). length xs)") auto

declare chunks.simps [simp del]

definition pack_chunk :: "bool list \<Rightarrow> u64" where
  "pack_chunk chunk = foldl (\<lambda>value (i, set_bit). value OR push_bit i (of_bool set_bit)) 0 (enumerate 0 chunk)"

fun pw_extend_chunks :: "bool list list \<Rightarrow> packed_witness \<Rightarrow> packed_witness option" where
  "pw_extend_chunks [] self = Some self"
| "pw_extend_chunks (chunk # rest) self =
     (case append_word (pack_chunk chunk) (length chunk) self of
        None \<Rightarrow> None | Some self \<Rightarrow> pw_extend_chunks rest self)"

definition pw_extend :: "bool list \<Rightarrow> packed_witness \<Rightarrow> packed_witness option" where
  "pw_extend bs self = pw_extend_chunks (chunks 64 bs) self"

fun pw_extend_limbs :: "nat \<Rightarrow> nat \<Rightarrow> u64 list \<Rightarrow> packed_witness \<Rightarrow> packed_witness option" where
  "pw_extend_limbs N index [] self = Some self"
| "pw_extend_limbs N index (word # rest) self =
     (case append_word word (min (N - index * 64) 64) self of
        None \<Rightarrow> None | Some self \<Rightarrow> pw_extend_limbs N (Suc index) rest self)"

definition extend_packed :: "nat \<Rightarrow> packed_bits \<Rightarrow> packed_witness \<Rightarrow> packed_witness option" where
  "extend_packed N bs self = pw_extend_limbs N 0 (pb_words bs) self"

definition extend_packed_words :: "u64 list \<Rightarrow> nat \<Rightarrow> packed_witness \<Rightarrow> packed_witness option" where
  "extend_packed_words ws bit_len self =
     (if bit_len > length ws * 64 then None
      else pw_extend_limbs bit_len 0 (take (div_ceil bit_len 64) ws) self)"

definition pw_from_bits :: "bool list \<Rightarrow> packed_witness option" where
  "pw_from_bits bs = pw_extend bs pw_empty"

definition pw_bit :: "packed_witness \<Rightarrow> nat \<Rightarrow> bool option" where
  "pw_bit self index = (if index < pw_bit_len self then Some (word_list_bit (pw_words self) index) else None)"

section \<open>Bits of a word list\<close>

text \<open>A packed string of \<open>n\<close> bits has just enough words and zeros above bit \<open>n\<close>, so its words are
  determined by its bits.\<close>

definition packed_inv :: "u64 list \<Rightarrow> nat \<Rightarrow> bool" where
  "packed_inv ws n \<longleftrightarrow> length ws = div_ceil n 64 \<and> (\<forall>i<64 * length ws. n \<le> i \<longrightarrow> \<not> word_list_bit ws i)"

definition bits_of :: "u64 list \<Rightarrow> nat \<Rightarrow> bool list" where
  "bits_of ws n = map (word_list_bit ws) [0..<n]"

lemma word_list_bit_eq: "word_list_bit ws i = bit (ws ! (i div 64)) (i mod 64)"
  by (simp add: word_list_bit_def drop_bit_and_1)

lemma length_bits_of [simp]: "length (bits_of ws n) = n"
  by (simp add: bits_of_def)

lemma div_ceil_pos: "0 < d \<Longrightarrow> div_ceil n d = n div d + of_bool (n mod d \<noteq> 0)"
proof -
  assume d: "0 < d"
  have "n + d - 1 = (n mod d + d - 1) + n div d * d" using d div_mult_mod_eq [of n d] by simp
  then have "div_ceil n d = (n mod d + d - 1) div d + n div d" using d by (simp only: div_ceil_def div_mult_self1 neq0_conv)
  moreover have "(n mod d + d - 1) div d = of_bool (n mod d \<noteq> 0)"
  proof (cases "n mod d = 0")
    case False
    have "n mod d < d" using d by simp
    then have "(n mod d + d - 1) = (n mod d - 1) + 1 * d" "n mod d - 1 < d" using False by simp_all
    then have "(n mod d + d - 1) div d = 1" by (simp only: div_mult_self1) simp
    with False show ?thesis by simp
  qed (use d in simp)
  ultimately show ?thesis by simp
qed

lemma div_ceil_64: "div_ceil n 64 = n div 64 + of_bool (n mod 64 \<noteq> 0)"
  by (rule div_ceil_pos) simp

lemma div_ceil_le: "n \<le> 64 * div_ceil n 64"
proof -
  have "n = 64 * (n div 64) + n mod 64" "n mod 64 < 64" by simp_all
  then show ?thesis unfolding div_ceil_64 by (cases "n mod 64 = 0") simp_all
qed

lemma div_ceil_less: "i < n \<Longrightarrow> i div 64 < div_ceil n 64"
  using div_ceil_le [of n] by (intro less_mult_imp_div_less) simp

lemma div_ceil_unique: "64 * k < x \<Longrightarrow> x \<le> 64 * Suc k \<Longrightarrow> div_ceil x 64 = Suc k"
  unfolding div_ceil_def by (rule div_nat_eqI) simp_all

lemma packed_inv_0 [simp]: "packed_inv [] 0"
  by (simp add: packed_inv_def div_ceil_def)

lemma word_list_eqI:
  assumes "length ws = length ws'" "\<And>i. i < 64 * length ws \<Longrightarrow> word_list_bit ws i = word_list_bit ws' i"
  shows "ws = ws'"
proof (rule nth_equalityI [OF assms(1)])
  fix q assume q: "q < length ws"
  show "ws ! q = ws' ! q"
  proof (rule bit_word_eqI)
    fix r assume "r < LENGTH(64)"
    then have "64 * q + r < 64 * length ws" "(64 * q + r) div 64 = q" "(64 * q + r) mod 64 = r" using q by simp_all
    then show "bit (ws ! q) r = bit (ws' ! q) r" using assms(2) [of "64 * q + r"] by (simp add: word_list_bit_eq)
  qed
qed

lemma packed_canonical:
  assumes "packed_inv ws n" "packed_inv ws' n" "bits_of ws n = bits_of ws' n"
  shows "ws = ws'"
proof (rule word_list_eqI)
  show "length ws = length ws'" using assms(1,2) by (simp add: packed_inv_def)
  fix i assume i: "i < 64 * length ws"
  show "word_list_bit ws i = word_list_bit ws' i"
  proof (cases "i < n")
    case True
    with assms(3) show ?thesis by (auto simp: bits_of_def)
  next
    case False
    with assms(1,2) i show ?thesis by (auto simp: packed_inv_def)
  qed
qed

lemma bit_low_mask: "width < 64 \<Longrightarrow> bit ((value :: u64) AND (push_bit width 1 - 1)) j = (j < width \<and> bit value j)"
  by (auto simp: bit_and_iff mask_eq_exp_minus_1 [symmetric] push_bit_of_1 bit_mask_iff possible_bit_def dest: bit_imp_le_length)

text \<open>Appending a word appends its low bits.\<close>

lemma append_word_bits:
  assumes inv: "packed_inv ws n" and width: "width \<le> 64"
  shows "\<exists>ws'. append_word v width \<lparr>pw_words = ws, pw_bit_len = n\<rparr> = Some \<lparr>pw_words = ws', pw_bit_len = n + width\<rparr> \<and>
    packed_inv ws' (n + width) \<and> bits_of ws' (n + width) = bits_of ws n @ map (bit v) [0..<width]"
proof (cases "width = 0")
  case True
  then show ?thesis using inv by (simp add: append_word_def)
next
  case False
  let ?v = "if width = 64 then v else v AND (push_bit width 1 - 1)"
  have vb: "bit ?v j = (j < width \<and> bit v j)" for j
    using width bit_low_mask [of width v j] by (auto dest: bit_imp_le_length)
  define qn on where "qn = n div 64" and "on = n mod 64"
  have n: "n = 64 * qn + on" "on < 64" by (simp_all add: qn_def on_def)
  have len: "length ws = qn + of_bool (on \<noteq> 0)" using inv by (simp add: packed_inv_def div_ceil_64 qn_def on_def)
  have finish: ?thesis
    if app: "append_word v width \<lparr>pw_words = ws, pw_bit_len = n\<rparr> = Some \<lparr>pw_words = ws', pw_bit_len = n + width\<rparr>"
      and l: "length ws' = div_ceil (n + width) 64"
      and b: "\<And>i. i < 64 * length ws' \<Longrightarrow> word_list_bit ws' i = (if i < n then word_list_bit ws i else bit ?v (i - n))" for ws'
  proof (intro exI conjI)
    show "packed_inv ws' (n + width)" unfolding packed_inv_def by (auto simp: l b vb)
    have "word_list_bit ws' i = (if i < n then word_list_bit ws i else bit v (i - n))" if "i < n + width" for i
    proof -
      have "i < 64 * length ws'" using that div_ceil_le [of "n + width"] unfolding l by linarith
      note bi = b [OF this]
      have "i - n < width" if "\<not> i < n" using that \<open>i < n + width\<close> by simp
      with bi show ?thesis by (simp only: vb) auto
    qed
    then show "bits_of ws' (n + width) = bits_of ws n @ map (bit v) [0..<width]"
      by (intro nth_equalityI) (simp_all add: bits_of_def nth_append)
  qed (rule app)
  show ?thesis
  proof (cases "on = 0")
    case True
    show ?thesis
    proof (rule finish [of "ws @ [?v]"])
      show "append_word v width \<lparr>pw_words = ws, pw_bit_len = n\<rparr> = Some \<lparr>pw_words = ws @ [?v], pw_bit_len = n + width\<rparr>"
        using False True by (simp add: append_word_def Let_def on_def)
      show "length (ws @ [?v]) = div_ceil (n + width) 64"
        using False True width len n div_ceil_unique [of qn "n + width"] by simp
      fix i assume i: "i < 64 * length (ws @ [?v])"
      have n: "n = 64 * length ws" using True len n by simp
      show "word_list_bit (ws @ [?v]) i = (if i < n then word_list_bit ws i else bit ?v (i - n))"
      proof (cases "i < n")
        case True
        then have "i div 64 < length ws" using n by simp
        with True show ?thesis by (simp add: word_list_bit_eq nth_append)
      next
        case False
        define r where "r = i - n"
        then have r: "i = 64 * length ws + r" using False n by simp
        then have "r < 64" using i by simp
        with r n show ?thesis by (simp add: word_list_bit_eq)
      qed
    qed
  next
    case o: False
    have l: "length ws = Suc qn" using o len by simp
    then have "ws \<noteq> []" by auto
    with l have ne: "ws \<noteq> []" "length ws = Suc qn" "last ws = ws ! qn" by (simp_all add: last_conv_nth)
    let ?low = "ws[qn := ws ! qn OR push_bit on ?v]"
    let ?ws = "if on + width > 64 then ?low @ [drop_bit (64 - on) ?v] else ?low"
    show ?thesis
    proof (rule finish [of ?ws])
      show "append_word v width \<lparr>pw_words = ws, pw_bit_len = n\<rparr> = Some \<lparr>pw_words = ?ws, pw_bit_len = n + width\<rparr>"
        using False o ne by (simp add: append_word_def Let_def on_def)
      show "length ?ws = div_ceil (n + width) 64"
        using False o ne(2) width n div_ceil_unique [of qn "n + width"] div_ceil_unique [of "Suc qn" "n + width"] by simp
      fix i assume i: "i < 64 * length ?ws"
      define q r where "q = i div 64" and "r = i mod 64"
      have ir: "i = 64 * q + r" "r < 64" by (simp_all add: q_def r_def)
      have "q < length ?ws" unfolding q_def by (rule less_mult_imp_div_less) (use i in \<open>simp add: mult.commute\<close>)
      then consider "q < qn" | "q = qn" | "q = Suc qn" "on + width > 64"
        using ne(2) by (auto simp: less_Suc_eq split: if_splits)
      then show "word_list_bit ?ws i = (if i < n then word_list_bit ws i else bit ?v (i - n))"
      proof cases
        case 1
        then have "i < n" using ir n by simp
        moreover have "?ws ! q = ws ! q" using 1 ne(2) by (simp add: nth_append)
        ultimately show ?thesis by (simp only: word_list_bit_eq q_def [symmetric] if_True)
      next
        case 2
        have "?ws ! q = ws ! q OR push_bit on ?v" using 2 ne(2) by (simp add: nth_append)
        then have "word_list_bit ?ws i = (word_list_bit ws i \<or> on \<le> r \<and> bit ?v (r - on))"
          using ir(2) by (simp only: word_list_bit_eq q_def [symmetric] r_def [symmetric] bit_or_iff bit_push_bit_iff)
            (auto simp: possible_bit_def)
        moreover have "\<not> word_list_bit ws i" if "n \<le> i" using that inv ir 2 ne(2) by (simp add: packed_inv_def)
        moreover have "i < n \<longleftrightarrow> r < on" "n \<le> i \<Longrightarrow> i - n = r - on" using 2 by (simp_all add: ir n)
        ultimately show ?thesis by auto
      next
        case 3
        have "?ws ! q = drop_bit (64 - on) ?v" using 3 ne(2) by (simp add: nth_append)
        then have "word_list_bit ?ws i = bit ?v (64 - on + r)"
          by (simp only: word_list_bit_eq q_def [symmetric] r_def [symmetric] bit_drop_bit_eq comp_apply)
        moreover have "\<not> i < n" "i - n = 64 - on + r" using 3 n(2) by (simp_all add: ir n(1))
        ultimately show ?thesis by simp
      qed
    qed
  qed
qed

lemma bits_of_Cons: "bits_of (w # ws) (64 + m) = map (bit w) [0..<64] @ bits_of ws m"
proof -
  have "[0..<64 + m] = [0..<64] @ [64..<64 + m]" by (rule upt_add_eq_append) simp
  also have "[64..<64 + m] = map (\<lambda>i. i + 64) [0..<m]" by (simp add: map_add_upt add.commute)
  finally have "[0..<64 + m] = [0..<64] @ map (\<lambda>i. i + 64) [0..<m]" .
  moreover have "word_list_bit (w # ws) (i + 64) = word_list_bit ws i" for i
    by (simp only: word_list_bit_eq div_add_self2 mod_add_self2 zero_neq_numeral not_False_eq_True Suc_eq_plus1 [symmetric] nth_Cons_Suc)
  moreover have "word_list_bit (w # ws) i = bit w i" if "i < 64" for i using that by (simp add: word_list_bit_eq)
  ultimately show ?thesis by (simp add: bits_of_def comp_def)
qed

section \<open>A packed witness is a bit string\<close>

definition pw_holds :: "packed_witness \<Rightarrow> bool list \<Rightarrow> bool" where
  "pw_holds self bs \<longleftrightarrow> packed_inv (pw_words self) (pw_bit_len self) \<and> bits_of (pw_words self) (pw_bit_len self) = bs"

lemma pw_holds_len: "pw_holds self bs \<Longrightarrow> pw_bit_len self = length bs"
  by (auto simp: pw_holds_def)

lemma pw_holds_unique:
  assumes "pw_holds self bs" "pw_holds self' bs"
  shows "self = self'"
proof (rule packed_witness.equality)
  have l: "pw_bit_len self = length bs" "pw_bit_len self' = length bs" using assms by (simp_all add: pw_holds_len)
  then show "pw_bit_len self = pw_bit_len self'" by simp
  show "pw_words self = pw_words self'"
    by (rule packed_canonical [of _ "length bs"]) (use assms l in \<open>simp_all add: pw_holds_def\<close>)
qed simp

lemma pw_holds_bit: "pw_holds self bs \<Longrightarrow> pw_bit self i = (if i < length bs then Some (bs ! i) else None)"
  by (auto simp: pw_holds_def pw_bit_def bits_of_def)

lemma pw_holds_empty [simp]: "pw_holds pw_empty []"
  by (simp add: pw_holds_def pw_empty_def bits_of_def)

lemma append_word_holds:
  assumes "pw_holds self bs" "width \<le> 64"
  shows "\<exists>self'. append_word v width self = Some self' \<and> pw_holds self' (bs @ map (bit v) [0..<width])"
proof -
  obtain ws n where self: "self = \<lparr>pw_words = ws, pw_bit_len = n\<rparr>" by (cases self) simp
  then have "packed_inv ws n" "bits_of ws n = bs" using assms(1) by (simp_all add: pw_holds_def)
  with append_word_bits [OF this(1) assms(2), of v] show ?thesis unfolding self by (auto simp: pw_holds_def)
qed

lemma bit_push_of_bool: "i < 64 \<Longrightarrow> bit (push_bit i (of_bool b) :: u64) j \<longleftrightarrow> b \<and> j = i"
  by (cases b) (auto simp: bit_exp_iff possible_bit_def)

lemma pack_chunk_bits: "length c \<le> 64 \<Longrightarrow> bit (pack_chunk c) j \<longleftrightarrow> j < length c \<and> c ! j"
proof (induction c arbitrary: j rule: rev_induct)
  case (snoc b c)
  have "pack_chunk (c @ [b]) = pack_chunk c OR push_bit (length c) (of_bool b)"
    by (simp add: pack_chunk_def enumerate_append_eq)
  moreover have "length c < 64" "length c \<le> 64" using snoc.prems by simp_all
  ultimately have "bit (pack_chunk (c @ [b])) j \<longleftrightarrow> (j < length c \<and> c ! j) \<or> (b \<and> j = length c)"
    using snoc.IH by (simp only: bit_or_iff bit_push_of_bool)
  then show ?case by (auto simp: nth_append less_Suc_eq)
qed (simp add: pack_chunk_def)

lemma concat_chunks: "0 < n \<Longrightarrow> concat (chunks n xs) = xs \<and> (\<forall>c\<in>set (chunks n xs). length c \<le> n)"
proof (induction n xs rule: chunks.induct)
  case (1 n xs)
  then show ?case by (cases "xs = []") (simp_all add: chunks.simps [of n xs] chunks.simps [of n "[]"])
qed

lemma extend_chunks_holds:
  "pw_holds self bs \<Longrightarrow> \<forall>c\<in>set cs. length c \<le> 64 \<Longrightarrow>
   \<exists>self'. pw_extend_chunks cs self = Some self' \<and> pw_holds self' (bs @ concat cs)"
proof (induction cs arbitrary: self bs)
  case (Cons c cs)
  have "map (bit (pack_chunk c)) [0..<length c] = c"
    using Cons.prems(2) by (intro nth_equalityI) (simp_all add: pack_chunk_bits)
  then obtain self1 where "append_word (pack_chunk c) (length c) self = Some self1" "pw_holds self1 (bs @ c)"
    using append_word_holds [OF Cons.prems(1), of "length c" "pack_chunk c"] Cons.prems(2) by auto
  with Cons.IH [of self1 "bs @ c"] Cons.prems(2) show ?case by simp
qed simp

lemma extend_holds: "pw_holds self bs \<Longrightarrow> \<exists>self'. pw_extend xs self = Some self' \<and> pw_holds self' (bs @ xs)"
  using extend_chunks_holds [of self bs "chunks 64 xs"] concat_chunks [of 64 xs] by (simp add: pw_extend_def)

lemma extend_limbs_holds:
  "pw_holds self bs \<Longrightarrow> 64 * (index + length ws) < N + 64 \<Longrightarrow>
   \<exists>self'. pw_extend_limbs N index ws self = Some self' \<and>
     pw_holds self' (bs @ bits_of ws (min (64 * length ws) (N - 64 * index)))"
proof (induction ws arbitrary: self bs index)
  case Nil
  then show ?case by (simp add: bits_of_def)
next
  case (Cons w ws)
  let ?k = "min (N - index * 64) 64"
  obtain self1 where s1: "append_word w ?k self = Some self1" "pw_holds self1 (bs @ map (bit w) [0..<?k])"
    using append_word_holds [OF Cons.prems(1), of ?k w] by auto
  obtain self' where s': "pw_extend_limbs N (Suc index) ws self1 = Some self'"
      "pw_holds self' ((bs @ map (bit w) [0..<?k]) @ bits_of ws (min (64 * length ws) (N - 64 * Suc index)))"
    using Cons.IH [OF s1(2), of "Suc index"] Cons.prems(2) by auto
  have "map (bit w) [0..<?k] @ bits_of ws (min (64 * length ws) (N - 64 * Suc index))
      = bits_of (w # ws) (min (64 * length (w # ws)) (N - 64 * index))" (is "?l = ?r")
  proof (cases "ws = []")
    case True
    then show ?thesis by (auto simp: bits_of_def word_list_bit_eq min_def mult.commute)
  next
    case False
    then have k: "?k = 64" "min (64 * length (w # ws)) (N - 64 * index) = 64 + min (64 * length ws) (N - 64 * Suc index)"
      using Cons.prems(2) by (cases ws; simp)+
    then show ?thesis unfolding k bits_of_Cons by simp
  qed
  with s1(1) s' show ?case by simp
qed

text \<open>Appending a packed value or packed words appends their bits.\<close>

lemma extend_packed_holds:
  assumes "pw_holds self bs" "length (pb_words b) = div_ceil N 64"
  shows "\<exists>self'. extend_packed N b self = Some self' \<and> pw_holds self' (bs @ bits_of (pb_words b) N)"
proof -
  have "64 * length (pb_words b) < N + 64" unfolding assms(2) div_ceil_def by (simp add: algebra_simps)
  then show ?thesis
    using extend_limbs_holds [OF assms(1), of 0 "pb_words b" N] div_ceil_le [of N] assms(2)
    by (simp add: extend_packed_def min_absorb2)
qed

lemma extend_packed_words_holds:
  assumes "pw_holds self bs" "n \<le> length ws * 64"
  shows "\<exists>self'. extend_packed_words ws n self = Some self' \<and> pw_holds self' (bs @ bits_of ws n)"
proof -
  have l: "div_ceil n 64 \<le> length ws" using assms(2) unfolding div_ceil_def by simp
  have "64 * div_ceil n 64 < n + 64" unfolding div_ceil_def by (simp add: algebra_simps)
  moreover have "bits_of (take (div_ceil n 64) ws) n = bits_of ws n"
    unfolding bits_of_def by (rule map_cong) (auto simp: word_list_bit_eq div_ceil_less)
  ultimately show ?thesis
    using extend_limbs_holds [OF assms(1), of 0 "take (div_ceil n 64) ws" n] l div_ceil_le [of n] assms(2)
    by (simp add: extend_packed_words_def min_absorb2)
qed

lemma from_bits_holds: "\<exists>w. pw_from_bits bs = Some w \<and> pw_holds w bs"
  using extend_holds [OF pw_holds_empty, of bs] by (simp add: pw_from_bits_def)

section \<open>A packed value is a bit string\<close>

definition pb_holds :: "nat \<Rightarrow> packed_bits \<Rightarrow> bool list \<Rightarrow> bool" where
  "pb_holds N self bs \<longleftrightarrow> packed_inv (pb_words self) N \<and> bits_of (pb_words self) N = bs"

lemma pb_holdsI:
  assumes "length ws = div_ceil N 64" "\<And>i. i < 64 * length ws \<Longrightarrow> word_list_bit ws i \<longleftrightarrow> i < N \<and> f i"
  shows "pb_holds N \<lparr>pb_words = ws\<rparr> (map f [0..<N])"
  using assms div_ceil_le [of N] by (auto simp: pb_holds_def packed_inv_def bits_of_def)

lemma pb_holds_length: "pb_holds N self bs \<Longrightarrow> length bs = N \<and> length (pb_words self) = div_ceil N 64"
  by (auto simp: pb_holds_def packed_inv_def)

lemma pb_holds_bit: "pb_holds N self bs \<Longrightarrow> i < 64 * length (pb_words self) \<Longrightarrow> word_list_bit (pb_words self) i \<longleftrightarrow> i < N \<and> bs ! i"
  by (cases "i < N") (auto simp: pb_holds_def packed_inv_def bits_of_def)

lemma pb_holds_unique: "pb_holds N x bs \<Longrightarrow> pb_holds N y bs \<Longrightarrow> x = y"
  using packed_canonical [of "pb_words x" N "pb_words y"] by (simp add: pb_holds_def packed_bits.equality)

lemma word_list_bit_update:
  "q < length ws \<Longrightarrow> word_list_bit (ws[q := w]) i = (if i div 64 = q then bit w (i mod 64) else word_list_bit ws i)"
  by (simp add: word_list_bit_eq)

lemma div_less_length: "i < 64 * n \<Longrightarrow> i div 64 < n" for n :: nat
  by (rule less_mult_imp_div_less) (simp add: mult.commute)

lemma word_list_bit_replicate: "i < 64 * n \<Longrightarrow> \<not> word_list_bit (replicate n 0) i"
  by (simp add: word_list_bit_eq div_less_length)

lemma set_packed_bits:
  assumes "N \<le> 64 * M" "i < 64 * M"
  shows "k \<le> N \<Longrightarrow> length (fold (set_packed_bit f) [0..<k] (replicate M 0)) = M \<and>
    word_list_bit (fold (set_packed_bit f) [0..<k] (replicate M 0)) i = (i < k \<and> f i)"
proof (induction k)
  case 0
  show ?case using word_list_bit_replicate [OF assms(2)] by simp
next
  case (Suc k)
  let ?ws = "fold (set_packed_bit f) [0..<k] (replicate M 0)"
  have l: "length ?ws = M" "word_list_bit ?ws i = (i < k \<and> f i)" using Suc by simp_all
  have k: "k div 64 < length ?ws" using l(1) Suc.prems assms(1) by (simp add: div_less_length)
  have "word_list_bit (set_packed_bit f k ?ws) i = (word_list_bit ?ws i \<or> f k \<and> i = k)"
  proof (cases "i div 64 = k div 64")
    case True
    then have "i = k \<longleftrightarrow> i mod 64 = k mod 64" using div_mult_mod_eq [of i 64] div_mult_mod_eq [of k 64] by metis
    with True k show ?thesis
      by (simp add: set_packed_bit_def word_list_bit_update bit_or_iff bit_push_of_bool) (simp add: word_list_bit_eq)
  next
    case False
    then have "i \<noteq> k" by auto
    with False k show ?thesis by (simp add: set_packed_bit_def word_list_bit_update)
  qed
  moreover have "length (set_packed_bit f k ?ws) = M" using l(1) by (simp add: set_packed_bit_def)
  ultimately show ?case using l(2) by (auto simp: less_Suc_eq)
qed

lemma pb_from_fn_holds:
  "\<exists>x. pb_from_fn N (div_ceil N 64) f = Some x \<and> pb_holds N x (map f [0..<N])"
proof -
  let ?ws = "fold (set_packed_bit f) [0..<N] (replicate (div_ceil N 64) 0)"
  have "length ?ws = div_ceil N 64" for i
    by (cases "div_ceil N 64") (use set_packed_bits [OF div_ceil_le [of N], of 0 N f] div_ceil_le [of N] in auto)
  then have "pb_holds N \<lparr>pb_words = ?ws\<rparr> (map f [0..<N])"
    using set_packed_bits [OF div_ceil_le [of N], of _ N f] by (intro pb_holdsI) simp_all
  then show ?thesis by (simp add: pb_from_fn_def assert_width_def)
qed

lemma mask_last_bit:
  assumes "length ws = div_ceil N 64" "i < 64 * length ws"
  shows "length (mask_last N (div_ceil N 64) ws) = div_ceil N 64"
    "word_list_bit (mask_last N (div_ceil N 64) ws) i = (i < N \<and> word_list_bit ws i)"
proof -
  show "length (mask_last N (div_ceil N 64) ws) = div_ceil N 64" using assms(1) by (simp add: mask_last_def)
  define q r where "q = N div 64" and "r = N mod 64"
  have N: "N = 64 * q + r" "r < 64" by (simp_all add: q_def r_def)
  have i: "i = 64 * (i div 64) + i mod 64" "i mod 64 < 64" "i div 64 < length ws" using assms(2) by (simp_all add: div_less_length)
  have m: "div_ceil N 64 = q + of_bool (r \<noteq> 0)" by (simp add: div_ceil_64 q_def r_def)
  show "word_list_bit (mask_last N (div_ceil N 64) ws) i = (i < N \<and> word_list_bit ws i)"
  proof (cases "r = 0")
    case True
    then have "i < N" using assms m N by simp
    with True show ?thesis by (simp add: mask_last_def r_def)
  next
    case False
    then have ml: "mask_last N (div_ceil N 64) ws = ws[q := ws ! q AND (push_bit r 1 - 1)]" "q < length ws"
      using m assms(1) by (simp_all add: mask_last_def r_def)
    show ?thesis
    proof (cases "i div 64 = q")
      case True
      then have "i < N \<longleftrightarrow> i mod 64 < r" using N i(1) by linarith
      moreover have "word_list_bit (mask_last N (div_ceil N 64) ws) i = (i mod 64 < r \<and> bit (ws ! q) (i mod 64))"
        unfolding ml(1) word_list_bit_update [OF ml(2)] using True by (simp only: if_True simp_thms bit_low_mask [OF N(2)])
      ultimately show ?thesis using True by (simp add: word_list_bit_eq)
    next
      case False
      then have "i div 64 < q" using i(3) assms(1) m by (cases "r = 0") simp_all
      then have "i < N" using N i(1,2) by linarith
      with False show ?thesis unfolding ml(1) word_list_bit_update [OF ml(2)] by simp
    qed
  qed
qed

lemma pb_from_words_holds:
  assumes "length ws = div_ceil N 64"
  shows "\<exists>x. pb_from_words N (div_ceil N 64) ws = Some x \<and> pb_holds N x (map (word_list_bit ws) [0..<N])"
proof -
  have "pb_holds N \<lparr>pb_words = mask_last N (div_ceil N 64) ws\<rparr> (map (word_list_bit ws) [0..<N])"
  proof (rule pb_holdsI)
    show l: "length (mask_last N (div_ceil N 64) ws) = div_ceil N 64" using assms by (simp add: mask_last_def)
    fix i assume "i < 64 * length (mask_last N (div_ceil N 64) ws)"
    then show "word_list_bit (mask_last N (div_ceil N 64) ws) i = (i < N \<and> word_list_bit ws i)"
      using mask_last_bit(2) [OF assms, of i] l assms by simp
  qed
  then show ?thesis by (simp add: pb_from_words_def assert_width_def)
qed

lemma pb_from_u64_holds:
  "\<exists>x. pb_from_u64 N (div_ceil N 64) v = Some x \<and> pb_holds N x (map (\<lambda>i. i < 64 \<and> bit v i) [0..<N])"
proof -
  let ?ws = "if div_ceil N 64 \<noteq> 0 then (replicate (div_ceil N 64) 0)[0 := v] else replicate (div_ceil N 64) 0"
  have l: "length ?ws = div_ceil N 64" by simp
  have "word_list_bit ?ws i = (i < 64 \<and> bit v i)" if "i < N" for i
  proof -
    have q: "i div 64 < div_ceil N 64" using that by (rule div_ceil_less)
    then show ?thesis by (cases "i div 64 = 0") (auto simp: word_list_bit_eq nth_list_update dest: bit_imp_le_length)
  qed
  then have "map (word_list_bit ?ws) [0..<N] = map (\<lambda>i. i < 64 \<and> bit v i) [0..<N]" by simp
  with pb_from_words_holds [OF l] show ?thesis
    by (simp only: pb_from_u64_def pb_from_words_def assert_width_def Let_def option.case if_True simp_thms)
qed

lemma pb_zero_holds: "\<exists>x. pb_zero N (div_ceil N 64) = Some x \<and> pb_holds N x (replicate N False)"
proof -
  have "pb_holds N \<lparr>pb_words = replicate (div_ceil N 64) 0\<rparr> (map (\<lambda>_. False) [0..<N])"
    by (rule pb_holdsI) (simp_all add: word_list_bit_replicate)
  then show ?thesis by (simp add: pb_zero_def assert_width_def map_replicate_const)
qed

text \<open>In one word the low bits of a value of at most 64 bits are its bits.\<close>

lemma low_u64_bit:
  assumes "pb_holds N x bs" "div_ceil N 64 = 1"
  shows "bit (low_u64 x) i \<longleftrightarrow> i < N \<and> bs ! i" "0 < N" "N \<le> 64"
proof -
  have l: "length (pb_words x) = 1" using pb_holds_length [OF assms(1)] assms(2) by simp
  then obtain w where w: "pb_words x = [w]" by (auto simp: length_Suc_conv)
  show N: "0 < N" using assms(2) by (cases "N = 0") (simp_all add: div_ceil_def)
  show "N \<le> 64" using div_ceil_le [of N] assms(2) by simp
  show "bit (low_u64 x) i \<longleftrightarrow> i < N \<and> bs ! i"
  proof (cases "i < 64")
    case True
    then show ?thesis using pb_holds_bit [OF assms(1), of i] w by (simp add: low_u64_def word_list_bit_eq)
  next
    case False
    then show ?thesis using \<open>N \<le> 64\<close> by (auto dest: bit_imp_le_length)
  qed
qed

lemma word_list_bit_holds: "pb_holds N x bs \<Longrightarrow> i < N \<Longrightarrow> word_list_bit (pb_words x) i = bs ! i"
  by (auto simp: pb_holds_def bits_of_def)

lemma pb_rotate_right_holds:
  assumes "pb_holds N x bs"
  shows "\<exists>y. pb_rotate_right N (div_ceil N 64) x amount = Some y \<and> pb_holds N y (scalar_rotate_right N bs amount)"
proof (cases "N = 0")
  case True
  then show ?thesis using pb_zero_holds [of 0] pb_holds_length [OF assms] by (simp add: pb_rotate_right_def scalar_rotate_right_def)
next
  case N: False
  let ?a = "amount mod N"
  have a: "?a < N" using N by simp
  show ?thesis
  proof (cases "div_ceil N 64 = 1")
    case True
    note low = low_u64_bit [OF assms True]
    show ?thesis
    proof (cases "?a = 0")
      case True
      then have "scalar_rotate_right N bs amount = bs"
        using pb_holds_length [OF assms] N by (auto simp: scalar_rotate_right_def intro!: nth_equalityI)
      with True show ?thesis using assms N \<open>div_ceil N 64 = 1\<close> by (simp add: pb_rotate_right_def Let_def)
    next
      case False
      let ?w = "drop_bit ?a (low_u64 x) OR push_bit (N - ?a) (low_u64 x)"
      have "(i < 64 \<and> bit ?w i) = bs ! ((i + ?a) mod N)" if i: "i < N" for i
      proof (cases "i + ?a < N")
        case True
        then show ?thesis using i low(3) by (auto simp: bit_or_iff bit_drop_bit_eq bit_push_bit_iff low(1) add.commute)
      next
        case False
        have l: "i + ?a - N < N" using i a by linarith
        with False have "(i + ?a) mod N = i - (N - ?a)" using a by (simp add: le_mod_geq)
        with False l show ?thesis using i a low(3)
          by (auto simp: bit_or_iff bit_drop_bit_eq bit_push_bit_iff possible_bit_def low(1) add.commute)
      qed
      then have "map (\<lambda>i. i < 64 \<and> bit ?w i) [0..<N] = scalar_rotate_right N bs amount"
        using N by (simp add: scalar_rotate_right_def)
      with pb_from_u64_holds [of N ?w] show ?thesis using N False True by (simp add: pb_rotate_right_def Let_def)
    qed
  next
    case False
    have "map (\<lambda>i. word_list_bit (pb_words x) ((i + ?a) mod N)) [0..<N] = scalar_rotate_right N bs amount"
      using N by (simp add: scalar_rotate_right_def word_list_bit_holds [OF assms])
    with pb_from_fn_holds [of N "\<lambda>i. word_list_bit (pb_words x) ((i + ?a) mod N)"] show ?thesis
      using N False by (simp add: pb_rotate_right_def Let_def)
  qed
qed

lemma pb_shift_right_holds:
  assumes "pb_holds N x bs"
  shows "\<exists>y. pb_shift_right N (div_ceil N 64) x amount = Some y \<and> pb_holds N y (scalar_shift_right N id bs amount)"
proof (cases "N \<le> amount")
  case True
  then have "scalar_shift_right N id bs amount = replicate N False"
    by (intro nth_equalityI) (auto simp: scalar_shift_right_def)
  with True pb_zero_holds [of N] show ?thesis by (simp add: pb_shift_right_def)
next
  case a: False
  show ?thesis
  proof (cases "div_ceil N 64 = 1")
    case True
    note low = low_u64_bit [OF assms True]
    have "(i < 64 \<and> bit (drop_bit amount (low_u64 x)) i) = (if i + amount < N then bs ! (i + amount) else False)" if "i < N" for i
      using that low(3) by (auto simp: bit_drop_bit_eq low(1) add.commute)
    then have "map (\<lambda>i. i < 64 \<and> bit (drop_bit amount (low_u64 x)) i) [0..<N] = scalar_shift_right N id bs amount"
      by (simp add: scalar_shift_right_def)
    with pb_from_u64_holds [of N "drop_bit amount (low_u64 x)"] show ?thesis using a True by (simp add: pb_shift_right_def)
  next
    case False
    have "map (\<lambda>i. i + amount < N \<and> word_list_bit (pb_words x) (i + amount)) [0..<N] = scalar_shift_right N id bs amount"
      by (auto simp: scalar_shift_right_def word_list_bit_holds [OF assms])
    with pb_from_fn_holds [of N "\<lambda>i. i + amount < N \<and> word_list_bit (pb_words x) (i + amount)"] show ?thesis
      using a False by (simp add: pb_shift_right_def)
  qed
qed

lemma pb_xor_holds:
  assumes "pb_holds N x bs" "pb_holds N y cs"
  shows "pb_holds N (pb_xor (div_ceil N 64) x y) (map (\<lambda>i. bs ! i \<noteq> cs ! i) [0..<N])"
  unfolding pb_xor_def
proof (rule pb_holdsI)
  let ?ws = "map (\<lambda>i. pb_words x ! i XOR pb_words y ! i) [0..<div_ceil N 64]"
  show "length ?ws = div_ceil N 64" by simp
  fix i assume i: "i < 64 * length ?ws"
  then have "i div 64 < div_ceil N 64" by (simp add: div_less_length)
  then have "word_list_bit ?ws i = (word_list_bit (pb_words x) i \<noteq> word_list_bit (pb_words y) i)"
    by (simp add: word_list_bit_eq bit_xor_iff)
  with i show "word_list_bit ?ws i \<longleftrightarrow> i < N \<and> bs ! i \<noteq> cs ! i"
    using pb_holds_bit [OF assms(1), of i] pb_holds_bit [OF assms(2), of i] pb_holds_length [OF assms(1)] pb_holds_length [OF assms(2)]
    by auto
qed

lemma pb_slice_holds:
  assumes "pb_holds N x bs" "offset + K \<le> N"
  shows "\<exists>y. pb_slice N x K (div_ceil K 64) offset = Some y \<and> pb_holds K y (take K (drop offset bs))"
proof -
  define q r where "q = offset div 64" and "r = offset mod 64"
  let ?get = "get_word (pb_words x)"
  let ?f = "\<lambda>index. drop_bit r (?get (q + index)) OR (if r = 0 then 0 else push_bit (64 - r) (?get (q + index + 1)))"
  let ?ws = "map ?f [0..<div_ceil K 64]"
  have o: "offset = 64 * q + r" "r < 64" by (simp_all add: q_def r_def)
  have get: "bit (?get p) j = (64 * p + j < N \<and> bs ! (64 * p + j))" if "j < 64" for p j
  proof (cases "p < length (pb_words x)")
    case True
    then have "64 * p + j < 64 * length (pb_words x)" using that by simp
    from pb_holds_bit [OF assms(1) this] True that show ?thesis by (simp add: get_word_def word_list_bit_eq)
  next
    case False
    then have "64 * length (pb_words x) \<le> 64 * p" by simp
    then have "N \<le> 64 * p + j" using pb_holds_length [OF assms(1)] div_ceil_le [of N] by linarith
    with False show ?thesis by (simp add: get_word_def)
  qed
  have "word_list_bit ?ws i = bs ! (offset + i)" if i: "i < K" for i
  proof -
    define p j where "p = i div 64" and "j = i mod 64"
    have ij: "i = 64 * p + j" "j < 64" "p < div_ceil K 64" using div_ceil_less [OF i] by (simp_all add: p_def j_def)
    have "word_list_bit ?ws i = bit (?f p) j" using ij by (simp add: word_list_bit_eq p_def [symmetric] j_def [symmetric])
    also have "\<dots> = bs ! (offset + i)"
    proof (cases "r + j < 64")
      case True
      have "bit (?f p) j = bit (?get (q + p)) (r + j)" using True ij(2)
        by (auto simp: bit_or_iff bit_drop_bit_eq bit_push_bit_iff)
      also have "\<dots> = (offset + i < N \<and> bs ! (offset + i))" using get [OF True, of "q + p"] by (simp add: o(1) ij(1) algebra_simps)
      finally show ?thesis using i assms(2) by simp
    next
      case False
      have "\<not> bit (?get (q + p)) (r + j)" using False by (auto dest: bit_imp_le_length)
      then have "bit (?f p) j = bit (?get (q + p + 1)) (j - (64 - r))" using False ij(2) o(2)
        by (auto simp: bit_or_iff bit_drop_bit_eq bit_push_bit_iff possible_bit_def)
      also have "\<dots> = (offset + i < N \<and> bs ! (offset + i))"
      proof -
        have e: "64 * (q + p + 1) + (j - (64 - r)) = offset + i" using False o ij by simp
        have "j - (64 - r) < 64" using ij(2) by simp
        from get [OF this, of "q + p + 1"] show ?thesis unfolding e .
      qed
      finally show ?thesis using i assms(2) by simp
    qed
    finally show ?thesis .
  qed
  then have "map (word_list_bit ?ws) [0..<K] = take K (drop offset bs)"
    using pb_holds_length [OF assms(1)] assms(2) by (intro nth_equalityI) simp_all
  moreover have "length ?ws = div_ceil K 64" by simp
  ultimately have "\<exists>y. pb_from_words K (div_ceil K 64) ?ws = Some y \<and> pb_holds K y (take K (drop offset bs))"
    using pb_from_words_holds [of ?ws K] by simp
  then show ?thesis using assms(2) unfolding pb_slice_def Let_def q_def r_def by simp
qed

section \<open>Properties\<close>

lemma pb_from_array_holds: "pb_holds N x bs \<Longrightarrow> pb_from_array N (div_ceil N 64) bs = Some x"
proof -
  assume x: "pb_holds N x bs"
  then have "length bs = N" by (simp add: pb_holds_length)
  then have "map ((!) bs) [0..<N] = bs" using map_nth [of bs] by simp
  then obtain z where "pb_from_array N (div_ceil N 64) bs = Some z" "pb_holds N z bs"
    using pb_from_fn_holds [of N "(!) bs"] by (auto simp: pb_from_array_def)
  with pb_holds_unique [OF x] show ?thesis by simp
qed

lemma pb_from_u64_scalar:
  "\<exists>z s. pb_from_u64 N (div_ceil N 64) v = Some z \<and> scalar_from_u64 N (div_ceil N 64) id v = Some s \<and> pb_holds N z s"
  using pb_from_u64_holds [of N v] by (auto simp: scalar_from_u64_def drop_bit_and_1)

lemma pb_truncate_holds:
  assumes "pb_holds N x bs"
  shows "\<exists>z. pb_truncate N x K (div_ceil K 64) = Some z \<and> pb_holds K z (map (\<lambda>i. i < N \<and> bs ! i) [0..<K])"
proof -
  have e: "(\<lambda>i. i < N \<and> word_list_bit (pb_words x) i) = (\<lambda>i. i < N \<and> bs ! i)"
    using word_list_bit_holds [OF assms] by auto
  show ?thesis unfolding pb_truncate_def e by (rule pb_from_fn_holds)
qed

text \<open>C27: Packed storage refines scalar storage.  A packed value of \<open>N\<close> bits is determined by its bits
  (the words above bit \<open>N\<close> stay zero), which is what \<open>from_array\<close> stores and \<open>bit\<close> reads back, with a
  panic exactly past the width.  \<open>zero\<close>, \<open>from_u64\<close>, rotation, shift, truncation and xor pass their width
  assertions and yield the bits of the scalar representation, on the one-word fast path as on the
  general path; a slice does so when it lies within the value and panics otherwise.\<close>

theorem packed_bits_refine_scalar_bits:
  assumes "pb_holds N x bs" "pb_holds N y cs"
  shows "(\<exists>z. pb_zero N (div_ceil N 64) = Some z \<and> pb_holds N z (replicate N False)) \<and>
    (\<exists>z s. pb_from_u64 N (div_ceil N 64) v = Some z \<and> scalar_from_u64 N (div_ceil N 64) id v = Some s \<and> pb_holds N z s) \<and>
    pb_from_array N (div_ceil N 64) bs = Some x \<and>
    (\<forall>i. pb_bit N x i = (if i < N then Some (bs ! i) else None)) \<and>
    (\<exists>z. pb_rotate_right N (div_ceil N 64) x amount = Some z \<and> pb_holds N z (scalar_rotate_right N bs amount)) \<and>
    (\<exists>z. pb_shift_right N (div_ceil N 64) x amount = Some z \<and> pb_holds N z (scalar_shift_right N id bs amount)) \<and>
    (\<exists>z. pb_truncate N x K (div_ceil K 64) = Some z \<and> pb_holds K z (map (\<lambda>i. i < N \<and> bs ! i) [0..<K])) \<and>
    (if offset + K \<le> N
     then \<exists>z. pb_slice N x K (div_ceil K 64) offset = Some z \<and> pb_holds K z (take K (drop offset bs))
     else pb_slice N x K (div_ceil K 64) offset = None) \<and>
    pb_holds N (pb_xor (div_ceil N 64) x y) (map (\<lambda>i. bs ! i \<noteq> cs ! i) [0..<N]) \<and> (bs = cs \<longrightarrow> x = y)"
proof (intro conjI)
  show "\<forall>i. pb_bit N x i = (if i < N then Some (bs ! i) else None)"
    using word_list_bit_holds [OF assms(1)] by (simp add: pb_bit_def)
  show "if offset + K \<le> N
     then \<exists>z. pb_slice N x K (div_ceil K 64) offset = Some z \<and> pb_holds K z (take K (drop offset bs))
     else pb_slice N x K (div_ceil K 64) offset = None"
    using pb_slice_holds [OF assms(1), of offset K] by (simp add: pb_slice_def not_le)
  show "bs = cs \<longrightarrow> x = y" using pb_holds_unique [OF assms(1), of y] assms(2) by blast
qed (rule pb_zero_holds pb_from_u64_scalar pb_from_array_holds [OF assms(1)] pb_rotate_right_holds [OF assms(1)]
    pb_shift_right_holds [OF assms(1)] pb_truncate_holds [OF assms(1)] pb_xor_holds [OF assms])+

theorem packed_bits_refine_scalar_bits_witness:
  "\<exists>x z. pb_from_array 3 (div_ceil 3 64) [True, False, True] = Some x \<and> pb_bit 3 x 2 = Some True \<and> pb_bit 3 x 3 = None \<and>
    pb_rotate_right 3 (div_ceil 3 64) x 1 = Some z \<and> pb_holds 3 z [False, True, True] \<and>
    pb_slice 3 x 2 (div_ceil 2 64) 2 = None"
proof -
  obtain x where x: "pb_from_array 3 (div_ceil 3 64) [True, False, True] = Some x"
      "pb_holds 3 x (map (\<lambda>i. [True, False, True] ! i) [0..<3])"
    using pb_from_fn_holds [of 3 "\<lambda>i. [True, False, True] ! i"] by (auto simp: pb_from_array_def)
  have m: "map (\<lambda>i. [True, False, True] ! i) [0..<3] = [True, False, True]" by (simp add: upt_rec)
  have "scalar_rotate_right 3 [True, False, True] 1 = [False, True, True]"
    by (simp add: scalar_rotate_right_def upt_rec)
  with x packed_bits_refine_scalar_bits [OF x(2) x(2), of 0 1 2 2] show ?thesis unfolding m by auto
qed

text \<open>The witness vector is a bit string.  Packing bits never fails; every way of appending (single
  bits, a packed value of any width, raw words) extends the string by exactly the appended bits, also
  across word boundaries, and reading bit \<open>i\<close> returns it.\<close>

theorem packed_witness_appends:
  assumes "pw_holds w bs" "pb_holds N b cs" "n \<le> length ws * 64"
  shows "(\<exists>w'. pw_extend xs w = Some w' \<and> pw_holds w' (bs @ xs)) \<and>
    (\<exists>w'. extend_packed N b w = Some w' \<and> pw_holds w' (bs @ cs)) \<and>
    (\<exists>w'. extend_packed_words ws n w = Some w' \<and> pw_holds w' (bs @ bits_of ws n)) \<and>
    (\<forall>i. pw_bit w i = (if i < length bs then Some (bs ! i) else None))"
  using extend_holds [OF assms(1)] extend_packed_holds [OF assms(1), of b N] extend_packed_words_holds [OF assms(1,3)]
    pw_holds_bit [OF assms(1)] assms(2) by (simp add: pb_holds_def packed_inv_def)

theorem packed_witness_appends_witness:
  "\<exists>w'. pw_extend [True] pw_empty = Some w' \<and> pw_holds w' ([] @ [True])"
proof -
  have "pb_holds 0 \<lparr>pb_words = []\<rparr> []" by (simp add: pb_holds_def bits_of_def)
  from conjunct1 [OF packed_witness_appends [OF pw_holds_empty this, of 0 "[]" "[True]"]] show ?thesis by simp
qed

end
