(* ===== verification/Circuit_Z.thy ===== *)
theory Circuit_Z
  imports Circuit_Packed
begin

text \<open>
  The fixed-width signed integers \<open>Z<LIMBS>\<close> of \<open>crates/circuit/src/witgen.rs\<close>, and the limb loops
  of \<open>matrix_products.rs\<close> that are the same ones.

  A value is its array of \<open>LIMBS\<close> words; \<open>LIMBS\<close> is the length of the list, or an argument where an
  operation creates a value.  Arithmetic wraps modulo \<open>2 ^ (64 * LIMBS)\<close>.
\<close>

section \<open>Values\<close>

record z_int =
  z_words :: "u64 list"

text \<open>\<open>for (output, input) in output.iter_mut().zip(words)\<close>: the shorter of the two ends the loop.\<close>

definition copy_words :: "u64 list \<Rightarrow> u64 list \<Rightarrow> u64 list" where
  "copy_words output input = take (length output) input @ drop (length input) output"

definition z_from_le_words :: "nat \<Rightarrow> u64 list \<Rightarrow> z_int" where
  "z_from_le_words LIMBS ws = \<lparr>z_words = copy_words (replicate LIMBS 0) ws\<rparr>"

definition z_from_le_bits :: "nat \<Rightarrow> bool list \<Rightarrow> z_int" where
  "z_from_le_bits LIMBS bs =
     (let taken = take (LIMBS * 64) bs
      in \<lparr>z_words = fold (set_packed_bit (\<lambda>index. taken ! index)) [0..<length taken] (replicate LIMBS 0)\<rparr>)"

definition z_from_packed_bits :: "nat \<Rightarrow> packed_bits \<Rightarrow> z_int" where
  "z_from_packed_bits LIMBS bs = \<lparr>z_words = copy_words (replicate LIMBS 0) (pb_words bs)\<rparr>"

definition z_from_packed_prefix :: "nat \<Rightarrow> nat \<Rightarrow> packed_bits \<Rightarrow> nat \<Rightarrow> z_int option" where
  "z_from_packed_prefix LIMBS N bs width =
     (if width > N then None
      else
        let ws = z_words (z_from_packed_bits LIMBS bs);
            retained_words = min (div_ceil width 64) LIMBS;
            ws = take retained_words ws @ replicate (length ws - retained_words) 0;
            ws = (if width mod 64 \<noteq> 0 \<and> retained_words \<noteq> 0
                  then ws[retained_words - 1 := ws ! (retained_words - 1) AND (push_bit (width mod 64) 1 - 1)] else ws)
        in Some \<lparr>z_words = ws\<rparr>)"

definition words_negative :: "u64 list \<Rightarrow> bool" where
  "words_negative ws = (ws \<noteq> [] \<and> drop_bit 63 (last ws) = 1)"

definition z_is_negative :: "z_int \<Rightarrow> bool" where
  "z_is_negative self = words_negative (z_words self)"

definition z_sign_extend :: "nat \<Rightarrow> z_int \<Rightarrow> z_int option" where
  "z_sign_extend TO_LIMBS self =
     (if TO_LIMBS < length (z_words self) then None
      else Some \<lparr>z_words = copy_words (replicate TO_LIMBS (if z_is_negative self then - 1 else 0)) (z_words self)\<rparr>)"

definition z_from_i128 :: "nat \<Rightarrow> u128 \<Rightarrow> z_int" where
  "z_from_i128 LIMBS v =
     (let ws = replicate LIMBS (if v <s 0 then - 1 else 0);
          ws = (if LIMBS \<noteq> 0 then ws[0 := ucast v] else ws);
          ws = (if LIMBS > 1 then ws[1 := ucast (signed_drop_bit 64 v)] else ws)
      in \<lparr>z_words = ws\<rparr>)"

definition z_from_u64 :: "nat \<Rightarrow> u64 \<Rightarrow> z_int" where
  "z_from_u64 LIMBS v = (let ws = replicate LIMBS 0 in \<lparr>z_words = (if LIMBS \<noteq> 0 then ws[0 := v] else ws)\<rparr>)"

definition z_zero :: "nat \<Rightarrow> z_int" where
  "z_zero LIMBS = \<lparr>z_words = replicate LIMBS 0\<rparr>"

definition z_is_zero :: "z_int \<Rightarrow> bool" where
  "z_is_zero self = list_all (\<lambda>word. word = 0) (z_words self)"

definition z_one :: "nat \<Rightarrow> z_int" where
  "z_one LIMBS = z_from_u64 LIMBS 1"

section \<open>Arithmetic\<close>

text \<open>The carry and borrow loops; \<open>matrix_products.rs\<close> also returns the last carry.\<close>

fun add_words :: "u64 list \<Rightarrow> u64 list \<Rightarrow> bool \<Rightarrow> u64 list \<times> bool" where
  "add_words (l # left) (r # right) carry =
     (let (s, first_carry) = overflowing_add l r;
          (s, second_carry) = overflowing_add s (of_bool carry);
          (rest, carry) = add_words left right (first_carry \<or> second_carry)
      in (s # rest, carry))"
| "add_words left right carry = ([], carry)"

fun subtract_words :: "u64 list \<Rightarrow> u64 list \<Rightarrow> bool \<Rightarrow> u64 list \<times> bool" where
  "subtract_words (l # left) (r # right) borrow =
     (let (difference, first_borrow) = overflowing_sub l r;
          (difference, second_borrow) = overflowing_sub difference (of_bool borrow);
          (rest, borrow) = subtract_words left right (first_borrow \<or> second_borrow)
      in (difference # rest, borrow))"
| "subtract_words left right borrow = ([], borrow)"

definition z_add :: "z_int \<Rightarrow> z_int \<Rightarrow> z_int" where
  "z_add self rhs = \<lparr>z_words = fst (add_words (z_words self) (z_words rhs) False)\<rparr>"

definition z_sub :: "z_int \<Rightarrow> z_int \<Rightarrow> z_int" where
  "z_sub self rhs = \<lparr>z_words = fst (subtract_words (z_words self) (z_words rhs) False)\<rparr>"

definition z_neg :: "z_int \<Rightarrow> z_int" where
  "z_neg self = z_sub (z_zero (length (z_words self))) self"

definition z_mul_step :: "u64 list \<Rightarrow> u64 list \<Rightarrow> nat \<Rightarrow> nat \<Rightarrow> u64 list \<times> u128 \<Rightarrow> u64 list \<times> u128" where
  "z_mul_step self rhs left right st =
     (let (ws, carry) = st;
          output = left + right;
          product = ucast (self ! left) * ucast (rhs ! right);
          tot = ucast (ws ! output) + product + carry
      in (ws[output := ucast tot], drop_bit 64 tot))"

definition z_mul :: "z_int \<Rightarrow> z_int \<Rightarrow> z_int" where
  "z_mul self rhs =
     (let LIMBS = length (z_words self)
      in \<lparr>z_words = fold (\<lambda>left ws. fst (fold (z_mul_step (z_words self) (z_words rhs) left) [0..<LIMBS - left] (ws, 0)))
            [0..<LIMBS] (replicate LIMBS 0)\<rparr>)"

definition z_sum :: "nat \<Rightarrow> z_int list \<Rightarrow> z_int" where
  "z_sum LIMBS zs = foldl z_add (z_zero LIMBS) zs"

section \<open>The number a list of words stands for\<close>

definition radix :: nat where
  "radix = 2 ^ 64"

fun words_val :: "u64 list \<Rightarrow> nat" where
  "words_val [] = 0"
| "words_val (w # ws) = unat w + radix * words_val ws"

definition signed_val :: "u64 list \<Rightarrow> int" where
  "signed_val ws = int (words_val ws) - (if words_negative ws then int radix ^ length ws else 0)"

lemma words_val_append: "words_val (xs @ ys) = words_val xs + radix ^ length xs * words_val ys"
  by (induction xs) (simp_all add: algebra_simps power_add)

lemma words_val_replicate_0 [simp]: "words_val (replicate n 0) = 0"
  by (induction n) simp_all

lemma digit_less: "(u :: nat) < B \<Longrightarrow> v < P \<Longrightarrow> u + B * v < B * P"
proof -
  assume "u < B" "v < P"
  then have "B * (v + 1) \<le> B * P" by (intro mult_le_mono2) simp
  with \<open>u < B\<close> show ?thesis by (simp add: algebra_simps)
qed

lemma digit_unique: "(u :: nat) < B \<Longrightarrow> u' < B \<Longrightarrow> u + B * v = u' + B * v' \<Longrightarrow> u = u' \<and> v = v'"
proof -
  assume l: "u < B" "u' < B" and e: "u + B * v = u' + B * v'"
  have "u = (u + B * v) mod B" "v = (u + B * v) div B" using l(1) by simp_all
  moreover have "u' = (u' + B * v') mod B" "v' = (u' + B * v') div B" using l(2) by simp_all
  moreover have "B \<noteq> 0" using l(1) by simp
  ultimately show ?thesis using e by metis
qed

lemma radix_pos [simp]: "0 < radix"
  by (simp add: radix_def)

lemma unat_less_64: "unat (w :: u64) < radix"
  using unat_lt2p [of w] by (simp add: radix_def)

lemma radix_power: "radix ^ n = 2 ^ (64 * n)"
  unfolding radix_def power_mult ..

lemma words_val_less: "words_val ws < radix ^ length ws"
proof (induction ws)
  case (Cons w ws)
  from digit_less [OF unat_less_64 Cons] show ?case by simp
qed simp

lemma words_val_inj: "length xs = length ys \<Longrightarrow> words_val xs = words_val ys \<Longrightarrow> xs = ys"
proof (induction xs ys rule: list_induct2)
  case (Cons x xs y ys)
  have "unat x = unat y \<and> words_val xs = words_val ys"
    using Cons.prems unfolding words_val.simps by (rule digit_unique [OF unat_less_64 unat_less_64])
  with Cons.IH show ?case by (simp add: word_unat_eq_iff)
qed simp

section \<open>Addition and subtraction\<close>

lemma overflowing_sub_exact:
  "unat (a :: u64) + radix * of_bool (snd (overflowing_sub a b)) = unat (fst (overflowing_sub a b)) + unat b"
proof (cases "b \<le> a")
  case True
  then have "unat b \<le> unat a" by (simp add: word_le_nat_alt)
  with True show ?thesis by (simp add: overflowing_sub_def unat_minus_le not_less)
next
  case False
  then have l: "unat a < unat b" by (simp add: word_le_nat_alt)
  then have "unat (a - b) = radix + unat a - unat b"
    using unat_less_64 [of b] by (simp add: unat_sub_if' word_less_nat_alt radix_def)
  with False l show ?thesis using unat_less_64 [of b] by (simp add: overflowing_sub_def not_le)
qed

lemma add_words_exact:
  "length xs = length ys \<Longrightarrow> length (fst (add_words xs ys c)) = length xs \<and>
   words_val (fst (add_words xs ys c)) + radix ^ length xs * of_bool (snd (add_words xs ys c))
     = words_val xs + words_val ys + of_bool c"
proof (induction xs ys arbitrary: c rule: list_induct2)
  case (Cons x xs y ys)
  obtain s c1 where 1: "overflowing_add x y = (s, c1)" by fastforce
  obtain t c2 where 2: "overflowing_add s (of_bool c) = (t, c2)" by fastforce
  obtain zs c' where 3: "add_words xs ys (c1 \<or> c2) = (zs, c')" by fastforce
  have s: "unat s + radix * of_bool c1 = unat x + unat y" using overflowing_add_exact [of x y] 1 by (simp add: radix_def)
  have t: "unat t + radix * of_bool c2 = unat s + of_bool c" using overflowing_add_exact [of s "of_bool c"] 2 by (simp add: radix_def)
  have "\<not> (c1 \<and> c2)"
  proof
    assume "c1 \<and> c2"
    with s t have "unat x + unat y + of_bool c = unat t + 2 * radix" by simp
    then show False using unat_less_64 [of x] unat_less_64 [of y] by (cases c) simp_all
  qed
  then have c: "unat t + radix * of_bool (c1 \<or> c2) = unat x + unat y + of_bool c" using s t by (cases c1; cases c2) simp_all
  have ih: "length zs = length xs" "words_val zs + radix ^ length xs * of_bool c' = words_val xs + words_val ys + of_bool (c1 \<or> c2)"
    using Cons.IH [of "c1 \<or> c2"] by (simp_all add: 3)
  have "unat t + radix * words_val zs + radix * radix ^ length xs * of_bool c'
      = unat t + radix * (words_val xs + words_val ys + of_bool (c1 \<or> c2))"
    unfolding ih(2) [symmetric] by (simp only: algebra_simps)
  also have "\<dots> = unat x + radix * words_val xs + (unat y + radix * words_val ys) + of_bool c"
    using c by (simp add: algebra_simps)
  finally show ?case by (simp add: 1 2 3 ih(1) mult.assoc)
qed simp

lemma subtract_words_exact:
  "length xs = length ys \<Longrightarrow> length (fst (subtract_words xs ys c)) = length xs \<and>
   words_val xs + radix ^ length xs * of_bool (snd (subtract_words xs ys c))
     = words_val (fst (subtract_words xs ys c)) + words_val ys + of_bool c"
proof (induction xs ys arbitrary: c rule: list_induct2)
  case (Cons x xs y ys)
  obtain s c1 where 1: "overflowing_sub x y = (s, c1)" by fastforce
  obtain t c2 where 2: "overflowing_sub s (of_bool c) = (t, c2)" by fastforce
  obtain zs c' where 3: "subtract_words xs ys (c1 \<or> c2) = (zs, c')" by fastforce
  have s: "unat x + radix * of_bool c1 = unat s + unat y" using overflowing_sub_exact [of x y] 1 by simp
  have t: "unat s + radix * of_bool c2 = unat t + of_bool c" using overflowing_sub_exact [of s "of_bool c"] 2 by simp
  have "\<not> (c1 \<and> c2)"
  proof
    assume "c1 \<and> c2"
    with s t have "unat x + 2 * radix = unat t + unat y + of_bool c" by simp
    then show False using unat_less_64 [of t] unat_less_64 [of y] by (cases c) simp_all
  qed
  then have c: "unat x + radix * of_bool (c1 \<or> c2) = unat t + unat y + of_bool c" using s t by (cases c1; cases c2) simp_all
  have ih: "length zs = length xs" "words_val xs + radix ^ length xs * of_bool c' = words_val zs + words_val ys + of_bool (c1 \<or> c2)"
    using Cons.IH [of "c1 \<or> c2"] by (simp_all add: 3)
  have "unat x + radix * words_val xs + radix * radix ^ length xs * of_bool c'
      = unat x + radix * (words_val zs + words_val ys + of_bool (c1 \<or> c2))"
    unfolding ih(2) [symmetric] by (simp only: algebra_simps)
  also have "\<dots> = unat t + radix * words_val zs + (unat y + radix * words_val ys) + of_bool c"
    using c by (simp add: algebra_simps)
  finally show ?case by (simp add: 1 2 3 ih(1) mult.assoc)
qed simp

section \<open>Multiplication\<close>

lemma words_val_update:
  "k < length ws \<Longrightarrow> words_val (ws[k := w]) + radix ^ k * unat (ws ! k) = words_val ws + radix ^ k * unat w"
proof (induction ws arbitrary: k)
  case (Cons x ws)
  show ?case
  proof (cases k)
    case (Suc k')
    then have "words_val (ws[k' := w]) + radix ^ k' * unat (ws ! k') = words_val ws + radix ^ k' * unat w"
      using Cons by simp
    then have "radix * (words_val (ws[k' := w]) + radix ^ k' * unat (ws ! k')) = radix * (words_val ws + radix ^ k' * unat w)"
      by simp
    then show ?thesis by (simp add: Suc algebra_simps)
  qed simp
qed simp

lemma words_val_take_Suc: "r < length ws \<Longrightarrow> words_val (take (Suc r) ws) = words_val (take r ws) + radix ^ r * unat (ws ! r)"
  by (simp add: take_Suc_conv_app_nth words_val_append)

lemma multiply_accumulate:
  fixes a b w :: u64 and c :: u128
  assumes "unat c < radix"
  shows "unat (ucast w + ucast a * ucast b + c) = unat w + unat a * unat b + unat c"
proof -
  have "unat a * unat b \<le> (radix - 1) * (radix - 1)" using unat_less_64 [of a] unat_less_64 [of b] by (intro mult_le_mono) linarith+
  then have s: "unat w + unat a * unat b + unat c < 2 ^ 128" using unat_less_64 [of w] assms by (simp add: radix_def)
  have u: "unat (ucast x :: u128) = unat x" for x :: u64 using unat_less_64 [of x] by (simp add: unat_ucast_mod radix_def)
  have m: "unat (ucast a * ucast b :: u128) = unat a * unat b" using s by (subst unat_mult_lt) (simp_all add: u)
  have "unat (ucast w + ucast a * ucast b :: u128) = unat w + unat a * unat b"
    using s by (subst unat_add_lt) (simp_all add: u m)
  then show ?thesis using s by (subst unat_add_lt) simp_all
qed

lemma z_mul_row:
  assumes "length ws = L" "length y = L" "left < L" "left < length x"
  shows "r \<le> L - left \<Longrightarrow> \<exists>ws' c. fold (z_mul_step x y left) [0..<r] (ws, 0) = (ws', c) \<and> length ws' = L \<and> unat c < radix \<and>
    words_val ws' + radix ^ (left + r) * unat c = words_val ws + unat (x ! left) * radix ^ left * words_val (take r y)"
proof (induction r)
  case 0
  show ?case using assms(1) by simp
next
  case (Suc r)
  then obtain ws1 c where ih: "fold (z_mul_step x y left) [0..<r] (ws, 0) = (ws1, c)" "length ws1 = L" "unat c < radix"
    "words_val ws1 + radix ^ (left + r) * unat c = words_val ws + unat (x ! left) * radix ^ left * words_val (take r y)"
    by auto
  let ?k = "left + r"
  have k: "?k < length ws1" "r < length y" using Suc.prems assms ih(2) by simp_all
  define tot where "tot = ucast (ws1 ! ?k) + ucast (x ! left) * ucast (y ! r) + c"
  have t: "unat tot = unat (ws1 ! ?k) + unat (x ! left) * unat (y ! r) + unat c"
    unfolding tot_def by (rule multiply_accumulate [OF ih(3)])
  let ?w = "ucast tot :: u64" and ?c = "drop_bit 64 tot"
  have split: "unat ?w + radix * unat ?c = unat tot" by (simp add: unat_ucast_mod unat_drop_bit radix_def)
  have c: "unat ?c < radix" using unat_lt2p [of tot] by (simp add: unat_drop_bit div_less_iff_less_mult radix_def)
  have step: "fold (z_mul_step x y left) [0..<Suc r] (ws, 0) = (ws1[?k := ?w], ?c)"
    by (simp add: ih(1) z_mul_step_def Let_def tot_def)
  have "words_val (ws1[?k := ?w]) + radix ^ ?k * unat (ws1 ! ?k) + radix ^ ?k * (radix * unat ?c)
      = words_val ws1 + radix ^ ?k * (unat ?w + radix * unat ?c)"
    using words_val_update [OF k(1), of ?w] by (simp only: distrib_left)
  also have "\<dots> = words_val ws1 + radix ^ ?k * unat c + radix ^ ?k * unat (ws1 ! ?k)
      + unat (x ! left) * radix ^ left * (radix ^ r * unat (y ! r))"
    unfolding split t by (simp add: algebra_simps power_add)
  also have "\<dots> = words_val ws + unat (x ! left) * radix ^ left * words_val (take (Suc r) y) + radix ^ ?k * unat (ws1 ! ?k)"
    unfolding ih(4) words_val_take_Suc [OF k(2)] by (simp add: algebra_simps)
  finally have "words_val (ws1[?k := ?w]) + radix ^ ?k * (radix * unat ?c)
      = words_val ws + unat (x ! left) * radix ^ left * words_val (take (Suc r) y)" by simp
  moreover have "radix ^ ?k * (radix * unat ?c) = radix ^ (left + Suc r) * unat ?c"
    by (simp add: mult.assoc mult.left_commute)
  ultimately show ?case using step ih(2) c by (intro exI [of _ "ws1[?k := ?w]"] exI [of _ ?c]) (simp only: length_list_update)
qed

lemma z_mul_words:
  assumes "length x = L" "length y = L"
  shows "n \<le> L \<Longrightarrow> length (fold (\<lambda>left ws. fst (fold (z_mul_step x y left) [0..<L - left] (ws, 0))) [0..<n] (replicate L 0)) = L \<and>
    words_val (fold (\<lambda>left ws. fst (fold (z_mul_step x y left) [0..<L - left] (ws, 0))) [0..<n] (replicate L 0)) mod radix ^ L
      = (words_val (take n x) * words_val y) mod radix ^ L"
proof (induction n)
  case (Suc n)
  let ?ws = "fold (\<lambda>left ws. fst (fold (z_mul_step x y left) [0..<L - left] (ws, 0))) [0..<n] (replicate L 0)"
  let ?M = "radix ^ L :: nat"
  have n: "n < L" "n < length x" using Suc.prems assms by simp_all
  have ih: "length ?ws = L" "words_val ?ws mod ?M = (words_val (take n x) * words_val y) mod ?M" using Suc by simp_all
  obtain ws' c where r: "fold (z_mul_step x y n) [0..<L - n] (?ws, 0) = (ws', c)" "length ws' = L"
    "words_val ws' + radix ^ (n + (L - n)) * unat c = words_val ?ws + unat (x ! n) * radix ^ n * words_val (take (L - n) y)"
    using z_mul_row [OF ih(1) assms(2) n, of "L - n"] by auto
  have M: "?M = radix ^ n * radix ^ (L - n)" using n by (simp add: power_add [symmetric])
  have "words_val y = words_val (take (L - n) y) + radix ^ (L - n) * words_val (drop (L - n) y)"
    using words_val_append [of "take (L - n) y" "drop (L - n) y"] assms(2) by simp
  then have y: "unat (x ! n) * radix ^ n * words_val y
      = unat (x ! n) * radix ^ n * words_val (take (L - n) y) + ?M * (unat (x ! n) * words_val (drop (L - n) y))"
    unfolding M by (simp add: algebra_simps)
  have "words_val ws' mod ?M = (words_val ws' + ?M * unat c) mod ?M" by (rule mod_mult_self2 [symmetric])
  also have "words_val ws' + ?M * unat c = words_val ?ws + unat (x ! n) * radix ^ n * words_val (take (L - n) y)"
    using r(3) n by simp
  also have "(words_val ?ws + unat (x ! n) * radix ^ n * words_val (take (L - n) y)) mod ?M
      = (words_val ?ws + unat (x ! n) * radix ^ n * words_val y) mod ?M"
    unfolding y add.assoc [symmetric] by (rule mod_mult_self2 [symmetric])
  also have "\<dots> = (words_val (take n x) * words_val y + unat (x ! n) * radix ^ n * words_val y) mod ?M"
    using ih(2) by (rule mod_add_cong) (rule refl)
  also have "\<dots> = (words_val (take (Suc n) x) * words_val y) mod ?M"
    unfolding words_val_take_Suc [OF n(2)] by (simp add: algebra_simps)
  finally show ?case using r(1,2) by simp
qed simp

section \<open>Signed values\<close>

text \<open>The value a sum or product of signed integers wraps to.\<close>

definition wrap :: "nat \<Rightarrow> int \<Rightarrow> int" where
  "wrap LIMBS x = (x + int radix ^ LIMBS div 2) mod int radix ^ LIMBS - int radix ^ LIMBS div 2"

lemma radix_even: "0 < n \<Longrightarrow> 2 * (int radix ^ n div 2) = int radix ^ n"
  by (cases n) (simp_all add: radix_def)

lemma words_negative_iff:
  assumes "ws \<noteq> []"
  shows "words_negative ws \<longleftrightarrow> int radix ^ length ws div 2 \<le> int (words_val ws)"
proof -
  obtain xs w where ws: "ws = xs @ [w]" using assms by (cases ws rule: rev_cases) auto
  have half: "int radix ^ length ws div 2 = int (2 ^ 63 * radix ^ length xs)"
    by (simp add: ws radix_def)
  have n: "words_negative ws \<longleftrightarrow> 2 ^ 63 \<le> unat w"
  proof -
    have "unat (drop_bit 63 w) = unat w div 2 ^ 63" by (rule unat_drop_bit)
    moreover have "unat w div 2 ^ 63 < 2" using unat_less_64 [of w] by (simp add: radix_def div_less_iff_less_mult)
    ultimately show ?thesis unfolding words_negative_def ws
      by (simp add: word_unat_eq_iff) (auto simp: div_eq_0_iff not_less)
  qed
  have v: "words_val ws = words_val xs + radix ^ length xs * unat w" by (simp add: ws words_val_append)
  have x: "words_val xs < radix ^ length xs" using words_val_less [of xs] by (simp add: radix_power)
  show ?thesis
  proof (cases "2 ^ 63 \<le> unat w")
    case True
    then have "radix ^ length xs * 2 ^ 63 \<le> radix ^ length xs * unat w" by (rule mult_le_mono2)
    with True show ?thesis unfolding n half of_nat_le_iff v by (simp add: mult.commute trans_le_add2)
  next
    case False
    then have "radix ^ length xs * (unat w + 1) \<le> radix ^ length xs * 2 ^ 63" by (intro mult_le_mono2) simp
    then have "words_val xs + radix ^ length xs * unat w < 2 ^ 63 * radix ^ length xs"
      using x unfolding distrib_left mult_1_right mult.commute [of "radix ^ length xs" "2 ^ 63"] by linarith
    with False show ?thesis unfolding n half of_nat_le_iff v by simp
  qed
qed

lemma signed_val_bounds:
  assumes "ws \<noteq> []"
  shows "- (int radix ^ length ws div 2) \<le> signed_val ws \<and> signed_val ws < int radix ^ length ws div 2"
proof -
  have "int (words_val ws) < int (radix ^ length ws)" unfolding of_nat_less_iff by (rule words_val_less)
  then have l: "int (words_val ws) < int radix ^ length ws" by (simp only: of_nat_power)
  have h: "2 * (int radix ^ length ws div 2) = int radix ^ length ws" using assms by (intro radix_even) simp
  show ?thesis
  proof (cases "words_negative ws")
    case True
    then show ?thesis using l h words_negative_iff [OF assms] unfolding signed_val_def if_P [OF True] by linarith
  next
    case False
    then show ?thesis using l h words_negative_iff [OF assms] unfolding signed_val_def if_not_P [OF False] by linarith
  qed
qed

lemma signed_val_mod: "signed_val ws mod int radix ^ length ws = int (words_val ws) mod int radix ^ length ws"
  by (simp add: signed_val_def)

lemma signed_val_wrap:
  assumes "ws \<noteq> []" "int (words_val ws) mod int radix ^ length ws = x mod int radix ^ length ws"
  shows "signed_val ws = wrap (length ws) x"
proof -
  let ?M = "int radix ^ length ws"
  have "(signed_val ws + ?M div 2) mod ?M = (x + ?M div 2) mod ?M"
    using assms(2) unfolding signed_val_mod [symmetric] by (rule mod_add_cong) (rule refl)
  moreover have "(signed_val ws + ?M div 2) mod ?M = signed_val ws + ?M div 2"
    using signed_val_bounds [OF assms(1)] radix_even [of "length ws"] assms(1) by (intro mod_pos_pos_trivial) simp_all
  ultimately show ?thesis by (simp add: wrap_def)
qed

lemma wrap_exact: "0 < n \<Longrightarrow> - (int radix ^ n div 2) \<le> x \<Longrightarrow> x < int radix ^ n div 2 \<Longrightarrow> wrap n x = x"
  using radix_even [of n] by (simp add: wrap_def mod_pos_pos_trivial)

definition z_val :: "z_int \<Rightarrow> int" where
  "z_val self = signed_val (z_words self)"

lemma z_add_wraps:
  assumes "length (z_words x) = L" "length (z_words y) = L" "0 < L"
  shows "length (z_words (z_add x y)) = L \<and> z_val (z_add x y) = wrap L (z_val x + z_val y)"
proof -
  let ?r = "add_words (z_words x) (z_words y) False"
  have e: "length (fst ?r) = L" "words_val (fst ?r) + radix ^ L * of_bool (snd ?r) = words_val (z_words x) + words_val (z_words y)"
    using add_words_exact [of "z_words x" "z_words y" False] assms by simp_all
  have "int (words_val (fst ?r)) mod int radix ^ L = (int (words_val (fst ?r)) + int radix ^ L * of_bool (snd ?r)) mod int radix ^ L"
    by (rule mod_mult_self2 [symmetric])
  also have "int (words_val (fst ?r)) + int radix ^ L * of_bool (snd ?r) = int (words_val (z_words x)) + int (words_val (z_words y))"
    using arg_cong [OF e(2), of int] by simp
  also have "(int (words_val (z_words x)) + int (words_val (z_words y))) mod int radix ^ L = (z_val x + z_val y) mod int radix ^ L"
    by (rule mod_add_cong) (use signed_val_mod [of "z_words x"] signed_val_mod [of "z_words y"] assms in \<open>simp_all add: z_val_def\<close>)
  finally show ?thesis using e(1) assms(3) signed_val_wrap [of "fst ?r"] by (auto simp: z_val_def z_add_def)
qed

lemma z_sub_wraps:
  assumes "length (z_words x) = L" "length (z_words y) = L" "0 < L"
  shows "length (z_words (z_sub x y)) = L \<and> z_val (z_sub x y) = wrap L (z_val x - z_val y)"
proof -
  let ?r = "subtract_words (z_words x) (z_words y) False"
  have e: "length (fst ?r) = L" "words_val (z_words x) + radix ^ L * of_bool (snd ?r) = words_val (fst ?r) + words_val (z_words y)"
    using subtract_words_exact [of "z_words x" "z_words y" False] assms by simp_all
  have "int (words_val (z_words x)) + int radix ^ L * of_bool (snd ?r) = int (words_val (fst ?r)) + int (words_val (z_words y))"
    using arg_cong [OF e(2), of int] by simp
  then have "int (words_val (fst ?r)) = int (words_val (z_words x)) - int (words_val (z_words y)) + int radix ^ L * of_bool (snd ?r)" by linarith
  then have "int (words_val (fst ?r)) mod int radix ^ L = (int (words_val (z_words x)) - int (words_val (z_words y))) mod int radix ^ L"
    by (simp only: mod_mult_self2)
  also have "\<dots> = (z_val x - z_val y) mod int radix ^ L"
    by (rule mod_diff_cong) (use signed_val_mod [of "z_words x"] signed_val_mod [of "z_words y"] assms in \<open>simp_all add: z_val_def\<close>)
  finally show ?thesis using e(1) assms(3) signed_val_wrap [of "fst ?r"] by (auto simp: z_val_def z_sub_def)
qed

lemma z_mul_wraps:
  assumes "length (z_words x) = L" "length (z_words y) = L" "0 < L"
  shows "length (z_words (z_mul x y)) = L \<and> z_val (z_mul x y) = wrap L (z_val x * z_val y)"
proof -
  have e: "length (z_words (z_mul x y)) = L"
    "words_val (z_words (z_mul x y)) mod radix ^ L = (words_val (z_words x) * words_val (z_words y)) mod radix ^ L"
    using z_mul_words [OF assms(1,2), of L] assms by (simp_all add: z_mul_def Let_def)
  have "int (words_val (z_words (z_mul x y))) mod int radix ^ L = (int (words_val (z_words x)) * int (words_val (z_words y))) mod int radix ^ L"
    using arg_cong [OF e(2), of int] by (simp add: of_nat_mod)
  also have "\<dots> = (z_val x * z_val y) mod int radix ^ L"
    by (rule mod_mult_cong) (use signed_val_mod [of "z_words x"] signed_val_mod [of "z_words y"] assms in \<open>simp_all add: z_val_def\<close>)
  finally show ?thesis using e(1) assms(3) signed_val_wrap [of "z_words (z_mul x y)"] by (auto simp: z_val_def)
qed

lemma z_zero_val [simp]: "z_val (z_zero n) = 0" "length (z_words (z_zero n)) = n"
proof -
  have "\<not> words_negative (replicate n 0)" by (cases "n = 0") (simp_all add: words_negative_def last_replicate)
  then show "z_val (z_zero n) = 0" by (simp add: z_val_def z_zero_def signed_val_def)
qed (simp add: z_zero_def)

lemma z_neg_wraps:
  "length (z_words x) = L \<Longrightarrow> 0 < L \<Longrightarrow> length (z_words (z_neg x)) = L \<and> z_val (z_neg x) = wrap L (- z_val x)"
  using z_sub_wraps [of "z_zero L" L x] by (simp add: z_neg_def)

section \<open>Conversions\<close>

lemma words_val_ones: "int (words_val (replicate k (- 1))) = int radix ^ k - 1"
proof (induction k)
  case (Suc k)
  have "unat (- 1 :: u64) = radix - 1" by (simp add: radix_def unsigned_minus_1_eq_mask mask_eq_exp_minus_1)
  then have u: "int (unat (- 1 :: u64)) = int radix - 1" by (simp add: of_nat_diff Suc_leI)
  show ?case unfolding replicate_Suc words_val.simps of_nat_add of_nat_mult u Suc by (simp add: algebra_simps)
qed simp

text \<open>Filling with the sign keeps the value.\<close>

lemma signed_val_extend:
  assumes "ws \<noteq> []"
  shows "signed_val (ws @ replicate k (if words_negative ws then - 1 else 0)) = signed_val ws"
proof (cases "k = 0")
  case False
  have last: "last (ws @ replicate k x) = x" for x :: u64 using False by (simp add: last_append last_replicate)
  have "drop_bit 63 (- 1 :: u64) = 1"
    by (rule bit_word_eqI) (auto simp: bit_drop_bit_eq bit_1_iff)
  then have "words_negative (ws @ replicate k (if words_negative ws then - 1 else 0)) = words_negative ws"
    using assms unfolding words_negative_def [of "ws @ _"] last by simp
  then show ?thesis
    by (simp add: signed_val_def words_val_append words_val_ones power_add algebra_simps)
qed simp

lemma copy_words_replicate: "length ws \<le> n \<Longrightarrow> copy_words (replicate n x) ws = ws @ replicate (n - length ws) x"
  by (simp add: copy_words_def)

lemma z_sign_extend_val:
  assumes "z_words x \<noteq> []" "length (z_words x) \<le> n"
  shows "\<exists>y. z_sign_extend n x = Some y \<and> length (z_words y) = n \<and> z_val y = z_val x"
  using assms signed_val_extend [OF assms(1), of "n - length (z_words x)"]
  by (simp add: z_sign_extend_def z_is_negative_def copy_words_replicate z_val_def not_less)

text \<open>A packed string of \<open>n\<close> bits as a number.\<close>

definition bits_val :: "bool list \<Rightarrow> nat" where
  "bits_val bs = (\<Sum>i<length bs. of_bool (bs ! i) * 2 ^ i)"

lemma bits_val_Nil [simp]: "bits_val [] = 0"
  by (simp add: bits_val_def)

lemma bits_val_Cons [simp]: "bits_val (b # bs) = of_bool b + 2 * bits_val bs"
  by (simp add: bits_val_def sum.lessThan_Suc_shift sum_distrib_left mult.left_commute del: sum.lessThan_Suc sum_of_bool_mult_eq sum_mult_of_bool_eq)

lemma bits_val_append: "bits_val (xs @ ys) = bits_val xs + 2 ^ length xs * bits_val ys"
  by (induction xs) (simp_all add: algebra_simps)

lemma bits_val_less: "bits_val bs < 2 ^ length bs"
  by (induction bs) (auto simp: of_bool_def)

lemma bits_val_replicate [simp]: "bits_val (replicate n False) = 0"
  by (induction n) simp_all

lemma bits_val_word: "n \<le> 64 \<Longrightarrow> bits_val (map (bit (w :: u64)) [0..<n]) = unat w mod 2 ^ n"
proof (induction n)
  case (Suc n)
  have "unat w mod 2 ^ Suc n = unat w mod 2 ^ n + 2 ^ n * (unat w div 2 ^ n mod 2)"
    by (simp only: power_Suc2 mod_mult2_eq add.commute)
  moreover have "unat w div 2 ^ n mod 2 = of_bool (bit w n)" by (simp add: bit_word_odd mod2_eq_if)
  ultimately show ?case using Suc by (simp add: bits_val_append del: power_Suc)
qed simp

lemma words_val_bits: "words_val ws = bits_val (bits_of ws (64 * length ws))"
proof (induction ws)
  case (Cons w ws)
  have "64 * length (w # ws) = 64 + 64 * length ws" by simp
  then show ?case
    using Cons unat_less_64 [of w] by (simp add: bits_of_Cons bits_val_append bits_val_word radix_def del: mult_Suc_right)
qed (simp add: bits_of_def)

lemma packed_words_val:
  assumes "packed_inv ws n"
  shows "words_val ws = bits_val (bits_of ws n)"
proof -
  have "n \<le> 64 * length ws" using assms div_ceil_le [of n] by (simp add: packed_inv_def)
  then have "[0..<64 * length ws] = [0..<n] @ [n..<64 * length ws]" using upt_add_eq_append [of 0 n "64 * length ws - n"] by simp
  moreover have "map (word_list_bit ws) [n..<64 * length ws] = replicate (64 * length ws - n) False"
    using assms by (intro nth_equalityI) (auto simp: packed_inv_def)
  ultimately show ?thesis by (simp add: words_val_bits bits_of_def bits_val_append)
qed

text \<open>A packed value that fits below the sign bit keeps its value.\<close>

lemma signed_val_nonneg: "words_val ws < radix ^ length ws div 2 \<Longrightarrow> signed_val ws = int (words_val ws)"
proof (cases "ws = []")
  case False
  assume "words_val ws < radix ^ length ws div 2"
  then have "int (words_val ws) < int (radix ^ length ws div 2)" unfolding of_nat_less_iff .
  with words_negative_iff [OF False] show ?thesis by (simp add: signed_val_def of_nat_div)
qed (simp add: signed_val_def words_negative_def)

lemma z_from_packed_val:
  assumes "pb_holds N b bs" "length (pb_words b) \<le> L" "N < 64 * L"
  shows "length (z_words (z_from_packed_bits L b)) = L \<and> z_val (z_from_packed_bits L b) = int (bits_val bs)"
proof -
  let ?ws = "pb_words b @ replicate (L - length (pb_words b)) 0"
  have w: "z_words (z_from_packed_bits L b) = ?ws" using assms(2) by (simp add: z_from_packed_bits_def copy_words_replicate)
  have v: "words_val ?ws = bits_val bs"
    using assms(1) packed_words_val [of "pb_words b" N] by (simp add: words_val_append pb_holds_def)
  have "bits_val bs < 2 ^ N" using bits_val_less [of bs] pb_holds_length [OF assms(1)] by simp
  also have "(2 :: nat) ^ N \<le> 2 ^ (64 * L - 1)" using assms(3) by (intro power_increasing) simp_all
  also have "\<dots> = radix ^ L div 2" using assms(3) by (cases "64 * L") (simp_all add: radix_power)
  finally have "words_val ?ws < radix ^ length ?ws div 2" unfolding v using assms(2) by simp
  from signed_val_nonneg [OF this] v w assms(2) show ?thesis by (simp add: z_val_def)
qed

text \<open>The prefix drops the bits from \<open>width\<close> on.\<close>

lemma bits_of_take_words: "n \<le> 64 * k \<Longrightarrow> bits_of (take k ws) n = bits_of ws n"
  by (auto simp: bits_of_def word_list_bit_eq div_less_length)

lemma z_from_packed_prefix_val:
  assumes "pb_holds N b bs" "length (pb_words b) \<le> L" "width \<le> N" "N < 64 * L"
  shows "\<exists>z. z_from_packed_prefix L N b width = Some z \<and> length (z_words z) = L \<and> z_val z = int (bits_val (take width bs))"
proof -
  let ?k = "div_ceil width 64" and ?ws = "pb_words b @ replicate (L - length (pb_words b)) 0"
  have w: "z_words (z_from_packed_bits L b) = ?ws" using assms(2) by (simp add: z_from_packed_bits_def copy_words_replicate)
  have "?k \<le> div_ceil N 64" using assms(3) by (simp add: div_ceil_def div_le_mono)
  then have k: "?k \<le> length (pb_words b)" using pb_holds_length [OF assms(1)] by simp
  then have kL: "?k \<le> L" using assms(2) by simp
  let ?low = "mask_last width ?k (take ?k (pb_words b))"
  have len: "length (take ?k (pb_words b)) = ?k" using k by simp
  have low: "pb_holds width \<lparr>pb_words = ?low\<rparr> (map (word_list_bit (take ?k (pb_words b))) [0..<width])"
    using pb_from_words_holds [OF len] by (simp add: pb_from_words_def assert_width_def)
  have "map (word_list_bit (take ?k (pb_words b))) [0..<width] = take width bs"
    using bits_of_take_words [where ws = "pb_words b" and n = width, OF div_ceil_le] assms(1,3) by (auto simp: bits_of_def pb_holds_def take_map)
  with low have low: "pb_holds width \<lparr>pb_words = ?low\<rparr> (take width bs)" by simp
  have ll: "length ?low = ?k" using len by (simp add: mask_last_def)
  have "z_from_packed_prefix L N b width = Some (z_from_packed_bits L \<lparr>pb_words = ?low\<rparr>)"
    using assms(2,3) k kL
    by (auto simp: z_from_packed_prefix_def w Let_def min_absorb1 z_from_packed_bits_def copy_words_replicate ll mask_last_def
      list_update_append nth_append)
  moreover have "width < 64 * L" using assms(3,4) by simp
  ultimately show ?thesis
    using z_from_packed_val [OF low, of L] ll kL by simp
qed

section \<open>Properties\<close>

text \<open>C28: Arithmetic of \<open>Z<LIMBS>\<close> is arithmetic modulo \<open>2 ^ (64 * LIMBS)\<close> in two's complement: sums,
  differences, products and negations wrap, and are exact whenever the true result fits the signed
  range.  Extending to more limbs never changes the value.\<close>

theorem z_arithmetic_wraps:
  assumes "length (z_words x) = L" "length (z_words y) = L" "0 < L"
  shows "z_val (z_add x y) = wrap L (z_val x + z_val y) \<and> z_val (z_sub x y) = wrap L (z_val x - z_val y) \<and>
    z_val (z_mul x y) = wrap L (z_val x * z_val y) \<and> z_val (z_neg x) = wrap L (- z_val x) \<and>
    (- (2 ^ (64 * L - 1)) \<le> z_val x * z_val y \<and> z_val x * z_val y < 2 ^ (64 * L - 1) \<longrightarrow> z_val (z_mul x y) = z_val x * z_val y) \<and>
    (- (2 ^ (64 * L - 1)) \<le> z_val x + z_val y \<and> z_val x + z_val y < 2 ^ (64 * L - 1) \<longrightarrow> z_val (z_add x y) = z_val x + z_val y) \<and>
    (\<forall>n\<ge>L. \<exists>z. z_sign_extend n x = Some z \<and> z_val z = z_val x)"
proof -
  have half: "int radix ^ L div 2 = 2 ^ (64 * L - 1)"
  proof -
    have "int radix ^ L = 2 ^ (64 * L)" using arg_cong [OF radix_power [of L], of int] by simp
    with assms(3) show ?thesis by (cases "64 * L") simp_all
  qed
  have ne: "z_words x \<noteq> []" using assms by auto
  note exact = wrap_exact [OF assms(3), unfolded half]
  show ?thesis
    using z_add_wraps [OF assms] z_sub_wraps [OF assms] z_mul_wraps [OF assms] z_neg_wraps [OF assms(1,3)]
      exact [of "z_val x * z_val y"] exact [of "z_val x + z_val y"] z_sign_extend_val [OF ne] assms(1) by auto
qed

theorem z_arithmetic_wraps_witness:
  "z_val (z_add \<lparr>z_words = [- 1]\<rparr> \<lparr>z_words = [1]\<rparr>) = wrap 1 (z_val \<lparr>z_words = [- 1]\<rparr> + z_val \<lparr>z_words = [1]\<rparr>)"
  using conjunct1 [OF z_arithmetic_wraps [of "\<lparr>z_words = [- 1]\<rparr>" 1 "\<lparr>z_words = [1]\<rparr>"]] by simp

end
