(* ===== verification/Circuit_Products.thy ===== *)
theory Circuit_Products
  imports Circuit_Z
begin

text \<open>
  Exact matrix products and their reduction modulo a runtime prime:
  \<open>crates/circuit/src/matrix_products.rs\<close>.

  \<open>PRIME_LIMBS\<close> is the length of the modulus' words.  Stored integers are words of any number in two's
  complement.  The conversions from and to \<open>BigInt\<close> belong to another crate and are not modelled.
\<close>

section \<open>Stored integers\<close>

record stored_integer =
  si_words :: "u64 list"

definition si_is_zero :: "stored_integer \<Rightarrow> bool" where
  "si_is_zero self = (si_words self = [])"

definition si_is_negative :: "stored_integer \<Rightarrow> bool" where
  "si_is_negative self = words_negative (si_words self)"

fun trim_len :: "u64 list \<Rightarrow> nat \<Rightarrow> nat" where
  "trim_len ws (Suc (Suc n)) =
     (let top_word = ws ! Suc n; next_is_negative = (drop_bit 63 (ws ! n) = 1)
      in if top_word = 0 \<and> \<not> next_is_negative \<or> top_word = - 1 \<and> next_is_negative
         then trim_len ws (Suc n) else Suc (Suc n))"
| "trim_len ws n = n"

definition stored_from_z :: "z_int \<Rightarrow> stored_integer" where
  "stored_from_z v =
     (if z_is_zero v then \<lparr>si_words = []\<rparr>
      else \<lparr>si_words = take (trim_len (z_words v) (length (z_words v))) (z_words v)\<rparr>)"

definition stored_from_i128 :: "u128 \<Rightarrow> stored_integer" where
  "stored_from_i128 v = stored_from_z (z_from_i128 2 v)"

record integer_products =
  ip_a_mw :: "stored_integer list"
  ip_b_mw :: "stored_integer list"
  ip_c_mw :: "stored_integer list"

definition products_push :: "z_int \<Rightarrow> z_int \<Rightarrow> z_int \<Rightarrow> integer_products \<Rightarrow> integer_products" where
  "products_push a b c self =
     \<lparr>ip_a_mw = ip_a_mw self @ [stored_from_z a], ip_b_mw = ip_b_mw self @ [stored_from_z b],
      ip_c_mw = ip_c_mw self @ [stored_from_z c]\<rparr>"

text \<open>\<open>R\<close> is any ring with a conversion from stored integers.\<close>

definition products_is_satisfied :: "(stored_integer \<Rightarrow> 'r::comm_ring_1) \<Rightarrow> integer_products \<Rightarrow> bool" where
  "products_is_satisfied from self =
     (length (ip_a_mw self) = length (ip_b_mw self) \<and> length (ip_a_mw self) = length (ip_c_mw self) \<and>
      list_all (\<lambda>((a, b), c). from a * from b = from c) (zip (zip (ip_a_mw self) (ip_b_mw self)) (ip_c_mw self)))"

section \<open>The runtime modulus\<close>

record runtime_modulus =
  rm_words :: "u64 list"

datatype modulus_error = NoLimbs | ModulusTooSmall | ModulusTooWide

text \<open>\<open>BitWidth\<close> and \<open>IntoWords\<close> of \<open>lib.rs\<close> for \<open>u128\<close>; the constant assertion wants two limbs.\<close>

definition into_words :: "nat \<Rightarrow> u128 \<Rightarrow> u64 list" where
  "into_words LIMBS self = (replicate LIMBS 0)[0 := ucast self, 1 := ucast (drop_bit 64 self)]"

definition runtime_modulus_new :: "nat \<Rightarrow> u128 \<Rightarrow> modulus_error + runtime_modulus" where
  "runtime_modulus_new PRIME_LIMBS modulus =
     (if PRIME_LIMBS = 0 then Inl NoLimbs
      else if modulus \<le> 1 then Inl ModulusTooSmall
      else if bitlen (unat modulus) > PRIME_LIMBS * 64 then Inl ModulusTooWide
      else Inr \<lparr>rm_words = into_words PRIME_LIMBS modulus\<rparr>)"

text \<open>\<open>compare_words\<close> and \<open>compare_2\<close> compare from the most significant word down.\<close>

fun words_less :: "u64 list \<Rightarrow> u64 list \<Rightarrow> bool" where
  "words_less (l # left) (r # right) = (words_less left right \<or> left = right \<and> l < r)"
| "words_less _ _ = False"

definition add_mod_words :: "u64 list \<Rightarrow> u64 list \<Rightarrow> u64 list \<Rightarrow> u64 list" where
  "add_mod_words left right modulus =
     (let (s, carry) = add_words left right False
      in if carry \<or> \<not> words_less s modulus then fst (subtract_words s modulus False) else s)"

definition subtract_mod_2 :: "u64 list \<Rightarrow> u64 list \<Rightarrow> u64 list \<Rightarrow> u64 list" where
  "subtract_mod_2 left right modulus =
     (if \<not> words_less left right then fst (subtract_words left right False)
      else let difference = fst (subtract_words right left False)
           in fst (subtract_words modulus difference False))"

function estimate_loop :: "u64 \<Rightarrow> u64 list \<Rightarrow> u64 \<Rightarrow> u128 \<Rightarrow> u64 \<times> u128" where
  "estimate_loop word modulus estimate estimate_remainder =
     (if estimate_remainder \<le> 2 ^ 64 - 1 \<and>
         push_bit 64 estimate_remainder + ucast word < ucast estimate * ucast (modulus ! 0)
      then estimate_loop word modulus (estimate - 1) (estimate_remainder + ucast (modulus ! 1))
      else (estimate, estimate_remainder))"
  by pat_completeness auto
termination
proof (relation "measure (\<lambda>(word, modulus, estimate, estimate_remainder). unat estimate)", simp)
  fix word estimate :: u64 and modulus :: "u64 list" and er :: u128
  assume c: "er \<le> 2 ^ 64 - 1 \<and> push_bit 64 er + ucast word < (ucast estimate * ucast (modulus ! 0) :: u128)"
  then have "estimate \<noteq> 0" by auto
  then have "unat (estimate - 1) < unat estimate" by (simp add: unat_gt_0 unat_minus_one)
  then show "((word, modulus, estimate - 1, er + ucast (modulus ! 1)), word, modulus, estimate, er)
      \<in> measure (\<lambda>(word, modulus, estimate, estimate_remainder). unat estimate)" by simp
qed

declare estimate_loop.simps [simp del]

text \<open>\<open>MAX\<close> is the largest \<open>u64\<close>; the running offset keeps the subtraction in unsigned arithmetic.\<close>

fun offset_subtract :: "u64 \<Rightarrow> u64 list \<Rightarrow> u64 list \<Rightarrow> u64 \<Rightarrow> u64 list \<times> u64" where
  "offset_subtract estimate (v # vs) (divisor # divisors) offset_carry =
     (let offset_sum = push_bit 64 (2 ^ 64 - 1) + ucast v - (2 ^ 64 - 1) + ucast offset_carry - ucast divisor * ucast estimate :: u128;
          (vs, offset_carry) = offset_subtract estimate vs divisors (ucast (drop_bit 64 offset_sum))
      in (ucast offset_sum # vs, offset_carry))"
| "offset_subtract estimate vs divisors offset_carry = (vs, offset_carry)"

definition reduce_step_2 :: "u64 list \<Rightarrow> u64 \<Rightarrow> u64 list \<Rightarrow> u64 list" where
  "reduce_step_2 remainder word modulus =
     (let (estimate, estimate_remainder) =
            (if remainder ! 1 < modulus ! 1 then
               (let numerator = push_bit 64 (ucast (remainder ! 1)) OR ucast (remainder ! 0) :: u128
                in (ucast (numerator div ucast (modulus ! 1)), numerator mod ucast (modulus ! 1)))
             else (- 1, ucast (remainder ! 1) + ucast (remainder ! 0)));
          (estimate, estimate_remainder) = estimate_loop word modulus estimate estimate_remainder;
          (dividend, offset_carry) = offset_subtract estimate [word, remainder ! 0] modulus (- 1);
          borrow = - 1 - offset_carry
      in if borrow > remainder ! 1 then fst (add_words dividend modulus False) else dividend)"

definition reduce_normalized_2 :: "u64 list \<Rightarrow> u64 list \<Rightarrow> u64 list" where
  "reduce_normalized_2 ws modulus = foldl (\<lambda>remainder word. reduce_step_2 remainder word modulus) [0, 0] (rev ws)"

fun negate_words :: "u64 list \<Rightarrow> bool \<Rightarrow> u64 list" where
  "negate_words [] carry = []"
| "negate_words (word # ws) carry =
     (let (word, overflow) = overflowing_add (NOT word) (of_bool carry) in word # negate_words ws overflow)"

definition twos_complement_magnitude :: "u64 list \<Rightarrow> u64 list" where
  "twos_complement_magnitude ws = rev (dropWhile (\<lambda>word. word = 0) (rev (negate_words ws True)))"

definition reduce_bit :: "u64 list \<Rightarrow> u64 list \<Rightarrow> u64 \<Rightarrow> nat \<Rightarrow> u64 list \<Rightarrow> u64 list" where
  "reduce_bit modulus one word b reduced =
     (let reduced = add_mod_words reduced reduced modulus
      in if drop_bit b word AND 1 = 1 then add_mod_words reduced one modulus else reduced)"

definition rm_reduce :: "runtime_modulus \<Rightarrow> stored_integer \<Rightarrow> u64 list" where
  "rm_reduce self v =
     (let PRIME_LIMBS = length (rm_words self); ws = si_words v
      in if ws = [] then replicate PRIME_LIMBS 0
         else if PRIME_LIMBS = 2 \<and> drop_bit 63 (rm_words self ! 1) \<noteq> 0 then
           (let modulus = rm_words self;
                reduced = reduce_normalized_2 ws modulus
            in if si_is_negative v then
                 (let width_power = foldl (\<lambda>width_power _. reduce_step_2 width_power 0 modulus) [1, 0] ws
                  in subtract_mod_2 reduced width_power modulus)
               else reduced)
         else
           (let negative = si_is_negative v;
                ws = (if negative then twos_complement_magnitude ws else ws);
                one = (replicate PRIME_LIMBS 0)[0 := 1];
                reduced = foldl (\<lambda>reduced word. foldl (\<lambda>reduced b. reduce_bit (rm_words self) one word b reduced) reduced (rev [0..<64]))
                  (replicate PRIME_LIMBS 0) (rev ws)
            in if negative \<and> (\<exists>word\<in>set reduced. word \<noteq> 0) then fst (subtract_words (rm_words self) reduced False)
               else reduced))"

record matrix_products =
  mp_a_mw :: "u64 list list"
  mp_b_mw :: "u64 list list"
  mp_c_mw :: "u64 list list"

definition reduce_vector :: "stored_integer list \<Rightarrow> runtime_modulus \<Rightarrow> u64 list list" where
  "reduce_vector vals modulus = map (rm_reduce modulus) vals"

definition reduce_parallel :: "integer_products \<Rightarrow> runtime_modulus \<Rightarrow> matrix_products" where
  "reduce_parallel self modulus =
     \<lparr>mp_a_mw = reduce_vector (ip_a_mw self) modulus, mp_b_mw = reduce_vector (ip_b_mw self) modulus,
      mp_c_mw = reduce_vector (ip_c_mw self) modulus\<rparr>"

text \<open>\<open>From<&ModularVector<2>> for Vec<T>\<close>, with the conversion of \<open>T\<close> from \<open>u128\<close>.\<close>

definition modular_vector_into :: "(u128 \<Rightarrow> 'a) \<Rightarrow> u64 list list \<Rightarrow> 'a list" where
  "modular_vector_into from vals = map (\<lambda>ws. from (ucast (ws ! 0) OR push_bit 64 (ucast (ws ! 1)))) vals"

section \<open>Comparison and reduction by subtraction\<close>

lemma words_less_val: "length xs = length ys \<Longrightarrow> words_less xs ys \<longleftrightarrow> words_val xs < words_val ys"
proof (induction xs ys rule: list_induct2)
  case (Cons x xs y ys)
  have "words_val xs = words_val ys \<longleftrightarrow> xs = ys" using Cons.hyps words_val_inj by blast
  moreover have "unat x + radix * u < unat y + radix * v" if "u < v" for u v
  proof -
    have "radix * (u + 1) \<le> radix * v" using that by (intro mult_le_mono2) simp
    then show ?thesis using unat_less_64 [of x] by (simp add: algebra_simps)
  qed
  moreover have "unat y + radix * v < unat x + radix * u" if "v < u" for u v
  proof -
    have "radix * (v + 1) \<le> radix * u" using that by (intro mult_le_mono2) simp
    then show ?thesis using unat_less_64 [of y] by (simp add: algebra_simps)
  qed
  ultimately show ?case using Cons.IH
    by (cases "words_val xs" "words_val ys" rule: linorder_cases) (auto simp: word_less_nat_alt, (metis less_asym)+)
qed simp

lemma subtract_words_val:
  assumes "length xs = length ys" "words_val ys \<le> words_val xs"
  shows "length (fst (subtract_words xs ys False)) = length xs \<and> words_val (fst (subtract_words xs ys False)) = words_val xs - words_val ys"
proof -
  let ?r = "subtract_words xs ys False"
  have e: "length (fst ?r) = length xs" "words_val xs + radix ^ length xs * of_bool (snd ?r) = words_val (fst ?r) + words_val ys"
    using subtract_words_exact [OF assms(1), of False] by simp_all
  have "\<not> snd ?r"
    using e assms(2) words_val_less [of "fst ?r"] by (cases "snd ?r") simp_all
  with e show ?thesis by simp
qed

lemma add_mod_words_val:
  assumes "length xs = n" "length ys = n" "length ms = n" "words_val xs < words_val ms" "words_val ys < words_val ms"
  shows "length (add_mod_words xs ys ms) = n \<and> words_val (add_mod_words xs ys ms) = (words_val xs + words_val ys) mod words_val ms"
proof -
  obtain s c where r: "add_words xs ys False = (s, c)" by fastforce
  have e: "length s = n" "words_val s + radix ^ n * of_bool c = words_val xs + words_val ys"
    using add_words_exact [of xs ys False] assms(1,2) by (simp_all add: r)
  have ms: "words_val ms < radix ^ n" using words_val_less [of ms] assms(3) by simp
  have sub: "words_val xs + words_val ys < 2 * words_val ms" using assms(4,5) by simp
  have mod: "(words_val xs + words_val ys) mod words_val ms = words_val xs + words_val ys - words_val ms"
    if "words_val ms \<le> words_val xs + words_val ys" using that sub by (simp add: le_mod_geq)
  show ?thesis
  proof (cases c)
    case True
    let ?d = "subtract_words s ms False"
    have d: "length (fst ?d) = n" "words_val s + radix ^ n * of_bool (snd ?d) = words_val (fst ?d) + words_val ms"
      using subtract_words_exact [of s ms False] e(1) assms(3) by simp_all
    have "words_val s < words_val ms" using e(2) True sub ms by simp
    then have "snd ?d" using d(2) by (cases "snd ?d") simp_all
    with d(2) e(2) True have v: "words_val (fst ?d) = words_val xs + words_val ys - words_val ms" by simp
    have "words_val ms \<le> words_val xs + words_val ys" using e(2) True ms by simp
    from mod [OF this] v d(1) True show ?thesis by (simp add: add_mod_words_def r)
  next
    case False
    then have s: "words_val s = words_val xs + words_val ys" using e(2) by simp
    show ?thesis
    proof (cases "words_less s ms")
      case True
      then show ?thesis using False e(1) s words_less_val [of s ms] assms(3) by (simp add: add_mod_words_def r)
    next
      case less: False
      then have "words_val ms \<le> words_val s" using words_less_val [of s ms] e(1) assms(3) by simp
      with subtract_words_val [of s ms] mod s e(1) assms(3) less False show ?thesis by (simp add: add_mod_words_def r)
    qed
  qed
qed

section \<open>The two-word division step\<close>

lemma estimate_step:
  fixes w m0 m1 est :: u64 and er :: u128
  assumes "unat er < radix"
  shows "push_bit 64 er + ucast w < (ucast est * ucast m0 :: u128) \<longleftrightarrow> radix * unat er + unat w < unat est * unat m0"
    "unat (er + ucast m1) = unat er + unat m1"
proof -
  have u: "unat (ucast x :: u128) = unat x" for x :: u64 using unat_less_64 [of x] by (simp add: unat_ucast_mod radix_def)
  have er: "unat er \<le> 2 ^ 64 - 1" using assms by (simp add: radix_def)
  have p: "unat (push_bit 64 er) = radix * unat er" using er by (simp add: unat_push_bit_mod radix_def mult.commute)
  have "unat (push_bit 64 er + ucast w) = radix * unat er + unat w"
    using er unat_less_64 [of w] by (subst unat_add_lt) (simp_all add: p u radix_def)
  moreover have "unat est * unat m0 \<le> (2 ^ 64 - 1) * (2 ^ 64 - 1)"
    using unat_less_64 [of est] unat_less_64 [of m0] unfolding radix_def by (intro mult_le_mono) linarith+
  then have "unat (ucast est * ucast m0 :: u128) = unat est * unat m0" by (subst unat_mult_lt) (simp_all add: u)
  ultimately show "push_bit 64 er + ucast w < (ucast est * ucast m0 :: u128) \<longleftrightarrow> radix * unat er + unat w < unat est * unat m0"
    by (simp add: word_less_nat_alt)
  show "unat (er + ucast m1) = unat er + unat m1"
    using er unat_less_64 [of m1] by (subst unat_add_lt) (simp_all add: u radix_def)
qed

text \<open>The estimate never drops below the quotient and ends at it.\<close>

lemma estimate_loop_quotient:
  fixes word m0 m1 estimate :: u64 and er :: u128
  assumes "unat estimate * unat m1 + unat er = R"
    and "radix * R + unat word < (unat estimate + 1) * (unat m0 + radix * unat m1)"
  shows "unat (fst (estimate_loop word [m0, m1] estimate er)) = (radix * R + unat word) div (unat m0 + radix * unat m1)"
  using assms
proof (induction word "[m0, m1]" estimate er rule: estimate_loop.induct)
  case (1 word estimate er)
  let ?m = "unat m0 + radix * unat m1" and ?N = "radix * R + unat word"
  have N: "?N + unat estimate * unat m0 = unat estimate * ?m + (radix * unat er + unat word)"
    unfolding 1(2) [symmetric] by (simp add: algebra_simps)
  have small: "er \<le> 2 ^ 64 - 1 \<longleftrightarrow> unat er < radix" by (simp add: word_le_nat_alt radix_def) linarith
  let ?c = "er \<le> 2 ^ 64 - 1 \<and> push_bit 64 er + ucast word < (ucast estimate * ucast m0 :: u128)"
  have c: "?c \<longleftrightarrow> radix * unat er + unat word < unat estimate * unat m0"
  proof (cases "unat er < radix")
    case True
    then show ?thesis using small estimate_step(1) [OF True, of word estimate m0] by simp
  next
    case False
    have "unat estimate * unat m0 \<le> radix * radix"
      using unat_less_64 [of estimate] unat_less_64 [of m0] by (intro mult_le_mono) simp_all
    also have "\<dots> \<le> radix * unat er" using False by (intro mult_le_mono2) simp
    finally show ?thesis using False small by simp
  qed
  show ?case
  proof (cases ?c)
    case True
    then have l: "radix * unat er + unat word < unat estimate * unat m0" using c by simp
    then have e: "0 < unat estimate" by (cases "unat estimate") simp_all
    then have d: "unat (estimate - 1) = unat estimate - 1" by (simp add: unat_minus_one unat_gt_0)
    have "unat er < radix" using True small by simp
    note a = estimate_step(2) [OF this, of m1]
    have "unat (estimate - 1) * unat m1 + unat (er + ucast m1) = R"
      using 1(2) e unfolding d a by (cases "unat estimate") simp_all
    moreover have "?N < (unat (estimate - 1) + 1) * ?m" using N l e unfolding d by simp
    ultimately show ?thesis using 1(1) True by (simp add: estimate_loop.simps [of word _ estimate])
  next
    case False
    then have "unat estimate * unat m0 \<le> radix * unat er + unat word" using c by linarith
    then have "unat estimate * ?m \<le> ?N" using N by linarith
    moreover have "?N < ?m * Suc (unat estimate)" using 1(3) by (simp add: mult.commute)
    ultimately have "?N div ?m = unat estimate" by (intro div_nat_eqI) (simp_all add: mult.commute)
    moreover have "estimate_loop word [m0, m1] estimate er = (estimate, er)"
      using False by (subst estimate_loop.simps) (simp only: nth_Cons_0 if_False)
    ultimately show ?thesis by simp
  qed
qed

lemma offset_sum_exact:
  fixes est v d c :: u64
  defines "s \<equiv> push_bit 64 (2 ^ 64 - 1) + ucast v - (2 ^ 64 - 1) + ucast c - ucast d * ucast est :: u128"
  shows "unat (ucast s :: u64) + radix * unat (ucast (drop_bit 64 s) :: u64) + unat d * unat est
    = radix * (radix - 1) + unat v - (radix - 1) + unat c"
proof -
  have u: "unat (ucast x :: u128) = unat x" for x :: u64 using unat_less_64 [of x] by (simp add: unat_ucast_mod radix_def)
  have max: "unat (2 ^ 64 - 1 :: u128) = radix - 1" "unat (push_bit 64 (2 ^ 64 - 1) :: u128) = radix * (radix - 1)"
    by (simp_all add: radix_def unat_push_bit_mod)
  have b: "unat v < radix" "unat c < radix" "unat d < radix" "unat est < radix" by (rule unat_less_64)+
  have de: "unat d * unat est \<le> (radix - 1) * (radix - 1)" using b by (intro mult_le_mono) simp_all
  have a1: "unat (push_bit 64 (2 ^ 64 - 1) + ucast v :: u128) = radix * (radix - 1) + unat v"
    using b by (subst unat_add_lt) (simp_all only: max u, simp add: radix_def)
  have a2: "unat (push_bit 64 (2 ^ 64 - 1) + ucast v - (2 ^ 64 - 1) :: u128) = radix * (radix - 1) + unat v - (radix - 1)"
    by (subst unat_minus_le) (simp_all only: word_le_nat_alt max a1, simp add: radix_def)
  have a3: "unat (push_bit 64 (2 ^ 64 - 1) + ucast v - (2 ^ 64 - 1) + ucast c :: u128) = radix * (radix - 1) + unat v - (radix - 1) + unat c"
    using b by (subst unat_add_lt) (simp_all only: a2 u, simp add: radix_def)
  have m: "unat (ucast d * ucast est :: u128) = unat d * unat est"
    using de by (subst unat_mult_lt) (simp_all only: u, simp add: radix_def)
  have le: "unat d * unat est \<le> radix * (radix - 1) + unat v - (radix - 1) + unat c" using de by (simp add: radix_def)
  have s: "unat s = radix * (radix - 1) + unat v - (radix - 1) + unat c - unat d * unat est"
    unfolding s_def using le by (subst unat_minus_le) (simp_all only: word_le_nat_alt m a3)
  have "unat s < radix * radix" using unat_lt2p [of s] by (simp add: radix_def)
  then have "unat (drop_bit 64 s) < radix" by (simp add: unat_drop_bit radix_def div_less_iff_less_mult)
  then have "unat (ucast s :: u64) + radix * unat (ucast (drop_bit 64 s) :: u64) = unat s"
    by (simp add: unat_ucast_mod unat_drop_bit radix_def)
  with s le show ?thesis by simp
qed

lemma reduce_step_2_val:
  assumes "length r = 2" "length m = 2" "words_val r < words_val m" "2 ^ 63 \<le> unat (m ! 1)"
  shows "length (reduce_step_2 r word m) = 2 \<and> words_val (reduce_step_2 r word m) = (radix * words_val r + unat word) mod words_val m"
proof -
  obtain r0 r1 where r: "r = [r0, r1]" using assms(1) by (auto simp: numeral_2_eq_2 length_Suc_conv)
  obtain m0 m1 where m: "m = [m0, m1]" using assms(2) by (auto simp: numeral_2_eq_2 length_Suc_conv)
  let ?R = "unat r0 + radix * unat r1" and ?m = "unat m0 + radix * unat m1"
  let ?N = "radix * ?R + unat word"
  have lt: "?R < ?m" using assms(3) by (simp add: r m)
  have m1: "0 < unat m1" using assms(4) by (simp add: m)
  have u: "unat (ucast x :: u128) = unat x" for x :: u64 using unat_less_64 [of x] by (simp add: unat_ucast_mod radix_def)
  define start :: "u64 \<times> u128" where "start = (if r1 < m1 then
       (let numerator = push_bit 64 (ucast r1) OR ucast r0 in (ucast (numerator div ucast m1), numerator mod ucast m1))
     else (- 1, ucast r1 + ucast r0))"
  have start: "unat (fst start) * unat m1 + unat (snd start) = ?R \<and> ?N < (unat (fst start) + 1) * ?m"
  proof (cases "r1 < m1")
    case True
    let ?n = "push_bit 64 (ucast r1) OR ucast r0 :: u128"
    have z: "push_bit 64 (ucast r1) AND ucast r0 = (0 :: u128)"
      by (rule bit_word_eqI) (auto simp: bit_and_iff bit_push_bit_iff bit_ucast_iff dest: bit_imp_le_length)
    have p: "unat (push_bit 64 (ucast r1) :: u128) = radix * unat r1"
      using unat_less_64 [of r1] by (simp add: unat_push_bit_mod u radix_def mult.commute)
    have n: "unat ?n = ?R"
      unfolding or_eq_add [OF z] using unat_less_64 [of r1] unat_less_64 [of r0]
      by (subst unat_add_lt) (simp_all add: p u radix_def)
    have q: "?R div unat m1 < radix"
    proof -
      have "radix * (unat r1 + 1) \<le> radix * unat m1" using True by (intro mult_le_mono2) (simp add: word_less_nat_alt)
      then have "?R < radix * unat m1" using unat_less_64 [of r0] unfolding distrib_left by linarith
      then show ?thesis using m1 by (simp add: div_less_iff_less_mult)
    qed
    have "unat (?n div ucast m1) = ?R div unat m1" by (simp only: unat_div_distrib n u)
    moreover have "unat (?n mod ucast m1) = ?R mod unat m1" by (simp only: unat_mod_distrib n u)
    moreover have "start = (ucast (?n div ucast m1), ?n mod ucast m1)" using True by (simp add: start_def Let_def)
    ultimately have f: "unat (fst start) = ?R div unat m1" "unat (snd start) = ?R mod unat m1"
      using q by (simp_all only: fst_conv snd_conv unat_ucast_mod) (simp add: radix_def)
    have "?R < (?R div unat m1 + 1) * unat m1" using m1 by (metis Suc_eq_plus1 dividend_less_div_times div_mult_mod_eq mult_Suc less_add_same_cancel2 add.commute mult.commute)
    then have "radix * (?R + 1) \<le> radix * ((?R div unat m1 + 1) * unat m1)" by (intro mult_le_mono2) simp
    then have "?N < radix * ((?R div unat m1 + 1) * unat m1)" using unat_less_64 [of word] unfolding distrib_left [of radix ?R] by linarith
    also have "\<dots> \<le> (?R div unat m1 + 1) * ?m" by (simp add: algebra_simps)
    finally show ?thesis unfolding f by simp
  next
    case False
    have "unat r1 = unat m1"
    proof (rule ccontr)
      assume "unat r1 \<noteq> unat m1"
      then have "radix * (unat m1 + 1) \<le> radix * unat r1" using False by (intro mult_le_mono2) (simp add: word_le_nat_alt not_less)
      then show False using lt unat_less_64 [of m0] unfolding distrib_left by linarith
    qed
    moreover have "unat (- 1 :: u64) = radix - 1" by (simp add: radix_def unsigned_minus_1_eq_mask mask_eq_exp_minus_1)
    moreover have "unat (ucast r1 + ucast r0 :: u128) = unat r1 + unat r0"
      using unat_less_64 [of r1] unat_less_64 [of r0] by (subst unat_add_lt) (simp_all add: u radix_def)
    moreover have "?N < radix * ?m"
    proof -
      have "radix * (?R + 1) \<le> radix * ?m" using lt by (intro mult_le_mono2) simp
      then show ?thesis using unat_less_64 [of word] unfolding distrib_left [of radix ?R] by linarith
    qed
    ultimately show ?thesis using False by (simp add: start_def diff_mult_distrib radix_def)
  qed
  let ?q = "?N div ?m"
  define est where "est = fst (estimate_loop word [m0, m1] (fst start) (snd start))"
  have q: "unat est = ?q"
    unfolding est_def using start by (intro estimate_loop_quotient) simp_all
  define s0 s1 where "s0 = (push_bit 64 (2 ^ 64 - 1) + ucast word - (2 ^ 64 - 1) + ucast (- 1 :: u64) - ucast m0 * ucast est :: u128)"
    and "s1 = (push_bit 64 (2 ^ 64 - 1) + ucast r0 - (2 ^ 64 - 1) + ucast (ucast (drop_bit 64 s0) :: u64) - ucast m1 * ucast est :: u128)"
  define v0 v1 c0 c where v: "v0 = (ucast s0 :: u64)" "v1 = (ucast s1 :: u64)"
    "c0 = (ucast (drop_bit 64 s0) :: u64)" "c = (ucast (drop_bit 64 s1) :: u64)"
  have sub: "offset_subtract est [word, r0] [m0, m1] (- 1) = ([v0, v1], c)"
    by (simp only: offset_subtract.simps Let_def prod.case v s0_def s1_def)
  have max: "unat (- 1 :: u64) = radix - 1" by (simp add: radix_def unsigned_minus_1_eq_mask mask_eq_exp_minus_1)
  define K where "K = radix - 1"
  have K: "radix = Suc K" by (simp add: K_def radix_def)
  have "unat v0 + radix * unat c0 + unat m0 * unat est = radix * (radix - 1) + unat word - (radix - 1) + (radix - 1)"
    using offset_sum_exact [of word "- 1" m0 est] unfolding max v s0_def .
  then have e0: "unat v0 + radix * unat c0 + unat m0 * unat est = radix * K + unat word" by (simp add: K)
  have "unat v1 + radix * unat c + unat m1 * unat est = radix * (radix - 1) + unat r0 - (radix - 1) + unat c0"
    using offset_sum_exact [of r0 "ucast (drop_bit 64 s0)" m1 est] unfolding v s1_def .
  then have e1: "unat v1 + radix * unat c + unat m1 * unat est + K = radix * K + unat r0 + unat c0" by (simp add: K)
  have qm: "?q * ?m + ?N mod ?m = ?N" by (rule div_mult_mod_eq)
  have "?N mod ?m + radix * radix * K = (unat v0 + radix * unat v1) + radix * radix * (unat c + unat r1)"
  proof -
    have "radix * (unat v1 + radix * unat c + unat m1 * unat est + K) = radix * (radix * K + unat r0 + unat c0)" by (simp only: e1)
    then have "unat v0 + radix * unat v1 + radix * radix * unat c + unat est * ?m = unat word + radix * unat r0 + radix * radix * K"
      using e0 by (simp add: algebra_simps)
    with qm [folded q] show ?thesis by (simp add: algebra_simps)
  qed
  moreover have "?N mod ?m < radix * radix"
  proof -
    have "?N mod ?m < ?m" using m1 by (intro mod_less_divisor) simp
    also have "?m < radix * radix" by (intro digit_less unat_less_64)
    finally show ?thesis .
  qed
  moreover have "unat v0 + radix * unat v1 < radix * radix" by (intro digit_less unat_less_64)
  ultimately have d: "?N mod ?m = unat v0 + radix * unat v1" "K = unat c + unat r1"
    using digit_unique [of "?N mod ?m" "radix * radix" "unat v0 + radix * unat v1" K "unat c + unat r1"] by simp_all
  have "unat (- 1 - c) = radix - 1 - unat c"
    using d(2) unat_minus_le [of c "- 1"] by (simp add: max)
  then have "unat (- 1 - c) = unat r1" using d(2) by (simp add: K_def)
  then have nb: "\<not> - 1 - c > r1" by (simp add: word_less_nat_alt)
  have "reduce_step_2 r word m = [v0, v1]"
  proof -
    obtain a b where ab: "start = (a, b)" by fastforce
    obtain y where loop: "estimate_loop word [m0, m1] a b = (est, y)" by (simp add: est_def ab prod_eq_iff)
    have "reduce_step_2 r word m = (let (estimate, estimate_remainder) = start;
          (estimate, estimate_remainder) = estimate_loop word [m0, m1] estimate estimate_remainder;
          (dividend, offset_carry) = offset_subtract estimate [word, r0] [m0, m1] (- 1);
          borrow = - 1 - offset_carry
      in if borrow > r1 then fst (add_words dividend [m0, m1] False) else dividend)"
      by (simp only: reduce_step_2_def r m start_def nth_Cons_0 nth_Cons_Suc One_nat_def)
    then show ?thesis using nb by (simp only: ab prod.case Let_def loop sub if_False)
  qed
  then show ?thesis using d(1) by (simp add: r m)
qed

section \<open>The normalised path\<close>

lemma reduce_normalized_2_val:
  assumes "length m = 2" "2 ^ 63 \<le> unat (m ! 1)"
  shows "length (reduce_normalized_2 ws m) = 2 \<and> words_val (reduce_normalized_2 ws m) = words_val ws mod words_val m"
proof -
  have pos: "0 < words_val m" using assms by (cases m) (auto simp: numeral_2_eq_2 length_Suc_conv)
  show ?thesis
  proof (induction ws)
    case Nil
    show ?case using pos by (simp add: reduce_normalized_2_def)
  next
    case (Cons w ws)
    have "reduce_normalized_2 (w # ws) m = reduce_step_2 (reduce_normalized_2 ws m) w m" by (simp add: reduce_normalized_2_def)
    moreover have "words_val (reduce_normalized_2 ws m) < words_val m" using Cons pos by simp
    ultimately show ?case
      using reduce_step_2_val [OF _ assms(1) _ assms(2), of "reduce_normalized_2 ws m" w] Cons
      by (simp add: mod_add_left_eq mod_mult_right_eq add.commute [of "radix * _"])
        (metis add.commute mod_add_left_eq mod_mult_right_eq)
  qed
qed

lemma width_power_val:
  assumes "length m = 2" "2 ^ 63 \<le> unat (m ! 1)"
  shows "length (foldl (\<lambda>p _. reduce_step_2 p 0 m) [1, 0] ws) = 2 \<and>
    words_val (foldl (\<lambda>p _. reduce_step_2 p 0 m) [1, 0] ws) = radix ^ length ws mod words_val m"
proof (induction ws rule: rev_induct)
  case Nil
  obtain m0 m1 where m: "m = [m0, m1]" using assms(1) by (auto simp: numeral_2_eq_2 length_Suc_conv)
  have "1 < radix * unat m1" using assms(2) by (simp add: m radix_def)
  then show ?case by (simp add: m)
next
  case (snoc w ws)
  let ?p = "foldl (\<lambda>p _. reduce_step_2 p 0 m) [1, 0] ws"
  have "0 < words_val m" using assms by (cases m) (auto simp: numeral_2_eq_2 length_Suc_conv)
  then have "words_val ?p < words_val m" using snoc by simp
  with reduce_step_2_val [OF _ assms(1) _ assms(2), of ?p 0] snoc show ?case by (simp add: mod_mult_right_eq)
qed

lemma subtract_mod_2_val:
  assumes "length l = n" "length r = n" "length m = n" "words_val l < words_val m" "words_val r < words_val m"
  shows "length (subtract_mod_2 l r m) = n \<and> int (words_val (subtract_mod_2 l r m)) = (int (words_val l) - int (words_val r)) mod int (words_val m)"
proof (cases "words_less l r")
  case True
  then have lt: "words_val l < words_val r" using words_less_val [of l r] assms(1,2) by simp
  let ?d = "fst (subtract_words r l False)"
  have d: "length ?d = n" "words_val ?d = words_val r - words_val l"
    using subtract_words_val [of r l] assms(1,2) lt by simp_all
  have "words_val ?d \<le> words_val m" using d(2) assms(5) by simp
  from subtract_words_val [of m ?d, OF _ this] d assms(3)
  have "length (subtract_mod_2 l r m) = n" "words_val (subtract_mod_2 l r m) = words_val m - (words_val r - words_val l)"
    using True by (simp_all add: subtract_mod_2_def Let_def)
  moreover have "(int (words_val l) - int (words_val r)) mod int (words_val m) = (int (words_val l) - int (words_val r) + int (words_val m)) mod int (words_val m)"
    by simp
  moreover have "\<dots> = int (words_val l) - int (words_val r) + int (words_val m)"
    using lt assms(5) by (intro mod_pos_pos_trivial) simp_all
  ultimately show ?thesis using lt assms(5) by (simp add: of_nat_diff)
next
  case False
  then have le: "words_val r \<le> words_val l" using words_less_val [of l r] assms(1,2) by simp
  have "(int (words_val l) - int (words_val r)) mod int (words_val m) = int (words_val l) - int (words_val r)"
    using le assms(4) by (intro mod_pos_pos_trivial) simp_all
  with subtract_words_val [of l r] False le assms(1,2) show ?thesis by (simp add: subtract_mod_2_def of_nat_diff)
qed

section \<open>The bitwise path\<close>

lemma reduce_bits_val:
  assumes "length one = n" "length m = n" "length r = n" "words_val one = 1" "1 < words_val m" "words_val r < words_val m"
  shows "k \<le> 64 \<Longrightarrow> length (foldl (\<lambda>r b. reduce_bit m one w b r) r (rev [64 - k..<64])) = n \<and>
    words_val (foldl (\<lambda>r b. reduce_bit m one w b r) r (rev [64 - k..<64])) = (words_val r * 2 ^ k + unat w div 2 ^ (64 - k)) mod words_val m"
proof (induction k)
  case 0
  then show ?case using assms unat_less_64 [of w] by (simp add: radix_def)
next
  case (Suc k)
  let ?b = "64 - Suc k" and ?x = "foldl (\<lambda>r b. reduce_bit m one w b r) r (rev [64 - k..<64])" and ?p = "words_val m"
  have x: "length ?x = n" "words_val ?x = (words_val r * 2 ^ k + unat w div 2 ^ (64 - k)) mod ?p" using Suc by simp_all
  have "Suc ?b = 64 - k" "?b < 64" using Suc.prems by linarith+
  then have "[?b..<64] = ?b # [64 - k..<64]" using upt_conv_Cons [of ?b 64] by simp
  then have f: "foldl (\<lambda>r b. reduce_bit m one w b r) r (rev [?b..<64]) = reduce_bit m one w ?b ?x" by simp
  have lt: "words_val ?x < ?p" using x(2) assms(5) by simp
  let ?y = "add_mod_words ?x ?x m"
  have y: "length ?y = n" "words_val ?y = (words_val ?x + words_val ?x) mod ?p"
    using add_mod_words_val [OF x(1) x(1) assms(2) lt lt] by simp_all
  have ylt: "words_val ?y < ?p" using y(2) assms(5) by simp
  have z: "length (add_mod_words ?y one m) = n" "words_val (add_mod_words ?y one m) = (words_val ?y + 1) mod ?p"
    using add_mod_words_val [OF y(1) assms(1,2) ylt] assms(4,5) by simp_all
  have b: "drop_bit ?b w AND 1 = 1 \<longleftrightarrow> odd (unat w div 2 ^ ?b)" by (simp add: drop_bit_and_1 bit_word_odd)
  have d: "unat w div 2 ^ ?b = 2 * (unat w div 2 ^ (64 - k)) + of_bool (odd (unat w div 2 ^ ?b))"
    using div_power_step [of "unat w" ?b] unfolding \<open>Suc ?b = 64 - k\<close> .
  have "words_val (reduce_bit m one w ?b ?x) = (2 * words_val ?x + of_bool (odd (unat w div 2 ^ ?b))) mod ?p \<and> length (reduce_bit m one w ?b ?x) = n"
  proof (cases "odd (unat w div 2 ^ ?b)")
    case True
    then have "reduce_bit m one w ?b ?x = add_mod_words ?y one m" unfolding reduce_bit_def Let_def b by simp
    with True z show ?thesis unfolding y(2) by (simp only: mod_add_left_eq mult_2 of_bool_eq simp_thms)
  next
    case False
    then have "reduce_bit m one w ?b ?x = ?y" unfolding reduce_bit_def Let_def b by simp
    with False y show ?thesis by (simp only: mult_2 of_bool_eq add_0_right simp_thms)
  qed
  moreover have "(2 * words_val ?x + of_bool (odd (unat w div 2 ^ ?b))) mod ?p = (words_val r * 2 ^ Suc k + unat w div 2 ^ ?b) mod ?p"
  proof -
    have "(2 * words_val ?x + of_bool (odd (unat w div 2 ^ ?b))) mod ?p
        = (2 * (words_val r * 2 ^ k + unat w div 2 ^ (64 - k)) + of_bool (odd (unat w div 2 ^ ?b))) mod ?p"
      unfolding x(2) by (metis mod_add_left_eq mod_mult_right_eq)
    also have "2 * (words_val r * 2 ^ k + unat w div 2 ^ (64 - k)) + of_bool (odd (unat w div 2 ^ ?b))
        = 2 * (words_val r * 2 ^ k) + (2 * (unat w div 2 ^ (64 - k)) + of_bool (odd (unat w div 2 ^ ?b)))"
      by (simp only: distrib_left add.assoc)
    also have "2 * (unat w div 2 ^ (64 - k)) + of_bool (odd (unat w div 2 ^ ?b)) = unat w div 2 ^ ?b" by (rule d [symmetric])
    also have "2 * (words_val r * 2 ^ k) = words_val r * 2 ^ Suc k" by simp
    finally show ?thesis .
  qed
  ultimately show ?case unfolding f by simp
qed

lemma reduce_words_val:
  assumes "length one = n" "length m = n" "words_val one = 1" "1 < words_val m"
  shows "length (foldl (\<lambda>r word. foldl (\<lambda>r b. reduce_bit m one word b r) r (rev [0..<64])) (replicate n 0) (rev ws)) = n \<and>
    words_val (foldl (\<lambda>r word. foldl (\<lambda>r b. reduce_bit m one word b r) r (rev [0..<64])) (replicate n 0) (rev ws)) = words_val ws mod words_val m"
proof (induction ws)
  case (Cons w ws)
  let ?x = "foldl (\<lambda>r word. foldl (\<lambda>r b. reduce_bit m one word b r) r (rev [0..<64])) (replicate n 0) (rev ws)"
  have "words_val ?x < words_val m" using Cons assms(4) by simp
  from reduce_bits_val [OF assms(1,2) conjunct1 [OF Cons] assms(3,4) this, of 64 w]
  have "length (foldl (\<lambda>r b. reduce_bit m one w b r) ?x (rev [0..<64])) = n"
    "words_val (foldl (\<lambda>r b. reduce_bit m one w b r) ?x (rev [0..<64])) = (words_val ?x * radix + unat w) mod words_val m"
    by (simp_all add: radix_def)
  moreover have "(words_val ?x * radix + unat w) mod words_val m = words_val (w # ws) mod words_val m"
    using Cons by (simp only: words_val.simps) (metis add.commute mod_add_left_eq mod_mult_left_eq mult.commute)
  ultimately show ?case by simp
qed simp

lemma negate_words_val:
  "length (negate_words ws c) = length ws \<and>
   words_val (negate_words ws c) + words_val ws + 1 + radix ^ length ws * of_bool (c \<and> words_val ws = 0) = radix ^ length ws + of_bool c"
proof (induction ws arbitrary: c)
  case (Cons w ws)
  obtain v ov where a: "overflowing_add (NOT w) (of_bool c) = (v, ov)" by fastforce
  have n: "unat (NOT w) + unat w + 1 = radix"
  proof -
    have "NOT w = - 1 - w" by (simp add: not_eq_complement)
    then have "unat (NOT w) = unat (- 1 :: u64) - unat w" using unat_minus_le [of w "- 1"] by simp
    moreover have "unat (- 1 :: u64) = radix - 1" by (simp add: radix_def unsigned_minus_1_eq_mask mask_eq_exp_minus_1)
    ultimately show ?thesis using unat_less_64 [of w] by simp
  qed
  have v: "unat v + radix * of_bool ov = unat (NOT w) + of_bool c"
    using overflowing_add_exact [of "NOT w" "of_bool c"] a by (simp add: radix_def)
  have ov: "ov \<longleftrightarrow> c \<and> unat w = 0"
  proof
    assume ov
    then show "c \<and> unat w = 0" using v n by (cases c) simp_all
  next
    assume "c \<and> unat w = 0"
    then show ov using v n unat_less_64 [of v] by (cases ov) simp_all
  qed
  have ih: "length (negate_words ws ov) = length ws"
    "words_val (negate_words ws ov) + words_val ws + 1 + radix ^ length ws * of_bool (ov \<and> words_val ws = 0) = radix ^ length ws + of_bool ov"
    using Cons [of ov] by simp_all
  have z: "(c \<and> words_val (w # ws) = 0) = (ov \<and> words_val ws = 0)" by (auto simp: ov radix_def)
  have "radix * (words_val (negate_words ws ov) + words_val ws + 1 + radix ^ length ws * of_bool (ov \<and> words_val ws = 0)) = radix * (radix ^ length ws + of_bool ov)"
    by (simp only: ih(2))
  then show ?case using v n ih(1) unfolding z by (simp add: a algebra_simps)
qed simp

lemma trim_words_val: "words_val (rev (dropWhile (\<lambda>word. word = 0) (rev ws))) = words_val ws"
  by (induction ws rule: rev_induct) (simp_all add: words_val_append)

lemma magnitude_val:
  assumes "words_negative ws"
  shows "int (words_val (twos_complement_magnitude ws)) = - signed_val ws"
proof -
  have "ws \<noteq> []" using assms by (auto simp: words_negative_def)
  then have h: "2 * (int radix ^ length ws div 2) = int radix ^ length ws" "int radix ^ length ws div 2 \<le> int (words_val ws)"
    using words_negative_iff [of ws] assms by (simp_all add: radix_even)
  have "0 < int radix ^ length ws" by simp
  with h have "words_val ws \<noteq> 0" by linarith
  then have "words_val (negate_words ws True) + words_val ws = radix ^ length ws" using negate_words_val [of ws True] by simp
  then have "int (words_val (negate_words ws True)) + int (words_val ws) = int radix ^ length ws" by (metis of_nat_add of_nat_power)
  then show ?thesis using assms by (simp add: twos_complement_magnitude_def trim_words_val signed_val_def)
qed

section \<open>Reduction\<close>

lemma words_val_eq_0: "words_val ws = 0 \<longleftrightarrow> (\<forall>w\<in>set ws. w = 0)"
  by (induction ws) (auto simp: unat_eq_0 radix_def)

lemma rm_reduce_val:
  assumes "1 < words_val (rm_words m)"
  shows "length (rm_reduce m v) = length (rm_words m) \<and>
    int (words_val (rm_reduce m v)) = signed_val (si_words v) mod int (words_val (rm_words m))"
proof -
  let ?m = "rm_words m" and ?ws = "si_words v" and ?p = "int (words_val (rm_words m))"
  have ne: "?m \<noteq> []" using assms by auto
  consider "?ws = []" | "?ws \<noteq> []" "length ?m = 2 \<and> drop_bit 63 (?m ! 1) \<noteq> 0" | "?ws \<noteq> []" "\<not> (length ?m = 2 \<and> drop_bit 63 (?m ! 1) \<noteq> 0)"
    by blast
  then show ?thesis
  proof cases
    case 1
    then show ?thesis by (simp add: rm_reduce_def signed_val_def words_negative_def)
  next
    case 2
    have l: "length ?m = 2" using 2 by simp
    have "drop_bit 63 (?m ! 1) \<noteq> 0" using 2 by simp
    then have top: "2 ^ 63 \<le> unat (?m ! 1)" by (simp add: word_unat_eq_iff unat_drop_bit div_eq_0_iff not_less)
    note red = reduce_normalized_2_val [OF l top, of ?ws]
    show ?thesis
    proof (cases "si_is_negative v")
      case True
      let ?w = "foldl (\<lambda>p _. reduce_step_2 p 0 ?m) [1, 0] ?ws"
      note pow = width_power_val [OF l top, of ?ws]
      have "words_val (reduce_normalized_2 ?ws ?m) < words_val ?m" "words_val ?w < words_val ?m" using red pow assms by simp_all
      from subtract_mod_2_val [OF conjunct1 [OF red] conjunct1 [OF pow] l this]
      have s: "length (subtract_mod_2 (reduce_normalized_2 ?ws ?m) ?w ?m) = 2"
        "int (words_val (subtract_mod_2 (reduce_normalized_2 ?ws ?m) ?w ?m)) = (int (words_val (reduce_normalized_2 ?ws ?m)) - int (words_val ?w)) mod ?p"
        by simp_all
      have "(int (words_val (reduce_normalized_2 ?ws ?m)) - int (words_val ?w)) mod ?p = (int (words_val ?ws) - int radix ^ length ?ws) mod ?p"
        using red pow by (simp add: of_nat_mod mod_diff_eq)
      with s True 2 show ?thesis by (simp add: rm_reduce_def Let_def si_is_negative_def signed_val_def)
    next
      case False
      then show ?thesis using red 2 l by (simp add: rm_reduce_def Let_def si_is_negative_def signed_val_def of_nat_mod)
    qed
  next
    case 3
    let ?one = "(replicate (length ?m) 0)[0 := 1] :: u64 list"
    have one: "length ?one = length ?m" "words_val ?one = 1"
      using ne words_val_update [of 0 "replicate (length ?m) 0" 1] by simp_all
    show ?thesis
    proof (cases "si_is_negative v")
      case True
      let ?mag = "twos_complement_magnitude ?ws"
      define r where "r = foldl (\<lambda>r word. foldl (\<lambda>r b. reduce_bit ?m ?one word b r) r (rev [0..<64])) (replicate (length ?m) 0) (rev ?mag)"
      have r: "length r = length ?m" "words_val r = words_val ?mag mod words_val ?m"
        using reduce_words_val [OF one(1) refl one(2) assms, of ?mag] by (simp_all add: r_def)
      have neg: "int (words_val ?mag) = - signed_val ?ws" using True by (intro magnitude_val) (simp add: si_is_negative_def)
      have red: "rm_reduce m v = (if \<exists>word\<in>set r. word \<noteq> 0 then fst (subtract_words ?m r False) else r)"
        using True unfolding rm_reduce_def Let_def if_not_P [OF 3(1)] if_not_P [OF 3(2)] r_def by simp
      have "signed_val ?ws mod ?p = (- int (words_val ?mag)) mod ?p" by (simp add: neg)
      also have "\<dots> = (if words_val r = 0 then 0 else ?p - int (words_val r))"
      proof -
        have "int (words_val ?mag) mod ?p = int (words_val r)" by (simp only: r(2) of_nat_mod)
        then show ?thesis unfolding zmod_zminus1_eq_if by simp
      qed
      finally have sv: "signed_val ?ws mod ?p = (if words_val r = 0 then 0 else ?p - int (words_val r))" .
      show ?thesis
      proof (cases "words_val r = 0")
        case True
        then show ?thesis using red sv r(1) words_val_eq_0 [of r] by simp
      next
        case False
        have lt: "words_val r < words_val ?m" using r(2) assms by simp
        from subtract_words_val [OF r(1) [symmetric]] lt False red sv words_val_eq_0 [of r]
        show ?thesis by (auto simp: of_nat_diff)
      qed
    next
      case False
      then show ?thesis
        using reduce_words_val [OF one(1) refl one(2) assms, of ?ws]
        unfolding rm_reduce_def Let_def if_not_P [OF 3(1)] if_not_P [OF 3(2)]
        by (simp add: si_is_negative_def signed_val_def of_nat_mod)
    qed
  qed
qed

text \<open>Storing an integer drops redundant sign words only.\<close>

lemma trim_len_le: "trim_len ws n \<le> n"
  by (induction ws n rule: trim_len.induct) (auto simp: Let_def intro: le_SucI)

lemma trim_len_val: "n \<le> length ws \<Longrightarrow> signed_val (take (trim_len ws n) ws) = signed_val (take n ws)"
proof (induction ws n rule: trim_len.induct)
  case (1 ws n)
  let ?ws = "take (Suc n) ws"
  have n: "Suc n < length ws" using 1(2) by simp
  have split: "take (Suc (Suc n)) ws = ?ws @ [ws ! Suc n]" by (rule take_Suc_conv_app_nth [OF n])
  have ne: "?ws \<noteq> []" using n by auto
  have "last ?ws = ws ! n" using n by (simp add: take_Suc_conv_app_nth)
  then have neg: "words_negative ?ws \<longleftrightarrow> drop_bit 63 (ws ! n) = 1" using ne by (simp add: words_negative_def)
  show ?case
  proof (cases "ws ! Suc n = 0 \<and> drop_bit 63 (ws ! n) \<noteq> 1 \<or> ws ! Suc n = - 1 \<and> drop_bit 63 (ws ! n) = 1")
    case True
    then have "signed_val (take (Suc (Suc n)) ws) = signed_val ?ws"
      using signed_val_extend [OF ne, of 1] neg unfolding split by auto
    with True 1 n show ?thesis by (simp add: Let_def)
  next
    case False
    then have "trim_len ws (Suc (Suc n)) = Suc (Suc n)" by (auto simp: Let_def)
    then show ?thesis by simp
  qed
qed simp_all

lemma stored_from_z_val: "signed_val (si_words (stored_from_z v)) = z_val v"
proof (cases "z_is_zero v")
  case True
  then have "words_val (z_words v) = 0" by (simp add: z_is_zero_def words_val_eq_0 list_all_iff)
  moreover have "\<not> words_negative (z_words v)"
    using True by (cases "z_words v" rule: rev_cases) (auto simp: z_is_zero_def words_negative_def)
  ultimately have "z_val v = 0" by (simp add: z_val_def signed_val_def)
  with True show ?thesis by (simp add: stored_from_z_def signed_val_def words_negative_def)
next
  case False
  then show ?thesis using trim_len_val [of "length (z_words v)" "z_words v"] by (simp add: stored_from_z_def z_val_def)
qed

lemma runtime_modulus_new_val:
  assumes "runtime_modulus_new n q = Inr m" "2 \<le> n"
  shows "length (rm_words m) = n" "words_val (rm_words m) = unat q" "1 < unat q"
proof -
  have m: "rm_words m = into_words n q" and q: "1 < unat q"
    using assms(1) by (auto simp: runtime_modulus_new_def word_le_nat_alt split: if_splits)
  show "1 < unat q" by (rule q)
  show "length (rm_words m) = n" by (simp add: m into_words_def)
  obtain k where n: "n = Suc (Suc k)" using assms(2) by (metis Suc_le_D numeral_2_eq_2 Suc_le_mono)
  have "unat q < radix * radix" using unat_lt2p [of q] by (simp add: radix_def)
  then have "unat (drop_bit 64 q) < radix" by (simp add: unat_drop_bit radix_def div_less_iff_less_mult)
  then have "unat (ucast q :: u64) + radix * unat (ucast (drop_bit 64 q) :: u64) = unat q"
    by (simp add: unat_ucast_mod unat_drop_bit radix_def)
  then show "words_val (rm_words m) = unat q" by (simp add: m into_words_def n)
qed

section \<open>Properties\<close>

text \<open>C15: Reducing a recorded row value gives its residue.  For every accepted modulus \<open>q\<close> and every
  fixed-width integer (of any number of limbs, negative ones included) the words returned are those of
  the value modulo \<open>q\<close>; both the two-word Knuth division of the normalised case (whose quotient
  correction loop ends at the exact digit, so that its final add-back is dead) and the bitwise path
  are covered.\<close>

theorem stored_reduction_exact:
  assumes "runtime_modulus_new n q = Inr m" "2 \<le> n"
  shows "length (rm_reduce m (stored_from_z v)) = n \<and>
    int (words_val (rm_reduce m (stored_from_z v))) = z_val v mod int (unat q)"
  using rm_reduce_val [of m "stored_from_z v"] runtime_modulus_new_val [OF assms] by (simp add: stored_from_z_val)

theorem stored_reduction_exact_witness:
  "\<exists>m. runtime_modulus_new 2 7 = Inr m \<and>
    int (words_val (rm_reduce m (stored_from_z \<lparr>z_words = [5, - 1]\<rparr>))) = z_val \<lparr>z_words = [5, - 1]\<rparr> mod int (unat (7 :: u128))"
proof -
  have "bitlen (7 :: nat) \<le> 128" by (simp add: bitlen_le_iff)
  then have "runtime_modulus_new 2 7 = Inr \<lparr>rm_words = into_words 2 7\<rparr>" by (simp add: runtime_modulus_new_def word_le_nat_alt)
  from this conjunct2 [OF stored_reduction_exact [OF this order_refl, of "\<lparr>z_words = [5, - 1]\<rparr>"]] show ?thesis by blast
qed

end
