(* ===== verification/Circuit_Constraints.thy ===== *)
theory Circuit_Constraints
  imports Circuit_Packed
begin

text \<open>
  The sparse constraint matrices and the generator that records them:
  \<open>crates/circuit/src/constraints.rs\<close>.

  The coefficient ring is a type of class \<open>comm_ring_1\<close> (the code's trait bounds ask for less in the
  parts that do not negate).  A failed assertion or an index out of bounds is \<open>None\<close>; \<open>usize\<close> values
  are natural numbers, and the only sum the code checks, the number of Boolean witnesses, is checked
  against \<open>2 ^ 64\<close>.  Mapping rows in parallel is mapping them.
\<close>

lemma those_Some_map: "(\<And>x. x \<in> set xs \<Longrightarrow> f x = Some (g x)) \<Longrightarrow> those (map f xs) = Some (map g xs)"
  by (induction xs) simp_all

section \<open>Sparse matrices\<close>

record 'c sparse_row =
  sr_entries :: "(nat \<times> 'c) list"

record 'c sparse_matrix =
  sm_rows :: "'c sparse_row list"
  sm_columns :: nat

datatype sparse_matrix_error =
    ColumnOutOfBounds nat nat nat
  | ColumnsNotStrictlyIncreasing nat nat nat

fun check_columns :: "nat \<Rightarrow> nat \<Rightarrow> nat option \<Rightarrow> nat list \<Rightarrow> sparse_matrix_error + unit" where
  "check_columns cols r prev [] = Inr ()"
| "check_columns cols r prev (c # cs) =
     (if c \<ge> cols then Inl (ColumnOutOfBounds r c cols)
      else case prev of
          Some p \<Rightarrow> if p \<ge> c then Inl (ColumnsNotStrictlyIncreasing r p c) else check_columns cols r (Some c) cs
        | None \<Rightarrow> check_columns cols r (Some c) cs)"

fun check_rows :: "nat \<Rightarrow> nat \<Rightarrow> nat list list \<Rightarrow> sparse_matrix_error + unit" where
  "check_rows cols r [] = Inr ()"
| "check_rows cols r (cs # rs) =
     (case check_columns cols r None cs of Inl e \<Rightarrow> Inl e | Inr _ \<Rightarrow> check_rows cols (Suc r) rs)"

definition sm_try_from_rows :: "nat \<Rightarrow> (nat \<times> 'c) list list \<Rightarrow> sparse_matrix_error + 'c sparse_matrix" where
  "sm_try_from_rows cols rs =
     (case check_rows cols 0 (map (map fst) rs) of
        Inl e \<Rightarrow> Inl e
      | Inr _ \<Rightarrow> Inr \<lparr>sm_rows = map (\<lambda>entries. \<lparr>sr_entries = entries\<rparr>) rs, sm_columns = cols\<rparr>)"

definition sm_row_count :: "'c sparse_matrix \<Rightarrow> nat" where
  "sm_row_count self = length (sm_rows self)"

definition map_values :: "('c \<Rightarrow> 'd) \<Rightarrow> 'c sparse_matrix \<Rightarrow> 'd sparse_matrix" where
  "map_values f self =
     \<lparr>sm_rows = map (\<lambda>r. \<lparr>sr_entries = map (\<lambda>(column, coefficient). (column, f coefficient)) (sr_entries r)\<rparr>) (sm_rows self),
      sm_columns = sm_columns self\<rparr>"

record sparse_bool_row =
  sbr_positions :: "nat list"

record sparse_bool_matrix =
  sbm_rows :: "sparse_bool_row list"
  sbm_columns :: nat

definition sbm_try_from_rows :: "nat \<Rightarrow> nat list list \<Rightarrow> sparse_matrix_error + sparse_bool_matrix" where
  "sbm_try_from_rows cols rs =
     (case check_rows cols 0 rs of
        Inl e \<Rightarrow> Inl e
      | Inr _ \<Rightarrow> Inr \<lparr>sbm_rows = map (\<lambda>positions. \<lparr>sbr_positions = positions\<rparr>) rs, sbm_columns = cols\<rparr>)"

definition sbm_row_count :: "sparse_bool_matrix \<Rightarrow> nat" where
  "sbm_row_count self = length (sbm_rows self)"

section \<open>The four matrices\<close>

record 'r constraint_matrices =
  cm_m :: sparse_bool_matrix
  cm_a :: "'r sparse_matrix"
  cm_b :: "'r sparse_matrix"
  cm_c :: "'r sparse_matrix"

datatype constraint_matrix_shape_error =
    R1csRowCountMismatch nat nat nat
  | R1csColumnCountMismatch nat nat nat
  | AssignmentLengthMismatch nat nat

definition validate_shape :: "'r constraint_matrices \<Rightarrow> constraint_matrix_shape_error + unit" where
  "validate_shape self =
     (let a_rows = sm_row_count (cm_a self); b_rows = sm_row_count (cm_b self); c_rows = sm_row_count (cm_c self);
          a_columns = sm_columns (cm_a self); b_columns = sm_columns (cm_b self); c_columns = sm_columns (cm_c self);
          m_rows = sbm_row_count (cm_m self)
      in if a_rows \<noteq> b_rows \<or> a_rows \<noteq> c_rows then Inl (R1csRowCountMismatch a_rows b_rows c_rows)
         else if a_columns \<noteq> b_columns \<or> a_columns \<noteq> c_columns then Inl (R1csColumnCountMismatch a_columns b_columns c_columns)
         else if m_rows \<noteq> a_columns then Inl (AssignmentLengthMismatch m_rows a_columns)
         else Inr ())"

definition map_coefficients :: "('r \<Rightarrow> 'd) \<Rightarrow> 'r constraint_matrices \<Rightarrow> 'd constraint_matrices" where
  "map_coefficients f self =
     \<lparr>cm_m = cm_m self, cm_a = map_values f (cm_a self), cm_b = map_values f (cm_b self), cm_c = map_values f (cm_c self)\<rparr>"

datatype satisfaction_error =
    InvalidShape constraint_matrix_shape_error
  | WitnessLength nat nat
  | Constraint nat

text \<open>One row of \<open>M\<close> over the witness prefixed with the constant one.\<close>

fun bool_row_value :: "packed_witness \<Rightarrow> nat list \<Rightarrow> bool \<Rightarrow> bool option" where
  "bool_row_value witness [] v = Some v"
| "bool_row_value witness (c # cs) v =
     (if c = 0 then bool_row_value witness cs (v \<noteq> True)
      else case pw_bit witness (c - 1) of
          None \<Rightarrow> None
        | Some b \<Rightarrow> bool_row_value witness cs (v \<noteq> b))"

definition integer_witness :: "'r::comm_ring_1 constraint_matrices \<Rightarrow> packed_witness \<Rightarrow> (satisfaction_error + 'r list) option" where
  "integer_witness self witness =
     (let expected = sbm_columns (cm_m self) - 1
      in if pw_bit_len witness \<noteq> expected then Some (Inl (WitnessLength expected (pw_bit_len witness)))
         else map_option (\<lambda>vals. Inr (map of_bool vals))
                (those (map (\<lambda>r. bool_row_value witness (sbr_positions r) False) (sbm_rows (cm_m self)))))"

definition evaluate_integer_row :: "'r::comm_ring_1 sparse_row \<Rightarrow> 'r list \<Rightarrow> 'r option" where
  "evaluate_integer_row r witness =
     map_option sum_list (those (map (\<lambda>(column, coefficient).
       if column < length witness then Some (witness ! column * coefficient) else None) (sr_entries r)))"

fun check_constraints :: "'r::comm_ring_1 constraint_matrices \<Rightarrow> 'r list \<Rightarrow> nat list \<Rightarrow> (satisfaction_error + unit) option" where
  "check_constraints self z [] = Some (Inr ())"
| "check_constraints self z (r # rs) =
     (case (evaluate_integer_row (sm_rows (cm_a self) ! r) z, evaluate_integer_row (sm_rows (cm_b self) ! r) z,
            evaluate_integer_row (sm_rows (cm_c self) ! r) z) of
        (Some a, Some b, Some c) \<Rightarrow> if a * b \<noteq> c then Some (Inl (Constraint r)) else check_constraints self z rs
      | _ \<Rightarrow> None)"

definition check_witness :: "'r::comm_ring_1 constraint_matrices \<Rightarrow> packed_witness \<Rightarrow> (satisfaction_error + unit) option" where
  "check_witness self witness =
     (case validate_shape self of
        Inl e \<Rightarrow> Some (Inl (InvalidShape e))
      | Inr _ \<Rightarrow>
          (case integer_witness self witness of
             None \<Rightarrow> None
           | Some (Inl e) \<Rightarrow> Some (Inl e)
           | Some (Inr z) \<Rightarrow> check_constraints self z [0..<sm_row_count (cm_a self)]))"

definition is_satisfied :: "'r::comm_ring_1 constraint_matrices \<Rightarrow> packed_witness \<Rightarrow> bool option" where
  "is_satisfied self witness = map_option (\<lambda>r. r = Inr ()) (check_witness self witness)"

section \<open>Merging sorted vectors\<close>

datatype ordering = Less | Equal | Greater

definition cmp_nat :: "nat \<Rightarrow> nat \<Rightarrow> ordering" where
  "cmp_nat a b = (if a < b then Less else if a = b then Equal else Greater)"

fun merge_loop :: "('t \<Rightarrow> 't \<Rightarrow> ordering) \<Rightarrow> ('t \<Rightarrow> 't \<Rightarrow> 't option) \<Rightarrow> 't list \<Rightarrow> 't list \<Rightarrow> 't list" where
  "merge_loop cmp merge (l # lhs) (r # rhs) =
     (case cmp l r of
        Less \<Rightarrow> l # merge_loop cmp merge lhs (r # rhs)
      | Greater \<Rightarrow> r # merge_loop cmp merge (l # lhs) rhs
      | Equal \<Rightarrow> (case merge l r of
            Some new \<Rightarrow> new # merge_loop cmp merge lhs rhs
          | None \<Rightarrow> merge_loop cmp merge lhs rhs))"
| "merge_loop cmp merge lhs rhs = lhs @ rhs"

definition merge_sorted_vecs :: "('t \<Rightarrow> 't \<Rightarrow> ordering) \<Rightarrow> ('t \<Rightarrow> 't \<Rightarrow> 't option) \<Rightarrow> 't list \<Rightarrow> 't list \<Rightarrow> 't list" where
  "merge_sorted_vecs cmp merge lhs rhs =
     (if lhs = [] then rhs
      else if rhs = [] then lhs
      else if cmp (last lhs) (hd rhs) = Less then lhs @ rhs
      else if cmp (last rhs) (hd lhs) = Less then rhs @ lhs
      else merge_loop cmp merge lhs rhs)"

section \<open>Symbolic witnesses\<close>

record bool_linear_combination =
  bl_constant :: bool
  bl_witnesses :: "nat list"

definition bl_witness :: "nat \<Rightarrow> bool_linear_combination" where
  "bl_witness index = \<lparr>bl_constant = False, bl_witnesses = [index]\<rparr>"

definition bl_xor :: "bool_linear_combination \<Rightarrow> bool_linear_combination \<Rightarrow> bool_linear_combination" where
  "bl_xor self rhs =
     \<lparr>bl_constant = (bl_constant self \<noteq> bl_constant rhs),
      bl_witnesses = merge_sorted_vecs cmp_nat (\<lambda>_ _. None) (bl_witnesses self) (bl_witnesses rhs)\<rparr>"

definition bl_from :: "bool \<Rightarrow> bool_linear_combination" where
  "bl_from constant = \<lparr>bl_constant = constant, bl_witnesses = []\<rparr>"

record 'r linear_combination =
  lc_constant :: 'r
  lc_witnesses :: "(nat \<times> 'r) list"

definition lc_witness :: "nat \<Rightarrow> 'r::comm_ring_1 linear_combination" where
  "lc_witness index = \<lparr>lc_constant = 0, lc_witnesses = [(index, 1)]\<rparr>"

definition lc_from :: "'r \<Rightarrow> 'r linear_combination" where
  "lc_from constant = \<lparr>lc_constant = constant, lc_witnesses = []\<rparr>"

definition lc_zero :: "'r::comm_ring_1 linear_combination" where
  "lc_zero = lc_from 0"

definition lc_is_zero :: "'r::comm_ring_1 linear_combination \<Rightarrow> bool" where
  "lc_is_zero self = (lc_constant self = 0 \<and> lc_witnesses self = [])"

definition lc_add :: "'r::comm_ring_1 linear_combination \<Rightarrow> 'r linear_combination \<Rightarrow> 'r linear_combination" where
  "lc_add self rhs =
     \<lparr>lc_constant = lc_constant self + lc_constant rhs,
      lc_witnesses = merge_sorted_vecs (\<lambda>(lhs_idx, _) (rhs_idx, _). cmp_nat lhs_idx rhs_idx)
        (\<lambda>(wit_idx, lhs_coeff) (_, rhs_coeff).
           let coeff = lhs_coeff + rhs_coeff in if coeff = 0 then None else Some (wit_idx, coeff))
        (lc_witnesses self) (lc_witnesses rhs)\<rparr>"

definition lc_neg :: "'r::comm_ring_1 linear_combination \<Rightarrow> 'r linear_combination" where
  "lc_neg self = \<lparr>lc_constant = - lc_constant self, lc_witnesses = map (\<lambda>(i, coefficient). (i, - coefficient)) (lc_witnesses self)\<rparr>"

definition lc_sub :: "'r::comm_ring_1 linear_combination \<Rightarrow> 'r linear_combination \<Rightarrow> 'r linear_combination" where
  "lc_sub self rhs = lc_add self (lc_neg rhs)"

definition lc_mul :: "'r::comm_ring_1 linear_combination \<Rightarrow> 'r \<Rightarrow> 'r linear_combination" where
  "lc_mul self rhs =
     (if rhs = 0 then lc_zero
      else \<lparr>lc_constant = lc_constant self * rhs, lc_witnesses = map (\<lambda>(i, coefficient). (i, coefficient * rhs)) (lc_witnesses self)\<rparr>)"

definition lc_sum :: "'r::comm_ring_1 linear_combination list \<Rightarrow> 'r linear_combination" where
  "lc_sum xs = foldl lc_add lc_zero xs"

definition into_sparse_row :: "'r::comm_ring_1 linear_combination \<Rightarrow> 'r sparse_row" where
  "into_sparse_row self =
     (let witnesses = map (\<lambda>(column, coefficient). (column + 1, coefficient)) (lc_witnesses self)
      in \<lparr>sr_entries = (if lc_constant self \<noteq> 0 then (0, lc_constant self) # witnesses else witnesses)\<rparr>)"

definition bool_sparse_row :: "bool_linear_combination \<Rightarrow> sparse_bool_row" where
  "bool_sparse_row v =
     (let witnesses = map (\<lambda>position. position + 1) (bl_witnesses v)
      in \<lparr>sbr_positions = (if bl_constant v then 0 # witnesses else witnesses)\<rparr>)"

section \<open>The generator\<close>

record 'r constraint_generator =
  cg_input_witnesses :: nat
  cg_next_boolean_witness :: nat
  cg_m_rows :: "bool_linear_combination list"
  cg_r1cs :: "('r linear_combination \<times> 'r linear_combination \<times> 'r linear_combination) list"

definition cg_new :: "nat \<Rightarrow> 'r constraint_generator" where
  "cg_new inputs = \<lparr>cg_input_witnesses = inputs, cg_next_boolean_witness = inputs, cg_m_rows = [], cg_r1cs = []\<rparr>"

definition cg_input :: "'r constraint_generator \<Rightarrow> nat \<Rightarrow> bool_linear_combination option" where
  "cg_input self index = (if index < cg_input_witnesses self then Some (bl_witness index) else None)"

definition cg_inputs :: "'r constraint_generator \<Rightarrow> nat \<Rightarrow> bool_linear_combination list option" where
  "cg_inputs self N = (if N = cg_input_witnesses self then Some (map bl_witness [0..<N]) else None)"

definition record_bitz :: "bool_linear_combination \<Rightarrow> 'r constraint_generator \<Rightarrow> nat \<times> 'r constraint_generator" where
  "record_bitz v self = (length (cg_m_rows self), self\<lparr>cg_m_rows := cg_m_rows self @ [v]\<rparr>)"

definition cg_hint :: "nat \<Rightarrow> nat \<Rightarrow> 'r constraint_generator \<Rightarrow> (bool_linear_combination list \<times> 'r constraint_generator) option" where
  "cg_hint N M self =
     (if M \<noteq> div_ceil N 64 then None
      else
        let first = cg_next_boolean_witness self
        in if first + N \<ge> 2 ^ 64 then None
           else Some (map (\<lambda>index. bl_witness (first + index)) [0..<N], self\<lparr>cg_next_boolean_witness := first + N\<rparr>))"

definition cg_bitz :: "bool_linear_combination \<Rightarrow> 'r::comm_ring_1 constraint_generator \<Rightarrow> 'r linear_combination \<times> 'r constraint_generator" where
  "cg_bitz v self = (let (index, self) = record_bitz v self in (lc_witness index, self))"

fun record_bits :: "nat \<Rightarrow> bool_linear_combination list \<Rightarrow> 'r::comm_ring_1 constraint_generator \<Rightarrow> (nat \<times> 'r) list \<times> 'r constraint_generator" where
  "record_bits index [] self = ([], self)"
| "record_bits index (b # bs) self =
     (let (witness, self) = record_bitz b self; (witnesses, self) = record_bits (Suc index) bs self
      in ((witness, (1 + 1) ^ index) # witnesses, self))"

definition cg_bitz_unsigned :: "nat \<Rightarrow> bool_linear_combination list \<Rightarrow> 'r::comm_ring_1 constraint_generator
    \<Rightarrow> (('r linear_combination \<times> 'r linear_combination) \<times> 'r constraint_generator) option" where
  "cg_bitz_unsigned LOW bits_le self =
     (if LOW > length bits_le then None
      else
        let (witnesses, self) = record_bits 0 bits_le self;
            low = \<lparr>lc_constant = 0, lc_witnesses = take LOW witnesses\<rparr>;
            full = \<lparr>lc_constant = 0, lc_witnesses = witnesses\<rparr>
        in Some ((full, low), self))"

definition cg_assert_r1c :: "'r linear_combination \<Rightarrow> 'r linear_combination \<Rightarrow> 'r linear_combination
    \<Rightarrow> 'r constraint_generator \<Rightarrow> 'r constraint_generator" where
  "cg_assert_r1c a b c self = self\<lparr>cg_r1cs := cg_r1cs self @ [(a, b, c)]\<rparr>"

definition cg_sign_extend_z :: "nat \<Rightarrow> nat \<Rightarrow> 'r linear_combination \<Rightarrow> 'r linear_combination option" where
  "cg_sign_extend_z FROM_LIMBS TO_LIMBS v = (if TO_LIMBS \<ge> FROM_LIMBS then Some v else None)"

definition into_matrices :: "'r::comm_ring_1 constraint_generator \<Rightarrow> 'r constraint_matrices" where
  "into_matrices self =
     (let integer_columns = length (cg_m_rows self) + 1;
          materialized_m = \<lparr>sbr_positions = [0]\<rparr> # map bool_sparse_row (cg_m_rows self);
          a = map (\<lambda>(left, right, output). into_sparse_row left) (cg_r1cs self);
          b = map (\<lambda>(left, right, output). into_sparse_row right) (cg_r1cs self);
          c = map (\<lambda>(left, right, output). into_sparse_row output) (cg_r1cs self)
      in \<lparr>cm_m = \<lparr>sbm_rows = materialized_m, sbm_columns = cg_next_boolean_witness self + 1\<rparr>,
          cm_a = \<lparr>sm_rows = a, sm_columns = integer_columns\<rparr>,
          cm_b = \<lparr>sm_rows = b, sm_columns = integer_columns\<rparr>,
          cm_c = \<lparr>sm_rows = c, sm_columns = integer_columns\<rparr>\<rparr>)"

section \<open>Merging\<close>

lemma merge_induct [case_names step left right]:
  assumes "\<And>l lhs r rhs. P lhs (r # rhs) \<Longrightarrow> P (l # lhs) rhs \<Longrightarrow> P lhs rhs \<Longrightarrow> P (l # lhs) (r # rhs)"
    "\<And>rhs. P [] rhs" "\<And>lhs. P lhs []"
  shows "P lhs rhs"
proof (induction "length lhs + length rhs" arbitrary: lhs rhs rule: less_induct)
  case less
  then show ?case using assms by (cases lhs; cases rhs) simp_all
qed

text \<open>What the two merges share: entries are ordered by a key, joining two entries of one key keeps the
  key, and the value of a list is the product of the values of its entries in a commutative monoid.\<close>

locale sorted_merge =
  fixes key :: "'t \<Rightarrow> nat" and join :: "'t \<Rightarrow> 't \<Rightarrow> 't option"
    and times :: "'g \<Rightarrow> 'g \<Rightarrow> 'g" and one :: 'g and val :: "'t \<Rightarrow> 'g"
  assumes times_assoc: "times (times a b) c = times a (times b c)"
    and times_comm: "times a b = times b a"
    and times_one: "times one a = a"
    and join_key: "key l = key r \<Longrightarrow> join l r = Some n \<Longrightarrow> key n = key l"
    and join_val: "key l = key r \<Longrightarrow> join l r = Some n \<Longrightarrow> val n = times (val l) (val r)"
    and drop_val: "key l = key r \<Longrightarrow> join l r = None \<Longrightarrow> times (val l) (val r) = one"
begin

definition value_of :: "'t list \<Rightarrow> 'g" where
  "value_of xs = foldr (\<lambda>x. times (val x)) xs one"

definition ordered :: "'t list \<Rightarrow> bool" where
  "ordered xs = sorted_wrt (\<lambda>x y. key x < key y) xs"

abbreviation cmp_key :: "'t \<Rightarrow> 't \<Rightarrow> ordering" where
  "cmp_key l r \<equiv> cmp_nat (key l) (key r)"

lemma value_simps [simp]: "value_of [] = one" "value_of (x # xs) = times (val x) (value_of xs)"
  by (simp_all add: value_of_def)

lemma times_left_comm: "times a (times b c) = times b (times a c)"
  by (metis times_assoc times_comm)

lemma value_append: "value_of (xs @ ys) = times (value_of xs) (value_of ys)"
  by (induction xs) (simp_all add: times_assoc times_one)

lemma merge_loop_less: "key l < key r \<Longrightarrow>
    merge_loop cmp_key join (l # lhs) (r # rhs) = l # merge_loop cmp_key join lhs (r # rhs)"
  by (simp add: cmp_nat_def)

lemma merge_loop_greater: "key r < key l \<Longrightarrow>
    merge_loop cmp_key join (l # lhs) (r # rhs) = r # merge_loop cmp_key join (l # lhs) rhs"
  by (simp add: cmp_nat_def)

lemma merge_loop_equal: "key l = key r \<Longrightarrow>
    merge_loop cmp_key join (l # lhs) (r # rhs) = (case join l r of None \<Rightarrow> [] | Some n \<Rightarrow> [n]) @ merge_loop cmp_key join lhs rhs"
  by (simp add: cmp_nat_def split: option.split)

lemma merge_loop_Nil2: "merge_loop cmp_key join lhs [] = lhs"
  by (cases lhs) simp_all

lemmas merge_loop_steps = merge_loop_less merge_loop_greater merge_loop_equal merge_loop_Nil2

lemma merge_loop_value: "value_of (merge_loop cmp_key join lhs rhs) = times (value_of lhs) (value_of rhs)"
proof (induction lhs rhs rule: merge_induct)
  case (step l lhs r rhs)
  consider "key l < key r" | "key l = key r" | "key r < key l" by linarith
  then show ?case
  proof cases
    case 1
    show ?thesis unfolding merge_loop_less [OF 1] value_simps step(1) by (simp only: times_assoc)
  next
    case 2
    show ?thesis
    proof (cases "join l r")
      case None
      have "times (times (val l) (value_of lhs)) (times (val r) (value_of rhs))
          = times (times (val l) (val r)) (times (value_of lhs) (value_of rhs))"
        by (simp only: times_assoc times_left_comm)
      with None 2 drop_val [OF 2 None] step(3) show ?thesis by (simp only: merge_loop_equal) (simp add: times_one)
    next
      case (Some n)
      have "times (times (val l) (val r)) (times (value_of lhs) (value_of rhs))
          = times (times (val l) (value_of lhs)) (times (val r) (value_of rhs))"
        by (simp only: times_assoc times_left_comm)
      with Some 2 join_val [OF 2 Some] step(3) show ?thesis by (simp only: merge_loop_equal) simp
    qed
  next
    case 3
    show ?thesis unfolding merge_loop_greater [OF 3] value_simps step(2) by (simp only: times_assoc times_left_comm)
  qed
qed (simp_all only: merge_loop_Nil2 merge_loop.simps append_Nil value_simps times_one times_comm [of _ one] append_Nil2)

lemma merge_loop_keys: "key ` set (merge_loop cmp_key join lhs rhs) \<subseteq> key ` set lhs \<union> key ` set rhs"
proof (induction lhs rhs rule: merge_induct)
  case (step l lhs r rhs)
  consider "key l < key r" | "key l = key r" | "key r < key l" by linarith
  then show ?case
  proof cases
    case 2
    have "key n = key l" if "join l r = Some n" for n using join_key [OF 2 that] .
    with 2 step(3) show ?thesis by (simp only: merge_loop_equal) (auto split: option.split)
  next
    case 1
    from step(1) show ?thesis unfolding merge_loop_less [OF 1] by auto
  next
    case 3
    from step(2) show ?thesis unfolding merge_loop_greater [OF 3] by auto
  qed
qed (simp_all add: merge_loop_Nil2)

lemma merge_loop_key_of:
  assumes "x \<in> set (merge_loop cmp_key join lhs rhs)"
  shows "(\<exists>y\<in>set lhs. key x = key y) \<or> (\<exists>y\<in>set rhs. key x = key y)"
  using merge_loop_keys [of lhs rhs] assms by auto

lemma merge_loop_ordered: "ordered lhs \<Longrightarrow> ordered rhs \<Longrightarrow> ordered (merge_loop cmp_key join lhs rhs)"
proof (induction lhs rhs rule: merge_induct)
  case (step l lhs r rhs)
  have l: "\<forall>x\<in>set lhs. key l < key x" and r: "\<forall>x\<in>set rhs. key r < key x" and tails: "ordered lhs" "ordered rhs"
    using step.prems by (simp_all add: ordered_def)
  consider "key l < key r" | "key l = key r" | "key r < key l" by linarith
  then show ?case
  proof cases
    case 1
    have "key l < key x" if "x \<in> set (merge_loop cmp_key join lhs (r # rhs))" for x
      using merge_loop_key_of [OF that] l r 1 by auto
    with 1 step.IH(1) tails step.prems show ?thesis by (simp only: merge_loop_less) (simp add: ordered_def)
  next
    case 2
    have "key l < key x" if "x \<in> set (merge_loop cmp_key join lhs rhs)" for x
      using merge_loop_key_of [OF that] l r 2 by auto
    moreover have "key n = key l" if "join l r = Some n" for n using join_key [OF 2 that] .
    ultimately show ?thesis using 2 step.IH(3) tails
      by (simp only: merge_loop_equal) (auto simp: ordered_def split: option.split)
  next
    case 3
    have "key r < key x" if "x \<in> set (merge_loop cmp_key join (l # lhs) rhs)" for x
      using merge_loop_key_of [OF that] l r 3 by auto
    with 3 step.IH(2) tails step.prems show ?thesis by (simp only: merge_loop_greater) (simp add: ordered_def)
  qed
qed (simp_all add: merge_loop_Nil2)

text \<open>The two shortcuts for disjoint ranges keep value, keys and order.\<close>

lemma merge_sorted_value: "value_of (merge_sorted_vecs cmp_key join lhs rhs) = times (value_of lhs) (value_of rhs)"
  by (auto simp: merge_sorted_vecs_def value_append merge_loop_value times_one times_comm)

lemma merge_sorted_keys: "key ` set (merge_sorted_vecs cmp_key join lhs rhs) \<subseteq> key ` set lhs \<union> key ` set rhs"
  using merge_loop_keys [of lhs rhs] by (auto simp: merge_sorted_vecs_def)

lemma ordered_append:
  assumes "ordered xs" "ordered ys" "xs \<noteq> []" "ys \<noteq> []" "key (last xs) < key (hd ys)"
  shows "ordered (xs @ ys)"
proof -
  have "key x \<le> key (last xs)" if "x \<in> set xs" for x
    using that assms(1,3) by (induction xs) (auto simp: ordered_def intro: less_imp_le)
  moreover have "key (hd ys) \<le> key y" if "y \<in> set ys" for y
    using that assms(2,4) by (cases ys) (auto simp: ordered_def intro: less_imp_le)
  ultimately show ?thesis using assms by (fastforce simp: ordered_def sorted_wrt_append)
qed

lemma merge_sorted_ordered: "ordered lhs \<Longrightarrow> ordered rhs \<Longrightarrow> ordered (merge_sorted_vecs cmp_key join lhs rhs)"
  using merge_loop_ordered [of lhs rhs] ordered_append [of lhs rhs] ordered_append [of rhs lhs]
  by (auto simp: merge_sorted_vecs_def cmp_nat_def split: if_splits)

end

interpretation bool_merge: sorted_merge "\<lambda>i :: nat. i" "\<lambda>_ _. None" "(\<noteq>)" False w for w :: "nat \<Rightarrow> bool"
  by unfold_locales auto

definition join_terms :: "nat \<times> 'r::comm_ring_1 \<Rightarrow> nat \<times> 'r \<Rightarrow> (nat \<times> 'r) option" where
  "join_terms l r = (if snd l + snd r = 0 then None else Some (fst l, snd l + snd r))"

interpretation term_merge: sorted_merge fst join_terms "(+)" 0 "\<lambda>(i, c). c * z i" for z :: "nat \<Rightarrow> 'r::comm_ring_1"
  by unfold_locales
    (auto simp: join_terms_def algebra_simps split: if_splits, metis add.commute add_eq_0_iff distrib_right mult_zero_left)

section \<open>Values of symbolic witnesses\<close>

text \<open>The value of a Boolean expression under an assignment of the Boolean witnesses, and of an integer
  expression under an assignment of the integer witnesses.\<close>

definition bl_eval :: "(nat \<Rightarrow> bool) \<Rightarrow> bool_linear_combination \<Rightarrow> bool" where
  "bl_eval w b = (bl_constant b \<noteq> foldr (\<lambda>i v. w i \<noteq> v) (bl_witnesses b) False)"

definition lc_eval :: "(nat \<Rightarrow> 'r::comm_ring_1) \<Rightarrow> 'r linear_combination \<Rightarrow> 'r" where
  "lc_eval z l = lc_constant l + foldr (\<lambda>t v. (case t of (i, c) \<Rightarrow> c * z i) + v) (lc_witnesses l) 0"

definition bl_wf :: "nat \<Rightarrow> bool_linear_combination \<Rightarrow> bool" where
  "bl_wf n b \<longleftrightarrow> sorted_wrt (<) (bl_witnesses b) \<and> (\<forall>i\<in>set (bl_witnesses b). i < n)"

definition lc_wf :: "nat \<Rightarrow> 'r linear_combination \<Rightarrow> bool" where
  "lc_wf n l \<longleftrightarrow> sorted_wrt (<) (map fst (lc_witnesses l)) \<and> (\<forall>(i, c)\<in>set (lc_witnesses l). i < n)"

lemma bl_value: "bool_merge.value_of w xs = foldr (\<lambda>i v. w i \<noteq> v) xs False"
  by (rule bool_merge.value_of_def)

lemma lc_value: "term_merge.value_of z xs = foldr (\<lambda>t v. (case t of (i, c) \<Rightarrow> c * z i) + v) xs 0"
  by (rule term_merge.value_of_def)

lemma bl_eval_from [simp]: "bl_eval w (bl_from b) = b"
  by (simp add: bl_eval_def bl_from_def)

lemma bl_eval_witness [simp]: "bl_eval w (bl_witness i) = w i"
  by (simp add: bl_eval_def bl_witness_def)

lemma bl_eval_xor [simp]: "bl_eval w (bl_xor x y) = (bl_eval w x \<noteq> bl_eval w y)"
  unfolding bl_eval_def bl_xor_def bl_value [symmetric] bool_linear_combination.simps bool_merge.merge_sorted_value by blast

lemma lc_add_merge:
  "lc_add x y = \<lparr>lc_constant = lc_constant x + lc_constant y,
     lc_witnesses = merge_sorted_vecs (\<lambda>l r. cmp_nat (fst l) (fst r)) join_terms (lc_witnesses x) (lc_witnesses y)\<rparr>"
proof -
  have "(\<lambda>(wit_idx :: nat, lhs_coeff :: 'a) (_, rhs_coeff). let coeff = lhs_coeff + rhs_coeff in if coeff = 0 then None else Some (wit_idx, coeff)) = join_terms"
    by (auto simp: join_terms_def fun_eq_iff Let_def)
  moreover have "(\<lambda>(lhs_idx, _ :: 'a) (rhs_idx, _ :: 'a). cmp_nat lhs_idx rhs_idx) = (\<lambda>l r. cmp_nat (fst l) (fst r))"
    by (simp add: case_prod_unfold)
  ultimately show ?thesis by (simp add: lc_add_def)
qed

lemma lc_eval_from [simp]: "lc_eval z (lc_from c) = c"
  by (simp add: lc_eval_def lc_from_def)

lemma lc_eval_zero [simp]: "lc_eval z lc_zero = 0"
  by (simp add: lc_zero_def)

lemma lc_eval_witness [simp]: "lc_eval z (lc_witness i) = z i"
  by (simp add: lc_eval_def lc_witness_def)

lemma lc_eval_add [simp]: "lc_eval z (lc_add x y) = lc_eval z x + lc_eval z y"
  unfolding lc_eval_def lc_add_merge lc_value [symmetric] linear_combination.simps term_merge.merge_sorted_value
  by (simp only: ac_simps)

lemma lc_eval_neg [simp]: "lc_eval z (lc_neg x) = - lc_eval z x"
proof -
  have "term_merge.value_of z (map (\<lambda>(i, c). (i, - c)) xs) = - term_merge.value_of z xs" for xs
    by (induction xs) auto
  then show ?thesis by (simp add: lc_eval_def lc_neg_def lc_value [symmetric])
qed

lemma lc_eval_sub [simp]: "lc_eval z (lc_sub x y) = lc_eval z x - lc_eval z y"
  by (simp add: lc_sub_def)

lemma lc_eval_mul [simp]: "lc_eval z (lc_mul x c) = lc_eval z x * c"
proof -
  have "term_merge.value_of z (map (\<lambda>(i, d). (i, d * c)) xs) = term_merge.value_of z xs * c" for xs
    by (induction xs) (auto simp: algebra_simps)
  then show ?thesis by (simp add: lc_eval_def lc_mul_def lc_value [symmetric] distrib_right lc_zero_def lc_from_def)
qed

text \<open>Every operation keeps the order of the indices.\<close>

lemma bl_wf_mono: "bl_wf n b \<Longrightarrow> n \<le> n' \<Longrightarrow> bl_wf n' b"
  by (auto simp: bl_wf_def)

lemma lc_wf_mono: "lc_wf n l \<Longrightarrow> n \<le> n' \<Longrightarrow> lc_wf n' l"
  by (fastforce simp: lc_wf_def)

lemma bl_wf_from [simp]: "bl_wf n (bl_from b)"
  by (simp add: bl_wf_def bl_from_def)

lemma bl_wf_witness [simp]: "bl_wf n (bl_witness i) \<longleftrightarrow> i < n"
  by (simp add: bl_wf_def bl_witness_def)

lemma bl_wf_xor: "bl_wf n x \<Longrightarrow> bl_wf n y \<Longrightarrow> bl_wf n (bl_xor x y)"
  using bool_merge.merge_sorted_ordered [of "bl_witnesses x" "bl_witnesses y"]
    bool_merge.merge_sorted_keys [of "bl_witnesses x" "bl_witnesses y"]
  by (auto simp: bl_wf_def bl_xor_def bool_merge.ordered_def)

lemma lc_wf_from [simp]: "lc_wf n (lc_from c)" "lc_wf n lc_zero"
  by (simp_all add: lc_wf_def lc_from_def lc_zero_def)

lemma lc_wf_witness [simp]: "lc_wf n (lc_witness i) \<longleftrightarrow> i < n"
  by (simp add: lc_wf_def lc_witness_def)

lemma lc_wf_keys: "lc_wf n l \<longleftrightarrow> term_merge.ordered (lc_witnesses l) \<and> (\<forall>k\<in>fst ` set (lc_witnesses l). k < n)"
  by (auto simp: lc_wf_def term_merge.ordered_def sorted_wrt_map)

lemma lc_wf_add: "lc_wf n x \<Longrightarrow> lc_wf n y \<Longrightarrow> lc_wf n (lc_add x y)"
  using term_merge.merge_sorted_ordered [of "lc_witnesses x" "lc_witnesses y"]
    term_merge.merge_sorted_keys [of "lc_witnesses x" "lc_witnesses y"]
  unfolding lc_wf_keys by (fastforce simp: lc_add_merge)

lemma map_fst_map: "map fst (map (\<lambda>(i, c). (f i, g c)) xs) = map f (map fst xs)"
  by (induction xs) auto

lemma lc_wf_map: "lc_wf n x \<Longrightarrow> lc_witnesses y = map (\<lambda>(i, c). (i, g c)) (lc_witnesses x) \<Longrightarrow> lc_wf n y"
  using map_fst_map [of "\<lambda>i. i" g "lc_witnesses x"] by (auto simp: lc_wf_def simp del: map_map)

lemma lc_wf_neg: "lc_wf n x \<Longrightarrow> lc_wf n (lc_neg x)"
  by (rule lc_wf_map [of n x _ uminus]) (simp_all add: lc_neg_def)

lemma lc_wf_sub: "lc_wf n x \<Longrightarrow> lc_wf n y \<Longrightarrow> lc_wf n (lc_sub x y)"
  by (simp add: lc_sub_def lc_wf_add lc_wf_neg)

lemma lc_wf_mul: "lc_wf n x \<Longrightarrow> lc_wf n (lc_mul x c)"
  by (cases "c = 0") (auto simp: lc_mul_def intro: lc_wf_map [of n x _ "\<lambda>d. d * c"])

section \<open>A run of the generator\<close>

text \<open>The states a circuit program can reach: the generator, the Boolean and the integer expressions the
  program holds.  Each step is one call of an operation on expressions it holds.\<close>

type_synonym 'r cg_state = "'r constraint_generator \<times> bool_linear_combination set \<times> 'r linear_combination set"

inductive cg_run :: "nat \<Rightarrow> 'r::comm_ring_1 cg_state \<Rightarrow> bool" for inputs :: nat where
  start: "inputs < 2 ^ 64 \<Longrightarrow> cg_run inputs (cg_new inputs, bl_witness ` {..<inputs}, {})"
| literal: "cg_run inputs (g, B, Z) \<Longrightarrow> cg_run inputs (g, insert (bl_from b) B, insert (lc_from c) Z)"
| xor: "cg_run inputs (g, B, Z) \<Longrightarrow> x \<in> B \<Longrightarrow> y \<in> B \<Longrightarrow> cg_run inputs (g, insert (bl_xor x y) B, Z)"
| hint: "cg_run inputs (g, B, Z) \<Longrightarrow> cg_hint N M g = Some (bs, g') \<Longrightarrow> cg_run inputs (g', set bs \<union> B, Z)"
| bitz: "cg_run inputs (g, B, Z) \<Longrightarrow> x \<in> B \<Longrightarrow> cg_bitz x g = (z, g') \<Longrightarrow> cg_run inputs (g', B, insert z Z)"
| bitz_unsigned: "cg_run inputs (g, B, Z) \<Longrightarrow> set bs \<subseteq> B \<Longrightarrow> cg_bitz_unsigned LOW bs g = Some ((full, low), g') \<Longrightarrow>
    cg_run inputs (g', B, {full, low} \<union> Z)"
| arith: "cg_run inputs (g, B, Z) \<Longrightarrow> x \<in> Z \<Longrightarrow> y \<in> Z \<Longrightarrow>
    cg_run inputs (g, B, {lc_add x y, lc_sub x y, lc_neg x, lc_mul x c} \<union> Z)"
| assert_constraint: "cg_run inputs (g, B, Z) \<Longrightarrow> a \<in> Z \<Longrightarrow> b \<in> Z \<Longrightarrow> c \<in> Z \<Longrightarrow> cg_run inputs (cg_assert_r1c a b c g, B, Z)"

definition cg_wf :: "'r constraint_generator \<Rightarrow> bool" where
  "cg_wf g \<longleftrightarrow> cg_input_witnesses g \<le> cg_next_boolean_witness g \<and> cg_next_boolean_witness g < 2 ^ 64 \<and>
     (\<forall>b\<in>set (cg_m_rows g). bl_wf (cg_next_boolean_witness g) b) \<and>
     (\<forall>(a, b, c)\<in>set (cg_r1cs g). lc_wf (length (cg_m_rows g)) a \<and> lc_wf (length (cg_m_rows g)) b \<and> lc_wf (length (cg_m_rows g)) c)"

lemma record_bits_spec:
  "record_bits k bs g = (ws, g') \<Longrightarrow>
   g' = g\<lparr>cg_m_rows := cg_m_rows g @ bs\<rparr> \<and> ws = map (\<lambda>i. (length (cg_m_rows g) + i, (1 + 1) ^ (k + i))) [0..<length bs]"
proof (induction bs arbitrary: k g ws g')
  case (Cons b bs)
  obtain ws1 where r: "record_bits (Suc k) bs (g\<lparr>cg_m_rows := cg_m_rows g @ [b]\<rparr>) = (ws1, g')"
    and ws: "ws = (length (cg_m_rows g), (1 + 1) ^ k) # ws1"
    using Cons.prems by (auto simp: record_bitz_def split: prod.splits)
  from Cons.IH [OF r] ws show ?case
    by (simp add: upt_conv_Cons map_Suc_upt [symmetric] comp_def del: upt_Suc)
qed simp

lemma lc_wf_range:
  "lc_witnesses l = map (\<lambda>i. (m + i, h i)) [0..<k] \<Longrightarrow> m + k \<le> n \<Longrightarrow> lc_wf n l"
  by (auto simp: lc_wf_def comp_def sorted_wrt_map intro: sorted_wrt_mono_rel [OF _ sorted_wrt_upt])

lemma bitz_unsigned_spec:
  assumes "cg_bitz_unsigned LOW bs g = Some ((full, low), g')"
  shows "LOW \<le> length bs \<and> g' = g\<lparr>cg_m_rows := cg_m_rows g @ bs\<rparr> \<and> lc_constant full = 0 \<and> lc_constant low = 0 \<and>
    lc_witnesses full = map (\<lambda>i. (length (cg_m_rows g) + i, 2 ^ i)) [0..<length bs] \<and>
    lc_witnesses low = map (\<lambda>i. (length (cg_m_rows g) + i, 2 ^ i)) [0..<LOW]"
proof -
  obtain ws where r: "record_bits 0 bs g = (ws, g')" and LOW: "LOW \<le> length bs"
    and lows: "full = \<lparr>lc_constant = 0, lc_witnesses = ws\<rparr>" "low = \<lparr>lc_constant = 0, lc_witnesses = take LOW ws\<rparr>"
    using assms by (auto simp: cg_bitz_unsigned_def split: if_splits prod.splits)
  from record_bits_spec [OF r] LOW lows show ?thesis by (simp add: take_map)
qed

lemma cg_wf_extend:
  assumes "cg_wf g" "\<forall>b\<in>set bs. bl_wf (cg_next_boolean_witness g) b"
  shows "cg_wf (g\<lparr>cg_m_rows := cg_m_rows g @ bs\<rparr>)"
proof -
  have "lc_wf (length (cg_m_rows g) + length bs) l" if "lc_wf (length (cg_m_rows g)) l" for l :: "'a linear_combination"
    using that by (rule lc_wf_mono) simp
  with assms show ?thesis by (auto simp: cg_wf_def split: prod.splits)
qed

lemma cg_run_invariant:
  "cg_run inputs s \<Longrightarrow> (case s of (g, B, Z) \<Rightarrow> cg_wf g \<and> cg_input_witnesses g = inputs \<and>
     (\<forall>b\<in>B. bl_wf (cg_next_boolean_witness g) b) \<and> (\<forall>z\<in>Z. lc_wf (length (cg_m_rows g)) z))"
proof (induction rule: cg_run.induct)
  case start
  then show ?case by (auto simp: cg_wf_def cg_new_def)
next
  case (hint g B Z N M bs g')
  let ?n = "cg_next_boolean_witness g"
  have h: "g' = g\<lparr>cg_next_boolean_witness := ?n + N\<rparr>" "bs = map (\<lambda>i. bl_witness (?n + i)) [0..<N]" "?n + N < 2 ^ 64"
    using hint.hyps(2) by (auto simp: cg_hint_def Let_def split: if_splits)
  have "bl_wf (?n + N) b" if "bl_wf ?n b" for b using that by (rule bl_wf_mono) simp
  with hint.IH h show ?case by (auto simp: cg_wf_def)
next
  case (bitz g B Z x z g')
  have h: "g' = g\<lparr>cg_m_rows := cg_m_rows g @ [x]\<rparr>" "z = lc_witness (length (cg_m_rows g))"
    using bitz.hyps(3) by (auto simp: cg_bitz_def record_bitz_def)
  have "lc_wf (Suc (length (cg_m_rows g))) l" if "lc_wf (length (cg_m_rows g)) l" for l :: "'a linear_combination"
    using that by (rule lc_wf_mono) simp
  moreover have "cg_wf g'" unfolding h(1) using bitz.IH bitz.hyps(2) by (intro cg_wf_extend) auto
  ultimately show ?case using bitz.IH h by simp
next
  case (bitz_unsigned g B Z bs LOW full low g')
  note h = bitz_unsigned_spec [OF bitz_unsigned.hyps(3)]
  have "lc_wf (length (cg_m_rows g) + length bs) l" if "lc_wf (length (cg_m_rows g)) l" for l :: "'a linear_combination"
    using that by (rule lc_wf_mono) simp
  moreover have "lc_wf (length (cg_m_rows g) + length bs) full" "lc_wf (length (cg_m_rows g) + length bs) low"
    using h lc_wf_range [of full "length (cg_m_rows g)" "\<lambda>i. 2 ^ i" "length bs"]
      lc_wf_range [of low "length (cg_m_rows g)" "\<lambda>i. 2 ^ i" LOW] by simp_all
  moreover have "cg_wf (g\<lparr>cg_m_rows := cg_m_rows g @ bs\<rparr>)"
    using bitz_unsigned.IH bitz_unsigned.hyps(2) by (intro cg_wf_extend) auto
  ultimately show ?case using bitz_unsigned.IH h by simp
next
  case (assert_constraint g B Z a b c)
  then show ?case by (auto simp: cg_wf_def cg_assert_r1c_def)
qed (auto simp: bl_wf_xor lc_wf_add lc_wf_sub lc_wf_neg lc_wf_mul)

section \<open>The matrices of a run\<close>

lemma check_columns_sorted:
  "sorted_wrt (<) cs \<Longrightarrow> \<forall>c\<in>set cs. c < cols \<Longrightarrow> (\<forall>p c. prev = Some p \<longrightarrow> c \<in> set cs \<longrightarrow> p < c) \<Longrightarrow> check_columns cols r prev cs = Inr ()"
  by (induction cs arbitrary: prev) (auto split: option.split)

lemma check_columns_iff:
  "check_columns cols r prev cs = Inr () \<longleftrightarrow> sorted_wrt (<) cs \<and> (\<forall>c\<in>set cs. c < cols) \<and> (\<forall>p. prev = Some p \<longrightarrow> (\<forall>c\<in>set cs. p < c))"
proof (induction cs arbitrary: prev)
  case (Cons c cs)
  then show ?case by (cases prev) (auto simp: not_le)
qed simp

lemma check_rows_iff:
  "check_rows cols r rs = Inr () \<longleftrightarrow> (\<forall>cs\<in>set rs. sorted_wrt (<) cs \<and> (\<forall>c\<in>set cs. c < cols))"
proof (induction rs arbitrary: r)
  case (Cons cs rs)
  then show ?case
    using check_columns_iff [of cols r None cs] by (cases "check_columns cols r None cs") auto
qed simp

lemma into_sparse_row_columns:
  assumes "lc_wf n l"
  shows "sorted_wrt (<) (map fst (sr_entries (into_sparse_row l))) \<and> (\<forall>c\<in>set (map fst (sr_entries (into_sparse_row l))). c < n + 1)"
proof -
  define ks where "ks = map fst (lc_witnesses l)"
  have k: "sorted_wrt (<) ks" "\<forall>k\<in>set ks. k < n" using assms by (auto simp: ks_def lc_wf_def)
  have "map fst (map (\<lambda>(column, coefficient). (column + 1, coefficient)) xs) = map Suc (map fst xs)" for xs :: "(nat \<times> 'a) list"
    by (induction xs) auto
  then have "map fst (sr_entries (into_sparse_row l)) = (if lc_constant l \<noteq> 0 then 0 # map Suc ks else map Suc ks)"
    by (simp add: into_sparse_row_def Let_def ks_def del: map_map)
  with k show ?thesis by (auto simp: sorted_wrt_map)
qed

lemma bool_sparse_row_columns:
  "bl_wf n b \<Longrightarrow> sorted_wrt (<) (sbr_positions (bool_sparse_row b)) \<and> (\<forall>c\<in>set (sbr_positions (bool_sparse_row b)). c < n + 1)"
  by (auto simp: bool_sparse_row_def Let_def bl_wf_def sorted_wrt_map)

lemma into_matrices_sizes:
  "sm_row_count (cm_a (into_matrices g)) = length (cg_r1cs g)" "validate_shape (into_matrices g) = Inr ()"
  by (simp_all add: into_matrices_def Let_def sm_row_count_def sbm_row_count_def validate_shape_def)

lemma into_matrices_rows:
  assumes "cg_wf g"
  shows "sbm_try_from_rows (sbm_columns (cm_m (into_matrices g))) (map sbr_positions (sbm_rows (cm_m (into_matrices g)))) = Inr (cm_m (into_matrices g))"
    "sm_try_from_rows (sm_columns (cm_a (into_matrices g))) (map sr_entries (sm_rows (cm_a (into_matrices g)))) = Inr (cm_a (into_matrices g))"
    "sm_try_from_rows (sm_columns (cm_b (into_matrices g))) (map sr_entries (sm_rows (cm_b (into_matrices g)))) = Inr (cm_b (into_matrices g))"
    "sm_try_from_rows (sm_columns (cm_c (into_matrices g))) (map sr_entries (sm_rows (cm_c (into_matrices g)))) = Inr (cm_c (into_matrices g))"
proof -
  have same: "map (\<lambda>entries. \<lparr>sr_entries = entries\<rparr>) (map sr_entries rs) = (rs :: 'a sparse_row list)" for rs
    unfolding map_map by (rule map_idI) simp
  have rebuild: "sm_try_from_rows cols (map sr_entries rs) = Inr \<lparr>sm_rows = rs, sm_columns = cols\<rparr>"
    if "\<forall>r\<in>set rs. sorted_wrt (<) (map fst (sr_entries r)) \<and> (\<forall>c\<in>set (map fst (sr_entries r)). c < cols)"
    for rs :: "'a sparse_row list" and cols
  proof -
    have "check_rows cols 0 (map (map fst) (map sr_entries rs)) = Inr ()" using that by (simp add: check_rows_iff)
    then show ?thesis by (simp add: sm_try_from_rows_def same del: map_map)
  qed
  have l: "lc_wf (length (cg_m_rows g)) a \<and> lc_wf (length (cg_m_rows g)) b \<and> lc_wf (length (cg_m_rows g)) c"
    if "(a, b, c) \<in> set (cg_r1cs g)" for a b c using assms that by (auto simp: cg_wf_def)
  note rows = into_sparse_row_columns [of "length (cg_m_rows g)"]
  show "sm_try_from_rows (sm_columns (cm_a (into_matrices g))) (map sr_entries (sm_rows (cm_a (into_matrices g)))) = Inr (cm_a (into_matrices g))"
    by (subst rebuild) (use rows l in \<open>force simp: into_matrices_def Let_def\<close>)+
  show "sm_try_from_rows (sm_columns (cm_b (into_matrices g))) (map sr_entries (sm_rows (cm_b (into_matrices g)))) = Inr (cm_b (into_matrices g))"
    by (subst rebuild) (use rows l in \<open>force simp: into_matrices_def Let_def\<close>)+
  show "sm_try_from_rows (sm_columns (cm_c (into_matrices g))) (map sr_entries (sm_rows (cm_c (into_matrices g)))) = Inr (cm_c (into_matrices g))"
    by (subst rebuild) (use rows l in \<open>force simp: into_matrices_def Let_def\<close>)+
  let ?m = "cm_m (into_matrices g)"
  have "check_rows (sbm_columns ?m) 0 (map sbr_positions (sbm_rows ?m)) = Inr ()"
    using assms bool_sparse_row_columns [of "cg_next_boolean_witness g"]
    by (auto simp: check_rows_iff into_matrices_def Let_def cg_wf_def)
  moreover have "map (\<lambda>positions. \<lparr>sbr_positions = positions\<rparr>) (map sbr_positions rs) = rs" for rs
    unfolding map_map by (rule map_idI) simp
  ultimately show "sbm_try_from_rows (sbm_columns ?m) (map sbr_positions (sbm_rows ?m)) = Inr ?m"
    by (simp add: sbm_try_from_rows_def del: map_map)
qed

text \<open>The values of the rows under a packed witness.\<close>

lemma bool_row_positions:
  assumes "pw_holds w bs"
  shows "\<forall>i\<in>set ws. i < length bs \<Longrightarrow> bool_row_value w (map (\<lambda>p. p + 1) ws) v = Some (v \<noteq> foldr (\<lambda>i v. bs ! i \<noteq> v) ws False)"
  by (induction ws arbitrary: v) (auto simp: pw_holds_bit [OF assms])

lemma bool_row_eval:
  assumes "pw_holds w bs" "bl_wf (length bs) b"
  shows "bool_row_value w (sbr_positions (bool_sparse_row b)) False = Some (bl_eval ((!) bs) b)"
  using bool_row_positions [OF assms(1), of "bl_witnesses b"] assms(2)
  by (simp add: bool_sparse_row_def Let_def bl_eval_def bl_wf_def)

lemma integer_row_entries:
  "\<forall>(i, c)\<in>set ws. i < length zs \<Longrightarrow>
   those (map (\<lambda>(column, coefficient). if column < length (z0 # zs) then Some ((z0 # zs) ! column * coefficient) else None)
     (map (\<lambda>(column, coefficient). (column + 1, coefficient)) ws))
   = Some (map (\<lambda>(i, c). zs ! i * c) ws)"
  by (induction ws) auto

lemma integer_row_eval:
  assumes "lc_wf (length zs) l"
  shows "evaluate_integer_row (into_sparse_row l) (1 # zs) = Some (lc_eval ((!) zs) l)"
proof -
  have "sum_list (map (\<lambda>(i, c). zs ! i * c) ws) = foldr (\<lambda>t v. (case t of (i, c) \<Rightarrow> c * zs ! i) + v) ws 0" for ws
    by (induction ws) (auto simp: mult.commute)
  moreover have "\<forall>(i, c)\<in>set (lc_witnesses l). i < length zs" using assms by (simp add: lc_wf_def)
  ultimately show ?thesis
    using integer_row_entries [of "lc_witnesses l" zs 1]
    by (simp add: evaluate_integer_row_def into_sparse_row_def Let_def lc_eval_def del: map_map)
qed

definition constraint_holds :: "(nat \<Rightarrow> 'r::comm_ring_1) \<Rightarrow> 'r linear_combination \<times> 'r linear_combination \<times> 'r linear_combination \<Rightarrow> bool" where
  "constraint_holds z t = (case t of (a, b, c) \<Rightarrow> lc_eval z a * lc_eval z b = lc_eval z c)"

definition m_image :: "bool list \<Rightarrow> 'r::comm_ring_1 constraint_generator \<Rightarrow> 'r list" where
  "m_image bs g = map (\<lambda>b. of_bool (bl_eval ((!) bs) b)) (cg_m_rows g)"

lemma integer_witness_image:
  assumes "cg_wf g" "pw_holds w bs" "length bs = cg_next_boolean_witness g"
  shows "integer_witness (into_matrices g) w = Some (Inr (1 # m_image bs g))"
proof -
  have "those (map (\<lambda>r. bool_row_value w (sbr_positions r) False) (map bool_sparse_row (cg_m_rows g)))
      = Some (map (bl_eval ((!) bs)) (cg_m_rows g))"
    using assms(1,3) bool_row_eval [OF assms(2)] unfolding map_map
    by (intro those_Some_map) (simp add: cg_wf_def)
  then show ?thesis
    using pw_holds_len [OF assms(2)] assms(3)
    by (simp add: integer_witness_def into_matrices_def Let_def m_image_def del: map_map) (simp add: comp_def)
qed

lemma check_constraints_find:
  "set rs \<subseteq> {..<length (cg_r1cs g)} \<Longrightarrow> cg_wf g \<Longrightarrow> length zs = length (cg_m_rows g) \<Longrightarrow>
   check_constraints (into_matrices g) (1 # zs) rs = Some (case find (\<lambda>r. \<not> constraint_holds ((!) zs) (cg_r1cs g ! r)) rs of
     None \<Rightarrow> Inr () | Some r \<Rightarrow> Inl (Constraint r))"
proof (induction rs)
  case (Cons r rs)
  obtain a b c where abc: "cg_r1cs g ! r = (a, b, c)" by (cases "cg_r1cs g ! r") auto
  have "(a, b, c) \<in> set (cg_r1cs g)" using Cons.prems(1) abc by (metis insert_subset lessThan_iff list.simps(15) nth_mem)
  then have "lc_wf (length zs) a" "lc_wf (length zs) b" "lc_wf (length zs) c" using Cons.prems(2,3) by (auto simp: cg_wf_def)
  then have "evaluate_integer_row (sm_rows (cm_a (into_matrices g)) ! r) (1 # zs) = Some (lc_eval ((!) zs) a)"
    "evaluate_integer_row (sm_rows (cm_b (into_matrices g)) ! r) (1 # zs) = Some (lc_eval ((!) zs) b)"
    "evaluate_integer_row (sm_rows (cm_c (into_matrices g)) ! r) (1 # zs) = Some (lc_eval ((!) zs) c)"
    using Cons.prems(1) abc by (simp_all add: into_matrices_def Let_def integer_row_eval)
  with Cons abc show ?case by (simp add: constraint_holds_def)
qed simp

lemma check_witness_find:
  assumes "cg_wf g" "pw_holds w bs" "length bs = cg_next_boolean_witness g"
  shows "check_witness (into_matrices g) w = Some (case find (\<lambda>r. \<not> constraint_holds ((!) (m_image bs g)) (cg_r1cs g ! r)) [0..<length (cg_r1cs g)] of
     None \<Rightarrow> Inr () | Some r \<Rightarrow> Inl (Constraint r))"
proof -
  have "length (m_image bs g) = length (cg_m_rows g)" by (simp add: m_image_def)
  moreover have "set [0..<length (cg_r1cs g)] \<subseteq> {..<length (cg_r1cs g)}" by auto
  ultimately have "check_constraints (into_matrices g) (1 # m_image bs g) [0..<length (cg_r1cs g)]
      = Some (case find (\<lambda>r. \<not> constraint_holds ((!) (m_image bs g)) (cg_r1cs g ! r)) [0..<length (cg_r1cs g)] of
         None \<Rightarrow> Inr () | Some r \<Rightarrow> Inl (Constraint r))"
    by (intro check_constraints_find assms(1))
  then
  show ?thesis by (simp add: check_witness_def into_matrices_sizes integer_witness_image [OF assms])
qed

section \<open>Properties\<close>

text \<open>C14: The matrices of a generated circuit are well typed.  Whatever operations a circuit program
  performs on the generator, the four matrices it finishes with pass the shape validation, and every
  row of each of them has strictly increasing column indices within the matrix: the validating
  constructors accept the rows and rebuild the very same matrices.\<close>

theorem generated_matrices_well_formed:
  assumes "cg_run inputs (g, B, Z)"
  shows "validate_shape (into_matrices g) = Inr () \<and>
    sbm_try_from_rows (sbm_columns (cm_m (into_matrices g))) (map sbr_positions (sbm_rows (cm_m (into_matrices g)))) = Inr (cm_m (into_matrices g)) \<and>
    sm_try_from_rows (sm_columns (cm_a (into_matrices g))) (map sr_entries (sm_rows (cm_a (into_matrices g)))) = Inr (cm_a (into_matrices g)) \<and>
    sm_try_from_rows (sm_columns (cm_b (into_matrices g))) (map sr_entries (sm_rows (cm_b (into_matrices g)))) = Inr (cm_b (into_matrices g)) \<and>
    sm_try_from_rows (sm_columns (cm_c (into_matrices g))) (map sr_entries (sm_rows (cm_c (into_matrices g)))) = Inr (cm_c (into_matrices g))"
proof -
  have "cg_wf g" using cg_run_invariant [OF assms] by simp
  from into_matrices_rows [OF this] show ?thesis by (simp add: into_matrices_sizes)
qed

lemma run_example:
  "cg_run 2 (cg_assert_r1c (lc_witness 0) (lc_witness 0) (lc_witness 0)
     \<lparr>cg_input_witnesses = 2, cg_next_boolean_witness = 2, cg_m_rows = [bl_xor (bl_witness 0) (bl_witness 1)],
      cg_r1cs = ([] :: (int linear_combination \<times> int linear_combination \<times> int linear_combination) list)\<rparr>,
     insert (bl_xor (bl_witness 0) (bl_witness 1)) (bl_witness ` {..<2}), {lc_witness 0})"
proof -
  have 1: "cg_run 2 (cg_new 2, bl_witness ` {..<2}, {} :: int linear_combination set)" by (rule cg_run.start) simp
  have 2: "cg_run 2 (cg_new 2, insert (bl_xor (bl_witness 0) (bl_witness 1)) (bl_witness ` {..<2}), {} :: int linear_combination set)"
    by (rule cg_run.xor [OF 1]) simp_all
  have "cg_bitz (bl_xor (bl_witness 0) (bl_witness 1)) (cg_new 2) = (lc_witness 0 :: int linear_combination,
      \<lparr>cg_input_witnesses = 2, cg_next_boolean_witness = 2, cg_m_rows = [bl_xor (bl_witness 0) (bl_witness 1)], cg_r1cs = []\<rparr>)"
    by (simp add: cg_bitz_def record_bitz_def cg_new_def)
  from cg_run.bitz [OF 2 _ this] show ?thesis by (intro cg_run.assert_constraint) simp_all
qed

theorem generated_matrices_well_formed_witness:
  "validate_shape (into_matrices (cg_assert_r1c (lc_witness 0) (lc_witness 0) (lc_witness 0)
     \<lparr>cg_input_witnesses = 2, cg_next_boolean_witness = 2, cg_m_rows = [bl_xor (bl_witness 0) (bl_witness 1)],
      cg_r1cs = ([] :: (int linear_combination \<times> int linear_combination \<times> int linear_combination) list)\<rparr>)) = Inr ()"
  using conjunct1 [OF generated_matrices_well_formed [OF run_example]] .

text \<open>C13: Checking a packed witness against the generated matrices decides exactly the constraints the
  circuit asserted, evaluated symbolically: the answer is Ok when every one of them holds under the
  witness, and otherwise names the first that fails.  It never panics on a witness of the right
  length, and reports any other length as an error.\<close>

theorem check_witness_decides_constraints:
  assumes "cg_run inputs (g, B, Z)" "pw_holds w bs"
  shows "check_witness (into_matrices g) w =
    Some (if length bs \<noteq> cg_next_boolean_witness g then Inl (WitnessLength (cg_next_boolean_witness g) (length bs))
      else case find (\<lambda>r. \<not> constraint_holds ((!) (m_image bs g)) (cg_r1cs g ! r)) [0..<length (cg_r1cs g)] of
          None \<Rightarrow> Inr () | Some r \<Rightarrow> Inl (Constraint r))"
proof (cases "length bs = cg_next_boolean_witness g")
  case True
  have "cg_wf g" using cg_run_invariant [OF assms(1)] by simp
  from check_witness_find [OF this assms(2) True] True show ?thesis by simp
next
  case False
  have "sbm_columns (cm_m (into_matrices g)) - 1 = cg_next_boolean_witness g" by (simp add: into_matrices_def Let_def)
  with False show ?thesis
    by (simp add: check_witness_def into_matrices_sizes integer_witness_def pw_holds_len [OF assms(2)])
qed

theorem check_witness_decides_constraints_witness:
  "\<exists>w. pw_from_bits [True, True] = Some w \<and> check_witness (into_matrices (cg_assert_r1c (lc_witness 0) (lc_witness 0) (lc_witness 0)
     \<lparr>cg_input_witnesses = 2, cg_next_boolean_witness = 2, cg_m_rows = [bl_xor (bl_witness 0) (bl_witness 1)],
      cg_r1cs = ([] :: (int linear_combination \<times> int linear_combination \<times> int linear_combination) list)\<rparr>)) w = Some (Inr ())"
proof -
  obtain w where w: "pw_from_bits [True, True] = Some w" "pw_holds w [True, True]" using from_bits_holds by blast
  with check_witness_decides_constraints [OF run_example w(2)] show ?thesis
    by (simp add: cg_assert_r1c_def constraint_holds_def m_image_def)
qed

end
