(* ===== verification/Spartan_Matrix.thy ===== *)
theory Spartan_Matrix
  imports Spartan_Sumcheck_Sound Circuit_Products Circuit_Constraints
begin

text \<open>
  The constraint matrices as Spartan prepares them: \<open>crates/spartan/src/matrix.rs\<close>.

  The coefficients are of any type, the field is any type of class \<open>field\<close>.  The SHA-256 crate is the
  parameter \<open>sha256\<close> (the updates of a hasher concatenate), the encoding of a coefficient the parameter
  \<open>encode\<close>.  Columns are kept as the 32-bit words the code stores.  The parallel iterators run over
  disjoint chunks and are modelled as maps over the chunks.  The kernels check every index they read
  or write: out of range it panics, which is \<open>None\<close>.
\<close>

section \<open>Errors and layouts\<close>

datatype spartan_matrix_error =
    InvalidR1csShape
  | InvalidProductLength nat nat
  | InvalidAssignmentLength nat nat
  | InvalidAssignmentConstant
  | InvalidRowPointLength nat nat
  | InvalidColumnPointLength nat nat
  | MatrixDomainTooLarge
  | InvalidModulus
  | InvalidMleOperation

record positions =
  row_starts :: "nat list"
  position_columns :: "u32 list"

fun lay_out_row :: "(nat \<times> 'c) list \<Rightarrow> u32 list \<times> 'c list \<Rightarrow> spartan_matrix_error + u32 list \<times> 'c list" where
  "lay_out_row [] acc = Inr acc"
| "lay_out_row ((column, coefficient) # entries) (columns, vals) =
     (if 2 ^ 32 \<le> column then Inl MatrixDomainTooLarge
      else lay_out_row entries (columns @ [word_of_nat column], vals @ [coefficient]))"

fun lay_out_rows ::
  "'c sparse_row list \<Rightarrow> positions \<times> 'c list \<Rightarrow> spartan_matrix_error + positions \<times> 'c list" where
  "lay_out_rows [] acc = Inr acc"
| "lay_out_rows (r # rs) (self, vals) =
     (case lay_out_row (sr_entries r) (position_columns self, vals) of
        Inl e \<Rightarrow> Inl e
      | Inr (columns, vals) \<Rightarrow>
          lay_out_rows rs (\<lparr>row_starts = row_starts self @ [length columns], position_columns = columns\<rparr>, vals))"

definition positions_new :: "'c sparse_matrix \<Rightarrow> spartan_matrix_error + positions \<times> 'c list" where
  "positions_new matrix = lay_out_rows (sm_rows matrix) (\<lparr>row_starts = [0], position_columns = []\<rparr>, [])"

definition positions_row_count :: "positions \<Rightarrow> nat" where
  "positions_row_count self = length (row_starts self) - 1"

text \<open>The range of positions of a row, as its two ends.\<close>

definition positions_row :: "positions \<Rightarrow> nat \<Rightarrow> nat \<times> nat" where
  "positions_row self r = (row_starts self ! r, row_starts self ! (r + 1))"

definition BIND_CHUNK_COLUMN_VARS :: nat where "BIND_CHUNK_COLUMN_VARS = 16"

record row_span =
  rs_row :: nat
  rs_start :: nat
  rs_end :: nat

record column_chunk_index =
  ci_chunk_len :: nat
  ci_spans :: "row_span list list"

text \<open>The inner loop of \<open>ColumnChunkIndex::new\<close>; \<open>partition_point\<close> is the length of the leading run.\<close>

function chunk_row :: "u32 list \<Rightarrow> nat \<Rightarrow> nat \<Rightarrow> nat \<Rightarrow> nat \<Rightarrow> row_span list list \<Rightarrow> row_span list list option" where
  "chunk_row columns chunk_len r start stop spans =
     (if \<not> start < stop then Some spans
      else if length columns < stop then None
      else let chunk = unat (columns ! start) div chunk_len;
               run = length (takeWhile (\<lambda>column. unat column div chunk_len = chunk) (take (stop - start) (drop start columns)));
               end_run = start + run
           in if length spans \<le> chunk then None
              else chunk_row columns chunk_len r end_run stop
                     (spans[chunk := spans ! chunk @ [\<lparr>rs_row = r, rs_start = start, rs_end = end_run\<rparr>]]))"
  by pat_completeness auto
termination
proof (relation "measure (\<lambda>(columns, chunk_len, r, start, stop, spans). stop - start)", simp)
  fix columns :: "u32 list" and chunk_len r start stop chunk run end_run :: nat and spans :: "row_span list list"
  assume a: "\<not> \<not> start < stop" "\<not> length columns < stop" "chunk = unat (columns ! start) div chunk_len"
    "run = length (takeWhile (\<lambda>column. unat column div chunk_len = chunk) (take (stop - start) (drop start columns)))"
    "end_run = start + run"
  have "take (stop - start) (drop start columns) = columns ! start # take (stop - start - 1) (drop (Suc start) columns)"
    using a(1,2) by (simp add: Cons_nth_drop_Suc [symmetric] take_Cons')
  then have "0 < run" by (simp add: a(3,4))
  then show "((columns, chunk_len, r, end_run, stop,
        spans[chunk := spans ! chunk @ [\<lparr>rs_row = r, rs_start = start, rs_end = end_run\<rparr>]]),
      columns, chunk_len, r, start, stop, spans) \<in> measure (\<lambda>(columns, chunk_len, r, start, stop, spans). stop - start)"
    using a(1,5) by auto
qed

declare chunk_row.simps [simp del]

fun chunk_rows :: "positions \<Rightarrow> nat \<Rightarrow> nat list \<Rightarrow> row_span list list \<Rightarrow> row_span list list option" where
  "chunk_rows positions chunk_len [] spans = Some spans"
| "chunk_rows positions chunk_len (r # rs) spans =
     (let (start, stop) = positions_row positions r
      in case chunk_row (position_columns positions) chunk_len r start stop spans of
           None \<Rightarrow> None
         | Some spans \<Rightarrow> chunk_rows positions chunk_len rs spans)"

definition column_chunk_index_new :: "positions \<Rightarrow> nat \<Rightarrow> nat \<Rightarrow> column_chunk_index option" where
  "column_chunk_index_new positions chunk_len chunk_count =
     map_option (\<lambda>spans. \<lparr>ci_chunk_len = chunk_len, ci_spans = spans\<rparr>)
       (chunk_rows positions chunk_len [0..<positions_row_count positions] (replicate chunk_count []))"

definition checked_next_power_of_two :: "nat \<Rightarrow> nat option" where
  "checked_next_power_of_two n = (if n \<le> 2 ^ 63 then Some (2 ^ bitlen (n - 1)) else None)"

definition padded_num_vars :: "nat \<Rightarrow> spartan_matrix_error + nat" where
  "padded_num_vars logical_len =
     (case checked_next_power_of_two (max logical_len 1) of
        None \<Rightarrow> Inl MatrixDomainTooLarge
      | Some len \<Rightarrow> Inr (bitlen len - 1))"

definition r1cs_num_vars :: "'r constraint_matrices \<Rightarrow> spartan_matrix_error + nat \<times> nat" where
  "r1cs_num_vars matrices =
     (case validate_shape matrices of
        Inl _ \<Rightarrow> Inl InvalidR1csShape
      | Inr _ \<Rightarrow>
          (case padded_num_vars (sm_row_count (cm_a matrices)) of
             Inl e \<Rightarrow> Inl e
           | Inr row_vars \<Rightarrow>
               (case padded_num_vars (sm_columns (cm_a matrices)) of
                  Inl e \<Rightarrow> Inl e
                | Inr column_vars \<Rightarrow> Inr (row_vars, column_vars))))"

record layout =
  ly_positions :: "positions list"
  ly_column_chunks :: "column_chunk_index list"
  ly_row_count :: nat
  ly_column_count :: nat
  ly_num_row_vars :: nat
  ly_num_column_vars :: nat

fun positions_of :: "'c sparse_matrix list \<Rightarrow> spartan_matrix_error + (positions \<times> 'c list) list" where
  "positions_of [] = Inr []"
| "positions_of (matrix # matrices) =
     (case positions_new matrix of
        Inl e \<Rightarrow> Inl e
      | Inr p \<Rightarrow> (case positions_of matrices of Inl e \<Rightarrow> Inl e | Inr ps \<Rightarrow> Inr (p # ps)))"

definition layout_new ::
  "'c constraint_matrices \<Rightarrow> (spartan_matrix_error + sparse_bool_matrix \<times> layout \<times> 'c list list) option" where
  "layout_new matrices =
     (case r1cs_num_vars matrices of
        Inl e \<Rightarrow> Some (Inl e)
      | Inr (num_row_vars, num_column_vars) \<Rightarrow>
          (case positions_of [cm_a matrices, cm_b matrices, cm_c matrices] of
             Inl e \<Rightarrow> Some (Inl e)
           | Inr ps \<Rightarrow>
               let positions = map fst ps;
                   num_columns = 2 ^ num_column_vars;
                   chunk_len = min num_columns (2 ^ BIND_CHUNK_COLUMN_VARS);
                   chunk_count = num_columns div chunk_len
               in map_option (\<lambda>column_chunks.
                    Inr (cm_m matrices,
                      \<lparr>ly_positions = positions, ly_column_chunks = column_chunks,
                       ly_row_count = sm_row_count (cm_a matrices), ly_column_count = sm_columns (cm_a matrices),
                       ly_num_row_vars = num_row_vars, ly_num_column_vars = num_column_vars\<rparr>, map snd ps))
                   (those (map (\<lambda>p. column_chunk_index_new p chunk_len chunk_count) positions))))"


section \<open>The statement digest\<close>

definition hash_usize :: "nat \<Rightarrow> spartan_matrix_error + u8 list" where
  "hash_usize v = (if 2 ^ 64 \<le> v then Inl MatrixDomainTooLarge else Inr (to_le_bytes 8 (word_of_nat v :: u64)))"

text \<open>A sequence of updates of a hasher, which stops at the first error.\<close>

fun hash_all :: "(spartan_matrix_error + u8 list) list \<Rightarrow> spartan_matrix_error + u8 list" where
  "hash_all [] = Inr []"
| "hash_all (update # updates) =
     (case update of
        Inl e \<Rightarrow> Inl e
      | Inr bytes \<Rightarrow> (case hash_all updates of Inl e \<Rightarrow> Inl e | Inr rest \<Rightarrow> Inr (bytes @ rest)))"

definition hash_words :: "u64 list \<Rightarrow> spartan_matrix_error + u8 list" where
  "hash_words ws = hash_all (hash_usize (length ws) # map (\<lambda>word. Inr (to_le_bytes 8 word)) ws)"

definition hash_bool_matrix :: "sparse_bool_matrix \<Rightarrow> spartan_matrix_error + u8 list" where
  "hash_bool_matrix m =
     hash_all (Inr [0x4d] # hash_usize (sbm_row_count m) # hash_usize (sbm_columns m)
       # map (\<lambda>r. hash_all (hash_usize (length (sbr_positions r)) # map hash_usize (sbr_positions r))) (sbm_rows m))"

definition hash_matrix ::
  "('c \<Rightarrow> spartan_matrix_error + u8 list) \<Rightarrow> layout \<Rightarrow> (u8 \<times> positions) \<times> 'c list \<Rightarrow> spartan_matrix_error + u8 list" where
  "hash_matrix encode layout labelled =
     (let ((label, positions), vals) = labelled
      in hash_all (Inr [label] # hash_usize (ly_row_count layout) # hash_usize (ly_column_count layout)
        # map (\<lambda>r. let (start, stop) = positions_row positions r
                   in hash_all (hash_usize (stop - start)
                      # map (\<lambda>k. hash_all [hash_usize (unat (position_columns positions ! k)), encode (vals ! k)]) [start..<stop]))
            [0..<ly_row_count layout]))"

definition matrix_digest ::
  "(u8 list \<Rightarrow> u8 list) \<Rightarrow> u8 list \<Rightarrow> sparse_bool_matrix \<Rightarrow> layout \<Rightarrow> 'c list list
   \<Rightarrow> ('c \<Rightarrow> spartan_matrix_error + u8 list) \<Rightarrow> spartan_matrix_error + u8 list" where
  "matrix_digest sha256 domain m layout vals encode =
     map_sum id sha256
       (hash_all (Inr domain # hash_bool_matrix m
          # map (hash_matrix encode layout) (zip (zip [0x41, 0x42, 0x43] (ly_positions layout)) vals)))"

text \<open>\<open>b"bitz/spartan/constraint-matrices/v1"\<close> and \<open>b"bitz/spartan/integer-constraint-matrices/v1"\<close>.\<close>

definition CONSTRAINT_DOMAIN :: "u8 list" where
  "CONSTRAINT_DOMAIN = map (\<lambda>c. word_of_nat (of_char c)) ''bitz/spartan/constraint-matrices/v1''"

definition INTEGER_DOMAIN :: "u8 list" where
  "INTEGER_DOMAIN = map (\<lambda>c. word_of_nat (of_char c)) ''bitz/spartan/integer-constraint-matrices/v1''"

definition constraint_matrix_digest ::
  "(u8 list \<Rightarrow> u8 list) \<Rightarrow> ('a \<Rightarrow> u8 list) \<Rightarrow> sparse_bool_matrix \<Rightarrow> layout \<Rightarrow> 'a list list \<Rightarrow> spartan_matrix_error + u8 list" where
  "constraint_matrix_digest sha256 encode m layout vals =
     matrix_digest sha256 CONSTRAINT_DOMAIN m layout vals
       (\<lambda>coefficient. let bytes = encode coefficient in hash_all [hash_usize (length bytes), Inr bytes])"

definition canonical_words :: "u128 \<Rightarrow> u64 list \<times> nat" where
  "canonical_words v =
     (let low = ucast v :: u64; high = ucast (signed_drop_bit 64 v) :: u64;
          sign_extended = (high = 0 \<and> drop_bit 63 low = 0 \<or> high = - 1 \<and> drop_bit 63 low = 1)
      in ([low, high], if v = 0 then 0 else if sign_extended then 1 else 2))"

text \<open>Integer coefficients: \<open>to_i128\<close> is \<open>None\<close> when a coefficient does not fit, \<open>stored\<close> is the
  conversion into a stored integer.\<close>

definition integer_matrix_digest ::
  "(u8 list \<Rightarrow> u8 list) \<Rightarrow> ('r \<Rightarrow> u128 option) \<Rightarrow> ('r \<Rightarrow> stored_integer) \<Rightarrow> sparse_bool_matrix \<Rightarrow> layout \<Rightarrow> 'r list list
   \<Rightarrow> spartan_matrix_error + u8 list" where
  "integer_matrix_digest sha256 to_i128 stored m layout vals =
     matrix_digest sha256 INTEGER_DOMAIN m layout vals
       (\<lambda>coefficient. case to_i128 coefficient of
          Some v \<Rightarrow> let (ws, len) = canonical_words v in hash_words (take len ws)
        | None \<Rightarrow> hash_words (si_words (stored coefficient)))"

section \<open>Prepared matrices\<close>

record 'a prepared_constraint_matrices =
  pcm_layout :: layout
  pcm_values :: "'a list list"
  pcm_digest :: "u8 list"

record 'r prepared_integer_matrices =
  pim_m :: sparse_bool_matrix
  pim_layout :: layout
  pim_coefficients :: "'r list"
  pim_coefficient_indices :: "nat list list"
  pim_digest :: "u8 list"

text \<open>\<open>entry(value).or_insert(index)\<close> on the map of distinct coefficients, an association list.\<close>

definition intern :: "'r \<Rightarrow> ('r \<times> nat) list \<Rightarrow> nat \<times> ('r \<times> nat) list" where
  "intern v distinct_map =
     (let index = length distinct_map
      in case map_of distinct_map v of
           Some i \<Rightarrow> (i, distinct_map)
         | None \<Rightarrow> (index, (v, index) # distinct_map))"

fun intern_all :: "'r list \<Rightarrow> ('r \<times> nat) list \<Rightarrow> nat list \<times> ('r \<times> nat) list" where
  "intern_all [] distinct_map = ([], distinct_map)"
| "intern_all (v # vs) distinct_map =
     (let (i, distinct_map) = intern v distinct_map; (indices, distinct_map) = intern_all vs distinct_map
      in (i # indices, distinct_map))"

fun intern_lists :: "'r list list \<Rightarrow> ('r \<times> nat) list \<Rightarrow> nat list list \<times> ('r \<times> nat) list" where
  "intern_lists [] distinct_map = ([], distinct_map)"
| "intern_lists (vs # vss) distinct_map =
     (let (indices, distinct_map) = intern_all vs distinct_map; (rest, distinct_map) = intern_lists vss distinct_map
      in (indices # rest, distinct_map))"

definition pim_new ::
  "(u8 list \<Rightarrow> u8 list) \<Rightarrow> ('r \<Rightarrow> u128 option) \<Rightarrow> ('r \<Rightarrow> stored_integer) \<Rightarrow> 'r constraint_matrices
   \<Rightarrow> (spartan_matrix_error + 'r prepared_integer_matrices) option" where
  "pim_new sha256 to_i128 stored matrices =
     (case layout_new matrices of
        None \<Rightarrow> None
      | Some (Inl e) \<Rightarrow> Some (Inl e)
      | Some (Inr (m, layout, vals)) \<Rightarrow>
          (case integer_matrix_digest sha256 to_i128 stored m layout vals of
             Inl e \<Rightarrow> Some (Inl e)
           | Inr digest \<Rightarrow>
               let (coefficient_indices, distinct_map) = intern_lists vals [];
                   coefficients = map fst (sort_key snd distinct_map)
               in Some (Inr \<lparr>pim_m = m, pim_layout = layout, pim_coefficients = coefficients,
                    pim_coefficient_indices = coefficient_indices, pim_digest = digest\<rparr>)))"

definition project :: "('r \<Rightarrow> 'a) \<Rightarrow> 'r prepared_integer_matrices \<Rightarrow> 'a prepared_constraint_matrices" where
  "project f self =
     (let coefficients = map f (pim_coefficients self)
      in \<lparr>pcm_layout = pim_layout self,
          pcm_values = map (map (\<lambda>index. coefficients ! index)) (pim_coefficient_indices self),
          pcm_digest = pim_digest self\<rparr>)"

definition pcm_new ::
  "(u8 list \<Rightarrow> u8 list) \<Rightarrow> ('a \<Rightarrow> u8 list) \<Rightarrow> 'a constraint_matrices
   \<Rightarrow> (spartan_matrix_error + 'a prepared_constraint_matrices) option" where
  "pcm_new sha256 encode matrices =
     (case layout_new matrices of
        None \<Rightarrow> None
      | Some (Inl e) \<Rightarrow> Some (Inl e)
      | Some (Inr (m, layout, vals)) \<Rightarrow>
          Some (case constraint_matrix_digest sha256 encode m layout vals of
            Inl e \<Rightarrow> Inl e
          | Inr digest \<Rightarrow> Inr \<lparr>pcm_layout = layout, pcm_values = vals, pcm_digest = digest\<rparr>))"

definition pcm_row_count :: "'a prepared_constraint_matrices \<Rightarrow> nat" where
  "pcm_row_count self = ly_row_count (pcm_layout self)"

definition pcm_column_count :: "'a prepared_constraint_matrices \<Rightarrow> nat" where
  "pcm_column_count self = ly_column_count (pcm_layout self)"

definition num_row_vars :: "'a prepared_constraint_matrices \<Rightarrow> nat" where
  "num_row_vars self = ly_num_row_vars (pcm_layout self)"

definition num_column_vars :: "'a prepared_constraint_matrices \<Rightarrow> nat" where
  "num_column_vars self = ly_num_column_vars (pcm_layout self)"

section \<open>The tables of a proof\<close>

definition resize_zero :: "nat \<Rightarrow> 'a::zero list \<Rightarrow> 'a list" where
  "resize_zero n xs = take n xs @ replicate (n - length xs) 0"

text \<open>\<open>from\<close> is the field's conversion from \<open>u128\<close>.\<close>

definition modular_vector_mle ::
  "(u128 \<Rightarrow> 'a::field) \<Rightarrow> u64 list list \<Rightarrow> nat \<Rightarrow> spartan_matrix_error + 'a dense_mle" where
  "modular_vector_mle from vals num_vars =
     (case mle_from_evaluations num_vars (resize_zero (2 ^ num_vars) (modular_vector_into from vals)) of
        Inl _ \<Rightarrow> Inl InvalidMleOperation
      | Inr mle \<Rightarrow> Inr mle)"

fun check_lengths :: "nat \<Rightarrow> nat list \<Rightarrow> spartan_matrix_error + unit" where
  "check_lengths expected [] = Inr ()"
| "check_lengths expected (actual # rest) =
     (if actual \<noteq> expected then Inl (InvalidProductLength expected actual) else check_lengths expected rest)"

definition build_product_mles ::
  "u128 \<Rightarrow> (u128 \<Rightarrow> 'a::field) \<Rightarrow> integer_products \<Rightarrow> nat \<Rightarrow> spartan_matrix_error + 'a r1cs_product_mles" where
  "build_product_mles modulus from products expected_rows =
     (case check_lengths expected_rows [length (ip_a_mw products), length (ip_b_mw products), length (ip_c_mw products)] of
        Inl e \<Rightarrow> Inl e
      | Inr _ \<Rightarrow>
          (case runtime_modulus_new 2 modulus of
             Inl _ \<Rightarrow> Inl InvalidModulus
           | Inr modulus \<Rightarrow>
               let reduced = reduce_parallel products modulus
               in case padded_num_vars expected_rows of
                    Inl e \<Rightarrow> Inl e
                  | Inr num_vars \<Rightarrow>
                      (case modular_vector_mle from (mp_a_mw reduced) num_vars of
                         Inl e \<Rightarrow> Inl e
                       | Inr az \<Rightarrow>
                           (case modular_vector_mle from (mp_b_mw reduced) num_vars of
                              Inl e \<Rightarrow> Inl e
                            | Inr bz \<Rightarrow>
                                (case modular_vector_mle from (mp_c_mw reduced) num_vars of
                                   Inl e \<Rightarrow> Inl e
                                 | Inr cz \<Rightarrow> Inr \<lparr>pm_az = az, pm_bz = bz, pm_cz = cz\<rparr>)))))"

text \<open>\<open>bit\<close> panics out of range; all the indices used are below the checked length.\<close>

definition build_assignment_mle :: "packed_witness \<Rightarrow> nat \<Rightarrow> (spartan_matrix_error + 'a::field dense_mle) option" where
  "build_assignment_mle assignment expected_columns =
     (if pw_bit_len assignment \<noteq> expected_columns
      then Some (Inl (InvalidAssignmentLength expected_columns (pw_bit_len assignment)))
      else if expected_columns = 0 then Some (Inl InvalidAssignmentConstant)
      else case pw_bit assignment 0 of
          None \<Rightarrow> None
        | Some False \<Rightarrow> Some (Inl InvalidAssignmentConstant)
        | Some True \<Rightarrow>
            (case padded_num_vars expected_columns of
               Inl e \<Rightarrow> Some (Inl e)
             | Inr num_vars \<Rightarrow>
                 map_option (\<lambda>bits.
                   case mle_from_evaluations num_vars
                          (resize_zero (2 ^ num_vars) (map (\<lambda>b. if b then 1 else 0) bits)) of
                     Inl _ \<Rightarrow> Inl InvalidMleOperation
                   | Inr mle \<Rightarrow> Inr mle)
                   (those (map (pw_bit assignment) [0..<pw_bit_len assignment]))))"

section \<open>Binding and evaluating the batched matrix\<close>

text \<open>\<open>A\<close>, \<open>B\<close> and \<open>C\<close>, each with its positions, chunks, values and batching scale.\<close>

definition batched ::
  "'a::field prepared_constraint_matrices \<Rightarrow> 'a \<Rightarrow> (positions \<times> column_chunk_index \<times> 'a list \<times> 'a) list" where
  "batched self rho =
     (let layout = pcm_layout self; scales = [1, rho, rho * rho]
      in map (\<lambda>i. (ly_positions layout ! i, ly_column_chunks layout ! i, pcm_values self ! i, scales ! i)) [0..<3])"

definition bind_span ::
  "positions \<Rightarrow> 'a::field list \<Rightarrow> nat \<Rightarrow> 'a \<Rightarrow> row_span \<Rightarrow> 'a list \<Rightarrow> 'a list option" where
  "bind_span positions vals base row_scale span output =
     fold_option (\<lambda>output k. do {
       column \<leftarrow> slice_get (position_columns positions) k;
       j \<leftarrow> slice_offset (unat column) base;
       old \<leftarrow> slice_get output j;
       v \<leftarrow> slice_get vals k;
       Some (output[j := old + row_scale * v])
     }) output [rs_start span..<rs_end span]"

definition bind_chunk ::
  "(positions \<times> column_chunk_index \<times> 'a::field list \<times> 'a) list \<Rightarrow> 'a list \<Rightarrow> nat \<Rightarrow> nat \<Rightarrow> 'a list option" where
  "bind_chunk batch row_table chunk_len chunk =
     fold_option (\<lambda>output (positions, index, vals, batch_scale). do {
       spans \<leftarrow> slice_get (ci_spans index) chunk;
       fold_option (\<lambda>output span. do {
         weight \<leftarrow> slice_get row_table (rs_row span);
         bind_span positions vals (chunk * chunk_len) (weight * batch_scale) span output
       }) output spans
     }) (replicate chunk_len 0) batch"

text \<open>Splitting a table into chunks of length zero panics.\<close>

definition bind_and_batch ::
  "'a::field prepared_constraint_matrices \<Rightarrow> 'a list \<Rightarrow> 'a \<Rightarrow> (spartan_matrix_error + 'a dense_mle) option" where
  "bind_and_batch self row_point rho =
     (let layout = pcm_layout self
      in if length row_point \<noteq> ly_num_row_vars layout
         then Some (Inl (InvalidRowPointLength (ly_num_row_vars layout) (length row_point)))
         else do {
           let row_table = eq_table row_point;
           chunks \<leftarrow> slice_get (ly_column_chunks layout) 0;
           let chunk_len = ci_chunk_len chunks;
           if chunk_len = 0 then None else do {
             evals \<leftarrow> those (map (bind_chunk (batched self rho) row_table chunk_len) [0..<2 ^ ly_num_column_vars layout div chunk_len]);
             Some (case mle_from_evaluations (ly_num_column_vars layout) (concat evals) of
                Inl _ \<Rightarrow> Inl InvalidMleOperation
              | Inr mle \<Rightarrow> Inr mle)
           }
         })"

definition evaluate_span ::
  "positions \<Rightarrow> 'a::field list \<Rightarrow> 'a list \<Rightarrow> nat \<Rightarrow> row_span \<Rightarrow> 'a option" where
  "evaluate_span positions vals low_table base span =
     fold_option (\<lambda>s k. do {
       column \<leftarrow> slice_get (position_columns positions) k;
       j \<leftarrow> slice_offset (unat column) base;
       weight \<leftarrow> slice_get low_table j;
       v \<leftarrow> slice_get vals k;
       Some (s + weight * v)
     }) 0 [rs_start span..<rs_end span]"

definition evaluate_chunk ::
  "(positions \<times> column_chunk_index \<times> 'a::field list \<times> 'a) list \<Rightarrow> 'a list \<Rightarrow> 'a list \<Rightarrow> nat \<Rightarrow> nat \<Rightarrow> 'a option" where
  "evaluate_chunk batch row_table low_table chunk_len chunk =
     fold_option (\<lambda>chunk_sum (positions, index, vals, batch_scale). do {
       spans \<leftarrow> slice_get (ci_spans index) chunk;
       matrix_sum \<leftarrow> fold_option (\<lambda>s span. do {
         span_sum \<leftarrow> evaluate_span positions vals low_table (chunk * chunk_len) span;
         weight \<leftarrow> slice_get row_table (rs_row span);
         Some (s + weight * span_sum)
       }) 0 spans;
       Some (chunk_sum + batch_scale * matrix_sum)
     }) 0 batch"

text \<open>\<open>ilog2\<close> of zero and a split beyond the end panic.\<close>

definition evaluate_batched ::
  "'a::field prepared_constraint_matrices \<Rightarrow> 'a list \<Rightarrow> 'a \<Rightarrow> 'a list \<Rightarrow> (spartan_matrix_error + 'a) option" where
  "evaluate_batched self row_point rho column_point =
     (let layout = pcm_layout self
      in if length row_point \<noteq> ly_num_row_vars layout
         then Some (Inl (InvalidRowPointLength (ly_num_row_vars layout) (length row_point)))
         else if length column_point \<noteq> ly_num_column_vars layout
         then Some (Inl (InvalidColumnPointLength (ly_num_column_vars layout) (length column_point)))
         else do {
           let row_table = eq_table row_point;
           chunks \<leftarrow> slice_get (ly_column_chunks layout) 0;
           let chunk_len = ci_chunk_len chunks;
           let low_bits = bitlen chunk_len - 1;
           if chunk_len = 0 \<or> length column_point < low_bits then None else do {
             let low_table = eq_table (take low_bits column_point);
             let high_table = eq_table (drop low_bits column_point);
             sums \<leftarrow> those (map (\<lambda>(chunk, chunk_weight).
                map_option ((*) chunk_weight) (evaluate_chunk (batched self rho) row_table low_table chunk_len chunk))
                (enumerate 0 high_table));
             Some (Inr (foldl (+) 0 sums))
           }
         })"

end
