(* ===== verification/Spartan_Matrix_Correct.thy ===== *)
theory Spartan_Matrix_Correct
  imports Spartan_Matrix
begin

text \<open>
  What a layout stands for: the list of its sites, one per nonzero entry, as a row, a column and the
  position of the value.  The column chunks partition the sites, so the dense table the prover binds
  and the sparse evaluation of the verifier are the same sums over the sites, and agree.
\<close>

section \<open>Sites\<close>

definition row_sites :: "u32 list \<Rightarrow> nat \<Rightarrow> nat \<Rightarrow> nat \<Rightarrow> (nat \<times> nat \<times> nat) list" where
  "row_sites columns r start stop = map (\<lambda>k. (r, unat (columns ! k), k)) [start..<stop]"

definition sites :: "positions \<Rightarrow> (nat \<times> nat \<times> nat) list" where
  "sites pos = concat (map (\<lambda>r. row_sites (position_columns pos) r (fst (positions_row pos r)) (snd (positions_row pos r)))
     [0..<positions_row_count pos])"

definition span_sites :: "u32 list \<Rightarrow> row_span list \<Rightarrow> (nat \<times> nat \<times> nat) list" where
  "span_sites columns spans = concat (map (\<lambda>s. row_sites columns (rs_row s) (rs_start s) (rs_end s)) spans)"

lemma span_sites_append: "span_sites columns (xs @ ys) = span_sites columns xs @ span_sites columns ys"
  by (simp add: span_sites_def)

definition in_chunk :: "nat \<Rightarrow> nat \<Rightarrow> nat \<times> nat \<times> nat \<Rightarrow> bool" where
  "in_chunk chunk_len c site \<longleftrightarrow> fst (snd site) div chunk_len = c"

lemma row_sites_split: "a \<le> b \<Longrightarrow> b \<le> c \<Longrightarrow> row_sites columns r a c = row_sites columns r a b @ row_sites columns r b c"
  using upt_add_eq_append [of a b "c - b"] by (simp add: row_sites_def)

lemma takeWhile_run:
  assumes "stop \<le> length xs" "k < start + length (takeWhile P (take (stop - start) (drop start xs)))" "start \<le> k"
  shows "P (xs ! k)"
proof -
  let ?ys = "take (stop - start) (drop start xs)"
  have k: "k - start < length (takeWhile P ?ys)" using assms by simp
  then have "k - start < length ?ys" using length_takeWhile_le [of P ?ys] by simp
  moreover have "P (?ys ! (k - start))" using k by (metis nth_mem set_takeWhileD takeWhile_nth)
  ultimately show ?thesis using assms by simp
qed

lemma filter_run:
  assumes "\<And>k. start \<le> k \<Longrightarrow> k < e \<Longrightarrow> unat (columns ! k) div chunk_len = chunk"
  shows "filter (in_chunk chunk_len c) (row_sites columns r start e) = (if c = chunk then row_sites columns r start e else [])"
proof (cases "c = chunk")
  case True
  have "\<forall>x\<in>set (row_sites columns r start e). in_chunk chunk_len c x" using assms True by (auto simp: row_sites_def in_chunk_def)
  then show ?thesis using True by (simp add: filter_True)
next
  case False
  have "\<forall>x\<in>set (row_sites columns r start e). \<not> in_chunk chunk_len c x" using assms False by (auto simp: row_sites_def in_chunk_def)
  then show ?thesis using False by (simp add: filter_False)
qed

text \<open>One row: every run of columns goes to its chunk, in order.\<close>

lemma chunk_row_partitions:
  assumes "stop \<le> length columns" "start \<le> stop" "\<forall>k. start \<le> k \<and> k < stop \<longrightarrow> unat (columns ! k) div chunk_len < length spans"
  shows "\<exists>spans'. chunk_row columns chunk_len r start stop spans = Some spans' \<and> length spans' = length spans \<and>
    (\<forall>c<length spans. span_sites columns (spans' ! c)
       = span_sites columns (spans ! c) @ filter (in_chunk chunk_len c) (row_sites columns r start stop))"
  using assms
proof (induction columns chunk_len r start stop spans rule: chunk_row.induct)
  case (1 columns chunk_len r start stop spans)
  show ?case
  proof (cases "start < stop")
    case False
    then show ?thesis by (subst chunk_row.simps) (use 1 in \<open>simp add: row_sites_def\<close>)
  next
    case True
    let ?chunk = "unat (columns ! start) div chunk_len"
    let ?P = "\<lambda>column. unat column div chunk_len = ?chunk"
    let ?run = "length (takeWhile ?P (take (stop - start) (drop start columns)))"
    let ?e = "start + ?run"
    let ?spans = "spans[?chunk := spans ! ?chunk @ [\<lparr>rs_row = r, rs_start = start, rs_end = ?e\<rparr>]]"
    have len: "\<not> length columns < stop" using 1 by simp
    have fits: "\<not> length spans \<le> ?chunk" using 1 True by fastforce
    have run: "?e \<le> stop" using True length_takeWhile_le [of ?P "take (stop - start) (drop start columns)"] 1 by simp
    have step: "chunk_row columns chunk_len r start stop spans = chunk_row columns chunk_len r ?e stop ?spans"
      by (subst chunk_row.simps) (use True len fits in \<open>simp add: Let_def\<close>)
    have "\<forall>k. ?e \<le> k \<and> k < stop \<longrightarrow> unat (columns ! k) div chunk_len < length ?spans" using "1.prems"(3) by simp
    from "1.IH" [OF _ len refl refl refl _ "1.prems"(1) run this] True fits
    have "\<exists>spans'. chunk_row columns chunk_len r ?e stop ?spans = Some spans' \<and> length spans' = length ?spans \<and>
      (\<forall>c<length ?spans. span_sites columns (spans' ! c)
        = span_sites columns (?spans ! c) @ filter (in_chunk chunk_len c) (row_sites columns r ?e stop))" by blast
    then obtain spans' where ih: "chunk_row columns chunk_len r ?e stop ?spans = Some spans'" "length spans' = length spans"
      "\<And>c. c < length spans \<Longrightarrow> span_sites columns (spans' ! c)
        = span_sites columns (?spans ! c) @ filter (in_chunk chunk_len c) (row_sites columns r ?e stop)"
      unfolding length_list_update by blast
    have f: "filter (in_chunk chunk_len c) (row_sites columns r start ?e)
        = (if c = ?chunk then row_sites columns r start ?e else [])" for c
      by (rule filter_run, rule takeWhile_run [OF "1.prems"(1)])
    have "span_sites columns (spans' ! c)
        = span_sites columns (spans ! c) @ filter (in_chunk chunk_len c) (row_sites columns r start stop)"
      if "c < length spans" for c
      unfolding ih(3) [OF that] row_sites_split [OF le_add1 run] filter_append f
      using that fits by (cases "c = ?chunk") (simp_all add: span_sites_append, simp add: span_sites_def)
    with ih(1,2) step show ?thesis by (intro exI [of _ spans']) simp
  qed
qed

definition positions_valid :: "nat \<Rightarrow> positions \<Rightarrow> bool" where
  "positions_valid bound pos \<longleftrightarrow> (\<forall>r<positions_row_count pos.
     fst (positions_row pos r) \<le> snd (positions_row pos r) \<and> snd (positions_row pos r) \<le> length (position_columns pos)) \<and>
     (\<forall>c\<in>set (position_columns pos). unat c < bound)"

text \<open>No span is empty.\<close>

definition no_empty_span :: "row_span list list \<Rightarrow> bool" where
  "no_empty_span spans \<longleftrightarrow> (\<forall>ss\<in>set spans. \<forall>span\<in>set ss. rs_start span < rs_end span)"

lemma chunk_row_no_empty:
  "chunk_row columns chunk_len r start stop spans = Some spans' \<Longrightarrow> no_empty_span spans \<Longrightarrow> no_empty_span spans'"
proof (induction columns chunk_len r start stop spans rule: chunk_row.induct)
  case (1 columns chunk_len r start stop spans)
  show ?case
  proof (cases "start < stop")
    case False
    then show ?thesis using "1.prems" by (simp add: chunk_row.simps [of columns])
  next
    case True
    let ?chunk = "unat (columns ! start) div chunk_len"
    let ?run = "length (takeWhile (\<lambda>column. unat column div chunk_len = ?chunk) (take (stop - start) (drop start columns)))"
    let ?spans = "spans[?chunk := spans ! ?chunk @ [\<lparr>rs_row = r, rs_start = start, rs_end = start + ?run\<rparr>]]"
    have len: "\<not> length columns < stop" and fits: "\<not> length spans \<le> ?chunk"
      and step: "chunk_row columns chunk_len r (start + ?run) stop ?spans = Some spans'"
      using "1.prems"(1) True by (auto simp: chunk_row.simps [of columns _ _ start] Let_def split: if_splits)
    have "take (stop - start) (drop start columns) = columns ! start # take (stop - start - 1) (drop (Suc start) columns)"
      using True len by (simp add: Cons_nth_drop_Suc [symmetric] take_Cons')
    then have "0 < ?run" by simp
    then have new: "\<forall>span\<in>set (spans ! ?chunk @ [\<lparr>rs_row = r, rs_start = start, rs_end = start + ?run\<rparr>]). rs_start span < rs_end span"
      using "1.prems"(2) fits nth_mem [of ?chunk spans] unfolding no_empty_span_def by (auto simp: not_le)
    have "no_empty_span ?spans"
      unfolding no_empty_span_def
    proof
      fix ss assume "ss \<in> set ?spans"
      then have "ss \<in> set spans \<or> ss = spans ! ?chunk @ [\<lparr>rs_row = r, rs_start = start, rs_end = start + ?run\<rparr>]"
        using set_update_subset_insert by fastforce
      then show "\<forall>span\<in>set ss. rs_start span < rs_end span" using new "1.prems"(2) by (auto simp: no_empty_span_def)
    qed
    with "1.IH" [OF _ len refl refl refl fits step] True show ?thesis by simp
  qed
qed

lemma chunk_rows_no_empty: "chunk_rows pos chunk_len rs spans = Some spans' \<Longrightarrow> no_empty_span spans \<Longrightarrow> no_empty_span spans'"
  by (induction rs arbitrary: spans) (auto dest: chunk_row_no_empty split: prod.splits option.splits)

lemma chunk_index_no_empty: "column_chunk_index_new pos chunk_len chunk_count = Some index \<Longrightarrow> no_empty_span (ci_spans index)"
  by (auto simp: column_chunk_index_new_def dest!: chunk_rows_no_empty) (simp add: no_empty_span_def)

lemma chunk_rows_partition:
  assumes "positions_valid (chunk_len * length spans) pos" "\<forall>r\<in>set rs. r < positions_row_count pos" "0 < chunk_len"
  shows "\<exists>spans'. chunk_rows pos chunk_len rs spans = Some spans' \<and> length spans' = length spans \<and>
    (\<forall>c<length spans. span_sites (position_columns pos) (spans' ! c)
       = span_sites (position_columns pos) (spans ! c) @ filter (in_chunk chunk_len c)
           (concat (map (\<lambda>r. row_sites (position_columns pos) r (fst (positions_row pos r)) (snd (positions_row pos r))) rs)))"
  using assms
proof (induction rs arbitrary: spans)
  case (Cons r rs)
  let ?cols = "position_columns pos"
  obtain start stop where row: "positions_row pos r = (start, stop)" by fastforce
  have v: "start \<le> stop" "stop \<le> length ?cols" using Cons.prems(1,2) row by (auto simp: positions_valid_def)
  have "unat (?cols ! k) div chunk_len < length spans" if "k < stop" for k
    using Cons.prems(1,3) v that by (simp add: positions_valid_def less_mult_imp_div_less mult.commute)
  with chunk_row_partitions [OF v(2,1), of chunk_len spans r]
  obtain spans1 where s1: "chunk_row ?cols chunk_len r start stop spans = Some spans1" "length spans1 = length spans"
    "\<And>c. c < length spans \<Longrightarrow> span_sites ?cols (spans1 ! c)
       = span_sites ?cols (spans ! c) @ filter (in_chunk chunk_len c) (row_sites ?cols r start stop)" by blast
  from Cons.IH [of spans1] Cons.prems s1(2)
  obtain spans' where "chunk_rows pos chunk_len rs spans1 = Some spans'" "length spans' = length spans"
    "\<forall>c<length spans. span_sites ?cols (spans' ! c) = span_sites ?cols (spans1 ! c) @ filter (in_chunk chunk_len c)
       (concat (map (\<lambda>r. row_sites ?cols r (fst (positions_row pos r)) (snd (positions_row pos r))) rs))" by auto
  with s1 row show ?case by simp
qed simp

lemma chunk_index_partitions:
  assumes "positions_valid (chunk_len * chunk_count) pos" "0 < chunk_len"
  shows "\<exists>index. column_chunk_index_new pos chunk_len chunk_count = Some index \<and> ci_chunk_len index = chunk_len \<and>
    length (ci_spans index) = chunk_count \<and>
    (\<forall>c<chunk_count. span_sites (position_columns pos) (ci_spans index ! c) = filter (in_chunk chunk_len c) (sites pos))"
  using chunk_rows_partition [of chunk_len "replicate chunk_count []" pos "[0..<positions_row_count pos]"] assms
  by (auto simp: column_chunk_index_new_def sites_def span_sites_def)

section \<open>The sites of a sparse matrix\<close>

definition nonzeros :: "'c sparse_matrix \<Rightarrow> (nat \<times> nat \<times> 'c) list" where
  "nonzeros matrix = concat (map (\<lambda>r. map (\<lambda>(c, v). (r, c, v)) (sr_entries (sm_rows matrix ! r))) [0..<length (sm_rows matrix)])"

lemma lay_out_row_Inr:
  "lay_out_row entries (columns, vals) = Inr acc \<Longrightarrow>
    acc = (columns @ map (\<lambda>(c, v). word_of_nat c) entries, vals @ map snd entries) \<and> (\<forall>(c, v)\<in>set entries. c < 2 ^ 32)"
proof (induction entries arbitrary: columns vals)
  case (Cons entry entries)
  obtain c v where e: "entry = (c, v)" by fastforce
  with Cons.prems have c: "c < 2 ^ 32" and "lay_out_row entries (columns @ [word_of_nat c], vals @ [v]) = Inr acc"
    by (simp_all split: if_splits)
  from Cons.IH [OF this(2)] c e show ?case by simp
qed simp

definition row_start :: "'c sparse_row list \<Rightarrow> nat \<Rightarrow> nat" where
  "row_start rs n = length (concat (map sr_entries (take n rs)))"

lemma lay_out_rows_Inr:
  "lay_out_rows rs (self, vals) = Inr (self', vals') \<Longrightarrow>
    row_starts self' = row_starts self @ map (\<lambda>n. length (position_columns self) + row_start rs (Suc n)) [0..<length rs] \<and>
    position_columns self' = position_columns self @ map (\<lambda>(c, v). word_of_nat c) (concat (map sr_entries rs)) \<and>
    vals' = vals @ map snd (concat (map sr_entries rs)) \<and> (\<forall>r\<in>set rs. \<forall>(c, v)\<in>set (sr_entries r). c < 2 ^ 32)"
proof (induction rs arbitrary: self vals)
  case (Cons r rs)
  from Cons.prems obtain acc where "lay_out_row (sr_entries r) (position_columns self, vals) = Inr acc"
    by (auto split: sum.splits)
  note r = this lay_out_row_Inr [OF this]
  let ?cols = "position_columns self @ map (\<lambda>(c, v). word_of_nat c) (sr_entries r)"
  from Cons.prems r have "lay_out_rows rs (\<lparr>row_starts = row_starts self @ [length ?cols], position_columns = ?cols\<rparr>,
      vals @ map snd (sr_entries r)) = Inr (self', vals')" by simp
  from Cons.IH [OF this] r show ?case
    by (simp add: row_start_def upt_rec [of 0] map_Suc_upt [symmetric] comp_def del: upt_Suc)
qed simp

lemma nth_concat_row:
  assumes "n < length xss" "k < length (xss ! n)"
  shows "concat xss ! (length (concat (take n xss)) + k) = xss ! n ! k"
proof -
  have "xss = take n xss @ xss ! n # drop (Suc n) xss" using assms(1) by (rule id_take_nth_drop)
  then have "concat xss = concat (take n xss) @ xss ! n @ concat (drop (Suc n) xss)" by (metis concat.simps(2) concat_append)
  then show ?thesis using assms(2) by (simp add: nth_append)
qed

lemma row_start_Suc: "n < length rs \<Longrightarrow> row_start rs (Suc n) = row_start rs n + length (sr_entries (rs ! n))"
  by (simp add: row_start_def take_Suc_conv_app_nth)

lemma row_start_le: "row_start rs n \<le> length (concat (map sr_entries rs))"
proof -
  have "concat (map sr_entries rs) = concat (map sr_entries (take n rs)) @ concat (map sr_entries (drop n rs))"
    by (metis append_take_drop_id concat_append map_append)
  then show ?thesis by (simp add: row_start_def)
qed

lemma positions_new_sites:
  assumes "positions_new matrix = Inr (pos, vals)" "\<forall>r\<in>set (sm_rows matrix). \<forall>(c, v)\<in>set (sr_entries r). c < bound"
  shows "map (\<lambda>(i, j, k). (i, j, vals ! k)) (sites pos) = nonzeros matrix \<and> positions_valid bound pos \<and>
    positions_row_count pos = sm_row_count matrix \<and> length vals = length (position_columns pos)"
proof -
  let ?rs = "sm_rows matrix" let ?E = "concat (map sr_entries ?rs)"
  have s: "row_starts pos = 0 # map (\<lambda>n. row_start ?rs (Suc n)) [0..<length ?rs]"
    "position_columns pos = map (\<lambda>(c, v). word_of_nat c) ?E" "vals = map snd ?E"
    and small: "\<forall>r\<in>set ?rs. \<forall>(c, v)\<in>set (sr_entries r). c < 2 ^ 32"
    using lay_out_rows_Inr [of ?rs "\<lparr>row_starts = [0], position_columns = []\<rparr>" "[]" pos vals] assms(1)
    by (simp_all add: positions_new_def)
  have "row_starts pos = map (row_start ?rs) [0..<Suc (length ?rs)]"
    unfolding s(1) by (simp add: upt_rec [of 0] map_Suc_upt [symmetric] row_start_def del: upt_Suc)
  then have row: "positions_row pos r = (row_start ?rs r, row_start ?rs (Suc r))" if "r < length ?rs" for r
    using that by (simp add: positions_row_def del: upt_Suc)
  have n: "positions_row_count pos = length ?rs" by (simp add: positions_row_count_def s(1))
  have uc: "unat (word_of_nat c :: u32) = c" if "(c, v) \<in> set ?E" for c v
    using small that by (fastforce simp: unat_of_nat take_bit_nat_eq_self)
  have "map (\<lambda>(i, j, k). (i, j, vals ! k)) (row_sites (position_columns pos) r (row_start ?rs r) (row_start ?rs (Suc r)))
      = map (\<lambda>(c, v). (r, c, v)) (sr_entries (?rs ! r))" if r: "r < length ?rs" for r
  proof (rule nth_equalityI)
    let ?e = "sr_entries (?rs ! r)"
    show "length (map (\<lambda>(i, j, k). (i, j, vals ! k)) (row_sites (position_columns pos) r (row_start ?rs r) (row_start ?rs (Suc r))))
      = length (map (\<lambda>(c, v). (r, c, v)) ?e)" by (simp add: row_sites_def row_start_Suc [OF r])
    fix k assume "k < length (map (\<lambda>(i, j, k). (i, j, vals ! k)) (row_sites (position_columns pos) r (row_start ?rs r) (row_start ?rs (Suc r))))"
    then have k: "k < length ?e" by (simp add: row_sites_def row_start_Suc [OF r])
    have e: "?E ! (row_start ?rs r + k) = ?e ! k"
      using nth_concat_row [of r "map sr_entries ?rs" k] r k by (simp add: row_start_def take_map)
    have b: "row_start ?rs r + k < length ?E"
      using k row_start_le [of ?rs "Suc r"] by (simp add: row_start_Suc [OF r])
    obtain c v where cv: "?e ! k = (c, v)" by fastforce
    have "(c, v) \<in> set ?E" using nth_mem [OF b] e cv by simp
    from uc [OF this] show "map (\<lambda>(i, j, k). (i, j, vals ! k))
        (row_sites (position_columns pos) r (row_start ?rs r) (row_start ?rs (Suc r))) ! k = map (\<lambda>(c, v). (r, c, v)) ?e ! k"
      using k b e cv by (simp add: row_sites_def s(2,3) row_start_Suc [OF r])
  qed
  then have "map (\<lambda>(i, j, k). (i, j, vals ! k)) (sites pos) = nonzeros matrix"
    unfolding sites_def nonzeros_def n map_concat map_map comp_def
    by (intro arg_cong [of _ _ concat] map_cong refl) (simp add: row)
  moreover have "positions_valid bound pos"
    unfolding positions_valid_def n
  proof (intro conjI allI impI ballI)
    show "fst (positions_row pos r) \<le> snd (positions_row pos r)" if "r < length ?rs" for r
      using that by (simp add: row row_start_Suc)
    show "snd (positions_row pos r) \<le> length (position_columns pos)" if "r < length ?rs" for r
      using that row_start_le [of ?rs "Suc r"] by (simp add: row s(2))
    fix c assume "c \<in> set (position_columns pos)"
    then obtain a v where "(a, v) \<in> set ?E" "c = word_of_nat a" by (auto simp: s(2))
    with uc [of a v] assms(2) show "unat c < bound" by fastforce
  qed
  ultimately show ?thesis by (simp add: n sm_row_count_def s(2,3))
qed


section \<open>Valid layouts\<close>

definition chunk_len_of :: "nat \<Rightarrow> nat" where
  "chunk_len_of num_vars = 2 ^ min num_vars BIND_CHUNK_COLUMN_VARS"

definition chunk_count_of :: "nat \<Rightarrow> nat" where
  "chunk_count_of num_vars = 2 ^ (num_vars - BIND_CHUNK_COLUMN_VARS)"

lemma chunk_len_pos: "0 < chunk_len_of n"
  by (simp add: chunk_len_of_def)

lemma chunk_total: "chunk_len_of n * chunk_count_of n = 2 ^ n"
proof -
  have "min n BIND_CHUNK_COLUMN_VARS + (n - BIND_CHUNK_COLUMN_VARS) = n" by simp
  then show ?thesis unfolding chunk_len_of_def chunk_count_of_def by (metis power_add)
qed

lemma chunk_count_div: "2 ^ n div chunk_len_of n = chunk_count_of n"
  using chunk_total [of n] chunk_len_pos [of n] by (metis nonzero_mult_div_cancel_left less_not_refl)

lemma chunk_len_min: "min (2 ^ n) (2 ^ BIND_CHUNK_COLUMN_VARS) = chunk_len_of n"
proof (cases "n \<le> BIND_CHUNK_COLUMN_VARS")
  case True
  then have "(2::nat) ^ n \<le> 2 ^ BIND_CHUNK_COLUMN_VARS" by (rule power_increasing) simp
  then show ?thesis using True by (simp only: chunk_len_of_def min_absorb1)
next
  case False
  then have "(2::nat) ^ BIND_CHUNK_COLUMN_VARS \<le> 2 ^ n" by (intro power_increasing) simp_all
  then show ?thesis using False by (simp only: chunk_len_of_def min_absorb2 not_le less_imp_le)
qed

definition chunked :: "nat \<Rightarrow> positions \<Rightarrow> column_chunk_index \<Rightarrow> bool" where
  "chunked num_vars pos index \<longleftrightarrow> ci_chunk_len index = chunk_len_of num_vars \<and> length (ci_spans index) = chunk_count_of num_vars \<and>
     no_empty_span (ci_spans index) \<and>
     (\<forall>c<chunk_count_of num_vars. span_sites (position_columns pos) (ci_spans index ! c)
        = filter (in_chunk (chunk_len_of num_vars) c) (sites pos))"

definition layout_valid :: "layout \<Rightarrow> bool" where
  "layout_valid ly \<longleftrightarrow> length (ly_positions ly) = 3 \<and> length (ly_column_chunks ly) = 3 \<and> ly_num_row_vars ly < 64 \<and> ly_num_column_vars ly < 64 \<and>
     (\<forall>m<3. chunked (ly_num_column_vars ly) (ly_positions ly ! m) (ly_column_chunks ly ! m) \<and>
        (\<forall>(i, j, k)\<in>set (sites (ly_positions ly ! m)). i < 2 ^ ly_num_row_vars ly \<and> j < 2 ^ ly_num_column_vars ly \<and>
           k < length (position_columns (ly_positions ly ! m))))"

text \<open>The values of a prepared matrix reach every site.\<close>

definition prepared_valid :: "'a prepared_constraint_matrices \<Rightarrow> bool" where
  "prepared_valid self \<longleftrightarrow> layout_valid (pcm_layout self) \<and>
     (\<forall>m<3. \<forall>(i, j, k)\<in>set (sites (ly_positions (pcm_layout self) ! m)). k < length (pcm_values self ! m))"

section \<open>Sums over sites\<close>

definition site_sum :: "(nat \<Rightarrow> nat \<Rightarrow> 'a::field) \<Rightarrow> 'a list \<Rightarrow> (nat \<times> nat \<times> nat) list \<Rightarrow> 'a" where
  "site_sum f vals ss = sum_list (map (\<lambda>(i, j, k). f i j * vals ! k) ss)"

lemma site_sum_simps [simp]:
  "site_sum f vals [] = 0" "site_sum f vals ((i, j, k) # ss) = f i j * vals ! k + site_sum f vals ss"
  "site_sum f vals (xs @ ys) = site_sum f vals xs + site_sum f vals ys"
  by (simp_all add: site_sum_def)

lemma site_sum_cong:
  "(\<And>i j k. (i, j, k) \<in> set ss \<Longrightarrow> f i j = g i j) \<Longrightarrow> site_sum f vals ss = site_sum g vals ss"
  unfolding site_sum_def by (rule arg_cong [of _ _ sum_list]) (auto intro!: map_cong)

lemma site_sum_scale: "c * site_sum f vals ss = site_sum (\<lambda>i j. c * f i j) vals ss"
  by (simp add: site_sum_def sum_list_const_mult [symmetric] case_prod_unfold mult.assoc)

lemma site_sum_filter: "site_sum f vals (filter P ss) = sum_list (map (\<lambda>s. if P s then f (fst s) (fst (snd s)) * vals ! snd (snd s) else 0) ss)"
  by (induction ss) auto

text \<open>The chunks partition the sites.\<close>

lemma site_sum_chunks:
  assumes "\<forall>(i, j, k)\<in>set ss. j < chunk_len * chunk_count" "0 < chunk_len"
  shows "(\<Sum>c<chunk_count. h c * site_sum (g c) vals (filter (in_chunk chunk_len c) ss))
    = site_sum (\<lambda>i j. h (j div chunk_len) * g (j div chunk_len) i j) vals ss"
  using assms(1)
proof (induction ss)
  case (Cons site ss)
  obtain i j k where s: "site = (i, j, k)" by (metis prod_cases3)
  have c: "j div chunk_len < chunk_count" using Cons.prems s by (simp add: less_mult_imp_div_less mult.commute)
  have "(\<Sum>c<chunk_count. h c * site_sum (g c) vals (filter (in_chunk chunk_len c) (site # ss)))
      = (\<Sum>c<chunk_count. (if c = j div chunk_len then h c * (g c i j * vals ! k) else 0)
          + h c * site_sum (g c) vals (filter (in_chunk chunk_len c) ss))"
    by (intro sum.cong refl) (auto simp: s in_chunk_def distrib_left)
  also have "\<dots> = h (j div chunk_len) * (g (j div chunk_len) i j * vals ! k)
      + site_sum (\<lambda>i j. h (j div chunk_len) * g (j div chunk_len) i j) vals ss"
    using Cons c by (simp add: sum.distrib)
  finally show ?case by (simp add: s mult.assoc)
qed simp

text \<open>A table entry times a weight, summed over the table.\<close>

lemma site_sum_columns:
  assumes "\<forall>(i, j, k)\<in>set ss. j < n"
  shows "(\<Sum>j<n. g j * site_sum (\<lambda>i j'. if j' = j then w i else 0) vals ss) = site_sum (\<lambda>i j. w i * g j) vals ss"
  using assms
proof (induction ss)
  case (Cons site ss)
  obtain i j' k where s: "site = (i, j', k)" by (metis prod_cases3)
  have "(\<Sum>j<n. g j * site_sum (\<lambda>i j'. if j' = j then w i else 0) vals (site # ss))
      = (\<Sum>j<n. (if j' = j then g j * (w i * vals ! k) else 0) + g j * site_sum (\<lambda>i j'. if j' = j then w i else 0) vals ss)"
    by (intro sum.cong refl) (simp add: s distrib_left)
  also have "\<dots> = g j' * (w i * vals ! k) + site_sum (\<lambda>i j. w i * g j) vals ss"
    using Cons s by (simp add: sum.distrib)
  finally show ?case by (simp add: s mult.assoc mult.left_commute)
qed simp

text \<open>The batched sum, with the scales \<open>1\<close>, \<open>rho\<close> and \<open>rho\<close> squared.\<close>

definition batch_sum :: "'a::field prepared_constraint_matrices \<Rightarrow> 'a \<Rightarrow> (nat \<Rightarrow> nat \<Rightarrow> 'a) \<Rightarrow> 'a" where
  "batch_sum self rho f = sum_list (map (\<lambda>(pos, index, vals, scale). scale * site_sum f vals (sites pos)) (batched self rho))"

lemma batched_valid:
  assumes "layout_valid (pcm_layout self)" "(pos, index, vals, scale) \<in> set (batched self rho)"
  shows "chunked (num_column_vars self) pos index"
    "\<forall>(i, j, k)\<in>set (sites pos). i < 2 ^ num_row_vars self \<and> j < 2 ^ num_column_vars self"
  using assms by (fastforce simp: batched_def layout_valid_def num_column_vars_def num_row_vars_def Let_def)+

lemma batched_indices:
  assumes "prepared_valid self" "(pos, index, vals, scale) \<in> set (batched self rho)"
  shows "\<forall>(i, j, k)\<in>set (sites pos). k < length (position_columns pos) \<and> k < length vals"
  using assms by (fastforce simp: batched_def prepared_valid_def layout_valid_def Let_def)

lemma sum_list_swap: "(\<Sum>j<n. sum_list (map (f j) xs)) = sum_list (map (\<lambda>x. \<Sum>j<n. f j x) xs)"
  for f :: "nat \<Rightarrow> 'b \<Rightarrow> 'a::comm_monoid_add"
  by (induction xs) (simp_all add: sum.distrib)

section \<open>The dense table of the prover\<close>

lemma fold_add_nth:
  assumes "\<And>x out. length (h x out) = length out" "\<And>x out. x \<in> set xs \<Longrightarrow> m < length out \<Longrightarrow> h x out ! m = out ! m + (G x :: 'a::field)"
  shows "length (fold h xs out) = length out \<and> (m < length out \<longrightarrow> fold h xs out ! m = out ! m + sum_list (map G xs))"
  using assms(2) by (induction xs arbitrary: out) (simp_all add: assms(1) add.assoc)

text \<open>The values the kernels compute where all their indices are in range.\<close>

definition bound_span ::
  "positions \<Rightarrow> 'a::field list \<Rightarrow> nat \<Rightarrow> 'a \<Rightarrow> row_span \<Rightarrow> 'a list \<Rightarrow> 'a list" where
  "bound_span positions vals base row_scale span output =
     fold (\<lambda>k output. let j = unat (position_columns positions ! k) - base
                      in output[j := output ! j + row_scale * vals ! k]) [rs_start span..<rs_end span] output"

definition bound_chunk ::
  "(positions \<times> column_chunk_index \<times> 'a::field list \<times> 'a) list \<Rightarrow> 'a list \<Rightarrow> nat \<Rightarrow> nat \<Rightarrow> 'a list" where
  "bound_chunk batch row_table chunk_len chunk =
     fold (\<lambda>(positions, index, vals, batch_scale) output.
         fold (\<lambda>span output. bound_span positions vals (chunk * chunk_len) (row_table ! rs_row span * batch_scale) span output)
           (ci_spans index ! chunk) output)
       batch (replicate chunk_len 0)"

definition span_value ::
  "positions \<Rightarrow> 'a::field list \<Rightarrow> 'a list \<Rightarrow> nat \<Rightarrow> row_span \<Rightarrow> 'a" where
  "span_value positions vals low_table base span =
     foldl (\<lambda>s k. s + low_table ! (unat (position_columns positions ! k) - base) * vals ! k) 0 [rs_start span..<rs_end span]"

definition chunk_value ::
  "(positions \<times> column_chunk_index \<times> 'a::field list \<times> 'a) list \<Rightarrow> 'a list \<Rightarrow> 'a list \<Rightarrow> nat \<Rightarrow> nat \<Rightarrow> 'a" where
  "chunk_value batch row_table low_table chunk_len chunk =
     foldl (\<lambda>chunk_sum (positions, index, vals, batch_scale).
         let matrix_sum = foldl (\<lambda>s span. s + row_table ! rs_row span
                              * span_value positions vals low_table (chunk * chunk_len) span) 0 (ci_spans index ! chunk)
         in chunk_sum + batch_scale * matrix_sum) 0 batch"

text \<open>What the kernels need of a batch: every entry of a span of the chunk lies in the row table, in the
  chunk's columns and among the values.\<close>

definition spans_in_range :: "nat \<Rightarrow> nat \<Rightarrow> nat \<Rightarrow> positions \<times> column_chunk_index \<times> 'a list \<times> 'a \<Rightarrow> bool" where
  "spans_in_range rows chunk_len chunk b \<longleftrightarrow> (case b of (positions, index, vals, scale) \<Rightarrow>
     chunk < length (ci_spans index) \<and> (\<forall>span\<in>set (ci_spans index ! chunk). rs_row span < rows \<and>
       (\<forall>k. rs_start span \<le> k \<and> k < rs_end span \<longrightarrow> k < length (position_columns positions) \<and> k < length vals \<and>
          chunk * chunk_len \<le> unat (position_columns positions ! k) \<and>
          unat (position_columns positions ! k) - chunk * chunk_len < chunk_len)))"

lemma bind_span_Some:
  assumes "\<And>k. rs_start span \<le> k \<Longrightarrow> k < rs_end span \<Longrightarrow> k < length (position_columns pos) \<and> k < length vals \<and>
      base \<le> unat (position_columns pos ! k) \<and> unat (position_columns pos ! k) - base < length out"
  shows "bind_span pos vals base c span out = Some (bound_span pos vals base c span out) \<and>
    length (bound_span pos vals base c span out) = length out"
  unfolding bind_span_def bound_span_def
  by (rule fold_option_some [where P = "\<lambda>output. length output = length out"]) (use assms in \<open>simp_all add: Let_def\<close>)

lemma bind_chunk_Some:
  assumes "\<And>b. b \<in> set batch \<Longrightarrow> spans_in_range (length rt) l c b"
  shows "bind_chunk batch rt l c = Some (bound_chunk batch rt l c)"
proof -
  have "fold_option (\<lambda>output (positions, index, vals, batch_scale). Option.bind (slice_get (ci_spans index) c) (\<lambda>spans.
        fold_option (\<lambda>output span. Option.bind (slice_get rt (rs_row span)) (\<lambda>weight.
          bind_span positions vals (c * l) (weight * batch_scale) span output)) output spans)) (replicate l 0) batch
      = Some (fold (\<lambda>(positions, index, vals, batch_scale) output.
         fold (\<lambda>span output. bound_span positions vals (c * l) (rt ! rs_row span * batch_scale) span output)
           (ci_spans index ! c) output) batch (replicate l 0)) \<and>
      length (fold (\<lambda>(positions, index, vals, batch_scale) output.
         fold (\<lambda>span output. bound_span positions vals (c * l) (rt ! rs_row span * batch_scale) span output)
           (ci_spans index ! c) output) batch (replicate l 0)) = l"
  proof (rule fold_option_some [where P = "\<lambda>output. length output = l"])
    fix b and out :: "'a list" assume b: "b \<in> set batch" and out: "length out = l"
    obtain pos index vals scale where e: "b = (pos, index, vals, scale)" by (metis prod_cases4)
    note r = assms [OF b, unfolded e spans_in_range_def prod.case]
    have "fold_option (\<lambda>output span. Option.bind (slice_get rt (rs_row span)) (\<lambda>weight.
          bind_span pos vals (c * l) (weight * scale) span output)) out (ci_spans index ! c)
        = Some (fold (\<lambda>span output. bound_span pos vals (c * l) (rt ! rs_row span * scale) span output) (ci_spans index ! c) out) \<and>
        length (fold (\<lambda>span output. bound_span pos vals (c * l) (rt ! rs_row span * scale) span output) (ci_spans index ! c) out) = l"
      by (rule fold_option_some [where P = "\<lambda>output. length output = l"])
        (use r out bind_span_Some [of _ pos vals "c * l"] in auto)
    with r show "(case b of (positions, index, vals, batch_scale) \<Rightarrow> Option.bind (slice_get (ci_spans index) c) (\<lambda>spans.
          fold_option (\<lambda>output span. Option.bind (slice_get rt (rs_row span)) (\<lambda>weight.
            bind_span positions vals (c * l) (weight * batch_scale) span output)) out spans))
        = Some ((case b of (positions, index, vals, batch_scale) \<Rightarrow> \<lambda>output.
           fold (\<lambda>span output. bound_span positions vals (c * l) (rt ! rs_row span * batch_scale) span output)
             (ci_spans index ! c) output) out) \<and>
        length ((case b of (positions, index, vals, batch_scale) \<Rightarrow> \<lambda>output.
           fold (\<lambda>span output. bound_span positions vals (c * l) (rt ! rs_row span * batch_scale) span output)
             (ci_spans index ! c) output) out) = l"
      by (simp add: e)
  qed simp
  then show ?thesis by (simp add: bind_chunk_def bound_chunk_def)
qed

lemma evaluate_span_Some:
  assumes "\<And>k. rs_start span \<le> k \<Longrightarrow> k < rs_end span \<Longrightarrow> k < length (position_columns pos) \<and> k < length vals \<and>
      base \<le> unat (position_columns pos ! k) \<and> unat (position_columns pos ! k) - base < length lt"
  shows "evaluate_span pos vals lt base span = Some (span_value pos vals lt base span)"
  unfolding evaluate_span_def span_value_def foldl_conv_fold
  by (rule fold_option_fold) (use assms in simp)

lemma evaluate_chunk_Some:
  assumes "\<And>b. b \<in> set batch \<Longrightarrow> spans_in_range (length rt) l c b" "length lt = l"
  shows "evaluate_chunk batch rt lt l c = Some (chunk_value batch rt lt l c)"
proof -
  have "fold_option (\<lambda>s span. Option.bind (evaluate_span pos vals lt (c * l) span) (\<lambda>span_sum.
        Option.bind (slice_get rt (rs_row span)) (\<lambda>weight. Some (s + weight * span_sum)))) 0 (ci_spans index ! c)
      = Some (foldl (\<lambda>s span. s + rt ! rs_row span * span_value pos vals lt (c * l) span) 0 (ci_spans index ! c))"
    if "(pos, index, vals, scale) \<in> set batch" for pos index vals scale
    unfolding foldl_conv_fold
    by (rule fold_option_fold) (use assms(1) [OF that] assms(2) evaluate_span_Some [of _ pos vals "c * l" lt] in \<open>auto simp: spans_in_range_def\<close>)
  note spans = this
  show ?thesis
    unfolding evaluate_chunk_def chunk_value_def foldl_conv_fold
  proof (rule fold_option_fold)
    fix b and s :: 'a assume b: "b \<in> set batch"
    obtain pos index vals scale where e: "b = (pos, index, vals, scale)" by (metis prod_cases4)
    show "(case b of (positions, index, vals, batch_scale) \<Rightarrow> Option.bind (slice_get (ci_spans index) c) (\<lambda>spans.
        Option.bind (fold_option (\<lambda>s span. Option.bind (evaluate_span positions vals lt (c * l) span) (\<lambda>span_sum.
          Option.bind (slice_get rt (rs_row span)) (\<lambda>weight. Some (s + weight * span_sum)))) 0 spans)
        (\<lambda>matrix_sum. Some (s + batch_scale * matrix_sum))))
      = Some ((case b of (positions, index, vals, batch_scale) \<Rightarrow>
          let matrix_sum = fold (\<lambda>span s. s + rt ! rs_row span * span_value positions vals lt (c * l) span) (ci_spans index ! c) 0
          in s + batch_scale * matrix_sum))"
      using spans [OF b [unfolded e]] assms(1) [OF b] by (simp add: e spans_in_range_def foldl_conv_fold Let_def)
  qed
qed

lemma bound_span_nth:
  "length (bound_span pos vals base c span out) = length out \<and> (m < length out \<longrightarrow> bound_span pos vals base c span out ! m
    = out ! m + site_sum (\<lambda>i j. if j - base = m then c else 0) vals (row_sites (position_columns pos) (rs_row span) (rs_start span) (rs_end span)))"
proof -
  have "site_sum (\<lambda>i j. if j - base = m then c else 0) vals (row_sites (position_columns pos) (rs_row span) (rs_start span) (rs_end span))
      = sum_list (map (\<lambda>k. if unat (position_columns pos ! k) - base = m then c * vals ! k else 0) [rs_start span..<rs_end span])"
    unfolding site_sum_def row_sites_def map_map by (intro arg_cong [of _ _ sum_list] map_cong refl) simp
  then show ?thesis unfolding bound_span_def Let_def
    using fold_add_nth [of "\<lambda>k out. out[unat (position_columns pos ! k) - base := out ! (unat (position_columns pos ! k) - base) + c * vals ! k]"
        "[rs_start span..<rs_end span]" m "\<lambda>k. if unat (position_columns pos ! k) - base = m then c * vals ! k else 0" out]
    by (simp add: nth_list_update)
qed

lemma bound_spans_nth:
  "length (fold (\<lambda>span. bound_span pos vals base (rt ! rs_row span * scale) span) spans out) = length out \<and>
    (m < length out \<longrightarrow> fold (\<lambda>span. bound_span pos vals base (rt ! rs_row span * scale) span) spans out ! m
      = out ! m + scale * site_sum (\<lambda>i j. if j - base = m then rt ! i else 0) vals (span_sites (position_columns pos) spans))"
proof -
  let ?G = "\<lambda>span. scale * site_sum (\<lambda>i j. if j - base = m then rt ! i else 0) vals
      (row_sites (position_columns pos) (rs_row span) (rs_start span) (rs_end span))"
  have g: "site_sum (\<lambda>i j. if j - base = m then rt ! rs_row span * scale else 0) vals
      (row_sites (position_columns pos) (rs_row span) (rs_start span) (rs_end span)) = ?G span" for span
    unfolding site_sum_scale by (rule site_sum_cong) (auto simp: row_sites_def)
  have "sum_list (map ?G spans) = scale * site_sum (\<lambda>i j. if j - base = m then rt ! i else 0) vals (span_sites (position_columns pos) spans)"
    by (induction spans) (simp_all add: span_sites_def distrib_left)
  then show ?thesis
    using fold_add_nth [of "\<lambda>span. bound_span pos vals base (rt ! rs_row span * scale) span" spans m ?G out]
      bound_span_nth [of pos vals base _ _ _ m] by (simp add: g)
qed

lemmas length_bound_spans = conjunct1 [OF bound_spans_nth]

lemma length_bound_chunk: "length (bound_chunk batch rt l c) = l"
proof -
  have "length (fold (\<lambda>(pos, index, vals, scale) out.
      fold (\<lambda>span out. bound_span pos vals (c * l) (rt ! rs_row span * scale) span out) (ci_spans index ! c) out) batch out) = length out"
    for out by (induction batch arbitrary: out) (auto simp: length_bound_spans)
  then show ?thesis by (simp add: bound_chunk_def)
qed

lemma bound_chunk_nth:
  assumes "\<And>pos index vals scale. (pos, index, vals, scale) \<in> set batch \<Longrightarrow> chunked n pos index"
    "c < chunk_count_of n" "m < chunk_len_of n"
  shows "bound_chunk batch rt (chunk_len_of n) c ! m = sum_list (map (\<lambda>(pos, index, vals, scale).
    scale * site_sum (\<lambda>i j. if j = c * chunk_len_of n + m then rt ! i else 0) vals (sites pos)) batch)"
proof -
  let ?l = "chunk_len_of n"
  let ?h = "\<lambda>(pos, index, vals, scale) out.
      fold (\<lambda>span out. bound_span pos vals (c * ?l) (rt ! rs_row span * scale) span out) (ci_spans index ! c) out"
  let ?G = "\<lambda>(pos, index, vals, scale). scale * site_sum (\<lambda>i j. if j = c * ?l + m then rt ! i else 0) vals (sites pos)"
  have step: "?h x out ! m = out ! m + ?G x" if x: "x \<in> set batch" and m: "m < length out" for x out
  proof -
    obtain pos index vals scale where e: "x = (pos, index, vals, scale)" by (metis prod_cases4)
    have s: "span_sites (position_columns pos) (ci_spans index ! c) = filter (in_chunk ?l c) (sites pos)"
      using assms(1,2) x e unfolding chunked_def by blast
    have "(if in_chunk ?l c (i, j, k) then if j - c * ?l = m then rt ! i else 0 else 0) = (if j = c * ?l + m then rt ! i else 0)" for i j k
    proof (cases "j div ?l = c")
      case True
      then have "c * ?l \<le> j" by (metis div_times_less_eq_dividend)
      then show ?thesis using True by (auto simp: in_chunk_def)
    next
      case False
      then have "j \<noteq> c * ?l + m" using assms(3) by auto
      then show ?thesis using False by (simp add: in_chunk_def)
    qed
    note entry = this
    have "(if in_chunk ?l c s then (if fst (snd s) - c * ?l = m then rt ! fst s else 0) * vals ! snd (snd s) else 0)
        = (case s of (i, j, k) \<Rightarrow> (if j = c * ?l + m then rt ! i else 0) * vals ! k)" for s
      using entry [of "fst s" "fst (snd s)" "snd (snd s)"] by (cases "in_chunk ?l c s") (simp_all add: case_prod_unfold)
    then have "site_sum (\<lambda>i j. if j - c * ?l = m then rt ! i else 0) vals (filter (in_chunk ?l c) (sites pos))
        = site_sum (\<lambda>i j. if j = c * ?l + m then rt ! i else 0) vals (sites pos)"
      unfolding site_sum_filter unfolding site_sum_def by simp
    then show ?thesis using m bound_spans_nth [of pos vals "c * ?l" rt scale "ci_spans index ! c" out m] by (simp add: e s)
  qed
  have "length (?h x out) = length out" for x out
    by (cases x) (auto simp: length_bound_spans)
  from fold_add_nth [of ?h batch m ?G "replicate ?l 0", OF this step] assms(3)
  show ?thesis by (simp add: bound_chunk_def)
qed


text \<open>A valid layout keeps every index of its chunks in range.\<close>

lemma batched_in_range:
  assumes "prepared_valid self" "c < chunk_count_of (num_column_vars self)" "b \<in> set (batched self rho)"
  shows "spans_in_range (2 ^ num_row_vars self) (chunk_len_of (num_column_vars self)) c b"
proof -
  let ?l = "chunk_len_of (num_column_vars self)"
  obtain pos index vals scale where e: "b = (pos, index, vals, scale)" by (metis prod_cases4)
  have lv: "layout_valid (pcm_layout self)" using assms(1) by (simp add: prepared_valid_def)
  note v = batched_valid [OF lv assms(3) [unfolded e]] batched_indices [OF assms(1) assms(3) [unfolded e]]
  have c: "c < length (ci_spans index)" "span_sites (position_columns pos) (ci_spans index ! c) = filter (in_chunk ?l c) (sites pos)"
    "no_empty_span (ci_spans index)" using v(1) assms(2) by (simp_all add: chunked_def)
  have site: "(rs_row span, unat (position_columns pos ! k), k) \<in> set (sites pos) \<and> unat (position_columns pos ! k) div ?l = c"
    if "span \<in> set (ci_spans index ! c)" "rs_start span \<le> k" "k < rs_end span" for span k
  proof -
    have "(rs_row span, unat (position_columns pos ! k), k) \<in> set (span_sites (position_columns pos) (ci_spans index ! c))"
      using that by (force simp: span_sites_def row_sites_def)
    then show ?thesis unfolding c(2) by (simp add: in_chunk_def)
  qed
  have "rs_row span < 2 ^ num_row_vars self" if "span \<in> set (ci_spans index ! c)" for span
  proof -
    have "rs_start span < rs_end span" using c(1,3) that unfolding no_empty_span_def by (metis nth_mem)
    with site [OF that le_refl] v(2) show ?thesis by fastforce
  qed
  moreover have "k < length (position_columns pos) \<and> k < length vals \<and> c * ?l \<le> unat (position_columns pos ! k) \<and>
      unat (position_columns pos ! k) - c * ?l < ?l"
    if "span \<in> set (ci_spans index ! c)" "rs_start span \<le> k" "k < rs_end span" for span k
  proof -
    have d: "unat (position_columns pos ! k) div ?l = c" using site [OF that] by simp
    then have "c * ?l \<le> unat (position_columns pos ! k)" by (metis div_times_less_eq_dividend)
    moreover have "unat (position_columns pos ! k) - c * ?l < ?l"
      using d chunk_len_pos [of "num_column_vars self"] by (metis minus_div_mult_eq_mod mod_less_divisor)
    ultimately show ?thesis using v(3) site [OF that] by fastforce
  qed
  ultimately show ?thesis using c(1) by (simp add: spans_in_range_def e)
qed

lemma batched_chunk_len:
  "layout_valid (pcm_layout self) \<Longrightarrow> ci_chunk_len (ly_column_chunks (pcm_layout self) ! 0) = chunk_len_of (num_column_vars self)"
  by (simp add: layout_valid_def chunked_def num_column_vars_def)

lemma bind_and_batch_table:
  assumes "prepared_valid self" "length row_point = num_row_vars self"
  shows "bind_and_batch self row_point rho = Some (Inr \<lparr>evaluations = map (\<lambda>j. batch_sum self rho
    (\<lambda>i j'. if j' = j then eq_weight row_point i else 0)) [0..<2 ^ num_column_vars self]\<rparr>)"
proof -
  have lv: "layout_valid (pcm_layout self)" using assms(1) by (simp add: prepared_valid_def)
  let ?n = "num_column_vars self" let ?l = "chunk_len_of ?n" and ?c = "chunk_count_of ?n"
  let ?chunk = "bound_chunk (batched self rho) (eq_table row_point) ?l"
  let ?E = "concat (map ?chunk [0..<2 ^ ?n div ?l])"
  let ?T = "map (\<lambda>j. batch_sum self rho (\<lambda>i j'. if j' = j then eq_weight row_point i else 0)) [0..<2 ^ ?n]"
  note len = length_bound_chunk
  have entry: "?chunk c ! m = ?T ! (c * ?l + m)" if "c < ?c" "m < ?l" for c m
  proof -
    have "c * ?l + m < ?c * ?l" using that mult_le_mono1 [of "Suc c" ?c ?l] by simp
    then have b: "c * ?l + m < 2 ^ ?n" by (metis chunk_total mult.commute)
    have "eq_table row_point ! i = eq_weight row_point i" if "i < 2 ^ num_row_vars self" for i
      using that assms(2) by (simp add: eq_table_weights)
    then have "site_sum (\<lambda>i j. if j = c * ?l + m then eq_table row_point ! i else 0) vals (sites pos)
        = site_sum (\<lambda>i j. if j = c * ?l + m then eq_weight row_point i else 0) vals (sites pos)"
      if "(pos, index, vals, scale) \<in> set (batched self rho)" for pos index vals scale
      using batched_valid(2) [OF lv that] by (intro site_sum_cong) auto
    note sums = this
    have "?chunk c ! m = sum_list (map (\<lambda>(pos, index, vals, scale).
        scale * site_sum (\<lambda>i j. if j = c * ?l + m then eq_table row_point ! i else 0) vals (sites pos)) (batched self rho))"
      by (rule bound_chunk_nth [OF _ \<open>c < ?c\<close> \<open>m < ?l\<close>]) (rule batched_valid(1) [OF lv])
    then show ?thesis using b sums by (auto simp: batch_sum_def intro!: arg_cong [of _ _ sum_list] map_cong)
  qed
  have "?E = ?T"
  proof (rule list_by_grid2 [of _ ?l ?c])
    fix c m assume cm: "c < ?c" "m < ?l"
    have "?E ! (length (concat (take c (map ?chunk [0..<?c]))) + m) = map ?chunk [0..<?c] ! c ! m"
      unfolding chunk_count_div using cm by (intro nth_concat_row) (simp_all add: len)
    moreover have "length (concat (take c (map ?chunk [0..<?c]))) = c * ?l"
      using cm by (simp add: length_concat take_map comp_def len sum_list_triv)
    ultimately show "?E ! (c * ?l + m) = ?T ! (c * ?l + m)" using entry [OF cm] cm by simp
  qed (use chunk_total [of ?n] in \<open>simp_all add: length_concat comp_def len sum_list_triv chunk_count_div mult.commute\<close>)
  moreover have "length ?T = 2 ^ ?n" "?n < 64" using lv by (simp_all add: layout_valid_def num_column_vars_def)
  moreover have "those (map (bind_chunk (batched self rho) (eq_table row_point) ?l) [0..<2 ^ ?n div ?l]) = Some (map ?chunk [0..<2 ^ ?n div ?l])"
    unfolding chunk_count_div
  proof (rule those_map_Some)
    fix c assume "c \<in> set [0..<?c]"
    then have "c < ?c" by simp
    from batched_in_range [OF assms(1) this] show "bind_chunk (batched self rho) (eq_table row_point) ?l c = Some (?chunk c)"
      by (intro bind_chunk_Some) (simp add: assms(2))
  qed
  moreover have "slice_get (ly_column_chunks (pcm_layout self)) 0 = Some (ly_column_chunks (pcm_layout self) ! 0)"
    using lv by (simp add: layout_valid_def)
  ultimately show ?thesis
    using assms(2) chunk_len_pos [of ?n] batched_chunk_len [OF lv]
    by (simp add: bind_and_batch_def Let_def mle_from_evaluations_def num_row_vars_def num_column_vars_def)
qed

section \<open>The sparse evaluation of the verifier\<close>

lemma foldl_add_sum_list: "foldl (\<lambda>s x. s + f x) a xs = a + sum_list (map f xs)" for a :: "'a::comm_monoid_add"
  by (induction xs arbitrary: a) (simp_all add: add.assoc)

lemma sum_enumerate_upt: "sum_list (map (\<lambda>(c, w). w * f c) (enumerate 0 (map g [0..<n]))) = (\<Sum>c<n. g c * f c)"
  for g :: "nat \<Rightarrow> 'a::comm_semiring_1"
proof -
  have "enumerate 0 (map g [0..<n]) = map (\<lambda>c. (c, g c)) [0..<n]"
    by (rule nth_equalityI) (simp_all add: nth_enumerate_eq)
  then show ?thesis by (simp add: comp_def interv_sum_list_conv_sum_set_nat atLeast0LessThan)
qed

lemma chunk_value_sum:
  "chunk_value batch rt lt l c = sum_list (map (\<lambda>(pos, index, vals, scale).
     scale * site_sum (\<lambda>i j. rt ! i * lt ! (j - c * l)) vals (span_sites (position_columns pos) (ci_spans index ! c))) batch)"
proof -
  have span: "rt ! rs_row span * span_value pos vals lt (c * l) span
      = site_sum (\<lambda>i j. rt ! i * lt ! (j - c * l)) vals (row_sites (position_columns pos) (rs_row span) (rs_start span) (rs_end span))"
    for pos vals span
    by (simp add: span_value_def foldl_add_sum_list site_sum_def row_sites_def comp_def sum_list_const_mult [symmetric] mult.assoc)
  have "sum_list (map (\<lambda>span. rt ! rs_row span * span_value pos vals lt (c * l) span) spans)
      = site_sum (\<lambda>i j. rt ! i * lt ! (j - c * l)) vals (span_sites (position_columns pos) spans)" for pos vals spans
    unfolding span by (induction spans) (simp_all add: span_sites_def)
  note sum = this
  have "foldl (\<lambda>s (pos, index, vals, scale). s + scale
        * foldl (\<lambda>s span. s + rt ! rs_row span * span_value pos vals lt (c * l) span) 0 (ci_spans index ! c)) a batch
      = a + sum_list (map (\<lambda>(pos, index, vals, scale).
          scale * site_sum (\<lambda>i j. rt ! i * lt ! (j - c * l)) vals (span_sites (position_columns pos) (ci_spans index ! c))) batch)" for a
    by (induction batch arbitrary: a) (auto simp: foldl_add_sum_list sum add.assoc)
  from this [of 0] show ?thesis by (simp add: chunk_value_def Let_def)
qed

lemma evaluate_batched_sum:
  assumes "prepared_valid self" "length row_point = num_row_vars self" "length column_point = num_column_vars self"
  shows "evaluate_batched self row_point rho column_point
    = Some (Inr (batch_sum self rho (\<lambda>i j. eq_weight row_point i * eq_weight column_point j)))"
proof -
  have lv: "layout_valid (pcm_layout self)" using assms(1) by (simp add: prepared_valid_def)
  let ?n = "num_column_vars self" let ?l = "chunk_len_of ?n" and ?c = "chunk_count_of ?n"
  let ?b = "min ?n BIND_CHUNK_COLUMN_VARS"
  let ?lo = "take ?b column_point" and ?hi = "drop ?b column_point"
  have b: "bitlen ?l - 1 = ?b" by (simp add: chunk_len_of_def bitlen_power2)
  have hi: "length (eq_table ?hi) = ?c" using assms(3) by (simp add: chunk_count_of_def)
  have weight: "eq_weight ?hi (j div ?l) * (eq_table row_point ! i * eq_table ?lo ! (j - j div ?l * ?l))
      = eq_weight row_point i * eq_weight column_point j"
    if "i < 2 ^ num_row_vars self" "j < 2 ^ ?n" for i j
  proof -
    have l: "2 ^ length ?lo = ?l" using assms(3) by (simp add: chunk_len_of_def)
    have "j - j div ?l * ?l = j mod ?l" by (simp add: minus_div_mult_eq_mod)
    moreover have m: "j mod ?l < ?l" by (simp add: chunk_len_pos)
    moreover have "eq_weight column_point j = eq_weight ?lo (j mod ?l) * eq_weight ?hi (j div ?l)"
      using eq_weight_append [of "j mod ?l" ?lo ?hi "j div ?l"] m unfolding l by simp
    ultimately show ?thesis using that assms(2) l by (simp add: eq_table_weights mult.left_commute mult.commute)
  qed
  have "(\<Sum>c<?c. eq_weight ?hi c * (scale * site_sum (\<lambda>i j. eq_table row_point ! i * eq_table ?lo ! (j - c * ?l)) vals
        (span_sites (position_columns pos) (ci_spans index ! c))))
      = scale * site_sum (\<lambda>i j. eq_weight row_point i * eq_weight column_point j) vals (sites pos)"
    if x: "(pos, index, vals, scale) \<in> set (batched self rho)" for pos index vals scale
  proof -
    note v = batched_valid [OF lv x]
    have "(\<Sum>c<?c. eq_weight ?hi c * (scale * site_sum (\<lambda>i j. eq_table row_point ! i * eq_table ?lo ! (j - c * ?l)) vals
          (span_sites (position_columns pos) (ci_spans index ! c))))
        = scale * (\<Sum>c<?c. eq_weight ?hi c * site_sum (\<lambda>i j. eq_table row_point ! i * eq_table ?lo ! (j - c * ?l)) vals
          (filter (in_chunk ?l c) (sites pos)))"
      unfolding sum_distrib_left using v(1) by (intro sum.cong refl) (simp add: chunked_def mult.left_commute)
    also have "(\<Sum>c<?c. eq_weight ?hi c * site_sum (\<lambda>i j. eq_table row_point ! i * eq_table ?lo ! (j - c * ?l)) vals
          (filter (in_chunk ?l c) (sites pos)))
        = site_sum (\<lambda>i j. eq_weight ?hi (j div ?l) * (eq_table row_point ! i * eq_table ?lo ! (j - j div ?l * ?l))) vals (sites pos)"
      using v(2) by (intro site_sum_chunks) (auto simp: chunk_total chunk_len_pos)
    also have "\<dots> = site_sum (\<lambda>i j. eq_weight row_point i * eq_weight column_point j) vals (sites pos)"
      using v(2) by (intro site_sum_cong weight) auto
    finally show ?thesis .
  qed
  note matrix = this
  have "sum_list (map (\<lambda>(c, w). w * chunk_value (batched self rho) (eq_table row_point) (eq_table ?lo) ?l c) (enumerate 0 (eq_table ?hi)))
      = (\<Sum>c<?c. eq_weight ?hi c * chunk_value (batched self rho) (eq_table row_point) (eq_table ?lo) ?l c)"
    unfolding eq_table_weights [of ?hi] sum_enumerate_upt hi [unfolded length_eq_table] ..
  also have "\<dots> = (\<Sum>c<?c. sum_list (map (\<lambda>(pos, index, vals, scale). eq_weight ?hi c * (scale
      * site_sum (\<lambda>i j. eq_table row_point ! i * eq_table ?lo ! (j - c * ?l)) vals (span_sites (position_columns pos) (ci_spans index ! c))))
        (batched self rho)))"
    by (simp add: chunk_value_sum sum_list_const_mult [symmetric] case_prod_unfold)
  also have "\<dots> = batch_sum self rho (\<lambda>i j. eq_weight row_point i * eq_weight column_point j)"
    unfolding sum_list_swap batch_sum_def using matrix by (intro arg_cong [of _ _ sum_list] map_cong refl) auto
  finally have summed: "sum_list (map (\<lambda>(c, w). w * chunk_value (batched self rho) (eq_table row_point) (eq_table ?lo) ?l c) (enumerate 0 (eq_table ?hi)))
    = batch_sum self rho (\<lambda>i j. eq_weight row_point i * eq_weight column_point j)" .
  have "those (map (\<lambda>(c, w). map_option ((*) w) (evaluate_chunk (batched self rho) (eq_table row_point) (eq_table ?lo) ?l c)) (enumerate 0 (eq_table ?hi)))
      = Some (map (\<lambda>(c, w). w * chunk_value (batched self rho) (eq_table row_point) (eq_table ?lo) ?l c) (enumerate 0 (eq_table ?hi)))"
  proof (rule those_map_Some)
    fix x assume x: "x \<in> set (enumerate 0 (eq_table ?hi))"
    then have "fst x < ?c" using hi by (auto simp: in_set_enumerate_eq)
    from batched_in_range [OF assms(1) this]
    have "evaluate_chunk (batched self rho) (eq_table row_point) (eq_table ?lo) ?l (fst x)
        = Some (chunk_value (batched self rho) (eq_table row_point) (eq_table ?lo) ?l (fst x))"
      using assms(2,3) by (intro evaluate_chunk_Some) (simp_all add: chunk_len_of_def)
    then show "(case x of (c, w) \<Rightarrow> map_option ((*) w) (evaluate_chunk (batched self rho) (eq_table row_point) (eq_table ?lo) ?l c))
        = Some (case x of (c, w) \<Rightarrow> w * chunk_value (batched self rho) (eq_table row_point) (eq_table ?lo) ?l c)"
      by (simp add: case_prod_unfold)
  qed
  moreover have "slice_get (ly_column_chunks (pcm_layout self)) 0 = Some (ly_column_chunks (pcm_layout self) ! 0)"
    using lv by (simp add: layout_valid_def)
  moreover have "\<not> length column_point < ?b" using assms(3) by simp
  ultimately show ?thesis
    using assms(2,3) chunk_len_pos [of ?n] summed unfolding evaluate_batched_def
    by (simp add: Let_def batched_chunk_len [OF lv] b [unfolded One_nat_def num_column_vars_def] foldl_plus num_row_vars_def num_column_vars_def)
qed

text \<open>The verifier's evaluation is the multilinear extension of the prover's table.\<close>

lemma evaluate_is_bound_mle:
  assumes "prepared_valid self" "length row_point = num_row_vars self" "length column_point = num_column_vars self"
    and "bind_and_batch self row_point rho = Some (Inr d)"
  shows "evaluate_batched self row_point rho column_point = Some (Inr (mle_sum (evaluations d) column_point))"
proof -
  let ?n = "num_column_vars self"
  have d: "evaluations d = map (\<lambda>j. batch_sum self rho (\<lambda>i j'. if j' = j then eq_weight row_point i else 0)) [0..<2 ^ ?n]"
    using assms(4) bind_and_batch_table [OF assms(1,2), of rho] by auto
  have "mle_sum (evaluations d) column_point
      = (\<Sum>j<2 ^ ?n. eq_weight column_point j * batch_sum self rho (\<lambda>i j'. if j' = j then eq_weight row_point i else 0))"
    unfolding mle_sum_def assms(3) by (intro sum.cong refl) (simp add: d mult.commute)
  also have "\<dots> = batch_sum self rho (\<lambda>i j. eq_weight row_point i * eq_weight column_point j)"
    unfolding batch_sum_def sum_list_const_mult [symmetric] map_map comp_def sum_list_swap
  proof (intro arg_cong [of _ _ sum_list] map_cong refl)
    fix x assume "x \<in> set (batched self rho)"
    moreover obtain pos index vals scale where x: "x = (pos, index, vals, scale)" by (metis prod_cases4)
    ultimately have "\<forall>(i, j, k)\<in>set (sites pos). j < 2 ^ ?n" using batched_valid(2) [of self] assms(1) by (fastforce simp: prepared_valid_def)
    from arg_cong [OF site_sum_columns [OF this, of "eq_weight column_point" "eq_weight row_point" vals], of "(*) scale"]
    show "(\<Sum>j<2 ^ ?n. eq_weight column_point j * (case x of (pos, index, vals, scale) \<Rightarrow>
          scale * site_sum (\<lambda>i j'. if j' = j then eq_weight row_point i else 0) vals (sites pos)))
      = (case x of (pos, index, vals, scale) \<Rightarrow> scale * site_sum (\<lambda>i j. eq_weight row_point i * eq_weight column_point j) vals (sites pos))"
      by (simp add: x sum_distrib_left mult.left_commute)
  qed
  finally show ?thesis by (simp add: evaluate_batched_sum [OF assms(1-3)])
qed


section \<open>Layouts of sparse matrices are valid\<close>

lemma padded_num_vars_Inr:
  assumes "padded_num_vars n = Inr k"
  shows "n \<le> 2 ^ k \<and> k < 64"
proof -
  have m: "max n 1 \<le> 2 ^ 63" and k: "k = bitlen (max n 1 - 1)"
    using assms unfolding padded_num_vars_def checked_next_power_of_two_def by (auto simp only: bitlen_power2 diff_Suc_1 option.case sum.inject split: if_splits)
  have "max n 1 - 1 < 2 ^ 63" using m by simp
  then have "k \<le> 63" unfolding k bitlen_le_iff .
  moreover have "max n 1 - 1 < 2 ^ k" unfolding k by (rule bitlen_less)
  moreover have "(1::nat) \<le> 2 ^ k" by simp
  ultimately show ?thesis by linarith
qed

definition columns_in_range :: "'c sparse_matrix \<Rightarrow> bool" where
  "columns_in_range matrix \<longleftrightarrow> (\<forall>r\<in>set (sm_rows matrix). \<forall>(c, v)\<in>set (sr_entries r). c < sm_columns matrix)"

lemma sites_in_range:
  assumes "map (\<lambda>(i, j, k). (i, j, vals ! k)) (sites pos) = nonzeros matrix" "columns_in_range matrix" "(i, j, k) \<in> set (sites pos)"
  shows "i < sm_row_count matrix \<and> j < sm_columns matrix"
proof -
  have "(i, j, vals ! k) \<in> set (map (\<lambda>(i, j, k). (i, j, vals ! k)) (sites pos))"
    using assms(3) by (force intro: image_eqI [of _ _ "(i, j, k)"])
  then have "(i, j, vals ! k) \<in> set (nonzeros matrix)" unfolding assms(1) .
  then obtain r where "r < length (sm_rows matrix)" "(i, j, vals ! k) \<in> (\<lambda>(c, v). (r, c, v)) ` set (sr_entries (sm_rows matrix ! r))"
    by (auto simp: nonzeros_def)
  then show ?thesis using assms(2) nth_mem [of r "sm_rows matrix"] by (fastforce simp: columns_in_range_def sm_row_count_def)
qed

lemma validate_shape_Inr:
  "validate_shape ms = Inr u \<Longrightarrow> sm_row_count (cm_b ms) = sm_row_count (cm_a ms) \<and> sm_row_count (cm_c ms) = sm_row_count (cm_a ms) \<and>
    sm_columns (cm_b ms) = sm_columns (cm_a ms) \<and> sm_columns (cm_c ms) = sm_columns (cm_a ms)"
  by (auto simp: validate_shape_def Let_def split: if_splits)

lemma r1cs_num_vars_Inr:
  assumes "r1cs_num_vars ms = Inr (rv, cv)"
  shows "validate_shape ms = Inr () \<and> padded_num_vars (sm_columns (cm_a ms)) = Inr cv \<and>
    padded_num_vars (sm_row_count (cm_a ms)) = Inr rv \<and> sm_row_count (cm_a ms) \<le> 2 ^ rv \<and> sm_columns (cm_a ms) \<le> 2 ^ cv \<and> rv < 64 \<and> cv < 64"
  using assms padded_num_vars_Inr [of "sm_row_count (cm_a ms)"] padded_num_vars_Inr [of "sm_columns (cm_a ms)"]
  by (auto simp: r1cs_num_vars_def split: sum.splits)

definition lays_out :: "layout \<Rightarrow> 'c list list \<Rightarrow> 'c constraint_matrices \<Rightarrow> bool" where
  "lays_out ly vals ms \<longleftrightarrow> layout_valid ly \<and> length vals = 3 \<and> ly_row_count ly = sm_row_count (cm_a ms) \<and>
     ly_column_count ly = sm_columns (cm_a ms) \<and> sm_row_count (cm_a ms) \<le> 2 ^ ly_num_row_vars ly \<and>
     sm_row_count (cm_b ms) = sm_row_count (cm_a ms) \<and> sm_row_count (cm_c ms) = sm_row_count (cm_a ms) \<and>
     sm_columns (cm_a ms) \<le> 2 ^ ly_num_column_vars ly \<and> padded_num_vars (sm_columns (cm_a ms)) = Inr (ly_num_column_vars ly) \<and>
     padded_num_vars (sm_row_count (cm_a ms)) = Inr (ly_num_row_vars ly) \<and>
     (\<forall>m<3. map (\<lambda>(i, j, k). (i, j, vals ! m ! k)) (sites (ly_positions ly ! m)) = nonzeros ([cm_a ms, cm_b ms, cm_c ms] ! m) \<and>
        (\<forall>(i, j, k)\<in>set (sites (ly_positions ly ! m)). k < length (vals ! m)))"

lemma lays_out_prepared: "lays_out (pcm_layout pcm) (pcm_values pcm) ms \<Longrightarrow> prepared_valid pcm"
  by (simp add: lays_out_def prepared_valid_def)

lemma less_3: "(m::nat) < 3 \<longleftrightarrow> m = 0 \<or> m = 1 \<or> m = 2"
  by auto

lemma sites_index:
  assumes "positions_valid bound pos" "(i, j, k) \<in> set (sites pos)"
  shows "k < length (position_columns pos)"
proof -
  obtain r where "r < positions_row_count pos" "k < snd (positions_row pos r)"
    using assms(2) by (auto simp: sites_def row_sites_def)
  then show ?thesis using assms(1) unfolding positions_valid_def by (meson less_le_trans)
qed

lemma layout_new_valid:
  assumes "columns_in_range (cm_a ms)" "columns_in_range (cm_b ms)" "columns_in_range (cm_c ms)"
  shows "\<exists>r. layout_new ms = Some r \<and> (\<forall>m ly vals. r = Inr (m, ly, vals) \<longrightarrow> m = cm_m ms \<and> lays_out ly vals ms)"
proof (cases "r1cs_num_vars ms")
  case (Inl e)
  then show ?thesis by (simp add: layout_new_def)
next
  case (Inr vars)
  obtain rv cv where vars: "vars = (rv, cv)" by fastforce
  note n = r1cs_num_vars_Inr [OF Inr [unfolded vars]]
  note same = validate_shape_Inr [OF conjunct1 [OF n]]
  show ?thesis
  proof (cases "positions_of [cm_a ms, cm_b ms, cm_c ms]")
    case (Inl e)
    then show ?thesis by (simp add: layout_new_def Inr vars)
  next
    case (Inr ps)
    then obtain pa va pb vb pc vc where ps: "positions_new (cm_a ms) = Inr (pa, va)" "positions_new (cm_b ms) = Inr (pb, vb)"
      "positions_new (cm_c ms) = Inr (pc, vc)" "ps = [(pa, va), (pb, vb), (pc, vc)]" by (auto split: sum.splits)
    have p: "map (\<lambda>(i, j, k). (i, j, vals ! k)) (sites pos) = nonzeros matrix \<and> (\<exists>index.
        column_chunk_index_new pos (chunk_len_of cv) (chunk_count_of cv) = Some index \<and> chunked cv pos index) \<and>
        (\<forall>(i, j, k)\<in>set (sites pos). i < 2 ^ rv \<and> j < 2 ^ cv \<and> k < length vals \<and> k < length (position_columns pos))"
      if new: "positions_new matrix = Inr (pos, vals)" and c: "columns_in_range matrix"
        and s: "sm_row_count matrix = sm_row_count (cm_a ms)" "sm_columns matrix = sm_columns (cm_a ms)" for matrix pos vals
    proof -
      have "\<forall>r\<in>set (sm_rows matrix). \<forall>(c, v)\<in>set (sr_entries r). c < 2 ^ cv"
        using c s(2) n unfolding columns_in_range_def by fastforce
      note pn = positions_new_sites [OF new this]
      have "\<forall>(i, j, k)\<in>set (sites pos). i < 2 ^ rv \<and> j < 2 ^ cv \<and> k < length vals \<and> k < length (position_columns pos)"
        using sites_in_range [OF conjunct1 [OF pn] c] sites_index [of "2 ^ cv" pos] pn s n by fastforce
      moreover have "\<exists>index. column_chunk_index_new pos (chunk_len_of cv) (chunk_count_of cv) = Some index \<and> chunked cv pos index"
        using chunk_index_partitions [of "chunk_len_of cv" "chunk_count_of cv" pos] pn chunk_len_pos [of cv]
          chunk_index_no_empty [of pos "chunk_len_of cv" "chunk_count_of cv"]
        unfolding chunked_def chunk_total by blast
      ultimately show ?thesis using pn by blast
    qed
    note a = p [OF ps(1) assms(1) refl refl] and b = p [OF ps(2) assms(2)] and c = p [OF ps(3) assms(3)]
    obtain ia ib ic where i: "column_chunk_index_new pa (chunk_len_of cv) (chunk_count_of cv) = Some ia"
        "column_chunk_index_new pb (chunk_len_of cv) (chunk_count_of cv) = Some ib"
        "column_chunk_index_new pc (chunk_len_of cv) (chunk_count_of cv) = Some ic"
        "chunked cv pa ia" "chunked cv pb ib" "chunked cv pc ic" using a b c same by blast
    let ?ly = "\<lparr>ly_positions = [pa, pb, pc], ly_column_chunks = [ia, ib, ic], ly_row_count = sm_row_count (cm_a ms),
        ly_column_count = sm_columns (cm_a ms), ly_num_row_vars = rv, ly_num_column_vars = cv\<rparr>"
    have "layout_new ms = Some (Inr (cm_m ms, ?ly, [va, vb, vc]))"
      using Inr by (simp add: layout_new_def \<open>r1cs_num_vars ms = Inr vars\<close> vars ps(4) Let_def chunk_len_min chunk_count_div i(1-3))
    moreover have "lays_out ?ly [va, vb, vc] ms"
      unfolding lays_out_def layout_valid_def less_3 using a b c same n i(4-6) by (auto simp: less_3)
    ultimately show ?thesis by simp
  qed
qed

section \<open>Sums over the sites are matrix sums\<close>

definition matrix_sum :: "(nat \<Rightarrow> nat \<Rightarrow> 'a::field) \<Rightarrow> 'a sparse_matrix \<Rightarrow> 'a" where
  "matrix_sum f matrix = sum_list (map (\<lambda>(i, j, v). f i j * v) (nonzeros matrix))"

lemma site_sum_matrix:
  "map (\<lambda>(i, j, k). (i, j, vals ! k)) (sites pos) = nonzeros matrix \<Longrightarrow> site_sum f vals (sites pos) = matrix_sum f matrix"
  unfolding matrix_sum_def site_sum_def by (drule sym) (simp add: comp_def case_prod_unfold)

lemma batch_sum_matrices:
  assumes "lays_out (pcm_layout self) (pcm_values self) ms"
  shows "batch_sum self rho f = matrix_sum f (cm_a ms) + rho * matrix_sum f (cm_b ms) + rho * rho * matrix_sum f (cm_c ms)"
proof -
  have "map (\<lambda>(i, j, k). (i, j, pcm_values self ! m ! k)) (sites (ly_positions (pcm_layout self) ! m))
      = nonzeros ([cm_a ms, cm_b ms, cm_c ms] ! m)" if "m < 3" for m
    using assms that by (simp add: lays_out_def)
  from site_sum_matrix [OF this [of 0]] site_sum_matrix [OF this [of 1]] site_sum_matrix [OF this [of 2]]
  show ?thesis by (simp add: batch_sum_def batched_def Let_def upt_rec [of _ 3] numeral_3_eq_3 numeral_2_eq_2 algebra_simps)
qed

text \<open>One row of a matrix times a vector, and the whole product padded with zeros.\<close>

definition row_product :: "'a::field sparse_row \<Rightarrow> 'a list \<Rightarrow> 'a" where
  "row_product r z = sum_list (map (\<lambda>(j, v). z ! j * v) (sr_entries r))"

definition matrix_product :: "'a::field sparse_matrix \<Rightarrow> 'a list \<Rightarrow> nat \<Rightarrow> 'a" where
  "matrix_product matrix z i = (if i < length (sm_rows matrix) then row_product (sm_rows matrix ! i) z else 0)"

lemma sum_list_concats: "sum_list (concat xss) = sum_list (map sum_list xss)" for xss :: "'a::comm_monoid_add list list"
  by (induction xss) simp_all

lemma matrix_sum_product:
  assumes "sm_row_count matrix \<le> n"
  shows "matrix_sum (\<lambda>i j. w i * z ! j) matrix = (\<Sum>i<n. w i * matrix_product matrix z i)"
proof -
  let ?m = "length (sm_rows matrix)"
  have "matrix_sum (\<lambda>i j. w i * z ! j) matrix = sum_list (map (\<lambda>i. w i * row_product (sm_rows matrix ! i) z) [0..<?m])"
    unfolding matrix_sum_def nonzeros_def map_concat sum_list_concats map_map comp_def
    by (intro arg_cong [of _ _ sum_list] map_cong refl)
      (simp add: row_product_def sum_list_const_mult [symmetric] comp_def case_prod_unfold mult.assoc)
  also have "\<dots> = (\<Sum>i<?m. w i * matrix_product matrix z i)"
    by (simp add: interv_sum_list_conv_sum_set_nat atLeast0LessThan matrix_product_def)
  also have "\<dots> = (\<Sum>i<n. w i * matrix_product matrix z i)"
    using assms by (intro sum.mono_neutral_left) (auto simp: matrix_product_def sm_row_count_def)
  finally show ?thesis .
qed


section \<open>Projection\<close>

definition interned :: "('r \<times> nat) list \<Rightarrow> bool" where
  "interned dm \<longleftrightarrow> (\<exists>cs. distinct cs \<and> dm = rev (zip cs [0..<length cs]))"

lemma map_of_interned:
  assumes "distinct cs"
  shows "map_of (rev (zip cs [0..<length cs])) v = Some i \<longleftrightarrow> i < length cs \<and> cs ! i = v"
proof -
  have "distinct (map fst (rev (zip cs [0..<length cs])))" using assms by (simp add: rev_map [symmetric])
  then have "map_of (rev (zip cs [0..<length cs])) v = Some i \<longleftrightarrow> (v, i) \<in> set (rev (zip cs [0..<length cs]))"
    by (rule map_of_eq_Some_iff)
  then show ?thesis by (auto simp: set_zip)
qed

lemma coefficients_of_interned:
  "distinct cs \<Longrightarrow> map fst (sort_key snd (rev (zip cs [0..<length cs]))) = cs"
proof -
  assume "distinct cs"
  let ?zs = "zip cs [0..<length cs]" let ?ys = "sort_key snd (rev ?zs)"
  have "map snd ?ys = [0..<length cs]"
  proof (rule sorted_distinct_set_unique)
    have "distinct (map snd (rev ?zs))" by (simp add: rev_map [symmetric])
    then show "distinct (map snd ?ys)" unfolding distinct_map by simp
    have "snd ` set ?zs = set (map snd ?zs)" by (simp only: set_map)
    then show "set (map snd ?ys) = set [0..<length cs]" by simp
  qed simp_all
  moreover have "fst y = cs ! snd y" if "y \<in> set ?ys" for y using that by (auto simp: set_zip)
  ultimately show "map fst ?ys = cs"
    using map_nth [of cs] by (metis (no_types, lifting) list.map_comp comp_apply map_cong)
qed

text \<open>Interning extends the list of distinct coefficients and returns indices into it.\<close>

lemma intern_extends:
  assumes "distinct cs" "intern v (rev (zip cs [0..<length cs])) = (i, dm)"
  shows "\<exists>more. distinct (cs @ more) \<and> dm = rev (zip (cs @ more) [0..<length (cs @ more)]) \<and> i < length (cs @ more) \<and> (cs @ more) ! i = v"
proof (cases "map_of (rev (zip cs [0..<length cs])) v")
  case None
  have "v \<notin> set cs"
  proof
    assume "v \<in> set cs"
    then obtain i where "i < length cs" "cs ! i = v" by (metis in_set_conv_nth)
    with map_of_interned [OF assms(1), of v i] None show False by simp
  qed
  moreover have "dm = (v, length cs) # rev (zip cs [0..<length cs])" "i = length cs" using assms(2) None by (auto simp: intern_def Let_def)
  ultimately show ?thesis using assms(1) by (intro exI [of _ "[v]"]) simp
next
  case (Some j)
  with map_of_interned [OF assms(1), of v j] assms show ?thesis by (intro exI [of _ "[]"]) (auto simp: intern_def Let_def)
qed

lemma intern_all_extends:
  "distinct cs \<Longrightarrow> intern_all vs (rev (zip cs [0..<length cs])) = (is, dm) \<Longrightarrow>
    \<exists>more. distinct (cs @ more) \<and> dm = rev (zip (cs @ more) [0..<length (cs @ more)]) \<and> (\<forall>i\<in>set is. i < length (cs @ more)) \<and>
      map (\<lambda>i. (cs @ more) ! i) is = vs"
proof (induction vs arbitrary: cs "is")
  case Nil
  then show ?case by (intro exI [of _ "[]"]) auto
next
  case (Cons v vs)
  obtain i dm1 is' where s: "intern v (rev (zip cs [0..<length cs])) = (i, dm1)" "intern_all vs dm1 = (is', dm)" "is = i # is'"
    using Cons.prems(2) by (auto split: prod.splits)
  obtain m1 where m1: "distinct (cs @ m1)" "dm1 = rev (zip (cs @ m1) [0..<length (cs @ m1)])" "i < length (cs @ m1)" "(cs @ m1) ! i = v"
    using intern_extends [OF Cons.prems(1) s(1)] by auto
  obtain m2 where m2: "distinct ((cs @ m1) @ m2)" "dm = rev (zip ((cs @ m1) @ m2) [0..<length ((cs @ m1) @ m2)])"
    "\<forall>i\<in>set is'. i < length ((cs @ m1) @ m2)" "map (\<lambda>i. ((cs @ m1) @ m2) ! i) is' = vs"
    using Cons.IH [OF m1(1) s(2) [unfolded m1(2)]] by auto
  have "((cs @ m1) @ m2) ! i = v" using m1(3,4) by (simp only: nth_append if_True)
  with m1(3) m2 s(3) show ?case by (intro exI [of _ "m1 @ m2"]) auto
qed

lemma intern_lists_extends:
  "distinct cs \<Longrightarrow> intern_lists vss (rev (zip cs [0..<length cs])) = (iss, dm) \<Longrightarrow>
    \<exists>more. distinct (cs @ more) \<and> dm = rev (zip (cs @ more) [0..<length (cs @ more)]) \<and>
      (\<forall>is\<in>set iss. \<forall>i\<in>set is. i < length (cs @ more)) \<and> map (map (\<lambda>i. (cs @ more) ! i)) iss = vss"
proof (induction vss arbitrary: cs iss)
  case Nil
  then show ?case by (intro exI [of _ "[]"]) auto
next
  case (Cons vs vss)
  obtain "is" dm1 iss' where s: "intern_all vs (rev (zip cs [0..<length cs])) = (is, dm1)" "intern_lists vss dm1 = (iss', dm)" "iss = is # iss'"
    using Cons.prems(2) by (auto split: prod.splits)
  obtain m1 where m1: "distinct (cs @ m1)" "dm1 = rev (zip (cs @ m1) [0..<length (cs @ m1)])" "\<forall>i\<in>set is. i < length (cs @ m1)"
    "map (\<lambda>i. (cs @ m1) ! i) is = vs" using intern_all_extends [OF Cons.prems(1) s(1)] by auto
  obtain m2 where m2: "distinct ((cs @ m1) @ m2)" "dm = rev (zip ((cs @ m1) @ m2) [0..<length ((cs @ m1) @ m2)])"
    "\<forall>is\<in>set iss'. \<forall>i\<in>set is. i < length ((cs @ m1) @ m2)" "map (map (\<lambda>i. ((cs @ m1) @ m2) ! i)) iss' = vss"
    using Cons.IH [OF m1(1) s(2) [unfolded m1(2)]] by auto
  have "map (\<lambda>i. ((cs @ m1) @ m2) ! i) is = vs" using m1(3,4) by (simp only: nth_append [of "cs @ m1"] cong: map_cong) simp
  with m1(3) m2 s(3) show ?case by (intro exI [of _ "m1 @ m2"]) auto
qed

lemma project_values:
  assumes "layout_new ms = Some (Inr (m, ly, vals))" "pim_new sha256 to_i128 stored ms = Some (Inr p)"
  shows "pim_layout p = ly \<and> pcm_values (project f p) = map (map f) vals"
proof -
  obtain iss dm where i: "intern_lists vals [] = (iss, dm)" by fastforce
  obtain cs where cs: "distinct cs" "dm = rev (zip cs [0..<length cs])" "\<forall>is\<in>set iss. \<forall>i\<in>set is. i < length cs" "map (map (\<lambda>i. cs ! i)) iss = vals"
    using intern_lists_extends [of "[]" vals iss dm] i by auto
  have p: "pim_layout p = ly" "pim_coefficients p = cs" "pim_coefficient_indices p = iss"
    using assms i coefficients_of_interned [OF cs(1)] by (auto simp: pim_new_def Let_def cs(2) split: sum.splits)
  have "map (map (\<lambda>i. map f cs ! i)) iss = map (map f) (map (map (\<lambda>i. cs ! i)) iss)"
    using cs(3) by auto
  then show ?thesis by (simp add: project_def p cs(4) [symmetric] Let_def del: map_map)
qed

lemma sm_row_count_map_values [simp]: "sm_row_count (map_values f M) = sm_row_count M" "sm_columns (map_values f M) = sm_columns M"
  by (simp_all add: map_values_def sm_row_count_def)

lemma nonzeros_map_values: "nonzeros (map_values f M) = map (\<lambda>(i, j, v). (i, j, f v)) (nonzeros M)"
  unfolding nonzeros_def map_concat map_map by (intro arg_cong [of _ _ concat] map_cong) (auto simp: map_values_def)

lemma lays_out_map:
  assumes "lays_out ly vals ms"
  shows "lays_out ly (map (map f) vals) (map_coefficients f ms)"
proof -
  have l: "length vals = 3" using assms by (simp add: lays_out_def)
  have "map (\<lambda>(i, j, k). (i, j, map (map f) vals ! m ! k)) (sites (ly_positions ly ! m))
      = nonzeros ([cm_a (map_coefficients f ms), cm_b (map_coefficients f ms), cm_c (map_coefficients f ms)] ! m)" if m: "m < 3" for m
  proof -
    have s: "map (\<lambda>(i, j, k). (i, j, vals ! m ! k)) (sites (ly_positions ly ! m)) = nonzeros ([cm_a ms, cm_b ms, cm_c ms] ! m)"
      and k: "\<forall>(i, j, k)\<in>set (sites (ly_positions ly ! m)). k < length (vals ! m)" using assms m by (auto simp: lays_out_def)
    have "map (\<lambda>(i, j, k). (i, j, map (map f) vals ! m ! k)) (sites (ly_positions ly ! m))
        = map (\<lambda>(i, j, v). (i, j, f v)) (map (\<lambda>(i, j, k). (i, j, vals ! m ! k)) (sites (ly_positions ly ! m)))"
      using k m l by (auto intro!: map_cong)
    also have "\<dots> = nonzeros (map_values f ([cm_a ms, cm_b ms, cm_c ms] ! m))" unfolding s nonzeros_map_values ..
    also have "map_values f ([cm_a ms, cm_b ms, cm_c ms] ! m)
        = [cm_a (map_coefficients f ms), cm_b (map_coefficients f ms), cm_c (map_coefficients f ms)] ! m"
      using m by (auto simp: less_3 map_coefficients_def)
    finally show ?thesis .
  qed
  moreover have "\<forall>(i, j, k)\<in>set (sites (ly_positions ly ! m)). k < length (map (map f) vals ! m)" if "m < 3" for m
    using assms that l by (auto simp: lays_out_def)
  ultimately show ?thesis using assms l by (simp add: lays_out_def map_coefficients_def)
qed

section \<open>Canonical words\<close>

lemma halves_zero:
  fixes v :: u128
  assumes "ucast v = (0::u64)" "ucast (signed_drop_bit 64 v) = (0::u64)"
  shows "v = 0"
proof (rule bit_word_eqI)
  fix n assume n: "n < LENGTH(128)"
  show "bit v n = bit (0::u128) n"
  proof (cases "n < 64")
    case True
    then have "bit v n = bit (ucast v :: u64) n" by (simp add: bit_ucast_iff)
    then show ?thesis by (simp add: assms(1))
  next
    case False
    then have "bit v n = bit (ucast (signed_drop_bit 64 v) :: u64) (n - 64)"
      using n by (simp add: bit_ucast_iff bit_signed_drop_bit_iff) linarith
    then show ?thesis by (simp add: assms(2))
  qed
qed

lemma top_bit_u64: "drop_bit 63 w \<noteq> 1 \<longleftrightarrow> drop_bit 63 w = 0" for w :: u64
proof -
  have "unat (drop_bit 63 w) = unat w div 2 ^ 63" by (metis unat_drop_bit_eq drop_bit_eq_div)
  then have "unat (drop_bit 63 w) < 2" using unat_less_64 [of w] by (simp add: radix_def div_less_iff_less_mult)
  then have "unat (drop_bit 63 w) = 0 \<or> unat (drop_bit 63 w) = 1" by linarith
  then show ?thesis by (metis unat_0 unat_1 word_unat_eq_iff zero_neq_one)
qed

text \<open>\<open>canonical_words\<close> spares the heap, and writes what the stored integer would hold.\<close>

lemma canonical_words_stored: "take (snd (canonical_words v)) (fst (canonical_words v)) = si_words (stored_from_i128 v)"
proof -
  let ?lo = "ucast v :: u64" and ?hi = "ucast (signed_drop_bit 64 v) :: u64"
  have w: "z_words (z_from_i128 2 v) = [?lo, ?hi]" by (simp add: z_from_i128_def Let_def numeral_2_eq_2)
  show ?thesis
  proof (cases "v = 0")
    case True
    with w show ?thesis by (simp add: canonical_words_def stored_from_i128_def stored_from_z_def z_is_zero_def)
  next
    case False
    then have "\<not> z_is_zero (z_from_i128 2 v)" using halves_zero [of v] by (auto simp: z_is_zero_def w)
    moreover have "trim_len [?lo, ?hi] (length [?lo, ?hi]) = (if ?hi = 0 \<and> drop_bit 63 ?lo = 0 \<or> ?hi = - 1 \<and> drop_bit 63 ?lo = 1 then 1 else 2)"
      by (simp add: top_bit_u64 Let_def)
    ultimately show ?thesis using False
      by (simp add: canonical_words_def stored_from_i128_def stored_from_z_def w Let_def)
  qed
qed


section \<open>Properties\<close>

lemma pcm_new_lays_out:
  assumes "pcm_new sha256 encode ms = Some (Inr pcm)"
    and "columns_in_range (cm_a ms)" "columns_in_range (cm_b ms)" "columns_in_range (cm_c ms)"
  shows "lays_out (pcm_layout pcm) (pcm_values pcm) ms"
  using assms(1) layout_new_valid [OF assms(2-4)] by (auto simp: pcm_new_def split: option.splits sum.splits prod.splits)

lemma evaluation_agrees:
  assumes "lays_out (pcm_layout pcm) (pcm_values pcm) ms" "length row_point = num_row_vars pcm" "length column_point = num_column_vars pcm"
  shows "\<exists>d. bind_and_batch pcm row_point rho = Some (Inr d) \<and>
    evaluate_batched pcm row_point rho column_point = Some (Inr (mle_sum (evaluations d) column_point)) \<and>
    (let M = matrix_sum (\<lambda>i j. eq_weight row_point i * eq_weight column_point j)
     in mle_sum (evaluations d) column_point = M (cm_a ms) + rho * M (cm_b ms) + rho * rho * M (cm_c ms))"
proof -
  have v: "prepared_valid pcm" by (rule lays_out_prepared [OF assms(1)])
  obtain d where d: "bind_and_batch pcm row_point rho = Some (Inr d)" using bind_and_batch_table [OF v assms(2)] by blast
  have "evaluate_batched pcm row_point rho column_point = Some (Inr (mle_sum (evaluations d) column_point))"
    by (rule evaluate_is_bound_mle [OF v assms(2,3) d])
  with evaluate_batched_sum [OF v assms(2,3), of rho] d batch_sum_matrices [OF assms(1), of rho] show ?thesis by (simp add: Let_def)
qed

text \<open>C12: the verifier's sparse evaluation, chunk by chunk and without a dense table, is the multilinear
  extension of the table the prover binds, and both are \<open>A + rho B + rho\<^sup>2 C\<close> at the two points; this
  holds for whatever matrices with columns in range the preparation accepts.\<close>

theorem sparse_evaluation_is_bound_table:
  assumes "pcm_new sha256 encode ms = Some (Inr pcm)"
    and "columns_in_range (cm_a ms)" "columns_in_range (cm_b ms)" "columns_in_range (cm_c ms)"
    and "length row_point = num_row_vars pcm" "length column_point = num_column_vars pcm"
  shows "\<exists>d. bind_and_batch pcm row_point rho = Some (Inr d) \<and>
    evaluate_batched pcm row_point rho column_point = Some (Inr (mle_sum (evaluations d) column_point)) \<and>
    (let M = matrix_sum (\<lambda>i j. eq_weight row_point i * eq_weight column_point j)
     in mle_sum (evaluations d) column_point = M (cm_a ms) + rho * M (cm_b ms) + rho * rho * M (cm_c ms))"
  by (rule evaluation_agrees [OF pcm_new_lays_out [OF assms(1-4)] assms(5,6)])

definition example_matrices :: "f128 constraint_matrices" where
  "example_matrices = \<lparr>cm_m = \<lparr>sbm_rows = [\<lparr>sbr_positions = [0]\<rparr>, \<lparr>sbr_positions = [1]\<rparr>], sbm_columns = 2\<rparr>,
     cm_a = \<lparr>sm_rows = [\<lparr>sr_entries = [(0, 1), (1, 1)]\<rparr>, \<lparr>sr_entries = [(0, 1)]\<rparr>], sm_columns = 2\<rparr>,
     cm_b = \<lparr>sm_rows = [\<lparr>sr_entries = [(1, 1)]\<rparr>, \<lparr>sr_entries = []\<rparr>], sm_columns = 2\<rparr>,
     cm_c = \<lparr>sm_rows = [\<lparr>sr_entries = []\<rparr>, \<lparr>sr_entries = []\<rparr>], sm_columns = 2\<rparr>\<rparr>"

definition example_prepared :: "f128 prepared_constraint_matrices" where
  "example_prepared = projr (the (pcm_new (\<lambda>bytes. take 2 bytes) (\<lambda>_. []) example_matrices))"

lemma example_prepared_new: "pcm_new (\<lambda>bytes. take 2 bytes) (\<lambda>_. []) example_matrices = Some (Inr example_prepared)"
proof -
  have v: "padded_num_vars 2 = Inr 1" "padded_num_vars (Suc (Suc 0)) = Inr 1" by (simp_all add: padded_num_vars_def checked_next_power_of_two_def bitlen_simps)
  have "case pcm_new (\<lambda>bytes. take 2 bytes) (\<lambda>_. []) example_matrices of Some (Inr p) \<Rightarrow> True | _ \<Rightarrow> False"
    by (simp add: pcm_new_def layout_new_def r1cs_num_vars_def validate_shape_def v example_matrices_def positions_new_def
        sm_row_count_def sbm_row_count_def Let_def BIND_CHUNK_COLUMN_VARS_def column_chunk_index_new_def positions_row_count_def
        positions_row_def chunk_row.simps constraint_matrix_digest_def matrix_digest_def hash_bool_matrix_def hash_matrix_def hash_usize_def upt_rec)
  then show ?thesis by (auto simp: example_prepared_def split: option.splits sum.splits)
qed

lemma example_prepared_vars: "num_row_vars example_prepared = 1" "num_column_vars example_prepared = 1"
proof -
  have v: "padded_num_vars 2 = Inr 1" "padded_num_vars (Suc (Suc 0)) = Inr 1" by (simp_all add: padded_num_vars_def checked_next_power_of_two_def bitlen_simps)
  have "r1cs_num_vars example_matrices = Inr (1, 1)"
    by (simp add: r1cs_num_vars_def validate_shape_def v example_matrices_def sm_row_count_def sbm_row_count_def Let_def)
  then show "num_row_vars example_prepared = 1" "num_column_vars example_prepared = 1"
    using example_prepared_new by (auto simp: pcm_new_def layout_new_def num_row_vars_def num_column_vars_def Let_def
        split: option.splits sum.splits) (erule subst, simp)+
qed

lemma example_columns: "columns_in_range (cm_a example_matrices)" "columns_in_range (cm_b example_matrices)"
  "columns_in_range (cm_c example_matrices)"
  by (simp_all add: columns_in_range_def example_matrices_def)

theorem sparse_evaluation_is_bound_table_witness:
  "\<exists>d. bind_and_batch example_prepared [3] 7 = Some (Inr d) \<and>
    evaluate_batched example_prepared [3] 7 [5] = Some (Inr (mle_sum (evaluations d) [5]))"
  using sparse_evaluation_is_bound_table [OF example_prepared_new example_columns, of "[3]" "[5]" 7] example_prepared_vars by auto

lemma lay_out_row_map:
  "lay_out_row (map (\<lambda>(c, v). (c, f v)) entries) (columns, map f vals) = map_sum id (\<lambda>(columns, vals). (columns, map f vals)) (lay_out_row entries (columns, vals))"
proof (induction entries arbitrary: columns vals)
  case (Cons e entries)
  obtain c v where "e = (c, v)" by fastforce
  with Cons [of "columns @ [word_of_nat c]" "vals @ [v]"] show ?case by simp
qed simp

lemma lay_out_rows_map:
  "lay_out_rows (map (\<lambda>r. \<lparr>sr_entries = map (\<lambda>(c, v). (c, f v)) (sr_entries r)\<rparr>) rs) (self, map f vals)
    = map_sum id (\<lambda>(self, vals). (self, map f vals)) (lay_out_rows rs (self, vals))"
proof (induction rs arbitrary: self vals)
  case (Cons r rs)
  show ?case
    by (cases "lay_out_row (sr_entries r) (position_columns self, vals)")
      (auto simp: lay_out_row_map Cons.IH split: prod.splits)
qed simp

lemma positions_of_map:
  "positions_of (map (map_values f) Ms) = map_sum id (map (\<lambda>(p, vals). (p, map f vals))) (positions_of Ms)"
proof (induction Ms)
  case (Cons M Ms)
  have "positions_new (map_values f M) = map_sum id (\<lambda>(p, vals). (p, map f vals)) (positions_new M)"
    using lay_out_rows_map [of f "sm_rows M" "\<lparr>row_starts = [0], position_columns = []\<rparr>" "[]"]
    by (simp add: positions_new_def map_values_def)
  then show ?case
    by (cases "positions_new M"; cases "positions_of Ms") (simp_all add: Cons)
qed simp

lemma map_coefficients_parts:
  "cm_m (map_coefficients f ms) = cm_m ms" "cm_a (map_coefficients f ms) = map_values f (cm_a ms)"
  "cm_b (map_coefficients f ms) = map_values f (cm_b ms)" "cm_c (map_coefficients f ms) = map_values f (cm_c ms)"
  by (simp_all add: map_coefficients_def)

lemma layout_new_map:
  "layout_new (map_coefficients f ms) = map_option (map_sum id (\<lambda>(m, ly, vals). (m, ly, map (map f) vals))) (layout_new ms)"
proof -
  have r: "r1cs_num_vars (map_coefficients f ms) = r1cs_num_vars ms"
    unfolding r1cs_num_vars_def validate_shape_def map_coefficients_parts sm_row_count_map_values ..
  have p: "positions_of [cm_a (map_coefficients f ms), cm_b (map_coefficients f ms), cm_c (map_coefficients f ms)]
      = map_sum id (map (\<lambda>(p, vals). (p, map f vals))) (positions_of [cm_a ms, cm_b ms, cm_c ms])"
    using positions_of_map [of f "[cm_a ms, cm_b ms, cm_c ms]"] by (simp add: map_coefficients_def)
  show ?thesis
    unfolding layout_new_def r p
    by (cases "positions_of [cm_a ms, cm_b ms, cm_c ms]")
      (auto simp: map_coefficients_parts Let_def option.map_comp comp_def case_prod_unfold split: sum.splits prod.splits)
qed

text \<open>C18: preparing the matrices over the integers and projecting them, one conversion per distinct
  coefficient, gives the layout and the values that preparing the converted matrices gives.\<close>

theorem projection_is_preparation:
  assumes "pim_new sha256 to_i128 stored ms = Some (Inr p)" "pcm_new sha256 encode (map_coefficients f ms) = Some (Inr q)"
  shows "pcm_layout (project f p) = pcm_layout q \<and> pcm_values (project f p) = pcm_values q \<and>
    pcm_digest (project f p) = pim_digest p"
proof -
  obtain m ly vals where l: "layout_new ms = Some (Inr (m, ly, vals))"
    using assms(1) by (auto simp: pim_new_def split: option.splits sum.splits)
  have "layout_new (map_coefficients f ms) = Some (Inr (m, ly, map (map f) vals))" by (simp add: layout_new_map l)
  then have "pcm_layout q = ly" "pcm_values q = map (map f) vals"
    using assms(2) by (auto simp: pcm_new_def split: sum.splits)
  with project_values [OF l assms(1), of f] show ?thesis by (simp add: project_def Let_def)
qed

definition example_integers :: "int constraint_matrices" where
  "example_integers = \<lparr>cm_m = \<lparr>sbm_rows = [\<lparr>sbr_positions = [0]\<rparr>], sbm_columns = 1\<rparr>,
     cm_a = \<lparr>sm_rows = [\<lparr>sr_entries = [(0, 3)]\<rparr>], sm_columns = 1\<rparr>,
     cm_b = \<lparr>sm_rows = [\<lparr>sr_entries = [(0, 2)]\<rparr>], sm_columns = 1\<rparr>,
     cm_c = \<lparr>sm_rows = [\<lparr>sr_entries = [(0, 3)]\<rparr>], sm_columns = 1\<rparr>\<rparr>"

definition odd_one :: "int \<Rightarrow> f128" where
  "odd_one n = (if odd n then 1 else 0)"

theorem projection_is_preparation_witness:
  "\<exists>p q. pim_new (take 2) (\<lambda>n. Some (word_of_int n)) (\<lambda>n. stored_from_i128 (word_of_int n)) example_integers = Some (Inr p) \<and>
    pcm_new (take 2) (\<lambda>_. []) (map_coefficients odd_one example_integers) = Some (Inr q) \<and>
    pcm_values (project odd_one p) = pcm_values q \<and> pcm_layout (project odd_one p) = pcm_layout q"
proof -
  have v: "padded_num_vars (Suc 0) = Inr 0" by (simp add: padded_num_vars_def checked_next_power_of_two_def bitlen_simps)
  note e = layout_new_def r1cs_num_vars_def validate_shape_def v example_integers_def positions_new_def
        sm_row_count_def sbm_row_count_def Let_def BIND_CHUNK_COLUMN_VARS_def column_chunk_index_new_def positions_row_count_def
        positions_row_def chunk_row.simps matrix_digest_def hash_bool_matrix_def hash_matrix_def hash_usize_def upt_rec
  have "case pim_new (take 2) (\<lambda>n. Some (word_of_int n)) (\<lambda>n. stored_from_i128 (word_of_int n)) example_integers of
      Some (Inr p) \<Rightarrow> True | _ \<Rightarrow> False"
    by (simp add: pim_new_def intern_def e integer_matrix_digest_def hash_words_def canonical_words_def)
  then obtain p where p: "pim_new (take 2) (\<lambda>n. Some (word_of_int n)) (\<lambda>n. stored_from_i128 (word_of_int n)) example_integers = Some (Inr p)"
    by (auto split: option.splits sum.splits)
  have "case pcm_new (take 2) (\<lambda>_. []) (map_coefficients odd_one example_integers) of Some (Inr p) \<Rightarrow> True | _ \<Rightarrow> False"
    by (simp add: pcm_new_def e constraint_matrix_digest_def map_coefficients_def map_values_def)
  then obtain q where q: "pcm_new (take 2) (\<lambda>_. []) (map_coefficients odd_one example_integers) = Some (Inr q)"
    by (auto split: option.splits sum.splits)
  show ?thesis using p q projection_is_preparation [OF p q] by blast
qed

end
