(* ===== verification/Spartan_Piop.thy ===== *)
theory Spartan_Piop
  imports Spartan_Matrix_Correct
begin

text \<open>
  The composition of the two sumchecks of Spartan: \<open>crates/spartan/src/piop.rs\<close>, with its
  completeness and its soundness.
\<close>

section \<open>The protocol\<close>

record 'a spartan_piop_proof =
  spp_outer :: "'a outer_sumcheck_proof"
  spp_inner :: "'a sumcheck_proof"

datatype spartan_error =
    SpartanMatrix spartan_matrix_error
  | SpartanSumcheck sumcheck_error
  | SpartanMleClaim mle_claim_error
  | SpartanProductDimensions
  | SpartanAssignmentDimensions
  | InvalidMleClaim

fun squeeze_many :: "('a, 't) field_transcript \<Rightarrow> nat \<Rightarrow> 't \<Rightarrow> ('a list \<times> 't) option" where
  "squeeze_many T 0 transcript = Some ([], transcript)"
| "squeeze_many T (Suc n) transcript =
     (case ft_squeeze T transcript of
        None \<Rightarrow> None
      | Some (c, transcript) \<Rightarrow>
          (case squeeze_many T n transcript of None \<Rightarrow> None | Some (cs, transcript) \<Rightarrow> Some (c # cs, transcript)))"

definition prove_spartan_piop ::
  "('a::field, 't) field_transcript \<Rightarrow> 't \<Rightarrow> 'a prepared_constraint_matrices \<Rightarrow> 'a r1cs_product_mles \<Rightarrow> 'a dense_mle
   \<Rightarrow> (spartan_error + ('a spartan_piop_proof \<times> 'a scaled_mle_evaluation_claim) \<times> 't) option" where
  "prove_spartan_piop T transcript matrices products assignment =
     (if mle_num_vars (pm_az products) \<noteq> num_row_vars matrices \<or> mle_num_vars (pm_bz products) \<noteq> num_row_vars matrices \<or>
         mle_num_vars (pm_cz products) \<noteq> num_row_vars matrices
      then Some (Inl SpartanProductDimensions)
      else if mle_num_vars assignment \<noteq> num_column_vars matrices then Some (Inl SpartanAssignmentDimensions)
      else case squeeze_many T (num_row_vars matrices) (ft_bytes T (pcm_digest matrices) transcript) of
          None \<Rightarrow> None
        | Some (tau, transcript) \<Rightarrow>
            (case make_equality_factors tau of
               Inl _ \<Rightarrow> Some (Inl (SpartanMatrix InvalidMleOperation))
             | Inr equality_factors \<Rightarrow>
                 (case prove_outer_sumcheck T transcript 0 equality_factors products of
                    None \<Rightarrow> None
                  | Some (Inl e) \<Rightarrow> Some (Inl (SpartanSumcheck e))
                  | Some (Inr (outer, transcript)) \<Rightarrow>
                      (case ft_squeeze T transcript of
                         None \<Rightarrow> None
                       | Some (rho, transcript) \<Rightarrow>
                           let inner_initial_claim = osp_az_mle_claim (oso_proof outer) + rho * osp_bz_mle_claim (oso_proof outer)
                                 + rho * rho * osp_cz_mle_claim (oso_proof outer)
                           in case bind_and_batch matrices (oso_eval_points outer) rho of
                                None \<Rightarrow> None
                              | Some (Inl e) \<Rightarrow> Some (Inl (SpartanMatrix e))
                              | Some (Inr batched_matrix) \<Rightarrow>
                                  (case prove_inner_sumcheck T transcript inner_initial_claim batched_matrix assignment of
                                     None \<Rightarrow> None
                                   | Some (Inl e) \<Rightarrow> Some (Inl (SpartanSumcheck e))
                                   | Some (Inr (inner, transcript)) \<Rightarrow>
                                       let mle_claim = \<lparr>sc_point = spo_eval_points (iso_sumcheck inner),
                                             sc_scale = iso_batched_matrix_evaluation inner,
                                             sc_value = spo_final_claim (iso_sumcheck inner)\<rparr>
                                       in Some (Inr ((\<lparr>spp_outer = oso_proof outer, spp_inner = spo_proof (iso_sumcheck inner)\<rparr>,
                                            mle_claim), transcript)))))))"

definition verify_spartan_proof ::
  "('a::field, 't) field_transcript \<Rightarrow> 't \<Rightarrow> 'a prepared_constraint_matrices \<Rightarrow> 'a spartan_piop_proof
   \<Rightarrow> (spartan_error + 'a scaled_mle_evaluation_claim \<times> 't) option" where
  "verify_spartan_proof T transcript matrices pf =
     (case squeeze_many T (num_row_vars matrices) (ft_bytes T (pcm_digest matrices) transcript) of
        None \<Rightarrow> None
      | Some (tau, transcript) \<Rightarrow>
          (case outer_verify T (spp_outer pf) transcript 0 tau of
             None \<Rightarrow> None
           | Some (Inl e) \<Rightarrow> Some (Inl (SpartanSumcheck e))
           | Some (Inr (outer, transcript)) \<Rightarrow>
               (case ft_squeeze T transcript of
                  None \<Rightarrow> None
                | Some (rho, transcript) \<Rightarrow>
                    let inner_initial_claim = osv_az_mle_claim outer + rho * osv_bz_mle_claim outer + rho * rho * osv_cz_mle_claim outer
                    in case sumcheck_proof_verify T 3 (spp_inner pf) transcript inner_initial_claim (num_column_vars matrices) of
                         None \<Rightarrow> None
                       | Some (Inl e) \<Rightarrow> Some (Inl (SpartanSumcheck e))
                       | Some (Inr ((column_point, final_claim), transcript)) \<Rightarrow>
                           (case evaluate_batched matrices (osv_eval_points outer) rho column_point of
                              None \<Rightarrow> None
                            | Some (Inl e) \<Rightarrow> Some (Inl (SpartanMatrix e))
                            | Some (Inr matrix_evaluation) \<Rightarrow>
                                Some (Inr (\<lparr>sc_point = column_point, sc_scale = matrix_evaluation, sc_value = final_claim\<rparr>,
                                  transcript))))))"

definition verify_spartan_with_mle_claim ::
  "('a::field, 't) field_transcript \<Rightarrow> 't \<Rightarrow> 'a prepared_constraint_matrices \<Rightarrow> 'a spartan_piop_proof
   \<Rightarrow> 'a scaled_mle_evaluation_claim \<Rightarrow> packed_witness \<Rightarrow> (spartan_error + 't) option" where
  "verify_spartan_with_mle_claim T transcript matrices pf mle_claim assignment =
     (case build_assignment_mle assignment (pcm_column_count matrices) of
        None \<Rightarrow> None
      | Some (Inl e) \<Rightarrow> Some (Inl (SpartanMatrix e))
      | Some (Inr assignment) \<Rightarrow>
          (case verify_spartan_proof T transcript matrices pf of
             None \<Rightarrow> None
           | Some (Inl e) \<Rightarrow> Some (Inl e)
           | Some (Inr (expected_claim, transcript)) \<Rightarrow>
               if mle_claim \<noteq> expected_claim then Some (Inl InvalidMleClaim)
               else case nonsuccinct_verify mle_claim assignment of
                   None \<Rightarrow> None
                 | Some (Inl e) \<Rightarrow> Some (Inl (SpartanMleClaim e))
                 | Some (Inr _) \<Rightarrow> Some (Inr transcript)))"

section \<open>The statement\<close>

text \<open>The padded row products of an assignment, and the satisfaction of the constraints they decide.\<close>

definition true_products :: "'a::field constraint_matrices \<Rightarrow> 'a list \<Rightarrow> nat \<Rightarrow> 'a r1cs_product_mles" where
  "true_products ms h row_vars =
     \<lparr>pm_az = \<lparr>evaluations = map (matrix_product (cm_a ms) h) [0..<2 ^ row_vars]\<rparr>,
      pm_bz = \<lparr>evaluations = map (matrix_product (cm_b ms) h) [0..<2 ^ row_vars]\<rparr>,
      pm_cz = \<lparr>evaluations = map (matrix_product (cm_c ms) h) [0..<2 ^ row_vars]\<rparr>\<rparr>"

definition r1cs_satisfied :: "'a::field constraint_matrices \<Rightarrow> 'a list \<Rightarrow> bool" where
  "r1cs_satisfied ms h \<longleftrightarrow> (\<forall>i < sm_row_count (cm_a ms).
     matrix_product (cm_a ms) h i * matrix_product (cm_b ms) h i = matrix_product (cm_c ms) h i)"

lemma squeeze_many_length: "squeeze_many T n t = Some (cs, t') \<Longrightarrow> length cs = n"
  by (induction n arbitrary: t cs) (auto split: option.splits)

lemma squeeze_many_some: "squeezes T \<Longrightarrow> \<exists>r. squeeze_many T n t = Some r"
proof (induction n arbitrary: t)
  case (Suc n)
  obtain c t1 where "ft_squeeze T t = Some (c, t1)" using Suc.prems unfolding squeezes_def by fast
  moreover obtain r where "squeeze_many T n t1 = Some r" using Suc.IH [OF Suc.prems, of t1] by blast
  ultimately show ?case by (cases r) simp
qed simp

lemma squeeze_many_related:
  assumes "replayed P V R"
  shows "R p v \<Longrightarrow> squeeze_many P n p = Some (cs, p') \<Longrightarrow> \<exists>v'. squeeze_many V n v = Some (cs, v') \<and> R p' v'"
proof (induction n arbitrary: p v cs)
  case (Suc n)
  obtain c p1 cs' where s: "ft_squeeze P p = Some (c, p1)" "squeeze_many P n p1 = Some (cs', p')" "cs = c # cs'"
    using Suc.prems(2) by (auto split: option.splits)
  obtain v1 where "ft_squeeze V v = Some (c, v1)" "R p1 v1"
    using replayed.squeeze_related [OF assms Suc.prems(1) s(1)] by blast
  with Suc.IH [OF this(2) s(2)] s(3) show ?case by auto
qed simp

lemma bind_and_batch_length: "bind_and_batch pcm x rho = Some (Inr d) \<Longrightarrow> length x = num_row_vars pcm"
  by (auto simp: bind_and_batch_def Let_def num_row_vars_def split: if_splits)

lemma evaluate_batched_lengths:
  "evaluate_batched pcm x rho y = Some (Inr e) \<Longrightarrow> length x = num_row_vars pcm \<and> length y = num_column_vars pcm"
  by (auto simp: evaluate_batched_def Let_def num_row_vars_def num_column_vars_def split: if_splits)

lemma factors_exist: "length tau < 64 \<Longrightarrow> \<exists>f. make_equality_factors tau = Inr f"
  by (simp add: make_equality_factors_def mle_from_evaluations_def Let_def)

text \<open>The inner sum is the batched combination of the row products.\<close>

lemma mle_sum_matrix_product:
  "length x = n \<Longrightarrow> mle_sum (map (matrix_product M h) [0..<2 ^ n]) x = (\<Sum>i<2 ^ n. eq_weight x i * matrix_product M h i)"
  unfolding mle_sum_def by (intro sum.cong) (simp_all add: mult.commute)

lemma bound_inner_sum:
  assumes "lays_out (pcm_layout pcm) (pcm_values pcm) ms" "length x = num_row_vars pcm" "bind_and_batch pcm x rho = Some (Inr d)"
  shows "inner_sum (evaluations d) h = mle_sum (map (matrix_product (cm_a ms) h) [0..<2 ^ num_row_vars pcm]) x
    + rho * mle_sum (map (matrix_product (cm_b ms) h) [0..<2 ^ num_row_vars pcm]) x
    + rho * rho * mle_sum (map (matrix_product (cm_c ms) h) [0..<2 ^ num_row_vars pcm]) x"
proof -
  let ?n = "num_column_vars pcm"
  have v: "prepared_valid pcm" by (rule lays_out_prepared [OF assms(1)])
  have d: "evaluations d = map (\<lambda>j. batch_sum pcm rho (\<lambda>i j'. if j' = j then eq_weight x i else 0)) [0..<2 ^ ?n]"
    using assms(3) bind_and_batch_table [OF v assms(2), of rho] by auto
  have "inner_sum (evaluations d) h = (\<Sum>j<2 ^ ?n. h ! j * batch_sum pcm rho (\<lambda>i j'. if j' = j then eq_weight x i else 0))"
    unfolding inner_sum_def d by (simp add: mult.commute)
  also have "\<dots> = batch_sum pcm rho (\<lambda>i j. eq_weight x i * h ! j)"
    unfolding batch_sum_def sum_list_const_mult [symmetric] map_map comp_def sum_list_swap
  proof (intro arg_cong [of _ _ sum_list] map_cong refl)
    fix y assume "y \<in> set (batched pcm rho)"
    moreover obtain pos index vals scale where y: "y = (pos, index, vals, scale)" by (metis prod_cases4)
    ultimately have "\<forall>(i, j, k)\<in>set (sites pos). j < 2 ^ ?n" using batched_valid(2) [of pcm] v by (fastforce simp: prepared_valid_def)
    from arg_cong [OF site_sum_columns [OF this, of "\<lambda>j. h ! j" "eq_weight x" vals], of "(*) scale"]
    show "(\<Sum>j<2 ^ ?n. h ! j * (case y of (pos, index, vals, scale) \<Rightarrow>
          scale * site_sum (\<lambda>i j'. if j' = j then eq_weight x i else 0) vals (sites pos)))
      = (case y of (pos, index, vals, scale) \<Rightarrow> scale * site_sum (\<lambda>i j. eq_weight x i * h ! j) vals (sites pos))"
      by (simp add: y sum_distrib_left mult.left_commute)
  qed
  finally have e: "inner_sum (evaluations d) h = batch_sum pcm rho (\<lambda>i j. eq_weight x i * h ! j)" .
  have rows: "sm_row_count M \<le> 2 ^ num_row_vars pcm" if "M \<in> {cm_a ms, cm_b ms, cm_c ms}" for M
    using assms(1) that by (auto simp: lays_out_def num_row_vars_def)
  show ?thesis
    unfolding e batch_sum_matrices [OF assms(1)]
    using matrix_sum_product [OF rows, of _ "eq_weight x" h] by (simp add: mle_sum_matrix_product assms(2))
qed


lemma nonsuccinct_verify_value:
  assumes "length (evaluations h) = 2 ^ n" "length (sc_point claim) = n"
  shows "nonsuccinct_verify claim h
    = Some (if sc_scale claim * mle_sum (evaluations h) (sc_point claim) \<noteq> sc_value claim then Inl InvalidEvaluation else Inr ())"
proof -
  have "mle_num_vars h = n" using assms(1) by (rule mle_num_vars_power2)
  then have "mle_evaluate h (sc_point claim) = Some (Inr (mle_sum (evaluations h) (sc_point claim)))"
    using assms by (simp add: mle_evaluate_def evaluate_exact_mle_sum)
  then show ?thesis by (simp add: nonsuccinct_verify_def)
qed

definition residual :: "'a::field constraint_matrices \<Rightarrow> 'a list \<Rightarrow> nat \<Rightarrow> 'a list" where
  "residual ms h n = map (\<lambda>i. matrix_product (cm_a ms) h i * matrix_product (cm_b ms) h i - matrix_product (cm_c ms) h i) [0..<2 ^ n]"

lemma outer_sum_residual:
  "length tau = n \<Longrightarrow> outer_sum tau (map (matrix_product (cm_a ms) h) [0..<2 ^ n]) (map (matrix_product (cm_b ms) h) [0..<2 ^ n])
    (map (matrix_product (cm_c ms) h) [0..<2 ^ n]) = mle_sum (residual ms h n) tau"
  unfolding outer_sum_def mle_sum_def residual_def by (intro sum.cong) (simp_all add: mult.commute)

lemma satisfied_residual:
  assumes "lays_out (pcm_layout pcm) (pcm_values pcm) ms" "r1cs_satisfied ms h"
  shows "residual ms h n = replicate (2 ^ n) 0"
proof -
  have "matrix_product (cm_a ms) h i * matrix_product (cm_b ms) h i = matrix_product (cm_c ms) h i" for i
    using assms by (cases "i < sm_row_count (cm_a ms)")
      (auto simp: r1cs_satisfied_def matrix_product_def lays_out_def sm_row_count_def)
  then show ?thesis by (intro nth_equalityI) (simp_all add: residual_def)
qed

lemma mle_sum_zeros: "mle_sum (replicate (2 ^ length r) 0) r = (0 :: 'a::field)"
  by (simp add: mle_sum_def)

lemma true_products_simps [simp]:
  "evaluations (pm_az (true_products ms h n)) = map (matrix_product (cm_a ms) h) [0..<2 ^ n]"
  "evaluations (pm_bz (true_products ms h n)) = map (matrix_product (cm_b ms) h) [0..<2 ^ n]"
  "evaluations (pm_cz (true_products ms h n)) = map (matrix_product (cm_c ms) h) [0..<2 ^ n]"
  by (simp_all add: true_products_def)

section \<open>Completeness and progress\<close>

lemma piop_complete:
  assumes "replayed P V R" "R p v"
    and lays: "lays_out (pcm_layout pcm) (pcm_values pcm) ms"
    and vanishes: "\<And>tau p1. squeeze_many P (num_row_vars pcm) (ft_bytes P (pcm_digest pcm) p) = Some (tau, p1) \<Longrightarrow>
      mle_sum (residual ms (evaluations h) (num_row_vars pcm)) tau = 0"
    and proves: "prove_spartan_piop P p pcm (true_products ms (evaluations h) (num_row_vars pcm)) h = Some (Inr ((pf, claim), p'))"
    and len: "length (evaluations h) = 2 ^ num_column_vars pcm"
  shows "\<exists>v'. verify_spartan_proof V v pcm pf = Some (Inr (claim, v')) \<and> R p' v' \<and> nonsuccinct_verify claim h = Some (Inr ())"
proof -
  let ?n = "num_row_vars pcm" and ?m = "num_column_vars pcm"
  let ?products = "true_products ms (evaluations h) ?n"
  obtain tau p1 factors outer p2 rho p3 d inner p4 where
      tau: "squeeze_many P ?n (ft_bytes P (pcm_digest pcm) p) = Some (tau, p1)"
    and factors: "make_equality_factors tau = Inr factors"
    and outer: "prove_outer_sumcheck P p1 0 factors ?products = Some (Inr (outer, p2))"
    and rho: "ft_squeeze P p2 = Some (rho, p3)"
    and d: "bind_and_batch pcm (oso_eval_points outer) rho = Some (Inr d)"
    and inner: "prove_inner_sumcheck P p3 (osp_az_mle_claim (oso_proof outer) + rho * osp_bz_mle_claim (oso_proof outer)
        + rho * rho * osp_cz_mle_claim (oso_proof outer)) d h = Some (Inr (inner, p4))"
    and out: "pf = \<lparr>spp_outer = oso_proof outer, spp_inner = spo_proof (iso_sumcheck inner)\<rparr>"
      "claim = \<lparr>sc_point = spo_eval_points (iso_sumcheck inner), sc_scale = iso_batched_matrix_evaluation inner,
         sc_value = spo_final_claim (iso_sumcheck inner)\<rparr>" "p' = p4"
    using proves by (auto simp: prove_spartan_piop_def Let_def split: option.splits sum.splits if_splits)
  obtain v1 where v1: "squeeze_many V ?n (ft_bytes V (pcm_digest pcm) v) = Some (tau, v1)" "R p1 v1"
    using squeeze_many_related [OF assms(1) replayed.bytes_related [OF assms(1,2)] tau] by blast
  have lt: "length tau = ?n" by (rule squeeze_many_length [OF tau])
  have lens: "length (evaluations (pm_az ?products)) = 2 ^ length tau" "length (evaluations (pm_bz ?products)) = 2 ^ length tau"
    "length (evaluations (pm_cz ?products)) = 2 ^ length tau" by (simp_all add: lt)
  have "outer_sum tau (evaluations (pm_az ?products)) (evaluations (pm_bz ?products)) (evaluations (pm_cz ?products)) = 0"
    using outer_sum_residual [OF lt, of ms "evaluations h"] vanishes [OF tau] by simp
  from outer_complete [OF assms(1) v1(2) factors lens this outer]
  obtain v2 where o: "R p2 v2" "length (oso_eval_points outer) = length tau"
      "osp_az_mle_claim (oso_proof outer) = mle_sum (evaluations (pm_az ?products)) (oso_eval_points outer)"
      "osp_bz_mle_claim (oso_proof outer) = mle_sum (evaluations (pm_bz ?products)) (oso_eval_points outer)"
      "osp_cz_mle_claim (oso_proof outer) = mle_sum (evaluations (pm_cz ?products)) (oso_eval_points outer)"
      "outer_verify V (oso_proof outer) v1 0 tau = Some (Inr (\<lparr>osv_eval_points = oso_eval_points outer,
        osv_az_mle_claim = osp_az_mle_claim (oso_proof outer), osv_bz_mle_claim = osp_bz_mle_claim (oso_proof outer),
        osv_cz_mle_claim = osp_cz_mle_claim (oso_proof outer)\<rparr>, v2))" by blast
  obtain v3 where v3: "ft_squeeze V v2 = Some (rho, v3)" "R p3 v3"
    using replayed.squeeze_related [OF assms(1) o(1) rho] by blast
  have x: "length (oso_eval_points outer) = ?n" using o(2) lt by simp
  have v: "prepared_valid pcm" by (rule lays_out_prepared [OF lays])
  have ld: "length (evaluations d) = 2 ^ ?m" using bind_and_batch_table [OF v x, of rho] d by auto
  have "inner_sum (evaluations d) (evaluations h) = osp_az_mle_claim (oso_proof outer) + rho * osp_bz_mle_claim (oso_proof outer)
        + rho * rho * osp_cz_mle_claim (oso_proof outer)"
    using bound_inner_sum [OF lays x d] by (simp add: o(3-5))
  from inner_complete [OF assms(1) v3(2) ld len this inner]
  obtain v4 where i: "R p4 v4" "length (spo_eval_points (iso_sumcheck inner)) = ?m"
      "iso_batched_matrix_evaluation inner = mle_sum (evaluations d) (spo_eval_points (iso_sumcheck inner))"
      "iso_witness_evaluation inner = mle_sum (evaluations h) (spo_eval_points (iso_sumcheck inner))"
      "spo_final_claim (iso_sumcheck inner) = iso_batched_matrix_evaluation inner * iso_witness_evaluation inner"
      "sumcheck_proof_verify V 3 (spo_proof (iso_sumcheck inner)) v3 (osp_az_mle_claim (oso_proof outer)
          + rho * osp_bz_mle_claim (oso_proof outer) + rho * rho * osp_cz_mle_claim (oso_proof outer)) ?m
        = Some (Inr ((spo_eval_points (iso_sumcheck inner), spo_final_claim (iso_sumcheck inner)), v4))" by blast
  have "evaluate_batched pcm (oso_eval_points outer) rho (spo_eval_points (iso_sumcheck inner)) = Some (Inr (iso_batched_matrix_evaluation inner))"
    using evaluate_is_bound_mle [OF v x i(2) d] i(3) by simp
  then have "verify_spartan_proof V v pcm pf = Some (Inr (claim, v4))"
    by (simp add: verify_spartan_proof_def v1(1) out o(6) v3(1) i(6) Let_def)
  moreover have "nonsuccinct_verify claim h = Some (Inr ())"
    using nonsuccinct_verify_value [OF len, of claim] i(2,4,5) by (simp add: out(2) i(3))
  ultimately show ?thesis using i(1) out(3) by blast
qed

text \<open>The messages of a round have one coefficient more than the degree.\<close>

context round_tables
begin

lemma reference_lengths:
  "vars n s \<Longrightarrow> reference_rounds T cf fix_var n s log t = Some ((s', log'), t') \<Longrightarrow>
    \<forall>q\<in>set (rl_round_polynomials log'). q \<in> set (rl_round_polynomials log) \<or> length q = Suc degree"
proof (induction n arbitrary: s log t)
  case (Suc n)
  obtain c log1 t1 where r: "recover_full_round_polynomial T t log (cf s) = Some ((c, log1), t1)"
    "reference_rounds T cf fix_var n (fix_var s c) log1 t1 = Some ((s', log'), t')" using Suc.prems(2) by (auto split: option.splits)
  have "cf s \<noteq> []" "length (cf s) = degree" using length_cf [OF Suc.prems(1)] by auto
  then have l: "length (reconstruct_round_coefficients claim (cf s)) = Suc degree" for claim
    by (cases "cf s") (simp_all add: reconstruct_round_value)
  have "\<forall>q\<in>set (rl_round_polynomials log1). q \<in> set (rl_round_polynomials log) \<or> length q = Suc degree"
    using r(1) l by (auto simp: recover_full_round_polynomial_def Let_def split: option.splits)
  with Suc.IH [OF vars_bind [OF Suc.prems(1)] r(2)] show ?case by blast
qed simp

end

lemma piop_lengths:
  assumes "prepared_valid pcm" "length (evaluations h) = 2 ^ num_column_vars pcm"
    and "prove_spartan_piop T t pcm (true_products ms hs (num_row_vars pcm)) h = Some (Inr ((pf, claim), t'))"
  shows "(\<forall>q\<in>set (round_polynomials (osp_sumcheck (spp_outer pf))). length q = 4) \<and> (\<forall>q\<in>set (round_polynomials (spp_inner pf)). length q = 3)"
proof -
  let ?n = "num_row_vars pcm" let ?products = "true_products ms hs ?n"
  obtain tau t1 factors outer t2 rho t3 d inner where
      tau: "squeeze_many T ?n (ft_bytes T (pcm_digest pcm) t) = Some (tau, t1)" and factors: "make_equality_factors tau = Inr factors"
    and outer: "prove_outer_sumcheck T t1 0 factors ?products = Some (Inr (outer, t2))"
    and d: "bind_and_batch pcm (oso_eval_points outer) rho = Some (Inr d)"
    and inner: "prove_inner_sumcheck T t3 (osp_az_mle_claim (oso_proof outer) + rho * osp_bz_mle_claim (oso_proof outer)
        + rho * rho * osp_cz_mle_claim (oso_proof outer)) d h = Some (Inr (inner, t'))"
    and out: "pf = \<lparr>spp_outer = oso_proof outer, spp_inner = spo_proof (iso_sumcheck inner)\<rparr>"
    using assms(3) by (auto simp: prove_spartan_piop_def Let_def split: option.splits sum.splits if_splits)
  have lt: "length tau = ?n" by (rule squeeze_many_length [OF tau])
  have lens: "length (evaluations (pm_az ?products)) = 2 ^ length tau" "length (evaluations (pm_bz ?products)) = 2 ^ length tau"
    "length (evaluations (pm_cz ?products)) = 2 ^ length tau" by (simp_all add: lt)
  obtain s log t4 where o: "reference_rounds T outer_cf outer_bind (length tau) (outer_start tau ?products) (empty_log 0) t1 = Some ((s, log), t4)"
    "outer_output T (s, log) t4 = (outer, t2)"
    using outer unfolding prove_outer_reference [OF factors lens] by auto
  have "\<forall>q\<in>set (rl_round_polynomials log). length q = 4"
    using outer_tables.reference_lengths [OF outer_start_vars [OF lens] o(1)] by (simp add: empty_log_def)
  moreover have "osp_sumcheck (oso_proof outer) = \<lparr>round_polynomials = rl_round_polynomials log\<rparr>"
    using o(2) by (cases s) (auto simp: outer_output_def Let_def)
  moreover have x: "length (oso_eval_points outer) = ?n"
    by (rule bind_and_batch_length [OF d])
  have ld: "length (evaluations d) = 2 ^ num_column_vars pcm"
    using bind_and_batch_table [OF assms(1) x, of rho] d by auto
  obtain m w log' t5 where i: "reference_rounds T inner_cf inner_bind (num_column_vars pcm) (evaluations d, evaluations h) (empty_log
        (osp_az_mle_claim (oso_proof outer) + rho * osp_bz_mle_claim (oso_proof outer) + rho * rho * osp_cz_mle_claim (oso_proof outer))) t3
        = Some (((m, w), log'), t5)"
    "spo_proof (iso_sumcheck inner) = \<lparr>round_polynomials = rl_round_polynomials log'\<rparr>"
    using inner unfolding prove_inner_reference [OF ld assms(2)] by auto
  have "inner_vars (num_column_vars pcm) (evaluations d, evaluations h)" using ld assms(2) by (simp add: inner_vars_def)
  from inner_tables.reference_lengths [OF this i(1)] have "\<forall>q\<in>set (rl_round_polynomials log'). length q = 3" by (simp add: empty_log_def)
  ultimately show ?thesis by (simp add: out i(2))
qed

lemma prove_outer_returns:
  assumes "squeezes T" "make_equality_factors tau = Inr factors" "length (evaluations (pm_az products)) = 2 ^ length tau"
    "length (evaluations (pm_bz products)) = 2 ^ length tau" "length (evaluations (pm_cz products)) = 2 ^ length tau"
  shows "\<exists>out t'. prove_outer_sumcheck T t claim factors products = Some (Inr (out, t')) \<and> length (oso_eval_points out) = length tau"
proof -
  obtain s log t1 where r: "reference_rounds T outer_cf outer_bind (length tau) (outer_start tau products) (empty_log claim) t = Some ((s, log), t1)"
    using reference_rounds_some [OF assms(1), of outer_cf outer_bind "length tau" "outer_start tau products" "empty_log claim" t]
    by fastforce
  have points: "length (rl_eval_points log') = length (rl_eval_points log0) + n"
    if "reference_rounds T cf fix_var n s0 log0 t0 = Some ((s', log'), t')" for cf fix_var n s0 log0 t0 s' log' t'
    using that
  proof (induction n arbitrary: s0 log0 t0)
    case (Suc n)
    then obtain c log1 t1 where "recover_full_round_polynomial T t0 log0 (cf s0) = Some ((c, log1), t1)"
      "reference_rounds T cf fix_var n (fix_var s0 c) log1 t1 = Some ((s', log'), t')" by (auto split: option.splits)
    moreover from this(1) have "length (rl_eval_points log1) = Suc (length (rl_eval_points log0))"
      by (auto simp: recover_full_round_polynomial_def Let_def split: option.splits)
    ultimately show ?case using Suc.IH by fastforce
  qed simp
  show ?thesis unfolding prove_outer_reference [OF assms(2-5)] r
    using points [OF r] by (cases s) (auto simp: outer_output_def empty_log_def Let_def)
qed

lemma prove_inner_returns:
  assumes "squeezes T" "length (evaluations m) = 2 ^ n" "length (evaluations w) = 2 ^ n"
  shows "\<exists>out t'. prove_inner_sumcheck T t claim m w = Some (Inr (out, t'))"
proof -
  obtain m' w' log t1 where "reference_rounds T inner_cf inner_bind n (evaluations m, evaluations w) (empty_log claim) t = Some (((m', w'), log), t1)"
    using reference_rounds_some [OF assms(1), of inner_cf inner_bind n "(evaluations m, evaluations w)" "empty_log claim" t]
    by fastforce
  then show ?thesis unfolding prove_inner_reference [OF assms(2,3)] by simp
qed

lemma piop_returns:
  assumes "squeezes T" "lays_out (pcm_layout pcm) (pcm_values pcm) ms" "length (evaluations h) = 2 ^ num_column_vars pcm"
    and "length (evaluations (pm_az products)) = 2 ^ num_row_vars pcm" "length (evaluations (pm_bz products)) = 2 ^ num_row_vars pcm"
      "length (evaluations (pm_cz products)) = 2 ^ num_row_vars pcm"
  shows "\<exists>pf claim t'. prove_spartan_piop T t pcm products h = Some (Inr ((pf, claim), t'))"
proof -
  let ?n = "num_row_vars pcm"
  have v: "prepared_valid pcm" by (rule lays_out_prepared [OF assms(2)])
  have d: "mle_num_vars (pm_az products) = ?n" "mle_num_vars (pm_bz products) = ?n" "mle_num_vars (pm_cz products) = ?n"
    "mle_num_vars h = num_column_vars pcm" using assms(3-6) by (simp_all add: mle_num_vars_power2)
  obtain tau t1 where tau: "squeeze_many T ?n (ft_bytes T (pcm_digest pcm) t) = Some (tau, t1)"
    using squeeze_many_some [OF assms(1), of ?n "ft_bytes T (pcm_digest pcm) t"] by fastforce
  have lt: "length tau = ?n" by (rule squeeze_many_length [OF tau])
  obtain factors where f: "make_equality_factors tau = Inr factors"
    using factors_exist [of tau] v lt by (auto simp: prepared_valid_def layout_valid_def num_row_vars_def)
  obtain outer t2 where o: "prove_outer_sumcheck T t1 0 factors products = Some (Inr (outer, t2))" "length (oso_eval_points outer) = ?n"
    using prove_outer_returns [OF assms(1) f assms(4-6) [folded lt], of t1 0] lt by auto
  obtain rho t3 where rho: "ft_squeeze T t2 = Some (rho, t3)" using assms(1) unfolding squeezes_def by fast
  obtain dm where dm: "bind_and_batch pcm (oso_eval_points outer) rho = Some (Inr dm)" "length (evaluations dm) = 2 ^ num_column_vars pcm"
    using bind_and_batch_table [OF v o(2), of rho] by auto
  obtain inner t4 where "prove_inner_sumcheck T t3 (osp_az_mle_claim (oso_proof outer) + rho * osp_bz_mle_claim (oso_proof outer)
        + rho * rho * osp_cz_mle_claim (oso_proof outer)) dm h = Some (Inr (inner, t4))"
    using prove_inner_returns [OF assms(1) dm(2) assms(3)] by blast
  then show ?thesis by (simp add: prove_spartan_piop_def d tau f o(1) rho dm(1) Let_def)
qed

section \<open>Soundness\<close>

text \<open>The values of \<open>rho\<close> at which three wrong claims batch to the right sum.\<close>

definition batch_collisions :: "'a::field \<Rightarrow> 'a \<Rightarrow> 'a \<Rightarrow> 'a set" where
  "batch_collisions a b c = {x. a + x * b + x * x * c = 0}"

lemma batch_collisions_bound:
  assumes "a \<noteq> 0 \<or> b \<noteq> 0 \<or> c \<noteq> 0"
  shows "finite (batch_collisions a b c) \<and> card (batch_collisions a b c) \<le> 2"
proof -
  have h: "horner [a, b, c] x = a + x * b + x * x * c" for x :: 'a by (simp add: algebra_simps)
  have e: "batch_collisions a b c = {x. horner [a, b, c] x = horner [] x}"
    unfolding batch_collisions_def by (simp only: h horner.simps(1))
  show ?thesis
  proof (cases "\<exists>y. horner [a, b, c] y \<noteq> horner [] y")
    case True
    then show ?thesis using agreement_bound [of "[a, b, c]" _ "[]" 3] unfolding e by auto
  next
    case False
    then have z: "a + x * b + x * x * c = 0" for x by (simp add: h [symmetric])
    have "a = 0" "b + c = 0" "c - b = 0" using z [of 0] z [of 1] z [of "- 1"] by (auto simp: algebra_simps)
    then have "b = c" "a = 0" "b + b = 0" by auto
    then have b: "b \<noteq> 0" "c = b" using assms by auto
    have "x * x = - x" if "x \<in> UNIV" for x :: 'a
    proof -
      have "b * (x + x * x) = 0" using z [of x] \<open>a = 0\<close> b(2) by (simp add: algebra_simps)
      with b(1) have "x + x * x = 0" by simp
      then show ?thesis by (simp add: eq_neg_iff_add_eq_0 add.commute)
    qed
    then have "x = 0 \<or> x = - 1" for x :: 'a
      by (metis UNIV_I add_eq_0_iff mult_cancel_left mult_minus1_right)
    then have "batch_collisions a b c \<subseteq> {0, - 1}" by blast
    then have "finite (batch_collisions a b c)" "card (batch_collisions a b c) \<le> card {0, - 1 :: 'a}"
      by (simp add: finite_subset, intro card_mono) simp_all
    moreover have "card {0, - 1 :: 'a} \<le> 2" by (simp add: card_insert_if)
    ultimately show ?thesis by linarith
  qed
qed

text \<open>The ways in which an accepted proof of a false statement betrays itself.  Each says that one
  challenge lies in a set that is fixed before the challenge is drawn: the zeros of the residual's
  multilinear extension, or a set of at most three or two elements.\<close>

definition bad_tau :: "'a::field constraint_matrices \<Rightarrow> 'a list \<Rightarrow> nat \<Rightarrow> 'a list \<Rightarrow> bool" where
  "bad_tau ms h n tau \<longleftrightarrow> residual ms h n \<noteq> replicate (2 ^ n) 0 \<and> mle_sum (residual ms h n) tau = 0"

definition outer_escapes :: "'a::field constraint_matrices \<Rightarrow> 'a list \<Rightarrow> 'a list \<Rightarrow> 'a list list \<Rightarrow> 'a list \<Rightarrow> nat \<Rightarrow> 'a set" where
  "outer_escapes ms h tau polys point k = {x. horner (polys ! k) x
     = outer_total (outer_bind (foldl outer_bind (outer_start tau (true_products ms h (length tau))) (take k point)) x)}"

definition inner_escapes :: "'a::field list \<Rightarrow> 'a list \<Rightarrow> 'a list list \<Rightarrow> 'a list \<Rightarrow> nat \<Rightarrow> 'a set" where
  "inner_escapes d h polys point k = {x. horner (polys ! k) x
     = inner_total (inner_bind (foldl inner_bind (d, h) (take k point)) x)}"

lemma piop_sound:
  assumes lays: "lays_out (pcm_layout pcm) (pcm_values pcm) ms"
    and accepts: "verify_spartan_proof V v pcm pf = Some (Inr (claim, v'))"
    and quads: "\<forall>q\<in>set (round_polynomials (osp_sumcheck (spp_outer pf))). length q = 4"
    and triples: "\<forall>q\<in>set (round_polynomials (spp_inner pf)). length q = 3"
    and len: "length (evaluations h) = 2 ^ num_column_vars pcm"
    and terminal: "nonsuccinct_verify claim h = Some (Inr ())"
    and unsat: "\<not> r1cs_satisfied ms (evaluations h)"
  shows "\<exists>tau v1 outer v2 rho v3 d.
    squeeze_many V (num_row_vars pcm) (ft_bytes V (pcm_digest pcm) v) = Some (tau, v1) \<and>
    outer_verify V (spp_outer pf) v1 0 tau = Some (Inr (outer, v2)) \<and> ft_squeeze V v2 = Some (rho, v3) \<and>
    bind_and_batch pcm (osv_eval_points outer) rho = Some (Inr d) \<and>
    (bad_tau ms (evaluations h) (num_row_vars pcm) tau \<or>
     (\<exists>k<num_row_vars pcm.
        let B = outer_escapes ms (evaluations h) tau (round_polynomials (osp_sumcheck (spp_outer pf))) (osv_eval_points outer) k
        in finite B \<and> card B \<le> 3 \<and> osv_eval_points outer ! k \<in> B) \<or>
     (let products = true_products ms (evaluations h) (num_row_vars pcm);
          B = batch_collisions (osv_az_mle_claim outer - mle_sum (evaluations (pm_az products)) (osv_eval_points outer))
                (osv_bz_mle_claim outer - mle_sum (evaluations (pm_bz products)) (osv_eval_points outer))
                (osv_cz_mle_claim outer - mle_sum (evaluations (pm_cz products)) (osv_eval_points outer))
      in finite B \<and> card B \<le> 2 \<and> rho \<in> B) \<or>
     (\<exists>k<num_column_vars pcm.
        let B = inner_escapes (evaluations d) (evaluations h) (round_polynomials (spp_inner pf)) (sc_point claim) k
        in finite B \<and> card B \<le> 2 \<and> sc_point claim ! k \<in> B))"
proof -
  let ?n = "num_row_vars pcm" and ?m = "num_column_vars pcm" and ?h = "evaluations h"
  let ?products = "true_products ms ?h ?n"
  obtain tau v1 outer v2 rho v3 where
      tau: "squeeze_many V ?n (ft_bytes V (pcm_digest pcm) v) = Some (tau, v1)"
    and outer: "outer_verify V (spp_outer pf) v1 0 tau = Some (Inr (outer, v2))"
    and rho: "ft_squeeze V v2 = Some (rho, v3)"
    and inner: "sumcheck_proof_verify V 3 (spp_inner pf) v3 (osv_az_mle_claim outer + rho * osv_bz_mle_claim outer
        + rho * rho * osv_cz_mle_claim outer) ?m = Some (Inr ((sc_point claim, sc_value claim), v'))"
    and evaluated: "evaluate_batched pcm (osv_eval_points outer) rho (sc_point claim) = Some (Inr (sc_scale claim))"
    using accepts by (auto simp: verify_spartan_proof_def Let_def split: option.splits sum.splits)
  have lt: "length tau = ?n" by (rule squeeze_many_length [OF tau])
  have v: "prepared_valid pcm" by (rule lays_out_prepared [OF lays])
  have x: "length (osv_eval_points outer) = ?n" and y: "length (sc_point claim) = ?m"
    using evaluate_batched_lengths [OF evaluated] by simp_all
  obtain d where d: "bind_and_batch pcm (osv_eval_points outer) rho = Some (Inr d)" using bind_and_batch_table [OF v x] by blast
  have ld: "length (evaluations d) = 2 ^ ?m" using bind_and_batch_table [OF v x, of rho] d by auto
  have scale: "sc_scale claim = mle_sum (evaluations d) (sc_point claim)"
    using evaluate_is_bound_mle [OF v x y d] evaluated by simp
  have lens: "length (evaluations (pm_az ?products)) = 2 ^ length tau" "length (evaluations (pm_bz ?products)) = 2 ^ length tau"
    "length (evaluations (pm_cz ?products)) = 2 ^ length tau" by (simp_all add: lt)
  let ?A = "mle_sum (evaluations (pm_az ?products)) (osv_eval_points outer)"
  let ?B = "mle_sum (evaluations (pm_bz ?products)) (osv_eval_points outer)"
  let ?C = "mle_sum (evaluations (pm_cz ?products)) (osv_eval_points outer)"
  have sum: "inner_sum (evaluations d) ?h = ?A + rho * ?B + rho * rho * ?C" using bound_inner_sum [OF lays x d] by simp
  have "residual ms ?h ?n \<noteq> replicate (2 ^ ?n) 0"
  proof
    assume z: "residual ms ?h ?n = replicate (2 ^ ?n) 0"
    have "matrix_product (cm_a ms) ?h i * matrix_product (cm_b ms) ?h i = matrix_product (cm_c ms) ?h i" if "i < 2 ^ ?n" for i
      using arg_cong [OF z, of "\<lambda>xs. xs ! i"] that by (simp add: residual_def)
    then have "r1cs_satisfied ms ?h" using lays by (auto simp: r1cs_satisfied_def lays_out_def num_row_vars_def)
    with unsat show False ..
  qed
  note residual = this
  have found: "\<exists>tau v1 outer v2 rho v3 d. squeeze_many V ?n (ft_bytes V (pcm_digest pcm) v) = Some (tau, v1) \<and>
      outer_verify V (spp_outer pf) v1 0 tau = Some (Inr (outer, v2)) \<and> ft_squeeze V v2 = Some (rho, v3) \<and>
      bind_and_batch pcm (osv_eval_points outer) rho = Some (Inr d) \<and> Q tau outer rho d" if "Q tau outer rho d" for Q
    using tau outer rho d that by blast
  show ?thesis
  proof (rule found)
    consider "mle_sum (residual ms ?h ?n) tau = 0"
      | "mle_sum (residual ms ?h ?n) tau \<noteq> 0" "osv_az_mle_claim outer = ?A" "osv_bz_mle_claim outer = ?B" "osv_cz_mle_claim outer = ?C"
      | "osv_az_mle_claim outer - ?A \<noteq> 0 \<or> osv_bz_mle_claim outer - ?B \<noteq> 0 \<or> osv_cz_mle_claim outer - ?C \<noteq> 0"
        "rho \<in> batch_collisions (osv_az_mle_claim outer - ?A) (osv_bz_mle_claim outer - ?B) (osv_cz_mle_claim outer - ?C)"
      | "rho \<notin> batch_collisions (osv_az_mle_claim outer - ?A) (osv_bz_mle_claim outer - ?B) (osv_cz_mle_claim outer - ?C)"
      by fastforce
    then show "bad_tau ms ?h ?n tau \<or> (\<exists>k<?n. let B = outer_escapes ms ?h tau (round_polynomials (osp_sumcheck (spp_outer pf)))
          (osv_eval_points outer) k in finite B \<and> card B \<le> 3 \<and> osv_eval_points outer ! k \<in> B) \<or>
      (let products = ?products; B = batch_collisions (osv_az_mle_claim outer - mle_sum (evaluations (pm_az products)) (osv_eval_points outer))
                (osv_bz_mle_claim outer - mle_sum (evaluations (pm_bz products)) (osv_eval_points outer))
                (osv_cz_mle_claim outer - mle_sum (evaluations (pm_cz products)) (osv_eval_points outer))
       in finite B \<and> card B \<le> 2 \<and> rho \<in> B) \<or>
      (\<exists>k<?m. let B = inner_escapes (evaluations d) ?h (round_polynomials (spp_inner pf)) (sc_point claim) k
         in finite B \<and> card B \<le> 2 \<and> sc_point claim ! k \<in> B)"
    proof cases
      case 1
      with residual show ?thesis by (simp add: bad_tau_def)
    next
      case 2
      have "outer_sum tau (evaluations (pm_az ?products)) (evaluations (pm_bz ?products)) (evaluations (pm_cz ?products)) \<noteq> 0"
        using 2(1) outer_sum_residual [OF lt] by simp
      from outer_sound [OF outer quads lens 2(2-4) this] show ?thesis
        unfolding outer_escapes_def lt Let_def by blast
    next
      case 3
      with batch_collisions_bound [OF 3(1)] show ?thesis by (simp add: Let_def)
    next
      case 4
      then have false_claim: "inner_sum (evaluations d) ?h \<noteq> osv_az_mle_claim outer + rho * osv_bz_mle_claim outer + rho * rho * osv_cz_mle_claim outer"
        unfolding sum batch_collisions_def by (simp add: algebra_simps)
      have "mle_sum (evaluations d) (sc_point claim) * mle_sum ?h (sc_point claim) = sc_value claim"
        using terminal nonsuccinct_verify_value [OF len y] scale by (simp split: if_splits)
      from inner_sound [OF inner triples ld len this false_claim] show ?thesis
        unfolding inner_escapes_def Let_def by blast
    qed
  qed
qed

text \<open>A nonzero multilinear polynomial vanishes on few points: over the points with coordinates in a
  finite set of size \<open>s\<close>, at most \<open>n s\<^bsup>n - 1\<^esup>\<close>.\<close>

definition mle_zeros :: "'a::field set \<Rightarrow> 'a list \<Rightarrow> nat \<Rightarrow> 'a list set" where
  "mle_zeros S t n = {x. set x \<subseteq> S \<and> length x = n \<and> mle_sum t x = 0}"

lemma mle_zeros_Suc:
  assumes "length t = 2 ^ Suc n"
  shows "mle_zeros S t (Suc n) = (\<Union>c\<in>S. (#) c ` mle_zeros S (folded_table t c) n)"
proof (rule set_eqI)
  fix x
  show "x \<in> mle_zeros S t (Suc n) \<longleftrightarrow> x \<in> (\<Union>c\<in>S. (#) c ` mle_zeros S (folded_table t c) n)"
  proof (cases x)
    case (Cons c r)
    have "mle_sum (folded_table t c) r = mle_sum t (c # r)" if "length r = n" using assms that by (intro mle_sum_folded_table) simp
    then show ?thesis by (auto simp: Cons mle_zeros_def image_iff)
  qed (auto simp: mle_zeros_def)
qed

lemma mle_zeros_all: "finite S \<Longrightarrow> finite (mle_zeros S t n) \<and> card (mle_zeros S t n) \<le> card S ^ n"
proof -
  assume f: "finite S"
  have "mle_zeros S t n \<subseteq> {x. set x \<subseteq> S \<and> length x = n}" by (auto simp: mle_zeros_def)
  then show ?thesis
    using finite_lists_length_eq [OF f, of n] card_mono [of "{x. set x \<subseteq> S \<and> length x = n}"] card_lists_length_eq [OF f, of n]
    by (auto intro: finite_subset)
qed

text \<open>Two different folds of a table that vanish make the table vanish.\<close>

lemma folded_table_vanishes_once:
  assumes "length t = 2 ^ Suc n" "folded_table t c = replicate (2 ^ n) 0" "folded_table t c' = replicate (2 ^ n) 0" "c \<noteq> c'"
  shows "t = replicate (2 ^ Suc n) (0 :: 'a::field)"
proof (rule nth_equalityI)
  have l: "length t = 2 * 2 ^ n" using assms(1) by simp
  have z: "t ! (2 * k) = 0 \<and> t ! (2 * k + 1) = 0" if k: "k < 2 ^ n" for k
  proof -
    have e: "interpolate (t ! (2 * k)) (t ! (2 * k + 1)) x = 0" if "folded_table t x = replicate (2 ^ n) 0" for x
      using folded_table_nth [OF l k, of x] that k by simp
    have "t ! (2 * k) + c * (t ! (2 * k + 1) - t ! (2 * k)) = 0" "t ! (2 * k) + c' * (t ! (2 * k + 1) - t ! (2 * k)) = 0"
      using e [OF assms(2)] e [OF assms(3)] by (simp_all add: interpolate_def algebra_simps)
    then have "(c - c') * (t ! (2 * k + 1) - t ! (2 * k)) = 0" by algebra
    with assms(4) have "t ! (2 * k + 1) = t ! (2 * k)" by simp
    with \<open>t ! (2 * k) + c * (t ! (2 * k + 1) - t ! (2 * k)) = 0\<close> show ?thesis by simp
  qed
  fix i assume i: "i < length t"
  then have k: "i div 2 < 2 ^ n" using l by simp
  have "i = 2 * (i div 2) \<or> i = 2 * (i div 2) + 1" by presburger
  then have "t ! i = 0" using z [OF k] by metis
  with i assms(1) show "t ! i = replicate (2 ^ Suc n) 0 ! i" by simp
qed (simp add: assms(1))

lemma mle_zeros_bound:
  assumes "finite S"
  shows "length t = 2 ^ n \<Longrightarrow> t \<noteq> replicate (2 ^ n) (0 :: 'a::field) \<Longrightarrow> card (mle_zeros S t n) \<le> n * card S ^ (n - 1)"
proof (induction n arbitrary: t)
  case 0
  then obtain c where "t = [c]" "c \<noteq> 0" by (cases t) auto
  then have "mle_zeros S t 0 = {}" by (simp add: mle_zeros_def mle_sum_def eq_weight_def)
  then show ?case by simp
next
  case (Suc n)
  let ?s = "card S"
  let ?zero = "\<lambda>c. folded_table t c = replicate (2 ^ n) 0"
  have each: "card (mle_zeros S (folded_table t c) n) \<le> n * ?s ^ (n - 1) + (if ?zero c then ?s ^ n else 0)" for c
    using Suc.IH [of "folded_table t c"] mle_zeros_all [OF assms, of "folded_table t c" n] Suc.prems(1) by (cases "?zero c") simp_all
  have "card {c\<in>S. ?zero c} \<le> 1"
  proof (rule ccontr)
    assume "\<not> card {c\<in>S. ?zero c} \<le> 1"
    then obtain c c' where "?zero c" "?zero c'" "c \<noteq> c'" using assms card_le_Suc0_iff_eq [of "{c\<in>S. ?zero c}"] by auto
    from folded_table_vanishes_once [OF Suc.prems(1) this] Suc.prems(2) show False by simp
  qed
  note once = this
  have "card (mle_zeros S t (Suc n)) \<le> (\<Sum>c\<in>S. card ((#) c ` mle_zeros S (folded_table t c) n))"
    unfolding mle_zeros_Suc [OF Suc.prems(1)] by (rule card_UN_le [OF assms])
  also have "\<dots> = (\<Sum>c\<in>S. card (mle_zeros S (folded_table t c) n))" by (intro sum.cong refl card_image) simp
  also have "\<dots> \<le> (\<Sum>c\<in>S. n * ?s ^ (n - 1) + (if ?zero c then ?s ^ n else 0))" by (rule sum_mono) (rule each)
  also have "\<dots> = ?s * (n * ?s ^ (n - 1)) + card {c\<in>S. ?zero c} * ?s ^ n"
    by (simp add: sum.distrib sum.If_cases assms Int_def)
  also have "\<dots> \<le> n * ?s ^ n + ?s ^ n"
  proof (rule add_mono)
    show "?s * (n * ?s ^ (n - 1)) \<le> n * ?s ^ n" by (cases n) (simp_all add: algebra_simps)
    show "card {c\<in>S. ?zero c} * ?s ^ n \<le> ?s ^ n" using mult_le_mono1 [OF once, of "?s ^ n"] by simp
  qed
  finally show ?case by simp
qed


section \<open>Properties\<close>

lemma build_assignment_length:
  assumes "build_assignment_mle w (sm_columns (cm_a ms)) = Some (Inr h)" "lays_out (pcm_layout pcm) (pcm_values pcm) ms"
  shows "length (evaluations h) = 2 ^ num_column_vars pcm"
proof -
  have "padded_num_vars (sm_columns (cm_a ms)) = Inr (num_column_vars pcm)"
    using assms(2) by (simp add: lays_out_def num_column_vars_def)
  then show ?thesis using assms(1)
    by (auto simp: build_assignment_mle_def mle_from_evaluations_def split: if_splits option.splits bool.splits sum.splits)
qed

text \<open>C7: Spartan is complete. When the assignment satisfies the constraints of the prepared matrices and
  the prover returns, the verifier, on a transcript that replays the prover's, accepts the proof with
  the same claim, and the witness-aware check accepts the claim against the packed assignment.\<close>

theorem spartan_complete:
  assumes "replayed P V R" "R p v" and "pcm_new sha256 encode ms = Some (Inr pcm)"
    and "columns_in_range (cm_a ms)" "columns_in_range (cm_b ms)" "columns_in_range (cm_c ms)"
    and "build_assignment_mle w (pcm_column_count pcm) = Some (Inr h)" "r1cs_satisfied ms (evaluations h)"
    and "prove_spartan_piop P p pcm (true_products ms (evaluations h) (num_row_vars pcm)) h = Some (Inr ((pf, claim), p'))"
  shows "\<exists>v'. verify_spartan_proof V v pcm pf = Some (Inr (claim, v')) \<and> R p' v' \<and>
    verify_spartan_with_mle_claim V v pcm pf claim w = Some (Inr v')"
proof -
  note lays = pcm_new_lays_out [OF assms(3-6)]
  have c: "pcm_column_count pcm = sm_columns (cm_a ms)" using lays by (simp add: lays_out_def pcm_column_count_def)
  have len: "length (evaluations h) = 2 ^ num_column_vars pcm"
    by (rule build_assignment_length [OF assms(7) [unfolded c] lays])
  have "mle_sum (residual ms (evaluations h) (num_row_vars pcm)) tau = 0"
    if "squeeze_many P (num_row_vars pcm) (ft_bytes P (pcm_digest pcm) p) = Some (tau, p1)" for tau p1
    using mle_sum_zeros [of tau] by (simp add: satisfied_residual [OF lays assms(8)] squeeze_many_length [OF that])
  note vanishes = this
  have "\<exists>v'. verify_spartan_proof V v pcm pf = Some (Inr (claim, v')) \<and> R p' v' \<and> nonsuccinct_verify claim h = Some (Inr ())"
    by (rule piop_complete [OF assms(1,2) lays _ assms(9) len]) (rule vanishes)
  then show ?thesis using assms(7) by (auto simp: verify_spartan_with_mle_claim_def)
qed

text \<open>C16: the Spartan prover returns a proof: on prepared matrices, product tables and an assignment of the
  padded sizes, with a transcript whose squeezes return, no branch fails.  Every slice the kernels read
  (the product tables and equality factors of the fused outer prover, the tables of the inner one, the
  rows, columns and values of the matrix kernels) is read with its bound checked, so the theorem
  says in particular that every index of theirs is in range: an index or a shift that leaves its table
  would make the result \<open>None\<close>.\<close>

theorem spartan_prover_returns:
  assumes "squeezes T" "pcm_new sha256 encode ms = Some (Inr pcm)"
    and "columns_in_range (cm_a ms)" "columns_in_range (cm_b ms)" "columns_in_range (cm_c ms)"
    and "length (evaluations h) = 2 ^ num_column_vars pcm"
    and "length (evaluations (pm_az products)) = 2 ^ num_row_vars pcm" "length (evaluations (pm_bz products)) = 2 ^ num_row_vars pcm"
      "length (evaluations (pm_cz products)) = 2 ^ num_row_vars pcm"
  shows "\<exists>pf claim t'. prove_spartan_piop T t pcm products h = Some (Inr ((pf, claim), t'))"
  by (rule piop_returns [OF assms(1) pcm_new_lays_out [OF assms(2-5)] assms(6-9)])

text \<open>C8: Spartan is sound, challenge by challenge. If the verifier accepts, the terminal claim is true of
  the assignment and the assignment violates a constraint, then one of the challenges lies in a set
  fixed before it was drawn: \<open>tau\<close> is one of at most \<open>n s\<^bsup>n - 1\<^esup>\<close> zeros of a nonzero multilinear
  polynomial (for coordinates from a set of \<open>s\<close> elements), a round challenge of the outer sumcheck one
  of three roots, \<open>rho\<close> one of two, or a round challenge of the inner sumcheck one of two.\<close>

theorem spartan_sound:
  assumes "pcm_new sha256 encode ms = Some (Inr pcm)"
    and "columns_in_range (cm_a ms)" "columns_in_range (cm_b ms)" "columns_in_range (cm_c ms)"
    and "verify_spartan_proof V v pcm pf = Some (Inr (claim, v'))"
    and "\<forall>q\<in>set (round_polynomials (osp_sumcheck (spp_outer pf))). length q = 4"
    and "\<forall>q\<in>set (round_polynomials (spp_inner pf)). length q = 3"
    and "length (evaluations h) = 2 ^ num_column_vars pcm"
    and "nonsuccinct_verify claim h = Some (Inr ())"
    and "\<not> r1cs_satisfied ms (evaluations h)"
  shows "\<exists>tau v1 outer v2 rho v3 d.
    squeeze_many V (num_row_vars pcm) (ft_bytes V (pcm_digest pcm) v) = Some (tau, v1) \<and>
    outer_verify V (spp_outer pf) v1 0 tau = Some (Inr (outer, v2)) \<and> ft_squeeze V v2 = Some (rho, v3) \<and>
    bind_and_batch pcm (osv_eval_points outer) rho = Some (Inr d) \<and>
    ((\<forall>S. finite S \<longrightarrow> set tau \<subseteq> S \<longrightarrow>
        (let Z = mle_zeros S (residual ms (evaluations h) (num_row_vars pcm)) (num_row_vars pcm)
         in tau \<in> Z \<and> card Z \<le> num_row_vars pcm * card S ^ (num_row_vars pcm - 1))) \<or>
     (\<exists>k<num_row_vars pcm.
        let B = outer_escapes ms (evaluations h) tau (round_polynomials (osp_sumcheck (spp_outer pf))) (osv_eval_points outer) k
        in finite B \<and> card B \<le> 3 \<and> osv_eval_points outer ! k \<in> B) \<or>
     (let products = true_products ms (evaluations h) (num_row_vars pcm);
          B = batch_collisions (osv_az_mle_claim outer - mle_sum (evaluations (pm_az products)) (osv_eval_points outer))
                (osv_bz_mle_claim outer - mle_sum (evaluations (pm_bz products)) (osv_eval_points outer))
                (osv_cz_mle_claim outer - mle_sum (evaluations (pm_cz products)) (osv_eval_points outer))
      in finite B \<and> card B \<le> 2 \<and> rho \<in> B) \<or>
     (\<exists>k<num_column_vars pcm.
        let B = inner_escapes (evaluations d) (evaluations h) (round_polynomials (spp_inner pf)) (sc_point claim) k
        in finite B \<and> card B \<le> 2 \<and> sc_point claim ! k \<in> B))"
proof -
  let ?n = "num_row_vars pcm"
  have bad: "\<forall>S. finite S \<longrightarrow> set tau \<subseteq> S \<longrightarrow> (let Z = mle_zeros S (residual ms (evaluations h) ?n) ?n
       in tau \<in> Z \<and> card Z \<le> ?n * card S ^ (?n - 1))"
    if "squeeze_many V ?n (ft_bytes V (pcm_digest pcm) v) = Some (tau, v1)" "bad_tau ms (evaluations h) ?n tau" for tau v1
  proof -
    have "length (residual ms (evaluations h) ?n) = 2 ^ ?n" by (simp add: residual_def)
    with mle_zeros_bound [of _ "residual ms (evaluations h) ?n" ?n] that squeeze_many_length [OF that(1)]
    show ?thesis by (simp add: bad_tau_def mle_zeros_def Let_def)
  qed
  from piop_sound [OF pcm_new_lays_out [OF assms(1-4)] assms(5-10)] show ?thesis
    using bad by (elim exE conjE) blast
qed

subsection \<open>Witnesses\<close>

definition example_assignment :: packed_witness where
  "example_assignment = \<lparr>pw_words = [1], pw_bit_len = 2\<rparr>"

lemma example_assignment_mle: "build_assignment_mle example_assignment 2 = Some (Inr \<lparr>evaluations = [1, 0 :: f128]\<rparr>)"
proof -
  have v: "padded_num_vars 2 = Inr 1" by (simp add: padded_num_vars_def checked_next_power_of_two_def bitlen_simps)
  have w: "pw_bit example_assignment 0 = Some True" "pw_bit example_assignment (Suc 0) = Some False" by code_simp+
  have l: "pw_bit_len example_assignment = 2" by (simp add: example_assignment_def)
  show ?thesis
    by (simp add: build_assignment_mle_def w l v mle_from_evaluations_def resize_zero_def upt_rec)
qed

lemma example_satisfied: "r1cs_satisfied example_matrices [1, 0 :: f128]"
  by (simp add: r1cs_satisfied_def example_matrices_def matrix_product_def row_product_def sm_row_count_def less_Suc_eq)

lemma example_column_count: "pcm_column_count example_prepared = 2"
  using pcm_new_lays_out [OF example_prepared_new example_columns]
  by (simp add: lays_out_def pcm_column_count_def) (simp add: example_matrices_def)

theorem spartan_prover_returns_witness:
  "\<exists>pf claim t'. prove_spartan_piop (f128_prover_transcript toy_sponge) (build_prover toy_sponge [] []) example_prepared
     (true_products example_matrices [1, 0] 1) \<lparr>evaluations = [1, 0]\<rparr> = Some (Inr ((pf, claim), t'))"
  using spartan_prover_returns [OF f128_squeezes example_prepared_new example_columns,
      of "\<lparr>evaluations = [1, 0]\<rparr>" "true_products example_matrices [1, 0] 1" toy_sponge "build_prover toy_sponge [] []"]
  by (simp add: example_prepared_vars)

theorem spartan_complete_witness:
  "\<exists>pf claim p' v'. prove_spartan_piop (f128_prover_transcript toy_sponge) (build_prover toy_sponge [] []) example_prepared
       (true_products example_matrices [1, 0] 1) \<lparr>evaluations = [1, 0]\<rparr> = Some (Inr ((pf, claim), p')) \<and>
     verify_spartan_with_mle_claim (f128_verifier_transcript toy_sponge) (replay [] [] (build_prover toy_sponge [] []))
       example_prepared pf claim example_assignment = Some (Inr v')"
proof -
  let ?p = "build_prover toy_sponge [] []" and ?h = "\<lparr>evaluations = [1, 0 :: f128]\<rparr>"
  obtain pf claim p' where p: "prove_spartan_piop (f128_prover_transcript toy_sponge) ?p example_prepared
       (true_products example_matrices (evaluations ?h) (num_row_vars example_prepared)) ?h = Some (Inr ((pf, claim), p'))"
    using piop_returns [OF f128_squeezes pcm_new_lays_out [OF example_prepared_new example_columns], of ?h
        "true_products example_matrices [1, 0] 1" toy_sponge ?p] by (auto simp: example_prepared_vars)
  have "r1cs_satisfied example_matrices (evaluations ?h)" using example_satisfied by simp
  from spartan_complete [OF f128_transcripts.replayed_axioms refl example_prepared_new example_columns
      example_assignment_mle [folded example_column_count] this p, of "[]" "[]"]
  show ?thesis using p by (auto simp: example_prepared_vars)
qed

text \<open>A transcript whose challenges are all zero: a false statement is accepted, and \<open>tau\<close> is to blame.\<close>

definition zero_transcript :: "(f128, unit) field_transcript" where
  "zero_transcript = \<lparr>ft_message = \<lambda>_ t. t, ft_bytes = \<lambda>_ t. t, ft_squeeze = \<lambda>t. Some (0, t)\<rparr>"

interpretation zero_transcripts: replayed zero_transcript zero_transcript "(=)"
  by unfold_locales (auto simp: zero_transcript_def)

lemma zero_squeezes: "squeezes zero_transcript"
  by (simp add: squeezes_def zero_transcript_def)

definition escaping_matrices :: "f128 constraint_matrices" where
  "escaping_matrices = example_matrices\<lparr>cm_c := \<lparr>sm_rows = [\<lparr>sr_entries = []\<rparr>, \<lparr>sr_entries = [(0, 1)]\<rparr>], sm_columns = 2\<rparr>\<rparr>"

lemma escaping_prepared: "\<exists>pcm. pcm_new (take 2) (\<lambda>_. []) escaping_matrices = Some (Inr pcm) \<and> num_row_vars pcm = 1 \<and> num_column_vars pcm = 1"
proof -
  have v: "padded_num_vars 2 = Inr 1" "padded_num_vars (Suc (Suc 0)) = Inr 1"
    by (simp_all add: padded_num_vars_def checked_next_power_of_two_def bitlen_simps)
  show ?thesis
    by (simp add: pcm_new_def layout_new_def r1cs_num_vars_def validate_shape_def v escaping_matrices_def example_matrices_def positions_new_def
        sm_row_count_def sbm_row_count_def Let_def BIND_CHUNK_COLUMN_VARS_def column_chunk_index_new_def positions_row_count_def
        positions_row_def chunk_row.simps constraint_matrix_digest_def matrix_digest_def hash_bool_matrix_def hash_matrix_def
        hash_usize_def upt_rec num_row_vars_def num_column_vars_def)
qed

lemma escaping_columns: "columns_in_range (cm_a escaping_matrices)" "columns_in_range (cm_b escaping_matrices)"
  "columns_in_range (cm_c escaping_matrices)"
  by (simp_all add: columns_in_range_def escaping_matrices_def example_matrices_def)

theorem spartan_sound_witness:
  "\<exists>pcm pf claim tau v1. pcm_new (take 2) (\<lambda>_. []) escaping_matrices = Some (Inr pcm) \<and>
     verify_spartan_proof zero_transcript () pcm pf = Some (Inr (claim, ())) \<and> \<not> r1cs_satisfied escaping_matrices [1, 0] \<and>
     squeeze_many zero_transcript (num_row_vars pcm) () = Some (tau, v1)"
proof -
  let ?h = "\<lparr>evaluations = [1, 0 :: f128]\<rparr>"
  obtain pcm where pcm: "pcm_new (take 2) (\<lambda>_. []) escaping_matrices = Some (Inr pcm)" "num_row_vars pcm = 1" "num_column_vars pcm = 1"
    using escaping_prepared by blast
  note lays = pcm_new_lays_out [OF pcm(1) escaping_columns]
  obtain pf claim p' where p: "prove_spartan_piop zero_transcript () pcm
       (true_products escaping_matrices (evaluations ?h) (num_row_vars pcm)) ?h = Some (Inr ((pf, claim), p'))"
    using piop_returns [OF zero_squeezes lays, of ?h "true_products escaping_matrices [1, 0] 1" "()"] by (auto simp: pcm)
  have tau: "mle_sum (residual escaping_matrices (evaluations ?h) (num_row_vars pcm)) tau = 0"
    if "squeeze_many zero_transcript (num_row_vars pcm) (ft_bytes zero_transcript (pcm_digest pcm) ()) = Some (tau, p1)" for tau p1
    using that by (auto simp: pcm zero_transcript_def residual_def mle_sum_def escaping_matrices_def example_matrices_def
        matrix_product_def row_product_def eq_weight_def upt_rec numeral_2_eq_2 lessThan_Suc bit_0 bit_Suc)
  have len: "length (evaluations ?h) = 2 ^ num_column_vars pcm" by (simp add: pcm)
  have "\<exists>v'. verify_spartan_proof zero_transcript () pcm pf = Some (Inr (claim, v')) \<and> p' = v' \<and> nonsuccinct_verify claim ?h = Some (Inr ())"
    by (rule piop_complete [OF zero_transcripts.replayed_axioms refl lays _ p len]) (rule tau)
  then have acc: "verify_spartan_proof zero_transcript () pcm pf = Some (Inr (claim, ()))" "nonsuccinct_verify claim ?h = Some (Inr ())" by auto
  have unsat: "\<not> r1cs_satisfied escaping_matrices (evaluations ?h)"
    by (simp add: r1cs_satisfied_def escaping_matrices_def example_matrices_def matrix_product_def row_product_def sm_row_count_def
        numeral_2_eq_2 less_Suc_eq)
  note lengths = piop_lengths [OF _ len p]
  note lengths = lengths [OF lays_out_prepared [OF lays]]
  from spartan_sound [OF pcm(1) escaping_columns acc(1) conjunct1 [OF lengths] conjunct2 [OF lengths] len acc(2) unsat] pcm acc unsat show ?thesis
    by (auto simp: zero_transcript_def)
qed


text \<open>C17: the fused outer prover, which keeps the equality table as two factors and computes each round's
  message while it folds, returns what the textbook prover on the whole equality table returns: the same
  messages, claims and transcript, with the factors that \<open>make_equality_factors\<close> splits off and for every
  transcript; that the right-hand side is a value shows that none of the fused reads leaves its table.\<close>

theorem fused_outer_prover_is_reference:
  assumes "make_equality_factors tau = Inr factors" "length (evaluations (pm_az products)) = 2 ^ length tau"
    "length (evaluations (pm_bz products)) = 2 ^ length tau" "length (evaluations (pm_cz products)) = 2 ^ length tau"
  shows "prove_outer_sumcheck T t claim factors products
    = map_option (\<lambda>(r, t). Inr (outer_output T r t))
        (reference_rounds T outer_cf outer_bind (length tau) (outer_start tau products) (empty_log claim) t)"
  by (rule prove_outer_reference [OF assms])

theorem fused_outer_prover_is_reference_witness:
  "\<exists>factors r t'. make_equality_factors [f128_GENERATOR] = Inr factors \<and>
     reference_rounds zero_transcript outer_cf outer_bind 1
       (outer_start [f128_GENERATOR] (true_products example_matrices [1, 0] 1)) (empty_log 0) () = Some (r, t') \<and>
     prove_outer_sumcheck zero_transcript () 0 factors (true_products example_matrices [1, 0] 1)
       = Some (Inr (outer_output zero_transcript r t'))"
proof -
  obtain factors where f: "make_equality_factors [f128_GENERATOR] = Inr factors" using factors_exist [of "[f128_GENERATOR]"] by auto
  obtain r where r: "reference_rounds zero_transcript outer_cf outer_bind 1
       (outer_start [f128_GENERATOR] (true_products example_matrices [1, 0] 1)) (empty_log 0) () = Some r"
    using reference_rounds_some [OF zero_squeezes, of outer_cf outer_bind 1
        "outer_start [f128_GENERATOR] (true_products example_matrices [1, 0] 1)" "empty_log 0" "()"] by blast
  show ?thesis
    using fused_outer_prover_is_reference [OF f, of "true_products example_matrices [1, 0] 1" zero_transcript "()" 0] f r
    by (cases r) simp
qed

end
