(* ===== verification/Circuit_Witgen.thy ===== *)
theory Circuit_Witgen
  imports Circuit_Products Circuit_Constraints
begin

text \<open>
  The evaluators that run a circuit on concrete bits: \<open>WitnessOnly\<close>, \<open>Witgen\<close> and \<open>ProductWitgen\<close> of
  \<open>crates/circuit/src/witgen.rs\<close>, and the context and result types of hints in \<open>lib.rs\<close>.

  A failed assertion is \<open>None\<close>, and so is the panic with which these backends answer a hint that
  reports an error.  Reserved capacity is not part of a value; only its assertion is modelled.
\<close>

section \<open>Hints\<close>

datatype hint_error = HintError (he_message: string)

record ('z, 'b, 'c) witness_context =
  wc_eval_z :: "'z \<Rightarrow> 'c"
  wc_eval_z_words :: "'z \<Rightarrow> u64 list option"
  wc_eval_bool :: "'b \<Rightarrow> bool"

text \<open>A hint is a function of the context; \<open>None\<close> is a panic inside it.\<close>

type_synonym ('z, 'b, 'c) hint_fn = "('z, 'b, 'c) witness_context \<Rightarrow> (hint_error + packed_bits) option"

text \<open>In the evaluators a witness is its value.\<close>

definition value_context :: "(z_int, bool, z_int) witness_context" where
  "value_context = \<lparr>wc_eval_z = (\<lambda>v. v), wc_eval_z_words = (\<lambda>v. Some (z_words v)), wc_eval_bool = (\<lambda>b. b)\<rparr>"

section \<open>\<open>WitnessOnly\<close>\<close>

record witness_only =
  wo_witness :: packed_witness

definition wo_with_inputs_and_capacity :: "bool list \<Rightarrow> nat \<Rightarrow> witness_only option" where
  "wo_with_inputs_and_capacity inputs witness_capacity =
     (if witness_capacity < length inputs then None
      else case pw_extend inputs pw_empty of None \<Rightarrow> None | Some witness \<Rightarrow> Some \<lparr>wo_witness = witness\<rparr>)"

definition wo_hint :: "nat \<Rightarrow> (z_int, bool, z_int) hint_fn \<Rightarrow> witness_only \<Rightarrow> (packed_bits \<times> witness_only) option" where
  "wo_hint N hint self =
     (case hint value_context of
        None \<Rightarrow> None
      | Some (Inl error) \<Rightarrow> None
      | Some (Inr bs) \<Rightarrow>
          (case extend_packed N bs (wo_witness self) of
             None \<Rightarrow> None | Some witness \<Rightarrow> Some (bs, self\<lparr>wo_witness := witness\<rparr>)))"

definition wo_bitz :: "nat \<Rightarrow> bool \<Rightarrow> z_int" where
  "wo_bitz LIMBS v = (if v then z_one LIMBS else z_zero LIMBS)"

definition wo_bitz_unsigned :: "nat \<Rightarrow> nat \<Rightarrow> nat \<Rightarrow> packed_bits \<Rightarrow> (z_int \<times> z_int) option" where
  "wo_bitz_unsigned LIMBS N LOW bits_le =
     (if LOW > N then None
      else case z_from_packed_prefix LIMBS N bits_le LOW of
          None \<Rightarrow> None | Some low \<Rightarrow> Some (z_from_packed_bits LIMBS bits_le, low))"

definition wo_assert_r1c :: "z_int \<Rightarrow> z_int \<Rightarrow> z_int \<Rightarrow> witness_only \<Rightarrow> witness_only" where
  "wo_assert_r1c a b c self = self"

section \<open>\<open>Witgen\<close>\<close>

record witgen =
  wg_witness :: packed_witness
  wg_integer_witness :: packed_witness

definition initial_integer_witness :: "packed_witness option" where
  "initial_integer_witness = pw_extend [True] pw_empty"

definition wg_seeded :: "bool list \<Rightarrow> nat \<Rightarrow> witgen option" where
  "wg_seeded inputs witness_capacity =
     (if witness_capacity < length inputs then None
      else case (pw_extend inputs pw_empty, initial_integer_witness) of
          (Some witness, Some mw) \<Rightarrow> Some \<lparr>wg_witness = witness, wg_integer_witness = mw\<rparr>
        | _ \<Rightarrow> None)"

definition wg_new :: "witgen option" where
  "wg_new =
     (case initial_integer_witness of
        None \<Rightarrow> None
      | Some mw \<Rightarrow> Some \<lparr>wg_witness = \<lparr>pw_words = [], pw_bit_len = 0\<rparr>, wg_integer_witness = mw\<rparr>)"

definition wg_with_inputs :: "bool list \<Rightarrow> witgen option" where
  "wg_with_inputs inputs = wg_seeded inputs (length inputs)"

definition wg_with_inputs_and_capacity :: "bool list \<Rightarrow> nat \<Rightarrow> witgen option" where
  "wg_with_inputs_and_capacity inputs witness_capacity = wg_seeded inputs witness_capacity"

definition wg_with_packed_inputs_and_capacity :: "u64 list \<Rightarrow> nat \<Rightarrow> nat \<Rightarrow> witgen option" where
  "wg_with_packed_inputs_and_capacity input_words input_bits witness_capacity =
     (if witness_capacity < input_bits then None
      else case (extend_packed_words input_words input_bits pw_empty, initial_integer_witness) of
          (Some witness, Some mw) \<Rightarrow> Some \<lparr>wg_witness = witness, wg_integer_witness = mw\<rparr>
        | _ \<Rightarrow> None)"

definition wg_into_witnesses :: "witgen \<Rightarrow> packed_witness \<times> packed_witness" where
  "wg_into_witnesses self = (wg_witness self, wg_integer_witness self)"

definition wg_hint :: "nat \<Rightarrow> (z_int, bool, z_int) hint_fn \<Rightarrow> witgen \<Rightarrow> (packed_bits \<times> witgen) option" where
  "wg_hint N hint self =
     (case hint value_context of
        None \<Rightarrow> None
      | Some (Inl error) \<Rightarrow> None
      | Some (Inr bs) \<Rightarrow>
          (case extend_packed N bs (wg_witness self) of
             None \<Rightarrow> None | Some witness \<Rightarrow> Some (bs, self\<lparr>wg_witness := witness\<rparr>)))"

definition wg_bitz :: "nat \<Rightarrow> bool \<Rightarrow> witgen \<Rightarrow> (z_int \<times> witgen) option" where
  "wg_bitz LIMBS v self =
     (case pw_extend [v] (wg_integer_witness self) of
        None \<Rightarrow> None
      | Some mw \<Rightarrow>
          Some (if v then z_one LIMBS else z_zero LIMBS, self\<lparr>wg_integer_witness := mw\<rparr>))"

definition wg_bitz_unsigned :: "nat \<Rightarrow> nat \<Rightarrow> nat \<Rightarrow> packed_bits \<Rightarrow> witgen \<Rightarrow> ((z_int \<times> z_int) \<times> witgen) option" where
  "wg_bitz_unsigned LIMBS N LOW bits_le self =
     (if LOW > N then None
      else case extend_packed N bits_le (wg_integer_witness self) of
          None \<Rightarrow> None
        | Some mw \<Rightarrow>
            (case z_from_packed_prefix LIMBS N bits_le LOW of
               None \<Rightarrow> None
             | Some low \<Rightarrow> Some ((z_from_packed_bits LIMBS bits_le, low), self\<lparr>wg_integer_witness := mw\<rparr>)))"

definition wg_assert_r1c :: "z_int \<Rightarrow> z_int \<Rightarrow> z_int \<Rightarrow> witgen \<Rightarrow> witgen" where
  "wg_assert_r1c a b c self = self"

section \<open>\<open>ProductWitgen\<close>\<close>

record product_witgen =
  pg_witgen :: witgen
  pg_products :: integer_products

definition products_default :: integer_products where
  "products_default = \<lparr>ip_a_mw = [], ip_b_mw = [], ip_c_mw = []\<rparr>"

definition with_products :: "witgen option \<Rightarrow> product_witgen option" where
  "with_products witgen = map_option (\<lambda>witgen. \<lparr>pg_witgen = witgen, pg_products = products_default\<rparr>) witgen"

definition pg_with_inputs :: "bool list \<Rightarrow> product_witgen option" where
  "pg_with_inputs inputs = with_products (wg_with_inputs inputs)"

definition pg_with_inputs_and_capacity :: "bool list \<Rightarrow> nat \<Rightarrow> product_witgen option" where
  "pg_with_inputs_and_capacity inputs witness_capacity = with_products (wg_with_inputs_and_capacity inputs witness_capacity)"

definition pg_with_packed_inputs_and_capacity :: "u64 list \<Rightarrow> nat \<Rightarrow> nat \<Rightarrow> product_witgen option" where
  "pg_with_packed_inputs_and_capacity input_words input_bits witness_capacity =
     with_products (wg_with_packed_inputs_and_capacity input_words input_bits witness_capacity)"

definition pg_into_parts :: "product_witgen \<Rightarrow> packed_witness \<times> packed_witness \<times> integer_products" where
  "pg_into_parts self =
     (let (bool_witness, mw) = wg_into_witnesses (pg_witgen self) in (bool_witness, mw, pg_products self))"

definition on_witgen :: "('a \<times> witgen) option \<Rightarrow> product_witgen \<Rightarrow> ('a \<times> product_witgen) option" where
  "on_witgen result self = map_option (\<lambda>(x, witgen). (x, self\<lparr>pg_witgen := witgen\<rparr>)) result"

definition pg_hint :: "nat \<Rightarrow> (z_int, bool, z_int) hint_fn \<Rightarrow> product_witgen \<Rightarrow> (packed_bits \<times> product_witgen) option" where
  "pg_hint N hint self = on_witgen (wg_hint N hint (pg_witgen self)) self"

definition pg_bitz :: "nat \<Rightarrow> bool \<Rightarrow> product_witgen \<Rightarrow> (z_int \<times> product_witgen) option" where
  "pg_bitz LIMBS v self = on_witgen (wg_bitz LIMBS v (pg_witgen self)) self"

definition pg_bitz_unsigned :: "nat \<Rightarrow> nat \<Rightarrow> nat \<Rightarrow> packed_bits \<Rightarrow> product_witgen \<Rightarrow> ((z_int \<times> z_int) \<times> product_witgen) option" where
  "pg_bitz_unsigned LIMBS N LOW bits_le self = on_witgen (wg_bitz_unsigned LIMBS N LOW bits_le (pg_witgen self)) self"

definition pg_assert_r1c :: "z_int \<Rightarrow> z_int \<Rightarrow> z_int \<Rightarrow> product_witgen \<Rightarrow> product_witgen" where
  "pg_assert_r1c a b c self = self\<lparr>pg_products := products_push a b c (pg_products self)\<rparr>"

section \<open>Their constructors and operations always succeed on well-formed bits\<close>

lemma initial_integer_witness_holds: "\<exists>m. initial_integer_witness = Some m \<and> pw_holds m [True]"
  using extend_holds [OF pw_holds_empty, of "[True]"] by (simp add: initial_integer_witness_def)

lemma wg_seeded_holds:
  assumes "length inputs \<le> capacity"
  shows "\<exists>g. wg_seeded inputs capacity = Some g \<and> pw_holds (wg_witness g) inputs \<and> pw_holds (wg_integer_witness g) [True]"
proof -
  obtain w m where w: "pw_extend inputs pw_empty = Some w" "initial_integer_witness = Some m"
      and h: "pw_holds w inputs" "pw_holds m [True]"
    using extend_holds [OF pw_holds_empty, of inputs] initial_integer_witness_holds by auto
  show ?thesis unfolding wg_seeded_def w using assms h by simp
qed

lemma wg_packed_seeded_holds:
  assumes "input_bits \<le> capacity" "input_bits \<le> length ws * 64"
  shows "\<exists>g. wg_with_packed_inputs_and_capacity ws input_bits capacity = Some g \<and>
    pw_holds (wg_witness g) (bits_of ws input_bits) \<and> pw_holds (wg_integer_witness g) [True]"
proof -
  obtain w m where w: "extend_packed_words ws input_bits pw_empty = Some w" "initial_integer_witness = Some m"
      and h: "pw_holds w (bits_of ws input_bits)" "pw_holds m [True]"
    using extend_packed_words_holds [OF pw_holds_empty assms(2)] initial_integer_witness_holds by auto
  show ?thesis unfolding wg_with_packed_inputs_and_capacity_def w using assms h by simp
qed

lemma wg_hint_holds:
  assumes "hint value_context = Some (Inr b)" "pb_holds N b bs" "pw_holds (wg_witness g) ws"
  shows "\<exists>g'. wg_hint N hint g = Some (b, g') \<and> pw_holds (wg_witness g') (ws @ bs) \<and> wg_integer_witness g' = wg_integer_witness g"
proof -
  obtain w where "extend_packed N b (wg_witness g) = Some w" "pw_holds w (ws @ bs)"
    using extend_packed_holds [OF assms(3), of b N] assms(2) by (auto simp: pb_holds_def packed_inv_def)
  then show ?thesis using assms(1) by (simp add: wg_hint_def)
qed

lemma wg_bitz_unsigned_holds:
  assumes "LOW \<le> N" "pb_holds N b bs" "pw_holds (wg_integer_witness g) ms" "div_ceil N 64 \<le> LIMBS" "N < 64 * LIMBS"
  shows "\<exists>full low g'. wg_bitz_unsigned LIMBS N LOW b g = Some ((full, low), g') \<and> wg_witness g' = wg_witness g \<and>
    pw_holds (wg_integer_witness g') (ms @ bs) \<and> length (z_words full) = LIMBS \<and> length (z_words low) = LIMBS \<and>
    z_val full = int (bits_val bs) \<and> z_val low = int (bits_val (take LOW bs))"
proof -
  have l: "length (pb_words b) \<le> LIMBS" using pb_holds_length [OF assms(2)] assms(4) by simp
  obtain m where m: "extend_packed N b (wg_integer_witness g) = Some m" "pw_holds m (ms @ bs)"
    using extend_packed_holds [OF assms(3), of b N] assms(2) by (auto simp: pb_holds_def packed_inv_def)
  obtain low where "z_from_packed_prefix LIMBS N b LOW = Some low" "length (z_words low) = LIMBS"
      "z_val low = int (bits_val (take LOW bs))"
    using z_from_packed_prefix_val [OF assms(2) l assms(1,5)] by blast
  with m z_from_packed_val [OF assms(2) l assms(5)] assms(1) show ?thesis by (simp add: wg_bitz_unsigned_def)
qed

text \<open>The recording evaluator runs the plain one.\<close>

lemma product_witgen_simulates:
  "pg_hint N h p = Some (x, p') \<Longrightarrow> wg_hint N h (pg_witgen p) = Some (x, pg_witgen p') \<and> pg_products p' = pg_products p"
  "pg_bitz L v p = Some (z, p') \<Longrightarrow> wg_bitz L v (pg_witgen p) = Some (z, pg_witgen p') \<and> pg_products p' = pg_products p"
  "pg_bitz_unsigned L N LOW b p = Some (zz, p') \<Longrightarrow>
     wg_bitz_unsigned L N LOW b (pg_witgen p) = Some (zz, pg_witgen p') \<and> pg_products p' = pg_products p"
  by (auto simp: pg_hint_def pg_bitz_def pg_bitz_unsigned_def on_witgen_def)

end
