(* ===== verification/Circuit_Backend.thy ===== *)
theory Circuit_Backend
  imports Circuit_Witgen "HOL-Library.Monad_Syntax"
begin

text \<open>
  The traits a circuit is written against: \<open>Circuit\<close>, \<open>BoolRepresentation\<close>, \<open>ZWitness\<close> and \<open>Coefficient\<close> of
  \<open>crates/circuit/src/lib.rs\<close>, as a record of operations that a circuit takes as an argument, with one
  record per backend: the constraint generator of \<open>constraints.rs\<close> and the evaluators of \<open>witgen.rs\<close>.

  The type variables are the backend's Boolean witness, its packed word, its integer witness, its
  coefficient and its state.  The const generics \<open>LIMBS\<close>, \<open>N\<close>, \<open>M\<close>, \<open>LOW\<close> are arguments, and \<open>None\<close> is a
  panic, as elsewhere.
\<close>

section \<open>The traits\<close>

record ('b, 'w, 'z, 'c, 's) circuit_ops =
  op_from_array :: "nat \<Rightarrow> nat \<Rightarrow> 'b list \<Rightarrow> 'w option"
  op_from_u64 :: "nat \<Rightarrow> nat \<Rightarrow> u64 \<Rightarrow> 'w option"
  op_bit :: "nat \<Rightarrow> 'w \<Rightarrow> nat \<Rightarrow> 'b option"
  op_slice :: "nat \<Rightarrow> 'w \<Rightarrow> nat \<Rightarrow> nat \<Rightarrow> nat \<Rightarrow> 'w option"
  op_word_xor :: "nat \<Rightarrow> nat \<Rightarrow> 'w \<Rightarrow> 'w \<Rightarrow> 's \<Rightarrow> ('w \<times> 's) option"
  op_rotate_right :: "nat \<Rightarrow> nat \<Rightarrow> 'w \<Rightarrow> nat \<Rightarrow> 'w option"
  op_shift_right :: "nat \<Rightarrow> nat \<Rightarrow> 'w \<Rightarrow> nat \<Rightarrow> 'w option"
  op_evaluate :: "nat \<Rightarrow> nat \<Rightarrow> 'w \<Rightarrow> ('z, 'b, 'c) witness_context \<Rightarrow> packed_bits option"
  op_xor :: "'b \<Rightarrow> 'b \<Rightarrow> 's \<Rightarrow> ('b \<times> 's) option"
  op_hint :: "nat \<Rightarrow> nat \<Rightarrow> ('z, 'b, 'c) hint_fn \<Rightarrow> 's \<Rightarrow> ('w \<times> 's) option"
  op_bitz :: "nat \<Rightarrow> 'b \<Rightarrow> 's \<Rightarrow> ('z \<times> 's) option"
  op_bitz_unsigned :: "nat \<Rightarrow> nat \<Rightarrow> nat \<Rightarrow> nat \<Rightarrow> 'w \<Rightarrow> 's \<Rightarrow> (('z \<times> 'z) \<times> 's) option"
  op_assert_r1c :: "'z \<Rightarrow> 'z \<Rightarrow> 'z \<Rightarrow> 's \<Rightarrow> 's"
  op_sign_extend_z :: "nat \<Rightarrow> nat \<Rightarrow> 'z \<Rightarrow> 'z option"
  op_z_from :: "'c \<Rightarrow> 'z"
  op_z_zero :: "nat \<Rightarrow> 'z"
  op_z_add :: "'z \<Rightarrow> 'z \<Rightarrow> 'z"
  op_z_sub :: "'z \<Rightarrow> 'z \<Rightarrow> 'z"
  op_z_neg :: "'z \<Rightarrow> 'z"
  op_z_mul :: "'z \<Rightarrow> 'c \<Rightarrow> 'z"
  op_c_from_u64 :: "nat \<Rightarrow> u64 \<Rightarrow> 'c"
  op_c_zero :: "nat \<Rightarrow> 'c"
  op_c_one :: "nat \<Rightarrow> 'c"
  op_c_add :: "'c \<Rightarrow> 'c \<Rightarrow> 'c"
  op_c_mul :: "'c \<Rightarrow> 'c \<Rightarrow> 'c"

text \<open>The default methods of \<open>Circuit\<close>.  The loop of \<open>bitz_unsigned\<close> runs over the bit indices.\<close>

fun default_bitz_loop :: "('b, 'w, 'z, 'c, 's) circuit_ops \<Rightarrow> nat \<Rightarrow> nat \<Rightarrow> nat \<Rightarrow> 'w \<Rightarrow> nat list \<Rightarrow> 'z \<Rightarrow> 'z \<Rightarrow> 'c \<Rightarrow> 's
    \<Rightarrow> (('z \<times> 'z) \<times> 's) option" where
  "default_bitz_loop C LIMBS N LOW bits_le [] full low weight s = Some ((full, low), s)"
| "default_bitz_loop C LIMBS N LOW bits_le (index # rest) full low weight s =
     do {
       b \<leftarrow> op_bit C N bits_le index;
       (lifted, s) \<leftarrow> op_bitz C LIMBS b s;
       let summand = op_z_mul C lifted weight;
       default_bitz_loop C LIMBS N LOW bits_le rest (op_z_add C full summand)
         (if index < LOW then op_z_add C low summand else low) (op_c_add C weight weight) s
     }"

definition default_bitz_unsigned :: "('b, 'w, 'z, 'c, 's) circuit_ops \<Rightarrow> nat \<Rightarrow> nat \<Rightarrow> nat \<Rightarrow> 'w \<Rightarrow> 's
    \<Rightarrow> (('z \<times> 'z) \<times> 's) option" where
  "default_bitz_unsigned C LIMBS N LOW bits_le s =
     (if LOW > N then None
      else default_bitz_loop C LIMBS N LOW bits_le [0..<N] (op_z_zero C LIMBS) (op_z_zero C LIMBS) (op_c_one C LIMBS) s)"

definition default_coefficient_from_le_words :: "('b, 'w, 'z, 'c, 's) circuit_ops \<Rightarrow> nat \<Rightarrow> u64 list \<Rightarrow> 'c" where
  "default_coefficient_from_le_words C LIMBS ws =
     (let radix = ((\<lambda>radix. op_c_add C radix radix) ^^ 64) (op_c_one C LIMBS)
      in foldl (\<lambda>v word. op_c_add C (op_c_mul C v radix) (op_c_from_u64 C LIMBS word)) (op_c_zero C LIMBS) (rev ws))"

section \<open>The constraint generator as a backend\<close>

text \<open>\<open>ScalarBits\<close>: a word is the array of its bits.  The generator's state is untouched by \<open>xor\<close>.\<close>

definition scalar_from_array :: "nat \<Rightarrow> nat \<Rightarrow> 'b list \<Rightarrow> 'b list option" where
  "scalar_from_array N M bs = (if M = div_ceil N 64 then Some bs else None)"

definition scalar_bit :: "'b list \<Rightarrow> nat \<Rightarrow> 'b option" where
  "scalar_bit self index = (if index < length self then Some (self ! index) else None)"

definition scalar_slice :: "nat \<Rightarrow> 'b list \<Rightarrow> nat \<Rightarrow> nat \<Rightarrow> nat \<Rightarrow> 'b list option" where
  "scalar_slice N self K L offset =
     (if offset + K > N then None
      else do {
        bs \<leftarrow> those (map (\<lambda>index. scalar_bit self (offset + index)) [0..<K]);
        scalar_from_array K L bs
      })"

fun scalar_xor :: "('b \<Rightarrow> 'b \<Rightarrow> 's \<Rightarrow> ('b \<times> 's) option) \<Rightarrow> 'b list \<Rightarrow> 'b list \<Rightarrow> 's \<Rightarrow> ('b list \<times> 's) option" where
  "scalar_xor add (b # self) (c # rhs) s =
     do {
       (x, s) \<leftarrow> add b c s;
       (xs, s) \<leftarrow> scalar_xor add self rhs s;
       Some (x # xs, s)
     }"
| "scalar_xor add self rhs s = Some ([], s)"

definition scalar_evaluate :: "nat \<Rightarrow> nat \<Rightarrow> 'b list \<Rightarrow> ('z, 'b, 'c) witness_context \<Rightarrow> packed_bits option" where
  "scalar_evaluate N M self context = pb_from_fn N M (\<lambda>index. wc_eval_bool context (self ! index))"

definition cg_xor :: "bool_linear_combination \<Rightarrow> bool_linear_combination \<Rightarrow> 'r constraint_generator
    \<Rightarrow> (bool_linear_combination \<times> 'r constraint_generator) option" where
  "cg_xor lhs rhs self = Some (bl_xor lhs rhs, self)"

definition generator_ops :: "(bool_linear_combination, bool_linear_combination list, 'r::comm_ring_1 linear_combination, 'r,
    'r constraint_generator) circuit_ops" where
  "generator_ops = \<lparr>
     op_from_array = scalar_from_array,
     op_from_u64 = (\<lambda>N M. scalar_from_u64 N M bl_from),
     op_bit = (\<lambda>N. scalar_bit),
     op_slice = scalar_slice,
     op_word_xor = (\<lambda>N M. scalar_xor cg_xor),
     op_rotate_right = (\<lambda>N M self amount. Some (scalar_rotate_right N self amount)),
     op_shift_right = (\<lambda>N M self amount. Some (scalar_shift_right N bl_from self amount)),
     op_evaluate = scalar_evaluate,
     op_xor = cg_xor,
     op_hint = (\<lambda>N M hint. cg_hint N M),
     op_bitz = (\<lambda>LIMBS v self. Some (cg_bitz v self)),
     op_bitz_unsigned = (\<lambda>LIMBS N M LOW. cg_bitz_unsigned LOW),
     op_assert_r1c = cg_assert_r1c,
     op_sign_extend_z = cg_sign_extend_z,
     op_z_from = lc_from,
     op_z_zero = (\<lambda>LIMBS. lc_zero),
     op_z_add = lc_add,
     op_z_sub = lc_sub,
     op_z_neg = lc_neg,
     op_z_mul = lc_mul,
     op_c_from_u64 = (\<lambda>LIMBS v. of_nat (unat v)),
     op_c_zero = (\<lambda>LIMBS. 0),
     op_c_one = (\<lambda>LIMBS. 1),
     op_c_add = (+),
     op_c_mul = (*)\<rparr>"

section \<open>The evaluators as backends\<close>

text \<open>The operations on packed words and fixed-width integers are those of \<open>PackedBits\<close> and \<open>Z\<close>; the three
  evaluators differ in what they do with a hint, a lift and a constraint.\<close>

definition value_ops :: "(nat \<Rightarrow> (z_int, bool, z_int) hint_fn \<Rightarrow> 's \<Rightarrow> (packed_bits \<times> 's) option)
    \<Rightarrow> (nat \<Rightarrow> bool \<Rightarrow> 's \<Rightarrow> (z_int \<times> 's) option)
    \<Rightarrow> (nat \<Rightarrow> nat \<Rightarrow> nat \<Rightarrow> packed_bits \<Rightarrow> 's \<Rightarrow> ((z_int \<times> z_int) \<times> 's) option)
    \<Rightarrow> (z_int \<Rightarrow> z_int \<Rightarrow> z_int \<Rightarrow> 's \<Rightarrow> 's) \<Rightarrow> (bool, packed_bits, z_int, z_int, 's) circuit_ops" where
  "value_ops hint bitz bitz_unsigned assert_r1c = \<lparr>
     op_from_array = pb_from_array,
     op_from_u64 = pb_from_u64,
     op_bit = pb_bit,
     op_slice = pb_slice,
     op_word_xor = (\<lambda>N M self rhs s. Some (pb_xor M self rhs, s)),
     op_rotate_right = pb_rotate_right,
     op_shift_right = pb_shift_right,
     op_evaluate = (\<lambda>N M self context. Some self),
     op_xor = (\<lambda>lhs rhs s. Some (lhs \<noteq> rhs, s)),
     op_hint = (\<lambda>N M. hint N),
     op_bitz = bitz,
     op_bitz_unsigned = (\<lambda>LIMBS N M LOW. bitz_unsigned LIMBS N LOW),
     op_assert_r1c = assert_r1c,
     op_sign_extend_z = (\<lambda>FROM_LIMBS TO_LIMBS v. z_sign_extend TO_LIMBS v),
     op_z_from = (\<lambda>c. c),
     op_z_zero = z_zero,
     op_z_add = z_add,
     op_z_sub = z_sub,
     op_z_neg = z_neg,
     op_z_mul = z_mul,
     op_c_from_u64 = z_from_u64,
     op_c_zero = z_zero,
     op_c_one = z_one,
     op_c_add = z_add,
     op_c_mul = z_mul\<rparr>"

definition witness_only_ops :: "(bool, packed_bits, z_int, z_int, witness_only) circuit_ops" where
  "witness_only_ops = value_ops wo_hint (\<lambda>LIMBS v self. Some (wo_bitz LIMBS v, self))
     (\<lambda>LIMBS N LOW bits_le self. map_option (\<lambda>zz. (zz, self)) (wo_bitz_unsigned LIMBS N LOW bits_le)) wo_assert_r1c"

definition witgen_ops :: "(bool, packed_bits, z_int, z_int, witgen) circuit_ops" where
  "witgen_ops = value_ops wg_hint wg_bitz wg_bitz_unsigned wg_assert_r1c"

definition product_witgen_ops :: "(bool, packed_bits, z_int, z_int, product_witgen) circuit_ops" where
  "product_witgen_ops = value_ops pg_hint pg_bitz pg_bitz_unsigned pg_assert_r1c"

end
