(* ===== verification/Circuit_Sha256.thy ===== *)
theory Circuit_Sha256
  imports Circuit_Backend
begin

text \<open>
  The SHA-256 circuits of \<open>crates/circuit/src/sha256.rs\<close>, over any backend.

  A \<open>Word\<close> is its representation; a \<open>UInt\<close> pairs it with the integer lifts of all its bits and of its low
  32 bits.  Every function takes the backend \<open>C\<close> and threads its state; \<open>u64\<close> sums wrap (they stay below
  \<open>2 ^ 35\<close>).
\<close>

section \<open>Constants\<close>

definition ROUND_CONSTANTS :: "u32 list" where
  "ROUND_CONSTANTS = [
    0x428a2f98, 0x71374491, 0xb5c0fbcf, 0xe9b5dba5, 0x3956c25b, 0x59f111f1, 0x923f82a4, 0xab1c5ed5,
    0xd807aa98, 0x12835b01, 0x243185be, 0x550c7dc3, 0x72be5d74, 0x80deb1fe, 0x9bdc06a7, 0xc19bf174,
    0xe49b69c1, 0xefbe4786, 0x0fc19dc6, 0x240ca1cc, 0x2de92c6f, 0x4a7484aa, 0x5cb0a9dc, 0x76f988da,
    0x983e5152, 0xa831c66d, 0xb00327c8, 0xbf597fc7, 0xc6e00bf3, 0xd5a79147, 0x06ca6351, 0x14292967,
    0x27b70a85, 0x2e1b2138, 0x4d2c6dfc, 0x53380d13, 0x650a7354, 0x766a0abb, 0x81c2c92e, 0x92722c85,
    0xa2bfe8a1, 0xa81a664b, 0xc24b8b70, 0xc76c51a3, 0xd192e819, 0xd6990624, 0xf40e3585, 0x106aa070,
    0x19a4c116, 0x1e376c08, 0x2748774c, 0x34b0bcb5, 0x391c0cb3, 0x4ed8aa4a, 0x5b9cca4f, 0x682e6ff3,
    0x748f82ee, 0x78a5636f, 0x84c87814, 0x8cc70208, 0x90befffa, 0xa4506ceb, 0xbef9a3f7, 0xc67178f2]"

definition INITIAL_STATE :: "u32 list" where
  "INITIAL_STATE = [0x6a09e667, 0xbb67ae85, 0x3c6ef372, 0xa54ff53a, 0x510e527f, 0x9b05688c, 0x1f83d9ab, 0x5be0cd19]"

definition ABC_BLOCK :: "u32 list" where
  "ABC_BLOCK = [0x61626380, 0, 0, 0, 0, 0, 0, 0, 0, 0, 0, 0, 0, 0, 0, 0x00000018]"

definition ABC_DIGEST :: "u32 list" where
  "ABC_DIGEST = [0xba7816bf, 0x8f01cfea, 0x414140de, 0x5dae2223, 0xb00361a3, 0x96177a9c, 0xb410ff61, 0xf20015ad]"

definition SHA256_2KB_MESSAGE_BITS :: nat where
  "SHA256_2KB_MESSAGE_BITS = 2048 * 8"

definition COMPRESSION_HINT_BITS :: nat where
  "COMPRESSION_HINT_BITS = 48 * 34 + 64 * 70 + 8 * 33"

definition SHA256_Z_LIMBS :: nat where
  "SHA256_Z_LIMBS = 1"

definition block_aligned_witness_bits :: "nat \<Rightarrow> nat option" where
  "block_aligned_witness_bits message_bits =
     (if message_bits mod 512 \<noteq> 0 then None else Some (message_bits + (message_bits div 512 + 1) * COMPRESSION_HINT_BITS))"

section \<open>Words and lifted words\<close>

definition word_new :: "('b, 'w, 'z, 'c, 's) circuit_ops \<Rightarrow> 'b list \<Rightarrow> 'w option" where
  "word_new C bits_le = op_from_array C 32 1 bits_le"

definition word_constant :: "('b, 'w, 'z, 'c, 's) circuit_ops \<Rightarrow> u64 \<Rightarrow> 'w option" where
  "word_constant C v = op_from_u64 C 32 1 v"

definition word_xor :: "('b, 'w, 'z, 'c, 's) circuit_ops \<Rightarrow> 'w \<Rightarrow> 'w \<Rightarrow> 's \<Rightarrow> ('w \<times> 's) option" where
  "word_xor C self rhs s = op_word_xor C 32 1 self rhs s"

definition word_xor3 :: "('b, 'w, 'z, 'c, 's) circuit_ops \<Rightarrow> 'w \<Rightarrow> 'w \<Rightarrow> 'w \<Rightarrow> 's \<Rightarrow> ('w \<times> 's) option" where
  "word_xor3 C self second third s =
     do {
       (x, s) \<leftarrow> word_xor C self second s;
       word_xor C x third s
     }"

record ('z, 'w) uint_value =
  un_word :: 'w
  un_full :: 'z
  un_low_32 :: 'z

definition uint_from_word :: "('b, 'w, 'z, 'c, 's) circuit_ops \<Rightarrow> nat \<Rightarrow> 'w \<Rightarrow> 's \<Rightarrow> (('z, 'w) uint_value \<times> 's) option" where
  "uint_from_word C N word s =
     do {
       ((full, low_32), s) \<leftarrow> op_bitz_unsigned C SHA256_Z_LIMBS N 1 32 word s;
       Some (\<lparr>un_word = word, un_full = full, un_low_32 = low_32\<rparr>, s)
     }"

definition uint_constant :: "('b, 'w, 'z, 'c, 's) circuit_ops \<Rightarrow> u64 \<Rightarrow> ('z, 'w) uint_value option" where
  "uint_constant C v =
     do {
       word \<leftarrow> word_constant C v;
       let full = op_z_from C (op_c_from_u64 C SHA256_Z_LIMBS v);
       Some \<lparr>un_word = word, un_full = full, un_low_32 = full\<rparr>
     }"

section \<open>Hints\<close>

datatype 'w doubled_value = Choice 'w 'w 'w | Majority 'w 'w 'w

definition evaluate_word :: "('b, 'w, 'z, 'c, 's) circuit_ops \<Rightarrow> ('z, 'b, 'c) witness_context \<Rightarrow> 'w \<Rightarrow> u64 option" where
  "evaluate_word C context word = map_option low_u64 (op_evaluate C 32 1 word context)"

fun doubled_evaluate :: "('b, 'w, 'z, 'c, 's) circuit_ops \<Rightarrow> ('z, 'b, 'c) witness_context \<Rightarrow> 'w doubled_value \<Rightarrow> u64 option" where
  "doubled_evaluate C context (Choice x y z) =
     do {
       x \<leftarrow> evaluate_word C context x; let x = (ucast x :: u32);
       y \<leftarrow> evaluate_word C context y; let y = (ucast y :: u32);
       z \<leftarrow> evaluate_word C context z; let z = (ucast z :: u32);
       Some (ucast ((x AND y) XOR (NOT x AND z)))
     }"
| "doubled_evaluate C context (Majority x y z) =
     do {
       x \<leftarrow> evaluate_word C context x; let x = (ucast x :: u32);
       y \<leftarrow> evaluate_word C context y; let y = (ucast y :: u32);
       z \<leftarrow> evaluate_word C context z; let z = (ucast z :: u32);
       Some (ucast ((x AND y) XOR (x AND z) XOR (y AND z)))
     }"

definition sum_hint :: "('b, 'w, 'z, 'c, 's) circuit_ops \<Rightarrow> nat \<Rightarrow> 'w list \<Rightarrow> ('z, 'b, 'c) hint_fn" where
  "sum_hint C WIDTH words context =
     do {
       vals \<leftarrow> those (map (evaluate_word C context) words);
       bs \<leftarrow> pb_from_u64 WIDTH 1 (sum_list vals);
       Some (Inr bs)
     }"

definition sum_doubled_hint :: "('b, 'w, 'z, 'c, 's) circuit_ops \<Rightarrow> 'w list \<Rightarrow> 'w doubled_value list \<Rightarrow> ('z, 'b, 'c) hint_fn" where
  "sum_doubled_hint C words doubled_values context =
     do {
       ordinary \<leftarrow> those (map (evaluate_word C context) words);
       extras \<leftarrow> those (map (doubled_evaluate C context) doubled_values);
       let half = sum_list ordinary + sum_list extras;
       bs \<leftarrow> pb_from_u64 35 1 half;
       Some (Inr bs)
     }"

section \<open>Sums\<close>

definition assert_zero :: "('b, 'w, 'z, 'c, 's) circuit_ops \<Rightarrow> 'z \<Rightarrow> 's \<Rightarrow> 's" where
  "assert_zero C v s = op_assert_r1c C (op_z_zero C SHA256_Z_LIMBS) (op_z_zero C SHA256_Z_LIMBS) v s"

text \<open>\<open>Word::new(array::from_fn(|i| wide.word.bit(i)))\<close>.\<close>

definition low_word :: "('b, 'w, 'z, 'c, 's) circuit_ops \<Rightarrow> nat \<Rightarrow> 'w \<Rightarrow> 'w option" where
  "low_word C WIDTH wide =
     do {
       bs \<leftarrow> those (map (op_bit C WIDTH wide) [0..<32]);
       word_new C bs
     }"

definition sum_32 :: "('b, 'w, 'z, 'c, 's) circuit_ops \<Rightarrow> nat \<Rightarrow> ('z, 'w) uint_value list \<Rightarrow> 's
    \<Rightarrow> (('z, 'w) uint_value \<times> 's) option" where
  "sum_32 C WIDTH terms s =
     (if \<not> (32 \<le> WIDTH \<and> WIDTH \<le> 64) then None
      else if length terms > 2 ^ (WIDTH - 32) then None
      else do {
        (bs, s) \<leftarrow> op_hint C WIDTH 1 (sum_hint C WIDTH (map un_word terms)) s;
        (wide, s) \<leftarrow> uint_from_word C WIDTH bs s;
        let input_sum = foldl (\<lambda>acc t. op_z_add C acc (un_full t)) (op_z_zero C SHA256_Z_LIMBS) terms;
        let s = assert_zero C (op_z_sub C input_sum (un_full wide)) s;
        let low_32 = un_low_32 wide;
        word \<leftarrow> low_word C WIDTH (un_word wide);
        Some (\<lparr>un_word = word, un_full = low_32, un_low_32 = low_32\<rparr>, s)
      })"

definition sum_doubled_32 :: "('b, 'w, 'z, 'c, 's) circuit_ops \<Rightarrow> ('z, 'w) uint_value list \<Rightarrow> 'z list \<Rightarrow> 'w doubled_value list \<Rightarrow> 's
    \<Rightarrow> (('z, 'w) uint_value \<times> 's) option" where
  "sum_doubled_32 C ordinary doubled doubled_values s =
     (if length ordinary + length doubled > 7 then None
      else do {
        (bs, s) \<leftarrow> op_hint C 35 1 (sum_doubled_hint C (map un_word ordinary) doubled_values) s;
        (half, s) \<leftarrow> uint_from_word C 35 bs s;
        let ordinary_sum = foldl (\<lambda>acc t. op_z_add C acc (un_full t)) (op_z_zero C SHA256_Z_LIMBS) ordinary;
        let doubled_sum = foldl (op_z_add C) (op_z_zero C SHA256_Z_LIMBS) doubled;
        let two = op_c_add C (op_c_one C SHA256_Z_LIMBS) (op_c_one C SHA256_Z_LIMBS);
        let all_terms = op_z_add C (op_z_mul C ordinary_sum two) doubled_sum;
        let s = assert_zero C (op_z_sub C all_terms (op_z_mul C (un_full half) two)) s;
        let low_32 = un_low_32 half;
        word \<leftarrow> low_word C 35 (un_word half);
        Some (\<lparr>un_word = word, un_full = low_32, un_low_32 = low_32\<rparr>, s)
      })"

definition choice_twice :: "('b, 'w, 'z, 'c, 's) circuit_ops \<Rightarrow> ('z, 'w) uint_value \<Rightarrow> ('z, 'w) uint_value \<Rightarrow> ('z, 'w) uint_value \<Rightarrow> 's
    \<Rightarrow> ('z \<times> 's) option" where
  "choice_twice C x y z s =
     do {
       (xy_word, s) \<leftarrow> word_xor C (un_word x) (un_word y) s;
       (xy, s) \<leftarrow> uint_from_word C 32 xy_word s;
       (xz_word, s) \<leftarrow> word_xor C (un_word x) (un_word z) s;
       (xz, s) \<leftarrow> uint_from_word C 32 xz_word s;
       Some (op_z_add C (op_z_sub C (op_z_add C (un_full y) (un_full z)) (un_full xy)) (un_full xz), s)
     }"

definition majority_twice :: "('b, 'w, 'z, 'c, 's) circuit_ops \<Rightarrow> ('z, 'w) uint_value \<Rightarrow> ('z, 'w) uint_value \<Rightarrow> ('z, 'w) uint_value \<Rightarrow> 's
    \<Rightarrow> ('z \<times> 's) option" where
  "majority_twice C x y z s =
     do {
       (xyz_word, s) \<leftarrow> word_xor3 C (un_word x) (un_word y) (un_word z) s;
       (xyz, s) \<leftarrow> uint_from_word C 32 xyz_word s;
       Some (op_z_sub C (op_z_add C (op_z_add C (un_full x) (un_full y)) (un_full z)) (un_full xyz), s)
     }"

section \<open>Compression\<close>

fun map_circuit :: "('a \<Rightarrow> 's \<Rightarrow> ('d \<times> 's) option) \<Rightarrow> 'a list \<Rightarrow> 's \<Rightarrow> ('d list \<times> 's) option" where
  "map_circuit f [] s = Some ([], s)"
| "map_circuit f (x # xs) s =
     do {
       (y, s) \<leftarrow> f x s;
       (ys, s) \<leftarrow> map_circuit f xs s;
       Some (y # ys, s)
     }"

text \<open>\<open>x.rotate_right(a).xor3(circuit, &x.rotate_right(b), &...)\<close>: the small sigmas end in a shift, the big
  ones in a rotation; both are lifted at once.\<close>

definition small_sigma :: "('b, 'w, 'z, 'c, 's) circuit_ops \<Rightarrow> nat \<Rightarrow> nat \<Rightarrow> nat \<Rightarrow> 'w \<Rightarrow> 's \<Rightarrow> (('z, 'w) uint_value \<times> 's) option" where
  "small_sigma C r1 r2 r3 word s =
     do {
       x \<leftarrow> op_rotate_right C 32 1 word r1;
       y \<leftarrow> op_rotate_right C 32 1 word r2;
       z \<leftarrow> op_shift_right C 32 1 word r3;
       (sigma, s) \<leftarrow> word_xor3 C x y z s;
       uint_from_word C 32 sigma s
     }"

definition big_sigma :: "('b, 'w, 'z, 'c, 's) circuit_ops \<Rightarrow> nat \<Rightarrow> nat \<Rightarrow> nat \<Rightarrow> 'w \<Rightarrow> 's \<Rightarrow> (('z, 'w) uint_value \<times> 's) option" where
  "big_sigma C r1 r2 r3 word s =
     do {
       x \<leftarrow> op_rotate_right C 32 1 word r1;
       y \<leftarrow> op_rotate_right C 32 1 word r2;
       z \<leftarrow> op_rotate_right C 32 1 word r3;
       (sigma, s) \<leftarrow> word_xor3 C x y z s;
       uint_from_word C 32 sigma s
     }"

fun schedule_loop :: "('b, 'w, 'z, 'c, 's) circuit_ops \<Rightarrow> nat list \<Rightarrow> ('z, 'w) uint_value list \<Rightarrow> 's
    \<Rightarrow> (('z, 'w) uint_value list \<times> 's) option" where
  "schedule_loop C [] schedule s = Some (schedule, s)"
| "schedule_loop C (i # is) schedule s =
     do {
       (sigma_0, s) \<leftarrow> small_sigma C 7 18 3 (un_word (schedule ! (i - 15))) s;
       (sigma_1, s) \<leftarrow> small_sigma C 17 19 10 (un_word (schedule ! (i - 2))) s;
       (new_word, s) \<leftarrow> sum_32 C 34 [schedule ! (i - 16), sigma_0, schedule ! (i - 7), sigma_1] s;
       schedule_loop C is (schedule @ [new_word]) s
     }"

type_synonym ('z, 'w) working =
  "('z, 'w) uint_value \<times> ('z, 'w) uint_value \<times> ('z, 'w) uint_value \<times> ('z, 'w) uint_value \<times>
   ('z, 'w) uint_value \<times> ('z, 'w) uint_value \<times> ('z, 'w) uint_value \<times> ('z, 'w) uint_value"

definition round_step :: "('b, 'w, 'z, 'c, 's) circuit_ops \<Rightarrow> ('z, 'w) uint_value list \<Rightarrow> nat \<Rightarrow> ('z, 'w) working \<Rightarrow> 's
    \<Rightarrow> (('z, 'w) working \<times> 's) option" where
  "round_step C schedule i working s =
     (case working of (a, b, c, d, e, f, g, h) \<Rightarrow>
      do {
        (big_sigma_1, s) \<leftarrow> big_sigma C 6 11 25 (un_word e) s;
        (choice, s) \<leftarrow> choice_twice C e f g s;
        (big_sigma_0, s) \<leftarrow> big_sigma C 2 13 22 (un_word a) s;
        (majority, s) \<leftarrow> majority_twice C a b c s;
        round_constant \<leftarrow> uint_constant C (ucast (ROUND_CONSTANTS ! i));
        (new_e, s) \<leftarrow> sum_doubled_32 C [d, h, big_sigma_1, round_constant, schedule ! i] [choice]
                        [Choice (un_word e) (un_word f) (un_word g)] s;
        (new_a, s) \<leftarrow> sum_doubled_32 C [h, big_sigma_1, round_constant, schedule ! i, big_sigma_0] [choice, majority]
                        [Choice (un_word e) (un_word f) (un_word g), Majority (un_word a) (un_word b) (un_word c)] s;
        Some ((new_a, a, b, c, new_e, e, f, g), s)
      })"

fun round_loop :: "('b, 'w, 'z, 'c, 's) circuit_ops \<Rightarrow> ('z, 'w) uint_value list \<Rightarrow> nat list \<Rightarrow> ('z, 'w) working \<Rightarrow> 's
    \<Rightarrow> (('z, 'w) working \<times> 's) option" where
  "round_loop C schedule [] working s = Some (working, s)"
| "round_loop C schedule (i # is) working s =
     do {
       (working, s) \<leftarrow> round_step C schedule i working s;
       round_loop C schedule is working s
     }"

definition to_working :: "('z, 'w) uint_value list \<Rightarrow> ('z, 'w) working" where
  "to_working st = (st ! 0, st ! 1, st ! 2, st ! 3, st ! 4, st ! 5, st ! 6, st ! 7)"

definition of_working :: "('z, 'w) working \<Rightarrow> ('z, 'w) uint_value list" where
  "of_working working = (case working of (a, b, c, d, e, f, g, h) \<Rightarrow> [a, b, c, d, e, f, g, h])"

definition compress :: "('b, 'w, 'z, 'c, 's) circuit_ops \<Rightarrow> 'w list \<Rightarrow> 'w list \<Rightarrow> 's \<Rightarrow> (('z, 'w) uint_value list \<times> 's) option" where
  "compress C block state s =
     do {
       (state, s) \<leftarrow> map_circuit (uint_from_word C 32) state s;
       (schedule, s) \<leftarrow> map_circuit (uint_from_word C 32) block s;
       (schedule, s) \<leftarrow> schedule_loop C [16..<64] schedule s;
       (working, s) \<leftarrow> round_loop C schedule [0..<64] (to_working state) s;
       map_circuit (\<lambda>i. sum_32 C 33 [state ! i, of_working working ! i]) [0..<8] s
     }"

definition compression_circuit :: "('b, 'w, 'z, 'c, 's) circuit_ops \<Rightarrow> 'b list \<Rightarrow> 's \<Rightarrow> ('b list \<times> 's) option" where
  "compression_circuit C input s =
     do {
       block \<leftarrow> those (map (\<lambda>word. word_new C (map (\<lambda>b. input ! (word * 32 + b)) [0..<32])) [0..<16]);
       state \<leftarrow> those (map (\<lambda>word. word_new C (map (\<lambda>b. input ! (512 + word * 32 + b)) [0..<32])) [0..<8]);
       (output, s) \<leftarrow> compress C block state s;
       bs \<leftarrow> those (map (\<lambda>i. op_bit C 32 (un_word (output ! (i div 32))) (i mod 32)) [0..<256]);
       Some (bs, s)
     }"

section \<open>Whole messages\<close>

definition initial_state :: "('b, 'w, 'z, 'c, 's) circuit_ops \<Rightarrow> 'w list option" where
  "initial_state C = those (map (\<lambda>word. word_constant C (ucast word)) INITIAL_STATE)"

text \<open>The bit getter is total on the indices asked for; it may panic on others.\<close>

definition message_block :: "('b, 'w, 'z, 'c, 's) circuit_ops \<Rightarrow> (nat \<Rightarrow> 'b option) \<Rightarrow> nat \<Rightarrow> 'w list option" where
  "message_block C message_bit block_index =
     those (map (\<lambda>word. do {
         bs \<leftarrow> those (map (\<lambda>word_bit. message_bit (block_index * 512 + word * 32 + (31 - word_bit))) [0..<32]);
         word_new C bs
       }) [0..<16])"

fun block_loop :: "('b, 'w, 'z, 'c, 's) circuit_ops \<Rightarrow> (nat \<Rightarrow> 'b option) \<Rightarrow> nat list \<Rightarrow> 'w list \<Rightarrow> 's \<Rightarrow> ('w list \<times> 's) option" where
  "block_loop C message_bit [] state s = Some (state, s)"
| "block_loop C message_bit (block_index # rest) state s =
     do {
       block \<leftarrow> message_block C message_bit block_index;
       (state, s) \<leftarrow> compress C block state s;
       block_loop C message_bit rest (map un_word state) s
     }"

definition padding_values :: "u64 \<Rightarrow> u32 list" where
  "padding_values encoded_length =
     [0x80000000, 0, 0, 0, 0, 0, 0, 0, 0, 0, 0, 0, 0, 0, ucast (drop_bit 32 encoded_length), ucast encoded_length]"

definition sha256_block_aligned_circuit :: "('b, 'w, 'z, 'c, 's) circuit_ops \<Rightarrow> nat \<Rightarrow> (nat \<Rightarrow> 'b option) \<Rightarrow> 's
    \<Rightarrow> ('b list \<times> 's) option" where
  "sha256_block_aligned_circuit C message_bits message_bit s =
     (if message_bits mod 512 \<noteq> 0 \<or> message_bits \<ge> 2 ^ 64 then None
      else do {
        let encoded_length = (of_nat message_bits :: u64);
        state \<leftarrow> initial_state C;
        (state, s) \<leftarrow> block_loop C message_bit [0..<message_bits div 512] state s;
        padding \<leftarrow> those (map (\<lambda>word. word_constant C (ucast word)) (padding_values encoded_length));
        (digest, s) \<leftarrow> compress C padding state s;
        bs \<leftarrow> those (map (\<lambda>i. op_bit C 32 (un_word (digest ! (i div 32))) (31 - i mod 32)) [0..<256]);
        Some (bs, s)
      })"

definition sha256_2kb_circuit :: "('b, 'w, 'z, 'c, 's) circuit_ops \<Rightarrow> 'b list \<Rightarrow> 's \<Rightarrow> ('b list \<times> 's) option" where
  "sha256_2kb_circuit C message s =
     sha256_block_aligned_circuit C SHA256_2KB_MESSAGE_BITS (\<lambda>b. if b < length message then Some (message ! b) else None) s"

end
