(* ===== verification/Sha256_Spec.thy ===== *)
theory Sha256_Spec
  imports BitZ_Prelude
begin

text \<open>
  SHA-256 as FIPS 180-4 defines it, on bit strings and 32-bit words: the specification the circuits of
  \<open>Circuit_Sha256\<close> are compared with.  It shares nothing with the circuits but the tables of constants,
  which the code copies from the standard.
\<close>

definition sha_ch :: "u32 \<Rightarrow> u32 \<Rightarrow> u32 \<Rightarrow> u32" where
  "sha_ch x y z = (x AND y) XOR (NOT x AND z)"

definition sha_maj :: "u32 \<Rightarrow> u32 \<Rightarrow> u32 \<Rightarrow> u32" where
  "sha_maj x y z = (x AND y) XOR (x AND z) XOR (y AND z)"

definition rotr :: "nat \<Rightarrow> u32 \<Rightarrow> u32" where
  "rotr n x = drop_bit n x OR push_bit (32 - n) x"

definition big_sigma_0 :: "u32 \<Rightarrow> u32" where
  "big_sigma_0 x = rotr 2 x XOR rotr 13 x XOR rotr 22 x"

definition big_sigma_1 :: "u32 \<Rightarrow> u32" where
  "big_sigma_1 x = rotr 6 x XOR rotr 11 x XOR rotr 25 x"

definition small_sigma_0 :: "u32 \<Rightarrow> u32" where
  "small_sigma_0 x = rotr 7 x XOR rotr 18 x XOR drop_bit 3 x"

definition small_sigma_1 :: "u32 \<Rightarrow> u32" where
  "small_sigma_1 x = rotr 17 x XOR rotr 19 x XOR drop_bit 10 x"

text \<open>Section 6.2.2: the message schedule, the rounds and the new chaining value.\<close>

definition schedule_word :: "u32 list \<Rightarrow> nat \<Rightarrow> u32" where
  "schedule_word W i = small_sigma_1 (W ! (i - 2)) + W ! (i - 7) + small_sigma_0 (W ! (i - 15)) + W ! (i - 16)"

definition sha_schedule :: "u32 list \<Rightarrow> u32 list" where
  "sha_schedule M = foldl (\<lambda>W i. W @ [schedule_word W i]) M [16..<64]"

type_synonym sha_state = "u32 \<times> u32 \<times> u32 \<times> u32 \<times> u32 \<times> u32 \<times> u32 \<times> u32"

fun sha_round :: "u32 \<Rightarrow> u32 \<Rightarrow> sha_state \<Rightarrow> sha_state" where
  "sha_round K W (a, b, c, d, e, f, g, h) =
     (let T1 = h + big_sigma_1 e + sha_ch e f g + K + W; T2 = big_sigma_0 a + sha_maj a b c
      in (T1 + T2, a, b, c, d + T1, e, f, g))"

definition sha_rounds :: "u32 list \<Rightarrow> u32 list \<Rightarrow> sha_state \<Rightarrow> sha_state" where
  "sha_rounds K W st = foldl (\<lambda>st i. sha_round (K ! i) (W ! i) st) st [0..<64]"

definition words_to_state :: "u32 list \<Rightarrow> sha_state" where
  "words_to_state H = (H ! 0, H ! 1, H ! 2, H ! 3, H ! 4, H ! 5, H ! 6, H ! 7)"

definition state_to_words :: "sha_state \<Rightarrow> u32 list" where
  "state_to_words st = (case st of (a, b, c, d, e, f, g, h) \<Rightarrow> [a, b, c, d, e, f, g, h])"

definition sha_compress :: "u32 list \<Rightarrow> u32 list \<Rightarrow> u32 list \<Rightarrow> u32 list" where
  "sha_compress K M H = map2 (+) H (state_to_words (sha_rounds K (sha_schedule M) (words_to_state H)))"

text \<open>Section 5: padding a bit string and parsing it into blocks of sixteen big-endian words.\<close>

definition be_bits :: "nat \<Rightarrow> nat \<Rightarrow> bool list" where
  "be_bits n v = map (\<lambda>i. bit v (n - 1 - i)) [0..<n]"

definition be_word :: "bool list \<Rightarrow> u32" where
  "be_word bs = foldl (\<lambda>w b. 2 * w + of_bool b) 0 bs"

definition sha_pad :: "bool list \<Rightarrow> bool list" where
  "sha_pad m = m @ [True] @ replicate ((959 - length m mod 512) mod 512) False @ be_bits 64 (length m)"

definition sha_block :: "bool list \<Rightarrow> nat \<Rightarrow> u32 list" where
  "sha_block m k = map (\<lambda>j. be_word (take 32 (drop (512 * k + 32 * j) m))) [0..<16]"

definition sha256 :: "u32 list \<Rightarrow> u32 list \<Rightarrow> bool list \<Rightarrow> u32 list" where
  "sha256 K H0 m = foldl (\<lambda>H k. sha_compress K (sha_block (sha_pad m) k) H) H0 [0..<length (sha_pad m) div 512]"

end
