(* ===== verification/Circuit_Laws.thy ===== *)
theory Circuit_Laws
  imports Circuit_Backend
begin

text \<open>
  What a circuit may rely on in a backend, as interfaces, and the backends of \<open>Circuit_Backend\<close> as
  instances.

  \<open>circuit_words\<close> relates packed words to bit strings and integer expressions to values of a ring.  Two
  contracts extend it.  \<open>circuit_honest\<close>: hints get the value their closure computes, and everything the
  run records is read off a known trace, so that each operation succeeds and advances through the
  trace.  \<open>circuit_sound\<close>: hints get any bits, and a run whose recorded constraints all hold in the end
  gives every operation the value it claims.
\<close>

section \<open>Bits of a natural number\<close>

definition nat_bits :: "nat \<Rightarrow> nat \<Rightarrow> bool list" where
  "nat_bits n v = map (bit v) [0..<n]"

lemma length_nat_bits [simp]: "length (nat_bits n v) = n"
  by (simp add: nat_bits_def)

lemma bits_val_nat_bits: "bits_val (nat_bits n v) = v mod 2 ^ n"
proof (induction n)
  case (Suc n)
  have "v mod 2 ^ Suc n = v mod 2 ^ n + 2 ^ n * (v div 2 ^ n mod 2)"
    by (simp only: power_Suc2 mod_mult2_eq add.commute)
  moreover have "v div 2 ^ n mod 2 = of_bool (bit v n)" by (simp add: bit_iff_odd mod2_eq_if)
  ultimately show ?case using Suc by (simp add: nat_bits_def bits_val_append del: power_Suc)
qed (simp add: nat_bits_def)

lemma bits_val_eq_iff: "length xs = length ys \<Longrightarrow> bits_val xs = bits_val ys \<longleftrightarrow> xs = ys"
proof (induction xs ys rule: list_induct2)
  case (Cons x xs y ys)
  then show ?case by (cases x; cases y; simp; presburger)
qed simp

lemma nat_bits_bits_val: "length bs = n \<Longrightarrow> nat_bits n (bits_val bs) = bs"
  using bits_val_less [of bs] by (subst bits_val_eq_iff [symmetric]) (simp_all add: bits_val_nat_bits)

lemma take_nat_bits: "k \<le> n \<Longrightarrow> take k (nat_bits n v) = nat_bits k v"
  by (simp add: nat_bits_def take_map)

lemma nth_nat_bits [simp]: "i < n \<Longrightarrow> nat_bits n v ! i = bit v i"
  by (simp add: nat_bits_def)

lemma nat_bits_mod: "n \<le> k \<Longrightarrow> nat_bits n (v mod 2 ^ k) = nat_bits n v"
  by (simp add: nat_bits_def take_bit_eq_mod [symmetric] bit_take_bit_iff)

lemma word_bits_64: "map (\<lambda>i. i < 64 \<and> bit (v :: u64) i) [0..<n] = nat_bits n (unat v)"
  using bit_imp_le_length [of v] by (auto simp: nat_bits_def bit_unsigned_iff)

section \<open>Words and integer expressions\<close>

locale circuit_words =
  fixes C :: "('b, 'w, 'z, 'c, 's) circuit_ops" and LIMBS :: nat
    and holds :: "nat \<Rightarrow> 'w \<Rightarrow> bool list \<Rightarrow> bool" and brel :: "'b \<Rightarrow> bool \<Rightarrow> bool"
    and zrel :: "'z \<Rightarrow> 'v::comm_ring_1 \<Rightarrow> bool" and crel :: "'c \<Rightarrow> 'v \<Rightarrow> bool"
  assumes holds_length: "holds N w bs \<Longrightarrow> length bs = N"
    and from_array: "list_all2 brel xs bs \<Longrightarrow> length bs = N \<Longrightarrow> \<exists>w. op_from_array C N (div_ceil N 64) xs = Some w \<and> holds N w bs"
    and from_u64: "\<exists>w. op_from_u64 C N (div_ceil N 64) word = Some w \<and> holds N w (nat_bits N (unat word))"
    and word_bit: "holds N w bs \<Longrightarrow> i < N \<Longrightarrow> \<exists>b. op_bit C N w i = Some b \<and> brel b (bs ! i)"
    and rotate_right: "holds N w bs \<Longrightarrow>
      \<exists>w'. op_rotate_right C N (div_ceil N 64) w amount = Some w' \<and> holds N w' (scalar_rotate_right N bs amount)"
    and shift_right: "holds N w bs \<Longrightarrow>
      \<exists>w'. op_shift_right C N (div_ceil N 64) w amount = Some w' \<and> holds N w' (scalar_shift_right N id bs amount)"
    and z_from: "crel c v \<Longrightarrow> zrel (op_z_from C c) v"
    and z_zero: "zrel (op_z_zero C LIMBS) 0"
    and z_add: "zrel x u \<Longrightarrow> zrel y v \<Longrightarrow> zrel (op_z_add C x y) (u + v)"
    and z_sub: "zrel x u \<Longrightarrow> zrel y v \<Longrightarrow> zrel (op_z_sub C x y) (u - v)"
    and z_mul: "zrel x u \<Longrightarrow> crel c v \<Longrightarrow> zrel (op_z_mul C x c) (u * v)"
    and c_one: "crel (op_c_one C LIMBS) 1"
    and c_add: "crel c u \<Longrightarrow> crel d v \<Longrightarrow> crel (op_c_add C c d) (u + v)"
    and c_from_u64: "crel (op_c_from_u64 C LIMBS word) (of_nat (unat word))"
begin

lemma z_sum:
  "list_all2 zrel zs vs \<Longrightarrow> zrel x u \<Longrightarrow> zrel (foldl (op_z_add C) x zs) (u + sum_list vs)"
proof (induction arbitrary: x u rule: list_all2_induct)
  case (Cons z zs v vs)
  from Cons.IH [OF z_add [OF Cons.prems Cons.hyps(1)]] show ?case by (simp add: add.assoc)
qed simp

lemma z_sum_map:
  "list_all2 zrel (map f xs) vs \<Longrightarrow> zrel (foldl (\<lambda>acc t. op_z_add C acc (f t)) (op_z_zero C LIMBS) xs) (sum_list vs)"
  using z_sum [of "map f xs" vs, OF _ z_zero] by (simp add: foldl_map)

lemma word_bits:
  assumes "holds N w bs" "n \<le> N"
  shows "\<exists>xs. those (map (op_bit C N w) [0..<n]) = Some xs \<and> list_all2 brel xs (take n bs)"
proof -
  have "\<forall>i\<in>{..<n}. \<exists>b. op_bit C N w i = Some b \<and> brel b (bs ! i)" using word_bit [OF assms(1)] assms(2) by simp
  then obtain f where f: "\<And>i. i < n \<Longrightarrow> op_bit C N w i = Some (f i) \<and> brel (f i) (bs ! i)" by (metis lessThan_iff)
  then have "those (map (op_bit C N w) [0..<n]) = Some (map f [0..<n])" by (intro those_Some_map) simp
  moreover have "list_all2 brel (map f [0..<n]) (take n bs)"
    using f holds_length [OF assms(1)] assms(2) by (simp add: list_all2_conv_all_nth)
  ultimately show ?thesis by blast
qed

end

section \<open>Honest runs\<close>

text \<open>What an operation records: the bits it allocates and the bits it lifts.  A position counts both.\<close>

type_synonym trace = "bool list \<times> bool list"

definition trace_append :: "trace \<Rightarrow> trace \<Rightarrow> trace" where
  "trace_append s t = (fst s @ fst t, snd s @ snd t)"

definition advance :: "nat \<times> nat \<Rightarrow> trace \<Rightarrow> nat \<times> nat" where
  "advance p t = (fst p + length (fst t), snd p + length (snd t))"

definition room :: "trace \<Rightarrow> nat \<times> nat \<Rightarrow> trace \<Rightarrow> bool" where
  "room full p t \<longleftrightarrow> fst p + length (fst t) \<le> length (fst full) \<and> take (length (fst t)) (drop (fst p) (fst full)) = fst t \<and>
     snd p + length (snd t) \<le> length (snd full) \<and> take (length (snd t)) (drop (snd p) (snd full)) = snd t"

lemma advance_append [simp]: "advance p (trace_append s t) = advance (advance p s) t"
  by (simp add: advance_def trace_append_def)

lemma advance_Nil [simp]: "advance p ([], []) = p"
  by (simp add: advance_def)

lemma take_drop_append:
  "k + length (xs @ ys) \<le> length zs \<and> take (length (xs @ ys)) (drop k zs) = xs @ ys \<longleftrightarrow>
   (k + length xs \<le> length zs \<and> take (length xs) (drop k zs) = xs) \<and>
   (k + length xs + length ys \<le> length zs \<and> take (length ys) (drop (k + length xs) zs) = ys)"
proof -
  have "take (length (xs @ ys)) (drop k zs) = take (length xs) (drop k zs) @ take (length ys) (drop (k + length xs) zs)"
    by (simp add: take_add add.commute)
  moreover have "length (take (length xs) (drop k zs)) = length xs" if "k + length xs \<le> length zs" using that by simp
  ultimately show ?thesis by (auto simp: add.assoc)
qed

lemma room_append: "room full p (trace_append s t) \<longleftrightarrow> room full p s \<and> room full (advance p s) t"
  unfolding room_def trace_append_def advance_def fst_conv snd_conv
  using take_drop_append [of "fst p" "fst s" "fst t" "fst full"] take_drop_append [of "snd p" "snd s" "snd t" "snd full"]
  by blast

lemma room_Nil [simp]: "room full p ([], []) \<longleftrightarrow> fst p \<le> length (fst full) \<and> snd p \<le> length (snd full)"
  by (simp add: room_def)

locale circuit_honest = circuit_words C LIMBS holds brel zrel crel
  for C :: "('b, 'w, 'z, 'c, 's) circuit_ops" and LIMBS :: nat
    and holds :: "nat \<Rightarrow> 'w \<Rightarrow> bool list \<Rightarrow> bool" and brel :: "'b \<Rightarrow> bool \<Rightarrow> bool"
    and zrel :: "'z \<Rightarrow> 'v::comm_ring_1 \<Rightarrow> bool" and crel :: "'c \<Rightarrow> 'v \<Rightarrow> bool" +
  fixes full :: trace and reached :: "'s \<Rightarrow> nat \<times> nat \<Rightarrow> bool" and ctx :: "('z, 'b, 'c) witness_context"
  assumes evaluate: "holds N w bs \<Longrightarrow> \<exists>b. op_evaluate C N (div_ceil N 64) w ctx = Some b \<and> pb_holds N b bs"
    and word_xor: "reached s p \<Longrightarrow> holds N x bs \<Longrightarrow> holds N y cs \<Longrightarrow>
      \<exists>w s'. op_word_xor C N (div_ceil N 64) x y s = Some (w, s') \<and> reached s' p \<and> holds N w (map (\<lambda>i. bs ! i \<noteq> cs ! i) [0..<N])"
    and hint: "reached s p \<Longrightarrow> room full p (bs, []) \<Longrightarrow> h ctx = Some (Inr b) \<Longrightarrow> pb_holds N b bs \<Longrightarrow>
      \<exists>w s'. op_hint C N (div_ceil N 64) h s = Some (w, s') \<and> reached s' (advance p (bs, [])) \<and> holds N w bs"
    and bitz_unsigned: "reached s p \<Longrightarrow> room full p ([], bs) \<Longrightarrow> holds N w bs \<Longrightarrow> LOW \<le> N \<Longrightarrow> N < 64 * LIMBS \<Longrightarrow>
      \<exists>f l s'. op_bitz_unsigned C LIMBS N (div_ceil N 64) LOW w s = Some ((f, l), s') \<and> reached s' (advance p ([], bs)) \<and>
        zrel f (of_nat (bits_val bs)) \<and> zrel l (of_nat (bits_val (take LOW bs)))"
    and assert_r1c: "reached s p \<Longrightarrow> zrel za 0 \<Longrightarrow> zrel zb 0 \<Longrightarrow> zrel zc 0 \<Longrightarrow> reached (op_assert_r1c C za zb zc s) p"
begin

text \<open>From position \<open>p\<close> a computation succeeds, records \<open>t\<close> and returns a result with property \<open>Q\<close>.\<close>

definition honest :: "nat \<times> nat \<Rightarrow> trace \<Rightarrow> ('x \<times> 's) option \<Rightarrow> ('x \<Rightarrow> bool) \<Rightarrow> bool" where
  "honest p t r Q \<longleftrightarrow> (room full p t \<longrightarrow> (\<exists>x s. r = Some (x, s) \<and> reached s (advance p t) \<and> Q x))"

lemma honest_return: "reached s p \<Longrightarrow> Q x \<Longrightarrow> honest p ([], []) (Some (x, s)) Q"
  by (simp add: honest_def)

lemma honest_bind:
  assumes "honest p t r Q" "\<And>x s. reached s (advance p t) \<Longrightarrow> Q x \<Longrightarrow> honest (advance p t) u (k (x, s)) R"
  shows "honest p (trace_append t u) (Option.bind r k) R"
  unfolding honest_def
proof
  assume "room full p (trace_append t u)"
  then have room: "room full p t" "room full (advance p t) u" by (simp_all add: room_append)
  then obtain x s where r: "r = Some (x, s)" "reached s (advance p t)" "Q x" using assms(1) by (auto simp: honest_def)
  from assms(2) [OF r(2,3)] room(2) r(1)
  show "\<exists>x s. Option.bind r k = Some (x, s) \<and> reached s (advance p (trace_append t u)) \<and> R x" by (auto simp: honest_def)
qed

lemma honest_pure: "r = Some x \<Longrightarrow> honest p t (k x) R \<Longrightarrow> honest p t (Option.bind r k) R"
  by simp

lemma honest_mono: "honest p t r Q \<Longrightarrow> (\<And>x. Q x \<Longrightarrow> R x) \<Longrightarrow> honest p t r R"
  by (auto simp: honest_def)

lemma honest_xor:
  "reached s p \<Longrightarrow> holds N x bs \<Longrightarrow> holds N y cs \<Longrightarrow>
   honest p ([], []) (op_word_xor C N (div_ceil N 64) x y s) (\<lambda>w. holds N w (map (\<lambda>i. bs ! i \<noteq> cs ! i) [0..<N]))"
  using word_xor by (fastforce simp: honest_def)

lemma honest_hint:
  "reached s p \<Longrightarrow> h ctx = Some (Inr b) \<Longrightarrow> pb_holds N b bs \<Longrightarrow>
   honest p (bs, []) (op_hint C N (div_ceil N 64) h s) (\<lambda>w. holds N w bs)"
  using hint by (fastforce simp: honest_def)

lemma honest_lift:
  "reached s p \<Longrightarrow> holds N w bs \<Longrightarrow> LOW \<le> N \<Longrightarrow> N < 64 * LIMBS \<Longrightarrow>
   honest p ([], bs) (op_bitz_unsigned C LIMBS N (div_ceil N 64) LOW w s)
     (\<lambda>(f, l). zrel f (of_nat (bits_val bs)) \<and> zrel l (of_nat (bits_val (take LOW bs))))"
  using bitz_unsigned by (fastforce simp: honest_def)

end

section \<open>Sound constraints\<close>

text \<open>If the run ends in a state whose constraints hold, it started in one, and when the inputs satisfy
  \<open>P\<close> the result satisfies \<open>Q\<close>.\<close>

definition sound_run :: "('s \<Rightarrow> bool) \<Rightarrow> bool \<Rightarrow> 's \<Rightarrow> ('x \<times> 's) option \<Rightarrow> ('x \<Rightarrow> bool) \<Rightarrow> bool" where
  "sound_run ok P s r Q \<longleftrightarrow> (\<forall>x s'. r = Some (x, s') \<longrightarrow> ok s' \<longrightarrow> ok s \<and> (P \<longrightarrow> Q x))"

lemma sound_return: "(P \<Longrightarrow> Q x) \<Longrightarrow> sound_run ok P s (Some (x, s)) Q"
  by (simp add: sound_run_def)

lemma sound_bind:
  assumes "sound_run ok P s r Q" "\<And>x s'. sound_run ok (P \<and> Q x) s' (k (x, s')) R"
  shows "sound_run ok P s (Option.bind r k) R"
  using assms unfolding sound_run_def by (auto simp: Option.bind_eq_Some_conv)

lemma sound_pure:
  assumes "\<And>x. r = Some x \<Longrightarrow> sound_run ok (P \<and> Q x) s (k x) R" "P \<Longrightarrow> \<exists>x. r = Some x \<and> Q x"
  shows "sound_run ok P s (Option.bind r k) R"
  using assms unfolding sound_run_def by (cases r) auto

lemma sound_weaken: "sound_run ok P' s r Q \<Longrightarrow> (P \<Longrightarrow> P') \<Longrightarrow> sound_run ok P s r Q"
  by (auto simp: sound_run_def)

lemma sound_mono: "sound_run ok P s r Q' \<Longrightarrow> (\<And>x. P \<Longrightarrow> Q' x \<Longrightarrow> Q x) \<Longrightarrow> sound_run ok P s r Q"
  by (auto simp: sound_run_def)

locale circuit_sound = circuit_words C LIMBS holds brel zrel crel
  for C :: "('b, 'w, 'z, 'c, 's) circuit_ops" and LIMBS :: nat
    and holds :: "nat \<Rightarrow> 'w \<Rightarrow> bool list \<Rightarrow> bool" and brel :: "'b \<Rightarrow> bool \<Rightarrow> bool"
    and zrel :: "'z \<Rightarrow> 'v::comm_ring_1 \<Rightarrow> bool" and crel :: "'c \<Rightarrow> 'v \<Rightarrow> bool" +
  fixes ok :: "'s \<Rightarrow> bool"
  assumes small_numbers: "ok s \<Longrightarrow> m < 2 ^ 40 \<Longrightarrow> n < 2 ^ 40 \<Longrightarrow> (of_nat m :: 'v) = of_nat n \<Longrightarrow> m = n"
    and xor_sound: "sound_run ok (holds N v bs \<and> holds N w cs) s (op_word_xor C N M v w s)
      (\<lambda>w. holds N w (map (\<lambda>i. bs ! i \<noteq> cs ! i) [0..<N]))"
    and hint_sound: "sound_run ok True s (op_hint C N M h s) (\<lambda>w. \<exists>bs. holds N w bs)"
    and lift_sound: "sound_run ok (holds N w bs) s (op_bitz_unsigned C LIMBS N M LOW w s)
      (\<lambda>(f, l). zrel f (of_nat (bits_val bs)) \<and> zrel l (of_nat (bits_val (take LOW bs))))"
    and assert_sound: "ok (op_assert_r1c C za zb zc s) \<Longrightarrow>
      ok s \<and> (zrel za x \<longrightarrow> zrel zb y \<longrightarrow> zrel zc z \<longrightarrow> x * y = z)"

end
