(* ===== verification/Circuit_Sha256_Words.thy ===== *)
theory Circuit_Sha256_Words
  imports Circuit_Sha256 Sha256_Spec Circuit_Laws
begin

text \<open>
  The 32-bit words of SHA-256 as bit strings, and the identities behind the doubled \<open>Ch\<close> and \<open>Maj\<close> of the
  circuits.
\<close>

definition u32_bits :: "u32 \<Rightarrow> bool list" where
  "u32_bits v = nat_bits 32 (unat v)"

lemma length_u32_bits [simp]: "length (u32_bits v) = 32"
  by (simp add: u32_bits_def)

lemma nth_u32_bits [simp]: "i < 32 \<Longrightarrow> u32_bits v ! i = bit v i"
  by (simp add: u32_bits_def bit_unsigned_iff)

lemma u32_bits_map: "(\<And>i. i < 32 \<Longrightarrow> f i = bit v i) \<Longrightarrow> map f [0..<32] = u32_bits v"
  by (intro nth_equalityI) simp_all

lemma u32_less: "unat (v :: u32) < 2 ^ 32"
  using unat_lt2p [of v] by simp

lemma bits_val_u32 [simp]: "bits_val (u32_bits v) = unat v"
  using u32_less [of v] by (simp add: u32_bits_def bits_val_nat_bits del: unsigned_less)

lemma u32_bits_unique: "length bs = 32 \<Longrightarrow> bits_val bs = unat v \<Longrightarrow> bs = u32_bits v"
  using bits_val_eq_iff [of bs "u32_bits v"] by simp

lemma u32_bits_xor: "map (\<lambda>i. u32_bits a ! i \<noteq> u32_bits b ! i) [0..<32] = u32_bits (a XOR b)"
  by (rule u32_bits_map) (simp add: bit_xor_iff)

lemma u32_bits_rotate:
  assumes "0 < k" "k < 32"
  shows "scalar_rotate_right 32 (u32_bits a) k = u32_bits (rotr k a)"
proof -
  have "u32_bits a ! ((i + k) mod 32) = bit (rotr k a) i" if "i < 32" for i
    using that assms by (auto simp: rotr_def bit_or_iff bit_drop_bit_eq bit_push_bit_iff mod_if not_less add.commute [of k i] dest: bit_imp_le_length)
  with assms show ?thesis by (simp add: scalar_rotate_right_def u32_bits_map)
qed

lemma u32_bits_shift: "scalar_shift_right 32 id (u32_bits a) k = u32_bits (drop_bit k a)"
proof -
  have "(if i + k < 32 then u32_bits a ! (i + k) else id False) = bit (drop_bit k a) i" if "i < 32" for i
    using bit_imp_le_length [of a "k + i"] by (auto simp: bit_drop_bit_eq add.commute)
  then show ?thesis unfolding scalar_shift_right_def by (rule u32_bits_map)
qed

lemma unat_ucast_u32 [simp]: "unat (ucast (v :: u32) :: u64) = unat v"
  using u32_less [of v] by (simp add: unat_ucast_mod del: unsigned_less)

lemma ucast_ucast_u32 [simp]: "(ucast (ucast (v :: u32) :: u64) :: u32) = v"
  using u32_less [of v] by (simp add: word_unat_eq_iff unat_ucast_mod [where 'b = 32] del: unsigned_less)

lemma u32_bits_constant: "nat_bits 32 (unat (ucast v :: u64)) = u32_bits v"
  by (simp add: u32_bits_def)

lemma div_ceil_one: "0 < N \<Longrightarrow> N \<le> 64 \<Longrightarrow> div_ceil N 64 = 1"
  unfolding div_ceil_def by (rule div_nat_eqI) simp_all

lemma low_u64_u32: "pb_holds 32 b (u32_bits v) \<Longrightarrow> low_u64 b = ucast v"
  using low_u64_bit(1) [of 32 b "u32_bits v"] div_ceil_one [of 32] bit_imp_le_length [of v]
  by (intro bit_word_eqI) (auto simp: bit_unsigned_iff)

section \<open>Sums of words\<close>

lemma sum_unat_less: "length vs \<le> k \<Longrightarrow> 0 < k \<Longrightarrow> (\<Sum>v\<leftarrow>vs. unat (v :: u32)) < k * 2 ^ 32"
proof (induction vs arbitrary: k)
  case (Cons v vs)
  show ?case
  proof (cases vs)
    case Nil
    with Cons.prems u32_less [of v] show ?thesis by (cases k) simp_all
  next
    case (Cons w ws)
    then have "(\<Sum>v\<leftarrow>vs. unat v) < (k - 1) * 2 ^ 32" using Cons.prems by (intro Cons.IH) simp_all
    moreover have "k * 2 ^ 32 = (k - 1) * 2 ^ 32 + (2 :: nat) ^ 32" using Cons.prems by (cases k) simp_all
    ultimately show ?thesis using u32_less [of v] by simp
  qed
qed simp

lemma unat_sum_u32: "unat (sum_list (vs :: u32 list)) = (\<Sum>v\<leftarrow>vs. unat v) mod 2 ^ 32"
  by (induction vs) (simp_all add: unat_word_ariths mod_add_right_eq)

lemma unat_sum_u64:
  assumes "(\<Sum>v\<leftarrow>vs. unat (v :: u32)) < 2 ^ 64"
  shows "unat (sum_list (map ucast vs) :: u64) = (\<Sum>v\<leftarrow>vs. unat v)"
  using assms
proof (induction vs)
  case (Cons v vs)
  then have "unat (sum_list (map ucast vs) :: u64) = (\<Sum>v\<leftarrow>vs. unat v)" by simp
  with Cons.prems show ?case by (simp add: unat_word_ariths)
qed simp

lemma sum_low_32: "bits_val bs = (\<Sum>v\<leftarrow>vs. unat v) \<Longrightarrow> 32 \<le> length bs \<Longrightarrow> take 32 bs = u32_bits (sum_list vs)"
proof (rule u32_bits_unique)
  assume v: "bits_val bs = (\<Sum>v\<leftarrow>vs. unat v)" and l: "32 \<le> length bs"
  show "length (take 32 bs) = 32" using l by simp
  have "take 32 bs = nat_bits 32 (bits_val bs)"
    using take_nat_bits [OF l, of "bits_val bs"] by (simp add: nat_bits_bits_val)
  then show "bits_val (take 32 bs) = unat (sum_list vs)" by (simp add: bits_val_nat_bits unat_sum_u32 v)
qed

section \<open>Doubled functions\<close>

lemma unat_bit_sum: "unat (v :: u32) = (\<Sum>i<32. of_bool (bit v i) * 2 ^ i)"
  using bits_val_u32 [of v] unfolding bits_val_def length_u32_bits
  by (simp del: bits_val_u32 sum_of_bool_mult_eq sum_mult_of_bool_eq)

lemma choice_identity: "unat y + unat z + unat (x XOR z) = 2 * unat (sha_ch x y z) + unat (x XOR y)"
  unfolding unat_bit_sum sum_distrib_left sum.distrib [symmetric]
proof (rule sum.cong [OF refl])
  fix i :: nat assume "i \<in> {..<32}"
  then have i: "i < 32" by simp
  show "of_bool (bit y i) * 2 ^ i + of_bool (bit z i) * 2 ^ i + of_bool (bit (x XOR z) i) * 2 ^ i
      = 2 * (of_bool (bit (sha_ch x y z) i) * 2 ^ i) + of_bool (bit (x XOR y) i) * (2 :: nat) ^ i"
    using i by (cases "bit x i"; cases "bit y i"; cases "bit z i") (simp_all add: sha_ch_def bit_xor_iff bit_and_iff bit_not_iff)
qed

lemma majority_identity: "unat x + unat y + unat z = 2 * unat (sha_maj x y z) + unat (x XOR y XOR z)"
  unfolding unat_bit_sum sum_distrib_left sum.distrib [symmetric]
proof (rule sum.cong [OF refl])
  fix i :: nat assume "i \<in> {..<32}"
  then have i: "i < 32" by simp
  show "of_bool (bit x i) * 2 ^ i + of_bool (bit y i) * 2 ^ i + of_bool (bit z i) * 2 ^ i
      = 2 * (of_bool (bit (sha_maj x y z) i) * 2 ^ i) + of_bool (bit (x XOR y XOR z) i) * (2 :: nat) ^ i"
    using i by (cases "bit x i"; cases "bit y i"; cases "bit z i") (simp_all add: sha_maj_def bit_xor_iff bit_and_iff)
qed

lemma choice_twice_value:
  "(of_nat (unat y) + of_nat (unat z) - of_nat (unat (x XOR y)) + of_nat (unat (x XOR z)) :: 'v::comm_ring_1)
   = of_nat (2 * unat (sha_ch x y z))"
  using arg_cong [OF choice_identity [of y z x], of "of_nat :: nat \<Rightarrow> 'v"] by (simp add: algebra_simps)

lemma majority_twice_value:
  "(of_nat (unat x) + of_nat (unat y) + of_nat (unat z) - of_nat (unat (x XOR y XOR z)) :: 'v::comm_ring_1)
   = of_nat (2 * unat (sha_maj x y z))"
  using arg_cong [OF majority_identity [of x y z], of "of_nat :: nat \<Rightarrow> 'v"] by (simp add: algebra_simps)

section \<open>Words and lifted words of the circuits\<close>

locale sha_words = circuit_words C SHA256_Z_LIMBS holds brel zrel crel
  for C :: "('b, 'w, 'z, 'c, 's) circuit_ops" and holds :: "nat \<Rightarrow> 'w \<Rightarrow> bool list \<Rightarrow> bool" and brel :: "'b \<Rightarrow> bool \<Rightarrow> bool"
    and zrel :: "'z \<Rightarrow> 'v::comm_ring_1 \<Rightarrow> bool" and crel :: "'c \<Rightarrow> 'v \<Rightarrow> bool"
begin

definition word_is :: "'w \<Rightarrow> u32 \<Rightarrow> bool" where
  "word_is w v \<longleftrightarrow> holds 32 w (u32_bits v)"

definition uint_is :: "('z, 'w) uint_value \<Rightarrow> u32 \<Rightarrow> bool" where
  "uint_is u v \<longleftrightarrow> word_is (un_word u) v \<and> zrel (un_full u) (of_nat (unat v))"

lemma word_rotate:
  "word_is w v \<Longrightarrow> 0 < k \<Longrightarrow> k < 32 \<Longrightarrow> \<exists>x. op_rotate_right C 32 1 w k = Some x \<and> word_is x (rotr k v)"
  using rotate_right [of 32 w "u32_bits v" k] by (simp add: word_is_def u32_bits_rotate div_ceil_one)

lemma word_shift: "word_is w v \<Longrightarrow> \<exists>x. op_shift_right C 32 1 w k = Some x \<and> word_is x (drop_bit k v)"
  using shift_right [of 32 w "u32_bits v" k] by (simp add: word_is_def u32_bits_shift div_ceil_one)

lemma word_constant_is: "\<exists>w. word_constant C (ucast v) = Some w \<and> word_is w v"
  using from_u64 [of 32 "ucast v"] by (simp add: word_constant_def word_is_def u32_bits_def div_ceil_one)

lemma uint_constant_is: "\<exists>u. uint_constant C (ucast v) = Some u \<and> uint_is u v"
proof -
  obtain w where w: "word_constant C (ucast v) = Some w" "word_is w v" using word_constant_is by blast
  moreover have "zrel (op_z_from C (op_c_from_u64 C SHA256_Z_LIMBS (ucast v))) (of_nat (unat v))"
    using z_from [OF c_from_u64 [of "ucast v"]] by simp
  ultimately show ?thesis by (simp add: uint_constant_def uint_is_def Let_def)
qed

lemma low_word_is:
  assumes "holds N w bs" "32 \<le> N" "take 32 bs = u32_bits v"
  shows "\<exists>x. low_word C N w = Some x \<and> word_is x v"
proof -
  obtain xs where "those (map (op_bit C N w) [0..<32]) = Some xs" "list_all2 brel xs (u32_bits v)"
    using word_bits [OF assms(1,2)] assms(3) by auto
  moreover obtain x where "op_from_array C 32 1 xs = Some x" "holds 32 x (u32_bits v)"
    using from_array [of xs "u32_bits v" 32] calculation(2) by (auto simp: div_ceil_one)
  ultimately show ?thesis by (simp add: low_word_def word_new_def word_is_def)
qed

lemma uint_words: "list_all2 uint_is us vs \<Longrightarrow> list_all2 word_is (map un_word us) vs"
  by (induction rule: list_all2_induct) (simp_all add: uint_is_def)

lemma uint_fulls: "list_all2 uint_is us vs \<Longrightarrow> list_all2 zrel (map un_full us) (map (\<lambda>v. of_nat (unat v)) vs)"
  by (induction rule: list_all2_induct) (simp_all add: uint_is_def)

lemma of_nat_sum_unat: "(\<Sum>v\<leftarrow>vs. of_nat (unat (v :: u32))) = (of_nat (\<Sum>v\<leftarrow>vs. unat v) :: 'v)"
  by (induction vs) simp_all

definition twice_is :: "'z \<Rightarrow> u32 \<Rightarrow> bool" where
  "twice_is z v \<longleftrightarrow> zrel z (of_nat (2 * unat v))"

lemma twice_fulls: "list_all2 twice_is zs vs \<Longrightarrow> list_all2 zrel zs (map (\<lambda>v. of_nat (2 * unat v)) vs)"
  by (induction rule: list_all2_induct) (simp_all add: twice_is_def)

lemma of_nat_sum_twice: "(\<Sum>v\<leftarrow>vs. of_nat (2 * unat (v :: u32))) = (of_nat (\<Sum>v\<leftarrow>vs. unat v) * (1 + 1) :: 'v)"
  by (induction vs) (simp_all add: algebra_simps)

text \<open>The expressions the two sums assert to vanish, and the doubled functions.\<close>

definition sum_excess :: "('z, 'w) uint_value list \<Rightarrow> ('z, 'w) uint_value \<Rightarrow> 'z" where
  "sum_excess us wide = op_z_sub C (foldl (\<lambda>acc t. op_z_add C acc (un_full t)) (op_z_zero C SHA256_Z_LIMBS) us) (un_full wide)"

definition doubled_excess :: "('z, 'w) uint_value list \<Rightarrow> 'z list \<Rightarrow> ('z, 'w) uint_value \<Rightarrow> 'z" where
  "doubled_excess us zs half = op_z_sub C
      (op_z_add C (op_z_mul C (foldl (\<lambda>acc t. op_z_add C acc (un_full t)) (op_z_zero C SHA256_Z_LIMBS) us)
          (op_c_add C (op_c_one C SHA256_Z_LIMBS) (op_c_one C SHA256_Z_LIMBS)))
        (foldl (op_z_add C) (op_z_zero C SHA256_Z_LIMBS) zs))
      (op_z_mul C (un_full half) (op_c_add C (op_c_one C SHA256_Z_LIMBS) (op_c_one C SHA256_Z_LIMBS)))"

lemma sum_excess_value:
  "list_all2 uint_is us vs \<Longrightarrow> zrel (un_full wide) u \<Longrightarrow> zrel (sum_excess us wide) (of_nat (\<Sum>v\<leftarrow>vs. unat v) - u)"
  unfolding sum_excess_def of_nat_sum_unat [symmetric] by (intro z_sub z_sum_map uint_fulls)

lemma doubled_excess_value:
  assumes "list_all2 uint_is us vs" "list_all2 twice_is zs xs" "zrel (un_full half) u"
  shows "zrel (doubled_excess us zs half) (of_nat (2 * (\<Sum>v\<leftarrow>vs @ xs. unat v)) - u * (1 + 1))"
proof -
  have two: "crel (op_c_add C (op_c_one C SHA256_Z_LIMBS) (op_c_one C SHA256_Z_LIMBS)) (1 + 1)" by (intro c_add c_one)
  note l = z_mul [OF z_sum_map [OF uint_fulls [OF assms(1)]] two] and r = z_sum [OF twice_fulls [OF assms(2)] z_zero]
  have "of_nat (\<Sum>v\<leftarrow>vs. unat v) * (1 + 1) + (0 + of_nat (\<Sum>v\<leftarrow>xs. unat v) * (1 + 1)) = (of_nat (2 * (\<Sum>v\<leftarrow>vs @ xs. unat v)) :: 'v)"
    by (simp add: algebra_simps)
  with z_sub [OF z_add [OF l r] z_mul [OF assms(3) two]] show ?thesis unfolding of_nat_sum_unat of_nat_sum_twice doubled_excess_def by (simp only:)
qed

lemma choice_value:
  assumes "uint_is y b" "uint_is z c" "uint_is xy (a XOR b)" "uint_is xz (a XOR c)"
  shows "twice_is (op_z_add C (op_z_sub C (op_z_add C (un_full y) (un_full z)) (un_full xy)) (un_full xz)) (sha_ch a b c)"
  unfolding twice_is_def choice_twice_value [symmetric] using assms by (intro z_add z_sub) (simp_all add: uint_is_def)

lemma majority_value:
  assumes "uint_is x a" "uint_is y b" "uint_is z c" "uint_is xyz (a XOR b XOR c)"
  shows "twice_is (op_z_sub C (op_z_add C (op_z_add C (un_full x) (un_full y)) (un_full z)) (un_full xyz)) (sha_maj a b c)"
  unfolding twice_is_def majority_twice_value [symmetric] using assms by (intro z_add z_sub) (simp_all add: uint_is_def)

definition working_is :: "('z, 'w) working \<Rightarrow> sha_state \<Rightarrow> bool" where
  "working_is u st \<longleftrightarrow> list_all2 uint_is (of_working u) (state_to_words st)"

lemma working_is_tuple: "working_is (a, b, c, d, e, f, g, h) (a', b', c', d', e', f', g', h') \<longleftrightarrow>
   uint_is a a' \<and> uint_is b b' \<and> uint_is c c' \<and> uint_is d d' \<and> uint_is e e' \<and> uint_is f f' \<and> uint_is g g' \<and> uint_is h h'"
  by (simp add: working_is_def of_working_def state_to_words_def)

lemma length_sha_schedule: "length M = 16 \<Longrightarrow> length (sha_schedule M) = 64"
proof -
  have "length (foldl (\<lambda>W i. W @ [schedule_word W i]) W is) = length W + length is" for W and "is" :: "nat list"
    by (induction "is" arbitrary: W) simp_all
  then show "length M = 16 \<Longrightarrow> length (sha_schedule M) = 64" unfolding sha_schedule_def by (simp only: length_upt)
qed

lemma length_state_to_words [simp]: "length (state_to_words st) = 8"
  by (simp add: state_to_words_def split: prod.split)

lemma upt_8: "[0..<8] = [0, 1, 2, 3, 4, 5, 6, 7 :: nat]"
  by (simp add: upt_rec)

lemma working_of_state:
  assumes "list_all2 uint_is us H" "length H = 8"
  shows "working_is (to_working us) (words_to_state H)"
  using assms list_all2_nthD2 [OF assms(1)]
  by (simp add: working_is_def to_working_def words_to_state_def of_working_def state_to_words_def)

lemma sha_compress_map:
  "length H = 8 \<Longrightarrow> sha_compress K M H = map (\<lambda>i. H ! i + state_to_words (sha_rounds K (sha_schedule M) (words_to_state H)) ! i) [0..<8]"
  by (intro nth_equalityI) (simp_all add: sha_compress_def)

end

end
