(* ===== verification/Circuit_Sha256_Honest.thy ===== *)
theory Circuit_Sha256_Honest
  imports Circuit_Sha256_Words
begin

text \<open>
  An honest run of the SHA-256 circuits, over any backend that keeps the honest contract: every operation
  succeeds, the words it returns are those of FIPS 180-4, and the bits it allocates and lifts are an
  explicit trace.
\<close>

section \<open>The trace of a run\<close>

definition lift_trace :: "u32 \<Rightarrow> trace" where
  "lift_trace v = ([], u32_bits v)"

definition sum_trace :: "nat \<Rightarrow> u32 list \<Rightarrow> trace" where
  "sum_trace WIDTH vs = (nat_bits WIDTH (\<Sum>v\<leftarrow>vs. unat v), nat_bits WIDTH (\<Sum>v\<leftarrow>vs. unat v))"

definition traces :: "trace list \<Rightarrow> trace" where
  "traces ts = foldr trace_append ts ([], [])"

definition schedule_trace :: "u32 list \<Rightarrow> nat \<Rightarrow> trace" where
  "schedule_trace W i = traces [lift_trace (small_sigma_0 (W ! (i - 15))), lift_trace (small_sigma_1 (W ! (i - 2))),
     sum_trace 34 [W ! (i - 16), small_sigma_0 (W ! (i - 15)), W ! (i - 7), small_sigma_1 (W ! (i - 2))]]"

fun schedule_traces :: "u32 list \<Rightarrow> nat list \<Rightarrow> trace" where
  "schedule_traces W [] = ([], [])"
| "schedule_traces W (i # is) = trace_append (schedule_trace W i) (schedule_traces (W @ [schedule_word W i]) is)"

fun round_trace :: "u32 \<Rightarrow> u32 \<Rightarrow> sha_state \<Rightarrow> trace" where
  "round_trace K W (a, b, c, d, e, f, g, h) = traces [
     lift_trace (big_sigma_1 e), lift_trace (e XOR f), lift_trace (e XOR g), lift_trace (big_sigma_0 a),
     lift_trace (a XOR b XOR c),
     sum_trace 35 [d, h, big_sigma_1 e, K, W, sha_ch e f g],
     sum_trace 35 [h, big_sigma_1 e, K, W, big_sigma_0 a, sha_ch e f g, sha_maj a b c]]"

fun round_traces :: "u32 list \<Rightarrow> sha_state \<Rightarrow> nat list \<Rightarrow> trace" where
  "round_traces W st [] = ([], [])"
| "round_traces W st (i # is) =
     trace_append (round_trace (ROUND_CONSTANTS ! i) (W ! i) st) (round_traces W (sha_round (ROUND_CONSTANTS ! i) (W ! i) st) is)"

definition compress_trace :: "u32 list \<Rightarrow> u32 list \<Rightarrow> trace" where
  "compress_trace M H = traces [traces (map lift_trace H), traces (map lift_trace M), schedule_traces M [16..<64],
     round_traces (sha_schedule M) (words_to_state H) [0..<64],
     traces (map (\<lambda>i. sum_trace 33 [H ! i, state_to_words (sha_rounds ROUND_CONSTANTS (sha_schedule M) (words_to_state H)) ! i]) [0..<8])]"

lemma traces_simps [simp]: "traces [] = ([], [])" "traces (t # ts) = trace_append t (traces ts)"
  by (simp_all add: traces_def)

lemma trace_append_unit [simp]: "trace_append t ([], []) = t" "trace_append ([], []) t = t"
  by (simp_all add: trace_append_def)

lemma trace_append_assoc: "trace_append (trace_append s t) u = trace_append s (trace_append t u)"
  by (simp add: trace_append_def)

section \<open>Words and sums\<close>

locale sha_honest = sha_words C holds brel zrel crel + circuit_honest C SHA256_Z_LIMBS holds brel zrel crel full reached ctx
  for C :: "('b, 'w, 'z, 'c, 's) circuit_ops" and holds :: "nat \<Rightarrow> 'w \<Rightarrow> bool list \<Rightarrow> bool" and brel :: "'b \<Rightarrow> bool \<Rightarrow> bool"
    and zrel :: "'z \<Rightarrow> 'v::comm_ring_1 \<Rightarrow> bool" and crel :: "'c \<Rightarrow> 'v \<Rightarrow> bool"
    and full :: trace and reached :: "'s \<Rightarrow> nat \<times> nat \<Rightarrow> bool" and ctx :: "('z, 'b, 'c) witness_context"
begin

lemma honest_seq:
  assumes "honest p t r Q" "\<And>x s. reached s (advance p t) \<Longrightarrow> Q x \<Longrightarrow> honest (advance p t) u (k x s) R"
  shows "honest p (trace_append t u) (Option.bind r (\<lambda>(x, s). k x s)) R"
  using honest_bind [of p t r Q u "\<lambda>(x, s). k x s" R] assms by simp

lemma honest_silent:
  assumes "honest p ([], []) r Q" "\<And>x s. reached s p \<Longrightarrow> Q x \<Longrightarrow> honest p u (k x s) R"
  shows "honest p u (Option.bind r (\<lambda>(x, s). k x s)) R"
  using honest_seq [of p "([], [])" r Q u k R] assms by simp

lemma honest_word_xor:
  assumes "reached s p" "word_is x a" "word_is y b"
  shows "honest p ([], []) (word_xor C x y s) (\<lambda>w. word_is w (a XOR b))"
  using honest_xor [of s p 32 x "u32_bits a" y "u32_bits b"] assms
  unfolding word_xor_def word_is_def u32_bits_xor by (simp add: div_ceil_one)

lemma honest_word_xor3:
  assumes "reached s p" "word_is x a" "word_is y b" "word_is z c"
  shows "honest p ([], []) (word_xor3 C x y z s) (\<lambda>w. word_is w (a XOR b XOR c))"
  unfolding word_xor3_def
  by (rule honest_silent [OF honest_word_xor [OF assms(1-3)]])
    (rule honest_mono, erule (1) honest_word_xor, rule assms, simp add: xor.assoc)

lemma honest_uint:
  assumes "reached s p" "holds N w bs" "32 \<le> N" "N < 64"
  shows "honest p ([], bs) (uint_from_word C N w s)
    (\<lambda>u. un_word u = w \<and> zrel (un_full u) (of_nat (bits_val bs)) \<and> zrel (un_low_32 u) (of_nat (bits_val (take 32 bs))))"
proof -
  have l: "honest p ([], bs) (op_bitz_unsigned C SHA256_Z_LIMBS N 1 32 w s)
     (\<lambda>(f, l). zrel f (of_nat (bits_val bs)) \<and> zrel l (of_nat (bits_val (take 32 bs))))"
    using honest_lift [OF assms(1-3)] assms(3,4) div_ceil_one [of N] by (simp add: SHA256_Z_LIMBS_def)
  then have "honest p (trace_append ([], bs) ([], [])) (uint_from_word C N w s)
    (\<lambda>u. un_word u = w \<and> zrel (un_full u) (of_nat (bits_val bs)) \<and> zrel (un_low_32 u) (of_nat (bits_val (take 32 bs))))"
    unfolding uint_from_word_def by (rule honest_seq) (auto split: prod.split intro!: honest_return)
  then show ?thesis by simp
qed

lemma honest_uint_32:
  assumes "reached s p" "word_is w v"
  shows "honest p (lift_trace v) (uint_from_word C 32 w s) (\<lambda>u. uint_is u v)"
  using honest_uint [OF assms(1), of 32 w "u32_bits v"] assms(2)
  by (auto simp: lift_trace_def word_is_def uint_is_def elim: honest_mono)

lemma honest_small_sigma:
  assumes "reached s p" "word_is w v" "0 < k" "k < 32" "0 < l" "l < 32"
  shows "honest p (lift_trace (rotr k v XOR rotr l v XOR drop_bit m v)) (small_sigma C k l m w s)
    (\<lambda>u. uint_is u (rotr k v XOR rotr l v XOR drop_bit m v))"
proof -
  obtain x y z where x: "op_rotate_right C 32 1 w k = Some x" "word_is x (rotr k v)"
      and y: "op_rotate_right C 32 1 w l = Some y" "word_is y (rotr l v)"
      and z: "op_shift_right C 32 1 w m = Some z" "word_is z (drop_bit m v)"
    using word_rotate word_shift assms by meson
  show ?thesis unfolding small_sigma_def x(1) y(1) z(1) bind.bind_lunit
    by (rule honest_silent [OF honest_word_xor3 [OF assms(1) x(2) y(2) z(2)]]) (rule honest_uint_32)
qed

lemma honest_big_sigma:
  assumes "reached s p" "word_is w v" "0 < k" "k < 32" "0 < l" "l < 32" "0 < m" "m < 32"
  shows "honest p (lift_trace (rotr k v XOR rotr l v XOR rotr m v)) (big_sigma C k l m w s)
    (\<lambda>u. uint_is u (rotr k v XOR rotr l v XOR rotr m v))"
proof -
  obtain x y z where x: "op_rotate_right C 32 1 w k = Some x" "word_is x (rotr k v)"
      and y: "op_rotate_right C 32 1 w l = Some y" "word_is y (rotr l v)"
      and z: "op_rotate_right C 32 1 w m = Some z" "word_is z (rotr m v)"
    using word_rotate assms by meson
  show ?thesis unfolding big_sigma_def x(1) y(1) z(1) bind.bind_lunit
    by (rule honest_silent [OF honest_word_xor3 [OF assms(1) x(2) y(2) z(2)]]) (rule honest_uint_32)
qed

lemma evaluate_word_value: "word_is w v \<Longrightarrow> evaluate_word C ctx w = Some (ucast v)"
  using evaluate [of 32 w "u32_bits v"] low_u64_u32 by (auto simp: evaluate_word_def word_is_def div_ceil_one)

lemma evaluate_words_value: "list_all2 word_is ws vs \<Longrightarrow> those (map (evaluate_word C ctx) ws) = Some (map ucast vs)"
  by (induction rule: list_all2_induct) (simp_all add: evaluate_word_value)

text \<open>The common end of the two sums: allocate the bits of the sum, lift them, assert that an expression
  vanishes and keep the low word.\<close>

lemma honest_sum_end:
  assumes "reached s p" "h ctx = Some (Inr b)" "pb_holds N b (nat_bits N (\<Sum>v\<leftarrow>vs. unat v))" "32 \<le> N" "N < 64" "(\<Sum>v\<leftarrow>vs. unat v) < 2 ^ N"
    "\<And>w. zrel (un_full w) (of_nat (\<Sum>v\<leftarrow>vs. unat v)) \<Longrightarrow> zrel (e w) 0"
  shows "honest p (sum_trace N vs)
    (do {
       (bs, s) \<leftarrow> op_hint C N 1 h s;
       (wide, s) \<leftarrow> uint_from_word C N bs s;
       let s = assert_zero C (e wide) s;
       let low_32 = un_low_32 wide;
       word \<leftarrow> low_word C N (un_word wide);
       Some (\<lparr>un_word = word, un_full = low_32, un_low_32 = low_32\<rparr>, s)
     }) (\<lambda>u. uint_is u (sum_list vs))"
proof -
  let ?n = "\<Sum>v\<leftarrow>vs. unat v" and ?t = "nat_bits N (\<Sum>v\<leftarrow>vs. unat v)"
  have hint: "honest p (?t, []) (op_hint C N 1 h s) (\<lambda>w. holds N w ?t)"
    using honest_hint [where h = h, OF assms(1-3)] assms(4,5) div_ceil_one [of N] by simp
  have n: "bits_val ?t = ?n" using assms(6) by (simp add: bits_val_nat_bits)
  have low: "take 32 ?t = u32_bits (sum_list vs)" using assms(4) by (intro sum_low_32 n) simp
  have tr: "sum_trace N vs = trace_append (?t, []) (trace_append ([], ?t) ([], []))" by (simp add: sum_trace_def trace_append_def)
  show ?thesis unfolding tr Let_def
  proof (rule honest_seq [OF hint], rule honest_seq [OF honest_uint])
    fix w s1 and u :: "('z, 'w) uint_value" and s2
    assume s1: "reached s1 (advance p (?t, []))" and w: "holds N w ?t"
      and s2: "reached s2 (advance (advance p (?t, [])) ([], ?t))"
      and u: "un_word u = w \<and> zrel (un_full u) (of_nat (bits_val ?t)) \<and> zrel (un_low_32 u) (of_nat (bits_val (take 32 ?t)))"
    have s3: "reached (assert_zero C (e u) s2) (advance (advance p (?t, [])) ([], ?t))"
      unfolding assert_zero_def using u assms(7) n by (intro assert_r1c s2 z_zero) simp
    obtain x where x: "low_word C N w = Some x" "word_is x (sum_list vs)" using low_word_is [OF w assms(4) low] by blast
    show "honest (advance (advance p (?t, [])) ([], ?t)) ([], [])
        (low_word C N (un_word u) \<bind> (\<lambda>word. Some (\<lparr>un_word = word, un_full = un_low_32 u, un_low_32 = un_low_32 u\<rparr>, assert_zero C (e u) s2)))
        (\<lambda>u. uint_is u (sum_list vs))"
      using u x low by (auto simp: uint_is_def intro!: honest_return [OF s3])
  qed (use assms(4,5) in auto)
qed

lemma honest_sum:
  assumes "reached s p" "list_all2 uint_is us vs" "length us \<le> 2 ^ (N - 32)" "32 \<le> N" "N < 64"
  shows "honest p (sum_trace N vs) (sum_32 C N us s) (\<lambda>u. uint_is u (sum_list vs))"
proof -
  let ?n = "\<Sum>v\<leftarrow>vs. unat v"
  have "?n < 2 ^ (N - 32) * 2 ^ 32" using assms(2,3) by (intro sum_unat_less) (auto dest: list_all2_lengthD)
  also have "\<dots> = 2 ^ N" using assms(4) by (simp only: power_add [symmetric] le_add_diff_inverse2)
  finally have n: "?n < 2 ^ N" .
  also have "(2 :: nat) ^ N < 2 ^ 64" using assms(5) by (intro power_strict_increasing) simp_all
  finally have n64: "unat (sum_list (map ucast vs) :: u64) = ?n" by (rule unat_sum_u64)
  obtain b where b: "pb_from_u64 N 1 (sum_list (map ucast vs)) = Some b" "pb_holds N b (nat_bits N ?n)"
    using pb_from_u64_holds [of N "sum_list (map ucast vs)"] n64 assms(4,5) div_ceil_one [of N]
    by (auto simp: word_bits_64)
  have h: "sum_hint C N (map un_word us) ctx = Some (Inr b)"
    using evaluate_words_value [OF uint_words [OF assms(2)]] b(1) by (simp add: sum_hint_def)
  have e: "zrel (sum_excess us w) 0" if "zrel (un_full w) (of_nat ?n)" for w :: "('z, 'w) uint_value"
    using sum_excess_value [OF assms(2) that] by simp
  show ?thesis
    using honest_sum_end [where h = "sum_hint C N (map un_word us)" and
        e = "sum_excess us",
        OF assms(1) h b(2) assms(4,5) n e] assms(3,4,5) by (simp add: sum_32_def sum_excess_def)
qed

definition doubled_is :: "'w doubled_value \<Rightarrow> u32 \<Rightarrow> bool" where
  "doubled_is d v \<longleftrightarrow> doubled_evaluate C ctx d = Some (ucast v)"

lemma doubled_is_choice: "word_is x a \<Longrightarrow> word_is y b \<Longrightarrow> word_is z c \<Longrightarrow> doubled_is (Choice x y z) (sha_ch a b c)"
  by (simp add: doubled_is_def evaluate_word_value sha_ch_def Let_def)

lemma doubled_is_majority: "word_is x a \<Longrightarrow> word_is y b \<Longrightarrow> word_is z c \<Longrightarrow> doubled_is (Majority x y z) (sha_maj a b c)"
  by (simp add: doubled_is_def evaluate_word_value sha_maj_def Let_def)

lemma doubled_values_value:
  "list_all2 doubled_is ds vs \<Longrightarrow> those (map (doubled_evaluate C ctx) ds) = Some (map ucast vs)"
  by (induction rule: list_all2_induct) (simp_all add: doubled_is_def)

lemma honest_sum_doubled:
  assumes "reached s p" "list_all2 uint_is us vs" "list_all2 twice_is zs xs" "list_all2 doubled_is ds xs" "length us + length zs \<le> 7"
  shows "honest p (sum_trace 35 (vs @ xs)) (sum_doubled_32 C us zs ds s) (\<lambda>u. uint_is u (sum_list (vs @ xs)))"
proof -
  let ?n = "\<Sum>v\<leftarrow>vs @ xs. unat v"
  have "?n < 8 * 2 ^ 32" using assms(2,3,5) by (intro sum_unat_less) (auto dest!: list_all2_lengthD)
  then have n: "?n < 2 ^ 35" and "?n < 2 ^ 64" by simp_all
  then have n64: "unat (sum_list (map ucast (vs @ xs)) :: u64) = ?n" by (intro unat_sum_u64)
  obtain b where b: "pb_from_u64 35 1 (sum_list (map ucast (vs @ xs))) = Some b" "pb_holds 35 b (nat_bits 35 ?n)"
    using pb_from_u64_holds [of 35 "sum_list (map ucast (vs @ xs))"] div_ceil_one [of 35] unfolding word_bits_64 n64 by auto
  have h: "sum_doubled_hint C (map un_word us) ds ctx = Some (Inr b)"
    using evaluate_words_value [OF uint_words [OF assms(2)]] doubled_values_value [OF assms(4)] b(1)
    by (simp add: sum_doubled_hint_def Let_def)
  have e: "zrel (doubled_excess us zs w) 0" if "zrel (un_full w) (of_nat ?n)" for w :: "('z, 'w) uint_value"
    using doubled_excess_value [OF assms(2,3) that] by (simp add: algebra_simps)
  show ?thesis
    using honest_sum_end [where h = "sum_doubled_hint C (map un_word us) ds" and
        e = "doubled_excess us zs",
        OF assms(1) h b(2) _ _ n e] assms(5)
    by (simp add: sum_doubled_32_def Let_def doubled_excess_def)
qed

lemma honest_choice:
  assumes "reached s p" "uint_is x a" "uint_is y b" "uint_is z c"
  shows "honest p (traces [lift_trace (a XOR b), lift_trace (a XOR c)]) (choice_twice C x y z s) (\<lambda>t. twice_is t (sha_ch a b c))"
proof -
  have w: "word_is (un_word x) a" "word_is (un_word y) b" "word_is (un_word z) c" using assms by (simp_all add: uint_is_def)
  show ?thesis unfolding choice_twice_def traces_simps
    by (rule honest_silent [OF honest_word_xor [OF assms(1) w(1,2)]], rule honest_seq [OF honest_uint_32], assumption+,
        rule honest_silent [OF honest_word_xor [OF _ w(1,3)]], assumption, rule honest_seq [OF honest_uint_32], assumption+,
        rule honest_return, assumption, rule choice_value [OF assms(3,4)])
qed

lemma honest_majority:
  assumes "reached s p" "uint_is x a" "uint_is y b" "uint_is z c"
  shows "honest p (lift_trace (a XOR b XOR c)) (majority_twice C x y z s) (\<lambda>t. twice_is t (sha_maj a b c))"
proof -
  have w: "word_is (un_word x) a" "word_is (un_word y) b" "word_is (un_word z) c" using assms by (simp_all add: uint_is_def)
  have "honest p (trace_append (lift_trace (a XOR b XOR c)) ([], [])) (majority_twice C x y z s) (\<lambda>t. twice_is t (sha_maj a b c))"
    unfolding majority_twice_def
    by (rule honest_silent [OF honest_word_xor3 [OF assms(1) w]], rule honest_seq [OF honest_uint_32], assumption+,
        rule honest_return, assumption, rule majority_value [OF assms(2-4)])
  then show ?thesis by simp
qed

end

section \<open>Compression\<close>

context sha_honest
begin

lemma honest_schedule:
  "reached s p \<Longrightarrow> list_all2 uint_is us W \<Longrightarrow> is = [length W..<64] \<Longrightarrow> 16 \<le> length W \<Longrightarrow>
   honest p (schedule_traces W is) (schedule_loop C is us s) (\<lambda>us. list_all2 uint_is us (foldl (\<lambda>W i. W @ [schedule_word W i]) W is))"
proof (induction "is" arbitrary: us W s p)
  case Nil
  then show ?case by (simp add: honest_return)
next
  case (Cons i "is")
  have i: "i = length W" "is = [Suc i..<64]" using Cons.prems(3) [symmetric] by (auto simp: upt_eq_Cons_conv)
  have u: "uint_is (us ! j) (W ! j)" if "j < i" for j using list_all2_nthD2 [OF Cons.prems(2), of j] that i by simp
  have w: "word_is (un_word (us ! j)) (W ! j)" if "j < i" for j using u [OF that] by (simp add: uint_is_def)
  have v: "list_all2 uint_is [us ! (i - 16), x, us ! (i - 7), y] [W ! (i - 16), small_sigma_0 (W ! (i - 15)), W ! (i - 7), small_sigma_1 (W ! (i - 2))]"
    if "uint_is x (small_sigma_0 (W ! (i - 15)))" "uint_is y (small_sigma_1 (W ! (i - 2)))" for x y
    using that u Cons.prems(4) i(1) by simp
  have S: "honest p (sum_trace 34 [W ! (i - 16), small_sigma_0 (W ! (i - 15)), W ! (i - 7), small_sigma_1 (W ! (i - 2))])
      (sum_32 C 34 [us ! (i - 16), x, us ! (i - 7), y] s) (\<lambda>u. uint_is u (schedule_word W i))"
    if "reached s p" "uint_is x (small_sigma_0 (W ! (i - 15)))" "uint_is y (small_sigma_1 (W ! (i - 2)))" for s p x y
    by (rule honest_mono [OF honest_sum [OF that(1) v [OF that(2,3)]]]) (simp_all add: schedule_word_def ac_simps)
  have tr: "schedule_traces W (i # is) = trace_append (lift_trace (small_sigma_0 (W ! (i - 15)))) (trace_append (lift_trace (small_sigma_1 (W ! (i - 2))))
      (trace_append (sum_trace 34 [W ! (i - 16), small_sigma_0 (W ! (i - 15)), W ! (i - 7), small_sigma_1 (W ! (i - 2))])
        (schedule_traces (W @ [schedule_word W i]) is)))"
    by (simp add: schedule_trace_def trace_append_assoc)
  show ?case unfolding tr schedule_loop.simps foldl.simps
  proof (rule honest_seq)
    show "honest p (lift_trace (small_sigma_0 (W ! (i - 15)))) (small_sigma C 7 18 3 (un_word (us ! (i - 15))) s)
        (\<lambda>u. uint_is u (small_sigma_0 (W ! (i - 15))))"
      unfolding small_sigma_0_def using Cons.prems(4) i(1) by (intro honest_small_sigma Cons.prems(1) w) simp_all
    fix x s1 assume s1: "reached s1 (advance p (lift_trace (small_sigma_0 (W ! (i - 15)))))" and x: "uint_is x (small_sigma_0 (W ! (i - 15)))"
    let ?p1 = "advance p (lift_trace (small_sigma_0 (W ! (i - 15))))"
    show "honest ?p1 (trace_append (lift_trace (small_sigma_1 (W ! (i - 2))))
        (trace_append (sum_trace 34 [W ! (i - 16), small_sigma_0 (W ! (i - 15)), W ! (i - 7), small_sigma_1 (W ! (i - 2))])
          (schedule_traces (W @ [schedule_word W i]) is)))
        (small_sigma C 17 19 10 (un_word (us ! (i - 2))) s1 \<bind>
          (\<lambda>(sigma_1, s). sum_32 C 34 [us ! (i - 16), x, us ! (i - 7), sigma_1] s \<bind>
            (\<lambda>(new_word, s). schedule_loop C is (us @ [new_word]) s)))
        (\<lambda>us. list_all2 uint_is us (foldl (\<lambda>W i. W @ [schedule_word W i]) (W @ [schedule_word W i]) is))"
    proof (rule honest_seq)
      show "honest ?p1 (lift_trace (small_sigma_1 (W ! (i - 2)))) (small_sigma C 17 19 10 (un_word (us ! (i - 2))) s1)
          (\<lambda>u. uint_is u (small_sigma_1 (W ! (i - 2))))"
        unfolding small_sigma_1_def using Cons.prems(4) i(1) by (intro honest_small_sigma s1 w) simp_all
    qed (rule honest_seq [OF S [OF _ x]], assumption+, rule Cons.IH, use Cons.prems i in \<open>auto intro: list_all2_appendI\<close>)
  qed
qed

lemma round_trace_append:
  "trace_append (round_trace K W (a, b, c, d, e, f, g, h)) t = trace_append (lift_trace (big_sigma_1 e))
    (trace_append (traces [lift_trace (e XOR f), lift_trace (e XOR g)]) (trace_append (lift_trace (big_sigma_0 a))
      (trace_append (lift_trace (a XOR b XOR c)) (trace_append (sum_trace 35 ([d, h, big_sigma_1 e, K, W] @ [sha_ch e f g]))
        (trace_append (sum_trace 35 ([h, big_sigma_1 e, K, W, big_sigma_0 a] @ [sha_ch e f g, sha_maj a b c])) t)))))"
  by (simp add: trace_append_assoc)

lemma honest_round:
  assumes "reached s p" "working_is u st" "uint_is (us ! i) w"
  shows "honest p (round_trace (ROUND_CONSTANTS ! i) w st) (round_step C us i u s) (\<lambda>u. working_is u (sha_round (ROUND_CONSTANTS ! i) w st))"
proof -
  obtain a b c d e f g h where u: "u = (a, b, c, d, e, f, g, h)" by (metis surj_pair)
  obtain a' b' c' d' e' f' g' h' where st: "st = (a', b', c', d', e', f', g', h')" by (metis surj_pair)
  let ?K = "ROUND_CONSTANTS ! i"
  have r: "uint_is a a'" "uint_is b b'" "uint_is c c'" "uint_is d d'" "uint_is e e'" "uint_is f f'" "uint_is g g'" "uint_is h h'"
    using assms(2) unfolding u st working_is_tuple by auto
  have wr: "word_is (un_word a) a'" "word_is (un_word b) b'" "word_is (un_word c) c'" "word_is (un_word e) e'" "word_is (un_word f) f'" "word_is (un_word g) g'"
    using r by (simp_all add: uint_is_def)
  obtain k where k: "uint_constant C (ucast ?K) = Some k" "uint_is k ?K" using uint_constant_is by blast
  have ch: "doubled_is (Choice (un_word e) (un_word f) (un_word g)) (sha_ch e' f' g')"
    and maj: "doubled_is (Majority (un_word a) (un_word b) (un_word c)) (sha_maj a' b' c')"
    using wr by (simp_all add: doubled_is_choice doubled_is_majority)
  have S1: "honest p (lift_trace (big_sigma_1 e')) (big_sigma C 6 11 25 (un_word e) s) (\<lambda>u. uint_is u (big_sigma_1 e'))"
    if "reached s p" for s p unfolding big_sigma_1_def by (intro honest_big_sigma that wr) simp_all
  have S0: "honest p (lift_trace (big_sigma_0 a')) (big_sigma C 2 13 22 (un_word a) s) (\<lambda>u. uint_is u (big_sigma_0 a'))"
    if "reached s p" for s p unfolding big_sigma_0_def by (intro honest_big_sigma that wr) simp_all
  have E: "honest p (sum_trace 35 ([d', h', big_sigma_1 e', ?K, w] @ [sha_ch e' f' g']))
      (sum_doubled_32 C [d, h, x, k, us ! i] [t] [Choice (un_word e) (un_word f) (un_word g)] s)
      (\<lambda>u. uint_is u (sum_list ([d', h', big_sigma_1 e', ?K, w] @ [sha_ch e' f' g'])))"
    if "reached s p" "uint_is x (big_sigma_1 e')" "twice_is t (sha_ch e' f' g')" for s p x t
    using that r k ch assms(3) by (intro honest_sum_doubled) simp_all
  have A: "honest p (sum_trace 35 ([h', big_sigma_1 e', ?K, w, big_sigma_0 a'] @ [sha_ch e' f' g', sha_maj a' b' c']))
      (sum_doubled_32 C [h, x, k, us ! i, y] [t, m]
        [Choice (un_word e) (un_word f) (un_word g), Majority (un_word a) (un_word b) (un_word c)] s)
      (\<lambda>u. uint_is u (sum_list ([h', big_sigma_1 e', ?K, w, big_sigma_0 a'] @ [sha_ch e' f' g', sha_maj a' b' c'])))"
    if "reached s p" "uint_is x (big_sigma_1 e')" "uint_is y (big_sigma_0 a')" "twice_is t (sha_ch e' f' g')" "twice_is m (sha_maj a' b' c')" for s p x y t m
    using that r k ch maj assms(3) by (intro honest_sum_doubled) simp_all
  have res: "sha_round ?K w st = (sum_list ([h', big_sigma_1 e', ?K, w, big_sigma_0 a'] @ [sha_ch e' f' g', sha_maj a' b' c']), a', b', c',
      sum_list ([d', h', big_sigma_1 e', ?K, w] @ [sha_ch e' f' g']), e', f', g')"
    by (simp add: st Let_def algebra_simps)
  have "honest p (trace_append (round_trace ?K w (a', b', c', d', e', f', g', h')) ([], [])) (round_step C us i u s) (\<lambda>u. working_is u (sha_round ?K w st))"
    unfolding round_trace_append round_step_def u prod.case k(1) bind.bind_lunit
    by (rule honest_seq [OF S1], rule assms(1), rule honest_seq [OF honest_choice [OF _ r(5-7)]], assumption,
        rule honest_seq [OF S0], assumption, rule honest_seq [OF honest_majority [OF _ r(1-3)]], assumption,
        rule honest_seq [OF E], assumption+, rule honest_seq [OF A], assumption+,
        rule honest_return, assumption, unfold res working_is_tuple, intro conjI r, assumption+)
  then show ?thesis by (simp add: st)
qed

lemma honest_rounds:
  "reached s p \<Longrightarrow> working_is u st \<Longrightarrow> list_all2 uint_is us W \<Longrightarrow> set is \<subseteq> {..<length W} \<Longrightarrow>
   honest p (round_traces W st is) (round_loop C us is u s) (\<lambda>u. working_is u (foldl (\<lambda>st i. sha_round (ROUND_CONSTANTS ! i) (W ! i) st) st is))"
proof (induction "is" arbitrary: u st s p)
  case Nil
  then show ?case by (simp add: honest_return)
next
  case (Cons i "is")
  have w: "uint_is (us ! i) (W ! i)" using list_all2_nthD2 [OF Cons.prems(3), of i] Cons.prems(4) by simp
  show ?case unfolding round_traces.simps round_loop.simps foldl.simps
    by (rule honest_seq [OF honest_round [where w = "W ! i", OF Cons.prems(1,2) w]], rule Cons.IH) (use Cons.prems in simp_all)
qed

lemma honest_map:
  assumes "\<And>s p x v. reached s p \<Longrightarrow> R x v \<Longrightarrow> honest p (tr v) (f x s) (\<lambda>y. Q y v)"
  shows "reached s p \<Longrightarrow> list_all2 R xs vs \<Longrightarrow> honest p (traces (map tr vs)) (map_circuit f xs s) (\<lambda>ys. list_all2 Q ys vs)"
proof (induction xs arbitrary: vs s p)
  case Nil
  then show ?case by (simp add: honest_return)
next
  case (Cons x xs)
  obtain v us where vs: "vs = v # us" "R x v" "list_all2 R xs us" using Cons.prems(2) by (auto simp: list_all2_Cons1)
  have "honest p (trace_append (tr v) (trace_append (traces (map tr us)) ([], []))) (map_circuit f (x # xs) s) (\<lambda>ys. list_all2 Q ys vs)"
    unfolding map_circuit.simps vs(1)
    by (rule honest_seq [OF assms], rule Cons.prems, rule vs(2), rule honest_seq [OF Cons.IH], assumption, rule vs(3),
        rule honest_return, assumption, simp)
  then show ?case by (simp add: vs(1))
qed

lemma honest_compress:
  assumes "reached s p" "list_all2 word_is block M" "list_all2 word_is state H" "length M = 16" "length H = 8"
  shows "honest p (compress_trace M H) (compress C block state s) (\<lambda>us. list_all2 uint_is us (sha_compress ROUND_CONSTANTS M H))"
proof -
  let ?st = "state_to_words (sha_rounds ROUND_CONSTANTS (sha_schedule M) (words_to_state H))"
  have last: "honest p (traces (map (\<lambda>i. sum_trace 33 [H ! i, ?st ! i]) [0..<8]))
      (map_circuit (\<lambda>i. sum_32 C 33 [hs ! i, of_working ws ! i]) [0..<8] s) (\<lambda>us. list_all2 uint_is us (sha_compress ROUND_CONSTANTS M H))"
    if "reached s p" "list_all2 uint_is hs H" "working_is ws (sha_rounds ROUND_CONSTANTS (sha_schedule M) (words_to_state H))" for s p hs ws
  proof (rule honest_mono [OF honest_map [where R = "\<lambda>i j. i = j \<and> i < 8" and Q = "\<lambda>u i. uint_is u (sum_list [H ! i, ?st ! i])"]])
    show "honest p (sum_trace 33 [H ! j, ?st ! j]) (sum_32 C 33 [hs ! i, of_working ws ! i] s) (\<lambda>u. uint_is u (sum_list [H ! j, ?st ! j]))"
      if "reached s p" "i = j \<and> i < 8" for s p i j
      using that list_all2_nthD2 [OF \<open>list_all2 uint_is hs H\<close>, of i] list_all2_nthD2 [of uint_is "of_working ws" ?st i]
        \<open>working_is ws _\<close> assms(5)
      by (intro honest_sum) (auto simp: working_is_def)
    show "reached s p" "list_all2 (\<lambda>i j. i = j \<and> i < 8) [0..<8] [0..<8]" using that by (simp_all add: list_all2_same)
    show "list_all2 uint_is us (sha_compress ROUND_CONSTANTS M H)"
      if "list_all2 (\<lambda>u i. uint_is u (sum_list [H ! i, ?st ! i])) us [0..<8]" for us
      using that unfolding sha_compress_map [OF assms(5)] by (simp add: list_all2_map2)
  qed
  have lift: "honest p (lift_trace v) (uint_from_word C 32 w s) (\<lambda>u. uint_is u v)" if "reached s p" "word_is w v" for s p w v
    using that by (rule honest_uint_32)
  have tr: "compress_trace M H = trace_append (traces (map lift_trace H)) (trace_append (traces (map lift_trace M)) (trace_append (schedule_traces M [16..<64])
      (trace_append (round_traces (sha_schedule M) (words_to_state H) [0..<64]) (traces (map (\<lambda>i. sum_trace 33 [H ! i, ?st ! i]) [0..<8])))))"
    unfolding compress_trace_def traces_simps trace_append_unit ..
  have schedule: "honest p (schedule_traces M [16..<64]) (schedule_loop C [16..<64] us s) (\<lambda>us. list_all2 uint_is us (sha_schedule M))"
    if "reached s p" "list_all2 uint_is us M" for s p us
    unfolding sha_schedule_def using that by (intro honest_schedule) (simp_all only: assms(4) order_refl)
  show ?thesis unfolding tr compress_def
  proof (rule honest_seq [OF honest_map [OF lift assms(1,3)]])
    fix hs s1 assume s1: "reached s1 (advance p (traces (map lift_trace H)))" and hs: "list_all2 uint_is hs H"
    have rounds: "honest p (round_traces (sha_schedule M) (words_to_state H) [0..<64]) (round_loop C us [0..<64] (to_working hs) s)
        (\<lambda>u. working_is u (sha_rounds ROUND_CONSTANTS (sha_schedule M) (words_to_state H)))"
      if "reached s p" "list_all2 uint_is us (sha_schedule M)" for s p us
      unfolding sha_rounds_def using that working_of_state [OF hs assms(5)]
      by (intro honest_rounds) (auto simp: length_sha_schedule assms(4))
    show "honest (advance p (traces (map lift_trace H))) (trace_append (traces (map lift_trace M)) (trace_append (schedule_traces M [16..<64])
      (trace_append (round_traces (sha_schedule M) (words_to_state H) [0..<64]) (traces (map (\<lambda>i. sum_trace 33 [H ! i, ?st ! i]) [0..<8])))))
      (map_circuit (uint_from_word C 32) block s1 \<bind> (\<lambda>(schedule, s). schedule_loop C [16..<64] schedule s \<bind>
        (\<lambda>(schedule, s). round_loop C schedule [0..<64] (to_working hs) s \<bind>
          (\<lambda>(working, s). map_circuit (\<lambda>i. sum_32 C 33 [hs ! i, of_working working ! i]) [0..<8] s))))
      (\<lambda>us. list_all2 uint_is us (sha_compress ROUND_CONSTANTS M H))"
      by (rule honest_seq [OF honest_map [OF lift s1 assms(2)]], assumption+, rule honest_seq [OF schedule], assumption+,
          rule honest_seq [OF rounds], assumption+, rule last [OF _ hs], assumption+)
  qed
qed

end

end
