(* ===== verification/Circuit_Sha256_Sound.thy ===== *)
theory Circuit_Sha256_Sound
  imports Circuit_Sha256_Words
begin

text \<open>
  The constraints of the SHA-256 circuits are sound: over any backend that keeps the sound contract, hints
  may have been answered with any bits, and still every word of a run whose constraints hold is the one
  FIPS 180-4 defines.
\<close>

locale sha_sound = sha_words C holds brel zrel crel + circuit_sound C SHA256_Z_LIMBS holds brel zrel crel ok
  for C :: "('b, 'w, 'z, 'c, 's) circuit_ops" and holds :: "nat \<Rightarrow> 'w \<Rightarrow> bool list \<Rightarrow> bool" and brel :: "'b \<Rightarrow> bool \<Rightarrow> bool"
    and zrel :: "'z \<Rightarrow> 'v::comm_ring_1 \<Rightarrow> bool" and crel :: "'c \<Rightarrow> 'v \<Rightarrow> bool" and ok :: "'s \<Rightarrow> bool"
begin

lemma sound_seq:
  assumes "sound_run ok P s r Q" "\<And>x s'. sound_run ok (P \<and> Q x) s' (k x s') R"
  shows "sound_run ok P s (Option.bind r (\<lambda>(x, s). k x s)) R"
  using sound_bind [of ok P s r Q "\<lambda>(x, s). k x s" R] assms by simp

lemma sound_word_xor: "sound_run ok (word_is x a \<and> word_is y b) s (word_xor C x y s) (\<lambda>w. word_is w (a XOR b))"
  using xor_sound [of 32 x "u32_bits a" y "u32_bits b" s 1] unfolding word_xor_def word_is_def u32_bits_xor .

lemma sound_word_xor3:
  "sound_run ok (word_is x a \<and> word_is y b \<and> word_is z c) s (word_xor3 C x y z s) (\<lambda>w. word_is w (a XOR b XOR c))"
  unfolding word_xor3_def
  by (rule sound_seq [OF sound_weaken [OF sound_word_xor [of x a y b]]], simp,
      rule sound_mono [OF sound_weaken [OF sound_word_xor [of _ "a XOR b" z c]]], simp_all add: xor.assoc)

lemma sound_uint:
  "sound_run ok (holds N w bs) s (uint_from_word C N w s)
    (\<lambda>u. un_word u = w \<and> zrel (un_full u) (of_nat (bits_val bs)) \<and> zrel (un_low_32 u) (of_nat (bits_val (take 32 bs))))"
  unfolding uint_from_word_def
  by (rule sound_seq [OF lift_sound [of N w bs]]) (auto split: prod.split intro!: sound_return)

lemma sound_uint_32: "sound_run ok (word_is w v) s (uint_from_word C 32 w s) (\<lambda>u. uint_is u v)"
  by (rule sound_mono [OF sound_weaken [OF sound_uint [of 32 w "u32_bits v"]]]) (auto simp: word_is_def uint_is_def)

lemma sound_small_sigma:
  assumes "0 < k" "k < 32" "0 < l" "l < 32"
  shows "sound_run ok (word_is w v) s (small_sigma C k l m w s) (\<lambda>u. uint_is u (rotr k v XOR rotr l v XOR drop_bit m v))"
  unfolding small_sigma_def
  by (rule sound_pure [where Q = "\<lambda>x. word_is x (rotr k v)"], rule sound_pure [where Q = "\<lambda>x. word_is x (rotr l v)"],
      rule sound_pure [where Q = "\<lambda>x. word_is x (drop_bit m v)"],
      rule sound_seq [OF sound_weaken [OF sound_word_xor3]], fast, rule sound_weaken [OF sound_uint_32], fast)
    (use assms word_rotate word_shift in auto)

lemma sound_big_sigma:
  assumes "0 < k" "k < 32" "0 < l" "l < 32" "0 < m" "m < 32"
  shows "sound_run ok (word_is w v) s (big_sigma C k l m w s) (\<lambda>u. uint_is u (rotr k v XOR rotr l v XOR rotr m v))"
  unfolding big_sigma_def
  by (rule sound_pure [where Q = "\<lambda>x. word_is x (rotr k v)"], rule sound_pure [where Q = "\<lambda>x. word_is x (rotr l v)"],
      rule sound_pure [where Q = "\<lambda>x. word_is x (rotr m v)"],
      rule sound_seq [OF sound_weaken [OF sound_word_xor3]], fast, rule sound_weaken [OF sound_uint_32], fast)
    (use assms word_rotate in auto)

text \<open>The common end of the two sums.\<close>

lemma sound_sum_end:
  assumes "32 \<le> N" "N < 39"
    "\<And>w u. P \<Longrightarrow> zrel (un_full w) u \<Longrightarrow> \<exists>c. zrel (e w) (of_nat (c * (\<Sum>v\<leftarrow>vs. unat v)) - u * of_nat c) \<and> (c = 1 \<or> c = 2)"
    "P \<Longrightarrow> (\<Sum>v\<leftarrow>vs. unat v) < 2 ^ N"
  shows "sound_run ok P s
    (do {
       (bs, s) \<leftarrow> op_hint C N M h s;
       (wide, s) \<leftarrow> uint_from_word C N bs s;
       let s = assert_zero C (e wide) s;
       let low_32 = un_low_32 wide;
       word \<leftarrow> low_word C N (un_word wide);
       Some (\<lparr>un_word = word, un_full = low_32, un_low_32 = low_32\<rparr>, s)
     }) (\<lambda>u. uint_is u (sum_list vs))"
  unfolding Let_def
proof (rule sound_seq [OF sound_weaken [OF hint_sound]], rule TrueI)
  let ?n = "\<Sum>v\<leftarrow>vs. unat v"
  fix w s1
  show "sound_run ok (P \<and> (\<exists>bs. holds N w bs)) s1
      (uint_from_word C N w s1 \<bind> (\<lambda>(wide, s). low_word C N (un_word wide) \<bind>
        (\<lambda>word. Some (\<lparr>un_word = word, un_full = un_low_32 wide, un_low_32 = un_low_32 wide\<rparr>, assert_zero C (e wide) s))))
      (\<lambda>u. uint_is u (sum_list vs))"
    unfolding sound_run_def
  proof (intro allI impI)
    fix x s' assume r: "uint_from_word C N w s1 \<bind> (\<lambda>(wide, s). low_word C N (un_word wide) \<bind>
        (\<lambda>word. Some (\<lparr>un_word = word, un_full = un_low_32 wide, un_low_32 = un_low_32 wide\<rparr>, assert_zero C (e wide) s))) = Some (x, s')"
      and ok: "ok s'"
    obtain u s2 word where u: "uint_from_word C N w s1 = Some (u, s2)" and word: "low_word C N (un_word u) = Some word"
        and x: "x = \<lparr>un_word = word, un_full = un_low_32 u, un_low_32 = un_low_32 u\<rparr>" and s': "s' = assert_zero C (e u) s2"
      using r by (auto simp: Option.bind_eq_Some_conv)
    have s2: "ok s2" using assert_sound [of _ _ _ s2] ok unfolding s' assert_zero_def by blast
    have s1: "ok s1" using sound_uint [of N w _ s1] u s2 unfolding sound_run_def by blast
    show "ok s1 \<and> (P \<and> (\<exists>bs. holds N w bs) \<longrightarrow> uint_is x (sum_list vs))"
    proof (intro conjI s1 impI)
      assume P: "P \<and> (\<exists>bs. holds N w bs)"
      then obtain bs where bs: "holds N w bs" by blast
      have f: "un_word u = w" "zrel (un_full u) (of_nat (bits_val bs))" "zrel (un_low_32 u) (of_nat (bits_val (take 32 bs)))"
        using sound_uint [of N w bs s1] u s2 bs unfolding sound_run_def by blast+
      obtain c where c: "zrel (e u) (of_nat (c * ?n) - of_nat (bits_val bs) * of_nat c)" "c = 1 \<or> c = 2"
        using assms(3) [OF _ f(2)] P by blast
      have "(of_nat (c * ?n) - of_nat (bits_val bs) * of_nat c :: 'v) = 0"
        using assert_sound [of _ _ "e u" s2] ok c(1) z_zero unfolding s' assert_zero_def by fastforce
      then have eq: "(of_nat (c * ?n) :: 'v) = of_nat (c * bits_val bs)" by (simp add: mult.commute)
      have N: "(2 :: nat) ^ N \<le> 2 ^ 38" using assms(2) by (intro power_increasing) simp_all
      have "bits_val bs < 2 ^ N" using bits_val_less [of bs] holds_length [OF bs] by simp
      then have "c * ?n < 2 ^ 40" "c * bits_val bs < 2 ^ 40" using assms(4) P c(2) N by auto
      from small_numbers [OF s2 this eq] have n: "bits_val bs = ?n" using c(2) by auto
      have low: "take 32 bs = u32_bits (sum_list vs)" using assms(1) holds_length [OF bs] by (intro sum_low_32 n) simp
      from low_word_is [OF bs assms(1) low] word f show "uint_is x (sum_list vs)" by (auto simp: uint_is_def x low)
    qed
  qed
qed

lemma sound_sum:
  assumes "32 \<le> N" "N < 39"
  shows "sound_run ok (list_all2 uint_is us vs) s (sum_32 C N us s) (\<lambda>u. uint_is u (sum_list vs))"
proof (cases "length us \<le> 2 ^ (N - 32)")
  case True
  have n: "(\<Sum>v\<leftarrow>vs. unat v) < 2 ^ N" if "list_all2 uint_is us vs"
  proof -
    have "(\<Sum>v\<leftarrow>vs. unat v) < 2 ^ (N - 32) * 2 ^ 32"
      using True list_all2_lengthD [OF that] by (intro sum_unat_less) auto
    also have "\<dots> = 2 ^ N" using assms(1) by (simp only: power_add [symmetric] le_add_diff_inverse2)
    finally show ?thesis .
  qed
  have "\<exists>c. zrel (sum_excess us w) (of_nat (c * (\<Sum>v\<leftarrow>vs. unat v)) - u * of_nat c) \<and> (c = 1 \<or> c = 2)"
    if "list_all2 uint_is us vs" "zrel (un_full w) u" for w :: "('z, 'w) uint_value" and u
    using sum_excess_value [OF that] by (intro exI [of _ 1]) simp
  from sound_sum_end [OF assms this n] True assms show ?thesis by (simp add: sum_32_def sum_excess_def)
qed (simp add: sum_32_def sound_run_def)

lemma sound_sum_doubled:
  "sound_run ok (list_all2 uint_is us vs \<and> list_all2 twice_is zs xs) s (sum_doubled_32 C us zs ds s) (\<lambda>u. uint_is u (sum_list (vs @ xs)))"
proof (cases "length us + length zs \<le> 7")
  case True
  let ?P = "list_all2 uint_is us vs \<and> list_all2 twice_is zs xs"
  have n: "(\<Sum>v\<leftarrow>vs @ xs. unat v) < 2 ^ 35" if ?P
  proof -
    have "(\<Sum>v\<leftarrow>vs @ xs. unat v) < 8 * 2 ^ 32" using that True by (intro sum_unat_less) (auto dest!: list_all2_lengthD)
    then show ?thesis by simp
  qed
  have "\<exists>c. zrel (doubled_excess us zs w) (of_nat (c * (\<Sum>v\<leftarrow>vs @ xs. unat v)) - u * of_nat c) \<and> (c = 1 \<or> c = 2)"
    if ?P "zrel (un_full w) u" for w :: "('z, 'w) uint_value" and u
    using doubled_excess_value [of us vs zs xs w u] that by (intro exI [of _ 2]) (simp del: sum_list_append map_append)
  from sound_sum_end [of 35 ?P, OF _ _ this n] True show ?thesis by (simp add: sum_doubled_32_def Let_def doubled_excess_def)
qed (simp add: sum_doubled_32_def sound_run_def)

lemma sound_choice:
  "sound_run ok (uint_is x a \<and> uint_is y b \<and> uint_is z c) s (choice_twice C x y z s) (\<lambda>t. twice_is t (sha_ch a b c))"
  unfolding choice_twice_def
  by (rule sound_seq [OF sound_weaken [OF sound_word_xor [of _ a _ b]]], simp add: uint_is_def,
      rule sound_seq [OF sound_weaken [OF sound_uint_32 [of _ "a XOR b"]]], simp,
      rule sound_seq [OF sound_weaken [OF sound_word_xor [of _ a _ c]]], simp add: uint_is_def,
      rule sound_seq [OF sound_weaken [OF sound_uint_32 [of _ "a XOR c"]]], simp,
      rule sound_return, rule choice_value) simp_all

lemma sound_majority:
  "sound_run ok (uint_is x a \<and> uint_is y b \<and> uint_is z c) s (majority_twice C x y z s) (\<lambda>t. twice_is t (sha_maj a b c))"
  unfolding majority_twice_def
  by (rule sound_seq [OF sound_weaken [OF sound_word_xor3 [of _ a _ b _ c]]], simp add: uint_is_def,
      rule sound_seq [OF sound_weaken [OF sound_uint_32 [of _ "a XOR b XOR c"]]], simp,
      rule sound_return, rule majority_value) simp_all

end

section \<open>Compression\<close>

context sha_sound
begin

lemma sound_schedule:
  "is = [length W..<64] \<Longrightarrow> 16 \<le> length W \<Longrightarrow>
   sound_run ok (list_all2 uint_is us W) s (schedule_loop C is us s) (\<lambda>us. list_all2 uint_is us (foldl (\<lambda>W i. W @ [schedule_word W i]) W is))"
proof (induction "is" arbitrary: us W s)
  case Nil
  then show ?case by (simp add: sound_return)
next
  case (Cons i "is")
  have i: "i = length W" "is = [Suc i..<64]" using Cons.prems(1) [symmetric] by (auto simp: upt_eq_Cons_conv)
  let ?P = "list_all2 uint_is us W"
  have u: "uint_is (us ! j) (W ! j)" if ?P "j < i" for j using list_all2_nthD2 [OF that(1), of j] that(2) i by simp
  have S0: "sound_run ok ?P s (small_sigma C 7 18 3 (un_word (us ! (i - 15))) s) (\<lambda>u. uint_is u (small_sigma_0 (W ! (i - 15))))" for s
    unfolding small_sigma_0_def using u [of "i - 15"] Cons.prems(2) i(1)
    by (intro sound_weaken [OF sound_small_sigma]) (auto simp: uint_is_def)
  have S1: "sound_run ok ?P s (small_sigma C 17 19 10 (un_word (us ! (i - 2))) s) (\<lambda>u. uint_is u (small_sigma_1 (W ! (i - 2))))" for s
    unfolding small_sigma_1_def using u [of "i - 2"] Cons.prems(2) i(1)
    by (intro sound_weaken [OF sound_small_sigma]) (auto simp: uint_is_def)
  have S: "sound_run ok ((?P \<and> uint_is x (small_sigma_0 (W ! (i - 15)))) \<and> uint_is y (small_sigma_1 (W ! (i - 2)))) s
      (sum_32 C 34 [us ! (i - 16), x, us ! (i - 7), y] s) (\<lambda>u. uint_is u (schedule_word W i))" for s x y
    by (rule sound_mono [OF sound_weaken [OF sound_sum [of 34 _ "[W ! (i - 16), small_sigma_0 (W ! (i - 15)), W ! (i - 7), small_sigma_1 (W ! (i - 2))]"]]])
      (use u Cons.prems(2) i(1) in \<open>simp_all add: schedule_word_def ac_simps\<close>)
  have rest: "sound_run ok (list_all2 uint_is us' (W @ [schedule_word W i])) s (schedule_loop C is us' s)
      (\<lambda>us. list_all2 uint_is us (foldl (\<lambda>W i. W @ [schedule_word W i]) (W @ [schedule_word W i]) is))" for us' s
    by (rule Cons.IH) (use Cons.prems(2) i in simp_all)
  show ?case unfolding schedule_loop.simps foldl.simps
    by (rule sound_seq [OF S0], rule sound_seq [OF sound_weaken [OF S1]], simp, rule sound_seq [OF S], rule sound_weaken [OF rest])
      (auto intro: list_all2_appendI)
qed

lemma sound_round:
  "sound_run ok (working_is u st \<and> uint_is (us ! i) w) s (round_step C us i u s) (\<lambda>u. working_is u (sha_round (ROUND_CONSTANTS ! i) w st))"
proof -
  obtain a b c d e f g h where u: "u = (a, b, c, d, e, f, g, h)" by (metis surj_pair)
  obtain a' b' c' d' e' f' g' h' where st: "st = (a', b', c', d', e', f', g', h')" by (metis surj_pair)
  let ?K = "ROUND_CONSTANTS ! i"
  obtain k where k: "uint_constant C (ucast ?K) = Some k" "uint_is k ?K" using uint_constant_is by blast
  let ?P = "working_is u st \<and> uint_is (us ! i) w"
  have r: "uint_is a a'" "uint_is b b'" "uint_is c c'" "uint_is d d'" "uint_is e e'" "uint_is f f'" "uint_is g g'" "uint_is h h'"
    if ?P using that unfolding u st working_is_tuple by auto
  have S1: "sound_run ok ?P s (big_sigma C 6 11 25 (un_word e) s) (\<lambda>u. uint_is u (big_sigma_1 e'))" for s
    unfolding big_sigma_1_def using r by (intro sound_weaken [OF sound_big_sigma]) (auto simp: uint_is_def)
  have S0: "sound_run ok ?P s (big_sigma C 2 13 22 (un_word a) s) (\<lambda>u. uint_is u (big_sigma_0 a'))" for s
    unfolding big_sigma_0_def using r by (intro sound_weaken [OF sound_big_sigma]) (auto simp: uint_is_def)
  have ch: "sound_run ok ?P s (choice_twice C e f g s) (\<lambda>t. twice_is t (sha_ch e' f' g'))" for s
    using r by (intro sound_weaken [OF sound_choice]) simp_all
  have maj: "sound_run ok ?P s (majority_twice C a b c s) (\<lambda>t. twice_is t (sha_maj a' b' c'))" for s
    using r by (intro sound_weaken [OF sound_majority]) simp_all
  have E: "sound_run ok (?P \<and> uint_is x (big_sigma_1 e') \<and> twice_is t (sha_ch e' f' g')) s
      (sum_doubled_32 C [d, h, x, k, us ! i] [t] ds s)
      (\<lambda>u. uint_is u (sum_list ([d', h', big_sigma_1 e', ?K, w] @ [sha_ch e' f' g'])))" for s x t ds
    using r k by (intro sound_weaken [OF sound_sum_doubled]) simp_all
  have A: "sound_run ok (?P \<and> uint_is x (big_sigma_1 e') \<and> uint_is y (big_sigma_0 a') \<and> twice_is t (sha_ch e' f' g') \<and> twice_is m (sha_maj a' b' c')) s
      (sum_doubled_32 C [h, x, k, us ! i, y] [t, m] ds s)
      (\<lambda>u. uint_is u (sum_list ([h', big_sigma_1 e', ?K, w, big_sigma_0 a'] @ [sha_ch e' f' g', sha_maj a' b' c'])))" for s x y t m ds
    using r k by (intro sound_weaken [OF sound_sum_doubled]) simp_all
  have res: "sha_round ?K w st = (sum_list ([h', big_sigma_1 e', ?K, w, big_sigma_0 a'] @ [sha_ch e' f' g', sha_maj a' b' c']), a', b', c',
      sum_list ([d', h', big_sigma_1 e', ?K, w] @ [sha_ch e' f' g']), e', f', g')"
    by (simp add: st Let_def algebra_simps)
  have step: "round_step C us i u s = big_sigma C 6 11 25 (un_word e) s \<bind> (\<lambda>(big_sigma_1, s). choice_twice C e f g s \<bind> (\<lambda>(choice, s).
      big_sigma C 2 13 22 (un_word a) s \<bind> (\<lambda>(big_sigma_0, s). majority_twice C a b c s \<bind> (\<lambda>(majority, s).
      sum_doubled_32 C [d, h, big_sigma_1, k, us ! i] [choice] [Choice (un_word e) (un_word f) (un_word g)] s \<bind> (\<lambda>(new_e, s).
      sum_doubled_32 C [h, big_sigma_1, k, us ! i, big_sigma_0] [choice, majority]
        [Choice (un_word e) (un_word f) (un_word g), Majority (un_word a) (un_word b) (un_word c)] s \<bind> (\<lambda>(new_a, s).
      Some ((new_a, a, b, c, new_e, e, f, g), s)))))))"
    unfolding round_step_def u prod.case k(1) bind.bind_lunit ..
  show ?thesis unfolding step
    by (rule sound_seq [OF S1], rule sound_seq [OF sound_weaken [OF ch]], fast, rule sound_seq [OF sound_weaken [OF S0]], fast,
        rule sound_seq [OF sound_weaken [OF maj]], fast, rule sound_seq [OF sound_weaken [OF E]], fast,
        rule sound_seq [OF sound_weaken [OF A]], fast, rule sound_return, unfold res working_is_tuple)
      (use r in fast)
qed

lemma sound_rounds:
  "set is \<subseteq> {..<length W} \<Longrightarrow>
   sound_run ok (working_is u st \<and> list_all2 uint_is us W) s (round_loop C us is u s)
     (\<lambda>u. working_is u (foldl (\<lambda>st i. sha_round (ROUND_CONSTANTS ! i) (W ! i) st) st is))"
proof (induction "is" arbitrary: u st s)
  case Nil
  then show ?case by (simp add: sound_return)
next
  case (Cons i "is")
  have w: "uint_is (us ! i) (W ! i)" if "list_all2 uint_is us W" using list_all2_nthD2 [OF that, of i] Cons.prems by simp
  show ?case unfolding round_loop.simps foldl.simps
    by (rule sound_seq [OF sound_weaken [OF sound_round [of u st us i "W ! i"]]], use w in fast, rule sound_weaken [OF Cons.IH])
      (use Cons.prems in auto)
qed

lemma sound_map:
  assumes "\<And>s x v. sound_run ok (P \<and> R x v) s (f x s) (\<lambda>y. Q y v)"
  shows "sound_run ok (P \<and> list_all2 R xs vs) s (map_circuit f xs s) (\<lambda>ys. list_all2 Q ys vs)"
proof (induction xs arbitrary: vs s)
  case Nil
  then show ?case by (simp add: sound_return)
next
  case (Cons x xs)
  show ?case
  proof (cases vs)
    case Nil
    show ?thesis unfolding map_circuit.simps
      by (rule sound_seq [OF sound_weaken [OF assms]], simp add: Nil, rule sound_seq [OF sound_weaken [OF Cons.IH [of "[]"]]],
          simp add: Nil, rule sound_return, simp add: Nil)
  next
    case (Cons v us)
    show ?thesis unfolding map_circuit.simps
      by (rule sound_seq [OF sound_weaken [OF assms [of x v]]], simp add: Cons, rule sound_seq [OF sound_weaken [OF Cons.IH [of us]]],
          simp add: Cons, rule sound_return, simp add: Cons)
  qed
qed

lemma sound_compress:
  assumes "length M = 16" "length H = 8"
  shows "sound_run ok (list_all2 word_is block M \<and> list_all2 word_is state H) s (compress C block state s)
    (\<lambda>us. list_all2 uint_is us (sha_compress ROUND_CONSTANTS M H))"
proof -
  let ?r = "sha_rounds ROUND_CONSTANTS (sha_schedule M) (words_to_state H)" and ?st = "state_to_words (sha_rounds ROUND_CONSTANTS (sha_schedule M) (words_to_state H))"
  have lift: "sound_run ok (True \<and> list_all2 word_is ws vs) s (map_circuit (uint_from_word C 32) ws s) (\<lambda>us. list_all2 uint_is us vs)" for ws vs s
    by (rule sound_map [OF sound_weaken [OF sound_uint_32]]) simp
  have schedule: "sound_run ok (list_all2 uint_is us M) s (schedule_loop C [16..<64] us s) (\<lambda>us. list_all2 uint_is us (sha_schedule M))" for us s
    unfolding sha_schedule_def by (intro sound_schedule) (simp_all only: assms(1) order_refl)
  have rounds: "sound_run ok (list_all2 uint_is hs H \<and> list_all2 uint_is us (sha_schedule M)) s (round_loop C us [0..<64] (to_working hs) s)
      (\<lambda>u. working_is u ?r)" for hs us s
    unfolding sha_rounds_def
    by (rule sound_weaken [OF sound_rounds]) (use working_of_state [OF _ assms(2)] in \<open>auto simp: length_sha_schedule assms(1)\<close>)
  have last: "sound_run ok (list_all2 uint_is hs H \<and> working_is ws ?r) s (map_circuit (\<lambda>i. sum_32 C 33 [hs ! i, of_working ws ! i]) [0..<8] s)
      (\<lambda>us. list_all2 uint_is us (sha_compress ROUND_CONSTANTS M H))" for hs ws s
  proof (rule sound_mono [OF sound_weaken [OF sound_map [where R = "\<lambda>i j. i = j \<and> j < 8" and vs = "[0..<8]" and Q = "\<lambda>u i. uint_is u (sum_list [H ! i, ?st ! i])"]]])
    show "sound_run ok ((list_all2 uint_is hs H \<and> working_is ws ?r) \<and> i = j \<and> j < 8) s (sum_32 C 33 [hs ! i, of_working ws ! i] s)
        (\<lambda>u. uint_is u (sum_list [H ! j, ?st ! j]))" for s i j
    proof (rule sound_weaken [OF sound_sum])
      assume a: "(list_all2 uint_is hs H \<and> working_is ws ?r) \<and> i = j \<and> j < 8"
      with list_all2_nthD2 [of uint_is hs H j] list_all2_nthD2 [of uint_is "of_working ws" ?st j] assms(2)
      show "list_all2 uint_is [hs ! i, of_working ws ! i] [H ! j, ?st ! j]" by (simp add: working_is_def)
    qed simp_all
    show "list_all2 uint_is us (sha_compress ROUND_CONSTANTS M H)"
      if "list_all2 (\<lambda>u i. uint_is u (sum_list [H ! i, ?st ! i])) us [0..<8]" for us
      using that unfolding sha_compress_map [OF assms(2)] by (simp add: list_all2_map2)
  qed (simp add: list_all2_same)
  show ?thesis unfolding compress_def
    by (rule sound_seq [OF sound_weaken [OF lift [of state H]]], fast,
        rule sound_seq [OF sound_weaken [OF lift [of block M]]], fast,
        rule sound_seq [OF sound_weaken [OF schedule]], fast, rule sound_seq [OF sound_weaken [OF rounds]], fast, rule sound_weaken [OF last], fast)
qed

end

end
