(* ===== verification/Circuit_Sha256_Message.thy ===== *)
theory Circuit_Sha256_Message
  imports Circuit_Sha256_Honest Circuit_Sha256_Sound
begin

text \<open>
  Whole block-aligned messages: the bits the circuits read and return, the padding block, and the two
  contracts carried through the loop over the blocks.
\<close>

section \<open>Big-endian bits\<close>

lemma be_word_value: "length bs \<le> 32 \<Longrightarrow> unat (be_word bs) = bits_val (rev bs)"
proof (induction bs rule: rev_induct)
  case (snoc b bs)
  let ?w = "be_word bs"
  have w: "unat ?w = bits_val (rev bs)" using snoc by simp
  have "bits_val (rev bs) < 2 ^ length bs" using bits_val_less [of "rev bs"] by simp
  also have "(2 :: nat) ^ length bs \<le> 2 ^ 31" using snoc.prems by (intro power_increasing) simp_all
  finally have small: "unat ?w < 2 ^ 31" using w by simp
  have "be_word (bs @ [b]) = 2 * ?w + of_bool b" by (simp add: be_word_def)
  moreover have "unat (2 * ?w + of_bool b) = 2 * unat ?w + of_bool b"
    using small by (cases b) (simp_all add: unat_word_ariths)
  ultimately show ?case by (simp add: w)
qed (simp add: be_word_def)

lemma u32_bits_be_word: "length bs = 32 \<Longrightarrow> u32_bits (be_word bs) = rev bs"
  using u32_bits_unique [of "rev bs" "be_word bs"] be_word_value [of bs] by simp

lemma length_be_bits [simp]: "length (be_bits n v) = n"
  by (simp add: be_bits_def)

lemma be_bits_nth [simp]: "i < n \<Longrightarrow> be_bits n v ! i = bit v (n - 1 - i)"
  by (simp add: be_bits_def)

lemma be_word_be_bits: "be_word (be_bits 32 v) = of_nat v"
proof -
  have "rev (be_bits 32 v) = nat_bits 32 v"
    by (intro nth_equalityI) (simp_all add: rev_nth)
  then have "unat (be_word (be_bits 32 v)) = v mod 2 ^ 32"
    using be_word_value [of "be_bits 32 v"] by (simp add: bits_val_nat_bits)
  then show ?thesis by (simp add: word_unat_eq_iff unat_of_nat)
qed

lemma concat_words_nth: "j < length vs \<Longrightarrow> take 32 (drop (32 * j) (concat (map (be_bits 32) vs))) = be_bits 32 (vs ! j)"
  by (induction vs arbitrary: j) (auto simp: nth_Cons drop_append split: nat.split)

lemma sha_block_words: "length vs = 16 \<Longrightarrow> sha_block (concat (map (be_bits 32) vs)) 0 = map of_nat vs"
  by (intro nth_equalityI) (simp_all add: sha_block_def concat_words_nth be_word_be_bits)

section \<open>The padding block\<close>

lemma be_bits_top: "be_bits 32 (2 ^ 31) = True # replicate 31 False"
proof (intro nth_equalityI)
  fix i assume "i < length (be_bits 32 (2 ^ 31))"
  then have i: "i < 32" by simp
  then have "be_bits 32 (2 ^ 31) ! i \<longleftrightarrow> i = 0" by (auto simp: be_bits_def bit_exp_iff simp del: power_numeral)
  with i show "be_bits 32 (2 ^ 31) ! i = (True # replicate 31 False) ! i" by (cases i) simp_all
qed simp

lemma be_bits_zero: "be_bits n 0 = replicate n False"
  by (intro nth_equalityI) (simp_all add: be_bits_def)

lemma be_bits_64: "be_bits 64 v = be_bits 32 (v div 2 ^ 32) @ be_bits 32 v"
  by (intro nth_equalityI) (auto simp: be_bits_def nth_append drop_bit_eq_div [symmetric] bit_drop_bit_eq simp del: power_numeral)

lemma concat_zero_words: "concat (map (be_bits 32) (replicate k 0)) = replicate (32 * k) False"
  by (induction k) (simp_all add: be_bits_zero replicate_add [symmetric] del: replicate_add)

definition padding_bits :: "nat \<Rightarrow> bool list" where
  "padding_bits n = [True] @ replicate 447 False @ be_bits 64 n"

lemma padding_bits_words: "padding_bits n = concat (map (be_bits 32) ([2 ^ 31] @ replicate 13 0 @ [n div 2 ^ 32, n]))"
proof -
  have "concat (map (be_bits 32) ([2 ^ 31] @ replicate 13 0 @ [n div 2 ^ 32, n]))
      = be_bits 32 (2 ^ 31) @ concat (map (be_bits 32) (replicate 13 0)) @ be_bits 32 (n div 2 ^ 32) @ be_bits 32 n"
    by (simp only: map_append concat_append list.map concat.simps append_Nil2 append_assoc)
  also have "\<dots> = True # (replicate 31 False @ replicate 416 False) @ be_bits 64 n"
    unfolding be_bits_top concat_zero_words be_bits_64 [of n] by simp
  finally show ?thesis unfolding padding_bits_def replicate_add [symmetric] by simp
qed

lemma sha_block_padding:
  assumes "n < 2 ^ 64"
  shows "sha_block (padding_bits n) 0 = padding_values (of_nat n)"
proof -
  have l: "unat (of_nat n :: u64) = n" using assms by (simp add: unat_of_nat)
  have "(ucast (drop_bit 32 (of_nat n :: u64)) :: u32) = of_nat (n div 2 ^ 32)"
    using assms by (simp add: word_unat_eq_iff unat_ucast_mod unat_drop_bit unat_of_nat less_mult_imp_div_less)
  moreover have "(ucast (of_nat n :: u64) :: u32) = of_nat n"
    using assms by (simp add: word_unat_eq_iff unat_ucast_mod unat_of_nat)
  moreover have "replicate 13 0 = [0, 0, 0, 0, 0, 0, 0, 0, 0, 0, 0, 0, 0 :: nat]" by (simp add: numeral_eq_Suc)
  ultimately show ?thesis
    unfolding padding_bits_words by (subst sha_block_words) (simp_all add: padding_values_def)
qed

lemma sha_pad_aligned: "length m mod 512 = 0 \<Longrightarrow> sha_pad m = m @ padding_bits (length m)"
  by (simp add: sha_pad_def padding_bits_def)

lemma sha_block_append: "512 * k + 512 \<le> length m \<Longrightarrow> sha_block (m @ x) k = sha_block m k"
  by (simp add: sha_block_def)

lemma sha_block_append_right: "length m = 512 * k \<Longrightarrow> sha_block (m @ x) k = sha_block x 0"
  by (simp add: sha_block_def)

lemma length_sha_block [simp]: "length (sha_block m k) = 16"
  by (simp add: sha_block_def)

lemma length_sha_compress [simp]: "length H = 8 \<Longrightarrow> length (sha_compress K M H) = 8"
  by (simp add: sha_compress_def state_to_words_def split: prod.split)

definition sha_chain :: "bool list \<Rightarrow> nat list \<Rightarrow> u32 list \<Rightarrow> u32 list" where
  "sha_chain m ks H = foldl (\<lambda>H k. sha_compress ROUND_CONSTANTS (sha_block m k) H) H ks"

lemma length_sha_chain [simp]: "length H = 8 \<Longrightarrow> length (sha_chain m ks H) = 8"
  by (induction ks arbitrary: H) (simp_all add: sha_chain_def)

lemma length_INITIAL_STATE [simp]: "length INITIAL_STATE = 8"
  by (simp add: INITIAL_STATE_def)

lemma sha256_aligned:
  assumes "length m mod 512 = 0" "length m < 2 ^ 64"
  shows "sha256 ROUND_CONSTANTS INITIAL_STATE m =
    sha_compress ROUND_CONSTANTS (padding_values (of_nat (length m))) (sha_chain m [0..<length m div 512] INITIAL_STATE)"
proof -
  let ?n = "length m div 512"
  have n: "length m = 512 * ?n" using assms(1) by auto
  have "length (sha_pad m) div 512 = Suc ?n" unfolding sha_pad_aligned [OF assms(1)] using n by (simp add: padding_bits_def)
  moreover have "sha_chain m (ks @ [k]) H = sha_compress ROUND_CONSTANTS (sha_block m k) (sha_chain m ks H)" for m ks k H
    by (simp add: sha_chain_def)
  moreover have "sha_chain (m @ x) ks H = sha_chain m ks H" if "set ks \<subseteq> {..<?n}" for x ks H
    using that
  proof (induction ks arbitrary: H)
    case (Cons k ks)
    then have "512 * k + 512 \<le> length m" using n by simp
    with Cons show ?case by (simp add: sha_chain_def sha_block_append)
  qed (simp add: sha_chain_def)
  moreover have "set [0..<?n] \<subseteq> {..<?n}" by auto
  ultimately show ?thesis
    by (simp add: sha256_def sha_chain_def [symmetric] sha_pad_aligned [OF assms(1)] sha_block_append_right [OF n] sha_block_padding [OF assms(2)])
qed

section \<open>Reading the message and returning the digest\<close>

definition digest_bits :: "u32 list \<Rightarrow> bool list" where
  "digest_bits D = map (\<lambda>i. bit (D ! (i div 32)) (31 - i mod 32)) [0..<256]"

lemma those_map_ex:
  assumes "\<And>i. i < n \<Longrightarrow> \<exists>x. f i = Some x \<and> Q x i"
  shows "\<exists>xs. those (map f [0..<n]) = Some xs \<and> list_all2 Q xs [0..<n]"
proof -
  obtain g where g: "\<And>i. i < n \<Longrightarrow> f i = Some (g i) \<and> Q (g i) i" using assms by metis
  have "those (map f [0..<n]) = Some (map g [0..<n])" using g by (intro those_Some_map) simp
  with g show ?thesis by (auto simp: list_all2_map1 list_all2_same)
qed

context sha_words
begin

lemma message_block_is:
  assumes "\<And>i. i < length m \<Longrightarrow> \<exists>b. message_bit i = Some b \<and> brel b (m ! i)" "512 * k + 512 \<le> length m"
  shows "\<exists>block. message_block C message_bit k = Some block \<and> list_all2 word_is block (sha_block m k)"
proof -
  let ?f = "\<lambda>word. do {
         bs \<leftarrow> those (map (\<lambda>word_bit. message_bit (k * 512 + word * 32 + (31 - word_bit))) [0..<32]);
         word_new C bs
       }"
  have "\<exists>w. ?f j = Some w \<and> word_is w (be_word (take 32 (drop (512 * k + 32 * j) m)))" if j: "j < 16" for j
  proof -
    let ?x = "take 32 (drop (512 * k + 32 * j) m)"
    have x: "length ?x = 32" using assms(2) j by simp
    have "\<exists>b. message_bit (k * 512 + j * 32 + (31 - i)) = Some b \<and> brel b (rev ?x ! i)" if "i < 32" for i
      using assms(1) [of "k * 512 + j * 32 + (31 - i)"] assms(2) j that x by (simp add: rev_nth algebra_simps)
    then obtain bs where bs: "those (map (\<lambda>i. message_bit (k * 512 + j * 32 + (31 - i))) [0..<32]) = Some bs"
        "list_all2 (\<lambda>b i. brel b (rev ?x ! i)) bs [0..<32]"
      using those_map_ex [of 32 "\<lambda>i. message_bit (k * 512 + j * 32 + (31 - i))" "\<lambda>b i. brel b (rev ?x ! i)"] by blast
    have "list_all2 brel bs (u32_bits (be_word ?x))"
      using bs(2) unfolding u32_bits_be_word [OF x] using x by (auto simp: list_all2_conv_all_nth)
    then obtain w where "op_from_array C 32 1 bs = Some w" "holds 32 w (u32_bits (be_word ?x))"
      using from_array [of bs "u32_bits (be_word ?x)" 32] div_ceil_one [of 32] by auto
    with bs(1) show ?thesis by (simp add: word_new_def word_is_def)
  qed
  from those_map_ex [of 16 ?f "\<lambda>w j. word_is w (be_word (take 32 (drop (512 * k + 32 * j) m)))", OF this]
  show ?thesis unfolding message_block_def sha_block_def list_all2_map2 .
qed

lemma constants_are: "\<exists>ws. those (map (\<lambda>v. word_constant C (ucast v)) vs) = Some ws \<and> list_all2 word_is ws vs"
proof (induction vs)
  case (Cons v vs)
  then show ?case using word_constant_is [of v] by auto
qed simp

lemma digest_bits_are:
  assumes "list_all2 uint_is us D" "length D = 8"
  shows "\<exists>bs. those (map (\<lambda>i. op_bit C 32 (un_word (us ! (i div 32))) (31 - i mod 32)) [0..<256]) = Some bs \<and> list_all2 brel bs (digest_bits D)"
proof -
  have "\<exists>b. op_bit C 32 (un_word (us ! (i div 32))) (31 - i mod 32) = Some b \<and> brel b (bit (D ! (i div 32)) (31 - i mod 32))" if "i < 256" for i
  proof -
    have "i div 32 < length D" using that assms(2) by simp
    then have "holds 32 (un_word (us ! (i div 32))) (u32_bits (D ! (i div 32)))"
      using list_all2_nthD2 [OF assms(1)] by (simp add: uint_is_def word_is_def)
    from word_bit [OF this, of "31 - i mod 32"] show ?thesis by simp
  qed
  from those_map_ex [of 256, OF this] show ?thesis by (simp add: digest_bits_def list_all2_map2)
qed

end

section \<open>Honest runs over a message\<close>

fun chain_trace :: "bool list \<Rightarrow> nat list \<Rightarrow> u32 list \<Rightarrow> trace" where
  "chain_trace m [] H = ([], [])"
| "chain_trace m (k # ks) H =
     trace_append (compress_trace (sha_block m k) H) (chain_trace m ks (sha_compress ROUND_CONSTANTS (sha_block m k) H))"

definition sha256_trace :: "bool list \<Rightarrow> trace" where
  "sha256_trace m = trace_append (chain_trace m [0..<length m div 512] INITIAL_STATE)
     (compress_trace (padding_values (of_nat (length m))) (sha_chain m [0..<length m div 512] INITIAL_STATE))"

context sha_honest
begin

lemma honest_blocks:
  assumes "\<And>i. i < length m \<Longrightarrow> \<exists>b. message_bit i = Some b \<and> brel b (m ! i)"
  shows "reached s p \<Longrightarrow> list_all2 word_is st H \<Longrightarrow> length H = 8 \<Longrightarrow> set ks \<subseteq> {..<length m div 512} \<Longrightarrow>
    honest p (chain_trace m ks H) (block_loop C message_bit ks st s) (\<lambda>st. list_all2 word_is st (sha_chain m ks H))"
proof (induction ks arbitrary: st H s p)
  case Nil
  then show ?case by (simp add: honest_return sha_chain_def)
next
  case (Cons k ks)
  have "512 * k + 512 \<le> length m" using Cons.prems(4) by (simp add: less_eq_div_iff_mult_less_eq Suc_leI flip: Suc_le_eq)
  then obtain block where block: "message_block C message_bit k = Some block" "list_all2 word_is block (sha_block m k)"
    using message_block_is [OF assms] by blast
  let ?H = "sha_compress ROUND_CONSTANTS (sha_block m k) H"
  have chain: "sha_chain m (k # ks) H = sha_chain m ks ?H" by (simp add: sha_chain_def)
  show ?case unfolding block_loop.simps block(1) bind.bind_lunit chain_trace.simps chain
    by (rule honest_seq [OF honest_compress [OF Cons.prems(1) block(2) Cons.prems(2) _ Cons.prems(3)]], simp,
        rule Cons.IH, assumption, erule uint_words) (use Cons.prems in simp_all)
qed

lemma honest_sha256:
  assumes "\<And>i. i < length m \<Longrightarrow> \<exists>b. message_bit i = Some b \<and> brel b (m ! i)" "reached s p"
    and "length m mod 512 = 0" "length m < 2 ^ 64"
  shows "honest p (sha256_trace m) (sha256_block_aligned_circuit C (length m) message_bit s)
    (\<lambda>bs. list_all2 brel bs (digest_bits (sha256 ROUND_CONSTANTS INITIAL_STATE m)))"
proof -
  let ?ks = "[0..<length m div 512]" and ?pad = "padding_values (of_nat (length m))"
  let ?D = "sha_compress ROUND_CONSTANTS ?pad (sha_chain m ?ks INITIAL_STATE)"
  obtain st where st: "initial_state C = Some st" "list_all2 word_is st INITIAL_STATE"
    using constants_are [of INITIAL_STATE] by (auto simp: initial_state_def)
  obtain pad where pad: "those (map (\<lambda>word. word_constant C (ucast word)) ?pad) = Some pad" "list_all2 word_is pad ?pad"
    using constants_are by blast
  have len: "length ?pad = 16" "length (sha_chain m ?ks INITIAL_STATE) = 8" by (simp_all add: padding_values_def)
  have run: "sha256_block_aligned_circuit C (length m) message_bit s = block_loop C message_bit ?ks st s \<bind> (\<lambda>(state, s).
      compress C pad state s \<bind> (\<lambda>(digest, s).
      those (map (\<lambda>i. op_bit C 32 (un_word (digest ! (i div 32))) (31 - i mod 32)) [0..<256]) \<bind> (\<lambda>bs. Some (bs, s))))"
    using assms(3,4) by (simp add: sha256_block_aligned_circuit_def Let_def st(1) pad(1))
  have finish: "honest p ([], []) (those (map (\<lambda>i. op_bit C 32 (un_word (digest ! (i div 32))) (31 - i mod 32)) [0..<256]) \<bind> (\<lambda>bs. Some (bs, s)))
      (\<lambda>bs. list_all2 brel bs (digest_bits ?D))"
    if at: "reached s p" and digest: "list_all2 uint_is digest ?D" for p s digest
  proof -
    obtain bs where bs: "those (map (\<lambda>i. op_bit C 32 (un_word (digest ! (i div 32))) (31 - i mod 32)) [0..<256]) = Some bs"
        "list_all2 brel bs (digest_bits ?D)" using digest_bits_are [OF digest] len by auto
    show ?thesis unfolding bs(1) bind.bind_lunit by (intro honest_return at bs(2))
  qed
  have tr: "sha256_trace m = trace_append (chain_trace m ?ks INITIAL_STATE)
      (trace_append (compress_trace ?pad (sha_chain m ?ks INITIAL_STATE)) ([], []))"
    by (simp add: sha256_trace_def)
  show ?thesis unfolding run tr sha256_aligned [OF assms(3,4)]
    by (rule honest_seq [OF honest_blocks [OF assms(1,2) st(2)]], assumption, simp, simp add: lessThan_atLeast0,
        rule honest_seq [OF honest_compress [OF _ pad(2) _ len]], assumption+, rule finish, assumption+)
qed

end

section \<open>Sound constraints over a message\<close>

context sha_sound
begin

lemma sound_blocks:
  assumes "\<And>i. i < length m \<Longrightarrow> \<exists>b. message_bit i = Some b \<and> brel b (m ! i)"
  shows "length H = 8 \<Longrightarrow> set ks \<subseteq> {..<length m div 512} \<Longrightarrow>
    sound_run ok (list_all2 word_is st H) s (block_loop C message_bit ks st s) (\<lambda>st. list_all2 word_is st (sha_chain m ks H))"
proof (induction ks arbitrary: st H s)
  case Nil
  then show ?case by (simp add: sound_return sha_chain_def)
next
  case (Cons k ks)
  have "512 * k + 512 \<le> length m" using Cons.prems(2) by (simp add: less_eq_div_iff_mult_less_eq Suc_leI flip: Suc_le_eq)
  then obtain block where block: "message_block C message_bit k = Some block" "list_all2 word_is block (sha_block m k)"
    using message_block_is [OF assms] by blast
  have chain: "sha_chain m (k # ks) H = sha_chain m ks (sha_compress ROUND_CONSTANTS (sha_block m k) H)" by (simp add: sha_chain_def)
  show ?case unfolding block_loop.simps block(1) bind.bind_lunit chain
    by (rule sound_seq [OF sound_weaken [OF sound_compress [OF length_sha_block Cons.prems(1)]]], use block(2) in blast,
        rule sound_weaken [OF Cons.IH]) (use Cons.prems uint_words in auto)
qed

lemma sound_sha256:
  assumes "\<And>i. i < length m \<Longrightarrow> \<exists>b. message_bit i = Some b \<and> brel b (m ! i)"
  shows "sound_run ok True s (sha256_block_aligned_circuit C (length m) message_bit s)
    (\<lambda>bs. list_all2 brel bs (digest_bits (sha256 ROUND_CONSTANTS INITIAL_STATE m)))"
proof (cases "length m mod 512 = 0 \<and> length m < 2 ^ 64")
  case True
  let ?ks = "[0..<length m div 512]" and ?pad = "padding_values (of_nat (length m))"
  let ?D = "sha_compress ROUND_CONSTANTS ?pad (sha_chain m ?ks INITIAL_STATE)"
  obtain st where st: "initial_state C = Some st" "list_all2 word_is st INITIAL_STATE"
    using constants_are [of INITIAL_STATE] by (auto simp: initial_state_def)
  obtain pad where pad: "those (map (\<lambda>word. word_constant C (ucast word)) ?pad) = Some pad" "list_all2 word_is pad ?pad"
    using constants_are by blast
  have len: "length ?pad = 16" "length (sha_chain m ?ks INITIAL_STATE) = 8" by (simp_all add: padding_values_def)
  have run: "sha256_block_aligned_circuit C (length m) message_bit s = block_loop C message_bit ?ks st s \<bind> (\<lambda>(state, s).
      compress C pad state s \<bind> (\<lambda>(digest, s).
      those (map (\<lambda>i. op_bit C 32 (un_word (digest ! (i div 32))) (31 - i mod 32)) [0..<256]) \<bind> (\<lambda>bs. Some (bs, s))))"
    using True by (simp add: sha256_block_aligned_circuit_def Let_def st(1) pad(1))
  have finish: "sound_run ok (list_all2 uint_is digest ?D) s
      (those (map (\<lambda>i. op_bit C 32 (un_word (digest ! (i div 32))) (31 - i mod 32)) [0..<256]) \<bind> (\<lambda>bs. Some (bs, s)))
      (\<lambda>bs. list_all2 brel bs (digest_bits ?D))" for s digest
    by (rule sound_pure [where Q = "\<lambda>bs. list_all2 brel bs (digest_bits ?D)"]) (auto simp: len intro: sound_return digest_bits_are)
  show ?thesis unfolding run sha256_aligned [OF conjunct1 [OF True] conjunct2 [OF True]]
    by (rule sound_seq [OF sound_weaken [OF sound_blocks [OF assms length_INITIAL_STATE]]], assumption, simp add: lessThan_atLeast0, rule st(2),
        rule sound_seq [OF sound_weaken [OF sound_compress [OF len]]], use pad(2) in blast, rule sound_weaken [OF finish], fast)
qed (auto simp: sha256_block_aligned_circuit_def sound_run_def)

end

end
