(* ===== verification/Circuit_Instances.thy ===== *)
theory Circuit_Instances
  imports Circuit_Laws
begin

text \<open>
  The backends keep the contracts of \<open>Circuit_Laws\<close>: the constraint generator both of them, the three
  evaluators the honest one.
\<close>

section \<open>Words of the generator\<close>

definition gen_holds :: "nat \<Rightarrow> (nat \<Rightarrow> bool) \<Rightarrow> nat \<Rightarrow> bool_linear_combination list \<Rightarrow> bool list \<Rightarrow> bool" where
  "gen_holds n W N w bs \<longleftrightarrow> length w = N \<and> map (bl_eval W) w = bs \<and> (\<forall>b\<in>set w. bl_wf n b)"

definition gen_brel :: "nat \<Rightarrow> (nat \<Rightarrow> bool) \<Rightarrow> bool_linear_combination \<Rightarrow> bool \<Rightarrow> bool" where
  "gen_brel n W b v \<longleftrightarrow> bl_eval W b = v \<and> bl_wf n b"

definition gen_zrel :: "nat \<Rightarrow> (nat \<Rightarrow> 'r::comm_ring_1) \<Rightarrow> 'r linear_combination \<Rightarrow> 'r \<Rightarrow> bool" where
  "gen_zrel m Z z v \<longleftrightarrow> lc_eval Z z = v \<and> lc_wf m z"

lemma gen_holds_nth: "gen_holds n W N w bs \<longleftrightarrow> length w = N \<and> length bs = N \<and> (\<forall>i<N. gen_brel n W (w ! i) (bs ! i))"
  by (auto simp: gen_holds_def gen_brel_def list_eq_iff_nth_eq all_set_conv_all_nth)

lemma gen_holds_map: "gen_holds n W N (map f [0..<N]) (map g [0..<N]) \<longleftrightarrow> (\<forall>i<N. gen_brel n W (f i) (g i))"
  by (auto simp: gen_holds_nth)

lemma gen_brel_from [simp]: "gen_brel n W (bl_from b) v \<longleftrightarrow> b = v"
  by (simp add: gen_brel_def)

interpretation gen: circuit_words generator_ops LIMBS "gen_holds n W" "gen_brel n W" "gen_zrel m Z" "(=)"
  for LIMBS n W m and Z :: "nat \<Rightarrow> 'r::comm_ring_1"
proof
  fix N w bs xs i amount and word :: u64
  show "gen_holds n W N w bs \<Longrightarrow> length bs = N" by (simp add: gen_holds_nth)
  show "list_all2 (gen_brel n W) xs bs \<Longrightarrow> length bs = N \<Longrightarrow>
      \<exists>w. op_from_array (generator_ops :: (_, _, 'r linear_combination, 'r, _) circuit_ops) N (div_ceil N 64) xs = Some w \<and> gen_holds n W N w bs"
    by (simp add: generator_ops_def scalar_from_array_def gen_holds_nth list_all2_conv_all_nth)
  show "\<exists>w. op_from_u64 (generator_ops :: (_, _, 'r linear_combination, 'r, _) circuit_ops) N (div_ceil N 64) word = Some w \<and>
      gen_holds n W N w (nat_bits N (unat word))"
    by (simp add: generator_ops_def scalar_from_u64_def word_bits_64 [symmetric] gen_holds_map drop_bit_and_1)
  show "gen_holds n W N w bs \<Longrightarrow> i < N \<Longrightarrow>
      \<exists>b. op_bit (generator_ops :: (_, _, 'r linear_combination, 'r, _) circuit_ops) N w i = Some b \<and> gen_brel n W b (bs ! i)"
    by (simp add: generator_ops_def scalar_bit_def gen_holds_nth)
  show "gen_holds n W N w bs \<Longrightarrow>
      \<exists>w'. op_rotate_right (generator_ops :: (_, _, 'r linear_combination, 'r, _) circuit_ops) N (div_ceil N 64) w amount = Some w' \<and>
        gen_holds n W N w' (scalar_rotate_right N bs amount)"
    by (cases "N = 0") (auto simp: generator_ops_def scalar_rotate_right_def Let_def gen_holds_map gen_holds_nth)
  show "gen_holds n W N w bs \<Longrightarrow>
      \<exists>w'. op_shift_right (generator_ops :: (_, _, 'r linear_combination, 'r, _) circuit_ops) N (div_ceil N 64) w amount = Some w' \<and>
        gen_holds n W N w' (scalar_shift_right N id bs amount)"
    by (auto simp: generator_ops_def scalar_shift_right_def gen_holds_map gen_holds_nth)
qed (auto simp: generator_ops_def gen_zrel_def lc_wf_add lc_wf_sub lc_wf_mul)

lemma scalar_xor_cg:
  "length v = length w \<Longrightarrow> scalar_xor cg_xor v w g = Some (map (\<lambda>(x, y). bl_xor x y) (zip v w), g)"
  by (induction v w rule: list_induct2) (simp_all add: cg_xor_def)

lemma scalar_xor_unchanged:
  "scalar_xor add v w g = Some (x, g') \<Longrightarrow> (\<And>b c s z s'. add b c s = Some (z, s') \<Longrightarrow> s' = s) \<Longrightarrow> g' = g"
proof (induction add v w g arbitrary: x rule: scalar_xor.induct)
  case (1 add b v c w s)
  obtain y s1 ys where r: "add b c s = Some (y, s1)" "scalar_xor add v w s1 = Some (ys, g')"
    using "1.prems"(1) by (auto simp: Option.bind_eq_Some_conv)
  from "1.IH" [OF r(1) refl r(2) "1.prems"(2)] "1.prems"(2) [OF r(1)] show ?case by simp
qed simp_all

lemma scalar_xor_state: "scalar_xor cg_xor v w g = Some (x, g') \<Longrightarrow> g' = g"
  by (erule scalar_xor_unchanged) (simp add: cg_xor_def)

lemma gen_word_xor:
  assumes "gen_holds n W N v bs" "gen_holds n W N w cs"
  shows "\<exists>x. op_word_xor generator_ops N M v w g = Some (x, g) \<and> gen_holds n W N x (map (\<lambda>i. bs ! i \<noteq> cs ! i) [0..<N])"
proof -
  let ?x = "map (\<lambda>(x, y). bl_xor x y) (zip v w)"
  have "gen_holds n W N ?x (map (\<lambda>i. bs ! i \<noteq> cs ! i) [0..<N])"
    using assms by (auto simp: gen_holds_nth gen_brel_def intro: bl_wf_xor)
  with assms show ?thesis by (simp add: generator_ops_def scalar_xor_cg gen_holds_nth)
qed

lemma lifted_value:
  assumes "\<And>i. i < length bs \<Longrightarrow> (Z (m + i) :: 'r::comm_ring_1) = of_bool (bs ! i)"
    and "lc_constant l = 0" "lc_witnesses l = map (\<lambda>i. (m + i, 2 ^ i)) [0..<k]" "k \<le> length bs"
  shows "lc_eval Z l = of_nat (bits_val (take k bs))"
proof -
  have "foldr (\<lambda>t v. (case t of (i, c) \<Rightarrow> c * Z i) + v) (map (\<lambda>i. (m + i, 2 ^ i)) is) 0 = (\<Sum>i\<leftarrow>is. 2 ^ i * Z (m + i))" for "is" :: "nat list"
    by (induction "is") simp_all
  then have "lc_eval Z l = (\<Sum>i\<leftarrow>[0..<k]. 2 ^ i * Z (m + i))" using assms(2,3) by (simp add: lc_eval_def)
  also have "\<dots> = (\<Sum>i<k. 2 ^ i * Z (m + i))" by (simp add: interv_sum_list_conv_sum_set_nat atLeast0LessThan)
  also have "\<dots> = (\<Sum>i<k. of_nat (of_bool (take k bs ! i) * 2 ^ i))"
    using assms(1,4) by (intro sum.cong) (simp_all add: mult.commute)
  also have "\<dots> = of_nat (bits_val (take k bs))" using assms(4) by (simp add: bits_val_def min_absorb2)
  finally show ?thesis .
qed

section \<open>The generator is sound\<close>

text \<open>The integer witness of a generator under an assignment of the Boolean witnesses.\<close>

definition gen_image :: "(nat \<Rightarrow> bool) \<Rightarrow> 'r::comm_ring_1 constraint_generator \<Rightarrow> nat \<Rightarrow> 'r" where
  "gen_image W G i = of_bool (bl_eval W (cg_m_rows G ! i))"

definition small_numbers_distinct :: "'r::comm_ring_1 itself \<Rightarrow> bool" where
  "small_numbers_distinct T \<longleftrightarrow> (\<forall>m n. m < 2 ^ 40 \<longrightarrow> n < 2 ^ 40 \<longrightarrow> (of_nat m :: 'r) = of_nat n \<longrightarrow> m = n)"

text \<open>A state on the way to a generator \<open>G\<close> all of whose constraints hold.\<close>

definition gen_ok :: "(nat \<Rightarrow> bool) \<Rightarrow> 'r::comm_ring_1 constraint_generator \<Rightarrow> 'r constraint_generator \<Rightarrow> bool" where
  "gen_ok W G g \<longleftrightarrow> small_numbers_distinct TYPE('r) \<and> (\<forall>t\<in>set (cg_r1cs G). constraint_holds (gen_image W G) t) \<and>
     cg_next_boolean_witness g \<le> cg_next_boolean_witness G \<and>
     (\<exists>rest. cg_m_rows G = cg_m_rows g @ rest) \<and> (\<exists>rest. cg_r1cs G = cg_r1cs g @ rest)"

interpretation gen_sound: circuit_sound generator_ops LIMBS "gen_holds (cg_next_boolean_witness G) W" "gen_brel (cg_next_boolean_witness G) W"
    "gen_zrel (length (cg_m_rows G)) (gen_image W G)" "(=)" "gen_ok W G"
  for LIMBS W and G :: "'r::comm_ring_1 constraint_generator"
proof
  let ?n = "cg_next_boolean_witness G" and ?m = "length (cg_m_rows G)"
  fix g :: "'r constraint_generator"
  show "gen_ok W G g \<Longrightarrow> m < 2 ^ 40 \<Longrightarrow> n < 2 ^ 40 \<Longrightarrow> (of_nat m :: 'r) = of_nat n \<Longrightarrow> m = n" for m n
    by (auto simp: gen_ok_def small_numbers_distinct_def)
  show "sound_run (gen_ok W G) (gen_holds ?n W N v bs \<and> gen_holds ?n W N w cs) g (op_word_xor generator_ops N M v w g)
      (\<lambda>x. gen_holds ?n W N x (map (\<lambda>i. bs ! i \<noteq> cs ! i) [0..<N]))" for N M v w bs cs
    unfolding sound_run_def
  proof (intro allI impI conjI)
    fix x g' assume r: "op_word_xor generator_ops N M v w g = Some (x, g')" and ok: "gen_ok W G g'"
    have "g' = g" using r scalar_xor_state by (simp add: generator_ops_def)
    with ok show "gen_ok W G g" by simp
    assume "gen_holds ?n W N v bs \<and> gen_holds ?n W N w cs"
    with gen_word_xor [of ?n W N v bs w cs M g] r
    show "gen_holds ?n W N x (map (\<lambda>i. bs ! i \<noteq> cs ! i) [0..<N])" by auto
  qed
  show "sound_run (gen_ok W G) True g (op_hint generator_ops N M h g) (\<lambda>w. \<exists>bs. gen_holds ?n W N w bs)" for N M h
    unfolding sound_run_def
  proof (intro allI impI conjI)
    fix x g' assume r: "op_hint generator_ops N M h g = Some (x, g')" and ok: "gen_ok W G g'"
    let ?k = "cg_next_boolean_witness g"
    have e: "x = map (\<lambda>i. bl_witness (?k + i)) [0..<N]" "g' = g\<lparr>cg_next_boolean_witness := ?k + N\<rparr>"
      using r by (auto simp: generator_ops_def cg_hint_def Let_def split: if_splits)
    from ok e(2) show "gen_ok W G g" by (auto simp: gen_ok_def)
    have "?k + N \<le> ?n" using ok e(2) by (simp add: gen_ok_def)
    then have "gen_holds ?n W N x (map (\<lambda>i. W (?k + i)) [0..<N])" unfolding e(1) gen_holds_map by (simp add: gen_brel_def)
    then show "\<exists>bs. gen_holds ?n W N x bs" ..
  qed
  show "sound_run (gen_ok W G) (gen_holds ?n W N w bs) g (op_bitz_unsigned generator_ops LIMBS N M LOW w g)
      (\<lambda>(f, l). gen_zrel ?m (gen_image W G) f (of_nat (bits_val bs)) \<and> gen_zrel ?m (gen_image W G) l (of_nat (bits_val (take LOW bs))))"
    for N w bs M LOW
    unfolding sound_run_def
  proof (intro allI impI conjI)
    fix x g' assume r: "op_bitz_unsigned generator_ops LIMBS N M LOW w g = Some (x, g')" and ok: "gen_ok W G g'"
    obtain f l where x: "x = (f, l)" by (cases x)
    note s = bitz_unsigned_spec [of LOW w g f l g']
    have s: "LOW \<le> length w" "g' = g\<lparr>cg_m_rows := cg_m_rows g @ w\<rparr>" "lc_constant f = 0" "lc_constant l = 0"
      "lc_witnesses f = map (\<lambda>i. (length (cg_m_rows g) + i, 2 ^ i)) [0..<length w]"
      "lc_witnesses l = map (\<lambda>i. (length (cg_m_rows g) + i, 2 ^ i)) [0..<LOW]"
      using s r x by (simp_all add: generator_ops_def)
    from ok s(2) show "gen_ok W G g" by (auto simp: gen_ok_def)
    obtain rest where rows: "cg_m_rows G = cg_m_rows g @ w @ rest" using ok s(2) by (auto simp: gen_ok_def)
    assume "gen_holds ?n W N w bs"
    then have w: "length w = length bs" "\<And>i. i < length bs \<Longrightarrow> bl_eval W (w ! i) = bs ! i" by (auto simp: gen_holds_nth gen_brel_def)
    have Z: "gen_image W G (length (cg_m_rows g) + i) = of_bool (bs ! i)" if "i < length bs" for i
      using that w by (simp add: gen_image_def rows nth_append)
    have m: "length (cg_m_rows g) + length w \<le> ?m" by (simp add: rows)
    have "lc_wf ?m f" "lc_wf ?m l" using s m by (auto intro: lc_wf_range)
    with lifted_value [of bs "gen_image W G" "length (cg_m_rows g)", OF Z s(3,5)] lifted_value [of bs "gen_image W G" "length (cg_m_rows g)", OF Z s(4,6)] s(1) w(1)
    show "case x of (f, l) \<Rightarrow> gen_zrel ?m (gen_image W G) f (of_nat (bits_val bs)) \<and> gen_zrel ?m (gen_image W G) l (of_nat (bits_val (take LOW bs)))"
      by (simp add: x gen_zrel_def)
  qed
  show "gen_ok W G (op_assert_r1c generator_ops za zb zc g) \<Longrightarrow> gen_ok W G g \<and>
      (gen_zrel ?m (gen_image W G) za x \<longrightarrow> gen_zrel ?m (gen_image W G) zb y \<longrightarrow> gen_zrel ?m (gen_image W G) zc z \<longrightarrow> x * y = z)"
    for za zb zc x y z
    by (auto simp: gen_ok_def generator_ops_def cg_assert_r1c_def gen_zrel_def constraint_holds_def)
qed

section \<open>The generator runs honestly\<close>

definition gen_context :: "(nat \<Rightarrow> bool) \<Rightarrow> (nat \<Rightarrow> 'r::comm_ring_1) \<Rightarrow> ('r linear_combination, bool_linear_combination, 'r) witness_context" where
  "gen_context W Z = \<lparr>wc_eval_z = lc_eval Z, wc_eval_z_words = (\<lambda>_. None), wc_eval_bool = bl_eval W\<rparr>"

definition trace_image :: "trace \<Rightarrow> nat \<Rightarrow> 'r::comm_ring_1" where
  "trace_image full i = of_bool (snd full ! i)"

text \<open>The generator at a position of a trace: its rows have the lifted bits as values, and its constraints
  hold.\<close>

definition gen_reached :: "trace \<Rightarrow> 'r::comm_ring_1 constraint_generator \<Rightarrow> nat \<times> nat \<Rightarrow> bool" where
  "gen_reached full g p \<longleftrightarrow> length (fst full) < 2 ^ 64 \<and> fst p \<le> length (fst full) \<and> snd p \<le> length (snd full) \<and>
     cg_input_witnesses g \<le> fst p \<and> cg_next_boolean_witness g = fst p \<and> map (bl_eval ((!) (fst full))) (cg_m_rows g) = take (snd p) (snd full) \<and>
     (\<forall>b\<in>set (cg_m_rows g). bl_wf (length (fst full)) b) \<and>
     (\<forall>(a, b, c)\<in>set (cg_r1cs g). lc_wf (length (snd full)) a \<and> lc_wf (length (snd full)) b \<and> lc_wf (length (snd full)) c \<and>
        constraint_holds (trace_image full) (a, b, c))"

lemma take_append_room:
  "k + length xs \<le> length zs \<Longrightarrow> take (length xs) (drop k zs) = xs \<Longrightarrow> take (k + length xs) zs = take k zs @ xs"
  by (simp add: take_add)

lemma gen_reached_rows:
  "gen_reached full g p \<Longrightarrow> length (cg_m_rows g) = snd p"
  by (auto simp: gen_reached_def dest: arg_cong [of _ _ length])

interpretation gen_honest: circuit_honest generator_ops LIMBS "gen_holds (length (fst full)) ((!) (fst full))"
    "gen_brel (length (fst full)) ((!) (fst full))" "gen_zrel (length (snd full)) (trace_image full)" "(=)" full "gen_reached full"
    "gen_context ((!) (fst full)) (trace_image full :: nat \<Rightarrow> 'r::comm_ring_1)"
  for LIMBS full
proof
  let ?n = "length (fst full)" and ?W = "(!) (fst full)" and ?m = "length (snd full)"
  let ?Z = "trace_image full :: nat \<Rightarrow> 'r"
  fix g :: "'r constraint_generator" and p N w bs
  show "\<exists>b. op_evaluate generator_ops N (div_ceil N 64) w (gen_context ?W ?Z) = Some b \<and> pb_holds N b bs"
    if "gen_holds ?n ?W N w bs" for N w bs
  proof -
    have "bs = map (\<lambda>i. bl_eval ?W (w ! i)) [0..<N]"
      using that by (auto simp: gen_holds_nth gen_brel_def list_eq_iff_nth_eq)
    then show ?thesis
      using pb_from_fn_holds [of N "\<lambda>i. bl_eval ?W (w ! i)"] by (simp add: generator_ops_def scalar_evaluate_def gen_context_def)
  qed
  show "gen_reached full g p \<Longrightarrow> gen_holds ?n ?W N x bs \<Longrightarrow> gen_holds ?n ?W N y cs \<Longrightarrow>
      \<exists>w s'. op_word_xor generator_ops N (div_ceil N 64) x y g = Some (w, s') \<and> gen_reached full s' p \<and>
        gen_holds ?n ?W N w (map (\<lambda>i. bs ! i \<noteq> cs ! i) [0..<N])" for x y cs
    using gen_word_xor [of ?n ?W N x bs y cs "div_ceil N 64" g] by blast
  show "\<exists>w s'. op_hint generator_ops N (div_ceil N 64) h g = Some (w, s') \<and> gen_reached full s' (advance p (bs, [])) \<and>
      gen_holds ?n ?W N w bs"
    if at: "gen_reached full g p" and room: "room full p (bs, [])" and b: "pb_holds N b bs" for h b
  proof -
    have l: "length bs = N" using pb_holds_length [OF b] by simp
    have k: "cg_next_boolean_witness g = fst p" "fst p + N \<le> ?n" "?n < 2 ^ 64" "take N (drop (fst p) (fst full)) = bs"
      using at room l by (simp_all add: gen_reached_def room_def)
    have "gen_holds ?n ?W N (map (\<lambda>i. bl_witness (fst p + i)) [0..<N]) (map (\<lambda>i. ?W (fst p + i)) [0..<N])"
      using k(2) by (simp add: gen_holds_map gen_brel_def)
    also have "map (\<lambda>i. ?W (fst p + i)) [0..<N] = bs"
      using k(2,4) l by (auto simp: list_eq_iff_nth_eq)
    finally have "gen_holds ?n ?W N (map (\<lambda>i. bl_witness (fst p + i)) [0..<N]) bs" .
    moreover have "gen_reached full (g\<lparr>cg_next_boolean_witness := fst p + N\<rparr>) (advance p (bs, []))"
      using at k(2) l by (simp add: gen_reached_def advance_def)
    ultimately show ?thesis using k(1,2,3) by (simp add: generator_ops_def cg_hint_def Let_def)
  qed
  show "\<exists>f l s'. op_bitz_unsigned generator_ops LIMBS N (div_ceil N 64) LOW w g = Some ((f, l), s') \<and>
      gen_reached full s' (advance p ([], bs)) \<and> gen_zrel ?m ?Z f (of_nat (bits_val bs)) \<and> gen_zrel ?m ?Z l (of_nat (bits_val (take LOW bs)))"
    if at: "gen_reached full g p" and room: "room full p ([], bs)" and w: "gen_holds ?n ?W N w bs" and LOW: "LOW \<le> N" for LOW
  proof -
    have lw: "length w = length bs" "length bs = N" using w by (simp_all add: gen_holds_nth)
    obtain f l g' where r: "cg_bitz_unsigned LOW w g = Some ((f, l), g')"
      using LOW lw by (cases "record_bits 0 w g") (simp add: cg_bitz_unsigned_def)
    note s = bitz_unsigned_spec [OF r]
    have rows: "length (cg_m_rows g) = snd p" using gen_reached_rows [OF at] .
    have fit: "snd p + length bs \<le> ?m" "take (length bs) (drop (snd p) (snd full)) = bs" using room by (simp_all add: room_def)
    have Z: "?Z (snd p + i) = of_bool (bs ! i)" if "i < length bs" for i
      using that fit by (metis nth_drop nth_take add_leD1 trace_image_def)
    have wf: "lc_wf ?m f" "lc_wf ?m l" using s rows fit lw LOW by (auto intro!: lc_wf_range [of _ "snd p"])
    have "map (bl_eval ?W) (cg_m_rows g @ w) = take (snd p + length bs) (snd full)"
      unfolding take_append_room [OF fit] using at w by (simp add: gen_reached_def gen_holds_def)
    then have "gen_reached full g' (advance p ([], bs))"
      using at w fit s by (auto simp: gen_reached_def gen_holds_def advance_def)
    with lifted_value [of bs ?Z "snd p" f "length bs", OF Z] lifted_value [of bs ?Z "snd p" l LOW, OF Z] s rows wf r lw LOW show ?thesis
      by (simp add: generator_ops_def gen_zrel_def)
  qed
  show "gen_reached full g p \<Longrightarrow> gen_zrel ?m ?Z za 0 \<Longrightarrow> gen_zrel ?m ?Z zb 0 \<Longrightarrow> gen_zrel ?m ?Z zc 0 \<Longrightarrow>
      gen_reached full (op_assert_r1c generator_ops za zb zc g) p" for za zb zc
    by (auto simp: gen_reached_def generator_ops_def cg_assert_r1c_def gen_zrel_def constraint_holds_def)
qed

section \<open>The evaluators run honestly\<close>

text \<open>A one-limb integer is its word, and its arithmetic that of the word.\<close>

definition word_zrel :: "z_int \<Rightarrow> u64 \<Rightarrow> bool" where
  "word_zrel z v \<longleftrightarrow> z_words z = [v]"

lemma word_zrel_ops:
  "word_zrel x u \<Longrightarrow> word_zrel y v \<Longrightarrow> word_zrel (z_add x y) (u + v)"
  "word_zrel x u \<Longrightarrow> word_zrel y v \<Longrightarrow> word_zrel (z_sub x y) (u - v)"
  "word_zrel x u \<Longrightarrow> word_zrel y v \<Longrightarrow> word_zrel (z_mul x y) (u * v)"
  "word_zrel (z_zero 1) 0" "word_zrel (z_one 1) 1" "word_zrel (z_from_u64 1 w) w"
proof -
  have up: "unat (ucast w :: u128) = unat w" for w :: u64
    using unat_less_64 [of w] by (simp add: unat_ucast_mod radix_def)
  have "(ucast (ucast u * ucast v :: u128) :: u64) = u * v"
    by (rule word_unat_eq_iff [THEN iffD2]) (simp add: up unat_ucast_mod unat_word_ariths mod_mod_cancel)
  then show "word_zrel x u \<Longrightarrow> word_zrel y v \<Longrightarrow> word_zrel (z_mul x y) (u * v)"
    by (simp add: word_zrel_def z_mul_def z_mul_step_def Let_def)
qed (simp_all add: word_zrel_def z_add_def z_sub_def overflowing_add_def overflowing_sub_def z_zero_def z_one_def z_from_u64_def)

lemma word_zrel_val:
  assumes "length (z_words z) = 1" "z_val z = int n"
  shows "word_zrel z (of_nat n)"
proof -
  obtain w where w: "z_words z = [w]" using assms(1) by (auto simp: length_Suc_conv)
  have "(of_int (z_val z) :: u64) = of_int (int (unat w)) - (if words_negative [w] then of_int (int radix) else 0)"
    by (simp add: z_val_def signed_val_def w)
  also have "(of_int (int radix) :: u64) = 0" by (simp add: radix_def)
  finally have "(of_nat n :: u64) = w" by (simp add: assms(2))
  then show ?thesis by (simp add: word_zrel_def w)
qed

interpretation val: circuit_words "value_ops h b u a" 1 pb_holds "(=)" word_zrel word_zrel
  for h :: "nat \<Rightarrow> (z_int, bool, z_int) hint_fn \<Rightarrow> 's \<Rightarrow> (packed_bits \<times> 's) option" and b u a
proof
  fix N w bs xs i amount and word :: u64
  show "pb_holds N w bs \<Longrightarrow> length bs = N" by (simp add: pb_holds_length)
  show "list_all2 (=) xs bs \<Longrightarrow> length bs = N \<Longrightarrow> \<exists>w. op_from_array (value_ops h b u a) N (div_ceil N 64) xs = Some w \<and> pb_holds N w bs"
    using pb_from_fn_holds [of N "\<lambda>i. bs ! i"] map_nth [of bs] by (auto simp: value_ops_def pb_from_array_def list.rel_eq)
  show "\<exists>w. op_from_u64 (value_ops h b u a) N (div_ceil N 64) word = Some w \<and> pb_holds N w (nat_bits N (unat word))"
    using pb_from_u64_holds [of N word] by (simp add: value_ops_def word_bits_64)
  show "pb_holds N w bs \<Longrightarrow> i < N \<Longrightarrow> \<exists>b'. op_bit (value_ops h b u a) N w i = Some b' \<and> b' = bs ! i"
    by (simp add: value_ops_def pb_bit_def word_list_bit_holds)
  show "pb_holds N w bs \<Longrightarrow> \<exists>w'. op_rotate_right (value_ops h b u a) N (div_ceil N 64) w amount = Some w' \<and>
      pb_holds N w' (scalar_rotate_right N bs amount)"
    using pb_rotate_right_holds by (simp add: value_ops_def)
  show "pb_holds N w bs \<Longrightarrow> \<exists>w'. op_shift_right (value_ops h b u a) N (div_ceil N 64) w amount = Some w' \<and>
      pb_holds N w' (scalar_shift_right N id bs amount)"
    using pb_shift_right_holds by (simp add: value_ops_def)
qed (simp_all add: value_ops_def word_zrel_ops word_zrel_ops [simplified])

text \<open>An evaluator at a position of a trace holds the bits up to there.\<close>

definition witness_only_reached :: "trace \<Rightarrow> witness_only \<Rightarrow> nat \<times> nat \<Rightarrow> bool" where
  "witness_only_reached full s p \<longleftrightarrow> fst p \<le> length (fst full) \<and> snd p \<le> length (snd full) \<and>
     pw_holds (wo_witness s) (take (fst p) (fst full))"

definition witgen_reached :: "trace \<Rightarrow> witgen \<Rightarrow> nat \<times> nat \<Rightarrow> bool" where
  "witgen_reached full s p \<longleftrightarrow> fst p \<le> length (fst full) \<and> snd p \<le> length (snd full) \<and>
     pw_holds (wg_witness s) (take (fst p) (fst full)) \<and> pw_holds (wg_integer_witness s) (True # take (snd p) (snd full))"

definition product_reached :: "(stored_integer \<Rightarrow> 'r::comm_ring_1) \<Rightarrow> trace \<Rightarrow> product_witgen \<Rightarrow> nat \<times> nat \<Rightarrow> bool" where
  "product_reached of_stored full s p \<longleftrightarrow> witgen_reached full (pg_witgen s) p \<and>
     of_stored \<lparr>si_words = []\<rparr> = 0 \<and> products_is_satisfied of_stored (pg_products s)"

text \<open>What the three have in common: words do not touch the state, and evaluating a word is the word.\<close>

lemma value_ops_xor:
  "pb_holds N x bs \<Longrightarrow> pb_holds N y cs \<Longrightarrow>
   \<exists>w. op_word_xor (value_ops h b u a) N (div_ceil N 64) x y s = Some (w, s) \<and> pb_holds N w (map (\<lambda>i. bs ! i \<noteq> cs ! i) [0..<N])"
  using pb_xor_holds by (simp add: value_ops_def)

lemma witgen_hint_reached:
  assumes at: "witgen_reached full g p" and room: "room full p (bs, [])" and h: "h value_context = Some (Inr b)" and b: "pb_holds N b bs"
  shows "\<exists>g'. wg_hint N h g = Some (b, g') \<and> witgen_reached full g' (advance p (bs, []))"
proof -
  obtain g' where g': "wg_hint N h g = Some (b, g')" "pw_holds (wg_witness g') (take (fst p) (fst full) @ bs)"
      "wg_integer_witness g' = wg_integer_witness g"
    using wg_hint_holds [of h b N bs g "take (fst p) (fst full)"] at h b by (auto simp: witgen_reached_def)
  moreover have "take (fst p) (fst full) @ bs = take (fst p + length bs) (fst full)"
    using take_append_room [of "fst p" bs "fst full"] room by (simp add: room_def)
  ultimately show ?thesis using at room by (auto simp: witgen_reached_def advance_def room_def)
qed

lemma one_limb_words: "N < 64 \<Longrightarrow> div_ceil N 64 \<le> 1"
  by (simp add: div_ceil_def)

lemma witgen_lift_reached:
  assumes at: "witgen_reached full g p" and room: "room full p ([], bs)" and b: "pb_holds N b bs" and LOW: "LOW \<le> N" and N: "N < 64 * 1"
  shows "\<exists>f l g'. wg_bitz_unsigned 1 N LOW b g = Some ((f, l), g') \<and> witgen_reached full g' (advance p ([], bs)) \<and>
    word_zrel f (of_nat (bits_val bs)) \<and> word_zrel l (of_nat (bits_val (take LOW bs)))"
proof -
  obtain f l g' where g': "wg_bitz_unsigned 1 N LOW b g = Some ((f, l), g')" "wg_witness g' = wg_witness g"
      "pw_holds (wg_integer_witness g') ((True # take (snd p) (snd full)) @ bs)" "length (z_words f) = 1" "length (z_words l) = 1"
      "z_val f = int (bits_val bs)" "z_val l = int (bits_val (take LOW bs))"
    using wg_bitz_unsigned_holds [OF LOW b, of g "True # take (snd p) (snd full)" 1] at N one_limb_words [of N]
    by (auto simp: witgen_reached_def)
  moreover have "take (snd p) (snd full) @ bs = take (snd p + length bs) (snd full)"
    using take_append_room [of "snd p" bs "snd full"] room by (simp add: room_def)
  moreover have "word_zrel f (of_nat (bits_val bs))" "word_zrel l (of_nat (bits_val (take LOW bs)))"
    using g'(4-7) by (auto intro: word_zrel_val)
  ultimately show ?thesis using at room by (auto simp: witgen_reached_def advance_def room_def)
qed

interpretation wg: circuit_honest witgen_ops 1 pb_holds "(=)" word_zrel word_zrel full "witgen_reached full" value_context
  for full
  unfolding witgen_ops_def
proof
  fix s p N w bs x y cs h b LOW
  show "witgen_reached full s p \<Longrightarrow> pb_holds N x bs \<Longrightarrow> pb_holds N y cs \<Longrightarrow>
      \<exists>w s'. op_word_xor (value_ops wg_hint wg_bitz wg_bitz_unsigned wg_assert_r1c) N (div_ceil N 64) x y s = Some (w, s') \<and>
        witgen_reached full s' p \<and> pb_holds N w (map (\<lambda>i. bs ! i \<noteq> cs ! i) [0..<N])"
    using value_ops_xor [of N x bs y cs wg_hint wg_bitz wg_bitz_unsigned wg_assert_r1c s] by auto
  show "witgen_reached full s p \<Longrightarrow> room full p (bs, []) \<Longrightarrow> h value_context = Some (Inr b) \<Longrightarrow> pb_holds N b bs \<Longrightarrow>
      \<exists>w s'. op_hint (value_ops wg_hint wg_bitz wg_bitz_unsigned wg_assert_r1c) N (div_ceil N 64) h s = Some (w, s') \<and>
        witgen_reached full s' (advance p (bs, [])) \<and> pb_holds N w bs"
    using witgen_hint_reached by (fastforce simp: value_ops_def)
  show "witgen_reached full s p \<Longrightarrow> room full p ([], bs) \<Longrightarrow> pb_holds N w bs \<Longrightarrow> LOW \<le> N \<Longrightarrow> N < 64 * 1 \<Longrightarrow>
      \<exists>f l s'. op_bitz_unsigned (value_ops wg_hint wg_bitz wg_bitz_unsigned wg_assert_r1c) 1 N (div_ceil N 64) LOW w s = Some ((f, l), s') \<and>
        witgen_reached full s' (advance p ([], bs)) \<and> word_zrel f (of_nat (bits_val bs)) \<and> word_zrel l (of_nat (bits_val (take LOW bs)))"
    using witgen_lift_reached by (simp add: value_ops_def)
qed (simp_all add: value_ops_def wg_assert_r1c_def)

text \<open>\<open>WitnessOnly\<close> does what \<open>Witgen\<close> does, without the integer witness.\<close>

lemma witness_only_runs_witgen:
  "wg_hint N h g = Some (b, g') \<Longrightarrow> wo_hint N h \<lparr>wo_witness = wg_witness g\<rparr> = Some (b, \<lparr>wo_witness = wg_witness g'\<rparr>)"
  "wg_bitz_unsigned L N LOW b g = Some (zz, g') \<Longrightarrow> wo_bitz_unsigned L N LOW b = Some zz \<and> wg_witness g' = wg_witness g"
  by (auto simp: wg_hint_def wo_hint_def wg_bitz_unsigned_def wo_bitz_unsigned_def split: option.splits sum.splits if_splits)

lemma witness_only_reached_iff:
  "witness_only_reached full s p \<longleftrightarrow> (\<exists>m. witgen_reached full \<lparr>wg_witness = wo_witness s, wg_integer_witness = m\<rparr> p)"
proof
  assume at: "witness_only_reached full s p"
  obtain m where "pw_holds m (True # take (snd p) (snd full))" using extend_holds [OF pw_holds_empty] by fastforce
  with at show "\<exists>m. witgen_reached full \<lparr>wg_witness = wo_witness s, wg_integer_witness = m\<rparr> p"
    by (auto simp: witness_only_reached_def witgen_reached_def)
qed (auto simp: witness_only_reached_def witgen_reached_def)

interpretation wo: circuit_honest witness_only_ops 1 pb_holds "(=)" word_zrel word_zrel full "witness_only_reached full" value_context
  for full
  unfolding witness_only_ops_def
proof
  fix s p N w bs x y cs h b LOW
  let ?C = "value_ops wo_hint (\<lambda>LIMBS v self. Some (wo_bitz LIMBS v, self))
     (\<lambda>LIMBS N LOW bits_le self. map_option (\<lambda>zz. (zz, self)) (wo_bitz_unsigned LIMBS N LOW bits_le)) wo_assert_r1c"
  show "witness_only_reached full s p \<Longrightarrow> pb_holds N x bs \<Longrightarrow> pb_holds N y cs \<Longrightarrow>
      \<exists>w s'. op_word_xor ?C N (div_ceil N 64) x y s = Some (w, s') \<and> witness_only_reached full s' p \<and>
        pb_holds N w (map (\<lambda>i. bs ! i \<noteq> cs ! i) [0..<N])"
    using value_ops_xor [of N x bs y cs _ _ _ _ s] by fastforce
  show "\<exists>w s'. op_hint ?C N (div_ceil N 64) h s = Some (w, s') \<and> witness_only_reached full s' (advance p (bs, [])) \<and> pb_holds N w bs"
    if at: "witness_only_reached full s p" and h: "room full p (bs, [])" "h value_context = Some (Inr b)" "pb_holds N b bs"
  proof -
    obtain m where "witgen_reached full \<lparr>wg_witness = wo_witness s, wg_integer_witness = m\<rparr> p"
      using at by (auto simp: witness_only_reached_iff)
    from witgen_hint_reached [where h = h, OF this h] obtain g' where
      g': "wg_hint N h \<lparr>wg_witness = wo_witness s, wg_integer_witness = m\<rparr> = Some (b, g')" "witgen_reached full g' (advance p (bs, []))"
      by blast
    from witness_only_runs_witgen(1) [OF g'(1)] have "wo_hint N h s = Some (b, \<lparr>wo_witness = wg_witness g'\<rparr>)"
      by (cases s) simp
    moreover have "witness_only_reached full \<lparr>wo_witness = wg_witness g'\<rparr> (advance p (bs, []))"
      using g'(2) by (simp add: witness_only_reached_def witgen_reached_def)
    ultimately show ?thesis using h(3) by (simp add: value_ops_def)
  qed
  show "\<exists>f l s'. op_bitz_unsigned ?C 1 N (div_ceil N 64) LOW w s = Some ((f, l), s') \<and> witness_only_reached full s' (advance p ([], bs)) \<and>
      word_zrel f (of_nat (bits_val bs)) \<and> word_zrel l (of_nat (bits_val (take LOW bs)))"
    if at: "witness_only_reached full s p" and h: "room full p ([], bs)" "pb_holds N w bs" "LOW \<le> N" "N < 64 * 1"
  proof -
    obtain m where "witgen_reached full \<lparr>wg_witness = wo_witness s, wg_integer_witness = m\<rparr> p"
      using at by (auto simp: witness_only_reached_iff)
    from witgen_lift_reached [OF this h] obtain f l g' where
      g': "wg_bitz_unsigned 1 N LOW w \<lparr>wg_witness = wo_witness s, wg_integer_witness = m\<rparr> = Some ((f, l), g')"
        "word_zrel f (of_nat (bits_val bs))" "word_zrel l (of_nat (bits_val (take LOW bs)))" by blast
    moreover have "witness_only_reached full s (advance p ([], bs))"
      using at h(1) by (simp add: witness_only_reached_def room_def advance_def)
    ultimately show ?thesis using witness_only_runs_witgen(2) [OF g'(1)] by (simp add: value_ops_def)
  qed
qed (simp_all add: value_ops_def wo_assert_r1c_def)

lemma stored_zero: "word_zrel z 0 \<Longrightarrow> stored_from_z z = \<lparr>si_words = []\<rparr>"
  by (simp add: word_zrel_def stored_from_z_def z_is_zero_def)

lemma products_push_zero:
  assumes "products_is_satisfied of_stored ps" "of_stored \<lparr>si_words = []\<rparr> = 0" "word_zrel a 0" "word_zrel b 0" "word_zrel c 0"
  shows "products_is_satisfied of_stored (products_push a b c ps)"
  using assms by (simp add: products_is_satisfied_def products_push_def stored_zero)

interpretation pg: circuit_honest product_witgen_ops 1 pb_holds "(=)" word_zrel word_zrel full "product_reached of_stored full" value_context
  for full and of_stored :: "stored_integer \<Rightarrow> 'r::comm_ring_1"
  unfolding product_witgen_ops_def
proof
  fix s p N w bs x y cs h b LOW za zb zc
  show "product_reached of_stored full s p \<Longrightarrow> pb_holds N x bs \<Longrightarrow> pb_holds N y cs \<Longrightarrow>
      \<exists>w s'. op_word_xor (value_ops pg_hint pg_bitz pg_bitz_unsigned pg_assert_r1c) N (div_ceil N 64) x y s = Some (w, s') \<and>
        product_reached of_stored full s' p \<and> pb_holds N w (map (\<lambda>i. bs ! i \<noteq> cs ! i) [0..<N])"
    using value_ops_xor [of N x bs y cs pg_hint pg_bitz pg_bitz_unsigned pg_assert_r1c s] by auto
  show "product_reached of_stored full s p \<Longrightarrow> room full p (bs, []) \<Longrightarrow> h value_context = Some (Inr b) \<Longrightarrow> pb_holds N b bs \<Longrightarrow>
      \<exists>w s'. op_hint (value_ops pg_hint pg_bitz pg_bitz_unsigned pg_assert_r1c) N (div_ceil N 64) h s = Some (w, s') \<and>
        product_reached of_stored full s' (advance p (bs, [])) \<and> pb_holds N w bs"
    using witgen_hint_reached [of full "pg_witgen s" p bs h b N] by (auto simp: value_ops_def pg_hint_def on_witgen_def product_reached_def)
  show "product_reached of_stored full s p \<Longrightarrow> room full p ([], bs) \<Longrightarrow> pb_holds N w bs \<Longrightarrow> LOW \<le> N \<Longrightarrow> N < 64 * 1 \<Longrightarrow>
      \<exists>f l s'. op_bitz_unsigned (value_ops pg_hint pg_bitz pg_bitz_unsigned pg_assert_r1c) 1 N (div_ceil N 64) LOW w s = Some ((f, l), s') \<and>
        product_reached of_stored full s' (advance p ([], bs)) \<and> word_zrel f (of_nat (bits_val bs)) \<and> word_zrel l (of_nat (bits_val (take LOW bs)))"
    using witgen_lift_reached [of full "pg_witgen s" p bs N w LOW]
    by (fastforce simp: value_ops_def pg_bitz_unsigned_def on_witgen_def product_reached_def)
  show "product_reached of_stored full s p \<Longrightarrow> word_zrel za 0 \<Longrightarrow> word_zrel zb 0 \<Longrightarrow> word_zrel zc 0 \<Longrightarrow>
      product_reached of_stored full (op_assert_r1c (value_ops pg_hint pg_bitz pg_bitz_unsigned pg_assert_r1c) za zb zc s) p"
    by (simp add: value_ops_def pg_assert_r1c_def product_reached_def products_push_zero)
qed (simp_all add: value_ops_def)

section \<open>The fused lift of the generator\<close>

lemma lc_add_last:
  assumes "lc_constant x = 0" "w \<noteq> 0" "\<forall>k\<in>set (map fst (lc_witnesses x)). k < i"
  shows "lc_add x (lc_mul (lc_witness i) w) = \<lparr>lc_constant = 0, lc_witnesses = lc_witnesses x @ [(i, w)]\<rparr>"
proof -
  have "fst (last (lc_witnesses x)) < i" if "lc_witnesses x \<noteq> []" using assms(3) that by simp
  then show ?thesis
    using assms(1,2) by (simp add: lc_add_merge lc_mul_def lc_witness_def merge_sorted_vecs_def cmp_nat_def)
qed

lemma default_loop_generator:
  fixes g :: "'r::comm_ring_1 constraint_generator"
  assumes "\<And>i. i < length bs \<Longrightarrow> (2 ^ i :: 'r) \<noteq> 0" "LOW \<le> length bs" "k \<le> length bs"
  defines "m \<equiv> length (cg_m_rows g)"
  shows "default_bitz_loop generator_ops LIMBS (length bs) LOW bs [k..<length bs]
      \<lparr>lc_constant = 0, lc_witnesses = map (\<lambda>i. (m + i, 2 ^ i)) [0..<k]\<rparr>
      \<lparr>lc_constant = 0, lc_witnesses = map (\<lambda>i. (m + i, 2 ^ i)) [0..<min k LOW]\<rparr> (2 ^ k)
      (g\<lparr>cg_m_rows := cg_m_rows g @ take k bs\<rparr>)
    = Some ((\<lparr>lc_constant = 0, lc_witnesses = map (\<lambda>i. (m + i, 2 ^ i)) [0..<length bs]\<rparr>,
             \<lparr>lc_constant = 0, lc_witnesses = map (\<lambda>i. (m + i, 2 ^ i)) [0..<LOW]\<rparr>), g\<lparr>cg_m_rows := cg_m_rows g @ bs\<rparr>)"
  using assms(3)
proof (induction "length bs - k" arbitrary: k)
  case 0
  then show ?case using assms(2) by (simp add: min_absorb2)
next
  case (Suc d)
  then have k: "k < length bs" by simp
  let ?l = "\<lambda>n. \<lparr>lc_constant = 0, lc_witnesses = map (\<lambda>i. (m + i, (2 :: 'r) ^ i)) [0..<n]\<rparr>"
  have len: "length (cg_m_rows g @ take k bs) = m + k" using k by (simp add: m_def)
  have bitz: "cg_bitz (bs ! k) (g\<lparr>cg_m_rows := cg_m_rows g @ take k bs\<rparr>) = (lc_witness (m + k) :: 'r linear_combination, g\<lparr>cg_m_rows := cg_m_rows g @ take (Suc k) bs\<rparr>)"
    using len k by (simp add: cg_bitz_def record_bitz_def take_Suc_conv_app_nth)
  have ops: "op_bit (generator_ops :: (_, _, 'r linear_combination, 'r, _) circuit_ops) (length bs) bs k = Some (bs ! k)"
    "op_bitz (generator_ops :: (_, _, 'r linear_combination, 'r, _) circuit_ops) LIMBS b s = Some (cg_bitz b s)"
    "op_z_add (generator_ops :: (_, _, 'r linear_combination, 'r, _) circuit_ops) = lc_add"
    "op_z_mul (generator_ops :: (_, _, 'r linear_combination, 'r, _) circuit_ops) = lc_mul"
    "op_c_add (generator_ops :: (_, _, 'r linear_combination, 'r, _) circuit_ops) = (+)" for b s
    using k by (simp_all add: generator_ops_def scalar_bit_def)
  have step: "lc_add (?l n) (lc_mul (lc_witness (m + n)) (2 ^ n)) = ?l (Suc n)" if "n < length bs" for n
    using lc_add_last [of "?l n" "2 ^ n" "m + n"] assms(1) [OF that] by auto
  have low: "(if k < LOW then lc_add (?l (min k LOW)) (lc_mul (lc_witness (m + k)) (2 ^ k)) else ?l (min k LOW)) = ?l (min (Suc k) LOW)"
  proof (cases "k < LOW")
    case True
    then show ?thesis using step [OF k] by (simp add: min_absorb1 Suc_leI)
  qed (simp add: min_absorb2)
  have "default_bitz_loop generator_ops LIMBS (length bs) LOW bs [k..<length bs] (?l k) (?l (min k LOW)) (2 ^ k) (g\<lparr>cg_m_rows := cg_m_rows g @ take k bs\<rparr>)
      = default_bitz_loop generator_ops LIMBS (length bs) LOW bs [Suc k..<length bs] (?l (Suc k)) (?l (min (Suc k) LOW)) (2 ^ Suc k)
          (g\<lparr>cg_m_rows := cg_m_rows g @ take (Suc k) bs\<rparr>)"
    unfolding upt_conv_Cons [OF k] default_bitz_loop.simps ops bind.bind_lunit bitz prod.case Let_def step [OF k] low power_Suc mult_2 ..
  also have "\<dots> = Some ((?l (length bs), ?l LOW), g\<lparr>cg_m_rows := cg_m_rows g @ bs\<rparr>)"
    using Suc by (intro Suc.hyps(1)) simp_all
  finally show ?case .
qed

text \<open>C29: The fused lift of the constraint generator records the same rows and returns the same expressions as
  the default implementation of the trait, one lift per bit with running powers of two, whenever those
  powers do not vanish in the coefficient ring.\<close>

theorem fused_lift_is_default:
  fixes g :: "'r::comm_ring_1 constraint_generator"
  assumes "\<And>i. i < length bs \<Longrightarrow> (2 ^ i :: 'r) \<noteq> 0"
  shows "default_bitz_unsigned generator_ops LIMBS (length bs) LOW bs g = op_bitz_unsigned generator_ops LIMBS (length bs) M LOW bs g"
proof (cases "LOW \<le> length bs")
  case True
  obtain f l g' where r: "cg_bitz_unsigned LOW bs g = Some ((f, l), g')"
    using True by (cases "record_bits 0 bs g") (simp add: cg_bitz_unsigned_def)
  note s = bitz_unsigned_spec [OF r]
  have "f = \<lparr>lc_constant = 0, lc_witnesses = map (\<lambda>i. (length (cg_m_rows g) + i, 2 ^ i)) [0..<length bs]\<rparr>"
    "l = \<lparr>lc_constant = 0, lc_witnesses = map (\<lambda>i. (length (cg_m_rows g) + i, 2 ^ i)) [0..<LOW]\<rparr>"
    using s by simp_all
  with default_loop_generator [of bs LOW 0 LIMBS g] assms True r s
  show ?thesis by (simp add: default_bitz_unsigned_def generator_ops_def lc_zero_def lc_from_def)
qed (simp add: default_bitz_unsigned_def generator_ops_def cg_bitz_unsigned_def)

theorem fused_lift_is_default_witness:
  "default_bitz_unsigned generator_ops 1 2 1 [bl_witness 0, bl_from True] (cg_new 1 :: int constraint_generator)
   = op_bitz_unsigned generator_ops 1 2 1 1 [bl_witness 0, bl_from True] (cg_new 1)"
  using fused_lift_is_default [of "[bl_witness 0, bl_from True]" 1 1 "cg_new 1 :: int constraint_generator" 1] by (simp add: numeral_2_eq_2)

end
