(* ===== verification/Circuit_Sha256_Correct.thy ===== *)
theory Circuit_Sha256_Correct
  imports Circuit_Sha256_Message Circuit_Instances
begin

text \<open>
  The SHA-256 circuits on the program's own backends: what the evaluators compute, that their witness
  satisfies the generated constraints, and that no other witness can.
\<close>

section \<open>The backends\<close>

interpretation pg_sha: sha_honest product_witgen_ops pb_holds "(=)" word_zrel word_zrel full "product_reached of_stored full" value_context
  for full and of_stored :: "stored_integer \<Rightarrow> 'r::comm_ring_1"
  using pg.circuit_words_axioms pg.circuit_honest_axioms
  by (intro sha_honest.intro sha_words.intro) (simp_all add: SHA256_Z_LIMBS_def)

interpretation wg_sha: sha_honest witgen_ops pb_holds "(=)" word_zrel word_zrel full "witgen_reached full" value_context
  for full
  using wg.circuit_words_axioms wg.circuit_honest_axioms
  by (intro sha_honest.intro sha_words.intro) (simp_all add: SHA256_Z_LIMBS_def)

interpretation gen_sha_honest: sha_honest generator_ops "gen_holds (length (fst full)) ((!) (fst full))"
    "gen_brel (length (fst full)) ((!) (fst full))" "gen_zrel (length (snd full)) (trace_image full)" "(=)" full "gen_reached full"
    "gen_context ((!) (fst full)) (trace_image full :: nat \<Rightarrow> 'r::comm_ring_1)"
  for full
  by (intro sha_honest.intro sha_words.intro gen.circuit_words_axioms gen_honest.circuit_honest_axioms)

interpretation gen_sha_sound: sha_sound generator_ops "gen_holds (cg_next_boolean_witness G) W" "gen_brel (cg_next_boolean_witness G) W"
    "gen_zrel (length (cg_m_rows G)) (gen_image W G)" "(=)" "gen_ok W G"
  for W and G :: "'r::comm_ring_1 constraint_generator"
  by (intro sha_sound.intro sha_words.intro gen.circuit_words_axioms gen_sound.circuit_sound_axioms)

section \<open>The size of the trace\<close>

lemma fst_trace_append [simp]: "fst (trace_append s t) = fst s @ fst t" "snd (trace_append s t) = snd s @ snd t"
  by (simp_all add: trace_append_def)

lemma length_traces: "length (fst (traces ts)) = (\<Sum>t\<leftarrow>ts. length (fst t))"
  by (induction ts) simp_all

lemma length_sum_trace [simp]: "length (fst (sum_trace N vs)) = N" "length (fst (lift_trace v)) = 0"
  by (simp_all add: sum_trace_def lift_trace_def)

lemma length_schedule_traces: "length (fst (schedule_traces W is)) = 34 * length is"
  by (induction "is" arbitrary: W) (simp_all add: schedule_trace_def)

lemma length_round_trace: "length (fst (round_trace K W st)) = 70"
  by (cases "(K, W, st)" rule: round_trace.cases) simp

lemma length_round_traces: "length (fst (round_traces W st is)) = 70 * length is"
  by (induction "is" arbitrary: st) (simp_all add: length_round_trace)

lemma length_compress_trace: "length (fst (compress_trace M H)) = COMPRESSION_HINT_BITS"
proof -
  have "length (fst (traces (map lift_trace vs))) = 0" for vs by (simp add: length_traces comp_def)
  moreover have "length (fst (traces (map (\<lambda>i. sum_trace 33 (f i)) [0..<8]))) = 264" for f
    by (simp add: length_traces comp_def sum_list_triv)
  ultimately show ?thesis
    unfolding compress_trace_def traces_simps fst_trace_append length_append length_schedule_traces length_round_traces length_upt
    by (simp add: COMPRESSION_HINT_BITS_def)
qed

lemma length_chain_trace: "length (fst (chain_trace m ks H)) = length ks * COMPRESSION_HINT_BITS"
  by (induction ks arbitrary: H) (simp_all add: length_compress_trace)

lemma length_sha256_trace: "length (fst (sha256_trace m)) = (length m div 512 + 1) * COMPRESSION_HINT_BITS"
  by (simp add: sha256_trace_def length_chain_trace length_compress_trace)

text \<open>A generator and an evaluator set up for a message, and run.\<close>

definition message_getter :: "bool list \<Rightarrow> nat \<Rightarrow> bool option" where
  "message_getter m i = (if i < length m then Some (m ! i) else None)"

definition sha256_generate :: "nat \<Rightarrow> (bool_linear_combination list \<times> 'r::comm_ring_1 constraint_generator) option" where
  "sha256_generate n = (let g = cg_new n in sha256_block_aligned_circuit generator_ops n (cg_input g) g)"

definition sha256_evaluate :: "bool list \<Rightarrow> nat \<Rightarrow> (bool list \<times> product_witgen) option" where
  "sha256_evaluate m capacity =
     do {
       g \<leftarrow> pg_with_inputs_and_capacity m capacity;
       sha256_block_aligned_circuit product_witgen_ops (length m) (message_getter m) g
     }"

text \<open>The witness and the lifted bits of a message.\<close>

definition sha256_record :: "bool list \<Rightarrow> trace" where
  "sha256_record m = (m @ fst (sha256_trace m), snd (sha256_trace m))"

lemma room_record: "room (sha256_record m) (length m, 0) (sha256_trace m)"
  by (simp add: room_def sha256_record_def)

lemma advance_record: "advance (length m, 0) (sha256_trace m) = (length (fst (sha256_record m)), length (snd (sha256_record m)))"
  by (simp add: advance_def sha256_record_def)

lemma list_all2_eq_iff: "list_all2 (=) xs ys \<longleftrightarrow> xs = ys"
  by (simp add: list.rel_eq)

lemma product_run:
  assumes "length m mod 512 = 0" "length m < 2 ^ 64" "length m \<le> capacity" "of_stored \<lparr>si_words = []\<rparr> = (0 :: 'r::comm_ring_1)"
  shows "\<exists>p. sha256_evaluate m capacity = Some (digest_bits (sha256 ROUND_CONSTANTS INITIAL_STATE m), p) \<and>
    pw_holds (wg_witness (pg_witgen p)) (fst (sha256_record m)) \<and>
    pw_holds (wg_integer_witness (pg_witgen p)) (True # snd (sha256_record m)) \<and> products_is_satisfied of_stored (pg_products p)"
proof -
  obtain g0 where g0: "wg_seeded m capacity = Some g0" "pw_holds (wg_witness g0) m" "pw_holds (wg_integer_witness g0) [True]"
    using wg_seeded_holds [OF assms(3)] by blast
  let ?p0 = "\<lparr>pg_witgen = g0, pg_products = products_default\<rparr>"
  have p0: "pg_with_inputs_and_capacity m capacity = Some ?p0"
    by (simp add: pg_with_inputs_and_capacity_def with_products_def wg_with_inputs_and_capacity_def g0(1))
  have start: "product_reached of_stored (sha256_record m) ?p0 (length m, 0)"
    using assms(4) g0(2,3) by (simp add: product_reached_def witgen_reached_def sha256_record_def products_is_satisfied_def products_default_def)
  have getter: "\<exists>b. message_getter m i = Some b \<and> b = m ! i" if "i < length m" for i using that by (simp add: message_getter_def)
  from pg_sha.honest_sha256 [OF getter start assms(1,2)] room_record [of m] obtain p where
    "sha256_block_aligned_circuit product_witgen_ops (length m) (message_getter m) ?p0 = Some (digest_bits (sha256 ROUND_CONSTANTS INITIAL_STATE m), p)"
    "product_reached of_stored (sha256_record m) p (advance (length m, 0) (sha256_trace m))"
    unfolding pg.honest_def list_all2_eq_iff by blast
  then show ?thesis unfolding advance_record by (simp add: sha256_evaluate_def p0 product_reached_def witgen_reached_def)
qed

lemma generator_run:
  assumes "length m mod 512 = 0" "block_aligned_witness_bits (length m) = Some total_bits" "total_bits < 2 ^ 64"
  shows "\<exists>outs (G :: 'r::comm_ring_1 constraint_generator). sha256_generate (length m) = Some (outs, G) \<and>
    gen_reached (sha256_record m) G (length (fst (sha256_record m)), length (snd (sha256_record m)))"
proof -
  have t: "total_bits = length (fst (sha256_record m))"
    using assms(1,2) by (simp add: block_aligned_witness_bits_def sha256_record_def length_sha256_trace)
  have n: "length m \<le> length (fst (sha256_record m))" by (simp add: sha256_record_def)
  have start: "gen_reached (sha256_record m) (cg_new (length m) :: 'r constraint_generator) (length m, 0)"
    using n assms(3) t by (simp add: gen_reached_def cg_new_def)
  have getter: "\<exists>b. cg_input (cg_new (length m) :: 'r constraint_generator) i = Some b \<and>
      gen_brel (length (fst (sha256_record m))) ((!) (fst (sha256_record m))) b (m ! i)" if "i < length m" for i
    using that n by (simp add: cg_input_def cg_new_def gen_brel_def sha256_record_def nth_append)
  have "length m < 2 ^ 64" using n t assms(3) by linarith
  from gen_sha_honest.honest_sha256 [OF getter start assms(1) this] room_record [of m] show ?thesis
    unfolding gen_honest.honest_def advance_record sha256_generate_def Let_def by blast
qed

lemma gen_reached_end:
  assumes "gen_reached full G (length (fst full), length (snd full))"
  shows "cg_wf G" "cg_next_boolean_witness G = length (fst full)" "length (cg_m_rows G) = length (snd full)"
    "map (bl_eval ((!) (fst full))) (cg_m_rows G) = snd full"
  using assms gen_reached_rows [OF assms] by (auto simp: gen_reached_def cg_wf_def)

lemma lc_eval_cong:
  assumes "lc_wf n l" "\<And>i. i < n \<Longrightarrow> y i = z i"
  shows "lc_eval y l = lc_eval z l"
proof -
  have "\<forall>(i, c)\<in>set ws. i < n \<Longrightarrow> foldr (\<lambda>t v. (case t of (i, c) \<Rightarrow> c * y i) + v) ws 0 = foldr (\<lambda>t v. (case t of (i, c) \<Rightarrow> c * z i) + v) ws 0" for ws
    by (induction ws) (auto simp: assms(2))
  with assms(1) show ?thesis by (simp add: lc_eval_def lc_wf_def)
qed

lemma constraint_cong:
  assumes "cg_wf G" "t \<in> set (cg_r1cs G)" "\<And>i. i < length (cg_m_rows G) \<Longrightarrow> y i = z i"
  shows "constraint_holds y t \<longleftrightarrow> constraint_holds z t"
proof -
  obtain a b c where t: "t = (a, b, c)" by (cases t)
  have "lc_eval y l = lc_eval z l" if "l \<in> {a, b, c}" for l
    using assms(1,2) that by (intro lc_eval_cong [OF _ assms(3)]) (auto simp: cg_wf_def t)
  then show ?thesis by (simp add: constraint_holds_def t)
qed

lemma find_constraint_None:
  "find (\<lambda>r. \<not> P (xs ! r)) [0..<length xs] = None \<longleftrightarrow> (\<forall>x\<in>set xs. P x)"
  by (auto simp: find_None_iff set_conv_nth)

lemma witness_satisfies:
  assumes "gen_reached full G (length (fst full), length (snd full))" "pw_holds w (fst full)"
  shows "check_witness (into_matrices G) w = Some (Inr ())"
proof -
  note e = gen_reached_end [OF assms(1)]
  have image: "m_image (fst full) G ! i = trace_image full i" if "i < length (cg_m_rows G)" for i
    using that arg_cong [OF e(4), of "\<lambda>xs. xs ! i"] by (simp add: m_image_def trace_image_def)
  have "constraint_holds ((!) (m_image (fst full) G)) t" if "t \<in> set (cg_r1cs G)" for t
  proof -
    have "constraint_holds (trace_image full) t" using assms(1) that by (cases t) (auto simp: gen_reached_def)
    with constraint_cong [OF e(1) that, of "(!) (m_image (fst full) G)" "trace_image full"] image show ?thesis by blast
  qed
  then have "find (\<lambda>r. \<not> constraint_holds ((!) (m_image (fst full) G)) (cg_r1cs G ! r)) [0..<length (cg_r1cs G)] = None"
    by (simp add: find_constraint_None)
  with check_witness_find [OF e(1) assms(2)] e(2) show ?thesis by simp
qed

lemma constraints_determine_digest:
  assumes "sha256_generate n = Some (outs, G :: 'r::comm_ring_1 constraint_generator)"
    "small_numbers_distinct TYPE('r)" "block_aligned_witness_bits n = Some total_bits" "total_bits < 2 ^ 64"
    "pw_holds w bs" "check_witness (into_matrices G) w = Some (Inr ())"
  shows "length bs = total_bits \<and> map (bl_eval ((!) bs)) outs = digest_bits (sha256 ROUND_CONSTANTS INITIAL_STATE (take n bs))"
proof -
  have aligned: "n mod 512 = 0" and total_bits: "total_bits = n + (n div 512 + 1) * COMPRESSION_HINT_BITS"
    using assms(3) by (simp_all add: block_aligned_witness_bits_def split: if_splits)
  define dummy where "dummy = replicate n False"
  have d: "length dummy = n" by (simp add: dummy_def)
  obtain outs' and G' :: "'r constraint_generator" where run: "sha256_generate n = Some (outs', G')"
      and end0: "gen_reached (sha256_record dummy) G' (length (fst (sha256_record dummy)), length (snd (sha256_record dummy)))"
    using generator_run [of dummy total_bits] aligned assms(3,4) unfolding d by blast
  have G': "G' = G" using run assms(1) by simp
  note e = gen_reached_end [OF end0, unfolded G']
  have count: "cg_next_boolean_witness G = total_bits"
    using e(2) by (simp add: sha256_record_def length_sha256_trace d total_bits)
  have len: "length bs = cg_next_boolean_witness G"
  proof (rule ccontr)
    assume "length bs \<noteq> cg_next_boolean_witness G"
    then have "check_witness (into_matrices G) w = Some (Inl (WitnessLength (cg_next_boolean_witness G) (length bs)))"
      using pw_holds_len [OF assms(5)]
      by (simp add: check_witness_def into_matrices_sizes integer_witness_def) (simp add: into_matrices_def Let_def)
    with assms(6) show False by simp
  qed
  have "find (\<lambda>r. \<not> constraint_holds ((!) (m_image bs G)) (cg_r1cs G ! r)) [0..<length (cg_r1cs G)] = None"
    using check_witness_find [OF e(1) assms(5) len] assms(6) by (auto split: option.splits)
  then have holds: "\<forall>t\<in>set (cg_r1cs G). constraint_holds ((!) (m_image bs G)) t" by (simp add: find_constraint_None)
  have "constraint_holds (gen_image ((!) bs) G) t" if "t \<in> set (cg_r1cs G)" for t
    using holds that constraint_cong [OF e(1) that, of "(!) (m_image bs G)" "gen_image ((!) bs) G"]
    by (simp add: m_image_def gen_image_def)
  then have ok: "gen_ok ((!) bs) G G" using assms(2) by (simp add: gen_ok_def)
  have n: "n \<le> length bs" using len count total_bits by simp
  then have ln: "length (take n bs) = n" by simp
  have getter: "\<exists>b. cg_input (cg_new n :: 'r constraint_generator) i = Some b \<and>
      gen_brel (cg_next_boolean_witness G) ((!) bs) b (take n bs ! i)" if "i < length (take n bs)" for i
    using that n len by (simp add: cg_input_def cg_new_def gen_brel_def)
  have "list_all2 (gen_brel (cg_next_boolean_witness G) ((!) bs)) outs (digest_bits (sha256 ROUND_CONSTANTS INITIAL_STATE (take n bs)))"
    using gen_sha_sound.sound_sha256 [where message_bit = "cg_input (cg_new n)" and m = "take n bs", OF getter] ok assms(1)
    unfolding sound_run_def ln sha256_generate_def Let_def by blast
  then have "map (bl_eval ((!) bs)) outs = digest_bits (sha256 ROUND_CONSTANTS INITIAL_STATE (take n bs))"
    by (induction rule: list_all2_induct) (simp_all add: gen_brel_def)
  with len count show ?thesis by simp
qed

section \<open>The circuit and the standard\<close>

text \<open>C10: The constraints of the block-aligned SHA-256 circuit are sound.  Whatever bits a witness gives the
  hints, if it satisfies the generated matrices then the output expressions evaluate to the SHA-256
  digest of its message bits, padded as FIPS 180-4 demands.  The coefficient ring only has to tell
  numbers below \<open>2 ^ 40\<close> apart.\<close>

theorem sha256_constraints_sound:
  assumes "sha256_generate n = Some (outs, G :: 'r::comm_ring_1 constraint_generator)" "small_numbers_distinct TYPE('r)"
    and "block_aligned_witness_bits n = Some total_bits" "total_bits < 2 ^ 64"
    and "pw_holds w bs" "check_witness (into_matrices G) w = Some (Inr ())"
  shows "length bs = total_bits \<and> map (bl_eval ((!) bs)) outs = digest_bits (sha256 ROUND_CONSTANTS INITIAL_STATE (take n bs))"
  using assms by (rule constraints_determine_digest)

lemma sha256_accepted:
  assumes "length m mod 512 = 0" "block_aligned_witness_bits (length m) = Some total_bits" "total_bits < 2 ^ 64"
    and "of_stored \<lparr>si_words = []\<rparr> = (0 :: 'v::comm_ring_1)"
  shows "\<exists>p outs (G :: 'r::comm_ring_1 constraint_generator) bs.
    sha256_evaluate m total_bits = Some (digest_bits (sha256 ROUND_CONSTANTS INITIAL_STATE m), p) \<and>
    sha256_generate (length m) = Some (outs, G) \<and>
    pw_holds (wg_witness (pg_witgen p)) bs \<and> length bs = total_bits \<and> take (length m) bs = m \<and>
    check_witness (into_matrices G) (wg_witness (pg_witgen p)) = Some (Inr ()) \<and>
    pw_holds (wg_integer_witness (pg_witgen p)) (True # map (bl_eval ((!) bs)) (cg_m_rows G)) \<and>
    products_is_satisfied of_stored (pg_products p)"
proof -
  have t: "total_bits = length (fst (sha256_record m))" "length m \<le> total_bits"
    using assms(1,2) by (auto simp: block_aligned_witness_bits_def sha256_record_def length_sha256_trace)
  have n: "length m < 2 ^ 64" using t assms(3) by linarith
  obtain p where p: "sha256_evaluate m total_bits = Some (digest_bits (sha256 ROUND_CONSTANTS INITIAL_STATE m), p)"
      "pw_holds (wg_witness (pg_witgen p)) (fst (sha256_record m))"
      "pw_holds (wg_integer_witness (pg_witgen p)) (True # snd (sha256_record m))" "products_is_satisfied of_stored (pg_products p)"
    using product_run [where of_stored = of_stored, OF assms(1) n t(2) assms(4)] by blast
  obtain outs and G :: "'r constraint_generator" where G: "sha256_generate (length m) = Some (outs, G)"
      "gen_reached (sha256_record m) G (length (fst (sha256_record m)), length (snd (sha256_record m)))"
    using generator_run [OF assms(1-3)] by blast
  show ?thesis
    using p G t(1) witness_satisfies [OF G(2) p(2)] gen_reached_end(4) [OF G(2)]
    by (intro exI [of _ p] exI [of _ outs] exI [of _ G] exI [of _ "fst (sha256_record m)"]) (simp add: sha256_record_def)
qed

text \<open>C11: On every block-aligned message the evaluator runs the circuit to the end and returns its SHA-256
  digest; the witness it records has the advertised length, begins with the message and satisfies the
  constraints the generator recorded for the same circuit; the integer witness it records beside it is
  the image of that witness under the generated matrix; and the row products it stores satisfy the
  constraints too.\<close>

theorem sha256_evaluator_satisfies_generator:
  assumes "length m mod 512 = 0" "block_aligned_witness_bits (length m) = Some total_bits" "total_bits < 2 ^ 64"
    and "of_stored \<lparr>si_words = []\<rparr> = (0 :: 'v::comm_ring_1)"
  shows "\<exists>p outs (G :: 'r::comm_ring_1 constraint_generator) bs.
    sha256_evaluate m total_bits = Some (digest_bits (sha256 ROUND_CONSTANTS INITIAL_STATE m), p) \<and>
    sha256_generate (length m) = Some (outs, G) \<and>
    pw_holds (wg_witness (pg_witgen p)) bs \<and> length bs = total_bits \<and> take (length m) bs = m \<and>
    check_witness (into_matrices G) (wg_witness (pg_witgen p)) = Some (Inr ()) \<and>
    pw_holds (wg_integer_witness (pg_witgen p)) (True # map (bl_eval ((!) bs)) (cg_m_rows G)) \<and>
    products_is_satisfied of_stored (pg_products p)"
  using assms by (rule sha256_accepted)

lemma empty_message_bits: "block_aligned_witness_bits 0 = Some 6376" "(6376 :: nat) < 2 ^ 64"
  by (simp_all add: block_aligned_witness_bits_def COMPRESSION_HINT_BITS_def)

theorem sha256_evaluator_satisfies_generator_witness:
  "\<exists>p outs (G :: int constraint_generator) bs.
    sha256_evaluate [] 6376 = Some (digest_bits (sha256 ROUND_CONSTANTS INITIAL_STATE []), p) \<and>
    sha256_generate 0 = Some (outs, G) \<and>
    pw_holds (wg_witness (pg_witgen p)) bs \<and> length bs = 6376 \<and> take 0 bs = [] \<and>
    check_witness (into_matrices G) (wg_witness (pg_witgen p)) = Some (Inr ()) \<and>
    pw_holds (wg_integer_witness (pg_witgen p)) (True # map (bl_eval ((!) bs)) (cg_m_rows G)) \<and>
    products_is_satisfied (\<lambda>_. 0 :: int) (pg_products p)"
proof -
  have "length ([] :: bool list) mod 512 = 0" "block_aligned_witness_bits (length ([] :: bool list)) = Some 6376"
    using empty_message_bits by simp_all
  from sha256_evaluator_satisfies_generator [where 'r = int and of_stored = "\<lambda>_. 0 :: int", OF this empty_message_bits(2)] show ?thesis by simp
qed

theorem sha256_constraints_sound_witness:
  "\<exists>outs (G :: int constraint_generator) w bs. sha256_generate 0 = Some (outs, G) \<and> pw_holds w bs \<and>
    check_witness (into_matrices G) w = Some (Inr ()) \<and>
    length bs = 6376 \<and> map (bl_eval ((!) bs)) outs = digest_bits (sha256 ROUND_CONSTANTS INITIAL_STATE (take 0 bs))"
proof -
  have "length ([] :: bool list) mod 512 = 0" "block_aligned_witness_bits (length ([] :: bool list)) = Some 6376"
    using empty_message_bits by simp_all
  from sha256_accepted [where 'r = int and of_stored = "\<lambda>_. 0 :: int", OF this empty_message_bits(2), unfolded list.size(3), OF refl] obtain p :: product_witgen and outs and G :: "int constraint_generator" and bs
    where G: "sha256_generate 0 = Some (outs, G)" "pw_holds (wg_witness (pg_witgen p)) bs"
      "check_witness (into_matrices G) (wg_witness (pg_witgen p)) = Some (Inr ())" by blast
  have "small_numbers_distinct TYPE(int)" by (simp add: small_numbers_distinct_def)
  from sha256_constraints_sound [OF G(1) this empty_message_bits G(2,3)] G show ?thesis by blast
qed

end
