(* ===== verification/Spec2Isabelle.thy ===== *)
theory Spec2Isabelle
  imports Post_Gkr_Correct Host Spartan_Piop Circuit_Sha256_Correct
begin

text \<open>
  A verification library for BitZ, the Rust workspace under \<open>src/crates\<close>.

  BitZ proves linear claims about committed bits.  A claim over a prime field (a bilinear form in the
  bits, given by row and column weights, equal to a target) is moved to the field \<open>GF(2^128)\<close>: the
  prover folds every column of the bit table into an integer, the verifier checks the folds against the
  target and raises a generator to them, and a grand-product argument reduces the product of these powers
  to one evaluation query about the bits, which a commitment scheme opens.  A second protocol, Spartan over
  R1CS constraints, and a circuit library that generates such constraints (with SHA-256 as its circuit)
  share the fields, the polynomials and the transcript.

  \<^bold>\<open>Conventions.\<close>
  Rust's unsigned integers are words (\<open>u64\<close>, \<open>u128\<close>) and wrap as a release build does; \<open>usize\<close> indices
  are natural numbers.  A panic is \<open>None\<close>, a returned error \<open>Some (Inl e)\<close> or \<open>Inl e\<close>, a value
  \<open>Inr v\<close>; state is passed explicitly.  Debug assertions are not part of a release build.  The
  parallel branches of an iterator compute the same exact sums in another order and are not distinguished.
  Const generics are arguments; traits are records of operations.

  \<^bold>\<open>Theories, in the order of the code's layers.\<close>

  \<^item> \<open>BitZ_Prelude\<close>: words, bytes, lists; \<open>Primes\<close>: the elementary number theory behind the primality test;
    \<open>Gf2_Poly\<close>: polynomials over two elements as bit strings; \<open>Checked_Slices\<close>: slice reads that panic out
    of range, and the loops over them.
  \<^item> \<open>crates/field\<close>: \<open>Field_Helpers\<close> (\<open>helpers.rs\<close>: Barrett reduction, the Miller-Rabin test with its sieve),
    \<open>Field_Fq\<close> (\<open>fq.rs\<close>), \<open>Field_Dyn\<close> (\<open>dynamic.rs\<close>, the five atomic words as a state), \<open>Gf128\<close>,
    \<open>Gf128_Field\<close>, \<open>Gf128_Pow\<close> (\<open>gf128.rs\<close>, \<open>portable.rs\<close>, \<open>wide.rs\<close>, \<open>pow.rs\<close>, \<open>codec.rs\<close>).  The type \<open>f128\<close>
    is an instance of the class \<open>field\<close>, with the code's multiplication and inversion.
  \<^item> \<open>crates/poly\<close>: \<open>Poly_Mle\<close> (\<open>eq.rs\<close>, \<open>mle.rs\<close>, \<open>f128.rs\<close>), \<open>Poly_Nat\<close> (\<open>nat_evaluation.rs\<close>, \<open>parallel.rs\<close>).
  \<^item> \<open>crates/common\<close>: \<open>Common_Shape\<close>, \<open>Common_Matrix\<close> (bit tables and their blocked transpose), \<open>Common_Params\<close>,
    \<open>Common_Fold\<close> (with the two \<open>setup.rs\<close>), \<open>Common_Virtual\<close>.
  \<^item> \<open>crates/transcript\<close>: \<open>Transcript\<close> (both states, hints, grinding, challenges, the samplers).
  \<^item> \<open>crates/gkr\<close>: \<open>Gkr\<close>, \<open>Gkr_Correct\<close>; \<open>crates/prover\<close> and \<open>crates/verifier\<close>: \<open>Protocol\<close>, \<open>Protocol_Correct\<close>;
    \<open>crates/post_gkr\<close>: \<open>Post_Gkr\<close>, \<open>Post_Gkr_Correct\<close>; \<open>crates/host\<close>: \<open>Host\<close>.
  \<^item> \<open>crates/circuit\<close>: \<open>Circuit_Packed\<close>, \<open>Circuit_Z\<close>, \<open>Circuit_Products\<close>, \<open>Circuit_Constraints\<close>, \<open>Circuit_Witgen\<close> (packed
    bits, fixed-width integers, exact products modulo a prime, the constraint generator, the evaluators),
    \<open>Circuit_Backend\<close> (the traits as a record with one instance per backend), \<open>Circuit_Laws\<close>,
    \<open>Circuit_Instances\<close>, and SHA-256: \<open>Circuit_Sha256\<close> (the circuit), \<open>Sha256_Spec\<close> (FIPS 180-4),
    \<open>Circuit_Sha256_Words\<close>, \<open>_Sound\<close>, \<open>_Honest\<close>, \<open>_Message\<close>, \<open>_Correct\<close>.
  \<^item> \<open>crates/spartan\<close>: \<open>Spartan_Sumcheck\<close> (\<open>sumcheck.rs\<close>), \<open>Spartan_Rounds\<close>, \<open>Spartan_Tables\<close>,
    \<open>Spartan_Sumcheck_Correct\<close>, \<open>Spartan_Sumcheck_Sound\<close>, \<open>Spartan_Matrix\<close> (\<open>matrix.rs\<close>), \<open>Spartan_Matrix_Correct\<close>,
    \<open>Spartan_Piop\<close> (\<open>piop.rs\<close>).

  \<^bold>\<open>Interfaces.\<close>
  \<open>residue_arith\<close> is what protocol code uses of a prime field; \<open>Fq\<close>, \<open>DynField\<close> and the field of a claim
  interpret it.  \<open>exponents\<close> is the exponent argument of group orders, used modulo a prime and in \<open>f128\<close>.
  \<open>replayed\<close> relates the prover's and the verifier's transcript of Spartan and holds of the two states of
  \<open>Transcript\<close>; \<open>round_tables\<close> relates the tables of a sumcheck to its messages and holds of the outer
  (degree 3) and the inner (degree 2) tables.  \<open>sorted_merge\<close> is the merge of sorted sparse rows, for Boolean
  and for integer entries.  \<open>circuit_words\<close>, \<open>circuit_honest\<close> and \<open>circuit_sound\<close> are what a circuit may rely
  on in a backend: the generator keeps both contracts, the three evaluators the honest one;
  \<open>sha_words\<close>, \<open>sha_honest\<close> and \<open>sha_sound\<close> carry them through SHA-256.

  \<^bold>\<open>What is proved.\<close>
  The protocol: an honest proof is produced and accepted (direct and virtual claims), acceptance is
  characterised by an explicit list of checks, and the verifiers return a value on every transcript unless
  the commitment scheme's own verifier fails to.  The grand product: the layers compute the products, the
  reduction is complete, and a round is sound up to the roots of a fixed polynomial; likewise the
  reduction after it.  Spartan: completeness, soundness challenge by challenge, progress of the prover with every
  slice read checked, and the equality of the fused and factored kernels with the textbook prover.  SHA-256:
  the evaluator returns the digest and a witness that satisfies the generated constraints, and every
  assignment that satisfies them carries the digest.  The remaining lemmas are the functional behaviour of
  the layers below: exact modular arithmetic, the field structure, interpolation, codecs and frames that are
  injective, round trips of the proof container with its error order, and the samplers.

  \<^bold>\<open>Termination.\<close>
  No definition uses fuel.  Loops are recursions with a measure; the three rejection samplers of
  \<open>Transcript\<close> may run forever and are partial functions with \<open>None\<close> for not returning, so a theorem that
  one returns says so.  The grinding search is bounded by the range of its nonce as in the code.

  \<^bold>\<open>Parameters.\<close>
  spongefish is the record \<open>spongefish\<close> with its codec contract \<open>spongefish_ok\<close>; blake3 and sha256 are functions; the
  commitment scheme over flock is the record \<open>commit_scheme\<close> with the contract \<open>opens\<close> for completeness;
  a virtual map is the record \<open>virtual_map\<close> with \<open>virtual_map_ok\<close>.  Each contract is shown satisfiable by an
  instance used in a witness.

  \<^bold>\<open>Not modelled.\<close>
  The commitment scheme itself (\<open>crates/pcs\<close>, built on the external crate flock), the ECDSA circuit
  (\<open>p256.rs\<close>, \<open>ecdsa_sha256.rs\<close>), the alternative matrix evaluators (\<open>matrix_sparse.rs\<close>, \<open>matrix_transpose.rs\<close>,
  \<open>matrix_wengert.rs\<close>), the counting backend \<open>stats.rs\<close>, the aarch64 multiplication kernel, formatting and
  debug output, the command line, benchmarks and tests.  The probability of the bad challenges of the
  soundness theorems is not stated: each is a set, fixed before the challenge, with its size.
\<close>

end
